(* ===== verification/Prelude.thy ===== *)
theory Prelude
  imports Complex_Main "HOL-Library.Word" "HOL-Library.Multiset"
begin

unbundle bit_operations_syntax

section \<open>Prelude: constants, types and shared lemmas\<close>

text \<open>
  What every theory of the development shares: the names of the bit masks that
  \<^verbatim>\<open>ev.h\<close> declares, the machine types the library uses, and generic lemmas on
  function-valued arrays, multisets of array entries and machine words.

  Arrays of the C code are functions from their index type; a write is a function update.
  What the code allocates is tracked separately, in the \<open>\<dots>max\<close> fields, so that
  "the write is inside the allocated block" is a theorem and not a side effect of the
  representation.
\<close>

named_theorems ev_defs \<open>definitions of operations that component proofs unfold\<close>
named_theorems frame \<open>what an operation leaves unchanged\<close>

subsection \<open>Machine types\<close>

type_synonym u8 = "8 word"
type_synonym u16 = "16 word"
type_synonym u32 = "32 word"
type_synonym u64 = "64 word"

subsection \<open>Event masks (\<^verbatim>\<open>ev.h\<close>, the \<^verbatim>\<open>eventmask\<close> enumeration)\<close>

abbreviation (input) EV_NONE :: u32 where "EV_NONE \<equiv> 0"
abbreviation (input) EV_READ :: u32 where "EV_READ \<equiv> 0x01"
abbreviation (input) EV_WRITE :: u32 where "EV_WRITE \<equiv> 0x02"
abbreviation (input) EV__IOFDSET :: u32 where "EV__IOFDSET \<equiv> 0x80"
abbreviation (input) EV_TIMER :: u32 where "EV_TIMER \<equiv> 0x100"
abbreviation (input) EV_PERIODIC :: u32 where "EV_PERIODIC \<equiv> 0x200"
abbreviation (input) EV_SIGNAL :: u32 where "EV_SIGNAL \<equiv> 0x400"
abbreviation (input) EV_CHILD :: u32 where "EV_CHILD \<equiv> 0x800"
abbreviation (input) EV_STAT :: u32 where "EV_STAT \<equiv> 0x1000"
abbreviation (input) EV_IDLE :: u32 where "EV_IDLE \<equiv> 0x2000"
abbreviation (input) EV_PREPARE :: u32 where "EV_PREPARE \<equiv> 0x4000"
abbreviation (input) EV_CHECK :: u32 where "EV_CHECK \<equiv> 0x8000"
abbreviation (input) EV_EMBED :: u32 where "EV_EMBED \<equiv> 0x10000"
abbreviation (input) EV_FORK :: u32 where "EV_FORK \<equiv> 0x20000"
abbreviation (input) EV_CLEANUP :: u32 where "EV_CLEANUP \<equiv> 0x40000"
abbreviation (input) EV_ASYNC :: u32 where "EV_ASYNC \<equiv> 0x80000"
abbreviation (input) EV_CUSTOM :: u32 where "EV_CUSTOM \<equiv> 0x1000000"
abbreviation (input) EV_ERROR :: u32 where "EV_ERROR \<equiv> 0x80000000"

text \<open>The internal reification flag (\<^verbatim>\<open>ev.c\<close>, \<^verbatim>\<open>EV_ANFD_REIFY\<close>).\<close>

abbreviation (input) EV_ANFD_REIFY :: u32 where "EV_ANFD_REIFY \<equiv> 1"

subsection \<open>Loop flags and backend bits (\<^verbatim>\<open>ev.h\<close>)\<close>

abbreviation (input) EVFLAG_NOENV :: u32 where "EVFLAG_NOENV \<equiv> 0x01000000"
abbreviation (input) EVFLAG_FORKCHECK :: u32 where "EVFLAG_FORKCHECK \<equiv> 0x02000000"
abbreviation (input) EVFLAG_NOINOTIFY :: u32 where "EVFLAG_NOINOTIFY \<equiv> 0x00100000"
abbreviation (input) EVFLAG_SIGNALFD :: u32 where "EVFLAG_SIGNALFD \<equiv> 0x00200000"
abbreviation (input) EVFLAG_NOSIGMASK :: u32 where "EVFLAG_NOSIGMASK \<equiv> 0x00400000"
abbreviation (input) EVFLAG_NOTIMERFD :: u32 where "EVFLAG_NOTIMERFD \<equiv> 0x00800000"

abbreviation (input) EVBACKEND_SELECT :: u32 where "EVBACKEND_SELECT \<equiv> 0x01"
abbreviation (input) EVBACKEND_POLL :: u32 where "EVBACKEND_POLL \<equiv> 0x02"
abbreviation (input) EVBACKEND_EPOLL :: u32 where "EVBACKEND_EPOLL \<equiv> 0x04"
abbreviation (input) EVBACKEND_KQUEUE :: u32 where "EVBACKEND_KQUEUE \<equiv> 0x08"
abbreviation (input) EVBACKEND_PORT :: u32 where "EVBACKEND_PORT \<equiv> 0x20"
abbreviation (input) EVBACKEND_LINUXAIO :: u32 where "EVBACKEND_LINUXAIO \<equiv> 0x40"
abbreviation (input) EVBACKEND_IOURING :: u32 where "EVBACKEND_IOURING \<equiv> 0x80"
abbreviation (input) EVBACKEND_MASK :: u32 where "EVBACKEND_MASK \<equiv> 0xFFFF"

abbreviation (input) EVRUN_NOWAIT :: u32 where "EVRUN_NOWAIT \<equiv> 1"
abbreviation (input) EVRUN_ONCE :: u32 where "EVRUN_ONCE \<equiv> 2"
abbreviation (input) EVRUN_NOPOLL :: u32 where "EVRUN_NOPOLL \<equiv> 4"

abbreviation (input) EVBREAK_CANCEL :: nat where "EVBREAK_CANCEL \<equiv> 0"
abbreviation (input) EVBREAK_ONE :: nat where "EVBREAK_ONE \<equiv> 1"
abbreviation (input) EVBREAK_ALL :: nat where "EVBREAK_ALL \<equiv> 2"
abbreviation (input) EVBREAK_RECURSE :: nat where "EVBREAK_RECURSE \<equiv> 0x80"

abbreviation (input) EV_MINPRI :: int where "EV_MINPRI \<equiv> - 2"
abbreviation (input) EV_MAXPRI :: int where "EV_MAXPRI \<equiv> 2"
abbreviation (input) NUMPRI :: nat where "NUMPRI \<equiv> 5"
abbreviation (input) INT_MAX :: nat where "INT_MAX \<equiv> 0x7FFFFFFF"

subsection \<open>Arrays as functions: the entries of a slice\<close>

definition slice_mset :: "(nat \<Rightarrow> 'a) \<Rightarrow> nat \<Rightarrow> nat \<Rightarrow> 'a multiset" where
  "slice_mset a lo hi = image_mset a (mset_set {lo..<hi})"

lemma slice_mset_cong: "(\<And>i. lo \<le> i \<Longrightarrow> i < hi \<Longrightarrow> a i = b i) \<Longrightarrow> slice_mset a lo hi = slice_mset b lo hi"
  unfolding slice_mset_def by (rule image_mset_cong) simp

lemma set_slice_mset [simp]: "set_mset (slice_mset a lo hi) = a ` {lo..<hi}"
  by (simp add: slice_mset_def)

lemma size_slice_mset [simp]: "size (slice_mset a lo hi) = hi - lo"
  by (simp add: slice_mset_def)

lemma slice_mset_empty [simp]: "slice_mset a lo lo = {#}"
  by (simp add: slice_mset_def)

lemma slice_mset_Suc: "lo \<le> hi \<Longrightarrow> slice_mset a lo (Suc hi) = add_mset (a hi) (slice_mset a lo hi)"
  by (simp add: slice_mset_def atLeastLessThanSuc)

lemma slice_mset_upd_out: "i < lo \<or> hi \<le> i \<Longrightarrow> slice_mset (a(i := v)) lo hi = slice_mset a lo hi"
  by (rule slice_mset_cong) auto

lemma swap_comp: "a(i := a j, j := a i) = a \<circ> id(i := j, j := i)"
  by auto

lemma swap_image:
  assumes "i \<in> S" "j \<in> S" "finite S"
  shows "id(i := j, j := i) ` S = S"
proof (rule endo_inj_surj)
  show "id(i := j, j := i) ` S \<subseteq> S" using assms by auto
  show "inj_on (id(i := j, j := i)) S" by (auto simp: inj_on_def)
qed (rule assms)

lemma inj_on_swap:
  assumes "inj_on a S" "i \<in> S" "j \<in> S" "finite S"
  shows "inj_on (a(i := a j, j := a i)) S"
proof -
  have "inj_on (id(i := j, j := i)) S" by (auto simp: inj_on_def)
  moreover have "inj_on a (id(i := j, j := i) ` S)" using assms by (simp only: swap_image)
  ultimately have "inj_on (a \<circ> id(i := j, j := i)) S" by (rule comp_inj_on)
  then show ?thesis by (simp only: swap_comp)
qed

lemma slice_mset_swap:
  assumes "lo \<le> i" "i < hi" "lo \<le> j" "j < hi"
  shows "slice_mset (a(i := a j, j := a i)) lo hi = slice_mset a lo hi"
proof -
  let ?S = "{lo..<hi}" and ?t = "id(i := j, j := i)"
  have im: "?t ` ?S = ?S" using assms by (intro swap_image) auto
  have inj: "inj_on ?t ?S" by (auto simp: inj_on_def)
  have "image_mset (a \<circ> ?t) (mset_set ?S) = image_mset a (image_mset ?t (mset_set ?S))"
    by (simp only: multiset.map_comp)
  also have "image_mset ?t (mset_set ?S) = mset_set (?t ` ?S)"
    by (rule image_mset_mset_set[OF inj])
  also have "\<dots> = mset_set ?S" by (simp only: im)
  finally show ?thesis by (simp only: slice_mset_def swap_comp)
qed

lemma slice_mset_remove:
  assumes "lo \<le> i" "i < hi"
  shows "slice_mset (a(i := v)) lo hi = add_mset v (slice_mset a lo hi - {#a i#})"
proof -
  have S: "{lo..<hi} = insert i ({lo..<hi} - {i})" using assms by auto
  have "slice_mset (a(i := v)) lo hi = add_mset v (image_mset (a(i := v)) (mset_set ({lo..<hi} - {i})))"
    unfolding slice_mset_def by (subst S) (simp add: mset_set.insert_remove)
  moreover have "image_mset (a(i := v)) (mset_set ({lo..<hi} - {i})) = image_mset a (mset_set ({lo..<hi} - {i}))"
    by (rule image_mset_cong) simp
  moreover have "slice_mset a lo hi = add_mset (a i) (image_mset a (mset_set ({lo..<hi} - {i})))"
    unfolding slice_mset_def by (subst S) (simp add: mset_set.insert_remove)
  ultimately show ?thesis by simp
qed

subsection \<open>Words\<close>

lemma word_or_eq_zero_iff: "(a :: 'a::len word) OR b = 0 \<longleftrightarrow> a = 0 \<and> b = 0"
  by (auto simp: bit_eq_iff bit_or_iff)

lemma word_and_or_absorb: "(a :: 'a::len word) AND b \<noteq> 0 \<Longrightarrow> (a OR c) AND b \<noteq> 0"
  by (auto simp: bit_eq_iff bit_or_iff bit_and_iff)

lemma unat_of_nat_small: "n < 2 ^ LENGTH('a) \<Longrightarrow> unat (of_nat n :: 'a::len word) = n"
  by (simp add: unat_of_nat)

end
