(* ===== verification/Ecb.thy ===== *)
theory Ecb
  imports Prelude "HOL-Library.Signed_Division"
begin

section \<open>Bit operations of libecb\<close>

text \<open>
  The portable definitions of the bit-twiddling helpers at the head of \<^verbatim>\<open>ev.c\<close>: trailing
  zeros, population count, binary logarithm, bit and byte reversal, rotation, floored
  division, and the conversions between binary16 and binary32 bit patterns. Each is
  compared with a reference definition over single bits or integers.
\<close>

unbundle bit_operations_syntax

subsection \<open>Counting and searching\<close>

definition ecb_ctz32 :: "u32 \<Rightarrow> int" where
  "ecb_ctz32 x =
     (let x = x AND (NOT x + 1);
          r = 0;
          r = (if x AND 0xaaaaaaaa \<noteq> 0 then r + 1 else r);
          r = (if x AND 0xcccccccc \<noteq> 0 then r + 2 else r);
          r = (if x AND 0xf0f0f0f0 \<noteq> 0 then r + 4 else r);
          r = (if x AND 0xff00ff00 \<noteq> 0 then r + 8 else r)
      in if x AND 0xffff0000 \<noteq> 0 then r + 16 else r)"

definition ecb_ctz64 :: "u64 \<Rightarrow> int" where
  "ecb_ctz64 x =
     (let shift = (if x AND 0xffffffff \<noteq> 0 then 0 else 32) in ecb_ctz32 (ucast (drop_bit shift x)) + int shift)"

definition ecb_popcount32 :: "u32 \<Rightarrow> int" where
  "ecb_popcount32 x =
     (let x = x - (drop_bit 1 x AND 0x55555555);
          x = (drop_bit 2 x AND 0x33333333) + (x AND 0x33333333);
          x = (drop_bit 4 x + x) AND 0x0f0f0f0f;
          x = x * 0x01010101
      in uint (drop_bit 24 x))"

definition ecb_popcount64 :: "u64 \<Rightarrow> int" where
  "ecb_popcount64 x = ecb_popcount32 (ucast x) + ecb_popcount32 (ucast (drop_bit 32 x))"

text \<open>One halving of the search range in \<^verbatim>\<open>ecb_ld32\<close>.\<close>

definition ld_step :: "nat \<Rightarrow> u32 \<times> int \<Rightarrow> u32 \<times> int" where
  "ld_step k p = (case p of (x, r) \<Rightarrow> if drop_bit k x \<noteq> 0 then (drop_bit k x, r + int k) else (x, r))"

definition ecb_ld32 :: "u32 \<Rightarrow> int" where
  "ecb_ld32 x = snd (ld_step 1 (ld_step 2 (ld_step 4 (ld_step 8 (ld_step 16 (x, 0))))))"

definition ecb_ld64 :: "u64 \<Rightarrow> int" where
  "ecb_ld64 x =
     (let (x, r) = (if drop_bit 32 x \<noteq> 0 then (drop_bit 32 x, 32) else (x, 0)) in r + ecb_ld32 (ucast x))"

definition ecb_is_pot32 :: "u32 \<Rightarrow> bool" where
  "ecb_is_pot32 x \<longleftrightarrow> x AND (x - 1) = 0"

definition ecb_is_pot64 :: "u64 \<Rightarrow> bool" where
  "ecb_is_pot64 x \<longleftrightarrow> x AND (x - 1) = 0"

subsection \<open>Reversal and rotation\<close>

text \<open>The operands of \<^verbatim>\<open>ecb_bitrev8\<close> are promoted to 32 bits.\<close>

definition ecb_bitrev8 :: "u8 \<Rightarrow> u8" where
  "ecb_bitrev8 x =
     (let y = ucast x :: u32 in
      ucast (drop_bit 16 (((y * 0x0802 AND 0x22110) OR (y * 0x8020 AND 0x88440)) * 0x10101)))"

definition ecb_bitrev16 :: "u16 \<Rightarrow> u16" where
  "ecb_bitrev16 x =
     (let x = (drop_bit 1 x AND 0x5555) OR push_bit 1 (x AND 0x5555);
          x = (drop_bit 2 x AND 0x3333) OR push_bit 2 (x AND 0x3333);
          x = (drop_bit 4 x AND 0x0f0f) OR push_bit 4 (x AND 0x0f0f)
      in drop_bit 8 x OR push_bit 8 x)"

definition ecb_bitrev32 :: "u32 \<Rightarrow> u32" where
  "ecb_bitrev32 x =
     (let x = (drop_bit 1 x AND 0x55555555) OR push_bit 1 (x AND 0x55555555);
          x = (drop_bit 2 x AND 0x33333333) OR push_bit 2 (x AND 0x33333333);
          x = (drop_bit 4 x AND 0x0f0f0f0f) OR push_bit 4 (x AND 0x0f0f0f0f);
          x = (drop_bit 8 x AND 0x00ff00ff) OR push_bit 8 (x AND 0x00ff00ff)
      in drop_bit 16 x OR push_bit 16 x)"

text \<open>
  Rotations. The C code shifts by the width minus the count, which is undefined for a
  count of 0 on 32 and 64 bits; the count is therefore restricted in the lemmas.
\<close>

definition ecb_rotl8 :: "u8 \<Rightarrow> nat \<Rightarrow> u8" where
  "ecb_rotl8 x n = ucast (drop_bit (8 - n) (ucast x :: u32) OR push_bit n (ucast x :: u32))"

definition ecb_rotr8 :: "u8 \<Rightarrow> nat \<Rightarrow> u8" where
  "ecb_rotr8 x n = ucast (push_bit (8 - n) (ucast x :: u32) OR drop_bit n (ucast x :: u32))"

definition ecb_rotl16 :: "u16 \<Rightarrow> nat \<Rightarrow> u16" where
  "ecb_rotl16 x n = ucast (drop_bit (16 - n) (ucast x :: u32) OR push_bit n (ucast x :: u32))"

definition ecb_rotr16 :: "u16 \<Rightarrow> nat \<Rightarrow> u16" where
  "ecb_rotr16 x n = ucast (push_bit (16 - n) (ucast x :: u32) OR drop_bit n (ucast x :: u32))"

definition ecb_rotl32 :: "u32 \<Rightarrow> nat \<Rightarrow> u32" where
  "ecb_rotl32 x n = drop_bit (32 - n) x OR push_bit n x"

definition ecb_rotr32 :: "u32 \<Rightarrow> nat \<Rightarrow> u32" where
  "ecb_rotr32 x n = push_bit (32 - n) x OR drop_bit n x"

definition ecb_rotl64 :: "u64 \<Rightarrow> nat \<Rightarrow> u64" where
  "ecb_rotl64 x n = drop_bit (64 - n) x OR push_bit n x"

definition ecb_rotr64 :: "u64 \<Rightarrow> nat \<Rightarrow> u64" where
  "ecb_rotr64 x n = push_bit (64 - n) x OR drop_bit n x"

definition ecb_bswap16 :: "u16 \<Rightarrow> u16" where
  "ecb_bswap16 x = ecb_rotl16 x 8"

definition ecb_bswap32 :: "u32 \<Rightarrow> u32" where
  "ecb_bswap32 x = push_bit 16 (ucast (ecb_bswap16 (ucast x))) OR ucast (ecb_bswap16 (ucast (drop_bit 16 x)))"

definition ecb_bswap64 :: "u64 \<Rightarrow> u64" where
  "ecb_bswap64 x = push_bit 32 (ucast (ecb_bswap32 (ucast x))) OR ucast (ecb_bswap32 (ucast (drop_bit 32 x)))"

subsection \<open>Division\<close>

text \<open>\<^verbatim>\<open>%\<close> and \<^verbatim>\<open>/\<close> truncate towards zero.\<close>

definition ecb_mod :: "int \<Rightarrow> int \<Rightarrow> int" where
  "ecb_mod m n = m smod n + (if m smod n < 0 then n else 0)"

definition ecb_div_rd :: "int \<Rightarrow> int \<Rightarrow> int" where
  "ecb_div_rd v d = (if v < 0 then - ((- v + d - 1) sdiv d) else v sdiv d)"

definition ecb_div_ru :: "int \<Rightarrow> int \<Rightarrow> int" where
  "ecb_div_ru v d = (if v < 0 then - ((- v) sdiv d) else (v + d - 1) sdiv d)"

subsection \<open>Half and single precision\<close>

definition ecb_binary16_to_binary32 :: "u32 \<Rightarrow> u32" where
  "ecb_binary16_to_binary32 x =
     (let s = push_bit 16 (x AND 0x8000);
          e = uint (drop_bit 10 x AND 0x001f);
          m = x AND 0x03ff;
          (e, m) =
            (if e = 31 then (255 - (127 - 15), m)
             else if e = 0 then
               if m = 0 then (0 - (127 - 15), m)
               else
                 let shift = 10 - ecb_ld32 m
                 in (e - (shift - 1), push_bit (nat shift) m AND 0x3ff)
             else (e, m));
          e = e + (127 - 15)
      in s OR push_bit 23 (word_of_int e) OR push_bit 13 m)"

definition ecb_binary32_to_binary16 :: "u32 \<Rightarrow> u16" where
  "ecb_binary32_to_binary16 x =
     (let s = drop_bit 16 x AND 0x00008000;
          e = uint (drop_bit 23 x AND 0x000000ff) - (127 - 15);
          m = x AND 0x007fffff;
          x = x AND 0x7fffffff
      in if 0x38800000 \<le> x \<and> x \<le> 0x477fefff then
           let m = m + (0x00000fff + (drop_bit 13 m AND 1));
               (m, e) = (if m \<ge> 0x00800000 then (drop_bit 1 m, e + 1) else (m, e))
           in ucast (s OR push_bit 10 (word_of_int e) OR drop_bit 13 m)
         else if 0x477fefff < x \<and> x \<le> 0x7f800000 then ucast (s OR 0x7c00)
         else if x < 0x38800000 then
           if x = 0 then ucast s
           else if e < 14 - 24 then ucast s
           else
             let m = m OR 0x00800000;
                 bits = nat (14 - e);
                 half = push_bit (bits - 1) 1 - 1;
                 even = drop_bit bits m AND 1;
                 m = drop_bit bits (m + half + even)
             in ucast (s OR m)
         else
           let m = drop_bit 13 m in ucast (s OR 0x7c00 OR m OR (if m = 0 then 1 else 0)))"

subsection \<open>Bit-level lemmas\<close>

lemma less32_cases: "(\<forall>n<32. P n) \<longleftrightarrow> (\<forall>n\<in>set [0,1,2,3,4,5,6,7,8,9,10,11,12,13,14,15,16,17,18,19,20,21,22,23,24,25,26,27,28,29,30,31]. P (n::nat))"
proof -
  have "[0,1,2,3,4,5,6,7,8,9,10,11,12,13,14,15,16,17,18,19,20,21,22,23,24,25,26,27,28,29,30,31] = [0..<32]" by (simp add: upt_rec)
  then show ?thesis by (simp only:) auto
qed

lemma masks32:
  "bit (0x55555555 :: u32) n \<longleftrightarrow> n < 32 \<and> even n"
  "bit (0x33333333 :: u32) n \<longleftrightarrow> n < 32 \<and> even (n div 2)"
  "bit (0x0f0f0f0f :: u32) n \<longleftrightarrow> n < 32 \<and> even (n div 4)"
  "bit (0x00ff00ff :: u32) n \<longleftrightarrow> n < 32 \<and> even (n div 8)"
proof -
  have "\<forall>n<32. bit (0x55555555 :: u32) n = even n" "\<forall>n<32. bit (0x33333333 :: u32) n = even (n div 2)"
    "\<forall>n<32. bit (0x0f0f0f0f :: u32) n = even (n div 4)" "\<forall>n<32. bit (0x00ff00ff :: u32) n = even (n div 8)"
    unfolding less32_cases by simp_all
  moreover have "\<not> bit (x :: u32) n" if "\<not> n < 32" for x n using that bit_imp_le_length[of x n] by auto
  ultimately show "bit (0x55555555 :: u32) n \<longleftrightarrow> n < 32 \<and> even n"
  "bit (0x33333333 :: u32) n \<longleftrightarrow> n < 32 \<and> even (n div 2)"
  "bit (0x0f0f0f0f :: u32) n \<longleftrightarrow> n < 32 \<and> even (n div 4)"
  "bit (0x00ff00ff :: u32) n \<longleftrightarrow> n < 32 \<and> even (n div 8)" by metis+
qed

lemma swap_step:
  fixes x M :: u32
  assumes "\<And>n. bit M n \<longleftrightarrow> n < 32 \<and> even (n div k)" "0 < k" "n < 32"
  shows "bit ((drop_bit k x AND M) OR push_bit k (x AND M)) n = bit x (if even (n div k) then n + k else n - k)"
proof -
  have M: "bit M i = (i < 32 \<and> even (i div k))" for i by (rule assms(1))
  have b: "bit ((drop_bit k x AND M) OR push_bit k (x AND M)) n \<longleftrightarrow>
      bit x (k + n) \<and> even (n div k) \<or> k \<le> n \<and> bit x (n - k) \<and> even ((n - k) div k)"
    using assms(3) by (auto simp: bit_and_iff bit_or_iff bit_push_bit_iff bit_drop_bit_eq M)
  show ?thesis
  proof (cases "even (n div k)")
    case True
    then have "k \<le> n \<Longrightarrow> odd ((n - k) div k)" using assms(2) by (simp add: le_div_geq)
    then show ?thesis unfolding b using True by (auto simp: add.commute)
  next
    case False
    then have "k \<le> n" by (metis div_less even_zero not_less)
    then have "even ((n - k) div k)" using False assms(2) by (simp add: le_div_geq)
    then show ?thesis unfolding b using False \<open>k \<le> n\<close> by simp
  qed
qed

lemma bitrev32_bit: "n < 32 \<Longrightarrow> bit (ecb_bitrev32 x) n = bit x (31 - n)"
proof -
  have m1: "bit (0x55555555 :: u32) n \<longleftrightarrow> n < 32 \<and> even (n div 1)" for n using masks32(1) by simp
  define y1 where "y1 = ((drop_bit 1 x AND 0x55555555) OR push_bit 1 (x AND 0x55555555))"
  define y2 where "y2 = ((drop_bit 2 y1 AND 0x33333333) OR push_bit 2 (y1 AND 0x33333333))"
  define y4 where "y4 = ((drop_bit 4 y2 AND 0x0f0f0f0f) OR push_bit 4 (y2 AND 0x0f0f0f0f))"
  define y8 where "y8 = ((drop_bit 8 y4 AND 0x00ff00ff) OR push_bit 8 (y4 AND 0x00ff00ff))"
  have e: "ecb_bitrev32 x = drop_bit 16 y8 OR push_bit 16 y8"
    unfolding ecb_bitrev32_def Let_def y1_def[symmetric] y2_def[symmetric] y4_def[symmetric] y8_def[symmetric] ..
  have s: "n < 32 \<Longrightarrow> bit y1 n = bit x (if even (n div 1) then n + 1 else n - 1)"
    "n < 32 \<Longrightarrow> bit y2 n = bit y1 (if even (n div 2) then n + 2 else n - 2)"
    "n < 32 \<Longrightarrow> bit y4 n = bit y2 (if even (n div 4) then n + 4 else n - 4)"
    "n < 32 \<Longrightarrow> bit y8 n = bit y4 (if even (n div 8) then n + 8 else n - 8)" for n
    subgoal unfolding y1_def by (rule swap_step[OF m1]) simp_all
    subgoal unfolding y2_def by (rule swap_step[OF masks32(2)]) simp_all
    subgoal unfolding y4_def by (rule swap_step[OF masks32(3)]) simp_all
    subgoal unfolding y8_def by (rule swap_step[OF masks32(4)]) simp_all
    done
  have hi: "32 \<le> i \<Longrightarrow> \<not> bit (y :: u32) i" for y i using bit_imp_le_length[of y i] by auto
  have "\<forall>n<32. bit (ecb_bitrev32 x) n = bit x (31 - n)"
    unfolding less32_cases e by (simp add: s hi bit_or_iff bit_push_bit_iff bit_drop_bit_eq) (simp add: numeral_3_eq_3 numeral_2_eq_2)
  then show "n < 32 \<Longrightarrow> bit (ecb_bitrev32 x) n = bit x (31 - n)" by blast
qed

lemma odd_and_neg: "odd z \<Longrightarrow> z AND - z = (1 :: 'a :: len word)"
proof -
  assume z: "odd z"
  have "- z = NOT z + 1" by (simp add: minus_eq_not_plus_1)
  also have "\<dots> = NOT z OR 1" using z by (simp add: or_one_eq)
  finally have e: "- z = NOT z OR 1" .
  show ?thesis unfolding e by (rule bit_eqI) (use z in \<open>auto simp: bit_and_iff bit_or_iff bit_not_iff bit_1_iff bit_0\<close>)
qed

lemma ctz_isolate:
  fixes x :: u32 assumes "x \<noteq> 0"
  obtains n where "n < 32" "bit x n" "\<forall>i<n. \<not> bit x i" "x AND (NOT x + 1) = push_bit n 1"
proof -
  define n where "n = (LEAST n. bit x n)"
  have ex: "\<exists>n. bit x n" using assms by (metis bit_eqI bit_0_eq bot_apply bot_bool_def)
  have n: "bit x n" "\<forall>i<n. \<not> bit x i" unfolding n_def using LeastI_ex[OF ex] not_less_Least by blast+
  have lt: "n < 32" using bit_imp_le_length[OF n(1)] by simp
  define z where "z = drop_bit n x"
  have x: "x = push_bit n z" unfolding z_def 
    by (rule bit_eqI) (use n(2) in \<open>metis bit_push_bit_iff bit_drop_bit_eq comp_apply le_add_diff_inverse not_less\<close>)
  have "odd z" using n(1) by (simp add: z_def bit_iff_odd_drop_bit)
  have "NOT x + 1 = - x" by (simp add: minus_eq_not_plus_1)
  also have "\<dots> = push_bit n (- z)" by (simp add: x push_bit_eq_mult)
  finally have "x AND (NOT x + 1) = push_bit n (z AND - z)" by (simp add: x push_bit_and)
  then show ?thesis using that n lt odd_and_neg[OF \<open>odd z\<close>] by simp
qed

lemma u32_hi: "32 \<le> i \<Longrightarrow> \<not> bit (y :: u32) i"
  using bit_imp_le_length[of y i] by auto

lemma rotl32_bit: "0 < n \<Longrightarrow> n < 32 \<Longrightarrow> bit (ecb_rotl32 x n) k \<longleftrightarrow> k < 32 \<and> bit x (if k < n then k + (32 - n) else k - n)"
  using u32_hi[of "k + (32 - n)" x] by (auto simp: ecb_rotl32_def bit_or_iff bit_push_bit_iff bit_drop_bit_eq add.commute)

lemma rotr32_bit: "0 < n \<Longrightarrow> n < 32 \<Longrightarrow> bit (ecb_rotr32 x n) k \<longleftrightarrow> k < 32 \<and> bit x (if k < 32 - n then k + n else k - (32 - n))"
  using u32_hi[of "k + n" x] by (auto simp: ecb_rotr32_def bit_or_iff bit_push_bit_iff bit_drop_bit_eq add.commute)

lemma bswap16_bit: "bit (ecb_bswap16 x) k \<longleftrightarrow> k < 16 \<and> bit x (if k < 8 then k + 8 else k - 8)"
  using bit_imp_le_length[of x "k + 8"]
  by (auto simp: ecb_bswap16_def ecb_rotl16_def bit_ucast_iff bit_or_iff bit_push_bit_iff bit_drop_bit_eq add.commute)

lemma bswap32_bit: "bit (ecb_bswap32 x) k \<longleftrightarrow> k < 32 \<and> bit x (if k < 8 then k + 24 else if k < 16 then k + 8 else if k < 24 then k - 8 else k - 24)"
  by (auto simp: ecb_bswap32_def bit_ucast_iff bit_or_iff bit_push_bit_iff bit_drop_bit_eq bswap16_bit add.commute)

lemma bswap64_bit: "bit (ecb_bswap64 x) k \<longleftrightarrow> k < 64 \<and> bit x
    (if k < 8 then k + 56 else if k < 16 then k + 40 else if k < 24 then k + 24 else if k < 32 then k + 8
     else if k < 40 then k - 8 else if k < 48 then k - 24 else if k < 56 then k - 40 else k - 56)"
  by (auto simp: ecb_bswap64_def bit_ucast_iff bit_or_iff bit_push_bit_iff bit_drop_bit_eq bswap32_bit add.commute)

text \<open>The same by the place of a byte, and the place a rotation moves a bit to.\<close>

lemma byte_places:
  "\<forall>n \<in> set [0..<64]. 8 * (7 - n div 8) + n mod 8 = (if n < 8 then n + 56 else if n < 16 then n + 40 else if n < 24 then n + 24
     else if n < 32 then n + 8 else if n < 40 then n - 8 else if n < 48 then n - 24 else if n < 56 then n - 40 else n - 56)"
  "\<forall>n \<in> set [0..<16]. 8 * (1 - n div 8) + n mod 8 = (if n < 8 then n + 8 else n - 8)"
  by code_simp+

lemma bswap64_byte: "n < 64 \<Longrightarrow> bit (ecb_bswap64 x) n = bit x (8 * (7 - n div 8) + n mod 8)"
  using byte_places(1) by (simp del: upt_rec_numeral add: bswap64_bit)

lemma bswap16_byte: "n < 16 \<Longrightarrow> bit (ecb_bswap16 x) n = bit x (8 * (1 - n div 8) + n mod 8)"
  using byte_places(2) by (simp del: upt_rec_numeral add: bswap16_bit)

lemma u64_hi: "64 \<le> i \<Longrightarrow> \<not> bit (y :: u64) i"
  using bit_imp_le_length[of y i] by auto

lemma rotl64_bit: "0 < n \<Longrightarrow> n < 64 \<Longrightarrow> bit (ecb_rotl64 x n) k \<longleftrightarrow> k < 64 \<and> bit x (if k < n then k + (64 - n) else k - n)"
  using u64_hi[of "k + (64 - n)" x] by (auto simp: ecb_rotl64_def bit_or_iff bit_push_bit_iff bit_drop_bit_eq add.commute)

lemma rotr64_bit: "0 < n \<Longrightarrow> n < 64 \<Longrightarrow> bit (ecb_rotr64 x n) k \<longleftrightarrow> k < 64 \<and> bit x (if k < 64 - n then k + n else k - (64 - n))"
  using u64_hi[of "k + n" x] by (auto simp: ecb_rotr64_def bit_or_iff bit_push_bit_iff bit_drop_bit_eq add.commute)

lemma rot_mod: "n < N \<Longrightarrow> c < N \<Longrightarrow> (n + c) mod N = (if n + c < N then n + c else n + c - N)" for N :: nat
  by (simp add: le_mod_geq)

lemma rot32_place:
  assumes "n < 32 \<and> 0 < c \<and> c < 32"
  shows "bit (ecb_rotl32 x c) ((n + c) mod 32) = bit x n \<and> bit (ecb_rotr32 x c) n = bit x ((n + c) mod 32)"
  using assms by (simp add: rot_mod rotl32_bit rotr32_bit) (auto simp: less_diff_conv intro!: arg_cong[where f = "bit x"])

lemma rot64_place:
  assumes "n < 64 \<and> 0 < c \<and> c < 64"
  shows "bit (ecb_rotl64 x c) ((n + c) mod 64) = bit x n \<and> bit (ecb_rotr64 x c) n = bit x ((n + c) mod 64)"
  using assms by (simp add: rot_mod rotl64_bit rotr64_bit) (auto simp: less_diff_conv intro!: arg_cong[where f = "bit x"])

lemma top_bit:
  fixes x :: u32
  assumes "bit x n" "\<forall>i>n. \<not> bit x i"
  shows "drop_bit k x \<noteq> 0 \<longleftrightarrow> k \<le> n" "k \<le> n \<Longrightarrow> bit (drop_bit k x) (n - k) \<and> (\<forall>i > n - k. \<not> bit (drop_bit k x) i)"
proof -
  have "k \<le> n \<Longrightarrow> bit (drop_bit k x) (n - k)" using assms(1) by (simp add: bit_drop_bit_eq)
  moreover have "drop_bit k x = 0" if "n < k" by (rule bit_eqI) (use assms(2) that in \<open>auto simp: bit_drop_bit_eq\<close>)
  ultimately show "drop_bit k x \<noteq> 0 \<longleftrightarrow> k \<le> n" by (metis bit_0_eq bot_apply bot_bool_def not_less)
  show "k \<le> n \<Longrightarrow> bit (drop_bit k x) (n - k) \<and> (\<forall>i > n - k. \<not> bit (drop_bit k x) i)"
    using assms by (auto simp: bit_drop_bit_eq)
qed

lemma ld32_top:
  assumes "bit x n" "\<forall>i>n. \<not> bit x i"
  shows "ecb_ld32 x = int n"
proof -
  have n: "n < 32" using bit_imp_le_length[OF assms(1)] by simp
  define J where "J B p = (\<exists>j. bit (fst p) j \<and> (\<forall>i>j. \<not> bit (fst p) i) \<and> j < B \<and> snd p + int j = int n)" for B and p :: "u32 \<times> int"
  have step: "J k (ld_step k p)" if "J (2 * k) p" for k p
    using that top_bit[of "fst p" _ k] unfolding J_def ld_step_def by (cases p) (fastforce simp: not_le of_nat_diff)
  have "J 32 (x, 0)" using assms n by (auto simp: J_def)
  then have "J 1 (ld_step 1 (ld_step 2 (ld_step 4 (ld_step 8 (ld_step 16 (x, 0))))))" using step[of 16] step[of 8] step[of 4] step[of 2] step[of 1] by simp
  then show ?thesis by (auto simp: J_def ecb_ld32_def)
qed

lemma exists_top:
  fixes x :: u32 assumes "x \<noteq> 0" obtains n where "n < 32" "bit x n" "\<forall>i>n. \<not> bit x i"
proof -
  have ex: "\<exists>n. bit x n" using assms by (metis bit_eqI bit_0_eq bot_apply bot_bool_def)
  have b: "\<And>i. bit x i \<Longrightarrow> i \<le> 32" using u32_hi by (metis nat_le_linear)
  define n where "n = (GREATEST n. bit x n)"
  have "bit x n" "\<forall>i>n. \<not> bit x i" unfolding n_def
    using GreatestI_ex_nat[OF ex, of 32] Greatest_le_nat[of "bit x" _ 32] b by (auto simp: not_less[symmetric])
  then show ?thesis using that u32_hi[of n x] by (metis not_less)
qed

lemma pot32: "ecb_is_pot32 x \<longleftrightarrow> x = 0 \<or> (\<exists>n<32. x = push_bit n 1)"
proof (cases "x = 0")
  case False
  then obtain n where n: "n < 32" "x AND (NOT x + 1) = push_bit n 1" by (rule ctz_isolate)
  have "ecb_is_pot32 x \<longleftrightarrow> x AND NOT (- x) = 0" by (simp add: ecb_is_pot32_def not_eq_complement)
  also have "\<dots> \<longleftrightarrow> x AND - x = x" by (auto simp: bit_eq_iff bit_and_iff bit_not_iff)
  also have "- x = NOT x + 1" by (simp add: minus_eq_not_plus_1)
  finally have e: "ecb_is_pot32 x \<longleftrightarrow> x = push_bit n 1" using n(2) by auto
  have "push_bit m 1 AND (NOT (push_bit m 1) + 1) = (push_bit m 1 :: u32)" if "m < 32" for m
  proof -
    have "NOT (push_bit m 1) + 1 = - (push_bit m 1 :: u32)" by (simp add: minus_eq_not_plus_1)
    also have "\<dots> = push_bit m (- 1)" by (simp add: push_bit_eq_mult)
    finally show ?thesis by (intro bit_eqI) (auto simp: bit_and_iff bit_not_iff bit_mask_iff bit_exp_iff)
  qed
  then show ?thesis using e False n by metis
qed (simp add: ecb_is_pot32_def)

lemma ctz32: "x \<noteq> 0 \<Longrightarrow> bit x (nat (ecb_ctz32 x)) \<and> (\<forall>i < nat (ecb_ctz32 x). \<not> bit x i) \<and> 0 \<le> ecb_ctz32 x \<and> ecb_ctz32 x < 32"
proof -
  assume "x \<noteq> 0"
  then obtain n where n: "n < 32" "bit x n" "\<forall>i<n. \<not> bit x i" "x AND (NOT x + 1) = push_bit n 1" by (rule ctz_isolate)
  define f :: "u32 \<Rightarrow> int" where "f y = (let r = 0;
          r = (if y AND 0xaaaaaaaa \<noteq> 0 then r + 1 else r);
          r = (if y AND 0xcccccccc \<noteq> 0 then r + 2 else r);
          r = (if y AND 0xf0f0f0f0 \<noteq> 0 then r + 4 else r);
          r = (if y AND 0xff00ff00 \<noteq> 0 then r + 8 else r)
      in if y AND 0xffff0000 \<noteq> 0 then r + 16 else r)" for y
  have "\<forall>n<32. f (push_bit n 1) = int n" unfolding less32_cases by (simp add: f_def)
  moreover have "ecb_ctz32 x = f (push_bit n 1)" unfolding ecb_ctz32_def n(4) f_def Let_def ..
  ultimately have "ecb_ctz32 x = int n" using n(1) by simp
  then show ?thesis using n by simp
qed

subsection \<open>Properties\<close>

text \<open>
  \<^verbatim>\<open>ecb_ctz32\<close> is the index of the lowest set bit and \<^verbatim>\<open>ecb_ld32\<close> that of the highest,
  for every non-zero word; \<^verbatim>\<open>ecb_is_pot32\<close> accepts exactly 0 and the powers of two.
\<close>

theorem ecb_bit_search:
  "(x \<noteq> 0 \<longrightarrow>
      0 \<le> ecb_ctz32 x \<and> ecb_ctz32 x < 32 \<and> bit x (nat (ecb_ctz32 x)) \<and> (\<forall>i < nat (ecb_ctz32 x). \<not> bit x i) \<and>
      0 \<le> ecb_ld32 x \<and> ecb_ld32 x < 32 \<and> bit x (nat (ecb_ld32 x)) \<and> (\<forall>i > nat (ecb_ld32 x). \<not> bit x i)) \<and>
    (ecb_is_pot32 x \<longleftrightarrow> x = 0 \<or> (\<exists>n<32. x = push_bit n 1))"
proof -
  have "0 \<le> ecb_ld32 x \<and> ecb_ld32 x < 32 \<and> bit x (nat (ecb_ld32 x)) \<and> (\<forall>i > nat (ecb_ld32 x). \<not> bit x i)" if x: "x \<noteq> 0"
  proof -
    obtain n where n: "n < 32" "bit x n" "\<forall>i>n. \<not> bit x i" using exists_top[OF x] .
    show ?thesis using ld32_top[OF n(2,3)] n by simp
  qed
  then show ?thesis using ctz32[of x] pot32[of x] by blast
qed

theorem ecb_bit_search_witness: "bit (0x5000 :: u32) (nat (ecb_ctz32 0x5000)) \<and> \<not> ecb_is_pot32 0x5000 \<and> ecb_is_pot32 0"
  using ecb_bit_search[of "0x5000"] by (simp add: ecb_is_pot32_def)

text \<open>
  Bit reversal, byte swaps and rotations move every single bit where their names say: bit \<open>n\<close> of the reversed word is
  bit \<open>31 - n\<close>, the byte swaps exchange byte \<open>k\<close> with byte \<open>3 - k\<close> (\<open>7 - k\<close> on 64 bits, \<open>1 - k\<close> on 16) and keep the order of the
  bits inside a byte, and a left (right) rotation by \<open>c\<close> moves each bit up (down) by \<open>c\<close> places modulo the width, for
  every count the C code defines. Reversal and byte swaps undo themselves and each rotation undoes the other.
\<close>

theorem ecb_reversal:
  "(n < 32 \<longrightarrow> bit (ecb_bitrev32 x) n = bit x (31 - n) \<and> bit (ecb_bswap32 x) n = bit x (8 * (3 - n div 8) + n mod 8)) \<and>
    (n < 64 \<longrightarrow> bit (ecb_bswap64 y) n = bit y (8 * (7 - n div 8) + n mod 8)) \<and>
    (n < 16 \<longrightarrow> bit (ecb_bswap16 z) n = bit z (8 * (1 - n div 8) + n mod 8)) \<and>
    (n < 32 \<and> 0 < c \<and> c < 32 \<longrightarrow>
      bit (ecb_rotl32 x c) ((n + c) mod 32) = bit x n \<and> bit (ecb_rotr32 x c) n = bit x ((n + c) mod 32)) \<and>
    (n < 64 \<and> 0 < c \<and> c < 64 \<longrightarrow>
      bit (ecb_rotl64 y c) ((n + c) mod 64) = bit y n \<and> bit (ecb_rotr64 y c) n = bit y ((n + c) mod 64)) \<and>
    ecb_bitrev32 (ecb_bitrev32 x) = x \<and> ecb_bswap32 (ecb_bswap32 x) = x \<and> ecb_bswap64 (ecb_bswap64 y) = y \<and>
    (0 < c \<and> c < 32 \<longrightarrow> ecb_rotr32 (ecb_rotl32 x c) c = x \<and> ecb_rotl32 (ecb_rotr32 x c) c = x)"
proof -
  have "ecb_bitrev32 (ecb_bitrev32 x) = x" by (rule bit_eqI) (simp add: bitrev32_bit)
  moreover have "ecb_bswap32 (ecb_bswap32 x) = x" by (rule bit_eqI) (auto simp: bswap32_bit)
  moreover have "ecb_bswap64 (ecb_bswap64 y) = y" by (rule bit_eqI) (auto simp: bswap64_bit)
  moreover have "\<forall>n<32. bit (ecb_bswap32 x) n = bit x (8 * (3 - n div 8) + n mod 8)"
    unfolding less32_cases by (simp add: bswap32_bit) (simp add: numeral_2_eq_2)
  moreover have "0 < c \<and> c < 32 \<longrightarrow> ecb_rotr32 (ecb_rotl32 x c) c = x \<and> ecb_rotl32 (ecb_rotr32 x c) c = x"
    by (auto intro!: bit_eqI simp: rotl32_bit rotr32_bit split: if_splits)
  ultimately show ?thesis
    using bitrev32_bit[of n x] bswap64_byte[of n y] bswap16_byte[of n z] rot32_place[of n c x] rot64_place[of n c y] by blast
qed

theorem ecb_reversal_witness:
  "ecb_rotr32 (ecb_rotl32 0x12345678 7) 7 = 0x12345678 \<and> bit (ecb_bitrev32 4) 29 \<and> bit (ecb_bswap64 1) 56 \<and> bit (ecb_rotl32 4 7) 9"
  using ecb_reversal[of 29 4 1 0 7] ecb_reversal[of 29 "0x12345678" 0 0 7] ecb_reversal[of 56 4 1 0 7] ecb_reversal[of 2 4 1 0 7] by simp

text \<open>
  \<^verbatim>\<open>ecb_mod\<close> is the non-negative remainder and \<^verbatim>\<open>ecb_div_rd\<close> and \<^verbatim>\<open>ecb_div_ru\<close> round the
  quotient down and up, for a positive divisor and either sign of the dividend, although
  they are built from C's truncating operators.
\<close>

theorem ecb_floored_division:
  assumes "0 < d"
  shows "ecb_mod v d = v mod d \<and> ecb_div_rd v d = v div d \<and> ecb_div_ru v d = - ((- v) div d) \<and>
    ecb_div_rd v d * d + ecb_mod v d = v"
proof -
  have r: "- (- v mod d) + (if v mod d = 0 then 0 else d) = v mod d"
    using pos_mod_bound[OF assms, of v, THEN less_imp_neq] by (auto simp: zmod_zminus1_eq_if)
  have m: "ecb_mod v d = v mod d"
  proof (cases "0 \<le> v")
    case False
    have "(- v) mod d = 0 \<longleftrightarrow> v mod d = 0" by (simp add: mod_eq_0_iff_dvd)
    moreover have "(- v) mod d \<noteq> 0 \<Longrightarrow> 0 < (- v) mod d" using pos_mod_sign[OF assms, of "- v"] by linarith
    ultimately show ?thesis using False assms r by (auto simp: ecb_mod_def signed_modulo_int_def minus_div_mult_eq_mod)
  qed (use assms in \<open>simp add: ecb_mod_def signed_modulo_int_def sgn_if minus_div_mult_eq_mod not_less\<close>)
  have c: "(w + d - 1) div d = - ((- w) div d)" for w
  proof -
    have "(w + d - 1) div d = ((w mod d + d - 1) + w div d * d) div d"
      by (rule arg_cong[where f = "\<lambda>x. x div d"]) (simp add: algebra_simps)
    also have "\<dots> = w div d + (w mod d + d - 1) div d" by (rule div_mult_self1) (use assms in simp)
    finally have "(w + d - 1) div d = w div d + (w mod d + d - 1) div d" .
    moreover have "(w mod d + d - 1) div d = (if w mod d = 0 then 0 else 1)"
    proof (cases "w mod d = 0")
      case False
      then have "0 < w mod d" "w mod d - 1 < d" using pos_mod_bound[OF assms, of w] pos_mod_sign[OF assms, of w] by linarith+
      then show ?thesis using False by (simp add: int_div_pos_eq[of _ _ 1 "w mod d - 1"])
    qed (use assms in simp)
    ultimately show ?thesis using assms by (simp add: zdiv_zminus1_eq_if)
  qed
  have d: "ecb_div_rd v d = v div d" using assms c[of "- v"] by (simp add: ecb_div_rd_def signed_divide_int_def sgn_if)
  have "ecb_div_ru v d = - ((- v) div d)" using assms c[of v] by (simp add: ecb_div_ru_def signed_divide_int_def sgn_if)
  then show ?thesis using m d by simp
qed

theorem ecb_floored_division_witness: "ecb_mod (- 7) 4 = 1 \<and> ecb_div_rd (- 7) 4 = - 2 \<and> ecb_div_ru (- 7) 4 = - 1"
  using ecb_floored_division[of 4 "- 7"] by simp

text \<open>
  A defect of \<^verbatim>\<open>ecb_binary32_to_binary16\<close>: when rounding carries out of the mantissa, the
  code halves the mantissa (\<^verbatim>\<open>m >>= 1\<close>, with the carry still in it) instead of clearing it, so the result has mantissa bit
  9 set where it ought to be zero. For every normal number whose mantissa rounds up to the next power of two the result is
  the right one or-ed with 0x200; the largest single below 2 becomes 3.
\<close>

lemma carry_mantissa:
  fixes m :: u32
  assumes "0x007ff000 \<le> m" "m \<le> 0x007fffff"
  shows "m + (0x00000fff + (drop_bit 13 m AND 1)) \<ge> 0x00800000"
    "drop_bit 13 (drop_bit 1 (m + (0x00000fff + (drop_bit 13 m AND 1)))) = 0x200"
proof -
  have u: "0x007ff000 \<le> unat m" "unat m \<le> 0x007fffff" using assms by (simp_all add: word_le_nat_alt)
  have d: "unat (drop_bit 13 m) = 1023" using u by (simp add: drop_bit_eq_div unat_div)
  then have "drop_bit 13 m = 1023" by (simp add: word_unat_eq_iff)
  then have a: "drop_bit 13 m AND 1 = 1" by simp
  have s: "unat (m + 0x1000) = unat m + 0x1000" using u by (simp add: unat_word_ariths)
  show "m + (0x00000fff + (drop_bit 13 m AND 1)) \<ge> 0x00800000" unfolding a using s u by (simp add: word_le_nat_alt)
  have "unat (drop_bit 14 (m + 0x1000)) = 0x200" using s u by (simp add: drop_bit_eq_div unat_div)
  then show "drop_bit 13 (drop_bit 1 (m + (0x00000fff + (drop_bit 13 m AND 1)))) = 0x200"
    unfolding a by (simp add: word_unat_eq_iff)
qed

theorem ecb_binary16_carry:
  assumes "0x38800000 \<le> x AND 0x7fffffff" "x AND 0x7fffffff \<le> 0x477fefff" "0x007ff000 \<le> x AND 0x007fffff"
  shows "ecb_binary32_to_binary16 x =
    ucast (((drop_bit 16 x AND 0x8000) OR push_bit 10 (word_of_int (uint (drop_bit 23 x AND 0xff) - 111))) OR 0x200)"
proof -
  have le: "x AND 0x007fffff \<le> 0x007fffff" by (rule word_and_le1)
  note c = carry_mantissa[OF assms(3) le]
  show ?thesis using assms(1,2) c by (simp add: ecb_binary32_to_binary16_def Let_def or.assoc)
qed

theorem ecb_binary16_carry_example:
  "ecb_binary32_to_binary16 0x3fffffff = 0x4200 \<and> ecb_binary16_to_binary32 0x4200 = 0x40400000 \<and>
    ecb_binary16_to_binary32 0x4000 = 0x40000000 \<and> ecb_binary32_to_binary16 0x40000000 = 0x4000"
  by (simp add: ecb_binary32_to_binary16_def ecb_binary16_to_binary32_def Let_def)

end
