(* ===== verification/Tstamp.thy ===== *)
theory Tstamp
  imports Prelude
begin

section \<open>Timestamps: IEEE binary64 arithmetic\<close>

text \<open>
  \<^verbatim>\<open>ev_tstamp\<close> is \<^verbatim>\<open>double\<close> (\<^verbatim>\<open>ev.h\<close>, \<^verbatim>\<open>EV_TSTAMP_T\<close>). A timestamp is modelled by
  the real number it denotes, and every arithmetic operation of the code rounds its exact
  result to the nearest binary64 value, ties to even, with gradual underflow: \<open>rnd64\<close>.
  Timestamps are finite; infinities and NaNs never arise from the clocks the loop reads
  and are not modelled, and the largest magnitude in the code, \<^verbatim>\<open>EV_TSTAMP_HUGE\<close>
  (\<open>10 ^ 13\<close>), is far below the overflow threshold.

  The laws the components use are collected in the locale \<open>rounding\<close>: the rounding
  function is monotone, keeps what is already representable and its values form a
  discrete grid. It is interpreted here by \<open>rnd64\<close>.
\<close>

type_synonym ev_tstamp = real

subsection \<open>Rounding to binary64\<close>

definition rne :: "real \<Rightarrow> int" where
  "rne y = (let f = \<lfloor>y\<rfloor>; d = y - of_int f in
     if d < 1/2 then f else if d > 1/2 then f + 1 else if even f then f else f + 1)"

definition dexp :: "real \<Rightarrow> int" where
  "dexp x = max (\<lfloor>log 2 \<bar>x\<bar>\<rfloor> - 52) (-1074)"

definition rnd64 :: "real \<Rightarrow> real" where
  "rnd64 x = (if x = 0 then 0 else of_int (rne (x / 2 powr dexp x)) * 2 powr dexp x)"

definition is_f64 :: "real \<Rightarrow> bool" where
  "is_f64 v \<longleftrightarrow> (\<exists>m e. \<bar>m\<bar> \<le> 2 ^ 53 \<and> (- 1074 :: int) \<le> e \<and> v = of_int m * 2 powr of_int e)"

lemma rne_nearest: "\<bar>of_int (rne y) - y\<bar> \<le> \<bar>of_int n - y\<bar>"
proof -
  let ?f = "\<lfloor>y\<rfloor>"
  have f: "of_int ?f \<le> y" "y < of_int ?f + 1" by linarith+
  have "n \<le> ?f \<or> ?f + 1 \<le> n" by linarith
  then have n: "real_of_int n \<le> of_int ?f \<or> of_int ?f + 1 \<le> real_of_int n"
    by (metis of_int_1 of_int_add of_int_le_iff)
  have "(rne y = ?f \<and> y - of_int ?f \<le> 1/2) \<or> (rne y = ?f + 1 \<and> 1/2 \<le> y - of_int ?f)"
    by (simp add: rne_def Let_def)
  then show ?thesis
  proof
    assume r: "rne y = ?f \<and> y - of_int ?f \<le> 1/2"
    then have "\<bar>of_int (rne y) - y\<bar> = y - of_int ?f" using f by simp
    then show ?thesis using r f n by linarith
  next
    assume r: "rne y = ?f + 1 \<and> 1/2 \<le> y - of_int ?f"
    then have "\<bar>of_int (rne y) - y\<bar> = of_int ?f + 1 - y" using f by simp
    then show ?thesis using r f n by linarith
  qed
qed

lemma rne_of_int [simp]: "rne (of_int n) = n"
  by (simp add: rne_def)

lemma rne_abs_le:
  assumes "\<bar>y\<bar> \<le> of_int B" "0 \<le> B"
  shows "\<bar>rne y\<bar> \<le> B"
proof -
  have "\<bar>real_of_int (rne y)\<bar> \<le> of_int B \<or> \<not> \<bar>real_of_int (rne y)\<bar> \<le> of_int B" by blast
  moreover have "rne y \<le> B"
  proof (rule ccontr)
    assume "\<not> rne y \<le> B"
    then have "real_of_int B < of_int (rne y)" by simp
    with rne_nearest[of y B] assms show False by (auto simp: abs_if split: if_splits)
  qed
  moreover have "- B \<le> rne y"
  proof (rule ccontr)
    assume "\<not> - B \<le> rne y"
    then have "real_of_int (rne y) < - of_int B"
      by (metis not_le of_int_less_iff of_int_minus)
    with rne_nearest[of y "- B"] assms show False by (auto simp: abs_if split: if_splits)
  qed
  ultimately show ?thesis by simp
qed

lemma dexp_upper:
  assumes "x \<noteq> 0" shows "\<bar>x\<bar> < 2 powr (dexp x + 53)"
proof -
  have "log 2 \<bar>x\<bar> < of_int (\<lfloor>log 2 \<bar>x\<bar>\<rfloor> + 1)" by linarith
  also have "\<dots> \<le> of_int (dexp x) + 53" by (simp add: dexp_def)
  finally show ?thesis using assms by (simp add: log_less_iff)
qed

lemma dexp_lower:
  assumes "x \<noteq> 0" "- 1074 < dexp x" shows "2 powr (dexp x + 52) \<le> \<bar>x\<bar>"
proof -
  have "dexp x = \<lfloor>log 2 \<bar>x\<bar>\<rfloor> - 52" using assms(2) by (simp add: dexp_def max_def split: if_splits)
  then have "real_of_int (dexp x) + 52 \<le> log 2 \<bar>x\<bar>" by (simp add: le_floor_iff)
  then show ?thesis using assms by (simp add: le_log_iff)
qed

lemma dexp_ge: "- 1074 \<le> dexp x" by (simp add: dexp_def)

lemma powr_int_mult: "(2::real) powr (real_of_int a + b) = 2 powr a * 2 powr b"
  by (simp add: powr_add)

lemma is_f64_rnd64: "is_f64 (rnd64 x)"
proof (cases "x = 0")
  case True then show ?thesis by (auto simp: rnd64_def is_f64_def intro!: exI[of _ 0])
next
  case False
  let ?g = "2 powr real_of_int (dexp x)"
  have "\<bar>x\<bar> / ?g < 2 powr 53"
    using dexp_upper[OF False] by (simp add: powr_int_mult field_simps)
  then have "\<bar>x / ?g\<bar> \<le> of_int (2 ^ 53)" by simp
  then have "\<bar>rne (x / ?g)\<bar> \<le> 2 ^ 53" by (rule rne_abs_le) simp
  then show ?thesis using False dexp_ge[of x] unfolding is_f64_def rnd64_def by auto
qed

lemma multiple_nearest:
  fixes m :: int
  assumes "x \<noteq> 0"
  shows "\<bar>rnd64 x - x\<bar> \<le> \<bar>of_int m * 2 powr dexp x - x\<bar>"
proof -
  let ?g = "2 powr real_of_int (dexp x)"
  have g: "0 < ?g" by simp
  have e: "\<And>k::real. \<bar>k * ?g - x\<bar> = \<bar>k - x / ?g\<bar> * ?g"
    by (metis (no_types, opaque_lifting) g abs_mult abs_of_pos left_diff_distrib nonzero_eq_divide_eq order_less_irrefl)
  show ?thesis using assms rne_nearest[of "x / ?g" m] g
    by (simp add: rnd64_def e mult_right_mono)
qed

lemma rnd64_nearest:
  assumes "is_f64 v"
  shows "\<bar>rnd64 x - x\<bar> \<le> \<bar>v - x\<bar>"
proof (cases "x = 0")
  case True then show ?thesis by (simp add: rnd64_def)
next
  case False
  from assms obtain m e :: int where v: "\<bar>m\<bar> \<le> 2 ^ 53" "- 1074 \<le> e" "v = of_int m * 2 powr e"
    unfolding is_f64_def by blast
  show ?thesis
  proof (cases "dexp x \<le> e")
    case True
    then have "v = of_int (m * 2 ^ nat (e - dexp x)) * 2 powr dexp x"
      using v(3) by (simp add: powr_realpow [symmetric] powr_add [symmetric] algebra_simps)
    then show ?thesis using multiple_nearest[OF False] by metis
  next
    case e: False
    then have lo: "2 powr (dexp x + 52) \<le> \<bar>x\<bar>" using v(2) False by (intro dexp_lower) auto
    have "\<bar>v\<bar> = of_int \<bar>m\<bar> * 2 powr e" using v(3) by (simp add: abs_mult)
    also have "\<dots> \<le> 2 ^ 53 * 2 powr (dexp x - 1)"
      using v(1) e by (intro mult_mono) (auto simp flip: of_int_abs of_int_power)
    also have "\<dots> = 2 powr (dexp x + 52)"
      by (simp add: powr_add powr_diff)
    finally have hi: "\<bar>v\<bar> \<le> 2 powr (dexp x + 52)" .
    let ?b = "sgn x * 2 powr (dexp x + 52)"
    have "\<bar>?b - x\<bar> \<le> \<bar>v - x\<bar>" using lo hi False by (auto simp: sgn_if abs_if split: if_splits)
    moreover have "?b = of_int ((if 0 < x then 1 else - 1) * 2 ^ 52) * 2 powr dexp x"
      using False by (simp add: sgn_if powr_add)
    ultimately show ?thesis using multiple_nearest[OF False] by (metis order_trans)
  qed
qed

lemma rnd64_id: "is_f64 v \<Longrightarrow> rnd64 v = v"
  using rnd64_nearest[of v v] by simp

lemma rnd64_mono:
  assumes "x \<le> y" shows "rnd64 x \<le> rnd64 y"
proof (rule ccontr)
  assume c: "\<not> rnd64 x \<le> rnd64 y"
  then have ne: "x \<noteq> y" by auto
  note nx = rnd64_nearest[OF is_f64_rnd64[of y], of x] and ny = rnd64_nearest[OF is_f64_rnd64[of x], of y]
  have "rnd64 y < x \<and> y < rnd64 x"
    using c nx ny assms ne by (auto simp: abs_if split: if_splits)
  with c nx ny assms ne show False by (auto simp: abs_if split: if_splits)
qed

lemma is_f64_of_int: "\<bar>n\<bar> \<le> 2 ^ 53 \<Longrightarrow> is_f64 (of_int n)"
  unfolding is_f64_def by (intro exI[of _ n] exI[of _ 0]) simp

lemma rnd64_0 [simp]: "rnd64 0 = 0" by (simp add: rnd64_def)

lemma rnd64_1 [simp]: "rnd64 1 = 1" using rnd64_id[OF is_f64_of_int[of 1]] by simp

lemma rnd64_numeral [simp]: "numeral k \<le> (9007199254740992::int) \<Longrightarrow> rnd64 (numeral k) = numeral k"
  using rnd64_id[OF is_f64_of_int[of "numeral k"]] by simp

lemma rnd64_uminus_numeral [simp]:
  "numeral k \<le> (9007199254740992::int) \<Longrightarrow> rnd64 (- numeral k) = - numeral k"
  using rnd64_id[OF is_f64_of_int[of "- numeral k"]] by simp

lemma rnd64_grid: "\<exists>k::int. rnd64 x = of_int k * 2 powr (-1074)"
proof -
  obtain m e :: int where e: "- 1074 \<le> e" and x: "rnd64 x = of_int m * 2 powr e"
    using is_f64_rnd64[of x] unfolding is_f64_def by blast
  have "2 powr real_of_int e = of_int (2 ^ nat (e + 1074)) * 2 powr (-1074)"
    using e by (simp add: powr_realpow [symmetric] powr_add [symmetric])
  then show ?thesis unfolding x by (intro exI[of _ "m * 2 ^ nat (e + 1074)"]) simp
qed

subsection \<open>The arithmetic of \<^verbatim>\<open>double\<close> expressions\<close>

definition fadd :: "ev_tstamp \<Rightarrow> ev_tstamp \<Rightarrow> ev_tstamp" where "fadd x y = rnd64 (x + y)"
definition fsub :: "ev_tstamp \<Rightarrow> ev_tstamp \<Rightarrow> ev_tstamp" where "fsub x y = rnd64 (x - y)"
definition fmul :: "ev_tstamp \<Rightarrow> ev_tstamp \<Rightarrow> ev_tstamp" where "fmul x y = rnd64 (x * y)"
definition fdiv :: "ev_tstamp \<Rightarrow> ev_tstamp \<Rightarrow> ev_tstamp" where "fdiv x y = rnd64 (x / y)"

lemmas fops = fadd_def fsub_def fmul_def fdiv_def

text \<open>The contract of the arithmetic that the timer and periodic components rely on.\<close>

locale rounding =
  fixes rnd :: "real \<Rightarrow> real" and rep :: "real \<Rightarrow> bool" and ulp :: real
  assumes mono: "x \<le> y \<Longrightarrow> rnd x \<le> rnd y"
    and rep: "rep (rnd x)"
    and id: "rep v \<Longrightarrow> rnd v = v"
    and ulp: "0 < ulp"
    and grid: "rep v \<Longrightarrow> \<exists>k::int. v = of_int k * ulp"
begin

lemma rep_le_rnd: "rep v \<Longrightarrow> v \<le> x \<Longrightarrow> v \<le> rnd x"
  using mono[of v x] id by simp

lemma rnd_le_rep: "rep v \<Longrightarrow> x \<le> v \<Longrightarrow> rnd x \<le> v"
  using mono[of x v] id by simp

lemma idem: "rnd (rnd x) = rnd x"
  by (rule id[OF rep])

lemma sub_nonneg: "y \<le> x \<Longrightarrow> rep 0 \<Longrightarrow> 0 \<le> rnd (x - y)"
  by (rule rep_le_rnd) auto

lemma step_ulp:
  assumes "rep u" "rep v" "u < v" shows "u + ulp \<le> v"
proof -
  obtain k l :: int where kl: "u = of_int k * ulp" "v = of_int l * ulp"
    using grid assms(1,2) by blast
  then have "k < l" using assms(3) ulp by simp
  then have "real_of_int k + 1 \<le> of_int l" by linarith
  then have "(real_of_int k + 1) * ulp \<le> of_int l * ulp" using ulp by (intro mult_right_mono) auto
  then show ?thesis using kl by (simp add: algebra_simps)
qed

end

interpretation f64: rounding rnd64 is_f64 "2 powr (-1074)"
proof unfold_locales
  show "is_f64 v \<Longrightarrow> \<exists>k::int. v = of_int k * 2 powr - 1074" for v
    using rnd64_grid[of v] by (simp add: rnd64_id)
qed (auto intro: rnd64_mono is_f64_rnd64 rnd64_id)

lemma is_f64_0 [simp]: "is_f64 0" using is_f64_of_int[of 0] by simp

end
