(* ===== verification/Watchers.thy ===== *)
theory Watchers
  imports Tstamp
begin

section \<open>Watchers and the watcher store\<close>

text \<open>
  The watcher structures of \<^verbatim>\<open>ev.h\<close>. A pointer to a watcher (\<^verbatim>\<open>W\<close> in \<^verbatim>\<open>ev.c\<close>) is a
  value of the datatype \<open>W\<close>: the constructor is the struct the pointer points to, the
  number tells the objects of that struct apart. The loop's own watchers
  (\<^verbatim>\<open>pipe_w\<close>, \<^verbatim>\<open>timerfd_w\<close>, \<dots>) and watchers embedded in a larger struct (the timer of an
  \<^verbatim>\<open>ev_stat\<close>, the halves of an \<^verbatim>\<open>ev_once\<close> or of a libevent \<^verbatim>\<open>struct event\<close>) have constructors of their own, so that
  \<^verbatim>\<open>EV_CONTAINER_OF\<close> is pattern matching and no two pointers of different C types are
  ever equal.

  The record \<open>ev_watcher\<close> is \<^verbatim>\<open>union ev_any_watcher\<close>: the common initial sequence of
  \<^verbatim>\<open>EV_WATCHER\<close> first (\<^verbatim>\<open>active\<close>, \<^verbatim>\<open>pending\<close>, \<^verbatim>\<open>priority\<close>, \<^verbatim>\<open>cb\<close>), then the members of
  the particular structs; an object uses those its struct has. The watcher store maps
  pointers to objects; what aliases in C aliases here.
\<close>

datatype W =
    IoW nat | TimerW nat | PeriodicW nat | SignalW nat | ChildW nat | StatW nat
  | IdleW nat | PrepareW nat | CheckW nat | ForkW nat | CleanupW nat | AsyncW nat | EmbedW nat
  | PendingW | PipeW | TimerfdW | SigfdW | FsW | ChildevW | IouringTfdW | LinuxaioEpollW
  | StatTimer nat | OnceIo nat | OnceTo nat
  | EmbedIo nat | EmbedPrepare nat | EmbedFork nat
  | EventIo nat | EventSig nat | EventTo nat

text \<open>Which callback a watcher holds: one of the library's own, or the user's.\<close>

datatype ev_cb =
    UserCb nat | Pendingcb | Pipecb | Sigfdcb | Timerfdcb | Childcb
  | StatTimerCb | InfyCb | OnceCbIo | OnceCbTo
  | EmbedIoCb | EmbedPrepareCb | EmbedForkCb | IouringTfdCb | LinuxaioEpollCb
  | EventCbIo | EventCbSig | EventCbTo

text \<open>\<^verbatim>\<open>ev_statdata\<close>: the members of \<^verbatim>\<open>struct stat\<close> the library compares.\<close>

record ev_statdata =
  st_dev :: int
  st_ino :: int
  st_mode :: int
  st_nlink :: int
  st_uid :: int
  st_gid :: int
  st_rdev :: int
  st_size :: int
  st_atime :: int
  st_mtime :: int
  st_ctime :: int

record ev_watcher =
  active :: nat
  pending :: nat
  priority :: int
  w_cb :: ev_cb
  w_at :: ev_tstamp            \<comment> \<open>\<^verbatim>\<open>EV_WATCHER_TIME\<close>\<close>
  w_repeat :: ev_tstamp        \<comment> \<open>\<^verbatim>\<open>ev_timer\<close>\<close>
  w_offset :: ev_tstamp        \<comment> \<open>\<^verbatim>\<open>ev_periodic\<close>\<close>
  w_interval :: ev_tstamp      \<comment> \<open>\<^verbatim>\<open>ev_periodic\<close>, \<^verbatim>\<open>ev_stat\<close>\<close>
  w_reschedule :: "nat option" \<comment> \<open>\<^verbatim>\<open>ev_periodic.reschedule_cb\<close>, by name\<close>
  w_fd :: int                  \<comment> \<open>\<^verbatim>\<open>ev_io\<close>\<close>
  w_events :: u32              \<comment> \<open>\<^verbatim>\<open>ev_io\<close>\<close>
  w_signum :: int              \<comment> \<open>\<^verbatim>\<open>ev_signal\<close>\<close>
  w_flags :: u32               \<comment> \<open>\<^verbatim>\<open>ev_child\<close>\<close>
  w_pid :: int                 \<comment> \<open>\<^verbatim>\<open>ev_child\<close>\<close>
  w_rpid :: int                \<comment> \<open>\<^verbatim>\<open>ev_child\<close>\<close>
  w_rstatus :: int             \<comment> \<open>\<^verbatim>\<open>ev_child\<close>\<close>
  w_sent :: bool               \<comment> \<open>\<^verbatim>\<open>ev_async\<close>\<close>
  w_path :: string             \<comment> \<open>\<^verbatim>\<open>ev_stat\<close>\<close>
  w_prev :: ev_statdata        \<comment> \<open>\<^verbatim>\<open>ev_stat\<close>\<close>
  w_attr :: ev_statdata        \<comment> \<open>\<^verbatim>\<open>ev_stat\<close>\<close>
  w_wd :: int                  \<comment> \<open>\<^verbatim>\<open>ev_stat\<close>\<close>

type_synonym wstore = "W \<Rightarrow> ev_watcher"

text \<open>\<^verbatim>\<open>ABSPRI\<close>: the index of a watcher's priority in the per-priority arrays.\<close>

definition ABSPRI :: "ev_watcher \<Rightarrow> nat" where
  "ABSPRI w = nat (priority w - EV_MINPRI)"

definition pri_valid :: "ev_watcher \<Rightarrow> bool" where
  "pri_valid w \<longleftrightarrow> EV_MINPRI \<le> priority w \<and> priority w \<le> EV_MAXPRI"

lemma ABSPRI_lt: "pri_valid w \<Longrightarrow> ABSPRI w < NUMPRI"
  by (auto simp: pri_valid_def ABSPRI_def)

text \<open>Assigning one member of one object.\<close>

definition set_active :: "wstore \<Rightarrow> W \<Rightarrow> nat \<Rightarrow> wstore" where
  "set_active ws w k = ws(w := (ws w)\<lparr>active := k\<rparr>)"

definition set_pending :: "wstore \<Rightarrow> W \<Rightarrow> nat \<Rightarrow> wstore" where
  "set_pending ws w k = ws(w := (ws w)\<lparr>pending := k\<rparr>)"

definition set_at :: "wstore \<Rightarrow> W \<Rightarrow> ev_tstamp \<Rightarrow> wstore" where
  "set_at ws w t = ws(w := (ws w)\<lparr>w_at := t\<rparr>)"

text \<open>
  \<open>same_but_active\<close>: two stores that differ at most in \<^verbatim>\<open>active\<close> members, which is all the
  heap routines write.
\<close>

definition same_but_active :: "wstore \<Rightarrow> wstore \<Rightarrow> bool" where
  "same_but_active ws ws' \<longleftrightarrow> (\<forall>w. (ws' w)\<lparr>active := 0\<rparr> = (ws w)\<lparr>active := 0\<rparr>)"

lemma same_but_active_refl [simp]: "same_but_active ws ws"
  by (simp add: same_but_active_def)

lemma same_but_active_trans:
  "same_but_active a b \<Longrightarrow> same_but_active b c \<Longrightarrow> same_but_active a c"
  by (simp add: same_but_active_def)

lemma same_but_active_set [simp]: "same_but_active ws (set_active ws w k)"
  by (simp add: same_but_active_def set_active_def)

lemma same_but_activeD:
  assumes "same_but_active ws ws'"
  shows "pending (ws' w) = pending (ws w)" "priority (ws' w) = priority (ws w)"
    "w_cb (ws' w) = w_cb (ws w)" "w_at (ws' w) = w_at (ws w)"
    "w_repeat (ws' w) = w_repeat (ws w)" "w_offset (ws' w) = w_offset (ws w)"
    "w_interval (ws' w) = w_interval (ws w)" "w_reschedule (ws' w) = w_reschedule (ws w)"
    "w_fd (ws' w) = w_fd (ws w)" "w_events (ws' w) = w_events (ws w)"
    "w_signum (ws' w) = w_signum (ws w)" "w_flags (ws' w) = w_flags (ws w)"
    "w_pid (ws' w) = w_pid (ws w)" "w_sent (ws' w) = w_sent (ws w)"
    "w_path (ws' w) = w_path (ws w)" "w_prev (ws' w) = w_prev (ws w)" "w_attr (ws' w) = w_attr (ws w)" "w_wd (ws' w) = w_wd (ws w)"
proof -
  from assms have e: "(ws' w)\<lparr>active := 0\<rparr> = (ws w)\<lparr>active := 0\<rparr>" by (simp add: same_but_active_def)
  show "pending (ws' w) = pending (ws w)" using arg_cong[OF e, of pending] by simp
  show "priority (ws' w) = priority (ws w)" using arg_cong[OF e, of priority] by simp
  show "w_cb (ws' w) = w_cb (ws w)" using arg_cong[OF e, of w_cb] by simp
  show "w_at (ws' w) = w_at (ws w)" using arg_cong[OF e, of w_at] by simp
  show "w_repeat (ws' w) = w_repeat (ws w)" using arg_cong[OF e, of w_repeat] by simp
  show "w_offset (ws' w) = w_offset (ws w)" using arg_cong[OF e, of w_offset] by simp
  show "w_interval (ws' w) = w_interval (ws w)" using arg_cong[OF e, of w_interval] by simp
  show "w_reschedule (ws' w) = w_reschedule (ws w)" using arg_cong[OF e, of w_reschedule] by simp
  show "w_fd (ws' w) = w_fd (ws w)" using arg_cong[OF e, of w_fd] by simp
  show "w_events (ws' w) = w_events (ws w)" using arg_cong[OF e, of w_events] by simp
  show "w_signum (ws' w) = w_signum (ws w)" using arg_cong[OF e, of w_signum] by simp
  show "w_flags (ws' w) = w_flags (ws w)" using arg_cong[OF e, of w_flags] by simp
  show "w_pid (ws' w) = w_pid (ws w)" using arg_cong[OF e, of w_pid] by simp
  show "w_sent (ws' w) = w_sent (ws w)" using arg_cong[OF e, of w_sent] by simp
  show "w_path (ws' w) = w_path (ws w)" using arg_cong[OF e, of w_path] by simp
  show "w_prev (ws' w) = w_prev (ws w)" using arg_cong[OF e, of w_prev] by simp
  show "w_attr (ws' w) = w_attr (ws w)" using arg_cong[OF e, of w_attr] by simp
  show "w_wd (ws' w) = w_wd (ws w)" using arg_cong[OF e, of w_wd] by simp
qed

lemma same_but_active_ABSPRI: "same_but_active ws ws' \<Longrightarrow> ABSPRI (ws' w) = ABSPRI (ws w)"
  by (simp add: ABSPRI_def same_but_activeD)

lemma same_but_active_pri_valid: "same_but_active ws ws' \<Longrightarrow> pri_valid (ws' w) = pri_valid (ws w)"
  by (simp add: pri_valid_def same_but_activeD)

end
