(* ===== verification/DHeap.thy ===== *)
theory DHeap
  imports Watchers
begin

section \<open>The timer heaps\<close>

text \<open>
  The heap routines of \<^verbatim>\<open>ev.c\<close> in both of their compile-time variants: the 4-heap
  (\<^verbatim>\<open>EV_USE_4HEAP\<close>, the default) and the 2-heap. A heap is the array of \<^verbatim>\<open>ANHE\<close> entries
  (the cached deadline and the watcher), used from index \<^verbatim>\<open>HEAP0\<close> on; every routine
  also keeps \<^verbatim>\<open>ev_active (w)\<close> equal to the index of \<open>w\<close>'s entry.

  The proofs are done once, in the locale \<open>dheap\<close>, from what the macros of either
  variant promise: where the parent of an index is and which child the search for the
  minimum returns. Both variants are interpretations of it.
\<close>

record ANHE =
  he_at :: ev_tstamp
  he_w :: W

lemma ANHE_at_upd: "e\<lparr>he_at := t\<rparr> = \<lparr>he_at = t, he_w = he_w e\<rparr>"
  by (cases e) simp

type_synonym heap = "nat \<Rightarrow> ANHE"

subsection \<open>The 4-heap\<close>

abbreviation (input) DHEAP :: nat where "DHEAP \<equiv> 4"
abbreviation (input) HEAP0 :: nat where "HEAP0 \<equiv> 3"

text \<open>
  \<^verbatim>\<open>HPARENT\<close>: C's division truncates, so at the root the quotient of \<open>-1\<close> by 4 is 0 and
  the root is its own parent; truncated subtraction on \<open>nat\<close> gives the same value.
\<close>

definition HPARENT :: "nat \<Rightarrow> nat" where
  "HPARENT k = (k - HEAP0 - 1) div DHEAP + HEAP0"

definition UPHEAP_DONE :: "nat \<Rightarrow> nat \<Rightarrow> bool" where
  "UPHEAP_DONE p k \<longleftrightarrow> p = k"

text \<open>The search for the minimum child in \<^verbatim>\<open>downheap\<close>: fast path, slow path, none.\<close>

definition pick :: "heap \<Rightarrow> nat \<Rightarrow> bool \<Rightarrow> nat \<Rightarrow> nat" where
  "pick heap pos guard minpos =
     (if guard \<and> he_at (heap minpos) > he_at (heap pos) then pos else minpos)"

definition min_child4 :: "heap \<Rightarrow> nat \<Rightarrow> nat \<Rightarrow> nat option" where
  "min_child4 heap N k =
     (let E = N + HEAP0; pos = DHEAP * (k - HEAP0) + HEAP0 + 1 in
      if pos + DHEAP - 1 < E then
        Some (pick heap (pos + 3) True (pick heap (pos + 2) True (pick heap (pos + 1) True pos)))
      else if pos < E then
        Some (pick heap (pos + 3) (pos + 3 < E)
               (pick heap (pos + 2) (pos + 2 < E) (pick heap (pos + 1) (pos + 1 < E) pos)))
      else None)"

lemma pick_in: "pick heap pos g m \<in> (if g then {pos, m} else {m})"
  by (simp add: pick_def)

lemma min_child4_gt: "min_child4 heap N k = Some c \<Longrightarrow> k < c \<and> c < N + HEAP0"
  by (auto simp: min_child4_def Let_def pick_def split: if_splits)

function downheap_loop :: "heap \<Rightarrow> wstore \<Rightarrow> ANHE \<Rightarrow> nat \<Rightarrow> nat \<Rightarrow> heap \<times> wstore" where
  "downheap_loop heap ws he N k =
     (case min_child4 heap N k of
        None \<Rightarrow> (heap(k := he), set_active ws (he_w he) k)
      | Some minpos \<Rightarrow>
          if he_at he \<le> he_at (heap minpos) then (heap(k := he), set_active ws (he_w he) k)
          else downheap_loop (heap(k := heap minpos)) (set_active ws (he_w (heap minpos)) k) he N minpos)"
  by pat_completeness auto
termination
  by (relation "measure (\<lambda>(heap, ws, he, N, k). N + HEAP0 - k)") (auto dest!: min_child4_gt)

definition downheap :: "heap \<Rightarrow> wstore \<Rightarrow> nat \<Rightarrow> nat \<Rightarrow> heap \<times> wstore" where
  "downheap heap ws N k = downheap_loop heap ws (heap k) N k"

lemma HPARENT_lt: "HEAP0 < k \<Longrightarrow> HPARENT k < k"
  by (simp add: HPARENT_def)

lemma HPARENT_ge: "HEAP0 \<le> HPARENT k"
  by (simp add: HPARENT_def)

function upheap_loop :: "heap \<Rightarrow> wstore \<Rightarrow> ANHE \<Rightarrow> nat \<Rightarrow> heap \<times> wstore" where
  "upheap_loop heap ws he k =
     (let p = HPARENT k in
      if UPHEAP_DONE p k \<or> he_at (heap p) \<le> he_at he then (heap(k := he), set_active ws (he_w he) k)
      else upheap_loop (heap(k := heap p)) (set_active ws (he_w (heap p)) k) he p)"
  by pat_completeness auto
termination
proof (relation "measure (\<lambda>(heap, ws, he, k). if k < HEAP0 then HEAP0 + 1 else k)", goal_cases)
  case 1 then show ?case by simp
next
  case (2 heap ws he k p)
  then have "p = HPARENT k" "p \<noteq> k" by (auto simp: UPHEAP_DONE_def)
  moreover have "k \<le> 3 \<Longrightarrow> HPARENT k = 3" by (simp add: HPARENT_def)
  ultimately show ?case using HPARENT_lt[of k] HPARENT_ge[of k] by (cases "3 < k") auto
qed

definition upheap :: "heap \<Rightarrow> wstore \<Rightarrow> nat \<Rightarrow> heap \<times> wstore" where
  "upheap heap ws k = upheap_loop heap ws (heap k) k"

definition adjustheap :: "heap \<Rightarrow> wstore \<Rightarrow> nat \<Rightarrow> nat \<Rightarrow> heap \<times> wstore" where
  "adjustheap heap ws N k =
     (if k > HEAP0 \<and> he_at (heap k) \<le> he_at (heap (HPARENT k)) then upheap heap ws k
      else downheap heap ws N k)"

text \<open>\<^verbatim>\<open>reheap\<close>: the loop over \<^verbatim>\<open>i\<close> from 0 up to \<^verbatim>\<open>N - 1\<close>.\<close>

fun reheap :: "heap \<Rightarrow> wstore \<Rightarrow> nat \<Rightarrow> heap \<times> wstore" where
  "reheap heap ws 0 = (heap, ws)"
| "reheap heap ws (Suc i) = (case reheap heap ws i of (heap', ws') \<Rightarrow> upheap heap' ws' (i + HEAP0))"

subsection \<open>The 2-heap (\<^verbatim>\<open>EV_USE_4HEAP\<close> off)\<close>

abbreviation (input) HEAP0_2 :: nat where "HEAP0_2 \<equiv> 1"

definition HPARENT2 :: "nat \<Rightarrow> nat" where "HPARENT2 k = k div 2"

definition UPHEAP_DONE2 :: "nat \<Rightarrow> nat \<Rightarrow> bool" where "UPHEAP_DONE2 p k \<longleftrightarrow> p = 0"

definition min_child2 :: "heap \<Rightarrow> nat \<Rightarrow> nat \<Rightarrow> nat option" where
  "min_child2 heap N k =
     (let c = 2 * k in
      if c \<ge> N + HEAP0_2 then None
      else Some (c + (if c + 1 < N + HEAP0_2 \<and> he_at (heap c) > he_at (heap (c + 1)) then 1 else 0)))"

text \<open>
  The loop body for \<open>k = 0\<close> would not make progress; the heap starts at index 1, and
  the equation for 0 only makes the recursion total.
\<close>

function downheap2_loop :: "heap \<Rightarrow> wstore \<Rightarrow> ANHE \<Rightarrow> nat \<Rightarrow> nat \<Rightarrow> heap \<times> wstore" where
  "downheap2_loop heap ws he N k =
     (if k = 0 then (heap(k := he), set_active ws (he_w he) k) else
      case min_child2 heap N k of
        None \<Rightarrow> (heap(k := he), set_active ws (he_w he) k)
      | Some c \<Rightarrow>
          if he_at he \<le> he_at (heap c) then (heap(k := he), set_active ws (he_w he) k)
          else downheap2_loop (heap(k := heap c)) (set_active ws (he_w (heap c)) k) he N c)"
  by pat_completeness auto
termination
  by (relation "measure (\<lambda>(heap, ws, he, N, k). N + 1 - k)")
     (auto simp: min_child2_def Let_def split: if_splits)

definition downheap2 :: "heap \<Rightarrow> wstore \<Rightarrow> nat \<Rightarrow> nat \<Rightarrow> heap \<times> wstore" where
  "downheap2 heap ws N k = downheap2_loop heap ws (heap k) N k"

function upheap2_loop :: "heap \<Rightarrow> wstore \<Rightarrow> ANHE \<Rightarrow> nat \<Rightarrow> heap \<times> wstore" where
  "upheap2_loop heap ws he k =
     (let p = HPARENT2 k in
      if UPHEAP_DONE2 p k \<or> he_at (heap p) \<le> he_at he then (heap(k := he), set_active ws (he_w he) k)
      else upheap2_loop (heap(k := heap p)) (set_active ws (he_w (heap p)) k) he p)"
  by pat_completeness auto
termination
  by (relation "measure (\<lambda>(heap, ws, he, k). k)") (auto simp: HPARENT2_def UPHEAP_DONE2_def)

definition upheap2 :: "heap \<Rightarrow> wstore \<Rightarrow> nat \<Rightarrow> heap \<times> wstore" where
  "upheap2 heap ws k = upheap2_loop heap ws (heap k) k"

definition adjustheap2 :: "heap \<Rightarrow> wstore \<Rightarrow> nat \<Rightarrow> nat \<Rightarrow> heap \<times> wstore" where
  "adjustheap2 heap ws N k =
     (if k > HEAP0_2 \<and> he_at (heap k) \<le> he_at (heap (HPARENT2 k)) then upheap2 heap ws k
      else downheap2 heap ws N k)"

fun reheap2 :: "heap \<Rightarrow> wstore \<Rightarrow> nat \<Rightarrow> heap \<times> wstore" where
  "reheap2 heap ws 0 = (heap, ws)"
| "reheap2 heap ws (Suc i) = (case reheap2 heap ws i of (heap', ws') \<Rightarrow> upheap2 heap' ws' (i + HEAP0_2))"

declare downheap_loop.simps [simp del] upheap_loop.simps [simp del]
  downheap2_loop.simps [simp del] upheap2_loop.simps [simp del]

subsection \<open>What the heap promises\<close>

text \<open>
  The three assertions of \<^verbatim>\<open>verify_heap\<close>: the heap condition, the agreement of
  \<^verbatim>\<open>ev_active\<close> with the index of the entry, and the agreement of the cached deadline
  with the watcher's.
\<close>

definition heap_ordered :: "nat \<Rightarrow> (nat \<Rightarrow> nat) \<Rightarrow> heap \<Rightarrow> nat \<Rightarrow> bool" where
  "heap_ordered h0 par heap N \<longleftrightarrow>
     (\<forall>i. h0 < i \<and> i < N + h0 \<longrightarrow> he_at (heap (par i)) \<le> he_at (heap i))"

text \<open>
  \<open>heap_hole\<close>: the heap condition without what it says of the entry at \<open>k\<close>. It holds of
  a heap in which only that entry was replaced, and is what \<^verbatim>\<open>adjustheap\<close> starts from.
\<close>

definition heap_hole :: "nat \<Rightarrow> (nat \<Rightarrow> nat) \<Rightarrow> heap \<Rightarrow> nat \<Rightarrow> nat \<Rightarrow> bool" where
  "heap_hole h0 par heap N k \<longleftrightarrow>
     (\<forall>i. h0 < i \<and> i < N + h0 \<and> i \<noteq> k \<and> par i \<noteq> k \<longrightarrow> he_at (heap (par i)) \<le> he_at (heap i)) \<and>
     (\<forall>i. h0 < i \<and> i < N + h0 \<and> par i = k \<and> h0 < k \<longrightarrow> he_at (heap (par k)) \<le> he_at (heap i))"

definition heap_indexed :: "nat \<Rightarrow> heap \<Rightarrow> wstore \<Rightarrow> nat \<Rightarrow> bool" where
  "heap_indexed h0 heap ws N \<longleftrightarrow>
     (\<forall>i. h0 \<le> i \<and> i < N + h0 \<longrightarrow> active (ws (he_w (heap i))) = i)"

definition heap_cached :: "nat \<Rightarrow> heap \<Rightarrow> wstore \<Rightarrow> nat \<Rightarrow> bool" where
  "heap_cached h0 heap ws N \<longleftrightarrow>
     (\<forall>i. h0 \<le> i \<and> i < N + h0 \<longrightarrow> he_at (heap i) = w_at (ws (he_w (heap i))))"

definition heap_watchers :: "nat \<Rightarrow> heap \<Rightarrow> nat \<Rightarrow> W set" where
  "heap_watchers h0 heap N = (\<lambda>i. he_w (heap i)) ` {h0..<N + h0}"

lemma heap_watchers_slice: "heap_watchers h0 heap N = he_w ` set_mset (slice_mset heap h0 (N + h0))"
  by (auto simp: heap_watchers_def)

text \<open>
  \<open>heap_ok\<close> is the conjunction of the three. \<open>heap_perm\<close> relates the state before and
  after a routine that only reorders: the same entries, nothing behind the heap changed,
  no watcher outside the heap changed, and of those inside only \<^verbatim>\<open>active\<close>.
\<close>

definition heap_ok :: "nat \<Rightarrow> (nat \<Rightarrow> nat) \<Rightarrow> heap \<Rightarrow> wstore \<Rightarrow> nat \<Rightarrow> bool" where
  "heap_ok h0 par heap ws N \<longleftrightarrow>
     heap_ordered h0 par heap N \<and> heap_indexed h0 heap ws N \<and> heap_cached h0 heap ws N"

definition heap_perm :: "nat \<Rightarrow> nat \<Rightarrow> heap \<Rightarrow> wstore \<Rightarrow> heap \<Rightarrow> wstore \<Rightarrow> bool" where
  "heap_perm h0 N heap ws heap' ws' \<longleftrightarrow>
     slice_mset heap' h0 (N + h0) = slice_mset heap h0 (N + h0) \<and>
     (\<forall>i. N + h0 \<le> i \<longrightarrow> heap' i = heap i) \<and>
     same_but_active ws ws' \<and>
     (\<forall>w. w \<notin> heap_watchers h0 heap N \<longrightarrow> ws' w = ws w)"

lemma heap_perm_refl [simp]: "heap_perm h0 N heap ws heap ws"
  by (simp add: heap_perm_def)

lemma heap_perm_watchers: "heap_perm h0 N heap ws heap' ws' \<Longrightarrow> heap_watchers h0 heap' N = heap_watchers h0 heap N"
  by (simp add: heap_perm_def heap_watchers_slice)

lemma heap_perm_trans:
  assumes "heap_perm h0 N a wa b wb" "heap_perm h0 N b wb c wc"
  shows "heap_perm h0 N a wa c wc"
  using assms heap_perm_watchers[OF assms(1)] unfolding heap_perm_def
  by (auto intro: same_but_active_trans)

lemma heap_cached_slice:
  "heap_cached h0 heap ws N \<longleftrightarrow> (\<forall>e \<in> set_mset (slice_mset heap h0 (N + h0)). he_at e = w_at (ws (he_w e)))"
  by (auto simp: heap_cached_def)

lemma heap_perm_cached:
  assumes "heap_perm h0 N heap ws heap' ws'"
  shows "heap_cached h0 heap' ws' N \<longleftrightarrow> heap_cached h0 heap ws N"
proof -
  from assms have "same_but_active ws ws'" "slice_mset heap' h0 (N + h0) = slice_mset heap h0 (N + h0)"
    by (simp_all add: heap_perm_def)
  then show ?thesis unfolding heap_cached_slice by (simp add: same_but_activeD(4) del: set_slice_mset)
qed

lemma heap_hole_upd [simp]: "(\<And>i. h0 < i \<Longrightarrow> par i < i) \<Longrightarrow> heap_hole h0 par (heap(k := e)) N k \<longleftrightarrow> heap_hole h0 par heap N k"
  unfolding heap_hole_def by (auto simp: less_imp_neq)

lemma heap_ordered_hole:
  assumes lt: "\<And>i. h0 < i \<Longrightarrow> par i < i" and "heap_ordered h0 par heap N"
  shows "heap_hole h0 par heap N k"
proof -
  have "he_at (heap (par k)) \<le> he_at (heap i)" if "h0 < i" "i < N + h0" "par i = k" "h0 < k" for i
  proof -
    have "k < N + h0" using lt[OF that(1)] that by simp
    then have "he_at (heap (par k)) \<le> he_at (heap k)" using assms(2) that(4) unfolding heap_ordered_def by blast
    also have "he_at (heap k) \<le> he_at (heap i)" using assms(2) that unfolding heap_ordered_def by blast
    finally show ?thesis .
  qed
  then show ?thesis using assms(2) unfolding heap_hole_def heap_ordered_def by blast
qed

text \<open>The watchers at different indices are different: immediate from the indices.\<close>

lemma heap_indexed_inj: "heap_indexed h0 heap ws N \<Longrightarrow> inj_on (\<lambda>i. he_w (heap i)) {h0..<N + h0}"
  by (rule inj_onI) (metis atLeastLessThan_iff heap_indexed_def)

locale dheap =
  fixes h0 :: nat and par :: "nat \<Rightarrow> nat"
    and mc :: "heap \<Rightarrow> nat \<Rightarrow> nat \<Rightarrow> nat option"
    and up :: "heap \<Rightarrow> wstore \<Rightarrow> ANHE \<Rightarrow> nat \<Rightarrow> heap \<times> wstore"
    and down :: "heap \<Rightarrow> wstore \<Rightarrow> ANHE \<Rightarrow> nat \<Rightarrow> nat \<Rightarrow> heap \<times> wstore"
    and adj :: "heap \<Rightarrow> wstore \<Rightarrow> nat \<Rightarrow> nat \<Rightarrow> heap \<times> wstore"
    and re :: "heap \<Rightarrow> wstore \<Rightarrow> nat \<Rightarrow> heap \<times> wstore"
  assumes par_lt: "h0 < k \<Longrightarrow> par k < k"
    and par_ge: "h0 < k \<Longrightarrow> h0 \<le> par k"
    and mc_None: "h0 \<le> k \<Longrightarrow> mc heap N k = None \<Longrightarrow> h0 < i \<Longrightarrow> i < N + h0 \<Longrightarrow> par i \<noteq> k"
    and mc_Some: "h0 \<le> k \<Longrightarrow> mc heap N k = Some c \<Longrightarrow> h0 < c \<and> c < N + h0 \<and> par c = k"
    and mc_min: "h0 \<le> k \<Longrightarrow> mc heap N k = Some c \<Longrightarrow> h0 < i \<Longrightarrow> i < N + h0 \<Longrightarrow> par i = k \<Longrightarrow>
      he_at (heap c) \<le> he_at (heap i)"
    and up_eq: "h0 \<le> k \<Longrightarrow> up heap ws he k =
      (if k = h0 \<or> he_at (heap (par k)) \<le> he_at he then (heap(k := he), set_active ws (he_w he) k)
       else up (heap(k := heap (par k))) (set_active ws (he_w (heap (par k))) k) he (par k))"
    and down_eq: "h0 \<le> k \<Longrightarrow> down heap ws he N k =
      (case mc heap N k of
         None \<Rightarrow> (heap(k := he), set_active ws (he_w he) k)
       | Some c \<Rightarrow>
           if he_at he \<le> he_at (heap c) then (heap(k := he), set_active ws (he_w he) k)
           else down (heap(k := heap c)) (set_active ws (he_w (heap c)) k) he N c)"
    and adj_eq: "adj heap ws N k =
      (if h0 < k \<and> he_at (heap k) \<le> he_at (heap (par k)) then up heap ws (heap k) k
       else down heap ws (heap k) N k)"
    and re_0: "re heap ws 0 = (heap, ws)"
    and re_Suc: "re heap ws (Suc n) =
      up (fst (re heap ws n)) (snd (re heap ws n)) (fst (re heap ws n) (n + h0)) (n + h0)"
begin

text \<open>
  Both loops move a hole: the entry \<open>he\<close> belongs at index \<open>k\<close>, and one step puts
  another entry there and moves the hole. On the completed array \<open>heap(k := he)\<close> a step
  is a swap.
\<close>

lemma swap_hole: "k \<noteq> c \<Longrightarrow> (heap(k := heap c))(c := he) =
    (heap(k := he))(k := (heap(k := he)) c, c := (heap(k := he)) k)"
  by (auto simp: fun_eq_iff)

lemma up_induct [consumes 1, case_names stop move]:
  assumes "h0 \<le> k"
    and stop: "\<And>heap ws k. h0 \<le> k \<Longrightarrow> k = h0 \<or> he_at (heap (par k)) \<le> he_at he \<Longrightarrow>
      up heap ws he k = (heap(k := he), set_active ws (he_w he) k) \<Longrightarrow> P heap ws k"
    and move: "\<And>heap ws k. h0 < k \<Longrightarrow> h0 \<le> par k \<Longrightarrow> par k < k \<Longrightarrow> he_at he < he_at (heap (par k)) \<Longrightarrow>
      up heap ws he k = up (heap(k := heap (par k))) (set_active ws (he_w (heap (par k))) k) he (par k) \<Longrightarrow>
      P (heap(k := heap (par k))) (set_active ws (he_w (heap (par k))) k) (par k) \<Longrightarrow> P heap ws k"
  shows "P heap ws k"
  using assms(1)
proof (induction k arbitrary: heap ws rule: less_induct)
  case (less k)
  show ?case
  proof (cases "k = h0 \<or> he_at (heap (par k)) \<le> he_at he")
    case True
    then show ?thesis using up_eq[OF less.prems] by (intro stop[OF less.prems]) auto
  next
    case False
    then have k: "h0 < k" using less.prems by simp
    then have p: "h0 \<le> par k" "par k < k" by (auto intro: par_lt par_ge)
    show ?thesis using False up_eq[OF less.prems] by (intro move[OF k p]) (auto intro: less.IH p)
  qed
qed

lemma down_induct [consumes 2, case_names stop move]:
  assumes "h0 \<le> k" "k < N + h0"
    and stop: "\<And>heap ws k. h0 \<le> k \<Longrightarrow> k < N + h0 \<Longrightarrow>
      (\<And>i. h0 < i \<Longrightarrow> i < N + h0 \<Longrightarrow> par i = k \<Longrightarrow> he_at he \<le> he_at (heap i)) \<Longrightarrow>
      down heap ws he N k = (heap(k := he), set_active ws (he_w he) k) \<Longrightarrow> P heap ws k"
    and move: "\<And>heap ws k c. h0 \<le> k \<Longrightarrow> k < c \<Longrightarrow> c < N + h0 \<Longrightarrow> par c = k \<Longrightarrow>
      he_at (heap c) < he_at he \<Longrightarrow>
      (\<And>i. h0 < i \<Longrightarrow> i < N + h0 \<Longrightarrow> par i = k \<Longrightarrow> he_at (heap c) \<le> he_at (heap i)) \<Longrightarrow>
      down heap ws he N k = down (heap(k := heap c)) (set_active ws (he_w (heap c)) k) he N c \<Longrightarrow>
      P (heap(k := heap c)) (set_active ws (he_w (heap c)) k) c \<Longrightarrow> P heap ws k"
  shows "P heap ws k"
  using assms(1,2)
proof (induction "N + h0 - k" arbitrary: heap ws k rule: less_induct)
  case less
  note k = less.prems
  show ?case
  proof (cases "mc heap N k")
    case None
    show ?thesis
    proof (rule stop[OF k])
      show "he_at he \<le> he_at (heap i)" if "h0 < i" "i < N + h0" "par i = k" for i
        using mc_None[OF k(1) None that(1,2)] that(3) by simp
      show "down heap ws he N k = (heap(k := he), set_active ws (he_w he) k)"
        using down_eq[OF k(1)] None by simp
    qed
  next
    case (Some c)
    from mc_Some[OF k(1) Some] have c: "h0 < c" "c < N + h0" "par c = k" by auto
    then have kc: "k < c" using par_lt[of c] by simp
    note min = mc_min[OF k(1) Some]
    show ?thesis
    proof (cases "he_at he \<le> he_at (heap c)")
      case True
      show ?thesis
      proof (rule stop[OF k])
        show "he_at he \<le> he_at (heap i)" if "h0 < i" "i < N + h0" "par i = k" for i
          using True min[OF that] by simp
        show "down heap ws he N k = (heap(k := he), set_active ws (he_w he) k)"
          using down_eq[OF k(1)] Some True by simp
      qed
    next
      case False
      show ?thesis
      proof (rule move[of k c heap ws])
        show "down heap ws he N k = down (heap(k := heap c)) (set_active ws (he_w (heap c)) k) he N c"
          using down_eq[OF k(1)] Some False by simp
        show "P (heap(k := heap c)) (set_active ws (he_w (heap c)) k) c"
          using kc c by (intro less.hyps) auto
        show "he_at (heap c) \<le> he_at (heap i)" if "h0 < i" "i < N + h0" "par i = k" for i
          by (rule min[OF that])
      qed (use k kc c False in auto)
    qed
  qed
qed

subsubsection \<open>No entry is lost, nothing outside the heap is touched\<close>

lemma slice_move:
  assumes "h0 \<le> k" "k < N + h0" "h0 \<le> c" "c < N + h0" "k \<noteq> c"
  shows "slice_mset ((heap(k := heap c))(c := he)) h0 (N + h0) = slice_mset (heap(k := he)) h0 (N + h0)"
  by (rule trans[OF arg_cong[OF swap_hole[OF assms(5)], where f = "\<lambda>h. slice_mset h h0 (N + h0)"]
        slice_mset_swap]) (use assms in auto)

lemma up_entries:
  assumes "h0 \<le> k" "k < N + h0"
  shows "slice_mset (fst (up heap ws he k)) h0 (N + h0) = slice_mset (heap(k := he)) h0 (N + h0)"
  using assms
proof (induction heap ws k rule: up_induct[where he = he])
  case (move heap ws k)
  then show ?case using slice_move[of k N "par k" heap he] by (simp del: fun_upd_apply)
qed simp

lemma up_outside:
  assumes "h0 \<le> k" "k < i"
  shows "fst (up heap ws he k) i = heap i"
  using assms by (induction heap ws k rule: up_induct[where he = he]) auto

lemma down_entries:
  assumes "h0 \<le> k" "k < N + h0"
  shows "slice_mset (fst (down heap ws he N k)) h0 (N + h0) = slice_mset (heap(k := he)) h0 (N + h0)"
  using assms
proof (induction heap ws k rule: down_induct[where he = he])
  case (move heap ws k c)
  then show ?case using slice_move[of k N c heap he] by (simp del: fun_upd_apply)
qed simp

lemma down_outside:
  assumes "h0 \<le> k" "k < N + h0" "N + h0 \<le> i"
  shows "fst (down heap ws he N k) i = heap i"
  using assms by (induction heap ws k rule: down_induct[where he = he]) auto

subsubsection \<open>Only \<^verbatim>\<open>active\<close> members of watchers in the heap are written\<close>

lemma up_frame: "h0 \<le> k \<Longrightarrow> same_but_active ws (snd (up heap ws he k))"
proof (induction heap ws k rule: up_induct[where he = he])
  case (move heap ws k)
  then show ?case by (metis same_but_active_set same_but_active_trans)
qed simp

lemma down_frame: "h0 \<le> k \<Longrightarrow> k < N + h0 \<Longrightarrow> same_but_active ws (snd (down heap ws he N k))"
proof (induction heap ws k rule: down_induct[where he = he])
  case (move heap ws k c)
  then show ?case by (metis same_but_active_set same_but_active_trans)
qed simp

lemma watchers_move:
  assumes "h0 \<le> k" "k < N + h0" "h0 \<le> c" "c < N + h0" "k \<noteq> c"
  shows "heap_watchers h0 ((heap(k := heap c))(c := he)) N = heap_watchers h0 (heap(k := he)) N"
    and "he_w (heap c) \<in> heap_watchers h0 (heap(k := he)) N"
proof -
  show "heap_watchers h0 ((heap(k := heap c))(c := he)) N = heap_watchers h0 (heap(k := he)) N"
    unfolding heap_watchers_slice slice_move[OF assms] ..
  have "he_w ((heap(k := he)) c) \<in> heap_watchers h0 (heap(k := he)) N"
    unfolding heap_watchers_def using assms by (intro imageI) auto
  then show "he_w (heap c) \<in> heap_watchers h0 (heap(k := he)) N" using assms by simp
qed

lemma watchers_stop: "h0 \<le> k \<Longrightarrow> k < N + h0 \<Longrightarrow> he_w he \<in> heap_watchers h0 (heap(k := he)) N"
  unfolding heap_watchers_def by (rule image_eqI[of _ _ k]) auto

lemma up_others:
  assumes "h0 \<le> k" "k < N + h0" "w \<notin> heap_watchers h0 (heap(k := he)) N"
  shows "snd (up heap ws he k) w = ws w"
  using assms
proof (induction heap ws k rule: up_induct[where he = he])
  case (stop heap ws k)
  then have "w \<noteq> he_w he" using watchers_stop by blast
  then show ?case using stop by (simp add: set_active_def)
next
  case (move heap ws k)
  have r: "h0 \<le> k" "k < N + h0" "h0 \<le> par k" "par k < N + h0" "k \<noteq> par k" using move by auto
  note m = watchers_move[OF r, of heap he]
  have "w \<noteq> he_w (heap (par k))" using m(2) move.prems(2) by blast
  moreover have "snd (up heap ws he k) w = set_active ws (he_w (heap (par k))) k w"
    using move.IH[OF r(4)] move.prems(2) m(1) move.hyps(5) by (simp del: fun_upd_apply)
  ultimately show ?case by (simp add: set_active_def)
qed

lemma down_others:
  assumes "h0 \<le> k" "k < N + h0" "w \<notin> heap_watchers h0 (heap(k := he)) N"
  shows "snd (down heap ws he N k) w = ws w"
  using assms
proof (induction heap ws k rule: down_induct[where he = he])
  case (stop heap ws k)
  then have "w \<noteq> he_w he" using watchers_stop by blast
  then show ?case using stop by (simp add: set_active_def)
next
  case (move heap ws k c)
  have r: "h0 \<le> k" "k < N + h0" "h0 \<le> c" "c < N + h0" "k \<noteq> c" using move by auto
  note m = watchers_move[OF r, of heap he]
  have "w \<noteq> he_w (heap c)" using m(2) move.prems by blast
  moreover have "snd (down heap ws he N k) w = set_active ws (he_w (heap c)) k w"
    using move.IH move.prems m(1) move.hyps(7) by (simp del: fun_upd_apply)
  ultimately show ?case by (simp add: set_active_def)
qed

subsubsection \<open>Every entry's watcher is told its index\<close>

text \<open>What holds of the array with a hole: every index but the hole's is right.\<close>

lemma index_move:
  assumes k: "h0 \<le> k" "k < N + h0" and c: "h0 \<le> c" "c < N + h0" "k \<noteq> c"
    and inj: "inj_on (\<lambda>i. he_w ((heap(k := he)) i)) {h0..<N + h0}"
    and idx: "\<And>i. h0 \<le> i \<Longrightarrow> i < N + h0 \<Longrightarrow> i \<noteq> k \<Longrightarrow> active (ws (he_w (heap i))) = i"
  defines "heap' \<equiv> heap(k := heap c)" and "ws' \<equiv> set_active ws (he_w (heap c)) k"
  shows "inj_on (\<lambda>i. he_w ((heap'(c := he)) i)) {h0..<N + h0}"
    and "\<And>i. h0 \<le> i \<Longrightarrow> i < N + h0 \<Longrightarrow> i \<noteq> c \<Longrightarrow> active (ws' (he_w (heap' i))) = i"
proof -
  let ?f = "\<lambda>i. he_w ((heap(k := he)) i)"
  have "(\<lambda>i. he_w ((heap'(c := he)) i)) = ?f(k := ?f c, c := ?f k)"
    using c(3) by (auto simp: heap'_def)
  then show "inj_on (\<lambda>i. he_w ((heap'(c := he)) i)) {h0..<N + h0}"
    using inj_on_swap[OF inj, of k c] k c by simp
  show "active (ws' (he_w (heap' i))) = i" if i: "h0 \<le> i" "i < N + h0" "i \<noteq> c" for i
  proof (cases "i = k")
    case True then show ?thesis by (simp add: heap'_def ws'_def set_active_def)
  next
    case False
    then have "he_w (heap i) \<noteq> he_w (heap c)" using inj_onD[OF inj, of i c] i c by auto
    then show ?thesis using idx[OF i(1,2) False] False by (simp add: heap'_def ws'_def set_active_def)
  qed
qed

lemma index_stop:
  assumes k: "h0 \<le> k" "k < N + h0"
    and inj: "inj_on (\<lambda>i. he_w ((heap(k := he)) i)) {h0..<N + h0}"
    and idx: "\<And>i. h0 \<le> i \<Longrightarrow> i < N + h0 \<Longrightarrow> i \<noteq> k \<Longrightarrow> active (ws (he_w (heap i))) = i"
  shows "heap_indexed h0 (heap(k := he)) (set_active ws (he_w he) k) N"
  unfolding heap_indexed_def
proof (intro allI impI)
  fix i assume i: "h0 \<le> i \<and> i < N + h0"
  show "active (set_active ws (he_w he) k (he_w ((heap(k := he)) i))) = i"
  proof (cases "i = k")
    case True then show ?thesis by (simp add: set_active_def)
  next
    case False
    have "he_w (heap i) \<noteq> he_w he"
    proof
      assume "he_w (heap i) = he_w he"
      then have "he_w ((heap(k := he)) i) = he_w ((heap(k := he)) k)" using False by simp
      from inj_onD[OF inj this] False i k show False by simp
    qed
    then show ?thesis using idx i False by (simp add: set_active_def)
  qed
qed

lemma up_indexed:
  assumes "h0 \<le> k" "k < N + h0"
    and "inj_on (\<lambda>i. he_w ((heap(k := he)) i)) {h0..<N + h0}"
    and "\<And>i. h0 \<le> i \<Longrightarrow> i < N + h0 \<Longrightarrow> i \<noteq> k \<Longrightarrow> active (ws (he_w (heap i))) = i"
  shows "heap_indexed h0 (fst (up heap ws he k)) (snd (up heap ws he k)) N"
  using assms
proof (induction heap ws k rule: up_induct[where he = he])
  case (stop heap ws k)
  show ?case unfolding stop.hyps(3) fst_conv snd_conv
    by (rule index_stop[OF stop.hyps(1) stop.prems])
next
  case (move heap ws k)
  have pN: "par k < N + h0" "k \<noteq> par k" "h0 \<le> k" using move by auto
  note m = index_move[OF pN(3) move.prems(1) move.hyps(2) pN(1,2) move.prems(2,3)]
  from move.IH[OF pN(1) m] show ?case unfolding move.hyps(5) .
qed

lemma down_indexed:
  assumes "h0 \<le> k" "k < N + h0"
    and "inj_on (\<lambda>i. he_w ((heap(k := he)) i)) {h0..<N + h0}"
    and "\<And>i. h0 \<le> i \<Longrightarrow> i < N + h0 \<Longrightarrow> i \<noteq> k \<Longrightarrow> active (ws (he_w (heap i))) = i"
  shows "heap_indexed h0 (fst (down heap ws he N k)) (snd (down heap ws he N k)) N"
  using assms
proof (induction heap ws k rule: down_induct[where he = he])
  case (stop heap ws k)
  show ?case unfolding stop.hyps(4) fst_conv snd_conv
    by (rule index_stop[OF stop.hyps(1,2) stop.prems])
next
  case (move heap ws k c)
  have kN: "k < N + h0" "h0 \<le> c" "k \<noteq> c" using move by auto
  note m = index_move[OF move.hyps(1) kN(1,2) move.hyps(3) kN(3) move.prems]
  from move.IH[OF m] show ?case unfolding move.hyps(7) .
qed

subsubsection \<open>The heap condition is restored\<close>

lemma up_ordered:
  assumes "h0 \<le> k" "k < N + h0" "heap_hole h0 par heap N k"
    and "\<And>i. h0 < i \<Longrightarrow> i < N + h0 \<Longrightarrow> par i = k \<Longrightarrow> he_at he \<le> he_at (heap i)"
  shows "heap_ordered h0 par (fst (up heap ws he k)) N"
  using assms
proof (induction heap ws k rule: up_induct[where he = he])
  case (stop heap ws k)
  have "par i < i" if "h0 < i" for i using par_lt[OF that] .
  then show ?case using stop unfolding heap_ordered_def heap_hole_def
    by (auto simp: less_imp_neq)
next
  case (move heap ws k)
  let ?h = "heap(k := heap (par k))"
  have kp: "par k \<noteq> k" and pN: "par k < N + h0" using move by auto
  have lt: "par i < i" if "h0 < i" for i using par_lt[OF that] .
  note hole = move.prems(2)[unfolded heap_hole_def]
  have "heap_hole h0 par ?h N (par k)"
    unfolding heap_hole_def
  proof (intro conjI allI impI)
    fix i assume i: "h0 < i \<and> i < N + h0 \<and> i \<noteq> par k \<and> par i \<noteq> par k"
    show "he_at (?h (par i)) \<le> he_at (?h i)"
      using hole i move.hyps(1) by (cases "par i = k") auto
  next
    fix i assume i: "h0 < i \<and> i < N + h0 \<and> par i = par k \<and> h0 < par k"
    have pp: "par (par k) < par k" using lt i by simp
    then have n: "par (par k) \<noteq> k" "par k \<noteq> k" "par (par k) \<noteq> par k" using move.hyps(3) by auto
    have *: "he_at (heap (par (par k))) \<le> he_at (heap (par k))"
      using hole i n pN by auto
    show "he_at (?h (par (par k))) \<le> he_at (?h i)"
    proof (cases "i = k")
      case False
      then have "he_at (heap (par k)) \<le> he_at (heap i)" using hole i kp by (metis)
      then show ?thesis using * False n by simp
    qed (use * n in simp)
  qed
  moreover have "he_at he \<le> he_at (?h i)" if "h0 < i" "i < N + h0" "par i = par k" for i
  proof (cases "i = k")
    case False
    then have "he_at (heap (par k)) \<le> he_at (heap i)" using hole that kp by metis
    then show ?thesis using move.hyps(4) False by simp
  qed (use move.hyps(4) in simp)
  ultimately show ?case using move.IH[OF pN] unfolding move.hyps(5) by blast
qed

lemma down_ordered:
  assumes "h0 \<le> k" "k < N + h0" "heap_hole h0 par heap N k"
    and "h0 < k \<Longrightarrow> he_at (heap (par k)) \<le> he_at he"
  shows "heap_ordered h0 par (fst (down heap ws he N k)) N"
  using assms
proof (induction heap ws k rule: down_induct[where he = he])
  case (stop heap ws k)
  have "par i < i" if "h0 < i" for i using par_lt[OF that] .
  then show ?case using stop unfolding heap_ordered_def heap_hole_def
    by (auto simp: less_imp_neq)
next
  case (move heap ws k c)
  let ?h = "heap(k := heap c)"
  have lt: "par i < i" if "h0 < i" for i using par_lt[OF that] .
  have c: "h0 < c" "k \<noteq> c" using move by auto
  note hole = move.prems(1)[unfolded heap_hole_def]
  have "heap_hole h0 par ?h N c"
    unfolding heap_hole_def
  proof (intro conjI allI impI)
    fix i assume i: "h0 < i \<and> i < N + h0 \<and> i \<noteq> c \<and> par i \<noteq> c"
    consider "i = k" | "i \<noteq> k" "par i = k" | "i \<noteq> k" "par i \<noteq> k" by blast
    then show "he_at (?h (par i)) \<le> he_at (?h i)"
    proof cases
      case 1
      then have "par k \<noteq> k" "he_at (heap (par k)) \<le> he_at (heap c)"
        using hole i c move.hyps(3,4) lt[of k] by auto
      then show ?thesis using 1 by simp
    qed (use hole i move.hyps(6) in auto)
  next
    fix i assume i: "h0 < i \<and> i < N + h0 \<and> par i = c \<and> h0 < c"
    then have "i \<noteq> k" "he_at (heap c) \<le> he_at (heap i)" using hole c lt[of i] move.hyps(2) by auto
    then show "he_at (?h (par c)) \<le> he_at (?h i)" using move.hyps(4) by simp
  qed
  moreover have "he_at (?h (par c)) \<le> he_at he" using move.hyps(4,5) by simp
  ultimately show ?case using move.IH unfolding move.hyps(7) by blast
qed

subsubsection \<open>The contract of the routines\<close>

lemma up_perm:
  assumes "h0 \<le> k" "k < N + h0"
  shows "heap_perm h0 N (heap(k := he)) ws (fst (up heap ws he k)) (snd (up heap ws he k))"
  unfolding heap_perm_def
  using assms up_entries[OF assms] up_frame up_others[OF assms] up_outside[OF assms(1)]
  by (auto simp del: fun_upd_apply simp: fun_upd_other)

lemma down_perm:
  assumes "h0 \<le> k" "k < N + h0"
  shows "heap_perm h0 N (heap(k := he)) ws (fst (down heap ws he N k)) (snd (down heap ws he N k))"
  unfolding heap_perm_def
  using assms down_entries[OF assms] down_frame down_others[OF assms] down_outside[OF assms]
  by (auto simp del: fun_upd_apply simp: fun_upd_other)

lemma adj_cases:
  obtains (up) "h0 < k" "he_at (heap k) \<le> he_at (heap (par k))" "adj heap ws N k = up heap ws (heap k) k"
  | (down) "h0 < k \<Longrightarrow> he_at (heap (par k)) \<le> he_at (heap k)" "adj heap ws N k = down heap ws (heap k) N k"
  using adj_eq[of heap ws N k] by (cases "h0 < k \<and> he_at (heap k) \<le> he_at (heap (par k))") auto

lemma adj_perm:
  assumes "h0 \<le> k" "k < N + h0"
  shows "heap_perm h0 N heap ws (fst (adj heap ws N k)) (snd (adj heap ws N k))"
  using up_perm[OF assms, of heap "heap k" ws] down_perm[OF assms, of heap "heap k" ws]
  by (cases rule: adj_cases[where heap = heap and k = k and ws = ws and N = N]) simp_all

lemma adj_ordered:
  assumes k: "h0 \<le> k" "k < N + h0" and hole: "heap_hole h0 par heap N k"
  shows "heap_ordered h0 par (fst (adj heap ws N k)) N"
proof (cases rule: adj_cases[where heap = heap and k = k and ws = ws and N = N])
  case up
  have "he_at (heap k) \<le> he_at (heap i)" if "h0 < i" "i < N + h0" "par i = k" for i
    using up(1,2) hole that unfolding heap_hole_def by force
  then show ?thesis unfolding up(3) using up_ordered[OF k hole] by blast
next
  case down
  show ?thesis unfolding down(2) using down_ordered[OF k hole] down(1) by blast
qed

lemma adj_indexed:
  assumes k: "h0 \<le> k" "k < N + h0"
    and inj: "inj_on (\<lambda>i. he_w (heap i)) {h0..<N + h0}"
    and idx: "\<And>i. h0 \<le> i \<Longrightarrow> i < N + h0 \<Longrightarrow> i \<noteq> k \<Longrightarrow> active (ws (he_w (heap i))) = i"
  shows "heap_indexed h0 (fst (adj heap ws N k)) (snd (adj heap ws N k)) N"
  using up_indexed[OF k, of heap "heap k" ws] down_indexed[OF k, of heap "heap k" ws] inj idx
  by (cases rule: adj_cases[where heap = heap and k = k and ws = ws and N = N]) simp_all

lemma adj_ok:
  assumes "h0 \<le> k" "k < N + h0" "heap_hole h0 par heap N k"
    and "inj_on (\<lambda>i. he_w (heap i)) {h0..<N + h0}"
    and "\<And>i. h0 \<le> i \<Longrightarrow> i < N + h0 \<Longrightarrow> i \<noteq> k \<Longrightarrow> active (ws (he_w (heap i))) = i"
    and "heap_cached h0 heap ws N"
  shows "heap_ok h0 par (fst (adj heap ws N k)) (snd (adj heap ws N k)) N"
  using adj_ordered[OF assms(1-3)] adj_indexed[OF assms(1,2,4,5)] heap_perm_cached[OF adj_perm[OF assms(1,2)]]
    assms(6) by (simp add: heap_ok_def)

text \<open>Sifting up the entry behind the heap extends the heap by it: \<^verbatim>\<open>reheap\<close> and insertion.\<close>

lemma up_append_ordered:
  assumes "heap_ordered h0 par heap N"
  shows "heap_ordered h0 par (fst (up heap ws (heap (N + h0)) (N + h0))) (Suc N)"
proof (rule up_ordered)
  have ne: "par i \<noteq> N + h0" if "h0 < i" "i < Suc N + h0" for i using par_lt[OF that(1)] that by simp
  show "heap_hole h0 par heap (Suc N) (N + h0)"
    using assms ne unfolding heap_hole_def heap_ordered_def by auto
  show "he_at (heap (N + h0)) \<le> he_at (heap i)" if "h0 < i" "i < Suc N + h0" "par i = N + h0" for i
    using ne[OF that(1,2)] that(3) by simp
qed auto

lemma up_append_ok:
  assumes ok: "heap_ok h0 par heap ws N" and new: "he_w (heap (N + h0)) \<notin> heap_watchers h0 heap N"
    and at: "he_at (heap (N + h0)) = w_at (ws (he_w (heap (N + h0))))"
  shows "heap_ok h0 par (fst (up heap ws (heap (N + h0)) (N + h0))) (snd (up heap ws (heap (N + h0)) (N + h0))) (Suc N)"
proof -
  let ?k = "N + h0"
  from ok have ok': "heap_ordered h0 par heap N" "heap_indexed h0 heap ws N" "heap_cached h0 heap ws N"
    by (auto simp: heap_ok_def)
  have k: "h0 \<le> ?k" "?k < Suc N + h0" by auto
  have "inj_on (\<lambda>i. he_w (heap i)) (insert ?k {h0..<?k})"
    using heap_indexed_inj[OF ok'(2)] new by (auto simp: heap_watchers_def)
  moreover have "insert ?k {h0..<?k} = {h0..<Suc N + h0}" by auto
  ultimately have inj: "inj_on (\<lambda>i. he_w (heap i)) {h0..<Suc N + h0}" by simp
  have "heap_cached h0 heap ws (Suc N)" using ok'(3) at
    by (auto simp: heap_cached_def less_Suc_eq)
  moreover have "heap_indexed h0 (fst (up heap ws (heap ?k) ?k)) (snd (up heap ws (heap ?k) ?k)) (Suc N)"
    using up_indexed[OF k, of heap "heap ?k" ws] inj ok'(2) by (simp add: heap_indexed_def)
  ultimately show ?thesis
    using up_append_ordered[OF ok'(1), of ws] up_perm[OF k, of heap "heap ?k" ws]
    by (simp add: heap_ok_def heap_perm_cached)
qed

text \<open>The root is a minimum.\<close>

lemma root_min:
  assumes "heap_ordered h0 par heap N" "h0 \<le> i" "i < N + h0"
  shows "he_at (heap h0) \<le> he_at (heap i)"
  using assms(2,3)
proof (induction i rule: less_induct)
  case (less i)
  show ?case
  proof (cases "i = h0")
    case False
    then have "h0 < i" using less.prems by simp
    then show ?thesis using less.IH[of "par i"] par_lt[of i] par_ge[of i] assms(1) less.prems
      unfolding heap_ordered_def by (meson dual_order.strict_trans order_trans)
  qed simp
qed

lemma re_perm: "heap_perm h0 N heap ws (fst (re heap ws N)) (snd (re heap ws N))"
proof (induction N)
  case (Suc N)
  let ?h = "fst (re heap ws N)" and ?w = "snd (re heap ws N)"
  have "?h (N + h0) = heap (N + h0)" using Suc by (simp add: heap_perm_def)
  then have "heap_perm h0 (Suc N) heap ws ?h ?w" using Suc
    by (auto simp: heap_perm_def slice_mset_Suc heap_watchers_def atLeastLessThanSuc)
  moreover have "heap_perm h0 (Suc N) ?h ?w (fst (up ?h ?w (?h (N + h0)) (N + h0)))
      (snd (up ?h ?w (?h (N + h0)) (N + h0)))"
    using up_perm[of "N + h0" "Suc N" ?h "?h (N + h0)" ?w] by simp
  ultimately show ?case unfolding re_Suc by (rule heap_perm_trans)
qed (simp add: re_0)

lemma re_ok:
  assumes "inj_on (\<lambda>i. he_w (heap i)) {h0..<N + h0}" "heap_cached h0 heap ws N"
  shows "heap_ok h0 par (fst (re heap ws N)) (snd (re heap ws N)) N"
  using assms
proof (induction N)
  case 0
  show ?case by (simp add: re_0 heap_ok_def heap_ordered_def heap_indexed_def heap_cached_def)
next
  case (Suc N)
  let ?h = "fst (re heap ws N)" and ?w = "snd (re heap ws N)" and ?k = "N + h0"
  note p = re_perm[of N heap ws]
  have k: "?h ?k = heap ?k" using p by (simp add: heap_perm_def)
  have S: "{h0..<Suc N + h0} = insert ?k {h0..<?k}" by auto
  from Suc.prems(1) have inj: "inj_on (\<lambda>i. he_w (heap i)) {h0..<?k}"
    and new: "he_w (heap ?k) \<notin> heap_watchers h0 heap N"
    unfolding S heap_watchers_def by auto
  have at: "he_at (heap ?k) = w_at (ws (he_w (heap ?k)))" and c: "heap_cached h0 heap ws N"
    using Suc.prems(2) by (auto simp: heap_cached_def)
  have "w_at (?w (he_w (heap ?k))) = w_at (ws (he_w (heap ?k)))"
    using p by (simp add: heap_perm_def same_but_activeD)
  with new at show ?case unfolding re_Suc
    by (intro up_append_ok[OF Suc.IH[OF inj c]]) (simp_all add: heap_perm_watchers[OF p] k)
qed

text \<open>
  Removal: the entry at \<open>k\<close> is overwritten by the last one, which is then moved to
  where it belongs; nothing else leaves the heap.
\<close>

lemma remove_ok:
  assumes ok: "heap_ok h0 par heap ws (Suc N)" and k: "h0 \<le> k" "k < N + h0"
  defines "h \<equiv> heap(k := heap (N + h0))"
  shows "heap_ok h0 par (fst (adj h ws N k)) (snd (adj h ws N k)) N"
    and "slice_mset heap h0 (Suc N + h0) = add_mset (heap k) (slice_mset (fst (adj h ws N k)) h0 (N + h0))"
proof -
  let ?l = "N + h0"
  from ok have ok': "heap_ordered h0 par heap (Suc N)" "heap_indexed h0 heap ws (Suc N)" "heap_cached h0 heap ws (Suc N)"
    by (auto simp: heap_ok_def)
  have lt: "\<And>i. h0 < i \<Longrightarrow> par i < i" by (rule par_lt)
  have "heap_ordered h0 par heap N" using ok'(1) by (simp add: heap_ordered_def)
  then have hole: "heap_hole h0 par h N k" unfolding h_def
    using heap_ordered_hole[OF lt] heap_hole_upd[OF lt] by blast
  have "inj_on (\<lambda>i. he_w (heap i)) {h0..<Suc N + h0}" by (rule heap_indexed_inj[OF ok'(2)])
  then have inj: "inj_on (\<lambda>i. he_w (h i)) {h0..<?l}"
    using k unfolding h_def inj_on_def by (auto; metis atLeastLessThan_iff less_SucI less_irrefl lessI le_add2)
  have idx: "active (ws (he_w (h i))) = i" if "h0 \<le> i" "i < ?l" "i \<noteq> k" for i
    using ok'(2) that by (simp add: h_def heap_indexed_def)
  have c: "heap_cached h0 h ws N" using ok'(3) by (simp add: h_def heap_cached_def)
  show "heap_ok h0 par (fst (adj h ws N k)) (snd (adj h ws N k)) N"
    using adj_ok[OF k hole inj idx c] .
  have "slice_mset (fst (adj h ws N k)) h0 ?l = slice_mset h h0 ?l"
    using adj_perm[OF k, of h ws] by (simp add: heap_perm_def)
  moreover have "heap k \<in># slice_mset heap h0 ?l" using k by auto
  ultimately show "slice_mset heap h0 (Suc N + h0) = add_mset (heap k) (slice_mset (fst (adj h ws N k)) h0 ?l)"
    using k by (simp add: h_def slice_mset_remove slice_mset_Suc)
qed

text \<open>Update: the deadline of one entry and of its watcher are changed, then the entry is moved.\<close>

lemma update_ok:
  fixes t :: ev_tstamp
  assumes ok: "heap_ok h0 par heap ws N" and k: "h0 \<le> k" "k < N + h0"
  defines "h \<equiv> heap(k := (heap k)\<lparr>he_at := t\<rparr>)" and "ws1 \<equiv> set_at ws (he_w (heap k)) t"
  shows "heap_ok h0 par (fst (adj h ws1 N k)) (snd (adj h ws1 N k)) N \<and>
    heap_perm h0 N h ws1 (fst (adj h ws1 N k)) (snd (adj h ws1 N k))"
proof
  from ok have ok': "heap_ordered h0 par heap N" "heap_indexed h0 heap ws N" "heap_cached h0 heap ws N"
    by (auto simp: heap_ok_def)
  have lt: "\<And>i. h0 < i \<Longrightarrow> par i < i" by (rule par_lt)
  have he: "he_w (h i) = he_w (heap i)" for i by (simp add: h_def)
  have inj: "inj_on (\<lambda>i. he_w (heap i)) {h0..<N + h0}" by (rule heap_indexed_inj[OF ok'(2)])
  show "heap_ok h0 par (fst (adj h ws1 N k)) (snd (adj h ws1 N k)) N"
  proof (rule adj_ok[OF k])
    show "heap_hole h0 par h N k"
      unfolding h_def using heap_ordered_hole[OF lt ok'(1)] heap_hole_upd[OF lt] by blast
    show "inj_on (\<lambda>i. he_w (h i)) {h0..<N + h0}" unfolding he by (rule inj)
    show "active (ws1 (he_w (h i))) = i" if "h0 \<le> i" "i < N + h0" "i \<noteq> k" for i
      using ok'(2) that by (auto simp: he ws1_def set_at_def heap_indexed_def)
    have "he_at (h i) = w_at (ws1 (he_w (heap i)))" if "h0 \<le> i" "i < N + h0" for i
    proof (cases "i = k")
      case False
      then have "he_w (heap i) \<noteq> he_w (heap k)" using inj_onD[OF inj, of i k] that k by auto
      then show ?thesis using ok'(3) that False by (simp add: h_def ws1_def set_at_def heap_cached_def)
    qed (simp add: h_def ws1_def set_at_def)
    then show "heap_cached h0 h ws1 N" by (simp add: heap_cached_def he)
  qed
  show "heap_perm h0 N h ws1 (fst (adj h ws1 N k)) (snd (adj h ws1 N k))" by (rule adj_perm[OF k])
qed

end

subsection \<open>Both variants keep the contract\<close>

lemma min_child4_range:
  assumes "HEAP0 \<le> k" "min_child4 heap N k = Some c"
  shows "HEAP0 < c \<and> c < N + HEAP0 \<and> HPARENT c = k"
  using assms by (auto simp: min_child4_def Let_def pick_def HPARENT_def split: if_splits)

lemma HPARENT_children:
  assumes "HEAP0 < i" "HPARENT i = k"
  defines "p \<equiv> DHEAP * (k - HEAP0) + HEAP0 + 1"
  shows "i = p \<or> i = p + 1 \<or> i = p + 2 \<or> i = p + 3"
  using assms unfolding HPARENT_def p_def by presburger

lemma min_child4_min:
  assumes "min_child4 heap N k = Some c" "HEAP0 < i" "i < N + HEAP0" "HPARENT i = k"
  shows "he_at (heap c) \<le> he_at (heap i)"
  using assms(1,3) HPARENT_children[OF assms(2,4)]
  by (auto simp: min_child4_def Let_def pick_def split: if_splits)

interpretation h4: dheap HEAP0 HPARENT min_child4 upheap_loop downheap_loop adjustheap reheap
proof unfold_locales
  fix k N i c :: nat and heap :: heap and ws he
  show "HEAP0 < k \<Longrightarrow> HPARENT k < k" by (rule HPARENT_lt)
  show "HEAP0 < k \<Longrightarrow> HEAP0 \<le> HPARENT k" by (rule HPARENT_ge)
  show "min_child4 heap N k = None \<Longrightarrow> HEAP0 < i \<Longrightarrow> i < N + HEAP0 \<Longrightarrow> HPARENT i \<noteq> k"
    using HPARENT_children[of i k] by (auto simp: min_child4_def Let_def split: if_splits)
  show "HEAP0 \<le> k \<Longrightarrow> min_child4 heap N k = Some c \<Longrightarrow> HEAP0 < c \<and> c < N + HEAP0 \<and> HPARENT c = k"
    by (rule min_child4_range)
  show "min_child4 heap N k = Some c \<Longrightarrow> HEAP0 < i \<Longrightarrow> i < N + HEAP0 \<Longrightarrow> HPARENT i = k \<Longrightarrow>
      he_at (heap c) \<le> he_at (heap i)" by (rule min_child4_min)
  show "upheap_loop heap ws he k =
      (if k = HEAP0 \<or> he_at (heap (HPARENT k)) \<le> he_at he then (heap(k := he), set_active ws (he_w he) k)
       else upheap_loop (heap(k := heap (HPARENT k))) (set_active ws (he_w (heap (HPARENT k))) k) he (HPARENT k))"
    if "HEAP0 \<le> k"
  proof -
    have "HPARENT k = k \<longleftrightarrow> k = HEAP0" using that HPARENT_lt[of k] by (cases "k = 3") (auto simp: HPARENT_def)
    then show ?thesis by (subst upheap_loop.simps) (simp add: UPHEAP_DONE_def Let_def)
  qed
  show "downheap_loop heap ws he N k = (case min_child4 heap N k of
         None \<Rightarrow> (heap(k := he), set_active ws (he_w he) k)
       | Some c \<Rightarrow> if he_at he \<le> he_at (heap c) then (heap(k := he), set_active ws (he_w he) k)
           else downheap_loop (heap(k := heap c)) (set_active ws (he_w (heap c)) k) he N c)"
    by (rule downheap_loop.simps)
  show "reheap heap ws (Suc i) = upheap_loop (fst (reheap heap ws i)) (snd (reheap heap ws i))
      (fst (reheap heap ws i) (i + HEAP0)) (i + HEAP0)"
    by (simp add: upheap_def split: prod.split)
qed (simp_all add: adjustheap_def upheap_def downheap_def)

interpretation h2: dheap HEAP0_2 HPARENT2 min_child2 upheap2_loop downheap2_loop adjustheap2 reheap2
proof unfold_locales
  fix k N i c :: nat and heap :: heap and ws he
  show "HEAP0_2 < k \<Longrightarrow> HPARENT2 k < k" by (simp add: HPARENT2_def)
  show "HEAP0_2 < k \<Longrightarrow> HEAP0_2 \<le> HPARENT2 k" by (simp add: HPARENT2_def)
  show "min_child2 heap N k = None \<Longrightarrow> HEAP0_2 < i \<Longrightarrow> i < N + HEAP0_2 \<Longrightarrow> HPARENT2 i \<noteq> k"
    by (auto simp: min_child2_def HPARENT2_def Let_def split: if_splits)
  show "HEAP0_2 \<le> k \<Longrightarrow> min_child2 heap N k = Some c \<Longrightarrow> HEAP0_2 < c \<and> c < N + HEAP0_2 \<and> HPARENT2 c = k"
    by (auto simp: min_child2_def HPARENT2_def Let_def split: if_splits)
  show "he_at (heap c) \<le> he_at (heap i)"
    if "min_child2 heap N k = Some c" "i < N + HEAP0_2" "HPARENT2 i = k"
  proof -
    have "i = 2 * k \<or> i = 2 * k + 1" using that(3) unfolding HPARENT2_def by presburger
    then show ?thesis using that(1,2) by (auto simp: min_child2_def Let_def split: if_splits)
  qed
  show "upheap2_loop heap ws he k =
      (if k = HEAP0_2 \<or> he_at (heap (HPARENT2 k)) \<le> he_at he then (heap(k := he), set_active ws (he_w he) k)
       else upheap2_loop (heap(k := heap (HPARENT2 k))) (set_active ws (he_w (heap (HPARENT2 k))) k) he (HPARENT2 k))"
    if "HEAP0_2 \<le> k"
  proof -
    have "HPARENT2 k = 0 \<longleftrightarrow> k = HEAP0_2" using that by (auto simp: HPARENT2_def)
    then show ?thesis by (subst upheap2_loop.simps) (simp add: UPHEAP_DONE2_def Let_def)
  qed
  show "downheap2_loop heap ws he N k = (case min_child2 heap N k of
         None \<Rightarrow> (heap(k := he), set_active ws (he_w he) k)
       | Some c \<Rightarrow> if he_at he \<le> he_at (heap c) then (heap(k := he), set_active ws (he_w he) k)
           else downheap2_loop (heap(k := heap c)) (set_active ws (he_w (heap c)) k) he N c)"
    if "HEAP0_2 \<le> k" using that by (subst downheap2_loop.simps) simp
  show "reheap2 heap ws (Suc i) = upheap2_loop (fst (reheap2 heap ws i)) (snd (reheap2 heap ws i))
      (fst (reheap2 heap ws i) (i + HEAP0_2)) (i + HEAP0_2)"
    by (simp add: upheap2_def split: prod.split)
qed (simp_all add: adjustheap2_def upheap2_def downheap2_def)

text \<open>The predicates run over finitely many indices, so that they can be evaluated.\<close>

lemma heap_ordered_code [code]: "heap_ordered h0 par heap N \<longleftrightarrow>
    list_all (\<lambda>i. he_at (heap (par i)) \<le> he_at (heap i)) [Suc h0..<N + h0]"
  by (auto simp: heap_ordered_def list_all_iff)

lemma heap_indexed_code [code]: "heap_indexed h0 heap ws N \<longleftrightarrow>
    list_all (\<lambda>i. active (ws (he_w (heap i))) = i) [h0..<N + h0]"
  by (auto simp: heap_indexed_def list_all_iff)

lemma heap_cached_code [code]: "heap_cached h0 heap ws N \<longleftrightarrow>
    list_all (\<lambda>i. he_at (heap i) = w_at (ws (he_w (heap i)))) [h0..<N + h0]"
  by (auto simp: heap_cached_def list_all_iff)

text \<open>
  C3: changing one deadline and calling \<^verbatim>\<open>adjustheap\<close> restores everything
  \<^verbatim>\<open>verify_heap\<close> asserts (heap condition, back-indices, cached deadlines), for every
  heap size, position and new deadline; the entries are those of the changed array, no
  watcher outside the heap is touched, and no field but \<^verbatim>\<open>active\<close> is written.
\<close>

theorem adjustheap_restores:
  assumes "heap_ok HEAP0 HPARENT heap ws N" "HEAP0 \<le> k" "k < N + HEAP0"
  shows "case adjustheap (heap(k := (heap k)\<lparr>he_at := t\<rparr>)) (set_at ws (he_w (heap k)) t) N k of (heap', ws') \<Rightarrow>
    heap_ok HEAP0 HPARENT heap' ws' N \<and>
    heap_perm HEAP0 N (heap(k := (heap k)\<lparr>he_at := t\<rparr>)) (set_at ws (he_w (heap k)) t) heap' ws'"
  using h4.update_ok[OF assms, of t] by (simp add: case_prod_beta)

text \<open>A watcher with everything zero, and a heap of three timers, for the examples.\<close>

definition st_zero :: ev_statdata where
  "st_zero = \<lparr>st_dev = 0, st_ino = 0, st_mode = 0, st_nlink = 0, st_uid = 0, st_gid = 0, st_rdev = 0, st_size = 0,
     st_atime = 0, st_mtime = 0, st_ctime = 0\<rparr>"

definition w_zero :: ev_watcher where
  "w_zero = \<lparr>active = 0, pending = 0, priority = 0, w_cb = UserCb 0, w_at = 0, w_repeat = 0, w_offset = 0,
     w_interval = 0, w_reschedule = None, w_fd = 0, w_events = 0, w_signum = 0, w_flags = 0, w_pid = 0,
     w_rpid = 0, w_rstatus = 0, w_sent = False,
     w_path = [], w_prev = st_zero, w_attr = st_zero, w_wd = 0\<rparr>"

definition ex_heap :: "nat \<Rightarrow> heap" where
  "ex_heap h0 i = \<lparr>he_at = real i, he_w = TimerW (i - h0)\<rparr>"

definition ex_ws :: "nat \<Rightarrow> wstore" where
  "ex_ws h0 w = (case w of TimerW n \<Rightarrow> w_zero\<lparr>active := n + h0, w_at := real (n + h0)\<rparr> | _ \<Rightarrow> w_zero)"

lemma ex_heap_ok [simp]: "(\<And>i. h0 < i \<Longrightarrow> par i \<le> i) \<Longrightarrow> heap_ok h0 par (ex_heap h0) (ex_ws h0) N"
  by (simp add: heap_ok_def heap_ordered_def heap_indexed_def heap_cached_def ex_heap_def ex_ws_def)

theorem adjustheap_restores_witness:
  "case adjustheap ((ex_heap HEAP0)(3 := (ex_heap HEAP0 3)\<lparr>he_at := 9\<rparr>))
      (set_at (ex_ws HEAP0) (he_w (ex_heap HEAP0 3)) 9) 3 3 of (heap', ws') \<Rightarrow>
    heap_ok HEAP0 HPARENT heap' ws' 3 \<and>
    heap_perm HEAP0 3 ((ex_heap HEAP0)(3 := (ex_heap HEAP0 3)\<lparr>he_at := 9\<rparr>))
      (set_at (ex_ws HEAP0) (he_w (ex_heap HEAP0 3)) 9) heap' ws'"
  by (rule adjustheap_restores) (simp_all add: HPARENT_lt less_imp_le)

text \<open>
  C4: the same for the 2-heap variant of the routines (\<^verbatim>\<open>EV_USE_4HEAP\<close> off).
\<close>

theorem adjustheap2_restores:
  assumes "heap_ok HEAP0_2 HPARENT2 heap ws N" "HEAP0_2 \<le> k" "k < N + HEAP0_2"
  shows "case adjustheap2 (heap(k := (heap k)\<lparr>he_at := t\<rparr>)) (set_at ws (he_w (heap k)) t) N k of (heap', ws') \<Rightarrow>
    heap_ok HEAP0_2 HPARENT2 heap' ws' N \<and>
    heap_perm HEAP0_2 N (heap(k := (heap k)\<lparr>he_at := t\<rparr>)) (set_at ws (he_w (heap k)) t) heap' ws'"
  using h2.update_ok[OF assms, of t] by (simp add: case_prod_beta)

theorem adjustheap2_restores_witness:
  "case adjustheap2 ((ex_heap HEAP0_2)(1 := (ex_heap HEAP0_2 1)\<lparr>he_at := 9\<rparr>))
      (set_at (ex_ws HEAP0_2) (he_w (ex_heap HEAP0_2 1)) 9) 3 1 of (heap', ws') \<Rightarrow>
    heap_ok HEAP0_2 HPARENT2 heap' ws' 3 \<and>
    heap_perm HEAP0_2 3 ((ex_heap HEAP0_2)(1 := (ex_heap HEAP0_2 1)\<lparr>he_at := 9\<rparr>))
      (set_at (ex_ws HEAP0_2) (he_w (ex_heap HEAP0_2 1)) 9) heap' ws'"
  by (rule adjustheap2_restores) (simp_all add: HPARENT2_def)

text \<open>
  C5: \<^verbatim>\<open>reheap\<close> turns any array of entries for distinct watchers with right cached
  deadlines, in any order and with any back-indices, into a valid heap of the same
  entries, whose root is a minimum.
\<close>

theorem reheap_builds:
  assumes "inj_on (\<lambda>i. he_w (heap i)) {HEAP0..<N + HEAP0}" "heap_cached HEAP0 heap ws N"
  shows "case reheap heap ws N of (heap', ws') \<Rightarrow>
    heap_ok HEAP0 HPARENT heap' ws' N \<and> heap_perm HEAP0 N heap ws heap' ws' \<and>
    (\<forall>i. HEAP0 \<le> i \<and> i < N + HEAP0 \<longrightarrow> he_at (heap' HEAP0) \<le> he_at (heap' i))"
  using h4.re_ok[OF assms] h4.re_perm[of N heap ws] h4.root_min
  by (auto simp: case_prod_beta heap_ok_def)

definition ex_rev :: heap where
  "ex_rev i = \<lparr>he_at = 100 - real i, he_w = TimerW i\<rparr>"

theorem reheap_builds_witness:
  "case reheap ex_rev (\<lambda>w. w_zero\<lparr>w_at := (case w of TimerW n \<Rightarrow> 100 - real n | _ \<Rightarrow> 0)\<rparr>) 6 of (heap', ws') \<Rightarrow>
    heap_ok HEAP0 HPARENT heap' ws' 6 \<and>
    heap_perm HEAP0 6 ex_rev (\<lambda>w. w_zero\<lparr>w_at := (case w of TimerW n \<Rightarrow> 100 - real n | _ \<Rightarrow> 0)\<rparr>) heap' ws' \<and>
    (\<forall>i. HEAP0 \<le> i \<and> i < 6 + HEAP0 \<longrightarrow> he_at (heap' HEAP0) \<le> he_at (heap' i))"
  by (rule reheap_builds) (auto simp: ex_rev_def heap_cached_def inj_on_def)

end
