(* ===== verification/Arrays.thy ===== *)
theory Arrays
  imports Prelude
begin

section \<open>Growing arrays\<close>

text \<open>
  \<^verbatim>\<open>array_nextsize\<close>, \<^verbatim>\<open>array_realloc\<close> and the macro \<^verbatim>\<open>array_needsize\<close>. The first model is
  the code at its machine width: \<^verbatim>\<open>size_t\<close> is a 64-bit word, sums and shifts wrap, and the
  \<^verbatim>\<open>do\<close> loop may fail to end. \<open>array_size\<close> is the same computation on natural numbers, which the
  loop state uses (the loop state does not bound its counts by \<^verbatim>\<open>INT_MAX\<close>: memory ends long
  before); the theorem at the end says that on the arguments the library passes
  the two agree, the loop ends and the block is large enough.
\<close>

abbreviation (input) MALLOC_ROUND :: "'a::numeral" where "MALLOC_ROUND \<equiv> 4096"

subsection \<open>At machine width\<close>

partial_function (option) nextsize_loop :: "u64 \<Rightarrow> u64 \<Rightarrow> u64 option" where
  "nextsize_loop cnt ncur =
     (let ncur = push_bit 1 ncur in if cnt > ncur then nextsize_loop cnt ncur else Some ncur)"

definition nextsize_round :: "u64 \<Rightarrow> u64 \<Rightarrow> u64" where
  "nextsize_round elem ncur =
     (if elem * ncur > MALLOC_ROUND - 8 * 4 then
        (let nbytes = elem * ncur;
             nbytes = (nbytes + elem + (MALLOC_ROUND - 1) + 8 * 4) AND NOT (MALLOC_ROUND - 1);
             nbytes = nbytes - 8 * 4
         in nbytes div elem)
      else ncur)"

definition array_nextsize :: "int \<Rightarrow> int \<Rightarrow> int \<Rightarrow> int option" where
  "array_nextsize elem cur cnt =
     (case nextsize_loop (word_of_int cnt) (word_of_int cur + 1) of
        None \<Rightarrow> None
      | Some ncur \<Rightarrow>
          let ncur = nextsize_round (word_of_int elem) ncur;
              ncur = (if ncur > word_of_int (int INT_MAX) then word_of_int (int INT_MAX) else ncur)
          in Some (uint ncur))"

text \<open>
  \<^verbatim>\<open>array_realloc\<close>: the new size and the number of bytes asked for, or \<^verbatim>\<open>None\<close> for the
  \<^verbatim>\<open>ENOMEM\<close> report.
\<close>

definition array_realloc :: "int \<Rightarrow> int \<Rightarrow> int \<Rightarrow> (int \<times> int option) option" where
  "array_realloc elem cur cnt =
     (case array_nextsize elem cur cnt of
        None \<Rightarrow> None
      | Some cur' \<Rightarrow>
          let nbytes = (word_of_int elem * word_of_int cur' :: u64) in
          Some (cur', if nbytes > 0x7FFFFFFFFFFFFFFF then None else Some (uint nbytes)))"

subsection \<open>On natural numbers\<close>

function size_double :: "nat \<Rightarrow> nat \<Rightarrow> nat" where
  "size_double cnt n = (if cnt > 2 * n \<and> 0 < n then size_double cnt (2 * n) else 2 * n)"
  by pat_completeness auto
termination by (relation "measure (\<lambda>(cnt, n). cnt - n)") auto

declare size_double.simps [simp del]

definition size_round :: "nat \<Rightarrow> nat \<Rightarrow> nat" where
  "size_round elem n =
     (if elem * n > MALLOC_ROUND - 32
      then ((elem * n + elem + (MALLOC_ROUND - 1) + 32) div MALLOC_ROUND * MALLOC_ROUND - 32) div elem
      else n)"

definition array_size :: "nat \<Rightarrow> nat \<Rightarrow> nat \<Rightarrow> nat" where
  "array_size elem cur cnt = size_round elem (size_double cnt (cur + 1))"

text \<open>\<^verbatim>\<open>array_needsize\<close>: the capacity after the macro.\<close>

definition needsize :: "nat \<Rightarrow> nat \<Rightarrow> nat \<Rightarrow> nat" where
  "needsize elem cur cnt = (if cnt > cur then array_size elem cur cnt else cur)"

lemma size_double_ge: "0 < n \<Longrightarrow> cnt \<le> size_double cnt n \<and> 2 * n \<le> size_double cnt n"
proof (induction cnt n rule: size_double.induct)
  case (1 cnt n)
  show ?case
  proof (cases "cnt > 2 * n")
    case True
    then show ?thesis using 1 size_double.simps[of cnt n] by auto
  next
    case False
    then have "size_double cnt n = 2 * n" using size_double.simps[of cnt n] by simp
    then show ?thesis using False by simp
  qed
qed

lemma size_double_le: "0 < n \<Longrightarrow> size_double cnt n \<le> max (2 * n) (2 * cnt)"
proof (induction cnt n rule: size_double.induct)
  case (1 cnt n)
  show ?case
  proof (cases "cnt > 2 * n")
    case True
    then show ?thesis using 1 size_double.simps[of cnt n] by auto
  next
    case False
    then have "size_double cnt n = 2 * n" using size_double.simps[of cnt n] by simp
    then show ?thesis by simp
  qed
qed

lemma size_round_ge: "0 < elem \<Longrightarrow> n \<le> size_round elem n"
proof (cases "elem * n > MALLOC_ROUND - 32")
  case True
  assume e: "0 < elem"
  let ?x = "elem * n + elem + 4095 + 32"
  have "?x = ?x div 4096 * 4096 + ?x mod 4096" by (rule div_mult_mod_eq[symmetric])
  moreover have "?x mod 4096 < 4096" by (rule mod_less_divisor) simp
  ultimately have "elem * n + elem \<le> ?x div 4096 * 4096 - 32" by linarith
  then have "elem * n \<le> ?x div 4096 * 4096 - 32" by linarith
  then have "elem * n div elem \<le> (?x div 4096 * 4096 - 32) div elem" by (rule div_le_mono)
  then show ?thesis using True e by (simp add: size_round_def)
qed (simp add: size_round_def)

lemma size_round_le: "0 < elem \<Longrightarrow> size_round elem n \<le> elem * n + elem + 4127"
proof (cases "elem * n > MALLOC_ROUND - 32")
  case True
  let ?x = "elem * n + elem + 4095 + 32"
  have "(?x div 4096 * 4096 - 32) div elem \<le> ?x div 4096 * 4096 - 32" by (rule div_le_dividend)
  also have "\<dots> \<le> ?x div 4096 * 4096" by (rule diff_le_self)
  also have "\<dots> \<le> ?x" by (rule div_times_less_eq_dividend)
  finally show ?thesis using True by (simp add: size_round_def)
next
  case False
  assume "0 < elem"
  then have "n \<le> elem * n + elem + 4127" using le_add1[of "n" "(elem - 1) * n"] by (cases elem) auto
  then show ?thesis using False by (simp add: size_round_def)
qed

lemma array_size_ge: "0 < elem \<Longrightarrow> cnt \<le> array_size elem cur cnt"
  using size_double_ge[of "cur + 1" cnt] size_round_ge[of elem "size_double cnt (cur + 1)"]
  by (simp add: array_size_def)

lemma array_size_grows: "0 < elem \<Longrightarrow> cur < array_size elem cur cnt"
  using size_double_ge[of "cur + 1" cnt] size_round_ge[of elem "size_double cnt (cur + 1)"]
  by (simp add: array_size_def)

lemma needsize_ge [simp]: "0 < elem \<Longrightarrow> cnt \<le> needsize elem cur cnt"
  by (simp add: needsize_def array_size_ge)

lemma needsize_mono: "0 < elem \<Longrightarrow> cur \<le> needsize elem cur cnt"
  using array_size_ge[of elem cnt cur] by (simp add: needsize_def)

subsection \<open>The two agree\<close>

lemma nextsize_loop_eq:
  assumes "0 < n" "n \<le> 2 ^ 31" "cnt \<le> INT_MAX"
  shows "nextsize_loop (of_nat cnt) (of_nat n) = Some (of_nat (size_double cnt n))"
  using assms
proof (induction cnt n rule: size_double.induct)
  case (1 cnt n)
  have p: "push_bit 1 (of_nat n) = (of_nat (2 * n) :: u64)" by (simp add: push_bit_eq_mult)
  have lt: "(of_nat (2 * n) < (of_nat cnt :: u64)) \<longleftrightarrow> 2 * n < cnt"
    using 1(3,4) unat_of_nat_small[of "2 * n", where 'a = 64] unat_of_nat_small[of cnt, where 'a = 64]
    by (simp only: word_less_nat_alt) simp
  show ?case
  proof (cases "2 * n < cnt")
    case True
    then have "nextsize_loop (of_nat cnt) (of_nat (2 * n)) = Some (of_nat (size_double cnt (2 * n)))"
      using 1 by simp
    moreover have "size_double cnt n = size_double cnt (2 * n)"
      using True 1(2) size_double.simps[of cnt n] by simp
    ultimately show ?thesis using True lt nextsize_loop.simps[of "of_nat cnt" "of_nat n"]
      by (simp only: Let_def p if_True)
  next
    case False
    then have "size_double cnt n = 2 * n" using size_double.simps[of cnt n] by simp
    then show ?thesis using False lt nextsize_loop.simps[of "of_nat cnt" "of_nat n"]
      by (simp only: Let_def p if_False)
  qed
qed

lemma unat_and_not_mask: "unat (x AND NOT (mask n) :: 'a::len word) = unat x div 2 ^ n * 2 ^ n"
proof -
  have "x AND NOT (mask n) = push_bit n (drop_bit n x)"
    by (auto intro!: bit_word_eqI simp: bit_simps)
  then have "unat (x AND NOT (mask n)) = take_bit LENGTH('a) (push_bit n (unat (drop_bit n x)))"
    by (simp only: unsigned_push_bit_eq)
  also have "unat (drop_bit n x) = unat x div 2 ^ n"
    by (simp only: unsigned_drop_bit_eq drop_bit_eq_div[where 'a = nat]) (simp add: take_bit_nat_eq_self)
  also have "push_bit n (unat x div 2 ^ n) = unat x div 2 ^ n * 2 ^ n" by (rule push_bit_eq_mult)
  also have "take_bit LENGTH('a) (unat x div 2 ^ n * 2 ^ n) = unat x div 2 ^ n * 2 ^ n"
    by (rule take_bit_nat_eq_self) (metis div_times_less_eq_dividend order_le_less_trans unsigned_less)
  finally show ?thesis .
qed

lemma nextsize_round_eq:
  assumes e: "0 < e" "e \<le> 2 ^ 20" and n: "n \<le> 2 ^ 33"
  shows "nextsize_round (of_nat e) (of_nat n) = of_nat (size_round e n)"
proof -
  have en: "e * n \<le> 2 ^ 53" using mult_le_mono[OF e(2) n] by simp
  have m: "(of_nat e * of_nat n :: u64) = of_nat (e * n)" by simp
  have gt: "(of_nat (e * n) > (4096 - 8 * 4 :: u64)) \<longleftrightarrow> e * n > 4064"
    using en unat_of_nat_small[of "e * n", where 'a = 64] by (simp add: word_less_nat_alt)
  show ?thesis
  proof (cases "e * n > 4064")
    case False
    then show ?thesis using gt by (simp only: nextsize_round_def m if_False) (simp add: size_round_def)
  next
    case True
    let ?x = "e * n + e + 4127"
    have x: "?x < 2 ^ 64" using en e(2) by simp
    let ?b = "(of_nat ?x AND NOT 4095 :: u64)"
    have "?b = of_nat ?x AND NOT (mask 12)" by (simp add: mask_eq_exp_minus_1)
    then have b: "unat ?b = ?x div 4096 * 4096"
      using unat_of_nat_small[of ?x, where 'a = 64] x by (simp only: unat_and_not_mask) simp
    have "32 \<le> ?x div 4096 * 4096" using True by (simp add: less_eq_div_iff_mult_less_eq)
    then have "unat (?b - 32) = ?x div 4096 * 4096 - 32"
      using b by (simp add: unat_sub word_le_nat_alt)
    moreover have "unat (of_nat e :: u64) = e" using e(2) by (intro unat_of_nat_small) simp
    ultimately have "unat ((?b - 32) div of_nat e) = size_round e n"
      using True by (simp only: unat_div size_round_def if_True) (simp add: add.commute)
    then have d: "(?b - 32) div of_nat e = of_nat (size_round e n)"
      by (metis of_nat_unat ucast_id)
    show ?thesis using True gt d by (simp only: nextsize_round_def m if_True Let_def) (simp add: algebra_simps)
  qed
qed

text \<open>
  C6: the size computation at machine width never wraps, ends, and returns a capacity
  that holds the requested count, for every element size up to 1 MiB and every
  non-negative \<^verbatim>\<open>int\<close> count; it is the natural-number reading used by the loop
  state, clamped to \<^verbatim>\<open>INT_MAX\<close>, and with a 64-bit \<^verbatim>\<open>long\<close> the byte-size guard of \<^verbatim>\<open>array_realloc\<close> rejects none of these requests. That
  includes the clamped ones, of which the comment in \<^verbatim>\<open>array_nextsize\<close> says that the guard "then rejects the request via
  ev_syserr": it does not, the allocation is made with \<^verbatim>\<open>INT_MAX\<close> elements. It is harmless, since a count never exceeds \<^verbatim>\<open>INT_MAX\<close>.
\<close>

theorem array_realloc_fits:
  assumes "0 < elem" "elem \<le> 2 ^ 20" "cur < INT_MAX" "cnt \<le> INT_MAX"
  shows "\<exists>n. array_nextsize (int elem) (int cur) (int cnt) = Some (int n) \<and>
    n = min INT_MAX (array_size elem cur cnt) \<and> cnt \<le> n \<and> cur < n \<and> n \<le> INT_MAX \<and>
    array_realloc (int elem) (int cur) (int cnt) = Some (int n, Some (int (elem * n)))"
proof -
  let ?d = "size_double cnt (cur + 1)" and ?n = "min INT_MAX (array_size elem cur cnt)"
  let ?r = "size_round elem ?d"
  have d: "?d \<le> 2 ^ 33" using size_double_le[of "cur + 1" cnt] assms by simp
  have "?r \<le> elem * ?d + elem + 4127" by (rule size_round_le[OF assms(1)])
  moreover have "elem * ?d \<le> 2 ^ 53" using mult_le_mono[OF assms(2) d] by simp
  ultimately have r: "?r < 2 ^ 64" using assms(2) by simp
  have loop: "nextsize_loop (of_nat cnt) (of_nat cur + 1) = Some (of_nat ?d)"
    using nextsize_loop_eq[of "cur + 1" cnt] assms by (simp add: add.commute)
  have gt: "((of_nat ?r :: u64) > word_of_int (int INT_MAX)) \<longleftrightarrow> ?r > INT_MAX"
    using r by (simp add: word_less_nat_alt unat_of_nat)
  have uint: "uint (of_nat ?r :: u64) = int ?r" using r by (simp add: uint_nat unat_of_nat)
  have ns: "array_nextsize (int elem) (int cur) (int cnt) = Some (int ?n)"
    unfolding array_nextsize_def
    using loop nextsize_round_eq[OF assms(1,2) d] gt uint by (simp add: Let_def array_size_def)
  have le: "?n \<le> INT_MAX" by (simp add: array_size_def)
  have en: "elem * ?n \<le> 2 ^ 51" using mult_le_mono[OF assms(2) le] by simp
  have "(word_of_int (int elem) * word_of_int (int ?n) :: u64) = of_nat (elem * ?n)" by simp
  moreover have "\<not> (of_nat (elem * ?n) > (0x7FFFFFFFFFFFFFFF :: u64))"
    using en by (simp add: word_less_nat_alt unat_of_nat del: of_nat_mult)
  moreover have "uint (of_nat (elem * ?n) :: u64) = int (elem * ?n)"
    using en by (simp add: uint_nat unat_of_nat del: of_nat_mult)
  ultimately have "array_realloc (int elem) (int cur) (int cnt) = Some (int ?n, Some (int (elem * ?n)))"
    unfolding array_realloc_def ns by (simp only: Let_def option.case if_False)
  then show ?thesis using ns le array_size_ge[OF assms(1), of cnt cur]
    array_size_grows[OF assms(1), of cur cnt] assms(3,4) by auto
qed

theorem array_realloc_fits_witness:
  "(\<exists>n. array_nextsize (int 16) (int 30) (int 300) = Some (int n) \<and> 300 \<le> n \<and> array_realloc (int 16) (int 30) (int 300) = Some (int n, Some (int (16 * n)))) \<and>
    array_realloc 16 1073741824 1073741825 = Some (2147483647, Some (16 * 2147483647))"
proof -
  have "array_size 16 1073741824 1073741825 \<ge> 2147483647" by (simp add: array_size_def size_double.simps size_round_def)
  then show ?thesis using array_realloc_fits[of 16 30 300] array_realloc_fits[of 16 1073741824 1073741825] by auto
qed

end
