(* ===== verification/Loop_State.thy ===== *)
theory Loop_State
  imports DHeap Arrays
begin

section \<open>The loop structure\<close>

text \<open>
  \<^verbatim>\<open>struct ev_loop\<close> with the members of \<^verbatim>\<open>ev_vars.h\<close> that the components below use, the
  file-scope arrays \<^verbatim>\<open>signals\<close> and \<^verbatim>\<open>childs\<close>, and the store of watcher objects. An array
  is a function from its index together with its count and its allocated size
  (\<open>\<dots>max\<close>). The intrusive lists \<^verbatim>\<open>anfds[fd].head\<close>, \<^verbatim>\<open>signals[i].head\<close> and
  \<^verbatim>\<open>childs[h]\<close> are HOL lists in link order; the theory \<open>WList\<close> proves that the pointer
  routines implement the list operations used here.

  \<open>os\<close> is the state of everything outside the library (kernel, clocks, allocator). What
  the library calls there is a parameter, collected in the record \<open>env\<close>.

  \<open>ok\<close> is a ghost flag: it is cleared when an \<^verbatim>\<open>EV_ASSERT_MSG\<close> fails or an array is
  accessed outside its allocated block. The model continues after a failed assertion the
  way a build with \<^verbatim>\<open>NDEBUG\<close> does; a theorem that \<open>ok\<close> is kept covers both builds.
\<close>

record ANFD =
  anfd_head :: "W list"
  anfd_events :: u8
  anfd_reify :: u8
  anfd_emask :: u8
  anfd_eflags :: u8
  anfd_egen :: u32

record ANPENDING =
  ap_w :: W
  ap_events :: u32

text \<open>\<^verbatim>\<open>signals[i].loop\<close> as this loop sees it: none, this loop, another loop.\<close>

datatype sig_owner = NoLoop | ThisLoop | OtherLoop

record ANSIG =
  sg_pending :: bool
  sg_loop :: sig_owner
  sg_head :: "W list"

abbreviation (input) EV_NSIG :: nat where "EV_NSIG \<equiv> 65"
abbreviation (input) EV_PID_HASHSIZE :: nat where "EV_PID_HASHSIZE \<equiv> 16"

text \<open>The entries of the poll set and of the kqueue change list.\<close>

record pollfd =
  pf_fd :: int
  pf_events :: u32

record kevent =
  ke_ident :: int
  ke_filter :: int
  ke_flags :: u32
  ke_fflags :: u32

record 'w ev_loop =
  ws :: wstore
  ok :: bool
  os :: 'w
  ev_rt_now :: ev_tstamp
  now_floor :: ev_tstamp
  mn_now :: ev_tstamp
  rtmn_diff :: ev_tstamp
  have_monotonic :: bool
  rfeeds :: "nat \<Rightarrow> W"
  rfeedmax :: nat
  rfeedcnt :: nat
  pendings :: "nat \<Rightarrow> nat \<Rightarrow> ANPENDING"
  pendingmax :: "nat \<Rightarrow> nat"
  pendingcnt :: "nat \<Rightarrow> nat"
  pendingpri :: nat
  io_blocktime :: ev_tstamp
  timeout_blocktime :: ev_tstamp
  backend :: u32
  activecnt :: int
  iocnt :: int
  iofed :: u32
  loop_done :: nat
  backend_fd :: int
  backend_mintime :: ev_tstamp
  anfds :: "int \<Rightarrow> ANFD"
  anfdmax :: nat
  evpipe0 :: int
  evpipe1 :: int
  pipe_write_wanted :: bool
  pipe_write_skipped :: bool
  curpid :: int
  postfork :: u8
  fdchanges :: "nat \<Rightarrow> int"
  fdchangemax :: nat
  fdchangecnt :: nat
  timers :: heap
  timermax :: nat
  timercnt :: nat
  periodics :: heap
  periodicmax :: nat
  periodiccnt :: nat
  idles :: "nat \<Rightarrow> nat \<Rightarrow> W"
  idlemax :: "nat \<Rightarrow> nat"
  idlecnt :: "nat \<Rightarrow> nat"
  idleall :: int
  prepares :: "nat \<Rightarrow> W"
  preparemax :: nat
  preparecnt :: nat
  checks :: "nat \<Rightarrow> W"
  checkmax :: nat
  checkcnt :: nat
  forks :: "nat \<Rightarrow> W"
  forkmax :: nat
  forkcnt :: nat
  cleanups :: "nat \<Rightarrow> W"
  cleanupmax :: nat
  cleanupcnt :: nat
  asyncs :: "nat \<Rightarrow> W"
  asyncmax :: nat
  asynccnt :: nat
  async_pending :: bool
  sig_pending :: bool
  fs_fd :: int
  sigfd :: int
  sigfd_set :: "int set"
  timerfd :: int
  origflags :: u32
  loop_count :: u32
  loop_depth :: u32
  now_set :: bool
  signals :: "nat \<Rightarrow> ANSIG"
  childs :: "nat \<Rightarrow> W list"
  fs_2625 :: bool
  fs_hash :: "nat \<Rightarrow> W list"
  vec_ri :: "nat \<Rightarrow> u64"
  vec_wi :: "nat \<Rightarrow> u64"
  vec_max :: nat
  polls :: "nat \<Rightarrow> pollfd"
  pollmax :: nat
  pollcnt :: nat
  pollidxs :: "int \<Rightarrow> int"
  pollidxmax :: nat
  epoll_eventmax :: nat
  epoll_eperms :: "nat \<Rightarrow> int"
  epoll_epermcnt :: nat
  epoll_epermmax :: nat
  epoll_have_pwait2 :: bool
  kqueue_fd_pid :: int
  kqueue_changes :: "nat \<Rightarrow> kevent"
  kqueue_changemax :: nat
  kqueue_changecnt :: nat
  kqueue_eventmax :: nat
  port_eventmax :: nat
  onces :: "nat \<rightharpoonup> nat"
  once_next :: nat

subsection \<open>What the library calls outside itself\<close>

text \<open>
  One field per system call or function pointer; a call maps the outside state to its
  result and the new outside state. \<open>env_modify\<close> and \<open>env_poll\<close> are the loop's
  \<^verbatim>\<open>backend_modify\<close> and \<^verbatim>\<open>backend_poll\<close>, \<open>env_cb\<close> the user's callbacks: these receive
  the whole loop, and may fail to return (\<^verbatim>\<open>None\<close>). \<open>env_syserr\<close> is the callback of
  \<^verbatim>\<open>ev_set_syserr_cb\<close>; without one \<^verbatim>\<open>ev_syserr\<close> aborts the process.
\<close>

record 'w env =
  env_time :: "'w \<Rightarrow> ev_tstamp \<times> 'w"                      \<comment> \<open>\<^verbatim>\<open>ev_time\<close>\<close>
  env_clock :: "'w \<Rightarrow> ev_tstamp \<times> 'w"                     \<comment> \<open>the clock \<^verbatim>\<open>get_clock\<close> reads when it is monotonic\<close>
  env_getpid :: "'w \<Rightarrow> int"
  env_sleep :: "ev_tstamp \<Rightarrow> 'w \<Rightarrow> 'w"
  env_ebadf :: "int \<Rightarrow> 'w \<Rightarrow> bool"                       \<comment> \<open>\<^verbatim>\<open>!fd_valid (fd) && errno == EBADF\<close>\<close>
  env_resched :: "nat \<Rightarrow> W \<Rightarrow> ev_tstamp \<Rightarrow> 'w \<Rightarrow> ev_tstamp \<times> 'w"  \<comment> \<open>\<^verbatim>\<open>reschedule_cb\<close>\<close>
  env_modify :: "int \<Rightarrow> u32 \<Rightarrow> u32 \<Rightarrow> 'w ev_loop \<Rightarrow> 'w ev_loop option"
  env_poll :: "ev_tstamp \<Rightarrow> 'w ev_loop \<Rightarrow> 'w ev_loop option"
  env_cb :: "nat \<Rightarrow> W \<Rightarrow> u32 \<Rightarrow> 'w ev_loop \<Rightarrow> 'w ev_loop option"
  env_once_cb :: "nat \<Rightarrow> u32 \<Rightarrow> 'w ev_loop \<Rightarrow> 'w ev_loop option"  \<comment> \<open>the callback handed to \<^verbatim>\<open>ev_once\<close>, its argument included\<close>
  env_eventfd :: "bool \<Rightarrow> 'w \<Rightarrow> (int \<times> int) \<times> 'w"          \<comment> \<open>with flags?; descriptor and \<^verbatim>\<open>errno\<close>\<close>
  env_pipe :: "'w \<Rightarrow> (int \<times> int) option \<times> 'w"
  env_dup2_close :: "int \<Rightarrow> int \<Rightarrow> 'w \<Rightarrow> 'w"
  env_close :: "int \<Rightarrow> 'w \<Rightarrow> 'w"
  env_fd_intern :: "int \<Rightarrow> 'w \<Rightarrow> 'w"
  env_write :: "int \<Rightarrow> 'w \<Rightarrow> 'w"
  env_read :: "int \<Rightarrow> 'w \<Rightarrow> 'w"
  env_timerfd_create :: "'w \<Rightarrow> int \<times> 'w"
  env_timerfd_settime :: "int \<Rightarrow> ev_tstamp \<Rightarrow> 'w \<Rightarrow> 'w"
  env_signalfd :: "bool \<Rightarrow> int \<Rightarrow> int set \<Rightarrow> 'w \<Rightarrow> (int \<times> int) \<times> 'w"
  env_sigread :: "'w \<Rightarrow> int list \<times> 'w"                   \<comment> \<open>one \<^verbatim>\<open>read (sigfd, si, sizeof (si))\<close>\<close>
  env_sigaction :: "int \<Rightarrow> bool \<Rightarrow> 'w \<Rightarrow> 'w"             \<comment> \<open>install \<^verbatim>\<open>ev_sighandler\<close> / \<^verbatim>\<open>SIG_DFL\<close>\<close>
  env_sigmask :: "bool \<Rightarrow> int set \<Rightarrow> 'w \<Rightarrow> 'w"           \<comment> \<open>\<^verbatim>\<open>SIG_BLOCK\<close> / \<^verbatim>\<open>SIG_UNBLOCK\<close>\<close>
  env_syserr :: "('w \<Rightarrow> 'w) option"
  env_waitpid :: "bool \<Rightarrow> 'w \<Rightarrow> (int \<times> int \<times> int) \<times> 'w"  \<comment> \<open>with \<^verbatim>\<open>WCONTINUED\<close>?; pid, status, \<^verbatim>\<open>errno\<close>\<close>
  env_traced :: "int \<Rightarrow> bool"                            \<comment> \<open>\<^verbatim>\<open>WIFSTOPPED (status) || WIFCONTINUED (status)\<close>\<close>
  env_lstat :: "string \<Rightarrow> 'w \<Rightarrow> ev_statdata option \<times> 'w"
  env_inotify_init :: "bool \<Rightarrow> 'w \<Rightarrow> int \<times> 'w"          \<comment> \<open>\<^verbatim>\<open>inotify_init1\<close> with flags / \<^verbatim>\<open>inotify_init\<close>\<close>
  env_inotify_add :: "int \<Rightarrow> string \<Rightarrow> u32 \<Rightarrow> 'w \<Rightarrow> (int \<times> int) \<times> 'w"  \<comment> \<open>watch descriptor and \<^verbatim>\<open>errno\<close>\<close>
  env_inotify_rm :: "int \<Rightarrow> int \<Rightarrow> 'w \<Rightarrow> 'w"
  env_inotify_read :: "int \<Rightarrow> 'w \<Rightarrow> (int \<times> u32) list \<times> 'w"  \<comment> \<open>one \<^verbatim>\<open>read (fs_fd, \<dots>)\<close>: watch descriptors and masks\<close>
  env_statfs :: "string \<Rightarrow> 'w \<Rightarrow> int option"              \<comment> \<open>\<^verbatim>\<open>f_type\<close> as \<^verbatim>\<open>statfs\<close> reports it\<close>
  env_uname :: "string option"                           \<comment> \<open>\<^verbatim>\<open>buf.release\<close> after \<^verbatim>\<open>uname (&buf)\<close>\<close>
  env_release :: "'w \<Rightarrow> 'w"                              \<comment> \<open>\<^verbatim>\<open>EV_RELEASE_CB\<close>\<close>
  env_acquire :: "'w \<Rightarrow> 'w"                              \<comment> \<open>\<^verbatim>\<open>EV_ACQUIRE_CB\<close>\<close>
  env_backend_fork :: "'w ev_loop \<Rightarrow> 'w ev_loop option"
  env_backend_init :: "u32 \<Rightarrow> u32 \<Rightarrow> 'w ev_loop \<Rightarrow> u32 \<times> 'w ev_loop"  \<comment> \<open>which backend; the flags\<close>
  env_backend_destroy :: "'w ev_loop \<Rightarrow> 'w ev_loop"
  env_backend_cb :: "ev_cb \<Rightarrow> W \<Rightarrow> u32 \<Rightarrow> 'w ev_loop \<Rightarrow> 'w ev_loop option"  \<comment> \<open>the callbacks of a backend's own watchers and of \<^verbatim>\<open>ev_embed\<close>\<close>
  env_libev_flags :: "u32 option"                        \<comment> \<open>\<^verbatim>\<open>atoi (getenv ("LIBEV_FLAGS"))\<close>\<close>
  env_secure :: bool                                     \<comment> \<open>\<^verbatim>\<open>enable_secure ()\<close>\<close>
  env_monotonic :: bool                                  \<comment> \<open>\<^verbatim>\<open>!clock_gettime (CLOCK_MONOTONIC, &ts)\<close>\<close>
  env_default_loop :: bool                               \<comment> \<open>\<^verbatim>\<open>ev_is_default_loop (EV_A)\<close>\<close>

subsection \<open>Kinds of watchers\<close>

text \<open>The struct a watcher pointer points to: each list or array holds one kind.\<close>

datatype wkind = KIo | KTimer | KPeriodic | KSignal | KChild | KStat | KIdle | KPrepare | KCheck
  | KFork | KCleanup | KAsync | KEmbed

fun kind :: "W \<Rightarrow> wkind" where
  "kind (IoW _) = KIo" | "kind (TimerW _) = KTimer" | "kind (PeriodicW _) = KPeriodic"
| "kind (SignalW _) = KSignal" | "kind (ChildW _) = KChild" | "kind (StatW _) = KStat"
| "kind (IdleW _) = KIdle" | "kind (PrepareW _) = KPrepare" | "kind (CheckW _) = KCheck"
| "kind (ForkW _) = KFork" | "kind (CleanupW _) = KCleanup" | "kind (AsyncW _) = KAsync"
| "kind (EmbedW _) = KEmbed" | "kind PendingW = KPrepare" | "kind PipeW = KIo"
| "kind TimerfdW = KIo" | "kind SigfdW = KIo" | "kind FsW = KIo" | "kind ChildevW = KSignal"
| "kind IouringTfdW = KIo" | "kind LinuxaioEpollW = KIo" | "kind (StatTimer _) = KTimer"
| "kind (OnceIo _) = KIo" | "kind (OnceTo _) = KTimer" | "kind (EmbedIo _) = KIo"
| "kind (EmbedPrepare _) = KPrepare" | "kind (EmbedFork _) = KFork"
| "kind (EventIo _) = KIo" | "kind (EventSig _) = KSignal" | "kind (EventTo _) = KTimer"

subsection \<open>Helpers of every start and stop routine\<close>

definition chk :: "bool \<Rightarrow> 'w ev_loop \<Rightarrow> 'w ev_loop" where
  "chk b L = L\<lparr>ok := ok L \<and> b\<rparr>"

definition upd_w :: "W \<Rightarrow> (ev_watcher \<Rightarrow> ev_watcher) \<Rightarrow> 'w ev_loop \<Rightarrow> 'w ev_loop" where
  "upd_w w f L = L\<lparr>ws := (ws L)(w := f (ws L w))\<rparr>"

definition ev_is_active :: "W \<Rightarrow> 'w ev_loop \<Rightarrow> bool" where
  "ev_is_active w L \<longleftrightarrow> active (ws L w) \<noteq> 0"

definition ev_ref :: "'w ev_loop \<Rightarrow> 'w ev_loop" where
  "ev_ref L = L\<lparr>activecnt := activecnt L + 1\<rparr>"

definition ev_unref :: "'w ev_loop \<Rightarrow> 'w ev_loop" where
  "ev_unref L = L\<lparr>activecnt := activecnt L - 1\<rparr>"

definition pri_adjust :: "W \<Rightarrow> 'w ev_loop \<Rightarrow> 'w ev_loop" where
  "pri_adjust w L =
     (let pri = priority (ws L w);
          pri = (if pri < EV_MINPRI then EV_MINPRI else pri);
          pri = (if pri > EV_MAXPRI then EV_MAXPRI else pri)
      in upd_w w (\<lambda>x. x\<lparr>priority := pri\<rparr>) L)"

definition pri_clamp :: "int \<Rightarrow> int" where
  "pri_clamp p = (if p < EV_MINPRI then EV_MINPRI else if p > EV_MAXPRI then EV_MAXPRI else p)"

definition ev_start :: "W \<Rightarrow> nat \<Rightarrow> 'w ev_loop \<Rightarrow> 'w ev_loop" where
  "ev_start w act L = ev_ref (upd_w w (\<lambda>x. x\<lparr>active := act\<rparr>) (pri_adjust w L))"

definition ev_stop :: "W \<Rightarrow> 'w ev_loop \<Rightarrow> 'w ev_loop" where
  "ev_stop w L = upd_w w (\<lambda>x. x\<lparr>active := 0\<rparr>) (ev_unref L)"

lemmas base_defs = chk_def upd_w_def ev_ref_def ev_unref_def pri_adjust_def ev_start_def ev_stop_def

definition ev_syserr :: "'w env \<Rightarrow> 'w ev_loop \<Rightarrow> 'w ev_loop option" where
  "ev_syserr env L = (case env_syserr env of Some h \<Rightarrow> Some (L\<lparr>os := h (os L)\<rparr>) | None \<Rightarrow> None)"

text \<open>The counters an embedder reads.\<close>

definition ev_active_count :: "'w ev_loop \<Rightarrow> int" where
  "ev_active_count L = (if activecnt L > 0 then activecnt L else 0)"

definition ev_io_count :: "'w ev_loop \<Rightarrow> int" where
  "ev_io_count L = (if iocnt L > 0 then iocnt L else 0)"

definition ev_pending_count :: "'w ev_loop \<Rightarrow> nat" where
  "ev_pending_count L = sum_list (map (pendingcnt L) [0..<NUMPRI])"

text \<open>
  A loop structure straight from \<^verbatim>\<open>memset (loop, 0, sizeof (struct ev_loop))\<close>, with
  zeroed watchers: what \<^verbatim>\<open>ev_loop_new\<close> hands to \<^verbatim>\<open>loop_init\<close>.
\<close>

definition loop_zero :: "'w \<Rightarrow> 'w ev_loop" where
  "loop_zero s = \<lparr>ws = (\<lambda>_. w_zero), ok = True, os = s, ev_rt_now = 0, now_floor = 0, mn_now = 0, rtmn_diff = 0,
     have_monotonic = False, rfeeds = (\<lambda>_. PendingW), rfeedmax = 0, rfeedcnt = 0,
     pendings = (\<lambda>_ _. \<lparr>ap_w = PendingW, ap_events = 0\<rparr>), pendingmax = (\<lambda>_. 0), pendingcnt = (\<lambda>_. 0), pendingpri = 0,
     io_blocktime = 0, timeout_blocktime = 0, backend = 0, activecnt = 0, iocnt = 0, iofed = 0, loop_done = 0,
     backend_fd = 0, backend_mintime = 0,
     anfds = (\<lambda>_. \<lparr>anfd_head = [], anfd_events = 0, anfd_reify = 0, anfd_emask = 0, anfd_eflags = 0, anfd_egen = 0\<rparr>), anfdmax = 0,
     evpipe0 = 0, evpipe1 = 0, pipe_write_wanted = False, pipe_write_skipped = False, curpid = 0, postfork = 0,
     fdchanges = (\<lambda>_. 0), fdchangemax = 0, fdchangecnt = 0,
     timers = (\<lambda>_. \<lparr>he_at = 0, he_w = PendingW\<rparr>), timermax = 0, timercnt = 0,
     periodics = (\<lambda>_. \<lparr>he_at = 0, he_w = PendingW\<rparr>), periodicmax = 0, periodiccnt = 0,
     idles = (\<lambda>_ _. PendingW), idlemax = (\<lambda>_. 0), idlecnt = (\<lambda>_. 0), idleall = 0,
     prepares = (\<lambda>_. PendingW), preparemax = 0, preparecnt = 0,
     checks = (\<lambda>_. PendingW), checkmax = 0, checkcnt = 0,
     forks = (\<lambda>_. PendingW), forkmax = 0, forkcnt = 0,
     cleanups = (\<lambda>_. PendingW), cleanupmax = 0, cleanupcnt = 0,
     asyncs = (\<lambda>_. PendingW), asyncmax = 0, asynccnt = 0, async_pending = False, sig_pending = False,
     fs_fd = 0, sigfd = 0, sigfd_set = {}, timerfd = 0, origflags = 0, loop_count = 0, loop_depth = 0, now_set = False,
     signals = (\<lambda>_. \<lparr>sg_pending = False, sg_loop = NoLoop, sg_head = []\<rparr>), childs = (\<lambda>_. []),
     fs_2625 = False, fs_hash = (\<lambda>_. []), vec_ri = (\<lambda>_. 0), vec_wi = (\<lambda>_. 0), vec_max = 0, polls = (\<lambda>_. \<lparr>pf_fd = 0, pf_events = 0\<rparr>), pollmax = 0, pollcnt = 0, pollidxs = (\<lambda>_. 0), pollidxmax = 0, epoll_eventmax = 0, epoll_eperms = (\<lambda>_. 0), epoll_epermcnt = 0, epoll_epermmax = 0, epoll_have_pwait2 = False, kqueue_fd_pid = 0, kqueue_changes = (\<lambda>_. \<lparr>ke_ident = 0, ke_filter = 0, ke_flags = 0, ke_fflags = 0\<rparr>), kqueue_changemax = 0, kqueue_changecnt = 0, kqueue_eventmax = 0, port_eventmax = 0, onces = Map.empty, once_next = 0\<rparr>"

end
