(* ===== verification/Pending.thy ===== *)
theory Pending
  imports Loop_State
begin

section \<open>The pending queues\<close>

text \<open>
  \<^verbatim>\<open>ev_feed_event\<close>, \<^verbatim>\<open>feed_reverse\<close>, \<^verbatim>\<open>feed_reverse_done\<close>, \<^verbatim>\<open>queue_events\<close>,
  \<^verbatim>\<open>clear_pending\<close>, \<^verbatim>\<open>ev_clear_pending\<close> and \<^verbatim>\<open>ev_invoke_pending\<close>. A watcher with an
  event waiting has an entry in the array of its priority and \<^verbatim>\<open>w->pending\<close> is the
  index of that entry plus one; an entry whose watcher was stopped is redirected to
  the dummy \<^verbatim>\<open>pending_w\<close>.

  The abstraction is the partial map \<open>pend_of\<close> from watchers to the events that wait for
  them, together with the order of the arrays.
\<close>

subsection \<open>Operations\<close>

definition ev_feed_event :: "W \<Rightarrow> u32 \<Rightarrow> 'w ev_loop \<Rightarrow> 'w ev_loop" where
  "ev_feed_event w revents L =
     (let pri = ABSPRI (ws L w); L = chk (pri_valid (ws L w)) L in
      (if pending (ws L w) \<noteq> 0 then
         let i = pending (ws L w) - 1; q = pendings L pri in
         chk (i < pendingmax L pri)
           (L\<lparr>pendings := (pendings L)(pri := q(i := (q i)\<lparr>ap_events := ap_events (q i) OR revents\<rparr>))\<rparr>)
       else
         let n = Suc (pendingcnt L pri); q = pendings L pri in
         chk (n - 1 < needsize 16 (pendingmax L pri) n)
           (L\<lparr>ws := set_pending (ws L) w n,
              pendingcnt := (pendingcnt L)(pri := n),
              pendingmax := (pendingmax L)(pri := needsize 16 (pendingmax L pri) n),
              pendings := (pendings L)(pri := q(n - 1 := \<lparr>ap_w = w, ap_events = revents\<rparr>))\<rparr>))
      \<lparr>pendingpri := NUMPRI - 1\<rparr>)"

definition feed_reverse :: "W \<Rightarrow> 'w ev_loop \<Rightarrow> 'w ev_loop" where
  "feed_reverse w L =
     (let mx = needsize 8 (rfeedmax L) (rfeedcnt L + 1) in
      chk (rfeedcnt L < mx)
        (L\<lparr>rfeedmax := mx, rfeeds := (rfeeds L)(rfeedcnt L := w), rfeedcnt := rfeedcnt L + 1\<rparr>))"

text \<open>The \<^verbatim>\<open>do\<close> loop of \<^verbatim>\<open>feed_reverse_done\<close> reads entry \<open>-1\<close> when nothing was fed.\<close>

function feed_reverse_done :: "u32 \<Rightarrow> 'w ev_loop \<Rightarrow> 'w ev_loop" where
  "feed_reverse_done revents L =
     (if rfeedcnt L = 0 then chk False L
      else
        let n = rfeedcnt L - 1; L' = ev_feed_event (rfeeds L n) revents (L\<lparr>rfeedcnt := n\<rparr>) in
        if rfeedcnt L' = 0 then L' else feed_reverse_done revents L')"
  by pat_completeness auto

lemma ev_feed_event_rfeed [simp]:
  "rfeedcnt (ev_feed_event w r L) = rfeedcnt L" "rfeeds (ev_feed_event w r L) = rfeeds L"
  "rfeedmax (ev_feed_event w r L) = rfeedmax L"
  by (simp_all add: ev_feed_event_def chk_def Let_def)

termination feed_reverse_done
  by (relation "measure (\<lambda>(r, L). rfeedcnt L)") auto

declare feed_reverse_done.simps [simp del]

text \<open>\<^verbatim>\<open>queue_events\<close>: the array as a function and its count.\<close>

definition queue_events :: "(nat \<Rightarrow> W) \<Rightarrow> nat \<Rightarrow> u32 \<Rightarrow> 'w ev_loop \<Rightarrow> 'w ev_loop" where
  "queue_events events eventcnt type L = fold (\<lambda>i. ev_feed_event (events i) type) [0..<eventcnt] L"

definition clear_pending :: "W \<Rightarrow> 'w ev_loop \<Rightarrow> 'w ev_loop" where
  "clear_pending w L =
     (if pending (ws L w) \<noteq> 0 then
        let pri = ABSPRI (ws L w); i = pending (ws L w) - 1; q = pendings L pri in
        chk (i < pendingmax L pri)
          (L\<lparr>pendings := (pendings L)(pri := q(i := (q i)\<lparr>ap_w := PendingW\<rparr>)),
             ws := set_pending (ws L) w 0\<rparr>)
      else L)"

definition ev_clear_pending :: "W \<Rightarrow> 'w ev_loop \<Rightarrow> u32 \<times> 'w ev_loop" where
  "ev_clear_pending w L =
     (if pending (ws L w) \<noteq> 0 then
        let pri = ABSPRI (ws L w); i = pending (ws L w) - 1; q = pendings L pri in
        (ap_events (q i),
         chk (i < pendingmax L pri)
           (L\<lparr>pendings := (pendings L)(pri := q(i := (q i)\<lparr>ap_w := PendingW\<rparr>)),
              ws := set_pending (ws L) w 0\<rparr>))
      else (0, L))"

text \<open>
  \<^verbatim>\<open>ev_invoke_pending\<close>: \<open>pendingpri\<close> walks down from the highest priority; a callback
  that feeds an event moves it back up. \<open>icb\<close> is \<^verbatim>\<open>EV_CB_INVOKE\<close>. Callbacks may feed
  events for ever, so the loop is a partial function.
\<close>

definition pop_pending :: "'w ev_loop \<Rightarrow> ANPENDING \<times> 'w ev_loop" where
  "pop_pending L =
     (let pri = pendingpri L; n = pendingcnt L pri - 1; p = pendings L pri n in
      (p, chk (n < pendingmax L pri)
            (L\<lparr>pendingcnt := (pendingcnt L)(pri := n), ws := set_pending (ws L) (ap_w p) 0\<rparr>)))"

partial_function (option) invoke_loop ::
  "(W \<Rightarrow> u32 \<Rightarrow> 'w ev_loop \<Rightarrow> 'w ev_loop option) \<Rightarrow> 'w ev_loop \<Rightarrow> 'w ev_loop option" where
  "invoke_loop icb L =
     (if pendingcnt L (pendingpri L) \<noteq> 0 then
        case icb (ap_w (fst (pop_pending L))) (ap_events (fst (pop_pending L))) (snd (pop_pending L)) of
          None \<Rightarrow> None
        | Some L' \<Rightarrow> invoke_loop icb L'
      else if pendingpri L \<noteq> 0 then invoke_loop icb (L\<lparr>pendingpri := pendingpri L - 1\<rparr>)
      else Some L)"

definition ev_invoke_pending ::
  "(W \<Rightarrow> u32 \<Rightarrow> 'w ev_loop \<Rightarrow> 'w ev_loop option) \<Rightarrow> 'w ev_loop \<Rightarrow> 'w ev_loop option" where
  "ev_invoke_pending icb L = invoke_loop icb (L\<lparr>pendingpri := NUMPRI - 1\<rparr>)"

subsection \<open>The invariant and the abstraction\<close>

text \<open>
  \<open>pend_inv\<close> is what \<^verbatim>\<open>verify_watcher\<close> and the \<^verbatim>\<open>pendingmax\<close> assertion of \<^verbatim>\<open>ev_verify\<close>
  check, in both directions: an entry belongs to the watcher that points to it, and a
  watcher's \<^verbatim>\<open>pending\<close> member points to an entry of its own.
\<close>

definition pend_entry_ok :: "'w ev_loop \<Rightarrow> nat \<Rightarrow> nat \<Rightarrow> bool" where
  "pend_entry_ok L pri i \<longleftrightarrow>
     (let w = ap_w (pendings L pri i) in
      w = PendingW \<or> (pending (ws L w) = Suc i \<and> ABSPRI (ws L w) = pri))"

definition pend_w_ok :: "'w ev_loop \<Rightarrow> W \<Rightarrow> bool" where
  "pend_w_ok L w \<longleftrightarrow>
     (pending (ws L w) \<noteq> 0 \<longrightarrow>
        w \<noteq> PendingW \<and> pri_valid (ws L w) \<and> pending (ws L w) \<le> pendingcnt L (ABSPRI (ws L w)) \<and>
        ap_w (pendings L (ABSPRI (ws L w)) (pending (ws L w) - 1)) = w)"

definition pend_inv :: "'w ev_loop \<Rightarrow> bool" where
  "pend_inv L \<longleftrightarrow>
     (\<forall>pri < NUMPRI. pendingcnt L pri \<le> pendingmax L pri) \<and>
     (\<forall>pri < NUMPRI. \<forall>i < pendingcnt L pri. pend_entry_ok L pri i) \<and>
     (\<forall>w. pend_w_ok L w)"

definition pend_of :: "'w ev_loop \<Rightarrow> W \<Rightarrow> u32 option" where
  "pend_of L w =
     (if pending (ws L w) = 0 then None
      else Some (ap_events (pendings L (ABSPRI (ws L w)) (pending (ws L w) - 1))))"

lemma set_pending_simps [simp]:
  "pending (set_pending s w n v) = (if v = w then n else pending (s v))"
  "active (set_pending s w n v) = active (s v)"
  "priority (set_pending s w n v) = priority (s v)"
  "ABSPRI (set_pending s w n v) = ABSPRI (s v)"
  "pri_valid (set_pending s w n v) = pri_valid (s v)"
  "w_at (set_pending s w n v) = w_at (s v)"
  by (simp_all add: set_pending_def ABSPRI_def pri_valid_def)

lemma pend_invI:
  assumes "\<And>pri. pri < NUMPRI \<Longrightarrow> pendingcnt L pri \<le> pendingmax L pri"
    "\<And>pri i. pri < NUMPRI \<Longrightarrow> i < pendingcnt L pri \<Longrightarrow> pend_entry_ok L pri i"
    "\<And>w. pend_w_ok L w"
  shows "pend_inv L"
  using assms by (simp add: pend_inv_def)

lemma pend_invD:
  assumes "pend_inv L"
  shows "pri < NUMPRI \<Longrightarrow> pendingcnt L pri \<le> pendingmax L pri"
    "pri < NUMPRI \<Longrightarrow> i < pendingcnt L pri \<Longrightarrow> pend_entry_ok L pri i"
    "pend_w_ok L w"
  using assms by (simp_all add: pend_inv_def)

lemma pend_pending:
  assumes "pend_inv L" "pending (ws L w) \<noteq> 0"
  shows "pri_valid (ws L w)" "ABSPRI (ws L w) < NUMPRI" "w \<noteq> PendingW"
    "pending (ws L w) - 1 < pendingcnt L (ABSPRI (ws L w))"
    "pending (ws L w) - 1 < pendingmax L (ABSPRI (ws L w))"
    "ap_w (pendings L (ABSPRI (ws L w)) (pending (ws L w) - 1)) = w"
proof -
  note a = pend_invD(3)[OF assms(1), of w, unfolded pend_w_ok_def] assms(2)
  then show "pri_valid (ws L w)" "w \<noteq> PendingW"
    "ap_w (pendings L (ABSPRI (ws L w)) (pending (ws L w) - 1)) = w"
    and c: "pending (ws L w) - 1 < pendingcnt L (ABSPRI (ws L w))" by auto
  then show p: "ABSPRI (ws L w) < NUMPRI" by (intro ABSPRI_lt)
  show "pending (ws L w) - 1 < pendingmax L (ABSPRI (ws L w))"
    using c pend_invD(1)[OF assms(1) p] by simp
qed

lemma ABSPRI_inj: "pri_valid x \<Longrightarrow> pri_valid y \<Longrightarrow> ABSPRI x = ABSPRI y \<Longrightarrow> priority x = priority y"
  by (auto simp: pri_valid_def ABSPRI_def)

lemma pend_cong:
  assumes "pendings L' = pendings L" "pendingcnt L' = pendingcnt L" "pendingmax L' = pendingmax L"
    "\<And>v. pending (ws L' v) = pending (ws L v)"
    "\<And>v. pending (ws L v) \<noteq> 0 \<Longrightarrow> priority (ws L' v) = priority (ws L v)"
  shows "pend_inv L \<Longrightarrow> pend_inv L'" "pend_of L' = pend_of L"
proof -
  have a: "ABSPRI (ws L' v) = ABSPRI (ws L v)" "pri_valid (ws L' v) = pri_valid (ws L v)"
    if "pending (ws L v) \<noteq> 0" for v using assms(5)[OF that] by (simp_all add: ABSPRI_def pri_valid_def)
  have "pend_w_ok L' v = pend_w_ok L v" for v using a[of v] by (auto simp: pend_w_ok_def assms)
  moreover have "pend_entry_ok L' pri i = pend_entry_ok L pri i" for pri i
    using a[of "ap_w (pendings L pri i)"] by (auto simp: pend_entry_ok_def Let_def assms)
  ultimately show "pend_inv L \<Longrightarrow> pend_inv L'" by (simp add: pend_inv_def assms)
  show "pend_of L' = pend_of L" by (rule ext) (use a in \<open>auto simp: pend_of_def assms\<close>)
qed

text \<open>Two watchers never share an entry.\<close>

lemma pend_distinct:
  assumes "pend_inv L" "pending (ws L v) \<noteq> 0" "pending (ws L w) \<noteq> 0" "ABSPRI (ws L v) = ABSPRI (ws L w)"
    "pending (ws L v) = pending (ws L w)"
  shows "v = w"
  using pend_pending(6)[OF assms(1,2)] pend_pending(6)[OF assms(1,3)] assms(4,5) by simp

subsection \<open>Feeding an event\<close>

lemma feed_again:
  assumes "pending (ws L w) \<noteq> 0"
  shows "ev_feed_event w r L =
    (let pri = ABSPRI (ws L w); i = pending (ws L w) - 1; q = pendings L pri in
     L\<lparr>ok := ok L \<and> pri_valid (ws L w) \<and> i < pendingmax L pri,
       pendings := (pendings L)(pri := q(i := (q i)\<lparr>ap_events := ap_events (q i) OR r\<rparr>)),
       pendingpri := NUMPRI - 1\<rparr>)"
  using assms by (simp add: ev_feed_event_def chk_def Let_def)

lemma feed_first:
  assumes "pending (ws L w) = 0"
  shows "ev_feed_event w r L =
    (let pri = ABSPRI (ws L w); n = pendingcnt L pri; q = pendings L pri in
     L\<lparr>ws := set_pending (ws L) w (Suc n), ok := ok L \<and> pri_valid (ws L w),
       pendings := (pendings L)(pri := q(n := \<lparr>ap_w = w, ap_events = r\<rparr>)),
       pendingmax := (pendingmax L)(pri := needsize 16 (pendingmax L pri) (Suc n)),
       pendingcnt := (pendingcnt L)(pri := Suc n), pendingpri := NUMPRI - 1\<rparr>)"
proof -
  have "n < needsize 16 m (Suc n)" for n m by (simp flip: Suc_le_eq)
  then show ?thesis using assms by (simp add: ev_feed_event_def chk_def Let_def)
qed

lemma feed_inv:
  assumes "pend_inv L" "pri_valid (ws L w)" "w \<noteq> PendingW"
  shows "pend_inv (ev_feed_event w r L)"
proof (cases "pending (ws L w) = 0")
  case False
  let ?L = "ev_feed_event w r L"
  have s: "ws ?L = ws L" "pendingcnt ?L = pendingcnt L" "pendingmax ?L = pendingmax L"
    using False by (simp_all add: feed_again Let_def)
  have q: "ap_w (pendings ?L pri i) = ap_w (pendings L pri i)" for pri i
    using False by (simp add: feed_again Let_def)
  show ?thesis using assms(1) by (simp add: pend_inv_def pend_entry_ok_def pend_w_ok_def s q)
next
  case True
  let ?L = "ev_feed_event w r L" and ?p = "ABSPRI (ws L w)"
  have p: "?p < NUMPRI" using assms(2) by (rule ABSPRI_lt)
  note f = feed_first[OF True, of r, unfolded Let_def]
  note nm = needsize_ge[of 16 "Suc (pendingcnt L ?p)" "pendingmax L ?p"]
  show ?thesis
  proof (rule pend_invI)
    show "pendingcnt ?L pri \<le> pendingmax ?L pri" if "pri < NUMPRI" for pri
      using pend_invD(1)[OF assms(1) that] nm by (simp add: f)
    show "pend_entry_ok ?L pri i" if "pri < NUMPRI" "i < pendingcnt ?L pri" for pri i
    proof (cases "pri = ?p \<and> i = pendingcnt L ?p")
      case True then show ?thesis by (simp add: f pend_entry_ok_def Let_def)
    next
      case False
      then have "i < pendingcnt L pri" using that(2) by (auto simp: f split: if_splits)
      then have "pend_entry_ok L pri i" using pend_invD(2)[OF assms(1) that(1)] by simp
      then show ?thesis using False True by (auto simp: f pend_entry_ok_def Let_def)
    qed
    show "pend_w_ok ?L v" for v
    proof (cases "v = w")
      case True then show ?thesis using assms(2,3) by (simp add: f pend_w_ok_def)
    next
      case False
      then show ?thesis using pend_invD(3)[OF assms(1), of v] by (auto simp: f pend_w_ok_def)
    qed
  qed
qed

lemma feed_pend_of:
  assumes "pend_inv L"
  shows "pend_of (ev_feed_event w r L) =
    (pend_of L)(w \<mapsto> (case pend_of L w of None \<Rightarrow> r | Some e \<Rightarrow> e OR r))"
proof (rule ext)
  fix v
  show "pend_of (ev_feed_event w r L) v = ((pend_of L)(w \<mapsto> (case pend_of L w of None \<Rightarrow> r | Some e \<Rightarrow> e OR r))) v"
  proof (cases "pending (ws L w) = 0")
    case True
    then show ?thesis using pend_pending(4)[OF assms, of v]
      by (auto simp: feed_first Let_def pend_of_def)
  next
    case False
    then show ?thesis using pend_distinct[OF assms _ False, of v] pend_pending(4)[OF assms, of v]
      pend_pending(4)[OF assms False]
      by (auto simp: feed_again Let_def pend_of_def)
  qed
qed

text \<open>What feeding leaves alone, and that it is safe.\<close>

lemma feed_frame [simp]:
  "active (ws (ev_feed_event w r L) v) = active (ws L v)"
  "priority (ws (ev_feed_event w r L) v) = priority (ws L v)"
  "w_at (ws (ev_feed_event w r L) v) = w_at (ws L v)"
  "(ws (ev_feed_event w r L) v)\<lparr>pending := x\<rparr> = (ws L v)\<lparr>pending := x\<rparr>"
  by (simp_all add: ev_feed_event_def chk_def Let_def set_pending_def)

lemma feed_out_of_range: "\<not> pri_valid (ws L w) \<Longrightarrow> \<not> ok (ev_feed_event w r L)"
  by (simp add: ev_feed_event_def chk_def Let_def)

lemma feed_ok: "pend_inv L \<Longrightarrow> pri_valid (ws L w) \<Longrightarrow> ok (ev_feed_event w r L) = ok L"
  using pend_pending(5)[of L w] by (cases "pending (ws L w) = 0") (auto simp: feed_again feed_first Let_def)

lemma feed_fields [simp]:
  "os (ev_feed_event w r L) = os L"
  "ev_rt_now (ev_feed_event w r L) = ev_rt_now L"
  "now_floor (ev_feed_event w r L) = now_floor L"
  "mn_now (ev_feed_event w r L) = mn_now L"
  "rtmn_diff (ev_feed_event w r L) = rtmn_diff L"
  "have_monotonic (ev_feed_event w r L) = have_monotonic L"
  "io_blocktime (ev_feed_event w r L) = io_blocktime L"
  "timeout_blocktime (ev_feed_event w r L) = timeout_blocktime L"
  "backend (ev_feed_event w r L) = backend L"
  "activecnt (ev_feed_event w r L) = activecnt L"
  "iocnt (ev_feed_event w r L) = iocnt L"
  "iofed (ev_feed_event w r L) = iofed L"
  "loop_done (ev_feed_event w r L) = loop_done L"
  "backend_fd (ev_feed_event w r L) = backend_fd L"
  "backend_mintime (ev_feed_event w r L) = backend_mintime L"
  "anfds (ev_feed_event w r L) = anfds L"
  "anfdmax (ev_feed_event w r L) = anfdmax L"
  "evpipe0 (ev_feed_event w r L) = evpipe0 L"
  "evpipe1 (ev_feed_event w r L) = evpipe1 L"
  "pipe_write_wanted (ev_feed_event w r L) = pipe_write_wanted L"
  "pipe_write_skipped (ev_feed_event w r L) = pipe_write_skipped L"
  "curpid (ev_feed_event w r L) = curpid L"
  "postfork (ev_feed_event w r L) = postfork L"
  "fdchanges (ev_feed_event w r L) = fdchanges L"
  "fdchangemax (ev_feed_event w r L) = fdchangemax L"
  "fdchangecnt (ev_feed_event w r L) = fdchangecnt L"
  "timers (ev_feed_event w r L) = timers L"
  "timermax (ev_feed_event w r L) = timermax L"
  "timercnt (ev_feed_event w r L) = timercnt L"
  "periodics (ev_feed_event w r L) = periodics L"
  "periodicmax (ev_feed_event w r L) = periodicmax L"
  "periodiccnt (ev_feed_event w r L) = periodiccnt L"
  "idles (ev_feed_event w r L) = idles L"
  "idlemax (ev_feed_event w r L) = idlemax L"
  "idlecnt (ev_feed_event w r L) = idlecnt L"
  "idleall (ev_feed_event w r L) = idleall L"
  "prepares (ev_feed_event w r L) = prepares L"
  "preparemax (ev_feed_event w r L) = preparemax L"
  "preparecnt (ev_feed_event w r L) = preparecnt L"
  "checks (ev_feed_event w r L) = checks L"
  "checkmax (ev_feed_event w r L) = checkmax L"
  "checkcnt (ev_feed_event w r L) = checkcnt L"
  "forks (ev_feed_event w r L) = forks L"
  "forkmax (ev_feed_event w r L) = forkmax L"
  "forkcnt (ev_feed_event w r L) = forkcnt L"
  "cleanups (ev_feed_event w r L) = cleanups L"
  "cleanupmax (ev_feed_event w r L) = cleanupmax L"
  "cleanupcnt (ev_feed_event w r L) = cleanupcnt L"
  "asyncs (ev_feed_event w r L) = asyncs L"
  "asyncmax (ev_feed_event w r L) = asyncmax L"
  "asynccnt (ev_feed_event w r L) = asynccnt L"
  "async_pending (ev_feed_event w r L) = async_pending L"
  "sig_pending (ev_feed_event w r L) = sig_pending L"
  "fs_fd (ev_feed_event w r L) = fs_fd L"
  "sigfd (ev_feed_event w r L) = sigfd L"
  "sigfd_set (ev_feed_event w r L) = sigfd_set L"
  "timerfd (ev_feed_event w r L) = timerfd L"
  "origflags (ev_feed_event w r L) = origflags L"
  "loop_count (ev_feed_event w r L) = loop_count L"
  "loop_depth (ev_feed_event w r L) = loop_depth L"
  "now_set (ev_feed_event w r L) = now_set L"
  "signals (ev_feed_event w r L) = signals L"
  "childs (ev_feed_event w r L) = childs L"
  "fs_2625 (ev_feed_event w r L) = fs_2625 L"
  "fs_hash (ev_feed_event w r L) = fs_hash L"
  "vec_ri (ev_feed_event w r L) = vec_ri L"
  "vec_wi (ev_feed_event w r L) = vec_wi L"
  "vec_max (ev_feed_event w r L) = vec_max L"
  "polls (ev_feed_event w r L) = polls L"
  "pollmax (ev_feed_event w r L) = pollmax L"
  "pollcnt (ev_feed_event w r L) = pollcnt L"
  "pollidxs (ev_feed_event w r L) = pollidxs L"
  "pollidxmax (ev_feed_event w r L) = pollidxmax L"
  "epoll_eventmax (ev_feed_event w r L) = epoll_eventmax L"
  "epoll_eperms (ev_feed_event w r L) = epoll_eperms L"
  "epoll_epermcnt (ev_feed_event w r L) = epoll_epermcnt L"
  "epoll_epermmax (ev_feed_event w r L) = epoll_epermmax L"
  "epoll_have_pwait2 (ev_feed_event w r L) = epoll_have_pwait2 L"
  "kqueue_fd_pid (ev_feed_event w r L) = kqueue_fd_pid L"
  "kqueue_changes (ev_feed_event w r L) = kqueue_changes L"
  "kqueue_changemax (ev_feed_event w r L) = kqueue_changemax L"
  "kqueue_changecnt (ev_feed_event w r L) = kqueue_changecnt L"
  "kqueue_eventmax (ev_feed_event w r L) = kqueue_eventmax L"
  "port_eventmax (ev_feed_event w r L) = port_eventmax L"
  by (simp_all add: ev_feed_event_def chk_def Let_def)

lemma feed_w_fields [simp]:
  "w_cb (ws (ev_feed_event w r L) v) = w_cb (ws L v)"
  "w_repeat (ws (ev_feed_event w r L) v) = w_repeat (ws L v)"
  "w_offset (ws (ev_feed_event w r L) v) = w_offset (ws L v)"
  "w_interval (ws (ev_feed_event w r L) v) = w_interval (ws L v)"
  "w_reschedule (ws (ev_feed_event w r L) v) = w_reschedule (ws L v)"
  "w_fd (ws (ev_feed_event w r L) v) = w_fd (ws L v)"
  "w_events (ws (ev_feed_event w r L) v) = w_events (ws L v)"
  "w_signum (ws (ev_feed_event w r L) v) = w_signum (ws L v)"
  "w_flags (ws (ev_feed_event w r L) v) = w_flags (ws L v)"
  "w_pid (ws (ev_feed_event w r L) v) = w_pid (ws L v)"
  "w_rpid (ws (ev_feed_event w r L) v) = w_rpid (ws L v)"
  "w_rstatus (ws (ev_feed_event w r L) v) = w_rstatus (ws L v)"
  "w_sent (ws (ev_feed_event w r L) v) = w_sent (ws L v)"
  "w_path (ws (ev_feed_event w r L) v) = w_path (ws L v)"
  "w_prev (ws (ev_feed_event w r L) v) = w_prev (ws L v)"
  "w_attr (ws (ev_feed_event w r L) v) = w_attr (ws L v)"
  "w_wd (ws (ev_feed_event w r L) v) = w_wd (ws L v)"
  by (simp_all add: ev_feed_event_def chk_def Let_def set_pending_def)

lemma feed_other: "v \<noteq> w \<Longrightarrow> ws (ev_feed_event w r L) v = ws L v"
  by (simp add: ev_feed_event_def chk_def Let_def set_pending_def)

subsection \<open>Clearing an event\<close>

lemma clear_eq: "ev_clear_pending w L = (case pend_of L w of None \<Rightarrow> 0 | Some e \<Rightarrow> e, clear_pending w L)"
  by (simp add: ev_clear_pending_def clear_pending_def pend_of_def Let_def)

lemma clear_inv:
  assumes "pend_inv L"
  shows "pend_inv (clear_pending w L)"
proof (cases "pending (ws L w) = 0")
  case False
  let ?L = "clear_pending w L"
  show ?thesis
  proof (rule pend_invI)
    show "pendingcnt ?L pri \<le> pendingmax ?L pri" if "pri < NUMPRI" for pri
      using pend_invD(1)[OF assms that] by (simp add: clear_pending_def chk_def Let_def)
    show "pend_entry_ok ?L pri i" if "pri < NUMPRI" "i < pendingcnt ?L pri" for pri i
    proof -
      have "i < pendingcnt L pri" using that(2) by (simp add: clear_pending_def chk_def Let_def split: if_splits)
      then have "pend_entry_ok L pri i" using pend_invD(2)[OF assms that(1)] by simp
      then show ?thesis using False
        by (auto simp: clear_pending_def chk_def Let_def pend_entry_ok_def)
    qed
    show "pend_w_ok ?L v" for v
      using False pend_invD(3)[OF assms, of v] pend_pending(6)[OF assms False]
      by (auto simp: clear_pending_def chk_def Let_def pend_w_ok_def)
  qed
qed (simp add: clear_pending_def assms)

lemma clear_pend_of:
  assumes "pend_inv L"
  shows "pend_of (clear_pending w L) = (pend_of L)(w := None)"
proof (rule ext)
  fix v
  show "pend_of (clear_pending w L) v = ((pend_of L)(w := None)) v"
  proof (cases "pending (ws L w) = 0")
    case False
    then show ?thesis using pend_distinct[OF assms _ False, of v]
      by (auto simp: clear_pending_def chk_def Let_def pend_of_def)
  qed (simp add: clear_pending_def pend_of_def)
qed

lemma clear_frame [simp]:
  "active (ws (clear_pending w L) v) = active (ws L v)"
  "priority (ws (clear_pending w L) v) = priority (ws L v)"
  "w_at (ws (clear_pending w L) v) = w_at (ws L v)"
  "(ws (clear_pending w L) v)\<lparr>pending := x\<rparr> = (ws L v)\<lparr>pending := x\<rparr>"
  "pending (ws (clear_pending w L) v) = (if v = w then 0 else pending (ws L v))"
  "pendingcnt (clear_pending w L) = pendingcnt L"
  by (simp_all add: clear_pending_def chk_def Let_def set_pending_def)

lemma clear_ok: "pend_inv L \<Longrightarrow> ok (clear_pending w L) = ok L"
  using pend_pending(5)[of L w] by (auto simp: clear_pending_def chk_def Let_def)

lemma clear_fields [simp]:
  "os (clear_pending w L) = os L"
  "ev_rt_now (clear_pending w L) = ev_rt_now L"
  "now_floor (clear_pending w L) = now_floor L"
  "mn_now (clear_pending w L) = mn_now L"
  "rtmn_diff (clear_pending w L) = rtmn_diff L"
  "have_monotonic (clear_pending w L) = have_monotonic L"
  "rfeeds (clear_pending w L) = rfeeds L"
  "rfeedmax (clear_pending w L) = rfeedmax L"
  "rfeedcnt (clear_pending w L) = rfeedcnt L"
  "io_blocktime (clear_pending w L) = io_blocktime L"
  "timeout_blocktime (clear_pending w L) = timeout_blocktime L"
  "backend (clear_pending w L) = backend L"
  "activecnt (clear_pending w L) = activecnt L"
  "iocnt (clear_pending w L) = iocnt L"
  "iofed (clear_pending w L) = iofed L"
  "loop_done (clear_pending w L) = loop_done L"
  "backend_fd (clear_pending w L) = backend_fd L"
  "backend_mintime (clear_pending w L) = backend_mintime L"
  "anfds (clear_pending w L) = anfds L"
  "anfdmax (clear_pending w L) = anfdmax L"
  "evpipe0 (clear_pending w L) = evpipe0 L"
  "evpipe1 (clear_pending w L) = evpipe1 L"
  "pipe_write_wanted (clear_pending w L) = pipe_write_wanted L"
  "pipe_write_skipped (clear_pending w L) = pipe_write_skipped L"
  "curpid (clear_pending w L) = curpid L"
  "postfork (clear_pending w L) = postfork L"
  "fdchanges (clear_pending w L) = fdchanges L"
  "fdchangemax (clear_pending w L) = fdchangemax L"
  "fdchangecnt (clear_pending w L) = fdchangecnt L"
  "timers (clear_pending w L) = timers L"
  "timermax (clear_pending w L) = timermax L"
  "timercnt (clear_pending w L) = timercnt L"
  "periodics (clear_pending w L) = periodics L"
  "periodicmax (clear_pending w L) = periodicmax L"
  "periodiccnt (clear_pending w L) = periodiccnt L"
  "idles (clear_pending w L) = idles L"
  "idlemax (clear_pending w L) = idlemax L"
  "idlecnt (clear_pending w L) = idlecnt L"
  "idleall (clear_pending w L) = idleall L"
  "prepares (clear_pending w L) = prepares L"
  "preparemax (clear_pending w L) = preparemax L"
  "preparecnt (clear_pending w L) = preparecnt L"
  "checks (clear_pending w L) = checks L"
  "checkmax (clear_pending w L) = checkmax L"
  "checkcnt (clear_pending w L) = checkcnt L"
  "forks (clear_pending w L) = forks L"
  "forkmax (clear_pending w L) = forkmax L"
  "forkcnt (clear_pending w L) = forkcnt L"
  "cleanups (clear_pending w L) = cleanups L"
  "cleanupmax (clear_pending w L) = cleanupmax L"
  "cleanupcnt (clear_pending w L) = cleanupcnt L"
  "asyncs (clear_pending w L) = asyncs L"
  "asyncmax (clear_pending w L) = asyncmax L"
  "asynccnt (clear_pending w L) = asynccnt L"
  "async_pending (clear_pending w L) = async_pending L"
  "sig_pending (clear_pending w L) = sig_pending L"
  "fs_fd (clear_pending w L) = fs_fd L"
  "sigfd (clear_pending w L) = sigfd L"
  "sigfd_set (clear_pending w L) = sigfd_set L"
  "timerfd (clear_pending w L) = timerfd L"
  "origflags (clear_pending w L) = origflags L"
  "loop_count (clear_pending w L) = loop_count L"
  "loop_depth (clear_pending w L) = loop_depth L"
  "now_set (clear_pending w L) = now_set L"
  "signals (clear_pending w L) = signals L"
  "childs (clear_pending w L) = childs L"
  "fs_2625 (clear_pending w L) = fs_2625 L"
  "fs_hash (clear_pending w L) = fs_hash L"
  "vec_ri (clear_pending w L) = vec_ri L"
  "vec_wi (clear_pending w L) = vec_wi L"
  "vec_max (clear_pending w L) = vec_max L"
  "polls (clear_pending w L) = polls L"
  "pollmax (clear_pending w L) = pollmax L"
  "pollcnt (clear_pending w L) = pollcnt L"
  "pollidxs (clear_pending w L) = pollidxs L"
  "pollidxmax (clear_pending w L) = pollidxmax L"
  "epoll_eventmax (clear_pending w L) = epoll_eventmax L"
  "epoll_eperms (clear_pending w L) = epoll_eperms L"
  "epoll_epermcnt (clear_pending w L) = epoll_epermcnt L"
  "epoll_epermmax (clear_pending w L) = epoll_epermmax L"
  "epoll_have_pwait2 (clear_pending w L) = epoll_have_pwait2 L"
  "kqueue_fd_pid (clear_pending w L) = kqueue_fd_pid L"
  "kqueue_changes (clear_pending w L) = kqueue_changes L"
  "kqueue_changemax (clear_pending w L) = kqueue_changemax L"
  "kqueue_changecnt (clear_pending w L) = kqueue_changecnt L"
  "kqueue_eventmax (clear_pending w L) = kqueue_eventmax L"
  "port_eventmax (clear_pending w L) = port_eventmax L"
  by (simp_all add: clear_pending_def chk_def Let_def)

lemma clear_w_fields [simp]:
  "w_cb (ws (clear_pending w L) v) = w_cb (ws L v)"
  "w_repeat (ws (clear_pending w L) v) = w_repeat (ws L v)"
  "w_offset (ws (clear_pending w L) v) = w_offset (ws L v)"
  "w_interval (ws (clear_pending w L) v) = w_interval (ws L v)"
  "w_reschedule (ws (clear_pending w L) v) = w_reschedule (ws L v)"
  "w_fd (ws (clear_pending w L) v) = w_fd (ws L v)"
  "w_events (ws (clear_pending w L) v) = w_events (ws L v)"
  "w_signum (ws (clear_pending w L) v) = w_signum (ws L v)"
  "w_flags (ws (clear_pending w L) v) = w_flags (ws L v)"
  "w_pid (ws (clear_pending w L) v) = w_pid (ws L v)"
  "w_rpid (ws (clear_pending w L) v) = w_rpid (ws L v)"
  "w_rstatus (ws (clear_pending w L) v) = w_rstatus (ws L v)"
  "w_sent (ws (clear_pending w L) v) = w_sent (ws L v)"
  "w_path (ws (clear_pending w L) v) = w_path (ws L v)"
  "w_prev (ws (clear_pending w L) v) = w_prev (ws L v)"
  "w_attr (ws (clear_pending w L) v) = w_attr (ws L v)"
  "w_wd (ws (clear_pending w L) v) = w_wd (ws L v)"
  by (simp_all add: clear_pending_def chk_def Let_def set_pending_def)

lemma clear_other: "v \<noteq> w \<Longrightarrow> ws (clear_pending w L) v = ws L v"
  by (simp add: clear_pending_def chk_def Let_def set_pending_def)

lemma clear_w: "ws (clear_pending w L) = (ws L)(w := (ws L w)\<lparr>pending := 0\<rparr>)"
proof (cases "pending (ws L w) = 0")
  case True
  then have "(ws L w)\<lparr>pending := 0\<rparr> = ws L w" by simp
  then show ?thesis using True by (simp only: clear_pending_def) simp
qed (simp add: clear_pending_def chk_def Let_def set_pending_def)

subsection \<open>Invoking the callbacks\<close>

definition settled :: "'w ev_loop \<Rightarrow> bool" where
  "settled L \<longleftrightarrow> pendingpri L < NUMPRI \<and> (\<forall>pri < NUMPRI. pendingpri L < pri \<longrightarrow> pendingcnt L pri = 0)"

definition no_pending :: "'w ev_loop \<Rightarrow> bool" where
  "no_pending L \<longleftrightarrow> (\<forall>pri < NUMPRI. pendingcnt L pri = 0)"

lemma settled_feed [simp]: "settled (ev_feed_event w r L)"
  by (simp add: settled_def ev_feed_event_def chk_def Let_def)

lemma settled_clear [simp]: "settled (clear_pending w L) = settled L"
  by (simp add: settled_def clear_pending_def chk_def Let_def)

lemma pop_inv:
  assumes I: "pend_inv L" and c: "pendingcnt L (pendingpri L) \<noteq> 0" and p: "pendingpri L < NUMPRI"
  shows "pend_inv (snd (pop_pending L))" "ok (snd (pop_pending L)) = ok L"
proof -
  let ?p = "pendingpri L" let ?n = "pendingcnt L ?p - 1" let ?w = "ap_w (pendings L ?p ?n)"
  let ?L = "snd (pop_pending L)"
  note d = pop_pending_def Let_def chk_def
  have n: "?n < pendingcnt L ?p" using c by simp
  note e = pend_invD(2)[OF I p n, unfolded pend_entry_ok_def Let_def]
  show "ok ?L = ok L" using n pend_invD(1)[OF I p] by (auto simp: d)
  show "pend_inv ?L"
  proof (rule pend_invI)
    show "pendingcnt ?L pri \<le> pendingmax ?L pri" if "pri < NUMPRI" for pri
      using pend_invD(1)[OF I that] by (auto simp: d)
    show "pend_entry_ok ?L pri i" if "pri < NUMPRI" "i < pendingcnt ?L pri" for pri i
    proof -
      have i: "i < pendingcnt L pri" "pri = ?p \<Longrightarrow> i < ?n" using that(2) by (auto simp: d split: if_splits)
      have "pend_entry_ok L pri i" using pend_invD(2)[OF I that(1) i(1)] .
      then show ?thesis using e n i(2) by (auto simp: d pend_entry_ok_def)
    qed
    show "pend_w_ok ?L v" for v
    proof -
      have "pending (ws L v) \<le> ?n" if "v \<noteq> ?w" "pending (ws L v) \<noteq> 0" "ABSPRI (ws L v) = ?p"
      proof (rule ccontr)
        assume "\<not> pending (ws L v) \<le> ?n"
        then have "pending (ws L v) - 1 = ?n" using pend_pending(4)[OF I that(2)] that(3) by simp
        then show False using pend_pending(6)[OF I that(2)] that(1,3) by simp
      qed
      then show ?thesis using pend_invD(3)[OF I, of v] by (auto simp: d pend_w_ok_def)
    qed
  qed
qed

lemma settled_pop: "settled L \<Longrightarrow> settled (snd (pop_pending L))"
  by (auto simp: settled_def pop_pending_def Let_def chk_def)

lemma invoke_induct [consumes 1, case_names call down stop]:
  assumes run: "invoke_loop icb L = Some L'"
    and call: "\<And>L L1 L'. pendingcnt L (pendingpri L) \<noteq> 0 \<Longrightarrow>
      icb (ap_w (fst (pop_pending L))) (ap_events (fst (pop_pending L))) (snd (pop_pending L)) = Some L1 \<Longrightarrow>
      P L1 L' \<Longrightarrow> P L L'"
    and down: "\<And>L L'. pendingcnt L (pendingpri L) = 0 \<Longrightarrow> pendingpri L \<noteq> 0 \<Longrightarrow>
      P (L\<lparr>pendingpri := pendingpri L - 1\<rparr>) L' \<Longrightarrow> P L L'"
    and stop: "\<And>L. pendingcnt L (pendingpri L) = 0 \<Longrightarrow> pendingpri L = 0 \<Longrightarrow> P L L"
  shows "P L L'"
proof -
  have "icb = icb \<longrightarrow> P L L'"
  proof (rule invoke_loop.raw_induct[where P = "\<lambda>c L L'. c = icb \<longrightarrow> P L L'", OF _ run], intro impI)
    fix il c L L'
    assume IH: "\<And>c L L'. il c L = Some L' \<Longrightarrow> c = icb \<longrightarrow> P L L'" and c: "c = icb"
      and body: "(if pendingcnt L (pendingpri L) \<noteq> 0
        then case c (ap_w (fst (pop_pending L))) (ap_events (fst (pop_pending L))) (snd (pop_pending L)) of
             None \<Rightarrow> None | Some L' \<Rightarrow> il c L'
        else if pendingpri L \<noteq> 0 then il c (L\<lparr>pendingpri := pendingpri L - 1\<rparr>) else Some L) = Some L'"
    show "P L L'" using body c IH
      by (auto intro: call down stop split: if_splits option.splits)
  qed
  then show ?thesis by simp
qed

text \<open>
  The contract of a callback, as far as the queues are concerned: it keeps an invariant
  \<open>I\<close> that includes \<open>pend_inv\<close>, and it feeds only through \<^verbatim>\<open>ev_feed_event\<close>, so that
  a priority above \<open>pendingpri\<close> has events only after \<open>pendingpri\<close> was raised.
\<close>

locale callbacks =
  fixes icb :: "W \<Rightarrow> u32 \<Rightarrow> 'w ev_loop \<Rightarrow> 'w ev_loop option"
    and I :: "'w ev_loop \<Rightarrow> bool"
  assumes I_pend: "I L \<Longrightarrow> pend_inv L"
    and I_pri: "I L \<Longrightarrow> I (L\<lparr>pendingpri := n\<rparr>)"
    and I_pop: "I L \<Longrightarrow> settled L \<Longrightarrow> pendingcnt L (pendingpri L) \<noteq> 0 \<Longrightarrow> I (snd (pop_pending L))"
    and I_cb: "I L \<Longrightarrow> settled L \<Longrightarrow> icb w r L = Some L' \<Longrightarrow> I L' \<and> settled L'"
begin

lemma loop_inv:
  assumes "invoke_loop icb L = Some L'" "I L" "settled L"
  shows "I L' \<and> no_pending L'"
  using assms
proof (induction rule: invoke_induct)
  case (call L L1 L')
  note p = I_pop[OF call.prems(1,2) call.hyps(1)] settled_pop[OF call.prems(2)]
  show ?case using I_cb[OF p call.hyps(2)] call.IH by blast
next
  case (down L L')
  have "settled (L\<lparr>pendingpri := pendingpri L - 1\<rparr>)"
    using down.prems(2) down.hyps(1)
    by (auto simp: settled_def) (metis One_nat_def Suc_pred gr0I less_antisym not_less_eq)
  then show ?case using down.IH I_pri[OF down.prems(1)] by blast
next
  case (stop L)
  have "pendingcnt L pri = 0" if "pri < NUMPRI" for pri
    using stop that by (cases "pri = 0") (auto simp: settled_def)
  then show ?case using stop by (simp add: no_pending_def)
qed

text \<open>\<^verbatim>\<open>ev_invoke_pending\<close> leaves nothing pending, whatever the callbacks feed on the way.\<close>

lemma invoke_empties:
  assumes "ev_invoke_pending icb L = Some L'" "I L"
  shows "I L' \<and> no_pending L'"
proof -
  have "settled (L\<lparr>pendingpri := NUMPRI - 1\<rparr>)" by (auto simp: settled_def)
  then show ?thesis using assms loop_inv I_pri by (simp add: ev_invoke_pending_def)
qed

end

subsection \<open>Feeding a list of watchers\<close>

definition feed_list :: "W list \<Rightarrow> u32 \<Rightarrow> 'w ev_loop \<Rightarrow> 'w ev_loop" where
  "feed_list vs r L = fold (\<lambda>w. ev_feed_event w r) vs L"

lemma feed_list_simps [simp]:
  "feed_list [] r L = L" "feed_list (w # vs) r L = feed_list vs r (ev_feed_event w r L)"
  by (simp_all add: feed_list_def)

lemma queue_events_list: "queue_events events n r L = feed_list (map events [0..<n]) r L"
  by (simp add: queue_events_def feed_list_def fold_map comp_def)

lemma feed_rfeedcnt_upd: "ev_feed_event w r (L\<lparr>rfeedcnt := n\<rparr>) = (ev_feed_event w r L)\<lparr>rfeedcnt := n\<rparr>"
  by (simp add: ev_feed_event_def chk_def Let_def)

lemma feed_list_rfeedcnt_upd: "feed_list vs r (L\<lparr>rfeedcnt := n\<rparr>) = (feed_list vs r L)\<lparr>rfeedcnt := n\<rparr>"
  by (induction vs arbitrary: L) (simp_all add: feed_rfeedcnt_upd)

lemma feed_reverse_done_list:
  assumes "rfeedcnt L = Suc n"
  shows "feed_reverse_done r L = (feed_list (map (rfeeds L) (rev [0..<Suc n])) r L)\<lparr>rfeedcnt := 0\<rparr>"
  using assms
proof (induction n arbitrary: L)
  case 0
  then show ?case by (subst feed_reverse_done.simps) (simp add: feed_rfeedcnt_upd Let_def)
next
  case (Suc n)
  let ?L = "ev_feed_event (rfeeds L (Suc n)) r (L\<lparr>rfeedcnt := Suc n\<rparr>)"
  have "feed_reverse_done r L = feed_reverse_done r ?L"
    using Suc.prems by (subst feed_reverse_done.simps) (simp add: Let_def)
  also have "\<dots> = (feed_list (map (rfeeds ?L) (rev [0..<Suc n])) r ?L)\<lparr>rfeedcnt := 0\<rparr>"
    by (rule Suc.IH) simp
  also have "\<dots> = (feed_list (map (rfeeds L) (rev [0..<Suc (Suc n)])) r L)\<lparr>rfeedcnt := 0\<rparr>"
    by (simp add: feed_rfeedcnt_upd feed_list_rfeedcnt_upd)
  finally show ?case .
qed

lemma feed_list_frame [simp]:
  "active (ws (feed_list vs r L) v) = active (ws L v)"
  "priority (ws (feed_list vs r L) v) = priority (ws L v)"
  "w_at (ws (feed_list vs r L) v) = w_at (ws L v)"
  "(ws (feed_list vs r L) v)\<lparr>pending := x\<rparr> = (ws L v)\<lparr>pending := x\<rparr>"
  by (induction vs arbitrary: L) simp_all

lemma pri_valid_feed [simp]: "pri_valid (ws (ev_feed_event w r L) v) = pri_valid (ws L v)"
  by (simp add: pri_valid_def)

lemma feed_list_keeps: "(\<And>w L. g (ev_feed_event w r L) = g L) \<Longrightarrow> g (feed_list vs r L) = g L"
  by (induction vs arbitrary: L) simp_all

lemma feed_list_fields [simp]:
  "os (feed_list vs r L) = os L"
  "ev_rt_now (feed_list vs r L) = ev_rt_now L"
  "now_floor (feed_list vs r L) = now_floor L"
  "mn_now (feed_list vs r L) = mn_now L"
  "rtmn_diff (feed_list vs r L) = rtmn_diff L"
  "have_monotonic (feed_list vs r L) = have_monotonic L"
  "rfeeds (feed_list vs r L) = rfeeds L"
  "rfeedmax (feed_list vs r L) = rfeedmax L"
  "rfeedcnt (feed_list vs r L) = rfeedcnt L"
  "io_blocktime (feed_list vs r L) = io_blocktime L"
  "timeout_blocktime (feed_list vs r L) = timeout_blocktime L"
  "backend (feed_list vs r L) = backend L"
  "activecnt (feed_list vs r L) = activecnt L"
  "iocnt (feed_list vs r L) = iocnt L"
  "iofed (feed_list vs r L) = iofed L"
  "loop_done (feed_list vs r L) = loop_done L"
  "backend_fd (feed_list vs r L) = backend_fd L"
  "backend_mintime (feed_list vs r L) = backend_mintime L"
  "anfds (feed_list vs r L) = anfds L"
  "anfdmax (feed_list vs r L) = anfdmax L"
  "evpipe0 (feed_list vs r L) = evpipe0 L"
  "evpipe1 (feed_list vs r L) = evpipe1 L"
  "pipe_write_wanted (feed_list vs r L) = pipe_write_wanted L"
  "pipe_write_skipped (feed_list vs r L) = pipe_write_skipped L"
  "curpid (feed_list vs r L) = curpid L"
  "postfork (feed_list vs r L) = postfork L"
  "fdchanges (feed_list vs r L) = fdchanges L"
  "fdchangemax (feed_list vs r L) = fdchangemax L"
  "fdchangecnt (feed_list vs r L) = fdchangecnt L"
  "timers (feed_list vs r L) = timers L"
  "timermax (feed_list vs r L) = timermax L"
  "timercnt (feed_list vs r L) = timercnt L"
  "periodics (feed_list vs r L) = periodics L"
  "periodicmax (feed_list vs r L) = periodicmax L"
  "periodiccnt (feed_list vs r L) = periodiccnt L"
  "idles (feed_list vs r L) = idles L"
  "idlemax (feed_list vs r L) = idlemax L"
  "idlecnt (feed_list vs r L) = idlecnt L"
  "idleall (feed_list vs r L) = idleall L"
  "prepares (feed_list vs r L) = prepares L"
  "preparemax (feed_list vs r L) = preparemax L"
  "preparecnt (feed_list vs r L) = preparecnt L"
  "checks (feed_list vs r L) = checks L"
  "checkmax (feed_list vs r L) = checkmax L"
  "checkcnt (feed_list vs r L) = checkcnt L"
  "forks (feed_list vs r L) = forks L"
  "forkmax (feed_list vs r L) = forkmax L"
  "forkcnt (feed_list vs r L) = forkcnt L"
  "cleanups (feed_list vs r L) = cleanups L"
  "cleanupmax (feed_list vs r L) = cleanupmax L"
  "cleanupcnt (feed_list vs r L) = cleanupcnt L"
  "asyncs (feed_list vs r L) = asyncs L"
  "asyncmax (feed_list vs r L) = asyncmax L"
  "asynccnt (feed_list vs r L) = asynccnt L"
  "async_pending (feed_list vs r L) = async_pending L"
  "sig_pending (feed_list vs r L) = sig_pending L"
  "fs_fd (feed_list vs r L) = fs_fd L"
  "sigfd (feed_list vs r L) = sigfd L"
  "sigfd_set (feed_list vs r L) = sigfd_set L"
  "timerfd (feed_list vs r L) = timerfd L"
  "origflags (feed_list vs r L) = origflags L"
  "loop_count (feed_list vs r L) = loop_count L"
  "loop_depth (feed_list vs r L) = loop_depth L"
  "now_set (feed_list vs r L) = now_set L"
  "signals (feed_list vs r L) = signals L"
  "childs (feed_list vs r L) = childs L"
  "fs_2625 (feed_list vs r L) = fs_2625 L"
  "fs_hash (feed_list vs r L) = fs_hash L"
  "vec_ri (feed_list vs r L) = vec_ri L"
  "vec_wi (feed_list vs r L) = vec_wi L"
  "vec_max (feed_list vs r L) = vec_max L"
  "polls (feed_list vs r L) = polls L"
  "pollmax (feed_list vs r L) = pollmax L"
  "pollcnt (feed_list vs r L) = pollcnt L"
  "pollidxs (feed_list vs r L) = pollidxs L"
  "pollidxmax (feed_list vs r L) = pollidxmax L"
  "epoll_eventmax (feed_list vs r L) = epoll_eventmax L"
  "epoll_eperms (feed_list vs r L) = epoll_eperms L"
  "epoll_epermcnt (feed_list vs r L) = epoll_epermcnt L"
  "epoll_epermmax (feed_list vs r L) = epoll_epermmax L"
  "epoll_have_pwait2 (feed_list vs r L) = epoll_have_pwait2 L"
  "kqueue_fd_pid (feed_list vs r L) = kqueue_fd_pid L"
  "kqueue_changes (feed_list vs r L) = kqueue_changes L"
  "kqueue_changemax (feed_list vs r L) = kqueue_changemax L"
  "kqueue_changecnt (feed_list vs r L) = kqueue_changecnt L"
  "kqueue_eventmax (feed_list vs r L) = kqueue_eventmax L"
  "port_eventmax (feed_list vs r L) = port_eventmax L"
  by (rule feed_list_keeps[where g = os]
      feed_list_keeps[where g = ev_rt_now]
      feed_list_keeps[where g = now_floor]
      feed_list_keeps[where g = mn_now]
      feed_list_keeps[where g = rtmn_diff]
      feed_list_keeps[where g = have_monotonic]
      feed_list_keeps[where g = rfeeds]
      feed_list_keeps[where g = rfeedmax]
      feed_list_keeps[where g = rfeedcnt]
      feed_list_keeps[where g = io_blocktime]
      feed_list_keeps[where g = timeout_blocktime]
      feed_list_keeps[where g = backend]
      feed_list_keeps[where g = activecnt]
      feed_list_keeps[where g = iocnt]
      feed_list_keeps[where g = iofed]
      feed_list_keeps[where g = loop_done]
      feed_list_keeps[where g = backend_fd]
      feed_list_keeps[where g = backend_mintime]
      feed_list_keeps[where g = anfds]
      feed_list_keeps[where g = anfdmax]
      feed_list_keeps[where g = evpipe0]
      feed_list_keeps[where g = evpipe1]
      feed_list_keeps[where g = pipe_write_wanted]
      feed_list_keeps[where g = pipe_write_skipped]
      feed_list_keeps[where g = curpid]
      feed_list_keeps[where g = postfork]
      feed_list_keeps[where g = fdchanges]
      feed_list_keeps[where g = fdchangemax]
      feed_list_keeps[where g = fdchangecnt]
      feed_list_keeps[where g = timers]
      feed_list_keeps[where g = timermax]
      feed_list_keeps[where g = timercnt]
      feed_list_keeps[where g = periodics]
      feed_list_keeps[where g = periodicmax]
      feed_list_keeps[where g = periodiccnt]
      feed_list_keeps[where g = idles]
      feed_list_keeps[where g = idlemax]
      feed_list_keeps[where g = idlecnt]
      feed_list_keeps[where g = idleall]
      feed_list_keeps[where g = prepares]
      feed_list_keeps[where g = preparemax]
      feed_list_keeps[where g = preparecnt]
      feed_list_keeps[where g = checks]
      feed_list_keeps[where g = checkmax]
      feed_list_keeps[where g = checkcnt]
      feed_list_keeps[where g = forks]
      feed_list_keeps[where g = forkmax]
      feed_list_keeps[where g = forkcnt]
      feed_list_keeps[where g = cleanups]
      feed_list_keeps[where g = cleanupmax]
      feed_list_keeps[where g = cleanupcnt]
      feed_list_keeps[where g = asyncs]
      feed_list_keeps[where g = asyncmax]
      feed_list_keeps[where g = asynccnt]
      feed_list_keeps[where g = async_pending]
      feed_list_keeps[where g = sig_pending]
      feed_list_keeps[where g = fs_fd]
      feed_list_keeps[where g = sigfd]
      feed_list_keeps[where g = sigfd_set]
      feed_list_keeps[where g = timerfd]
      feed_list_keeps[where g = origflags]
      feed_list_keeps[where g = loop_count]
      feed_list_keeps[where g = loop_depth]
      feed_list_keeps[where g = now_set]
      feed_list_keeps[where g = signals]
      feed_list_keeps[where g = childs]
      feed_list_keeps[where g = fs_2625]
      feed_list_keeps[where g = fs_hash]
      feed_list_keeps[where g = vec_ri]
      feed_list_keeps[where g = vec_wi]
      feed_list_keeps[where g = vec_max]
      feed_list_keeps[where g = polls]
      feed_list_keeps[where g = pollmax]
      feed_list_keeps[where g = pollcnt]
      feed_list_keeps[where g = pollidxs]
      feed_list_keeps[where g = pollidxmax]
      feed_list_keeps[where g = epoll_eventmax]
      feed_list_keeps[where g = epoll_eperms]
      feed_list_keeps[where g = epoll_epermcnt]
      feed_list_keeps[where g = epoll_epermmax]
      feed_list_keeps[where g = epoll_have_pwait2]
      feed_list_keeps[where g = kqueue_fd_pid]
      feed_list_keeps[where g = kqueue_changes]
      feed_list_keeps[where g = kqueue_changemax]
      feed_list_keeps[where g = kqueue_changecnt]
      feed_list_keeps[where g = kqueue_eventmax]
      feed_list_keeps[where g = port_eventmax], (rule feed_fields | simp))+

lemma feed_list_w_fields [simp]:
  "w_cb (ws (feed_list vs r L) v) = w_cb (ws L v)"
  "w_repeat (ws (feed_list vs r L) v) = w_repeat (ws L v)"
  "w_offset (ws (feed_list vs r L) v) = w_offset (ws L v)"
  "w_interval (ws (feed_list vs r L) v) = w_interval (ws L v)"
  "w_reschedule (ws (feed_list vs r L) v) = w_reschedule (ws L v)"
  "w_fd (ws (feed_list vs r L) v) = w_fd (ws L v)"
  "w_events (ws (feed_list vs r L) v) = w_events (ws L v)"
  "w_signum (ws (feed_list vs r L) v) = w_signum (ws L v)"
  "w_flags (ws (feed_list vs r L) v) = w_flags (ws L v)"
  "w_pid (ws (feed_list vs r L) v) = w_pid (ws L v)"
  "w_rpid (ws (feed_list vs r L) v) = w_rpid (ws L v)"
  "w_rstatus (ws (feed_list vs r L) v) = w_rstatus (ws L v)"
  "w_sent (ws (feed_list vs r L) v) = w_sent (ws L v)"
  "w_path (ws (feed_list vs r L) v) = w_path (ws L v)"
  "w_prev (ws (feed_list vs r L) v) = w_prev (ws L v)"
  "w_attr (ws (feed_list vs r L) v) = w_attr (ws L v)"
  "w_wd (ws (feed_list vs r L) v) = w_wd (ws L v)"
  by (induction vs arbitrary: L) simp_all

lemma feed_list_other: "v \<notin> set vs \<Longrightarrow> ws (feed_list vs r L) v = ws L v"
  by (induction vs arbitrary: L) (simp_all add: feed_other)

lemma or_twice [simp]: "((e :: u32) OR r) OR r = e OR r"
  by (simp add: or.assoc)

lemma feed_list_all:
  assumes "pend_inv L" "\<forall>w \<in> set vs. pri_valid (ws L w) \<and> w \<noteq> PendingW"
  shows "pend_inv (feed_list vs r L) \<and> ok (feed_list vs r L) = ok L \<and>
    (\<forall>w. pend_of (feed_list vs r L) w =
      (if w \<in> set vs then Some (case pend_of L w of None \<Rightarrow> r | Some e \<Rightarrow> e OR r) else pend_of L w))"
  using assms
proof (induction vs arbitrary: L)
  case (Cons v vs)
  let ?L = "ev_feed_event v r L"
  have I: "pend_inv ?L" using Cons.prems by (intro feed_inv) auto
  have o: "ok ?L = ok L" using Cons.prems by (intro feed_ok) auto
  have p: "pend_of ?L = (pend_of L)(v \<mapsto> (case pend_of L v of None \<Rightarrow> r | Some e \<Rightarrow> e OR r))"
    by (rule feed_pend_of[OF Cons.prems(1)])
  show ?case using Cons.IH[of ?L] I o p Cons.prems(2) by (auto split: option.splits)
qed auto

lemmas feed_list_inv = feed_list_all[THEN conjunct1]
lemmas feed_list_ok = feed_list_all[THEN conjunct2, THEN conjunct1]
lemmas feed_list_pend_of = feed_list_all[THEN conjunct2, THEN conjunct2, THEN spec]

subsection \<open>The order of invocation\<close>

definition pend_queue :: "'w ev_loop \<Rightarrow> nat \<Rightarrow> (W \<times> u32) list" where
  "pend_queue L pri = map (\<lambda>i. (ap_w (pendings L pri i), ap_events (pendings L pri i))) [0..<pendingcnt L pri]"

lemma pend_queue_length [simp]: "length (pend_queue L pri) = pendingcnt L pri"
  by (simp add: pend_queue_def)

lemma pend_queue_feed:
  "map fst (pend_queue (ev_feed_event w r L) pri) =
    map fst (pend_queue L pri) @ (if ABSPRI (ws L w) = pri \<and> pending (ws L w) = 0 then [w] else [])"
  by (auto simp: pend_queue_def ev_feed_event_def chk_def Let_def nth_append intro!: nth_equalityI)

lemma feed_pending_other: "v \<noteq> w \<Longrightarrow> pending (ws (ev_feed_event w r L) v) = pending (ws L v)"
  by (simp add: feed_other)

text \<open>Feeding a list appends the watchers not yet queued to the queue of their priority, in the order of the list.\<close>

lemma pend_queue_feed_list:
  assumes "distinct vs"
  shows "map fst (pend_queue (feed_list vs r L) pri) =
    map fst (pend_queue L pri) @ [v\<leftarrow>vs. ABSPRI (ws L v) = pri \<and> pending (ws L v) = 0]"
  using assms
proof (induction vs arbitrary: L)
  case (Cons w vs)
  let ?L = "ev_feed_event w r L"
  have "[v\<leftarrow>vs. ABSPRI (ws ?L v) = pri \<and> pending (ws ?L v) = 0] = [v\<leftarrow>vs. ABSPRI (ws L v) = pri \<and> pending (ws L v) = 0]"
  proof (rule filter_cong)
    fix v assume "v \<in> set vs"
    then have "v \<noteq> w" using Cons.prems by auto
    then show "(ABSPRI (ws ?L v) = pri \<and> pending (ws ?L v) = 0) = (ABSPRI (ws L v) = pri \<and> pending (ws L v) = 0)"
      by (simp add: feed_other)
  qed simp
  then show ?case using Cons.IH[of ?L] Cons.prems by (simp add: pend_queue_feed)
qed simp

definition invocations :: "'w ev_loop \<Rightarrow> nat \<Rightarrow> (W \<times> u32) list" where
  "invocations L n = concat (map (\<lambda>pri. rev (pend_queue L pri)) (rev [0..<n]))"

lemma invocations_Suc: "invocations L (Suc n) = rev (pend_queue L n) @ invocations L n"
  by (simp add: invocations_def)

lemma invocations_cong:
  assumes "pendings L' = pendings L" "\<And>pri. pri < n \<Longrightarrow> pendingcnt L' pri = pendingcnt L pri"
  shows "invocations L' n = invocations L n"
  using assms by (auto simp: invocations_def pend_queue_def intro!: arg_cong[where f = concat])

abbreviation log_cb :: "(W \<Rightarrow> u32 \<Rightarrow> 'w \<Rightarrow> 'w) \<Rightarrow> W \<Rightarrow> u32 \<Rightarrow> 'w ev_loop \<Rightarrow> 'w ev_loop option" where
  "log_cb f \<equiv> \<lambda>w r L. Some (L\<lparr>os := f w r (os L)\<rparr>)"

lemma invoke_drains:
  "\<exists>L1. invoke_loop (log_cb f) L = invoke_loop (log_cb f) L1 \<and> pendingpri L1 = pendingpri L \<and>
    pendingcnt L1 = (pendingcnt L)(pendingpri L := 0) \<and> pendings L1 = pendings L \<and>
    os L1 = fold (\<lambda>(w, r). f w r) (rev (pend_queue L (pendingpri L))) (os L)"
proof (induction "pendingcnt L (pendingpri L)" arbitrary: L)
  case 0
  then show ?case by (intro exI[of _ L]) (auto simp: pend_queue_def)
next
  case (Suc n)
  let ?p = "pendingpri L" let ?e = "pendings L ?p n"
  let ?L = "(snd (pop_pending L))\<lparr>os := f (ap_w ?e) (ap_events ?e) (os L)\<rparr>"
  have c: "pendingcnt L ?p = Suc n" using Suc.hyps(2) by simp
  have s: "pendingpri ?L = ?p" "pendingcnt ?L = (pendingcnt L)(?p := n)" "pendings ?L = pendings L"
    "os ?L = f (ap_w ?e) (ap_events ?e) (os L)" "fst (pop_pending L) = ?e" "os (snd (pop_pending L)) = os L"
    using c by (simp_all add: pop_pending_def Let_def chk_def)
  have step: "invoke_loop (log_cb f) L = invoke_loop (log_cb f) ?L"
    using c s(5,6) by (subst invoke_loop.simps) simp
  obtain L1 where "invoke_loop (log_cb f) ?L = invoke_loop (log_cb f) L1" "pendingpri L1 = ?p"
    "pendingcnt L1 = (pendingcnt L)(?p := 0)" "pendings L1 = pendings L"
    "os L1 = fold (\<lambda>(w, r). f w r) (rev (pend_queue ?L ?p)) (os ?L)"
    using Suc.hyps(1)[of ?L] s by auto
  moreover have "rev (pend_queue L ?p) = (ap_w ?e, ap_events ?e) # rev (pend_queue ?L ?p)"
    using c s by (simp add: pend_queue_def)
  ultimately show ?case using step s by (intro exI[of _ L1]) simp
qed

lemma invoke_loop_logs:
  "\<exists>L'. invoke_loop (log_cb f) L = Some L' \<and>
    os L' = fold (\<lambda>(w, r). f w r) (invocations L (Suc (pendingpri L))) (os L) \<and>
    (\<forall>pri. pendingcnt L' pri = (if pri \<le> pendingpri L then 0 else pendingcnt L pri))"
proof (induction "pendingpri L" arbitrary: L)
  case 0
  obtain L1 where L1: "invoke_loop (log_cb f) L = invoke_loop (log_cb f) L1" "pendingpri L1 = 0"
    "pendingcnt L1 = (pendingcnt L)(0 := 0)" "pendings L1 = pendings L"
    "os L1 = fold (\<lambda>(w, r). f w r) (rev (pend_queue L 0)) (os L)"
    using invoke_drains[of f L] 0 by auto
  have "invoke_loop (log_cb f) L1 = Some L1" using L1 by (subst invoke_loop.simps) simp
  then show ?case using L1 0 by (simp add: invocations_Suc invocations_def)
next
  case (Suc p)
  obtain L1 where L1: "invoke_loop (log_cb f) L = invoke_loop (log_cb f) L1" "pendingpri L1 = Suc p"
    "pendingcnt L1 = (pendingcnt L)(Suc p := 0)" "pendings L1 = pendings L"
    "os L1 = fold (\<lambda>(w, r). f w r) (rev (pend_queue L (Suc p))) (os L)"
    using invoke_drains[of f L] Suc.hyps(2)[symmetric] by auto
  let ?L = "L1\<lparr>pendingpri := p\<rparr>"
  have step: "invoke_loop (log_cb f) L1 = invoke_loop (log_cb f) ?L"
    using L1 by (subst invoke_loop.simps) simp
  have inv: "invocations ?L (Suc p) = invocations L (Suc p)"
    by (rule invocations_cong) (use L1 in auto)
  obtain L' where "invoke_loop (log_cb f) ?L = Some L'"
    "os L' = fold (\<lambda>(w, r). f w r) (invocations ?L (Suc p)) (os L1)"
    "\<forall>pri. pendingcnt L' pri = (if pri \<le> p then 0 else pendingcnt L1 pri)"
    using Suc.hyps(1)[of ?L] by auto
  then show ?case using L1 step inv Suc.hyps(2)[symmetric]
    by (intro exI[of _ L']) (auto simp: invocations_Suc[of L "Suc p"])
qed

text \<open>The entries other than the dummy's are the pending map, each once.\<close>

lemma pend_queue_fst: "fst (pend_queue L pri ! i) = ap_w (pendings L pri i)" if "i < pendingcnt L pri"
  using that by (simp add: pend_queue_def)

lemma invocations_set:
  assumes "pend_inv L" "w \<noteq> PendingW"
  shows "(w, e) \<in> set (invocations L NUMPRI) \<longleftrightarrow> pend_of L w = Some e"
proof
  assume "(w, e) \<in> set (invocations L NUMPRI)"
  then obtain pri i where p: "pri < NUMPRI" "i < pendingcnt L pri" "w = ap_w (pendings L pri i)" "e = ap_events (pendings L pri i)"
    by (auto simp: invocations_def pend_queue_def)
  then have "pending (ws L w) = Suc i" "ABSPRI (ws L w) = pri"
    using pend_invD(2)[OF assms(1) p(1,2)] assms(2) by (auto simp: pend_entry_ok_def Let_def)
  then show "pend_of L w = Some e" using p(4) by (simp add: pend_of_def)
next
  assume "pend_of L w = Some e"
  then have n: "pending (ws L w) \<noteq> 0" and e: "e = ap_events (pendings L (ABSPRI (ws L w)) (pending (ws L w) - 1))"
    by (auto simp: pend_of_def split: if_splits)
  note q = pend_pending[OF assms(1) n]
  have "(w, e) \<in> set (pend_queue L (ABSPRI (ws L w)))"
    unfolding pend_queue_def using q(4,6) e by force
  then show "(w, e) \<in> set (invocations L NUMPRI)" using q(2) by (auto simp: invocations_def)
qed

lemma distinct_filter_rev_append:
  assumes "distinct (filter P (map f xs))" "distinct (filter P (map f ys))" "{x \<in> f ` set xs. P x} \<inter> {x \<in> f ` set ys. P x} = {}"
  shows "distinct (filter P (map f (rev xs @ ys)))"
proof -
  have "filter P (map f (rev xs @ ys)) = rev (filter P (map f xs)) @ filter P (map f ys)"
    by (simp only: map_append filter_append rev_map[symmetric] rev_filter[symmetric])
  moreover have "set (rev (filter P (map f xs))) \<inter> set (filter P (map f ys)) = {}"
    using assms(3) by (simp only: set_rev set_filter set_map)
  ultimately show ?thesis using assms(1,2) by (simp only: distinct_append distinct_rev)
qed

lemma distinct_filter_map:
  assumes "\<And>i j. i < n \<Longrightarrow> j < n \<Longrightarrow> g i = g j \<Longrightarrow> P (g i) \<Longrightarrow> i = j"
  shows "distinct (filter P (map g [0..<n]))"
proof -
  have "filter P (map g [0..<n]) = map g (filter (P \<circ> g) [0..<n])" by (simp add: filter_map)
  moreover have "inj_on g (set (filter (P \<circ> g) [0..<n]))" using assms by (auto intro!: inj_onI)
  ultimately show ?thesis by (simp add: distinct_map)
qed

text \<open>Each watcher is invoked at most once.\<close>

lemma invocations_distinct:
  assumes "pend_inv L"
  shows "distinct (filter (\<lambda>w. w \<noteq> PendingW) (map fst (invocations L NUMPRI)))"
proof -
  have "distinct (filter (\<lambda>w. w \<noteq> PendingW) (map fst (invocations L n))) \<and>
    (\<forall>w \<in> fst ` set (invocations L n). w \<noteq> PendingW \<longrightarrow> ABSPRI (ws L w) < n)" if "n \<le> NUMPRI" for n
    using that
  proof (induction n)
    case (Suc n)
    have e: "pend_entry_ok L n i" if "i < pendingcnt L n" for i
      using pend_invD(2)[OF assms _ that] Suc.prems by simp
    have d: "distinct (filter (\<lambda>w. w \<noteq> PendingW) (map fst (pend_queue L n)))"
      unfolding pend_queue_def map_map comp_def fst_conv
    proof (rule distinct_filter_map)
      fix i j assume ij: "i < pendingcnt L n" "j < pendingcnt L n" "ap_w (pendings L n i) = ap_w (pendings L n j)" "ap_w (pendings L n i) \<noteq> PendingW"
      then show "i = j" using e[OF ij(1)] e[OF ij(2)] by (simp add: pend_entry_ok_def Let_def)
    qed
    have a: "ABSPRI (ws L w) = n" if "w \<in> fst ` set (pend_queue L n)" "w \<noteq> PendingW" for w
      using that e by (force simp: pend_queue_def pend_entry_ok_def Let_def)
    have "{x \<in> fst ` set (pend_queue L n). x \<noteq> PendingW} \<inter> {x \<in> fst ` set (invocations L n). x \<noteq> PendingW} = {}"
    proof (rule equals0I)
      fix x assume "x \<in> {x \<in> fst ` set (pend_queue L n). x \<noteq> PendingW} \<inter> {x \<in> fst ` set (invocations L n). x \<noteq> PendingW}"
      then show False using a[of x] Suc by auto
    qed
    then have "distinct (filter (\<lambda>w. w \<noteq> PendingW) (map fst (invocations L (Suc n))))"
      unfolding invocations_Suc using Suc by (intro distinct_filter_rev_append[OF d]) simp_all
    moreover have "\<forall>w \<in> fst ` set (invocations L (Suc n)). w \<noteq> PendingW \<longrightarrow> ABSPRI (ws L w) < Suc n"
    proof (intro ballI impI)
      fix w assume w: "w \<in> fst ` set (invocations L (Suc n))" "w \<noteq> PendingW"
      then consider "w \<in> fst ` set (pend_queue L n)" | "w \<in> fst ` set (invocations L n)" by (auto simp: invocations_Suc)
      then show "ABSPRI (ws L w) < Suc n" using a[OF _ w(2)] Suc w(2) by cases auto
    qed
    ultimately show ?case ..
  qed (simp add: invocations_def)
  then show ?thesis by blast
qed

text \<open>
  C8: \<^verbatim>\<open>ev_invoke_pending\<close>, for callbacks that leave the loop alone (what a callback \<open>f\<close> does to the world outside the
  loop is arbitrary), returns; the callbacks run from the highest priority down and within one priority the event
  queued last first; each watcher that has an entry in the pending map is invoked with the accumulated events, nothing else
  is invoked but the dummy (whose entries stopped watchers leave behind), and every queue is empty afterwards. Callbacks
  that start, stop or feed watchers are the subject of the re-entrant property of the interface.
\<close>

theorem ev_invoke_pending_order:
  assumes "pend_inv L"
  shows "\<exists>L'. ev_invoke_pending (log_cb f) L = Some L' \<and>
    os L' = fold (\<lambda>(w, e). f w e) (concat (map (\<lambda>pri. rev (pend_queue L pri)) [4, 3, 2, 1, 0])) (os L) \<and>
    distinct (filter (\<lambda>w. w \<noteq> PendingW) (map fst (concat (map (\<lambda>pri. rev (pend_queue L pri)) [4, 3, 2, 1, 0])))) \<and>
    (\<forall>w e. w \<noteq> PendingW \<longrightarrow>
      ((w, e) \<in> set (concat (map (\<lambda>pri. rev (pend_queue L pri)) [4, 3, 2, 1, 0])) \<longleftrightarrow> pend_of L w = Some e)) \<and>
    no_pending L'"
proof -
  have five: "concat (map (\<lambda>pri. rev (pend_queue L pri)) [4, 3, 2, 1, 0]) = invocations L NUMPRI"
  proof -
    have "rev [0..<NUMPRI] = [4, 3, 2, 1, 0]" by (simp add: upt_rec)
    then show ?thesis unfolding invocations_def by (simp only:)
  qed
  let ?L = "L\<lparr>pendingpri := NUMPRI - 1\<rparr>"
  have inv: "invocations ?L NUMPRI = invocations L NUMPRI" by (rule invocations_cong) auto
  obtain L' where L': "invoke_loop (log_cb f) ?L = Some L'"
    "os L' = fold (\<lambda>(w, r). f w r) (invocations ?L (Suc 4)) (os L)"
    "\<forall>pri. pendingcnt L' pri = (if pri \<le> 4 then 0 else pendingcnt L pri)"
    using invoke_loop_logs[of f ?L] by auto
  have "no_pending L'" using L'(3) by (simp add: no_pending_def)
  then show ?thesis unfolding five using L'(1,2) inv invocations_set[OF assms] invocations_distinct[OF assms]
    by (auto simp: ev_invoke_pending_def)
qed

lemma pend_inv_zero [simp]: "pend_inv (loop_zero s)"
  by (simp add: pend_inv_def loop_zero_def pend_w_ok_def w_zero_def)

lemma pri_valid_zero [simp]: "pri_valid w_zero"
  by (simp add: pri_valid_def w_zero_def)

lemma loop_zero_ws [simp]: "ws (loop_zero s) = (\<lambda>_. w_zero)" "ok (loop_zero s)"
  by (simp_all add: loop_zero_def)

definition ex_fed :: "(W \<times> u32) list ev_loop" where
  "ex_fed = ev_feed_event (TimerW 7) EV_TIMER (loop_zero [])"

theorem ev_invoke_pending_order_witness:
  "\<exists>L'. ev_invoke_pending (log_cb (\<lambda>w r l. l @ [(w, r)])) ex_fed = Some L' \<and> os L' = [(TimerW 7, EV_TIMER)] \<and> no_pending L'"
proof -
  have I: "pend_inv ex_fed" by (simp add: ex_fed_def feed_inv)
  have q: "concat (map (\<lambda>pri. rev (pend_queue ex_fed pri)) [4, 3, 2, 1, 0]) = [(TimerW 7, EV_TIMER)]" "os ex_fed = []"
    by (simp_all add: ex_fed_def ev_feed_event_def chk_def Let_def pend_queue_def loop_zero_def w_zero_def ABSPRI_def)
  show ?thesis using ev_invoke_pending_order[OF I, of "\<lambda>w r l. l @ [(w, r)]"] unfolding q by auto
qed

text \<open>
  C9: feeding an event to a watcher updates exactly its entry of the pending map: the
  event is new, or or-ed into what already waits. The queue invariant (the assertions of
  \<^verbatim>\<open>verify_watcher\<close>, the capacities) is kept and every array access is in bounds.
\<close>

theorem ev_feed_event_spec:
  assumes "pend_inv L" "pri_valid (ws L w)" "w \<noteq> PendingW"
  shows "pend_inv (ev_feed_event w r L) \<and> ok (ev_feed_event w r L) = ok L \<and>
    pend_of (ev_feed_event w r L) = (pend_of L)(w \<mapsto> (case pend_of L w of None \<Rightarrow> r | Some e \<Rightarrow> e OR r))"
  using feed_inv[OF assms] feed_ok[OF assms(1,2)] feed_pend_of[OF assms(1)] by blast

theorem ev_feed_event_spec_witness:
  "pend_inv (ev_feed_event (IoW 3) EV_READ (loop_zero ())) \<and>
    ok (ev_feed_event (IoW 3) EV_READ (loop_zero ())) = ok (loop_zero ()) \<and>
    pend_of (ev_feed_event (IoW 3) EV_READ (loop_zero ())) =
      (pend_of (loop_zero ()))(IoW 3 \<mapsto> (case pend_of (loop_zero ()) (IoW 3) of None \<Rightarrow> EV_READ | Some e \<Rightarrow> e OR EV_READ))"
  by (rule ev_feed_event_spec) simp_all

text \<open>
  \<^verbatim>\<open>ev_clear_pending\<close> returns the events that waited for the watcher (0 for none) and
  removes exactly it from the pending map; it and the internal \<^verbatim>\<open>clear_pending\<close> make the
  same change, keep the queue invariant and stay in bounds. Nothing that waits for another
  watcher is lost.
\<close>

theorem ev_clear_pending_spec:
  assumes "pend_inv L"
  shows "case ev_clear_pending w L of (e, L') \<Rightarrow>
    L' = clear_pending w L \<and> e = (case pend_of L w of None \<Rightarrow> 0 | Some e \<Rightarrow> e) \<and>
    pend_of L' = (pend_of L)(w := None) \<and> pend_inv L' \<and> ok L' = ok L"
  using clear_inv[OF assms, of w] clear_ok[OF assms, of w] clear_pend_of[OF assms, of w] by (simp add: clear_eq)

theorem ev_clear_pending_spec_witness:
  "case ev_clear_pending (IoW 3) (loop_zero ()) of (e, L') \<Rightarrow>
    L' = clear_pending (IoW 3) (loop_zero ()) \<and> e = (case pend_of (loop_zero ()) (IoW 3) of None \<Rightarrow> 0 | Some e \<Rightarrow> e) \<and>
    pend_of L' = (pend_of (loop_zero ()))(IoW 3 := None) \<and> pend_inv L' \<and> ok L' = ok (loop_zero ())"
  by (rule ev_clear_pending_spec) simp

end
