(* ===== verification/Timed.thy ===== *)
theory Timed
  imports Pending
begin

section \<open>Heaps of active watchers\<close>

text \<open>
  What the timer heap and the periodic heap have in common: a heap that holds exactly
  the active watchers of one kind. The lemmas are about the three changes the code
  makes to such a heap -- append and \<^verbatim>\<open>upheap\<close>, overwrite by the last entry and
  \<^verbatim>\<open>adjustheap\<close>, change a deadline and \<^verbatim>\<open>adjustheap\<close> or \<^verbatim>\<open>downheap\<close> -- and what they
  do to the map from active watchers to deadlines.
\<close>

definition theap :: "wkind \<Rightarrow> heap \<Rightarrow> nat \<Rightarrow> nat \<Rightarrow> wstore \<Rightarrow> bool" where
  "theap K h mx N s \<longleftrightarrow>
     heap_ok HEAP0 HPARENT h s N \<and> (N \<noteq> 0 \<longrightarrow> N + HEAP0 \<le> mx) \<and>
     (\<forall>v. kind v = K \<and> active (s v) \<noteq> 0 \<longleftrightarrow> v \<in> heap_watchers HEAP0 h N)"

text \<open>The abstract view: which watchers of the kind are active, and their deadlines.\<close>

definition deadlines :: "wkind \<Rightarrow> wstore \<Rightarrow> W \<Rightarrow> ev_tstamp option" where
  "deadlines K s v = (if kind v = K \<and> active (s v) \<noteq> 0 then Some (w_at (s v)) else None)"

lemma theapI:
  assumes "heap_ok HEAP0 HPARENT h s N" "N \<noteq> 0 \<Longrightarrow> N + HEAP0 \<le> mx"
    "\<And>v. v \<in> heap_watchers HEAP0 h N \<Longrightarrow> kind v = K"
    "\<And>v. kind v = K \<Longrightarrow> v \<notin> heap_watchers HEAP0 h N \<Longrightarrow> active (s v) = 0"
  shows "theap K h mx N s"
proof -
  have "active (s v) \<noteq> 0" if "v \<in> heap_watchers HEAP0 h N" for v
    using assms(1) that by (auto simp: heap_ok_def heap_indexed_def heap_watchers_def)
  then have "kind v = K \<and> active (s v) \<noteq> 0 \<longleftrightarrow> v \<in> heap_watchers HEAP0 h N" for v
    using assms(3,4)[of v] by (cases "v \<in> heap_watchers HEAP0 h N") auto
  then show ?thesis using assms(1,2) by (simp add: theap_def)
qed

lemma theapD:
  assumes "theap K h mx N s"
  shows "heap_ok HEAP0 HPARENT h s N" "N \<noteq> 0 \<Longrightarrow> N + HEAP0 \<le> mx"
    "v \<in> heap_watchers HEAP0 h N \<Longrightarrow> kind v = K" "v \<in> heap_watchers HEAP0 h N \<Longrightarrow> active (s v) \<noteq> 0"
    "kind v = K \<Longrightarrow> active (s v) \<noteq> 0 \<Longrightarrow> v \<in> heap_watchers HEAP0 h N"
  using assms unfolding theap_def by blast+

lemma theap_index:
  assumes "theap K h mx N s" "kind v = K" "active (s v) \<noteq> 0"
  shows "HEAP0 \<le> active (s v)" "active (s v) < N + HEAP0" "he_w (h (active (s v))) = v"
    "he_at (h (active (s v))) = w_at (s v)" "active (s v) < mx" "N \<noteq> 0"
proof -
  obtain i where i: "HEAP0 \<le> i" "i < N + HEAP0" "v = he_w (h i)"
    using theapD(5)[OF assms] by (auto simp: heap_watchers_def)
  then have a: "active (s v) = i" "he_at (h i) = w_at (s v)"
    using theapD(1)[OF assms(1)] by (auto simp: heap_ok_def heap_indexed_def heap_cached_def)
  show "HEAP0 \<le> active (s v)" "active (s v) < N + HEAP0" "he_w (h (active (s v))) = v"
    "he_at (h (active (s v))) = w_at (s v)" "N \<noteq> 0" using i a by auto
  then show "active (s v) < mx" using theapD(2)[OF assms(1)] by simp
qed

lemma theap_at:
  assumes "theap K h mx N s" "HEAP0 \<le> i" "i < N + HEAP0"
  shows "kind (he_w (h i)) = K" "active (s (he_w (h i))) = i" "w_at (s (he_w (h i))) = he_at (h i)"
  using assms theapD(1,3)[OF assms(1)]
  by (auto simp: heap_ok_def heap_indexed_def heap_cached_def heap_watchers_def)

lemma theap_deadlines:
  "theap K h mx N s \<Longrightarrow> deadlines K s v = (if v \<in> heap_watchers HEAP0 h N then Some (w_at (s v)) else None)"
  unfolding theap_def deadlines_def by auto

text \<open>A heap depends on nothing but the \<^verbatim>\<open>active\<close> and \<^verbatim>\<open>at\<close> members of its kind.\<close>

lemma heap_ok_cong:
  assumes "\<And>i. h0 \<le> i \<Longrightarrow> i < N + h0 \<Longrightarrow> h' i = h i"
    "\<And>i. h0 \<le> i \<Longrightarrow> i < N + h0 \<Longrightarrow> active (s' (he_w (h i))) = active (s (he_w (h i)))"
    "\<And>i. h0 \<le> i \<Longrightarrow> i < N + h0 \<Longrightarrow> w_at (s' (he_w (h i))) = w_at (s (he_w (h i)))"
    "\<And>i. h0 < i \<Longrightarrow> h0 \<le> par i \<and> par i < i" "heap_ok h0 par h s N"
  shows "heap_ok h0 par h' s' N"
proof -
  have "h' (par i) = h (par i)" if "h0 < i" "i < N + h0" for i
    using assms(1)[of "par i"] assms(4)[OF that(1)] that(2) by simp
  then have "heap_ordered h0 par h' N" using assms(5) assms(1) by (simp add: heap_ok_def heap_ordered_def)
  moreover have "heap_indexed h0 h' s' N" using assms(5) assms(1)
    by (simp add: heap_ok_def heap_indexed_def assms(2))
  moreover have "heap_cached h0 h' s' N" using assms(5) assms(1)
    by (simp add: heap_ok_def heap_cached_def assms(3))
  ultimately show ?thesis by (simp add: heap_ok_def)
qed

lemma HPARENT_range: "HEAP0 < i \<Longrightarrow> HEAP0 \<le> HPARENT i \<and> HPARENT i < i"
  using HPARENT_lt HPARENT_ge by blast

lemma theap_cong:
  assumes "\<And>v. kind v = K \<Longrightarrow> active (s' v) = active (s v) \<and> w_at (s' v) = w_at (s v)" "theap K h mx N s"
  shows "theap K h mx N s'"
proof -
  have "heap_ok HEAP0 HPARENT h s' N"
    by (rule heap_ok_cong[OF _ _ _ HPARENT_range theapD(1)[OF assms(2)]])
       (use assms(1) theap_at(1)[OF assms(2)] in auto)
  then show ?thesis using theapD[OF assms(2)] assms(1) by (intro theapI) auto
qed

lemma theap_upd_inactive:
  assumes H: "theap K h mx N s" and "active (s w) = 0" "active x = 0"
  shows "theap K h mx N (s(w := x))"
proof (rule theapI)
  have "w \<notin> heap_watchers HEAP0 h N" using theapD(4)[OF H] assms(2) by blast
  then have "he_w (h i) \<noteq> w" if "HEAP0 \<le> i" "i < N + HEAP0" for i
    using that by (auto simp: heap_watchers_def)
  then show "heap_ok HEAP0 HPARENT h (s(w := x)) N"
    by (intro heap_ok_cong[OF _ _ _ HPARENT_range theapD(1)[OF H]]) auto
  show "active ((s(w := x)) v) = 0" if "kind v = K" "v \<notin> heap_watchers HEAP0 h N" for v
    using theapD(5)[OF H that(1)] that(2) assms(3) by auto
qed (use theapD(2,3)[OF H] in auto)

lemma heap_watchers_Suc: "heap_watchers h0 h (Suc N) = insert (he_w (h (N + h0))) (heap_watchers h0 h N)"
  by (auto simp: heap_watchers_def atLeastLessThanSuc)

lemma heap_watchers_upd: "N + h0 \<le> i \<Longrightarrow> heap_watchers h0 (h(i := e)) N = heap_watchers h0 h N"
  by (auto simp: heap_watchers_def intro!: image_cong)

subsection \<open>Insertion\<close>

lemma theap_insert:
  assumes H: "theap K h mx N s" and w: "kind w = K" "active (s w) = 0"
    and s1': "\<forall>v. v \<noteq> w \<longrightarrow> active (s1 v) = active (s v)" "\<forall>v. v \<noteq> w \<longrightarrow> w_at (s1 v) = w_at (s v)"
    and mx: "Suc N + HEAP0 \<le> mx'"
  defines "h1 \<equiv> h(N + HEAP0 := \<lparr>he_at = w_at (s1 w), he_w = w\<rparr>)"
  defines "r \<equiv> upheap h1 s1 (N + HEAP0)"
  shows "theap K (fst r) mx' (Suc N) (snd r)" "same_but_active s1 (snd r)"
    "kind v \<noteq> K \<Longrightarrow> snd r v = s1 v" "deadlines K (snd r) = (deadlines K s)(w \<mapsto> w_at (s1 w))"
proof -
  let ?k = "N + HEAP0"
  note s1 = s1'[rule_format]
  have new: "w \<notin> heap_watchers HEAP0 h N" using theapD(4)[OF H] w by blast
  have ne: "he_w (h i) \<noteq> w" if "HEAP0 \<le> i" "i < ?k" for i
    using new that by (auto simp: heap_watchers_def)
  have "heap_ok HEAP0 HPARENT h1 s1 N"
    by (rule heap_ok_cong[OF _ _ _ HPARENT_range theapD(1)[OF H]]) (use s1 ne in \<open>auto simp: h1_def\<close>)
  then have ok: "heap_ok HEAP0 HPARENT (fst r) (snd r) (Suc N)"
    unfolding r_def upheap_def
    by (rule h4.up_append_ok) (use new in \<open>simp_all add: h1_def heap_watchers_upd\<close>)
  have p: "heap_perm HEAP0 (Suc N) h1 s1 (fst r) (snd r)"
    using h4.up_perm[of ?k "Suc N" h1 "h1 ?k" s1] by (simp add: r_def upheap_def)
  have W: "heap_watchers HEAP0 (fst r) (Suc N) = insert w (heap_watchers HEAP0 h N)"
    using heap_perm_watchers[OF p] heap_watchers_Suc[of HEAP0 h1 N] by (simp add: h1_def heap_watchers_upd)
  have out: "snd r v = s1 v" if "v \<notin> insert w (heap_watchers HEAP0 h N)" for v
    using p that unfolding W[symmetric] heap_perm_watchers[OF p] by (simp add: heap_perm_def)
  show "same_but_active s1 (snd r)" using p by (simp add: heap_perm_def)
  show "kind v \<noteq> K \<Longrightarrow> snd r v = s1 v" using out[of v] theapD(3)[OF H, of v] w(1) by auto
  show H': "theap K (fst r) mx' (Suc N) (snd r)"
  proof (rule theapI[OF ok])
    show "kind v = K" if "v \<in> heap_watchers HEAP0 (fst r) (Suc N)" for v
      using that theapD(3)[OF H] w(1) unfolding W by blast
    show "active (snd r v) = 0" if "kind v = K" "v \<notin> heap_watchers HEAP0 (fst r) (Suc N)" for v
      using out[of v] that s1(1)[of v] theapD(5)[OF H that(1)] unfolding W by auto
  qed (use mx in simp)
  show "deadlines K (snd r) = (deadlines K s)(w \<mapsto> w_at (s1 w))"
  proof
    fix v
    have "w_at (snd r v) = w_at (s1 v)" using p by (simp add: heap_perm_def same_but_activeD)
    then show "deadlines K (snd r) v = ((deadlines K s)(w \<mapsto> w_at (s1 w))) v"
      using s1(2)[of v] by (auto simp: theap_deadlines[OF H'] theap_deadlines[OF H] W)
  qed
qed

subsection \<open>Removal\<close>

text \<open>The entry at the watcher's index is overwritten by the last one unless it is the last.\<close>

definition heap_drop :: "heap \<Rightarrow> wstore \<Rightarrow> nat \<Rightarrow> nat \<Rightarrow> heap \<times> wstore" where
  "heap_drop h s N k =
     (if k < N + HEAP0 then adjustheap (h(k := h (N + HEAP0))) s N k else (h, s))"

lemma theap_remove:
  assumes H: "theap K h mx (Suc N) s" and w: "kind w = K" "active (s w) \<noteq> 0"
  defines "r \<equiv> heap_drop h s N (active (s w))"
  assumes s2': "\<forall>v. v \<noteq> w \<longrightarrow> active (s2 v) = active (snd r v)" "\<forall>v. v \<noteq> w \<longrightarrow> w_at (s2 v) = w_at (snd r v)"
    "active (s2 w) = 0"
  shows "theap K (fst r) mx N s2" "same_but_active s (snd r)" "kind v \<noteq> K \<Longrightarrow> snd r v = s v" "snd r w = s w"
    "deadlines K s2 = (deadlines K s)(w := None)"
proof -
  note s2 = s2'(1,2)[rule_format] s2'(3)
  let ?k = "active (s w)" and ?l = "N + HEAP0" let ?h = "h(?k := h ?l)"
  note k = theap_index[OF H w]
  note ok = theapD(1)[OF H]
  have inj: "inj_on (\<lambda>i. he_w (h i)) {HEAP0..<Suc N + HEAP0}"
    by (rule heap_indexed_inj[of _ _ s]) (use ok in \<open>simp add: heap_ok_def\<close>)
  have ne: "he_w (h i) \<noteq> w" if "HEAP0 \<le> i" "i < Suc N + HEAP0" "i \<noteq> ?k" for i
    using inj_onD[OF inj, of i ?k] that k by auto
  have "heap_watchers HEAP0 h (Suc N) = insert w (heap_watchers HEAP0 (fst r) N)
      \<and> w \<notin> heap_watchers HEAP0 (fst r) N \<and> heap_ok HEAP0 HPARENT (fst r) (snd r) N
      \<and> same_but_active s (snd r) \<and> (\<forall>v. v \<notin> heap_watchers HEAP0 (fst r) N \<longrightarrow> snd r v = s v)"
  proof (cases "?k < ?l")
    case False
    then have "?k = ?l" "r = (h, s)" using k by (auto simp: r_def heap_drop_def)
    moreover have "heap_ok HEAP0 HPARENT h s N" using ok
      by (auto simp: heap_ok_def heap_ordered_def heap_indexed_def heap_cached_def)
    moreover have "w \<notin> heap_watchers HEAP0 h N" using ne \<open>?k = ?l\<close> by (force simp: heap_watchers_def)
    ultimately show ?thesis using k(3) heap_watchers_Suc[of HEAP0 h N] by simp
  next
    case True
    then have r: "r = adjustheap ?h s N ?k" by (simp add: r_def heap_drop_def)
    have p: "heap_perm HEAP0 N ?h s (fst r) (snd r)" unfolding r by (rule h4.adj_perm[OF k(1) True])
    have "he_w (?h i) \<noteq> w" if "HEAP0 \<le> i" "i < ?l" for i using ne[of i] ne[of ?l] that True by auto
    then have notin: "w \<notin> heap_watchers HEAP0 ?h N"
      unfolding heap_watchers_def by (metis (no_types, lifting) atLeastLessThan_iff imageE)
    have "heap_watchers HEAP0 h (Suc N) = insert w (heap_watchers HEAP0 ?h N)"
      using h4.remove_ok(2)[OF ok k(1) True] p k(3)
      by (simp only: heap_watchers_slice r[symmetric] heap_perm_def) simp
    then show ?thesis using p notin heap_perm_watchers[OF p] h4.remove_ok(1)[OF ok k(1) True]
      unfolding r[symmetric] by (simp add: heap_perm_def)
  qed
  then have W: "heap_watchers HEAP0 h (Suc N) = insert w (heap_watchers HEAP0 (fst r) N)"
    and nw: "w \<notin> heap_watchers HEAP0 (fst r) N" and okr: "heap_ok HEAP0 HPARENT (fst r) (snd r) N"
    and sb: "same_but_active s (snd r)" and out: "\<And>v. v \<notin> heap_watchers HEAP0 (fst r) N \<Longrightarrow> snd r v = s v"
    by auto
  show "same_but_active s (snd r)" by (rule sb)
  show "kind v \<noteq> K \<Longrightarrow> snd r v = s v" using out[of v] theapD(3)[OF H, of v] W by auto
  show "snd r w = s w" by (rule out[OF nw])
  show H': "theap K (fst r) mx N s2"
  proof (rule theapI)
    have "he_w (fst r i) \<noteq> w" if "HEAP0 \<le> i" "i < N + HEAP0" for i using nw that by (auto simp: heap_watchers_def)
    then show "heap_ok HEAP0 HPARENT (fst r) s2 N"
      by (intro heap_ok_cong[OF _ _ _ HPARENT_range okr]) (use s2 in auto)
    show "N + HEAP0 \<le> mx" if "N \<noteq> 0" using theapD(2)[OF H] by simp
    show "kind v = K" if "v \<in> heap_watchers HEAP0 (fst r) N" for v using theapD(3)[OF H, of v] W that by simp
    show "active (s2 v) = 0" if "kind v = K" "v \<notin> heap_watchers HEAP0 (fst r) N" for v
    proof (cases "v = w")
      case False
      then have "v \<notin> heap_watchers HEAP0 h (Suc N)" using that(2) W by simp
      then have "active (s v) = 0" using theapD(5)[OF H that(1)] by auto
      then show ?thesis using s2(1)[OF False] out[OF that(2)] by simp
    qed (use s2(3) in simp)
  qed
  show "deadlines K s2 = (deadlines K s)(w := None)"
  proof
    fix v
    have "w_at (snd r v) = w_at (s v)" using sb by (rule same_but_activeD)
    then show "deadlines K s2 v = ((deadlines K s)(w := None)) v"
      using s2(2)[of v] nw by (simp add: theap_deadlines[OF H'] theap_deadlines[OF H] W)
  qed
qed

subsection \<open>Change of a deadline\<close>

lemma theap_update:
  assumes H: "theap K h mx N s" and w: "kind w = K" "active (s w) \<noteq> 0"
    and s1': "\<forall>v. active (s1 v) = active (s v)" "\<forall>v. v \<noteq> w \<longrightarrow> w_at (s1 v) = w_at (s v)"
  defines "h1 \<equiv> h(active (s w) := \<lparr>he_at = w_at (s1 w), he_w = w\<rparr>)"
  defines "r \<equiv> adjustheap h1 s1 N (active (s w))"
  shows "theap K (fst r) mx N (snd r)" "same_but_active s1 (snd r)" "kind v \<noteq> K \<Longrightarrow> snd r v = s1 v"
    "slice_mset (fst r) HEAP0 (N + HEAP0) = slice_mset h1 HEAP0 (N + HEAP0)"
    "deadlines K (snd r) = (deadlines K s)(w \<mapsto> w_at (s1 w))"
proof -
  let ?k = "active (s w)"
  note s1 = s1'[rule_format]
  note k = theap_index[OF H w] and ok = theapD(1)[OF H]
  have idx: "heap_indexed HEAP0 h s N" "heap_cached HEAP0 h s N" "heap_ordered HEAP0 HPARENT h N"
    using ok by (auto simp: heap_ok_def)
  have hw: "he_w (h1 i) = he_w (h i)" for i using k(3) by (simp add: h1_def)
  have inj: "inj_on (\<lambda>i. he_w (h1 i)) {HEAP0..<N + HEAP0}"
    unfolding hw by (rule heap_indexed_inj[OF idx(1)])
  have W1: "heap_watchers HEAP0 h1 N = heap_watchers HEAP0 h N" by (simp add: heap_watchers_def hw)
  have hole: "heap_hole HEAP0 HPARENT h1 N ?k"
    unfolding h1_def using heap_ordered_hole[OF HPARENT_lt idx(3)] heap_hole_upd[OF HPARENT_lt] by blast
  have at1: "active (s1 (he_w (h1 i))) = i" if "HEAP0 \<le> i" "i < N + HEAP0" for i
    using idx(1) that by (simp add: hw s1(1) heap_indexed_def)
  have "he_at (h1 i) = w_at (s1 (he_w (h1 i)))" if "HEAP0 \<le> i" "i < N + HEAP0" for i
  proof (cases "i = ?k")
    case False
    then have "he_w (h i) \<noteq> w" using at1[OF that] s1(1)[of w] hw[of i] by auto
    then show ?thesis using idx(2) that False by (simp add: hw s1(2) heap_cached_def) (simp add: h1_def)
  qed (simp add: h1_def)
  then have c: "heap_cached HEAP0 h1 s1 N" by (simp add: heap_cached_def)
  have okr: "heap_ok HEAP0 HPARENT (fst r) (snd r) N"
    unfolding r_def by (rule h4.adj_ok[OF k(1,2) hole inj at1 c])
  have p: "heap_perm HEAP0 N h1 s1 (fst r) (snd r)" unfolding r_def by (rule h4.adj_perm[OF k(1,2)])
  have W: "heap_watchers HEAP0 (fst r) N = heap_watchers HEAP0 h N" using heap_perm_watchers[OF p] W1 by simp
  have out: "snd r v = s1 v" if "v \<notin> heap_watchers HEAP0 h N" for v
    using p that W1 by (simp add: heap_perm_def)
  show "same_but_active s1 (snd r)" "slice_mset (fst r) HEAP0 (N + HEAP0) = slice_mset h1 HEAP0 (N + HEAP0)"
    using p by (simp_all add: heap_perm_def)
  show "kind v \<noteq> K \<Longrightarrow> snd r v = s1 v" using out[of v] theapD(3)[OF H, of v] by auto
  show H': "theap K (fst r) mx N (snd r)"
  proof (rule theapI[OF okr])
    show "active (snd r v) = 0" if "kind v = K" "v \<notin> heap_watchers HEAP0 (fst r) N" for v
      using out[of v] that theapD(5)[OF H that(1)] s1(1)[of v] W by auto
  qed (use theapD(2,3)[OF H] W in auto)
  show "deadlines K (snd r) = (deadlines K s)(w \<mapsto> w_at (s1 w))"
  proof
    fix v
    have "w_at (snd r v) = w_at (s1 v)" using p by (simp add: heap_perm_def same_but_activeD)
    then show "deadlines K (snd r) v = ((deadlines K s)(w \<mapsto> w_at (s1 w))) v"
      using s1(2)[of v] theapD(5)[OF H w] by (auto simp: theap_deadlines[OF H'] theap_deadlines[OF H] W)
  qed
qed

end
