(* ===== verification/Timers.thy ===== *)
theory Timers
  imports Timed
begin

section \<open>Relative timers\<close>

text \<open>
  \<^verbatim>\<open>ev_timer_start\<close>, \<^verbatim>\<open>ev_timer_stop\<close>, \<^verbatim>\<open>ev_timer_again\<close>, \<^verbatim>\<open>ev_timer_remaining\<close>,
  \<^verbatim>\<open>timers_reify\<close> and \<^verbatim>\<open>timers_reschedule\<close>. The abstract view is the map from active
  timers to deadlines; the heap, the back-indices and the cached deadlines implement it.
\<close>

subsection \<open>Operations\<close>

definition put_timers :: "heap \<times> wstore \<Rightarrow> 'w ev_loop \<Rightarrow> 'w ev_loop" where
  "put_timers r L = L\<lparr>timers := fst r, ws := snd r\<rparr>"

definition ev_timer_start :: "W \<Rightarrow> 'w ev_loop \<Rightarrow> 'w ev_loop" where
  "ev_timer_start w L =
     (if active (ws L w) \<noteq> 0 then L
      else
        let L = upd_w w (\<lambda>x. x\<lparr>w_at := fadd (w_at x) (mn_now L)\<rparr>) L;
            L = chk (w_repeat (ws L w) \<ge> 0) L;
            L = L\<lparr>timercnt := timercnt L + 1\<rparr>;
            L = ev_start w (timercnt L + HEAP0 - 1) L;
            a = active (ws L w);
            L = L\<lparr>timermax := needsize 16 (timermax L) (a + 1)\<rparr>;
            L = chk (a < timermax L) L;
            L = L\<lparr>timers := (timers L)(a := \<lparr>he_at = w_at (ws L w), he_w = w\<rparr>)\<rparr>
        in put_timers (upheap (timers L) (ws L) a) L)"

definition ev_timer_stop :: "W \<Rightarrow> 'w ev_loop \<Rightarrow> 'w ev_loop" where
  "ev_timer_stop w L =
     (let L = clear_pending w L in
      if active (ws L w) = 0 then L
      else
        let a = active (ws L w);
            L = chk (a < timermax L \<and> he_w (timers L a) = w \<and> timercnt L \<noteq> 0) L;
            L = L\<lparr>timercnt := timercnt L - 1\<rparr>;
            L = put_timers (heap_drop (timers L) (ws L) (timercnt L) a) L;
            L = upd_w w (\<lambda>x. x\<lparr>w_at := fsub (w_at x) (mn_now L)\<rparr>) L
        in ev_stop w L)"

definition ev_timer_again :: "W \<Rightarrow> 'w ev_loop \<Rightarrow> 'w ev_loop" where
  "ev_timer_again w L =
     (let L = clear_pending w L in
      if active (ws L w) \<noteq> 0 then
        if w_repeat (ws L w) \<noteq> 0 then
          let L = upd_w w (\<lambda>x. x\<lparr>w_at := fadd (mn_now L) (w_repeat x)\<rparr>) L;
              a = active (ws L w);
              L = chk (a < timermax L) L;
              L = L\<lparr>timers := (timers L)(a := (timers L a)\<lparr>he_at := w_at (ws L (he_w (timers L a)))\<rparr>)\<rparr>
          in put_timers (adjustheap (timers L) (ws L) (timercnt L) a) L
        else ev_timer_stop w L
      else if w_repeat (ws L w) \<noteq> 0 then
        ev_timer_start w (upd_w w (\<lambda>x. x\<lparr>w_at := w_repeat x\<rparr>) L)
      else L)"

definition ev_timer_remaining :: "W \<Rightarrow> 'w ev_loop \<Rightarrow> ev_tstamp" where
  "ev_timer_remaining w L = fsub (w_at (ws L w)) (if active (ws L w) \<noteq> 0 then mn_now L else 0)"

text \<open>One round of the loop of \<^verbatim>\<open>timers_reify\<close>, the loop, and the function.\<close>

definition timers_due :: "'w ev_loop \<Rightarrow> bool" where
  "timers_due L \<longleftrightarrow> timercnt L \<noteq> 0 \<and> he_at (timers L HEAP0) < mn_now L"

definition timers_reify_one :: "'w ev_loop \<Rightarrow> 'w ev_loop" where
  "timers_reify_one L =
     (let w = he_w (timers L HEAP0) in
      feed_reverse w
        (if w_repeat (ws L w) \<noteq> 0 then
           let L = upd_w w (\<lambda>x. x\<lparr>w_at := fadd (w_at x) (w_repeat x)\<rparr>) L;
               L = (if w_at (ws L w) < mn_now L then upd_w w (\<lambda>x. x\<lparr>w_at := mn_now L\<rparr>) L else L);
               L = chk (w_repeat (ws L w) > 0) L;
               L = L\<lparr>timers := (timers L)(HEAP0 := (timers L HEAP0)\<lparr>he_at := w_at (ws L w)\<rparr>)\<rparr>
           in put_timers (downheap (timers L) (ws L) (timercnt L) HEAP0) L
         else ev_timer_stop w L))"

partial_function (option) timers_reify_loop :: "'w ev_loop \<Rightarrow> 'w ev_loop option" where
  "timers_reify_loop L =
     (let L' = timers_reify_one L in
      if timers_due L' then timers_reify_loop L' else Some L')"

definition timers_reify :: "'w ev_loop \<Rightarrow> 'w ev_loop option" where
  "timers_reify L =
     (if timers_due L then map_option (feed_reverse_done EV_TIMER) (timers_reify_loop L) else Some L)"

fun timers_shift :: "nat \<Rightarrow> ev_tstamp \<Rightarrow> 'w ev_loop \<Rightarrow> 'w ev_loop" where
  "timers_shift 0 adjust L = L"
| "timers_shift (Suc i) adjust L =
     (let L = timers_shift i adjust L;
          k = i + HEAP0;
          L = chk (k < timermax L) L;
          L = upd_w (he_w (timers L k)) (\<lambda>x. x\<lparr>w_at := fadd (w_at x) adjust\<rparr>) L
      in L\<lparr>timers := (timers L)(k := (timers L k)\<lparr>he_at := w_at (ws L (he_w (timers L k)))\<rparr>)\<rparr>)"

definition timers_reschedule :: "ev_tstamp \<Rightarrow> 'w ev_loop \<Rightarrow> 'w ev_loop" where
  "timers_reschedule adjust L = timers_shift (timercnt L) adjust L"

subsection \<open>The invariant\<close>

definition timers_inv :: "'w ev_loop \<Rightarrow> bool" where
  "timers_inv L \<longleftrightarrow> theap KTimer (timers L) (timermax L) (timercnt L) (ws L)"

abbreviation timer_map :: "'w ev_loop \<Rightarrow> W \<Rightarrow> ev_tstamp option" where
  "timer_map L \<equiv> deadlines KTimer (ws L)"

subsection \<open>Start\<close>

lemma ev_timer_start_eq:
  assumes "active (ws L w) = 0"
  defines "s1 \<equiv> (ws L)(w := (ws L w)\<lparr>w_at := fadd (w_at (ws L w)) (mn_now L),
    priority := pri_clamp (priority (ws L w)), active := timercnt L + HEAP0\<rparr>)"
  defines "r \<equiv> upheap ((timers L)(timercnt L + HEAP0 := \<lparr>he_at = w_at (s1 w), he_w = w\<rparr>)) s1 (timercnt L + HEAP0)"
  shows "ev_timer_start w L = L\<lparr>ws := snd r, ok := ok L \<and> w_repeat (ws L w) \<ge> 0, activecnt := activecnt L + 1,
    timers := fst r, timermax := needsize 16 (timermax L) (timercnt L + HEAP0 + 1), timercnt := timercnt L + 1\<rparr>"
proof -
  have "timercnt L + 3 < needsize 16 (timermax L) (Suc (timercnt L + 3))" by (simp flip: Suc_le_eq)
  then show ?thesis using assms(1)
    by (simp add: ev_timer_start_def Let_def base_defs put_timers_def r_def s1_def pri_clamp_def eval_nat_numeral)
qed

lemma timer_start_inv:
  assumes P: "pend_inv L" and T: "timers_inv L" and w: "kind w = KTimer" "active (ws L w) = 0"
  shows "pend_inv (ev_timer_start w L)" "timers_inv (ev_timer_start w L)"
    "pend_of (ev_timer_start w L) = pend_of L"
    "timer_map (ev_timer_start w L) = (timer_map L)(w \<mapsto> fadd (w_at (ws L w)) (mn_now L))"
    "ok (ev_timer_start w L) \<longleftrightarrow> ok L \<and> w_repeat (ws L w) \<ge> 0"
    "kind v \<noteq> KTimer \<Longrightarrow> ws (ev_timer_start w L) v = ws L v"
proof -
  let ?L = "ev_timer_start w L"
  let ?s1 = "(ws L)(w := (ws L w)\<lparr>w_at := fadd (w_at (ws L w)) (mn_now L),
    priority := pri_clamp (priority (ws L w)), active := timercnt L + HEAP0\<rparr>)"
  let ?mx = "needsize 16 (timermax L) (timercnt L + HEAP0 + 1)"
  note e = ev_timer_start_eq[OF w(2)]
  have mx: "Suc (timercnt L) + HEAP0 \<le> ?mx" using needsize_ge[of 16 "timercnt L + HEAP0 + 1" "timermax L"] by simp
  note ti = theap_insert[OF T[unfolded timers_inv_def] w, of ?s1 ?mx, OF _ _ mx]
  have T': "timers_inv ?L" unfolding timers_inv_def e using ti(1) by simp
  have sb: "same_but_active ?s1 (ws ?L)" unfolding e using ti(2) by simp
  have pri: "priority (ws ?L v) = priority (ws L v)" if "pending (ws L v) \<noteq> 0" for v
    using same_but_activeD(2)[OF sb, of v] pend_pending(1)[OF P that] by (auto simp: pri_clamp_def pri_valid_def)
  have pd: "pending (ws ?L v) = pending (ws L v)" for v using same_but_activeD(1)[OF sb, of v] by auto
  have f: "pendings ?L = pendings L" "pendingcnt ?L = pendingcnt L" "pendingmax ?L = pendingmax L" by (simp_all add: e)
  show "pend_inv ?L" using pend_cong(1)[OF f pd pri] P by simp
  show "pend_of ?L = pend_of L" using pend_cong(2)[OF f pd pri] by simp
  show "timers_inv ?L" by (rule T')
  show "ok ?L \<longleftrightarrow> ok L \<and> w_repeat (ws L w) \<ge> 0" by (simp add: e)
  show "kind v \<noteq> KTimer \<Longrightarrow> ws ?L v = ws L v" for v unfolding e using ti(3)[of v] w(1) by auto
  show "timer_map ?L = (timer_map L)(w \<mapsto> fadd (w_at (ws L w)) (mn_now L))"
    unfolding e using ti(4) by simp
qed

subsection \<open>Stop\<close>

lemma ev_timer_stop_inactive: "active (ws L w) = 0 \<Longrightarrow> ev_timer_stop w L = clear_pending w L"
  by (simp add: ev_timer_stop_def Let_def)

lemma ev_timer_stop_eq:
  assumes "active (ws L w) \<noteq> 0"
  defines "C \<equiv> clear_pending w L"
  defines "r \<equiv> heap_drop (timers L) (ws C) (timercnt L - 1) (active (ws L w))"
  shows "ev_timer_stop w L = C\<lparr>
    ws := (snd r)(w := (snd r w)\<lparr>w_at := fsub (w_at (snd r w)) (mn_now L), active := 0\<rparr>),
    ok := ok C \<and> active (ws L w) < timermax L \<and> he_w (timers L (active (ws L w))) = w \<and> timercnt L \<noteq> 0,
    activecnt := activecnt L - 1, timers := fst r, timercnt := timercnt L - 1\<rparr>"
  using assms(1) by (simp add: ev_timer_stop_def Let_def base_defs put_timers_def r_def C_def)

lemma timer_stop_inv:
  assumes P: "pend_inv L" and T: "timers_inv L" and w: "kind w = KTimer"
  shows "pend_inv (ev_timer_stop w L)" "timers_inv (ev_timer_stop w L)"
    "pend_of (ev_timer_stop w L) = (pend_of L)(w := None)"
    "timer_map (ev_timer_stop w L) = (timer_map L)(w := None)"
    "ok (ev_timer_stop w L) = ok L"
    "kind v \<noteq> KTimer \<Longrightarrow> ws (ev_timer_stop w L) v = ws L v"
    "v \<noteq> w \<Longrightarrow> (ws (ev_timer_stop w L) v)\<lparr>active := 0\<rparr> = (ws L v)\<lparr>active := 0\<rparr>"
    "priority (ws (ev_timer_stop w L) v) = priority (ws L v)"
proof -
  let ?L = "ev_timer_stop w L" and ?C = "clear_pending w L"
  have TC: "timers_inv ?C" using T unfolding timers_inv_def clear_fields
    by (rule theap_cong[rotated]) simp
  have ne: "v \<noteq> w" if "kind v \<noteq> KTimer" for v using w that by auto
  have mapC: "timer_map ?C = timer_map L" by (rule ext) (simp add: deadlines_def)
  have "pend_inv ?L \<and> timers_inv ?L \<and> pend_of ?L = (pend_of L)(w := None) \<and>
    timer_map ?L = (timer_map L)(w := None) \<and> ok ?L = ok L \<and> (kind v \<noteq> KTimer \<longrightarrow> ws ?L v = ws L v) \<and>
    (v \<noteq> w \<longrightarrow> (ws ?L v)\<lparr>active := 0\<rparr> = (ws L v)\<lparr>active := 0\<rparr>) \<and> priority (ws ?L v) = priority (ws L v)"
  proof (cases "active (ws L w) = 0")
    case True
    moreover have "timer_map L = (timer_map L)(w := None)" using True by (simp add: deadlines_def fun_eq_iff)
    ultimately show ?thesis
      using clear_inv[OF P] clear_ok[OF P] clear_pend_of[OF P] TC mapC ne clear_other[of v w L]
      by (simp add: ev_timer_stop_inactive)
  next
    case False
    define N where "N = timercnt L - 1"
    let ?r = "heap_drop (timers L) (ws ?C) N (active (ws L w))"
    note i = theap_index[OF T[unfolded timers_inv_def] w False]
    have N: "timercnt L = Suc N" using i(6) by (simp add: N_def)
    have HC: "theap KTimer (timers L) (timermax L) (Suc N) (ws ?C)" using TC N by (simp add: timers_inv_def)
    note e = ev_timer_stop_eq[OF False, folded N_def]
    have ac: "active (ws ?C w) \<noteq> 0" using False by simp
    note tr = theap_remove[OF HC w ac, unfolded clear_frame(1), of "ws ?L"]
    have s2: "\<forall>v. v \<noteq> w \<longrightarrow> active (ws ?L v) = active (snd ?r v)"
      "\<forall>v. v \<noteq> w \<longrightarrow> w_at (ws ?L v) = w_at (snd ?r v)" by (simp_all add: e)
    have s2w: "active (ws ?L w) = 0" by (simp add: e)
    note tr = tr[OF s2 s2w]
    have f: "pendings ?L = pendings ?C" "pendingcnt ?L = pendingcnt ?C" "pendingmax ?L = pendingmax ?C"
      by (simp_all add: e)
    have pd: "pending (ws ?L v) = pending (ws ?C v)" "priority (ws ?L v) = priority (ws ?C v)" for v
      using same_but_activeD(1,2)[OF tr(2), of v] by (auto simp: e)
    have "ws ?L v = ws L v" if "kind v \<noteq> KTimer" for v
      using tr(3)[OF that] ne[OF that] clear_other[of v w L] by (simp add: e)
    moreover have "(ws ?L v)\<lparr>active := 0\<rparr> = (ws L v)\<lparr>active := 0\<rparr>" if "v \<noteq> w" for v
      using tr(2) clear_other[OF that, of L] that by (simp add: e same_but_active_def)
    moreover have "timers_inv ?L" using tr(1) by (simp add: timers_inv_def e)
    moreover have "ok ?L = ok L" using i clear_ok[OF P] by (simp add: e)
    ultimately show ?thesis
      using pend_cong[OF f pd] clear_inv[OF P, of w] clear_pend_of[OF P, of w] tr(5) mapC pd(2)[of v] by simp
  qed
  then show "pend_inv ?L" "timers_inv ?L" "pend_of ?L = (pend_of L)(w := None)"
    "timer_map ?L = (timer_map L)(w := None)" "ok ?L = ok L" "kind v \<noteq> KTimer \<Longrightarrow> ws ?L v = ws L v"
    "v \<noteq> w \<Longrightarrow> (ws ?L v)\<lparr>active := 0\<rparr> = (ws L v)\<lparr>active := 0\<rparr>"
    "priority (ws ?L v) = priority (ws L v)" by auto
qed

subsection \<open>Again\<close>

lemma put_adjust_inv:
  fixes t :: ev_tstamp
  assumes P: "pend_inv L" and T: "timers_inv L" and w: "kind w = KTimer" "active (ws L w) \<noteq> 0"
  defines "s1 \<equiv> (ws L)(w := (ws L w)\<lparr>w_at := t\<rparr>)"
  defines "h1 \<equiv> (timers L)(active (ws L w) := \<lparr>he_at = t, he_w = w\<rparr>)"
  defines "L' \<equiv> put_timers (adjustheap h1 s1 (timercnt L) (active (ws L w))) L"
  shows "pend_inv L'" "timers_inv L'" "pend_of L' = pend_of L" "timer_map L' = (timer_map L)(w \<mapsto> t)"
    "kind v \<noteq> KTimer \<Longrightarrow> ws L' v = ws L v" "same_but_active s1 (ws L')"
proof -
  note tu = theap_update[OF T[unfolded timers_inv_def] w, of s1]
  have s1: "\<forall>v. active (s1 v) = active (ws L v)" "\<forall>v. v \<noteq> w \<longrightarrow> w_at (s1 v) = w_at (ws L v)" "w_at (s1 w) = t"
    by (simp_all add: s1_def)
  note tu = tu[OF s1(1,2), unfolded s1(3), folded h1_def]
  have sb: "same_but_active s1 (ws L')" using tu(2) by (simp add: L'_def put_timers_def)
  have pd: "pending (ws L' v) = pending (ws L v)" "priority (ws L' v) = priority (ws L v)" for v
    using same_but_activeD(1,2)[OF sb, of v] by (auto simp: s1_def)
  have f: "pendings L' = pendings L" "pendingcnt L' = pendingcnt L" "pendingmax L' = pendingmax L"
    by (simp_all add: L'_def put_timers_def)
  show "pend_inv L'" "pend_of L' = pend_of L" using pend_cong[OF f pd] P by auto
  show "timers_inv L'" "timer_map L' = (timer_map L)(w \<mapsto> t)"
    using tu(1,5) by (simp_all add: timers_inv_def L'_def put_timers_def)
  show "kind v \<noteq> KTimer \<Longrightarrow> ws L' v = ws L v" using tu(3)[of v] w(1) by (auto simp: L'_def put_timers_def s1_def)
  show "same_but_active s1 (ws L')" by (rule sb)
qed

lemma ev_timer_again_active:
  assumes "active (ws L w) \<noteq> 0" "w_repeat (ws L w) \<noteq> 0" "he_w (timers L (active (ws L w))) = w"
    "active (ws L w) < timermax L"
  defines "C \<equiv> clear_pending w L" and "t \<equiv> fadd (mn_now L) (w_repeat (ws L w))"
  shows "ev_timer_again w L = put_timers (adjustheap ((timers C)(active (ws C w) := \<lparr>he_at = t, he_w = w\<rparr>))
    ((ws C)(w := (ws C w)\<lparr>w_at := t\<rparr>)) (timercnt C) (active (ws C w))) C"
proof -
  have r: "w_repeat (ws C w) = w_repeat (ws L w)" by (simp add: C_def clear_w)
  show ?thesis
    using assms(1-4) by (simp add: ev_timer_again_def Let_def base_defs put_timers_def C_def t_def r[unfolded C_def] ANHE_at_upd)
qed

lemma timer_again_inv:
  assumes P: "pend_inv L" and T: "timers_inv L" and w: "kind w = KTimer" and rep: "w_repeat (ws L w) \<ge> 0"
  defines "L' \<equiv> ev_timer_again w L"
  shows "pend_inv L'" "timers_inv L'" "pend_of L' = (pend_of L)(w := None)" "ok L' = ok L"
    "timer_map L' = (timer_map L)(w :=
      if w_repeat (ws L w) = 0 then None else Some (fadd (mn_now L) (w_repeat (ws L w))))"
    "kind v \<noteq> KTimer \<Longrightarrow> ws L' v = ws L v"
proof -
  let ?C = "clear_pending w L" let ?t = "fadd (mn_now L) (w_repeat (ws L w))"
  have PC: "pend_inv ?C" by (rule clear_inv[OF P])
  have TC: "timers_inv ?C" using T unfolding timers_inv_def clear_fields by (rule theap_cong[rotated]) simp
  have mC: "timer_map ?C = timer_map L" by (rule ext) (simp add: deadlines_def)
  have pC: "pend_of ?C = (pend_of L)(w := None)" by (rule clear_pend_of[OF P])
  have oC: "ok ?C = ok L" by (rule clear_ok[OF P])
  have rC: "w_repeat (ws ?C w) = w_repeat (ws L w)" by (simp add: clear_w)
  have ne: "ws ?C v = ws L v" if "kind v \<noteq> KTimer" for v
  proof (rule clear_other)
    show "v \<noteq> w" using w that by auto
  qed
  have ow: "(pend_of L)(w := None, w := None) = (pend_of L)(w := None)" by simp
  have "pend_inv L' \<and> timers_inv L' \<and> pend_of L' = (pend_of L)(w := None) \<and> ok L' = ok L \<and>
    timer_map L' = (timer_map L)(w := if w_repeat (ws L w) = 0 then None else Some ?t) \<and>
    (kind v \<noteq> KTimer \<longrightarrow> ws L' v = ws L v)"
  proof (cases "active (ws L w) = 0")
    case act: False
    show ?thesis
    proof (cases "w_repeat (ws L w) = 0")
      case True
      then have e: "L' = ev_timer_stop w ?C" using act rC by (simp add: L'_def ev_timer_again_def Let_def)
      show ?thesis unfolding e using timer_stop_inv[OF PC TC w] True pC oC mC ne ow by simp
    next
      case False
      note ix = theap_index[OF T[unfolded timers_inv_def] w act]
      note e = ev_timer_again_active[OF act False ix(3,5)]
      have ac: "active (ws ?C w) \<noteq> 0" using act by simp
      note pa = put_adjust_inv[OF PC TC w ac, where t = ?t]
      have "ok L' = ok ?C" by (simp add: L'_def e put_timers_def)
      then show ?thesis using pa(1-5) False pC oC mC ne unfolding L'_def e by simp
    qed
  next
    case True
    show ?thesis
    proof (cases "w_repeat (ws L w) = 0")
      case True
      then have e: "L' = ?C" using \<open>active (ws L w) = 0\<close> rC by (simp add: L'_def ev_timer_again_def Let_def)
      have "timer_map L = (timer_map L)(w := None)" using \<open>active (ws L w) = 0\<close> by (simp add: deadlines_def fun_eq_iff)
      then show ?thesis unfolding e using PC TC pC oC mC ne True by simp
    next
      case False
      let ?U = "upd_w w (\<lambda>x. x\<lparr>w_at := w_repeat x\<rparr>) ?C"
      have e: "L' = ev_timer_start w ?U" using True False rC by (simp add: L'_def ev_timer_again_def Let_def)
      have U: "ws ?U = (ws ?C)(w := (ws ?C w)\<lparr>w_at := w_repeat (ws L w)\<rparr>)" using rC by (simp add: upd_w_def)
      have PU: "pend_inv ?U" "pend_of ?U = pend_of ?C"
        using pend_cong[of ?U ?C] PC by (simp_all add: upd_w_def)
      have TU: "timers_inv ?U" using TC True unfolding timers_inv_def U
        by (simp add: upd_w_def theap_upd_inactive)
      have au: "active (ws ?U w) = 0" using True by (simp add: U)
      have "timer_map ?U = timer_map L" by (rule ext) (use True in \<open>auto simp: deadlines_def U\<close>)
      moreover have "fadd (w_at (ws ?U w)) (mn_now ?U) = ?t" by (simp add: U fadd_def add.commute upd_w_def rC)
      moreover have "ok ?U = ok L" "w_repeat (ws ?U w) = w_repeat (ws L w)" using oC rC by (simp_all add: upd_w_def)
      moreover have "ws ?U v = ws L v" if "kind v \<noteq> KTimer" for v using ne[OF that] w that by (auto simp: U)
      ultimately show ?thesis unfolding e using timer_start_inv[OF PU(1) TU w au] False pC PU(2) rep by simp
    qed
  qed
  then show "pend_inv L'" "timers_inv L'" "pend_of L' = (pend_of L)(w := None)" "ok L' = ok L"
    "timer_map L' = (timer_map L)(w :=
      if w_repeat (ws L w) = 0 then None else Some (fadd (mn_now L) (w_repeat (ws L w))))"
    "kind v \<noteq> KTimer \<Longrightarrow> ws L' v = ws L v" by auto
qed

subsection \<open>Expiry\<close>

lemma feed_reverse_eq: "feed_reverse w L =
    L\<lparr>rfeedmax := needsize 8 (rfeedmax L) (rfeedcnt L + 1), rfeeds := (rfeeds L)(rfeedcnt L := w), rfeedcnt := rfeedcnt L + 1\<rparr>"
proof -
  have "rfeedcnt L < needsize 8 (rfeedmax L) (rfeedcnt L + 1)" by (simp flip: Suc_le_eq)
  then show ?thesis by (simp add: feed_reverse_def chk_def Let_def)
qed

definition rfeed_list :: "'w ev_loop \<Rightarrow> W list" where
  "rfeed_list L = map (rfeeds L) [0..<rfeedcnt L]"

definition fired :: "'w ev_loop \<Rightarrow> W set" where
  "fired L = {v. \<exists>t. timer_map L v = Some t \<and> t < mn_now L}"

text \<open>The deadline after expiry: the next one, but not in the past; none for a one-shot timer.\<close>

definition next_at :: "'w ev_loop \<Rightarrow> W \<Rightarrow> ev_tstamp option" where
  "next_at L v = (if w_repeat (ws L v) = 0 then None
     else Some (max (fadd (w_at (ws L v)) (w_repeat (ws L v))) (mn_now L)))"

lemma timers_due_root:
  assumes "timers_inv L" "timers_due L"
  defines "w \<equiv> he_w (timers L HEAP0)"
  shows "kind w = KTimer" "active (ws L w) = HEAP0" "w_at (ws L w) < mn_now L" "w \<in> fired L" "HEAP0 < timermax L"
    "\<And>v t. timer_map L v = Some t \<Longrightarrow> w_at (ws L w) \<le> t"
proof -
  have N: "HEAP0 < timercnt L + HEAP0" using assms(2) by (simp add: timers_due_def)
  note ix = theap_at[OF assms(1)[unfolded timers_inv_def] order_refl N, folded w_def]
  show "kind w = KTimer" "active (ws L w) = HEAP0" by (rule ix)+
  show lt: "w_at (ws L w) < mn_now L" using ix(3) assms(2) by (simp add: timers_due_def)
  show "w \<in> fired L" using ix lt by (simp add: fired_def deadlines_def)
  show "HEAP0 < timermax L" using theapD(2)[OF assms(1)[unfolded timers_inv_def]] N by simp
  fix v t assume "timer_map L v = Some t"
  then have v: "kind v = KTimer" "active (ws L v) \<noteq> 0" "t = w_at (ws L v)" by (auto simp: deadlines_def split: if_splits)
  note iv = theap_index[OF assms(1)[unfolded timers_inv_def] v(1,2)]
  have "he_at (timers L HEAP0) \<le> he_at (timers L (active (ws L v)))"
    by (rule h4.root_min[OF _ iv(1,2)]) (use theapD(1)[OF assms(1)[unfolded timers_inv_def]] in \<open>simp add: heap_ok_def\<close>)
  then show "w_at (ws L w) \<le> t" using iv(4) v(3) ix(3) by simp
qed

lemma timers_due_iff:
  assumes "timers_inv L" shows "timers_due L \<longleftrightarrow> fired L \<noteq> {}"
proof
  show "timers_due L \<Longrightarrow> fired L \<noteq> {}" using timers_due_root(4)[OF assms] by auto
  assume "fired L \<noteq> {}"
  then obtain v where v: "kind v = KTimer" "active (ws L v) \<noteq> 0" "w_at (ws L v) < mn_now L"
    by (auto simp: fired_def deadlines_def split: if_splits)
  note iv = theap_index[OF assms[unfolded timers_inv_def] v(1,2)]
  have "he_at (timers L HEAP0) \<le> he_at (timers L (active (ws L v)))"
    by (rule h4.root_min[OF _ iv(1,2)]) (use theapD(1)[OF assms[unfolded timers_inv_def]] in \<open>simp add: heap_ok_def\<close>)
  then show "timers_due L" using iv(4,6) v(3) by (simp add: timers_due_def)
qed

lemma finite_fired: "timers_inv L \<Longrightarrow> finite (fired L)"
proof -
  assume T: "timers_inv L"
  have "fired L \<subseteq> heap_watchers HEAP0 (timers L) (timercnt L)"
    using theapD(5)[OF T[unfolded timers_inv_def]] by (auto simp: fired_def deadlines_def split: if_splits)
  then show ?thesis by (rule finite_subset) (simp add: heap_watchers_def)
qed

lemma inv_ok_upd [simp]:
  "pend_inv (L\<lparr>ok := b\<rparr>) = pend_inv L" "timers_inv (L\<lparr>ok := b\<rparr>) = timers_inv L" "pend_of (L\<lparr>ok := b\<rparr>) = pend_of L"
  "pend_inv (feed_reverse w L) = pend_inv L" "timers_inv (feed_reverse w L) = timers_inv L"
  "pendingcnt (feed_reverse w L) = pendingcnt L" "pend_of (feed_reverse w L) = pend_of L" "ws (feed_reverse w L) = ws L" "ok (feed_reverse w L) = ok L"
  "mn_now (feed_reverse w L) = mn_now L"
  by (simp_all add: pend_inv_def pend_entry_ok_def pend_w_ok_def timers_inv_def fun_eq_iff pend_of_def feed_reverse_eq)

lemma rfeed_list_feed_reverse [simp]: "rfeed_list (feed_reverse w L) = rfeed_list L @ [w]"
  by (simp add: rfeed_list_def feed_reverse_eq)

lemma reify_one_repeat:
  assumes T: "timers_inv L" and d: "timers_due L"
  defines "w \<equiv> he_w (timers L HEAP0)"
  assumes rep: "w_repeat (ws L w) \<noteq> 0"
  defines "t \<equiv> max (fadd (w_at (ws L w)) (w_repeat (ws L w))) (mn_now L)"
  shows "timers_reify_one L = feed_reverse w ((put_timers (adjustheap
      ((timers L)(active (ws L w) := \<lparr>he_at = t, he_w = w\<rparr>)) ((ws L)(w := (ws L w)\<lparr>w_at := t\<rparr>))
      (timercnt L) (active (ws L w))) L)\<lparr>ok := ok L \<and> w_repeat (ws L w) > 0\<rparr>)"
  unfolding timers_reify_one_def Let_def w_def[symmetric]
  by (rule arg_cong[where f = "feed_reverse w"])
    (use rep timers_due_root(2)[OF T d, folded w_def] in
      \<open>simp add: w_def[symmetric] base_defs t_def put_timers_def ANHE_at_upd adjustheap_def max_def\<close>)

text \<open>What one round does to the first expired timer \<open>w\<close>.\<close>

lemma reify_one_inv:
  assumes P: "pend_inv L" and T: "timers_inv L" and d: "timers_due L"
  defines "w \<equiv> he_w (timers L HEAP0)" and "L' \<equiv> timers_reify_one L"
  shows "pend_inv L'" "timers_inv L'" "timer_map L' = (timer_map L)(w := next_at L w)"
    "pend_of L' = (if w_repeat (ws L w) = 0 then (pend_of L)(w := None) else pend_of L)"
    "rfeed_list L' = rfeed_list L @ [w]" "mn_now L' = mn_now L"
    "ok L' \<longleftrightarrow> ok L \<and> w_repeat (ws L w) \<ge> 0"
    "kind v \<noteq> KTimer \<Longrightarrow> ws L' v = ws L v"
    "v \<noteq> w \<Longrightarrow> (ws L' v)\<lparr>active := 0\<rparr> = (ws L v)\<lparr>active := 0\<rparr>"
    "priority (ws L' v) = priority (ws L v)" "pendingcnt L' = pendingcnt L"
proof -
  note r = timers_due_root[OF T d, folded w_def]
  have act: "active (ws L w) \<noteq> 0" using r(2) by simp
  have rf: "rfeed_list (ev_timer_stop w L) = rfeed_list L" "mn_now (ev_timer_stop w L) = mn_now L"
    "pendingcnt (ev_timer_stop w L) = pendingcnt L"
    by (simp_all add: rfeed_list_def ev_timer_stop_eq[OF act])
  have "pend_inv L' \<and> timers_inv L' \<and> timer_map L' = (timer_map L)(w := next_at L w) \<and>
    pend_of L' = (if w_repeat (ws L w) = 0 then (pend_of L)(w := None) else pend_of L) \<and>
    rfeed_list L' = rfeed_list L @ [w] \<and> mn_now L' = mn_now L \<and> (ok L' \<longleftrightarrow> ok L \<and> w_repeat (ws L w) \<ge> 0) \<and>
    (kind v \<noteq> KTimer \<longrightarrow> ws L' v = ws L v) \<and>
    (v \<noteq> w \<longrightarrow> (ws L' v)\<lparr>active := 0\<rparr> = (ws L v)\<lparr>active := 0\<rparr>) \<and> priority (ws L' v) = priority (ws L v) \<and>
    pendingcnt L' = pendingcnt L"
  proof (cases "w_repeat (ws L w) = 0")
    case True
    then have e: "L' = feed_reverse w (ev_timer_stop w L)"
      by (simp add: L'_def timers_reify_one_def w_def Let_def)
    show ?thesis unfolding e using timer_stop_inv[OF P T r(1)] rf True by (simp add: next_at_def)
  next
    case False
    let ?t = "max (fadd (w_at (ws L w)) (w_repeat (ws L w))) (mn_now L)"
    let ?L = "put_timers (adjustheap ((timers L)(active (ws L w) := \<lparr>he_at = ?t, he_w = w\<rparr>))
      ((ws L)(w := (ws L w)\<lparr>w_at := ?t\<rparr>)) (timercnt L) (active (ws L w))) L"
    have e: "L' = feed_reverse w (?L\<lparr>ok := ok L \<and> w_repeat (ws L w) > 0\<rparr>)"
      unfolding L'_def w_def by (rule reify_one_repeat[OF T d]) (use False in \<open>simp add: w_def\<close>)
    note pa = put_adjust_inv[OF P T r(1) act, where t = ?t]
    have f: "rfeed_list ?L = rfeed_list L" "mn_now ?L = mn_now L" "ws (?L\<lparr>ok := b\<rparr>) = ws ?L"
      "rfeed_list (?L\<lparr>ok := b\<rparr>) = rfeed_list ?L" "pendingcnt ?L = pendingcnt L" for b
      by (simp_all add: rfeed_list_def put_timers_def)
    have "(ws ?L v)\<lparr>active := 0\<rparr> = (ws L v)\<lparr>active := 0\<rparr>" if "v \<noteq> w"
      using pa(6) that by (simp add: same_but_active_def)
    moreover have "priority (ws ?L v) = priority (ws L v)" using same_but_activeD(2)[OF pa(6), of v] by auto
    ultimately show ?thesis unfolding e using pa(1-5) f False by (auto simp: next_at_def)
  qed
  then show "pend_inv L'" "timers_inv L'" "timer_map L' = (timer_map L)(w := next_at L w)"
    "pend_of L' = (if w_repeat (ws L w) = 0 then (pend_of L)(w := None) else pend_of L)"
    "rfeed_list L' = rfeed_list L @ [w]" "mn_now L' = mn_now L" "ok L' \<longleftrightarrow> ok L \<and> w_repeat (ws L w) \<ge> 0"
    "kind v \<noteq> KTimer \<Longrightarrow> ws L' v = ws L v"
    "v \<noteq> w \<Longrightarrow> (ws L' v)\<lparr>active := 0\<rparr> = (ws L v)\<lparr>active := 0\<rparr>"
    "priority (ws L' v) = priority (ws L v)" "pendingcnt L' = pendingcnt L" by auto
qed

lemma fired_step:
  assumes "timer_map L' = (timer_map L)(w := next_at L w)" "mn_now L' = mn_now L"
  shows "fired L' = fired L - {w}"
  using assms by (auto simp: fired_def next_at_def split: if_splits)

definition reify_result :: "'w ev_loop \<Rightarrow> 'w ev_loop \<Rightarrow> W list \<Rightarrow> bool" where
  "reify_result L L' fs \<longleftrightarrow>
     pend_inv L' \<and> timers_inv L' \<and> rfeed_list L' = rfeed_list L @ fs \<and> distinct fs \<and> set fs = fired L \<and>
     sorted (map (\<lambda>v. w_at (ws L v)) fs) \<and> mn_now L' = mn_now L \<and>
     (\<forall>v. timer_map L' v = (if v \<in> fired L then next_at L v else timer_map L v)) \<and>
     (\<forall>v. pend_of L' v = (if v \<in> fired L \<and> w_repeat (ws L v) = 0 then None else pend_of L v)) \<and>
     (ok L' \<longleftrightarrow> ok L \<and> (\<forall>v \<in> fired L. w_repeat (ws L v) \<ge> 0)) \<and>
     (\<forall>v. kind v \<noteq> KTimer \<longrightarrow> ws L' v = ws L v) \<and> (\<forall>v. priority (ws L' v) = priority (ws L v)) \<and>
     pendingcnt L' = pendingcnt L"

lemma reify_result_one:
  assumes P: "pend_inv L" and T: "timers_inv L" and d: "timers_due L" and l: "fired L = {he_w (timers L HEAP0)}"
  shows "reify_result L (timers_reify_one L) [he_w (timers L HEAP0)]"
  unfolding reify_result_def using reify_one_inv[OF P T d] l by simp

lemma reify_result_step:
  assumes P: "pend_inv L" and T: "timers_inv L" and d: "timers_due L"
    and R: "reify_result (timers_reify_one L) L' fs"
  shows "reify_result L L' (he_w (timers L HEAP0) # fs)"
proof -
  let ?w = "he_w (timers L HEAP0)" and ?L = "timers_reify_one L"
  note o = reify_one_inv[OF P T d]
  have f: "fired ?L = fired L - {?w}" by (rule fired_step[OF o(3,6)])
  have wf: "?w \<in> fired L" by (rule timers_due_root(4)[OF T d])
  have s: "w_at (ws ?L v) = w_at (ws L v)" "w_repeat (ws ?L v) = w_repeat (ws L v)" if "v \<noteq> ?w" for v
    using arg_cong[OF o(9)[OF that], of w_at] arg_cong[OF o(9)[OF that], of w_repeat] by simp_all
  have n: "next_at ?L v = next_at L v" if "v \<noteq> ?w" for v using s[OF that] o(6) by (simp add: next_at_def)
  have fs: "set fs = fired L - {?w}" using R f by (simp add: reify_result_def)
  have "map (\<lambda>v. w_at (ws ?L v)) fs = map (\<lambda>v. w_at (ws L v)) fs"
    by (rule map_cong) (use fs s in auto)
  then have "sorted (map (\<lambda>v. w_at (ws L v)) fs)" using R by (simp add: reify_result_def del: map_eq_conv)
  moreover have "w_at (ws L ?w) \<le> w_at (ws L v)" if "v \<in> set fs" for v
    using that fs timers_due_root(6)[OF T d, of v "w_at (ws L v)"]
    by (auto simp: fired_def deadlines_def split: if_splits)
  ultimately have "sorted (map (\<lambda>v. w_at (ws L v)) (?w # fs))" by simp
  moreover have "timer_map L' v = (if v \<in> fired L then next_at L v else timer_map L v)" for v
    using R f o(3) n[of v] wf by (auto simp: reify_result_def)
  moreover have "pend_of L' v = (if v \<in> fired L \<and> w_repeat (ws L v) = 0 then None else pend_of L v)" for v
  proof -
    have "pend_of L' v = (if v \<in> fired L - {?w} \<and> w_repeat (ws ?L v) = 0 then None else pend_of ?L v)"
      using R f by (simp add: reify_result_def)
    then show ?thesis using o(4) s(2)[of v] wf by (cases "v = ?w") auto
  qed
  moreover have "ok L' \<longleftrightarrow> ok L \<and> (\<forall>v \<in> fired L. w_repeat (ws L v) \<ge> 0)"
  proof -
    have "ok L' \<longleftrightarrow> ok ?L \<and> (\<forall>v \<in> fired L - {?w}. w_repeat (ws L v) \<ge> 0)"
      using R f s(2) by (simp add: reify_result_def)
    then show ?thesis using o(7) wf by blast
  qed
  moreover have "pend_inv L' \<and> timers_inv L' \<and> rfeed_list L' = rfeed_list L @ ?w # fs \<and> distinct (?w # fs) \<and>
    set (?w # fs) = fired L \<and> mn_now L' = mn_now L \<and> (\<forall>v. kind v \<noteq> KTimer \<longrightarrow> ws L' v = ws L v) \<and>
    (\<forall>v. priority (ws L' v) = priority (ws L v)) \<and> pendingcnt L' = pendingcnt L"
    using R fs wf o(5,6,8,10,11) by (auto simp: reify_result_def)
  ultimately show ?thesis unfolding reify_result_def by blast
qed

lemma timers_reify_loop_returns:
  assumes "pend_inv L" "timers_inv L" "timers_due L"
  shows "\<exists>L' fs. timers_reify_loop L = Some L' \<and> \<not> timers_due L' \<and> reify_result L L' fs \<and> fs \<noteq> []"
  using assms
proof (induction "card (fired L)" arbitrary: L rule: less_induct)
  case less
  let ?L = "timers_reify_one L" and ?w = "he_w (timers L HEAP0)"
  note o = reify_one_inv[OF less.prems]
  have f: "fired ?L = fired L - {?w}" by (rule fired_step[OF o(3,6)])
  have wf: "?w \<in> fired L" by (rule timers_due_root(4)[OF less.prems(2,3)])
  have lt: "card (fired ?L) < card (fired L)"
    unfolding f by (rule card_Diff1_less[OF finite_fired[OF less.prems(2)] wf])
  show ?case
  proof (cases "timers_due ?L")
    case True
    then have e: "timers_reify_loop L = timers_reify_loop ?L" by (subst timers_reify_loop.simps) (simp add: Let_def)
    obtain L' fs where "timers_reify_loop ?L = Some L'" "\<not> timers_due L'" "reify_result ?L L' fs"
      using less.hyps[OF lt o(1,2) True] by blast
    then show ?thesis using e reify_result_step[OF less.prems, of L' fs]
      by (intro exI[of _ L'] exI[of _ "?w # fs"]) simp
  next
    case False
    then have e: "timers_reify_loop L = Some ?L" by (subst timers_reify_loop.simps) (simp add: Let_def)
    have "fired L = {?w}" using False timers_due_iff[OF o(2)] f wf by auto
    then show ?thesis using e False reify_result_one[OF less.prems] by (intro exI[of _ ?L] exI[of _ "[?w]"]) simp
  qed
qed

subsection \<open>Shifting all timers\<close>

lemma timers_shift_eq:
  assumes T: "timers_inv L" and n: "n \<le> timercnt L"
  shows "timers_shift n adj L = L\<lparr>
    timers := (\<lambda>i. if HEAP0 \<le> i \<and> i < n + HEAP0 then (timers L i)\<lparr>he_at := fadd (he_at (timers L i)) adj\<rparr> else timers L i),
    ws := (\<lambda>v. if v \<in> heap_watchers HEAP0 (timers L) n then (ws L v)\<lparr>w_at := fadd (w_at (ws L v)) adj\<rparr> else ws L v)\<rparr>"
  using n
proof (induction n)
  case 0
  have "(\<lambda>i. if HEAP0 \<le> i \<and> i < HEAP0 then (timers L i)\<lparr>he_at := fadd (he_at (timers L i)) adj\<rparr> else timers L i) = timers L"
    by (rule ext) simp
  then show ?case by (simp only: timers_shift.simps add_0 heap_watchers_def) simp
next
  case (Suc n)
  let ?k = "n + HEAP0" let ?w = "he_w (timers L ?k)"
  note H = T[unfolded timers_inv_def]
  have k: "HEAP0 \<le> ?k" "?k < timercnt L + HEAP0" using Suc.prems by auto
  note at = theap_at[OF H k]
  have notin: "?w \<notin> heap_watchers HEAP0 (timers L) n"
  proof
    assume "?w \<in> heap_watchers HEAP0 (timers L) n"
    then obtain i where "HEAP0 \<le> i" "i < ?k" "he_w (timers L i) = ?w" by (auto simp: heap_watchers_def)
    then show False using theap_at(2)[OF H, of i] at(2) k by auto
  qed
  have mx: "?k < timermax L" using theapD(2)[OF H] k by simp
  have IH: "timers_shift n adj L = L\<lparr>
    timers := (\<lambda>i. if HEAP0 \<le> i \<and> i < ?k then (timers L i)\<lparr>he_at := fadd (he_at (timers L i)) adj\<rparr> else timers L i),
    ws := (\<lambda>v. if v \<in> heap_watchers HEAP0 (timers L) n then (ws L v)\<lparr>w_at := fadd (w_at (ws L v)) adj\<rparr> else ws L v)\<rparr>"
    using Suc by simp
  show ?case using mx notin at(3)
    unfolding timers_shift.simps Let_def IH
    by (simp add: base_defs heap_watchers_Suc fun_eq_iff less_Suc_eq)
qed

lemma timers_reschedule_inv:
  fixes adj :: ev_tstamp
  assumes T: "timers_inv L"
  defines "L' \<equiv> timers_reschedule adj L"
  shows "timers_inv L'" "ok L' = ok L" "timer_map L' = (\<lambda>v. map_option (\<lambda>t. fadd t adj) (timer_map L v))"
    "timercnt L' = timercnt L" "kind v \<noteq> KTimer \<Longrightarrow> ws L' v = ws L v"
    "(ws L' v)\<lparr>w_at := 0\<rparr> = (ws L v)\<lparr>w_at := 0\<rparr>"
proof -
  note H = T[unfolded timers_inv_def]
  let ?h = "\<lambda>i. if HEAP0 \<le> i \<and> i < timercnt L + HEAP0 then (timers L i)\<lparr>he_at := fadd (he_at (timers L i)) adj\<rparr> else timers L i"
  let ?s = "\<lambda>v. if v \<in> heap_watchers HEAP0 (timers L) (timercnt L) then (ws L v)\<lparr>w_at := fadd (w_at (ws L v)) adj\<rparr> else ws L v"
  have e: "L' = L\<lparr>timers := ?h, ws := ?s\<rparr>" unfolding L'_def timers_reschedule_def by (rule timers_shift_eq[OF T order_refl])
  have W: "heap_watchers HEAP0 ?h (timercnt L) = heap_watchers HEAP0 (timers L) (timercnt L)"
    by (auto simp: heap_watchers_def intro!: image_cong)
  have "heap_ordered HEAP0 HPARENT (timers L) (timercnt L)" using theapD(1)[OF H] by (simp add: heap_ok_def)
  then have "heap_ordered HEAP0 HPARENT ?h (timercnt L)"
    using HPARENT_range by (auto simp: heap_ordered_def fadd_def intro!: f64.mono) (meson order_less_trans)+
  moreover have "heap_indexed HEAP0 ?h ?s (timercnt L)" "heap_cached HEAP0 ?h ?s (timercnt L)"
    using theap_at[OF H] by (auto simp: heap_indexed_def heap_cached_def heap_watchers_def)
  ultimately have ok: "heap_ok HEAP0 HPARENT ?h ?s (timercnt L)" by (simp add: heap_ok_def)
  have "active (ws L v) = 0" if "kind v = KTimer" "v \<notin> heap_watchers HEAP0 (timers L) (timercnt L)" for v
    using theapD(5)[OF H that(1)] that(2) by auto
  then show "timers_inv L'" unfolding e timers_inv_def
    using theapD(2,3)[OF H] by (auto simp: W intro!: theapI ok)
  show "ok L' = ok L" "timercnt L' = timercnt L" by (simp_all add: e)
  show "timer_map L' = (\<lambda>v. map_option (\<lambda>t. fadd t adj) (timer_map L v))"
    using theapD(3,4,5)[OF H] by (auto simp: e deadlines_def fun_eq_iff)
  show "kind v \<noteq> KTimer \<Longrightarrow> ws L' v = ws L v" using theapD(3)[OF H, of v] by (auto simp: e)
  show "(ws L' v)\<lparr>w_at := 0\<rparr> = (ws L v)\<lparr>w_at := 0\<rparr>" by (simp add: e)
qed

subsection \<open>What the component promises\<close>

text \<open>Every active watcher has a priority in range (\<^verbatim>\<open>verify_watcher\<close>; \<^verbatim>\<open>pri_adjust\<close> sees to it).\<close>

definition pri_inv :: "'w ev_loop \<Rightarrow> bool" where
  "pri_inv L \<longleftrightarrow> (\<forall>v. active (ws L v) \<noteq> 0 \<longrightarrow> pri_valid (ws L v))"

lemma timers_inv_zero [simp]: "timers_inv (loop_zero s)"
  by (simp add: timers_inv_def theap_def loop_zero_def heap_ok_def heap_ordered_def heap_indexed_def
      heap_cached_def heap_watchers_def w_zero_def)

text \<open>
  C7: \<^verbatim>\<open>timers_reify\<close> returns, and the list \<open>fs\<close> of timers it fires is the set of timers
  whose deadline is strictly before the loop's time, each once, sorted by deadline. What each pending queue gains at its
  end is exactly the fired timers of that priority that were not waiting in it already, the latest deadline first:
  \<^verbatim>\<open>ev_invoke_pending\<close> runs a queue from its end, so the earliest deadline is invoked first. One-shot timers are stopped,
  repeating ones get their next deadline, but none in the past; no expired timer is left,
  no other timer changes, and every expired timer has \<^verbatim>\<open>EV_TIMER\<close> pending. All
  assertions hold and all accesses are in bounds.
\<close>

theorem timers_reify_spec:
  assumes "pend_inv L" "timers_inv L" "pri_inv L" "rfeedcnt L = 0"
    "\<forall>v \<in> fired L. w_repeat (ws L v) \<ge> 0"
  shows "\<exists>L' fs. timers_reify L = Some L' \<and> pend_inv L' \<and> timers_inv L' \<and> rfeedcnt L' = 0 \<and> ok L' = ok L \<and>
    fired L' = {} \<and> distinct fs \<and> set fs = fired L \<and> sorted (map (\<lambda>v. w_at (ws L v)) fs) \<and>
    (\<forall>pri. map fst (drop (pendingcnt L pri) (pend_queue L' pri)) =
      [v\<leftarrow>rev fs. ABSPRI (ws L v) = pri \<and> (w_repeat (ws L v) = 0 \<or> pend_of L v = None)]) \<and>
    (\<forall>v. timer_map L' v = (if v \<in> fired L then next_at L v else timer_map L v)) \<and>
    (\<forall>v. pend_of L' v = (if v \<in> fired L
       then Some (case if w_repeat (ws L v) = 0 then None else pend_of L v of None \<Rightarrow> EV_TIMER | Some e \<Rightarrow> e OR EV_TIMER)
       else pend_of L v))"
proof (cases "timers_due L")
  case False
  then have "fired L = {}" using timers_due_iff[OF assms(2)] by simp
  then show ?thesis using assms False
    by (intro exI[of _ L] exI[of _ "[]"]) (auto simp: timers_reify_def)
next
  case True
  obtain L1 fs where L1: "timers_reify_loop L = Some L1" "\<not> timers_due L1" "reify_result L L1 fs" "fs \<noteq> []"
    using timers_reify_loop_returns[OF assms(1,2) True] by blast
  note R = L1(3)[unfolded reify_result_def]
  have rl: "rfeed_list L1 = fs" using R assms(4) by (simp add: rfeed_list_def)
  then obtain n where n: "rfeedcnt L1 = Suc n" using L1(4) by (cases "rfeedcnt L1") (auto simp: rfeed_list_def)
  have "map (rfeeds L1) (rev [0..<Suc n]) = rev fs" using rl n by (auto simp: rfeed_list_def rev_map[symmetric])
  then have e: "timers_reify L = Some ((feed_list (rev fs) EV_TIMER L1)\<lparr>rfeedcnt := 0\<rparr>)"
    using True L1(1) feed_reverse_done_list[OF n, of EV_TIMER] by (simp add: timers_reify_def)
  let ?F = "feed_list (rev fs) EV_TIMER L1"
  have pv: "\<forall>v \<in> set (rev fs). pri_valid (ws L1 v) \<and> v \<noteq> PendingW"
  proof
    fix v assume "v \<in> set (rev fs)"
    then have v: "kind v = KTimer" "active (ws L v) \<noteq> 0"
      using R by (auto simp: fired_def deadlines_def split: if_splits)
    then have "pri_valid (ws L v)" using assms(3) by (simp add: pri_inv_def)
    then show "pri_valid (ws L1 v) \<and> v \<noteq> PendingW" using R v(1) by (auto simp: pri_valid_def)
  qed
  have F: "pend_inv ?F" "ok ?F = ok L1" using feed_list_inv[OF _ pv] feed_list_ok[OF _ pv] R by auto
  have T1: "theap KTimer (timers L1) (timermax L1) (timercnt L1) (ws L1)" using R by (simp only: timers_inv_def)
  have T: "timers_inv ?F" unfolding timers_inv_def feed_list_fields by (rule theap_cong[OF _ T1]) simp
  have m: "timer_map ?F = timer_map L1" by (rule ext) (simp add: deadlines_def)
  have "fired ?F = fired L1" by (simp add: fired_def m)
  then have "fired ?F = {}" using L1(2) timers_due_iff[of L1] R by simp
  moreover have "pend_of ?F v = (if v \<in> fired L
       then Some (case if w_repeat (ws L v) = 0 then None else pend_of L v of None \<Rightarrow> EV_TIMER | Some e \<Rightarrow> e OR EV_TIMER)
       else pend_of L v)" for v
    using feed_list_pend_of[OF _ pv, of EV_TIMER v] R by (auto split: option.splits)
  moreover have "map fst (drop (pendingcnt L pri) (pend_queue (?F\<lparr>rfeedcnt := 0\<rparr>) pri)) =
      [v\<leftarrow>rev fs. ABSPRI (ws L v) = pri \<and> (w_repeat (ws L v) = 0 \<or> pend_of L v = None)]" for pri
  proof -
    have c: "pendingcnt L1 = pendingcnt L" and d: "distinct (rev fs)" using R by auto
    have q: "pend_queue (?F\<lparr>rfeedcnt := 0\<rparr>) pri = pend_queue ?F pri" by (simp add: pend_queue_def)
    have "map fst (drop (pendingcnt L pri) (pend_queue ?F pri)) = [v\<leftarrow>rev fs. ABSPRI (ws L1 v) = pri \<and> pending (ws L1 v) = 0]"
      using pend_queue_feed_list[OF d, of EV_TIMER L1 pri] c by (simp add: drop_map[symmetric])
    also have "\<dots> = [v\<leftarrow>rev fs. ABSPRI (ws L v) = pri \<and> (w_repeat (ws L v) = 0 \<or> pend_of L v = None)]"
    proof (rule filter_cong)
      fix v assume "v \<in> set (rev fs)"
      then have "pend_of L1 v = (if w_repeat (ws L v) = 0 then None else pend_of L v)" "ABSPRI (ws L1 v) = ABSPRI (ws L v)"
        using R by (auto simp: ABSPRI_def)
      then show "(ABSPRI (ws L1 v) = pri \<and> pending (ws L1 v) = 0) = (ABSPRI (ws L v) = pri \<and> (w_repeat (ws L v) = 0 \<or> pend_of L v = None))"
        by (auto simp: pend_of_def split: if_splits)
    qed simp
    finally show ?thesis unfolding q .
  qed
  moreover have "pend_inv (L'\<lparr>rfeedcnt := 0\<rparr>) = pend_inv L'" "timers_inv (L'\<lparr>rfeedcnt := 0\<rparr>) = timers_inv L'"
    "pend_of (L'\<lparr>rfeedcnt := 0\<rparr>) = pend_of L'" "fired (L'\<lparr>rfeedcnt := 0\<rparr>) = fired L'" for L' :: "'a ev_loop"
    by (simp_all add: pend_inv_def pend_entry_ok_def pend_w_ok_def timers_inv_def fun_eq_iff pend_of_def fired_def)
  ultimately show ?thesis using e F T m R assms(5)
    by (intro exI[of _ "?F\<lparr>rfeedcnt := 0\<rparr>"] exI[of _ fs]) auto
qed

definition ex_timers :: "unit ev_loop" where
  "ex_timers = (ev_timer_start (TimerW 1) (loop_zero ()))\<lparr>mn_now := 5\<rparr>"

lemma ex_timers_inv: "pend_inv ex_timers" "timers_inv ex_timers" "rfeedcnt ex_timers = 0"
proof -
  let ?S = "ev_timer_start (TimerW 1) (loop_zero ())"
  have a: "kind (TimerW 1) = KTimer" "active (ws (loop_zero ()) (TimerW 1)) = 0" by (simp_all add: w_zero_def)
  note p = timer_start_inv(1,2)[OF pend_inv_zero timers_inv_zero a]
  show "pend_inv ex_timers" unfolding ex_timers_def by (rule pend_cong(1)[OF _ _ _ _ _ p(1)]) simp_all
  show "timers_inv ex_timers" using p(2) by (simp add: ex_timers_def timers_inv_def)
  show "rfeedcnt ex_timers = 0" unfolding ex_timers_def ev_timer_start_eq[OF a(2)] by (simp add: loop_zero_def)
qed

lemma ex_timers_repeat: "w_repeat (ws ex_timers v) = 0"
  and ex_timers_pri: "pri_inv ex_timers" "\<forall>v \<in> fired ex_timers. w_repeat (ws ex_timers v) \<ge> 0"
proof -
  have a: "kind (TimerW 1) = KTimer" "active (ws (loop_zero ()) (TimerW 1)) = 0" by (simp_all add: w_zero_def)
  have "same_but_active ((ws (loop_zero ()))(TimerW 1 := (ws (loop_zero ()) (TimerW 1))\<lparr>
      w_at := fadd (w_at (ws (loop_zero ()) (TimerW 1))) (mn_now (loop_zero ())),
      priority := pri_clamp (priority (ws (loop_zero ()) (TimerW 1))), active := timercnt (loop_zero ()) + HEAP0\<rparr>)) (ws ex_timers)"
    unfolding ex_timers_def ev_timer_start_eq[OF a(2)] upheap_def by simp (rule h4.up_frame, simp)
  note d = same_but_activeD(2,5)[OF this]
  show r: "w_repeat (ws ex_timers v) = 0" for v using d(2)[of v] by (auto simp: w_zero_def split: if_splits)
  have "priority (ws ex_timers v) = 0" for v
    using d(1)[of v] by (auto simp: w_zero_def pri_clamp_def split: if_splits)
  then show "pri_inv ex_timers" "\<forall>v \<in> fired ex_timers. w_repeat (ws ex_timers v) \<ge> 0"
    using r by (simp_all add: pri_inv_def pri_valid_def)
qed

theorem timers_reify_spec_witness:
  "\<exists>L' fs. timers_reify ex_timers = Some L' \<and> pend_inv L' \<and> timers_inv L' \<and> ok L' = ok ex_timers \<and>
    fired L' = {} \<and> set fs = fired ex_timers \<and> sorted (map (\<lambda>v. w_at (ws ex_timers v)) fs) \<and>
    map fst (drop (pendingcnt ex_timers 2) (pend_queue L' 2)) = [v\<leftarrow>rev fs. ABSPRI (ws ex_timers v) = 2]"
proof -
  obtain L' fs where L': "timers_reify ex_timers = Some L'" "pend_inv L'" "timers_inv L'" "ok L' = ok ex_timers"
    "fired L' = {}" "set fs = fired ex_timers" "sorted (map (\<lambda>v. w_at (ws ex_timers v)) fs)"
    "\<forall>pri. map fst (drop (pendingcnt ex_timers pri) (pend_queue L' pri)) =
      [v\<leftarrow>rev fs. ABSPRI (ws ex_timers v) = pri \<and> (w_repeat (ws ex_timers v) = 0 \<or> pend_of ex_timers v = None)]"
    using timers_reify_spec[OF ex_timers_inv(1,2) ex_timers_pri(1) ex_timers_inv(3) ex_timers_pri(2)] by auto
  have "map fst (drop (pendingcnt ex_timers 2) (pend_queue L' 2)) = [v\<leftarrow>rev fs. ABSPRI (ws ex_timers v) = 2]"
    unfolding L'(8)[rule_format] by (simp add: ex_timers_repeat)
  then show ?thesis using L'(1-7) by auto
qed

text \<open>
  C10: starting a timer enters it into the deadline map at now plus its offset, stopping it
  removes exactly it (and its pending event); both keep the whole heap invariant, leave
  every other deadline, every other pending event and every watcher of another kind
  alone, are no-ops on the map when the timer already is in the wanted state, and pass
  all assertions.
\<close>

theorem ev_timer_start_stop_spec:
  assumes "pend_inv L" "timers_inv L" "kind w = KTimer" "w_repeat (ws L w) \<ge> 0"
  shows "pend_inv (ev_timer_start w L) \<and> timers_inv (ev_timer_start w L) \<and> ok (ev_timer_start w L) = ok L \<and>
    pend_of (ev_timer_start w L) = pend_of L \<and>
    timer_map (ev_timer_start w L) =
      (if active (ws L w) = 0 then (timer_map L)(w \<mapsto> fadd (w_at (ws L w)) (mn_now L)) else timer_map L) \<and>
    pend_inv (ev_timer_stop w L) \<and> timers_inv (ev_timer_stop w L) \<and> ok (ev_timer_stop w L) = ok L \<and>
    pend_of (ev_timer_stop w L) = (pend_of L)(w := None) \<and>
    timer_map (ev_timer_stop w L) = (timer_map L)(w := None) \<and>
    (\<forall>v. kind v \<noteq> KTimer \<longrightarrow> ws (ev_timer_start w L) v = ws L v \<and> ws (ev_timer_stop w L) v = ws L v)"
proof (cases "active (ws L w) = 0")
  case True
  show ?thesis using timer_start_inv[OF assms(1-3) True] timer_stop_inv[OF assms(1-3)] assms(4) True by simp
next
  case False
  then have "ev_timer_start w L = L" by (simp add: ev_timer_start_def)
  then show ?thesis using timer_stop_inv[OF assms(1-3)] assms(1,2) False by simp
qed

theorem ev_timer_start_stop_spec_witness:
  "pend_inv (ev_timer_start (TimerW 2) ex_timers) \<and> timers_inv (ev_timer_start (TimerW 2) ex_timers) \<and>
    ok (ev_timer_start (TimerW 2) ex_timers) = ok ex_timers \<and>
    pend_of (ev_timer_start (TimerW 2) ex_timers) = pend_of ex_timers \<and>
    timer_map (ev_timer_start (TimerW 2) ex_timers) =
      (if active (ws ex_timers (TimerW 2)) = 0
       then (timer_map ex_timers)(TimerW 2 \<mapsto> fadd (w_at (ws ex_timers (TimerW 2))) (mn_now ex_timers)) else timer_map ex_timers) \<and>
    pend_inv (ev_timer_stop (TimerW 2) ex_timers) \<and> timers_inv (ev_timer_stop (TimerW 2) ex_timers) \<and>
    ok (ev_timer_stop (TimerW 2) ex_timers) = ok ex_timers \<and>
    pend_of (ev_timer_stop (TimerW 2) ex_timers) = (pend_of ex_timers)(TimerW 2 := None) \<and>
    timer_map (ev_timer_stop (TimerW 2) ex_timers) = (timer_map ex_timers)(TimerW 2 := None) \<and>
    ws (ev_timer_start (TimerW 2) ex_timers) (IoW 0) = ws ex_timers (IoW 0)"
proof -
  have r: "w_repeat (ws ex_timers (TimerW 2)) \<ge> 0" by (simp add: ex_timers_repeat)
  have k: "kind (IoW 0) \<noteq> KTimer" by simp
  from ev_timer_start_stop_spec[OF ex_timers_inv(1,2) kind.simps(2) r] k show ?thesis by blast
qed

text \<open>
  C11: \<^verbatim>\<open>ev_timer_again\<close> clears a pending event and then sets the deadline to now plus
  \<^verbatim>\<open>repeat\<close>, whether the timer was active or not, or stops the timer when \<^verbatim>\<open>repeat\<close> is 0; the
  heap invariant and all other timers are kept and all assertions pass.
\<close>

theorem ev_timer_again_spec:
  assumes "pend_inv L" "timers_inv L" "kind w = KTimer" "w_repeat (ws L w) \<ge> 0"
  shows "pend_inv (ev_timer_again w L) \<and> timers_inv (ev_timer_again w L) \<and> ok (ev_timer_again w L) = ok L \<and>
    pend_of (ev_timer_again w L) = (pend_of L)(w := None) \<and>
    timer_map (ev_timer_again w L) = (timer_map L)(w :=
      if w_repeat (ws L w) = 0 then None else Some (fadd (mn_now L) (w_repeat (ws L w))))"
  using timer_again_inv[OF assms] by blast

theorem ev_timer_again_spec_witness:
  "pend_inv (ev_timer_again (TimerW 1) ex_timers) \<and> timers_inv (ev_timer_again (TimerW 1) ex_timers) \<and>
    ok (ev_timer_again (TimerW 1) ex_timers) = ok ex_timers \<and>
    pend_of (ev_timer_again (TimerW 1) ex_timers) = (pend_of ex_timers)(TimerW 1 := None) \<and>
    timer_map (ev_timer_again (TimerW 1) ex_timers) = (timer_map ex_timers)(TimerW 1 :=
      if w_repeat (ws ex_timers (TimerW 1)) = 0 then None
      else Some (fadd (mn_now ex_timers) (w_repeat (ws ex_timers (TimerW 1)))))"
  by (rule ev_timer_again_spec) (simp_all add: ex_timers_inv ex_timers_repeat)

text \<open>
  C12: \<^verbatim>\<open>timers_reschedule\<close> shifts every deadline by the same offset; although each sum is
  rounded on its own, the heap condition survives without a \<^verbatim>\<open>reheap\<close>, because rounding is
  monotone. No timer is added, dropped or fed.
\<close>

theorem timers_reschedule_spec:
  assumes "timers_inv L"
  shows "timers_inv (timers_reschedule adj L) \<and> ok (timers_reschedule adj L) = ok L \<and>
    timer_map (timers_reschedule adj L) = (\<lambda>v. map_option (\<lambda>t. fadd t adj) (timer_map L v))"
  using timers_reschedule_inv[OF assms] by blast

theorem timers_reschedule_spec_witness:
  "timers_inv (timers_reschedule 3 ex_timers) \<and> ok (timers_reschedule 3 ex_timers) = ok ex_timers \<and>
    timer_map (timers_reschedule 3 ex_timers) = (\<lambda>v. map_option (\<lambda>t. fadd t 3) (timer_map ex_timers v))"
  by (rule timers_reschedule_spec) (rule ex_timers_inv)

end
