(* ===== verification/Fd_Watch.thy ===== *)
theory Fd_Watch
  imports Timers
begin

section \<open>File descriptor watchers\<close>

text \<open>
  \<^verbatim>\<open>fd_event\<close>, \<^verbatim>\<open>fd_change\<close>, \<^verbatim>\<open>fd_reify\<close>, \<^verbatim>\<open>fd_kill\<close>, \<^verbatim>\<open>fd_ebadf\<close>, \<^verbatim>\<open>fd_enomem\<close>,
  \<^verbatim>\<open>fd_rearm_all\<close>, \<^verbatim>\<open>ev_io_start\<close>, \<^verbatim>\<open>ev_io_stop\<close>, \<^verbatim>\<open>ev_io_modify\<close>. The recorded mask
  \<^verbatim>\<open>anfds[fd].events\<close> is what the kernel was told; the watchers of a descriptor say what
  it should be told; \<^verbatim>\<open>fdchanges\<close> lists the descriptors where the two may differ, and
  \<^verbatim>\<open>fd_reify\<close> brings them together through the backend.
\<close>

subsection \<open>Operations\<close>

definition anfd_zero :: ANFD where
  "anfd_zero = \<lparr>anfd_head = [], anfd_events = 0, anfd_reify = 0, anfd_emask = 0, anfd_eflags = 0, anfd_egen = 0\<rparr>"

definition upd_fd :: "int \<Rightarrow> (ANFD \<Rightarrow> ANFD) \<Rightarrow> 'w ev_loop \<Rightarrow> 'w ev_loop" where
  "upd_fd fd f L = L\<lparr>anfds := (anfds L)(fd := f (anfds L fd))\<rparr>"

definition fd_in :: "int \<Rightarrow> 'w ev_loop \<Rightarrow> bool" where
  "fd_in fd L \<longleftrightarrow> 0 \<le> fd \<and> fd < int (anfdmax L)"

text \<open>\<^verbatim>\<open>array_needsize (ANFD, anfds, anfdmax, fd + 1, array_needsize_zerofill)\<close>.\<close>

definition need_anfds :: "int \<Rightarrow> 'w ev_loop \<Rightarrow> 'w ev_loop" where
  "need_anfds fd L =
     (let n = nat (fd + 1); mx = needsize 16 (anfdmax L) n in
      if n > anfdmax L then
        L\<lparr>anfdmax := mx,
          anfds := (\<lambda>i. if int (anfdmax L) \<le> i \<and> i < int mx then anfd_zero else anfds L i)\<rparr>
      else L)"

definition fd_event_nocheck :: "int \<Rightarrow> u32 \<Rightarrow> 'w ev_loop \<Rightarrow> 'w ev_loop" where
  "fd_event_nocheck fd revents L =
     fold (\<lambda>w L. let ev = w_events (ws L w) AND revents in if ev \<noteq> 0 then ev_feed_event w ev L else L)
       (anfd_head (anfds L fd)) (chk (fd_in fd L) L)"

definition fd_event :: "int \<Rightarrow> u32 \<Rightarrow> 'w ev_loop \<Rightarrow> 'w ev_loop" where
  "fd_event fd revents L =
     (let L = chk (fd_in fd L) L in
      if anfd_reify (anfds L fd) = 0 then fd_event_nocheck fd revents (L\<lparr>iofed := iofed L + 1\<rparr>) else L)"

definition ev_feed_fd_event :: "int \<Rightarrow> u32 \<Rightarrow> 'w ev_loop \<Rightarrow> 'w ev_loop" where
  "ev_feed_fd_event fd revents L =
     (if fd \<ge> 0 \<and> fd < int (anfdmax L) then fd_event_nocheck fd revents L else L)"

definition fd_change :: "int \<Rightarrow> u8 \<Rightarrow> 'w ev_loop \<Rightarrow> 'w ev_loop" where
  "fd_change fd flags L =
     (let L = chk (fd_in fd L) L;
          reify = anfd_reify (anfds L fd);
          L = upd_fd fd (\<lambda>a. a\<lparr>anfd_reify := reify OR flags\<rparr>) L in
      if reify = 0 then
        let n = fdchangecnt L + 1; mx = needsize 4 (fdchangemax L) n in
        chk (n - 1 < mx) (L\<lparr>fdchangecnt := n, fdchangemax := mx, fdchanges := (fdchanges L)(n - 1 := fd)\<rparr>)
      else L)"

definition io_is_loop_own :: "W \<Rightarrow> bool" where
  "io_is_loop_own w \<longleftrightarrow> w = PipeW \<or> w = IouringTfdW"

definition ev_io_start :: "W \<Rightarrow> 'w ev_loop \<Rightarrow> 'w ev_loop" where
  "ev_io_start w L =
     (let fd = w_fd (ws L w) in
      if active (ws L w) \<noteq> 0 then L
      else
        let L = chk (fd \<ge> 0) L;
            L = chk (w_events (ws L w) AND NOT (EV__IOFDSET OR EV_READ OR EV_WRITE) = 0) L;
            L = ev_start w 1 L;
            L = L\<lparr>iocnt := iocnt L + (if io_is_loop_own w then 0 else 1)\<rparr>;
            L = need_anfds fd L;
            L = chk (\<not> (anfd_head (anfds L fd) \<noteq> [] \<and> hd (anfd_head (anfds L fd)) = w)) L;
            L = upd_fd fd (\<lambda>a. a\<lparr>anfd_head := w # anfd_head a\<rparr>) L;
            L = fd_change fd (ucast ((w_events (ws L w) AND EV__IOFDSET) OR EV_ANFD_REIFY)) L
        in upd_w w (\<lambda>x. x\<lparr>w_events := w_events x AND NOT EV__IOFDSET\<rparr>) L)"

definition ev_io_stop :: "W \<Rightarrow> 'w ev_loop \<Rightarrow> 'w ev_loop" where
  "ev_io_stop w L =
     (let L = clear_pending w L in
      if active (ws L w) = 0 then L
      else
        let fd = w_fd (ws L w);
            L = chk (fd_in fd L) L;
            L = upd_fd fd (\<lambda>a. a\<lparr>anfd_head := remove1 w (anfd_head a)\<rparr>) L;
            L = ev_stop w L;
            L = L\<lparr>iocnt := iocnt L - (if io_is_loop_own w then 0 else 1)\<rparr>
        in fd_change fd (ucast EV_ANFD_REIFY) L)"

definition ev_io_modify :: "W \<Rightarrow> u32 \<Rightarrow> 'w ev_loop \<Rightarrow> 'w ev_loop" where
  "ev_io_modify w events L =
     (let events = events AND (EV_READ OR EV_WRITE);
          new = (w_events (ws L w) AND EV__IOFDSET) OR events in
      if w_events (ws L w) = new then L
      else
        let L = upd_w w (\<lambda>x. x\<lparr>w_events := new\<rparr>) L in
        if active (ws L w) \<noteq> 0 then fd_change (w_fd (ws L w)) 0 L else L)"

text \<open>The union of what the watchers of a list want.\<close>

definition want :: "wstore \<Rightarrow> W list \<Rightarrow> u8" where
  "want s vs = fold (\<lambda>w m. m OR ucast (w_events (s w))) vs 0"

definition fd_reify_one :: "'w env \<Rightarrow> nat \<Rightarrow> 'w ev_loop \<Rightarrow> 'w ev_loop option" where
  "fd_reify_one env i L =
     (let L = chk (i < fdchangemax L) L;
          fd = fdchanges L i;
          L = chk (fd_in fd L) L;
          o_events = anfd_events (anfds L fd);
          o_reify = anfd_reify (anfds L fd);
          L = upd_fd fd (\<lambda>a. a\<lparr>anfd_reify := 0\<rparr>) L;
          events = want (ws L) (anfd_head (anfds L fd));
          L = upd_fd fd (\<lambda>a. a\<lparr>anfd_events := events\<rparr>) L;
          o_reify = (if o_events \<noteq> events then ucast EV__IOFDSET else o_reify)
      in if o_reify AND ucast EV__IOFDSET \<noteq> 0 then env_modify env fd (ucast o_events) (ucast events) L else Some L)"

fun fd_reify_upto :: "'w env \<Rightarrow> nat \<Rightarrow> 'w ev_loop \<Rightarrow> 'w ev_loop option" where
  "fd_reify_upto env 0 L = Some L"
| "fd_reify_upto env (Suc i) L = Option.bind (fd_reify_upto env i L) (fd_reify_one env i)"

text \<open>Entries that the loop over the changes appended are moved to the front.\<close>

definition reify_shift :: "nat \<Rightarrow> 'w ev_loop \<Rightarrow> 'w ev_loop" where
  "reify_shift changecnt L =
     (let L = (if fdchangecnt L \<noteq> changecnt
               then L\<lparr>fdchanges := (\<lambda>i. if i < fdchangecnt L - changecnt then fdchanges L (changecnt + i) else fdchanges L i)\<rparr>
               else L)
      in L\<lparr>fdchangecnt := fdchangecnt L - changecnt\<rparr>)"

definition fd_reify :: "'w env \<Rightarrow> 'w ev_loop \<Rightarrow> 'w ev_loop option" where
  "fd_reify env L = map_option (reify_shift (fdchangecnt L)) (fd_reify_upto env (fdchangecnt L) L)"

text \<open>\<^verbatim>\<open>fd_kill\<close>: the loop ends when the list is empty; \<^verbatim>\<open>ev_io_stop\<close> has to shorten it.\<close>

partial_function (option) fd_kill :: "int \<Rightarrow> 'w ev_loop \<Rightarrow> 'w ev_loop option" where
  "fd_kill fd L =
     (case anfd_head (anfds L fd) of
        [] \<Rightarrow> Some L
      | w # _ \<Rightarrow> fd_kill fd (ev_feed_event w (EV_ERROR OR EV_READ OR EV_WRITE) (ev_io_stop w L)))"

fun fd_ebadf_upto :: "'w env \<Rightarrow> nat \<Rightarrow> 'w ev_loop \<Rightarrow> 'w ev_loop option" where
  "fd_ebadf_upto env 0 L = Some L"
| "fd_ebadf_upto env (Suc n) L =
     (case fd_ebadf_upto env n L of
        None \<Rightarrow> None
      | Some L \<Rightarrow>
          if anfd_events (anfds L (int n)) \<noteq> 0 \<and> env_ebadf env (int n) (os L) then fd_kill (int n) L else Some L)"

definition fd_ebadf :: "'w env \<Rightarrow> 'w ev_loop \<Rightarrow> 'w ev_loop option" where
  "fd_ebadf env L = fd_ebadf_upto env (anfdmax L) L"

fun fd_enomem_from :: "nat \<Rightarrow> 'w ev_loop \<Rightarrow> 'w ev_loop option" where
  "fd_enomem_from 0 L = Some L"
| "fd_enomem_from (Suc n) L =
     (if anfd_events (anfds L (int n)) \<noteq> 0 then fd_kill (int n) L else fd_enomem_from n L)"

definition fd_enomem :: "'w ev_loop \<Rightarrow> 'w ev_loop option" where
  "fd_enomem L = fd_enomem_from (anfdmax L) L"

fun fd_rearm_upto :: "nat \<Rightarrow> 'w ev_loop \<Rightarrow> 'w ev_loop" where
  "fd_rearm_upto 0 L = L"
| "fd_rearm_upto (Suc n) L =
     (let L = fd_rearm_upto n L in
      if anfd_events (anfds L (int n)) \<noteq> 0 then
        fd_change (int n) (ucast (EV__IOFDSET OR EV_ANFD_REIFY))
          (upd_fd (int n) (\<lambda>a. a\<lparr>anfd_events := 0, anfd_emask := 0\<rparr>) L)
      else L)"

definition fd_rearm_all :: "'w ev_loop \<Rightarrow> 'w ev_loop" where
  "fd_rearm_all L = fd_rearm_upto (anfdmax L) L"

subsection \<open>The invariant\<close>

text \<open>
  \<open>fd_lists\<close>: the assertions of \<^verbatim>\<open>ev_verify\<close> on the lists (active watchers of this very
  descriptor, no cycle), and that an active watcher is on its list. \<open>fd_chg\<close>: the change
  list is within its block, holds allocated descriptors and every descriptor marked for
  reification. \<open>fd_sync\<close>: a descriptor that is not on the change list is in sync.
  \<open>fd_count\<close>: \<^verbatim>\<open>iocnt\<close> counts the watchers on the lists but the loop's own.
\<close>

definition fd_lists :: "wstore \<Rightarrow> (int \<Rightarrow> ANFD) \<Rightarrow> nat \<Rightarrow> bool" where
  "fd_lists s A n \<longleftrightarrow>
     (\<forall>fd. 0 \<le> fd \<and> fd < int n \<longrightarrow> distinct (anfd_head (A fd)) \<and>
        (\<forall>w \<in> set (anfd_head (A fd)). kind w = KIo \<and> w_fd (s w) = fd \<and> active (s w) = 1)) \<and>
     (\<forall>w. kind w = KIo \<and> active (s w) \<noteq> 0 \<longrightarrow>
        0 \<le> w_fd (s w) \<and> w_fd (s w) < int n \<and> w \<in> set (anfd_head (A (w_fd (s w)))))"

definition fd_chg :: "(int \<Rightarrow> ANFD) \<Rightarrow> nat \<Rightarrow> (nat \<Rightarrow> int) \<Rightarrow> nat \<Rightarrow> nat \<Rightarrow> bool" where
  "fd_chg A n ch cnt mx \<longleftrightarrow>
     cnt \<le> mx \<and> (\<forall>i < cnt. 0 \<le> ch i \<and> ch i < int n) \<and>
     (\<forall>fd. 0 \<le> fd \<and> fd < int n \<and> anfd_reify (A fd) \<noteq> 0 \<longrightarrow> fd \<in> ch ` {..<cnt})"

definition fd_sync :: "wstore \<Rightarrow> (int \<Rightarrow> ANFD) \<Rightarrow> nat \<Rightarrow> int set \<Rightarrow> bool" where
  "fd_sync s A n ch \<longleftrightarrow>
     (\<forall>fd. 0 \<le> fd \<and> fd < int n \<and> fd \<notin> ch \<longrightarrow> anfd_events (A fd) = want s (anfd_head (A fd)))"

definition fd_count :: "(int \<Rightarrow> ANFD) \<Rightarrow> nat \<Rightarrow> int" where
  "fd_count A n = (\<Sum>i < n. int (length (filter (\<lambda>w. \<not> io_is_loop_own w) (anfd_head (A (int i))))))"

definition fd_changes :: "'w ev_loop \<Rightarrow> int set" where
  "fd_changes L = fdchanges L ` {..<fdchangecnt L}"

definition fd_inv :: "'w ev_loop \<Rightarrow> bool" where
  "fd_inv L \<longleftrightarrow>
     fd_lists (ws L) (anfds L) (anfdmax L) \<and>
     fd_chg (anfds L) (anfdmax L) (fdchanges L) (fdchangecnt L) (fdchangemax L) \<and>
     fd_sync (ws L) (anfds L) (anfdmax L) (fd_changes L) \<and>
     iocnt L = fd_count (anfds L) (anfdmax L)"

lemma want_cong: "(\<And>w. w \<in> set vs \<Longrightarrow> w_events (s' w) = w_events (s w)) \<Longrightarrow> want s' vs = want s vs"
  unfolding want_def by (rule fold_cong) auto

lemma fd_listsD:
  assumes "fd_lists s A n"
  shows "0 \<le> fd \<Longrightarrow> fd < int n \<Longrightarrow> distinct (anfd_head (A fd))"
    "0 \<le> fd \<Longrightarrow> fd < int n \<Longrightarrow> w \<in> set (anfd_head (A fd)) \<Longrightarrow> kind w = KIo \<and> w_fd (s w) = fd \<and> active (s w) = 1"
    "kind w = KIo \<Longrightarrow> active (s w) \<noteq> 0 \<Longrightarrow>
      0 \<le> w_fd (s w) \<and> w_fd (s w) < int n \<and> w \<in> set (anfd_head (A (w_fd (s w))))"
  using assms unfolding fd_lists_def by blast+

subsection \<open>Marking a descriptor\<close>

lemma fd_change_fields [simp]:
  "ws (fd_change fd flags L) = ws L"
  "os (fd_change fd flags L) = os L"
  "ev_rt_now (fd_change fd flags L) = ev_rt_now L"
  "now_floor (fd_change fd flags L) = now_floor L"
  "mn_now (fd_change fd flags L) = mn_now L"
  "rtmn_diff (fd_change fd flags L) = rtmn_diff L"
  "have_monotonic (fd_change fd flags L) = have_monotonic L"
  "rfeeds (fd_change fd flags L) = rfeeds L"
  "rfeedmax (fd_change fd flags L) = rfeedmax L"
  "rfeedcnt (fd_change fd flags L) = rfeedcnt L"
  "pendings (fd_change fd flags L) = pendings L"
  "pendingmax (fd_change fd flags L) = pendingmax L"
  "pendingcnt (fd_change fd flags L) = pendingcnt L"
  "pendingpri (fd_change fd flags L) = pendingpri L"
  "io_blocktime (fd_change fd flags L) = io_blocktime L"
  "timeout_blocktime (fd_change fd flags L) = timeout_blocktime L"
  "backend (fd_change fd flags L) = backend L"
  "activecnt (fd_change fd flags L) = activecnt L"
  "iocnt (fd_change fd flags L) = iocnt L"
  "iofed (fd_change fd flags L) = iofed L"
  "loop_done (fd_change fd flags L) = loop_done L"
  "backend_fd (fd_change fd flags L) = backend_fd L"
  "backend_mintime (fd_change fd flags L) = backend_mintime L"
  "anfdmax (fd_change fd flags L) = anfdmax L"
  "evpipe0 (fd_change fd flags L) = evpipe0 L"
  "evpipe1 (fd_change fd flags L) = evpipe1 L"
  "pipe_write_wanted (fd_change fd flags L) = pipe_write_wanted L"
  "pipe_write_skipped (fd_change fd flags L) = pipe_write_skipped L"
  "curpid (fd_change fd flags L) = curpid L"
  "postfork (fd_change fd flags L) = postfork L"
  "timers (fd_change fd flags L) = timers L"
  "timermax (fd_change fd flags L) = timermax L"
  "timercnt (fd_change fd flags L) = timercnt L"
  "periodics (fd_change fd flags L) = periodics L"
  "periodicmax (fd_change fd flags L) = periodicmax L"
  "periodiccnt (fd_change fd flags L) = periodiccnt L"
  "idles (fd_change fd flags L) = idles L"
  "idlemax (fd_change fd flags L) = idlemax L"
  "idlecnt (fd_change fd flags L) = idlecnt L"
  "idleall (fd_change fd flags L) = idleall L"
  "prepares (fd_change fd flags L) = prepares L"
  "preparemax (fd_change fd flags L) = preparemax L"
  "preparecnt (fd_change fd flags L) = preparecnt L"
  "checks (fd_change fd flags L) = checks L"
  "checkmax (fd_change fd flags L) = checkmax L"
  "checkcnt (fd_change fd flags L) = checkcnt L"
  "forks (fd_change fd flags L) = forks L"
  "forkmax (fd_change fd flags L) = forkmax L"
  "forkcnt (fd_change fd flags L) = forkcnt L"
  "cleanups (fd_change fd flags L) = cleanups L"
  "cleanupmax (fd_change fd flags L) = cleanupmax L"
  "cleanupcnt (fd_change fd flags L) = cleanupcnt L"
  "asyncs (fd_change fd flags L) = asyncs L"
  "asyncmax (fd_change fd flags L) = asyncmax L"
  "asynccnt (fd_change fd flags L) = asynccnt L"
  "async_pending (fd_change fd flags L) = async_pending L"
  "sig_pending (fd_change fd flags L) = sig_pending L"
  "fs_fd (fd_change fd flags L) = fs_fd L"
  "sigfd (fd_change fd flags L) = sigfd L"
  "sigfd_set (fd_change fd flags L) = sigfd_set L"
  "timerfd (fd_change fd flags L) = timerfd L"
  "origflags (fd_change fd flags L) = origflags L"
  "loop_count (fd_change fd flags L) = loop_count L"
  "loop_depth (fd_change fd flags L) = loop_depth L"
  "now_set (fd_change fd flags L) = now_set L"
  "signals (fd_change fd flags L) = signals L"
  "childs (fd_change fd flags L) = childs L"
  "fs_2625 (fd_change fd flags L) = fs_2625 L"
  "fs_hash (fd_change fd flags L) = fs_hash L"
  "vec_ri (fd_change fd flags L) = vec_ri L"
  "vec_wi (fd_change fd flags L) = vec_wi L"
  "vec_max (fd_change fd flags L) = vec_max L"
  "polls (fd_change fd flags L) = polls L"
  "pollmax (fd_change fd flags L) = pollmax L"
  "pollcnt (fd_change fd flags L) = pollcnt L"
  "pollidxs (fd_change fd flags L) = pollidxs L"
  "pollidxmax (fd_change fd flags L) = pollidxmax L"
  "epoll_eventmax (fd_change fd flags L) = epoll_eventmax L"
  "epoll_eperms (fd_change fd flags L) = epoll_eperms L"
  "epoll_epermcnt (fd_change fd flags L) = epoll_epermcnt L"
  "epoll_epermmax (fd_change fd flags L) = epoll_epermmax L"
  "epoll_have_pwait2 (fd_change fd flags L) = epoll_have_pwait2 L"
  "kqueue_fd_pid (fd_change fd flags L) = kqueue_fd_pid L"
  "kqueue_changes (fd_change fd flags L) = kqueue_changes L"
  "kqueue_changemax (fd_change fd flags L) = kqueue_changemax L"
  "kqueue_changecnt (fd_change fd flags L) = kqueue_changecnt L"
  "kqueue_eventmax (fd_change fd flags L) = kqueue_eventmax L"
  "port_eventmax (fd_change fd flags L) = port_eventmax L"
  by (simp_all add: fd_change_def chk_def upd_fd_def Let_def)

lemma fd_change_anfds: "anfds (fd_change fd flags L) =
    (anfds L)(fd := (anfds L fd)\<lparr>anfd_reify := anfd_reify (anfds L fd) OR flags\<rparr>)"
  by (simp add: fd_change_def chk_def upd_fd_def Let_def)

lemma fd_change_ok: "fd_in fd L \<Longrightarrow> ok (fd_change fd flags L) = ok L"
proof -
  have "n < needsize 4 m (Suc n)" for n m by (simp flip: Suc_le_eq)
  then show "fd_in fd L \<Longrightarrow> ok (fd_change fd flags L) = ok L"
    by (simp add: fd_change_def chk_def upd_fd_def Let_def)
qed

lemma fd_change_list:
  "fdchangecnt (fd_change fd flags L) = (if anfd_reify (anfds L fd) = 0 then Suc (fdchangecnt L) else fdchangecnt L)"
  "fdchanges (fd_change fd flags L) =
     (if anfd_reify (anfds L fd) = 0 then (fdchanges L)(fdchangecnt L := fd) else fdchanges L)"
  "fdchangemax (fd_change fd flags L) =
     (if anfd_reify (anfds L fd) = 0 then needsize 4 (fdchangemax L) (Suc (fdchangecnt L)) else fdchangemax L)"
  by (simp_all add: fd_change_def chk_def upd_fd_def Let_def)

lemma fd_change_chg:
  fixes flags :: u8
  assumes "fd_in fd L" "fd_chg (anfds L) (anfdmax L) (fdchanges L) (fdchangecnt L) (fdchangemax L)"
  defines "L' \<equiv> fd_change fd flags L"
  shows "fd_chg (anfds L') (anfdmax L') (fdchanges L') (fdchangecnt L') (fdchangemax L')"
    "fd_changes L' = insert fd (fd_changes L)"
proof -
  have im: "f(n := x) ` {..<Suc n} = insert x (f ` {..<n})" for f :: "nat \<Rightarrow> int" and n x
    by (auto simp: lessThan_Suc)
  show c: "fd_changes L' = insert fd (fd_changes L)"
    using assms(1,2) im by (auto simp: L'_def fd_changes_def fd_change_list fd_chg_def fd_in_def)
  have nm: "Suc n \<le> needsize 4 m (Suc n)" for n m by simp
  show "fd_chg (anfds L') (anfdmax L') (fdchanges L') (fdchangecnt L') (fdchangemax L')"
    unfolding fd_chg_def
  proof (intro conjI allI impI)
    show "fdchangecnt L' \<le> fdchangemax L'"
      using assms(2) nm by (simp add: L'_def fd_change_list fd_chg_def)
    show "0 \<le> fdchanges L' i" "fdchanges L' i < int (anfdmax L')" if "i < fdchangecnt L'" for i
      using assms(1,2) that by (auto simp: L'_def fd_change_list fd_chg_def fd_in_def less_Suc_eq split: if_splits)
    show "fd' \<in> fdchanges L' ` {..<fdchangecnt L'}"
      if "0 \<le> fd' \<and> fd' < int (anfdmax L') \<and> anfd_reify (anfds L' fd') \<noteq> 0" for fd'
    proof -
      have "fd' \<in> fd_changes L'" unfolding c
      proof (cases "fd' = fd")
        case False
        then have "anfd_reify (anfds L fd') \<noteq> 0" using that by (simp add: L'_def fd_change_anfds)
        then show "fd' \<in> insert fd (fd_changes L)" using that assms(2) by (auto simp: L'_def fd_chg_def fd_changes_def)
      qed simp
      then show ?thesis by (simp add: fd_changes_def)
    qed
  qed
qed

lemma fd_change_inv:
  assumes "fd_in fd L" "fd_lists (ws L) (anfds L) (anfdmax L)"
    "fd_chg (anfds L) (anfdmax L) (fdchanges L) (fdchangecnt L) (fdchangemax L)"
    "fd_sync (ws L) (anfds L) (anfdmax L) (insert fd (fd_changes L))" "iocnt L = fd_count (anfds L) (anfdmax L)"
  shows "fd_inv (fd_change fd flags L)"
proof -
  let ?L = "fd_change fd flags L"
  have h: "anfd_head (anfds ?L i) = anfd_head (anfds L i)" "anfd_events (anfds ?L i) = anfd_events (anfds L i)" for i
    by (simp_all add: fd_change_anfds)
  show ?thesis unfolding fd_inv_def fd_change_fields
    using fd_change_chg[OF assms(1,3), of flags] assms(2,4,5)
    by (simp add: fd_lists_def fd_sync_def fd_count_def h)
qed

subsection \<open>Start\<close>

lemma need_anfds_props:
  assumes "0 \<le> fd"
  shows "fd_in fd (need_anfds fd L)" "anfdmax L \<le> anfdmax (need_anfds fd L)"
    "i < int (anfdmax L) \<Longrightarrow> anfds (need_anfds fd L) i = anfds L i"
    "int (anfdmax L) \<le> i \<Longrightarrow> i < int (anfdmax (need_anfds fd L)) \<Longrightarrow> anfds (need_anfds fd L) i = anfd_zero"
proof -
  have "nat (fd + 1) \<le> needsize 16 (anfdmax L) (nat (fd + 1))" by (rule needsize_ge) simp
  then have "fd < int (needsize 16 (anfdmax L) (nat (fd + 1)))" by (simp add: nat_le_iff)
  then show "fd_in fd (need_anfds fd L)" using assms by (auto simp: need_anfds_def fd_in_def Let_def)
  show "anfdmax L \<le> anfdmax (need_anfds fd L)" using needsize_mono[of 16] by (simp add: need_anfds_def Let_def)
  show "i < int (anfdmax L) \<Longrightarrow> anfds (need_anfds fd L) i = anfds L i"
    "int (anfdmax L) \<le> i \<Longrightarrow> i < int (anfdmax (need_anfds fd L)) \<Longrightarrow> anfds (need_anfds fd L) i = anfd_zero"
    by (cases "anfdmax L < nat (fd + 1)"; simp add: need_anfds_def Let_def)+
qed

text \<open>Growing the array by zeroed entries keeps every part of the invariant.\<close>

lemma grow_lists:
  assumes "n \<le> n'" "\<And>i. i < int n \<Longrightarrow> A' i = A i" "\<And>i. int n \<le> i \<Longrightarrow> i < int n' \<Longrightarrow> A' i = anfd_zero"
  shows "fd_lists s A n \<Longrightarrow> fd_lists s A' n'" "fd_chg A n ch cnt mx \<Longrightarrow> fd_chg A' n' ch cnt mx"
    "fd_sync s A n C \<Longrightarrow> fd_sync s A' n' C" "fd_count A' n' = fd_count A n"
proof -
  have z: "A' i = A i \<or> A' i = anfd_zero" "i \<ge> int n \<Longrightarrow> A' i = anfd_zero" "i < int n \<Longrightarrow> A' i = A i" if "i < int n'" for i
    using assms(2,3)[of i] that by (cases "i < int n"; auto)+
  have le: "i < int n'" if "i < int n" for i using that assms(1) by simp
  show "fd_lists s A' n'" if "fd_lists s A n"
    unfolding fd_lists_def
  proof (intro conjI allI impI)
    fix fd assume fd: "0 \<le> fd \<and> fd < int n'"
    show "distinct (anfd_head (A' fd))" "\<forall>w \<in> set (anfd_head (A' fd)). kind w = KIo \<and> w_fd (s w) = fd \<and> active (s w) = 1"
      using fd_listsD(1,2)[OF that] fd z(2,3)[of fd] by (cases "fd < int n"; auto simp: anfd_zero_def)+
  next
    fix w assume w: "kind w = KIo \<and> active (s w) \<noteq> 0"
    then show "0 \<le> w_fd (s w)" "w_fd (s w) < int n'" "w \<in> set (anfd_head (A' (w_fd (s w))))"
      using fd_listsD(3)[OF that, of w] assms(2) le by auto
  qed
  show "fd_chg A' n' ch cnt mx" if "fd_chg A n ch cnt mx"
    unfolding fd_chg_def
  proof (intro conjI allI impI)
    show "cnt \<le> mx" using that by (simp add: fd_chg_def)
    show "0 \<le> ch i" "ch i < int n'" if "i < cnt" for i using \<open>fd_chg A n ch cnt mx\<close> that le by (auto simp: fd_chg_def)
    show "fd \<in> ch ` {..<cnt}" if "0 \<le> fd \<and> fd < int n' \<and> anfd_reify (A' fd) \<noteq> 0" for fd
      using \<open>fd_chg A n ch cnt mx\<close> that z(2,3)[of fd] by (cases "fd < int n") (auto simp: fd_chg_def anfd_zero_def)
  qed
  show "fd_sync s A' n' C" if "fd_sync s A n C"
    unfolding fd_sync_def
  proof (intro allI impI)
    fix fd assume fd: "0 \<le> fd \<and> fd < int n' \<and> fd \<notin> C"
    show "anfd_events (A' fd) = want s (anfd_head (A' fd))"
      using that fd z(2,3)[of fd] by (cases "fd < int n") (auto simp: fd_sync_def anfd_zero_def want_def)
  qed
  have "fd_count A' n' = (\<Sum>i < n'. if i < n then int (length (filter (\<lambda>w. \<not> io_is_loop_own w) (anfd_head (A (int i))))) else 0)"
    unfolding fd_count_def by (rule sum.cong) (use z in \<open>auto simp: anfd_zero_def\<close>)
  also have "\<dots> = fd_count A n" unfolding fd_count_def
    by (rule sum.mono_neutral_cong_right) (use assms(1) in auto)
  finally show "fd_count A' n' = fd_count A n" .
qed

lemma fd_count_upd:
  assumes "0 \<le> fd" "fd < int n"
  shows "fd_count (A(fd := a)) n = fd_count A n - int (length (filter (\<lambda>w. \<not> io_is_loop_own w) (anfd_head (A fd))))
    + int (length (filter (\<lambda>w. \<not> io_is_loop_own w) (anfd_head a)))"
proof -
  let ?f = "\<lambda>x. int (length (filter (\<lambda>w. \<not> io_is_loop_own w) (anfd_head x)))"
  have k: "nat fd \<in> {..<n}" "int (nat fd) = fd" using assms by auto
  have "fd_count (A(fd := a)) n = ?f a + (\<Sum>i \<in> {..<n} - {nat fd}. ?f ((A(fd := a)) (int i)))"
    unfolding fd_count_def using k by (subst sum.remove[OF _ k(1)]) auto
  also have "(\<Sum>i \<in> {..<n} - {nat fd}. ?f ((A(fd := a)) (int i))) = (\<Sum>i \<in> {..<n} - {nat fd}. ?f (A (int i)))"
    by (rule sum.cong) (use assms in auto)
  also have "\<dots> = fd_count A n - ?f (A fd)"
    unfolding fd_count_def using k sum.remove[OF _ k(1), of "\<lambda>i. ?f (A (int i))"] by simp
  finally show ?thesis by linarith
qed

lemma chk_True [simp]: "b \<Longrightarrow> chk b L = L"
  by (simp add: chk_def)

text \<open>What the steps of \<^verbatim>\<open>ev_io_start\<close> keep, it keeps.\<close>

lemma io_start_pres:
  assumes "\<And>b L. P L \<Longrightarrow> P (chk b L)" "\<And>w L. P L \<Longrightarrow> P (ev_start w 1 L)" "\<And>n L. P L \<Longrightarrow> P (L\<lparr>iocnt := n\<rparr>)" "\<And>fd L. P L \<Longrightarrow> P (need_anfds fd L)"
    "\<And>fd h L. P L \<Longrightarrow> P (upd_fd fd (\<lambda>a. a\<lparr>anfd_head := h a\<rparr>) L)" "\<And>fd r L. P L \<Longrightarrow> P (fd_change fd r L)"
    "\<And>w h L. P L \<Longrightarrow> P (upd_w w (\<lambda>x. x\<lparr>w_events := h x\<rparr>) L)" "P L"
  shows "P (ev_io_start w L)"
proof (cases "active (ws L w) = 0")
  case True
  then show ?thesis unfolding ev_io_start_def Let_def by (simp only: simp_thms if_False) (intro assms(1-7), rule assms(8))
qed (simp add: ev_io_start_def assms(8))

lemma fd_lists_cong:
  assumes "\<And>v. kind v = KIo \<Longrightarrow> active (s' v) = active (s v)" "\<And>v. kind v = KIo \<Longrightarrow> w_fd (s' v) = w_fd (s v)"
    and "\<And>i. anfd_head (A' i) = anfd_head (A i)" and "fd_lists s A n"
  shows "fd_lists s' A' n"
  unfolding fd_lists_def
proof (intro conjI allI impI ballI)
  fix i w assume i: "0 \<le> i \<and> i < int n"
  show "distinct (anfd_head (A' i))" using fd_listsD(1)[OF assms(4)] i assms(3) by simp
  assume "w \<in> set (anfd_head (A' i))"
  then have "w \<in> set (anfd_head (A i))" using assms(3) by simp
  then have "kind w = KIo \<and> w_fd (s w) = i \<and> active (s w) = 1" using fd_listsD(2)[OF assms(4), of i w] i by blast
  then show "kind w = KIo" "w_fd (s' w) = i" "active (s' w) = 1" using assms(1,2) by auto
next
  fix w assume "kind w = KIo \<and> active (s' w) \<noteq> 0"
  then have "0 \<le> w_fd (s w) \<and> w_fd (s w) < int n \<and> w \<in> set (anfd_head (A (w_fd (s w))))" "w_fd (s' w) = w_fd (s w)"
    using fd_listsD(3)[OF assms(4), of w] assms(1,2)[of w] by auto
  then show "0 \<le> w_fd (s' w)" "w_fd (s' w) < int n" "w \<in> set (anfd_head (A' (w_fd (s' w))))" using assms(3) by auto
qed

lemma lists_notin:
  assumes "fd_lists s A n" "active (s w) \<noteq> 1" "0 \<le> i" "i < int n"
  shows "w \<notin> set (anfd_head (A i))"
  using fd_listsD(2)[OF assms(1,3,4), of w] assms(2) by blast

lemma lists_add:
  assumes L: "fd_lists s A n" and fd: "0 \<le> fd" "fd < int n" and w: "kind w = KIo" "active (s w) = 0"
    and x: "w_fd x = fd" "active x = 1"
  shows "fd_lists (s(w := x)) (A(fd := (A fd)\<lparr>anfd_head := w # anfd_head (A fd)\<rparr>)) n"
proof -
  let ?A = "A(fd := (A fd)\<lparr>anfd_head := w # anfd_head (A fd)\<rparr>)"
  have nin: "w \<notin> set (anfd_head (A i))" if "0 \<le> i" "i < int n" for i
    using lists_notin[OF L _ that, of w] w(2) by simp
  have h: "anfd_head (?A i) = (if i = fd then w # anfd_head (A i) else anfd_head (A i))" for i by simp
  show ?thesis unfolding fd_lists_def h
  proof (intro conjI allI impI)
    fix i assume i: "0 \<le> i \<and> i < int n"
    note li = fd_listsD(1,2)[OF L conjunct1[OF i] conjunct2[OF i]]
    show "distinct (if i = fd then w # anfd_head (A i) else anfd_head (A i))" using li(1) nin[of i] i by auto
    show "\<forall>v \<in> set (if i = fd then w # anfd_head (A i) else anfd_head (A i)).
        kind v = KIo \<and> w_fd ((s(w := x)) v) = i \<and> active ((s(w := x)) v) = 1"
    proof
      fix v assume v: "v \<in> set (if i = fd then w # anfd_head (A i) else anfd_head (A i))"
      show "kind v = KIo \<and> w_fd ((s(w := x)) v) = i \<and> active ((s(w := x)) v) = 1"
      proof (cases "v = w")
        case True
        then have "i = fd" using v nin[of i] i by (auto split: if_splits)
        then show ?thesis using True w x by simp
      next
        case False
        then have "v \<in> set (anfd_head (A i))" using v by (auto split: if_splits)
        then show ?thesis using li(2) False by simp
      qed
    qed
  next
    fix v assume v: "kind v = KIo \<and> active ((s(w := x)) v) \<noteq> 0"
    show "0 \<le> w_fd ((s(w := x)) v)" "w_fd ((s(w := x)) v) < int n"
      "v \<in> set (if w_fd ((s(w := x)) v) = fd then w # anfd_head (A (w_fd ((s(w := x)) v))) else anfd_head (A (w_fd ((s(w := x)) v))))"
    proof -
      have "0 \<le> w_fd ((s(w := x)) v) \<and> w_fd ((s(w := x)) v) < int n \<and>
        (v = w \<and> w_fd ((s(w := x)) v) = fd \<or> v \<in> set (anfd_head (A (w_fd ((s(w := x)) v)))))"
        using v fd x fd_listsD(3)[OF L, of v] by (cases "v = w") auto
      then show "0 \<le> w_fd ((s(w := x)) v)" "w_fd ((s(w := x)) v) < int n"
        "v \<in> set (if w_fd ((s(w := x)) v) = fd then w # anfd_head (A (w_fd ((s(w := x)) v))) else anfd_head (A (w_fd ((s(w := x)) v))))"
        by auto
    qed
  qed
qed

lemma lists_del:
  assumes L: "fd_lists s A n" and w: "kind w = KIo" "active (s w) \<noteq> 0" and x: "active x = 0"
  defines "fd \<equiv> w_fd (s w)"
  shows "fd_lists (s(w := x)) (A(fd := (A fd)\<lparr>anfd_head := remove1 w (anfd_head (A fd))\<rparr>)) n"
proof -
  let ?A = "A(fd := (A fd)\<lparr>anfd_head := remove1 w (anfd_head (A fd))\<rparr>)"
  have h: "anfd_head (?A i) = (if i = fd then remove1 w (anfd_head (A i)) else anfd_head (A i))" for i by simp
  have nin: "w \<notin> set (anfd_head (?A i))" if "0 \<le> i" "i < int n" for i
    using fd_listsD(1)[OF L that] fd_listsD(2)[OF L that, of w] by (auto simp: h fd_def)
  show ?thesis unfolding fd_lists_def
  proof (intro conjI allI impI)
    fix i assume i: "0 \<le> i \<and> i < int n"
    note li = fd_listsD(1,2)[OF L conjunct1[OF i] conjunct2[OF i]]
    show "distinct (anfd_head (?A i))" using li(1) by (auto simp: h)
    show "\<forall>v \<in> set (anfd_head (?A i)). kind v = KIo \<and> w_fd ((s(w := x)) v) = i \<and> active ((s(w := x)) v) = 1"
    proof
      fix v assume v: "v \<in> set (anfd_head (?A i))"
      then have "v \<noteq> w" using nin[of i] i by blast
      moreover have "v \<in> set (anfd_head (A i))" using v set_remove1_subset[of w "anfd_head (A i)"] unfolding h by (auto split: if_splits)
      ultimately show "kind v = KIo \<and> w_fd ((s(w := x)) v) = i \<and> active ((s(w := x)) v) = 1" using li(2) by simp
    qed
  next
    fix v assume v: "kind v = KIo \<and> active ((s(w := x)) v) \<noteq> 0"
    then have ne: "v \<noteq> w" using x by auto
    then have "0 \<le> w_fd (s v) \<and> w_fd (s v) < int n \<and> v \<in> set (anfd_head (A (w_fd (s v))))"
      using v fd_listsD(3)[OF L, of v] by simp
    then show "0 \<le> w_fd ((s(w := x)) v)" "w_fd ((s(w := x)) v) < int n" "v \<in> set (anfd_head (?A (w_fd ((s(w := x)) v))))"
      using ne by (auto simp: h)
  qed
qed

lemma io_start_inv:
  assumes F: "fd_inv L" and P: "pend_inv L" and w: "kind w = KIo" "active (ws L w) = 0"
    and fd: "w_fd (ws L w) \<ge> 0" and ev: "w_events (ws L w) AND NOT (EV__IOFDSET OR EV_READ OR EV_WRITE) = 0"
  defines "L' \<equiv> ev_io_start w L"
  shows "fd_inv L'" "pend_inv L'" "pend_of L' = pend_of L" "ok L' = ok L" "v \<noteq> w \<Longrightarrow> ws L' v = ws L v"
    "active (ws L' w) = 1" "w_fd (ws L' w) = w_fd (ws L w)" "w_events (ws L' w) = w_events (ws L w) AND NOT EV__IOFDSET"
    "pri_valid (ws L' w)" "w_fd (ws L w) \<in> fd_changes L'"
proof -
  define k :: int where "k = (if io_is_loop_own w then 0 else 1)"
  let ?fd = "w_fd (ws L w)"
  let ?s1 = "(ws L)(w := (ws L w)\<lparr>priority := pri_clamp (priority (ws L w)), active := 1\<rparr>)"
  let ?L1 = "L\<lparr>ws := ?s1, activecnt := activecnt L + 1, iocnt := iocnt L + k\<rparr>"
  define L2 where "L2 = need_anfds ?fd ?L1"
  define L3 where "L3 = upd_fd ?fd (\<lambda>a. a\<lparr>anfd_head := w # anfd_head a\<rparr>) L2"
  let ?fl = "ucast ((w_events (ws L w) AND EV__IOFDSET) OR EV_ANFD_REIFY) :: u8"
  define L4 where "L4 = fd_change ?fd ?fl L3"
  note FD = F[unfolded fd_inv_def]
  have n: "fd_in ?fd L2" "anfdmax L \<le> anfdmax L2" "\<And>i. i < int (anfdmax L) \<Longrightarrow> anfds L2 i = anfds L i"
    "\<And>i. int (anfdmax L) \<le> i \<Longrightarrow> i < int (anfdmax L2) \<Longrightarrow> anfds L2 i = anfd_zero"
    using need_anfds_props[OF fd, where L = ?L1] by (simp_all add: L2_def)
  have n2: "ws L2 = ?s1" "ok L2 = ok L" "iocnt L2 = iocnt ?L1" "fdchanges L2 = fdchanges L"
    "fdchangecnt L2 = fdchangecnt L" "fdchangemax L2 = fdchangemax L" "pendings L2 = pendings L"
    "pendingcnt L2 = pendingcnt L" "pendingmax L2 = pendingmax L" by (simp_all add: L2_def need_anfds_def Let_def)
  have g: "fd_lists s (anfds L) (anfdmax L) \<Longrightarrow> fd_lists s (anfds L2) (anfdmax L2)"
    "fd_chg (anfds L2) (anfdmax L2) (fdchanges L) (fdchangecnt L) (fdchangemax L)"
    "fd_sync (ws L) (anfds L2) (anfdmax L2) (fd_changes L)"
    "fd_count (anfds L2) (anfdmax L2) = iocnt L" for s
    using grow_lists[of "anfdmax L" "anfdmax L2" "anfds L2" "anfds L"] n(2-4) FD by auto
  have fin: "0 \<le> ?fd" "?fd < int (anfdmax L2)" using n(1) by (auto simp: fd_in_def)
  have nin: "w \<notin> set (anfd_head (anfds L2 i))" if "0 \<le> i" "i < int (anfdmax L2)" for i
    using fd_listsD(2)[OF g(1)[OF conjunct1[OF FD]] that, of w] w(2) by auto
  have l3: "ws L3 = ?s1" "ok L3 = ok L" "anfdmax L3 = anfdmax L2" "fd_in ?fd L3"
    "anfds L3 = (anfds L2)(?fd := (anfds L2 ?fd)\<lparr>anfd_head := w # anfd_head (anfds L2 ?fd)\<rparr>)"
    "fd_changes L3 = fd_changes L" using n2 n(1) by (simp_all add: L3_def upd_fd_def fd_in_def fd_changes_def)
  have hd: "\<not> (anfd_head (anfds L2 ?fd) \<noteq> [] \<and> hd (anfd_head (anfds L2 ?fd)) = w)"
    using nin[OF fin] by (metis hd_in_set)
  have e: "L' = upd_w w (\<lambda>x. x\<lparr>w_events := w_events x AND NOT EV__IOFDSET\<rparr>) L4"
  proof -
    have "(ev_start w 1 (chk (w_events (ws L w) AND NOT (EV__IOFDSET OR EV_READ OR EV_WRITE) = 0) (chk (?fd \<ge> 0) L)))
      \<lparr>iocnt := iocnt L + k\<rparr> = ?L1"
      using fd ev by (simp add: base_defs pri_clamp_def)
    moreover have "iocnt (ev_start w 1 (chk (w_events (ws L w) AND NOT (EV__IOFDSET OR EV_READ OR EV_WRITE) = 0) (chk (?fd \<ge> 0) L))) = iocnt L"
      by (simp add: base_defs Let_def)
    ultimately show ?thesis using w(2) hd l3(1) fd ev by (simp add: L'_def ev_io_start_def Let_def k_def[symmetric] L4_def L3_def L2_def)
  qed
  have LL: "fd_lists (ws L3) (anfds L3) (anfdmax L3)"
    unfolding l3(1,3,5) by (rule lists_add[OF g(1)[OF conjunct1[OF FD]] fin w]) simp_all
  have C3: "fd_chg (anfds L3) (anfdmax L3) (fdchanges L3) (fdchangecnt L3) (fdchangemax L3)"
    using g(2) n2 by (simp add: L3_def upd_fd_def fd_chg_def)
  have S3: "fd_sync s (anfds L3) (anfdmax L3) (insert ?fd (fd_changes L3))"
    if "\<And>v. v \<noteq> w \<Longrightarrow> w_events (s v) = w_events (ws L v)" for s
    unfolding fd_sync_def l3(3,5,6)
  proof (intro allI impI)
    fix i assume i: "0 \<le> i \<and> i < int (anfdmax L2) \<and> i \<notin> insert ?fd (fd_changes L)"
    have "want s (anfd_head (anfds L2 i)) = want (ws L) (anfd_head (anfds L2 i))"
      by (rule want_cong) (use nin[of i] i that in metis)
    then show "anfd_events (((anfds L2)(?fd := (anfds L2 ?fd)\<lparr>anfd_head := w # anfd_head (anfds L2 ?fd)\<rparr>)) i) =
      want s (anfd_head (((anfds L2)(?fd := (anfds L2 ?fd)\<lparr>anfd_head := w # anfd_head (anfds L2 ?fd)\<rparr>)) i))"
      using g(3) i by (simp add: fd_sync_def)
  qed
  have I3: "iocnt L3 = fd_count (anfds L3) (anfdmax L3)"
    unfolding l3(3,5) fd_count_upd[OF fin] using g(4) n2(3) by (simp add: L3_def upd_fd_def k_def)
  have F4: "fd_inv L4" unfolding L4_def by (rule fd_change_inv[OF l3(4) LL C3 S3 I3]) (simp add: l3(1))
  have ch: "fd_changes L4 = insert ?fd (fd_changes L)" using fd_change_chg(2)[OF l3(4) C3] l3(6) by (simp add: L4_def)
  have h4: "anfd_head (anfds L4 i) = anfd_head (anfds L3 i)" "anfd_events (anfds L4 i) = anfd_events (anfds L3 i)" for i
    by (simp_all add: L4_def fd_change_anfds)
  have ws4: "ws L4 = ?s1" "anfdmax L4 = anfdmax L3" "ok L4 = ok L" using l3(1,2) fd_change_ok[OF l3(4)] by (simp_all add: L4_def)
  have w4: "ws L' = ?s1(w := (?s1 w)\<lparr>w_events := w_events (ws L w) AND NOT EV__IOFDSET\<rparr>)"
    by (simp add: e upd_w_def ws4)
  have fr: "anfds L' = anfds L4" "anfdmax L' = anfdmax L4" "fdchanges L' = fdchanges L4" "iocnt L' = iocnt L4"
    "fdchangecnt L' = fdchangecnt L4" "fdchangemax L' = fdchangemax L4" "fd_changes L' = fd_changes L4"
    by (simp_all add: e upd_w_def fd_changes_def)
  have "fd_sync (ws L') (anfds L') (anfdmax L') (fd_changes L')"
    using S3[of "ws L'"] unfolding fr ch l3(6) by (simp add: w4 fd_sync_def h4 ws4)
  moreover have "fd_lists (ws L') (anfds L') (anfdmax L')"
    unfolding fr ws4(2) by (rule fd_lists_cong[OF _ _ h4(1) LL]) (simp_all add: w4 l3(1))
  ultimately show "fd_inv L'" using F4 unfolding fd_inv_def by (simp add: fr)
  have pd: "pending (ws L' v) = pending (ws L v)" for v by (simp add: w4)
  have pr: "priority (ws L' v) = priority (ws L v)" if "pending (ws L v) \<noteq> 0" for v
    using pend_pending(1)[OF P that] by (auto simp: w4 pri_clamp_def pri_valid_def)
  have f: "pendings L' = pendings L" "pendingcnt L' = pendingcnt L" "pendingmax L' = pendingmax L"
    using n2 by (simp_all add: e L4_def L3_def upd_w_def upd_fd_def)
  show "pend_inv L'" "pend_of L' = pend_of L" using pend_cong[OF f pd pr] P by auto
  show "ok L' = ok L" using ws4 by (simp add: e upd_w_def)
  show "v \<noteq> w \<Longrightarrow> ws L' v = ws L v" by (simp add: w4)
  show "active (ws L' w) = 1" "w_fd (ws L' w) = w_fd (ws L w)"
    "w_events (ws L' w) = w_events (ws L w) AND NOT EV__IOFDSET" by (simp_all add: w4)
  show "pri_valid (ws L' w)" by (simp add: w4 pri_clamp_def pri_valid_def)
  show "w_fd (ws L w) \<in> fd_changes L'" by (simp add: fr ch)
qed

subsection \<open>Stop\<close>

lemma fd_inv_cong:
  assumes "\<And>v. kind v = KIo \<Longrightarrow> active (ws L' v) = active (ws L v)" "\<And>v. kind v = KIo \<Longrightarrow> w_fd (ws L' v) = w_fd (ws L v)"
    "\<And>v. kind v = KIo \<Longrightarrow> w_events (ws L' v) = w_events (ws L v)"
    and f: "anfds L' = anfds L" "anfdmax L' = anfdmax L" "fdchanges L' = fdchanges L" "fdchangecnt L' = fdchangecnt L"
    "fdchangemax L' = fdchangemax L" "iocnt L' = iocnt L" and F: "fd_inv L"
  shows "fd_inv L'"
proof -
  note FD = F[unfolded fd_inv_def]
  have "fd_sync (ws L') (anfds L) (anfdmax L) (fd_changes L)"
    unfolding fd_sync_def
  proof (intro allI impI)
    fix fd assume fd: "0 \<le> fd \<and> fd < int (anfdmax L) \<and> fd \<notin> fd_changes L"
    have "want (ws L') (anfd_head (anfds L fd)) = want (ws L) (anfd_head (anfds L fd))"
      by (rule want_cong) (use assms(3) fd_listsD(2)[OF conjunct1[OF FD], of fd] fd in blast)
    then show "anfd_events (anfds L fd) = want (ws L') (anfd_head (anfds L fd))"
      using FD fd by (simp add: fd_sync_def)
  qed
  moreover have "fd_lists (ws L') (anfds L) (anfdmax L)"
    by (rule fd_lists_cong[OF assms(1,2) refl conjunct1[OF FD]])
  ultimately show ?thesis using FD by (simp add: fd_inv_def f fd_changes_def)
qed

lemma fd_inv_clear: "fd_inv L \<Longrightarrow> fd_inv (clear_pending w L)"
  by (rule fd_inv_cong[of _ L]) (auto simp: clear_w)

lemma fd_inv_feed: "fd_inv L \<Longrightarrow> fd_inv (ev_feed_event w r L)"
  by (rule fd_inv_cong[of _ L]) simp_all

lemma io_stop_inactive: "active (ws L w) = 0 \<Longrightarrow> ev_io_stop w L = clear_pending w L"
  by (simp add: ev_io_stop_def Let_def)

lemma io_stop_inv:
  assumes F: "fd_inv L" and P: "pend_inv L" and w: "kind w = KIo"
  defines "L' \<equiv> ev_io_stop w L"
  shows "fd_inv L'" "pend_inv L'" "pend_of L' = (pend_of L)(w := None)" "ok L' = ok L"
    "v \<noteq> w \<Longrightarrow> ws L' v = ws L v" "ws L' w = (ws L w)\<lparr>pending := 0, active := 0\<rparr>"
    "anfd_head (anfds L' (w_fd (ws L w))) =
      (if active (ws L w) = 0 then anfd_head (anfds L (w_fd (ws L w))) else remove1 w (anfd_head (anfds L (w_fd (ws L w)))))"
    "i \<noteq> w_fd (ws L w) \<Longrightarrow> anfds L' i = anfds L i"
    "active (ws L w) \<noteq> 0 \<Longrightarrow> w_fd (ws L w) \<in> fd_changes L'" "anfdmax L' = anfdmax L"
proof -
  define C where "C = clear_pending w L"
  have C: "fd_inv C" "pend_inv C" "pend_of C = (pend_of L)(w := None)" "ok C = ok L"
    "ws C = (ws L)(w := (ws L w)\<lparr>pending := 0\<rparr>)" "anfds C = anfds L" "anfdmax C = anfdmax L"
    using fd_inv_clear[OF F] clear_inv[OF P] clear_pend_of[OF P] clear_ok[OF P] by (simp_all add: C_def clear_w)
  have "fd_inv L' \<and> pend_inv L' \<and> pend_of L' = (pend_of L)(w := None) \<and> ok L' = ok L \<and>
    (v \<noteq> w \<longrightarrow> ws L' v = ws L v) \<and> ws L' w = (ws L w)\<lparr>pending := 0, active := 0\<rparr> \<and>
    anfd_head (anfds L' (w_fd (ws L w))) =
      (if active (ws L w) = 0 then anfd_head (anfds L (w_fd (ws L w))) else remove1 w (anfd_head (anfds L (w_fd (ws L w))))) \<and>
    (i \<noteq> w_fd (ws L w) \<longrightarrow> anfds L' i = anfds L i) \<and> (active (ws L w) \<noteq> 0 \<longrightarrow> w_fd (ws L w) \<in> fd_changes L') \<and>
    anfdmax L' = anfdmax L"
  proof (cases "active (ws L w) = 0")
    case True
    then have "L' = C" by (simp add: L'_def C_def io_stop_inactive)
    then show ?thesis using C True by simp
  next
    case act: False
    let ?fd = "w_fd (ws L w)"
    note FD = C(1)[unfolded fd_inv_def]
    have aw: "active (ws C w) \<noteq> 0" "w_fd (ws C w) = ?fd" using act by (simp_all add: C(5))
    have fin: "0 \<le> ?fd" "?fd < int (anfdmax C)" "w \<in> set (anfd_head (anfds C ?fd))"
      using fd_listsD(3)[OF conjunct1[OF FD] w aw(1)] aw(2) by auto
    define x where "x = (ws C w)\<lparr>active := 0\<rparr>"
    define A where "A = (anfds C)(?fd := (anfds C ?fd)\<lparr>anfd_head := remove1 w (anfd_head (anfds C ?fd))\<rparr>)"
    define D where "D = C\<lparr>anfds := A, activecnt := activecnt C - 1, ws := (ws C)(w := x),
      iocnt := iocnt C - (if io_is_loop_own w then 0 else 1)\<rparr>"
    have e: "L' = fd_change ?fd (ucast EV_ANFD_REIFY) D"
      using act fin by (simp add: L'_def ev_io_stop_def Let_def C_def[symmetric] aw base_defs upd_fd_def D_def A_def x_def
          fd_in_def)
    have D: "ws D = (ws C)(w := x)" "anfds D = A" "anfdmax D = anfdmax C" "fd_in ?fd D" "ok D = ok C"
      "fd_changes D = fd_changes C" "fdchanges D = fdchanges C" "fdchangecnt D = fdchangecnt C"
      "fdchangemax D = fdchangemax C" using fin by (simp_all add: D_def fd_in_def fd_changes_def)
    have LD: "fd_lists (ws D) (anfds D) (anfdmax D)"
      unfolding D A_def using lists_del[OF conjunct1[OF FD] w aw(1), of x] by (simp add: x_def aw(2))
    have CD: "fd_chg (anfds D) (anfdmax D) (fdchanges D) (fdchangecnt D) (fdchangemax D)"
      unfolding D using FD by (simp add: fd_chg_def A_def)
    have ne: "w \<notin> set (anfd_head (anfds C i))" if "0 \<le> i" "i < int (anfdmax C)" "i \<noteq> ?fd" for i
      using fd_listsD(2)[OF conjunct1[OF FD] that(1,2), of w] aw(2) that(3) by auto
    have SD: "fd_sync (ws D) (anfds D) (anfdmax D) (insert ?fd (fd_changes D))"
      unfolding fd_sync_def D
    proof (intro allI impI)
      fix i assume i: "0 \<le> i \<and> i < int (anfdmax C) \<and> i \<notin> insert ?fd (fd_changes C)"
      have "want ((ws C)(w := x)) (anfd_head (anfds C i)) = want (ws C) (anfd_head (anfds C i))"
        by (rule want_cong) (use ne[of i] i in auto)
      then show "anfd_events (A i) = want ((ws C)(w := x)) (anfd_head (A i))"
        using FD i by (simp add: fd_sync_def A_def)
    qed
    have "length (filter (\<lambda>w. \<not> io_is_loop_own w) (remove1 w (anfd_head (anfds C ?fd)))) =
      length (filter (\<lambda>w. \<not> io_is_loop_own w) (anfd_head (anfds C ?fd))) - (if io_is_loop_own w then 0 else 1)"
      using fin(3) by (simp add: filter_remove1 length_remove1)
    moreover have "\<not> io_is_loop_own w \<Longrightarrow> 0 < length (filter (\<lambda>w. \<not> io_is_loop_own w) (anfd_head (anfds C ?fd)))"
      using fin(3) by (auto simp: filter_empty_conv)
    ultimately have "int (length (filter (\<lambda>w. \<not> io_is_loop_own w) (remove1 w (anfd_head (anfds C ?fd))))) =
      int (length (filter (\<lambda>w. \<not> io_is_loop_own w) (anfd_head (anfds C ?fd)))) - (if io_is_loop_own w then 0 else 1)"
      by (cases "io_is_loop_own w"; simp only: if_True if_False; linarith)
    then have ID: "iocnt D = fd_count (anfds D) (anfdmax D)"
      unfolding D(2,3) A_def fd_count_upd[OF fin(1,2)] using FD by (simp add: D_def)
    have "fd_inv L'" unfolding e by (rule fd_change_inv[OF D(4) LD CD SD ID])
    moreover have "ok L' = ok L" unfolding e using fd_change_ok[OF D(4)] D(5) C(4) by simp
    moreover have ws': "ws L' = (ws C)(w := x)" by (simp add: e D(1))
    moreover have "pend_inv L'" "pend_of L' = pend_of C"
      using pend_cong[of L' C] C(2) by (simp_all add: ws' x_def, simp_all add: e D_def)
    moreover have "anfds L' = A(?fd := (A ?fd)\<lparr>anfd_reify := anfd_reify (A ?fd) OR ucast EV_ANFD_REIFY\<rparr>)"
      by (simp add: e fd_change_anfds D(2))
    moreover have "?fd \<in> fd_changes L'" unfolding e using fd_change_chg(2)[OF D(4) CD] by simp
    ultimately show ?thesis using C act by (simp add: A_def x_def e D(3))
  qed
  then show "fd_inv L'" "pend_inv L'" "pend_of L' = (pend_of L)(w := None)" "ok L' = ok L"
    "v \<noteq> w \<Longrightarrow> ws L' v = ws L v" "ws L' w = (ws L w)\<lparr>pending := 0, active := 0\<rparr>"
    "anfd_head (anfds L' (w_fd (ws L w))) =
      (if active (ws L w) = 0 then anfd_head (anfds L (w_fd (ws L w))) else remove1 w (anfd_head (anfds L (w_fd (ws L w)))))"
    "i \<noteq> w_fd (ws L w) \<Longrightarrow> anfds L' i = anfds L i"
    "active (ws L w) \<noteq> 0 \<Longrightarrow> w_fd (ws L w) \<in> fd_changes L'" "anfdmax L' = anfdmax L" by auto
qed

subsection \<open>Change of the watched events\<close>

lemma io_modify_inv:
  fixes events :: u32
  assumes F: "fd_inv L" and P: "pend_inv L" and w: "kind w = KIo"
  defines "L' \<equiv> ev_io_modify w events L"
  shows "fd_inv L'" "pend_inv L'" "pend_of L' = pend_of L" "ok L' = ok L" "v \<noteq> w \<Longrightarrow> ws L' v = ws L v"
    "ws L' w = (ws L w)\<lparr>w_events := (w_events (ws L w) AND EV__IOFDSET) OR (events AND (EV_READ OR EV_WRITE))\<rparr>"
proof -
  let ?e = "(w_events (ws L w) AND EV__IOFDSET) OR (events AND (EV_READ OR EV_WRITE))"
  define x where "x = (ws L w)\<lparr>w_events := ?e\<rparr>"
  define U where "U = L\<lparr>ws := (ws L)(w := x)\<rparr>"
  have "fd_inv L' \<and> pend_inv L' \<and> pend_of L' = pend_of L \<and> ok L' = ok L \<and> (v \<noteq> w \<longrightarrow> ws L' v = ws L v) \<and> ws L' w = x"
  proof (cases "w_events (ws L w) = ?e")
    case True
    then have "L' = L" "x = ws L w" by (simp_all add: L'_def ev_io_modify_def x_def Let_def)
    then show ?thesis using F P by simp
  next
    case ne: False
    note FD = F[unfolded fd_inv_def]
    have U: "ws U = (ws L)(w := x)" "anfds U = anfds L" "anfdmax U = anfdmax L" "fd_changes U = fd_changes L"
      "fdchanges U = fdchanges L" "fdchangecnt U = fdchangecnt L" "fdchangemax U = fdchangemax L" "iocnt U = iocnt L"
      "ok U = ok L" by (simp_all add: U_def fd_changes_def)
    have LU: "fd_lists (ws U) (anfds U) (anfdmax U)"
      unfolding U by (rule fd_lists_cong[OF _ _ refl conjunct1[OF FD]]) (simp_all add: x_def)
    have pU: "pend_inv U" "pend_of U = pend_of L" using pend_cong[of U L] P by (simp_all add: U_def x_def)
    have sy: "anfd_events (anfds L i) = want (ws U) (anfd_head (anfds L i))"
      if "0 \<le> i" "i < int (anfdmax L)" "i \<notin> fd_changes L" "w \<notin> set (anfd_head (anfds L i))" for i
    proof -
      have "want (ws U) (anfd_head (anfds L i)) = want (ws L) (anfd_head (anfds L i))"
        by (rule want_cong) (use that(4) in \<open>auto simp: U(1)\<close>)
      then show ?thesis using FD that by (simp add: fd_sync_def)
    qed
    show ?thesis
    proof (cases "active (ws L w) = 0")
      case True
      then have e: "L' = U" using ne by (simp add: L'_def ev_io_modify_def Let_def upd_w_def U_def x_def)
      have "w \<notin> set (anfd_head (anfds L i))" if "0 \<le> i" "i < int (anfdmax L)" for i
        using lists_notin[OF conjunct1[OF FD] _ that, of w] True by simp
      then have "fd_sync (ws U) (anfds U) (anfdmax U) (fd_changes U)" unfolding fd_sync_def U(2-4) using sy by blast
      then show ?thesis unfolding e fd_inv_def using FD LU pU by (simp add: U)
    next
      case act: False
      let ?fd = "w_fd (ws L w)"
      have e: "L' = fd_change ?fd 0 U" using ne act by (simp add: L'_def ev_io_modify_def Let_def upd_w_def U_def x_def)
      have fin: "fd_in ?fd U" using fd_listsD(3)[OF conjunct1[OF FD] w act] by (simp add: fd_in_def U)
      have "fd_sync (ws U) (anfds U) (anfdmax U) (insert ?fd (fd_changes U))"
        unfolding fd_sync_def U(2-4)
      proof (intro allI impI)
        fix i assume i: "0 \<le> i \<and> i < int (anfdmax L) \<and> i \<notin> insert ?fd (fd_changes L)"
        then have "w \<notin> set (anfd_head (anfds L i))" using fd_listsD(2)[OF conjunct1[OF FD], of i w] by auto
        then show "anfd_events (anfds L i) = want (ws U) (anfd_head (anfds L i))" using sy i by blast
      qed
      moreover have "fd_chg (anfds U) (anfdmax U) (fdchanges U) (fdchangecnt U) (fdchangemax U)" using FD by (simp add: U)
      moreover have "iocnt U = fd_count (anfds U) (anfdmax U)" using FD by (simp add: U)
      ultimately have "fd_inv L'" unfolding e using LU by (intro fd_change_inv[OF fin])
      moreover have "ok L' = ok L" unfolding e using fd_change_ok[OF fin] U(9) by simp
      moreover have "pend_inv L'" "pend_of L' = pend_of U" using pend_cong[of L' U] pU(1) by (simp_all add: e)
      ultimately show ?thesis using pU by (simp add: e U)
    qed
  qed
  then show "fd_inv L'" "pend_inv L'" "pend_of L' = pend_of L" "ok L' = ok L" "v \<noteq> w \<Longrightarrow> ws L' v = ws L v"
    "ws L' w = (ws L w)\<lparr>w_events := ?e\<rparr>" by (auto simp: x_def)
qed

subsection \<open>Delivering a readiness report\<close>

definition io_hits :: "u32 \<Rightarrow> wstore \<Rightarrow> W list \<Rightarrow> W set" where
  "io_hits r s vs = {w \<in> set vs. w_events (s w) AND r \<noteq> 0}"

abbreviation feed_hit :: "u32 \<Rightarrow> W \<Rightarrow> 'w ev_loop \<Rightarrow> 'w ev_loop" where
  "feed_hit r \<equiv> (\<lambda>w L. let ev = w_events (ws L w) AND r in if ev \<noteq> 0 then ev_feed_event w ev L else L)"

lemma feed_hits:
  fixes r :: u32
  assumes "pend_inv L" "\<forall>w \<in> set vs. pri_valid (ws L w) \<and> w \<noteq> PendingW" "distinct vs"
  defines "L' \<equiv> fold (feed_hit r) vs L"
  shows "pend_inv L' \<and> ok L' = ok L \<and>
    (\<forall>w. pend_of L' w = (if w \<in> io_hits r (ws L) vs
       then Some ((case pend_of L w of None \<Rightarrow> 0 | Some e \<Rightarrow> e) OR (w_events (ws L w) AND r)) else pend_of L w)) \<and>
    (\<forall>v. (ws L' v)\<lparr>pending := 0\<rparr> = (ws L v)\<lparr>pending := 0\<rparr>) \<and> anfds L' = anfds L \<and> anfdmax L' = anfdmax L \<and>
    (fd_inv L \<longrightarrow> fd_inv L')"
  using assms(1-3) unfolding L'_def
proof (induction vs arbitrary: L)
  case Nil
  then show ?case by (simp add: io_hits_def)
next
  case (Cons v vs)
  let ?L = "feed_hit r v L"
  have p: "pend_inv ?L" "ok ?L = ok L" "pend_of ?L = (if w_events (ws L v) AND r \<noteq> 0
      then (pend_of L)(v \<mapsto> (case pend_of L v of None \<Rightarrow> w_events (ws L v) AND r | Some e \<Rightarrow> e OR (w_events (ws L v) AND r)))
      else pend_of L)"
    using feed_inv[OF Cons.prems(1), of v] feed_ok[OF Cons.prems(1), of v] feed_pend_of[OF Cons.prems(1), of v] Cons.prems
    by (auto simp: Let_def)
  have q: "\<forall>w \<in> set vs. pri_valid (ws ?L w) \<and> w \<noteq> PendingW" using Cons.prems(2) by (simp add: Let_def)
  have f: "w_events (ws ?L w) = w_events (ws L w)" "(ws ?L w)\<lparr>pending := 0\<rparr> = (ws L w)\<lparr>pending := 0\<rparr>"
    "anfds ?L = anfds L" "anfdmax ?L = anfdmax L" "fd_inv L \<Longrightarrow> fd_inv ?L" for w
    by (simp_all add: Let_def fd_inv_feed)
  have h: "io_hits r (ws ?L) vs = io_hits r (ws L) vs" by (simp add: io_hits_def f(1))
  have H: "io_hits r (ws L) (v # vs) = (if w_events (ws L v) AND r \<noteq> 0 then insert v (io_hits r (ws L) vs) else io_hits r (ws L) vs)"
    by (auto simp: io_hits_def)
  have nv: "v \<notin> io_hits r (ws L) vs" using Cons.prems(3) by (simp add: io_hits_def)
  note IH = Cons.IH[OF p(1) q distinct.simps(2)[THEN iffD1, OF Cons.prems(3), THEN conjunct2], unfolded h f]
  define R where "R = fold (feed_hit r) vs ?L"
  have IH': "pend_inv R" "ok R = ok ?L" "anfds R = anfds L" "anfdmax R = anfdmax L" "fd_inv ?L \<Longrightarrow> fd_inv R"
    "\<And>w. pend_of R w = (if w \<in> io_hits r (ws L) vs
       then Some ((case pend_of ?L w of None \<Rightarrow> 0 | Some e \<Rightarrow> e) OR (w_events (ws L w) AND r)) else pend_of ?L w)"
    "\<And>w. (ws R w)\<lparr>pending := 0\<rparr> = (ws L w)\<lparr>pending := 0\<rparr>"
    using IH f(2) unfolding R_def by blast+
  have P: "pend_of R w = (if w \<in> io_hits r (ws L) (v # vs)
       then Some ((case pend_of L w of None \<Rightarrow> 0 | Some e \<Rightarrow> e) OR (w_events (ws L w) AND r)) else pend_of L w)" for w
  proof (cases "w = v")
    case True
    then show ?thesis using nv unfolding IH'(6) H p(3) by (simp split: option.split)
  next
    case False
    then have "pend_of ?L w = pend_of L w" unfolding p(3) by simp
    moreover have "w \<in> io_hits r (ws L) (v # vs) \<longleftrightarrow> w \<in> io_hits r (ws L) vs" using False unfolding H by simp
    ultimately show ?thesis unfolding IH'(6) by simp
  qed
  have "fold (feed_hit r) (v # vs) L = R" by (simp add: R_def)
  then show ?case using IH'(1-5,7) P p(2) f(5) by simp
qed

subsection \<open>Killing a descriptor\<close>

definition EV_KILL :: u32 where "EV_KILL = EV_ERROR OR EV_READ OR EV_WRITE"

lemma fd_kill_returns:
  assumes "fd_inv L" "pend_inv L" "fd_in fd L" "\<forall>w \<in> set (anfd_head (anfds L fd)). pri_valid (ws L w)"
  shows "\<exists>L'. fd_kill fd L = Some L' \<and> fd_inv L' \<and> pend_inv L' \<and> ok L' = ok L \<and> anfd_head (anfds L' fd) = [] \<and>
    (\<forall>w. w \<notin> set (anfd_head (anfds L fd)) \<longrightarrow> ws L' w = ws L w) \<and> (\<forall>i. i \<noteq> fd \<longrightarrow> anfds L' i = anfds L i) \<and>
    (\<forall>w. pend_of L' w = (if w \<in> set (anfd_head (anfds L fd)) then Some EV_KILL else pend_of L w)) \<and>
    (\<forall>w \<in> set (anfd_head (anfds L fd)). active (ws L' w) = 0)"
  using assms
proof (induction "length (anfd_head (anfds L fd))" arbitrary: L)
  case 0
  then show ?case by (subst fd_kill.simps) simp
next
  case (Suc n)
  then obtain w vs where h: "anfd_head (anfds L fd) = w # vs" by (cases "anfd_head (anfds L fd)") auto
  define S where "S = ev_io_stop w L"
  define M where "M = ev_feed_event w EV_KILL S"
  have fd: "0 \<le> fd" "fd < int (anfdmax L)" using Suc.prems(3) by (auto simp: fd_in_def)
  note FD = Suc.prems(1)[unfolded fd_inv_def]
  have w: "kind w = KIo" "w_fd (ws L w) = fd" "active (ws L w) = 1"
    using fd_listsD(2)[OF conjunct1[OF FD] fd, of w] h by auto
  have dis: "distinct (w # vs)" using fd_listsD(1)[OF conjunct1[OF FD] fd] h by simp
  note st = io_stop_inv[OF Suc.prems(1,2) w(1), folded S_def]
  have pv: "pri_valid (ws S w)" using Suc.prems(4) h by (simp add: st(6) pri_valid_def)
  have wp: "w \<noteq> PendingW" using w(1) by auto
  have hM: "anfd_head (anfds M fd) = vs" using st(7) w h by (simp add: M_def)
  have wsM: "ws M v = ws L v" if "v \<noteq> w" for v using feed_other[OF that, of EV_KILL S] st(5)[OF that] by (simp add: M_def)
  have oth: "anfds M i = anfds L i" if "i \<noteq> fd" for i using st(8)[of i] w(2) that by (simp add: M_def)
  have pM: "pend_inv M" "ok M = ok L" "pend_of M = (pend_of L)(w \<mapsto> EV_KILL)"
    using feed_inv[OF st(2) pv wp] feed_ok[OF st(2) pv] feed_pend_of[OF st(2), of w EV_KILL] st(3,4)
    by (simp_all add: M_def)
  have FM: "fd_inv M" "fd_in fd M" using fd_inv_feed[OF st(1)] st(10) Suc.prems(3) by (simp_all add: M_def fd_in_def)
  have "\<forall>v \<in> set (anfd_head (anfds M fd)). pri_valid (ws M v)"
  proof
    fix v assume "v \<in> set (anfd_head (anfds M fd))"
    then have "v \<in> set vs" "v \<noteq> w" using hM dis by auto
    then show "pri_valid (ws M v)" using Suc.prems(4) h wsM[of v] by simp
  qed
  from Suc.hyps(1)[of M, OF _ FM(1) pM(1) FM(2) this] obtain L' where L': "fd_kill fd M = Some L'"
    "fd_inv L'" "pend_inv L'" "ok L' = ok M" "anfd_head (anfds L' fd) = []"
    "\<And>v. v \<notin> set vs \<Longrightarrow> ws L' v = ws M v" "\<And>i. i \<noteq> fd \<Longrightarrow> anfds L' i = anfds M i"
    "\<And>v. pend_of L' v = (if v \<in> set vs then Some EV_KILL else pend_of M v)" "\<And>v. v \<in> set vs \<Longrightarrow> active (ws L' v) = 0"
    using Suc.hyps(2) h hM by auto
  have e: "fd_kill fd L = Some L'" using L'(1) h by (subst fd_kill.simps) (simp add: M_def S_def EV_KILL_def)
  have "active (ws M w) = 0" using st(6) by (simp add: M_def)
  then have "active (ws L' w) = 0" using L'(6)[of w] dis by simp
  then have a: "\<forall>v \<in> set (w # vs). active (ws L' v) = 0" using L'(9) by simp
  have b: "\<forall>v. pend_of L' v = (if v \<in> set (w # vs) then Some EV_KILL else pend_of L v)"
    using L'(8) pM(3) by simp
  have c: "\<forall>v. v \<notin> set (w # vs) \<longrightarrow> ws L' v = ws L v" using L'(6) wsM by simp
  have d: "\<forall>i. i \<noteq> fd \<longrightarrow> anfds L' i = anfds L i" using L'(7) oth by simp
  show ?case unfolding h using e L'(2-5) pM(2) a b c d by blast
qed

subsection \<open>Reification through the backend\<close>

text \<open>The invariant while \<^verbatim>\<open>fd_reify\<close> has processed the first \<open>i\<close> entries of the change list.\<close>

definition fd_inv_from :: "nat \<Rightarrow> 'w ev_loop \<Rightarrow> bool" where
  "fd_inv_from i L \<longleftrightarrow>
     fd_lists (ws L) (anfds L) (anfdmax L) \<and> i \<le> fdchangecnt L \<and> fdchangecnt L \<le> fdchangemax L \<and>
     (\<forall>j < fdchangecnt L. fd_in (fdchanges L j) L) \<and>
     (\<forall>fd. fd_in fd L \<and> anfd_reify (anfds L fd) \<noteq> 0 \<longrightarrow> fd \<in> fdchanges L ` {i..<fdchangecnt L}) \<and>
     fd_sync (ws L) (anfds L) (anfdmax L) (fdchanges L ` {i..<fdchangecnt L}) \<and>
     iocnt L = fd_count (anfds L) (anfdmax L)"

lemma fd_inv_from_0: "fd_inv_from 0 L \<longleftrightarrow> fd_inv L"
  by (auto simp: fd_inv_from_def fd_inv_def fd_chg_def fd_in_def fd_changes_def atLeast0LessThan)

definition reify_prep :: "nat \<Rightarrow> 'w ev_loop \<Rightarrow> 'w ev_loop" where
  "reify_prep i L = (let fd = fdchanges L i in
     upd_fd fd (\<lambda>a. a\<lparr>anfd_reify := 0, anfd_events := want (ws L) (anfd_head a)\<rparr>) L)"

lemma fd_reify_one_eq:
  assumes "fd_inv_from i L" "i < fdchangecnt L"
  defines "fd \<equiv> fdchanges L i" and "P \<equiv> reify_prep i L"
  shows "fd_reify_one env i L =
    (if anfd_events (anfds L fd) \<noteq> anfd_events (anfds P fd) \<or> anfd_reify (anfds L fd) AND 0x80 \<noteq> 0
     then env_modify env fd (ucast (anfd_events (anfds L fd))) (ucast (anfd_events (anfds P fd))) P else Some P)"
proof -
  have "i < fdchangemax L" "fd_in fd L" using assms(1,2) by (auto simp: fd_inv_from_def fd_def)
  then show ?thesis by (auto simp: fd_reify_one_def Let_def fd_def P_def reify_prep_def upd_fd_def fd_in_def)
qed

lemma reify_prep_inv:
  assumes "fd_inv_from i L" "i < fdchangecnt L"
  shows "fd_inv_from (Suc i) (reify_prep i L)"
proof -
  let ?fd = "fdchanges L i" and ?P = "reify_prep i L"
  have fr: "ws ?P = ws L" "anfdmax ?P = anfdmax L" "fdchanges ?P = fdchanges L" "fdchangecnt ?P = fdchangecnt L"
    "fdchangemax ?P = fdchangemax L" "iocnt ?P = iocnt L" by (simp_all add: reify_prep_def Let_def upd_fd_def)
  have hd: "anfd_head (anfds ?P j) = anfd_head (anfds L j)" for j by (simp add: reify_prep_def Let_def upd_fd_def)
  have oth: "anfds ?P j = anfds L j" if "j \<noteq> ?fd" for j using that by (simp add: reify_prep_def Let_def upd_fd_def)
  have this_fd: "anfd_reify (anfds ?P ?fd) = 0" "anfd_events (anfds ?P ?fd) = want (ws L) (anfd_head (anfds L ?fd))"
    by (simp_all add: reify_prep_def Let_def upd_fd_def)
  have im: "fdchanges L ` {i..<fdchangecnt L} = insert ?fd (fdchanges L ` {Suc i..<fdchangecnt L})"
  proof -
    have "{i..<fdchangecnt L} = insert i {Suc i..<fdchangecnt L}" using assms(2) by auto
    then show ?thesis by simp
  qed
  note I = assms(1)[unfolded fd_inv_from_def]
  show ?thesis unfolding fd_inv_from_def fr
  proof (intro conjI allI impI)
    show "fd_lists (ws L) (anfds ?P) (anfdmax L)" by (rule fd_lists_cong[OF refl refl hd conjunct1[OF I]])
    show "fd_in (fdchanges L j) ?P" if "j < fdchangecnt L" for j using I that by (simp add: fd_in_def fr)
    show "fd \<in> fdchanges L ` {Suc i..<fdchangecnt L}" if "fd_in fd ?P \<and> anfd_reify (anfds ?P fd) \<noteq> 0" for fd
    proof -
      have ne: "fd \<noteq> ?fd" using that this_fd by auto
      then have "fd \<in> fdchanges L ` {i..<fdchangecnt L}" using that oth[OF ne] I by (simp add: fd_in_def fr)
      then show ?thesis using ne im by auto
    qed
    show "fd_sync (ws L) (anfds ?P) (anfdmax L) (fdchanges L ` {Suc i..<fdchangecnt L})"
      unfolding fd_sync_def
    proof (intro allI impI)
      fix fd assume fd: "0 \<le> fd \<and> fd < int (anfdmax L) \<and> fd \<notin> fdchanges L ` {Suc i..<fdchangecnt L}"
      show "anfd_events (anfds ?P fd) = want (ws L) (anfd_head (anfds ?P fd))"
      proof (cases "fd = ?fd")
        case False
        then have "fd \<notin> fdchanges L ` {i..<fdchangecnt L}" using fd im by auto
        then show ?thesis using I fd oth[OF False] by (simp add: fd_sync_def)
      qed (simp add: this_fd hd)
    qed
    show "iocnt L = fd_count (anfds ?P) (anfdmax L)" using I by (simp add: fd_count_def hd)
  qed (use assms I in auto)
qed

text \<open>
  What \<^verbatim>\<open>fd_reify\<close> relies on: \<^verbatim>\<open>backend_modify\<close> returns, keeps the loop's structures, at
  most appends to the change list, and either the kernel serves the new mask from now on
  or the descriptor is back on the change list (an \<^verbatim>\<open>fd_kill\<close> in an error path).
  \<open>serves L fd e\<close>: the kernel reports exactly the events \<open>e\<close> of \<open>fd\<close>, as far as the
  backend wants it to; \<open>binv\<close>: the backend's own invariant.
\<close>

locale fd_backend =
  fixes env :: "'w env" and serves :: "'w ev_loop \<Rightarrow> int \<Rightarrow> u32 \<Rightarrow> bool" and binv :: "'w ev_loop \<Rightarrow> bool"
  assumes modify: "fd_inv_from i L \<Longrightarrow> pend_inv L \<Longrightarrow> pri_inv L \<Longrightarrow> binv L \<Longrightarrow> fd_in fd L \<Longrightarrow>
      anfd_events (anfds L fd) = want (ws L) (anfd_head (anfds L fd)) \<Longrightarrow> nev = ucast (anfd_events (anfds L fd)) \<Longrightarrow>
      anfd_reify (anfds L fd) = 0 \<Longrightarrow>
      \<exists>L'. env_modify env fd oev nev L = Some L' \<and> fd_inv_from i L' \<and> pend_inv L' \<and> pri_inv L' \<and> binv L' \<and> ok L' = ok L \<and>
        (\<forall>j < fdchangecnt L. fdchanges L' j = fdchanges L j) \<and> fdchangecnt L \<le> fdchangecnt L' \<and> anfdmax L' = anfdmax L \<and>
        (\<forall>fd'. anfd_events (anfds L' fd') = anfd_events (anfds L fd')) \<and>
        (\<forall>fd' e. fd' \<noteq> fd \<longrightarrow> serves L' fd' e = serves L fd' e) \<and>
        (serves L fd oev \<longrightarrow> serves L' fd nev \<or> fd \<in> fdchanges L' ` {fdchangecnt L..<fdchangecnt L'})"
    and prep: "serves (upd_fd fd (\<lambda>a. a\<lparr>anfd_reify := r, anfd_events := e\<rparr>) L) = serves L"
      "binv L \<Longrightarrow> binv (upd_fd fd (\<lambda>a. a\<lparr>anfd_reify := r, anfd_events := e\<rparr>) L)"
    and chg: "serves (L\<lparr>fdchanges := c, fdchangecnt := n\<rparr>) = serves L"
      "binv L \<Longrightarrow> binv (L\<lparr>fdchanges := c, fdchangecnt := n\<rparr>)"
begin

text \<open>The kernel serves the recorded mask, except for descriptors queued at or behind index \<open>n\<close>.\<close>

definition ksync :: "nat \<Rightarrow> 'w ev_loop \<Rightarrow> bool" where
  "ksync n L \<longleftrightarrow> (\<forall>fd. fd_in fd L \<longrightarrow> serves L fd (ucast (anfd_events (anfds L fd))) \<or>
     fd \<in> fdchanges L ` {n..<fdchangecnt L})"

definition rinv :: "nat \<Rightarrow> 'w ev_loop \<Rightarrow> bool" where
  "rinv i L \<longleftrightarrow> fd_inv_from i L \<and> pend_inv L \<and> pri_inv L \<and> binv L"

lemma prep_inv:
  assumes "rinv i L" "i < fdchangecnt L"
  shows "rinv (Suc i) (reify_prep i L)"
proof -
  let ?P = "reify_prep i L"
  have "pend_inv ?P" by (rule pend_cong(1)[of _ L]) (use assms in \<open>simp_all add: reify_prep_def upd_fd_def Let_def rinv_def\<close>)
  moreover have "pri_inv ?P" using assms by (simp add: reify_prep_def upd_fd_def Let_def rinv_def pri_inv_def)
  moreover have "binv ?P"
    using prep(2)[of L "fdchanges L i" "want (ws L) (anfd_head (anfds L (fdchanges L i)))" 0] assms
    by (simp add: reify_prep_def rinv_def Let_def upd_fd_def)
  ultimately show ?thesis using reify_prep_inv[of i L] assms by (simp add: rinv_def)
qed

lemma one_step:
  assumes I: "rinv i L" and i: "i < fdchangecnt L" and K: "ksync n L" and n: "n \<le> fdchangecnt L"
  shows "\<exists>L'. fd_reify_one env i L = Some L' \<and> rinv (Suc i) L' \<and> ok L' = ok L \<and> fdchangecnt L \<le> fdchangecnt L' \<and> ksync n L'"
proof -
  define fd where "fd = fdchanges L i"
  define P where "P = reify_prep i L"
  let ?o = "ucast (anfd_events (anfds L fd)) :: u32" let ?e = "ucast (anfd_events (anfds P fd)) :: u32"
  have If: "fd_inv_from i L" using I by (simp add: rinv_def)
  have rP: "rinv (Suc i) P" unfolding P_def by (rule prep_inv[OF I i])
  have fr: "fdchangecnt P = fdchangecnt L" "fdchanges P = fdchanges L" "ok P = ok L" "anfdmax P = anfdmax L" "ws P = ws L"
    "anfd_head (anfds P fd) = anfd_head (anfds L fd)" "anfd_reify (anfds P fd) = 0"
    "anfd_events (anfds P fd) = want (ws P) (anfd_head (anfds P fd))"
    by (simp_all add: P_def reify_prep_def Let_def upd_fd_def fd_def)
  have sv: "serves P = serves L"
    using prep(1)[of fd "want (ws L) (anfd_head (anfds L fd))" 0 L] by (simp add: P_def reify_prep_def Let_def upd_fd_def fd_def)
  have oth: "anfds P j = anfds L j" if "j \<noteq> fd" for j using that by (simp add: P_def reify_prep_def Let_def upd_fd_def fd_def)
  have fin: "fd_in fd P" using If i fr by (simp add: fd_inv_from_def fd_in_def fd_def)
  note eq = fd_reify_one_eq[OF If i, of env, folded P_def fd_def]
  show ?thesis
  proof (cases "anfd_events (anfds L fd) \<noteq> anfd_events (anfds P fd) \<or> anfd_reify (anfds L fd) AND 0x80 \<noteq> 0")
    case False
    have "anfd_events (anfds P j) = anfd_events (anfds L j)" for j using False oth[of j] by (cases "j = fd") auto
    then have "ksync n P" using K by (simp add: ksync_def fr(1-4) sv fd_in_def)
    then show ?thesis unfolding eq using False rP fr by simp
  next
    case True
    from modify[of "Suc i" P fd, OF _ _ _ _ fin fr(8) refl fr(7), of ?o] rP[unfolded rinv_def] obtain M where
      M: "env_modify env fd ?o ?e P = Some M" "rinv (Suc i) M" "ok M = ok P" "\<And>j. j < fdchangecnt P \<Longrightarrow> fdchanges M j = fdchanges P j"
        "fdchangecnt P \<le> fdchangecnt M" "anfdmax M = anfdmax P" "\<And>j. anfd_events (anfds M j) = anfd_events (anfds P j)"
        "\<And>j e. j \<noteq> fd \<Longrightarrow> serves M j e = serves P j e"
        "serves P fd ?o \<Longrightarrow> serves M fd ?e \<or> fd \<in> fdchanges M ` {fdchangecnt P..<fdchangecnt M}"
      unfolding rinv_def by blast
    have "fdchanges L ` {n..<fdchangecnt L} = fdchanges M ` {n..<fdchangecnt L}" using M(4) fr by simp
    then have sub: "fdchanges L ` {n..<fdchangecnt L} \<subseteq> fdchanges M ` {n..<fdchangecnt M}"
      "fdchanges M ` {fdchangecnt L..<fdchangecnt M} \<subseteq> fdchanges M ` {n..<fdchangecnt M}"
      using M(5) fr(1) n by auto
    have "ksync n M" unfolding ksync_def
    proof (intro allI impI)
      fix j assume "fd_in j M"
      then have jL: "fd_in j L" by (simp add: fd_in_def M(6) fr)
      show "serves M j (ucast (anfd_events (anfds M j))) \<or> j \<in> fdchanges M ` {n..<fdchangecnt M}"
      proof (cases "j = fd")
        case True
        then show ?thesis using K[unfolded ksync_def, rule_format, OF jL] M(9) sub unfolding M(7) sv fr(1) by blast
      next
        case False
        then show ?thesis using K[unfolded ksync_def, rule_format, OF jL] sub unfolding M(7) M(8)[OF False] oth[OF False] sv by blast
      qed
    qed
    then show ?thesis unfolding eq using True M fr by auto
  qed
qed

lemma steps:
  assumes "rinv 0 L" "ksync (fdchangecnt L) L" "k \<le> fdchangecnt L"
  shows "\<exists>L'. fd_reify_upto env k L = Some L' \<and> rinv k L' \<and> ok L' = ok L \<and> fdchangecnt L \<le> fdchangecnt L' \<and>
    ksync (fdchangecnt L) L'"
  using assms(3)
proof (induction k)
  case 0
  then show ?case using assms(1,2) by simp
next
  case (Suc k)
  then obtain M where M: "fd_reify_upto env k L = Some M" "rinv k M" "ok M = ok L" "fdchangecnt L \<le> fdchangecnt M" "ksync (fdchangecnt L) M"
    by auto
  have "k < fdchangecnt M" using Suc.prems M(4) by simp
  from one_step[OF M(2) this M(5,4)] show ?case using M(1,3,4) by fastforce
qed

lemma reify_sync:
  assumes "fd_inv L" "pend_inv L" "pri_inv L" "binv L" "\<forall>fd. fd_in fd L \<longrightarrow> serves L fd (ucast (anfd_events (anfds L fd)))"
  shows "\<exists>L'. fd_reify env L = Some L' \<and> fd_inv L' \<and> pend_inv L' \<and> pri_inv L' \<and> binv L' \<and> ok L' = ok L \<and>
    (\<forall>fd. fd_in fd L' \<longrightarrow> fd \<in> fd_changes L' \<or> serves L' fd (ucast (want (ws L') (anfd_head (anfds L' fd)))))"
proof -
  let ?n = "fdchangecnt L"
  have "ksync ?n L" "rinv 0 L" using assms by (simp_all add: ksync_def rinv_def fd_inv_from_0)
  from steps[OF this(2,1) order_refl] obtain F where
    F: "fd_reify_upto env ?n L = Some F" "rinv ?n F" "ok F = ok L" "?n \<le> fdchangecnt F" "ksync ?n F" by auto
  define d where "d = fdchanges (reify_shift ?n F)"
  let ?L = "F\<lparr>fdchanges := d, fdchangecnt := fdchangecnt F - ?n\<rparr>"
  have dr: "d i = fdchanges F (?n + i)" if "i < fdchangecnt F - ?n" for i
    using that by (auto simp: d_def reify_shift_def Let_def)
  have e: "fd_reify env L = Some ?L" using F(1) by (simp add: fd_reify_def d_def reify_shift_def Let_def)
  have "d ` {..<fdchangecnt F - ?n} = fdchanges F ` ((+) ?n ` {..<fdchangecnt F - ?n})" using dr by (simp add: image_image)
  also have "(+) ?n ` {..<fdchangecnt F - ?n} = {?n..<fdchangecnt F}" using F(4) by (simp add: lessThan_atLeast0)
  finally have ch: "fd_changes ?L = fdchanges F ` {?n..<fdchangecnt F}" by (simp add: fd_changes_def)
  note I = F(2)[unfolded rinv_def fd_inv_from_def]
  have "\<forall>i < fdchangecnt F - ?n. 0 \<le> d i \<and> d i < int (anfdmax F)" using I dr by (auto simp: fd_in_def)
  moreover have "d ` {..<fdchangecnt F - ?n} = fdchanges F ` {?n..<fdchangecnt F}" using ch by (simp add: fd_changes_def)
  ultimately have inv: "fd_inv ?L" unfolding fd_inv_def ch fd_chg_def using I by (auto simp: fd_in_def)
  have "fd \<in> fd_changes ?L \<or> serves ?L fd (ucast (want (ws ?L) (anfd_head (anfds ?L fd))))" if "fd_in fd ?L" for fd
  proof -
    have "serves F fd (ucast (anfd_events (anfds F fd))) \<or> fd \<in> fd_changes ?L"
      using F(5) that unfolding ksync_def ch by (simp add: fd_in_def)
    moreover have "fd \<notin> fd_changes ?L \<Longrightarrow> anfd_events (anfds F fd) = want (ws F) (anfd_head (anfds F fd))"
      using inv that by (simp add: fd_inv_def fd_sync_def fd_in_def)
    ultimately show ?thesis using chg(1)[of "fdchangecnt F - ?n" d F] by (cases "fd \<in> fd_changes ?L") simp_all
  qed
  moreover have "pend_inv ?L" by (rule pend_cong(1)[of _ F]) (use I in simp_all)
  ultimately show ?thesis using e inv F(3) I chg(2)[of F] by (auto simp: pri_inv_def)
qed

end

subsection \<open>Rearming after a fork\<close>

lemma rearm_upto:
  assumes F: "fd_inv L" and n: "n \<le> anfdmax L"
  defines "L' \<equiv> fd_rearm_upto n L"
  shows "fd_inv L' \<and> ok L' = ok L \<and> ws L' = ws L \<and> anfdmax L' = anfdmax L \<and>
    (\<forall>i. anfd_head (anfds L' i) = anfd_head (anfds L i)) \<and> (\<forall>i \<ge> int n. anfds L' i = anfds L i) \<and>
    (\<forall>i. 0 \<le> i \<and> i < int n \<longrightarrow> anfd_events (anfds L' i) = 0) \<and>
    (\<forall>i. 0 \<le> i \<and> i < int n \<and> anfd_events (anfds L i) \<noteq> 0 \<longrightarrow>
       i \<in> fd_changes L' \<and> anfd_emask (anfds L' i) = 0 \<and> anfd_reify (anfds L' i) AND 0x80 \<noteq> 0) \<and>
    fd_changes L \<subseteq> fd_changes L'"
  using n unfolding L'_def
proof (induction n)
  case 0
  then show ?case using F by auto
next
  case (Suc n)
  define M where "M = fd_rearm_upto n L"
  note IH = Suc.IH[OF Suc_leD[OF Suc.prems], folded M_def]
  have less: "i = int n \<or> i < int n" if "i < int (Suc n)" for i using that by auto
  show ?case
  proof (cases "anfd_events (anfds M (int n)) = 0")
    case True
    then have e: "fd_rearm_upto (Suc n) L = M" by (simp add: M_def[symmetric])
    have "anfd_events (anfds L (int n)) = 0" using IH True by simp
    note z = this
    show ?thesis unfolding e
    proof (intro conjI allI impI)
      show "anfds M i = anfds L i" if "int (Suc n) \<le> i" for i using IH that by simp
      show "anfd_events (anfds M i) = 0" if "0 \<le> i \<and> i < int (Suc n)" for i
        using IH that less[of i] True by auto
      fix i assume i: "0 \<le> i \<and> i < int (Suc n) \<and> anfd_events (anfds L i) \<noteq> 0"
      then have "i < int n" using less[of i] z by auto
      then show "i \<in> fd_changes M" "anfd_emask (anfds M i) = 0" "anfd_reify (anfds M i) AND 0x80 \<noteq> 0"
        using IH i by auto
    qed (use IH in simp_all)
  next
    case False
    define U where "U = upd_fd (int n) (\<lambda>a. a\<lparr>anfd_events := 0, anfd_emask := 0\<rparr>) M"
    have e: "fd_rearm_upto (Suc n) L = fd_change (int n) 0x81 U" using False by (simp add: M_def[symmetric] U_def)
    have fr: "ws U = ws M" "anfdmax U = anfdmax M" "ok U = ok M" "fd_changes U = fd_changes M" "fdchanges U = fdchanges M"
      "fdchangecnt U = fdchangecnt M" "fdchangemax U = fdchangemax M" "iocnt U = iocnt M"
      "anfds U = (anfds M)(int n := (anfds M (int n))\<lparr>anfd_events := 0, anfd_emask := 0\<rparr>)"
      by (simp_all add: U_def upd_fd_def fd_changes_def)
    have hd: "anfd_head (anfds U i) = anfd_head (anfds M i)" "anfd_reify (anfds U i) = anfd_reify (anfds M i)" for i
      by (simp_all add: fr(9))
    have fin: "fd_in (int n) U" using IH Suc.prems by (simp add: fd_in_def fr)
    note FM = conjunct1[OF IH, unfolded fd_inv_def]
    have "fd_lists (ws U) (anfds U) (anfdmax U)" unfolding fr(1,2) by (rule fd_lists_cong[OF refl refl hd(1) conjunct1[OF FM]])
    moreover have C: "fd_chg (anfds U) (anfdmax U) (fdchanges U) (fdchangecnt U) (fdchangemax U)"
      using FM unfolding fd_chg_def hd fr(1-8) by simp
    moreover have "fd_sync (ws U) (anfds U) (anfdmax U) (insert (int n) (fd_changes U))"
      using conjunct1[OF conjunct2[OF conjunct2[OF FM]]] unfolding fd_sync_def hd fr(1,2,4) by (auto simp: fr(9))
    moreover have "iocnt U = fd_count (anfds U) (anfdmax U)" using FM unfolding fd_count_def hd fr(2,8) by simp
    ultimately have I: "fd_inv (fd_change (int n) 0x81 U)" by (intro fd_change_inv[OF fin])
    have ch: "fd_changes (fd_change (int n) 0x81 U) = insert (int n) (fd_changes M)"
      using fd_change_chg(2)[OF fin C] fr(4) by simp
    have A: "anfds (fd_change (int n) 0x81 U) = (anfds M)(int n :=
        (anfds M (int n))\<lparr>anfd_events := 0, anfd_emask := 0, anfd_reify := anfd_reify (anfds M (int n)) OR 0x81\<rparr>)"
      by (simp add: fd_change_anfds fr(9))
    have b: "(x OR 0x81) AND 0x80 \<noteq> 0" for x :: u8
    proof
      assume "(x OR 0x81) AND 0x80 = 0"
      then have "bit ((x OR 0x81) AND 0x80) 7 = bit (0 :: u8) 7" by simp
      then show False by (simp add: bit_and_iff bit_or_iff)
    qed
    show ?thesis unfolding e
    proof (intro conjI allI impI)
      show "fd_inv (fd_change (int n) 0x81 U)" by (rule I)
      show "ok (fd_change (int n) 0x81 U) = ok L" using fd_change_ok[OF fin] fr(3) IH by simp
      show "ws (fd_change (int n) 0x81 U) = ws L" "anfdmax (fd_change (int n) 0x81 U) = anfdmax L" using fr IH by simp_all
      show "fd_changes L \<subseteq> fd_changes (fd_change (int n) 0x81 U)" unfolding ch using IH by blast
      show "anfd_head (anfds (fd_change (int n) 0x81 U) i) = anfd_head (anfds L i)" for i unfolding A using IH by simp
      show "anfds (fd_change (int n) 0x81 U) i = anfds L i" if "int (Suc n) \<le> i" for i unfolding A using IH that by simp
      show "anfd_events (anfds (fd_change (int n) 0x81 U) i) = 0" if "0 \<le> i \<and> i < int (Suc n)" for i
        unfolding A using IH that less[of i] by auto
      fix i assume i: "0 \<le> i \<and> i < int (Suc n) \<and> anfd_events (anfds L i) \<noteq> 0"
      show "i \<in> fd_changes (fd_change (int n) 0x81 U)" "anfd_emask (anfds (fd_change (int n) 0x81 U) i) = 0"
        "anfd_reify (anfds (fd_change (int n) 0x81 U) i) AND 0x80 \<noteq> 0"
        unfolding ch A using IH i less[of i] b by auto
    qed
  qed
qed

subsection \<open>Reports\<close>

lemma fd_event_nocheck_feeds:
  fixes r :: u32
  assumes F: "fd_inv L" and P: "pend_inv L" and fd: "fd_in fd L"
    and v: "\<forall>w \<in> set (anfd_head (anfds L fd)). pri_valid (ws L w)"
  defines "L' \<equiv> fd_event_nocheck fd r L"
  shows "fd_inv L' \<and> pend_inv L' \<and> ok L' = ok L \<and>
    (\<forall>w. pend_of L' w = (if kind w = KIo \<and> active (ws L w) \<noteq> 0 \<and> w_fd (ws L w) = fd \<and> w_events (ws L w) AND r \<noteq> 0
       then Some ((case pend_of L w of None \<Rightarrow> 0 | Some e \<Rightarrow> e) OR (w_events (ws L w) AND r)) else pend_of L w)) \<and>
    (\<forall>v. (ws L' v)\<lparr>pending := 0\<rparr> = (ws L v)\<lparr>pending := 0\<rparr>) \<and> anfds L' = anfds L"
proof -
  have fd': "0 \<le> fd" "fd < int (anfdmax L)" using fd by (auto simp: fd_in_def)
  note FL = F[unfolded fd_inv_def, THEN conjunct1]
  note D = fd_listsD(1)[OF FL fd'] fd_listsD(2)[OF FL fd']
  have "\<forall>w \<in> set (anfd_head (anfds L fd)). pri_valid (ws L w) \<and> w \<noteq> PendingW" using v D(2) by fastforce
  note H = feed_hits[OF P this D(1), of r]
  have e: "L' = fold (feed_hit r) (anfd_head (anfds L fd)) L" using fd by (simp add: L'_def fd_event_nocheck_def)
  have "w \<in> io_hits r (ws L) (anfd_head (anfds L fd)) \<longleftrightarrow>
      kind w = KIo \<and> active (ws L w) \<noteq> 0 \<and> w_fd (ws L w) = fd \<and> w_events (ws L w) AND r \<noteq> 0" for w
    using D(2)[of w] fd_listsD(3)[OF FL, of w] by (auto simp: io_hits_def)
  then show ?thesis using H F unfolding e by auto
qed

subsection \<open>Properties\<close>

lemma fd_inv_zero [simp]: "fd_inv (loop_zero s)"
  by (auto simp: fd_inv_def fd_lists_def fd_chg_def fd_sync_def fd_count_def loop_zero_def w_zero_def)

text \<open>One readable watcher, configured and then started.\<close>

definition ex_io0 :: "unit ev_loop" where
  "ex_io0 = upd_w (IoW 1) (\<lambda>x. x\<lparr>w_fd := 4, w_events := EV__IOFDSET OR EV_READ\<rparr>) (loop_zero ())"

definition ex_io :: "unit ev_loop" where
  "ex_io = ev_io_start (IoW 1) ex_io0"

lemma ex_io0_facts:
  "fd_inv ex_io0" "pend_inv ex_io0" "active (ws ex_io0 (IoW 1)) = 0" "w_fd (ws ex_io0 (IoW 1)) = 4"
  "w_events (ws ex_io0 (IoW 1)) = EV__IOFDSET OR EV_READ" "ok ex_io0"
proof -
  have "ws ex_io0 v = (if v = IoW 1 then w_zero\<lparr>w_fd := 4, w_events := EV__IOFDSET OR EV_READ\<rparr> else w_zero)" for v
    by (simp add: ex_io0_def upd_w_def)
  note W = this
  show "fd_inv ex_io0" unfolding fd_inv_def fd_lists_def fd_chg_def fd_sync_def fd_count_def fd_changes_def W
    by (auto simp: ex_io0_def upd_w_def loop_zero_def w_zero_def)
  show "pend_inv ex_io0" unfolding pend_inv_def pend_w_ok_def W
    by (simp add: ex_io0_def upd_w_def loop_zero_def w_zero_def)
  show "active (ws ex_io0 (IoW 1)) = 0" "w_fd (ws ex_io0 (IoW 1)) = 4" "w_events (ws ex_io0 (IoW 1)) = EV__IOFDSET OR EV_READ"
    unfolding W by (simp_all add: w_zero_def)
  show "ok ex_io0" by (simp add: ex_io0_def upd_w_def)
qed

lemma ex_io_facts:
  "fd_inv ex_io" "pend_inv ex_io" "active (ws ex_io (IoW 1)) = 1" "w_fd (ws ex_io (IoW 1)) = 4"
  "w_events (ws ex_io (IoW 1)) = EV_READ" "pri_valid (ws ex_io (IoW 1))" "fd_in 4 ex_io"
  "set (anfd_head (anfds ex_io 4)) = {IoW 1}"
proof -
  note S = io_start_inv[OF ex_io0_facts(1,2) _ ex_io0_facts(3), unfolded ex_io0_facts ex_io_def[symmetric]]
  have b: "(EV__IOFDSET OR EV_READ) AND NOT (EV__IOFDSET OR EV_READ OR EV_WRITE) = (0 :: u32)"
    "(EV__IOFDSET OR EV_READ) AND NOT EV__IOFDSET = (EV_READ :: u32)" by simp_all
  show "fd_inv ex_io" "pend_inv ex_io" "active (ws ex_io (IoW 1)) = 1" "w_fd (ws ex_io (IoW 1)) = 4"
    "pri_valid (ws ex_io (IoW 1))" using S b(1) by simp_all
  show "w_events (ws ex_io (IoW 1)) = EV_READ" using S(8)[OF _ _ b(1)] b(2) by simp
  have L: "fd_lists (ws ex_io) (anfds ex_io) (anfdmax ex_io)" using S(1) b(1) by (simp add: fd_inv_def)
  have a: "active (ws ex_io v) = (if v = IoW 1 then 1 else 0)" for v
    using S(5)[of v] S(6) b(1) by (cases "v = IoW 1") (simp_all add: ex_io0_def upd_w_def w_zero_def)
  have w: "w_fd (ws ex_io (IoW 1)) = 4" using S(7) b(1) by simp
  note m = fd_listsD(3)[OF L, of "IoW 1", unfolded w]
  show fin: "fd_in 4 ex_io" using m a by (simp add: fd_in_def)
  have "v = IoW 1" if "v \<in> set (anfd_head (anfds ex_io 4))" for v
  proof -
    have "0 \<le> (4 :: int)" "4 < int (anfdmax ex_io)" using fin by (simp_all add: fd_in_def)
    then have "active (ws ex_io v) = 1" using fd_listsD(2)[OF L _ _ that] by blast
    then show ?thesis using a[of v] by (metis zero_neq_one)
  qed
  moreover have "IoW 1 \<in> set (anfd_head (anfds ex_io 4))" using m a[of "IoW 1"] by simp
  ultimately show "set (anfd_head (anfds ex_io 4)) = {IoW 1}" by blast
qed

text \<open>
  C13: Starting an inactive \<^verbatim>\<open>ev_io\<close> watcher puts it, and only it, on the list of its descriptor, marks
  the descriptor as changed and touches no other watcher and no pending event. Stopping any watcher, active or
  not and wherever it is on its list, drops its pending event and leaves it inactive; an active one is deleted from the
  list of its descriptor, which keeps all others in their order and is marked as changed; all other lists and all other
  watchers stay as they are.
  \<^verbatim>\<open>ev_verify\<close>'s assertions on the lists, \<^verbatim>\<open>iocnt\<close>, the change list and the record of what the
  backend was told hold before and after, and no assertion or array access fails.
\<close>

theorem ev_io_start_stop_spec:
  assumes "fd_inv L" "pend_inv L" "kind w = KIo"
  defines "S \<equiv> ev_io_start w L" and "T \<equiv> ev_io_stop w L" and "fd \<equiv> w_fd (ws L w)"
  shows "(active (ws L w) = 0 \<and> fd \<ge> 0 \<and> w_events (ws L w) AND NOT (EV__IOFDSET OR EV_READ OR EV_WRITE) = 0 \<longrightarrow>
      fd_inv S \<and> pend_inv S \<and> ok S = ok L \<and> pend_of S = pend_of L \<and> (\<forall>v. v \<noteq> w \<longrightarrow> ws S v = ws L v) \<and>
      active (ws S w) = 1 \<and> w \<in> set (anfd_head (anfds S fd)) \<and> fd \<in> fd_changes S) \<and>
    fd_inv T \<and> pend_inv T \<and> ok T = ok L \<and> pend_of T = (pend_of L)(w := None) \<and> (\<forall>v. v \<noteq> w \<longrightarrow> ws T v = ws L v) \<and>
    ws T w = (ws L w)\<lparr>pending := 0, active := 0\<rparr> \<and>
    anfd_head (anfds T fd) = (if active (ws L w) = 0 then anfd_head (anfds L fd) else remove1 w (anfd_head (anfds L fd))) \<and>
    (\<forall>i. i \<noteq> fd \<longrightarrow> anfds T i = anfds L i) \<and> (\<forall>i. fd_in i T \<longrightarrow> w \<notin> set (anfd_head (anfds T i))) \<and>
    (active (ws L w) \<noteq> 0 \<longrightarrow> w \<in> set (anfd_head (anfds L fd)) \<and> fd \<in> fd_changes T)"
proof -
  note J = io_stop_inv[OF assms(1-3), folded T_def fd_def]
  have "w \<notin> set (anfd_head (anfds T i))" if "fd_in i T" for i
    using fd_listsD(2)[OF J(1)[unfolded fd_inv_def, THEN conjunct1], of i w] J(6) that by (auto simp: fd_in_def)
  moreover have "active (ws L w) \<noteq> 0 \<Longrightarrow> w \<in> set (anfd_head (anfds L fd))"
    using fd_listsD(3)[OF assms(1)[unfolded fd_inv_def, THEN conjunct1] assms(3)] by (simp add: fd_def)
  moreover have "fd_inv S \<and> pend_inv S \<and> ok S = ok L \<and> pend_of S = pend_of L \<and> (\<forall>v. v \<noteq> w \<longrightarrow> ws S v = ws L v) \<and>
      active (ws S w) = 1 \<and> w \<in> set (anfd_head (anfds S fd)) \<and> fd \<in> fd_changes S"
    if s: "active (ws L w) = 0" "w_fd (ws L w) \<ge> 0" "w_events (ws L w) AND NOT (EV__IOFDSET OR EV_READ OR EV_WRITE) = 0"
  proof -
    note I = io_start_inv[OF assms(1-3) s, folded S_def fd_def]
    have "w \<in> set (anfd_head (anfds S fd))"
      using fd_listsD(3)[OF I(1)[unfolded fd_inv_def, THEN conjunct1] assms(3)] I(6,7) by simp
    then show ?thesis using I by simp
  qed
  ultimately show ?thesis using J unfolding fd_def by blast
qed

theorem ev_io_start_stop_spec_witness:
  "active (ws ex_io (IoW 1)) = 1 \<and> ok ex_io \<and> ok (ev_io_stop (IoW 1) ex_io) \<and> active (ws (ev_io_stop (IoW 1) ex_io) (IoW 1)) = 0 \<and>
    anfd_head (anfds (ev_io_stop (IoW 1) ex_io) 4) = remove1 (IoW 1) (anfd_head (anfds ex_io 4))"
proof -
  have b: "(EV__IOFDSET OR EV_READ) AND NOT (EV__IOFDSET OR EV_READ OR EV_WRITE) = (0 :: u32)" by simp
  have k: "kind (IoW 1) = KIo" by simp
  have s: "ok ex_io = ok ex_io0"
    using ev_io_start_stop_spec[OF ex_io0_facts(1,2) k] ex_io0_facts(3-5) b unfolding ex_io_def by simp
  show ?thesis using ev_io_start_stop_spec[OF ex_io_facts(1,2) k] ex_io_facts(3,4) s ex_io0_facts(6) by simp
qed

text \<open>
  C14: A readiness report for a descriptor feeds exactly the active watchers of that descriptor
  whose mask meets the report, each with the common bits added to what was pending, and
  nothing else changes; while the descriptor waits to be reified, \<^verbatim>\<open>fd_event\<close> drops the
  report.
\<close>

theorem fd_event_spec:
  fixes r :: u32
  assumes "fd_inv L" "pend_inv L" "fd_in fd L" "\<forall>w \<in> set (anfd_head (anfds L fd)). pri_valid (ws L w)"
  defines "L' \<equiv> fd_event fd r L"
  shows "fd_inv L' \<and> pend_inv L' \<and> ok L' = ok L \<and>
    (\<forall>w. pend_of L' w =
      (if anfd_reify (anfds L fd) = 0 \<and> kind w = KIo \<and> active (ws L w) \<noteq> 0 \<and> w_fd (ws L w) = fd \<and> w_events (ws L w) AND r \<noteq> 0
       then Some ((case pend_of L w of None \<Rightarrow> 0 | Some e \<Rightarrow> e) OR (w_events (ws L w) AND r)) else pend_of L w)) \<and>
    iofed L' = (if anfd_reify (anfds L fd) = 0 then iofed L + 1 else iofed L)"
proof (cases "anfd_reify (anfds L fd) = 0")
  case True
  define M where "M = L\<lparr>iofed := iofed L + 1\<rparr>"
  have e: "L' = fd_event_nocheck fd r M" using True assms(3) by (simp add: L'_def fd_event_def M_def)
  have c: "fd_inv M" "pend_inv M" "fd_in fd M" "\<forall>w \<in> set (anfd_head (anfds M fd)). pri_valid (ws M w)"
    using assms(1-4) by (simp_all add: M_def fd_inv_def pend_inv_def pend_entry_ok_def pend_w_ok_def fd_in_def fd_changes_def)
  have m: "ws M = ws L" "ok M = ok L" "anfds M = anfds L" "pend_of M = pend_of L" "iofed M = iofed L + 1"
    using pend_cong(2)[of M L] by (simp_all add: M_def)
  have "iofed (fold (feed_hit r) vs N) = iofed N" for vs and N :: "'a ev_loop"
    by (induction vs arbitrary: N) (simp_all add: Let_def)
  then have "iofed L' = iofed M" using c(3) by (simp add: e fd_event_nocheck_def)
  then show ?thesis using fd_event_nocheck_feeds[OF c, of r] True unfolding e m by simp
next
  case False
  then have "L' = L" using assms(3) by (simp add: L'_def fd_event_def)
  then show ?thesis using False assms(1,2) by simp
qed

theorem fd_event_spec_witness:
  "pend_of (fd_event 4 EV_READ (upd_fd 4 (\<lambda>a. a\<lparr>anfd_reify := 0\<rparr>) ex_io)) (IoW 1) =
     Some ((case pend_of (upd_fd 4 (\<lambda>a. a\<lparr>anfd_reify := 0\<rparr>) ex_io) (IoW 1) of None \<Rightarrow> 0 | Some e \<Rightarrow> e) OR EV_READ)"
proof -
  define L where "L = upd_fd 4 (\<lambda>a. a\<lparr>anfd_reify := 0\<rparr>) ex_io"
  have L: "ws L = ws ex_io" "anfdmax L = anfdmax ex_io" "\<And>i. anfd_head (anfds L i) = anfd_head (anfds ex_io i)"
    "\<And>i. anfd_events (anfds L i) = anfd_events (anfds ex_io i)" "anfd_reify (anfds L 4) = 0"
    "fd_changes L = fd_changes ex_io" "fdchanges L = fdchanges ex_io" "fdchangecnt L = fdchangecnt ex_io"
    "fdchangemax L = fdchangemax ex_io" "iocnt L = iocnt ex_io" "\<And>i. anfd_reify (anfds L i) \<noteq> 0 \<Longrightarrow> anfd_reify (anfds ex_io i) \<noteq> 0"
    by (simp_all add: L_def upd_fd_def fd_changes_def split: if_splits)
  have "fd_inv L" using ex_io_facts(1) L(11)
    unfolding fd_inv_def fd_lists_def fd_chg_def fd_sync_def fd_count_def L(1-4) L(6-10) by blast
  moreover have "pend_inv L" using ex_io_facts(2) by (simp add: L_def upd_fd_def pend_inv_def pend_entry_ok_def pend_w_ok_def)
  moreover have "fd_in 4 L" "\<forall>w \<in> set (anfd_head (anfds L 4)). pri_valid (ws L w)"
    using ex_io_facts(6-8) by (simp_all add: L fd_in_def)
  ultimately show ?thesis
    using fd_event_spec[of L 4 EV_READ] L(5) ex_io_facts(3-5) unfolding L(1) L_def[symmetric] by simp
qed

text \<open>
  C15: \<^verbatim>\<open>fd_kill\<close> returns: it stops every watcher of the descriptor, feeds each the error
  event, and leaves every other watcher, descriptor and pending event alone.
\<close>

theorem fd_kill_spec:
  assumes "fd_inv L" "pend_inv L" "fd_in fd L" "\<forall>w \<in> set (anfd_head (anfds L fd)). pri_valid (ws L w)"
  shows "\<exists>L'. fd_kill fd L = Some L' \<and> fd_inv L' \<and> pend_inv L' \<and> ok L' = ok L \<and> anfd_head (anfds L' fd) = [] \<and>
    (\<forall>w. w \<notin> set (anfd_head (anfds L fd)) \<longrightarrow> ws L' w = ws L w) \<and> (\<forall>i. i \<noteq> fd \<longrightarrow> anfds L' i = anfds L i) \<and>
    (\<forall>w. pend_of L' w = (if w \<in> set (anfd_head (anfds L fd)) then Some (EV_ERROR OR EV_READ OR EV_WRITE) else pend_of L w)) \<and>
    (\<forall>w \<in> set (anfd_head (anfds L fd)). active (ws L' w) = 0)"
  using fd_kill_returns[OF assms] unfolding EV_KILL_def .

theorem fd_kill_spec_witness:
  "\<exists>L'. fd_kill 4 ex_io = Some L' \<and> pend_of L' (IoW 1) = Some (EV_ERROR OR EV_READ OR EV_WRITE) \<and> active (ws L' (IoW 1)) = 0"
  using fd_kill_spec[OF ex_io_facts(1,2,7)] ex_io_facts(6,8) by fastforce

text \<open>
  C16: \<^verbatim>\<open>fd_rearm_all\<close>, after a fork or when the backend is replaced: every descriptor that
  was armed is recorded as armed with nothing and put on the change list with the
  \<^verbatim>\<open>EV__IOFDSET\<close> mark that forces the backend call, so that the next \<^verbatim>\<open>fd_reify\<close> registers it
  afresh; the watchers keep their lists and the invariant holds throughout.
\<close>

theorem fd_rearm_all_spec:
  assumes "fd_inv L"
  defines "L' \<equiv> fd_rearm_all L"
  shows "fd_inv L' \<and> ok L' = ok L \<and> ws L' = ws L \<and> (\<forall>fd. anfd_head (anfds L' fd) = anfd_head (anfds L fd)) \<and>
    (\<forall>fd. fd_in fd L \<longrightarrow> anfd_events (anfds L' fd) = 0) \<and>
    (\<forall>fd. fd_in fd L \<and> anfd_events (anfds L fd) \<noteq> 0 \<longrightarrow>
       fd \<in> fd_changes L' \<and> anfd_emask (anfds L' fd) = 0 \<and> anfd_reify (anfds L' fd) AND ucast EV__IOFDSET \<noteq> 0) \<and>
    fd_changes L \<subseteq> fd_changes L'"
  using rearm_upto[OF assms(1) order_refl] unfolding L'_def fd_rearm_all_def fd_in_def by simp

theorem fd_rearm_all_spec_witness:
  "fd_inv (fd_rearm_all ex_io) \<and> ws (fd_rearm_all ex_io) = ws ex_io \<and> anfd_events (anfds (fd_rearm_all ex_io) 4) = 0"
  using fd_rearm_all_spec[OF ex_io_facts(1)] ex_io_facts(7) by blast

end
