(* ===== verification/Basics.thy ===== *)
theory Basics
  imports Fd_Watch
begin

section \<open>Initialisers and clocks\<close>

text \<open>
  The initialiser macros of \<^verbatim>\<open>ev.h\<close> (\<^verbatim>\<open>ev_init\<close> and the \<^verbatim>\<open>_set\<close> macro of every watcher
  type) and the clock functions of \<^verbatim>\<open>ev.c\<close>. A watcher may be initialised or set only while
  it is neither active nor pending; \<open>idle_w\<close> says so, and the lemmas show that all
  invariants survive then.
\<close>

subsection \<open>Initialisers\<close>

definition ev_init :: "W \<Rightarrow> ev_cb \<Rightarrow> 'w ev_loop \<Rightarrow> 'w ev_loop" where
  "ev_init w cb L = upd_w w (\<lambda>x. x\<lparr>active := 0, pending := 0, priority := 0, w_cb := cb\<rparr>) L"

definition ev_io_set :: "W \<Rightarrow> int \<Rightarrow> u32 \<Rightarrow> 'w ev_loop \<Rightarrow> 'w ev_loop" where
  "ev_io_set w fd events L = upd_w w (\<lambda>x. x\<lparr>w_fd := fd, w_events := events OR EV__IOFDSET\<rparr>) L"

definition ev_timer_set :: "W \<Rightarrow> ev_tstamp \<Rightarrow> ev_tstamp \<Rightarrow> 'w ev_loop \<Rightarrow> 'w ev_loop" where
  "ev_timer_set w after rep L = upd_w w (\<lambda>x. x\<lparr>w_at := after, w_repeat := rep\<rparr>) L"

definition ev_periodic_set :: "W \<Rightarrow> ev_tstamp \<Rightarrow> ev_tstamp \<Rightarrow> nat option \<Rightarrow> 'w ev_loop \<Rightarrow> 'w ev_loop" where
  "ev_periodic_set w ofs ival rcb L = upd_w w (\<lambda>x. x\<lparr>w_offset := ofs, w_interval := ival, w_reschedule := rcb\<rparr>) L"

definition ev_signal_set :: "W \<Rightarrow> int \<Rightarrow> 'w ev_loop \<Rightarrow> 'w ev_loop" where
  "ev_signal_set w signum L = upd_w w (\<lambda>x. x\<lparr>w_signum := signum\<rparr>) L"

definition ev_child_set :: "W \<Rightarrow> int \<Rightarrow> bool \<Rightarrow> 'w ev_loop \<Rightarrow> 'w ev_loop" where
  "ev_child_set w pid trace L = upd_w w (\<lambda>x. x\<lparr>w_pid := pid, w_flags := if trace then 1 else 0\<rparr>) L"

definition ev_stat_set :: "W \<Rightarrow> string \<Rightarrow> ev_tstamp \<Rightarrow> 'w ev_loop \<Rightarrow> 'w ev_loop" where
  "ev_stat_set w path ival L = upd_w w (\<lambda>x. x\<lparr>w_path := path, w_interval := ival, w_wd := - 2\<rparr>) L"

definition ev_io_init :: "W \<Rightarrow> ev_cb \<Rightarrow> int \<Rightarrow> u32 \<Rightarrow> 'w ev_loop \<Rightarrow> 'w ev_loop" where
  "ev_io_init w cb fd events L = ev_io_set w fd events (ev_init w cb L)"

definition ev_timer_init :: "W \<Rightarrow> ev_cb \<Rightarrow> ev_tstamp \<Rightarrow> ev_tstamp \<Rightarrow> 'w ev_loop \<Rightarrow> 'w ev_loop" where
  "ev_timer_init w cb after rep L = ev_timer_set w after rep (ev_init w cb L)"

definition ev_set_priority :: "W \<Rightarrow> int \<Rightarrow> 'w ev_loop \<Rightarrow> 'w ev_loop" where
  "ev_set_priority w pri L = upd_w w (\<lambda>x. x\<lparr>priority := pri\<rparr>) L"

subsection \<open>Clocks\<close>

definition ev_time :: "'w env \<Rightarrow> 'w ev_loop \<Rightarrow> ev_tstamp \<times> 'w ev_loop" where
  "ev_time env L = (let (t, s) = env_time env (os L) in (t, L\<lparr>os := s\<rparr>))"

definition get_clock :: "'w env \<Rightarrow> 'w ev_loop \<Rightarrow> ev_tstamp \<times> 'w ev_loop" where
  "get_clock env L =
     (if have_monotonic L then let (t, s) = env_clock env (os L) in (t, L\<lparr>os := s\<rparr>) else ev_time env L)"

definition ev_now :: "'w ev_loop \<Rightarrow> ev_tstamp" where
  "ev_now L = ev_rt_now L"

definition ev_clock_now :: "'w env \<Rightarrow> 'w ev_loop \<Rightarrow> ev_tstamp \<times> 'w ev_loop" where
  "ev_clock_now env L = get_clock env L"

definition ev_sleep :: "'w env \<Rightarrow> ev_tstamp \<Rightarrow> 'w ev_loop \<Rightarrow> 'w ev_loop" where
  "ev_sleep env delay L = (if delay > 0 then L\<lparr>os := env_sleep env delay (os L)\<rparr> else L)"

abbreviation (input) MIN_TIMEJUMP :: ev_tstamp where "MIN_TIMEJUMP \<equiv> 1"

definition time_jumped :: "ev_tstamp \<Rightarrow> bool" where
  "time_jumped moved \<longleftrightarrow> (if moved < 0 then - moved else moved) \<ge> MIN_TIMEJUMP"

subsection \<open>Changing a watcher that is not in use\<close>

definition idle_w :: "W \<Rightarrow> 'w ev_loop \<Rightarrow> bool" where
  "idle_w w L \<longleftrightarrow> active (ws L w) = 0 \<and> pending (ws L w) = 0"

lemma os_upd_inv [simp]:
  "pend_inv (L\<lparr>os := s\<rparr>) = pend_inv L" "pend_of (L\<lparr>os := s\<rparr>) = pend_of L" "timers_inv (L\<lparr>os := s\<rparr>) = timers_inv L"
  "fd_inv (L\<lparr>os := s\<rparr>) = fd_inv L" "pri_inv (L\<lparr>os := s\<rparr>) = pri_inv L" "fd_changes (L\<lparr>os := s\<rparr>) = fd_changes L"
  by (simp_all add: pend_inv_def pend_entry_ok_def pend_w_ok_def timers_inv_def fun_eq_iff pend_of_def fd_inv_def
      pri_inv_def fd_changes_def)

lemma rt_upd_inv [simp]:
  "pend_inv (L\<lparr>ev_rt_now := t\<rparr>) = pend_inv L" "pend_of (L\<lparr>ev_rt_now := t\<rparr>) = pend_of L"
  "timers_inv (L\<lparr>ev_rt_now := t\<rparr>) = timers_inv L" "fd_inv (L\<lparr>ev_rt_now := t\<rparr>) = fd_inv L"
  "pri_inv (L\<lparr>ev_rt_now := t\<rparr>) = pri_inv L" "fd_changes (L\<lparr>ev_rt_now := t\<rparr>) = fd_changes L"
  by (simp_all add: pend_inv_def pend_entry_ok_def pend_w_ok_def timers_inv_def fun_eq_iff pend_of_def fd_inv_def
      pri_inv_def fd_changes_def)

lemma idle_upd_inv:
  assumes "idle_w w L" "active (f (ws L w)) = 0" "pending (f (ws L w)) = 0"
  shows "pend_inv L \<Longrightarrow> pend_inv (upd_w w f L)" "pend_of (upd_w w f L) = pend_of L"
    "timers_inv L \<Longrightarrow> timers_inv (upd_w w f L)" "fd_inv L \<Longrightarrow> fd_inv (upd_w w f L)" "pri_inv L \<Longrightarrow> pri_inv (upd_w w f L)"
    "idle_w w (upd_w w f L)" "theap K h mx N (ws L) \<Longrightarrow> theap K h mx N (ws (upd_w w f L))"
proof -
  let ?U = "upd_w w f L"
  have a: "active (ws ?U v) = active (ws L v)" "pending (ws ?U v) = pending (ws L v)" for v
    using assms by (simp_all add: upd_w_def idle_w_def)
  have o: "ws ?U v = ws L v" if "active (ws L v) \<noteq> 0 \<or> pending (ws L v) \<noteq> 0" for v
    using assms(1) that by (auto simp: upd_w_def idle_w_def)
  have fr: "anfds ?U = anfds L" "anfdmax ?U = anfdmax L" "fdchanges ?U = fdchanges L" "fdchangecnt ?U = fdchangecnt L"
    "fdchangemax ?U = fdchangemax L" "iocnt ?U = iocnt L" "timers ?U = timers L" "timermax ?U = timermax L" "timercnt ?U = timercnt L"
    by (simp_all add: upd_w_def)
  show "pend_inv L \<Longrightarrow> pend_inv ?U" "pend_of ?U = pend_of L"
    using pend_cong[of ?U L] a(2) o by (simp_all add: upd_w_def)
  show th: "theap K h mx N (ws L) \<Longrightarrow> theap K h mx N (ws ?U)" for K h mx N
    using theap_upd_inactive[of K h mx N "ws L" w "f (ws L w)"] assms by (simp add: upd_w_def idle_w_def)
  show "timers_inv L \<Longrightarrow> timers_inv ?U" using th unfolding timers_inv_def fr by simp
  show "pri_inv L \<Longrightarrow> pri_inv ?U" using a o by (simp add: pri_inv_def)
  show "idle_w w ?U" using assms by (simp add: idle_w_def upd_w_def)
  assume F: "fd_inv L"
  note FD = F[unfolded fd_inv_def fd_lists_def]
  have o': "ws ?U v = ws L v" if "0 \<le> fd" "fd < int (anfdmax L)" "v \<in> set (anfd_head (anfds L fd))" for fd v
    using o[of v] FD that by fastforce
  have "fd_lists (ws ?U) (anfds L) (anfdmax L)" unfolding fd_lists_def
  proof (intro conjI allI impI)
    show "\<forall>v \<in> set (anfd_head (anfds L fd)). kind v = KIo \<and> w_fd (ws ?U v) = fd \<and> active (ws ?U v) = 1"
      if "0 \<le> fd \<and> fd < int (anfdmax L)" for fd using FD that o'[of fd] by simp
    fix v assume v: "kind v = KIo \<and> active (ws ?U v) \<noteq> 0"
    then have "ws ?U v = ws L v" using a o by simp
    then show "0 \<le> w_fd (ws ?U v)" "w_fd (ws ?U v) < int (anfdmax L)" "v \<in> set (anfd_head (anfds L (w_fd (ws ?U v))))"
      using v FD by auto
  qed (use FD in blast)
  moreover have "want (ws ?U) (anfd_head (anfds L fd)) = want (ws L) (anfd_head (anfds L fd))"
    if "0 \<le> fd" "fd < int (anfdmax L)" for fd by (rule want_cong) (use o' that in simp)
  ultimately show "fd_inv ?U" using F unfolding fd_inv_def fr fd_sync_def fd_changes_def by simp
qed

end
