(* ===== verification/Array_Watchers.thy ===== *)
theory Array_Watchers
  imports Basics
begin

section \<open>Watchers kept in arrays\<close>

text \<open>
  Prepare, check, fork, cleanup and idle watchers are kept in growing arrays; \<^verbatim>\<open>active\<close>
  is the index plus one, and a stopped watcher is replaced by the last one of the array.
  The lemmas on the array alone come first; the locale \<open>warray\<close> states what a pair of
  start and stop routines does to its array, and proves once that the pair keeps the
  array invariant and the pending queues. It is interpreted by the routines of every
  watcher type.
\<close>

subsection \<open>The array invariant\<close>

definition warr :: "(W \<Rightarrow> bool) \<Rightarrow> (nat \<Rightarrow> W) \<Rightarrow> nat \<Rightarrow> nat \<Rightarrow> wstore \<Rightarrow> bool" where
  "warr Q a n mx s \<longleftrightarrow> n \<le> mx \<and> (\<forall>i < n. Q (a i) \<and> active (s (a i)) = Suc i) \<and>
     (\<forall>v. Q v \<and> active (s v) \<noteq> 0 \<longrightarrow> active (s v) \<le> n \<and> a (active (s v) - 1) = v)"

lemma warrD:
  assumes "warr Q a n mx s"
  shows "n \<le> mx" "i < n \<Longrightarrow> Q (a i)" "i < n \<Longrightarrow> active (s (a i)) = Suc i"
    "Q v \<Longrightarrow> active (s v) \<noteq> 0 \<Longrightarrow> active (s v) \<le> n" "Q v \<Longrightarrow> active (s v) \<noteq> 0 \<Longrightarrow> a (active (s v) - 1) = v"
  using assms by (auto simp: warr_def)

lemma warr_cong:
  assumes "warr Q a n mx s" "\<And>v. Q' v = Q v" "\<And>v. Q v \<Longrightarrow> active (s' v) = active (s v)"
  shows "warr Q' a n mx s'"
  using assms(1,3) unfolding warr_def assms(2) by auto

lemma warr_add:
  assumes W: "warr Q a n mx s" and w: "active (s w) = 0" "Q' w" "\<And>v. v \<noteq> w \<Longrightarrow> Q' v = Q v"
    and s': "\<And>v. v \<noteq> w \<Longrightarrow> active (s' v) = active (s v)" "active (s' w) = Suc n" and mx: "Suc n \<le> mx'"
  shows "warr Q' (a(n := w)) (Suc n) mx' s'"
proof -
  have ne: "a i \<noteq> w" if "i < n" for i using warrD(3)[OF W that] w(1) by auto
  have "Q' ((a(n := w)) i) \<and> active (s' ((a(n := w)) i)) = Suc i" if "i < Suc n" for i
    using that w(2) w(3)[of "a i"] s'(1)[of "a i"] s'(2) warrD(2,3)[OF W, of i] ne[of i] by (cases "i = n") auto
  moreover have "active (s' v) \<le> Suc n \<and> (a(n := w)) (active (s' v) - 1) = v" if v: "Q' v" "active (s' v) \<noteq> 0" for v
  proof (cases "v = w")
    case False
    then have "Q v" "active (s v) \<noteq> 0" "active (s' v) = active (s v)" using v w(3)[of v] s'(1)[of v] by auto
    then show ?thesis using warrD(4,5)[OF W, of v] by auto
  qed (use s' in simp)
  ultimately show ?thesis using mx by (simp add: warr_def)
qed

lemma warr_del:
  assumes W: "warr Q a n mx s" and w: "Q w" "active (s w) \<noteq> 0"
  defines "k \<equiv> active (s w)"
  assumes s': "\<And>v. v \<noteq> w \<Longrightarrow> active (s' v) = (if v = a (n - 1) then k else active (s v))" "active (s' w) = 0"
  shows "warr Q (a(k - 1 := a (n - 1))) (n - 1) mx s'"
proof -
  have k: "0 < k" "k \<le> n" "a (k - 1) = w" using warrD(4,5)[OF W w] w(2) by (auto simp: k_def)
  have l: "Q (a (n - 1))" "active (s (a (n - 1))) = n" using warrD(2,3)[OF W, of "n - 1"] k by auto
  have inj: "a i = w \<longleftrightarrow> i = k - 1" if "i < n" for i using warrD(3)[OF W that] k by (auto simp: k_def)
  have lw: "a (n - 1) = w \<longleftrightarrow> k = n" using inj[of "n - 1"] k by auto
  have lst: "a i = a (n - 1) \<longleftrightarrow> i = n - 1" if "i < n" for i using warrD(3)[OF W that] l(2) by (metis diff_Suc_1)
  have "Q ((a(k - 1 := a (n - 1))) i) \<and> active (s' ((a(k - 1 := a (n - 1))) i)) = Suc i" if "i < n - 1" for i
  proof (cases "i = k - 1")
    case True
    then have "a (n - 1) \<noteq> w" using lw k that by auto
    then show ?thesis using True l s'(1)[of "a (n - 1)"] k by simp
  next
    case False
    then show ?thesis using that warrD(2,3)[OF W, of i] s'(1)[of "a i"] inj[of i] lst[of i] by auto
  qed
  moreover have "active (s' v) \<le> n - 1 \<and> (a(k - 1 := a (n - 1))) (active (s' v) - 1) = v" if v: "Q v" "active (s' v) \<noteq> 0" for v
  proof -
    have vw: "v \<noteq> w" using v s'(2) by auto
    show ?thesis
    proof (cases "v = a (n - 1)")
      case True
      then have "k \<noteq> n" using lw vw by auto
      then show ?thesis using True s'(1)[OF vw] k by simp
    next
      case False
      then have a: "active (s' v) = active (s v)" using s'(1)[OF vw] by simp
      have "active (s v) \<le> n" "a (active (s v) - 1) = v" using warrD(4,5)[OF W v(1)] v(2) a by auto
      moreover have "active (s v) \<noteq> n" using calculation(2) False by auto
      moreover have "active (s v) - 1 \<noteq> k - 1" using calculation(2) k(3) vw by auto
      ultimately show ?thesis using a by simp
    qed
  qed
  ultimately show ?thesis using warrD(1)[OF W] by (auto simp: warr_def)
qed

subsection \<open>Operations\<close>

definition ev_idle_start :: "W \<Rightarrow> 'w ev_loop \<Rightarrow> 'w ev_loop" where
  "ev_idle_start w L =
     (if active (ws L w) \<noteq> 0 then L
      else
        let L = pri_adjust w L;
            p = ABSPRI (ws L w);
            L = L\<lparr>idlecnt := (idlecnt L)(p := idlecnt L p + 1)\<rparr>;
            a = idlecnt L p;
            L = L\<lparr>idleall := idleall L + 1\<rparr>;
            L = ev_start w a L;
            L = L\<lparr>idlemax := (idlemax L)(p := needsize 8 (idlemax L p) a)\<rparr>;
            L = chk (p < NUMPRI \<and> a - 1 < idlemax L p) L
        in L\<lparr>idles := (idles L)(p := (idles L p)(a - 1 := w))\<rparr>)"

definition ev_idle_stop :: "W \<Rightarrow> 'w ev_loop \<Rightarrow> 'w ev_loop" where
  "ev_idle_stop w L =
     (let L = clear_pending w L in
      if active (ws L w) = 0 then L
      else
        let a = active (ws L w);
            p = ABSPRI (ws L w);
            L = chk (p < NUMPRI \<and> a - 1 < idlemax L p \<and> idlecnt L p \<noteq> 0) L;
            L = L\<lparr>idlecnt := (idlecnt L)(p := idlecnt L p - 1)\<rparr>;
            L = L\<lparr>idles := (idles L)(p := (idles L p)(a - 1 := idles L p (idlecnt L p)))\<rparr>;
            L = upd_w (idles L p (a - 1)) (\<lambda>x. x\<lparr>active := a\<rparr>) L;
            L = ev_stop w L
        in L\<lparr>idleall := idleall L - 1\<rparr>)"

definition ev_prepare_start :: "W \<Rightarrow> 'w ev_loop \<Rightarrow> 'w ev_loop" where
  "ev_prepare_start w L =
     (if active (ws L w) \<noteq> 0 then L
      else
        let L = L\<lparr>preparecnt := preparecnt L + 1\<rparr>;
            L = ev_start w (preparecnt L) L;
            L = L\<lparr>preparemax := needsize 8 (preparemax L) (preparecnt L)\<rparr>;
            L = chk (preparecnt L - 1 < preparemax L) L
        in L\<lparr>prepares := (prepares L)(preparecnt L - 1 := w)\<rparr>)"

definition ev_prepare_stop :: "W \<Rightarrow> 'w ev_loop \<Rightarrow> 'w ev_loop" where
  "ev_prepare_stop w L =
     (let L = clear_pending w L in
      if active (ws L w) = 0 then L
      else
        let a = active (ws L w);
            L = chk (a - 1 < preparemax L \<and> preparecnt L \<noteq> 0) L;
            L = L\<lparr>preparecnt := preparecnt L - 1\<rparr>;
            L = L\<lparr>prepares := (prepares L)(a - 1 := prepares L (preparecnt L))\<rparr>;
            L = upd_w (prepares L (a - 1)) (\<lambda>x. x\<lparr>active := a\<rparr>) L
        in ev_stop w L)"

definition ev_check_start :: "W \<Rightarrow> 'w ev_loop \<Rightarrow> 'w ev_loop" where
  "ev_check_start w L =
     (if active (ws L w) \<noteq> 0 then L
      else
        let L = L\<lparr>checkcnt := checkcnt L + 1\<rparr>;
            L = ev_start w (checkcnt L) L;
            L = L\<lparr>checkmax := needsize 8 (checkmax L) (checkcnt L)\<rparr>;
            L = chk (checkcnt L - 1 < checkmax L) L
        in L\<lparr>checks := (checks L)(checkcnt L - 1 := w)\<rparr>)"

definition ev_check_stop :: "W \<Rightarrow> 'w ev_loop \<Rightarrow> 'w ev_loop" where
  "ev_check_stop w L =
     (let L = clear_pending w L in
      if active (ws L w) = 0 then L
      else
        let a = active (ws L w);
            L = chk (a - 1 < checkmax L \<and> checkcnt L \<noteq> 0) L;
            L = L\<lparr>checkcnt := checkcnt L - 1\<rparr>;
            L = L\<lparr>checks := (checks L)(a - 1 := checks L (checkcnt L))\<rparr>;
            L = upd_w (checks L (a - 1)) (\<lambda>x. x\<lparr>active := a\<rparr>) L
        in ev_stop w L)"

definition ev_fork_start :: "W \<Rightarrow> 'w ev_loop \<Rightarrow> 'w ev_loop" where
  "ev_fork_start w L =
     (if active (ws L w) \<noteq> 0 then L
      else
        let L = L\<lparr>forkcnt := forkcnt L + 1\<rparr>;
            L = ev_start w (forkcnt L) L;
            L = L\<lparr>forkmax := needsize 8 (forkmax L) (forkcnt L)\<rparr>;
            L = chk (forkcnt L - 1 < forkmax L) L
        in L\<lparr>forks := (forks L)(forkcnt L - 1 := w)\<rparr>)"

definition ev_fork_stop :: "W \<Rightarrow> 'w ev_loop \<Rightarrow> 'w ev_loop" where
  "ev_fork_stop w L =
     (let L = clear_pending w L in
      if active (ws L w) = 0 then L
      else
        let a = active (ws L w);
            L = chk (a - 1 < forkmax L \<and> forkcnt L \<noteq> 0) L;
            L = L\<lparr>forkcnt := forkcnt L - 1\<rparr>;
            L = L\<lparr>forks := (forks L)(a - 1 := forks L (forkcnt L))\<rparr>;
            L = upd_w (forks L (a - 1)) (\<lambda>x. x\<lparr>active := a\<rparr>) L
        in ev_stop w L)"

definition ev_cleanup_start :: "W \<Rightarrow> 'w ev_loop \<Rightarrow> 'w ev_loop" where
  "ev_cleanup_start w L =
     (if active (ws L w) \<noteq> 0 then L
      else
        let L = L\<lparr>cleanupcnt := cleanupcnt L + 1\<rparr>;
            L = ev_start w (cleanupcnt L) L;
            L = L\<lparr>cleanupmax := needsize 8 (cleanupmax L) (cleanupcnt L)\<rparr>;
            L = chk (cleanupcnt L - 1 < cleanupmax L) L
        in ev_unref (L\<lparr>cleanups := (cleanups L)(cleanupcnt L - 1 := w)\<rparr>))"

definition ev_cleanup_stop :: "W \<Rightarrow> 'w ev_loop \<Rightarrow> 'w ev_loop" where
  "ev_cleanup_stop w L =
     (let L = clear_pending w L in
      if active (ws L w) = 0 then L
      else
        let L = ev_ref L;
            a = active (ws L w);
            L = chk (a - 1 < cleanupmax L \<and> cleanupcnt L \<noteq> 0) L;
            L = L\<lparr>cleanupcnt := cleanupcnt L - 1\<rparr>;
            L = L\<lparr>cleanups := (cleanups L)(a - 1 := cleanups L (cleanupcnt L))\<rparr>;
            L = upd_w (cleanups L (a - 1)) (\<lambda>x. x\<lparr>active := a\<rparr>) L
        in ev_stop w L)"

text \<open>\<^verbatim>\<open>idle_reify\<close>: feed the idle watchers of the highest priority that has any, unless
  something of at least that priority is pending.\<close>

fun idle_reify_from :: "nat \<Rightarrow> 'w ev_loop \<Rightarrow> 'w ev_loop" where
  "idle_reify_from 0 L = L"
| "idle_reify_from (Suc p) L =
     (if pendingcnt L p \<noteq> 0 then L
      else if idlecnt L p \<noteq> 0 then queue_events (idles L p) (idlecnt L p) EV_IDLE L
      else idle_reify_from p L)"

definition idle_reify :: "'w ev_loop \<Rightarrow> 'w ev_loop" where
  "idle_reify L = (if idleall L \<noteq> 0 then idle_reify_from NUMPRI L else L)"

subsection \<open>Every start and stop routine keeps its array\<close>

text \<open>A family of array watchers is in order, together with the pending queues.\<close>

definition family_ok :: "wkind \<Rightarrow> ('w ev_loop \<Rightarrow> nat \<Rightarrow> W) \<Rightarrow> ('w ev_loop \<Rightarrow> nat) \<Rightarrow> ('w ev_loop \<Rightarrow> nat) \<Rightarrow> 'w ev_loop \<Rightarrow> bool" where
  "family_ok K arr cnt mx L \<longleftrightarrow> warr (\<lambda>v. kind v = K) (arr L) (cnt L) (mx L) (ws L) \<and> pend_inv L"

text \<open>What a start routine and a stop routine promise.\<close>

definition starts :: "W \<Rightarrow> 'w ev_loop \<Rightarrow> 'w ev_loop \<Rightarrow> bool" where
  "starts w L L' \<longleftrightarrow> ok L' = ok L \<and> pend_of L' = pend_of L \<and> active (ws L' w) \<noteq> 0 \<and> (\<forall>v. v \<noteq> w \<longrightarrow> ws L' v = ws L v)"

definition stops :: "W \<Rightarrow> 'w ev_loop \<Rightarrow> 'w ev_loop \<Rightarrow> bool" where
  "stops w L L' \<longleftrightarrow> ok L' = ok L \<and> pend_of L' = (pend_of L)(w := None) \<and> active (ws L' w) = 0 \<and>
     (\<forall>v. v \<noteq> w \<longrightarrow> (ws L' v)\<lparr>active := 0\<rparr> = (ws L v)\<lparr>active := 0\<rparr> \<and> (active (ws L' v) = 0 \<longleftrightarrow> active (ws L v) = 0))"

text \<open>
  How the array itself changes. A start appends the watcher and sets its priority and index; a stop fills the gap with
  the last watcher, which gets the freed index, and leaves the record of every other watcher alone.
\<close>

definition appended :: "('w ev_loop \<Rightarrow> nat \<Rightarrow> W) \<Rightarrow> ('w ev_loop \<Rightarrow> nat) \<Rightarrow> W \<Rightarrow> 'w ev_loop \<Rightarrow> 'w ev_loop \<Rightarrow> bool" where
  "appended arr cnt w L L' \<longleftrightarrow>
     (if active (ws L w) \<noteq> 0 then L' = L
      else cnt L' = Suc (cnt L) \<and> (\<forall>i < cnt L. arr L' i = arr L i) \<and> arr L' (cnt L) = w \<and>
        ws L' w = (ws L w)\<lparr>priority := pri_clamp (priority (ws L w)), active := Suc (cnt L)\<rparr>)"

definition removed :: "('w ev_loop \<Rightarrow> nat \<Rightarrow> W) \<Rightarrow> ('w ev_loop \<Rightarrow> nat) \<Rightarrow> W \<Rightarrow> 'w ev_loop \<Rightarrow> 'w ev_loop \<Rightarrow> bool" where
  "removed arr cnt w L L' \<longleftrightarrow>
     (if active (ws L w) = 0 then cnt L' = cnt L \<and> (\<forall>i < cnt L. arr L' i = arr L i) \<and> (\<forall>v. v \<noteq> w \<longrightarrow> ws L' v = ws L v)
      else cnt L' = cnt L - 1 \<and>
        (\<forall>i < cnt L - 1. arr L' i = (if i = active (ws L w) - 1 then arr L (cnt L - 1) else arr L i)) \<and>
        (\<forall>v. v \<noteq> w \<longrightarrow> ws L' v = (if v = arr L (cnt L - 1) then (ws L v)\<lparr>active := active (ws L w)\<rparr> else ws L v)))"

locale warray =
  fixes K :: wkind and arr :: "'w ev_loop \<Rightarrow> nat \<Rightarrow> W" and cnt mx :: "'w ev_loop \<Rightarrow> nat"
    and start stop :: "W \<Rightarrow> 'w ev_loop \<Rightarrow> 'w ev_loop"
  assumes start_nop: "active (ws L w) \<noteq> 0 \<Longrightarrow> start w L = L"
    and start_data: "active (ws L w) = 0 \<Longrightarrow>
      ws (start w L) = (ws L)(w := (ws L w)\<lparr>priority := pri_clamp (priority (ws L w)), active := Suc (cnt L)\<rparr>) \<and>
      arr (start w L) = (arr L)(cnt L := w) \<and> cnt (start w L) = Suc (cnt L) \<and>
      mx (start w L) = needsize 8 (mx L) (Suc (cnt L)) \<and> ok (start w L) = ok L"
    and start_pend: "pendings (start w L) = pendings L" "pendingcnt (start w L) = pendingcnt L" "pendingmax (start w L) = pendingmax L"
    and stop_nop: "active (ws L w) = 0 \<Longrightarrow> stop w L = clear_pending w L"
    and stop_data: "active (ws L w) \<noteq> 0 \<Longrightarrow> cnt L \<noteq> 0 \<Longrightarrow>
      (let C = clear_pending w L; a = active (ws L w); l = arr L (cnt L - 1); s = (ws C)(l := (ws C l)\<lparr>active := a\<rparr>) in
       ws (stop w L) = s(w := (s w)\<lparr>active := 0\<rparr>) \<and>
       arr (stop w L) = (arr L)(a - 1 := l) \<and> cnt (stop w L) = cnt L - 1 \<and> mx (stop w L) = mx L \<and>
       ok (stop w L) = (ok C \<and> a - 1 < mx L))"
    and stop_pend: "pendings (stop w L) = pendings (clear_pending w L)" "pendingcnt (stop w L) = pendingcnt (clear_pending w L)"
      "pendingmax (stop w L) = pendingmax (clear_pending w L)"
    and clear_data: "arr (clear_pending w L) = arr L" "cnt (clear_pending w L) = cnt L" "mx (clear_pending w L) = mx L"
begin

definition inv :: "'w ev_loop \<Rightarrow> bool" where
  "inv L \<longleftrightarrow> warr (\<lambda>v. kind v = K) (arr L) (cnt L) (mx L) (ws L)"

lemma start_keeps:
  assumes I: "inv L" and P: "pend_inv L" and w: "kind w = K"
  shows "inv (start w L) \<and> pend_inv (start w L) \<and> ok (start w L) = ok L \<and> pend_of (start w L) = pend_of L \<and>
    active (ws (start w L) w) \<noteq> 0 \<and> (\<forall>v. v \<noteq> w \<longrightarrow> ws (start w L) v = ws L v) \<and> appended arr cnt w L (start w L)"
proof (cases "active (ws L w) = 0")
  case True
  note d = start_data[OF True]
  have m: "Suc (cnt L) \<le> needsize 8 (mx L) (Suc (cnt L))" by simp
  have "inv (start w L)" unfolding inv_def
    using warr_add[OF I[unfolded inv_def] True, of "\<lambda>v. kind v = K" "ws (start w L)", OF w refl _ _ m] d by simp
  moreover have "pending (ws (start w L) v) = pending (ws L v)" for v using d by simp
  moreover have "priority (ws (start w L) v) = priority (ws L v)" if "pending (ws L v) \<noteq> 0" for v
    using d pend_pending(1)[OF P that] by (auto simp: pri_clamp_def pri_valid_def)
  ultimately have "inv (start w L)" "pend_inv (start w L)" "pend_of (start w L) = pend_of L"
    using pend_cong[OF start_pend[of w L]] P by simp_all
  then show ?thesis using d True by (simp add: appended_def)
qed (use I P start_nop in \<open>simp add: appended_def\<close>)

lemma stop_keeps:
  assumes I: "inv L" and P: "pend_inv L" and w: "kind w = K"
  shows "inv (stop w L) \<and> pend_inv (stop w L) \<and> ok (stop w L) = ok L \<and> pend_of (stop w L) = (pend_of L)(w := None) \<and>
    active (ws (stop w L) w) = 0 \<and> (\<forall>v. v \<noteq> w \<longrightarrow> (ws (stop w L) v)\<lparr>active := 0\<rparr> = (ws L v)\<lparr>active := 0\<rparr> \<and>
      (active (ws (stop w L) v) = 0 \<longleftrightarrow> active (ws L v) = 0)) \<and> removed arr cnt w L (stop w L)"
proof -
  define C where "C = clear_pending w L"
  have C: "inv C" "pend_inv C" "ok C = ok L" "pend_of C = (pend_of L)(w := None)" "\<And>v. active (ws C v) = active (ws L v)"
    using I warr_cong[of "\<lambda>v. kind v = K" "arr L" "cnt L" "mx L" "ws L" _ "ws C"] clear_inv[OF P] clear_ok[OF P] clear_pend_of[OF P]
    by (simp_all add: C_def inv_def clear_data)
  have o: "ws C v = ws L v" if "v \<noteq> w" for v using clear_other[OF that, of L] by (simp add: C_def)
  show ?thesis
  proof (cases "active (ws L w) = 0")
    case True
    then show ?thesis using C o stop_nop[OF True] clear_data[of w L] by (simp add: C_def removed_def)
  next
    case False
    define k where "k = active (ws L w)"
    note W = I[unfolded inv_def]
    have k: "k \<noteq> 0" "k \<le> cnt L" "cnt L \<le> mx L" using warrD(4)[OF W, of w] warrD(1)[OF W] w False by (auto simp: k_def)
    then have n: "cnt L \<noteq> 0" by simp
    let ?l = "arr L (cnt L - 1)"
    define s where "s = (ws C)(?l := (ws C ?l)\<lparr>active := k\<rparr>)"
    have d: "ws (stop w L) = s(w := (s w)\<lparr>active := 0\<rparr>)" "arr (stop w L) = (arr L)(k - 1 := ?l)" "cnt (stop w L) = cnt L - 1"
      "mx (stop w L) = mx L" "ok (stop w L) = (ok C \<and> k - 1 < mx L)"
      using stop_data[OF False n] by (simp_all add: Let_def C_def[symmetric] k_def[symmetric] s_def)
    have a: "active (ws (stop w L) v) = (if v = ?l then k else active (ws L v))" if "v \<noteq> w" for v
      using that C(5)[of v] by (simp add: d(1) s_def)
    have aw: "active (ws (stop w L) w) = 0" by (simp add: d(1))
    have "inv (stop w L)" unfolding inv_def d(2,3,4)
      using warr_del[OF W w False, of "ws (stop w L)", folded k_def, OF a aw] by simp
    moreover have "pend_inv (stop w L)" "pend_of (stop w L) = pend_of C"
      using pend_cong[OF stop_pend[of w L, folded C_def]] C(2) by (auto simp: d(1) s_def)
    moreover have "(ws (stop w L) v)\<lparr>active := 0\<rparr> = (ws L v)\<lparr>active := 0\<rparr>" if "v \<noteq> w" for v
      using that o[OF that] by (cases "v = ?l") (simp_all add: d(1) s_def)
    moreover have "ok (stop w L) = ok L" using d(5) C(3) k by auto
    moreover have "active (ws (stop w L) v) = 0 \<longleftrightarrow> active (ws L v) = 0" if "v \<noteq> w" for v
      using a[OF that] k warrD(3)[OF W, of "cnt L - 1"] n by auto
    moreover have "removed arr cnt w L (stop w L)"
    proof -
      have "ws (stop w L) v = (if v = ?l then (ws L v)\<lparr>active := k\<rparr> else ws L v)" if "v \<noteq> w" for v
        using that o[OF that] by (cases "v = ?l") (simp_all add: d(1) s_def)
      then show ?thesis using False by (simp add: removed_def d(2,3) k_def)
    qed
    ultimately show ?thesis using C(4) aw by simp
  qed
qed

lemma spec:
  "family_ok K arr cnt mx L \<Longrightarrow> kind w = K \<Longrightarrow>
    family_ok K arr cnt mx (start w L) \<and> starts w L (start w L) \<and> appended arr cnt w L (start w L) \<and>
    family_ok K arr cnt mx (stop w L) \<and> stops w L (stop w L) \<and> removed arr cnt w L (stop w L)"
  using start_keeps[of L w] stop_keeps[of L w] unfolding inv_def family_ok_def starts_def stops_def by blast

end

interpretation prepare: warray KPrepare prepares preparecnt preparemax ev_prepare_start ev_prepare_stop
proof
  have m: "n < needsize 8 k (Suc n)" for n k by (simp flip: Suc_le_eq)
  show "active (ws L w) = 0 \<Longrightarrow>
      ws (ev_prepare_start w L) = (ws L)(w := (ws L w)\<lparr>priority := pri_clamp (priority (ws L w)), active := Suc (preparecnt L)\<rparr>) \<and>
      prepares (ev_prepare_start w L) = (prepares L)(preparecnt L := w) \<and> preparecnt (ev_prepare_start w L) = Suc (preparecnt L) \<and>
      preparemax (ev_prepare_start w L) = needsize 8 (preparemax L) (Suc (preparecnt L)) \<and> ok (ev_prepare_start w L) = ok L" for w and L :: "'a ev_loop"
    by (simp add: ev_prepare_start_def Let_def base_defs m pri_clamp_def)
qed (simp_all add: ev_prepare_start_def ev_prepare_stop_def Let_def base_defs)

interpretation check: warray KCheck checks checkcnt checkmax ev_check_start ev_check_stop
proof
  have m: "n < needsize 8 k (Suc n)" for n k by (simp flip: Suc_le_eq)
  show "active (ws L w) = 0 \<Longrightarrow>
      ws (ev_check_start w L) = (ws L)(w := (ws L w)\<lparr>priority := pri_clamp (priority (ws L w)), active := Suc (checkcnt L)\<rparr>) \<and>
      checks (ev_check_start w L) = (checks L)(checkcnt L := w) \<and> checkcnt (ev_check_start w L) = Suc (checkcnt L) \<and>
      checkmax (ev_check_start w L) = needsize 8 (checkmax L) (Suc (checkcnt L)) \<and> ok (ev_check_start w L) = ok L" for w and L :: "'a ev_loop"
    by (simp add: ev_check_start_def Let_def base_defs m pri_clamp_def)
qed (simp_all add: ev_check_start_def ev_check_stop_def Let_def base_defs)

interpretation fork: warray KFork forks forkcnt forkmax ev_fork_start ev_fork_stop
proof
  have m: "n < needsize 8 k (Suc n)" for n k by (simp flip: Suc_le_eq)
  show "active (ws L w) = 0 \<Longrightarrow>
      ws (ev_fork_start w L) = (ws L)(w := (ws L w)\<lparr>priority := pri_clamp (priority (ws L w)), active := Suc (forkcnt L)\<rparr>) \<and>
      forks (ev_fork_start w L) = (forks L)(forkcnt L := w) \<and> forkcnt (ev_fork_start w L) = Suc (forkcnt L) \<and>
      forkmax (ev_fork_start w L) = needsize 8 (forkmax L) (Suc (forkcnt L)) \<and> ok (ev_fork_start w L) = ok L" for w and L :: "'a ev_loop"
    by (simp add: ev_fork_start_def Let_def base_defs m pri_clamp_def)
qed (simp_all add: ev_fork_start_def ev_fork_stop_def Let_def base_defs)

interpretation cleanup: warray KCleanup cleanups cleanupcnt cleanupmax ev_cleanup_start ev_cleanup_stop
proof
  have m: "n < needsize 8 k (Suc n)" for n k by (simp flip: Suc_le_eq)
  show "active (ws L w) = 0 \<Longrightarrow>
      ws (ev_cleanup_start w L) = (ws L)(w := (ws L w)\<lparr>priority := pri_clamp (priority (ws L w)), active := Suc (cleanupcnt L)\<rparr>) \<and>
      cleanups (ev_cleanup_start w L) = (cleanups L)(cleanupcnt L := w) \<and> cleanupcnt (ev_cleanup_start w L) = Suc (cleanupcnt L) \<and>
      cleanupmax (ev_cleanup_start w L) = needsize 8 (cleanupmax L) (Suc (cleanupcnt L)) \<and> ok (ev_cleanup_start w L) = ok L" for w and L :: "'a ev_loop"
    by (simp add: ev_cleanup_start_def Let_def base_defs m pri_clamp_def)
qed (simp_all add: ev_cleanup_start_def ev_cleanup_stop_def Let_def base_defs)

subsection \<open>Idle watchers\<close>

text \<open>One array per priority; the array of a watcher is that of its adjusted priority.\<close>

definition idle_inv :: "'w ev_loop \<Rightarrow> bool" where
  "idle_inv L \<longleftrightarrow>
     (\<forall>p < NUMPRI. warr (\<lambda>v. kind v = KIdle \<and> active (ws L v) \<noteq> 0 \<and> ABSPRI (ws L v) = p) (idles L p) (idlecnt L p) (idlemax L p) (ws L)) \<and>
     (\<forall>v. kind v = KIdle \<and> active (ws L v) \<noteq> 0 \<longrightarrow> pri_valid (ws L v)) \<and>
     idleall L = (\<Sum>p < NUMPRI. int (idlecnt L p))"

lemma ev_idle_start_eq:
  assumes "active (ws L w) = 0"
  defines "s \<equiv> (ws L)(w := (ws L w)\<lparr>priority := pri_clamp (priority (ws L w))\<rparr>)"
  defines "p \<equiv> ABSPRI (s w)"
  shows "ev_idle_start w L = L\<lparr>ws := s(w := (s w)\<lparr>active := Suc (idlecnt L p)\<rparr>),
    idles := (idles L)(p := (idles L p)(idlecnt L p := w)), idlecnt := (idlecnt L)(p := Suc (idlecnt L p)),
    idlemax := (idlemax L)(p := needsize 8 (idlemax L p) (Suc (idlecnt L p))), idleall := idleall L + 1, activecnt := activecnt L + 1\<rparr>"
proof -
  have m: "n < needsize 8 k (Suc n)" for n k by (simp flip: Suc_le_eq)
  have pv: "ABSPRI (x\<lparr>priority := pri_clamp q, active := j\<rparr>) = ABSPRI (x\<lparr>priority := pri_clamp q\<rparr>)" "pri_clamp (pri_clamp q) = pri_clamp q"
    "ABSPRI (x\<lparr>priority := pri_clamp q\<rparr>) < 5" for x q j by (auto simp: ABSPRI_def pri_clamp_def)
  have pa: "pri_adjust w M = M\<lparr>ws := (ws M)(w := (ws M w)\<lparr>priority := pri_clamp (priority (ws M w))\<rparr>)\<rparr>" for M :: "'a ev_loop"
    by (simp add: pri_adjust_def upd_w_def pri_clamp_def Let_def)
  show ?thesis using assms(1) unfolding ev_idle_start_def Let_def pa ev_start_def
    by (simp add: m pv chk_def upd_w_def ev_ref_def s_def p_def)
qed

lemma sum_upd: "p < (n :: nat) \<Longrightarrow> (\<Sum>i < n. int ((f(p := k)) i)) = (\<Sum>i < n. int (f i)) - int (f p) + int k"
  by (simp add: sum.remove[of "{..<n}" p])

lemma idle_start_inv:
  assumes I: "idle_inv L" and P: "pend_inv L" and w: "kind w = KIdle" "active (ws L w) = 0"
  defines "L' \<equiv> ev_idle_start w L"
  shows "idle_inv L' \<and> pend_inv L' \<and> ok L' = ok L \<and> pend_of L' = pend_of L \<and> active (ws L' w) \<noteq> 0 \<and> idleall L' = idleall L + 1 \<and>
    (\<forall>v. v \<noteq> w \<longrightarrow> ws L' v = ws L v)"
proof -
  define x where "x = (ws L w)\<lparr>priority := pri_clamp (priority (ws L w))\<rparr>"
  define p where "p = ABSPRI x"
  have xv: "pri_valid x" "active x = 0" "pending x = pending (ws L w)" using w(2) by (simp_all add: x_def pri_valid_def pri_clamp_def)
  have p: "p < NUMPRI" using ABSPRI_lt[OF xv(1)] by (simp add: p_def)
  have e: "L' = L\<lparr>ws := (ws L)(w := x\<lparr>active := Suc (idlecnt L p)\<rparr>),
    idles := (idles L)(p := (idles L p)(idlecnt L p := w)), idlecnt := (idlecnt L)(p := Suc (idlecnt L p)),
    idlemax := (idlemax L)(p := needsize 8 (idlemax L p) (Suc (idlecnt L p))), idleall := idleall L + 1, activecnt := activecnt L + 1\<rparr>"
    unfolding L'_def ev_idle_start_eq[OF w(2)] by (simp add: x_def p_def)
  let ?Q = "\<lambda>L q v. kind v = KIdle \<and> active (ws L v) \<noteq> 0 \<and> ABSPRI (ws L v) = q"
  have o: "ws L' v = ws L v" if "v \<noteq> w" for v using that by (simp add: e)
  have ww: "ws L' w = x\<lparr>active := Suc (idlecnt L p)\<rparr>" by (simp add: e)
  have aw: "ABSPRI (ws L' w) = p" "pri_valid (ws L' w)" using xv by (simp_all add: ww p_def ABSPRI_def pri_valid_def)
  have "warr (?Q L' q) (idles L' q) (idlecnt L' q) (idlemax L' q) (ws L')" if q: "q < NUMPRI" for q
  proof -
    have W: "warr (?Q L q) (idles L q) (idlecnt L q) (idlemax L q) (ws L)" using I q by (simp add: idle_inv_def)
    show ?thesis
    proof (cases "q = p")
      case True
      have m: "Suc (idlecnt L p) \<le> needsize 8 (idlemax L p) (Suc (idlecnt L p))" by simp
      have "warr (?Q L' p) ((idles L p)(idlecnt L p := w)) (Suc (idlecnt L p)) (needsize 8 (idlemax L p) (Suc (idlecnt L p))) (ws L')"
        by (rule warr_add[OF W[unfolded True] w(2) _ _ _ _ m]) (use w(1) aw o ww in simp_all)
      then show ?thesis using True by (simp add: e)
    next
      case False
      have "warr (?Q L' q) (idles L q) (idlecnt L q) (idlemax L q) (ws L')"
      proof (rule warr_cong[OF W])
        show "?Q L' q v = ?Q L q v" for v using o[of v] aw(1) w(2) False by (cases "v = w") auto
        show "active (ws L' v) = active (ws L v)" if "?Q L q v" for v using that w(2) o[of v] by (cases "v = w") auto
      qed
      then show ?thesis using False by (simp add: e)
    qed
  qed
  moreover have "pri_valid (ws L' v)" if "kind v = KIdle" "active (ws L' v) \<noteq> 0" for v
    using that I aw(2) o[of v] by (cases "v = w") (auto simp: idle_inv_def)
  moreover have "idleall L' = (\<Sum>q < NUMPRI. int (idlecnt L' q))"
    using I sum_upd[OF p, of "idlecnt L" "Suc (idlecnt L p)"] by (simp add: e idle_inv_def)
  ultimately have "idle_inv L'" by (simp add: idle_inv_def)
  moreover have "pending (ws L' v) = pending (ws L v)" for v using o[of v] xv(3) by (cases "v = w") (simp_all add: ww)
  moreover have "priority (ws L' v) = priority (ws L v)" if "pending (ws L v) \<noteq> 0" for v
    using o[of v] pend_pending(1)[OF P that] by (cases "v = w") (simp_all add: ww x_def pri_clamp_def pri_valid_def)
  ultimately show ?thesis using pend_cong[of L' L] P o by (simp add: e)
qed

lemma idle_stop_inv:
  assumes I: "idle_inv L" and P: "pend_inv L" and w: "kind w = KIdle"
  defines "L' \<equiv> ev_idle_stop w L"
  shows "idle_inv L' \<and> pend_inv L' \<and> ok L' = ok L \<and> pend_of L' = (pend_of L)(w := None) \<and> active (ws L' w) = 0 \<and>
    (\<forall>v. v \<noteq> w \<longrightarrow> (ws L' v)\<lparr>active := 0\<rparr> = (ws L v)\<lparr>active := 0\<rparr> \<and> (active (ws L' v) = 0 \<longleftrightarrow> active (ws L v) = 0))"
proof -
  define C where "C = clear_pending w L"
  let ?Q = "\<lambda>L q v. kind v = KIdle \<and> active (ws L v) \<noteq> 0 \<and> ABSPRI (ws L v) = q"
  have cf: "active (ws C v) = active (ws L v)" "priority (ws C v) = priority (ws L v)" "ABSPRI (ws C v) = ABSPRI (ws L v)"
    "pri_valid (ws C v) = pri_valid (ws L v)" "idles C = idles L" "idlecnt C = idlecnt L" "idlemax C = idlemax L" "idleall C = idleall L" for v
    by (simp_all add: C_def ABSPRI_def pri_valid_def)
  have C: "idle_inv C" "pend_inv C" "ok C = ok L" "pend_of C = (pend_of L)(w := None)"
  proof -
    show "idle_inv C" using I unfolding idle_inv_def cf by (auto intro: warr_cong[of _ _ _ _ "ws L"] simp: cf)
    show "pend_inv C" "ok C = ok L" "pend_of C = (pend_of L)(w := None)"
      using clear_inv[OF P] clear_ok[OF P] clear_pend_of[OF P] by (simp_all add: C_def)
  qed
  have oC: "ws C v = ws L v" if "v \<noteq> w" for v using clear_other[OF that, of L] by (simp add: C_def)
  show ?thesis
  proof (cases "active (ws L w) = 0")
    case True
    then have "L' = C" by (simp add: L'_def ev_idle_stop_def C_def Let_def)
    then show ?thesis using C True oC cf(1) by simp
  next
    case False
    define k where "k = active (ws C w)"
    define p where "p = ABSPRI (ws C w)"
    have k0: "k \<noteq> 0" using False by (simp add: k_def cf)
    have p: "p < NUMPRI" using C(1) w k0 ABSPRI_lt[of "ws C w"] by (auto simp: idle_inv_def p_def k_def)
    have W: "warr (?Q C p) (idles C p) (idlecnt C p) (idlemax C p) (ws C)" using C(1) p by (simp add: idle_inv_def)
    have Qw: "?Q C p w" using w k0 by (simp add: p_def k_def)
    have k: "k \<le> idlecnt C p" "idlecnt C p \<le> idlemax C p" using warrD(4)[OF W Qw] warrD(1)[OF W] k0 by (auto simp: k_def)
    let ?l = "idles C p (idlecnt C p - 1)"
    define s where "s = (ws C)(?l := (ws C ?l)\<lparr>active := k\<rparr>)"
    have e: "L' = C\<lparr>ws := s(w := (s w)\<lparr>active := 0\<rparr>), idles := (idles C)(p := (idles C p)(k - 1 := ?l)),
        idlecnt := (idlecnt C)(p := idlecnt C p - 1), idleall := idleall C - 1, activecnt := activecnt C - 1\<rparr>"
    proof -
      have "p < 5 \<and> k - 1 < idlemax C p \<and> idlecnt C p \<noteq> 0" using p k k0 by auto
      then show ?thesis using k0
        by (simp add: L'_def ev_idle_stop_def C_def[symmetric] k_def[symmetric] p_def[symmetric] Let_def base_defs s_def)
    qed
    have lQ: "?Q C p ?l" using warrD(2)[OF W, of "idlecnt C p - 1"] k k0 by auto
    have ww: "active (ws L' w) = 0" by (simp add: e)
    have a: "active (ws L' v) = (if v = ?l then k else active (ws C v))" "ABSPRI (ws L' v) = ABSPRI (ws C v)"
      "pri_valid (ws L' v) = pri_valid (ws C v)" "(ws L' v)\<lparr>active := 0\<rparr> = (ws C v)\<lparr>active := 0\<rparr>" if "v \<noteq> w" for v
      using that by (simp_all add: e s_def ABSPRI_def pri_valid_def)
    have Qeq: "?Q L' q v = (?Q C q v \<and> v \<noteq> w)" for q v
      using a[of v] lQ ww k0 by (cases "v = w"; cases "v = ?l") auto
    have "warr (?Q L' q) (idles L' q) (idlecnt L' q) (idlemax L' q) (ws L')" if q: "q < NUMPRI" for q
    proof (cases "q = p")
      case True
      have "warr (?Q C p) ((idles C p)(k - 1 := ?l)) (idlecnt C p - 1) (idlemax C p) (ws L')"
        using warr_del[OF W Qw, of "ws L'"] a(1) ww k0 by (simp add: k_def)
      then have D: "warr (?Q C p) (idles L' q) (idlecnt L' q) (idlemax L' q) (ws L')" using True by (simp add: e)
      have "idles L' q i \<noteq> w" if "i < idlecnt L' q" for i using warrD(3)[OF D that] ww by auto
      then show ?thesis using D unfolding warr_def Qeq True by auto
    next
      case False
      have W': "warr (?Q C q) (idles C q) (idlecnt C q) (idlemax C q) (ws C)" using C(1) q by (simp add: idle_inv_def)
      have ne: "v \<noteq> w" "v \<noteq> ?l" if "?Q C q v" for v using that False lQ by (auto simp: p_def)
      have "warr (?Q L' q) (idles C q) (idlecnt C q) (idlemax C q) (ws L')"
      proof (rule warr_cong[OF W'])
        show "?Q L' q v = ?Q C q v" for v using Qeq ne by blast
        show "active (ws L' v) = active (ws C v)" if "?Q C q v" for v using a(1)[of v] ne[OF that] by simp
      qed
      then show ?thesis using False by (simp add: e)
    qed
    moreover have "pri_valid (ws L' v)" if "kind v = KIdle" "active (ws L' v) \<noteq> 0" for v
    proof -
      have "?Q L' (ABSPRI (ws L' v)) v" using that by simp
      then show ?thesis unfolding Qeq using C(1) a(3)[of v] by (simp add: idle_inv_def)
    qed
    moreover have "idleall L' = (\<Sum>q < NUMPRI. int (idlecnt L' q))"
      using C(1) sum_upd[OF p, of "idlecnt C" "idlecnt C p - 1"] k k0 by (simp add: e idle_inv_def of_nat_diff)
    ultimately have "idle_inv L'" by (simp add: idle_inv_def)
    moreover have "pending (ws L' v) = pending (ws C v)" "priority (ws L' v) = priority (ws C v)" for v by (simp_all add: e s_def)
    moreover have "(ws L' v)\<lparr>active := 0\<rparr> = (ws L v)\<lparr>active := 0\<rparr> \<and> (active (ws L' v) = 0 \<longleftrightarrow> active (ws L v) = 0)" if "v \<noteq> w" for v
      using a(4)[OF that] a(1)[OF that] oC[OF that] lQ k0 cf(1) by auto
    ultimately show ?thesis using pend_cong[of L' C] C ww by (simp add: e)
  qed
qed

subsection \<open>Properties\<close>

lemma family_zero: "family_ok KPrepare prepares preparecnt preparemax (loop_zero s)" "family_ok KCheck checks checkcnt checkmax (loop_zero s)"
  "family_ok KFork forks forkcnt forkmax (loop_zero s)" "family_ok KCleanup cleanups cleanupcnt cleanupmax (loop_zero s)"
proof -
  have "pend_inv (loop_zero s)" by simp
  moreover have "ws (loop_zero s) v = w_zero" "active w_zero = 0" for v by (simp_all add: w_zero_def)
  ultimately show "family_ok KPrepare prepares preparecnt preparemax (loop_zero s)" "family_ok KCheck checks checkcnt checkmax (loop_zero s)"
    "family_ok KFork forks forkcnt forkmax (loop_zero s)" "family_ok KCleanup cleanups cleanupcnt cleanupmax (loop_zero s)"
    unfolding family_ok_def warr_def by (simp_all only: simp_thms) (simp_all add: loop_zero_def)
qed

text \<open>
  C17: Starting and stopping a prepare, check, fork or cleanup watcher keeps its array dense,
  within its block and consistent with the watchers' indices. A start appends the watcher behind the others and changes no
  other watcher; a stop deletes the watcher from the array, moves the last one into the gap, gives that one the freed
  index and changes nothing else of it, and leaves every other watcher's whole record alone, so no other watcher is
  started or stopped; a stop
  drops exactly the pending event of its watcher; no access is out of bounds.
\<close>

theorem array_watchers_spec:
  "(family_ok KPrepare prepares preparecnt preparemax L \<and> kind w = KPrepare \<longrightarrow>
      family_ok KPrepare prepares preparecnt preparemax (ev_prepare_start w L) \<and> starts w L (ev_prepare_start w L) \<and> appended prepares preparecnt w L (ev_prepare_start w L) \<and>
      family_ok KPrepare prepares preparecnt preparemax (ev_prepare_stop w L) \<and> stops w L (ev_prepare_stop w L) \<and> removed prepares preparecnt w L (ev_prepare_stop w L)) \<and>
   (family_ok KCheck checks checkcnt checkmax L \<and> kind w = KCheck \<longrightarrow>
      family_ok KCheck checks checkcnt checkmax (ev_check_start w L) \<and> starts w L (ev_check_start w L) \<and> appended checks checkcnt w L (ev_check_start w L) \<and>
      family_ok KCheck checks checkcnt checkmax (ev_check_stop w L) \<and> stops w L (ev_check_stop w L) \<and> removed checks checkcnt w L (ev_check_stop w L)) \<and>
   (family_ok KFork forks forkcnt forkmax L \<and> kind w = KFork \<longrightarrow>
      family_ok KFork forks forkcnt forkmax (ev_fork_start w L) \<and> starts w L (ev_fork_start w L) \<and> appended forks forkcnt w L (ev_fork_start w L) \<and>
      family_ok KFork forks forkcnt forkmax (ev_fork_stop w L) \<and> stops w L (ev_fork_stop w L) \<and> removed forks forkcnt w L (ev_fork_stop w L)) \<and>
   (family_ok KCleanup cleanups cleanupcnt cleanupmax L \<and> kind w = KCleanup \<longrightarrow>
      family_ok KCleanup cleanups cleanupcnt cleanupmax (ev_cleanup_start w L) \<and> starts w L (ev_cleanup_start w L) \<and> appended cleanups cleanupcnt w L (ev_cleanup_start w L) \<and>
      family_ok KCleanup cleanups cleanupcnt cleanupmax (ev_cleanup_stop w L) \<and> stops w L (ev_cleanup_stop w L) \<and> removed cleanups cleanupcnt w L (ev_cleanup_stop w L))"
  using prepare.spec[of L w] check.spec[of L w] fork.spec[of L w] cleanup.spec[of L w] by blast

definition ex_prepares :: "unit ev_loop" where
  "ex_prepares = fold ev_prepare_start [PrepareW 1, PrepareW 2, PrepareW 3] (loop_zero ())"

lemma ex_prepares_ok: "family_ok KPrepare prepares preparecnt preparemax ex_prepares"
proof -
  have s: "family_ok KPrepare prepares preparecnt preparemax (ev_prepare_start (PrepareW n) L)"
    if "family_ok KPrepare prepares preparecnt preparemax L" for n and L :: "unit ev_loop"
    using prepare.spec[OF that, of "PrepareW n"] by simp
  show ?thesis unfolding ex_prepares_def fold_simps by (rule s s[OF s] family_zero)+
qed

theorem array_watchers_spec_witness:
  "starts (PrepareW 4) ex_prepares (ev_prepare_start (PrepareW 4) ex_prepares) \<and>
    stops (PrepareW 1) ex_prepares (ev_prepare_stop (PrepareW 1) ex_prepares) \<and>
    removed prepares preparecnt (PrepareW 1) ex_prepares (ev_prepare_stop (PrepareW 1) ex_prepares)"
  using array_watchers_spec[of ex_prepares "PrepareW 4"] array_watchers_spec[of ex_prepares "PrepareW 1"] ex_prepares_ok by simp

text \<open>
  C18: Idle watchers live in one array per priority. Start and stop keep every one of these
  arrays dense and indexed, put the watcher into the array of its clamped priority, and
  keep \<^verbatim>\<open>idleall\<close> equal to the total number of idle watchers.
\<close>

theorem idle_watchers_spec:
  assumes "idle_inv L" "pend_inv L" "kind w = KIdle"
  shows "idle_inv (ev_idle_start w L) \<and> pend_inv (ev_idle_start w L) \<and> starts w L (ev_idle_start w L) \<and>
    idle_inv (ev_idle_stop w L) \<and> pend_inv (ev_idle_stop w L) \<and> stops w L (ev_idle_stop w L)"
proof -
  have "idle_inv (ev_idle_start w L) \<and> pend_inv (ev_idle_start w L) \<and> starts w L (ev_idle_start w L)"
  proof (cases "active (ws L w) = 0")
    case True
    then show ?thesis using idle_start_inv[OF assms True] by (simp add: starts_def)
  qed (use assms in \<open>simp add: ev_idle_start_def starts_def\<close>)
  then show ?thesis using idle_stop_inv[OF assms] by (simp add: stops_def)
qed

lemma idle_inv_zero [simp]: "idle_inv (loop_zero s)"
  by (simp add: idle_inv_def warr_def w_zero_def) (simp add: loop_zero_def)

theorem idle_watchers_spec_witness:
  "idle_inv (ev_idle_start (IdleW 1) (loop_zero ())) \<and> starts (IdleW 1) (loop_zero ()) (ev_idle_start (IdleW 1) (loop_zero ()))"
  using idle_watchers_spec[of "loop_zero ()" "IdleW 1"] by simp

text \<open>The priority \<^verbatim>\<open>idle_reify\<close> serves: the highest with idle watchers, if nothing is pending there or above.\<close>

definition idle_hot :: "nat \<Rightarrow> 'w ev_loop \<Rightarrow> nat \<Rightarrow> bool" where
  "idle_hot n L p \<longleftrightarrow> p < n \<and> idlecnt L p \<noteq> 0 \<and> (\<forall>q. p < q \<and> q < n \<longrightarrow> idlecnt L q = 0) \<and>
     (\<forall>q. p \<le> q \<and> q < n \<longrightarrow> pendingcnt L q = 0)"

lemma idle_hot_unique: "idle_hot n L p \<Longrightarrow> idle_hot n L q \<Longrightarrow> p = q"
  unfolding idle_hot_def by (metis linorder_neqE_nat)

lemma idle_hot_Suc:
  "idle_hot (Suc n) L p \<longleftrightarrow> pendingcnt L n = 0 \<and> (if idlecnt L n \<noteq> 0 then p = n else idle_hot n L p)"
  by (auto simp: idle_hot_def less_Suc_eq)

lemma idle_reify_from_cases:
  "(\<exists>p. idle_hot n L p \<and> idle_reify_from n L = queue_events (idles L p) (idlecnt L p) EV_IDLE L) \<or>
   (\<forall>p. \<not> idle_hot n L p) \<and> idle_reify_from n L = L"
  by (induction n) (auto simp: idle_hot_Suc, simp add: idle_hot_def)

text \<open>
  C19: \<^verbatim>\<open>idle_reify\<close> makes exactly those idle watchers pending whose priority is the highest that
  has idle watchers, and only when nothing of that or a higher priority is pending.
\<close>

theorem idle_reify_spec:
  assumes I: "idle_inv L" and P: "pend_inv L"
  defines "L' \<equiv> idle_reify L"
  shows "pend_inv L' \<and> ok L' = ok L \<and>
    (\<forall>v. pend_of L' v = (if kind v = KIdle \<and> active (ws L v) \<noteq> 0 \<and> idle_hot NUMPRI L (ABSPRI (ws L v))
       then Some EV_IDLE else pend_of L v))"
proof -
  let ?Q = "\<lambda>p v. kind v = KIdle \<and> active (ws L v) \<noteq> 0 \<and> ABSPRI (ws L v) = p"
  have r: "L' = idle_reify_from NUMPRI L"
  proof (cases "idleall L = 0")
    case True
    then have "idlecnt L p = 0" if "p < NUMPRI" for p using I that by (simp add: idle_inv_def sum_nonneg_eq_0_iff)
    then have "\<not> idle_hot NUMPRI L p" for p by (auto simp: idle_hot_def)
    then show ?thesis using True idle_reify_from_cases[of NUMPRI L] by (auto simp: L'_def idle_reify_def)
  qed (simp add: L'_def idle_reify_def)
  show ?thesis
  proof (cases "\<exists>p. idle_hot NUMPRI L p")
    case False
    then show ?thesis using r P idle_reify_from_cases[of NUMPRI L] by simp
  next
    case True
    then obtain p where p: "idle_hot NUMPRI L p" and e: "L' = queue_events (idles L p) (idlecnt L p) EV_IDLE L"
      using r idle_reify_from_cases[of NUMPRI L] by auto
    define vs where "vs = map (idles L p) [0..<idlecnt L p]"
    have e': "L' = feed_list vs EV_IDLE L" by (simp add: e queue_events_list vs_def)
    have p5: "p < NUMPRI" "pendingcnt L p = 0" using p by (auto simp: idle_hot_def)
    have W: "warr (?Q p) (idles L p) (idlecnt L p) (idlemax L p) (ws L)" using I p5(1) by (simp add: idle_inv_def)
    have vs: "v \<in> set vs \<longleftrightarrow> ?Q p v" for v
    proof
      show "v \<in> set vs \<Longrightarrow> ?Q p v" using warrD(2)[OF W] by (auto simp: vs_def)
      assume v: "?Q p v"
      then have "active (ws L v) - 1 < idlecnt L p" "idles L p (active (ws L v) - 1) = v" using warrD(4,5)[OF W v] by auto
      then show "v \<in> set vs" unfolding vs_def by (metis atLeastLessThan_iff image_eqI list.set_map set_upt zero_le)
    qed
    have pv: "\<forall>v \<in> set vs. pri_valid (ws L v) \<and> v \<noteq> PendingW" using vs I by (auto simp: idle_inv_def)
    have np: "pend_of L v = None" if "v \<in> set vs" for v
    proof -
      have "pending (ws L v) = 0"
      proof (rule ccontr)
        assume a: "pending (ws L v) \<noteq> 0"
        show False using pend_pending[OF P a] vs that p5(2) a by auto
      qed
      then show ?thesis by (simp add: pend_of_def)
    qed
    have "kind v = KIdle \<and> active (ws L v) \<noteq> 0 \<and> idle_hot NUMPRI L (ABSPRI (ws L v)) \<longleftrightarrow> v \<in> set vs" for v
    proof
      show "v \<in> set vs" if "kind v = KIdle \<and> active (ws L v) \<noteq> 0 \<and> idle_hot NUMPRI L (ABSPRI (ws L v))"
        using that idle_hot_unique[OF p, of "ABSPRI (ws L v)"] vs[of v] by simp
      show "kind v = KIdle \<and> active (ws L v) \<noteq> 0 \<and> idle_hot NUMPRI L (ABSPRI (ws L v))" if "v \<in> set vs"
        using that p vs[of v] by simp
    qed
    note A = this
    have "pend_of (feed_list vs EV_IDLE L) v = (if v \<in> set vs then Some EV_IDLE else pend_of L v)" for v
      using feed_list_pend_of[OF P pv, of EV_IDLE v] np[of v] by simp
    then show ?thesis unfolding e' A using feed_list_inv[OF P pv] feed_list_ok[OF P pv] by blast
  qed
qed

theorem idle_reify_spec_witness:
  "pend_of (idle_reify (ev_idle_start (IdleW 1) (loop_zero ()))) (IdleW 1) = Some EV_IDLE"
proof -
  let ?L = "ev_idle_start (IdleW 1) (loop_zero ())"
  have a: "active (ws (loop_zero ()) (IdleW 1)) = 0" by (simp add: w_zero_def)
  have s: "idle_inv ?L" "pend_inv ?L" "active (ws ?L (IdleW 1)) \<noteq> 0" using idle_start_inv[OF _ _ _ a] by simp_all
  have "idle_hot NUMPRI ?L (ABSPRI (ws ?L (IdleW 1)))"
    unfolding ev_idle_start_eq[OF a] by (simp add: idle_hot_def ABSPRI_def w_zero_def pri_clamp_def loop_zero_def)
  then show ?thesis using idle_reify_spec[OF s(1,2)] s(3) by simp
qed

end
