(* ===== verification/Periodics.thy ===== *)
theory Periodics
  imports Array_Watchers
begin

section \<open>Absolute timers\<close>

text \<open>
  \<^verbatim>\<open>ev_floor\<close>, \<^verbatim>\<open>periodic_recalc\<close>, \<^verbatim>\<open>ev_periodic_start\<close>, \<^verbatim>\<open>ev_periodic_stop\<close>,
  \<^verbatim>\<open>ev_periodic_again\<close>, \<^verbatim>\<open>periodics_reify\<close>, \<^verbatim>\<open>periodics_reschedule\<close>, and the timerfd that detects
  wall clock jumps (\<^verbatim>\<open>timerfdcb\<close>, \<^verbatim>\<open>evtimerfd_init\<close>). The two loops whose end depends on
  double arithmetic (\<^verbatim>\<open>ev_floor\<close>'s recursion and the search of \<^verbatim>\<open>periodic_recalc\<close>) are
  \<open>option\<close>-valued and shown to return.
\<close>

subsection \<open>Operations\<close>

text \<open>\<^verbatim>\<open>ev_floor\<close> with \<^verbatim>\<open>FLT_RADIX == 2\<close> and 64-bit \<^verbatim>\<open>unsigned long\<close>.\<close>

abbreviation (input) floor_shift :: ev_tstamp where "floor_shift \<equiv> 18446744073709551616"

partial_function (option) ev_floor :: "ev_tstamp \<Rightarrow> ev_tstamp option" where
  "ev_floor v =
     (if v < 0 then
        Option.bind (ev_floor (- v)) (\<lambda>g. let f = - g in Some (fsub f (if f = v then 0 else 1)))
      else if v \<ge> floor_shift then
        if v = fsub v 1 then Some v
        else
          Option.bind (ev_floor (fmul v (fdiv 1 floor_shift))) (\<lambda>g.
            let f = fmul floor_shift g in Option.bind (ev_floor (fsub v f)) (\<lambda>h. Some (fadd f h)))
      else Some (rnd64 (of_int \<lfloor>v\<rfloor>)))"

abbreviation (input) MIN_INTERVAL :: ev_tstamp where "MIN_INTERVAL \<equiv> 1 / 8192"

partial_function (option) recalc_loop :: "ev_tstamp \<Rightarrow> ev_tstamp \<Rightarrow> ev_tstamp \<Rightarrow> ev_tstamp option" where
  "recalc_loop rt ival t =
     (if t \<le> rt then
        let nat = fadd t ival in if nat = t then Some rt else recalc_loop rt ival nat
      else Some t)"

definition recalc_at :: "ev_tstamp \<Rightarrow> ev_tstamp \<Rightarrow> ev_tstamp \<Rightarrow> ev_tstamp option" where
  "recalc_at rt ofs ival =
     (let interval = (if ival > MIN_INTERVAL then ival else MIN_INTERVAL) in
      Option.bind (ev_floor (fdiv (fsub rt ofs) interval)) (\<lambda>k. recalc_loop rt ival (fadd ofs (fmul interval k))))"

definition periodic_recalc :: "W \<Rightarrow> 'w ev_loop \<Rightarrow> 'w ev_loop option" where
  "periodic_recalc w L =
     map_option (\<lambda>t. upd_w w (\<lambda>x. x\<lparr>w_at := t\<rparr>) L) (recalc_at (ev_rt_now L) (w_offset (ws L w)) (w_interval (ws L w)))"

definition put_periodics :: "heap \<times> wstore \<Rightarrow> 'w ev_loop \<Rightarrow> 'w ev_loop" where
  "put_periodics r L = L\<lparr>periodics := fst r, ws := snd r\<rparr>"

text \<open>\<^verbatim>\<open>ev_at (w) = w->reschedule_cb (w, ev_rt_now)\<close>.\<close>

definition reschedule :: "'w env \<Rightarrow> nat \<Rightarrow> W \<Rightarrow> 'w ev_loop \<Rightarrow> 'w ev_loop" where
  "reschedule env cb w L = (let (t, s) = env_resched env cb w (ev_rt_now L) (os L) in upd_w w (\<lambda>x. x\<lparr>w_at := t\<rparr>) (L\<lparr>os := s\<rparr>))"

definition ev_periodic_stop :: "W \<Rightarrow> 'w ev_loop \<Rightarrow> 'w ev_loop" where
  "ev_periodic_stop w L =
     (let L = clear_pending w L in
      if active (ws L w) = 0 then L
      else
        let a = active (ws L w);
            L = chk (a < periodicmax L \<and> he_w (periodics L a) = w \<and> periodiccnt L \<noteq> 0) L;
            L = L\<lparr>periodiccnt := periodiccnt L - 1\<rparr>;
            L = put_periodics (heap_drop (periodics L) (ws L) (periodiccnt L) a) L
        in ev_stop w L)"

definition periodic_cache :: "nat \<Rightarrow> 'w ev_loop \<Rightarrow> 'w ev_loop" where
  "periodic_cache k L = L\<lparr>periodics := (periodics L)(k := (periodics L k)\<lparr>he_at := w_at (ws L (he_w (periodics L k)))\<rparr>)\<rparr>"

fun periodics_recalc_all :: "'w env \<Rightarrow> nat \<Rightarrow> 'w ev_loop \<Rightarrow> 'w ev_loop option" where
  "periodics_recalc_all env 0 L = Some L"
| "periodics_recalc_all env (Suc n) L =
     Option.bind (periodics_recalc_all env n L) (\<lambda>L.
       let k = n + HEAP0; L = chk (k < periodicmax L) L; w = he_w (periodics L k) in
       map_option (periodic_cache k)
         (case w_reschedule (ws L w) of
            Some cb \<Rightarrow> Some (reschedule env cb w L)
          | None \<Rightarrow> if w_interval (ws L w) \<noteq> 0 then periodic_recalc w L else Some L))"

definition periodics_reschedule :: "'w env \<Rightarrow> 'w ev_loop \<Rightarrow> 'w ev_loop option" where
  "periodics_reschedule env L =
     map_option (\<lambda>L. put_periodics (reheap (periodics L) (ws L) (periodiccnt L)) L) (periodics_recalc_all env (periodiccnt L) L)"

abbreviation (input) MAX_BLOCKTIME2_int :: int where "MAX_BLOCKTIME2_int \<equiv> 1500001"

text \<open>\<^verbatim>\<open>its.it_value.tv_sec = ev_rt_now + (int) MAX_BLOCKTIME2\<close> truncates to seconds.\<close>

definition timerfdcb :: "'w env \<Rightarrow> 'w ev_loop \<Rightarrow> 'w ev_loop option" where
  "timerfdcb env L =
     (let L = L\<lparr>os := env_timerfd_settime env (timerfd L) (of_int \<lfloor>fadd (ev_rt_now L) (of_int MAX_BLOCKTIME2_int)\<rfloor>) (os L)\<rparr>;
          (t, L) = ev_time env L;
          L = L\<lparr>ev_rt_now := t\<rparr>;
          (c, L) = get_clock env L;
          moved = fsub (rtmn_diff L) (fsub (ev_rt_now L) c)
      in if time_jumped moved then periodics_reschedule env L else Some L)"

definition evtimerfd_init :: "'w env \<Rightarrow> 'w ev_loop \<Rightarrow> 'w ev_loop option" where
  "evtimerfd_init env L =
     (if active (ws L TimerfdW) = 0 then
        let (fd, s) = env_timerfd_create env (os L);
            L = L\<lparr>os := s, timerfd := fd\<rparr>
        in if fd \<ge> 0 then
             let L = L\<lparr>os := env_fd_intern env fd (os L)\<rparr>;
                 L = ev_io_init TimerfdW Timerfdcb fd EV_READ L;
                 L = ev_set_priority TimerfdW EV_MINPRI L;
                 L = ev_io_start TimerfdW L;
                 L = ev_unref L
             in timerfdcb env L
           else Some L
      else Some L)"

text \<open>The part of \<^verbatim>\<open>ev_periodic_start\<close> behind the timerfd set-up: the deadline, then the heap.\<close>

definition periodic_set_at :: "'w env \<Rightarrow> W \<Rightarrow> 'w ev_loop \<Rightarrow> 'w ev_loop option" where
  "periodic_set_at env w L =
     (case w_reschedule (ws L w) of
        Some cb \<Rightarrow> Some (reschedule env cb w L)
      | None \<Rightarrow>
          if w_interval (ws L w) \<noteq> 0 then periodic_recalc w (chk (w_interval (ws L w) \<ge> 0) L)
          else Some (upd_w w (\<lambda>x. x\<lparr>w_at := w_offset x\<rparr>) L))"

definition periodic_insert :: "W \<Rightarrow> 'w ev_loop \<Rightarrow> 'w ev_loop" where
  "periodic_insert w L =
     (let L = L\<lparr>periodiccnt := periodiccnt L + 1\<rparr>;
          L = ev_start w (periodiccnt L + HEAP0 - 1) L;
          a = active (ws L w);
          L = L\<lparr>periodicmax := needsize 16 (periodicmax L) (a + 1)\<rparr>;
          L = chk (a < periodicmax L) L;
          L = L\<lparr>periodics := (periodics L)(a := \<lparr>he_at = w_at (ws L w), he_w = w\<rparr>)\<rparr>
      in put_periodics (upheap (periodics L) (ws L) a) L)"

definition ev_periodic_start :: "'w env \<Rightarrow> W \<Rightarrow> 'w ev_loop \<Rightarrow> 'w ev_loop option" where
  "ev_periodic_start env w L =
     (if active (ws L w) \<noteq> 0 then Some L
      else
        Option.bind (if timerfd L = - 2 then evtimerfd_init env L else Some L) (\<lambda>L.
          map_option (periodic_insert w) (periodic_set_at env w L)))"

definition ev_periodic_again :: "'w env \<Rightarrow> W \<Rightarrow> 'w ev_loop \<Rightarrow> 'w ev_loop option" where
  "ev_periodic_again env w L = ev_periodic_start env w (ev_periodic_stop w L)"

definition periodics_due :: "'w ev_loop \<Rightarrow> bool" where
  "periodics_due L \<longleftrightarrow> periodiccnt L \<noteq> 0 \<and> he_at (periodics L HEAP0) < ev_rt_now L"

definition periodics_reify_one :: "'w env \<Rightarrow> 'w ev_loop \<Rightarrow> 'w ev_loop option" where
  "periodics_reify_one env L =
     (let w = he_w (periodics L HEAP0);
          down = (\<lambda>L. let L = periodic_cache HEAP0 L in put_periodics (downheap (periodics L) (ws L) (periodiccnt L) HEAP0) L) in
      map_option (feed_reverse w)
        (case w_reschedule (ws L w) of
           Some cb \<Rightarrow> let L = reschedule env cb w L in Some (down (chk (w_at (ws L w) \<ge> ev_rt_now L) L))
         | None \<Rightarrow> if w_interval (ws L w) \<noteq> 0 then map_option down (periodic_recalc w L) else Some (ev_periodic_stop w L)))"

partial_function (option) periodics_reify_loop :: "'w env \<Rightarrow> 'w ev_loop \<Rightarrow> 'w ev_loop option" where
  "periodics_reify_loop env L =
     Option.bind (periodics_reify_one env L) (\<lambda>L. if periodics_due L then periodics_reify_loop env L else Some L)"

partial_function (option) periodics_reify :: "'w env \<Rightarrow> 'w ev_loop \<Rightarrow> 'w ev_loop option" where
  "periodics_reify env L =
     (if periodics_due L then
        Option.bind (periodics_reify_loop env L) (\<lambda>L. periodics_reify env (feed_reverse_done EV_PERIODIC L))
      else Some L)"

subsection \<open>\<^verbatim>\<open>ev_floor\<close>\<close>

lemma f64_multiple:
  assumes "is_f64 v" "2 ^ (53 + j) \<le> \<bar>v\<bar>"
  shows "\<exists>k :: int. v = of_int k * 2 ^ j"
proof -
  obtain m e :: int where v: "\<bar>m\<bar> \<le> 2 ^ 53" "v = of_int m * 2 powr of_int e" using assms(1) by (auto simp: is_f64_def)
  have m: "\<bar>real_of_int m\<bar> \<le> 2 ^ 53" using v(1) by (metis of_int_abs of_int_le_iff of_int_numeral of_int_power)
  have "int j \<le> e"
  proof (rule ccontr)
    assume "\<not> int j \<le> e"
    then have "2 powr real_of_int e \<le> 2 powr (real j - 1)" by (intro powr_mono) auto
    then have "\<bar>v\<bar> \<le> 2 ^ 53 * 2 powr (real j - 1)" using m by (simp add: v(2) abs_mult mult_mono)
    also have "\<dots> < 2 ^ 53 * 2 powr real j" by simp
    also have "\<dots> = 2 ^ (53 + j)" by (simp add: powr_realpow power_add)
    finally show False using assms(2) by simp
  qed
  then have "2 powr real_of_int e = of_int (2 ^ nat (e - int j)) * 2 ^ j"
    by (simp add: powr_realpow[symmetric] flip: powr_add)
  then show ?thesis using v(2) by (intro exI[of _ "m * 2 ^ nat (e - int j)"]) simp
qed

lemma abs_floor_le: "\<bar>v :: real\<bar> < 2 ^ 53 \<Longrightarrow> \<bar>\<lfloor>v\<rfloor>\<bar> \<le> 2 ^ 53"
proof -
  assume "\<bar>v\<bar> < (2 :: real) ^ 53"
  then have "- (2 ^ 53) \<le> v" "v < 2 ^ 53" by (simp_all add: abs_less_iff)
  then have lo: "- (2 ^ 53) \<le> \<lfloor>v\<rfloor>" and hi: "\<lfloor>v\<rfloor> < 2 ^ 53" unfolding le_floor_iff floor_less_iff by simp_all
  show "\<bar>\<lfloor>v\<rfloor>\<bar> \<le> 2 ^ 53" unfolding abs_le_iff using lo hi by linarith
qed

lemma f64_floor: "is_f64 v \<Longrightarrow> rnd64 (of_int \<lfloor>v\<rfloor>) = of_int \<lfloor>v\<rfloor>"
proof (cases "2 ^ 53 \<le> \<bar>v\<bar>")
  case True
  assume f: "is_f64 v"
  then obtain k :: int where "v = of_int k" using f64_multiple[of v 0] True by auto
  then show ?thesis using rnd64_id[OF f] by simp
next
  case False
  then have "\<bar>\<lfloor>v\<rfloor>\<bar> \<le> 2 ^ 53" by (intro abs_floor_le) simp
  then show ?thesis by (intro rnd64_id is_f64_of_int)
qed

lemma fsub_1_huge:
  assumes "is_f64 v" "2 ^ 64 \<le> v"
  shows "fsub v 1 = v"
proof -
  have r: "\<bar>rnd64 (v - 1) - (v - 1)\<bar> \<le> 1" using rnd64_nearest[OF assms(1), of "v - 1"] by simp
  then have lo: "2 ^ (53 + 2) \<le> \<bar>rnd64 (v - 1)\<bar>" "2 ^ (53 + 2) \<le> \<bar>v\<bar>" using assms(2) by (auto simp: abs_if split: if_splits)
  obtain a b :: int where "rnd64 (v - 1) = of_int a * 2 ^ 2" "v = of_int b * 2 ^ 2"
    using f64_multiple[OF is_f64_rnd64 lo(1)] f64_multiple[OF assms(1) lo(2)] by auto
  note ab = this
  have "\<bar>real_of_int (a - b)\<bar> < 1" using r unfolding ab(1) unfolding ab(2) by (simp add: abs_le_iff abs_less_iff)
  then have "a = b" by linarith
  then show ?thesis using ab by (simp add: fsub_def)
qed

lemma ev_floor_nonneg:
  assumes "is_f64 v" "0 \<le> v"
  shows "ev_floor v = Some (of_int \<lfloor>v\<rfloor>)"
proof (cases "floor_shift \<le> v")
  case True
  then obtain k :: int where k: "v = of_int k" using f64_multiple[OF assms(1), of 0] by auto
  have "fsub v 1 = v" using fsub_1_huge[OF assms(1)] True by simp
  then show ?thesis using True k by (subst ev_floor.simps) simp
next
  case False
  moreover have "\<not> v < 0" using assms(2) by simp
  ultimately show ?thesis by (subst ev_floor.simps) (simp only: if_False f64_floor[OF assms(1)])
qed

lemma is_f64_uminus: "is_f64 v \<Longrightarrow> is_f64 (- v)"
proof -
  assume "is_f64 v"
  then obtain m e :: int where "\<bar>m\<bar> \<le> 2 ^ 53" "- 1074 \<le> e" "v = of_int m * 2 powr of_int e" by (auto simp: is_f64_def)
  then show ?thesis unfolding is_f64_def by (intro exI[of _ "- m"] exI[of _ e]) simp
qed

lemma ev_floor_floor:
  assumes "is_f64 v"
  shows "ev_floor v = Some (of_int \<lfloor>v\<rfloor>)"
proof (cases "v < 0")
  case False
  then show ?thesis using ev_floor_nonneg[OF assms] by simp
next
  case True
  have u: "ev_floor (- v) = Some (of_int \<lfloor>- v\<rfloor>)" using True by (intro ev_floor_nonneg is_f64_uminus[OF assms]) simp
  have e: "ev_floor v = Some (let f = - real_of_int \<lfloor>- v\<rfloor> in fsub f (if f = v then 0 else 1))"
    using True by (subst ev_floor.simps) (simp add: u Let_def)
  show ?thesis
  proof (cases "- real_of_int \<lfloor>- v\<rfloor> = v")
    case True
    then have "v = of_int (- \<lfloor>- v\<rfloor>)" by simp
    then have "of_int \<lfloor>v\<rfloor> = v" by (metis floor_of_int)
    moreover have "ev_floor v = Some v" unfolding e using True rnd64_id[OF assms] by (simp add: Let_def fsub_def)
    ultimately show ?thesis by (simp only:)
  next
    case ne: False
    have "\<not> 2 ^ 53 \<le> \<bar>v\<bar>" using f64_multiple[OF assms, of 0] ne by auto
    then have b: "\<bar>v\<bar> < 2 ^ 53" by simp
    have fl: "\<lfloor>v\<rfloor> = - \<lfloor>- v\<rfloor> - 1" using ne by linarith
    have "\<bar>\<lfloor>v\<rfloor>\<bar> \<le> 2 ^ 53" by (rule abs_floor_le[OF b])
    then have "rnd64 (of_int \<lfloor>v\<rfloor>) = of_int \<lfloor>v\<rfloor>" by (intro rnd64_id is_f64_of_int)
    then show ?thesis unfolding e using ne fl by (simp add: Let_def fsub_def)
  qed
qed

subsection \<open>The search of \<^verbatim>\<open>periodic_recalc\<close>\<close>

lemma recalc_loop_returns:
  assumes "is_f64 t" "0 < ival"
  shows "\<exists>r. recalc_loop rt ival t = Some r \<and> rt \<le> r \<and> (t \<le> rt \<longrightarrow> r \<le> max rt (fadd rt ival)) \<and> (\<not> t \<le> rt \<longrightarrow> r = t)"
  using assms(1)
proof (induction "nat \<lceil>(rt - t) * 2 powr 1074\<rceil>" arbitrary: t rule: less_induct)
  case less
  show ?case
  proof (cases "t \<le> rt")
    case False
    then show ?thesis by (subst recalc_loop.simps) simp
  next
    case True
    define n where "n = fadd t ival"
    have fn: "is_f64 n" by (simp add: n_def fadd_def is_f64_rnd64)
    have le: "t \<le> n" unfolding n_def fadd_def using assms(2) less.prems by (intro f64.rep_le_rnd) auto
    show ?thesis
    proof (cases "n = t")
      case True
      then show ?thesis using \<open>t \<le> rt\<close> by (subst recalc_loop.simps) (simp add: n_def Let_def)
    next
      case ne: False
      have e: "recalc_loop rt ival t = recalc_loop rt ival n" using True ne by (subst recalc_loop.simps) (simp add: n_def Let_def)
      have nb: "n \<le> fadd rt ival" unfolding n_def fadd_def by (rule f64.mono) (use True in simp)
      show ?thesis
      proof (cases "n \<le> rt")
        case False
        then have "recalc_loop rt ival n = Some n" by (subst recalc_loop.simps) simp
        then show ?thesis using e nb False True by simp
      next
        case nr: True
        have "t + 2 powr (- 1074) \<le> n" using f64.step_ulp[OF less.prems fn] le ne by simp
        then have "(rt - n) * 2 powr 1074 \<le> (rt - t - 2 powr (- 1074)) * 2 powr 1074" by (intro mult_right_mono) auto
        also have "\<dots> = (rt - t) * 2 powr 1074 - 1" by (simp add: left_diff_distrib powr_add[symmetric] powr_minus)
        finally have "\<lceil>(rt - n) * 2 powr 1074\<rceil> < \<lceil>(rt - t) * 2 powr 1074\<rceil>" by linarith
        moreover have "0 \<le> \<lceil>(rt - n) * 2 powr 1074\<rceil>" using nr by (simp add: zero_le_ceiling order_less_le_trans)
        ultimately have "nat \<lceil>(rt - n) * 2 powr 1074\<rceil> < nat \<lceil>(rt - t) * 2 powr 1074\<rceil>" by linarith
        from less.hyps[OF this fn] show ?thesis using e nr True by auto
      qed
    qed
  qed
qed

lemma recalc_at_returns:
  assumes "0 < ival"
  shows "\<exists>t. recalc_at rt ofs ival = Some t \<and> rt \<le> t"
proof -
  define iv where "iv = (if ival > MIN_INTERVAL then ival else MIN_INTERVAL)"
  define q where "q = fdiv (fsub rt ofs) iv"
  have fl: "ev_floor q = Some (of_int \<lfloor>q\<rfloor>)" by (rule ev_floor_floor) (simp add: q_def fdiv_def is_f64_rnd64)
  have "is_f64 (fadd ofs (fmul iv (of_int \<lfloor>q\<rfloor>)))" by (simp add: fadd_def is_f64_rnd64)
  from recalc_loop_returns[OF this assms, of rt] show ?thesis
    unfolding recalc_at_def Let_def iv_def[symmetric] q_def[symmetric] fl by (cases "fadd ofs (fmul iv (of_int \<lfloor>q\<rfloor>)) \<le> rt") auto
qed

subsection \<open>Properties\<close>

text \<open>
  C20: \<^verbatim>\<open>ev_floor\<close> returns the floor of every representable double, negative, fractional or beyond the
  range of \<^verbatim>\<open>unsigned long\<close>: its recursion ends and no rounding of an intermediate result is lost.
\<close>

theorem ev_floor_correct: "is_f64 v \<Longrightarrow> ev_floor v = Some (of_int \<lfloor>v\<rfloor>)"
  by (rule ev_floor_floor)

theorem ev_floor_correct_witness: "ev_floor (- 3) = Some (- 3) \<and> ev_floor (2 ^ 70) = Some (2 ^ 70)"
proof
  have "is_f64 (of_int (- 3))" by (rule is_f64_of_int) simp
  from ev_floor_correct[OF this] show "ev_floor (- 3) = Some (- 3)" by simp
  have "is_f64 (2 ^ 70)" unfolding is_f64_def by (intro exI[of _ 1] exI[of _ 70]) simp
  from ev_floor_correct[OF this] have "ev_floor (2 ^ 70) = Some (of_int \<lfloor>real_of_int (2 ^ 70)\<rfloor>)" by simp
  then show "ev_floor (2 ^ 70) = Some (2 ^ 70)" by (simp only: floor_of_int) simp
qed

text \<open>
  C21: The search of \<^verbatim>\<open>periodic_recalc\<close> ends for every positive interval, even one too small to advance
  the deadline in double arithmetic, and the new deadline is never before the current time; nothing but the deadline of
  that watcher is written.
\<close>

theorem periodic_recalc_spec:
  assumes "0 < w_interval (ws L w)"
  shows "\<exists>t. periodic_recalc w L = Some (upd_w w (\<lambda>x. x\<lparr>w_at := t\<rparr>) L) \<and> ev_rt_now L \<le> t"
  using recalc_at_returns[OF assms, of "ev_rt_now L" "w_offset (ws L w)"] by (auto simp: periodic_recalc_def)

theorem periodic_recalc_spec_witness:
  "\<exists>t. periodic_recalc (PeriodicW 1) ((loop_zero ())\<lparr>ws := \<lambda>v. w_zero\<lparr>w_interval := 60\<rparr>, ev_rt_now := 1000\<rparr>) =
     Some (upd_w (PeriodicW 1) (\<lambda>x. x\<lparr>w_at := t\<rparr>) ((loop_zero ())\<lparr>ws := \<lambda>v. w_zero\<lparr>w_interval := 60\<rparr>, ev_rt_now := 1000\<rparr>)) \<and> 1000 \<le> t"
  using periodic_recalc_spec[of "(loop_zero ())\<lparr>ws := \<lambda>v. w_zero\<lparr>w_interval := 60\<rparr>, ev_rt_now := 1000\<rparr>" "PeriodicW 1"] by simp

end
