(* ===== verification/Signals.thy ===== *)
theory Signals
  imports Periodics
begin

section \<open>Signals, child processes and asynchronous wake-ups\<close>

text \<open>
  The wake pipe (\<^verbatim>\<open>evpipe_init\<close>, \<^verbatim>\<open>evpipe_pending\<close>, \<^verbatim>\<open>evpipe_write\<close>, \<^verbatim>\<open>pipecb\<close>), the signal path
  (\<^verbatim>\<open>ev_feed_signal\<close>, \<^verbatim>\<open>ev_sighandler\<close>, \<^verbatim>\<open>ev_feed_signal_event\<close>, \<^verbatim>\<open>sigfdcb\<close>, \<^verbatim>\<open>ev_signal_start\<close>,
  \<^verbatim>\<open>ev_signal_stop\<close>), child watchers (\<^verbatim>\<open>child_reap\<close>, \<^verbatim>\<open>childcb\<close>, \<^verbatim>\<open>ev_child_start\<close>, \<^verbatim>\<open>ev_child_stop\<close>)
  and \<^verbatim>\<open>ev_async\<close> watchers. The definitions of this theory run each routine to its end;
  the theory \<open>Wakeup\<close> interleaves the senders with the loop.
\<close>

subsection \<open>The wake pipe\<close>

text \<open>\<^verbatim>\<open>while (pipe (fds)) ev_syserr (\<dots>)\<close>: ends when a pipe could be made, or by abort.\<close>

partial_function (option) pipe_retry :: "'w env \<Rightarrow> 'w ev_loop \<Rightarrow> ((int \<times> int) \<times> 'w ev_loop) option" where
  "pipe_retry env L =
     (let (r, s) = env_pipe env (os L); L = L\<lparr>os := s\<rparr> in
      case r of
        Some fds \<Rightarrow> Some (fds, L)
      | None \<Rightarrow> Option.bind (ev_syserr env L) (\<lambda>L. pipe_retry env L))"

abbreviation (input) EINVAL :: int where "EINVAL \<equiv> 22"

definition evpipe_fds :: "'w env \<Rightarrow> 'w ev_loop \<Rightarrow> ((int \<times> int) \<times> 'w ev_loop) option" where
  "evpipe_fds env L =
     (let ((fd, e), s) = env_eventfd env True (os L);
          ((fd, e), s) = (if fd < 0 \<and> e = EINVAL then env_eventfd env False s else ((fd, e), s));
          L = L\<lparr>os := s\<rparr>
      in if fd < 0 then map_option (\<lambda>(fds, L). (fds, L\<lparr>os := env_fd_intern env (fst fds) (os L)\<rparr>)) (pipe_retry env L)
         else Some ((- 1, fd), L))"

definition evpipe_init :: "'w env \<Rightarrow> 'w ev_loop \<Rightarrow> 'w ev_loop option" where
  "evpipe_init env L =
     (if active (ws L PipeW) = 0 then
        map_option (\<lambda>(fds, L).
          let L = L\<lparr>evpipe0 := fst fds\<rparr>;
              L = (if evpipe1 L < 0 then L\<lparr>evpipe1 := snd fds\<rparr>
                   else L\<lparr>os := env_dup2_close env (snd fds) (evpipe1 L) (os L)\<rparr>);
              L = L\<lparr>os := env_fd_intern env (evpipe1 L) (os L)\<rparr>;
              L = ev_io_set PipeW (if evpipe0 L < 0 then evpipe1 L else evpipe0 L) EV_READ L;
              L = ev_io_start PipeW L
          in ev_unref L) (evpipe_fds env L)
      else Some L)"

definition evpipe_pending :: "'w ev_loop \<Rightarrow> bool" where
  "evpipe_pending L \<longleftrightarrow> sig_pending L \<or> async_pending L"

text \<open>The flag a sender raises: \<^verbatim>\<open>&sig_pending\<close> or \<^verbatim>\<open>&async_pending\<close>.\<close>

datatype wake_flag = SigPending | AsyncPending

fun get_flag :: "wake_flag \<Rightarrow> 'w ev_loop \<Rightarrow> bool" where
  "get_flag SigPending L = sig_pending L"
| "get_flag AsyncPending L = async_pending L"

fun set_flag :: "wake_flag \<Rightarrow> 'w ev_loop \<Rightarrow> 'w ev_loop" where
  "set_flag SigPending L = L\<lparr>sig_pending := True\<rparr>"
| "set_flag AsyncPending L = L\<lparr>async_pending := True\<rparr>"

definition evpipe_write :: "'w env \<Rightarrow> wake_flag \<Rightarrow> 'w ev_loop \<Rightarrow> 'w ev_loop" where
  "evpipe_write env flag L =
     (if get_flag flag L then L
      else
        let L = set_flag flag L;
            L = L\<lparr>pipe_write_skipped := True\<rparr>
        in if pipe_write_wanted L then
             let L = L\<lparr>pipe_write_skipped := False\<rparr> in L\<lparr>os := env_write env (evpipe1 L) (os L)\<rparr>
           else L)"

subsection \<open>Signals\<close>

definition sig_idx :: "int \<Rightarrow> nat" where
  "sig_idx signum = nat (signum - 1)"

definition upd_sig :: "nat \<Rightarrow> (ANSIG \<Rightarrow> ANSIG) \<Rightarrow> 'w ev_loop \<Rightarrow> 'w ev_loop" where
  "upd_sig i g L = L\<lparr>signals := (signals L)(i := g (signals L i))\<rparr>"

definition ev_feed_signal_event :: "int \<Rightarrow> 'w ev_loop \<Rightarrow> 'w ev_loop" where
  "ev_feed_signal_event signum L =
     (if signum \<le> 0 \<or> signum \<ge> int EV_NSIG then L
      else
        let i = sig_idx signum in
        if sg_loop (signals L i) \<noteq> ThisLoop then L
        else
          let L = upd_sig i (\<lambda>g. g\<lparr>sg_pending := False\<rparr>) L
          in feed_list (sg_head (signals L i)) EV_SIGNAL L)"

text \<open>
  \<^verbatim>\<open>ev_feed_signal\<close> finds the loop through \<^verbatim>\<open>signals[signum - 1].loop\<close>. Seen from this loop the
  call either concerns nobody, this loop, or another one, whose state is not part of this record.
\<close>

definition ev_feed_signal :: "'w env \<Rightarrow> int \<Rightarrow> 'w ev_loop \<Rightarrow> 'w ev_loop" where
  "ev_feed_signal env signum L =
     (let i = sig_idx signum; L = chk (0 < signum \<and> signum < int EV_NSIG) L in
      case sg_loop (signals L i) of
        NoLoop \<Rightarrow> L
      | ThisLoop \<Rightarrow> evpipe_write env SigPending (upd_sig i (\<lambda>g. g\<lparr>sg_pending := True\<rparr>) L)
      | OtherLoop \<Rightarrow> upd_sig i (\<lambda>g. g\<lparr>sg_pending := True\<rparr>) L)"

definition ev_sighandler :: "'w env \<Rightarrow> int \<Rightarrow> 'w ev_loop \<Rightarrow> 'w ev_loop" where
  "ev_sighandler env signum L = ev_feed_signal env signum L"

text \<open>
  \<^verbatim>\<open>sigfdcb\<close> reads records two at a time until a read is short. The loop ends when the kernel has
  fewer than two signals left.
\<close>

partial_function (option) sigfdcb :: "'w env \<Rightarrow> 'w ev_loop \<Rightarrow> 'w ev_loop option" where
  "sigfdcb env L =
     (let (sis, s) = env_sigread env (os L);
          L = fold ev_feed_signal_event sis (L\<lparr>os := s\<rparr>)
      in if length sis < 2 then Some L else sigfdcb env L)"

fun sig_scan :: "nat \<Rightarrow> 'w ev_loop \<Rightarrow> 'w ev_loop" where
  "sig_scan 0 L = L"
| "sig_scan (Suc i) L = sig_scan i (if sg_pending (signals L i) then ev_feed_signal_event (int i + 1) L else L)"

fun async_scan :: "nat \<Rightarrow> 'w ev_loop \<Rightarrow> 'w ev_loop" where
  "async_scan 0 L = L"
| "async_scan (Suc i) L =
     async_scan i
       (let L = chk (i < asyncmax L) L; w = asyncs L i in
        if w_sent (ws L w) then ev_feed_event w EV_ASYNC (upd_w w (\<lambda>x. x\<lparr>w_sent := False\<rparr>) L) else L)"

definition pipecb_drain :: "'w env \<Rightarrow> u32 \<Rightarrow> 'w ev_loop \<Rightarrow> 'w ev_loop" where
  "pipecb_drain env revents L =
     (let L = (if revents AND EV_READ \<noteq> 0
               then L\<lparr>os := env_read env (if evpipe0 L < 0 then evpipe1 L else evpipe0 L) (os L)\<rparr> else L)
      in L\<lparr>pipe_write_skipped := False\<rparr>)"

definition pipecb_signals :: "'w ev_loop \<Rightarrow> 'w ev_loop" where
  "pipecb_signals L = (if sig_pending L then sig_scan (EV_NSIG - 1) (L\<lparr>sig_pending := False\<rparr>) else L)"

definition pipecb_asyncs :: "'w ev_loop \<Rightarrow> 'w ev_loop" where
  "pipecb_asyncs L = (if async_pending L then let L = L\<lparr>async_pending := False\<rparr> in async_scan (asynccnt L) L else L)"

definition pipecb :: "'w env \<Rightarrow> u32 \<Rightarrow> 'w ev_loop \<Rightarrow> 'w ev_loop" where
  "pipecb env revents L = pipecb_asyncs (pipecb_signals (pipecb_drain env revents L))"

text \<open>The \<^verbatim>\<open>signalfd\<close> part of \<^verbatim>\<open>ev_signal_start\<close>: open the descriptor once, then add the signal to its set.\<close>

definition sigfd_open :: "'w env \<Rightarrow> 'w ev_loop \<Rightarrow> 'w ev_loop" where
  "sigfd_open env L =
     (if sigfd L = - 2 then
        let ((fd, e), s) = env_signalfd env True (- 1) (sigfd_set L) (os L);
            ((fd, e), s) = (if fd < 0 \<and> e = EINVAL then env_signalfd env False (- 1) (sigfd_set L) s else ((fd, e), s));
            L = L\<lparr>sigfd := fd, os := s\<rparr>
        in if sigfd L \<ge> 0 then
             let L = L\<lparr>os := env_fd_intern env (sigfd L) (os L), sigfd_set := {}\<rparr>;
                 L = ev_io_init SigfdW Sigfdcb (sigfd L) EV_READ L;
                 L = ev_set_priority SigfdW EV_MAXPRI L;
                 L = ev_io_start SigfdW L
             in ev_unref L
           else L
      else L)"

definition sigfd_add :: "'w env \<Rightarrow> int \<Rightarrow> 'w ev_loop \<Rightarrow> 'w ev_loop" where
  "sigfd_add env signum L =
     (if sigfd L \<ge> 0 then
        let L = L\<lparr>sigfd_set := insert signum (sigfd_set L)\<rparr>;
            L = (if origflags L AND EVFLAG_NOSIGMASK = 0 then L\<lparr>os := env_sigmask env True (sigfd_set L) (os L)\<rparr> else L)
        in L\<lparr>os := snd (env_signalfd env False (sigfd L) (sigfd_set L) (os L))\<rparr>
      else L)"

definition sig_install :: "'w env \<Rightarrow> int \<Rightarrow> 'w ev_loop \<Rightarrow> 'w ev_loop option" where
  "sig_install env signum L =
     map_option (\<lambda>L.
       let L = L\<lparr>os := env_sigaction env signum True (os L)\<rparr>
       in if origflags L AND EVFLAG_NOSIGMASK = 0 then L\<lparr>os := env_sigmask env False {signum} (os L)\<rparr> else L)
     (evpipe_init env L)"

definition ev_signal_start :: "'w env \<Rightarrow> W \<Rightarrow> 'w ev_loop \<Rightarrow> 'w ev_loop option" where
  "ev_signal_start env w L =
     (if active (ws L w) \<noteq> 0 then Some L
      else
        let signum = w_signum (ws L w); i = sig_idx signum;
            L = chk (signum > 0 \<and> signum < int EV_NSIG) L;
            L = chk (sg_loop (signals L i) \<noteq> OtherLoop) L;
            L = upd_sig i (\<lambda>g. g\<lparr>sg_loop := ThisLoop\<rparr>) L;
            L = sigfd_add env signum (sigfd_open env L);
            L = ev_start w 1 L;
            first = (sg_head (signals L i) = []);
            L = upd_sig i (\<lambda>g. g\<lparr>sg_head := w # sg_head g\<rparr>) L
        in if first \<and> sigfd L < 0 then sig_install env signum L else Some L)"

definition ev_signal_stop :: "'w env \<Rightarrow> W \<Rightarrow> 'w ev_loop \<Rightarrow> 'w ev_loop" where
  "ev_signal_stop env w L =
     (let L = clear_pending w L in
      if active (ws L w) = 0 then L
      else
        let signum = w_signum (ws L w); i = sig_idx signum;
            L = chk (i < EV_NSIG - 1) L;
            L = upd_sig i (\<lambda>g. g\<lparr>sg_head := remove1 w (sg_head g)\<rparr>) L;
            L = ev_stop w L
        in if sg_head (signals L i) = [] then
             let L = upd_sig i (\<lambda>g. g\<lparr>sg_loop := NoLoop\<rparr>) L
             in if sigfd L \<ge> 0 then
                  let L = L\<lparr>sigfd_set := sigfd_set L - {signum}\<rparr>;
                      L = L\<lparr>os := snd (env_signalfd env False (sigfd L) (sigfd_set L) (os L))\<rparr>
                  in if origflags L AND EVFLAG_NOSIGMASK = 0 then L\<lparr>os := env_sigmask env False {signum} (os L)\<rparr> else L
                else L\<lparr>os := env_sigaction env signum False (os L)\<rparr>
           else L)"

subsection \<open>Child processes\<close>

definition pid_hash :: "int \<Rightarrow> nat" where
  "pid_hash pid = nat (pid mod int EV_PID_HASHSIZE)"

definition child_match :: "'w env \<Rightarrow> int \<Rightarrow> int \<Rightarrow> ev_watcher \<Rightarrow> bool" where
  "child_match env pid status x \<longleftrightarrow>
     (w_pid x = pid \<or> w_pid x = 0) \<and> (\<not> env_traced env status \<or> w_flags x AND 1 \<noteq> 0)"

definition child_reap_one :: "'w env \<Rightarrow> int \<Rightarrow> int \<Rightarrow> W \<Rightarrow> 'w ev_loop \<Rightarrow> 'w ev_loop" where
  "child_reap_one env pid status w L =
     (if child_match env pid status (ws L w) then
        let L = ev_set_priority w EV_MAXPRI L;
            L = upd_w w (\<lambda>x. x\<lparr>w_rpid := pid, w_rstatus := status\<rparr>) L
        in ev_feed_event w EV_CHILD L
      else L)"

definition child_reap :: "'w env \<Rightarrow> int \<Rightarrow> int \<Rightarrow> int \<Rightarrow> 'w ev_loop \<Rightarrow> 'w ev_loop" where
  "child_reap env chain pid status L = fold (child_reap_one env pid status) (childs L (pid_hash chain)) L"

definition childcb :: "'w env \<Rightarrow> W \<Rightarrow> 'w ev_loop \<Rightarrow> 'w ev_loop" where
  "childcb env sw L =
     (let ((pid, status, e), s) = env_waitpid env True (os L);
          ((pid, status, e), s) = (if pid \<le> 0 \<and> e = EINVAL then env_waitpid env False s else ((pid, status, e), s));
          L = L\<lparr>os := s\<rparr>
      in if pid \<le> 0 then L
         else
           let L = ev_feed_event sw EV_SIGNAL L;
               L = child_reap env pid pid status L
           in child_reap env 0 pid status L)"

definition ev_child_start :: "'w env \<Rightarrow> W \<Rightarrow> 'w ev_loop \<Rightarrow> 'w ev_loop" where
  "ev_child_start env w L =
     (let L = chk (env_default_loop env) L in
      if active (ws L w) \<noteq> 0 then L
      else
        let L = ev_start w 1 L; h = pid_hash (w_pid (ws L w))
        in L\<lparr>childs := (childs L)(h := w # childs L h)\<rparr>)"

definition ev_child_stop :: "W \<Rightarrow> 'w ev_loop \<Rightarrow> 'w ev_loop" where
  "ev_child_stop w L =
     (let L = clear_pending w L in
      if active (ws L w) = 0 then L
      else
        let h = pid_hash (w_pid (ws L w)); L = L\<lparr>childs := (childs L)(h := remove1 w (childs L h))\<rparr>
        in ev_stop w L)"

subsection \<open>Asynchronous watchers\<close>

definition ev_async_start :: "'w env \<Rightarrow> W \<Rightarrow> 'w ev_loop \<Rightarrow> 'w ev_loop option" where
  "ev_async_start env w L =
     (if active (ws L w) \<noteq> 0 then Some L
      else
        map_option (\<lambda>L.
          let L = L\<lparr>asynccnt := asynccnt L + 1\<rparr>;
              L = ev_start w (asynccnt L) L;
              L = L\<lparr>asyncmax := needsize 8 (asyncmax L) (asynccnt L)\<rparr>;
              L = chk (asynccnt L - 1 < asyncmax L) L
          in L\<lparr>asyncs := (asyncs L)(asynccnt L - 1 := w)\<rparr>)
        (evpipe_init env (upd_w w (\<lambda>x. x\<lparr>w_sent := False\<rparr>) L)))"

definition ev_async_stop :: "W \<Rightarrow> 'w ev_loop \<Rightarrow> 'w ev_loop" where
  "ev_async_stop w L =
     (let L = clear_pending w L in
      if active (ws L w) = 0 then L
      else
        let a = active (ws L w);
            L = chk (asynccnt L \<noteq> 0 \<and> a \<le> asyncmax L) L;
            L = L\<lparr>asynccnt := asynccnt L - 1\<rparr>;
            L = L\<lparr>asyncs := (asyncs L)(a - 1 := asyncs L (asynccnt L))\<rparr>;
            L = upd_w (asyncs L (a - 1)) (\<lambda>x. x\<lparr>active := a\<rparr>) L
        in ev_stop w L)"

definition ev_async_send :: "'w env \<Rightarrow> W \<Rightarrow> 'w ev_loop \<Rightarrow> 'w ev_loop" where
  "ev_async_send env w L = evpipe_write env AsyncPending (upd_w w (\<lambda>x. x\<lparr>w_sent := True\<rparr>) L)"

end
