(* ===== verification/Stat.thy ===== *)
theory Stat
  imports Signals
begin

section \<open>File status watchers\<close>

text \<open>
  \<^verbatim>\<open>ev_stat\<close> watchers: \<^verbatim>\<open>ev_stat_stat\<close>, \<^verbatim>\<open>stat_timer_cb\<close>, \<^verbatim>\<open>ev_stat_start\<close>, \<^verbatim>\<open>ev_stat_stop\<close>, and the
  inotify support that spares the polling (\<^verbatim>\<open>infy_add\<close>, \<^verbatim>\<open>infy_del\<close>, \<^verbatim>\<open>infy_wd\<close>, \<^verbatim>\<open>infy_cb\<close>,
  \<^verbatim>\<open>infy_init\<close>, \<^verbatim>\<open>infy_fork\<close>). The timer embedded in the watcher \<open>StatW n\<close> is \<open>StatTimer n\<close>.
\<close>

abbreviation (input) EV_INOTIFY_HASHSIZE :: nat where "EV_INOTIFY_HASHSIZE \<equiv> 16"
abbreviation (input) ENOENT :: int where "ENOENT \<equiv> 2"
abbreviation (input) EACCES :: int where "EACCES \<equiv> 13"
abbreviation (input) DEF_STAT_INTERVAL :: ev_tstamp where "DEF_STAT_INTERVAL \<equiv> rnd64 (50074891 / 10000000)"
abbreviation (input) NFS_STAT_INTERVAL :: ev_tstamp where "NFS_STAT_INTERVAL \<equiv> rnd64 (301074891 / 10000000)"
abbreviation (input) MIN_STAT_INTERVAL :: ev_tstamp where "MIN_STAT_INTERVAL \<equiv> rnd64 (1074891 / 10000000)"
abbreviation (input) IN_MODIFY :: u32 where "IN_MODIFY \<equiv> 0x2"
abbreviation (input) IN_ATTRIB :: u32 where "IN_ATTRIB \<equiv> 0x4"
abbreviation (input) IN_MOVED_FROM :: u32 where "IN_MOVED_FROM \<equiv> 0x40"
abbreviation (input) IN_MOVED_TO :: u32 where "IN_MOVED_TO \<equiv> 0x80"
abbreviation (input) IN_CREATE :: u32 where "IN_CREATE \<equiv> 0x100"
abbreviation (input) IN_DELETE :: u32 where "IN_DELETE \<equiv> 0x200"
abbreviation (input) IN_DELETE_SELF :: u32 where "IN_DELETE_SELF \<equiv> 0x400"
abbreviation (input) IN_MOVE_SELF :: u32 where "IN_MOVE_SELF \<equiv> 0x800"
abbreviation (input) IN_UNMOUNT :: u32 where "IN_UNMOUNT \<equiv> 0x2000"
abbreviation (input) IN_IGNORED :: u32 where "IN_IGNORED \<equiv> 0x8000"
abbreviation (input) IN_DONT_FOLLOW :: u32 where "IN_DONT_FOLLOW \<equiv> 0x02000000"
abbreviation (input) IN_MASK_ADD :: u32 where "IN_MASK_ADD \<equiv> 0x20000000"

fun stat_timer :: "W \<Rightarrow> W" where
  "stat_timer (StatW n) = StatTimer n"
| "stat_timer w = w"

fun stat_of :: "W \<Rightarrow> W" where
  "stat_of (StatTimer n) = StatW n"
| "stat_of w = w"

definition infy_slot :: "int \<Rightarrow> nat" where
  "infy_slot wd = nat (wd mod int EV_INOTIFY_HASHSIZE)"

subsection \<open>The kernel's version\<close>

text \<open>\<^verbatim>\<open>ev_linux_version\<close>: up to three decimal numbers of \<^verbatim>\<open>uname\<close>'s release, a byte each; 32-bit arithmetic.\<close>

fun version_part :: "u32 \<Rightarrow> string \<Rightarrow> u32 \<times> string" where
  "version_part c [] = (c, [])"
| "version_part c (p # ps) =
     (if 48 \<le> (of_char p :: nat) \<and> (of_char p :: nat) \<le> 57 then version_part (c * 10 + of_char p - 48) ps
      else (c, if p = CHR ''.'' then ps else p # ps))"

fun version_parts :: "nat \<Rightarrow> u32 \<Rightarrow> string \<Rightarrow> u32" where
  "version_parts 0 v p = v"
| "version_parts (Suc i) v p = (let (c, p) = version_part 0 p in version_parts i (push_bit 8 v OR c) p)"

definition ev_linux_version :: "'w env \<Rightarrow> u32" where
  "ev_linux_version env = (case env_uname env of None \<Rightarrow> 0 | Some release \<Rightarrow> version_parts 3 0 release)"

subsection \<open>inotify\<close>

definition set_repeat :: "W \<Rightarrow> ev_tstamp \<Rightarrow> 'w ev_loop \<Rightarrow> 'w ev_loop" where
  "set_repeat w r L = upd_w (stat_timer w) (\<lambda>x. x\<lparr>w_repeat := r\<rparr>) L"

definition stat_interval :: "W \<Rightarrow> ev_tstamp \<Rightarrow> 'w ev_loop \<Rightarrow> ev_tstamp" where
  "stat_interval w dflt L = (if w_interval (ws L w) \<noteq> 0 then w_interval (ws L w) else dflt)"

definition fs_is_local :: "int option \<Rightarrow> bool" where
  "fs_is_local t \<longleftrightarrow> t \<in> Some ` {0x1373, 0x4006, 0x4d44, 0xEF53, 0x72b6, 0x858458f6, 0x5346544e, 0x3153464a, 0x9123683e, 0x52654973, 0x01021994, 0x58465342}"

text \<open>The part of a path before its last slash.\<close>

definition strrchr_cut :: "string \<Rightarrow> string option" where
  "strrchr_cut path = (let r = dropWhile (\<lambda>c. c \<noteq> CHR ''/'') (rev path) in if r = [] then None else Some (rev (tl r)))"

lemma strrchr_cut_length: "strrchr_cut path = Some q \<Longrightarrow> length q < length path"
  using length_dropWhile_le[of "\<lambda>c. c \<noteq> CHR ''/''" "rev path"]
  by (cases "dropWhile (\<lambda>c. c \<noteq> CHR ''/'') (rev path)") (auto simp: strrchr_cut_def Let_def)

definition infy_watch :: "'w env \<Rightarrow> W \<Rightarrow> string \<Rightarrow> u32 \<Rightarrow> 'w ev_loop \<Rightarrow> int \<times> 'w ev_loop" where
  "infy_watch env w path imask L =
     (let ((wd, e), s) = env_inotify_add env (fs_fd L) path imask (os L)
      in (e, upd_w w (\<lambda>x. x\<lparr>w_wd := wd\<rparr>) (L\<lparr>os := s\<rparr>)))"

text \<open>The search for a parent directory that exists; \<open>e\<close> is \<^verbatim>\<open>errno\<close>.\<close>

function infy_parent :: "'w env \<Rightarrow> W \<Rightarrow> string \<Rightarrow> int \<Rightarrow> 'w ev_loop \<Rightarrow> 'w ev_loop" where
  "infy_parent env w path e L =
     (let imask = IN_MASK_ADD OR IN_DELETE_SELF OR IN_MOVE_SELF OR (if e = EACCES then IN_ATTRIB else IN_CREATE OR IN_MOVED_TO) in
      case strrchr_cut path of
        None \<Rightarrow> L
      | Some q \<Rightarrow>
          if q = [] then L
          else
            let (e, L) = infy_watch env w q imask L
            in if w_wd (ws L w) < 0 \<and> (e = ENOENT \<or> e = EACCES) then infy_parent env w q e L else L)"
  by pat_completeness auto
termination by (relation "measure (\<lambda>(env, w, path, e, L). length path)") (auto dest: strrchr_cut_length)

text \<open>Re-arming the embedded timer, which never keeps the loop alive.\<close>

definition stat_rearm :: "W \<Rightarrow> 'w ev_loop \<Rightarrow> 'w ev_loop" where
  "stat_rearm w L =
     (let t = stat_timer w;
          L = (if active (ws L t) \<noteq> 0 then ev_ref L else L);
          L = ev_timer_again t L
      in if active (ws L t) \<noteq> 0 then ev_unref L else L)"

definition infy_add :: "'w env \<Rightarrow> W \<Rightarrow> 'w ev_loop \<Rightarrow> 'w ev_loop" where
  "infy_add env w L =
     (let (e, L) = infy_watch env w (w_path (ws L w))
            (IN_ATTRIB OR IN_DELETE_SELF OR IN_MOVE_SELF OR IN_MODIFY OR IN_CREATE OR IN_DELETE OR IN_MOVED_FROM OR IN_MOVED_TO
               OR IN_DONT_FOLLOW OR IN_MASK_ADD) L;
          L = (if w_wd (ws L w) \<ge> 0 then
                 if \<not> fs_2625 L then set_repeat w (stat_interval w DEF_STAT_INTERVAL L) L
                 else if fs_is_local (env_statfs env (w_path (ws L w)) (os L)) then set_repeat w 0 L
                 else set_repeat w (stat_interval w NFS_STAT_INTERVAL L) L
               else
                 let L = set_repeat w (stat_interval w DEF_STAT_INTERVAL L) L
                 in if (e = ENOENT \<or> e = EACCES) \<and> length (w_path (ws L w)) < 4096
                    then infy_parent env w (w_path (ws L w)) e L else L);
          L = (if w_wd (ws L w) \<ge> 0
               then let h = infy_slot (w_wd (ws L w)) in L\<lparr>fs_hash := (fs_hash L)(h := w # fs_hash L h)\<rparr> else L)
      in stat_rearm w L)"

definition infy_del :: "'w env \<Rightarrow> W \<Rightarrow> 'w ev_loop \<Rightarrow> 'w ev_loop" where
  "infy_del env w L =
     (let wd = w_wd (ws L w) in
      if wd < 0 then L
      else
        let L = upd_w w (\<lambda>x. x\<lparr>w_wd := - 2\<rparr>) L; h = infy_slot wd;
            L = L\<lparr>fs_hash := (fs_hash L)(h := remove1 w (fs_hash L h))\<rparr>
        in L\<lparr>os := env_inotify_rm env (fs_fd L) wd (os L)\<rparr>)"

subsection \<open>Polling\<close>

definition ev_stat_stat :: "'w env \<Rightarrow> W \<Rightarrow> 'w ev_loop \<Rightarrow> 'w ev_loop" where
  "ev_stat_stat env w L =
     (let (r, s) = env_lstat env (w_path (ws L w)) (os L); L = L\<lparr>os := s\<rparr> in
      case r of
        None \<Rightarrow> upd_w w (\<lambda>x. x\<lparr>w_attr := (w_attr x)\<lparr>st_nlink := 0\<rparr>\<rparr>) L
      | Some d \<Rightarrow> upd_w w (\<lambda>x. x\<lparr>w_attr := if st_nlink d = 0 then d\<lparr>st_nlink := 1\<rparr> else d\<rparr>) L)"

definition stat_differs :: "ev_statdata \<Rightarrow> ev_statdata \<Rightarrow> bool" where
  "stat_differs a b \<longleftrightarrow>
     st_dev a \<noteq> st_dev b \<or> st_ino a \<noteq> st_ino b \<or> st_mode a \<noteq> st_mode b \<or> st_nlink a \<noteq> st_nlink b \<or> st_uid a \<noteq> st_uid b \<or>
     st_gid a \<noteq> st_gid b \<or> st_rdev a \<noteq> st_rdev b \<or> st_size a \<noteq> st_size b \<or> st_atime a \<noteq> st_atime b \<or>
     st_mtime a \<noteq> st_mtime b \<or> st_ctime a \<noteq> st_ctime b"

definition stat_timer_cb :: "'w env \<Rightarrow> W \<Rightarrow> 'w ev_loop \<Rightarrow> 'w ev_loop" where
  "stat_timer_cb env t L =
     (let w = stat_of t; prev = w_attr (ws L w); L = ev_stat_stat env w L in
      if stat_differs prev (w_attr (ws L w)) then
        let L = upd_w w (\<lambda>x. x\<lparr>w_prev := prev\<rparr>) L;
            L = (if fs_fd L \<ge> 0 then ev_stat_stat env w (infy_add env w (infy_del env w L)) else L)
        in ev_feed_event w EV_STAT L
      else L)"

text \<open>
  \<^verbatim>\<open>infy_wd\<close> walks one slot with the successor read before a watcher is handled. Handling a watcher
  unlinks and links that watcher only, so the walk visits the watchers the slot held at the start.
\<close>

definition infy_wd_one :: "'w env \<Rightarrow> nat \<Rightarrow> int \<Rightarrow> u32 \<Rightarrow> W \<Rightarrow> 'w ev_loop \<Rightarrow> 'w ev_loop" where
  "infy_wd_one env slot wd imask w L =
     (if w_wd (ws L w) = wd \<or> wd = - 1 then
        let L = (if imask AND (IN_IGNORED OR IN_UNMOUNT OR IN_DELETE_SELF) \<noteq> 0 then
                   let L = L\<lparr>fs_hash := (fs_hash L)(slot := remove1 w (fs_hash L slot))\<rparr>;
                       L = upd_w w (\<lambda>x. x\<lparr>w_wd := - 1\<rparr>) L
                   in infy_add env w L
                 else L)
        in stat_timer_cb env (stat_timer w) L
      else L)"

definition infy_wd_slot :: "'w env \<Rightarrow> nat \<Rightarrow> int \<Rightarrow> u32 \<Rightarrow> 'w ev_loop \<Rightarrow> 'w ev_loop" where
  "infy_wd_slot env slot wd imask L = fold (infy_wd_one env slot wd imask) (fs_hash L slot) L"

definition infy_wd :: "'w env \<Rightarrow> int \<Rightarrow> int \<Rightarrow> u32 \<Rightarrow> 'w ev_loop \<Rightarrow> 'w ev_loop" where
  "infy_wd env slot wd imask L =
     (if slot < 0 then fold (\<lambda>slot. infy_wd_slot env slot wd imask) [0..<EV_INOTIFY_HASHSIZE] L
      else infy_wd_slot env (infy_slot slot) wd imask L)"

definition infy_cb :: "'w env \<Rightarrow> 'w ev_loop \<Rightarrow> 'w ev_loop" where
  "infy_cb env L =
     (let (evs, s) = env_inotify_read env (fs_fd L) (os L)
      in fold (\<lambda>(wd, imask). infy_wd env wd wd imask) evs (L\<lparr>os := s\<rparr>))"

definition ev_check_2625 :: "'w env \<Rightarrow> 'w ev_loop \<Rightarrow> 'w ev_loop" where
  "ev_check_2625 env L = (if ev_linux_version env < 0x020619 then L else L\<lparr>fs_2625 := True\<rparr>)"

definition infy_newfd :: "'w env \<Rightarrow> 'w ev_loop \<Rightarrow> int \<times> 'w ev_loop" where
  "infy_newfd env L =
     (let (fd, s) = env_inotify_init env True (os L) in
      if fd \<ge> 0 then (fd, L\<lparr>os := s\<rparr>)
      else let (fd, s) = env_inotify_init env False s in (fd, L\<lparr>os := s\<rparr>))"

definition infy_init :: "'w env \<Rightarrow> 'w ev_loop \<Rightarrow> 'w ev_loop" where
  "infy_init env L =
     (if fs_fd L \<noteq> - 2 then L
      else
        let L = L\<lparr>fs_fd := - 1\<rparr>;
            L = ev_check_2625 env L;
            (fd, L) = infy_newfd env L;
            L = L\<lparr>fs_fd := fd\<rparr>
        in if fs_fd L \<ge> 0 then
             let L = L\<lparr>os := env_fd_intern env (fs_fd L) (os L)\<rparr>;
                 L = ev_io_init FsW InfyCb (fs_fd L) EV_READ L;
                 L = ev_set_priority FsW EV_MAXPRI L;
                 L = ev_io_start FsW L
             in ev_unref L
           else L)"

definition infy_fork_one :: "'w env \<Rightarrow> W \<Rightarrow> 'w ev_loop \<Rightarrow> 'w ev_loop" where
  "infy_fork_one env w L =
     (let L = upd_w w (\<lambda>x. x\<lparr>w_wd := - 1\<rparr>) L in
      if fs_fd L \<ge> 0 then infy_add env w L
      else stat_rearm w (set_repeat w (stat_interval w DEF_STAT_INTERVAL L) L))"

definition infy_fork_slot :: "'w env \<Rightarrow> nat \<Rightarrow> 'w ev_loop \<Rightarrow> 'w ev_loop" where
  "infy_fork_slot env slot L =
     (let l = fs_hash L slot; L = L\<lparr>fs_hash := (fs_hash L)(slot := [])\<rparr> in fold (infy_fork_one env) l L)"

definition infy_fork :: "'w env \<Rightarrow> 'w ev_loop \<Rightarrow> 'w ev_loop" where
  "infy_fork env L =
     (if fs_fd L < 0 then L
      else
        let L = ev_ref L;
            L = ev_io_stop FsW L;
            L = L\<lparr>os := env_close env (fs_fd L) (os L)\<rparr>;
            (fd, L) = infy_newfd env L;
            L = L\<lparr>fs_fd := fd\<rparr>;
            L = (if fs_fd L \<ge> 0 then
                   let L = L\<lparr>os := env_fd_intern env (fs_fd L) (os L)\<rparr>;
                       L = ev_io_set FsW (fs_fd L) EV_READ L;
                       L = ev_io_start FsW L
                   in ev_unref L
                 else L)
        in fold (infy_fork_slot env) [0..<EV_INOTIFY_HASHSIZE] L)"

definition ev_stat_start :: "'w env \<Rightarrow> W \<Rightarrow> 'w ev_loop \<Rightarrow> 'w ev_loop" where
  "ev_stat_start env w L =
     (if active (ws L w) \<noteq> 0 then L
      else
        let t = stat_timer w;
            L = ev_stat_stat env w L;
            L = (if w_interval (ws L w) < MIN_STAT_INTERVAL \<and> w_interval (ws L w) \<noteq> 0
                 then upd_w w (\<lambda>x. x\<lparr>w_interval := MIN_STAT_INTERVAL\<rparr>) L else L);
            L = ev_timer_init t StatTimerCb 0 (stat_interval w DEF_STAT_INTERVAL L) L;
            L = ev_set_priority t (priority (ws L w)) L;
            L = infy_init env L;
            L = (if fs_fd L \<ge> 0 then infy_add env w L else ev_unref (ev_timer_again t L))
        in ev_start w 1 L)"

definition ev_stat_stop :: "'w env \<Rightarrow> W \<Rightarrow> 'w ev_loop \<Rightarrow> 'w ev_loop" where
  "ev_stat_stop env w L =
     (let L = clear_pending w L in
      if active (ws L w) = 0 then L
      else
        let t = stat_timer w;
            L = infy_del env w L;
            L = (if active (ws L t) \<noteq> 0 then ev_timer_stop t (ev_ref L) else L)
        in ev_stop w L)"

end
