(* ===== verification/Once.thy ===== *)
theory Once
  imports Stat
begin

section \<open>One-shot events\<close>

text \<open>
  \<^verbatim>\<open>ev_once\<close>, \<^verbatim>\<open>once_cb\<close>, \<^verbatim>\<open>once_cb_io\<close>, \<^verbatim>\<open>once_cb_to\<close>, \<^verbatim>\<open>once_collect\<close> and \<^verbatim>\<open>once_reclaim\<close>. An allocated
  \<^verbatim>\<open>struct ev_once\<close> is a number \<open>n\<close> in the domain of \<open>onces\<close>, which holds its callback; its two watchers
  are \<open>OnceIo n\<close> and \<open>OnceTo n\<close>. Allocation takes a number never used before, and freeing an object that
  is not allocated clears \<open>ok\<close>.
\<close>

definition once_free :: "nat \<Rightarrow> 'w ev_loop \<Rightarrow> 'w ev_loop" where
  "once_free n L = (chk (onces L n \<noteq> None) L)\<lparr>onces := (onces L)(n := None)\<rparr>"

definition once_cb :: "'w env \<Rightarrow> nat \<Rightarrow> u32 \<Rightarrow> 'w ev_loop \<Rightarrow> 'w ev_loop option" where
  "once_cb env n revents L =
     (case onces L n of
        None \<Rightarrow> Some (chk False L)
      | Some cb \<Rightarrow>
          let L = ev_io_stop (OnceIo n) L;
              L = ev_timer_stop (OnceTo n) L;
              L = once_free n L
          in env_once_cb env cb revents L)"

definition once_cb_io :: "'w env \<Rightarrow> nat \<Rightarrow> u32 \<Rightarrow> 'w ev_loop \<Rightarrow> 'w ev_loop option" where
  "once_cb_io env n revents L = (let (r, L) = ev_clear_pending (OnceTo n) L in once_cb env n (revents OR r) L)"

definition once_cb_to :: "'w env \<Rightarrow> nat \<Rightarrow> u32 \<Rightarrow> 'w ev_loop \<Rightarrow> 'w ev_loop option" where
  "once_cb_to env n revents L = (let (r, L) = ev_clear_pending (OnceIo n) L in once_cb env n (revents OR r) L)"

text \<open>\<^verbatim>\<open>EV_CONTAINER_OF\<close> on the two members.\<close>

fun once_of :: "W \<Rightarrow> nat option" where
  "once_of (OnceIo n) = Some n"
| "once_of (OnceTo n) = Some n"
| "once_of _ = None"

text \<open>The list threaded through \<^verbatim>\<open>reclaim\<close>, newest first; an object with a non-null \<^verbatim>\<open>reclaim\<close> is on it.\<close>

definition once_collect :: "'w ev_loop \<Rightarrow> W \<Rightarrow> nat list \<Rightarrow> nat list" where
  "once_collect L w l =
     (if w_cb (ws L w) = OnceCbIo \<or> w_cb (ws L w) = OnceCbTo then
        case once_of w of None \<Rightarrow> l | Some n \<Rightarrow> if n \<in> set l then l else n # l
      else l)"

definition once_reach :: "'w ev_loop \<Rightarrow> W list" where
  "once_reach L =
     concat (map (\<lambda>pri. map (\<lambda>i. ap_w (pendings L pri i)) (rev [0..<pendingcnt L pri])) (rev [0..<NUMPRI])) @
     concat (map (\<lambda>fd. anfd_head (anfds L (int fd))) [0..<anfdmax L]) @
     map (\<lambda>i. he_w (timers L i)) (rev [HEAP0..<timercnt L + HEAP0])"

definition once_reclaim :: "'w ev_loop \<Rightarrow> 'w ev_loop" where
  "once_reclaim L = fold once_free (fold (once_collect L) (once_reach L) []) L"

definition ev_once :: "int \<Rightarrow> u32 \<Rightarrow> ev_tstamp \<Rightarrow> nat option \<Rightarrow> 'w ev_loop \<Rightarrow> 'w ev_loop" where
  "ev_once fd events timeout cb L =
     (let events = events AND (EV_READ OR EV_WRITE) in
      case cb of
        None \<Rightarrow> L
      | Some cb \<Rightarrow>
          if (fd < 0 \<or> events = 0) \<and> timeout < 0 then L
          else
            let n = once_next L;
                L = L\<lparr>once_next := n + 1, onces := (onces L)(n \<mapsto> cb)\<rparr>;
                L = ev_init (OnceIo n) OnceCbIo L;
                L = (if fd \<ge> 0 \<and> events \<noteq> 0 then ev_io_start (OnceIo n) (ev_io_set (OnceIo n) fd events L) else L);
                L = ev_init (OnceTo n) OnceCbTo L
            in if timeout \<ge> 0 then ev_timer_start (OnceTo n) (ev_timer_set (OnceTo n) timeout 0 L) else L)"

end
