(* ===== verification/Walk.thy ===== *)
theory Walk
  imports Once
begin

section \<open>Inspecting a loop\<close>

text \<open>
  The consistency checks of \<^verbatim>\<open>EV_VERIFY\<close> (\<^verbatim>\<open>verify_watcher\<close>, \<^verbatim>\<open>verify_heap\<close>, \<^verbatim>\<open>array_verify\<close>,
  \<^verbatim>\<open>ev_verify\<close>), the enumeration \<^verbatim>\<open>ev_walk\<close>, and \<^verbatim>\<open>ev_timer_next\<close>.
\<close>

subsection \<open>Self checks\<close>

definition verify_watcher :: "W \<Rightarrow> 'w ev_loop \<Rightarrow> 'w ev_loop" where
  "verify_watcher w L =
     (let p = priority (ws L w) - EV_MINPRI;
          L = chk (p \<ge> 0 \<and> p < int NUMPRI) L
      in if pending (ws L w) \<noteq> 0 then chk (ap_w (pendings L (nat p) (pending (ws L w) - 1)) = w) L else L)"

definition verify_heap :: "('w ev_loop \<Rightarrow> heap) \<Rightarrow> nat \<Rightarrow> 'w ev_loop \<Rightarrow> 'w ev_loop" where
  "verify_heap hp N L =
     fold (\<lambda>i L.
       let h = hp L; w = he_w (h i);
           L = chk (active (ws L w) = i) L;
           L = chk (i = HEAP0 \<or> he_at (h (HPARENT i)) \<le> he_at (h i)) L;
           L = chk (he_at (h i) = w_at (ws L w)) L
       in verify_watcher w L) [HEAP0..<N + HEAP0] L"

definition array_verify :: "(nat \<Rightarrow> W) \<Rightarrow> nat \<Rightarrow> 'w ev_loop \<Rightarrow> 'w ev_loop" where
  "array_verify a cnt L = fold (\<lambda>i L. verify_watcher (a i) (chk (active (ws L (a i)) = i + 1) L)) (rev [0..<cnt]) L"

text \<open>
  The list of one descriptor. \<open>j\<close> is the loop's counter; the slow pointer \<^verbatim>\<open>w2\<close> has advanced \<open>j div 2\<close>
  links when it is compared at odd \<open>j\<close>.
\<close>

definition verify_anfd :: "int \<Rightarrow> 'w ev_loop \<Rightarrow> 'w ev_loop" where
  "verify_anfd fd L =
     (let l = anfd_head (anfds L fd) in
      fold (\<lambda>j L.
        let w = l ! j;
            L = verify_watcher w L;
            L = (if odd j then chk (w \<noteq> l ! (j div 2)) L else L);
            L = chk (active (ws L w) = 1) L
        in chk (w_fd (ws L w) = fd) L) [0..<length l] L)"

definition verify_pri :: "nat \<Rightarrow> 'w ev_loop \<Rightarrow> 'w ev_loop" where
  "verify_pri i L =
     (let L = chk (pendingmax L i \<ge> pendingcnt L i) L;
          L = chk (idleall L \<ge> 0) L;
          L = chk (idlemax L i \<ge> idlecnt L i) L
      in array_verify (idles L i) (idlecnt L i) L)"

definition ev_verify :: "'w ev_loop \<Rightarrow> 'w ev_loop" where
  "ev_verify L =
     (let L = chk (activecnt L \<ge> - 1) L;
          L = chk (fdchangemax L \<ge> fdchangecnt L) L;
          L = fold (\<lambda>i L. chk (fdchanges L i \<ge> 0) L) [0..<fdchangecnt L] L;
          L = fold (\<lambda>i. verify_anfd (int i)) [0..<anfdmax L] L;
          L = chk (timermax L \<ge> timercnt L) L;
          L = verify_heap timers (timercnt L) L;
          L = chk (periodicmax L \<ge> periodiccnt L) L;
          L = verify_heap periodics (periodiccnt L) L;
          L = fold verify_pri (rev [0..<NUMPRI]) L;
          L = array_verify (forks L) (forkcnt L) (chk (forkmax L \<ge> forkcnt L) L);
          L = array_verify (cleanups L) (cleanupcnt L) (chk (cleanupmax L \<ge> cleanupcnt L) L);
          L = array_verify (asyncs L) (asynccnt L) (chk (asyncmax L \<ge> asynccnt L) L);
          L = array_verify (prepares L) (preparecnt L) (chk (preparemax L \<ge> preparecnt L) L)
      in array_verify (checks L) (checkcnt L) (chk (checkmax L \<ge> checkcnt L) L))"

subsection \<open>The next deadline\<close>

abbreviation (input) EV_TSTAMP_HUGE :: ev_tstamp where "EV_TSTAMP_HUGE \<equiv> 10000000000000"

definition ev_timer_next :: "'w ev_loop \<Rightarrow> ev_tstamp" where
  "ev_timer_next L =
     (let t = (if timercnt L \<noteq> 0 then he_at (timers L HEAP0) else EV_TSTAMP_HUGE) in
      if periodiccnt L \<noteq> 0 then
        let pat = fadd (fsub (he_at (periodics L HEAP0)) (ev_rt_now L)) (mn_now L) in if pat < t then pat else t
      else t)"

subsection \<open>Walking all watchers\<close>

text \<open>
  \<^verbatim>\<open>ev_walk\<close> reads each list's next link before the callback runs, and each array from its end. The model
  walks the list as it was when the walk of that list began: the callback may stop the watcher it is
  given.
\<close>

fun embed_of :: "W \<Rightarrow> W" where
  "embed_of (EmbedIo n) = EmbedW n"
| "embed_of w = w"

definition walk_io :: "u32 \<Rightarrow> (u32 \<Rightarrow> W \<Rightarrow> 'w ev_loop \<Rightarrow> 'w ev_loop) \<Rightarrow> W \<Rightarrow> 'w ev_loop \<Rightarrow> 'w ev_loop" where
  "walk_io types cb w L =
     (if w_cb (ws L w) = EmbedIoCb then if types AND EV_EMBED \<noteq> 0 then cb EV_EMBED (embed_of w) L else L
      else if w_cb (ws L w) = InfyCb then L
      else if \<not> io_is_loop_own w then if types AND EV_READ \<noteq> 0 then cb EV_READ w L else L
      else L)"

definition walk_timer :: "u32 \<Rightarrow> (u32 \<Rightarrow> W \<Rightarrow> 'w ev_loop \<Rightarrow> 'w ev_loop) \<Rightarrow> nat \<Rightarrow> 'w ev_loop \<Rightarrow> 'w ev_loop" where
  "walk_timer types cb i L =
     (let w = he_w (timers L i) in
      if w_cb (ws L w) = StatTimerCb then if types AND EV_STAT \<noteq> 0 then cb EV_STAT (stat_of w) L else L
      else if types AND EV_TIMER \<noteq> 0 then cb EV_TIMER w L else L)"

definition walk_if :: "bool \<Rightarrow> ('w ev_loop \<Rightarrow> 'w ev_loop) \<Rightarrow> 'w ev_loop \<Rightarrow> 'w ev_loop" where
  "walk_if b f L = (if b then f L else L)"

definition ev_walk :: "u32 \<Rightarrow> (u32 \<Rightarrow> W \<Rightarrow> 'w ev_loop \<Rightarrow> 'w ev_loop) \<Rightarrow> 'w ev_loop \<Rightarrow> 'w ev_loop" where
  "ev_walk types cb L =
     (let on = (\<lambda>t. types AND t \<noteq> 0);
          L = walk_if (on (EV_READ OR EV_EMBED)) (\<lambda>L. fold (\<lambda>i L. fold (walk_io types cb) (anfd_head (anfds L (int i))) L) [0..<anfdmax L] L) L;
          L = walk_if (on (EV_TIMER OR EV_STAT)) (\<lambda>L. fold (walk_timer types cb) (rev [HEAP0..<timercnt L + HEAP0]) L) L;
          L = walk_if (on EV_PERIODIC) (\<lambda>L. fold (\<lambda>i L. cb EV_PERIODIC (he_w (periodics L i)) L) (rev [HEAP0..<periodiccnt L + HEAP0]) L) L;
          L = walk_if (on EV_IDLE) (\<lambda>L. fold (\<lambda>j L. fold (\<lambda>i L. cb EV_IDLE (idles L j i) L) (rev [0..<idlecnt L j]) L) (rev [0..<NUMPRI]) L) L;
          L = walk_if (on EV_FORK)
                (\<lambda>L. fold (\<lambda>i L. if w_cb (ws L (forks L i)) \<noteq> EmbedForkCb then cb EV_FORK (forks L i) L else L) (rev [0..<forkcnt L]) L) L;
          L = walk_if (on EV_ASYNC) (\<lambda>L. fold (\<lambda>i L. cb EV_ASYNC (asyncs L i) L) (rev [0..<asynccnt L]) L) L;
          L = walk_if (on EV_PREPARE)
                (\<lambda>L. fold (\<lambda>i L. if w_cb (ws L (prepares L i)) \<noteq> EmbedPrepareCb then cb EV_PREPARE (prepares L i) L else L) (rev [0..<preparecnt L]) L) L;
          L = walk_if (on EV_CHECK) (\<lambda>L. fold (\<lambda>i L. cb EV_CHECK (checks L i) L) (rev [0..<checkcnt L]) L) L;
          L = walk_if (on EV_SIGNAL) (\<lambda>L. fold (\<lambda>i L. fold (cb EV_SIGNAL) (sg_head (signals L i)) L) [0..<EV_NSIG - 1] L) L
      in walk_if (on EV_CHILD) (\<lambda>L. fold (\<lambda>i L. fold (cb EV_CHILD) (childs L i) L) (rev [0..<EV_PID_HASHSIZE]) L) L)"

end
