(* ===== verification/Setup.thy ===== *)
theory Setup
  imports Walk
begin

section \<open>Creating, forking and destroying a loop\<close>

text \<open>
  The choice of a backend (\<^verbatim>\<open>ev_supported_backends\<close>, \<^verbatim>\<open>ev_recommended_backends\<close>,
  \<^verbatim>\<open>ev_embeddable_backends\<close>), \<^verbatim>\<open>loop_init\<close>, \<^verbatim>\<open>ev_loop_new\<close>, \<^verbatim>\<open>ev_default_loop\<close>, \<^verbatim>\<open>loop_fork\<close>,
  \<^verbatim>\<open>ev_loop_destroy\<close>, and the dispatch of callbacks. The compile-time switches are the record \<open>config\<close>.
\<close>

record config =
  use_port :: bool
  use_kqueue :: bool
  use_epoll :: bool
  use_linuxaio :: bool
  use_iouring :: bool
  use_poll :: bool
  use_select :: bool
  recommend_linuxaio :: bool
  recommend_iouring :: bool
  os_netbsd :: bool
  os_apple :: bool
  os_freebsd :: bool
  os_win32 :: bool

abbreviation (input) EVBACKEND_MASK :: u32 where "EVBACKEND_MASK \<equiv> 0x0000FFFF"

definition bits_if :: "bool \<Rightarrow> u32 \<Rightarrow> u32 \<Rightarrow> u32" where
  "bits_if b v flags = (if b then flags OR v else flags)"

definition clear_if :: "bool \<Rightarrow> u32 \<Rightarrow> u32 \<Rightarrow> u32" where
  "clear_if b v flags = (if b then flags AND NOT v else flags)"

definition ev_supported_backends :: "config \<Rightarrow> 'w env \<Rightarrow> u32" where
  "ev_supported_backends c env =
     (let flags = 0;
          flags = bits_if (use_port c) EVBACKEND_PORT flags;
          flags = bits_if (use_kqueue c) EVBACKEND_KQUEUE flags;
          flags = bits_if (use_epoll c) EVBACKEND_EPOLL flags;
          flags = bits_if (use_linuxaio c) EVBACKEND_LINUXAIO flags;
          flags = bits_if (use_iouring c \<and> ev_linux_version env \<ge> 0x050601) EVBACKEND_IOURING flags;
          flags = bits_if (use_poll c) EVBACKEND_POLL flags
      in bits_if (use_select c) EVBACKEND_SELECT flags)"

definition ev_recommended_backends :: "config \<Rightarrow> 'w env \<Rightarrow> u32" where
  "ev_recommended_backends c env =
     (let flags = ev_supported_backends c env;
          flags = clear_if (\<not> os_netbsd c \<and> \<not> os_apple c) EVBACKEND_KQUEUE flags;
          flags = clear_if (os_apple c) EVBACKEND_POLL flags;
          flags = clear_if (os_freebsd c) EVBACKEND_POLL flags;
          flags = clear_if (\<not> recommend_linuxaio c) EVBACKEND_LINUXAIO flags
      in clear_if (\<not> recommend_iouring c) EVBACKEND_IOURING flags)"

definition ev_embeddable_backends :: "config \<Rightarrow> 'w env \<Rightarrow> u32" where
  "ev_embeddable_backends c env =
     (let flags = EVBACKEND_EPOLL OR EVBACKEND_KQUEUE OR EVBACKEND_PORT OR EVBACKEND_IOURING;
          flags = clear_if (os_win32 c) EVBACKEND_EPOLL flags
      in clear_if (ev_linux_version env < 0x020620) EVBACKEND_EPOLL flags)"

subsection \<open>Initialisation\<close>

definition try_backend :: "'w env \<Rightarrow> u32 \<Rightarrow> bool \<times> u32 \<Rightarrow> 'w ev_loop \<Rightarrow> 'w ev_loop" where
  "try_backend env flags ub L =
     (if fst ub \<and> backend L = 0 \<and> flags AND snd ub \<noteq> 0 then
        let (b, L) = env_backend_init env (snd ub) flags L in L\<lparr>backend := b\<rparr>
      else L)"

text \<open>The order in which \<^verbatim>\<open>loop_init\<close> tries the backends.\<close>

definition backend_order :: "config \<Rightarrow> (bool \<times> u32) list" where
  "backend_order c =
     [(use_port c, EVBACKEND_PORT), (use_kqueue c, EVBACKEND_KQUEUE), (use_iouring c, EVBACKEND_IOURING),
      (use_linuxaio c, EVBACKEND_LINUXAIO), (use_epoll c, EVBACKEND_EPOLL), (use_poll c, EVBACKEND_POLL),
      (use_select c, EVBACKEND_SELECT)]"

definition loop_clocks :: "'w env \<Rightarrow> 'w ev_loop \<Rightarrow> 'w ev_loop" where
  "loop_clocks env L =
     (let (t, L) = ev_time env L;
          L = L\<lparr>ev_rt_now := t\<rparr>;
          (m, L) = get_clock env L
      in L\<lparr>mn_now := m, now_floor := m, rtmn_diff := fsub (ev_rt_now L) m\<rparr>)"

definition loop_reset :: "u32 \<Rightarrow> 'w ev_loop \<Rightarrow> 'w ev_loop" where
  "loop_reset flags L =
     L\<lparr>io_blocktime := 0, timeout_blocktime := 0, backend := 0, backend_fd := - 1, sig_pending := False,
       async_pending := False, pipe_write_skipped := False, pipe_write_wanted := False, evpipe0 := - 1, evpipe1 := - 1,
       fs_fd := if flags AND EVFLAG_NOINOTIFY \<noteq> 0 then - 1 else - 2,
       sigfd := if flags AND EVFLAG_SIGNALFD \<noteq> 0 then - 2 else - 1,
       timerfd := if flags AND EVFLAG_NOTIMERFD \<noteq> 0 then - 1 else - 2\<rparr>"

definition loop_init :: "config \<Rightarrow> 'w env \<Rightarrow> u32 \<Rightarrow> 'w ev_loop \<Rightarrow> 'w ev_loop" where
  "loop_init c env flags L =
     (if backend L \<noteq> 0 then L
      else
        let L = L\<lparr>origflags := flags\<rparr>;
            L = (if \<not> have_monotonic L \<and> env_monotonic env then L\<lparr>have_monotonic := True\<rparr> else L);
            L = (if flags AND EVFLAG_FORKCHECK \<noteq> 0 then L\<lparr>curpid := env_getpid env (os L)\<rparr> else L);
            flags = (if flags AND EVFLAG_NOENV = 0 \<and> \<not> env_secure env
                     then (case env_libev_flags env of Some f \<Rightarrow> f | None \<Rightarrow> flags) else flags);
            L = loop_clocks env L;
            L = loop_reset flags L;
            flags = (if flags AND EVBACKEND_MASK = 0 then flags OR ev_recommended_backends c env else flags);
            L = fold (try_backend env flags) (backend_order c) L;
            L = ev_init PendingW Pendingcb L;
            L = ev_init PipeW Pipecb L
        in ev_set_priority PipeW EV_MAXPRI L)"

text \<open>\<^verbatim>\<open>ev_loop_new\<close>: a null pointer is \<open>None\<close>.\<close>

definition ev_loop_new :: "config \<Rightarrow> 'w env \<Rightarrow> u32 \<Rightarrow> 'w \<Rightarrow> 'w ev_loop option" where
  "ev_loop_new c env flags s = (let L = loop_init c env flags (loop_zero s) in if backend L \<noteq> 0 then Some L else None)"

abbreviation (input) SIGCHLD :: int where "SIGCHLD \<equiv> 17"

text \<open>
  \<^verbatim>\<open>ev_default_loop\<close>: the first component says whether \<^verbatim>\<open>ev_default_loop_ptr\<close> is set. \<open>None\<close>: a retry loop
  below did not return.
\<close>

definition ev_default_loop :: "config \<Rightarrow> 'w env \<Rightarrow> u32 \<Rightarrow> bool \<times> 'w ev_loop \<Rightarrow> (bool \<times> 'w ev_loop) option" where
  "ev_default_loop c env flags D =
     (if fst D then Some D
      else
        let L = loop_init c env flags (snd D) in
        if backend L \<noteq> 0 then
          let L = ev_init ChildevW Childcb L;
              L = ev_signal_set ChildevW SIGCHLD L;
              L = ev_set_priority ChildevW EV_MAXPRI L
          in map_option (\<lambda>L. (True, ev_unref L)) (ev_signal_start env ChildevW L)
        else Some (False, L))"

definition ev_loop_fork :: "'w ev_loop \<Rightarrow> 'w ev_loop" where
  "ev_loop_fork L = L\<lparr>postfork := 1\<rparr>"

subsection \<open>After a fork\<close>

definition fork_timerfd :: "'w env \<Rightarrow> 'w ev_loop \<Rightarrow> 'w ev_loop option" where
  "fork_timerfd env L =
     (if active (ws L TimerfdW) \<noteq> 0 then
        let L = ev_io_stop TimerfdW (ev_ref L);
            L = L\<lparr>os := env_close env (timerfd L) (os L)\<rparr>;
            L = L\<lparr>timerfd := - 2\<rparr>
        in map_option (ev_feed_event TimerfdW EV_CUSTOM) (evtimerfd_init env L)
      else Some L)"

definition fork_pipe :: "'w env \<Rightarrow> 'w ev_loop \<Rightarrow> 'w ev_loop option" where
  "fork_pipe env L =
     (if active (ws L PipeW) \<noteq> 0 then
        let L = ev_io_stop PipeW (ev_ref L);
            L = (if evpipe0 L \<ge> 0 then L\<lparr>os := env_close env (evpipe0 L) (os L)\<rparr> else L)
        in map_option (ev_feed_event PipeW EV_CUSTOM) (evpipe_init env L)
      else Some L)"

definition loop_fork :: "'w env \<Rightarrow> 'w ev_loop \<Rightarrow> 'w ev_loop option" where
  "loop_fork env L =
     map_option (\<lambda>L. L\<lparr>postfork := 0\<rparr>)
       (Option.bind
          (if backend L \<in> {EVBACKEND_PORT, EVBACKEND_KQUEUE, EVBACKEND_IOURING, EVBACKEND_LINUXAIO, EVBACKEND_EPOLL}
           then env_backend_fork env L else Some L)
          (\<lambda>L. let L = infy_fork env L in
               if postfork L \<noteq> 2 then Option.bind (fork_timerfd env L) (fork_pipe env) else Some L))"

subsection \<open>Dispatch of callbacks\<close>

text \<open>
  \<^verbatim>\<open>EV_CB_INVOKE (w, revents)\<close>: the watcher's callback member decides. \<^verbatim>\<open>ev_invoke\<close> is the same call made
  by a user.
\<close>

definition ev_invoke :: "'w env \<Rightarrow> W \<Rightarrow> u32 \<Rightarrow> 'w ev_loop \<Rightarrow> 'w ev_loop option" where
  "ev_invoke env w revents L =
     (case w_cb (ws L w) of
        UserCb n \<Rightarrow> env_cb env n w revents L
      | Pendingcb \<Rightarrow> Some L
      | Pipecb \<Rightarrow> Some (pipecb env revents L)
      | Sigfdcb \<Rightarrow> sigfdcb env L
      | Timerfdcb \<Rightarrow> timerfdcb env L
      | Childcb \<Rightarrow> Some (childcb env w L)
      | StatTimerCb \<Rightarrow> Some (stat_timer_cb env w L)
      | InfyCb \<Rightarrow> Some (infy_cb env L)
      | OnceCbIo \<Rightarrow> (case once_of w of Some n \<Rightarrow> once_cb_io env n revents L | None \<Rightarrow> Some (chk False L))
      | OnceCbTo \<Rightarrow> (case once_of w of Some n \<Rightarrow> once_cb_to env n revents L | None \<Rightarrow> Some (chk False L))
      | cb \<Rightarrow> env_backend_cb env cb w revents L)"

subsection \<open>Destruction\<close>

definition destroy_fds :: "'w env \<Rightarrow> 'w ev_loop \<Rightarrow> 'w ev_loop" where
  "destroy_fds env L =
     (let cl = (\<lambda>b fd L. if b then L\<lparr>os := env_close env fd (os L)\<rparr> else L);
          L = cl (active (ws L PipeW) \<noteq> 0 \<and> evpipe0 L \<ge> 0) (evpipe0 L) L;
          L = cl (active (ws L PipeW) \<noteq> 0 \<and> evpipe1 L \<ge> 0) (evpipe1 L) L;
          L = cl (active (ws L SigfdW) \<noteq> 0) (sigfd L) L;
          L = cl (active (ws L TimerfdW) \<noteq> 0) (timerfd L) L;
          L = cl (fs_fd L \<ge> 0) (fs_fd L) L
      in cl (backend_fd L \<noteq> - 1 \<and> backend L \<noteq> EVBACKEND_IOURING \<and> backend L \<noteq> EVBACKEND_LINUXAIO) (backend_fd L) L)"

text \<open>\<^verbatim>\<open>array_free\<close> clears pointer, count and allocated size; the order of the calls does not matter.\<close>

definition destroy_arrays :: "'w ev_loop \<Rightarrow> 'w ev_loop" where
  "destroy_arrays L =
     L\<lparr>pendingcnt := \<lambda>_. 0, pendingmax := \<lambda>_. 0, idlecnt := \<lambda>_. 0, idlemax := \<lambda>_. 0, anfdmax := 0,
       rfeedcnt := 0, rfeedmax := 0, fdchangecnt := 0, fdchangemax := 0, timercnt := 0, timermax := 0,
       periodiccnt := 0, periodicmax := 0, forkcnt := 0, forkmax := 0, cleanupcnt := 0, cleanupmax := 0,
       preparecnt := 0, preparemax := 0, checkcnt := 0, checkmax := 0, asynccnt := 0, asyncmax := 0\<rparr>"

definition ev_loop_destroy :: "'w env \<Rightarrow> 'w ev_loop \<Rightarrow> 'w ev_loop option" where
  "ev_loop_destroy env L =
     map_option (\<lambda>L.
       let L = once_reclaim L;
           L = (if env_default_loop env \<and> active (ws L ChildevW) \<noteq> 0 then ev_signal_stop env ChildevW (ev_ref L) else L);
           L = destroy_fds env L;
           L = env_backend_destroy env L;
           L = destroy_arrays L
       in L\<lparr>backend := 0\<rparr>)
     (if cleanupcnt L \<noteq> 0
      then ev_invoke_pending (ev_invoke env) (queue_events (cleanups L) (cleanupcnt L) EV_CLEANUP L) else Some L)"

end
