(* ===== verification/Run.thy ===== *)
theory Run
  imports Setup
begin

section \<open>The loop\<close>

text \<open>
  \<^verbatim>\<open>time_update\<close>, \<^verbatim>\<open>ev_run\<close>, \<^verbatim>\<open>ev_break\<close>, \<^verbatim>\<open>ev_now_update\<close>, \<^verbatim>\<open>ev_now_set\<close>, \<^verbatim>\<open>ev_suspend\<close> and
  \<^verbatim>\<open>ev_resume\<close>, for the build with periodics, a monotonic clock when the host has one, the timerfd, and
  assertions enabled (\<^verbatim>\<open>loop_done\<close> is \<^verbatim>\<open>EVBREAK_RECURSE\<close> while the backend polls). One round of the \<^verbatim>\<open>do\<close>
  loop is split at its comments: \<open>run_head\<close> up to the first test of \<^verbatim>\<open>loop_done\<close>, \<open>run_wait\<close> for the
  blocking time, \<open>run_poll\<close> up to the second clock update, \<open>run_tail\<close> for the rest.
\<close>

abbreviation (input) EVRUN_NOWAIT :: u32 where "EVRUN_NOWAIT \<equiv> 1"
abbreviation (input) EVRUN_ONCE :: u32 where "EVRUN_ONCE \<equiv> 2"
abbreviation (input) EVRUN_NOPOLL :: u32 where "EVRUN_NOPOLL \<equiv> 4"
abbreviation (input) EVBREAK_CANCEL :: nat where "EVBREAK_CANCEL \<equiv> 0"
abbreviation (input) EVBREAK_ONE :: nat where "EVBREAK_ONE \<equiv> 1"
abbreviation (input) EVBREAK_ALL :: nat where "EVBREAK_ALL \<equiv> 2"
abbreviation (input) EVBREAK_RECURSE :: nat where "EVBREAK_RECURSE \<equiv> 128"
abbreviation (input) MIN_TIMEJUMP :: ev_tstamp where "MIN_TIMEJUMP \<equiv> 1"
abbreviation (input) MAX_BLOCKTIME :: ev_tstamp where "MAX_BLOCKTIME \<equiv> rnd64 (743 / 1000)"
abbreviation (input) MAX_BLOCKTIME2 :: ev_tstamp where "MAX_BLOCKTIME2 \<equiv> rnd64 (150000107 / 100)"

subsection \<open>Time\<close>

text \<open>
  The loop of \<^verbatim>\<open>time_update\<close> that makes sure of a jump; the flag says whether it was left with all well.
\<close>

fun jump_check :: "'w env \<Rightarrow> nat \<Rightarrow> ev_tstamp \<Rightarrow> 'w ev_loop \<Rightarrow> bool \<times> 'w ev_loop" where
  "jump_check env 0 odiff L = (False, L)"
| "jump_check env (Suc i) odiff L =
     (let L = L\<lparr>rtmn_diff := fsub (ev_rt_now L) (mn_now L)\<rparr>;
          diff = fsub odiff (rtmn_diff L)
      in if (if diff < 0 then - diff else diff) < MIN_TIMEJUMP then (True, L)
         else
           let (t, L) = ev_time env L;
               L = L\<lparr>ev_rt_now := t\<rparr>;
               (m, L) = get_clock env L
           in jump_check env i odiff (L\<lparr>mn_now := m, now_floor := m\<rparr>))"

definition time_update :: "'w env \<Rightarrow> ev_tstamp \<Rightarrow> 'w ev_loop \<Rightarrow> 'w ev_loop option" where
  "time_update env max_block L =
     (if have_monotonic L then
        let odiff = rtmn_diff L;
            (m, L) = get_clock env L;
            L = L\<lparr>mn_now := m\<rparr>
        in if fsub (mn_now L) (now_floor L) < MIN_TIMEJUMP / 2 then Some (L\<lparr>ev_rt_now := fadd (rtmn_diff L) (mn_now L)\<rparr>)
           else
             let L = L\<lparr>now_floor := mn_now L\<rparr>;
                 (t, L) = ev_time env L;
                 (well, L) = jump_check env 3 odiff (L\<lparr>ev_rt_now := t\<rparr>)
             in if well then Some L else periodics_reschedule env L
      else
        let (t, L) = ev_time env L;
            L = L\<lparr>ev_rt_now := t\<rparr>
        in map_option (\<lambda>L. L\<lparr>mn_now := ev_rt_now L\<rparr>)
             (if mn_now L > ev_rt_now L \<or> ev_rt_now L > fadd (fadd (mn_now L) max_block) MIN_TIMEJUMP
              then periodics_reschedule env (timers_reschedule (fsub (ev_rt_now L) (mn_now L)) L)
              else Some L))"

definition ev_now_update :: "'w env \<Rightarrow> 'w ev_loop \<Rightarrow> 'w ev_loop option" where
  "ev_now_update env L = time_update env EV_TSTAMP_HUGE L"

definition now_set_refresh :: "'w env \<Rightarrow> 'w ev_loop \<Rightarrow> 'w ev_loop option" where
  "now_set_refresh env L =
     (let odiff = rtmn_diff L;
          L = L\<lparr>now_floor := mn_now L\<rparr>;
          (t, L) = ev_time env L;
          L = L\<lparr>ev_rt_now := t\<rparr>;
          L = L\<lparr>rtmn_diff := fsub (ev_rt_now L) (mn_now L)\<rparr>;
          moved = fsub odiff (rtmn_diff L)
      in if time_jumped moved then periodics_reschedule env L else Some L)"

definition ev_now_set :: "'w env \<Rightarrow> ev_tstamp \<Rightarrow> 'w ev_loop \<Rightarrow> 'w ev_loop option" where
  "ev_now_set env smp L =
     (if have_monotonic L then
        let L = (if smp > mn_now L then L\<lparr>mn_now := smp\<rparr> else L)
        in map_option (\<lambda>L. L\<lparr>now_set := True\<rparr>)
             (if fsub (mn_now L) (now_floor L) < MIN_TIMEJUMP / 2 then Some (L\<lparr>ev_rt_now := fadd (rtmn_diff L) (mn_now L)\<rparr>)
              else now_set_refresh env L)
      else time_update env EV_TSTAMP_HUGE L)"

definition ev_suspend :: "'w env \<Rightarrow> 'w ev_loop \<Rightarrow> 'w ev_loop option" where
  "ev_suspend env L = ev_now_update env L"

definition ev_resume :: "'w env \<Rightarrow> 'w ev_loop \<Rightarrow> 'w ev_loop option" where
  "ev_resume env L =
     (let mn_prev = mn_now L in
      Option.bind (ev_now_update env L) (\<lambda>L. periodics_reschedule env (timers_reschedule (fsub (mn_now L) mn_prev) L)))"

subsection \<open>One round\<close>

definition invoke_pending :: "'w env \<Rightarrow> 'w ev_loop \<Rightarrow> 'w ev_loop option" where
  "invoke_pending env L = ev_invoke_pending (ev_invoke env) L"

definition run_head :: "'w env \<Rightarrow> 'w ev_loop \<Rightarrow> 'w ev_loop option" where
  "run_head env L =
     (let L = (if curpid L \<noteq> 0 \<and> env_getpid env (os L) \<noteq> curpid L
               then L\<lparr>curpid := env_getpid env (os L), postfork := 1\<rparr> else L) in
      Option.bind
        (if postfork L \<noteq> 0 \<and> forkcnt L \<noteq> 0 then invoke_pending env (queue_events (forks L) (forkcnt L) EV_FORK L) else Some L)
        (\<lambda>L. if preparecnt L \<noteq> 0 then invoke_pending env (queue_events (prepares L) (preparecnt L) EV_PREPARE L) else Some L))"

text \<open>Whether a round may sleep, and how long; the argument \<open>prev\<close> is \<^verbatim>\<open>prev_mn_now\<close>.\<close>

definition may_block :: "u32 \<Rightarrow> 'w ev_loop \<Rightarrow> bool" where
  "may_block flags L \<longleftrightarrow> \<not> (flags AND EVRUN_NOWAIT \<noteq> 0 \<or> idleall L \<noteq> 0 \<or> activecnt L = 0 \<or> pipe_write_skipped L)"

definition wait_until :: "'w ev_loop \<Rightarrow> ev_tstamp" where
  "wait_until L =
     (let waittime = (if have_monotonic L \<and> timerfd L \<noteq> - 1 then MAX_BLOCKTIME2 else MAX_BLOCKTIME);
          waittime = (if timercnt L \<noteq> 0 then
                        let to = fsub (he_at (timers L HEAP0)) (mn_now L) in if waittime > to then to else waittime
                      else waittime);
          waittime = (if periodiccnt L \<noteq> 0 then
                        let to = fsub (he_at (periodics L HEAP0)) (ev_rt_now L) in if waittime > to then to else waittime
                      else waittime);
          waittime = (if waittime < timeout_blocktime L then timeout_blocktime L else waittime)
      in if waittime < backend_mintime L then (if waittime \<le> 0 then 0 else backend_mintime L) else waittime)"

definition run_wait :: "'w env \<Rightarrow> u32 \<Rightarrow> ev_tstamp \<Rightarrow> 'w ev_loop \<Rightarrow> ev_tstamp \<times> ev_tstamp \<times> 'w ev_loop" where
  "run_wait env flags prev L =
     (if may_block flags L then
        let waittime = wait_until L in
        if io_blocktime L \<noteq> 0 then
          let sleeptime = fsub (io_blocktime L) (fsub (mn_now L) prev);
              sleeptime = (if sleeptime > fsub waittime (backend_mintime L) then fsub waittime (backend_mintime L) else sleeptime)
          in if sleeptime > 0 then (fsub waittime sleeptime, sleeptime, ev_sleep env sleeptime L) else (waittime, sleeptime, L)
        else (waittime, 0, L)
      else (0, 0, L))"

definition polls_backend :: "u32 \<Rightarrow> ev_tstamp \<Rightarrow> 'w ev_loop \<Rightarrow> bool" where
  "polls_backend flags waittime L \<longleftrightarrow>
     (iocnt L \<noteq> 0 \<or> waittime > 0) \<and> \<not> (flags AND EVRUN_NOPOLL \<noteq> 0 \<and> waittime \<le> 0)"

definition run_poll :: "'w env \<Rightarrow> u32 \<Rightarrow> 'w ev_loop \<Rightarrow> 'w ev_loop option" where
  "run_poll env flags L =
     (let prev_mn_now = mn_now L in
      Option.bind
        (if flags AND EVRUN_NOWAIT = 0 then map_option (\<lambda>L. L\<lparr>pipe_write_wanted := True\<rparr>) (time_update env EV_TSTAMP_HUGE L)
         else Some L)
        (\<lambda>L. let (waittime, sleeptime, L) = run_wait env flags prev_mn_now L;
                 L = L\<lparr>loop_count := loop_count L + 1, loop_done := EVBREAK_RECURSE\<rparr>
             in Option.bind (if polls_backend flags waittime L then env_poll env waittime L else Some L)
                  (\<lambda>L. let L = L\<lparr>loop_done := EVBREAK_CANCEL, pipe_write_wanted := False\<rparr>;
                           L = (if pipe_write_skipped L \<or> evpipe_pending L
                                then ev_feed_event PipeW EV_CUSTOM (chk (active (ws L PipeW) \<noteq> 0) L) else L)
                       in map_option (\<lambda>L. L\<lparr>now_set := False\<rparr>)
                            (if \<not> (now_set L \<and> flags AND EVRUN_NOWAIT \<noteq> 0)
                             then time_update env (if flags AND EVRUN_NOWAIT \<noteq> 0 then EV_TSTAMP_HUGE else fadd waittime sleeptime) L
                             else Some L))))"

definition run_tail :: "'w env \<Rightarrow> 'w ev_loop \<Rightarrow> 'w ev_loop option" where
  "run_tail env L =
     Option.bind (timers_reify L) (\<lambda>L.
       Option.bind (periodics_reify env L) (\<lambda>L.
         let L = idle_reify L;
             L = (if checkcnt L \<noteq> 0 then queue_events (checks L) (checkcnt L) EV_CHECK L else L)
         in invoke_pending env L))"

text \<open>A round; the flag tells whether it ran to its end or was left at the first test of \<^verbatim>\<open>loop_done\<close>.\<close>

definition run_round :: "'w env \<Rightarrow> u32 \<Rightarrow> 'w ev_loop \<Rightarrow> (bool \<times> 'w ev_loop) option" where
  "run_round env flags L =
     Option.bind (run_head env L) (\<lambda>L.
       if loop_done L \<noteq> 0 then Some (False, L)
       else
         Option.bind (if postfork L \<noteq> 0 then loop_fork env L else Some L) (\<lambda>L.
           Option.bind (fd_reify env L) (\<lambda>L.
             map_option (Pair True) (Option.bind (run_poll env flags L) (run_tail env)))))"

partial_function (option) run_rounds :: "'w env \<Rightarrow> u32 \<Rightarrow> 'w ev_loop \<Rightarrow> 'w ev_loop option" where
  "run_rounds env flags L =
     Option.bind (run_round env flags L) (\<lambda>(done, L).
       if done \<and> activecnt L \<noteq> 0 \<and> loop_done L = 0 \<and> flags AND (EVRUN_ONCE OR EVRUN_NOWAIT) = 0 then run_rounds env flags L else Some L)"

definition ev_run :: "'w env \<Rightarrow> u32 \<Rightarrow> 'w ev_loop \<Rightarrow> (int \<times> 'w ev_loop) option" where
  "ev_run env flags L =
     (let L = L\<lparr>loop_depth := loop_depth L + 1\<rparr>;
          L = chk (loop_done L \<noteq> EVBREAK_RECURSE) L;
          L = L\<lparr>loop_done := EVBREAK_CANCEL\<rparr>
      in Option.bind (invoke_pending env L) (\<lambda>L.
           map_option (\<lambda>L.
             let L = (if loop_done L = EVBREAK_ONE then L\<lparr>loop_done := EVBREAK_CANCEL\<rparr> else L);
                 L = L\<lparr>loop_depth := loop_depth L - 1\<rparr>
             in (activecnt L, L)) (run_rounds env flags L)))"

definition ev_break :: "nat \<Rightarrow> 'w ev_loop \<Rightarrow> 'w ev_loop" where
  "ev_break how L = L\<lparr>loop_done := how\<rparr>"

end
