(* ===== verification/Wakeup.thy ===== *)
theory Wakeup
  imports Run
begin

section \<open>The wake-up handshake between senders and a sleeping loop\<close>

text \<open>
  \<^verbatim>\<open>ev_async_send\<close> and \<^verbatim>\<open>ev_feed_signal\<close> run on any thread, or in a signal handler, while the loop goes to
  sleep or wakes up. This theory interleaves them at the granularity of one access to shared memory: the loads
  and stores of \<^verbatim>\<open>evpipe_write\<close>, of the wait of \<^verbatim>\<open>ev_run\<close> and of \<^verbatim>\<open>pipecb\<close>. The full fences of the source
  order each thread's accesses, so the interleavings are those of sequential consistency.

  A message source \<open>i\<close> is a signal number or an \<^verbatim>\<open>ev_async\<close> watcher, and \<open>fl i\<close> is the flag it raises.
  \<open>payload i\<close> is \<^verbatim>\<open>signals[i].pending\<close> or \<^verbatim>\<open>w->sent\<close>; \<open>pipe\<close> says that the wake pipe is readable.
\<close>

record wake =
  payload :: "nat \<Rightarrow> bool"
  flag :: "wake_flag \<Rightarrow> bool"
  skipped :: bool
  wanted :: bool
  pipe :: bool

subsection \<open>Senders\<close>

text \<open>The program counter of a sender: before the test of the flag, \dots, before the write to the pipe.\<close>

datatype spc = SIdle | STest nat | SRaise nat | SSkip nat | SWanted nat | SUnskip nat | SWrite nat

fun send_step :: "(nat \<Rightarrow> wake_flag) \<Rightarrow> spc \<Rightarrow> wake \<Rightarrow> spc \<times> wake" where
  "send_step fl SIdle s = (SIdle, s)"
| "send_step fl (STest i) s = (if flag s (fl i) then SIdle else SRaise i, s)"
| "send_step fl (SRaise i) s = (SSkip i, s\<lparr>flag := (flag s)(fl i := True)\<rparr>)"
| "send_step fl (SSkip i) s = (SWanted i, s\<lparr>skipped := True\<rparr>)"
| "send_step fl (SWanted i) s = (if wanted s then SUnskip i else SIdle, s)"
| "send_step fl (SUnskip i) s = (SWrite i, s\<lparr>skipped := False\<rparr>)"
| "send_step fl (SWrite i) s = (SIdle, s\<lparr>pipe := True\<rparr>)"

definition send_post :: "nat \<Rightarrow> wake \<Rightarrow> spc \<times> wake" where
  "send_post i s = (STest i, s\<lparr>payload := (payload s)(i := True)\<rparr>)"

text \<open>A sender that is not interrupted takes at most six more steps.\<close>

definition send_all :: "(nat \<Rightarrow> wake_flag) \<Rightarrow> nat \<Rightarrow> wake \<Rightarrow> spc \<times> wake" where
  "send_all fl i s = ((\<lambda>(p, s). send_step fl p s) ^^ 6) (send_post i s)"

subsection \<open>The loop\<close>

text \<open>
  \<open>LTop\<close>: about to set \<^verbatim>\<open>pipe_write_wanted\<close>; \<open>LLook\<close>: about to test \<^verbatim>\<open>pipe_write_skipped\<close>; \<open>LSleep\<close>: in a
  blocking poll; \<open>LUnwant\<close>: the poll returned; \<open>LTail\<close>, \<open>LTailFlag f\<close>: the test behind the poll, one load at a
  time; \<open>LDrain\<close>, \<open>LClear\<close>,
  \<open>LFlag f\<close>, \<open>LScan f k\<close>: \<^verbatim>\<open>pipecb\<close>, where \<open>LScan f k\<close> has the sources below \<open>k\<close> still to look at. The other
  work of the loop does not touch this state.
\<close>

datatype lpc = LTop | LLook | LSleep | LUnwant | LTail | LTailFlag wake_flag | LDrain | LClear | LFlag wake_flag | LScan wake_flag nat

fun after_scan :: "wake_flag \<Rightarrow> lpc" where
  "after_scan SigPending = LFlag AsyncPending"
| "after_scan AsyncPending = LTop"

record wsys =
  mem :: wake
  lp :: lpc
  snd_pc :: "nat \<Rightarrow> spc"
  delivered :: "nat list"    \<comment> \<open>sources delivered, newest first\<close>

inductive loop_step :: "(nat \<Rightarrow> wake_flag) \<Rightarrow> nat \<Rightarrow> wsys \<Rightarrow> wsys \<Rightarrow> bool" for fl n where
  want: "lp S = LTop \<Longrightarrow> loop_step fl n S (S\<lparr>mem := (mem S)\<lparr>wanted := True\<rparr>, lp := LLook\<rparr>)"
| nowait: "lp S = LTop \<Longrightarrow> loop_step fl n S (S\<lparr>lp := LUnwant\<rparr>)"
| awake: "lp S = LLook \<Longrightarrow> loop_step fl n S (S\<lparr>lp := LUnwant\<rparr>)"
| asleep: "lp S = LLook \<Longrightarrow> \<not> skipped (mem S) \<Longrightarrow> loop_step fl n S (S\<lparr>lp := LSleep\<rparr>)"
| readable: "lp S = LSleep \<Longrightarrow> pipe (mem S) \<Longrightarrow> loop_step fl n S (S\<lparr>lp := LUnwant\<rparr>)"
| timeout: "lp S = LSleep \<Longrightarrow> loop_step fl n S (S\<lparr>lp := LUnwant\<rparr>)"
| unwant: "lp S = LUnwant \<Longrightarrow> loop_step fl n S (S\<lparr>mem := (mem S)\<lparr>wanted := False\<rparr>, lp := LTail\<rparr>)"
| tail_skipped: "lp S = LTail \<Longrightarrow> loop_step fl n S (S\<lparr>lp := if skipped (mem S) then LDrain else LTailFlag SigPending\<rparr>)"
| tail_sig: "lp S = LTailFlag SigPending \<Longrightarrow>
    loop_step fl n S (S\<lparr>lp := if flag (mem S) SigPending then LDrain else LTailFlag AsyncPending\<rparr>)"
| tail_async: "lp S = LTailFlag AsyncPending \<Longrightarrow> loop_step fl n S (S\<lparr>lp := if flag (mem S) AsyncPending then LDrain else LTop\<rparr>)"
| tail_polled: "lp S = LTailFlag AsyncPending \<Longrightarrow> loop_step fl n S (S\<lparr>lp := LDrain\<rparr>)"
| drain: "lp S = LDrain \<Longrightarrow> loop_step fl n S (S\<lparr>mem := (mem S)\<lparr>pipe := False\<rparr>, lp := LClear\<rparr>)"
| nodrain: "lp S = LDrain \<Longrightarrow> loop_step fl n S (S\<lparr>lp := LClear\<rparr>)"
| clear: "lp S = LClear \<Longrightarrow> loop_step fl n S (S\<lparr>mem := (mem S)\<lparr>skipped := False\<rparr>, lp := LFlag SigPending\<rparr>)"
| flag_off: "lp S = LFlag f \<Longrightarrow> \<not> flag (mem S) f \<Longrightarrow> loop_step fl n S (S\<lparr>lp := after_scan f\<rparr>)"
| flag_on: "lp S = LFlag f \<Longrightarrow> flag (mem S) f \<Longrightarrow>
    loop_step fl n S (S\<lparr>mem := (mem S)\<lparr>flag := (flag (mem S))(f := False)\<rparr>, lp := LScan f n\<rparr>)"
| scan_done: "lp S = LScan f 0 \<Longrightarrow> loop_step fl n S (S\<lparr>lp := after_scan f\<rparr>)"
| scan_hit: "lp S = LScan f (Suc i) \<Longrightarrow> fl i = f \<Longrightarrow> payload (mem S) i \<Longrightarrow>
    loop_step fl n S (S\<lparr>mem := (mem S)\<lparr>payload := (payload (mem S))(i := False)\<rparr>, lp := LScan f i, delivered := i # delivered S\<rparr>)"
| scan_miss: "lp S = LScan f (Suc i) \<Longrightarrow> \<not> (fl i = f \<and> payload (mem S) i) \<Longrightarrow> loop_step fl n S (S\<lparr>lp := LScan f i\<rparr>)"

text \<open>One step of the system: the loop, a new send of source \<open>i\<close> by thread \<open>t\<close>, or a step of thread \<open>t\<close>.\<close>

inductive wake_step :: "(nat \<Rightarrow> wake_flag) \<Rightarrow> nat \<Rightarrow> wsys \<Rightarrow> wsys \<Rightarrow> bool" for fl n where
  loop: "loop_step fl n S S' \<Longrightarrow> wake_step fl n S S'"
| post: "snd_pc S t = SIdle \<Longrightarrow> i < n \<Longrightarrow> send_post i (mem S) = (p, m) \<Longrightarrow>
    wake_step fl n S (S\<lparr>mem := m, snd_pc := (snd_pc S)(t := p)\<rparr>)"
| send: "send_step fl (snd_pc S t) (mem S) = (p, m) \<Longrightarrow>
    wake_step fl n S (S\<lparr>mem := m, snd_pc := (snd_pc S)(t := p)\<rparr>)"

definition wake_start :: wsys where
  "wake_start = \<lparr>mem = \<lparr>payload = \<lambda>_. False, flag = \<lambda>_. False, skipped = False, wanted = False, pipe = False\<rparr>,
     lp = LTop, snd_pc = \<lambda>_. SIdle, delivered = []\<rparr>"

inductive wake_reach :: "(nat \<Rightarrow> wake_flag) \<Rightarrow> nat \<Rightarrow> wsys \<Rightarrow> bool" for fl n where
  start: "wake_reach fl n wake_start"
| step: "wake_reach fl n S \<Longrightarrow> wake_step fl n S S' \<Longrightarrow> wake_reach fl n S'"

inductive_cases wake_stepE: "wake_step fl n S S'"
inductive_cases loop_stepE: "loop_step fl n S S'"

subsection \<open>The invariant\<close>

text \<open>
  A posted message is announced by its flag, or its sender is about to raise the flag, or the scan that will find it
  is under way.
\<close>

definition announced :: "(nat \<Rightarrow> wake_flag) \<Rightarrow> wsys \<Rightarrow> nat \<Rightarrow> bool" where
  "announced fl S i \<longleftrightarrow> flag (mem S) (fl i) \<or> (\<exists>t. snd_pc S t \<in> {STest i, SRaise i}) \<or> (\<exists>k. lp S = LScan (fl i) k \<and> i < k)"

text \<open>
  A raised flag is noticed before the next sleep: \<^verbatim>\<open>pipe_write_skipped\<close> is set, the pipe is readable, a sender
  will do one or the other, or \<^verbatim>\<open>pipecb\<close> is about to test the flag.
\<close>

definition ahead :: "wake_flag \<Rightarrow> lpc \<Rightarrow> bool" where
  "ahead f p \<longleftrightarrow> p = LClear \<or> p = LFlag SigPending \<or> (f = AsyncPending \<and> (p = LFlag AsyncPending \<or> (\<exists>k. p = LScan SigPending k)))"

definition sender_in :: "(nat \<Rightarrow> spc) list \<Rightarrow> wsys \<Rightarrow> bool" where
  "sender_in cs S \<longleftrightarrow> (\<exists>t i. \<exists>c \<in> set cs. snd_pc S t = c i)"

definition noticed :: "wsys \<Rightarrow> wake_flag \<Rightarrow> bool" where
  "noticed S f \<longleftrightarrow> skipped (mem S) \<or> pipe (mem S) \<or> sender_in [SSkip, SUnskip, SWrite] S \<or> ahead f (lp S)"

definition wake_inv :: "(nat \<Rightarrow> wake_flag) \<Rightarrow> nat \<Rightarrow> wsys \<Rightarrow> bool" where
  "wake_inv fl n S \<longleftrightarrow>
     (\<forall>i. payload (mem S) i \<longrightarrow> i < n \<and> announced fl S i) \<and>
     (\<forall>f. flag (mem S) f \<longrightarrow> noticed S f) \<and>
     (lp S \<in> {LLook, LSleep} \<longrightarrow> wanted (mem S)) \<and>
     (\<forall>f. lp S = LSleep \<and> flag (mem S) f \<longrightarrow> pipe (mem S) \<or> sender_in [SSkip, SWanted, SUnskip, SWrite] S)"

lemmas wake_defs = wake_inv_def announced_def noticed_def ahead_def sender_in_def

lemma wake_flag_neq: "f \<noteq> SigPending \<longleftrightarrow> f = AsyncPending" "f \<noteq> AsyncPending \<longleftrightarrow> f = SigPending"
  by (cases f; simp)+

lemma wake_flag_all: "(\<forall>f. P f) \<longleftrightarrow> P SigPending \<and> P AsyncPending"
  by (metis wake_flag.exhaust)

lemma wake_inv_start: "wake_inv fl n wake_start"
  by (simp add: wake_defs wake_start_def)

lemma loop_keeps: "loop_step fl n S S' \<Longrightarrow> wake_inv fl n S \<Longrightarrow> wake_inv fl n S'"
proof (induction rule: loop_step.induct)
  case (flag_off S f)
  then show ?case by (cases f) (auto simp: wake_defs wake_flag_neq)
next
  case (flag_on S f)
  then show ?case by (cases f) (auto simp: wake_defs wake_flag_neq split: if_splits)
next
  case (scan_done S f)
  then show ?case by (cases f) (auto simp: wake_defs wake_flag_neq)
next
  case (scan_hit S f i)
  then show ?case by (cases f) (auto simp: wake_defs less_Suc_eq)
next
  case (scan_miss S f i)
  then show ?case by (cases f) (auto simp: wake_defs less_Suc_eq)
qed (auto simp: wake_defs)

text \<open>A thread that moves on changes the two existence conditions only as far as its own counter is concerned.\<close>

lemma sender_in_upd:
  "sender_in cs (S\<lparr>mem := m, snd_pc := (snd_pc S)(t := p)\<rparr>) \<longleftrightarrow>
     (\<exists>i. \<exists>c \<in> set cs. p = c i) \<or> (\<exists>u i. \<exists>c \<in> set cs. u \<noteq> t \<and> snd_pc S u = c i)"
  unfolding sender_in_def by simp (metis)

lemma ex_upd: "(\<exists>u. (if u = t then p else g u) = a \<or> (if u = t then p else g u) = b) \<longleftrightarrow> p = a \<or> p = b \<or> (\<exists>u. u \<noteq> t \<and> (g u = a \<or> g u = b))"
  by auto

lemma send_keeps:
  assumes inv: "wake_inv fl n S" and s: "send_step fl (snd_pc S t) (mem S) = (p, m)"
  shows "wake_inv fl n (S\<lparr>mem := m, snd_pc := (snd_pc S)(t := p)\<rparr>)"
proof -
  have A: "payload (mem S) i \<Longrightarrow> i < n \<and> (flag (mem S) (fl i) \<or> snd_pc S t = STest i \<or> snd_pc S t = SRaise i \<or>
      (\<exists>u. u \<noteq> t \<and> (snd_pc S u = STest i \<or> snd_pc S u = SRaise i)) \<or> (\<exists>k. lp S = LScan (fl i) k \<and> i < k))" for i
    using inv by (auto simp: wake_inv_def announced_def)
  have B: "skipped (mem S) \<or> pipe (mem S) \<or> ahead f (lp S) \<or>
      (\<exists>i. snd_pc S t = SSkip i \<or> snd_pc S t = SUnskip i \<or> snd_pc S t = SWrite i) \<or>
      (\<exists>u i. u \<noteq> t \<and> (snd_pc S u = SSkip i \<or> snd_pc S u = SUnskip i \<or> snd_pc S u = SWrite i))" if "flag (mem S) f" for f
  proof -
    have "noticed S f" using inv that by (simp add: wake_inv_def)
    then show ?thesis by (simp add: noticed_def sender_in_def) metis
  qed
  have C: "pipe (mem S) \<or>
      (\<exists>i. snd_pc S t = SSkip i \<or> snd_pc S t = SWanted i \<or> snd_pc S t = SUnskip i \<or> snd_pc S t = SWrite i) \<or>
      (\<exists>u i. u \<noteq> t \<and> (snd_pc S u = SSkip i \<or> snd_pc S u = SWanted i \<or> snd_pc S u = SUnskip i \<or> snd_pc S u = SWrite i))" if "lp S = LSleep" "flag (mem S) f" for f
  proof -
    have "pipe (mem S) \<or> sender_in [SSkip, SWanted, SUnskip, SWrite] S" using inv that unfolding wake_inv_def by blast
    then show ?thesis by (simp add: sender_in_def) metis
  qed
  have W: "lp S = LLook \<Longrightarrow> wanted (mem S)" "lp S = LSleep \<Longrightarrow> wanted (mem S)" using inv by (auto simp: wake_inv_def)
  show ?thesis
  proof (cases "snd_pc S t")
    case SIdle
    then have "p = SIdle" "m = mem S" using s by auto
    then have "S\<lparr>mem := m, snd_pc := (snd_pc S)(t := p)\<rparr> = S" using SIdle by (metis fun_upd_triv wsys.surjective wsys.update_convs(1,3))
    then show ?thesis using inv by simp
  qed (use s B C W in \<open>auto simp: wake_inv_def announced_def noticed_def sender_in_upd ex_upd split: if_splits dest!: A\<close>)
qed

lemma post_keeps:
  assumes inv: "wake_inv fl n S" and "snd_pc S t = SIdle" "i < n" and s: "send_post i (mem S) = (p, m)"
  shows "wake_inv fl n (S\<lparr>mem := m, snd_pc := (snd_pc S)(t := p)\<rparr>)"
proof -
  have s': "p = STest i" "m = (mem S)\<lparr>payload := (payload (mem S))(i := True)\<rparr>" using s by (auto simp: send_post_def)
  have o: "sender_in cs S \<longleftrightarrow> (\<exists>u j. \<exists>c \<in> set cs. u \<noteq> t \<and> snd_pc S u = c j)" if "\<forall>c \<in> set cs. \<forall>j. c j \<noteq> SIdle" for cs
    using that assms(2) unfolding sender_in_def by metis
  have k: "sender_in cs (S\<lparr>mem := m, snd_pc := (snd_pc S)(t := p)\<rparr>) \<longleftrightarrow> sender_in cs S"
    if "\<forall>c \<in> set cs. \<forall>j. c j \<noteq> SIdle \<and> c j \<noteq> STest i" for cs
    using o[of cs] that unfolding sender_in_upd s'(1) by metis
  have a: "announced fl S j \<Longrightarrow> announced fl (S\<lparr>mem := m, snd_pc := (snd_pc S)(t := p)\<rparr>) j" for j
    using assms(2) unfolding announced_def s' by simp (metis spc.distinct(1,3))
  have "announced fl (S\<lparr>mem := m, snd_pc := (snd_pc S)(t := p)\<rparr>) i" by (auto simp: announced_def s')
  then show ?thesis using inv a k[of "[SSkip, SUnskip, SWrite]"] k[of "[SSkip, SWanted, SUnskip, SWrite]"] assms(3)
    unfolding wake_inv_def noticed_def by (auto simp: s' split: if_splits)
qed

lemma wake_reach_inv: "wake_reach fl n S \<Longrightarrow> wake_inv fl n S"
proof (induction rule: wake_reach.induct)
  case (step S S')
  from step.hyps(2) show ?case by cases (use step.IH loop_keeps post_keeps send_keeps in blast)+
qed (rule wake_inv_start)

subsection \<open>A round without interference delivers everything\<close>

definition senders_idle :: "wsys \<Rightarrow> bool" where
  "senders_idle S \<longleftrightarrow> (\<forall>t. snd_pc S t = SIdle)"

text \<open>The flags the loop has not to look at any more in this round, with the senders idle.\<close>

definition seen :: "wake_flag \<Rightarrow> lpc \<Rightarrow> bool" where
  "seen f p \<longleftrightarrow> p = LTop \<or> (f = SigPending \<and> (p \<in> {LTailFlag AsyncPending, LFlag AsyncPending} \<or> (\<exists>k. p = LScan SigPending k))) \<or>
     (\<exists>k. p = LScan AsyncPending k)"

definition round_inv :: "wsys \<Rightarrow> bool" where
  "round_inv S \<longleftrightarrow> senders_idle S \<and> (\<forall>f. seen f (lp S) \<longrightarrow> \<not> flag (mem S) f)"

lemma round_step: "loop_step fl n S S' \<Longrightarrow> lp S \<notin> {LTop, LLook} \<Longrightarrow> round_inv S \<Longrightarrow> round_inv S'"
proof (induction rule: loop_step.induct)
  case (flag_off S f)
  then show ?case by (cases f) (auto simp: round_inv_def senders_idle_def seen_def wake_flag_all)
next
  case (flag_on S f)
  then show ?case by (cases f) (auto simp: round_inv_def senders_idle_def seen_def wake_flag_all)
next
  case (scan_done S f)
  then show ?case by (cases f) (auto simp: round_inv_def senders_idle_def seen_def wake_flag_all)
next
  case (scan_hit S f i)
  then show ?case by (cases f) (auto simp: round_inv_def senders_idle_def seen_def wake_flag_all)
next
  case (scan_miss S f i)
  then show ?case by (cases f) (auto simp: round_inv_def senders_idle_def seen_def wake_flag_all)
next
  case (tail_async S)
  have "flag (mem S) f \<longleftrightarrow> False" if "\<not> flag (mem S) AsyncPending" for f using tail_async that by (cases f) (auto simp: round_inv_def seen_def)
  then show ?case using tail_async by (auto simp: round_inv_def senders_idle_def seen_def)
qed (auto simp: round_inv_def senders_idle_def seen_def wake_flag_neq split: if_splits)

text \<open>
  What a round has delivered so far: of the messages \<open>P\<close> posted at its start those no longer posted, each once, in front of
  what had been delivered before.
\<close>

definition batch :: "(nat \<Rightarrow> bool) \<Rightarrow> nat list \<Rightarrow> wsys \<Rightarrow> bool" where
  "batch P D S \<longleftrightarrow> (\<forall>i. payload (mem S) i \<longrightarrow> P i) \<and>
     (\<exists>ds. delivered S = ds @ D \<and> distinct ds \<and> set ds = {i. P i \<and> \<not> payload (mem S) i})"

lemma batch_start: "batch (payload (mem S)) (delivered S) S"
  by (simp add: batch_def)

lemma batch_step: "loop_step fl n S S' \<Longrightarrow> batch P D S \<Longrightarrow> batch P D S'"
proof (induction rule: loop_step.induct)
  case (scan_hit S f i)
  then obtain ds where ds: "delivered S = ds @ D" "distinct ds" "set ds = {i. P i \<and> \<not> payload (mem S) i}" "\<forall>i. payload (mem S) i \<longrightarrow> P i"
    by (auto simp: batch_def)
  then show ?case unfolding batch_def using scan_hit.hyps
    by (intro conjI exI[of _ "i # ds"]) auto
qed (auto simp: batch_def)

text \<open>
  The steps of one round up to the top of the loop, counted, and how many may be left: two scans over the \<open>n\<close> sources and the
  straight-line code around them.
\<close>

inductive round_to :: "(nat \<Rightarrow> wake_flag) \<Rightarrow> nat \<Rightarrow> nat \<Rightarrow> wsys \<Rightarrow> wsys \<Rightarrow> bool" for fl n where
  here: "round_to fl n 0 S S"
| more: "round_to fl n k S T \<Longrightarrow> lp T \<noteq> LTop \<Longrightarrow> loop_step fl n T U \<Longrightarrow> round_to fl n (Suc k) S U"

fun steps_left :: "nat \<Rightarrow> lpc \<Rightarrow> nat" where
  "steps_left n LTop = 0"
| "steps_left n (LScan AsyncPending k) = k + 1"
| "steps_left n (LFlag AsyncPending) = n + 2"
| "steps_left n (LScan SigPending k) = n + k + 3"
| "steps_left n (LFlag SigPending) = 2 * n + 4"
| "steps_left n LClear = 2 * n + 5"
| "steps_left n LDrain = 2 * n + 6"
| "steps_left n (LTailFlag AsyncPending) = 2 * n + 7"
| "steps_left n (LTailFlag SigPending) = 2 * n + 8"
| "steps_left n LTail = 2 * n + 9"
| "steps_left n LUnwant = 2 * n + 10"
| "steps_left n LSleep = 2 * n + 11"
| "steps_left n LLook = 2 * n + 12"

lemma steps_decrease: "loop_step fl n S S' \<Longrightarrow> lp S \<noteq> LTop \<Longrightarrow> steps_left n (lp S') < steps_left n (lp S)"
proof (induction rule: loop_step.induct)
  case (flag_off S f)
  then show ?case by (cases f) auto
next
  case (flag_on S f)
  then show ?case by (cases f) auto
next
  case (scan_done S f)
  then show ?case by (cases f) auto
next
  case (scan_hit S f i)
  then show ?case by (cases f) auto
next
  case (scan_miss S f i)
  then show ?case by (cases f) auto
qed auto

lemma loop_not_stuck: "\<exists>U. loop_step fl n S U"
proof (cases "lp S")
  case (LTailFlag f)
  then show ?thesis by (cases f) (blast intro: loop_step.intros)+
next
  case (LScan f k)
  then show ?thesis by (cases k) (blast intro: loop_step.intros)+
qed (blast intro: loop_step.intros)+

lemma round_to_inv:
  assumes "round_to fl n k S T" "lp S \<notin> {LTop, LLook}" "wake_inv fl n S" "round_inv S" "batch P D S"
  shows "wake_inv fl n T \<and> round_inv T \<and> batch P D T \<and> lp T \<noteq> LLook \<and> k + steps_left n (lp T) \<le> steps_left n (lp S)"
  using assms
proof (induction rule: round_to.induct)
  case (more k S T U)
  then have T: "wake_inv fl n T" "round_inv T" "batch P D T" "lp T \<notin> {LTop, LLook}" "k + steps_left n (lp T) \<le> steps_left n (lp S)" by auto
  have "lp U \<noteq> LLook" using more.hyps(3) T(4) by (cases rule: loop_step.cases) (auto elim: after_scan.elims)
  then show ?case
    using loop_keeps[OF more.hyps(3) T(1)] round_step[OF more.hyps(3) T(4,2)] batch_step[OF more.hyps(3) T(3)]
      steps_decrease[OF more.hyps(3,2)] T(5) by auto
qed auto

lemma round_ends:
  assumes "lp S \<notin> {LTop, LLook}" "wake_inv fl n S" "round_inv S"
  shows "\<exists>k T. round_to fl n k S T \<and> lp T = LTop"
proof (rule ccontr)
  assume no: "\<not> ?thesis"
  have "\<exists>T. round_to fl n k S T" for k
  proof (induction k)
    case (Suc k)
    then obtain T where T: "round_to fl n k S T" by blast
    obtain U where "loop_step fl n T U" using loop_not_stuck by blast
    then show ?case using T no round_to.more by blast
  qed (blast intro: round_to.here)
  then obtain T where "round_to fl n (Suc (steps_left n (lp S))) S T" by blast
  then show False using round_to_inv[OF _ assms batch_start] by fastforce
qed

lemma round_delivers:
  assumes I: "wake_inv fl n S" and s: "senders_idle S" and l: "lp S \<in> {LSleep, LUnwant}" and r: "round_to fl n k S T"
  shows "k \<le> 2 * n + 11 \<and>
    (lp T = LTop \<longrightarrow> (\<forall>i. \<not> payload (mem T) i) \<and> (\<exists>ds. delivered T = ds @ delivered S \<and> distinct ds \<and> set ds = {i. payload (mem S) i}))"
proof -
  have "round_inv S" "lp S \<notin> {LTop, LLook}" "steps_left n (lp S) \<le> 2 * n + 11" using s l by (auto simp: round_inv_def seen_def)
  then have T: "wake_inv fl n T" "round_inv T" "batch (payload (mem S)) (delivered S) T" "k \<le> 2 * n + 11"
    using round_to_inv[OF r _ I _ batch_start] by fastforce+
  have "\<not> payload (mem T) i" if "lp T = LTop" for i
    using T(1,2) that by (auto simp: wake_inv_def announced_def round_inv_def senders_idle_def seen_def)
  then show ?thesis using T(3,4) unfolding batch_def by fastforce
qed

subsection \<open>The sequential routines are the uninterrupted senders\<close>

text \<open>Sources below \<^verbatim>\<open>EV_NSIG - 1\<close> are signals, the others \<^verbatim>\<open>ev_async\<close> watchers.\<close>

definition src_flag :: "nat \<Rightarrow> wake_flag" where
  "src_flag i = (if i < EV_NSIG - 1 then SigPending else AsyncPending)"

definition wake_of :: "('w \<Rightarrow> bool) \<Rightarrow> 'w ev_loop \<Rightarrow> wake" where
  "wake_of rd L = \<lparr>payload = (\<lambda>i. if i < EV_NSIG - 1 then sg_pending (signals L i) else w_sent (ws L (AsyncW (i - (EV_NSIG - 1))))),
     flag = (\<lambda>f. get_flag f L), skipped = pipe_write_skipped L, wanted = pipe_write_wanted L, pipe = rd (os L)\<rparr>"

lemma send_iter: "((\<lambda>(p, s). send_step fl p s) ^^ 6) x = (\<lambda>(p, s). send_step fl p s) ((\<lambda>(p, s). send_step fl p s)
  ((\<lambda>(p, s). send_step fl p s) ((\<lambda>(p, s). send_step fl p s) ((\<lambda>(p, s). send_step fl p s) ((\<lambda>(p, s). send_step fl p s) x)))))"
  by (simp add: eval_nat_numeral)

lemma get_set_flag [simp]: "get_flag g (set_flag f L) \<longleftrightarrow> g = f \<or> get_flag g L"
  by (cases f; cases g) auto

lemma set_flag_fields [simp]:
  "signals (set_flag f L) = signals L" "ws (set_flag f L) = ws L" "os (set_flag f L) = os L" "evpipe1 (set_flag f L) = evpipe1 L"
  "pipe_write_wanted (set_flag f L) = pipe_write_wanted L" "pipe_write_skipped (set_flag f L) = pipe_write_skipped L"
  by (cases f; simp)+

lemma get_flag_upd [simp]:
  "get_flag g (L\<lparr>pipe_write_skipped := b\<rparr>) = get_flag g L" "get_flag g (L\<lparr>os := x\<rparr>) = get_flag g L"
  "get_flag g (L\<lparr>signals := sg\<rparr>) = get_flag g L" "get_flag g (L\<lparr>ws := v\<rparr>) = get_flag g L" "get_flag g (L\<lparr>ok := b\<rparr>) = get_flag g L"
  by (cases g; simp)+

lemma evpipe_write_wake:
  assumes "\<forall>fd s. rd (env_write env fd s)"
  shows "wake_of rd (evpipe_write env f L) =
    (let s = wake_of rd L in if flag s f then s else if wanted s then s\<lparr>flag := (flag s)(f := True), skipped := False, pipe := True\<rparr>
       else s\<lparr>flag := (flag s)(f := True), skipped := True\<rparr>)"
  using assms by (auto simp: wake_of_def evpipe_write_def Let_def fun_eq_iff)

lemma send_all_eq:
  "send_all fl i s = (SIdle, let s = s\<lparr>payload := (payload s)(i := True)\<rparr>; f = fl i in
     if flag s f then s else if wanted s then s\<lparr>flag := (flag s)(f := True), skipped := False, pipe := True\<rparr>
     else s\<lparr>flag := (flag s)(f := True), skipped := True\<rparr>)"
  unfolding send_all_def send_iter send_post_def by (simp add: Let_def)

subsection \<open>Properties\<close>

lemma asleep_readable:
  assumes "wake_reach fl n S" "lp S = LSleep" "payload (mem S) i"
  shows "pipe (mem S) \<or> (\<exists>t. snd_pc S t \<noteq> SIdle)"
proof (rule ccontr)
  assume n: "\<not> ?thesis"
  then have idle: "snd_pc S t = SIdle" for t by auto
  note I = wake_reach_inv[OF assms(1)]
  have "announced fl S i" using I assms(3) unfolding wake_inv_def by blast
  then have "flag (mem S) (fl i)" using idle assms(2) by (simp add: announced_def)
  then have "pipe (mem S) \<or> sender_in [SSkip, SWanted, SUnskip, SWrite] S" using I assms(2) unfolding wake_inv_def by blast
  then show False using n idle by (simp add: sender_in_def)
qed

text \<open>
  C22: No wake-up is lost. Whatever the interleaving of any number of \<^verbatim>\<open>ev_async_send\<close> and signal handlers with the
  loop, if the loop is asleep in the backend while a message is posted, then the wake pipe is readable, so that the
  poll returns, or the sender of some message has not finished.
\<close>

theorem no_lost_wakeup:
  assumes "wake_reach fl n S" "lp S = LSleep" "payload (mem S) i"
  shows "pipe (mem S) \<or> (\<exists>t. snd_pc S t \<noteq> SIdle)"
  by (rule asleep_readable[OF assms])

definition ex_asleep :: wsys where
  "ex_asleep = wake_start\<lparr>mem := (mem wake_start)\<lparr>payload := (\<lambda>_. False)(0 := True), flag := (\<lambda>_. False)(AsyncPending := True), wanted := True, pipe := True\<rparr>,
     lp := LSleep\<rparr>"

lemma reach_send:
  "wake_reach fl n S \<Longrightarrow> send_step fl (snd_pc S t) (mem S) = (p, m) \<Longrightarrow> S' = S\<lparr>mem := m, snd_pc := (snd_pc S)(t := p)\<rparr> \<Longrightarrow> wake_reach fl n S'"
  using wake_reach.step wake_step.send by metis

lemma ex_asleep_reach: "wake_reach (\<lambda>_. AsyncPending) 1 ex_asleep"
proof -
  let ?fl = "\<lambda>_. AsyncPending" and ?m0 = "\<lambda>b p f s q. \<lparr>payload = (\<lambda>_. False)(0 := b), flag = (\<lambda>_. False)(AsyncPending := f), skipped = s, wanted = True, pipe = q\<rparr>"
  let ?S = "\<lambda>b p f s q. wake_start\<lparr>mem := ?m0 b p f s q, lp := LSleep, snd_pc := (\<lambda>_. SIdle)(0 := p)\<rparr>"
  have n: "(\<lambda>_. False)(0 := False) = (\<lambda>_ :: nat. False)" "(\<lambda>_. False)(AsyncPending := False) = (\<lambda>_. False)" "(\<lambda>_. SIdle)(0 := SIdle) = (\<lambda>_ :: nat. SIdle)" by auto
  have "loop_step ?fl 1 wake_start (wake_start\<lparr>mem := (mem wake_start)\<lparr>wanted := True\<rparr>, lp := LLook\<rparr>)" by (rule loop_step.want) (simp add: wake_start_def)
  then have 1: "wake_reach ?fl 1 (wake_start\<lparr>mem := (mem wake_start)\<lparr>wanted := True\<rparr>, lp := LLook\<rparr>)" using wake_reach.intros wake_step.loop by metis
  have "loop_step ?fl 1 (wake_start\<lparr>mem := (mem wake_start)\<lparr>wanted := True\<rparr>, lp := LLook\<rparr>) (wake_start\<lparr>mem := (mem wake_start)\<lparr>wanted := True\<rparr>, lp := LLook\<rparr>\<lparr>lp := LSleep\<rparr>)"
    by (rule loop_step.asleep) (simp_all add: wake_start_def)
  with 1 have "wake_reach ?fl 1 (wake_start\<lparr>mem := (mem wake_start)\<lparr>wanted := True\<rparr>, lp := LLook\<rparr>\<lparr>lp := LSleep\<rparr>)" using wake_reach.step wake_step.loop by metis
  then have 2: "wake_reach ?fl 1 (?S False SIdle False False False)" by (simp add: wake_start_def n)
  have "wake_step ?fl 1 (?S False SIdle False False False) (?S True (STest 0) False False False)"
    using wake_step.post[of "?S False SIdle False False False" 0 0 1 "STest 0" "?m0 True SIdle False False False" ?fl] by (simp add: send_post_def wake_start_def)
  then have "wake_reach ?fl 1 (?S True (STest 0) False False False)" using 2 wake_reach.step by blast
  then have "wake_reach ?fl 1 (?S True (SRaise 0) False False False)" by (rule reach_send[where t = 0]) (simp_all add: n wake_start_def)
  then have "wake_reach ?fl 1 (?S True (SSkip 0) True False False)" by (rule reach_send[where t = 0]) (simp_all add: n wake_start_def)
  then have "wake_reach ?fl 1 (?S True (SWanted 0) True True False)" by (rule reach_send[where t = 0]) (simp_all add: n wake_start_def)
  then have "wake_reach ?fl 1 (?S True (SUnskip 0) True True False)" by (rule reach_send[where t = 0]) (simp_all add: n wake_start_def)
  then have "wake_reach ?fl 1 (?S True (SWrite 0) True False False)" by (rule reach_send[where t = 0]) (simp_all add: n wake_start_def)
  then have "wake_reach ?fl 1 (?S True SIdle True False True)" by (rule reach_send[where t = 0]) (auto simp: n wake_start_def)
  then show ?thesis by (simp add: ex_asleep_def wake_start_def n)
qed

theorem no_lost_wakeup_witness: "lp ex_asleep = LSleep \<and> payload (mem ex_asleep) 0 \<and> pipe (mem ex_asleep)"
  using no_lost_wakeup[OF ex_asleep_reach, of 0] by (simp add: ex_asleep_def wake_start_def)

lemma distinct_singleton_set: "distinct xs \<Longrightarrow> set xs = {x} \<Longrightarrow> xs = [x]"
  by (cases xs) (auto simp: subset_singleton_iff)

text \<open>
  C23: A loop that is asleep, or that has just come back from the poll, delivers every message that was posted, once the
  senders are done. If it sleeps on a posted message the wake pipe is readable. A round then ends: its
  steps up to the top of the loop are at most \<open>2 * n + 11\<close> for \<open>n\<close> sources, and one that has not ended can
  make another step. When it has ended it has delivered exactly the messages that were posted, each once, and none is
  left behind for the next sleep, whether the message was announced by the pipe, by \<^verbatim>\<open>pipe_write_skipped\<close> or by its flag alone.
\<close>

theorem wakeup_delivers:
  assumes "wake_reach fl n S" "senders_idle S" "lp S \<in> {LSleep, LUnwant}"
  shows "(lp S = LSleep \<and> payload (mem S) i \<longrightarrow> pipe (mem S)) \<and>
    (\<exists>k T. round_to fl n k S T \<and> lp T = LTop) \<and>
    (\<forall>k T. round_to fl n k S T \<longrightarrow> k \<le> 2 * n + 11 \<and> (\<exists>U. loop_step fl n T U) \<and>
      (lp T = LTop \<longrightarrow> (\<forall>i. \<not> payload (mem T) i) \<and>
        (\<exists>ds. delivered T = ds @ delivered S \<and> distinct ds \<and> set ds = {i. payload (mem S) i})))"
proof -
  note I = wake_reach_inv[OF assms(1)]
  have l: "lp S \<notin> {LTop, LLook}" "round_inv S" using assms(2,3) by (auto simp: round_inv_def seen_def)
  have "pipe (mem S)" if "lp S = LSleep" "payload (mem S) i"
    using asleep_readable[OF assms(1) that] assms(2) by (auto simp: senders_idle_def)
  then show ?thesis using round_ends[OF l(1) I l(2)] round_delivers[OF I assms(2,3)] loop_not_stuck by blast
qed

theorem wakeup_delivers_witness:
  "\<exists>k T. round_to (\<lambda>_. AsyncPending) 1 k ex_asleep T \<and> lp T = LTop \<and> delivered T = [0] \<and> \<not> payload (mem T) 0"
proof -
  have s: "senders_idle ex_asleep" "lp ex_asleep \<in> {LSleep, LUnwant}" "delivered ex_asleep = []" "{i. payload (mem ex_asleep) i} = {0}"
    by (auto simp: senders_idle_def ex_asleep_def wake_start_def)
  note W = wakeup_delivers[OF ex_asleep_reach s(1,2), of 0]
  obtain k T where T: "round_to (\<lambda>_. AsyncPending) 1 k ex_asleep T" "lp T = LTop" using W by blast
  then obtain ds where "delivered T = ds" "distinct ds" "set ds = {0}" "\<forall>i. \<not> payload (mem T) i" using W s(3,4) by fastforce
  then show ?thesis using T by (intro exI[of _ k] exI[of _ T]) (auto simp: distinct_singleton_set)
qed

text \<open>
  C24: \<^verbatim>\<open>ev_async_send\<close> and \<^verbatim>\<open>ev_feed_signal\<close>, as sequential functions on the loop structure, are exactly a sender
  of the handshake that runs without interruption; a sender takes at most six steps after posting.
\<close>

theorem send_refines:
  assumes "\<forall>fd s. rd (env_write env fd s)"
  shows "send_all src_flag (EV_NSIG - 1 + k) (wake_of rd L) = (SIdle, wake_of rd (ev_async_send env (AsyncW k) L)) \<and>
    (j < EV_NSIG - 1 \<and> sg_loop (signals L j) = ThisLoop \<longrightarrow>
      send_all src_flag j (wake_of rd L) = (SIdle, wake_of rd (ev_feed_signal env (int j + 1) L)))"
proof -
  have a: "wake_of rd (upd_w (AsyncW k) (\<lambda>x. x\<lparr>w_sent := True\<rparr>) L) =
      (wake_of rd L)\<lparr>payload := (payload (wake_of rd L))(EV_NSIG - 1 + k := True)\<rparr>"
    by (auto simp: wake_of_def upd_w_def fun_eq_iff)
  have b: "wake_of rd (upd_sig j (\<lambda>g. g\<lparr>sg_pending := True\<rparr>) L) =
      (wake_of rd L)\<lparr>payload := (payload (wake_of rd L))(j := True)\<rparr>" if "j < EV_NSIG - 1"
    using that by (auto simp: wake_of_def upd_sig_def fun_eq_iff)
  have c: "ev_feed_signal env (int j + 1) L =
      evpipe_write env SigPending (upd_sig j (\<lambda>g. g\<lparr>sg_pending := True\<rparr>) L)"
    if "j < EV_NSIG - 1" "sg_loop (signals L j) = ThisLoop"
    using that by (simp add: ev_feed_signal_def Let_def chk_def sig_idx_def)
  show ?thesis
  proof (intro conjI impI)
    show "send_all src_flag (EV_NSIG - 1 + k) (wake_of rd L) = (SIdle, wake_of rd (ev_async_send env (AsyncW k) L))"
      unfolding ev_async_send_def evpipe_write_wake[OF assms] send_all_eq a by (simp add: src_flag_def Let_def)
    assume j: "j < EV_NSIG - 1 \<and> sg_loop (signals L j) = ThisLoop"
    show "send_all src_flag j (wake_of rd L) = (SIdle, wake_of rd (ev_feed_signal env (int j + 1) L))"
      unfolding c[OF conjunct1[OF j] conjunct2[OF j]] evpipe_write_wake[OF assms] send_all_eq b[OF conjunct1[OF j]]
      using j by (simp add: src_flag_def Let_def)
  qed
qed

theorem send_refines_witness:
  "let env = (undefined :: bool list env)\<lparr>env_write := \<lambda>fd s. True # s\<rparr>; L = loop_zero [] in
     send_all src_flag 64 (wake_of (\<lambda>s. s \<noteq> []) L) = (SIdle, wake_of (\<lambda>s. s \<noteq> []) (ev_async_send env (AsyncW 0) L))"
  using send_refines[of "\<lambda>s. s \<noteq> []" "(undefined :: bool list env)\<lparr>env_write := \<lambda>fd s. True # s\<rparr>" 0 "loop_zero []"] by (simp add: Let_def)

end
