(* ===== verification/Backend.thy ===== *)
theory Backend
  imports Run
begin

section \<open>What the backends share\<close>

text \<open>
  Error numbers, the conversion of a timeout to milliseconds, and the part of the loop structure that the contract
  \<open>fd_backend\<close> speaks about (\<open>core\<close>): an operation on a backend's own members leaves it alone.
\<close>

abbreviation (input) EPERM :: int where "EPERM \<equiv> 1"
abbreviation (input) EINTR :: int where "EINTR \<equiv> 4"
abbreviation (input) EBADF :: int where "EBADF \<equiv> 9"
abbreviation (input) ENOMEM :: int where "ENOMEM \<equiv> 12"
abbreviation (input) EEXIST :: int where "EEXIST \<equiv> 17"

text \<open>\<^verbatim>\<open>(int) EV_TS_TO_MSEC (t)\<close>: the conversion to \<^verbatim>\<open>int\<close> truncates.\<close>

definition EV_TS_TO_MSEC :: "ev_tstamp \<Rightarrow> int" where
  "EV_TS_TO_MSEC t = (let x = fadd (fmul t 1000) (rnd64 (9999 / 10000)) in if x < 0 then \<lceil>x\<rceil> else \<lfloor>x\<rfloor>)"

definition upd_os :: "('w \<Rightarrow> 'w) \<Rightarrow> 'w ev_loop \<Rightarrow> 'w ev_loop" where
  "upd_os f L = L\<lparr>os := f (os L)\<rparr>"

definition core :: "'w ev_loop \<Rightarrow> wstore \<times> (int \<Rightarrow> ANFD) \<times> nat \<times> (nat \<Rightarrow> int) \<times> nat \<times> nat \<times> int \<times> (nat \<Rightarrow> nat \<Rightarrow> ANPENDING) \<times> (nat \<Rightarrow> nat) \<times> (nat \<Rightarrow> nat)" where
  "core L = (ws L, anfds L, anfdmax L, fdchanges L, fdchangecnt L, fdchangemax L, iocnt L, pendings L, pendingcnt L, pendingmax L)"

lemma coreD:
  assumes "core L' = core L"
  shows "ws L' = ws L" "anfds L' = anfds L" "anfdmax L' = anfdmax L" "fdchanges L' = fdchanges L" "fdchangecnt L' = fdchangecnt L"
    "fdchangemax L' = fdchangemax L" "iocnt L' = iocnt L" "pendings L' = pendings L" "pendingcnt L' = pendingcnt L" "pendingmax L' = pendingmax L"
  using assms by (simp_all add: core_def)

lemma core_inv:
  assumes "core L' = core L"
  shows "fd_inv_from i L' = fd_inv_from i L" "fd_inv L' = fd_inv L" "pend_inv L' = pend_inv L" "pri_inv L' = pri_inv L"
proof -
  note c = coreD[OF assms]
  show "fd_inv_from i L' = fd_inv_from i L" "fd_inv L' = fd_inv L" "pri_inv L' = pri_inv L"
    by (simp_all add: fd_inv_from_def fd_inv_def fd_changes_def fd_in_def pri_inv_def c)
  show "pend_inv L' = pend_inv L" using pend_cong(1)[of L' L] pend_cong(1)[of L L'] c by auto
qed

lemma core_chk [simp]: "core (chk b L) = core L"
  by (simp add: core_def chk_def)

text \<open>A backend that only writes its own members fulfils the structural part of the contract.\<close>

lemma backend_contract:
  assumes I: "fd_inv_from i L" "pend_inv L" "pri_inv L" and m: "core M = core L" "ok M = ok L" "bi M"
    and s: "\<And>j e. j \<noteq> fd \<Longrightarrow> sv M j e = sv L j e" "sv L fd oev \<Longrightarrow> sv M fd nev"
  shows "\<exists>L'. Some M = Some L' \<and> fd_inv_from i L' \<and> pend_inv L' \<and> pri_inv L' \<and> bi L' \<and> ok L' = ok L \<and>
    (\<forall>j < fdchangecnt L. fdchanges L' j = fdchanges L j) \<and> fdchangecnt L \<le> fdchangecnt L' \<and> anfdmax L' = anfdmax L \<and>
    (\<forall>fd'. anfd_events (anfds L' fd') = anfd_events (anfds L fd')) \<and>
    (\<forall>fd' e. fd' \<noteq> fd \<longrightarrow> sv L' fd' e = sv L fd' e) \<and>
    (sv L fd oev \<longrightarrow> sv L' fd nev \<or> fd \<in> fdchanges L' ` {fdchangecnt L..<fdchangecnt L'})"
  using assms by (auto simp: core_inv[OF m(1)] coreD[OF m(1)])

end
