(* ===== verification/Backend_Poll.thy ===== *)
theory Backend_Poll
  imports Backend
begin

section \<open>The poll backend\<close>

text \<open>
  \<^verbatim>\<open>ev_poll.c\<close>: the set handed to \<^verbatim>\<open>poll\<close> is the dense array \<^verbatim>\<open>polls\<close>, and \<^verbatim>\<open>pollidxs\<close> maps a descriptor to its
  entry, or to -1. The abstraction is the partial map \<open>poll_map\<close> from descriptors to the mask the kernel is asked
  for. \<open>poll_env\<close> plugs the backend into the parameters of the core, and the backend fulfils the contract
  \<open>fd_backend\<close> of \<open>fd_reify\<close>.
\<close>

abbreviation (input) POLLIN :: u32 where "POLLIN \<equiv> 0x1"
abbreviation (input) POLLOUT :: u32 where "POLLOUT \<equiv> 0x4"
abbreviation (input) POLLERR :: u32 where "POLLERR \<equiv> 0x8"
abbreviation (input) POLLHUP :: u32 where "POLLHUP \<equiv> 0x10"
abbreviation (input) POLLNVAL :: u32 where "POLLNVAL \<equiv> 0x20"
abbreviation (input) POLLRDHUP :: u32 where "POLLRDHUP \<equiv> 0x2000"

subsection \<open>Operations\<close>

definition poll_events :: "u32 \<Rightarrow> u32" where
  "poll_events nev = (if nev AND EV_READ \<noteq> 0 then POLLIN OR POLLRDHUP else 0) OR (if nev AND EV_WRITE \<noteq> 0 then POLLOUT else 0)"

definition need_pollidxs :: "nat \<Rightarrow> 'w ev_loop \<Rightarrow> 'w ev_loop" where
  "need_pollidxs n L =
     (let mx = needsize 4 (pollidxmax L) n in
      L\<lparr>pollidxs := \<lambda>i. if int (pollidxmax L) \<le> i \<and> i < int mx then - 1 else pollidxs L i, pollidxmax := mx\<rparr>)"

definition poll_alloc :: "int \<Rightarrow> 'w ev_loop \<Rightarrow> 'w ev_loop" where
  "poll_alloc fd L =
     (let i = pollcnt L;
          L = L\<lparr>pollidxs := (pollidxs L)(fd := int i), pollcnt := i + 1\<rparr>;
          L = L\<lparr>pollmax := needsize 8 (pollmax L) (pollcnt L)\<rparr>;
          L = chk (i < pollmax L) L
      in L\<lparr>polls := (polls L)(i := (polls L i)\<lparr>pf_fd := fd\<rparr>)\<rparr>)"

definition poll_remove :: "int \<Rightarrow> nat \<Rightarrow> 'w ev_loop \<Rightarrow> 'w ev_loop" where
  "poll_remove fd i L =
     (let L = L\<lparr>pollidxs := (pollidxs L)(fd := - 1), pollcnt := pollcnt L - 1\<rparr> in
      if i < pollcnt L then
        let L = L\<lparr>polls := (polls L)(i := polls L (pollcnt L))\<rparr>
        in L\<lparr>pollidxs := (pollidxs L)(pf_fd (polls L i) := int i)\<rparr>
      else L)"

definition poll_modify :: "int \<Rightarrow> u32 \<Rightarrow> u32 \<Rightarrow> 'w ev_loop \<Rightarrow> 'w ev_loop" where
  "poll_modify fd oev nev L =
     (if oev = nev then L
      else
        let L = need_pollidxs (nat fd + 1) L;
            L = chk (0 \<le> fd \<and> fd < int (pollidxmax L)) L;
            L = (if pollidxs L fd < 0 then poll_alloc fd L else L);
            i = nat (pollidxs L fd);
            L = chk (pf_fd (polls L i) = fd) L
        in if nev \<noteq> 0 then L\<lparr>polls := (polls L)(i := (polls L i)\<lparr>pf_events := poll_events nev\<rparr>)\<rparr>
           else poll_remove fd i L)"

text \<open>The system call: the set and the timeout in milliseconds; result, \<^verbatim>\<open>errno\<close> and the \<^verbatim>\<open>revents\<close> members.\<close>

record 'w poll_os =
  sys_poll :: "pollfd list \<Rightarrow> int \<Rightarrow> 'w \<Rightarrow> (int \<times> int \<times> (nat \<Rightarrow> u32)) \<times> 'w"

definition poll_report :: "u32 \<Rightarrow> u32" where
  "poll_report r = (if r AND (POLLOUT OR POLLERR OR POLLHUP) \<noteq> 0 then EV_WRITE else 0) OR
     (if r AND (POLLIN OR POLLERR OR POLLHUP OR POLLRDHUP) \<noteq> 0 then EV_READ else 0)"

fun poll_scan :: "nat list \<Rightarrow> int \<Rightarrow> (nat \<Rightarrow> u32) \<Rightarrow> 'w ev_loop \<Rightarrow> 'w ev_loop option" where
  "poll_scan [] res rv L = Some L"
| "poll_scan (i # is) res rv L =
     (if res = 0 then Some L
      else if rv i \<noteq> 0 then
        Option.bind
          (if rv i AND POLLNVAL \<noteq> 0 then fd_kill (pf_fd (polls L i)) (chk False L)
           else Some (fd_event (pf_fd (polls L i)) (poll_report (rv i)) L))
          (poll_scan is (res - 1) rv)
      else poll_scan is res rv L)"

definition poll_poll :: "'w env \<Rightarrow> 'w poll_os \<Rightarrow> ev_tstamp \<Rightarrow> 'w ev_loop \<Rightarrow> 'w ev_loop option" where
  "poll_poll env sys timeout L =
     (let s = env_release env (os L);
          ((res, e, rv), s) = sys_poll sys (map (polls L) [0..<pollcnt L]) (EV_TS_TO_MSEC timeout) s;
          L = L\<lparr>os := env_acquire env s\<rparr>
      in if res < 0 then
           if e = EBADF then fd_ebadf env L
           else if e = ENOMEM \<and> env_syserr env = None then fd_enomem L
           else if e \<noteq> EINTR then ev_syserr env L
           else Some L
         else poll_scan [0..<pollcnt L] res rv L)"

definition poll_init :: "'w ev_loop \<Rightarrow> u32 \<times> 'w ev_loop" where
  "poll_init L = (EVBACKEND_POLL, L\<lparr>backend_mintime := rnd64 (1 / 1000), pollidxs := \<lambda>_. 0, pollidxmax := 0, pollmax := 0, pollcnt := 0\<rparr>)"

definition poll_env :: "'w poll_os \<Rightarrow> 'w env \<Rightarrow> 'w env" where
  "poll_env sys env = env\<lparr>env_modify := \<lambda>fd oev nev L. Some (poll_modify fd oev nev L), env_poll := poll_poll env sys\<rparr>"

subsection \<open>Invariant and abstraction\<close>

definition poll_ok :: "(nat \<Rightarrow> pollfd) \<Rightarrow> nat \<Rightarrow> (int \<Rightarrow> int) \<Rightarrow> nat \<Rightarrow> bool" where
  "poll_ok p c x xm \<longleftrightarrow>
     (\<forall>fd. 0 \<le> fd \<and> fd < int xm \<and> x fd \<ge> 0 \<longrightarrow> nat (x fd) < c \<and> pf_fd (p (nat (x fd))) = fd) \<and>
     (\<forall>i < c. 0 \<le> pf_fd (p i) \<and> pf_fd (p i) < int xm \<and> x (pf_fd (p i)) = int i)"

definition poll_inv :: "'w ev_loop \<Rightarrow> bool" where
  "poll_inv L \<longleftrightarrow> pollcnt L \<le> pollmax L \<and> poll_ok (polls L) (pollcnt L) (pollidxs L) (pollidxmax L)"

definition pmap :: "(nat \<Rightarrow> pollfd) \<Rightarrow> (int \<Rightarrow> int) \<Rightarrow> nat \<Rightarrow> int \<Rightarrow> u32 option" where
  "pmap p x xm fd = (if 0 \<le> fd \<and> fd < int xm \<and> x fd \<ge> 0 then Some (pf_events (p (nat (x fd)))) else None)"

definition poll_map :: "'w ev_loop \<Rightarrow> int \<Rightarrow> u32 option" where
  "poll_map L = pmap (polls L) (pollidxs L) (pollidxmax L)"

definition poll_serves :: "'w ev_loop \<Rightarrow> int \<Rightarrow> u32 \<Rightarrow> bool" where
  "poll_serves L fd e \<longleftrightarrow> poll_map L fd = (if e = 0 then None else Some (poll_events e))"

lemma poll_okD:
  assumes "poll_ok p c x xm"
  shows "0 \<le> fd \<Longrightarrow> fd < int xm \<Longrightarrow> 0 \<le> x fd \<Longrightarrow> nat (x fd) < c" "0 \<le> fd \<Longrightarrow> fd < int xm \<Longrightarrow> 0 \<le> x fd \<Longrightarrow> pf_fd (p (nat (x fd))) = fd"
    "i < c \<Longrightarrow> 0 \<le> pf_fd (p i)" "i < c \<Longrightarrow> pf_fd (p i) < int xm" "i < c \<Longrightarrow> x (pf_fd (p i)) = int i"
  using assms by (auto simp: poll_ok_def)

lemma pmap_grow:
  assumes "poll_ok p c x xm" "xm \<le> xm'"
  defines "x' \<equiv> \<lambda>i. if int xm \<le> i \<and> i < int xm' then - 1 else x i"
  shows "poll_ok p c x' xm'" "pmap p x' xm' = pmap p x xm"
  using assms poll_okD[OF assms(1)] by (fastforce simp: poll_ok_def x'_def, fastforce simp: pmap_def x'_def)

lemma poll_ok_alloc:
  assumes "poll_ok p c x xm" "0 \<le> fd" "fd < int xm" "x fd < 0"
  shows "poll_ok (p(c := (p c)\<lparr>pf_fd := fd, pf_events := m\<rparr>)) (Suc c) (x(fd := int c)) xm"
    "pmap (p(c := (p c)\<lparr>pf_fd := fd, pf_events := m\<rparr>)) (x(fd := int c)) xm = (pmap p x xm)(fd \<mapsto> m)"
proof -
  note d = poll_okD[OF assms(1)]
  have ne: "pf_fd (p i) \<noteq> fd" if "i < c" for i using d(5)[OF that] assms(4) by auto
  show "poll_ok (p(c := (p c)\<lparr>pf_fd := fd, pf_events := m\<rparr>)) (Suc c) (x(fd := int c)) xm"
    unfolding poll_ok_def
  proof (intro conjI allI impI)
    fix j assume "0 \<le> j \<and> j < int xm \<and> 0 \<le> (x(fd := int c)) j"
    then show "nat ((x(fd := int c)) j) < Suc c" "pf_fd ((p(c := (p c)\<lparr>pf_fd := fd, pf_events := m\<rparr>)) (nat ((x(fd := int c)) j))) = j"
      using d(1,2)[of j] by (auto split: if_splits)
  next
    fix i assume "i < Suc c"
    then show "0 \<le> pf_fd ((p(c := (p c)\<lparr>pf_fd := fd, pf_events := m\<rparr>)) i)" "pf_fd ((p(c := (p c)\<lparr>pf_fd := fd, pf_events := m\<rparr>)) i) < int xm"
      "(x(fd := int c)) (pf_fd ((p(c := (p c)\<lparr>pf_fd := fd, pf_events := m\<rparr>)) i)) = int i"
      using d(3-5)[of i] ne[of i] assms(2,3) by (auto simp: less_Suc_eq)
  qed
  show "pmap (p(c := (p c)\<lparr>pf_fd := fd, pf_events := m\<rparr>)) (x(fd := int c)) xm = (pmap p x xm)(fd \<mapsto> m)"
  proof
    fix j
    show "pmap (p(c := (p c)\<lparr>pf_fd := fd, pf_events := m\<rparr>)) (x(fd := int c)) xm j = ((pmap p x xm)(fd \<mapsto> m)) j"
      using d(1)[of j] assms(2,3) by (auto simp: pmap_def)
  qed
qed

lemma poll_ok_set:
  assumes "poll_ok p c x xm" "0 \<le> fd" "fd < int xm" "0 \<le> x fd"
  shows "poll_ok (p(nat (x fd) := (p (nat (x fd)))\<lparr>pf_events := m\<rparr>)) c x xm"
    "pmap (p(nat (x fd) := (p (nat (x fd)))\<lparr>pf_events := m\<rparr>)) x xm = (pmap p x xm)(fd \<mapsto> m)"
proof -
  note d = poll_okD[OF assms(1)]
  have pf: "pf_fd ((p(k := (p k)\<lparr>pf_events := m\<rparr>)) i) = pf_fd (p i)" for k i by simp
  show "poll_ok (p(nat (x fd) := (p (nat (x fd)))\<lparr>pf_events := m\<rparr>)) c x xm"
    using assms(1) by (simp only: poll_ok_def pf)
  have "nat (x j) \<noteq> nat (x fd)" if "0 \<le> j" "j < int xm" "0 \<le> x j" "j \<noteq> fd" for j
    using d(2)[OF that(1-3)] d(2)[OF assms(2-4)] that(4) by auto
  then show "pmap (p(nat (x fd) := (p (nat (x fd)))\<lparr>pf_events := m\<rparr>)) x xm = (pmap p x xm)(fd \<mapsto> m)"
    using assms(2-4) by (auto simp: pmap_def fun_eq_iff)
qed

lemma poll_ok_remove:
  assumes "poll_ok p c x xm" "0 \<le> fd" "fd < int xm" "0 \<le> x fd"
  defines "i \<equiv> nat (x fd)"
  defines "p' \<equiv> (if i < c - 1 then p(i := p (c - 1)) else p)"
    and "x' \<equiv> (if i < c - 1 then x(fd := - 1, pf_fd (p (c - 1)) := int i) else x(fd := - 1))"
  shows "poll_ok p' (c - 1) x' xm" "pmap p' x' xm = (pmap p x xm)(fd := None)"
proof -
  note d = poll_okD[OF assms(1)]
  have i: "i < c" "pf_fd (p i) = fd" "int i = x fd"
    using d(1,2)[OF assms(2-4)] assms(4) by (simp_all add: i_def)
  have inj: "j = k" if "j < c" "k < c" "pf_fd (p j) = pf_fd (p k)" for j k using d(5)[OF that(1)] d(5)[OF that(2)] that(3) by (metis nat_int)
  have l: "c - 1 < c" using i(1) by simp
  define q where "q = pf_fd (p (c - 1))"
  have q: "0 \<le> q" "q < int xm" "x q = int (c - 1)" unfolding q_def using d(3-5)[OF l] by auto
  show "poll_ok p' (c - 1) x' xm"
    unfolding poll_ok_def
  proof (intro conjI allI impI)
    fix j assume j: "0 \<le> j \<and> j < int xm \<and> 0 \<le> x' j"
    have "nat (x' j) < c - 1 \<and> pf_fd (p' (nat (x' j))) = j"
    proof (cases "i < c - 1 \<and> j = q")
      case True
      then show ?thesis by (simp add: x'_def p'_def q_def)
    next
      case False
      then have x: "x' j = x j" "j \<noteq> fd" using j by (auto simp: x'_def q_def split: if_splits)
      have b: "nat (x j) < c" "pf_fd (p (nat (x j))) = j" using d(1,2)[of j] j x by auto
      have ni: "nat (x j) \<noteq> i" using b(2) x(2) i(2) by auto
      have "nat (x j) \<noteq> c - 1"
      proof
        assume e: "nat (x j) = c - 1"
        then have "j = q" using b(2) by (simp add: q_def)
        then have "i = c - 1" using False i(1) by simp
        then show False using ni e by simp
      qed
      then show ?thesis using b ni x by (auto simp: p'_def)
    qed
    then show "nat (x' j) < c - 1" "pf_fd (p' (nat (x' j))) = j" by auto
  next
    fix k assume k: "k < c - 1"
    have kc: "k < c" using k by simp
    have "0 \<le> pf_fd (p' k) \<and> pf_fd (p' k) < int xm \<and> x' (pf_fd (p' k)) = int k"
    proof (cases "k = i")
      case True
      then show ?thesis using k q by (simp add: p'_def x'_def q_def)
    next
      case False
      then have "pf_fd (p k) \<noteq> fd" using inj[OF kc i(1)] i(2) by auto
      moreover have "pf_fd (p k) \<noteq> q" using inj[OF kc l] k by (auto simp: q_def)
      ultimately show ?thesis using False d(3-5)[OF kc] by (simp add: p'_def x'_def q_def)
    qed
    then show "0 \<le> pf_fd (p' k)" "pf_fd (p' k) < int xm" "x' (pf_fd (p' k)) = int k" by auto
  qed
  show "pmap p' x' xm = (pmap p x xm)(fd := None)"
  proof
    fix j
    show "pmap p' x' xm j = ((pmap p x xm)(fd := None)) j"
    proof (cases "j = fd")
      case True
      have "x' fd = - 1"
      proof (cases "i < c - 1")
        case lt: True
        then have "q \<noteq> fd" using inj[OF l i(1)] i(2) by (auto simp: q_def)
        then show ?thesis using lt by (simp add: x'_def q_def)
      qed (simp add: x'_def)
      then show ?thesis using True by (simp add: pmap_def)
    next
      case ne: False
      show ?thesis
      proof (cases "i < c - 1 \<and> j = q")
        case True
        then show ?thesis using ne q by (simp add: pmap_def p'_def x'_def q_def)
      next
        case False
        then have x: "x' j = x j" using ne by (auto simp: x'_def q_def)
        have "nat (x j) \<noteq> i" if "0 \<le> j" "j < int xm" "0 \<le> x j" using d(2)[OF that] ne i(2) by auto
        then show ?thesis using ne x by (auto simp: pmap_def p'_def)
      qed
    qed
  qed
qed

subsection \<open>\<^verbatim>\<open>poll_modify\<close> implements the update of the map\<close>

lemma poll_core [simp]:
  "core (need_pollidxs n L) = core L" "core (poll_alloc fd L) = core L" "core (poll_remove fd i L) = core L" "core (L\<lparr>polls := p\<rparr>) = core L"
  by (simp_all add: core_def need_pollidxs_def poll_alloc_def poll_remove_def Let_def chk_def)

lemma poll_modify_core [simp]: "core (poll_modify fd oev nev L) = core L"
  by (simp add: poll_modify_def Let_def)

lemma poll_modify_abs:
  assumes inv: "poll_inv L" and fd: "0 \<le> fd" and ne: "oev \<noteq> nev"
  shows "poll_inv (poll_modify fd oev nev L) \<and> ok (poll_modify fd oev nev L) = ok L \<and>
    poll_map (poll_modify fd oev nev L) = (poll_map L)(fd := if nev = 0 then None else Some (poll_events nev))"
proof -
  define G where "G = need_pollidxs (nat fd + 1) L"
  have mx: "pollidxmax G = needsize 4 (pollidxmax L) (nat fd + 1)" by (simp add: G_def need_pollidxs_def Let_def)
  have xm: "pollidxmax L \<le> pollidxmax G" unfolding mx by (rule needsize_mono) simp
  have "nat fd + 1 \<le> pollidxmax G" unfolding mx by (rule needsize_ge) simp
  then have fm: "fd < int (pollidxmax G)" using fd by linarith
  have G: "poll_ok (polls G) (pollcnt G) (pollidxs G) (pollidxmax G)" "poll_map G = poll_map L" "ok G = ok L" "pollcnt G \<le> pollmax G"
    using pmap_grow[of "polls L" "pollcnt L" "pollidxs L" "pollidxmax L" "pollidxmax G"] inv xm
    by (simp_all add: G_def need_pollidxs_def Let_def poll_inv_def poll_map_def)
  define A where "A = (if pollidxs G fd < 0 then poll_alloc fd G else G)"
  have A: "pollcnt A \<le> pollmax A" "poll_ok (polls A) (pollcnt A) (pollidxs A) (pollidxmax A)" "ok A = ok L" "0 \<le> pollidxs A fd"
      "fd < int (pollidxmax A)" "pmap (polls A) (pollidxs A) (pollidxmax A) = (poll_map L)(fd := pmap (polls A) (pollidxs A) (pollidxmax A) fd)"
  proof -
    let ?m = "pf_events (polls G (pollcnt G))"
    have "polls (poll_alloc fd G) = (polls G)(pollcnt G := (polls G (pollcnt G))\<lparr>pf_fd := fd, pf_events := ?m\<rparr>)"
      "pollidxs (poll_alloc fd G) = (pollidxs G)(fd := int (pollcnt G))" "pollcnt (poll_alloc fd G) = Suc (pollcnt G)"
      "pollidxmax (poll_alloc fd G) = pollidxmax G" "pollmax (poll_alloc fd G) = needsize 8 (pollmax G) (Suc (pollcnt G))"
      by (simp_all add: poll_alloc_def Let_def chk_def)
    note al = this
    have "Suc (pollcnt G) \<le> needsize 8 (pollmax G) (Suc (pollcnt G))" by (rule needsize_ge) simp
    then have "pollcnt G < needsize 8 (pollmax G) (Suc (pollcnt G))" by (rule Suc_le_lessD)
    then have "ok (poll_alloc fd G) = ok G" by (simp add: poll_alloc_def Let_def chk_def)
    note al = al this
    note po = poll_ok_alloc[OF G(1) fd fm, of ?m]
    note gm = G(2)[unfolded poll_map_def[of G]]
    show "pollcnt A \<le> pollmax A" "poll_ok (polls A) (pollcnt A) (pollidxs A) (pollidxmax A)" "ok A = ok L" "0 \<le> pollidxs A fd"
        "fd < int (pollidxmax A)"
      using po(1) G fm \<open>Suc (pollcnt G) \<le> _\<close> unfolding A_def by (auto simp: al simp del: needsize_ge)
    show "pmap (polls A) (pollidxs A) (pollidxmax A) = (poll_map L)(fd := pmap (polls A) (pollidxs A) (pollidxmax A) fd)"
    proof (cases "pollidxs G fd < 0")
      case True
      then have "pmap (polls A) (pollidxs A) (pollidxmax A) = (poll_map L)(fd \<mapsto> ?m)" using po(2)[OF True] by (simp add: A_def al gm)
      then show ?thesis by (metis fun_upd_same)
    next
      case False
      then show ?thesis by (simp add: A_def gm fun_upd_idem)
    qed
  qed
  define i where "i = nat (pollidxs A fd)"
  have pf: "pf_fd (polls A i) = fd" unfolding i_def by (rule poll_okD(2)[OF A(2) fd A(5,4)])
  have e: "poll_modify fd oev nev L =
      (if nev \<noteq> 0 then A\<lparr>polls := (polls A)(i := (polls A i)\<lparr>pf_events := poll_events nev\<rparr>)\<rparr> else poll_remove fd i A)"
  proof -
    have "chk (0 \<le> fd \<and> fd < int (pollidxmax G)) G = G" using fd fm by (simp add: chk_def)
    then show ?thesis using ne pf
      unfolding poll_modify_def Let_def G_def[symmetric] by (simp only: A_def[symmetric] i_def[symmetric] chk_True if_False simp_thms)
  qed
  show ?thesis
  proof (cases "nev = 0")
    case False
    then show ?thesis using poll_ok_set[OF A(2) fd A(5,4), of "poll_events nev"] A(1,3) arg_cong[OF A(6), of "\<lambda>g. g(fd \<mapsto> poll_events nev)"]
      by (simp add: e poll_inv_def poll_map_def i_def)
  next
    case True
    have r: "polls (poll_remove fd i A) = (if i < pollcnt A - 1 then (polls A)(i := polls A (pollcnt A - 1)) else polls A)"
      "pollidxs (poll_remove fd i A) = (if i < pollcnt A - 1 then (pollidxs A)(fd := - 1, pf_fd (polls A (pollcnt A - 1)) := int i) else (pollidxs A)(fd := - 1))"
      "pollcnt (poll_remove fd i A) = pollcnt A - 1" "pollmax (poll_remove fd i A) = pollmax A" "pollidxmax (poll_remove fd i A) = pollidxmax A"
      "ok (poll_remove fd i A) = ok A"
      by (simp_all add: poll_remove_def Let_def)
    have "(pmap (polls A) (pollidxs A) (pollidxmax A))(fd := None) = (poll_map L)(fd := None)" by (subst A(6)) simp
    note last = this
    have e0: "poll_modify fd oev nev L = poll_remove fd i A" using e True by simp
    note rm = poll_ok_remove[OF A(2) fd A(5,4), folded i_def]
    show ?thesis unfolding e0 poll_inv_def poll_map_def[of "poll_remove fd i A"] r using rm(1) rm(2) last A(1,3) True by simp
  qed
qed

interpretation poll: fd_backend "poll_env sys env" poll_serves poll_inv for sys :: "'w poll_os" and env :: "'w env"
proof
  fix i :: nat and L :: "'w ev_loop" and fd oev nev
  assume I: "fd_inv_from i L" "pend_inv L" "pri_inv L" "poll_inv L" "fd_in fd L"
  let ?M = "poll_modify fd oev nev L"
  have fd: "0 \<le> fd" using I(5) by (simp add: fd_in_def)
  have "poll_inv ?M \<and> ok ?M = ok L \<and> (oev \<noteq> nev \<longrightarrow> poll_map ?M = (poll_map L)(fd := if nev = 0 then None else Some (poll_events nev)))"
    using poll_modify_abs[OF I(4) fd, of oev nev] I(4) by (cases "oev = nev") (auto simp: poll_modify_def)
  moreover have "oev = nev \<Longrightarrow> ?M = L" by (simp add: poll_modify_def)
  ultimately show "\<exists>L'. env_modify (poll_env sys env) fd oev nev L = Some L' \<and> fd_inv_from i L' \<and> pend_inv L' \<and> pri_inv L' \<and> poll_inv L' \<and> ok L' = ok L \<and>
        (\<forall>j < fdchangecnt L. fdchanges L' j = fdchanges L j) \<and> fdchangecnt L \<le> fdchangecnt L' \<and> anfdmax L' = anfdmax L \<and>
        (\<forall>fd'. anfd_events (anfds L' fd') = anfd_events (anfds L fd')) \<and>
        (\<forall>fd' e. fd' \<noteq> fd \<longrightarrow> poll_serves L' fd' e = poll_serves L fd' e) \<and>
        (poll_serves L fd oev \<longrightarrow> poll_serves L' fd nev \<or> fd \<in> fdchanges L' ` {fdchangecnt L..<fdchangecnt L'})"
    using backend_contract[OF I(1-3), of ?M poll_inv fd poll_serves oev nev] by (auto simp: poll_env_def poll_serves_def)
qed (auto simp: poll_serves_def poll_map_def poll_inv_def upd_fd_def fun_eq_iff)

subsection \<open>Properties\<close>

text \<open>
  C25: \<^verbatim>\<open>poll_modify\<close> implements the update of a finite map: whatever the state of the dense array and its index, it
  sets or removes exactly the entry of the given descriptor, keeps array and index consistent, stays within the
  allocated arrays and passes its assertion.
\<close>

theorem poll_modify_refines:
  assumes "poll_inv L" "0 \<le> fd" "oev \<noteq> nev"
  shows "poll_inv (poll_modify fd oev nev L) \<and> ok (poll_modify fd oev nev L) = ok L \<and>
    poll_map (poll_modify fd oev nev L) = (poll_map L)(fd := if nev = 0 then None else Some (poll_events nev))"
  using poll_modify_abs[OF assms] .

theorem poll_modify_refines_witness:
  "poll_map (poll_modify 7 0 EV_READ (loop_zero ())) = (\<lambda>_. None)(7 := Some (POLLIN OR POLLRDHUP))"
proof -
  have i: "poll_inv (loop_zero ())" by (simp add: poll_inv_def poll_ok_def loop_zero_def)
  have z: "poll_map (loop_zero ()) = (\<lambda>_. None)" by (simp add: poll_map_def pmap_def loop_zero_def fun_eq_iff)
  from poll_modify_refines[OF i, of 7 0 EV_READ] z show ?thesis by (simp add: poll_events_def)
qed

end
