(* ===== verification/Backend_Select.thy ===== *)
theory Backend_Select
  imports Backend_Poll
begin

section \<open>The select backend\<close>

text \<open>
  \<^verbatim>\<open>ev_select.c\<close> without \<^verbatim>\<open>EV_SELECT_USE_FD_SET\<close>: the read and the write set are arrays of 64-bit words that grow
  with the largest descriptor.
\<close>

abbreviation (input) NFDBITS :: nat where "NFDBITS \<equiv> 64"

definition fd_word :: "int \<Rightarrow> nat" where "fd_word fd = nat fd div NFDBITS"

definition fd_mask :: "int \<Rightarrow> u64" where "fd_mask fd = push_bit (nat fd mod NFDBITS) 1"

definition vec_grow :: "nat \<Rightarrow> 'w ev_loop \<Rightarrow> 'w ev_loop" where
  "vec_grow new_max L =
     (if vec_max L < new_max then
        L\<lparr>vec_ri := \<lambda>i. if vec_max L \<le> i \<and> i < new_max then 0 else vec_ri L i,
          vec_wi := \<lambda>i. if vec_max L \<le> i \<and> i < new_max then 0 else vec_wi L i, vec_max := new_max\<rparr>
      else L)"

definition vec_put :: "bool \<Rightarrow> int \<Rightarrow> (nat \<Rightarrow> u64) \<Rightarrow> nat \<Rightarrow> u64" where
  "vec_put on fd v =
     (let v = v(fd_word fd := v (fd_word fd) OR fd_mask fd) in
      if \<not> on then v(fd_word fd := v (fd_word fd) AND NOT (fd_mask fd)) else v)"

definition select_modify :: "int \<Rightarrow> u32 \<Rightarrow> u32 \<Rightarrow> 'w ev_loop \<Rightarrow> 'w ev_loop" where
  "select_modify fd oev nev L =
     (if oev = nev then L
      else
        let L = vec_grow (fd_word fd + 1) L;
            L = chk (fd_word fd < vec_max L) L;
            L = L\<lparr>vec_ri := vec_put (nev AND EV_READ \<noteq> 0) fd (vec_ri L)\<rparr>
        in L\<lparr>vec_wi := vec_put (nev AND EV_WRITE \<noteq> 0) fd (vec_wi L)\<rparr>)"

text \<open>The system call: the two sets and the timeout; result, \<^verbatim>\<open>errno\<close> and the two sets it leaves.\<close>

record 'w select_os =
  sys_select :: "nat \<Rightarrow> (nat \<Rightarrow> u64) \<Rightarrow> (nat \<Rightarrow> u64) \<Rightarrow> ev_tstamp \<Rightarrow> 'w \<Rightarrow> (int \<times> int \<times> (nat \<Rightarrow> u64) \<times> (nat \<Rightarrow> u64)) \<times> 'w"

definition select_bit :: "nat \<Rightarrow> u64 \<Rightarrow> u64 \<Rightarrow> nat \<Rightarrow> 'w ev_loop \<Rightarrow> 'w ev_loop" where
  "select_bit word wr ww b L =
     (let m = push_bit b 1 :: u64;
          events = (if wr AND m \<noteq> 0 then EV_READ else 0) OR (if ww AND m \<noteq> 0 then EV_WRITE else 0)
      in if events \<noteq> 0 then fd_event (int (word * NFDBITS + b)) events L else L)"

definition select_word :: "(nat \<Rightarrow> u64) \<Rightarrow> (nat \<Rightarrow> u64) \<Rightarrow> nat \<Rightarrow> 'w ev_loop \<Rightarrow> 'w ev_loop" where
  "select_word ro wo word L =
     (if ro word \<noteq> 0 \<or> wo word \<noteq> 0 then fold (select_bit word (ro word) (wo word)) (rev [0..<NFDBITS]) L else L)"

text \<open>The retry loop on \<^verbatim>\<open>EINTR\<close>, at most 256 calls; \<open>n\<close> counts the calls left.\<close>

fun select_retry :: "'w env \<Rightarrow> 'w select_os \<Rightarrow> nat \<Rightarrow> ev_tstamp \<Rightarrow> 'w ev_loop \<Rightarrow> 'w ev_loop option" where
  "select_retry env sys 0 timeout L = Some L"
| "select_retry env sys (Suc n) timeout L =
     (let s = env_release env (os L);
          ((res, e, ro, wo), s) = sys_select sys (vec_max L * NFDBITS) (vec_ri L) (vec_wi L) timeout s;
          L = L\<lparr>os := env_acquire env s\<rparr>
      in if res \<ge> 0 then Some (fold (select_word ro wo) (rev [0..<vec_max L]) L)
         else if e = EBADF then fd_ebadf env L
         else if e = ENOMEM \<and> env_syserr env = None then fd_enomem L
         else if e = EINTR then select_retry env sys n timeout L
         else ev_syserr env L)"

definition select_poll :: "'w env \<Rightarrow> 'w select_os \<Rightarrow> ev_tstamp \<Rightarrow> 'w ev_loop \<Rightarrow> 'w ev_loop option" where
  "select_poll env sys timeout L = select_retry env sys 256 timeout L"

definition select_init :: "'w ev_loop \<Rightarrow> u32 \<times> 'w ev_loop" where
  "select_init L = (EVBACKEND_SELECT, L\<lparr>backend_mintime := rnd64 (1 / 1000000), vec_max := 0, vec_ri := \<lambda>_. 0, vec_wi := \<lambda>_. 0\<rparr>)"

definition select_env :: "'w select_os \<Rightarrow> 'w env \<Rightarrow> 'w env" where
  "select_env sys env = env\<lparr>env_modify := \<lambda>fd oev nev L. Some (select_modify fd oev nev L), env_poll := select_poll env sys\<rparr>"

subsection \<open>Abstraction\<close>

definition vec_has :: "(nat \<Rightarrow> u64) \<Rightarrow> nat \<Rightarrow> int \<Rightarrow> bool" where
  "vec_has v mx fd \<longleftrightarrow> 0 \<le> fd \<and> fd_word fd < mx \<and> bit (v (fd_word fd)) (nat fd mod NFDBITS)"

definition select_serves :: "'w ev_loop \<Rightarrow> int \<Rightarrow> u32 \<Rightarrow> bool" where
  "select_serves L fd e \<longleftrightarrow>
     vec_has (vec_ri L) (vec_max L) fd = (e AND EV_READ \<noteq> 0) \<and> vec_has (vec_wi L) (vec_max L) fd = (e AND EV_WRITE \<noteq> 0)"

lemma fd_word_inj: "0 \<le> fd \<Longrightarrow> 0 \<le> fd' \<Longrightarrow> fd_word fd = fd_word fd' \<Longrightarrow> nat fd mod NFDBITS = nat fd' mod NFDBITS \<Longrightarrow> fd = fd'"
  unfolding fd_word_def by (metis div_mult_mod_eq eq_nat_nat_iff)

lemma vec_put_has:
  assumes "0 \<le> fd" "fd_word fd < mx"
  shows "vec_has (vec_put on fd v) mx fd' = (if fd' = fd then on else vec_has v mx fd')"
proof (cases "fd' = fd")
  case True
  then show ?thesis using assms
    by (auto simp: vec_has_def vec_put_def Let_def fd_mask_def bit_or_iff bit_and_iff bit_not_iff bit_push_bit_iff bit_exp_iff possible_bit_def)
next
  case False
  then have "0 \<le> fd' \<Longrightarrow> fd_word fd' = fd_word fd \<Longrightarrow> nat fd' mod NFDBITS \<noteq> nat fd mod NFDBITS" using fd_word_inj assms(1) by metis
  then show ?thesis using False
    by (auto simp: vec_has_def vec_put_def Let_def fd_mask_def bit_or_iff bit_and_iff bit_not_iff bit_push_bit_iff possible_bit_def bit_exp_iff bit_1_iff)
qed

lemma vec_grow_has:
  "vec_has (vec_ri (vec_grow n L)) (vec_max (vec_grow n L)) = vec_has (vec_ri L) (vec_max L)"
  "vec_has (vec_wi (vec_grow n L)) (vec_max (vec_grow n L)) = vec_has (vec_wi L) (vec_max L)"
  by (auto simp: vec_grow_def vec_has_def fun_eq_iff)

lemma vec_grow_max: "n \<le> vec_max (vec_grow n L)"
  by (simp add: vec_grow_def)

lemma select_core [simp]:
  "core (vec_grow n L) = core L" "core (L\<lparr>vec_ri := v\<rparr>) = core L" "core (L\<lparr>vec_wi := v\<rparr>) = core L"
  by (simp_all add: core_def vec_grow_def)

lemma select_modify_abs:
  assumes "0 \<le> fd" "oev \<noteq> nev"
  shows "core (select_modify fd oev nev L) = core L" "ok (select_modify fd oev nev L) = ok L"
    "select_serves (select_modify fd oev nev L) fd' e = (if fd' = fd then (e AND EV_READ \<noteq> 0) = (nev AND EV_READ \<noteq> 0) \<and> (e AND EV_WRITE \<noteq> 0) = (nev AND EV_WRITE \<noteq> 0) else select_serves L fd' e)"
proof -
  let ?G = "vec_grow (fd_word fd + 1) L"
  have m: "fd_word fd < vec_max ?G" using vec_grow_max[of "fd_word fd + 1" L] by simp
  have e: "select_modify fd oev nev L = ?G\<lparr>vec_ri := vec_put (nev AND EV_READ \<noteq> 0) fd (vec_ri ?G), vec_wi := vec_put (nev AND EV_WRITE \<noteq> 0) fd (vec_wi ?G)\<rparr>"
    using assms(2) m by (simp add: select_modify_def Let_def chk_def)
  show "core (select_modify fd oev nev L) = core L" "ok (select_modify fd oev nev L) = ok L"
    unfolding e by (simp_all add: core_def vec_grow_def)
  show "select_serves (select_modify fd oev nev L) fd' e = (if fd' = fd then (e AND EV_READ \<noteq> 0) = (nev AND EV_READ \<noteq> 0) \<and> (e AND EV_WRITE \<noteq> 0) = (nev AND EV_WRITE \<noteq> 0) else select_serves L fd' e)"
    unfolding e select_serves_def using vec_put_has[OF assms(1) m] by (auto simp: vec_grow_has)
qed

interpretation select: fd_backend "select_env sys env" select_serves "\<lambda>_. True" for sys :: "'w select_os" and env :: "'w env"
proof
  fix i :: nat and L :: "'w ev_loop" and fd oev nev
  assume I: "fd_inv_from i L" "pend_inv L" "pri_inv L" "fd_in fd L"
  let ?M = "select_modify fd oev nev L"
  have fd: "0 \<le> fd" using I(4) by (simp add: fd_in_def)
  have "core ?M = core L \<and> ok ?M = ok L \<and> (\<forall>j e. j \<noteq> fd \<longrightarrow> select_serves ?M j e = select_serves L j e) \<and> (select_serves L fd oev \<longrightarrow> select_serves ?M fd nev)"
    using select_modify_abs[OF fd, of oev nev L] by (cases "oev = nev") (auto simp: select_modify_def)
  then show "\<exists>L'. env_modify (select_env sys env) fd oev nev L = Some L' \<and> fd_inv_from i L' \<and> pend_inv L' \<and> pri_inv L' \<and> True \<and> ok L' = ok L \<and>
        (\<forall>j < fdchangecnt L. fdchanges L' j = fdchanges L j) \<and> fdchangecnt L \<le> fdchangecnt L' \<and> anfdmax L' = anfdmax L \<and>
        (\<forall>fd'. anfd_events (anfds L' fd') = anfd_events (anfds L fd')) \<and>
        (\<forall>fd' e. fd' \<noteq> fd \<longrightarrow> select_serves L' fd' e = select_serves L fd' e) \<and>
        (select_serves L fd oev \<longrightarrow> select_serves L' fd nev \<or> fd \<in> fdchanges L' ` {fdchangecnt L..<fdchangecnt L'})"
    using backend_contract[OF I(1-3), of ?M "\<lambda>_. True" fd select_serves oev nev] by (auto simp: select_env_def)
qed (auto simp: select_serves_def upd_fd_def fun_eq_iff)

subsection \<open>Properties\<close>

text \<open>A backend whose modify routine leaves the core alone queues no descriptor again: \<^verbatim>\<open>fd_reify\<close> empties the change list.\<close>

definition quiet_modify :: "'w env \<Rightarrow> bool" where
  "quiet_modify env \<longleftrightarrow> (\<forall>fd oev nev L L'. env_modify env fd oev nev L = Some L' \<longrightarrow> core L' = core L)"

lemma poll_quiet: "quiet_modify (poll_env psys env)"
  by (auto simp: quiet_modify_def poll_env_def)

lemma select_quiet: "quiet_modify (select_env ssys env)"
  by (auto simp: quiet_modify_def select_env_def select_modify_def Let_def)

lemma reify_one_quiet:
  assumes "quiet_modify env" "fd_reify_one env i L = Some L'"
  shows "ws L' = ws L" "fdchangecnt L' = fdchangecnt L" "anfd_head (anfds L' fd) = anfd_head (anfds L fd)"
proof -
  define M where "M = upd_fd (fdchanges L i) (\<lambda>a. a\<lparr>anfd_events := want (ws L) (anfd_head (anfds L (fdchanges L i)))\<rparr>)
    (upd_fd (fdchanges L i) (\<lambda>a. a\<lparr>anfd_reify := 0\<rparr>) (chk (fd_in (fdchanges L i) L) (chk (i < fdchangemax L) L)))"
  have m: "ws M = ws L" "fdchangecnt M = fdchangecnt L" "anfd_head (anfds M fd) = anfd_head (anfds L fd)"
    by (simp_all add: M_def upd_fd_def chk_def)
  have "L' = M \<or> (\<exists>oev nev. env_modify env (fdchanges L i) oev nev M = Some L')"
    using assms(2) by (auto simp: fd_reify_one_def Let_def M_def upd_fd_def chk_def fd_in_def split: if_splits)
  then have "core L' = core M" using assms(1) unfolding quiet_modify_def by blast
  note c = coreD[OF this]
  show "ws L' = ws L" "fdchangecnt L' = fdchangecnt L" "anfd_head (anfds L' fd) = anfd_head (anfds L fd)" using c(1,2,5) m by simp_all
qed

lemma reify_quiet:
  assumes q: "quiet_modify env" and r: "fd_reify env L = Some L'"
  shows "fdchangecnt L' = 0" "ws L' = ws L" "anfd_head (anfds L' fd) = anfd_head (anfds L fd)"
proof -
  have u: "ws M = ws L \<and> fdchangecnt M = fdchangecnt L \<and> anfd_head (anfds M fd) = anfd_head (anfds L fd)"
    if "fd_reify_upto env n L = Some M" for n M
    using that
  proof (induction n arbitrary: M)
    case (Suc n)
    obtain K where K: "fd_reify_upto env n L = Some K" "fd_reify_one env n K = Some M" using Suc.prems by (auto split: bind_splits)
    note k = reify_one_quiet[OF q K(2)] and h = Suc.IH[OF K(1)]
    show ?case unfolding k(1,2) k(3)[of fd] by (rule h)
  qed simp
  obtain M where M: "fd_reify_upto env (fdchangecnt L) L = Some M" "L' = reify_shift (fdchangecnt L) M"
    using r by (auto simp: fd_reify_def)
  show "fdchangecnt L' = 0" "ws L' = ws L" "anfd_head (anfds L' fd) = anfd_head (anfds L fd)"
    using u[OF M(1)] by (simp_all add: M(2) reify_shift_def Let_def)
qed

text \<open>
  C26: \<^verbatim>\<open>fd_reify\<close> through the poll backend, and likewise through the select backend, brings the kernel's view in line with the
  watchers. The call returns, the change list is empty afterwards, and for every
  descriptor the set that will be handed to \<^verbatim>\<open>poll\<close> (or \<^verbatim>\<open>select\<close>) asks for exactly the union of the
  events the active watchers on its list want, provided it matched the recorded events (\<^verbatim>\<open>anfd->events\<close>) before; no watcher and no
  list changes, and all invariants are kept.
\<close>

theorem reify_syncs_backend:
  assumes I: "fd_inv L" "pend_inv L" "pri_inv L"
  shows "(poll_inv L \<and> (\<forall>fd. fd_in fd L \<longrightarrow> poll_serves L fd (ucast (anfd_events (anfds L fd)))) \<longrightarrow>
      (\<exists>L'. fd_reify (poll_env psys env) L = Some L' \<and> fd_inv L' \<and> pend_inv L' \<and> pri_inv L' \<and> poll_inv L' \<and> ok L' = ok L \<and>
        fdchangecnt L' = 0 \<and> ws L' = ws L \<and> (\<forall>fd. anfd_head (anfds L' fd) = anfd_head (anfds L fd)) \<and>
        (\<forall>fd. fd_in fd L' \<longrightarrow> poll_serves L' fd (ucast (want (ws L) (anfd_head (anfds L fd))))))) \<and>
    ((\<forall>fd. fd_in fd L \<longrightarrow> select_serves L fd (ucast (anfd_events (anfds L fd)))) \<longrightarrow>
      (\<exists>L'. fd_reify (select_env ssys env) L = Some L' \<and> fd_inv L' \<and> pend_inv L' \<and> pri_inv L' \<and> ok L' = ok L \<and>
        fdchangecnt L' = 0 \<and> ws L' = ws L \<and> (\<forall>fd. anfd_head (anfds L' fd) = anfd_head (anfds L fd)) \<and>
        (\<forall>fd. fd_in fd L' \<longrightarrow> select_serves L' fd (ucast (want (ws L) (anfd_head (anfds L fd)))))))"
proof (intro conjI impI)
  have c: "fdchangecnt M = 0 \<Longrightarrow> fd_changes M = {}" for M :: "'a ev_loop" by (simp add: fd_changes_def)
  assume p: "poll_inv L \<and> (\<forall>fd. fd_in fd L \<longrightarrow> poll_serves L fd (ucast (anfd_events (anfds L fd))))"
  then obtain L' where L': "fd_reify (poll_env psys env) L = Some L'" "fd_inv L'" "pend_inv L'" "pri_inv L'" "poll_inv L'" "ok L' = ok L"
    "\<forall>fd. fd_in fd L' \<longrightarrow> fd \<in> fd_changes L' \<or> poll_serves L' fd (ucast (want (ws L') (anfd_head (anfds L' fd))))"
    using poll.reify_sync[OF I, of psys env] by blast
  show "\<exists>L'. fd_reify (poll_env psys env) L = Some L' \<and> fd_inv L' \<and> pend_inv L' \<and> pri_inv L' \<and> poll_inv L' \<and> ok L' = ok L \<and>
      fdchangecnt L' = 0 \<and> ws L' = ws L \<and> (\<forall>fd. anfd_head (anfds L' fd) = anfd_head (anfds L fd)) \<and>
      (\<forall>fd. fd_in fd L' \<longrightarrow> poll_serves L' fd (ucast (want (ws L) (anfd_head (anfds L fd)))))"
    using L' reify_quiet[OF poll_quiet L'(1)] c[of L'] by (intro exI[of _ L']) simp
next
  have c: "fdchangecnt M = 0 \<Longrightarrow> fd_changes M = {}" for M :: "'a ev_loop" by (simp add: fd_changes_def)
  assume s: "\<forall>fd. fd_in fd L \<longrightarrow> select_serves L fd (ucast (anfd_events (anfds L fd)))"
  then obtain L' where L': "fd_reify (select_env ssys env) L = Some L'" "fd_inv L'" "pend_inv L'" "pri_inv L'" "ok L' = ok L"
    "\<forall>fd. fd_in fd L' \<longrightarrow> fd \<in> fd_changes L' \<or> select_serves L' fd (ucast (want (ws L') (anfd_head (anfds L' fd))))"
    using select.reify_sync[OF I TrueI, of ssys env] by blast
  show "\<exists>L'. fd_reify (select_env ssys env) L = Some L' \<and> fd_inv L' \<and> pend_inv L' \<and> pri_inv L' \<and> ok L' = ok L \<and>
      fdchangecnt L' = 0 \<and> ws L' = ws L \<and> (\<forall>fd. anfd_head (anfds L' fd) = anfd_head (anfds L fd)) \<and>
      (\<forall>fd. fd_in fd L' \<longrightarrow> select_serves L' fd (ucast (want (ws L) (anfd_head (anfds L fd)))))"
    using L' reify_quiet[OF select_quiet L'(1)] c[of L'] by (intro exI[of _ L']) simp
qed

definition fresh_fds :: "'w ev_loop \<Rightarrow> bool" where
  "fresh_fds L \<longleftrightarrow> (\<forall>fd. anfd_events (anfds L fd) = 0) \<and> (\<forall>w. pri_valid (ws L w)) \<and> pollcnt L = 0 \<and> pollidxmax L = 0 \<and> vec_max L = 0"

lemma ex_io_fresh: "fresh_fds ex_io"
  unfolding ex_io_def
proof (rule io_start_pres)
  show "fresh_fds (ev_start w 1 L)" if "fresh_fds L" for w and L :: "unit ev_loop"
    using that by (auto simp: fresh_fds_def base_defs pri_valid_def Let_def)
  show "fresh_fds (fd_change fd r L)" if "fresh_fds L" for fd r and L :: "unit ev_loop"
    using that by (auto simp: fresh_fds_def fd_change_def upd_fd_def chk_def Let_def)
  show "fresh_fds ex_io0" by (auto simp: fresh_fds_def ex_io0_def upd_w_def pri_valid_def w_zero_def loop_zero_def)
qed (auto simp: fresh_fds_def base_defs pri_valid_def need_anfds_def upd_fd_def anfd_zero_def Let_def)

lemma fresh_serves:
  assumes "fresh_fds L"
  shows "anfd_events (anfds L fd) = 0" "pri_inv L" "poll_inv L" "poll_serves L fd 0" "select_serves L fd 0"
  using assms by (simp_all add: fresh_fds_def pri_inv_def poll_inv_def poll_ok_def poll_serves_def poll_map_def pmap_def select_serves_def vec_has_def)

theorem reify_syncs_backend_witness:
  "(\<exists>L'. fd_reify (poll_env undefined undefined) ex_io = Some L' \<and> fdchangecnt L' = 0 \<and> poll_serves L' 4 EV_READ) \<and>
    (\<exists>L'. fd_reify (select_env undefined undefined) ex_io = Some L' \<and> fdchangecnt L' = 0 \<and> select_serves L' 4 EV_READ)"
proof -
  have l: "anfd_head (anfds ex_io 4) = [IoW 1]"
    using ex_io_facts(8) fd_listsD(1)[OF ex_io_facts(1)[unfolded fd_inv_def, THEN conjunct1], of 4] ex_io_facts(7)
    by (cases "anfd_head (anfds ex_io 4)") (auto simp: fd_in_def subset_singleton_iff)
  have w: "ucast (want (ws ex_io) [IoW 1]) = (EV_READ :: u32)" using ex_io_facts(5) by (simp add: want_def)
  note R = reify_syncs_backend[OF ex_io_facts(1,2) fresh_serves(2)[OF ex_io_fresh], of undefined undefined undefined]
  note f = fresh_serves[OF ex_io_fresh]
  have i: "fd_in 4 L'" if "fd_inv L'" "ws L' = ws ex_io" for L' :: "unit ev_loop"
    using fd_listsD(3)[OF that(1)[unfolded fd_inv_def, THEN conjunct1], of "IoW 1"] ex_io_facts(3,4) that(2) by (simp add: fd_in_def)
  obtain P where P: "fd_reify (poll_env undefined undefined) ex_io = Some P" "fd_inv P" "fdchangecnt P = 0" "ws P = ws ex_io"
    "\<forall>fd. fd_in fd P \<longrightarrow> poll_serves P fd (ucast (want (ws ex_io) (anfd_head (anfds ex_io fd))))"
    using R[THEN conjunct1] f by auto
  obtain S where S: "fd_reify (select_env undefined undefined) ex_io = Some S" "fd_inv S" "fdchangecnt S = 0" "ws S = ws ex_io"
    "\<forall>fd. fd_in fd S \<longrightarrow> select_serves S fd (ucast (want (ws ex_io) (anfd_head (anfds ex_io fd))))"
    using R[THEN conjunct2] f by auto
  have "poll_serves P 4 EV_READ" "select_serves S 4 EV_READ"
    using P(5)[rule_format, OF i[OF P(2,4)]] S(5)[rule_format, OF i[OF S(2,4)]] unfolding l w by simp_all
  then show ?thesis using P(1,3) S(1,3) by blast
qed

end
