(* ===== verification/Backend_Epoll.thy ===== *)
theory Backend_Epoll
  imports Backend
begin

section \<open>The epoll backend\<close>

text \<open>
  \<^verbatim>\<open>ev_epoll.c\<close> on Linux: registrations are changed lazily (a descriptor nobody watches stays registered), carry a
  generation number that detects stale ones, and descriptors that epoll refuses with \<^verbatim>\<open>EPERM\<close> are served by
  synthesised events. The system calls are the record \<open>epoll_os\<close>.
\<close>

abbreviation (input) EPOLLIN :: u32 where "EPOLLIN \<equiv> 0x1"
abbreviation (input) EPOLLOUT :: u32 where "EPOLLOUT \<equiv> 0x4"
abbreviation (input) EPOLLERR :: u32 where "EPOLLERR \<equiv> 0x8"
abbreviation (input) EPOLLHUP :: u32 where "EPOLLHUP \<equiv> 0x10"
abbreviation (input) EPOLLRDHUP :: u32 where "EPOLLRDHUP \<equiv> 0x2000"
abbreviation (input) EV_EMASK_EPERM :: u8 where "EV_EMASK_EPERM \<equiv> 0x80"
abbreviation (input) ELOOP :: int where "ELOOP \<equiv> 40"
abbreviation (input) ENOSYS :: int where "ENOSYS \<equiv> 38"

datatype epoll_op = EPOLL_CTL_ADD | EPOLL_CTL_MOD | EPOLL_CTL_DEL

text \<open>
  \<open>sys_epoll_ctl\<close> answers 0 or an error number. \<open>sys_epoll_wait\<close> gets the size of the receive array and either a
  timespec (\<^verbatim>\<open>epoll_pwait2\<close>) or milliseconds (\<^verbatim>\<open>epoll_wait\<close>), and answers the count, \<^verbatim>\<open>errno\<close> and the events.
\<close>

record 'w epoll_os =
  sys_epoll_create1 :: "'w \<Rightarrow> (int \<times> int) \<times> 'w"
  sys_epoll_create :: "'w \<Rightarrow> int \<times> 'w"
  sys_epoll_ctl :: "int \<Rightarrow> epoll_op \<Rightarrow> int \<Rightarrow> u32 \<Rightarrow> u64 \<Rightarrow> 'w \<Rightarrow> int \<times> 'w"
  sys_epoll_wait :: "int \<Rightarrow> nat \<Rightarrow> ev_tstamp + int \<Rightarrow> 'w \<Rightarrow> (int \<times> int \<times> (u32 \<times> u64) list) \<times> 'w"

subsection \<open>Operations\<close>

definition epoll_epoll_create :: "'w epoll_os \<Rightarrow> 'w ev_loop \<Rightarrow> int \<times> 'w ev_loop" where
  "epoll_epoll_create sys L =
     (let ((fd, e), s) = sys_epoll_create1 sys (os L);
          (fd, s) = (if fd < 0 \<and> (e = EINVAL \<or> e = ENOSYS) then sys_epoll_create sys s else (fd, s))
      in (if fd < 0 then - 1 else fd, L\<lparr>os := s\<rparr>))"

definition epoll_mask :: "u32 \<Rightarrow> u32" where
  "epoll_mask e = (if e AND EV_READ \<noteq> 0 then EPOLLIN OR EPOLLRDHUP else 0) OR (if e AND EV_WRITE \<noteq> 0 then EPOLLOUT else 0)"

definition epoll_data :: "int \<Rightarrow> u32 \<Rightarrow> u64" where
  "epoll_data fd gen = ucast (of_int fd :: u32) OR push_bit 32 (ucast gen)"

definition epoll_ctl :: "'w epoll_os \<Rightarrow> epoll_op \<Rightarrow> int \<Rightarrow> u32 \<Rightarrow> u64 \<Rightarrow> 'w ev_loop \<Rightarrow> int \<times> 'w ev_loop" where
  "epoll_ctl sys op fd ev data L = (let (r, s) = sys_epoll_ctl sys (backend_fd L) op fd ev data (os L) in (r, L\<lparr>os := s\<rparr>))"

definition dec_egen :: "int \<Rightarrow> 'w ev_loop \<Rightarrow> 'w ev_loop" where
  "dec_egen fd L = upd_fd fd (\<lambda>a. a\<lparr>anfd_egen := anfd_egen a - 1\<rparr>) L"

definition epoll_eperm_add :: "int \<Rightarrow> u8 \<Rightarrow> 'w ev_loop \<Rightarrow> 'w ev_loop" where
  "epoll_eperm_add fd oldmask L =
     (let L = upd_fd fd (\<lambda>a. a\<lparr>anfd_emask := EV_EMASK_EPERM\<rparr>) L in
      if oldmask AND EV_EMASK_EPERM = 0 then
        let L = L\<lparr>epoll_epermmax := needsize 4 (epoll_epermmax L) (epoll_epermcnt L + 1)\<rparr>;
            L = chk (epoll_epermcnt L < epoll_epermmax L) L
        in L\<lparr>epoll_eperms := (epoll_eperms L)(epoll_epermcnt L := fd), epoll_epermcnt := epoll_epermcnt L + 1\<rparr>
      else L)"

definition epoll_modify :: "'w epoll_os \<Rightarrow> int \<Rightarrow> u32 \<Rightarrow> u32 \<Rightarrow> 'w ev_loop \<Rightarrow> 'w ev_loop option" where
  "epoll_modify sys fd oev nev L =
     (if nev = 0 then Some L
      else
        let oldmask = anfd_emask (anfds L fd);
            L = chk (fd_in fd L) L;
            L = upd_fd fd (\<lambda>a. a\<lparr>anfd_emask := ucast nev, anfd_egen := anfd_egen a + 1\<rparr>) L;
            data = epoll_data fd (anfd_egen (anfds L fd));
            ev = epoll_mask nev;
            kill = (\<lambda>L. map_option (dec_egen fd) (fd_kill fd L));
            (r, L) = epoll_ctl sys (if oev \<noteq> 0 \<and> ucast oldmask \<noteq> nev then EPOLL_CTL_MOD else EPOLL_CTL_ADD) fd ev data L
        in if r = 0 then Some L
           else if r = ENOENT then
             let (r, L) = epoll_ctl sys EPOLL_CTL_ADD fd ev data L in if r = 0 then Some L else kill L
           else if r = EEXIST then
             if ucast oldmask = nev then Some (dec_egen fd L)
             else let (r, L) = epoll_ctl sys EPOLL_CTL_MOD fd ev data L in if r = 0 then Some L else kill L
           else if r = EPERM then Some (epoll_eperm_add fd oldmask L)
           else kill (chk (r \<noteq> EBADF \<and> r \<noteq> ELOOP \<and> r \<noteq> EINVAL) L))"

definition epoll_got :: "u32 \<Rightarrow> u32" where
  "epoll_got ev = (if ev AND (EPOLLOUT OR EPOLLERR OR EPOLLHUP) \<noteq> 0 then EV_WRITE else 0) OR
     (if ev AND (EPOLLIN OR EPOLLERR OR EPOLLHUP OR EPOLLRDHUP) \<noteq> 0 then EV_READ else 0)"

definition epoll_event_one :: "'w epoll_os \<Rightarrow> u32 \<times> u64 \<Rightarrow> 'w ev_loop \<Rightarrow> 'w ev_loop" where
  "epoll_event_one sys ed L =
     (let (ev, data) = ed; fd = sint (ucast data :: u32) in
      if fd < 0 \<or> fd \<ge> int (anfdmax L) then L
      else
        let want = anfd_events (anfds L fd); got = epoll_got ev in
        if anfd_egen (anfds L fd) \<noteq> ucast (drop_bit 32 data) then L\<lparr>postfork := postfork L OR 2\<rparr>
        else if got AND NOT (ucast want) \<noteq> 0 then
          let L = upd_fd fd (\<lambda>a. a\<lparr>anfd_emask := want\<rparr>) L;
              (r, L) = epoll_ctl sys (if want \<noteq> 0 then EPOLL_CTL_MOD else EPOLL_CTL_DEL) fd (epoll_mask (ucast want)) data L
          in if r \<noteq> 0 then L\<lparr>postfork := postfork L OR 2\<rparr> else fd_event fd got L
        else fd_event fd got L)"

fun epoll_eperm_scan :: "nat \<Rightarrow> 'w ev_loop \<Rightarrow> 'w ev_loop" where
  "epoll_eperm_scan 0 L = L"
| "epoll_eperm_scan (Suc i) L =
     epoll_eperm_scan i
       (let fd = epoll_eperms L i;
            L = chk (i < epoll_epermmax L \<and> fd_in fd L) L;
            events = anfd_events (anfds L fd) AND 3
        in if anfd_emask (anfds L fd) AND EV_EMASK_EPERM \<noteq> 0 \<and> events \<noteq> 0 then fd_event fd (ucast events) L
           else
             let L = L\<lparr>epoll_epermcnt := epoll_epermcnt L - 1\<rparr>;
                 L = L\<lparr>epoll_eperms := (epoll_eperms L)(i := epoll_eperms L (epoll_epermcnt L))\<rparr>
             in upd_fd fd (\<lambda>a. a\<lparr>anfd_emask := 0\<rparr>) L)"

definition epoll_poll :: "'w env \<Rightarrow> 'w epoll_os \<Rightarrow> ev_tstamp \<Rightarrow> 'w ev_loop \<Rightarrow> 'w ev_loop option" where
  "epoll_poll env sys timeout L =
     (let timeout = (if epoll_epermcnt L \<noteq> 0 then 0 else timeout);
          s = env_release env (os L);
          ((cnt, e, evs), s) =
            sys_epoll_wait sys (backend_fd L) (epoll_eventmax L)
              (if epoll_have_pwait2 L \<and> timeout > 0 then Inl timeout else Inr (EV_TS_TO_MSEC timeout)) s;
          L = L\<lparr>os := env_acquire env s\<rparr>
      in if cnt < 0 then (if e \<noteq> EINTR then ev_syserr env L else Some L)
         else
           let L = fold (epoll_event_one sys) (take (nat cnt) evs) L;
               L = (if nat cnt = epoll_eventmax L
                    then L\<lparr>epoll_eventmax := array_size 12 (epoll_eventmax L) (epoll_eventmax L + 1)\<rparr> else L)
           in Some (epoll_eperm_scan (epoll_epermcnt L) L))"

definition epoll_init :: "'w env \<Rightarrow> 'w epoll_os \<Rightarrow> 'w ev_loop \<Rightarrow> u32 \<times> 'w ev_loop" where
  "epoll_init env sys L =
     (let (fd, L) = epoll_epoll_create sys L;
          L = L\<lparr>backend_fd := fd\<rparr>
      in if backend_fd L = - 1 then (0, L)
         else
           let L = L\<lparr>backend_mintime := rnd64 (1 / 1000), epoll_eventmax := 64\<rparr>;
               ((cnt, e, _), s) = sys_epoll_wait sys (backend_fd L) (epoll_eventmax L) (Inl 0) (os L);
               L = L\<lparr>os := s, epoll_have_pwait2 := \<not> (cnt < 0 \<and> e = ENOSYS)\<rparr>;
               L = (if epoll_have_pwait2 L then L\<lparr>backend_mintime := rnd64 (1 / 1000000)\<rparr> else L)
           in (EVBACKEND_EPOLL, L))"

partial_function (option) epoll_recreate :: "'w env \<Rightarrow> 'w epoll_os \<Rightarrow> 'w ev_loop \<Rightarrow> 'w ev_loop option" where
  "epoll_recreate env sys L =
     (let (fd, L) = epoll_epoll_create sys L; L = L\<lparr>backend_fd := fd\<rparr> in
      if fd = - 1 then Option.bind (ev_syserr env L) (epoll_recreate env sys) else Some L)"

definition epoll_fork :: "'w env \<Rightarrow> 'w epoll_os \<Rightarrow> 'w ev_loop \<Rightarrow> 'w ev_loop option" where
  "epoll_fork env sys L = map_option fd_rearm_all (epoll_recreate env sys (L\<lparr>os := env_close env (backend_fd L) (os L)\<rparr>))"

definition epoll_destroy :: "'w ev_loop \<Rightarrow> 'w ev_loop" where
  "epoll_destroy L = L\<lparr>epoll_epermcnt := 0, epoll_epermmax := 0\<rparr>"

definition epoll_env :: "'w epoll_os \<Rightarrow> 'w env \<Rightarrow> 'w env" where
  "epoll_env sys env = env\<lparr>env_modify := epoll_modify sys, env_poll := epoll_poll env sys, env_backend_fork := epoll_fork env sys,
     env_backend_destroy := epoll_destroy\<rparr>"

end
