(* ===== verification/Backend_Iouring.thy ===== *)
theory Backend_Iouring
  imports Backend_Epoll
begin

section \<open>The io_uring backend\<close>

text \<open>
  \<^verbatim>\<open>ev_iouring.c\<close>: descriptors are watched by one-shot poll requests that travel to the kernel through a submission
  ring and back through a completion ring, both in memory shared with the kernel. The record \<open>uring\<close> holds the members
  of \<^verbatim>\<open>struct ev_loop\<close> that belong to this backend together with the shared words and ring entries they point to, and
  the rest of the outside state; it is the outside state of the loop, since the kernel may change it whenever it runs.
  Ring positions are unsigned 32-bit counters that wrap around. The system calls are the record \<open>uring_os\<close>.
\<close>

abbreviation (input) IOURING_QUEUE_DEPTH :: u32 where "IOURING_QUEUE_DEPTH \<equiv> 64"
abbreviation (input) USERDATA_REMOVE :: u64 where "USERDATA_REMOVE \<equiv> - 2"
abbreviation (input) IOURING_SQ_FLUSH_MAX_SPIN :: nat where "IOURING_SQ_FLUSH_MAX_SPIN \<equiv> 64"
abbreviation (input) IOURING_MAX_RING_BYTES :: u64 where "IOURING_MAX_RING_BYTES \<equiv> 33554432"
abbreviation (input) IOURING_CQ_DRAIN_BUDGET :: nat where "IOURING_CQ_DRAIN_BUDGET \<equiv> 4096"
abbreviation (input) IORING_SETUP_FLAGS :: u32 where "IORING_SETUP_FLAGS \<equiv> 0x300"  \<comment> \<open>\<^verbatim>\<open>COOP_TASKRUN | TASKRUN_FLAG\<close>\<close>
abbreviation (input) IORING_SQ_WORK :: u32 where "IORING_SQ_WORK \<equiv> 0x6"  \<comment> \<open>\<^verbatim>\<open>IORING_SQ_CQ_OVERFLOW | IORING_SQ_TASKRUN\<close>\<close>
abbreviation (input) IORING_ENTER_GETEVENTS :: u32 where "IORING_ENTER_GETEVENTS \<equiv> 1"
abbreviation (input) POLL_IN :: u32 where "POLL_IN \<equiv> 0x1"
abbreviation (input) POLL_OUT :: u32 where "POLL_OUT \<equiv> 0x4"
abbreviation (input) POLL_ERR :: u32 where "POLL_ERR \<equiv> 0x8"
abbreviation (input) POLL_HUP :: u32 where "POLL_HUP \<equiv> 0x10"
abbreviation (input) POLL_RDHUP :: u32 where "POLL_RDHUP \<equiv> 0x2000"
abbreviation (input) EAGAIN :: int where "EAGAIN \<equiv> 11"
abbreviation (input) ECANCELED :: int where "ECANCELED \<equiv> 125"
abbreviation (input) INT_MAX :: int where "INT_MAX \<equiv> 2147483647"

datatype uring_op = IORING_OP_NOP | IORING_OP_POLL_ADD | IORING_OP_POLL_REMOVE

record io_uring_sqe =
  sqe_opcode :: uring_op
  sqe_fd :: int
  sqe_addr :: u64
  sqe_poll_events :: u32
  sqe_user_data :: u64

record io_uring_cqe =
  cqe_user_data :: u64
  cqe_res :: u32

record io_uring_params =
  sq_entries :: u32
  cq_entries :: u32
  sq_off_head :: u32
  sq_off_tail :: u32
  sq_off_ring_mask :: u32
  sq_off_flags :: u32
  sq_off_array :: u32
  cq_off_head :: u32
  cq_off_tail :: u32
  cq_off_ring_mask :: u32
  cq_off_cqes :: u32

text \<open>The three mappings are \<open>True\<close> when mapped, \<open>False\<close> for \<^verbatim>\<open>MAP_FAILED\<close>.\<close>

record 'v uring =
  iouring_fd :: int
  iouring_to_submit :: u32
  iouring_sq_ring :: bool
  iouring_cq_ring :: bool
  iouring_sqes :: bool
  iouring_sq_ring_size :: u32
  iouring_cq_ring_size :: u32
  iouring_sqes_size :: u32
  iouring_sq_ring_entries :: u32
  iouring_cq_ring_entries :: u32
  iouring_cq_cqes :: u32
  iouring_tfd_to :: ev_tstamp
  iouring_tfd :: int
  sq_head :: u32                         \<comment> \<open>\<^verbatim>\<open>*iouring_sq_head\<close>, and so on\<close>
  sq_tail :: u32
  sq_ring_mask :: u32
  sq_flags :: u32
  sq_array :: "u32 \<Rightarrow> u32"
  sqes :: "u32 \<Rightarrow> io_uring_sqe"
  cq_head :: u32
  cq_tail :: u32
  cq_ring_mask :: u32
  cqes :: "u32 \<Rightarrow> io_uring_cqe"
  outside :: 'v

text \<open>
  \<open>sys_enter\<close> gets the ring descriptor, the number of entries to submit and the flags, and answers the return value and
  \<^verbatim>\<open>errno\<close>. \<open>sys_progress\<close> is what the kernel does to the shared memory between two of the loop's own accesses.
\<close>

record 'v uring_os =
  sys_setup :: "u32 \<Rightarrow> u32 \<Rightarrow> 'v uring \<Rightarrow> (int \<times> int \<times> io_uring_params) \<times> 'v uring"
  sys_enter :: "int \<Rightarrow> u32 \<Rightarrow> u32 \<Rightarrow> 'v uring \<Rightarrow> (int \<times> int) \<times> 'v uring"
  sys_progress :: "'v uring \<Rightarrow> 'v uring"
  sys_mmap :: "bool \<Rightarrow> int \<Rightarrow> u32 \<Rightarrow> u32 \<Rightarrow> 'v uring \<Rightarrow> int \<times> 'v uring"  \<comment> \<open>with \<^verbatim>\<open>MAP_POPULATE\<close>?, fd, region, length; 0 or \<^verbatim>\<open>errno\<close>\<close>
  sys_munmap :: "u32 \<Rightarrow> u32 \<Rightarrow> 'v uring \<Rightarrow> 'v uring"
  sys_tfd_create :: "'v uring \<Rightarrow> int \<times> 'v uring"
  sys_tfd_settime :: "int \<Rightarrow> ev_tstamp \<Rightarrow> 'v uring \<Rightarrow> bool \<times> 'v uring"  \<comment> \<open>failed?\<close>
  sys_tfd_read :: "int \<Rightarrow> 'v uring \<Rightarrow> (int \<times> int) \<times> 'v uring"
  sys_ring_poll :: "int \<Rightarrow> int \<Rightarrow> 'v uring \<Rightarrow> (int \<times> int \<times> u32) \<times> 'v uring"  \<comment> \<open>\<^verbatim>\<open>poll (&pfd, 1, pms)\<close>: result, \<^verbatim>\<open>errno\<close>, \<^verbatim>\<open>revents\<close>\<close>

subsection \<open>Mapping and checking the rings\<close>

partial_function (option) mmap_retry :: "'v uring_os \<Rightarrow> bool \<Rightarrow> int \<Rightarrow> u32 \<Rightarrow> u32 \<Rightarrow> 'v uring \<Rightarrow> (int \<times> 'v uring) option" where
  "mmap_retry sys populate fd off len U =
     (let (e, U) = sys_mmap sys populate fd off len U in if e = EINTR then mmap_retry sys populate fd off len U else Some (e, U))"

definition iouring_mmap_region :: "'v uring_os \<Rightarrow> int \<Rightarrow> u32 \<Rightarrow> u32 \<Rightarrow> 'v uring \<Rightarrow> (bool \<times> 'v uring) option" where
  "iouring_mmap_region sys fd off len U =
     Option.bind (mmap_retry sys True fd off len U) (\<lambda>(e, U).
       if e = 0 then Some (True, U)
       else if e = ENOMEM \<or> e = EINVAL \<or> e = EPERM \<or> e = EAGAIN
       then map_option (\<lambda>(e, U). (e = 0, U)) (mmap_retry sys False fd off len U)
       else Some (False, U))"

definition iouring_validate_ring_layout :: "io_uring_params \<Rightarrow> (u32 \<times> u32 \<times> u32) option" where
  "iouring_validate_ring_layout p =
     (if sq_entries p = 0 \<or> cq_entries p = 0 then None
      else
        let max_u32 = 0xffffffff :: u64;
            sq = ucast (sq_off_array p) + ucast (sq_entries p) * 4 :: u64;
            cq = ucast (cq_off_cqes p) + ucast (cq_entries p) * 16 :: u64;
            sqe = ucast (sq_entries p) * 64 :: u64
        in if sq < ucast (sq_off_array p) \<or> sq > IOURING_MAX_RING_BYTES \<or> sq > max_u32 then None
           else if cq < ucast (cq_off_cqes p) \<or> cq > IOURING_MAX_RING_BYTES \<or> cq > max_u32 then None
           else if sqe > IOURING_MAX_RING_BYTES \<or> sqe > max_u32 then None
           else Some (ucast sq, ucast cq, ucast sqe))"

definition iouring_validate_ptr_offsets :: "io_uring_params \<Rightarrow> u32 \<Rightarrow> u32 \<Rightarrow> bool" where
  "iouring_validate_ptr_offsets p sq_sz cq_sz \<longleftrightarrow>
     (let u = 4 :: u64; inside = (\<lambda>off n sz :: u32. ucast off + n \<le> (ucast sz :: u64)) in
      inside (sq_off_head p) u sq_sz \<and> inside (sq_off_tail p) u sq_sz \<and> inside (sq_off_ring_mask p) u sq_sz \<and>
      inside (sq_off_flags p) u sq_sz \<and> inside (sq_off_array p) (ucast (sq_entries p) * u) sq_sz \<and>
      inside (cq_off_head p) u cq_sz \<and> inside (cq_off_tail p) u cq_sz \<and> inside (cq_off_ring_mask p) u cq_sz \<and>
      inside (cq_off_cqes p) (ucast (cq_entries p) * 16) cq_sz)"

subsection \<open>Submission\<close>

definition iouring_account_consumed :: "u32 \<Rightarrow> 'v uring \<Rightarrow> 'v uring" where
  "iouring_account_consumed consumed U =
     (if consumed \<ge> iouring_to_submit U then U\<lparr>iouring_to_submit := 0\<rparr>
      else U\<lparr>iouring_to_submit := iouring_to_submit U - consumed\<rparr>)"

partial_function (option) iouring_enter_submit ::
  "'v uring env \<Rightarrow> 'v uring_os \<Rightarrow> u32 \<Rightarrow> 'v uring ev_loop \<Rightarrow> (int \<times> 'v uring ev_loop) option" where
  "iouring_enter_submit env sys to_submit L =
     (let U = env_release env (os L);
          ((r, e), U) = sys_enter sys (iouring_fd (os L)) to_submit 0 U;
          L = L\<lparr>os := env_acquire env U\<rparr>
      in if r < 0 \<and> e = EINTR then iouring_enter_submit env sys to_submit L
         else
           Option.bind (if r < 0 then ev_syserr env L else Some L) (\<lambda>L.
           Option.bind (if r = 0 \<and> to_submit \<noteq> 0 then ev_syserr env L else Some L) (\<lambda>L.
             Some (r, upd_os (iouring_account_consumed (word_of_int r)) L))))"

definition iouring_sqe_try :: "'v uring \<Rightarrow> u32 option" where
  "iouring_sqe_try U =
     (let tail = sq_tail U in
      if tail - sq_head U \<ge> iouring_sq_ring_entries U then None else Some (tail AND sq_ring_mask U))"

definition iouring_sq_flush :: "'v uring env \<Rightarrow> 'v uring_os \<Rightarrow> 'v uring ev_loop \<Rightarrow> 'v uring ev_loop option" where
  "iouring_sq_flush env sys L =
     (let n = iouring_to_submit (os L) in if n = 0 then Some L else map_option snd (iouring_enter_submit env sys n L))"

fun iouring_get_sqe_spin :: "'v uring env \<Rightarrow> 'v uring_os \<Rightarrow> nat \<Rightarrow> 'v uring ev_loop \<Rightarrow> (u32 option \<times> 'v uring ev_loop) option" where
  "iouring_get_sqe_spin env sys 0 L = map_option (\<lambda>L. (None, L)) (ev_syserr env L)"
| "iouring_get_sqe_spin env sys (Suc n) L =
     (case iouring_sqe_try (os L) of
        Some i \<Rightarrow> Some (Some i, L)
      | None \<Rightarrow> Option.bind (iouring_sq_flush env sys L) (iouring_get_sqe_spin env sys n))"

definition iouring_get_sqe :: "'v uring env \<Rightarrow> 'v uring_os \<Rightarrow> 'v uring ev_loop \<Rightarrow> (u32 option \<times> 'v uring ev_loop) option" where
  "iouring_get_sqe env sys = iouring_get_sqe_spin env sys IOURING_SQ_FLUSH_MAX_SPIN"

text \<open>The entry is written at the index \<^verbatim>\<open>iouring_sqe_try\<close> found; \<^verbatim>\<open>submit_sqe\<close> publishes it.\<close>

definition put_sqe :: "u32 \<Rightarrow> io_uring_sqe \<Rightarrow> 'v uring ev_loop \<Rightarrow> 'v uring ev_loop" where
  "put_sqe i e L = upd_os (\<lambda>U. U\<lparr>sqes := (sqes U)(i := e)\<rparr>) (chk (i < iouring_sq_ring_entries (os L)) L)"

definition submit_sqe :: "'v uring ev_loop \<Rightarrow> 'v uring ev_loop" where
  "submit_sqe L =
     (let index = sq_tail (os L) AND sq_ring_mask (os L) in
      upd_os (\<lambda>U. U\<lparr>sq_array := (sq_array U)(index := index), sq_tail := sq_tail U + 1, iouring_to_submit := iouring_to_submit U + 1\<rparr>)
        (chk (index < iouring_sq_ring_entries (os L)) L))"

definition sqe_remove :: "int \<Rightarrow> u32 \<Rightarrow> io_uring_sqe" where
  "sqe_remove fd egen = \<lparr>sqe_opcode = IORING_OP_POLL_REMOVE, sqe_fd = fd, sqe_addr = epoll_data fd egen, sqe_poll_events = 0,
     sqe_user_data = USERDATA_REMOVE\<rparr>"

definition sqe_add :: "int \<Rightarrow> u32 \<Rightarrow> u32 \<Rightarrow> io_uring_sqe" where
  "sqe_add fd nev egen = \<lparr>sqe_opcode = IORING_OP_POLL_ADD, sqe_fd = fd, sqe_addr = 0,
     sqe_poll_events = (if nev AND EV_READ \<noteq> 0 then POLL_IN OR POLL_RDHUP else 0) OR (if nev AND EV_WRITE \<noteq> 0 then POLL_OUT else 0),
     sqe_user_data = epoll_data fd egen\<rparr>"

definition iouring_modify_remove :: "'v uring env \<Rightarrow> 'v uring_os \<Rightarrow> int \<Rightarrow> 'v uring ev_loop \<Rightarrow> (bool \<times> 'v uring ev_loop) option" where
  "iouring_modify_remove env sys fd L =
     map_option (\<lambda>(sqe, L).
       case sqe of
         None \<Rightarrow> (False, L)
       | Some i \<Rightarrow> (True, upd_fd fd (\<lambda>a. a\<lparr>anfd_egen := anfd_egen a + 1\<rparr>) (submit_sqe (put_sqe i (sqe_remove fd (anfd_egen (anfds L fd))) L))))
       (iouring_get_sqe env sys L)"

definition iouring_modify_add :: "'v uring env \<Rightarrow> 'v uring_os \<Rightarrow> int \<Rightarrow> u32 \<Rightarrow> 'v uring ev_loop \<Rightarrow> 'v uring ev_loop option" where
  "iouring_modify_add env sys fd nev L =
     map_option (\<lambda>(sqe, L).
       case sqe of
         None \<Rightarrow> L
       | Some i \<Rightarrow> submit_sqe (put_sqe i (sqe_add fd nev (anfd_egen (anfds L fd))) L))
       (iouring_get_sqe env sys L)"

definition iouring_modify :: "'v uring env \<Rightarrow> 'v uring_os \<Rightarrow> int \<Rightarrow> u32 \<Rightarrow> u32 \<Rightarrow> 'v uring ev_loop \<Rightarrow> 'v uring ev_loop option" where
  "iouring_modify env sys fd oev nev L =
     Option.bind (if oev \<noteq> 0 then iouring_modify_remove env sys fd (chk (fd_in fd L) L) else Some (True, L)) (\<lambda>(go, L).
       if go \<and> nev \<noteq> 0 then iouring_modify_add env sys fd nev (chk (fd_in fd L) L) else Some L)"

subsection \<open>Completions\<close>

text \<open>A one-shot poll request is over: record no registration and have \<^verbatim>\<open>fd_reify\<close> submit it again.\<close>

definition iouring_rearm :: "int \<Rightarrow> 'w ev_loop \<Rightarrow> 'w ev_loop" where
  "iouring_rearm fd L = fd_change fd (ucast EV_ANFD_REIFY) (upd_fd fd (\<lambda>a. a\<lparr>anfd_events := 0\<rparr>) L)"

definition cqe_events :: "u32 \<Rightarrow> u32" where
  "cqe_events res = (if res AND (POLL_IN OR POLL_RDHUP) \<noteq> 0 then EV_READ else 0) OR (if res AND POLL_OUT \<noteq> 0 then EV_WRITE else 0) OR
     (if res AND (POLL_ERR OR POLL_HUP) \<noteq> 0 then EV_READ OR EV_WRITE else 0)"

definition cqe_one :: "'w env \<Rightarrow> io_uring_cqe \<Rightarrow> 'w ev_loop \<Rightarrow> 'w ev_loop option" where
  "cqe_one env c L =
     (let user_data = cqe_user_data c; fd = sint (ucast user_data :: u32); res = sint (cqe_res c); ev = cqe_events (cqe_res c) in
      if user_data = USERDATA_REMOVE then Some L
      else if fd < 0 \<or> fd \<ge> int (anfdmax L) then Some L
      else if anfd_egen (anfds L fd) \<noteq> ucast (drop_bit 32 user_data) then Some L
      else if res \<le> 0 then
        if res = - EBADF then fd_kill fd L
        else if res = 0 \<or> res = - ECANCELED \<or> res = - EINTR \<or> res = - ENOENT then Some (iouring_rearm fd L)
        else ev_syserr env L
      else if ev \<noteq> 0 then Some (iouring_rearm fd (fd_event fd ev L))
      else Some L)"

fun cq_drain_from :: "'v uring env \<Rightarrow> 'v uring_os \<Rightarrow> u32 \<Rightarrow> nat \<Rightarrow> u32 \<Rightarrow> 'v uring ev_loop \<Rightarrow> (u32 \<times> 'v uring ev_loop) option" where
  "cq_drain_from env sys msk left head L =
     (let L = upd_os (sys_progress sys) L in
      if head = cq_tail (os L) then Some (head, L)
      else case left of
        0 \<Rightarrow> Some (head, L)
      | Suc left \<Rightarrow> Option.bind (cqe_one env (cqes (os L) (head AND msk)) (chk (head AND msk < iouring_cq_ring_entries (os L)) L))
                     (cq_drain_from env sys msk left (head + 1)))"

declare cq_drain_from.simps [simp del]

definition iouring_cq_drain :: "'v uring env \<Rightarrow> 'v uring_os \<Rightarrow> 'v uring ev_loop \<Rightarrow> 'v uring ev_loop option" where
  "iouring_cq_drain env sys L =
     map_option (\<lambda>(head, L). upd_os (\<lambda>U. U\<lparr>cq_head := head\<rparr>) L)
       (cq_drain_from env sys (cq_ring_mask (os L)) IOURING_CQ_DRAIN_BUDGET (cq_head (os L)) L)"

subsection \<open>Polling\<close>

partial_function (option) iouring_tfd_drain :: "'v uring env \<Rightarrow> 'v uring_os \<Rightarrow> 'v uring ev_loop \<Rightarrow> 'v uring ev_loop option" where
  "iouring_tfd_drain env sys L =
     (let ((n, e), U) = sys_tfd_read sys (iouring_tfd (os L)) (os L); L = L\<lparr>os := U\<rparr> in
      if n = 8 then Some L
      else if n < 0 \<and> e = EINTR then iouring_tfd_drain env sys L
      else if n < 0 \<and> e \<noteq> EAGAIN then ev_syserr env L
      else Some L)"

definition iouring_tfd_cb :: "'v uring env \<Rightarrow> 'v uring_os \<Rightarrow> 'v uring ev_loop \<Rightarrow> 'v uring ev_loop option" where
  "iouring_tfd_cb env sys L = map_option (upd_os (\<lambda>U. U\<lparr>iouring_tfd_to := EV_TSTAMP_HUGE\<rparr>)) (iouring_tfd_drain env sys L)"

definition iouring_arm :: "'v uring env \<Rightarrow> 'v uring_os \<Rightarrow> ev_tstamp \<Rightarrow> 'v uring ev_loop \<Rightarrow> 'v uring ev_loop option" where
  "iouring_arm env sys timeout L =
     (let tfd_to = fadd (mn_now L) timeout in
      if timeout > 0 \<and> tfd_to < iouring_tfd_to (os L) then
        let L = upd_os (\<lambda>U. U\<lparr>iouring_tfd_to := tfd_to\<rparr>) L;
            (failed, U) = sys_tfd_settime sys (iouring_tfd (os L)) tfd_to (os L);
            L = L\<lparr>os := U\<rparr>
        in if failed then ev_syserr env L else Some L
      else Some L)"

partial_function (option) iouring_submit_all :: "'v uring env \<Rightarrow> 'v uring_os \<Rightarrow> 'v uring ev_loop \<Rightarrow> 'v uring ev_loop option" where
  "iouring_submit_all env sys L =
     (if iouring_to_submit (os L) > 0
      then Option.bind (iouring_enter_submit env sys (iouring_to_submit (os L)) L) (\<lambda>(_, L). iouring_submit_all env sys L)
      else Some L)"

definition msd_to_pms :: "real \<Rightarrow> int" where
  "msd_to_pms msd = (if msd \<ge> of_int INT_MAX then INT_MAX else if msd \<le> 0 then 0 else \<lfloor>msd\<rfloor>)"

definition iouring_pms :: "ev_tstamp \<Rightarrow> 'v uring ev_loop \<Rightarrow> int" where
  "iouring_pms timeout L =
     (let tfd_to = iouring_tfd_to (os L) in
      if timeout < 0 then - 1
      else if tfd_to < EV_TSTAMP_HUGE then
        if tfd_to > mn_now L then msd_to_pms (fadd (fmul (fsub tfd_to (mn_now L)) 1000) (rnd64 (9999 / 10000))) else 0
      else msd_to_pms (fadd (fmul timeout 1000) (rnd64 (9999 / 10000))))"

text \<open>The wait on the ring descriptor; \<open>False\<close> is the early return on \<^verbatim>\<open>EINTR\<close>.\<close>

definition iouring_wait :: "'v uring env \<Rightarrow> 'v uring_os \<Rightarrow> ev_tstamp \<Rightarrow> 'v uring ev_loop \<Rightarrow> (bool \<times> 'v uring ev_loop) option" where
  "iouring_wait env sys timeout L =
     (let blocking = (timeout < 0 \<or> timeout > 0) in
      if blocking \<and> cq_head (os L) = cq_tail (os L) then
        let U = env_release env (os L);
            ((ret, e, revents), U) = sys_ring_poll sys (iouring_fd (os L)) (iouring_pms timeout L) U;
            L = L\<lparr>os := env_acquire env U\<rparr>
        in if ret < 0 \<and> e = EINTR then Some (False, L)
           else
             map_option (\<lambda>L. (True, L))
               (Option.bind (if ret < 0 then ev_syserr env L else Some L) (\<lambda>L.
                  if revents AND (POLL_ERR OR 0x20 OR POLL_HUP) \<noteq> 0 then ev_syserr env L else Some L))
      else Some (True, L))"

partial_function (option) iouring_getevents :: "'v uring env \<Rightarrow> 'v uring_os \<Rightarrow> 'v uring ev_loop \<Rightarrow> 'v uring ev_loop option" where
  "iouring_getevents env sys L =
     (let U = env_release env (os L);
          ((r, e), U) = sys_enter sys (iouring_fd (os L)) 0 IORING_ENTER_GETEVENTS U;
          L = L\<lparr>os := env_acquire env U\<rparr>
      in if r < 0 \<and> e = EINTR then iouring_getevents env sys L else Some L)"

definition iouring_poll :: "'v uring env \<Rightarrow> 'v uring_os \<Rightarrow> ev_tstamp \<Rightarrow> 'v uring ev_loop \<Rightarrow> 'v uring ev_loop option" where
  "iouring_poll env sys timeout L =
     Option.bind (iouring_arm env sys timeout L) (\<lambda>L.
     Option.bind (iouring_submit_all env sys L) (\<lambda>L.
     Option.bind (iouring_wait env sys timeout L) (\<lambda>(go, L).
       if \<not> go then Some L
       else
         Option.bind (iouring_cq_drain env sys L) (\<lambda>L.
           if sq_flags (os L) AND IORING_SQ_WORK \<noteq> 0
           then Option.bind (iouring_getevents env sys L) (iouring_cq_drain env sys)
           else Some L))))"

subsection \<open>Creation, destruction, fork\<close>

definition iouring_close :: "'v uring env \<Rightarrow> 'v uring ev_loop \<Rightarrow> 'v uring ev_loop" where
  "iouring_close env L = upd_os (\<lambda>U. (env_close env (iouring_fd U) U)\<lparr>iouring_fd := - 1\<rparr>) L"

abbreviation (input) OFF_SQ_RING :: u32 where "OFF_SQ_RING \<equiv> 0"
abbreviation (input) OFF_CQ_RING :: u32 where "OFF_CQ_RING \<equiv> 0x8000000"
abbreviation (input) OFF_SQES :: u32 where "OFF_SQES \<equiv> 0x10000000"

definition iouring_unmap :: "'v uring_os \<Rightarrow> 'v uring ev_loop \<Rightarrow> 'v uring ev_loop" where
  "iouring_unmap sys L =
     (let L = (if iouring_sq_ring (os L) then upd_os (\<lambda>U. sys_munmap sys OFF_SQ_RING (iouring_sq_ring_size U) U) L else L);
          L = (if iouring_cq_ring (os L) then upd_os (\<lambda>U. sys_munmap sys OFF_CQ_RING (iouring_cq_ring_size U) U) L else L);
          L = (if iouring_sqes (os L) then upd_os (\<lambda>U. sys_munmap sys OFF_SQES (iouring_sqes_size U) U) L else L)
      in upd_os (\<lambda>U. U\<lparr>iouring_sq_ring := False, iouring_cq_ring := False, iouring_sqes := False\<rparr>) L)"

definition iouring_setup :: "'v uring_os \<Rightarrow> 'v uring ev_loop \<Rightarrow> io_uring_params \<times> 'v uring ev_loop" where
  "iouring_setup sys L =
     (let ((fd, e, p), U) = sys_setup sys IOURING_QUEUE_DEPTH IORING_SETUP_FLAGS (os L);
          ((fd, e, p), U) = (if fd < 0 \<and> (e = EINVAL \<or> e = EPERM) then sys_setup sys IOURING_QUEUE_DEPTH 0 U else ((fd, e, p), U))
      in (p, L\<lparr>os := U\<lparr>iouring_fd := fd\<rparr>\<rparr>))"

definition iouring_map :: "'v uring_os \<Rightarrow> io_uring_params \<Rightarrow> 'v uring ev_loop \<Rightarrow> 'v uring ev_loop option" where
  "iouring_map sys p L =
     (let fd = iouring_fd (os L);
          U = (os L)\<lparr>iouring_sq_ring_entries := sq_entries p, iouring_cq_ring_entries := cq_entries p\<rparr> in
      Option.bind (iouring_mmap_region sys fd OFF_SQ_RING (iouring_sq_ring_size U) U) (\<lambda>(a, U).
      Option.bind (iouring_mmap_region sys fd OFF_CQ_RING (iouring_cq_ring_size U) (U\<lparr>iouring_sq_ring := a\<rparr>)) (\<lambda>(b, U).
      Option.bind (iouring_mmap_region sys fd OFF_SQES (iouring_sqes_size U) (U\<lparr>iouring_cq_ring := b\<rparr>)) (\<lambda>(c, U).
        Some (L\<lparr>os := U\<lparr>iouring_sqes := c, iouring_cq_cqes := cq_off_cqes p\<rparr>\<rparr>)))))"

text \<open>The last part of \<^verbatim>\<open>iouring_init\<close>: the timer descriptor with its watcher, which does not keep the loop alive.\<close>

definition iouring_init_timer :: "'v uring env \<Rightarrow> 'v uring_os \<Rightarrow> 'v uring ev_loop \<Rightarrow> u32 \<times> 'v uring ev_loop" where
  "iouring_init_timer env sys L =
     (let (tfd, U) = sys_tfd_create sys (os L); L = L\<lparr>os := U\<lparr>iouring_tfd := tfd\<rparr>\<rparr> in
      if tfd < 0 then (0, iouring_close env (iouring_unmap sys L))
      else
        let L = upd_os (\<lambda>U. U\<lparr>iouring_tfd_to := EV_TSTAMP_HUGE\<rparr>) L;
            L = ev_io_init IouringTfdW IouringTfdCb tfd EV_READ L;
            L = ev_set_priority IouringTfdW EV_MINPRI L;
            L = ev_unref (ev_io_start IouringTfdW L);
            L = upd_os (\<lambda>U. U\<lparr>iouring_to_submit := 0\<rparr>) L
        in (EVBACKEND_IOURING, L\<lparr>backend_fd := iouring_fd (os L), backend_mintime := rnd64 (1 / 1000)\<rparr>))"

definition iouring_init :: "'v uring env \<Rightarrow> 'v uring_os \<Rightarrow> 'v uring ev_loop \<Rightarrow> (u32 \<times> 'v uring ev_loop) option" where
  "iouring_init env sys L =
     (let (p, L) = iouring_setup sys L in
      if iouring_fd (os L) < 0 then Some (0, L)
      else case iouring_validate_ring_layout p of
        None \<Rightarrow> Some (0, iouring_close env L)
      | Some (sq, cq, sqe) \<Rightarrow>
          let L = upd_os (\<lambda>U. U\<lparr>iouring_sq_ring_size := sq, iouring_cq_ring_size := cq, iouring_sqes_size := sqe\<rparr>) L in
          if \<not> iouring_validate_ptr_offsets p sq cq then Some (0, iouring_close env L)
          else
            map_option (\<lambda>L.
              if \<not> iouring_sq_ring (os L) \<or> \<not> iouring_cq_ring (os L) \<or> \<not> iouring_sqes (os L)
              then (0, iouring_close env (iouring_unmap sys L))
              else iouring_init_timer env sys L)
            (iouring_map sys p L))"

definition iouring_destroy :: "'v uring env \<Rightarrow> 'v uring_os \<Rightarrow> 'v uring ev_loop \<Rightarrow> 'v uring ev_loop" where
  "iouring_destroy env sys L =
     (let L = iouring_unmap sys (ev_io_stop IouringTfdW L);
          L = (if iouring_fd (os L) \<ge> 0 then upd_os (\<lambda>U. env_close env (iouring_fd U) U) L else L);
          L = upd_os (\<lambda>U. U\<lparr>iouring_fd := - 1\<rparr>) L;
          L = (if iouring_tfd (os L) \<ge> 0 then upd_os (\<lambda>U. env_close env (iouring_tfd U) U) L else L)
      in upd_os (\<lambda>U. U\<lparr>iouring_tfd := - 1\<rparr>) L)"

partial_function (option) iouring_reinit :: "'v uring env \<Rightarrow> 'v uring_os \<Rightarrow> 'v uring ev_loop \<Rightarrow> 'v uring ev_loop option" where
  "iouring_reinit env sys L =
     Option.bind (iouring_init env sys L) (\<lambda>(r, L).
       if r = 0 then Option.bind (ev_syserr env L) (iouring_reinit env sys) else Some L)"

definition iouring_fork :: "'v uring env \<Rightarrow> 'v uring_os \<Rightarrow> 'v uring ev_loop \<Rightarrow> 'v uring ev_loop option" where
  "iouring_fork env sys L = map_option fd_rearm_all (iouring_reinit env sys (iouring_destroy env sys L))"

definition iouring_env :: "'v uring_os \<Rightarrow> 'v uring env \<Rightarrow> 'v uring env" where
  "iouring_env sys env = env\<lparr>env_modify := iouring_modify env sys, env_poll := iouring_poll env sys, env_backend_fork := iouring_fork env sys,
     env_backend_destroy := iouring_destroy env sys,
     env_backend_cb := (\<lambda>cb w r L. if cb = IouringTfdCb then iouring_tfd_cb env sys L else env_backend_cb env cb w r L)\<rparr>"

end
