(* ===== verification/Loop_Inv.thy ===== *)
theory Loop_Inv
  imports Run
begin

section \<open>The invariant of the whole loop\<close>

text \<open>
  \<open>loop_inv\<close> collects the invariants of the components. It is what \<^verbatim>\<open>ev_verify\<close> checks, and more: a loop that has it
  passes every assertion of \<^verbatim>\<open>ev_verify\<close>, and a freshly initialised loop has it.
\<close>

definition periodics_inv :: "'w ev_loop \<Rightarrow> bool" where
  "periodics_inv L \<longleftrightarrow> theap KPeriodic (periodics L) (periodicmax L) (periodiccnt L) (ws L)"

definition loop_inv :: "'w ev_loop \<Rightarrow> bool" where
  "loop_inv L \<longleftrightarrow> pend_inv L \<and> pri_inv L \<and> fd_inv L \<and> timers_inv L \<and> periodics_inv L \<and> idle_inv L \<and>
     family_ok KPrepare prepares preparecnt preparemax L \<and> family_ok KCheck checks checkcnt checkmax L \<and>
     family_ok KFork forks forkcnt forkmax L \<and> family_ok KCleanup cleanups cleanupcnt cleanupmax L \<and>
     family_ok KAsync asyncs asynccnt asyncmax L"

lemma fold_id: "(\<And>x. x \<in> set xs \<Longrightarrow> f x L = L) \<Longrightarrow> fold f xs L = L"
  by (induction xs) auto

lemma Let_eq: "a = b \<Longrightarrow> Let a f = f b"
  by simp

subsection \<open>The self checks pass\<close>

lemma verify_watcher_passes:
  assumes "pend_inv L" "pri_inv L" "active (ws L w) \<noteq> 0"
  shows "verify_watcher w L = L"
proof -
  have p: "pri_valid (ws L w)" using assms(2,3) by (simp add: pri_inv_def)
  then have "0 \<le> priority (ws L w) - EV_MINPRI" "priority (ws L w) - EV_MINPRI < int NUMPRI" by (auto simp: pri_valid_def)
  moreover have "pending (ws L w) \<noteq> 0 \<Longrightarrow> ap_w (pendings L (nat (priority (ws L w) - EV_MINPRI)) (pending (ws L w) - 1)) = w"
    using pend_invD(3)[OF assms(1), of w] by (simp add: pend_w_ok_def ABSPRI_def)
  ultimately show ?thesis by (simp add: verify_watcher_def Let_def chk_def)
qed

lemma verify_heap_passes:
  assumes "pend_inv L" "pri_inv L" "theap K (hp L) mx N (ws L)"
  shows "verify_heap hp N L = L"
  unfolding verify_heap_def
proof (rule fold_id)
  fix i assume "i \<in> set [HEAP0..<N + HEAP0]"
  then have i: "HEAP0 \<le> i" "i < N + HEAP0" by auto
  note a = theap_at[OF assms(3) i]
  have "i = HEAP0 \<or> he_at (hp L (HPARENT i)) \<le> he_at (hp L i)"
    using theapD(1)[OF assms(3)] i by (cases "i = HEAP0") (auto simp: heap_ok_def heap_ordered_def)
  then show "(let h = hp L; w = he_w (h i); L = chk (active (ws L w) = i) L;
      L = chk (i = HEAP0 \<or> he_at (h (HPARENT i)) \<le> he_at (h i)) L; L = chk (he_at (h i) = w_at (ws L w)) L in verify_watcher w L) = L"
    using a i verify_watcher_passes[OF assms(1,2), of "he_w (hp L i)"] by (simp add: Let_def chk_def)
qed

lemma array_verify_passes:
  assumes "pend_inv L" "pri_inv L" "\<And>i. i < n \<Longrightarrow> active (ws L (a i)) = Suc i"
  shows "array_verify a n L = L"
  unfolding array_verify_def
  by (rule fold_id) (use assms verify_watcher_passes[OF assms(1,2)] in \<open>simp add: chk_def\<close>)

lemma verify_anfd_passes:
  assumes "pend_inv L" "pri_inv L" "fd_inv L" "0 \<le> fd" "fd < int (anfdmax L)"
  shows "verify_anfd fd L = L"
  unfolding verify_anfd_def Let_def
proof (rule fold_id)
  let ?l = "anfd_head (anfds L fd)"
  note l = fd_listsD[OF assms(3)[unfolded fd_inv_def, THEN conjunct1]]
  fix j assume "j \<in> set [0..<length ?l]"
  then have j: "j < length ?l" by simp
  then have w: "?l ! j \<in> set ?l" by simp
  have d: "odd j \<Longrightarrow> ?l ! j \<noteq> ?l ! (j div 2)"
    using l(1)[OF assms(4,5)] j by (auto simp: nth_eq_iff_index_eq elim!: oddE)
  have a: "active (ws L (?l ! j)) = 1" "w_fd (ws L (?l ! j)) = fd" using l(2)[OF assms(4,5) w] by auto
  show "chk (w_fd (ws (chk (active (ws (if odd j then chk (?l ! j \<noteq> ?l ! (j div 2)) (verify_watcher (?l ! j) L) else verify_watcher (?l ! j) L) (?l ! j)) = 1)
       (if odd j then chk (?l ! j \<noteq> ?l ! (j div 2)) (verify_watcher (?l ! j) L) else verify_watcher (?l ! j) L)) (?l ! j)) = fd)
     (chk (active (ws (if odd j then chk (?l ! j \<noteq> ?l ! (j div 2)) (verify_watcher (?l ! j) L) else verify_watcher (?l ! j) L) (?l ! j)) = 1)
       (if odd j then chk (?l ! j \<noteq> ?l ! (j div 2)) (verify_watcher (?l ! j) L) else verify_watcher (?l ! j) L)) = L"
    using verify_watcher_passes[OF assms(1,2), of "?l ! j"] a d by (simp add: chk_True)
qed

lemma family_active: "family_ok K arr cnt mx L \<Longrightarrow> i < cnt L \<Longrightarrow> active (ws L (arr L i)) = Suc i" "family_ok K arr cnt mx L \<Longrightarrow> cnt L \<le> mx L"
  by (auto simp: family_ok_def warr_def)

lemma verify_id:
  assumes "loop_inv L" "activecnt L \<ge> - 1"
  shows "ev_verify L = L"
proof -
  have I: "pend_inv L" "pri_inv L" "fd_inv L" "timers_inv L" "periodics_inv L" "idle_inv L" using assms(1) by (auto simp: loop_inv_def)
  have fam: "family_ok KPrepare prepares preparecnt preparemax L" "family_ok KCheck checks checkcnt checkmax L"
    "family_ok KFork forks forkcnt forkmax L" "family_ok KCleanup cleanups cleanupcnt cleanupmax L" "family_ok KAsync asyncs asynccnt asyncmax L"
    using assms(1) by (auto simp: loop_inv_def)
  note av = array_verify_passes[OF I(1,2)]
  have ch: "fold (\<lambda>i L. chk (fdchanges L i \<ge> 0) L) [0..<fdchangecnt L] L = L"
    by (rule fold_id) (use I(3) in \<open>auto simp: fd_inv_def fd_chg_def chk_True\<close>)
  have an: "fold (\<lambda>i. verify_anfd (int i)) [0..<anfdmax L] L = L" by (rule fold_id) (simp add: verify_anfd_passes[OF I(1-3)])
  have mx: "fdchangecnt L \<le> fdchangemax L" "timercnt L \<le> timermax L" "periodiccnt L \<le> periodicmax L"
    using I(3-5) by (auto simp: fd_inv_def fd_chg_def timers_inv_def periodics_inv_def theap_def)
  have vh: "verify_heap timers (timercnt L) L = L" "verify_heap periodics (periodiccnt L) L = L"
    using verify_heap_passes[OF I(1,2)] I(4,5) by (auto simp: timers_inv_def periodics_inv_def)
  have vp: "fold verify_pri (rev [0..<NUMPRI]) L = L"
  proof (rule fold_id)
    fix p assume "p \<in> set (rev [0..<NUMPRI])"
    then have p: "p < NUMPRI" by auto
    have w: "warr (\<lambda>v. kind v = KIdle \<and> active (ws L v) \<noteq> 0 \<and> ABSPRI (ws L v) = p) (idles L p) (idlecnt L p) (idlemax L p) (ws L)"
      using I(6) p unfolding idle_inv_def by blast
    have "0 \<le> idleall L" using I(6) by (simp add: idle_inv_def sum_nonneg)
    then show "verify_pri p L = L"
      using pend_invD(1)[OF I(1) p] warrD(1,3)[OF w] av[of "idlecnt L p" "idles L p"] by (simp add: verify_pri_def Let_def chk_True)
  qed
  have fv: "array_verify (forks L) (forkcnt L) (chk (forkmax L \<ge> forkcnt L) L) = L" "array_verify (cleanups L) (cleanupcnt L) (chk (cleanupmax L \<ge> cleanupcnt L) L) = L"
    "array_verify (asyncs L) (asynccnt L) (chk (asyncmax L \<ge> asynccnt L) L) = L" "array_verify (prepares L) (preparecnt L) (chk (preparemax L \<ge> preparecnt L) L) = L"
    "array_verify (checks L) (checkcnt L) (chk (checkmax L \<ge> checkcnt L) L) = L"
    using fam[THEN family_active(2)] fam[THEN family_active(1)] by (simp_all add: chk_True av)
  note c = Let_eq[OF chk_True[OF assms(2)]] Let_eq[OF chk_True[OF mx(1)]] Let_eq[OF ch] Let_eq[OF an] Let_eq[OF chk_True[OF mx(2)]]
    Let_eq[OF vh(1)] Let_eq[OF chk_True[OF mx(3)]] Let_eq[OF vh(2)] Let_eq[OF vp] fv[THEN Let_eq]
  show ?thesis unfolding ev_verify_def
    by (rule trans[OF c(1)], rule trans[OF c(2)], rule trans[OF c(3)], rule trans[OF c(4)], rule trans[OF c(5)], rule trans[OF c(6)],
        rule trans[OF c(7)], rule trans[OF c(8)], rule trans[OF c(9)], rule trans[OF c(10)], rule trans[OF c(11)], rule trans[OF c(12)],
        rule trans[OF c(13)], rule fv(5))
qed

text \<open>
  C27: A loop with the invariants of all components passes every check of \<^verbatim>\<open>ev_verify\<close> (priorities, back pointers of
  pending events, heap condition and cached deadlines of both heaps, descriptor lists without cycles, dense arrays,
  counts within allocations), and the checks change nothing.
\<close>

theorem ev_verify_passes: "loop_inv L \<Longrightarrow> activecnt L \<ge> - 1 \<Longrightarrow> ev_verify L = L"
  by (rule verify_id)

lemma periodics_inv_zero: "periodics_inv (loop_zero s)"
  by (simp add: periodics_inv_def theap_def loop_zero_def heap_ok_def heap_ordered_def heap_indexed_def heap_cached_def heap_watchers_def w_zero_def)

lemma loop_inv_zero: "loop_inv (loop_zero s)"
  using periodics_inv_zero family_zero[of s]
  by (simp add: loop_inv_def pri_inv_def w_zero_def family_ok_def warr_def) (simp add: loop_zero_def w_zero_def)

theorem ev_verify_passes_witness: "ev_verify (loop_zero ()) = loop_zero ()"
  by (rule ev_verify_passes[OF loop_inv_zero]) (simp add: loop_zero_def)

end
