(* ===== verification/Loop_Api.thy ===== *)
theory Loop_Api
  imports Loop_Inv
begin

section \<open>Every call of the interface keeps the invariant\<close>

text \<open>
  The routines of one kind of watcher write that kind's arrays, watchers of that kind, and the pending queues. The
  lemma \<open>loop_inv_frame\<close> turns the component's own theorem into a statement about the whole loop; the relation
  \<open>api_step\<close> collects the calls, with what the documentation asks of the caller as conditions.
\<close>

definition io_v :: "'w ev_loop \<Rightarrow> (int \<Rightarrow> ANFD) \<times> nat \<times> (nat \<Rightarrow> int) \<times> nat \<times> nat \<times> int" where
  "io_v L = (anfds L, anfdmax L, fdchanges L, fdchangecnt L, fdchangemax L, iocnt L)"

definition tm_v :: "'w ev_loop \<Rightarrow> heap \<times> nat \<times> nat" where
  "tm_v L = (timers L, timermax L, timercnt L)"

definition pe_v :: "'w ev_loop \<Rightarrow> heap \<times> nat \<times> nat" where
  "pe_v L = (periodics L, periodicmax L, periodiccnt L)"

definition id_v :: "'w ev_loop \<Rightarrow> (nat \<Rightarrow> nat \<Rightarrow> W) \<times> (nat \<Rightarrow> nat) \<times> (nat \<Rightarrow> nat) \<times> int" where
  "id_v L = (idles L, idlemax L, idlecnt L, idleall L)"

fun fam_v :: "wkind \<Rightarrow> 'w ev_loop \<Rightarrow> (nat \<Rightarrow> W) \<times> nat \<times> nat" where
  "fam_v KPrepare L = (prepares L, preparecnt L, preparemax L)"
| "fam_v KCheck L = (checks L, checkcnt L, checkmax L)"
| "fam_v KFork L = (forks L, forkcnt L, forkmax L)"
| "fam_v KCleanup L = (cleanups L, cleanupcnt L, cleanupmax L)"
| "fam_v KAsync L = (asyncs L, asynccnt L, asyncmax L)"
| "fam_v _ L = (\<lambda>_. PendingW, 0, 0)"

text \<open>The arrays of all kinds but \<open>K\<close> are the same.\<close>

definition others_same :: "wkind \<Rightarrow> 'w ev_loop \<Rightarrow> 'w ev_loop \<Rightarrow> bool" where
  "others_same K L L' \<longleftrightarrow> (K \<noteq> KIo \<longrightarrow> io_v L' = io_v L) \<and> (K \<noteq> KTimer \<longrightarrow> tm_v L' = tm_v L) \<and> (K \<noteq> KPeriodic \<longrightarrow> pe_v L' = pe_v L) \<and>
     (K \<noteq> KIdle \<longrightarrow> id_v L' = id_v L) \<and> (\<forall>J. J \<noteq> K \<longrightarrow> fam_v J L' = fam_v J L)"

abbreviation fam_kinds :: "wkind set" where
  "fam_kinds \<equiv> {KPrepare, KCheck, KFork, KCleanup, KAsync}"

definition fam_inv :: "wkind \<Rightarrow> 'w ev_loop \<Rightarrow> bool" where
  "fam_inv K L \<longleftrightarrow> (let (a, n, mx) = fam_v K L in warr (\<lambda>v. kind v = K) a n mx (ws L))"

definition own_inv :: "wkind \<Rightarrow> 'w ev_loop \<Rightarrow> bool" where
  "own_inv K L \<longleftrightarrow> (K = KIo \<longrightarrow> fd_inv L) \<and> (K = KTimer \<longrightarrow> timers_inv L) \<and> (K = KPeriodic \<longrightarrow> periodics_inv L) \<and> (K = KIdle \<longrightarrow> idle_inv L) \<and>
     (K \<in> fam_kinds \<longrightarrow> fam_inv K L)"

lemma all_wkind: "(\<forall>K. P K) \<longleftrightarrow> P KIo \<and> P KTimer \<and> P KPeriodic \<and> P KSignal \<and> P KChild \<and> P KStat \<and> P KIdle \<and> P KPrepare \<and> P KCheck \<and>
    P KFork \<and> P KCleanup \<and> P KAsync \<and> P KEmbed"
proof -
  have "P K" if "P KIo \<and> P KTimer \<and> P KPeriodic \<and> P KSignal \<and> P KChild \<and> P KStat \<and> P KIdle \<and> P KPrepare \<and> P KCheck \<and>
    P KFork \<and> P KCleanup \<and> P KAsync \<and> P KEmbed" for K using that by (cases K) simp_all
  then show ?thesis by blast
qed

lemmas frame_defs = others_same_def all_wkind io_v_def tm_v_def pe_v_def id_v_def

lemma loop_inv_alt:
  "loop_inv L \<longleftrightarrow> pend_inv L \<and> pri_inv L \<and> fd_inv L \<and> timers_inv L \<and> periodics_inv L \<and> idle_inv L \<and>
     (\<forall>K \<in> fam_kinds. fam_inv K L)"
  by (auto simp: loop_inv_def family_ok_def fam_inv_def)

lemma own_fam: "own_inv K L \<Longrightarrow> K \<in> fam_kinds \<Longrightarrow> fam_inv K L"
  by (auto simp: own_inv_def)

lemma loop_inv_frame:
  assumes I: "loop_inv L" and P: "pend_inv L'" "pri_inv L'" and o: "others_same K L L'" "own_inv K L'"
    and w: "\<forall>v. kind v \<noteq> K \<longrightarrow> (ws L' v)\<lparr>pending := 0\<rparr> = (ws L v)\<lparr>pending := 0\<rparr>"
  shows "loop_inv L'"
proof -
  have f: "active (ws L' v) = active (ws L v)" "priority (ws L' v) = priority (ws L v)" "w_at (ws L' v) = w_at (ws L v)"
    "w_fd (ws L' v) = w_fd (ws L v)" "w_events (ws L' v) = w_events (ws L v)" if "kind v \<noteq> K" for v
    using arg_cong[OF w[rule_format, OF that], of active] arg_cong[OF w[rule_format, OF that], of priority] arg_cong[OF w[rule_format, OF that], of w_at]
      arg_cong[OF w[rule_format, OF that], of w_fd] arg_cong[OF w[rule_format, OF that], of w_events] by simp_all
  note i = I[unfolded loop_inv_alt]
  have "fd_inv L'"
  proof (cases "K = KIo")
    case False
    then show ?thesis using o(1) i f by (intro fd_inv_cong[of L' L]) (auto simp: others_same_def io_v_def)
  qed (use o(2) in \<open>simp add: own_inv_def\<close>)
  moreover have "timers_inv L'"
  proof (cases "K = KTimer")
    case False
    then have "timers L' = timers L" "timermax L' = timermax L" "timercnt L' = timercnt L" using o(1) by (auto simp: others_same_def tm_v_def)
    then show ?thesis using False i f unfolding timers_inv_def by (metis theap_cong)
  qed (use o(2) in \<open>simp add: own_inv_def\<close>)
  moreover have "periodics_inv L'"
  proof (cases "K = KPeriodic")
    case False
    then have "periodics L' = periodics L" "periodicmax L' = periodicmax L" "periodiccnt L' = periodiccnt L" using o(1) by (auto simp: others_same_def pe_v_def)
    then show ?thesis using False i f unfolding periodics_inv_def by (metis theap_cong)
  qed (use o(2) in \<open>simp add: own_inv_def\<close>)
  moreover have "idle_inv L'"
  proof (cases "K = KIdle")
    case False
    then have e: "idles L' = idles L" "idlemax L' = idlemax L" "idlecnt L' = idlecnt L" "idleall L' = idleall L" using o(1) by (auto simp: others_same_def id_v_def)
    have s: "active (ws L' v) = active (ws L v)" "ABSPRI (ws L' v) = ABSPRI (ws L v)" "pri_valid (ws L' v) = pri_valid (ws L v)" if "kind v = KIdle" for v
      using f[of v] that False by (auto simp: ABSPRI_def pri_valid_def)
    have q: "(kind v = KIdle \<and> active (ws L' v) \<noteq> 0 \<and> ABSPRI (ws L' v) = p) = (kind v = KIdle \<and> active (ws L v) \<noteq> 0 \<and> ABSPRI (ws L v) = p)" for v p
      using s[of v] by auto
    have "warr (\<lambda>v. kind v = KIdle \<and> active (ws L' v) \<noteq> 0 \<and> ABSPRI (ws L' v) = p) (idles L p) (idlecnt L p) (idlemax L p) (ws L')" if "p < NUMPRI" for p
      by (rule warr_cong[of "\<lambda>v. kind v = KIdle \<and> active (ws L v) \<noteq> 0 \<and> ABSPRI (ws L v) = p" _ _ _ "ws L"])
        (use i that s q in \<open>auto simp: idle_inv_def\<close>)
    moreover have "\<forall>v. kind v = KIdle \<and> active (ws L' v) \<noteq> 0 \<longrightarrow> pri_valid (ws L' v)" using i s by (auto simp: idle_inv_def)
    ultimately show ?thesis using i unfolding idle_inv_def e by blast
  qed (use o(2) in \<open>simp add: own_inv_def\<close>)
  moreover have "fam_inv J L'" if J: "J \<in> fam_kinds" for J
  proof (cases "K = J")
    case False
    obtain a n mx where a: "fam_v J L = (a, n, mx)" by (cases "fam_v J L") auto
    then have "fam_v J L' = (a, n, mx)" using o(1) False by (auto simp: others_same_def)
    moreover have "warr (\<lambda>v. kind v = J) a n mx (ws L)" using i J a by (auto simp: fam_inv_def)
    ultimately show ?thesis using f False by (auto simp: fam_inv_def intro: warr_cong)
  qed (use o(2) J own_fam in metis)
  ultimately show ?thesis using P unfolding loop_inv_alt by blast
qed


text \<open>The common shape of the lemmas below: an operation on watchers of kind \<open>K\<close> keeps the invariant and no check fails.\<close>

definition keeps :: "'w ev_loop \<Rightarrow> 'w ev_loop \<Rightarrow> bool" where
  "keeps L L' \<longleftrightarrow> loop_inv L' \<and> ok L' = ok L \<and> (settled L \<longrightarrow> settled L')"

lemma keepsI:
  assumes "loop_inv L" "pend_inv L'" "ok L' = ok L" "settled L \<longrightarrow> settled L'" "others_same K L L'" "own_inv K L'"
    and "\<forall>v. kind v \<noteq> K \<longrightarrow> (ws L' v)\<lparr>pending := 0\<rparr> = (ws L v)\<lparr>pending := 0\<rparr>"
    and v: "\<forall>v. v \<noteq> w \<longrightarrow> active (ws L' v) \<noteq> 0 \<longrightarrow> active (ws L v) \<noteq> 0 \<and> priority (ws L' v) = priority (ws L v)"
    and w: "active (ws L' w) \<noteq> 0 \<longrightarrow> pri_valid (ws L' w)"
  shows "keeps L L'"
proof -
  have "pri_inv L'" unfolding pri_inv_def
  proof (intro allI impI)
    fix u assume "active (ws L' u) \<noteq> 0"
    then show "pri_valid (ws L' u)" using v w assms(1) by (cases "u = w") (auto simp: loop_inv_def pri_inv_def pri_valid_def)
  qed
  then show ?thesis unfolding keeps_def using loop_inv_frame[OF assms(1,2) _ assms(5,6,7)] assms(3,4) by blast
qed

lemma loop_invD:
  assumes "loop_inv L"
  shows "pend_inv L" "pri_inv L" "fd_inv L" "timers_inv L" "periodics_inv L" "idle_inv L" "K \<in> fam_kinds \<Longrightarrow> fam_inv K L"
  using assms unfolding loop_inv_alt by auto

lemma pri_invD: "pri_inv L \<Longrightarrow> active (ws L v) \<noteq> 0 \<Longrightarrow> pri_valid (ws L v)"
  by (simp add: pri_inv_def)

lemma pri_clamp_valid [simp]: "pri_valid (x\<lparr>priority := pri_clamp p\<rparr>)" "pri_valid (x\<lparr>priority := pri_clamp p, active := a\<rparr>)"
  by (auto simp: pri_valid_def pri_clamp_def)

lemma keeps_refl: "loop_inv L \<Longrightarrow> keeps L L"
  by (simp add: keeps_def)

lemma keeps_trans: "keeps L M \<Longrightarrow> keeps M N \<Longrightarrow> keeps L N"
  by (simp add: keeps_def)

lemma active_priority: "(x :: ev_watcher)\<lparr>active := 0\<rparr> = y\<lparr>active := 0\<rparr> \<Longrightarrow> priority x = priority y"
  by (drule arg_cong[where f = priority]) simp


subsection \<open>Array watchers\<close>

lemma clear_pri [simp]: "pendingpri (clear_pending w L) = pendingpri L"
  by (simp add: clear_pending_def chk_def Let_def)

text \<open>The same routines within the whole loop: the array of kind \<open>K\<close> is the loop's, and the other arrays are left alone.\<close>

locale loop_array = warray +
  assumes family: "K \<in> fam_kinds" "fam_v K L = (arr L, cnt L, mx L)"
    and frame: "others_same K L (start w L)" "others_same K L (stop w L)"
    and settled: "settled (start w L) = settled L" "settled (stop w L) = settled L"
begin

lemma fam_inv_iff: "fam_inv K L \<longleftrightarrow> inv L"
  by (simp add: fam_inv_def family(2) inv_def)

lemma own_inv_iff: "own_inv K L \<longleftrightarrow> inv L"
  using family(1) fam_inv_iff by (auto simp: own_inv_def)

lemma start_loop:
  assumes I: "loop_inv L" and w: "kind w = K"
  shows "keeps L (start w L)"
proof (cases "active (ws L w) = 0")
  case True
  have i: "inv L" using loop_invD(7)[OF I family(1)] fam_inv_iff by simp
  note k = start_keeps[OF i loop_invD(1)[OF I] w]
  show ?thesis
    by (rule keepsI[OF I _ _ _ frame(1), where w = w]) (use k start_data[OF True] w in \<open>auto simp: own_inv_iff settled\<close>)
qed (simp add: start_nop keeps_refl I)

lemma stop_loop:
  assumes I: "loop_inv L" and w: "kind w = K"
  shows "keeps L (stop w L)"
proof -
  have i: "inv L" using loop_invD(7)[OF I family(1)] fam_inv_iff by simp
  note k = stop_keeps[OF i loop_invD(1)[OF I] w]
  have s: "(kind v \<noteq> K \<longrightarrow> ws (stop w L) v = ws L v) \<and> (active (ws (stop w L) v) \<noteq> 0 \<longrightarrow> active (ws L v) \<noteq> 0)" if v: "v \<noteq> w" for v
  proof (cases "active (ws L w) = 0")
    case True
    then show ?thesis using stop_nop[OF True] clear_other[OF v, of L] by simp
  next
    case False
    have n: "cnt L \<noteq> 0" using warrD(4)[OF i[unfolded inv_def] w False] False by auto
    define l where "l = arr L (cnt L - 1)"
    have l: "kind l = K" "active (ws L l) \<noteq> 0" using warrD(2,3)[OF i[unfolded inv_def], of "cnt L - 1"] n by (auto simp: l_def)
    have "ws (stop w L) v = (if v = l then (ws L v)\<lparr>active := active (ws L w)\<rparr> else ws L v)"
      using stop_data[OF False n] v clear_other[OF v, of L] unfolding Let_def l_def[symmetric] by simp
    then show ?thesis using l by auto
  qed
  have p: "priority (ws (stop w L) v) = priority (ws L v)" if "v \<noteq> w" for v
    using k that active_priority by blast
  have o: "ws (stop w L) v = ws L v" if "kind v \<noteq> K" for v using s[of v] that w by auto
  show ?thesis
    by (rule keepsI[OF I _ _ _ frame(2), where w = w]) (use k s p o in \<open>auto simp: own_inv_iff settled\<close>)
qed

end

interpretation prepare: loop_array KPrepare prepares preparecnt preparemax ev_prepare_start ev_prepare_stop
  by unfold_locales (simp_all add: ev_prepare_start_def ev_prepare_stop_def frame_defs base_defs Let_def settled_def)

interpretation check: loop_array KCheck checks checkcnt checkmax ev_check_start ev_check_stop
  by unfold_locales (simp_all add: ev_check_start_def ev_check_stop_def frame_defs base_defs Let_def settled_def)

interpretation fork: loop_array KFork forks forkcnt forkmax ev_fork_start ev_fork_stop
  by unfold_locales (simp_all add: ev_fork_start_def ev_fork_stop_def frame_defs base_defs Let_def settled_def)

interpretation cleanup: loop_array KCleanup cleanups cleanupcnt cleanupmax ev_cleanup_start ev_cleanup_stop
  by unfold_locales (simp_all add: ev_cleanup_start_def ev_cleanup_stop_def frame_defs base_defs Let_def settled_def)


subsection \<open>Idle watchers\<close>

lemma idle_start_loop:
  assumes I: "loop_inv L" and w: "kind w = KIdle"
  shows "keeps L (ev_idle_start w L)"
proof (cases "active (ws L w) = 0")
  case True
  note k = idle_start_inv[OF loop_invD(6,1)[OF I] w True]
  have "others_same KIdle L (ev_idle_start w L)" "settled (ev_idle_start w L) = settled L"
    by (simp_all add: ev_idle_start_eq[OF True] frame_defs settled_def)
  moreover have "pri_valid (ws (ev_idle_start w L) w)" using k w by (auto simp: idle_inv_def)
  ultimately show ?thesis by (intro keepsI[OF I, where w = w and K = KIdle]) (use k w in \<open>auto simp: own_inv_def\<close>)
qed (simp add: ev_idle_start_def keeps_refl I)

lemma idle_stop_active:
  assumes I: "idle_inv L" and w: "kind w = KIdle" and v: "v \<noteq> w"
  shows "(kind v \<noteq> KIdle \<longrightarrow> ws (ev_idle_stop w L) v = ws L v) \<and> (active (ws (ev_idle_stop w L) v) \<noteq> 0 \<longrightarrow> active (ws L v) \<noteq> 0)"
proof (cases "active (ws L w) = 0")
  case False
  define p where "p = ABSPRI (ws L w)"
  have p: "p < NUMPRI" using I w False ABSPRI_lt[of "ws L w"] by (auto simp: idle_inv_def p_def)
  have W: "warr (\<lambda>v. kind v = KIdle \<and> active (ws L v) \<noteq> 0 \<and> ABSPRI (ws L v) = p) (idles L p) (idlecnt L p) (idlemax L p) (ws L)"
    using I p unfolding idle_inv_def by blast
  have n: "idlecnt L p \<noteq> 0" using warrD(4)[OF W, of w] w False by (simp add: p_def)
  define l where "l = idles L p (idlecnt L p - 1)"
  have l: "kind l = KIdle" "active (ws L l) \<noteq> 0" using warrD(2)[OF W, of "idlecnt L p - 1"] n by (auto simp: l_def)
  have ap: "ABSPRI (ws (clear_pending w L) w) = p" by (simp add: p_def ABSPRI_def)
  have "ws (ev_idle_stop w L) v = (if v = l then (ws L v)\<lparr>active := active (ws L w)\<rparr> else ws L v)"
    using False v clear_other[OF v, of L] n by (simp add: ev_idle_stop_def Let_def base_defs ap l_def)
  then show ?thesis using l by auto
qed (use clear_other[OF v, of L] in \<open>simp add: ev_idle_stop_def Let_def\<close>)

lemma idle_stop_loop:
  assumes I: "loop_inv L" and w: "kind w = KIdle"
  shows "keeps L (ev_idle_stop w L)"
proof -
  note k = idle_stop_inv[OF loop_invD(6,1)[OF I] w] and a = idle_stop_active[OF loop_invD(6)[OF I] w]
  have "others_same KIdle L (ev_idle_stop w L)" "settled (ev_idle_stop w L) = settled L"
    by (simp_all add: ev_idle_stop_def Let_def base_defs frame_defs settled_def)
  moreover have "ws (ev_idle_stop w L) v = ws L v" if "kind v \<noteq> KIdle" for v using a[of v] that w by auto
  moreover have "priority (ws (ev_idle_stop w L) v) = priority (ws L v)" if "v \<noteq> w" for v using k that active_priority by blast
  ultimately show ?thesis by (intro keepsI[OF I, where w = w and K = KIdle]) (use k a in \<open>auto simp: own_inv_def\<close>)
qed

subsection \<open>Descriptor watchers\<close>

text \<open>What \<^verbatim>\<open>ev_io_start\<close> asserts of its argument.\<close>

definition io_args :: "W \<Rightarrow> 'w ev_loop \<Rightarrow> bool" where
  "io_args w L \<longleftrightarrow> w_fd (ws L w) \<ge> 0 \<and> w_events (ws L w) AND NOT (EV__IOFDSET OR EV_READ OR EV_WRITE) = 0"

lemma fd_change_frame [simp]:
  "others_same KIo L (fd_change fd fl M) = others_same KIo L M" "settled (fd_change fd fl M) = settled M"
  by (simp_all add: fd_change_def Let_def upd_fd_def chk_def frame_defs settled_def)

lemma io_start_loop:
  assumes I: "loop_inv L" and w: "kind w = KIo" "active (ws L w) = 0 \<longrightarrow> io_args w L"
  shows "keeps L (ev_io_start w L)"
proof (cases "active (ws L w) = 0")
  case True
  then have a: "w_fd (ws L w) \<ge> 0" "w_events (ws L w) AND NOT (EV__IOFDSET OR EV_READ OR EV_WRITE) = 0" using w by (auto simp: io_args_def)
  note k = io_start_inv[OF loop_invD(3,1)[OF I] w(1) True a]
  have "others_same KIo L (ev_io_start w L) \<and> settled (ev_io_start w L) = settled L"
  proof (rule io_start_pres)
    show "others_same KIo L (fd_change fd r M) \<and> settled (fd_change fd r M) = settled L"
      if "others_same KIo L M \<and> settled M = settled L" for fd r M using that by simp
  qed (simp_all add: frame_defs base_defs need_anfds_def upd_fd_def settled_def Let_def)
  moreover have "ws (ev_io_start w L) v = ws L v" if "kind v \<noteq> KIo" for v using k(5)[of v] that w by auto
  ultimately show ?thesis by (intro keepsI[OF I, where w = w and K = KIo]) (use k(1,2,4-6,9) in \<open>auto simp: own_inv_def\<close>)
qed (simp add: ev_io_start_def keeps_refl I)

lemma io_stop_loop:
  assumes I: "loop_inv L" and w: "kind w = KIo"
  shows "keeps L (ev_io_stop w L)"
proof -
  note k = io_stop_inv[OF loop_invD(3,1)[OF I] w]
  have "others_same KIo L (ev_io_stop w L)" "settled (ev_io_stop w L) = settled L"
    by (simp_all add: ev_io_stop_def Let_def) (simp_all add: upd_fd_def base_defs frame_defs settled_def)
  moreover have "ws (ev_io_stop w L) v = ws L v" if "kind v \<noteq> KIo" for v using k(5)[of v] that w by auto
  ultimately show ?thesis by (intro keepsI[OF I, where w = w and K = KIo]) (use k(1,2,4-6) in \<open>auto simp: own_inv_def\<close>)
qed

lemma io_modify_loop:
  assumes I: "loop_inv L" and w: "kind w = KIo"
  shows "keeps L (ev_io_modify w events L)"
proof -
  note k = io_modify_inv[OF loop_invD(3,1)[OF I] w, where events = events]
  have "others_same KIo L (ev_io_modify w events L)" "settled (ev_io_modify w events L) = settled L"
    by (simp_all add: ev_io_modify_def Let_def) (simp_all add: upd_w_def frame_defs settled_def)
  moreover have "ws (ev_io_modify w events L) v = ws L v" if "kind v \<noteq> KIo" for v using k(5)[of v] that w by auto
  ultimately show ?thesis by (intro keepsI[OF I, where w = w and K = KIo])
      (use k(1,2,4-6) pri_invD[OF loop_invD(2)[OF I], of w] in \<open>auto simp: own_inv_def pri_valid_def\<close>)
qed


subsection \<open>Relative timers\<close>

lemma put_timers_frame [simp]:
  "others_same KTimer L (put_timers r M) = others_same KTimer L M" "settled (put_timers r M) = settled M" "ok (put_timers r M) = ok M"
  by (simp_all add: put_timers_def frame_defs settled_def)

lemma timer_active_iff: "kind v = KTimer \<Longrightarrow> active (ws L v) \<noteq> 0 \<longleftrightarrow> timer_map L v \<noteq> None"
  by (simp add: deadlines_def)

text \<open>A timer operation is known by the map of deadlines it leaves, and by the priorities.\<close>

lemma timer_keepsI:
  assumes I: "loop_inv L" and w: "kind w = KTimer" and T: "pend_inv L'" "timers_inv L'" "ok L' = ok L" "\<forall>v. v \<noteq> w \<longrightarrow> timer_map L' v = timer_map L v"
    and o: "\<forall>v. kind v \<noteq> KTimer \<longrightarrow> ws L' v = ws L v" and f: "others_same KTimer L L'" "settled L' = settled L"
    and p: "\<forall>v. v \<noteq> w \<longrightarrow> priority (ws L' v) = priority (ws L v)" "active (ws L' w) \<noteq> 0 \<longrightarrow> pri_valid (ws L' w)"
  shows "keeps L L'"
proof (rule keepsI[OF I T(1,3) _ f(1), where w = w])
  show "\<forall>v. v \<noteq> w \<longrightarrow> active (ws L' v) \<noteq> 0 \<longrightarrow> active (ws L v) \<noteq> 0 \<and> priority (ws L' v) = priority (ws L v)"
  proof (intro allI impI)
    fix v assume v: "v \<noteq> w" "active (ws L' v) \<noteq> 0"
    have "active (ws L v) \<noteq> 0"
    proof (cases "kind v = KTimer")
      case True
      then show ?thesis using v timer_active_iff[of v L'] timer_active_iff[of v L] T(4) by simp
    qed (use v o in simp)
    then show "active (ws L v) \<noteq> 0 \<and> priority (ws L' v) = priority (ws L v)" using v p(1) by simp
  qed
qed (use T o f p in \<open>auto simp: own_inv_def\<close>)

lemma timer_start_priority:
  assumes T: "timers_inv L" and w: "kind w = KTimer" "active (ws L w) = 0"
  shows "priority (ws (ev_timer_start w L) v) = (if v = w then pri_clamp (priority (ws L w)) else priority (ws L v))"
proof -
  let ?s1 = "(ws L)(w := (ws L w)\<lparr>w_at := fadd (w_at (ws L w)) (mn_now L), priority := pri_clamp (priority (ws L w)), active := timercnt L + HEAP0\<rparr>)"
  let ?mx = "needsize 16 (timermax L) (timercnt L + HEAP0 + 1)"
  have mx: "Suc (timercnt L) + HEAP0 \<le> ?mx" using needsize_ge[of 16 "timercnt L + HEAP0 + 1" "timermax L"] by simp
  have "same_but_active ?s1 (ws (ev_timer_start w L))"
    unfolding ev_timer_start_eq[OF w(2)] using theap_insert(2)[OF T[unfolded timers_inv_def] w, of ?s1 ?mx, OF _ _ mx] by simp
  then show ?thesis using same_but_activeD(2) by fastforce
qed

lemma timer_start_loop:
  assumes I: "loop_inv L" and w: "kind w = KTimer" "w_repeat (ws L w) \<ge> 0"
  shows "keeps L (ev_timer_start w L)"
proof (cases "active (ws L w) = 0")
  case True
  note k = timer_start_inv[OF loop_invD(1,4)[OF I] w(1) True] and p = timer_start_priority[OF loop_invD(4)[OF I] w(1) True]
  have f: "others_same KTimer L (ev_timer_start w L)" "settled (ev_timer_start w L) = settled L"
    by (simp_all add: ev_timer_start_eq[OF True] frame_defs settled_def)
  show ?thesis by (rule timer_keepsI[OF I w(1) k(1,2) _ _ _ f])
      (use k(4-6) p w in \<open>simp_all add: pri_valid_def pri_clamp_def\<close>)
qed (simp add: ev_timer_start_def keeps_refl I)

lemma timer_stop_loop:
  assumes I: "loop_inv L" and w: "kind w = KTimer"
  shows "keeps L (ev_timer_stop w L)"
proof -
  note k = timer_stop_inv[OF loop_invD(1,4)[OF I] w]
  have f: "others_same KTimer L (ev_timer_stop w L)" "settled (ev_timer_stop w L) = settled L"
    by (simp_all add: ev_timer_stop_def Let_def) (simp_all add: base_defs put_timers_def frame_defs settled_def)
  have "active (ws (ev_timer_stop w L) w) = 0" using timer_active_iff[OF w, of "ev_timer_stop w L"] k(4) by simp
  then show ?thesis by (intro timer_keepsI[OF I w k(1,2,5) _ _ f]) (use k(4,6,8) in simp_all)
qed


subsection \<open>Pending events\<close>

text \<open>Feeding, clearing and popping touch only the queues and the field \<open>pending\<close>; \<open>KEmbed\<close> stands for no array at all.\<close>

lemma queue_keepsI:
  assumes "loop_inv L" "pend_inv L'" "ok L' = ok L" "settled L \<longrightarrow> settled L'" "others_same KEmbed L L'"
    and "\<forall>v. (ws L' v)\<lparr>pending := 0\<rparr> = (ws L v)\<lparr>pending := 0\<rparr>"
  shows "keeps L L'"
proof (rule keepsI[OF assms(1-5), where w = PendingW])
  have a: "active (ws L' v) = active (ws L v)" "priority (ws L' v) = priority (ws L v)" for v
    using arg_cong[OF assms(6)[rule_format, of v], of active] arg_cong[OF assms(6)[rule_format, of v], of priority] by simp_all
  show "\<forall>v. v \<noteq> PendingW \<longrightarrow> active (ws L' v) \<noteq> 0 \<longrightarrow> active (ws L v) \<noteq> 0 \<and> priority (ws L' v) = priority (ws L v)" using a by simp
  show "active (ws L' PendingW) \<noteq> 0 \<longrightarrow> pri_valid (ws L' PendingW)"
    using a[of PendingW] pri_invD[OF loop_invD(2)[OF assms(1)], of PendingW] by (simp add: pri_valid_def)
qed (use assms(6) in \<open>simp_all add: own_inv_def\<close>)

lemma feed_loop:
  assumes "loop_inv L" "pri_valid (ws L w)" "w \<noteq> PendingW"
  shows "keeps L (ev_feed_event w r L)"
proof (rule queue_keepsI[OF assms(1)])
  show "\<forall>v. (ws (ev_feed_event w r L) v)\<lparr>pending := 0\<rparr> = (ws L v)\<lparr>pending := 0\<rparr>"
    by (auto simp: ev_feed_event_def Let_def base_defs set_pending_def)
  show "pend_inv (ev_feed_event w r L)" by (rule feed_inv[OF loop_invD(1)[OF assms(1)] assms(2,3)])
qed (use loop_invD(1)[OF assms(1)] assms in \<open>simp_all add: feed_ok frame_defs\<close>)

lemma clear_loop:
  assumes "loop_inv L"
  shows "keeps L (clear_pending w L)"
  by (rule queue_keepsI[OF assms]) (use loop_invD(1)[OF assms] in \<open>simp_all add: clear_inv clear_ok frame_defs clear_w\<close>)

lemma pop_loop:
  assumes "loop_inv L" "settled L" "pendingcnt L (pendingpri L) \<noteq> 0"
  shows "keeps L (snd (pop_pending L))"
proof (rule queue_keepsI[OF assms(1)])
  show "pend_inv (snd (pop_pending L))" "ok (snd (pop_pending L)) = ok L" "settled L \<longrightarrow> settled (snd (pop_pending L))"
    using pop_inv[OF loop_invD(1)[OF assms(1)] assms(3)] assms(2) settled_pop by (auto simp: settled_def)
qed (simp_all add: pop_pending_def Let_def base_defs frame_defs set_pending_def)

lemma pendingpri_loop:
  assumes "loop_inv L"
  shows "loop_inv (L\<lparr>pendingpri := n\<rparr>)"
proof (rule loop_inv_frame[OF assms, where K = KEmbed])
  show "pend_inv (L\<lparr>pendingpri := n\<rparr>)" using loop_invD(1)[OF assms] pend_cong(1)[of "L\<lparr>pendingpri := n\<rparr>" L] by simp
qed (use loop_invD(2)[OF assms] in \<open>simp_all add: pri_inv_def frame_defs own_inv_def\<close>)

subsection \<open>Initialising a watcher that is not in use\<close>

lemma init_loop:
  assumes I: "loop_inv L" and w: "idle_w w L" "active (f (ws L w)) = 0" "pending (f (ws L w)) = 0"
  shows "keeps L (upd_w w f L)"
proof -
  let ?U = "upd_w w f L"
  note u = idle_upd_inv[where f = f, OF w]
  have a: "active (ws ?U v) = active (ws L v)" "active (ws L v) \<noteq> 0 \<Longrightarrow> ws ?U v = ws L v" for v
    using w by (auto simp: upd_w_def idle_w_def)
  have v: "others_same KEmbed L ?U" "settled ?U = settled L" "ok ?U = ok L" by (simp_all add: upd_w_def frame_defs settled_def)
  have fl: "idles ?U = idles L" "idlecnt ?U = idlecnt L" "idlemax ?U = idlemax L" "idleall ?U = idleall L" by (simp_all add: upd_w_def)
  have q: "(kind v = KIdle \<and> active (ws ?U v) \<noteq> 0 \<and> ABSPRI (ws ?U v) = p) = (kind v = KIdle \<and> active (ws L v) \<noteq> 0 \<and> ABSPRI (ws L v) = p)" for v p
    using a[of v] by auto
  have "warr (\<lambda>v. kind v = KIdle \<and> active (ws ?U v) \<noteq> 0 \<and> ABSPRI (ws ?U v) = p) (idles L p) (idlecnt L p) (idlemax L p) (ws ?U)" if "p < NUMPRI" for p
    by (rule warr_cong[of "\<lambda>v. kind v = KIdle \<and> active (ws L v) \<noteq> 0 \<and> ABSPRI (ws L v) = p" _ _ _ "ws L"])
      (use loop_invD(6)[OF I] that q a(1) in \<open>auto simp: idle_inv_def\<close>)
  moreover have "\<forall>v. kind v = KIdle \<and> active (ws ?U v) \<noteq> 0 \<longrightarrow> pri_valid (ws ?U v)" using loop_invD(6)[OF I] a by (auto simp: idle_inv_def)
  ultimately have "idle_inv ?U" using loop_invD(6)[OF I] unfolding idle_inv_def fl by blast
  moreover have "fam_inv K ?U" if "K \<in> fam_kinds" for K
  proof -
    obtain x n mx where x: "fam_v K L = (x, n, mx)" by (cases "fam_v K L") auto
    then have "fam_v K ?U = (x, n, mx)" using v(1) that by (auto simp: others_same_def)
    then show ?thesis using loop_invD(7)[OF I that] x a(1) by (auto simp: fam_inv_def intro: warr_cong)
  qed
  moreover have "periodics_inv ?U" using u(7)[of KPeriodic "periodics L" "periodicmax L" "periodiccnt L"] loop_invD(5)[OF I]
    by (simp add: periodics_inv_def) (simp add: upd_w_def)
  ultimately show ?thesis using u loop_invD[OF I] v unfolding keeps_def loop_inv_alt by blast
qed


subsection \<open>Programs over the interface\<close>

text \<open>
  The calls a program makes: initialisers and setters (on a watcher that is neither active nor pending, as the
  documentation demands), starts and stops, and feeding of events. \<open>api_ok\<close> is what the documentation or an assertion
  of the code asks of the caller; \<open>do_call\<close> is the routine.
\<close>

datatype api_call =
    Init W ev_cb | Set_priority W int | Io_set W int u32 | Timer_set W ev_tstamp ev_tstamp
  | Io_start W | Io_stop W | Io_modify W u32 | Timer_start W | Timer_stop W
  | Idle_start W | Idle_stop W | Prepare_start W | Prepare_stop W | Check_start W | Check_stop W
  | Fork_start W | Fork_stop W | Cleanup_start W | Cleanup_stop W | Feed_event W u32 | Clear_pending W

fun do_call :: "api_call \<Rightarrow> 'w ev_loop \<Rightarrow> 'w ev_loop" where
  "do_call (Init w cb) L = ev_init w cb L"
| "do_call (Set_priority w p) L = ev_set_priority w p L"
| "do_call (Io_set w fd e) L = ev_io_set w fd e L"
| "do_call (Timer_set w after rep) L = ev_timer_set w after rep L"
| "do_call (Io_start w) L = ev_io_start w L"
| "do_call (Io_stop w) L = ev_io_stop w L"
| "do_call (Io_modify w e) L = ev_io_modify w e L"
| "do_call (Timer_start w) L = ev_timer_start w L"
| "do_call (Timer_stop w) L = ev_timer_stop w L"
| "do_call (Idle_start w) L = ev_idle_start w L"
| "do_call (Idle_stop w) L = ev_idle_stop w L"
| "do_call (Prepare_start w) L = ev_prepare_start w L"
| "do_call (Prepare_stop w) L = ev_prepare_stop w L"
| "do_call (Check_start w) L = ev_check_start w L"
| "do_call (Check_stop w) L = ev_check_stop w L"
| "do_call (Fork_start w) L = ev_fork_start w L"
| "do_call (Fork_stop w) L = ev_fork_stop w L"
| "do_call (Cleanup_start w) L = ev_cleanup_start w L"
| "do_call (Cleanup_stop w) L = ev_cleanup_stop w L"
| "do_call (Feed_event w r) L = ev_feed_event w r L"
| "do_call (Clear_pending w) L = snd (ev_clear_pending w L)"

fun api_ok :: "api_call \<Rightarrow> 'w ev_loop \<Rightarrow> bool" where
  "api_ok (Init w _) L = idle_w w L"
| "api_ok (Set_priority w _) L = idle_w w L"
| "api_ok (Io_set w _ _) L = idle_w w L"
| "api_ok (Timer_set w _ _) L = idle_w w L"
| "api_ok (Io_start w) L = (kind w = KIo \<and> (active (ws L w) = 0 \<longrightarrow> io_args w L))"
| "api_ok (Io_stop w) L = (kind w = KIo)"
| "api_ok (Io_modify w _) L = (kind w = KIo)"
| "api_ok (Timer_start w) L = (kind w = KTimer \<and> w_repeat (ws L w) \<ge> 0)"
| "api_ok (Timer_stop w) L = (kind w = KTimer)"
| "api_ok (Idle_start w) L = (kind w = KIdle)"
| "api_ok (Idle_stop w) L = (kind w = KIdle)"
| "api_ok (Prepare_start w) L = (kind w = KPrepare)"
| "api_ok (Prepare_stop w) L = (kind w = KPrepare)"
| "api_ok (Check_start w) L = (kind w = KCheck)"
| "api_ok (Check_stop w) L = (kind w = KCheck)"
| "api_ok (Fork_start w) L = (kind w = KFork)"
| "api_ok (Fork_stop w) L = (kind w = KFork)"
| "api_ok (Cleanup_start w) L = (kind w = KCleanup)"
| "api_ok (Cleanup_stop w) L = (kind w = KCleanup)"
| "api_ok (Feed_event w _) L = (w \<noteq> PendingW \<and> pri_valid (ws L w))"
| "api_ok (Clear_pending w) L = True"

lemma clear_pending_loop: "loop_inv L \<Longrightarrow> keeps L (snd (ev_clear_pending w L))"
  using clear_loop[of L w] by (simp add: clear_eq)

lemma call_keeps: "loop_inv L \<Longrightarrow> api_ok c L \<Longrightarrow> keeps L (do_call c L)"
  by (cases c) (simp_all add: io_start_loop io_stop_loop io_modify_loop timer_start_loop timer_stop_loop idle_start_loop idle_stop_loop
      prepare.start_loop prepare.stop_loop check.start_loop check.stop_loop fork.start_loop fork.stop_loop cleanup.start_loop cleanup.stop_loop
      feed_loop clear_pending_loop init_loop ev_init_def ev_set_priority_def ev_io_set_def ev_timer_set_def idle_w_def)

text \<open>A program; a call whose conditions are not met is not made.\<close>

fun run_calls :: "api_call list \<Rightarrow> 'w ev_loop \<Rightarrow> 'w ev_loop" where
  "run_calls [] L = L"
| "run_calls (c # cs) L = run_calls cs (if api_ok c L then do_call c L else L)"

lemma run_calls_keeps: "loop_inv L \<Longrightarrow> keeps L (run_calls cs L)"
proof (induction cs arbitrary: L)
  case (Cons c cs)
  have "keeps L (if api_ok c L then do_call c L else L)" using call_keeps Cons.prems keeps_refl by auto
  then show ?case using Cons.IH keeps_trans by (fastforce simp: keeps_def)
qed (simp add: keeps_refl)

text \<open>Callbacks that run a program each, which may depend on the watcher, the events and the outside state.\<close>

definition script_cb :: "(W \<Rightarrow> u32 \<Rightarrow> 'w \<Rightarrow> api_call list) \<Rightarrow> W \<Rightarrow> u32 \<Rightarrow> 'w ev_loop \<Rightarrow> 'w ev_loop option" where
  "script_cb prog w r L = Some (run_calls (prog w r (os L)) L)"

interpretation script: callbacks "script_cb prog" "\<lambda>L. loop_inv L \<and> ok L" for prog
proof
  show "loop_inv (L\<lparr>pendingpri := n\<rparr>) \<and> ok (L\<lparr>pendingpri := n\<rparr>)" if "loop_inv L \<and> ok L" for L :: "'a ev_loop" and n
    using that by (simp add: pendingpri_loop)
next
  fix L L' :: "'a ev_loop" and w r assume "loop_inv L \<and> ok L" "settled L" "script_cb prog w r L = Some L'"
  then show "(loop_inv L' \<and> ok L') \<and> settled L'" using run_calls_keeps[of L "prog w r (os L)"] by (auto simp: script_cb_def keeps_def)
qed (use loop_invD(1) pop_loop in \<open>auto simp: keeps_def\<close>)


text \<open>Without feeding, a program leaves the length of the queues alone, and the callbacks come to an end.\<close>

definition queue_same :: "'w ev_loop \<Rightarrow> 'w ev_loop \<Rightarrow> bool" where
  "queue_same L L' \<longleftrightarrow> pendingcnt L' = pendingcnt L \<and> pendingpri L' = pendingpri L"

lemma call_queue:
  assumes "\<forall>w r. c \<noteq> Feed_event w r"
  shows "queue_same L (do_call c L)"
proof (cases c)
  case (Io_start w)
  have "queue_same L (ev_io_start w L)"
    by (rule io_start_pres) (simp_all add: queue_same_def base_defs need_anfds_def upd_fd_def fd_change_def Let_def)
  then show ?thesis using Io_start by simp
next
  case (Io_stop w)
  then show ?thesis by (simp add: queue_same_def ev_io_stop_def Let_def fd_change_def) (simp add: upd_fd_def base_defs)
next
  case (Io_modify w e)
  then show ?thesis by (simp add: queue_same_def ev_io_modify_def Let_def fd_change_def upd_fd_def base_defs)
next
  case (Timer_start w)
  then show ?thesis using ev_timer_start_eq[of L w] by (cases "active (ws L w) = 0") (simp_all add: queue_same_def ev_timer_start_def)
next
  case (Timer_stop w)
  then show ?thesis by (simp add: queue_same_def ev_timer_stop_def Let_def put_timers_def base_defs)
next
  case (Idle_start w)
  then show ?thesis using ev_idle_start_eq[of L w] by (cases "active (ws L w) = 0") (simp_all add: queue_same_def ev_idle_start_def)
next
  case (Idle_stop w)
  then show ?thesis by (simp add: queue_same_def ev_idle_stop_def Let_def base_defs)
qed (use assms in \<open>simp_all add: queue_same_def base_defs ev_init_def ev_set_priority_def ev_io_set_def ev_timer_set_def clear_eq Let_def
      ev_prepare_start_def ev_prepare_stop_def ev_check_start_def ev_check_stop_def ev_fork_start_def ev_fork_stop_def ev_cleanup_start_def ev_cleanup_stop_def\<close>)

definition no_feed :: "api_call list \<Rightarrow> bool" where
  "no_feed cs \<longleftrightarrow> (\<forall>c \<in> set cs. case c of Feed_event _ _ \<Rightarrow> False | _ \<Rightarrow> True)"

lemma run_calls_queue: "no_feed cs \<Longrightarrow> queue_same L (run_calls cs L)"
proof (induction cs arbitrary: L)
  case (Cons c cs)
  have "queue_same L (if api_ok c L then do_call c L else L)"
    using Cons.prems call_queue[of c L] by (auto simp: no_feed_def queue_same_def split: api_call.splits)
  then show ?case using Cons.IH[of "if api_ok c L then do_call c L else L"] Cons.prems by (simp add: queue_same_def no_feed_def)
qed (simp add: queue_same_def)

lemma invoke_returns:
  assumes "\<And>w r L. \<exists>L'. icb w r L = Some L' \<and> queue_same L L'" "pendingpri L < NUMPRI"
  shows "\<exists>L'. invoke_loop icb L = Some L'"
  using assms(2)
proof (induction "(\<Sum>p < NUMPRI. pendingcnt L p) + pendingpri L" arbitrary: L rule: less_induct)
  case less
  show ?case
  proof (cases "pendingcnt L (pendingpri L) = 0")
    case True
    show ?thesis
    proof (cases "pendingpri L = 0")
      case False
      have "\<exists>L'. invoke_loop icb (L\<lparr>pendingpri := pendingpri L - 1\<rparr>) = Some L'" by (rule less(1)) (use False less(2) in auto)
      then show ?thesis using True False by (subst invoke_loop.simps) simp
    qed (use True in \<open>subst invoke_loop.simps, simp\<close>)
  next
    case False
    define P where "P = snd (pop_pending L)"
    have P: "pendingpri P = pendingpri L" "pendingcnt P = (pendingcnt L)(pendingpri L := pendingcnt L (pendingpri L) - 1)"
      by (simp_all add: P_def pop_pending_def Let_def base_defs)
    obtain L1 where L1: "icb (ap_w (fst (pop_pending L))) (ap_events (fst (pop_pending L))) P = Some L1" "queue_same P L1" using assms(1) by blast
    have "(\<Sum>p < NUMPRI. pendingcnt P p) < (\<Sum>p < NUMPRI. pendingcnt L p)"
      by (rule sum_strict_mono_ex1) (use False less(2) P(2) in \<open>auto intro: bexI[of _ "pendingpri L"]\<close>)
    then have "\<exists>L'. invoke_loop icb L1 = Some L'" using L1(2) P(1) less(2) by (intro less(1)) (auto simp: queue_same_def)
    then show ?thesis using False L1(1) by (subst invoke_loop.simps) (simp add: P_def)
  qed
qed

subsection \<open>Properties\<close>

text \<open>A program all of whose calls are allowed where they are made: none is left out.\<close>

fun calls_ok :: "api_call list \<Rightarrow> 'w ev_loop \<Rightarrow> bool" where
  "calls_ok [] L = True"
| "calls_ok (c # cs) L = (api_ok c L \<and> calls_ok cs (do_call c L))"

lemma calls_ok_run: "calls_ok cs L \<Longrightarrow> fold do_call cs L = run_calls cs L"
  by (induction cs arbitrary: L) simp_all

text \<open>
  C28: Every program of the modelled calls (initialise, set priority, descriptor or times, start and stop of descriptor, timer,
  idle, prepare, check, fork and cleanup watchers, \<^verbatim>\<open>ev_io_modify\<close>, \<^verbatim>\<open>ev_feed_event\<close>, \<^verbatim>\<open>ev_clear_pending\<close>), each made
  under its condition \<open>api_ok\<close>, keeps the
  invariant of the whole loop: no assertion of the library fails, no array is accessed
  outside its allocation, and \<^verbatim>\<open>ev_verify\<close> accepts the result. One of the conditions is not in the documentation: a watcher
  may be fed an event only when its priority is in range. The second half says that the condition is needed: otherwise
  \<^verbatim>\<open>ev_feed_event\<close> indexes \<^verbatim>\<open>pendings\<close> outside its five entries.
\<close>

theorem api_programs_safe:
  assumes "loop_inv L" "ok L"
  shows "(calls_ok cs L \<longrightarrow> loop_inv (fold do_call cs L) \<and> ok (fold do_call cs L) \<and>
      (activecnt (fold do_call cs L) \<ge> - 1 \<longrightarrow> ok (ev_verify (fold do_call cs L)))) \<and>
    (\<not> pri_valid (ws L w) \<longrightarrow> \<not> ok (do_call (Feed_event w r) L))"
proof -
  have "loop_inv (run_calls cs L)" "ok (run_calls cs L)" using run_calls_keeps[OF assms(1), of cs] assms(2) by (auto simp: keeps_def)
  then show ?thesis using verify_id calls_ok_run[of cs L] feed_out_of_range[of L w r] by fastforce
qed

text \<open>
  What the documentation allows and the code does not bear: a watcher with a priority above \<^verbatim>\<open>EV_MAXPRI\<close>, which is "fine",
  initialised "but not necessarily started", is fed an event.
\<close>

lemma feed_documented_out_of_range:
  "\<not> ok (fold do_call [Init (TimerW 1) cb, Set_priority (TimerW 1) 10, Feed_event (TimerW 1) r] (loop_zero s))"
  using feed_out_of_range[of "ev_set_priority (TimerW 1) 10 (ev_init (TimerW 1) cb (loop_zero s))" "TimerW 1" r]
  by (simp add: ev_set_priority_def ev_init_def upd_w_def pri_valid_def)

definition ex_prog :: "api_call list" where
  "ex_prog = [Io_set (IoW 1) 5 EV_READ, Io_start (IoW 1), Timer_set (TimerW 1) 2 0, Timer_start (TimerW 1), Idle_start (IdleW 1),
     Feed_event (IoW 1) EV_READ, Io_stop (IoW 1), Prepare_start (PrepareW 1), Timer_stop (TimerW 1)]"

definition ex_calls :: "api_call list" where
  "ex_calls = [Io_set (IoW 1) 5 EV_READ, Timer_set (TimerW 1) 2 0, Timer_start (TimerW 1), Io_start (IoW 1), Feed_event (IoW 1) EV_READ,
     Io_stop (IoW 1), Timer_stop (TimerW 1)]"

lemma ex_calls_ok: "calls_ok ex_calls (loop_zero ())"
proof -
  define Z :: "unit ev_loop" where "Z = do_call (Timer_set (TimerW 1) 2 0) (do_call (Io_set (IoW 1) 5 EV_READ) (loop_zero ()))"
  have z: "ws (loop_zero ()) v = w_zero" for v by simp
  have ok: "api_ok (Io_set (IoW 1) 5 EV_READ) (loop_zero ())" "api_ok (Timer_set (TimerW 1) 2 0) (do_call (Io_set (IoW 1) 5 EV_READ) (loop_zero ()))"
    by (simp_all add: idle_w_def w_zero_def ev_io_set_def upd_w_def)
  have I: "loop_inv Z" using call_keeps[OF _ ok(2)] call_keeps[OF loop_inv_zero ok(1)] by (simp add: Z_def keeps_def)
  have w: "active (ws Z (TimerW 1)) = 0" "w_repeat (ws Z (TimerW 1)) = 0" "active (ws Z (IoW 1)) = 0" "w_fd (ws Z (IoW 1)) = 5"
    "w_events (ws Z (IoW 1)) = EV_READ OR EV__IOFDSET"
    by (simp_all add: Z_def ev_io_set_def ev_timer_set_def upd_w_def w_zero_def or.commute)
  define T where "T = ev_timer_start (TimerW 1) Z"
  have t: "ws T (IoW 1) = ws Z (IoW 1)"
    using timer_start_inv(6)[OF loop_invD(1,4)[OF I], of "TimerW 1" "IoW 1"] w(1) by (simp add: T_def)
  have J: "loop_inv T" using timer_start_loop[OF I, of "TimerW 1"] w(2) by (simp add: T_def keeps_def)
  have a: "io_args (IoW 1) T" by (simp add: io_args_def t w del: One_nat_def)
  have "pri_valid (ws (ev_io_start (IoW 1) T) (IoW 1))"
    using io_start_inv(9)[OF loop_invD(3,1)[OF J], of "IoW 1"] a t w(3) by (simp add: io_args_def)
  then show ?thesis using ok w(2) a unfolding ex_calls_def calls_ok.simps Z_def[symmetric] by (simp add: T_def[symmetric] del: One_nat_def)
qed

theorem api_programs_safe_witness:
  "loop_inv (fold do_call ex_calls (loop_zero ())) \<and> ok (fold do_call ex_calls (loop_zero ())) \<and>
    \<not> ok (do_call (Feed_event (TimerW 1) EV_TIMER) (ev_set_priority (TimerW 1) 10 (loop_zero ())))"
proof -
  have i: "loop_inv (ev_set_priority (TimerW 1) 10 (loop_zero ()))" "ok (ev_set_priority (TimerW 1) 10 (loop_zero ()))"
    using call_keeps[OF loop_inv_zero, of "Set_priority (TimerW 1) 10" "()"] by (simp_all add: keeps_def idle_w_def w_zero_def)
  show ?thesis using api_programs_safe[OF loop_inv_zero, of "()" ex_calls] ex_calls_ok
      api_programs_safe[OF i, where w = "TimerW 1" and r = EV_TIMER] by (simp add: ev_set_priority_def upd_w_def pri_valid_def)
qed

text \<open>
  C29: \<^verbatim>\<open>ev_invoke_pending\<close> with callbacks that themselves start, stop, initialise and feed watchers, including those that
  wait in the queues: when it returns nothing is pending any more, whatever the callbacks fed on the way, the invariant of
  the whole loop holds and no assertion has failed. Callbacks that feed nothing are called finitely often: it returns.
\<close>

theorem invoke_reentrant_safe:
  assumes "loop_inv L" "ok L"
  shows "(\<forall>L'. ev_invoke_pending (script_cb prog) L = Some L' \<longrightarrow> loop_inv L' \<and> ok L' \<and> no_pending L') \<and>
    ((\<forall>w r s. no_feed (prog w r s)) \<longrightarrow> (\<exists>L'. ev_invoke_pending (script_cb prog) L = Some L' \<and> loop_inv L' \<and> ok L' \<and> no_pending L'))"
proof -
  have s: "loop_inv L' \<and> ok L' \<and> no_pending L'" if "ev_invoke_pending (script_cb prog) L = Some L'" for L'
    using script.invoke_empties[OF that] assms by simp
  have "\<exists>L'. ev_invoke_pending (script_cb prog) L = Some L'" if "\<forall>w r s. no_feed (prog w r s)"
    unfolding ev_invoke_pending_def by (rule invoke_returns) (use that in \<open>auto simp: script_cb_def run_calls_queue\<close>)
  then show ?thesis using s by blast
qed

theorem invoke_reentrant_safe_witness:
  "\<exists>L'. ev_invoke_pending (script_cb (\<lambda>w r s. [Io_stop w, Idle_start (IdleW 2)])) (run_calls ex_prog (loop_zero ())) = Some L' \<and> loop_inv L' \<and> ok L' \<and> no_pending L'"
  using invoke_reentrant_safe[of "run_calls ex_prog (loop_zero ())" "\<lambda>w r s. [Io_stop w, Idle_start (IdleW 2)]"]
    run_calls_keeps[OF loop_inv_zero, of "()" ex_prog] by (simp add: keeps_def no_feed_def)

end
