(* ===== verification/Io_Inv.thy ===== *)
theory Io_Inv
  imports Backend Loop_Api
begin

section \<open>What a backend does when it polls\<close>

text \<open>
  A backend reports readiness through \<^verbatim>\<open>fd_event\<close>, gives a descriptor up through \<^verbatim>\<open>fd_kill\<close>, and the one-shot backends
  re-arm it by clearing the recorded mask and queueing it for \<^verbatim>\<open>fd_reify\<close>. Each of these keeps the invariants of
  descriptors, pending queues and priorities, and stays inside the allocated arrays.
\<close>

definition io_inv :: "'w ev_loop \<Rightarrow> bool" where
  "io_inv L \<longleftrightarrow> fd_inv L \<and> pend_inv L \<and> pri_inv L"

text \<open>The step keeps the invariant, fails no check, and touches neither the size of the descriptor table nor the outside.\<close>

definition io_keeps :: "'w ev_loop \<Rightarrow> 'w ev_loop \<Rightarrow> bool" where
  "io_keeps L L' \<longleftrightarrow> io_inv L' \<and> ok L' = ok L \<and> anfdmax L' = anfdmax L \<and> os L' = os L"

lemma io_keeps_trans: "io_keeps L M \<Longrightarrow> io_keeps M N \<Longrightarrow> io_keeps L N"
  by (simp add: io_keeps_def)

lemma io_keeps_refl: "io_inv L \<Longrightarrow> io_keeps L L"
  by (simp add: io_keeps_def)

lemma io_inv_core:
  assumes "core L' = core L"
  shows "io_inv L' = io_inv L"
  unfolding io_inv_def core_inv[OF assms] ..

lemma io_inv_os [simp]: "io_inv (L\<lparr>os := s\<rparr>) = io_inv L"
  by (rule io_inv_core) (simp add: core_def)

lemma io_inv_pri: "io_inv L \<Longrightarrow> fd_in fd L \<Longrightarrow> \<forall>w \<in> set (anfd_head (anfds L fd)). pri_valid (ws L w)"
  using fd_listsD(2)[of "ws L" "anfds L" "anfdmax L" fd] by (auto simp: io_inv_def fd_inv_def pri_inv_def fd_in_def)

lemma pending_active: "(x :: ev_watcher)\<lparr>pending := 0\<rparr> = y\<lparr>pending := 0\<rparr> \<Longrightarrow> active x = active y \<and> pri_valid x = pri_valid y"
  by (frule arg_cong[where f = active], drule arg_cong[where f = priority]) (simp add: pri_valid_def)

lemma feed_fold_frame:
  "os (fold (\<lambda>w L. let ev = w_events (ws L w) AND (r :: u32) in if ev \<noteq> 0 then ev_feed_event w ev L else L) vs L) = os L"
  "anfdmax (fold (\<lambda>w L. let ev = w_events (ws L w) AND (r :: u32) in if ev \<noteq> 0 then ev_feed_event w ev L else L) vs L) = anfdmax L"
  by (induction vs arbitrary: L) (simp_all add: Let_def)

lemma fd_event_io:
  fixes r :: u32
  assumes I: "io_inv L" and fd: "fd_in fd L"
  shows "io_keeps L (fd_event fd r L)" "anfds (fd_event fd r L) = anfds L"
proof -
  let ?M = "L\<lparr>iofed := iofed L + 1\<rparr>"
  have M: "io_inv ?M" "fd_in fd ?M" using I fd io_inv_core[of ?M L] by (simp_all add: core_def fd_in_def)
  note F = fd_event_nocheck_feeds[of ?M fd r, OF _ _ M(2) io_inv_pri[OF M]]
  have f: "fd_inv ?M" "pend_inv ?M" using M(1) by (simp_all add: io_inv_def)
  note F = F[OF f]
  have p: "pri_inv (fd_event_nocheck fd r ?M)" using F M(1) pending_active unfolding io_inv_def pri_inv_def by metis
  show "io_keeps L (fd_event fd r L)" "anfds (fd_event fd r L) = anfds L"
    using F I p fd feed_fold_frame[of r "anfd_head (anfds L fd)" ?M]
    by (simp_all add: fd_event_def Let_def io_keeps_def io_inv_def fd_event_nocheck_def fd_in_def)
qed

lemma rearm_io:
  fixes fl :: u8
  assumes I: "io_inv L" and fd: "fd_in fd L"
  defines "L' \<equiv> fd_change fd fl (upd_fd fd (\<lambda>a. a\<lparr>anfd_events := 0\<rparr>) L)"
  shows "io_keeps L L'" "fd \<in> fd_changes L'" "anfd_events (anfds L' fd) = 0"
proof -
  let ?U = "upd_fd fd (\<lambda>a. a\<lparr>anfd_events := 0\<rparr>) L"
  note F = I[unfolded io_inv_def fd_inv_def]
  have u: "ws ?U = ws L" "anfdmax ?U = anfdmax L" "fdchanges ?U = fdchanges L" "fdchangecnt ?U = fdchangecnt L" "fdchangemax ?U = fdchangemax L"
    "iocnt ?U = iocnt L" "anfds ?U = (anfds L)(fd := (anfds L fd)\<lparr>anfd_events := 0\<rparr>)" "fd_in fd ?U" "ok ?U = ok L" "fd_changes ?U = fd_changes L" "os ?U = os L"
    using fd by (simp_all add: upd_fd_def fd_in_def fd_changes_def)
  have c: "fd_chg (anfds ?U) (anfdmax ?U) (fdchanges ?U) (fdchangecnt ?U) (fdchangemax ?U)" using F by (simp add: u fd_chg_def)
  have "fd_inv L'" unfolding L'_def
  proof (rule fd_change_inv[OF u(8) _ c])
    show "fd_lists (ws ?U) (anfds ?U) (anfdmax ?U)" using F by (auto simp: u fd_lists_def)
    show "fd_sync (ws ?U) (anfds ?U) (anfdmax ?U) (insert fd (fd_changes ?U))" using F by (simp add: u fd_sync_def)
    show "iocnt ?U = fd_count (anfds ?U) (anfdmax ?U)" using F by (auto simp: u fd_count_def intro!: sum.cong)
  qed
  moreover have "pend_inv L'" using I pend_cong(1)[of L' L] by (simp add: L'_def u io_inv_def) (simp add: upd_fd_def)
  moreover have "pri_inv L'" using I by (simp add: L'_def pri_inv_def u io_inv_def)
  moreover have "ok L' = ok L" unfolding L'_def using fd_change_ok[OF u(8)] u by simp
  ultimately show "io_keeps L L'" by (simp add: io_keeps_def io_inv_def) (simp add: L'_def u)
  show "fd \<in> fd_changes L'" unfolding L'_def using fd_change_chg(2)[OF u(8) c] by simp
  show "anfd_events (anfds L' fd) = 0" by (simp add: L'_def fd_change_anfds u)
qed

lemma fd_kill_frame:
  assumes "fd_kill fd L = Some L'"
  shows "os L' = os L \<and> anfdmax L' = anfdmax L"
proof -
  have "os (ev_io_stop w L) = os L \<and> anfdmax (ev_io_stop w L) = anfdmax L" for w and L :: "'a ev_loop"
    by (simp add: ev_io_stop_def Let_def) (simp add: upd_fd_def base_defs)
  then have "fd = fd \<longrightarrow> os L' = os L \<and> anfdmax L' = anfdmax L"
    by (intro fd_kill.raw_induct[where P = "\<lambda>i L L'. i = fd \<longrightarrow> os L' = os L \<and> anfdmax L' = anfdmax L", OF _ assms])
      (auto split: list.splits)
  then show ?thesis by simp
qed

lemma fd_kill_io:
  assumes I: "io_inv L" and fd: "fd_in fd L"
  shows "\<exists>L'. fd_kill fd L = Some L' \<and> io_keeps L L'"
proof -
  have f: "fd_inv L" "pend_inv L" using I by (simp_all add: io_inv_def)
  obtain L' where k: "fd_kill fd L = Some L'" "fd_inv L'" "pend_inv L'" "ok L' = ok L"
    "\<forall>w. w \<notin> set (anfd_head (anfds L fd)) \<longrightarrow> ws L' w = ws L w" "\<forall>w \<in> set (anfd_head (anfds L fd)). active (ws L' w) = 0"
    using fd_kill_returns[OF f fd io_inv_pri[OF I fd]] by blast
  have "pri_inv L'" using I k(5,6) unfolding io_inv_def pri_inv_def by metis
  then show ?thesis using k fd_kill_frame[OF k(1)] by (auto simp: io_keeps_def io_inv_def)
qed

subsection \<open>What start and stop leave alone\<close>

lemma io_stop_frame:
  "activecnt (ev_io_stop w L) = (if active (ws L w) = 0 then activecnt L else activecnt L - 1)" "v \<noteq> w \<Longrightarrow> ws (ev_io_stop w L) v = ws L v"
  using clear_other[of v w L] by (simp_all add: ev_io_stop_def Let_def) (simp_all add: upd_fd_def base_defs)

lemma start_frame:
  "activecnt (need_anfds fd L) = activecnt L" "ws (need_anfds fd L) = ws L" "activecnt (chk b L) = activecnt L" "ws (chk b L) = ws L"
  "activecnt (upd_fd fd f L) = activecnt L" "ws (upd_fd fd f L) = ws L" "activecnt (upd_w w g L) = activecnt L" "ws (upd_w w g L) = (ws L)(w := g (ws L w))"
  "activecnt (ev_start w n L) = activecnt L + 1" "v \<noteq> w \<Longrightarrow> ws (ev_start w n L) v = ws L v" "active (ws (ev_start w n L) w) = n"
  by (simp_all add: need_anfds_def Let_def chk_def upd_fd_def upd_w_def ev_start_def ev_ref_def pri_adjust_def)

lemma io_start_frame:
  assumes "active (ws L w) = 0"
  shows "activecnt (ev_io_start w L) = activecnt L + 1" "v \<noteq> w \<Longrightarrow> ws (ev_io_start w L) v = ws L v" "active (ws (ev_io_start w L) w) = 1"
  using assms by (simp_all add: ev_io_start_def Let_def start_frame)

subsection \<open>An example\<close>

text \<open>A loop with a watcher on descriptor 0.\<close>

definition ex_watch :: "'w \<Rightarrow> 'w ev_loop" where
  "ex_watch s = run_calls [Io_set (IoW 1) 0 EV_READ, Io_start (IoW 1)] (loop_zero s)"

lemma loop_inv_io: "loop_inv L \<Longrightarrow> io_inv L"
  by (simp add: io_inv_def loop_invD)

lemma ex_watch_facts [simp]: "io_inv (ex_watch s)" "os (ex_watch s) = s" "fd_in 0 (ex_watch s)"
proof -
  show i: "io_inv (ex_watch s)" unfolding ex_watch_def
    by (rule loop_inv_io) (rule run_calls_keeps[OF loop_inv_zero, unfolded keeps_def, THEN conjunct1])
  define Z where "Z = ev_io_set (IoW 1) 0 EV_READ (loop_zero s)"
  have z: "api_ok (Io_set (IoW 1) 0 EV_READ) (loop_zero s)" "api_ok (Io_start (IoW 1)) Z"
    by (simp_all add: Z_def idle_w_def w_zero_def ev_io_set_def upd_w_def io_args_def)
  have e: "ex_watch s = ev_io_start (IoW 1) Z"
    unfolding ex_watch_def run_calls.simps if_P[OF z(1)] do_call.simps Z_def[symmetric] if_P[OF z(2)] ..
  have "os (ev_io_start (IoW 1) Z) = os Z"
    by (rule io_start_pres) (simp_all add: base_defs need_anfds_def upd_fd_def fd_change_def Let_def)
  then show "os (ex_watch s) = s" by (simp add: e Z_def ev_io_set_def upd_w_def loop_zero_def)
  have a: "active (ws Z (IoW 1)) = 0" "w_fd (ws Z (IoW 1)) = 0" by (simp_all add: Z_def ev_io_set_def upd_w_def w_zero_def)
  have "active (ws (ex_watch s) (IoW 1)) = 1" using io_start_frame(3)[OF a(1)] by (simp add: e)
  moreover have "w_fd (ws (ex_watch s) (IoW 1)) = 0"
  proof -
    have "w_fd (ws (ev_io_start (IoW 1) Z) (IoW 1)) = 0"
      by (rule io_start_pres) (use a(2) in \<open>auto simp: start_frame upd_w_def ev_start_def pri_adjust_def ev_ref_def Let_def\<close>)
    then show ?thesis by (simp add: e)
  qed
  ultimately show "fd_in 0 (ex_watch s)"
    using i fd_listsD(3)[of "ws (ex_watch s)" "anfds (ex_watch s)" "anfdmax (ex_watch s)" "IoW 1"] by (simp add: io_inv_def fd_inv_def fd_in_def)
qed

end
