(* ===== verification/Iouring_Spec.thy ===== *)
theory Iouring_Spec
  imports Backend_Iouring Io_Inv
begin

section \<open>What the io_uring backend guarantees\<close>

subsection \<open>Ring positions\<close>

text \<open>A position is a wrapping counter, its slot the low bits: the ring size is a power of two.\<close>

definition ring_mask :: "u32 \<Rightarrow> u32 \<Rightarrow> bool" where
  "ring_mask entries msk \<longleftrightarrow> (\<exists>k \<le> 31. entries = push_bit k 1 \<and> msk = mask k)"

lemma ring_slot:
  assumes "ring_mask n msk"
  shows "unat (x AND msk) = unat x mod unat n" "x AND msk < n" "unat n dvd 2 ^ 32" "n \<noteq> 0"
proof -
  obtain k where k: "k \<le> 31" "n = push_bit k 1" "msk = mask k" using assms by (auto simp: ring_mask_def)
  have "(2 :: nat) ^ k < 2 ^ 32" using k(1) by (intro power_strict_increasing) auto
  moreover have "n = of_nat (2 ^ k)" by (simp add: k(2) push_bit_eq_mult)
  ultimately have n: "unat n = 2 ^ k" by (simp only: unat_of_nat) simp
  show s: "unat (x AND msk) = unat x mod unat n"
    unfolding n k(3) take_bit_eq_mask[symmetric] unsigned_take_bit_eq using take_bit_eq_mod[of k "unat x"] k(1) by simp
  show "x AND msk < n" unfolding word_less_nat_alt s by (simp add: n)
  show "unat n dvd 2 ^ 32" unfolding n using k(1) by (intro le_imp_power_dvd) simp
  show "n \<noteq> 0" using n by (metis power_not_zero unat_eq_0 zero_neq_numeral)
qed




subsection \<open>The submission queue\<close>

text \<open>The requests that are published and not yet taken by the kernel, oldest first.\<close>

definition sq_list :: "'v uring \<Rightarrow> io_uring_sqe list" where
  "sq_list U = map (\<lambda>i. sqes U (sq_array U ((sq_head U + of_nat i) AND sq_ring_mask U))) [0..<unat (sq_tail U - sq_head U)]"

definition sq_ok :: "'v uring \<Rightarrow> bool" where
  "sq_ok U \<longleftrightarrow> ring_mask (iouring_sq_ring_entries U) (sq_ring_mask U) \<and> sq_tail U - sq_head U \<le> iouring_sq_ring_entries U \<and>
     iouring_to_submit U = sq_tail U - sq_head U \<and>
     (\<forall>i < unat (sq_tail U - sq_head U). sq_array U ((sq_head U + of_nat i) AND sq_ring_mask U) = (sq_head U + of_nat i) AND sq_ring_mask U)"







subsection \<open>No request is lost\<close>














subsection \<open>Completions keep the loop in order\<close>

lemma rearm_loop: "io_inv L \<Longrightarrow> fd_in fd L \<Longrightarrow> io_keeps L (iouring_rearm fd L)"
  unfolding iouring_rearm_def by (rule rearm_io(1))

text \<open>With an error callback installed \<^verbatim>\<open>ev_syserr\<close> returns; it sees the outside state only.\<close>

lemma cqe_one_keeps:
  assumes I: "io_inv L" and h: "env_syserr env = Some h"
  shows "\<exists>L' U. cqe_one env c L = Some L' \<and> io_keeps (L\<lparr>os := U\<rparr>) L' \<and> (U = os L \<or> U = h (os L))"
proof -
  define fd where "fd = sint (ucast (cqe_user_data c) :: u32)"
  note d = cqe_one_def Let_def fd_def[symmetric]
  show ?thesis
  proof (cases "cqe_user_data c = USERDATA_REMOVE \<or> fd < 0 \<or> fd \<ge> int (anfdmax L) \<or> anfd_egen (anfds L fd) \<noteq> ucast (drop_bit 32 (cqe_user_data c))")
    case True
    then have "cqe_one env c L = Some L" by (auto simp: d)
    then show ?thesis using io_keeps_refl[OF I] by (intro exI[of _ L] exI[of _ "os L"]) simp
  next
    case False
    then have fd: "fd_in fd L" by (auto simp: fd_in_def)
    have e: "io_keeps L (fd_event fd r L)" "fd_in fd (fd_event fd r L)" for r
      using fd_event_io(1)[OF I fd] fd by (auto simp: fd_in_def io_keeps_def)
    have r: "io_keeps L (iouring_rearm fd (fd_event fd r L))" for r using e[of r] rearm_loop[of "fd_event fd r L"] io_keeps_trans by (auto simp: io_keeps_def)
    have L: "L\<lparr>os := os L\<rparr> = L" by simp
    obtain K where K: "fd_kill fd L = Some K" "io_keeps L K" using fd_kill_io[OF I fd] by blast
    have s: "ev_syserr env L = Some (L\<lparr>os := h (os L)\<rparr>)" "io_keeps (L\<lparr>os := h (os L)\<rparr>) (L\<lparr>os := h (os L)\<rparr>)"
      using h I by (auto simp: ev_syserr_def io_keeps_def)
    have "cqe_one env c L \<in> {Some K, Some (iouring_rearm fd L), ev_syserr env L, Some (iouring_rearm fd (fd_event fd (cqe_events (cqe_res c)) L)), Some L}"
      using False K(1) by (auto simp: d)
    moreover have "\<exists>L' U. Some M = Some L' \<and> io_keeps (L\<lparr>os := U\<rparr>) L' \<and> (U = os L \<or> U = h (os L))" if "io_keeps L M" for M
      using that by (intro exI[of _ M] exI[of _ "os L"]) (simp only: L simp_thms)
    ultimately show ?thesis using K(2) rearm_loop[OF I fd] s r[of "cqe_events (cqe_res c)"] io_keeps_refl[OF I] by fastforce
  qed
qed

lemma unat_Suc_le: "unat (x + 1 :: u32) \<le> Suc (unat x)"
  by (simp add: unat_word_ariths)

text \<open>The kernel and the error callback leave the geometry of the completion ring alone.\<close>

definition cq_geometry :: "'v uring \<Rightarrow> u32 \<times> u32" where
  "cq_geometry U = (iouring_cq_ring_entries U, cq_ring_mask U)"

lemma drain_keeps:
  assumes h: "env_syserr env = Some h" "\<forall>U. cq_geometry (h U) = cq_geometry U" "\<forall>U. cq_geometry (sys_progress sys U) = cq_geometry U"
    and M: "ring_mask n msk"
  shows "io_inv L \<Longrightarrow> cq_geometry (os L) = (n, msk) \<Longrightarrow>
    \<exists>hd L'. cq_drain_from env sys msk left p L = Some (hd, L') \<and> io_inv L' \<and> ok L' = ok L \<and> cq_geometry (os L') = (n, msk) \<and> unat (hd - p) \<le> left"
proof (induction left arbitrary: p L)
  case 0
  then show ?case using h(3) by (subst cq_drain_from.simps) (simp add: Let_def upd_os_def)
next
  case (Suc left)
  define T where "T = upd_os (sys_progress sys) L"
  have T: "io_inv T" "ok T = ok L" "cq_geometry (os T) = (n, msk)" using Suc.prems h(3) by (simp_all add: T_def upd_os_def)
  show ?case
  proof (cases "p = cq_tail (os T)")
    case True
    then show ?thesis using T by (subst cq_drain_from.simps) (simp add: Let_def T_def[symmetric])
  next
    case False
    have b: "p AND msk < iouring_cq_ring_entries (os T)" using ring_slot(2)[OF M, of p] T(3) by (simp add: cq_geometry_def)
    obtain L1 U where o: "cqe_one env (cqes (os T) (p AND msk)) T = Some L1" "io_keeps (T\<lparr>os := U\<rparr>) L1" "U = os T \<or> U = h (os T)"
      using cqe_one_keeps[OF T(1) h(1)] by blast
    have L1: "io_inv L1" "ok L1 = ok L" "cq_geometry (os L1) = (n, msk)" using o(2,3) T h(2) by (auto simp: io_keeps_def)
    obtain hd L' where r: "cq_drain_from env sys msk left (p + 1) L1 = Some (hd, L')" "io_inv L'" "ok L' = ok L1" "cq_geometry (os L') = (n, msk)" "unat (hd - (p + 1)) \<le> left"
      using Suc.IH[OF L1(1,3)] by blast
    have "unat (hd - p) \<le> Suc left"
      using r(5) unat_Suc_le[of "hd - (p + 1)"] by (simp add: algebra_simps)
    moreover have "cq_drain_from env sys msk (Suc left) p L = Some (hd, L')"
      using False o(1) r(1) b by (subst cq_drain_from.simps) (simp add: Let_def T_def[symmetric])
    ultimately show ?thesis using r L1(2) by blast
  qed
qed

lemma cq_drain_keeps:
  assumes I: "io_inv L" and h: "env_syserr env = Some h" "\<forall>U. cq_geometry (h U) = cq_geometry U" "\<forall>U. cq_geometry (sys_progress sys U) = cq_geometry U"
    and M: "ring_mask (iouring_cq_ring_entries (os L)) (cq_ring_mask (os L))"
  shows "\<exists>L'. iouring_cq_drain env sys L = Some L' \<and> io_inv L' \<and> ok L' = ok L \<and> unat (cq_head (os L') - cq_head (os L)) \<le> IOURING_CQ_DRAIN_BUDGET"
  using drain_keeps[OF h M I, of IOURING_CQ_DRAIN_BUDGET "cq_head (os L)"] by (auto simp: iouring_cq_drain_def cq_geometry_def upd_os_def)


subsection \<open>The mapped regions\<close>

lemma u64_affine:
  assumes "c \<le> 64"
  shows "unat (ucast (a :: u32) + ucast (b :: u32) * of_nat c :: u64) = unat a + unat b * c" "unat (ucast b * of_nat c :: u64) = unat b * c"
proof -
  have ab: "unat a < 2 ^ 32" "unat b < 2 ^ 32" using unsigned_less[of a] unsigned_less[of b] by simp_all
  have "unat b * c \<le> 2 ^ 32 * 64" using ab assms by (intro mult_le_mono) auto
  then show "unat (ucast a + ucast b * of_nat c :: u64) = unat a + unat b * c" "unat (ucast b * of_nat c :: u64) = unat b * c"
    using ab assms by (simp_all add: unat_word_ariths unat_of_nat unsigned_ucast_eq take_bit_eq_mod)
qed

lemma layout_bounds:
  assumes l: "iouring_validate_ring_layout p = Some (sq, cq, sqe)" and o: "iouring_validate_ptr_offsets p sq cq"
  shows "unat sq = unat (sq_off_array p) + unat (sq_entries p) * 4" "unat cq = unat (cq_off_cqes p) + unat (cq_entries p) * 16"
    "unat sqe = unat (sq_entries p) * 64" "unat sq \<le> 33554432" "unat cq \<le> 33554432" "unat sqe \<le> 33554432"
    "off \<in> {sq_off_head p, sq_off_tail p, sq_off_ring_mask p, sq_off_flags p} \<Longrightarrow> unat off + 4 \<le> unat sq"
    "off \<in> {cq_off_head p, cq_off_tail p, cq_off_ring_mask p} \<Longrightarrow> unat off + 4 \<le> unat cq"
proof -
  define s64 where "s64 = (ucast (sq_off_array p) + ucast (sq_entries p) * 4 :: u64)"
  define c64 where "c64 = (ucast (cq_off_cqes p) + ucast (cq_entries p) * 16 :: u64)"
  define e64 where "e64 = (ucast (sq_entries p) * 64 :: u64)"
  have v: "sq = ucast s64" "cq = ucast c64" "sqe = ucast e64" "s64 \<le> 33554432" "c64 \<le> 33554432" "e64 \<le> 33554432"
    using l by (simp_all add: iouring_validate_ring_layout_def Let_def s64_def c64_def e64_def not_less split: if_splits)
  have u: "unat s64 = unat (sq_off_array p) + unat (sq_entries p) * 4" "unat c64 = unat (cq_off_cqes p) + unat (cq_entries p) * 16"
    "unat e64 = unat (sq_entries p) * 64"
    using u64_affine(1)[of 4 "sq_off_array p" "sq_entries p"] u64_affine(1)[of 16 "cq_off_cqes p" "cq_entries p"] u64_affine(2)[of 64 "sq_entries p"]
    by (simp_all add: s64_def c64_def e64_def)
  have n: "unat s64 \<le> 33554432" "unat c64 \<le> 33554432" "unat e64 \<le> 33554432" using v(4-6) by (simp_all add: word_le_nat_alt)
  have "unat sq = unat s64" "unat cq = unat c64" "unat sqe = unat e64"
    using n by (simp_all add: v(1-3) unsigned_ucast_eq take_bit_eq_mod)
  note w = this
  show "unat sq = unat (sq_off_array p) + unat (sq_entries p) * 4" "unat cq = unat (cq_off_cqes p) + unat (cq_entries p) * 16"
    "unat sqe = unat (sq_entries p) * 64" "unat sq \<le> 33554432" "unat cq \<le> 33554432" "unat sqe \<le> 33554432" using w u n by simp_all
  have i: "unat off + 4 \<le> unat sz" if "ucast off + 4 \<le> (ucast sz :: u64)" for off sz :: u32
    using that u64_affine(1)[of 4 off 1] by (simp add: word_le_nat_alt unsigned_ucast_eq take_bit_eq_mod)
  show "off \<in> {sq_off_head p, sq_off_tail p, sq_off_ring_mask p, sq_off_flags p} \<Longrightarrow> unat off + 4 \<le> unat sq"
    "off \<in> {cq_off_head p, cq_off_tail p, cq_off_ring_mask p} \<Longrightarrow> unat off + 4 \<le> unat cq"
    using o i by (auto simp: iouring_validate_ptr_offsets_def Let_def)
qed

subsection \<open>Fork\<close>

lemma rearm_frame: "activecnt (fd_rearm_upto n L) = activecnt L \<and> ws (fd_rearm_upto n L) = ws L"
  by (induction n) (simp_all add: Let_def upd_fd_def)

text \<open>The watchers but the backend's own, and the count of references.\<close>

definition refs_of :: "'w ev_loop \<Rightarrow> int \<times> (W \<Rightarrow> ev_watcher)" where
  "refs_of L = (activecnt L, (ws L)(IouringTfdW := w_zero))"

lemma refs_upd_os [simp]: "refs_of (upd_os f L) = refs_of L" "ws (upd_os f L) = ws L" "activecnt (upd_os f L) = activecnt L" "refs_of (L\<lparr>os := U\<rparr>) = refs_of L"
  by (simp_all add: refs_of_def upd_os_def)

lemma unmap_frame [simp]: "refs_of (iouring_unmap sys L) = refs_of L" "refs_of (iouring_close env L) = refs_of L" "ws (iouring_unmap sys L) = ws L"
  by (simp_all add: iouring_unmap_def iouring_close_def Let_def)

lemma init_frame:
  assumes "iouring_init env sys L = Some (r, L')"
  shows "refs_of L' = refs_of L" "r \<noteq> 0 \<Longrightarrow> active (ws L' IouringTfdW) = 1"
proof -
  have t: "refs_of (snd (iouring_init_timer env sys M)) = refs_of M \<and> (fst (iouring_init_timer env sys M) \<noteq> 0 \<longrightarrow> active (ws (snd (iouring_init_timer env sys M)) IouringTfdW) = 1)" for M
  proof -
    obtain tfd U where t: "sys_tfd_create sys (os M) = (tfd, U)" by fastforce
    define N where "N = upd_os (\<lambda>U. U\<lparr>iouring_tfd_to := EV_TSTAMP_HUGE\<rparr>) (M\<lparr>os := U\<lparr>iouring_tfd := tfd\<rparr>\<rparr>)"
    define I where "I = ev_set_priority IouringTfdW EV_MINPRI (ev_io_init IouringTfdW IouringTfdCb tfd EV_READ N)"
    have N: "activecnt N = activecnt M" "ws N = ws M" by (simp_all add: N_def upd_os_def)
    have I: "active (ws I IouringTfdW) = 0" "activecnt I = activecnt M" "v \<noteq> IouringTfdW \<Longrightarrow> ws I v = ws M v" for v
      by (simp_all add: I_def ev_set_priority_def ev_io_init_def ev_io_set_def ev_init_def start_frame N)
    note F = io_start_frame[OF I(1)]
    have "refs_of (ev_unref (ev_io_start IouringTfdW I)) = refs_of M" using F I by (auto simp: refs_of_def ev_unref_def)
    moreover have "active (ws (ev_unref (ev_io_start IouringTfdW I)) IouringTfdW) = 1" using F(3) by (simp add: ev_unref_def)
    ultimately show ?thesis
      by (simp add: iouring_init_timer_def t Let_def N_def[symmetric] I_def[symmetric]) (simp add: refs_of_def)
  qed
  have t': "refs_of N = refs_of M \<and> (q \<noteq> 0 \<longrightarrow> active (ws N IouringTfdW) = 1)" if "iouring_init_timer env sys M = (q, N)" for M q N
    using t[of M] that by simp
  obtain p M where m: "iouring_setup sys L = (p, M)" by fastforce
  have M: "refs_of M = refs_of L" using m by (auto simp: iouring_setup_def Let_def split: prod.splits if_splits)
  have mp: "refs_of Q' = refs_of Q" if "iouring_map sys p Q = Some Q'" for Q Q'
    using that by (auto simp: iouring_map_def Let_def split: bind_splits)
  have "refs_of L' = refs_of L \<and> (r \<noteq> 0 \<longrightarrow> active (ws L' IouringTfdW) = 1)"
    using assms M mp by (auto simp: iouring_init_def m Let_def split: if_splits option.splits prod.splits dest!: t')
  then show "refs_of L' = refs_of L" "r \<noteq> 0 \<Longrightarrow> active (ws L' IouringTfdW) = 1" by auto
qed


lemma reinit_frame:
  assumes "iouring_reinit env sys L = Some L'"
  shows "refs_of L' = refs_of L \<and> active (ws L' IouringTfdW) = 1"
proof -
  have "env = env \<and> sys = sys \<longrightarrow> refs_of L' = refs_of L \<and> active (ws L' IouringTfdW) = 1"
    by (rule iouring_reinit.raw_induct[where P = "\<lambda>e s L L'. e = env \<and> s = sys \<longrightarrow> refs_of L' = refs_of L \<and> active (ws L' IouringTfdW) = 1", OF _ assms])
      (auto simp: ev_syserr_def init_frame split: bind_splits if_splits option.splits)
  then show ?thesis by simp
qed

lemma destroy_frame:
  "activecnt (iouring_destroy env sys L) = (if active (ws L IouringTfdW) = 0 then activecnt L else activecnt L - 1)"
  "v \<noteq> IouringTfdW \<Longrightarrow> ws (iouring_destroy env sys L) v = ws L v"
proof -
  have u: "activecnt (iouring_unmap sys M) = activecnt M" for M using unmap_frame(1)[of sys M] by (simp add: refs_of_def)
  show "activecnt (iouring_destroy env sys L) = (if active (ws L IouringTfdW) = 0 then activecnt L else activecnt L - 1)"
    "v \<noteq> IouringTfdW \<Longrightarrow> ws (iouring_destroy env sys L) v = ws L v"
    by (simp_all add: iouring_destroy_def Let_def u io_stop_frame)
qed

lemma fork_drops_ref:
  assumes "iouring_fork env sys L = Some L'" "active (ws L IouringTfdW) \<noteq> 0"
  shows "activecnt L' = activecnt L - 1" "v \<noteq> IouringTfdW \<Longrightarrow> ws L' v = ws L v" "active (ws L' IouringTfdW) = 1"
proof -
  obtain M where m: "iouring_reinit env sys (iouring_destroy env sys L) = Some M" "L' = fd_rearm_upto (anfdmax M) M"
    using assms(1) by (auto simp: iouring_fork_def fd_rearm_all_def)
  note r = reinit_frame[OF m(1)] and f = rearm_frame[of "anfdmax M" M]
  show "activecnt L' = activecnt L - 1" using r f assms(2) by (simp add: m(2) refs_of_def destroy_frame)
  show "active (ws L' IouringTfdW) = 1" using r f by (simp add: m(2))
  assume v: "v \<noteq> IouringTfdW"
  have "((ws M)(IouringTfdW := w_zero)) v = ((ws (iouring_destroy env sys L))(IouringTfdW := w_zero)) v" using r by (simp add: refs_of_def)
  then show "ws L' v = ws L v" using v f destroy_frame(2)[OF v, of env sys L] by (simp add: m(2))
qed


subsection \<open>Properties\<close>

text \<open>A kernel that takes every announced request at once, and grants every call.\<close>

definition ex_params :: io_uring_params where
  "ex_params = \<lparr>sq_entries = 64, cq_entries = 128, sq_off_head = 0, sq_off_tail = 4, sq_off_ring_mask = 8, sq_off_flags = 12, sq_off_array = 64,
     cq_off_head = 0, cq_off_tail = 4, cq_off_ring_mask = 8, cq_off_cqes = 64\<rparr>"

definition ex_uring :: "unit uring" where
  "ex_uring = \<lparr>iouring_fd = 3, iouring_to_submit = 0, iouring_sq_ring = True, iouring_cq_ring = True, iouring_sqes = True, iouring_sq_ring_size = 320,
     iouring_cq_ring_size = 2112, iouring_sqes_size = 4096, iouring_sq_ring_entries = 64, iouring_cq_ring_entries = 128, iouring_cq_cqes = 64,
     iouring_tfd_to = EV_TSTAMP_HUGE, iouring_tfd = 4, sq_head = - 3, sq_tail = - 3, sq_ring_mask = 63, sq_flags = 0, sq_array = (\<lambda>_. 0),
     sqes = (\<lambda>_. sqe_add 0 0 0), cq_head = 0, cq_tail = 0, cq_ring_mask = 127, cqes = (\<lambda>_. \<lparr>cqe_user_data = 0, cqe_res = 1\<rparr>), outside = ()\<rparr>"

definition ex_uring_os :: "unit uring_os" where
  "ex_uring_os = \<lparr>sys_setup = (\<lambda>n f U. ((3, 0, ex_params), U)), sys_enter = (\<lambda>fd n f U. ((uint n, 0), U\<lparr>sq_head := sq_head U + n\<rparr>)),
     sys_progress = (\<lambda>U. U\<lparr>cq_tail := cq_head U + 2\<rparr>), sys_mmap = (\<lambda>p fd r n U. (0, U)), sys_munmap = (\<lambda>r n U. U), sys_tfd_create = (\<lambda>U. (4, U)),
     sys_tfd_settime = (\<lambda>fd t U. (False, U)), sys_tfd_read = (\<lambda>fd U. ((8, 0), U)), sys_ring_poll = (\<lambda>fd ms U. ((1, 0, 1), U))\<rparr>"

definition ex_uring_env :: "unit uring env" where
  "ex_uring_env = undefined\<lparr>env_syserr := Some (\<lambda>U. U), env_release := (\<lambda>U. U), env_acquire := (\<lambda>U. U), env_close := (\<lambda>fd U. U)\<rparr>"

abbreviation ex_uring_loop :: "unit uring ev_loop" where
  "ex_uring_loop \<equiv> ex_watch ex_uring"

lemma ex_uring_ok: "sq_ok ex_uring" "sq_list ex_uring = []" "ring_mask 128 127" "ring_mask 64 63"
proof -
  show r: "ring_mask 128 127" "ring_mask 64 63"
    unfolding ring_mask_def by (rule exI[of _ 7], simp add: mask_eq_exp_minus_1) (rule exI[of _ 6], simp add: mask_eq_exp_minus_1)
  show "sq_ok ex_uring" using r by (simp add: sq_ok_def ex_uring_def)
  show "sq_list ex_uring = []" by (simp add: sq_list_def ex_uring_def)
qed

text \<open>
  C32: The checks of the ring geometry the kernel reports are sufficient: when both pass, no sum has wrapped, each mapping
  is at most 32 MiB, and the head, tail, mask and flag words as well as every entry of the index array, the submission
  array and the completion array lie inside the mapped windows.
\<close>

theorem iouring_layout_sound:
  assumes "iouring_validate_ring_layout p = Some (sq, cq, sqe)" "iouring_validate_ptr_offsets p sq cq"
  shows "(\<forall>off \<in> {sq_off_head p, sq_off_tail p, sq_off_ring_mask p, sq_off_flags p}. unat off + 4 \<le> unat sq) \<and>
    (\<forall>off \<in> {cq_off_head p, cq_off_tail p, cq_off_ring_mask p}. unat off + 4 \<le> unat cq) \<and>
    (\<forall>i < unat (sq_entries p). unat (sq_off_array p) + 4 * i + 4 \<le> unat sq \<and> 64 * i + 64 \<le> unat sqe) \<and>
    (\<forall>i < unat (cq_entries p). unat (cq_off_cqes p) + 16 * i + 16 \<le> unat cq) \<and>
    unat sq \<le> 33554432 \<and> unat cq \<le> 33554432 \<and> unat sqe \<le> 33554432"
proof -
  note b = layout_bounds[OF assms]
  show ?thesis using b(4-6) b(7) b(8) by (auto simp: b(1-3))
qed

theorem iouring_layout_sound_witness:
  "iouring_validate_ring_layout ex_params = Some (320, 2112, 4096) \<and> iouring_validate_ptr_offsets ex_params 320 2112 \<and>
    unat (sq_off_flags ex_params) + 4 \<le> unat (320 :: u32) \<and> unat (cq_off_cqes ex_params) + 16 * 127 + 16 \<le> unat (2112 :: u32)"
proof -
  have v: "iouring_validate_ring_layout ex_params = Some (320, 2112, 4096)" "iouring_validate_ptr_offsets ex_params 320 2112"
    by (simp_all add: iouring_validate_ring_layout_def iouring_validate_ptr_offsets_def ex_params_def Let_def)
  then show ?thesis using iouring_layout_sound[OF v] by (simp add: ex_params_def)
qed






text \<open>
  C31: \<^verbatim>\<open>iouring_cq_drain\<close>, with the kernel adding completions while it runs: it ends after at most 4096 of them, reads inside
  the completion ring only, and whatever the completions say (stale or invalid tags, errors, cancelled polls, a bad
  descriptor) the invariants of descriptors, pending events and priorities hold afterwards and no assertion has failed.
\<close>

theorem iouring_cq_drain_safe:
  assumes "io_inv L" "env_syserr env = Some h" "\<forall>U. cq_geometry (h U) = cq_geometry U" "\<forall>U. cq_geometry (sys_progress sys U) = cq_geometry U"
    "ring_mask (iouring_cq_ring_entries (os L)) (cq_ring_mask (os L))"
  shows "\<exists>L'. iouring_cq_drain env sys L = Some L' \<and> io_inv L' \<and> ok L' = ok L \<and> unat (cq_head (os L') - cq_head (os L)) \<le> IOURING_CQ_DRAIN_BUDGET"
  by (rule cq_drain_keeps[OF assms])

theorem iouring_cq_drain_safe_witness:
  "\<exists>L'. iouring_cq_drain ex_uring_env ex_uring_os ex_uring_loop = Some L' \<and> io_inv L' \<and> ok L' = ok ex_uring_loop"
proof -
  have "\<exists>L'. iouring_cq_drain ex_uring_env ex_uring_os ex_uring_loop = Some L' \<and> io_inv L' \<and> ok L' = ok ex_uring_loop \<and>
      unat (cq_head (os L') - cq_head (os ex_uring_loop)) \<le> IOURING_CQ_DRAIN_BUDGET"
    by (rule iouring_cq_drain_safe[where h = "\<lambda>U. U"])
      (use ex_uring_ok(3) in \<open>simp_all add: ex_uring_env_def ex_uring_os_def cq_geometry_def ex_uring_def\<close>)
  then show ?thesis by blast
qed

text \<open>
  C33: After \<^verbatim>\<open>iouring_fork\<close> the same watchers are active, the backend's own included, but the loop holds one reference less:
  \<^verbatim>\<open>iouring_destroy\<close> stops the timer watcher without the \<^verbatim>\<open>ev_ref\<close> that would undo the \<^verbatim>\<open>ev_unref\<close> of \<^verbatim>\<open>iouring_init\<close>. A loop
  with a single active watcher then counts none, and \<^verbatim>\<open>ev_run\<close> returns at once.
\<close>

theorem iouring_fork_drops_ref:
  assumes "iouring_fork env sys L = Some L'" "active (ws L IouringTfdW) \<noteq> 0"
  shows "activecnt L' = activecnt L - 1 \<and> active (ws L' IouringTfdW) = 1 \<and> (\<forall>v. v \<noteq> IouringTfdW \<longrightarrow> ws L' v = ws L v)"
  using fork_drops_ref[OF assms] by blast


lemma ex_uring_init: "\<exists>L'. iouring_init ex_uring_env ex_uring_os L = Some (EVBACKEND_IOURING, L')"
proof -
  have t: "fst (iouring_init_timer ex_uring_env ex_uring_os M) = EVBACKEND_IOURING" for M by (simp add: iouring_init_timer_def ex_uring_os_def Let_def)
  have v: "iouring_validate_ring_layout ex_params = Some (320, 2112, 4096)" "iouring_validate_ptr_offsets ex_params 320 2112"
    by (simp_all add: iouring_validate_ring_layout_def iouring_validate_ptr_offsets_def ex_params_def Let_def)
  have "iouring_mmap_region ex_uring_os fd off len U = Some (True, U)" for fd off len U
    by (simp add: iouring_mmap_region_def mmap_retry.simps ex_uring_os_def)
  then have m: "\<exists>N. iouring_map ex_uring_os ex_params M = Some N \<and> iouring_sq_ring (os N) \<and> iouring_cq_ring (os N) \<and> iouring_sqes (os N)" for M
    by (simp add: iouring_map_def Let_def)
  define S where "S = snd (iouring_setup ex_uring_os L)"
  have s: "iouring_setup ex_uring_os L = (ex_params, S)" "iouring_fd (os S) = 3"
    by (simp_all add: S_def iouring_setup_def ex_uring_os_def Let_def)
  obtain N where n: "iouring_map ex_uring_os ex_params (upd_os (\<lambda>U. U\<lparr>iouring_sq_ring_size := 320, iouring_cq_ring_size := 2112, iouring_sqes_size := 4096\<rparr>) S) = Some N"
    "iouring_sq_ring (os N)" "iouring_cq_ring (os N)" "iouring_sqes (os N)" using m by blast
  have "iouring_init ex_uring_env ex_uring_os L = Some (iouring_init_timer ex_uring_env ex_uring_os N)"
    using v s n by (simp add: iouring_init_def Let_def)
  then show ?thesis using t[of N] by (metis prod.collapse)
qed

theorem iouring_fork_drops_ref_witness:
  "\<exists>L'. iouring_fork ex_uring_env ex_uring_os (upd_w IouringTfdW (\<lambda>x. x\<lparr>active := 1\<rparr>) ((loop_zero ex_uring)\<lparr>activecnt := 1\<rparr>)) = Some L' \<and> activecnt L' = 0"
proof -
  let ?L = "upd_w IouringTfdW (\<lambda>x. x\<lparr>active := 1\<rparr>) ((loop_zero ex_uring)\<lparr>activecnt := 1\<rparr>)"
  obtain M where "iouring_init ex_uring_env ex_uring_os (iouring_destroy ex_uring_env ex_uring_os ?L) = Some (EVBACKEND_IOURING, M)" using ex_uring_init by blast
  then have f: "iouring_fork ex_uring_env ex_uring_os ?L = Some (fd_rearm_all M)" by (simp add: iouring_fork_def iouring_reinit.simps)
  then show ?thesis using iouring_fork_drops_ref[OF f] by (simp add: upd_w_def)
qed

end
