(* ===== verification/Backend_Linuxaio.thy ===== *)
theory Backend_Linuxaio
  imports Backend_Epoll
begin

section \<open>The Linux AIO backend\<close>

text \<open>
  \<^verbatim>\<open>ev_linuxaio.c\<close>: one-shot poll requests (iocbs, one per descriptor) are queued by \<^verbatim>\<open>linuxaio_modify\<close> and submitted by
  \<^verbatim>\<open>linuxaio_poll\<close>; completions come from a ring the kernel maps into the process. Descriptors the kernel refuses are
  handed to epoll, whose descriptor is watched like any other; when the kernel cannot give a larger ring the backend
  turns into the epoll backend for good. The record \<open>laio\<close> holds the members of \<^verbatim>\<open>struct ev_loop\<close> of this backend with
  the objects they point to, and is the outside state of the loop. An \<^verbatim>\<open>iocb\<close> is known by its descriptor.
\<close>

abbreviation (input) AIO_RING_MAGIC :: u32 where "AIO_RING_MAGIC \<equiv> 0xa10a10a1"
abbreviation (input) EV_AIO_RING_INCOMPAT_FEATURES :: u32 where "EV_AIO_RING_INCOMPAT_FEATURES \<equiv> 0"
abbreviation (input) AIO_RING_HEADER :: u32 where "AIO_RING_HEADER \<equiv> 32"  \<comment> \<open>\<^verbatim>\<open>sizeof (struct aio_ring)\<close>\<close>
abbreviation (input) AIO_EAGAIN :: int where "AIO_EAGAIN \<equiv> 11"
abbreviation (input) EINPROGRESS :: int where "EINPROGRESS \<equiv> 115"
abbreviation (input) AIO_POLLIN :: u32 where "AIO_POLLIN \<equiv> 0x1"
abbreviation (input) AIO_POLLOUT :: u32 where "AIO_POLLOUT \<equiv> 0x4"
abbreviation (input) AIO_POLLERR :: u32 where "AIO_POLLERR \<equiv> 0x8"
abbreviation (input) AIO_POLLHUP :: u32 where "AIO_POLLHUP \<equiv> 0x10"
abbreviation (input) AIO_POLLRDHUP :: u32 where "AIO_POLLRDHUP \<equiv> 0x2000"

record iocb =
  aio_reqprio :: int
  aio_buf :: u32
  aio_data :: u64
  aio_fildes :: int

record io_event =
  ioe_data :: u64
  ioe_res :: u32

record aio_ring =
  ar_nr :: u32
  ar_head :: u32
  ar_tail :: u32
  ar_magic :: u32
  ar_incompat_features :: u32
  ar_header_length :: u32
  io_events :: "nat \<Rightarrow> io_event"

record 'v laio =
  linuxaio_ring :: aio_ring            \<comment> \<open>\<^verbatim>\<open>(struct aio_ring *) linuxaio_ctx\<close>\<close>
  linuxaio_iteration :: nat
  linuxaio_iocbps :: "int \<Rightarrow> iocb"
  linuxaio_iocbpmax :: nat
  linuxaio_submits :: "nat \<Rightarrow> int"
  linuxaio_submitcnt :: nat
  linuxaio_submitmax :: nat
  aio_outside :: 'v

record 'v laio_os =
  sys_io_setup :: "int \<Rightarrow> 'v laio \<Rightarrow> int \<times> 'v laio"
  sys_io_destroy :: "'v laio \<Rightarrow> 'v laio"
  sys_io_submit :: "int list \<Rightarrow> 'v laio \<Rightarrow> (int \<times> int) \<times> 'v laio"
  sys_io_cancel :: "int \<Rightarrow> 'v laio \<Rightarrow> (int \<times> int) \<times> 'v laio"
  sys_io_getevents :: "nat \<Rightarrow> ev_tstamp \<Rightarrow> 'v laio \<Rightarrow> (int \<times> int \<times> io_event list) \<times> 'v laio"

subsection \<open>Requests\<close>

text \<open>The shift is done in an \<^verbatim>\<open>int\<close> of 32 bits; \<^verbatim>\<open>struct io_event\<close> has 32 bytes.\<close>

definition linuxaio_nr_events :: "'v laio \<Rightarrow> int" where
  "linuxaio_nr_events U =
     (let requests = sint (push_bit (linuxaio_iteration U) 15 :: u32);
          one_page = 64; first_page = 62
      in if requests > first_page then requests div one_page * one_page + first_page else requests)"

definition iocb_new :: "int \<Rightarrow> iocb" where
  "iocb_new fd = \<lparr>aio_reqprio = 0, aio_buf = 0, aio_data = 0, aio_fildes = fd\<rparr>"

definition linuxaio_need_iocbps :: "int \<Rightarrow> 'v laio \<Rightarrow> 'v laio" where
  "linuxaio_need_iocbps fd U =
     (let n = nat (fd + 1); mx = needsize 8 (linuxaio_iocbpmax U) n in
      if n > linuxaio_iocbpmax U then
        U\<lparr>linuxaio_iocbpmax := mx,
          linuxaio_iocbps := (\<lambda>i. if int (linuxaio_iocbpmax U) \<le> i \<and> i < int mx then iocb_new i else linuxaio_iocbps U i)\<rparr>
      else U)"

definition linuxaio_free_iocbp :: "'v laio \<Rightarrow> 'v laio" where
  "linuxaio_free_iocbp U = U\<lparr>linuxaio_iocbpmax := 0\<rparr>"

definition linuxaio_free_arrays :: "'v laio \<Rightarrow> 'v laio" where
  "linuxaio_free_arrays U = (linuxaio_free_iocbp U)\<lparr>linuxaio_submitcnt := 0, linuxaio_submitmax := 0\<rparr>"

definition upd_iocb :: "int \<Rightarrow> (iocb \<Rightarrow> iocb) \<Rightarrow> 'v laio ev_loop \<Rightarrow> 'v laio ev_loop" where
  "upd_iocb fd f L =
     upd_os (\<lambda>U. U\<lparr>linuxaio_iocbps := (linuxaio_iocbps U)(fd := f (linuxaio_iocbps U fd))\<rparr>)
       (chk (0 \<le> fd \<and> fd < int (linuxaio_iocbpmax (os L))) L)"

text \<open>The loop around \<^verbatim>\<open>io_cancel\<close>: at most 256 calls.\<close>

fun linuxaio_cancel :: "'v laio_os \<Rightarrow> nat \<Rightarrow> int \<Rightarrow> 'v laio ev_loop \<Rightarrow> 'v laio ev_loop" where
  "linuxaio_cancel sys 0 fd L = L"
| "linuxaio_cancel sys (Suc n) fd L =
     (let ((r, e), U) = sys_io_cancel sys fd (os L); L = L\<lparr>os := U\<rparr> in
      if r = 0 \<or> e = EINPROGRESS then L
      else if e \<noteq> EINTR then chk (e \<noteq> EINTR \<and> e \<noteq> EINPROGRESS) L
      else linuxaio_cancel sys n fd L)"

definition linuxaio_undo :: "'v laio_os \<Rightarrow> 'v laio epoll_os \<Rightarrow> int \<Rightarrow> 'v laio ev_loop \<Rightarrow> 'v laio ev_loop" where
  "linuxaio_undo sys eos fd L =
     (let iocb = linuxaio_iocbps (os L) fd in
      if aio_reqprio iocb < 0 then
        let (_, L) = epoll_ctl eos EPOLL_CTL_DEL fd 0 0 L;
            L = upd_fd fd (\<lambda>a. a\<lparr>anfd_emask := 0\<rparr>) L
        in upd_iocb fd (\<lambda>i. i\<lparr>aio_reqprio := 0\<rparr>) L
      else if aio_buf iocb \<noteq> 0 then
        upd_fd fd (\<lambda>a. a\<lparr>anfd_egen := anfd_egen a + 1\<rparr>) (linuxaio_cancel sys 256 fd L)
      else L)"

definition linuxaio_enqueue :: "int \<Rightarrow> 'v laio ev_loop \<Rightarrow> 'v laio ev_loop" where
  "linuxaio_enqueue fd L =
     (let n = linuxaio_submitcnt (os L) + 1;
          mx = needsize 8 (linuxaio_submitmax (os L)) n
      in upd_os (\<lambda>U. U\<lparr>linuxaio_submitcnt := n, linuxaio_submitmax := mx, linuxaio_submits := (linuxaio_submits U)(n - 1 := fd)\<rparr>) (chk (n - 1 < mx) L))"

definition linuxaio_modify :: "'v laio_os \<Rightarrow> 'v laio epoll_os \<Rightarrow> int \<Rightarrow> u32 \<Rightarrow> u32 \<Rightarrow> 'v laio ev_loop \<Rightarrow> 'v laio ev_loop option" where
  "linuxaio_modify sys eos fd oev nev L =
     (let L = upd_os (linuxaio_need_iocbps fd) (chk (fd_in fd L) L);
          L = linuxaio_undo sys eos fd L;
          L = upd_iocb fd (\<lambda>i. i\<lparr>aio_buf := (if nev AND EV_READ \<noteq> 0 then AIO_POLLIN OR AIO_POLLRDHUP else 0) OR
                                  (if nev AND EV_WRITE \<noteq> 0 then AIO_POLLOUT else 0)\<rparr>) L
      in Some (if nev \<noteq> 0
               then linuxaio_enqueue fd (upd_iocb fd (\<lambda>i. i\<lparr>aio_data := epoll_data fd (anfd_egen (anfds L fd))\<rparr>) L)
               else L))"

subsection \<open>Completions\<close>

definition linuxaio_epoll_cb :: "'v laio env \<Rightarrow> 'v laio epoll_os \<Rightarrow> 'v laio ev_loop \<Rightarrow> 'v laio ev_loop option" where
  "linuxaio_epoll_cb env eos L = epoll_poll env eos 0 L"

definition linuxaio_fd_rearm :: "int \<Rightarrow> 'v laio ev_loop \<Rightarrow> 'v laio ev_loop" where
  "linuxaio_fd_rearm fd L =
     fd_change fd (ucast EV_ANFD_REIFY) (upd_iocb fd (\<lambda>i. i\<lparr>aio_buf := 0\<rparr>) (upd_fd fd (\<lambda>a. a\<lparr>anfd_events := 0\<rparr>) L))"

definition linuxaio_got :: "u32 \<Rightarrow> u32" where
  "linuxaio_got res = (if res AND (AIO_POLLOUT OR AIO_POLLERR OR AIO_POLLHUP) \<noteq> 0 then EV_WRITE else 0) OR
     (if res AND (AIO_POLLIN OR AIO_POLLERR OR AIO_POLLHUP OR AIO_POLLRDHUP) \<noteq> 0 then EV_READ else 0)"

definition linuxaio_event_one :: "io_event \<Rightarrow> 'v laio ev_loop \<Rightarrow> 'v laio ev_loop" where
  "linuxaio_event_one ev L =
     (let fd = sint (ucast (ioe_data ev) :: u32); gen = ucast (drop_bit 32 (ioe_data ev));
          L = chk (fd \<ge> 0 \<and> fd < int (anfdmax L)) L
      in if gen = anfd_egen (anfds L fd) then linuxaio_fd_rearm fd (fd_event fd (linuxaio_got (ioe_res ev)) L) else L)"

definition linuxaio_parse_events :: "io_event list \<Rightarrow> 'v laio ev_loop \<Rightarrow> 'v laio ev_loop" where
  "linuxaio_parse_events evs L = fold linuxaio_event_one evs L"

text \<open>The ring is read once: \<^verbatim>\<open>head\<close> and \<^verbatim>\<open>tail\<close> are loaded before the events are looked at.\<close>

definition linuxaio_get_events_from_ring :: "'v laio ev_loop \<Rightarrow> bool \<times> 'v laio ev_loop" where
  "linuxaio_get_events_from_ring L =
     (let ring = linuxaio_ring (os L); head = unat (ar_head ring); tail = unat (ar_tail ring); nr = unat (ar_nr ring) in
      if head = tail then (False, L)
      else
        let L = chk (head < nr \<and> tail \<le> nr) L;
            L = (if tail > head then linuxaio_parse_events (map (io_events ring) [head..<tail]) L
                 else linuxaio_parse_events (map (io_events ring) [0..<tail]) (linuxaio_parse_events (map (io_events ring) [head..<nr]) L))
        in (True, upd_os (\<lambda>U. U\<lparr>linuxaio_ring := (linuxaio_ring U)\<lparr>ar_head := ar_tail ring\<rparr>\<rparr>) L))"

definition linuxaio_ringbuf_valid :: "'v laio \<Rightarrow> bool" where
  "linuxaio_ringbuf_valid U \<longleftrightarrow>
     ar_magic (linuxaio_ring U) = AIO_RING_MAGIC \<and> ar_incompat_features (linuxaio_ring U) = EV_AIO_RING_INCOMPAT_FEATURES \<and>
     ar_header_length (linuxaio_ring U) = AIO_RING_HEADER"

partial_function (option) linuxaio_get_events_loop ::
  "'v laio env \<Rightarrow> 'v laio_os \<Rightarrow> bool \<Rightarrow> nat \<Rightarrow> ev_tstamp \<Rightarrow> 'v laio ev_loop \<Rightarrow> 'v laio ev_loop option" where
  "linuxaio_get_events_loop env sys ringbuf_valid n timeout L =
     (let U = env_release env (os L);
          ((res, e, evs), U) = sys_io_getevents sys n timeout U;
          L = L\<lparr>os := env_acquire env U\<rparr>
      in if res < 0 then
           Option.bind (if e = EINTR then Some L else ev_syserr env L) (linuxaio_get_events_loop env sys ringbuf_valid n 0)
         else if res \<noteq> 0 then
           let L = linuxaio_parse_events (take (nat res) evs) L in
           if ringbuf_valid then Some (snd (linuxaio_get_events_from_ring L))
           else if res < int n then Some L
           else linuxaio_get_events_loop env sys ringbuf_valid n 0 L
         else Some L)"

definition linuxaio_get_events :: "'v laio env \<Rightarrow> 'v laio_os \<Rightarrow> ev_tstamp \<Rightarrow> 'v laio ev_loop \<Rightarrow> 'v laio ev_loop option" where
  "linuxaio_get_events env sys timeout L =
     (if linuxaio_ringbuf_valid (os L) then
        let (any, L) = linuxaio_get_events_from_ring L in
        if any then Some L
        else if timeout = 0 then Some L
        else linuxaio_get_events_loop env sys True 1 timeout L
      else linuxaio_get_events_loop env sys False 8 timeout L)"

subsection \<open>Polling\<close>

definition linuxaio_io_setup :: "'v laio_os \<Rightarrow> 'v laio ev_loop \<Rightarrow> int \<times> 'v laio ev_loop" where
  "linuxaio_io_setup sys L = (let (r, U) = sys_io_setup sys (linuxaio_nr_events (os L)) (os L) in (r, L\<lparr>os := U\<rparr>))"

fun linuxaio_rearm_upto :: "nat \<Rightarrow> 'v laio ev_loop \<Rightarrow> 'v laio ev_loop" where
  "linuxaio_rearm_upto 0 L = L"
| "linuxaio_rearm_upto (Suc n) L =
     (let L = linuxaio_rearm_upto n L in
      if aio_buf (linuxaio_iocbps (os L) (int n)) \<noteq> 0 then linuxaio_fd_rearm (int n) L else L)"

definition linuxaio_regrow :: "'v laio_os \<Rightarrow> 'v laio ev_loop \<Rightarrow> 'v laio ev_loop" where
  "linuxaio_regrow sys L =
     (let L = upd_os (\<lambda>U. (sys_io_destroy sys U)\<lparr>linuxaio_submitcnt := 0\<rparr>) L;
          L = linuxaio_rearm_upto (linuxaio_iocbpmax (os L)) L;
          L = upd_os (\<lambda>U. U\<lparr>linuxaio_iteration := linuxaio_iteration U + 1\<rparr>) L;
          (r, L) = linuxaio_io_setup sys L
      in if r < 0 then
           let L = upd_os linuxaio_free_arrays L;
               L = ev_ref (ev_io_stop LinuxaioEpollW L)
           in L\<lparr>backend := EVBACKEND_EPOLL\<rparr>
         else L)"

text \<open>The submission loop; \<open>False\<close> is the early return after a regrow.\<close>

partial_function (option) linuxaio_submit_loop ::
  "'v laio env \<Rightarrow> 'v laio_os \<Rightarrow> 'v laio epoll_os \<Rightarrow> nat \<Rightarrow> 'v laio ev_loop \<Rightarrow> (bool \<times> 'v laio ev_loop) option" where
  "linuxaio_submit_loop env sys eos submitted L =
     (if submitted < linuxaio_submitcnt (os L) then
        let ((res, e), U) = sys_io_submit sys (map (linuxaio_submits (os L)) [submitted..<linuxaio_submitcnt (os L)]) (os L);
            L = L\<lparr>os := U\<rparr>;
            fd = linuxaio_submits (os L) submitted
        in if res \<ge> 0 then linuxaio_submit_loop env sys eos (submitted + nat res) L
           else if e = EINVAL then
             Option.bind (epoll_modify eos fd 0 (ucast (anfd_events (anfds L fd))) (chk (fd_in fd L) L)) (\<lambda>L.
               linuxaio_submit_loop env sys eos (submitted + 1) (upd_iocb fd (\<lambda>i. i\<lparr>aio_reqprio := - 1\<rparr>) L))
           else if e = AIO_EAGAIN then Some (False, linuxaio_regrow sys L)
           else if e = EBADF then
             Option.bind (fd_kill fd (chk (e \<noteq> EBADF) L)) (linuxaio_submit_loop env sys eos (submitted + 1))
           else if e = EINTR then linuxaio_submit_loop env sys eos submitted L
           else Option.bind (ev_syserr env L) (linuxaio_submit_loop env sys eos submitted)
      else Some (True, L))"

definition linuxaio_poll :: "'v laio env \<Rightarrow> 'v laio_os \<Rightarrow> 'v laio epoll_os \<Rightarrow> ev_tstamp \<Rightarrow> 'v laio ev_loop \<Rightarrow> 'v laio ev_loop option" where
  "linuxaio_poll env sys eos timeout L =
     Option.bind (linuxaio_submit_loop env sys eos 0 L) (\<lambda>(go, L).
       if go then linuxaio_get_events env sys timeout (upd_os (\<lambda>U. U\<lparr>linuxaio_submitcnt := 0\<rparr>) L) else Some L)"

subsection \<open>Creation, destruction, fork\<close>

definition linuxaio_init :: "'v laio env \<Rightarrow> 'v laio_os \<Rightarrow> 'v laio epoll_os \<Rightarrow> 'v laio ev_loop \<Rightarrow> u32 \<times> 'v laio ev_loop" where
  "linuxaio_init env sys eos L =
     (if ev_linux_version env < 0x041300 then (0, L)
      else
        let (r, L) = epoll_init env eos L in
        if r = 0 then (0, L)
        else
          let L = upd_os (\<lambda>U. U\<lparr>linuxaio_iteration := 0\<rparr>) L;
              (r, L) = linuxaio_io_setup sys L
          in if r < 0 then
               let L = epoll_destroy L in
               (0, if backend_fd L \<noteq> - 1 then (L\<lparr>os := env_close env (backend_fd L) (os L)\<rparr>)\<lparr>backend_fd := - 1\<rparr> else L)
             else
               let L = ev_io_init LinuxaioEpollW LinuxaioEpollCb (backend_fd L) EV_READ L;
                   L = ev_set_priority LinuxaioEpollW EV_MAXPRI L;
                   L = ev_unref (ev_io_start LinuxaioEpollW L);
                   L = upd_os (\<lambda>U. U\<lparr>linuxaio_iocbpmax := 0, linuxaio_submitmax := 0, linuxaio_submitcnt := 0\<rparr>) L
               in (EVBACKEND_LINUXAIO, L))"

definition linuxaio_destroy :: "'v laio env \<Rightarrow> 'v laio_os \<Rightarrow> 'v laio ev_loop \<Rightarrow> 'v laio ev_loop" where
  "linuxaio_destroy env sys L =
     (let L = epoll_destroy (ev_io_stop LinuxaioEpollW L);
          L = upd_os (\<lambda>U. sys_io_destroy sys (linuxaio_free_arrays U)) L
      in if backend_fd L \<noteq> - 1 then (L\<lparr>os := env_close env (backend_fd L) (os L)\<rparr>)\<lparr>backend_fd := - 1\<rparr> else L)"

partial_function (option) linuxaio_resetup :: "'v laio env \<Rightarrow> 'v laio_os \<Rightarrow> 'v laio ev_loop \<Rightarrow> 'v laio ev_loop option" where
  "linuxaio_resetup env sys L =
     (let (r, L) = linuxaio_io_setup sys L in
      if r < 0 then Option.bind (ev_syserr env L) (linuxaio_resetup env sys) else Some L)"

definition linuxaio_fork :: "'v laio env \<Rightarrow> 'v laio_os \<Rightarrow> 'v laio epoll_os \<Rightarrow> 'v laio ev_loop \<Rightarrow> 'v laio ev_loop option" where
  "linuxaio_fork env sys eos L =
     Option.bind (linuxaio_resetup env sys
        (upd_os (\<lambda>U. (sys_io_destroy sys (linuxaio_free_iocbp (U\<lparr>linuxaio_submitcnt := 0\<rparr>)))\<lparr>linuxaio_iteration := 0\<rparr>) L)) (\<lambda>L.
      Option.bind (epoll_fork env eos L) (\<lambda>L.
        Some (ev_io_start LinuxaioEpollW (ev_io_set LinuxaioEpollW (backend_fd L) EV_READ (ev_io_stop LinuxaioEpollW L)))))"

text \<open>After a failed regrow the loop calls epoll's routines.\<close>

definition linuxaio_env :: "'v laio_os \<Rightarrow> 'v laio epoll_os \<Rightarrow> 'v laio env \<Rightarrow> 'v laio env" where
  "linuxaio_env sys eos env = env\<lparr>
     env_modify := (\<lambda>fd oev nev L. if backend L = EVBACKEND_EPOLL then epoll_modify eos fd oev nev L else linuxaio_modify sys eos fd oev nev L),
     env_poll := (\<lambda>t L. if backend L = EVBACKEND_EPOLL then epoll_poll env eos t L else linuxaio_poll env sys eos t L),
     env_backend_fork := (\<lambda>L. if backend L = EVBACKEND_EPOLL then epoll_fork env eos L else linuxaio_fork env sys eos L),
     env_backend_destroy := (\<lambda>L. if backend L = EVBACKEND_EPOLL then epoll_destroy L else linuxaio_destroy env sys L),
     env_backend_cb := (\<lambda>cb w r L. if cb = LinuxaioEpollCb then linuxaio_epoll_cb env eos L else env_backend_cb env cb w r L)\<rparr>"

end
