(* ===== verification/Linuxaio_Spec.thy ===== *)
theory Linuxaio_Spec
  imports Backend_Linuxaio Io_Inv
begin

section \<open>What the Linux AIO backend guarantees\<close>

text \<open>The completions in the ring, oldest first: \<open>head\<close> and \<open>tail\<close> are indices below \<open>nr\<close>.\<close>

definition ring_list :: "aio_ring \<Rightarrow> io_event list" where
  "ring_list R = (let h = unat (ar_head R); t = unat (ar_tail R); n = unat (ar_nr R) in
     map (\<lambda>i. io_events R ((h + i) mod n)) [0..<(t + n - h) mod n])"

lemma ring_parts:
  fixes h t n :: nat
  assumes "h < n" "t < n" "h \<noteq> t"
  shows "map (\<lambda>i. f ((h + i) mod n)) [0..<(t + n - h) mod n] = (if h < t then map f [h..<t] else map f [h..<n] @ map f [0..<t])"
proof (cases "h < t")
  case True
  then have "(t + n - h) mod n = t - h" using assms by (simp add: mod_if)
  then show ?thesis using True assms by (intro nth_equalityI) auto
next
  case False
  have "t + n - h = (n - h) + t" "(n - h) + t < n" using False assms by linarith+
  then have c: "(t + n - h) mod n = (n - h) + t" by simp
  show ?thesis unfolding c using False assms by (intro nth_equalityI) (auto simp: nth_append mod_if add.commute)
qed

text \<open>The tag of a completion names a descriptor of the table that has an iocb: the kernel returns the tags it was given.\<close>

definition tag_ok :: "'v laio ev_loop \<Rightarrow> io_event \<Rightarrow> bool" where
  "tag_ok L ev \<longleftrightarrow> (let fd = sint (ucast (ioe_data ev) :: u32) in fd_in fd L \<and> fd < int (linuxaio_iocbpmax (os L)))"

lemma event_one_keeps:
  assumes I: "io_inv L" and t: "tag_ok L ev"
  defines "L' \<equiv> linuxaio_event_one ev L"
  shows "io_inv L'" "ok L' = ok L" "anfdmax L' = anfdmax L" "linuxaio_iocbpmax (os L') = linuxaio_iocbpmax (os L)"
    "linuxaio_ring (os L') = linuxaio_ring (os L)"
proof -
  define fd where "fd = sint (ucast (ioe_data ev) :: u32)"
  have fd: "fd_in fd L" "fd < int (linuxaio_iocbpmax (os L))" "0 \<le> fd" using t by (auto simp: tag_ok_def fd_def Let_def fd_in_def)
  note d = L'_def linuxaio_event_one_def Let_def fd_def[symmetric]
  have c: "(0 \<le> fd \<and> fd < int (anfdmax L)) = True" using fd(1) by (simp add: fd_in_def)
  have "io_inv L' \<and> ok L' = ok L \<and> anfdmax L' = anfdmax L \<and> linuxaio_iocbpmax (os L') = linuxaio_iocbpmax (os L) \<and> linuxaio_ring (os L') = linuxaio_ring (os L)"
  proof (cases "ucast (drop_bit 32 (ioe_data ev)) = anfd_egen (anfds L fd)")
    case False
    then show ?thesis using I c by (simp add: d)
  next
    case True
    define E where "E = fd_event fd (linuxaio_got (ioe_res ev)) L"
    have E: "io_keeps L E" using fd_event_io(1)[OF I fd(1)] by (simp add: E_def)
    define A where "A = upd_iocb fd (\<lambda>i. i\<lparr>aio_buf := 0\<rparr>) (upd_fd fd (\<lambda>a. a\<lparr>anfd_events := 0\<rparr>) E)"
    define U where "U = os A"
    have m: "0 \<le> fd \<and> fd < int (linuxaio_iocbpmax (os E))" using E fd by (simp add: io_keeps_def)
    have a: "A = upd_fd fd (\<lambda>a. a\<lparr>anfd_events := 0\<rparr>) (E\<lparr>os := U\<rparr>)" "linuxaio_iocbpmax U = linuxaio_iocbpmax (os L)" "linuxaio_ring U = linuxaio_ring (os L)"
      using m E by (simp_all add: A_def U_def upd_iocb_def upd_os_def upd_fd_def io_keeps_def)
    have EU: "io_inv (E\<lparr>os := U\<rparr>)" "fd_in fd (E\<lparr>os := U\<rparr>)" using E fd(1) by (simp_all add: io_keeps_def fd_in_def)
    have "L' = fd_change fd (ucast EV_ANFD_REIFY) (upd_fd fd (\<lambda>a. a\<lparr>anfd_events := 0\<rparr>) (E\<lparr>os := U\<rparr>))"
      using True c by (simp add: d linuxaio_fd_rearm_def E_def[symmetric] A_def[symmetric] a(1))
    then show ?thesis using rearm_io(1)[OF EU, of "ucast EV_ANFD_REIFY"] E a by (simp add: io_keeps_def)
  qed
  then show "io_inv L'" "ok L' = ok L" "anfdmax L' = anfdmax L" "linuxaio_iocbpmax (os L') = linuxaio_iocbpmax (os L)"
    "linuxaio_ring (os L') = linuxaio_ring (os L)" by auto
qed

lemma parse_keeps:
  assumes "io_inv L" "\<forall>ev \<in> set evs. tag_ok L ev"
  shows "io_inv (linuxaio_parse_events evs L) \<and> ok (linuxaio_parse_events evs L) = ok L"
  using assms unfolding linuxaio_parse_events_def
proof (induction evs arbitrary: L)
  case (Cons ev evs)
  have t: "tag_ok L ev" using Cons.prems by simp
  note k = event_one_keeps[OF Cons.prems(1) t]
  have "\<forall>e \<in> set evs. tag_ok (linuxaio_event_one ev L) e" using Cons.prems(2) k(3,4) by (simp add: tag_ok_def Let_def fd_in_def)
  then show ?case using Cons.IH[OF k(1)] k(2) by simp
qed simp

lemma from_ring:
  assumes "ar_head (linuxaio_ring (os L)) < ar_nr (linuxaio_ring (os L))" "ar_tail (linuxaio_ring (os L)) < ar_nr (linuxaio_ring (os L))"
  defines "R \<equiv> linuxaio_ring (os L)"
  shows "linuxaio_get_events_from_ring L = (if ar_head R = ar_tail R then (False, L)
    else (True, upd_os (\<lambda>U. U\<lparr>linuxaio_ring := (linuxaio_ring U)\<lparr>ar_head := ar_tail R\<rparr>\<rparr>) (linuxaio_parse_events (ring_list R) L)))"
proof -
  define h t n where "h = unat (ar_head R)" and "t = unat (ar_tail R)" and "n = unat (ar_nr R)"
  have b: "h < n" "t < n" "h = t \<longleftrightarrow> ar_head R = ar_tail R" using assms by (auto simp: h_def t_def n_def R_def word_less_nat_alt word_unat_eq_iff)
  have p: "linuxaio_parse_events ys (linuxaio_parse_events xs M) = linuxaio_parse_events (xs @ ys) M" for xs ys and M :: "'a laio ev_loop"
    by (simp add: linuxaio_parse_events_def)
  show ?thesis
  proof (cases "h = t")
    case True
    then show ?thesis using b by (simp add: linuxaio_get_events_from_ring_def Let_def R_def[symmetric] h_def t_def)
  next
    case False
    have l: "ring_list R = (if h < t then map (io_events R) [h..<t] else map (io_events R) [h..<n] @ map (io_events R) [0..<t])"
      using ring_parts[OF b(1,2) False, of "io_events R"] by (simp add: ring_list_def Let_def h_def t_def n_def)
    show ?thesis unfolding l using b False
      by (simp add: linuxaio_get_events_from_ring_def Let_def R_def[symmetric] h_def[symmetric] t_def[symmetric] n_def[symmetric] p)
  qed
qed


subsection \<open>Properties\<close>

text \<open>
  C34: \<^verbatim>\<open>linuxaio_get_events_from_ring\<close> handles the completions between head and tail of the circular buffer exactly once, in
  order, across the wrap-around, frees their space, and reports whether there were any; when the tags are those of
  descriptors with an iocb it stays in bounds and keeps the invariants of descriptors, pending events and priorities.
\<close>

theorem linuxaio_ring_exact:
  fixes L :: "'v laio ev_loop"
  defines "R \<equiv> linuxaio_ring (os L)"
  assumes "ar_head R < ar_nr R" "ar_tail R < ar_nr R" "io_inv L" "\<forall>ev \<in> set (ring_list R). tag_ok L ev"
  shows "linuxaio_get_events_from_ring L = (if ar_head R = ar_tail R then (False, L)
      else (True, upd_os (\<lambda>U. U\<lparr>linuxaio_ring := (linuxaio_ring U)\<lparr>ar_head := ar_tail R\<rparr>\<rparr>) (linuxaio_parse_events (ring_list R) L))) \<and>
    io_inv (snd (linuxaio_get_events_from_ring L)) \<and> ok (snd (linuxaio_get_events_from_ring L)) = ok L"
proof -
  note r = from_ring[of L, folded R_def, OF assms(2,3)]
  show ?thesis using parse_keeps[OF assms(4,5)] assms(4) by (simp add: r upd_os_def)
qed

definition ex_aio :: "unit laio" where
  "ex_aio = \<lparr>linuxaio_ring = \<lparr>ar_nr = 4, ar_head = 3, ar_tail = 1, ar_magic = AIO_RING_MAGIC, ar_incompat_features = 0, ar_header_length = 32,
       io_events = (\<lambda>i. \<lparr>ioe_data = 0, ioe_res = AIO_POLLIN\<rparr>)\<rparr>,
     linuxaio_iteration = 0, linuxaio_iocbps = iocb_new, linuxaio_iocbpmax = 8, linuxaio_submits = (\<lambda>_. 0), linuxaio_submitcnt = 0,
     linuxaio_submitmax = 0, aio_outside = ()\<rparr>"

theorem linuxaio_ring_exact_witness:
  "ring_list (linuxaio_ring ex_aio) = map (io_events (linuxaio_ring ex_aio)) [3, 0] \<and>
    fst (linuxaio_get_events_from_ring (ex_watch ex_aio)) \<and> io_inv (snd (linuxaio_get_events_from_ring (ex_watch ex_aio)))"
proof -
  have r: "ring_list (linuxaio_ring ex_aio) = map (io_events (linuxaio_ring ex_aio)) [3, 0]" by (simp add: ring_list_def ex_aio_def Let_def upt_rec)
  have t: "\<forall>ev \<in> set (ring_list (linuxaio_ring ex_aio)). tag_ok (ex_watch ex_aio) ev"
    unfolding r by (auto simp: tag_ok_def Let_def) (simp_all add: ex_aio_def)
  have b: "ar_head (linuxaio_ring ex_aio) = 3" "ar_tail (linuxaio_ring ex_aio) = 1" "ar_nr (linuxaio_ring ex_aio) = 4" by (simp_all add: ex_aio_def)
  have "io_inv (ex_watch ex_aio)" "ar_head (linuxaio_ring (os (ex_watch ex_aio))) < ar_nr (linuxaio_ring (os (ex_watch ex_aio)))"
    "ar_tail (linuxaio_ring (os (ex_watch ex_aio))) < ar_nr (linuxaio_ring (os (ex_watch ex_aio)))" using b by simp_all
  note F = linuxaio_ring_exact[OF this(2,3,1)]
  have "\<forall>ev \<in> set (ring_list (linuxaio_ring (os (ex_watch ex_aio)))). tag_ok (ex_watch ex_aio) ev" using t by simp
  note F = F[OF this]
  have "fst (linuxaio_get_events_from_ring (ex_watch ex_aio))" using F[THEN conjunct1] b by simp
  then show ?thesis using r F[THEN conjunct2, THEN conjunct1] by blast
qed

end
