(* ===== verification/Backend_Kqueue.thy ===== *)
theory Backend_Kqueue
  imports Backend
begin

section \<open>The kqueue and the event port backends\<close>

text \<open>
  \<^verbatim>\<open>ev_kqueue.c\<close>: changes are collected in \<^verbatim>\<open>kqueue_changes\<close> and handed to the kernel with the next \<^verbatim>\<open>kevent\<close>.
  \<^verbatim>\<open>ev_port.c\<close>: an association is dropped by the kernel with every event, so that each event queues its descriptor
  for re-association.
\<close>

abbreviation (input) EVFILT_READ :: int where "EVFILT_READ \<equiv> - 1"
abbreviation (input) EVFILT_WRITE :: int where "EVFILT_WRITE \<equiv> - 2"
abbreviation (input) EV_ADD :: u32 where "EV_ADD \<equiv> 0x1"
abbreviation (input) EV_DELETE :: u32 where "EV_DELETE \<equiv> 0x2"
abbreviation (input) EV_ENABLE :: u32 where "EV_ENABLE \<equiv> 0x4"
abbreviation (input) KEV_ERROR :: u32 where "KEV_ERROR \<equiv> 0x4000"

text \<open>
  \<open>sys_kevent\<close>: the change list, the size of the receive array and the timeout; result, \<^verbatim>\<open>errno\<close>, and the events
  with their \<^verbatim>\<open>data\<close>. \<open>NOTE_EOF\<close> differs between systems and is a member.
\<close>

record 'w kqueue_os =
  sys_kqueue :: "'w \<Rightarrow> int \<times> 'w"
  sys_kevent :: "int \<Rightarrow> kevent list \<Rightarrow> nat \<Rightarrow> ev_tstamp \<Rightarrow> 'w \<Rightarrow> (int \<times> int \<times> (kevent \<times> int) list) \<times> 'w"
  sys_fd_valid :: "int \<Rightarrow> 'w \<Rightarrow> bool"
  NOTE_EOF :: u32

subsection \<open>kqueue\<close>

definition kqueue_change :: "int \<Rightarrow> int \<Rightarrow> u32 \<Rightarrow> u32 \<Rightarrow> 'w ev_loop \<Rightarrow> 'w ev_loop" where
  "kqueue_change fd filt flags fflags L =
     (let L = L\<lparr>kqueue_changecnt := kqueue_changecnt L + 1\<rparr>;
          L = L\<lparr>kqueue_changemax := needsize 32 (kqueue_changemax L) (kqueue_changecnt L)\<rparr>;
          L = chk (kqueue_changecnt L - 1 < kqueue_changemax L) L
      in L\<lparr>kqueue_changes := (kqueue_changes L)(kqueue_changecnt L - 1 := \<lparr>ke_ident = fd, ke_filter = filt, ke_flags = flags, ke_fflags = fflags\<rparr>)\<rparr>)"

definition kqueue_modify :: "'w kqueue_os \<Rightarrow> int \<Rightarrow> u32 \<Rightarrow> u32 \<Rightarrow> 'w ev_loop \<Rightarrow> 'w ev_loop" where
  "kqueue_modify sys fd oev nev L =
     (let L = (if oev \<noteq> nev then
                 let L = (if oev AND EV_READ \<noteq> 0 then kqueue_change fd EVFILT_READ EV_DELETE 0 L else L)
                 in if oev AND EV_WRITE \<noteq> 0 then kqueue_change fd EVFILT_WRITE EV_DELETE 0 L else L
               else L);
          L = (if nev AND EV_READ \<noteq> 0 then kqueue_change fd EVFILT_READ (EV_ADD OR EV_ENABLE) (NOTE_EOF sys) L else L)
      in if nev AND EV_WRITE \<noteq> 0 then kqueue_change fd EVFILT_WRITE (EV_ADD OR EV_ENABLE) (NOTE_EOF sys) L else L)"

text \<open>The calls of \<^verbatim>\<open>kevent\<close>, at most 256 while interrupted.\<close>

fun kevent_retry :: "'w kqueue_os \<Rightarrow> nat \<Rightarrow> ev_tstamp \<Rightarrow> 'w ev_loop \<Rightarrow> (int \<times> int \<times> (kevent \<times> int) list) \<times> 'w ev_loop" where
  "kevent_retry sys 0 timeout L = ((- 1, EINTR, []), L)"
| "kevent_retry sys (Suc n) timeout L =
     (let ((res, e, evs), s) = sys_kevent sys (backend_fd L) (map (kqueue_changes L) [0..<kqueue_changecnt L]) (kqueue_eventmax L) timeout (os L);
          L = L\<lparr>os := s\<rparr>
      in if res \<ge> 0 \<or> e \<noteq> EINTR then ((res, e, evs), L) else kevent_retry sys n timeout L)"

definition kqueue_event_one :: "'w kqueue_os \<Rightarrow> kevent \<times> int \<Rightarrow> 'w ev_loop \<Rightarrow> 'w ev_loop option" where
  "kqueue_event_one sys kd L =
     (let (k, err) = kd; fd = ke_ident k in
      if fd < 0 \<or> fd \<ge> int (anfdmax L) then Some L
      else if ke_flags k AND KEV_ERROR \<noteq> 0 then
        if anfd_events (anfds L fd) \<noteq> 0 then
          if err = ENOENT then Some (kqueue_modify sys fd 0 (ucast (anfd_events (anfds L fd))) L)
          else if err = EBADF then
            if sys_fd_valid sys fd (os L) then Some (kqueue_modify sys fd 0 (ucast (anfd_events (anfds L fd))) L)
            else fd_kill fd (chk False L)
          else fd_kill fd (chk False L)
        else Some L
      else
        Some (fd_event fd (if ke_filter k = EVFILT_READ then EV_READ else if ke_filter k = EVFILT_WRITE then EV_WRITE else 0) L))"

fun kqueue_events_all :: "'w kqueue_os \<Rightarrow> (kevent \<times> int) list \<Rightarrow> 'w ev_loop \<Rightarrow> 'w ev_loop option" where
  "kqueue_events_all sys [] L = Some L"
| "kqueue_events_all sys (k # ks) L = Option.bind (kqueue_event_one sys k L) (kqueue_events_all sys ks)"

definition kqueue_poll :: "'w env \<Rightarrow> 'w kqueue_os \<Rightarrow> ev_tstamp \<Rightarrow> 'w ev_loop \<Rightarrow> 'w ev_loop option" where
  "kqueue_poll env sys timeout L =
     (let L = (if kqueue_changecnt L > kqueue_eventmax L
               then L\<lparr>kqueue_eventmax := array_size 32 (kqueue_eventmax L) (kqueue_changecnt L)\<rparr> else L);
          L = L\<lparr>os := env_release env (os L)\<rparr>;
          ((res, e, evs), L) = kevent_retry sys 256 timeout L;
          L = L\<lparr>os := env_acquire env (os L)\<rparr>
      in if res < 0 \<and> e = EINTR then Some L
         else
           Option.bind (if res < 0 then ev_syserr env L else Some L) (\<lambda>L.
             map_option (\<lambda>L. if res = int (kqueue_eventmax L)
                 then L\<lparr>kqueue_eventmax := array_size 32 (kqueue_eventmax L) (kqueue_eventmax L + 1)\<rparr> else L)
               (kqueue_events_all sys (take (nat res) evs) (L\<lparr>kqueue_changecnt := 0\<rparr>))))"

definition kqueue_init :: "'w env \<Rightarrow> 'w kqueue_os \<Rightarrow> 'w ev_loop \<Rightarrow> u32 \<times> 'w ev_loop" where
  "kqueue_init env sys L =
     (let L = L\<lparr>kqueue_fd_pid := env_getpid env (os L)\<rparr>;
          (kq, s) = sys_kqueue sys (os L);
          L = L\<lparr>os := s\<rparr>
      in if kq < 0 then (0, L)
         else (EVBACKEND_KQUEUE, L\<lparr>backend_fd := kq, backend_mintime := rnd64 (1 / 1000000000), kqueue_eventmax := 64,
                 kqueue_changemax := 0, kqueue_changecnt := 0\<rparr>))"

partial_function (option) kqueue_recreate :: "'w env \<Rightarrow> 'w kqueue_os \<Rightarrow> 'w ev_loop \<Rightarrow> 'w ev_loop option" where
  "kqueue_recreate env sys L =
     (let (kq, s) = sys_kqueue sys (os L); L = L\<lparr>os := s\<rparr> in
      if kq < 0 then Option.bind (ev_syserr env L) (kqueue_recreate env sys) else Some (L\<lparr>backend_fd := kq\<rparr>))"

definition kqueue_fork :: "'w env \<Rightarrow> 'w kqueue_os \<Rightarrow> 'w ev_loop \<Rightarrow> 'w ev_loop option" where
  "kqueue_fork env sys L =
     (let newpid = env_getpid env (os L);
          L = (if newpid = kqueue_fd_pid L then L\<lparr>os := env_close env (backend_fd L) (os L)\<rparr> else L);
          L = L\<lparr>kqueue_fd_pid := newpid\<rparr>
      in map_option fd_rearm_all (kqueue_recreate env sys L))"

definition kqueue_env :: "'w kqueue_os \<Rightarrow> 'w env \<Rightarrow> 'w env" where
  "kqueue_env sys env = env\<lparr>env_modify := \<lambda>fd oev nev L. Some (kqueue_modify sys fd oev nev L), env_poll := kqueue_poll env sys,
     env_backend_fork := kqueue_fork env sys\<rparr>"

subsection \<open>Event ports\<close>

abbreviation (input) PORT_SOURCE_FD :: int where "PORT_SOURCE_FD \<equiv> 4"
abbreviation (input) EBADFD :: int where "EBADFD \<equiv> 81"
abbreviation (input) ETIME :: int where "ETIME \<equiv> 62"

text \<open>The events carry source, object and mask; \<open>sys_port_getn\<close> also answers \<^verbatim>\<open>nget\<close>.\<close>

record 'w port_os =
  sys_port_create :: "'w \<Rightarrow> int \<times> 'w"
  sys_port_associate :: "int \<Rightarrow> int \<Rightarrow> u32 \<Rightarrow> 'w \<Rightarrow> (int \<times> int) \<times> 'w"
  sys_port_dissociate :: "int \<Rightarrow> int \<Rightarrow> 'w \<Rightarrow> 'w"
  sys_port_getn :: "int \<Rightarrow> nat \<Rightarrow> ev_tstamp \<Rightarrow> 'w \<Rightarrow> (int \<times> int \<times> nat \<times> (int \<times> int \<times> u32) list) \<times> 'w"

definition port_mask :: "u32 \<Rightarrow> u32" where
  "port_mask ev = (if ev AND EV_READ \<noteq> 0 then 0x1 OR 0x2000 else 0) OR (if ev AND EV_WRITE \<noteq> 0 then 0x4 else 0)"

definition port_associate_and_check :: "'w env \<Rightarrow> 'w port_os \<Rightarrow> int \<Rightarrow> u32 \<Rightarrow> 'w ev_loop \<Rightarrow> 'w ev_loop option" where
  "port_associate_and_check env sys fd ev L =
     (let ((r, e), s) = sys_port_associate sys (backend_fd L) fd (port_mask ev) (os L); L = L\<lparr>os := s\<rparr> in
      if r < 0 then if e = EBADFD then fd_kill fd (chk False L) else ev_syserr env L else Some L)"

definition port_modify :: "'w env \<Rightarrow> 'w port_os \<Rightarrow> int \<Rightarrow> u32 \<Rightarrow> u32 \<Rightarrow> 'w ev_loop \<Rightarrow> 'w ev_loop option" where
  "port_modify env sys fd oev nev L =
     (if nev = 0 then Some (if oev \<noteq> 0 then L\<lparr>os := sys_port_dissociate sys (backend_fd L) fd (os L)\<rparr> else L)
      else port_associate_and_check env sys fd nev L)"

definition port_event_one :: "int \<times> int \<times> u32 \<Rightarrow> 'w ev_loop \<Rightarrow> 'w ev_loop" where
  "port_event_one pe L =
     (let (src, fd, ev) = pe in
      if src = PORT_SOURCE_FD then
        fd_change fd 0x80
          (fd_event fd ((if ev AND (0x4 OR 0x8 OR 0x10) \<noteq> 0 then EV_WRITE else 0) OR
             (if ev AND (0x1 OR 0x8 OR 0x10 OR 0x2000) \<noteq> 0 then EV_READ else 0)) L)
      else L)"

definition port_poll :: "'w env \<Rightarrow> 'w port_os \<Rightarrow> ev_tstamp \<Rightarrow> 'w ev_loop \<Rightarrow> 'w ev_loop option" where
  "port_poll env sys timeout L =
     (let s = env_release env (os L);
          ((res, e, nget, evs), s) = sys_port_getn sys (backend_fd L) (port_eventmax L) timeout s;
          L = L\<lparr>os := env_acquire env s\<rparr>;
          n = (if res = - 1 then 0 else nget)
      in map_option (\<lambda>L.
           let L = fold port_event_one (take n evs) L
           in if n = port_eventmax L then L\<lparr>port_eventmax := array_size 32 (port_eventmax L) (port_eventmax L + 1)\<rparr> else L)
         (if res = - 1 \<and> e \<noteq> ETIME \<and> e \<noteq> EINTR then ev_syserr env L else Some L))"

definition port_init :: "'w port_os \<Rightarrow> 'w ev_loop \<Rightarrow> u32 \<times> 'w ev_loop" where
  "port_init sys L =
     (let (fd, s) = sys_port_create sys (os L); L = L\<lparr>os := s\<rparr> in
      if fd < 0 then (0, L)
      else (EVBACKEND_PORT, L\<lparr>backend_fd := fd, backend_mintime := rnd64 (1 / 1000), port_eventmax := 64\<rparr>))"

partial_function (option) port_recreate :: "'w env \<Rightarrow> 'w port_os \<Rightarrow> 'w ev_loop \<Rightarrow> 'w ev_loop option" where
  "port_recreate env sys L =
     (let (fd, s) = sys_port_create sys (os L); L = L\<lparr>os := s\<rparr> in
      if fd < 0 then Option.bind (ev_syserr env L) (port_recreate env sys) else Some (L\<lparr>backend_fd := fd\<rparr>))"

definition port_fork :: "'w env \<Rightarrow> 'w port_os \<Rightarrow> 'w ev_loop \<Rightarrow> 'w ev_loop option" where
  "port_fork env sys L = map_option fd_rearm_all (port_recreate env sys (L\<lparr>os := env_close env (backend_fd L) (os L)\<rparr>))"

end
