(* ===== verification/Run_Inv.thy ===== *)
theory Run_Inv
  imports Io_Inv
begin

section \<open>A round of the loop keeps the invariant\<close>

text \<open>
  What the loop does on its own between two callbacks: clocks, expired timers and periodics, idle and check watchers.
  Each step is \<open>internal\<close>: it keeps the invariant of the whole loop, fails no check, starts nothing, and changes of a
  watcher at most \<^verbatim>\<open>active\<close>, \<^verbatim>\<open>pending\<close> and \<^verbatim>\<open>at\<close>.
\<close>

subsection \<open>Steps that change no watcher's settings\<close>

definition same_static :: "wstore \<Rightarrow> wstore \<Rightarrow> bool" where
  "same_static s s' \<longleftrightarrow> (\<forall>v. (s' v)\<lparr>active := 0, pending := 0, w_at := 0\<rparr> = (s v)\<lparr>active := 0, pending := 0, w_at := 0\<rparr>)"

lemma same_static_refl [simp]: "same_static s s"
  by (simp add: same_static_def)

lemma same_static_trans: "same_static a b \<Longrightarrow> same_static b c \<Longrightarrow> same_static a c"
  by (simp add: same_static_def)

lemma same_staticD:
  assumes "same_static s s'"
  shows "priority (s' v) = priority (s v)" "w_repeat (s' v) = w_repeat (s v)" "w_interval (s' v) = w_interval (s v)"
    "w_reschedule (s' v) = w_reschedule (s v)" "w_cb (s' v) = w_cb (s v)"
proof -
  have e: "(s' v)\<lparr>active := 0, pending := 0, w_at := 0\<rparr> = (s v)\<lparr>active := 0, pending := 0, w_at := 0\<rparr>" using assms by (simp add: same_static_def)
  show "priority (s' v) = priority (s v)" using arg_cong[OF e, of priority] by simp
  show "w_repeat (s' v) = w_repeat (s v)" using arg_cong[OF e, of w_repeat] by simp
  show "w_interval (s' v) = w_interval (s v)" using arg_cong[OF e, of w_interval] by simp
  show "w_reschedule (s' v) = w_reschedule (s v)" using arg_cong[OF e, of w_reschedule] by simp
  show "w_cb (s' v) = w_cb (s v)" using arg_cong[OF e, of w_cb] by simp
qed

lemma same_active_pending: "(x :: ev_watcher)\<lparr>active := 0\<rparr> = y\<lparr>active := 0\<rparr> \<Longrightarrow> x\<lparr>active := 0, pending := 0, w_at := 0\<rparr> = y\<lparr>active := 0, pending := 0, w_at := 0\<rparr>"
  by (metis ev_watcher.update_convs(1) ev_watcher.surjective)

lemma same_but_at: "(x :: ev_watcher)\<lparr>w_at := 0\<rparr> = y\<lparr>w_at := 0\<rparr> \<Longrightarrow> x\<lparr>active := 0, pending := 0, w_at := 0\<rparr> = y\<lparr>active := 0, pending := 0, w_at := 0\<rparr>"
  by (cases x; cases y) simp

lemma same_static_active: "same_but_active s s' \<Longrightarrow> same_static s s'"
  unfolding same_static_def same_but_active_def using same_active_pending by blast

lemma same_static_upd: "(f (s w))\<lparr>active := 0, pending := 0, w_at := 0\<rparr> = (s w)\<lparr>active := 0, pending := 0, w_at := 0\<rparr> \<Longrightarrow> same_static s (s(w := f (s w)))"
  by (simp add: same_static_def)

lemma same_static_clear [simp]: "same_static (ws L) (ws (clear_pending w L))"
  by (simp add: same_static_def clear_w)

lemma same_static_feed [simp]: "same_static (ws L) (ws (ev_feed_event w r L))"
  by (simp add: same_static_def ev_feed_event_def chk_def Let_def set_pending_def)

text \<open>The parts of the loop that only callbacks, the backend and signal handlers write.\<close>

definition flags_v :: "'w ev_loop \<Rightarrow> u8 \<times> int \<times> bool \<times> bool \<times> bool \<times> (nat \<Rightarrow> ANSIG)" where
  "flags_v L = (postfork L, curpid L, pipe_write_skipped L, sig_pending L, async_pending L, signals L)"

text \<open>The members of the backends, and the size of the descriptor table they index.\<close>

definition backend_v :: "'w ev_loop \<Rightarrow> (nat \<Rightarrow> u64) \<times> (nat \<Rightarrow> u64) \<times> nat \<times> (nat \<Rightarrow> pollfd) \<times> nat \<times> nat \<times> (int \<Rightarrow> int) \<times> nat" where
  "backend_v L = (vec_ri L, vec_wi L, vec_max L, polls L, pollcnt L, pollmax L, pollidxs L, pollidxmax L)"

definition aside_v :: "'w ev_loop \<Rightarrow> _" where
  "aside_v L = (flags_v L, backend_v L, anfdmax L)"

lemmas aside_defs = aside_v_def flags_v_def backend_v_def

definition static :: "'w ev_loop \<Rightarrow> 'w ev_loop \<Rightarrow> bool" where
  "static L L' \<longleftrightarrow> same_static (ws L) (ws L') \<and> (\<forall>v. active (ws L' v) \<noteq> 0 \<longrightarrow> active (ws L v) \<noteq> 0) \<and>
     (\<forall>v. kind v \<notin> {KTimer, KPeriodic} \<longrightarrow> active (ws L' v) = active (ws L v)) \<and> aside_v L' = aside_v L"

lemma static_refl: "static L L"
  by (simp add: static_def)

lemma static_trans: "static L M \<Longrightarrow> static M N \<Longrightarrow> static L N"
  unfolding static_def using same_static_trans by fastforce

text \<open>A change of one heap of watchers, of kind \<open>KTimer\<close> or \<open>KPeriodic\<close>.\<close>

lemma heap_keeps:
  assumes I: "loop_inv L" and P: "pend_inv L'" and K: "K = KTimer \<or> K = KPeriodic"
    and o: "others_same K L L'" "own_inv K L'" and S: "static L L'"
    and w: "\<forall>v. kind v \<noteq> K \<longrightarrow> (ws L' v)\<lparr>pending := 0\<rparr> = (ws L v)\<lparr>pending := 0\<rparr>"
  shows "loop_inv L'"
proof (rule loop_inv_frame[OF I P _ o w])
  show "pri_inv L'" unfolding pri_inv_def
  proof (intro allI impI)
    fix v assume "active (ws L' v) \<noteq> 0"
    then have "active (ws L v) \<noteq> 0" using S by (simp add: static_def)
    then have "pri_valid (ws L v)" by (rule pri_invD[OF loop_invD(2)[OF I]])
    moreover have "priority (ws L' v) = priority (ws L v)" using S by (intro same_staticD(1)) (simp add: static_def)
    ultimately show "pri_valid (ws L' v)" by (simp add: pri_valid_def)
  qed
qed

text \<open>The steps of this theory.\<close>

definition internal :: "'w ev_loop \<Rightarrow> 'w ev_loop \<Rightarrow> bool" where
  "internal L L' \<longleftrightarrow> loop_inv L' \<and> ok L' = ok L \<and> static L L'"

lemma internal_refl: "loop_inv L \<Longrightarrow> internal L L"
  by (simp add: internal_def static_refl)

lemma internal_trans: "internal L M \<Longrightarrow> internal M N \<Longrightarrow> internal L N"
  unfolding internal_def using static_trans by metis

lemma internalD: "internal L L' \<Longrightarrow> loop_inv L'"
  by (simp add: internal_def)

text \<open>A step that writes clocks, counters and the outside only.\<close>

definition same_loop :: "'w ev_loop \<Rightarrow> 'w ev_loop \<Rightarrow> bool" where
  "same_loop L L' \<longleftrightarrow> ws L' = ws L \<and> pendings L' = pendings L \<and> pendingcnt L' = pendingcnt L \<and> pendingmax L' = pendingmax L \<and>
     ok L' = ok L \<and> aside_v L' = aside_v L \<and> others_same KEmbed L L'"

lemma same_loop_inv:
  assumes "loop_inv L" "same_loop L L'"
  shows "loop_inv L'"
proof (rule loop_inv_frame[OF assms(1), where K = KEmbed])
  show "pend_inv L'" using assms pend_cong(1)[of L' L] loop_invD(1)[OF assms(1)] by (simp add: same_loop_def)
  show "pri_inv L'" using assms(2) loop_invD(2)[OF assms(1)] by (simp add: same_loop_def pri_inv_def)
qed (use assms(2) in \<open>simp_all add: same_loop_def own_inv_def\<close>)

lemma same_loop_internal: "loop_inv L \<Longrightarrow> same_loop L L' \<Longrightarrow> internal L L'"
  using same_loop_inv by (simp add: internal_def static_def) (simp add: same_loop_def)

lemmas same_loop_defs = same_loop_def aside_defs frame_defs

lemma loop_inv_clock [simp]:
  assumes "loop_inv L"
  shows "loop_inv (L\<lparr>os := s\<rparr>)" "loop_inv (L\<lparr>ok := b\<rparr>)" "loop_inv (feed_reverse w L)" "loop_inv (L\<lparr>rfeedcnt := n\<rparr>)"
proof -
  have b: "loop_inv (M\<lparr>ok := b\<rparr>)" if "loop_inv M" for M :: "'a ev_loop"
    by (rule loop_inv_frame[OF that, where K = KEmbed]) (use loop_invD[OF that] in \<open>simp_all add: pri_inv_def own_inv_def frame_defs\<close>)
  then show "loop_inv (L\<lparr>ok := b\<rparr>)" using assms .
  show "loop_inv (L\<lparr>os := s\<rparr>)" "loop_inv (feed_reverse w L)" "loop_inv (L\<lparr>rfeedcnt := n\<rparr>)"
    by (rule same_loop_inv[OF assms], simp add: same_loop_defs feed_reverse_eq)+
qed

subsection \<open>Feeding\<close>

lemma feed_internal:
  assumes "loop_inv L" "pri_valid (ws L w)" "w \<noteq> PendingW"
  shows "internal L (ev_feed_event w r L)"
  using feed_loop[OF assms, of r] by (simp add: internal_def keeps_def static_def aside_defs)

lemma feed_list_internal:
  assumes "loop_inv L" "\<forall>v \<in> set vs. pri_valid (ws L v) \<and> v \<noteq> PendingW"
  shows "internal L (feed_list vs r L)"
  using assms
proof (induction vs arbitrary: L)
  case (Cons v vs)
  have f: "internal L (ev_feed_event v r L)" using feed_internal[OF Cons.prems(1)] Cons.prems(2) by simp
  have "internal (ev_feed_event v r L) (feed_list vs r (ev_feed_event v r L))"
    by (rule Cons.IH[OF internalD[OF f]]) (use Cons.prems(2) in simp)
  then show ?case using internal_trans[OF f] by simp
qed (simp add: internal_refl)

subsection \<open>The heap of periodics\<close>

lemma periodic_stop_eq:
  assumes "active (ws L w) \<noteq> 0"
  defines "C \<equiv> clear_pending w L"
  defines "r \<equiv> heap_drop (periodics L) (ws C) (periodiccnt L - 1) (active (ws L w))"
  shows "ev_periodic_stop w L = C\<lparr>
    ws := (snd r)(w := (snd r w)\<lparr>active := 0\<rparr>),
    ok := ok C \<and> active (ws L w) < periodicmax L \<and> he_w (periodics L (active (ws L w))) = w \<and> periodiccnt L \<noteq> 0,
    activecnt := activecnt L - 1, periodics := fst r, periodiccnt := periodiccnt L - 1\<rparr>"
  using assms(1) by (simp add: ev_periodic_stop_def Let_def base_defs put_periodics_def r_def C_def)

abbreviation periodic_map :: "'w ev_loop \<Rightarrow> W \<Rightarrow> ev_tstamp option" where
  "periodic_map L \<equiv> deadlines KPeriodic (ws L)"

lemma periodic_stop_inv:
  assumes P: "pend_inv L" and T: "periodics_inv L" and w: "kind w = KPeriodic" "active (ws L w) \<noteq> 0"
  defines "L' \<equiv> ev_periodic_stop w L"
  shows "pend_inv L'" "periodics_inv L'" "periodic_map L' = (periodic_map L)(w := None)" "ok L' = ok L"
    "kind v \<noteq> KPeriodic \<Longrightarrow> ws L' v = ws L v" "static L L'" "others_same KPeriodic L L'"
    "ev_rt_now L' = ev_rt_now L" "os L' = os L" "rfeedcnt L' = rfeedcnt L" "rfeeds L' = rfeeds L"
proof -
  let ?C = "clear_pending w L"
  define N where "N = periodiccnt L - 1"
  let ?r = "heap_drop (periodics L) (ws ?C) N (active (ws L w))"
  note i = theap_index[OF T[unfolded periodics_inv_def] w]
  have N: "periodiccnt L = Suc N" using i(6) by (simp add: N_def)
  have TC: "periodics_inv ?C" using T unfolding periodics_inv_def clear_fields by (rule theap_cong[rotated]) simp
  have HC: "theap KPeriodic (periodics L) (periodicmax L) (Suc N) (ws ?C)" using TC N by (simp add: periodics_inv_def)
  note e = periodic_stop_eq[OF w(2), folded N_def L'_def]
  have ac: "active (ws ?C w) \<noteq> 0" using w(2) by simp
  note tr = theap_remove[OF HC w(1) ac, unfolded clear_frame(1), of "ws L'"]
  have s2: "\<forall>v. v \<noteq> w \<longrightarrow> active (ws L' v) = active (snd ?r v)" "\<forall>v. v \<noteq> w \<longrightarrow> w_at (ws L' v) = w_at (snd ?r v)" by (simp_all add: e)
  have s2w: "active (ws L' w) = 0" by (simp add: e)
  note tr = tr[OF s2 s2w]
  have f: "pendings L' = pendings ?C" "pendingcnt L' = pendingcnt ?C" "pendingmax L' = pendingmax ?C" by (simp_all add: e)
  have pd: "pending (ws L' v) = pending (ws ?C v)" "priority (ws L' v) = priority (ws ?C v)" for v
    using same_but_activeD(1,2)[OF tr(2), of v] by (auto simp: e)
  show "pend_inv L'" using pend_cong(1)[OF f pd] clear_inv[OF P, of w] by simp
  show "periodics_inv L'" using tr(1) by (simp add: periodics_inv_def e)
  have "deadlines KPeriodic (ws ?C) = periodic_map L" by (rule ext) (simp add: deadlines_def)
  then show m: "periodic_map L' = (periodic_map L)(w := None)" using tr(5) by simp
  show "ok L' = ok L" using i clear_ok[OF P] by (simp add: e)
  show k: "ws L' v = ws L v" if "kind v \<noteq> KPeriodic" for v
    using tr(3)[OF that] clear_other[of v w L] that w(1) by (cases "v = w") (auto simp: e)
  show "ev_rt_now L' = ev_rt_now L" "os L' = os L" "rfeedcnt L' = rfeedcnt L" "rfeeds L' = rfeeds L" by (simp_all add: e)
  show "others_same KPeriodic L L'" by (simp add: e frame_defs)
  have "same_static (ws ?C) (ws L')" using same_static_active[OF tr(2)] by (simp add: same_static_def e)
  then have "same_static (ws L) (ws L')" using same_static_trans[OF same_static_clear] by blast
  moreover have "active (ws L v) \<noteq> 0" if "active (ws L' v) \<noteq> 0" for v
  proof (cases "kind v = KPeriodic")
    case True
    then have "periodic_map L' v \<noteq> None" using that by (simp add: deadlines_def)
    then have "periodic_map L v \<noteq> None" unfolding m by (cases "v = w") auto
    then show ?thesis by (simp add: deadlines_def split: if_splits)
  qed (use k that in simp)
  moreover have "aside_v L' = aside_v L" by (simp add: aside_defs e)
  ultimately show "static L L'" using k by (simp add: static_def)
qed

lemma periodic_stop_internal:
  assumes I: "loop_inv L" and w: "kind w = KPeriodic" "active (ws L w) \<noteq> 0"
  shows "internal L (ev_periodic_stop w L)"
proof -
  note s = periodic_stop_inv[OF loop_invD(1,5)[OF I] w]
  have "loop_inv (ev_periodic_stop w L)"
    by (rule heap_keeps[OF I s(1) _ s(7) _ s(6)]) (use s(2,5) in \<open>auto simp: own_inv_def\<close>)
  then show ?thesis using s(4,6) by (simp add: internal_def)
qed

text \<open>The deadline of the root is replaced, in the watcher and in the heap, and the root sifted down.\<close>

definition periodic_root :: "ev_tstamp \<Rightarrow> 'w ev_loop \<Rightarrow> 'w ev_loop" where
  "periodic_root t L =
     (let w = he_w (periodics L HEAP0)
      in put_periodics (downheap ((periodics L)(HEAP0 := \<lparr>he_at = t, he_w = w\<rparr>)) ((ws L)(w := (ws L w)\<lparr>w_at := t\<rparr>)) (periodiccnt L) HEAP0) L)"

lemma periodic_root_inv:
  fixes t :: ev_tstamp
  assumes I: "loop_inv L" and n: "periodiccnt L \<noteq> 0"
  defines "w \<equiv> he_w (periodics L HEAP0)" and "L' \<equiv> periodic_root t L"
  shows "internal L L'" "periodic_map L' = (periodic_map L)(w \<mapsto> t)"
    "ev_rt_now L' = ev_rt_now L" "rfeedcnt L' = rfeedcnt L" "rfeeds L' = rfeeds L"
proof -
  note T = loop_invD(5)[OF I, unfolded periodics_inv_def]
  have w: "kind w = KPeriodic" "active (ws L w) = HEAP0" using theap_at(1,2)[OF T order_refl] n by (auto simp: w_def)
  define s1 where "s1 = (ws L)(w := (ws L w)\<lparr>w_at := t\<rparr>)"
  define h1 where "h1 = (periodics L)(HEAP0 := \<lparr>he_at = t, he_w = w\<rparr>)"
  have e: "L' = put_periodics (adjustheap h1 s1 (periodiccnt L) (active (ws L w))) L"
    by (simp add: L'_def periodic_root_def s1_def h1_def w_def[symmetric] w(2) adjustheap_def Let_def)
  have ac: "active (ws L w) \<noteq> 0" using w(2) by simp
  have s1: "\<forall>v. active (s1 v) = active (ws L v)" "\<forall>v. v \<noteq> w \<longrightarrow> w_at (s1 v) = w_at (ws L v)" "w_at (s1 w) = t" by (simp_all add: s1_def)
  note tu = theap_update[OF T w(1) ac s1(1,2), unfolded s1(3) w(2), folded h1_def]
  have sb: "same_but_active s1 (ws L')" using tu(2) by (simp add: e put_periodics_def w(2))
  have pd: "pending (ws L' v) = pending (ws L v)" "priority (ws L' v) = priority (ws L v)" for v
    using same_but_activeD(1,2)[OF sb, of v] by (auto simp: s1_def)
  have f: "pendings L' = pendings L" "pendingcnt L' = pendingcnt L" "pendingmax L' = pendingmax L" by (simp_all add: e put_periodics_def)
  have P: "pend_inv L'" using pend_cong(1)[OF f pd] loop_invD(1)[OF I] by simp
  have P': "periodics_inv L'" "periodic_map L' = (periodic_map L)(w \<mapsto> t)"
    using tu(1,5) by (simp_all add: periodics_inv_def e put_periodics_def w(2))
  have k: "ws L' v = ws L v" if "kind v \<noteq> KPeriodic" for v
  proof -
    have "ws L' v = s1 v" "v \<noteq> w" using tu(3)[OF that] w that by (auto simp: e put_periodics_def)
    then show ?thesis by (simp add: s1_def)
  qed
  have "same_static (ws L) s1" unfolding s1_def by (rule same_static_upd) simp
  then have "same_static (ws L) (ws L')" using same_static_trans same_static_active[OF sb] by blast
  moreover have "active (ws L v) \<noteq> 0" if "active (ws L' v) \<noteq> 0" for v
  proof (cases "kind v = KPeriodic")
    case True
    then have "periodic_map L' v \<noteq> None" using that by (simp add: deadlines_def)
    then have "v = w \<or> periodic_map L v \<noteq> None" unfolding P'(2) by auto
    then show ?thesis using ac by (auto simp: deadlines_def split: if_splits)
  qed (use k that in simp)
  moreover have "aside_v L' = aside_v L" by (simp add: aside_defs e put_periodics_def)
  ultimately have S: "static L L'" using k by (simp add: static_def)
  have o: "others_same KPeriodic L L'" by (simp add: e put_periodics_def frame_defs)
  have "loop_inv L'" by (rule heap_keeps[OF I P _ o _ S]) (use P' k in \<open>auto simp: own_inv_def\<close>)
  then show "internal L L'" using S by (simp add: internal_def) (simp add: e put_periodics_def)
  show "periodic_map L' = (periodic_map L)(w \<mapsto> t)" by (rule P'(2))
  show "ev_rt_now L' = ev_rt_now L" "rfeedcnt L' = rfeedcnt L" "rfeeds L' = rfeeds L" by (simp_all add: e put_periodics_def)
qed

subsection \<open>Expired periodics\<close>

text \<open>
  What the code asks of the caller: an interval that is not negative unless a reschedule callback is set, and a callback
  that never names a time in the past.
\<close>

definition periodic_args :: "'w ev_loop \<Rightarrow> bool" where
  "periodic_args L \<longleftrightarrow> (\<forall>v. kind v = KPeriodic \<and> active (ws L v) \<noteq> 0 \<and> w_reschedule (ws L v) = None \<longrightarrow> 0 \<le> w_interval (ws L v))"

definition timer_args :: "'w ev_loop \<Rightarrow> bool" where
  "timer_args L \<longleftrightarrow> (\<forall>v. kind v = KTimer \<and> active (ws L v) \<noteq> 0 \<longrightarrow> 0 \<le> w_repeat (ws L v))"

definition resched_ok :: "'w env \<Rightarrow> bool" where
  "resched_ok env \<longleftrightarrow> (\<forall>cb w t s. t \<le> fst (env_resched env cb w t s))"

lemma args_static:
  assumes "static L L'"
  shows "periodic_args L \<Longrightarrow> periodic_args L'" "timer_args L \<Longrightarrow> timer_args L'"
proof -
  have a: "active (ws L' v) \<noteq> 0 \<Longrightarrow> active (ws L v) \<noteq> 0" for v using assms by (simp add: static_def)
  have s: "w_repeat (ws L' v) = w_repeat (ws L v)" "w_interval (ws L' v) = w_interval (ws L v)" "w_reschedule (ws L' v) = w_reschedule (ws L v)" for v
    using assms by (auto simp: static_def intro: same_staticD)
  show "periodic_args L \<Longrightarrow> periodic_args L'" "timer_args L \<Longrightarrow> timer_args L'" using a by (auto simp: periodic_args_def timer_args_def s)
qed

text \<open>The periodics that are due.\<close>

definition pdue :: "'w ev_loop \<Rightarrow> W set" where
  "pdue L = {v. \<exists>t. periodic_map L v = Some t \<and> t < ev_rt_now L}"

lemma periodics_due_root:
  assumes "periodics_inv L" "periodics_due L"
  shows "kind (he_w (periodics L HEAP0)) = KPeriodic" "active (ws L (he_w (periodics L HEAP0))) = HEAP0" "he_w (periodics L HEAP0) \<in> pdue L"
proof -
  have N: "HEAP0 < periodiccnt L + HEAP0" using assms(2) by (simp add: periodics_due_def)
  note i = theap_at[OF assms(1)[unfolded periodics_inv_def] order_refl N]
  show "kind (he_w (periodics L HEAP0)) = KPeriodic" "active (ws L (he_w (periodics L HEAP0))) = HEAP0" by (rule i)+
  show "he_w (periodics L HEAP0) \<in> pdue L" using i assms(2) by (simp add: pdue_def deadlines_def periodics_due_def)
qed

lemma periodics_due_iff:
  assumes "periodics_inv L" shows "periodics_due L \<longleftrightarrow> pdue L \<noteq> {}"
proof
  show "periodics_due L \<Longrightarrow> pdue L \<noteq> {}" using periodics_due_root(3)[OF assms] by auto
  assume "pdue L \<noteq> {}"
  then obtain v where v: "kind v = KPeriodic" "active (ws L v) \<noteq> 0" "w_at (ws L v) < ev_rt_now L"
    by (auto simp: pdue_def deadlines_def split: if_splits)
  note iv = theap_index[OF assms[unfolded periodics_inv_def] v(1,2)]
  have "he_at (periodics L HEAP0) \<le> he_at (periodics L (active (ws L v)))"
    by (rule h4.root_min[OF _ iv(1,2)]) (use theapD(1)[OF assms[unfolded periodics_inv_def]] in \<open>simp add: heap_ok_def\<close>)
  then show "periodics_due L" using iv(4,6) v(3) by (simp add: periodics_due_def)
qed

lemma finite_pdue: "periodics_inv L \<Longrightarrow> finite (pdue L)"
proof -
  assume T: "periodics_inv L"
  have "pdue L \<subseteq> heap_watchers HEAP0 (periodics L) (periodiccnt L)"
    using theapD(5)[OF T[unfolded periodics_inv_def]] by (auto simp: pdue_def deadlines_def split: if_splits)
  then show ?thesis by (rule finite_subset) (simp add: heap_watchers_def)
qed

lemma rfeed_list_cong: "rfeeds L' = rfeeds L \<Longrightarrow> rfeedcnt L' = rfeedcnt L \<Longrightarrow> rfeed_list L' = rfeed_list L"
  by (simp add: rfeed_list_def)

lemma feed_reverse_internal: "internal L M \<Longrightarrow> internal L (feed_reverse w M)"
proof -
  assume i: "internal L M"
  have "static L (feed_reverse w M) = static L M" "ok (feed_reverse w M) = ok M" by (simp_all add: static_def aside_defs feed_reverse_eq)
  then show ?thesis using i loop_inv_clock(3) by (simp add: internal_def)
qed

text \<open>The round's new deadline; none for a one-shot periodic.\<close>

definition reify_to :: "W \<Rightarrow> ev_tstamp option \<Rightarrow> 'w ev_loop \<Rightarrow> 'w ev_loop \<Rightarrow> bool" where
  "reify_to w n L L' \<longleftrightarrow> internal L L' \<and> periodic_map L' = (periodic_map L)(w := n) \<and> ev_rt_now L' = ev_rt_now L \<and> rfeed_list L' = rfeed_list L @ [w]"

lemma reify_to_root:
  assumes I: "loop_inv L" "periodiccnt L \<noteq> 0"
  shows "reify_to (he_w (periodics L HEAP0)) (Some t) L (feed_reverse (he_w (periodics L HEAP0)) (periodic_root t (L\<lparr>os := s\<rparr>)))"
proof -
  let ?S = "L\<lparr>os := s\<rparr>"
  have S: "internal L ?S" by (rule same_loop_internal[OF I(1)]) (simp add: same_loop_defs)
  have n: "periodiccnt ?S \<noteq> 0" using I(2) by simp
  note r = periodic_root_inv[OF internalD[OF S] n, of t]
  show ?thesis unfolding reify_to_def
    using feed_reverse_internal[OF internal_trans[OF S r(1)]] r(2,3) rfeed_list_cong[OF r(5,4)]
    by (simp add: feed_reverse_eq) (simp add: rfeed_list_def)
qed

lemma periodics_reify_one_returns:
  assumes I: "loop_inv L" and a: "periodic_args L" "resched_ok env" and d: "periodics_due L"
  defines "w \<equiv> he_w (periodics L HEAP0)"
  shows "\<exists>L' n. periodics_reify_one env L = Some L' \<and> reify_to w n L L' \<and> (\<forall>t. n = Some t \<longrightarrow> ev_rt_now L \<le> t)"
proof -
  note r = periodics_due_root[OF loop_invD(5)[OF I] d, folded w_def]
  have n: "periodiccnt L \<noteq> 0" using d by (simp add: periodics_due_def)
  have e: "(periodics L)(HEAP0 := (periodics L HEAP0)\<lparr>he_at := t\<rparr>) = (periodics L)(HEAP0 := \<lparr>he_at = t, he_w = w\<rparr>)" for t
    by (simp add: w_def fun_eq_iff)
  show ?thesis
  proof (cases "w_reschedule (ws L w)")
    case (Some cb)
    obtain t s where ts: "env_resched env cb w (ev_rt_now L) (os L) = (t, s)" by (cases "env_resched env cb w (ev_rt_now L) (os L)")
    have le: "ev_rt_now L \<le> t" using a(2) ts unfolding resched_ok_def by (metis fst_conv)
    have "periodics_reify_one env L = Some (feed_reverse w (periodic_root t (L\<lparr>os := s\<rparr>)))"
      using Some ts le by (simp add: periodics_reify_one_def Let_def reschedule_def periodic_cache_def periodic_root_def base_defs put_periodics_def e flip: w_def)
    then show ?thesis using reify_to_root[OF I n, of t s, folded w_def] le by blast
  next
    case None
    show ?thesis
    proof (cases "w_interval (ws L w) = 0")
      case False
      moreover have "0 \<le> w_interval (ws L w)" using a(1)[unfolded periodic_args_def, rule_format, of w] r(1,2) None by simp
      ultimately have "0 < w_interval (ws L w)" by simp
      then obtain t where t: "recalc_at (ev_rt_now L) (w_offset (ws L w)) (w_interval (ws L w)) = Some t" "ev_rt_now L \<le> t"
        using recalc_at_returns[of "w_interval (ws L w)" "ev_rt_now L" "w_offset (ws L w)"] by blast
      have "periodics_reify_one env L = Some (feed_reverse w (periodic_root t L))"
        using None False t(1) by (simp add: periodics_reify_one_def Let_def periodic_recalc_def periodic_cache_def periodic_root_def base_defs put_periodics_def e flip: w_def)
      moreover have "reify_to w (Some t) L (feed_reverse w (periodic_root t L))"
        using reify_to_root[OF I n, of t "os L", folded w_def] by simp
      ultimately show ?thesis using t(2) by blast
    next
      case True
      then have eq: "periodics_reify_one env L = Some (feed_reverse w (ev_periodic_stop w L))"
        using None by (simp add: periodics_reify_one_def Let_def flip: w_def)
      have ac: "active (ws L w) \<noteq> 0" using r(2) by simp
      note s = periodic_stop_inv[OF loop_invD(1,5)[OF I] r(1) ac]
      have "reify_to w None L (feed_reverse w (ev_periodic_stop w L))" unfolding reify_to_def
        using feed_reverse_internal[OF periodic_stop_internal[OF I r(1) ac], of w] s(3,8) rfeed_list_cong[OF s(11,10)] by (simp add: feed_reverse_eq) (simp add: rfeed_list_def)
      then show ?thesis using eq by blast
    qed
  qed
qed


text \<open>The loops: every round takes one watcher out of those due.\<close>

lemma reify_to_pdue: "reify_to w n L L' \<Longrightarrow> \<forall>t. n = Some t \<longrightarrow> ev_rt_now L \<le> t \<Longrightarrow> pdue L' = pdue L - {w}"
  by (cases n) (auto simp: reify_to_def pdue_def)

definition reify_run :: "'w ev_loop \<Rightarrow> 'w ev_loop \<Rightarrow> bool" where
  "reify_run L L' \<longleftrightarrow> internal L L' \<and> ev_rt_now L' = ev_rt_now L \<and> pdue L' = {} \<and>
     (\<exists>fs. rfeed_list L' = rfeed_list L @ fs \<and> fs \<noteq> [] \<and> set fs = pdue L)"

lemma periodics_reify_loop_returns:
  assumes "loop_inv L" "periodic_args L" "resched_ok env" "periodics_due L"
  shows "\<exists>L'. periodics_reify_loop env L = Some L' \<and> reify_run L L'"
  using assms
proof (induction "card (pdue L)" arbitrary: L rule: less_induct)
  case less
  let ?w = "he_w (periodics L HEAP0)"
  note P = loop_invD(5)[OF less.prems(1)]
  obtain M n where M: "periodics_reify_one env L = Some M" "reify_to ?w n L M" "\<forall>t. n = Some t \<longrightarrow> ev_rt_now L \<le> t"
    using periodics_reify_one_returns[OF less.prems] by blast
  note m = M(2)[unfolded reify_to_def]
  have I: "loop_inv M" and st: "static L M" using m by (simp_all add: internal_def)
  have d: "pdue M = pdue L - {?w}" by (rule reify_to_pdue[OF M(2,3)])
  have wd: "?w \<in> pdue L" by (rule periodics_due_root(3)[OF P less.prems(4)])
  have lt: "card (pdue M) < card (pdue L)" unfolding d by (rule card_Diff1_less[OF finite_pdue[OF P] wd])
  show ?case
  proof (cases "periodics_due M")
    case True
    then obtain L' fs where L': "periodics_reify_loop env M = Some L'" "internal M L'" "ev_rt_now L' = ev_rt_now M" "pdue L' = {}"
      "rfeed_list L' = rfeed_list M @ fs" "set fs = pdue M"
      using less.hyps[OF lt I args_static(1)[OF st less.prems(2)] less.prems(3)] unfolding reify_run_def by blast
    have "periodics_reify_loop env L = Some L'" using M(1) True L'(1) by (subst periodics_reify_loop.simps) simp
    moreover have "reify_run L L'" unfolding reify_run_def
      using m L' d wd internal_trans[of L M L'] by (auto intro!: exI[of _ "?w # fs"])
    ultimately show ?thesis by blast
  next
    case False
    then have "pdue M = {}" using periodics_due_iff[OF loop_invD(5)[OF I]] by simp
    moreover have "periodics_reify_loop env L = Some M" using M(1) False by (subst periodics_reify_loop.simps) simp
    moreover have "set [?w] = pdue L" using d wd \<open>pdue M = {}\<close> by auto
    ultimately show ?thesis using m unfolding reify_run_def by blast
  qed
qed

lemma feed_reverse_done_internal:
  assumes "loop_inv L" "\<forall>v \<in> set (rfeed_list L). pri_valid (ws L v) \<and> v \<noteq> PendingW" "rfeedcnt L \<noteq> 0"
  shows "internal L (feed_reverse_done r L)" "rfeedcnt (feed_reverse_done r L) = 0"
    "ev_rt_now (feed_reverse_done r L) = ev_rt_now L" "periodic_map (feed_reverse_done r L) = periodic_map L"
proof -
  obtain n where n: "rfeedcnt L = Suc n" using assms(3) by (cases "rfeedcnt L") auto
  define F where "F = feed_list (map (rfeeds L) (rev [0..<Suc n])) r L"
  have e: "feed_reverse_done r L = F\<lparr>rfeedcnt := 0\<rparr>" using feed_reverse_done_list[OF n, of r] by (simp only: F_def)
  have "set (map (rfeeds L) (rev [0..<Suc n])) = set (rfeed_list L)" by (simp only: rfeed_list_def n set_map set_rev)
  then have "internal L F" unfolding F_def using feed_list_internal[OF assms(1)] assms(2) by (metis (no_types))
  moreover have "internal F (F\<lparr>rfeedcnt := 0\<rparr>)" by (rule same_loop_internal[OF internalD[OF \<open>internal L F\<close>]]) (simp add: same_loop_defs)
  ultimately show "internal L (feed_reverse_done r L)" unfolding e by (rule internal_trans)
  show "rfeedcnt (feed_reverse_done r L) = 0" by (simp add: e)
  show "ev_rt_now (feed_reverse_done r L) = ev_rt_now L" unfolding e F_def by simp
  show "periodic_map (feed_reverse_done r L) = periodic_map L" unfolding e F_def by (rule ext) (simp add: deadlines_def)
qed

lemma pri_static: "static L L' \<Longrightarrow> pri_valid (ws L' v) = pri_valid (ws L v)"
  using same_staticD(1)[of "ws L" "ws L'" v] by (simp add: static_def pri_valid_def)

text \<open>\<^verbatim>\<open>periodics_reify\<close> returns, and afterwards no periodic is due.\<close>

lemma periodics_reify_returns:
  assumes I: "loop_inv L" and a: "periodic_args L" "resched_ok env" and r: "rfeedcnt L = 0"
  shows "\<exists>L'. periodics_reify env L = Some L' \<and> internal L L' \<and> rfeedcnt L' = 0 \<and> ev_rt_now L' = ev_rt_now L \<and> pdue L' = {}"
proof (cases "periodics_due L")
  case False
  then have "periodics_reify env L = Some L" "pdue L = {}"
    using periodics_due_iff[OF loop_invD(5)[OF I]] by (subst periodics_reify.simps, simp_all)
  then show ?thesis using internal_refl[OF I] r by blast
next
  case True
  obtain M fs where M: "periodics_reify_loop env L = Some M" "internal L M" "ev_rt_now M = ev_rt_now L" "pdue M = {}"
    "rfeed_list M = fs" "fs \<noteq> []" "set fs = pdue L"
    using periodics_reify_loop_returns[OF I a True] r unfolding reify_run_def by (auto simp: rfeed_list_def)
  have v: "\<forall>v \<in> set (rfeed_list M). pri_valid (ws M v) \<and> v \<noteq> PendingW"
  proof
    fix v assume "v \<in> set (rfeed_list M)"
    then have v: "kind v = KPeriodic" "active (ws L v) \<noteq> 0" using M(5,7) by (auto simp: pdue_def deadlines_def split: if_splits)
    have "pri_valid (ws L v)" by (rule pri_invD[OF loop_invD(2)[OF I] v(2)])
    then show "pri_valid (ws M v) \<and> v \<noteq> PendingW" using v(1) M(2) pri_static by (auto simp: internal_def)
  qed
  have n: "rfeedcnt M \<noteq> 0" using M(5,6) by (auto simp: rfeed_list_def)
  define D where "D = feed_reverse_done EV_PERIODIC M"
  note d = feed_reverse_done_internal[OF internalD[OF M(2)] v n, of EV_PERIODIC, folded D_def]
  have p: "pdue D = {}" using M(4) by (simp add: pdue_def d(3,4))
  have "\<not> periodics_due D" using periodics_due_iff[OF loop_invD(5)[OF internalD[OF d(1)]]] p by simp
  then have "periodics_reify env D = Some D" by (subst periodics_reify.simps) simp
  then have "periodics_reify env L = Some D" using True M(1) by (subst periodics_reify.simps) (simp add: D_def)
  then show ?thesis using internal_trans[OF M(2) d(1)] d(2,3) M(3) p by auto
qed


subsection \<open>Expired timers\<close>

lemma timer_stop_static:
  assumes P: "pend_inv L" and T: "timers_inv L" and w: "kind w = KTimer" "active (ws L w) \<noteq> 0"
  shows "same_static (ws L) (ws (ev_timer_stop w L))"
proof -
  let ?C = "clear_pending w L" let ?L = "ev_timer_stop w L"
  define N where "N = timercnt L - 1"
  let ?r = "heap_drop (timers L) (ws ?C) N (active (ws L w))"
  note i = theap_index[OF T[unfolded timers_inv_def] w]
  have N: "timercnt L = Suc N" using i(6) by (simp add: N_def)
  have TC: "timers_inv ?C" using T unfolding timers_inv_def clear_fields by (rule theap_cong[rotated]) simp
  have HC: "theap KTimer (timers L) (timermax L) (Suc N) (ws ?C)" using TC N by (simp add: timers_inv_def)
  note e = ev_timer_stop_eq[OF w(2), folded N_def]
  have ac: "active (ws ?C w) \<noteq> 0" using w(2) by simp
  have s2: "\<forall>v. v \<noteq> w \<longrightarrow> active (ws ?L v) = active (snd ?r v)" "\<forall>v. v \<noteq> w \<longrightarrow> w_at (ws ?L v) = w_at (snd ?r v)" "active (ws ?L w) = 0" by (simp_all add: e)
  note sb = same_static_active[OF theap_remove(2)[OF HC w(1) ac, unfolded clear_frame(1), OF s2]]
  have "same_static (snd ?r) (ws ?L)" by (simp add: e same_static_def)
  then show ?thesis using same_static_trans[OF same_static_clear same_static_trans[OF sb]] by blast
qed

lemma reify_one_static:
  assumes P: "pend_inv L" and T: "timers_inv L" and d: "timers_due L"
  shows "same_static (ws L) (ws (timers_reify_one L))"
proof -
  define w where "w = he_w (timers L HEAP0)"
  note r = timers_due_root[OF T d, folded w_def]
  have act: "active (ws L w) \<noteq> 0" using r(2) by simp
  show ?thesis
  proof (cases "w_repeat (ws L w) = 0")
    case True
    then show ?thesis using timer_stop_static[OF P T r(1) act] by (simp add: timers_reify_one_def w_def Let_def)
  next
    case False
    let ?t = "max (fadd (w_at (ws L w)) (w_repeat (ws L w))) (mn_now L)"
    have e: "ws (timers_reify_one L) = ws (put_timers (adjustheap ((timers L)(active (ws L w) := \<lparr>he_at = ?t, he_w = w\<rparr>))
      ((ws L)(w := (ws L w)\<lparr>w_at := ?t\<rparr>)) (timercnt L) (active (ws L w))) L)"
      using reify_one_repeat[OF T d] False by (simp add: w_def)
    have "same_static (ws L) ((ws L)(w := (ws L w)\<lparr>w_at := ?t\<rparr>))" by (rule same_static_upd) simp
    then show ?thesis unfolding e using put_adjust_inv(6)[OF P T r(1) act, of ?t] same_static_active same_static_trans by blast
  qed
qed

text \<open>All that the steps on the heap of timers leave alone, as one value.\<close>

definition timer_frame :: "'w ev_loop \<Rightarrow> _" where
  "timer_frame L = (io_v L, pe_v L, id_v L, \<lambda>K. fam_v K L, aside_v L, ev_rt_now L)"

lemma timer_frame_fields [simp]:
  "timer_frame (L\<lparr>ws := s\<rparr>) = timer_frame L" "timer_frame (L\<lparr>timers := h\<rparr>) = timer_frame L" "timer_frame (L\<lparr>timercnt := n\<rparr>) = timer_frame L"
  "timer_frame (put_timers r L) = timer_frame L" "timer_frame (upd_w w f L) = timer_frame L" "timer_frame (chk b L) = timer_frame L"
  "timer_frame (ev_stop w L) = timer_frame L" "timer_frame (clear_pending w L) = timer_frame L" "timer_frame (feed_reverse w L) = timer_frame L"
proof -
  have "fam_v K (L\<lparr>ws := s\<rparr>) = fam_v K L" "fam_v K (L\<lparr>timers := h\<rparr>) = fam_v K L" "fam_v K (L\<lparr>timercnt := n\<rparr>) = fam_v K L"
    "fam_v K (put_timers r L) = fam_v K L" "fam_v K (upd_w w f L) = fam_v K L" "fam_v K (chk b L) = fam_v K L"
    "fam_v K (ev_stop w L) = fam_v K L" "fam_v K (clear_pending w L) = fam_v K L" "fam_v K (feed_reverse w L) = fam_v K L" for K
    by (cases K; simp add: base_defs put_timers_def feed_reverse_eq)+
  then show "timer_frame (L\<lparr>ws := s\<rparr>) = timer_frame L" "timer_frame (L\<lparr>timers := h\<rparr>) = timer_frame L" "timer_frame (L\<lparr>timercnt := n\<rparr>) = timer_frame L"
    "timer_frame (put_timers r L) = timer_frame L" "timer_frame (upd_w w f L) = timer_frame L" "timer_frame (chk b L) = timer_frame L"
    "timer_frame (ev_stop w L) = timer_frame L" "timer_frame (clear_pending w L) = timer_frame L" "timer_frame (feed_reverse w L) = timer_frame L"
    by (simp_all add: timer_frame_def io_v_def pe_v_def id_v_def aside_defs base_defs put_timers_def feed_reverse_eq)
qed

lemma timer_frameD:
  assumes "timer_frame L' = timer_frame L"
  shows "others_same KTimer L L'" "aside_v L' = aside_v L" "ev_rt_now L' = ev_rt_now L"
  using assms fun_cong[of "\<lambda>K. fam_v K L'" "\<lambda>K. fam_v K L"] by (auto simp: timer_frame_def others_same_def)

lemma reify_one_frame:
  "others_same KTimer L (timers_reify_one L)" "aside_v (timers_reify_one L) = aside_v L" "ev_rt_now (timers_reify_one L) = ev_rt_now L"
  by (rule timer_frameD, simp add: timers_reify_one_def ev_timer_stop_def Let_def)+

lemma reify_one_internal:
  assumes I: "loop_inv L" and a: "timer_args L" and d: "timers_due L"
  shows "internal L (timers_reify_one L)"
proof -
  let ?L = "timers_reify_one L" and ?w = "he_w (timers L HEAP0)"
  note PT = loop_invD(1,4)[OF I]
  note o = reify_one_inv[OF PT d] and r = timers_due_root[OF PT(2) d]
  have S: "static L ?L" unfolding static_def
  proof (intro conjI allI impI)
    fix v assume "active (ws ?L v) \<noteq> 0"
    then show "active (ws L v) \<noteq> 0"
    proof (cases "kind v = KTimer")
      case True
      then have "timer_map ?L v \<noteq> None" using \<open>active (ws ?L v) \<noteq> 0\<close> by (simp add: deadlines_def)
      then have "v = ?w \<or> timer_map L v \<noteq> None" unfolding o(3) by auto
      then show ?thesis using r(2) by (auto simp: deadlines_def split: if_splits)
    qed (use o(8) in simp)
  qed (use reify_one_static[OF PT d] reify_one_frame(2)[of L] o(8) in auto)
  have "loop_inv ?L" by (rule heap_keeps[OF I o(1) _ reify_one_frame(1) _ S]) (use o(2,8) in \<open>auto simp: own_inv_def\<close>)
  moreover have "0 \<le> w_repeat (ws L ?w)" using a[unfolded timer_args_def, rule_format, of ?w] r(1,2) by simp
  ultimately show ?thesis using S o(7) by (simp add: internal_def)
qed

definition tm_reify_run :: "'w ev_loop \<Rightarrow> 'w ev_loop \<Rightarrow> bool" where
  "tm_reify_run L L' \<longleftrightarrow> internal L L' \<and> ev_rt_now L' = ev_rt_now L \<and>
     (\<exists>fs. rfeed_list L' = rfeed_list L @ fs \<and> fs \<noteq> [] \<and> set fs = fired L)"

lemma timers_reify_loop_run:
  assumes "loop_inv L" "timer_args L" "timers_due L"
  shows "\<exists>L'. timers_reify_loop L = Some L' \<and> tm_reify_run L L'"
  using assms
proof (induction "card (fired L)" arbitrary: L rule: less_induct)
  case less
  let ?w = "he_w (timers L HEAP0)"
  define M where "M = timers_reify_one L"
  note PT = loop_invD(1,4)[OF less.prems(1)]
  note o = reify_one_inv[OF PT less.prems(3), folded M_def] and i = reify_one_internal[OF less.prems, folded M_def]
  have st: "static L M" using i by (simp add: internal_def)
  have d: "fired M = fired L - {?w}" by (rule fired_step[OF o(3,6)])
  have wd: "?w \<in> fired L" by (rule timers_due_root(4)[OF PT(2) less.prems(3)])
  have lt: "card (fired M) < card (fired L)" unfolding d by (rule card_Diff1_less[OF finite_fired[OF PT(2)] wd])
  have rt: "ev_rt_now M = ev_rt_now L" by (simp add: M_def reify_one_frame)
  show ?case
  proof (cases "timers_due M")
    case True
    then obtain L' fs where L': "timers_reify_loop M = Some L'" "internal M L'" "ev_rt_now L' = ev_rt_now M"
      "rfeed_list L' = rfeed_list M @ fs" "set fs = fired M"
      using less.hyps[OF lt internalD[OF i] args_static(2)[OF st less.prems(2)]] unfolding tm_reify_run_def by blast
    have "timers_reify_loop L = Some L'" using True L'(1) by (subst timers_reify_loop.simps) (simp add: Let_def M_def)
    moreover have "tm_reify_run L L'" unfolding tm_reify_run_def
      using o(5) L' d wd rt internal_trans[OF i, of L'] by (auto intro!: exI[of _ "?w # fs"])
    ultimately show ?thesis by blast
  next
    case False
    then have "fired M = {}" using timers_due_iff[OF o(2)] by simp
    moreover have "timers_reify_loop L = Some M" using False by (subst timers_reify_loop.simps) (simp add: Let_def M_def)
    moreover have "set [?w] = fired L" using d wd \<open>fired M = {}\<close> by auto
    ultimately show ?thesis using i o(5) rt unfolding tm_reify_run_def by blast
  qed
qed

lemma timers_reify_internal:
  assumes I: "loop_inv L" and a: "timer_args L" and r: "rfeedcnt L = 0"
  shows "\<exists>L'. timers_reify L = Some L' \<and> internal L L' \<and> rfeedcnt L' = 0"
proof (cases "timers_due L")
  case False
  then show ?thesis using internal_refl[OF I] r by (simp add: timers_reify_def)
next
  case True
  obtain M fs where M: "timers_reify_loop L = Some M" "internal L M" "rfeed_list M = fs" "fs \<noteq> []" "set fs = fired L"
    using timers_reify_loop_run[OF I a True] r unfolding tm_reify_run_def by (auto simp: rfeed_list_def)
  have v: "\<forall>v \<in> set (rfeed_list M). pri_valid (ws M v) \<and> v \<noteq> PendingW"
  proof
    fix v assume "v \<in> set (rfeed_list M)"
    then have v: "kind v = KTimer" "active (ws L v) \<noteq> 0" using M(3,5) by (auto simp: fired_def deadlines_def split: if_splits)
    have "pri_valid (ws L v)" by (rule pri_invD[OF loop_invD(2)[OF I] v(2)])
    then show "pri_valid (ws M v) \<and> v \<noteq> PendingW" using v(1) M(2) pri_static by (auto simp: internal_def)
  qed
  have n: "rfeedcnt M \<noteq> 0" using M(3,4) by (auto simp: rfeed_list_def)
  note d = feed_reverse_done_internal[OF internalD[OF M(2)] v n, of EV_TIMER]
  have "timers_reify L = Some (feed_reverse_done EV_TIMER M)" using True M(1) by (simp add: timers_reify_def)
  then show ?thesis using internal_trans[OF M(2) d(1)] d(2) by blast
qed


subsection \<open>Clock jumps\<close>

lemma timers_reschedule_internal:
  assumes I: "loop_inv L"
  shows "internal L (timers_reschedule adj L)" "rfeedcnt (timers_reschedule adj L) = rfeedcnt L"
proof -
  define M where "M = timers_reschedule adj L"
  note T = loop_invD(4)[OF I]
  note r = timers_reschedule_inv[OF T, where adj = adj, folded M_def]
  obtain h s where e: "M = L\<lparr>timers := h, ws := s\<rparr>" unfolding M_def timers_reschedule_def using timers_shift_eq[OF T order_refl] by blast
  have at: "active (ws M v) = active (ws L v)" "pending (ws M v) = pending (ws L v)" "priority (ws M v) = priority (ws L v)" for v
    using arg_cong[OF r(6)[of v], of active] arg_cong[OF r(6)[of v], of pending] arg_cong[OF r(6)[of v], of priority] by simp_all
  have f: "pendings M = pendings L" "pendingcnt M = pendingcnt L" "pendingmax M = pendingmax L" by (simp_all add: e)
  have P: "pend_inv M" using pend_cong(1)[OF f at(2,3)] loop_invD(1)[OF I] by simp
  have "(ws M v)\<lparr>active := 0, pending := 0, w_at := 0\<rparr> = (ws L v)\<lparr>active := 0, pending := 0, w_at := 0\<rparr>" for v
    by (rule same_but_at[OF r(6)])
  then have S: "static L M" using at(1) by (simp add: static_def same_static_def aside_defs e)
  have o: "others_same KTimer L M" by (simp add: e frame_defs)
  have "loop_inv M" by (rule heap_keeps[OF I P _ o _ S]) (use r(1,5) in \<open>auto simp: own_inv_def\<close>)
  then show "internal L M" using S r(2) by (simp add: internal_def)
  show "rfeedcnt M = rfeedcnt L" by (simp add: e)
qed

text \<open>The state between the rounds of \<^verbatim>\<open>periodics_reschedule\<close>: the first \<open>n\<close> entries have their new deadlines, in any order.\<close>

definition recalc_state :: "nat \<Rightarrow> 'w ev_loop \<Rightarrow> 'w ev_loop \<Rightarrow> bool" where
  "recalc_state n L M \<longleftrightarrow> (\<exists>s h t. M = L\<lparr>ws := s, periodics := h, os := t\<rparr> \<and> (\<forall>i. he_w (h i) = he_w (periodics L i)) \<and>
     (\<forall>v. (s v)\<lparr>w_at := 0\<rparr> = (ws L v)\<lparr>w_at := 0\<rparr> \<and> (kind v \<noteq> KPeriodic \<longrightarrow> s v = ws L v)) \<and>
     (\<forall>i. HEAP0 \<le> i \<and> i < n + HEAP0 \<longrightarrow> he_at (h i) = w_at (s (he_w (h i)))))"

lemma recalc_state_step:
  assumes I: "loop_inv L" and R: "recalc_state n L M" and n: "n < periodiccnt L"
  defines "w \<equiv> he_w (periodics M (n + HEAP0))"
  shows "recalc_state (Suc n) L (periodic_cache (n + HEAP0) (upd_w w (\<lambda>x. x\<lparr>w_at := t\<rparr>) (M\<lparr>os := u\<rparr>)))"
proof -
  obtain s h v where M: "M = L\<lparr>ws := s, periodics := h, os := v\<rparr>" and hw: "\<And>i. he_w (h i) = he_w (periodics L i)"
    and sv: "\<And>v. (s v)\<lparr>w_at := 0\<rparr> = (ws L v)\<lparr>w_at := 0\<rparr>" "\<And>v. kind v \<noteq> KPeriodic \<Longrightarrow> s v = ws L v"
    and c: "\<And>i. HEAP0 \<le> i \<Longrightarrow> i < n + HEAP0 \<Longrightarrow> he_at (h i) = w_at (s (he_w (h i)))"
    using R unfolding recalc_state_def by blast
  note T = loop_invD(5)[OF I, unfolded periodics_inv_def]
  have k: "HEAP0 \<le> n + HEAP0" "n + HEAP0 < periodiccnt L + HEAP0" using n by auto
  have w: "w = he_w (periodics L (n + HEAP0))" "kind w = KPeriodic" using theap_at(1)[OF T k] by (simp_all add: w_def M hw)
  have "inj_on (\<lambda>i. he_w (periodics L i)) {HEAP0..<periodiccnt L + HEAP0}"
    by (rule heap_indexed_inj[of _ _ "ws L"]) (use theapD(1)[OF T] in \<open>simp add: heap_ok_def\<close>)
  note inj = inj_onD[OF this]
  have ne: "he_w (periodics L i) \<noteq> w" if "HEAP0 \<le> i" "i < n + HEAP0" for i
    using inj[of i "n + HEAP0"] that n w(1) by auto
  let ?s = "s(w := (s w)\<lparr>w_at := t\<rparr>)" and ?h = "h(n + HEAP0 := (h (n + HEAP0))\<lparr>he_at := t\<rparr>)"
  have e: "periodic_cache (n + HEAP0) (upd_w w (\<lambda>x. x\<lparr>w_at := t\<rparr>) (M\<lparr>os := u\<rparr>)) = L\<lparr>ws := ?s, periodics := ?h, os := u\<rparr>"
    by (simp add: periodic_cache_def upd_w_def M hw w(1))
  have s: "(?s v)\<lparr>w_at := 0\<rparr> = (ws L v)\<lparr>w_at := 0\<rparr> \<and> (kind v \<noteq> KPeriodic \<longrightarrow> ?s v = ws L v)" for v
    using sv[of v] w(2) by auto
  have at: "he_at (?h i) = w_at (?s (he_w (?h i)))" if i: "HEAP0 \<le> i" "i < Suc n + HEAP0" for i
    using c[OF i(1)] ne[OF i(1)] i(2) w(1) hw[of i] by (cases "i = n + HEAP0") auto
  have hw': "he_w (?h i) = he_w (periodics L i)" for i by (simp add: hw)
  show ?thesis unfolding recalc_state_def e using s at hw' by blast
qed

lemma periodics_recalc_all_returns:
  assumes I: "loop_inv L" and a: "periodic_args L" and n: "n \<le> periodiccnt L"
  shows "\<exists>M. periodics_recalc_all env n L = Some M \<and> recalc_state n L M"
  using n
proof (induction n)
  case 0
  have "recalc_state 0 L L" unfolding recalc_state_def by (rule exI[of _ "ws L"], rule exI[of _ "periodics L"], rule exI[of _ "os L"]) simp
  then show ?case by simp
next
  case (Suc n)
  then obtain M where M: "periodics_recalc_all env n L = Some M" "recalc_state n L M" by auto
  define w where "w = he_w (periodics M (n + HEAP0))"
  have n: "n < periodiccnt L" using Suc.prems by simp
  note st = recalc_state_step[OF I M(2) n, folded w_def]
  note T = loop_invD(5)[OF I, unfolded periodics_inv_def]
  have k: "HEAP0 \<le> n + HEAP0" "n + HEAP0 < periodiccnt L + HEAP0" "n + HEAP0 < periodicmax L" using n theapD(2)[OF T] by auto
  obtain s h u where m: "M = L\<lparr>ws := s, periodics := h, os := u\<rparr>" "he_w (h (n + HEAP0)) = he_w (periodics L (n + HEAP0))"
    "(s w)\<lparr>w_at := 0\<rparr> = (ws L w)\<lparr>w_at := 0\<rparr>"
    using M(2) unfolding recalc_state_def by blast
  have ck: "chk (n + HEAP0 < periodicmax M) M = M" by (simp add: chk_def m(1) k(3))
  have w: "kind w = KPeriodic" "active (ws L w) \<noteq> 0" using theap_at(1,2)[OF T k(1,2)] by (simp_all add: w_def m(1,2))
  have wr: "w_reschedule (ws M w) = w_reschedule (ws L w)" "w_interval (ws M w) = w_interval (ws L w)"
    using arg_cong[OF m(3), of w_reschedule] arg_cong[OF m(3), of w_interval] by (simp_all add: m(1))
  have id: "upd_w w (\<lambda>x. x\<lparr>w_at := w_at (ws M w)\<rparr>) (M\<lparr>os := os M\<rparr>) = M" "M\<lparr>os := os M\<rparr> = M" by (simp_all add: upd_w_def)
  note eq = periodics_recalc_all.simps(2)[of env n L, unfolded M(1) bind.bind_lunit Let_def ck, folded w_def]
  show ?case
  proof (cases "w_reschedule (ws M w)")
    case (Some cb)
    obtain t s' where ts: "env_resched env cb w (ev_rt_now M) (os M) = (t, s')" by (cases "env_resched env cb w (ev_rt_now M) (os M)")
    then have "periodics_recalc_all env (Suc n) L = Some (periodic_cache (n + HEAP0) (upd_w w (\<lambda>x. x\<lparr>w_at := t\<rparr>) (M\<lparr>os := s'\<rparr>)))"
      unfolding eq using Some by (simp add: reschedule_def)
    then show ?thesis using st by blast
  next
    case None
    show ?thesis
    proof (cases "w_interval (ws M w) = 0")
      case True
      then have "periodics_recalc_all env (Suc n) L = Some (periodic_cache (n + HEAP0) M)" unfolding eq using None by simp
      moreover have "recalc_state (Suc n) L (periodic_cache (n + HEAP0) M)" using st[of "w_at (ws M w)" "os M"] unfolding id(1) .
      ultimately show ?thesis by (intro exI conjI)
    next
      case False
      have "0 \<le> w_interval (ws M w)" using a[unfolded periodic_args_def, rule_format, of w] w None wr by simp
      then have "0 < w_interval (ws M w)" using False by simp
      then obtain t where t: "recalc_at (ev_rt_now M) (w_offset (ws M w)) (w_interval (ws M w)) = Some t"
        using recalc_at_returns[of "w_interval (ws M w)" "ev_rt_now M" "w_offset (ws M w)"] by blast
      then have "periodics_recalc_all env (Suc n) L = Some (periodic_cache (n + HEAP0) (upd_w w (\<lambda>x. x\<lparr>w_at := t\<rparr>) M))"
        unfolding eq using None False by (simp add: periodic_recalc_def)
      moreover note st[of t "os M", unfolded id(2)]
      ultimately show ?thesis by (intro exI conjI)
    qed
  qed
qed


lemma periodics_reschedule_internal:
  assumes I: "loop_inv L" and a: "periodic_args L"
  shows "\<exists>L'. periodics_reschedule env L = Some L' \<and> internal L L' \<and> rfeedcnt L' = rfeedcnt L"
proof -
  let ?N = "periodiccnt L"
  obtain M where M: "periodics_recalc_all env ?N L = Some M" "recalc_state ?N L M" using periodics_recalc_all_returns[OF I a order_refl] by blast
  obtain s h t where m: "M = L\<lparr>ws := s, periodics := h, os := t\<rparr>" and hw: "\<And>i. he_w (h i) = he_w (periodics L i)"
    and sv: "\<And>v. (s v)\<lparr>w_at := 0\<rparr> = (ws L v)\<lparr>w_at := 0\<rparr>" "\<And>v. kind v \<noteq> KPeriodic \<Longrightarrow> s v = ws L v"
    and c: "\<And>i. HEAP0 \<le> i \<Longrightarrow> i < ?N + HEAP0 \<Longrightarrow> he_at (h i) = w_at (s (he_w (h i)))"
    using M(2) unfolding recalc_state_def by blast
  note T = loop_invD(5)[OF I, unfolded periodics_inv_def]
  define r where "r = reheap h s ?N"
  define L' where "L' = put_periodics r M"
  have e: "periodics_reschedule env L = Some L'" using M(1) by (simp add: periodics_reschedule_def L'_def r_def m)
  have d: "L' = L\<lparr>ws := snd r, periodics := fst r, os := t\<rparr>" by (simp add: L'_def put_periodics_def m)
  have W: "heap_watchers HEAP0 h ?N = heap_watchers HEAP0 (periodics L) ?N" by (simp add: heap_watchers_def hw)
  have inj: "inj_on (\<lambda>i. he_w (h i)) {HEAP0..<?N + HEAP0}" unfolding hw
    by (rule heap_indexed_inj[of _ _ "ws L"]) (use theapD(1)[OF T] in \<open>simp add: heap_ok_def\<close>)
  have c': "heap_cached HEAP0 h s ?N" using c by (simp add: heap_cached_def)
  note ok = h4.re_ok[OF inj c', folded r_def] and p = h4.re_perm[of ?N h s, folded r_def]
  note W' = heap_perm_watchers[OF p, unfolded W]
  have sb: "same_but_active s (snd r)" using p by (simp add: heap_perm_def)
  have out: "snd r v = s v" if "v \<notin> heap_watchers HEAP0 (periodics L) ?N" for v using p that W by (simp add: heap_perm_def)
  have at: "active (s v) = active (ws L v)" "pending (s v) = pending (ws L v)" "priority (s v) = priority (ws L v)" for v
    using arg_cong[OF sv(1)[of v], of active] arg_cong[OF sv(1)[of v], of pending] arg_cong[OF sv(1)[of v], of priority] by simp_all
  have k: "ws L' v = ws L v" if "kind v \<noteq> KPeriodic" for v using out[of v] sv(2)[OF that] theapD(3)[OF T, of v] that by (auto simp: d)
  have th: "periodics_inv L'" unfolding periodics_inv_def
  proof (rule theapI)
    show "heap_ok HEAP0 HPARENT (periodics L') (ws L') (periodiccnt L')" using ok by (simp add: d)
    show "active (ws L' v) = 0" if "kind v = KPeriodic" "v \<notin> heap_watchers HEAP0 (periodics L') (periodiccnt L')" for v
      using out[of v] at(1)[of v] theapD(5)[OF T that(1)] that(2) W' by (auto simp: d)
  qed (use theapD(2,3)[OF T] W' in \<open>simp_all add: d\<close>)
  have pd: "pending (ws L' v) = pending (ws L v)" "priority (ws L' v) = priority (ws L v)" for v
    using same_but_activeD(1,2)[OF sb, of v] at[of v] by (simp_all add: d)
  have f: "pendings L' = pendings L" "pendingcnt L' = pendingcnt L" "pendingmax L' = pendingmax L" by (simp_all add: d)
  have P: "pend_inv L'" using pend_cong(1)[OF f pd] loop_invD(1)[OF I] by simp
  have "(s v)\<lparr>active := 0, pending := 0, w_at := 0\<rparr> = (ws L v)\<lparr>active := 0, pending := 0, w_at := 0\<rparr>" for v
    by (rule same_but_at[OF sv(1)])
  then have ss: "same_static (ws L) (ws L')" using same_static_trans[OF _ same_static_active[OF sb]] by (simp add: same_static_def d)
  have "active (ws L v) \<noteq> 0" if "active (ws L' v) \<noteq> 0" for v
  proof (cases "v \<in> heap_watchers HEAP0 (periodics L) ?N")
    case True
    then show ?thesis by (rule theapD(4)[OF T])
  qed (use out at(1) that in \<open>simp add: d\<close>)
  then have S: "static L L'" using ss k by (simp add: static_def aside_defs) (simp add: d)
  have o: "others_same KPeriodic L L'" by (simp add: d frame_defs)
  have "loop_inv L'" by (rule heap_keeps[OF I P _ o _ S]) (use th k in \<open>auto simp: own_inv_def\<close>)
  then show ?thesis using e S by (simp add: internal_def) (simp add: d)
qed

subsection \<open>Clocks\<close>

definition clock_step :: "'w ev_loop \<Rightarrow> 'w ev_loop \<Rightarrow> bool" where
  "clock_step L L' \<longleftrightarrow> same_loop L L' \<and> rfeedcnt L' = rfeedcnt L"

lemma clock_step_refl: "clock_step L L"
  by (simp add: clock_step_def same_loop_defs)

lemma clock_step_trans: "clock_step L M \<Longrightarrow> clock_step M N \<Longrightarrow> clock_step L N"
  by (simp add: clock_step_def same_loop_defs)

lemma ev_time_step: "ev_time env L = (t, M) \<Longrightarrow> clock_step L M" "get_clock env L = (t, M) \<Longrightarrow> clock_step L M"
  by (auto simp: ev_time_def get_clock_def clock_step_def same_loop_defs split: prod.splits if_splits)

lemma clock_step_upd [simp]:
  "clock_step L (M\<lparr>mn_now := x\<rparr>) = clock_step L M" "clock_step L (M\<lparr>ev_rt_now := x\<rparr>) = clock_step L M"
  "clock_step L (M\<lparr>now_floor := x\<rparr>) = clock_step L M" "clock_step L (M\<lparr>rtmn_diff := x\<rparr>) = clock_step L M"
  by (simp_all add: clock_step_def same_loop_defs)

lemma jump_check_step: "jump_check env n d L = (b, M) \<Longrightarrow> clock_step L M"
proof (induction n arbitrary: L)
  case (Suc n)
  define Q where "Q = L\<lparr>rtmn_diff := fsub (ev_rt_now L) (mn_now L)\<rparr>"
  obtain t A where A: "ev_time env Q = (t, A)" by (cases "ev_time env Q")
  obtain m B where B: "get_clock env (A\<lparr>ev_rt_now := t\<rparr>) = (m, B)" by (cases "get_clock env (A\<lparr>ev_rt_now := t\<rparr>)")
  have l: "clock_step L Q" by (simp add: clock_step_refl Q_def)
  have ab: "clock_step L B" using clock_step_trans[OF l ev_time_step(1)[OF A]] ev_time_step(2)[OF B] clock_step_trans[of L "A\<lparr>ev_rt_now := t\<rparr>" B] by simp
  have n: "clock_step L M" if "jump_check env n d (B\<lparr>mn_now := m, now_floor := m\<rparr>) = (b, M)"
    using Suc.IH[OF that] clock_step_trans[of L "B\<lparr>mn_now := m, now_floor := m\<rparr>" M] ab by simp
  define c where "c = (let diff = fsub d (rtmn_diff Q) in (if diff < 0 then - diff else diff) < MIN_TIMEJUMP)"
  have "jump_check env (Suc n) d L = (if c then (True, Q) else jump_check env n d (B\<lparr>mn_now := m, now_floor := m\<rparr>))"
    unfolding jump_check.simps Q_def[symmetric] Let_def A c_def by (simp add: B)
  then show ?case using Suc.prems l n by (cases c) simp_all
qed (simp add: clock_step_refl)

lemma clock_step_internal: "loop_inv L \<Longrightarrow> clock_step L M \<Longrightarrow> internal L M"
  by (simp add: clock_step_def same_loop_internal)


text \<open>Both reschedules after a step of the clocks.\<close>

lemma reschedule_after:
  assumes "loop_inv L" "periodic_args L" "internal L M" "rfeedcnt M = rfeedcnt L"
  shows "\<exists>N. periodics_reschedule env M = Some N \<and> internal L N \<and> rfeedcnt N = rfeedcnt L"
proof -
  have "periodic_args M" using args_static(1)[OF _ assms(2)] assms(3) by (simp add: internal_def)
  from periodics_reschedule_internal[OF internalD[OF assms(3)] this, of env] show ?thesis
    using internal_trans[OF assms(3)] assms(4) by auto
qed

text \<open>\<^verbatim>\<open>time_update\<close> returns, whatever the clocks show.\<close>

lemma time_update_returns:
  assumes I: "loop_inv L" and a: "periodic_args L"
  shows "\<exists>L'. time_update env mb L = Some L' \<and> internal L L' \<and> rfeedcnt L' = rfeedcnt L"
proof -
  have c: "internal L M \<and> rfeedcnt M = rfeedcnt L" if "clock_step L M" for M
    using clock_step_internal[OF I that] that by (simp add: clock_step_def)
  show ?thesis
  proof (cases "have_monotonic L")
    case True
    obtain m A where A: "get_clock env L = (m, A)" by (cases "get_clock env L")
    define B where "B = A\<lparr>mn_now := m\<rparr>"
    obtain t C where C: "ev_time env (B\<lparr>now_floor := mn_now B\<rparr>) = (t, C)" by (cases "ev_time env (B\<lparr>now_floor := mn_now B\<rparr>)")
    obtain b D where D: "jump_check env 3 (rtmn_diff L) (C\<lparr>ev_rt_now := t\<rparr>) = (b, D)" by (cases "jump_check env 3 (rtmn_diff L) (C\<lparr>ev_rt_now := t\<rparr>)")
    have sB: "clock_step L B" using ev_time_step(2)[OF A] by (simp add: B_def)
    have sC: "clock_step L C" using clock_step_trans[of L "B\<lparr>now_floor := mn_now B\<rparr>" C] sB ev_time_step(1)[OF C] by simp
    have sD: "clock_step L D" using clock_step_trans[of L "C\<lparr>ev_rt_now := t\<rparr>" D] sC jump_check_step[OF D] by simp
    have e: "time_update env mb L = (if fsub (mn_now B) (now_floor B) < MIN_TIMEJUMP / 2 then Some (B\<lparr>ev_rt_now := fadd (rtmn_diff B) (mn_now B)\<rparr>)
        else if b then Some D else periodics_reschedule env D)"
      using True by (simp only: time_update_def Let_def A B_def[symmetric] C D split if_True)
    have f: "clock_step L (B\<lparr>ev_rt_now := fadd (rtmn_diff B) (mn_now B)\<rparr>)" using sB by simp
    show ?thesis unfolding e using c[OF f] c[OF sD] reschedule_after[OF I a, of D env] by simp
  next
    case False
    obtain t A where A: "ev_time env L = (t, A)" by (cases "ev_time env L")
    define B where "B = A\<lparr>ev_rt_now := t\<rparr>"
    have sB: "clock_step L B" using ev_time_step(1)[OF A] by (simp add: B_def)
    define T where "T = timers_reschedule (fsub (ev_rt_now B) (mn_now B)) B"
    have sT: "internal L T" "rfeedcnt T = rfeedcnt L"
      using c[OF sB] timers_reschedule_internal[OF internalD[OF conjunct1[OF c[OF sB]]], of "fsub (ev_rt_now B) (mn_now B)"] internal_trans[of L B T]
      by (simp_all add: T_def)
    have e: "time_update env mb L = map_option (\<lambda>L. L\<lparr>mn_now := ev_rt_now L\<rparr>)
        (if mn_now B > ev_rt_now B \<or> ev_rt_now B > fadd (fadd (mn_now B) mb) MIN_TIMEJUMP then periodics_reschedule env T else Some B)"
      using False by (simp only: time_update_def Let_def A B_def[symmetric] T_def split if_False)
    have u: "internal L (M\<lparr>mn_now := ev_rt_now M\<rparr>) \<and> rfeedcnt (M\<lparr>mn_now := ev_rt_now M\<rparr>) = rfeedcnt L" if "internal L M" "rfeedcnt M = rfeedcnt L" for M
      using internal_trans[OF that(1) same_loop_internal[OF internalD[OF that(1)]], of "M\<lparr>mn_now := ev_rt_now M\<rparr>"] that(2) by (simp add: same_loop_defs)
    show ?thesis unfolding e using u c[OF sB] reschedule_after[OF I a sT, of env] by auto
  qed
qed


subsection \<open>Queueing whole arrays\<close>

lemma queue_internal:
  assumes I: "loop_inv L" and p: "active (ws L PendingW) = 0" and a: "\<forall>i < n. active (ws L (arr i)) \<noteq> 0"
  shows "internal L (queue_events arr n r L)" "rfeedcnt (queue_events arr n r L) = rfeedcnt L"
proof -
  have "pri_valid (ws L v) \<and> v \<noteq> PendingW" if "v \<in> set (map arr [0..<n])" for v
    using that a p pri_invD[OF loop_invD(2)[OF I]] by auto
  then show "internal L (queue_events arr n r L)" unfolding queue_events_list using feed_list_internal[OF I] by blast
  show "rfeedcnt (queue_events arr n r L) = rfeedcnt L" unfolding queue_events_list by simp
qed

lemma family_queue:
  assumes I: "loop_inv L" and p: "active (ws L PendingW) = 0" and K: "K \<in> fam_kinds" "fam_v K L = (arr, n, mx)"
  shows "internal L (queue_events arr n r L)" "rfeedcnt (queue_events arr n r L) = rfeedcnt L"
proof -
  have "warr (\<lambda>v. kind v = K) arr n mx (ws L)" using loop_invD(7)[OF I K(1)] K(2) by (simp add: fam_inv_def)
  then have "\<forall>i < n. active (ws L (arr i)) \<noteq> 0" using warrD(3) by fastforce
  note q = queue_internal[OF I p this, of r]
  show "internal L (queue_events arr n r L)" "rfeedcnt (queue_events arr n r L) = rfeedcnt L" by (rule q)+
qed

lemma idle_reify_internal:
  assumes I: "loop_inv L" and p: "active (ws L PendingW) = 0"
  shows "internal L (idle_reify L)" "rfeedcnt (idle_reify L) = rfeedcnt L"
proof -
  have "internal L (idle_reify L) \<and> rfeedcnt (idle_reify L) = rfeedcnt L"
  proof (cases "idleall L \<noteq> 0 \<and> (\<exists>p. idle_hot NUMPRI L p)")
    case True
    then obtain q where q: "idle_hot NUMPRI L q" "idle_reify L = queue_events (idles L q) (idlecnt L q) EV_IDLE L"
      using idle_reify_from_cases[of NUMPRI L] by (auto simp: idle_reify_def)
    have lt: "q < NUMPRI" using q(1) by (simp add: idle_hot_def)
    then have "warr (\<lambda>v. kind v = KIdle \<and> active (ws L v) \<noteq> 0 \<and> ABSPRI (ws L v) = q) (idles L q) (idlecnt L q) (idlemax L q) (ws L)"
      using loop_invD(6)[OF I] unfolding idle_inv_def by blast
    then have "\<forall>i < idlecnt L q. active (ws L (idles L q i)) \<noteq> 0" using warrD(3) by fastforce
    from queue_internal[OF I p this, of EV_IDLE] show ?thesis unfolding q(2) by blast
  next
    case False
    then have "idle_reify L = L" using idle_reify_from_cases[of NUMPRI L] by (auto simp: idle_reify_def)
    then show ?thesis using internal_refl[OF I] by simp
  qed
  then show "internal L (idle_reify L)" "rfeedcnt (idle_reify L) = rfeedcnt L" by blast+
qed

end
