(* ===== verification/Run_Spec.thy ===== *)
theory Run_Spec
  imports Run_Inv
begin

section \<open>Running the loop\<close>

text \<open>
  \<open>run_inv\<close> is what holds between any two callbacks of \<^verbatim>\<open>ev_run\<close>: the invariant of the whole loop, no failed check, and
  what the loop relies on beyond it. The locale \<open>run_host\<close> states what callbacks and backend promise; inside it every
  part of a round keeps \<open>run_inv\<close>.
\<close>

subsection \<open>The invariant\<close>

text \<open>The callbacks of \<^verbatim>\<open>ev.c\<close> that are treated here; the set \<open>A\<close> of the definitions below holds the others in use.\<close>

definition own_cbs :: "ev_cb set" where
  "own_cbs = {Pendingcb, Pipecb, Timerfdcb}"

definition signals_ok :: "'w ev_loop \<Rightarrow> bool" where
  "signals_ok L \<longleftrightarrow> (\<forall>i. sg_loop (signals L i) = ThisLoop \<longrightarrow> (\<forall>v \<in> set (sg_head (signals L i)). active (ws L v) \<noteq> 0 \<and> kind v = KSignal))"

definition pipe_ok :: "'w ev_loop \<Rightarrow> bool" where
  "pipe_ok L \<longleftrightarrow> (pipe_write_skipped L \<or> evpipe_pending L \<longrightarrow> active (ws L PipeW) \<noteq> 0)"

text \<open>\<open>B\<close> is the backend's own invariant; it may depend on the backend's members and on the size of the descriptor table, which only grows.\<close>

definition backend_inv :: "('w ev_loop \<Rightarrow> bool) \<Rightarrow> bool" where
  "backend_inv B \<longleftrightarrow> (\<forall>L L'. B L \<and> backend_v L' = backend_v L \<and> anfdmax L \<le> anfdmax L' \<longrightarrow> B L')"

definition run_inv :: "ev_cb set \<Rightarrow> ('w ev_loop \<Rightarrow> bool) \<Rightarrow> 'w ev_loop \<Rightarrow> bool" where
  "run_inv A B L \<longleftrightarrow> backend_inv B \<and> B L \<and> loop_inv L \<and> ok L \<and> rfeedcnt L = 0 \<and> postfork L = 0 \<and> curpid L = 0 \<and> timer_args L \<and> periodic_args L \<and>
     active (ws L PendingW) = 0 \<and> signals_ok L \<and> pipe_ok L \<and> (\<forall>v. w_cb (ws L v) \<in> A \<union> own_cbs \<and> (w_cb (ws L v) = Pipecb \<longrightarrow> v = PipeW))"

lemma run_invD:
  assumes "run_inv A B L"
  shows "loop_inv L" "ok L" "rfeedcnt L = 0" "postfork L = 0" "curpid L = 0" "timer_args L" "periodic_args L"
    "active (ws L PendingW) = 0" "signals_ok L" "pipe_ok L" "w_cb (ws L v) \<in> A \<union> own_cbs"
    "backend_inv B" "B L" "w_cb (ws L v) = Pipecb \<Longrightarrow> v = PipeW"
  using assms by (auto simp: run_inv_def)

lemma backend_keep:
  assumes "run_inv A B L" "backend_v L' = backend_v L" "anfdmax L \<le> anfdmax L'"
  shows "B L'"
  using assms run_invD(12,13)[OF assms(1)] unfolding backend_inv_def by blast

lemma run_inv_internal:
  assumes R: "run_inv A B L" and S: "internal L L'" and z: "rfeedcnt L' = 0"
  shows "run_inv A B L'"
proof -
  note r = run_invD[OF R]
  have st: "static L L'" using S by (simp add: internal_def)
  have a: "active (ws L' v) = active (ws L v)" if "kind v \<notin> {KTimer, KPeriodic}" for v using st that by (simp add: static_def)
  have f: "postfork L' = postfork L" "curpid L' = curpid L" "pipe_write_skipped L' = pipe_write_skipped L" "signals L' = signals L"
    "evpipe_pending L' = evpipe_pending L" using st by (simp_all add: static_def aside_defs evpipe_pending_def)
  have "signals_ok L'" using r(9) a unfolding signals_ok_def f(4) by auto
  moreover have "pipe_ok L'" using r(10) a[of PipeW] by (simp add: pipe_ok_def f)
  moreover have "w_cb (ws L' v) = w_cb (ws L v)" for v using st by (intro same_staticD(5)) (simp add: static_def)
  moreover have "B L'" by (rule backend_keep[OF R]) (use st in \<open>simp_all add: static_def aside_v_def\<close>)
  ultimately show ?thesis unfolding run_inv_def using S z r args_static[OF st] a[of PendingW] by (simp add: internal_def f)
qed

lemma run_inv_clock: "run_inv A B L \<Longrightarrow> clock_step L L' \<Longrightarrow> run_inv A B L'"
  using run_inv_internal[OF _ clock_step_internal] run_invD(1,3) by (metis clock_step_def)

lemma run_inv_counters [simp]:
  assumes "run_inv A B L"
  shows "run_inv A B (L\<lparr>loop_done := n\<rparr>)" "run_inv A B (L\<lparr>loop_count := m\<rparr>)" "run_inv A B (L\<lparr>loop_depth := d\<rparr>)" "run_inv A B (L\<lparr>now_set := b\<rparr>)"
    "run_inv A B (L\<lparr>pipe_write_wanted := b\<rparr>)" "run_inv A B (L\<lparr>os := s\<rparr>)" "run_inv A B (L\<lparr>pendingpri := p\<rparr>)"
  by (rule run_inv_clock[OF assms], simp add: clock_step_def same_loop_defs)+

lemma run_inv_chk: "run_inv A B L \<Longrightarrow> b \<Longrightarrow> run_inv A B (chk b L)"
  by (simp add: chk_def)

text \<open>Taking a message flag down.\<close>

lemma run_inv_flags [simp]:
  assumes R: "run_inv A B L"
  shows "run_inv A B (L\<lparr>pipe_write_skipped := False\<rparr>)" "run_inv A B (L\<lparr>sig_pending := False\<rparr>)" "run_inv A B (L\<lparr>async_pending := False\<rparr>)"
proof -
  have l: "loop_inv (M :: 'a ev_loop)" if "ws M = ws L" "pendings M = pendings L" "pendingcnt M = pendingcnt L" "pendingmax M = pendingmax L" "others_same KEmbed L M" for M
  proof (rule loop_inv_frame[OF run_invD(1)[OF R], where K = KEmbed])
    show "pend_inv M" using that pend_cong(1)[of M L] loop_invD(1)[OF run_invD(1)[OF R]] by simp
    show "pri_inv M" using that loop_invD(2)[OF run_invD(1)[OF R]] by (simp add: pri_inv_def)
  qed (use that in \<open>simp_all add: own_inv_def\<close>)
  have "loop_inv (L\<lparr>pipe_write_skipped := False\<rparr>)" "loop_inv (L\<lparr>sig_pending := False\<rparr>)" "loop_inv (L\<lparr>async_pending := False\<rparr>)"
    by (rule l; simp add: frame_defs)+
  then show "run_inv A B (L\<lparr>pipe_write_skipped := False\<rparr>)" "run_inv A B (L\<lparr>sig_pending := False\<rparr>)" "run_inv A B (L\<lparr>async_pending := False\<rparr>)"
    using R backend_keep[OF R] by (auto simp: run_inv_def timer_args_def periodic_args_def signals_ok_def pipe_ok_def evpipe_pending_def backend_v_def)
qed

subsection \<open>The library's own callbacks\<close>

lemma feed_list_run:
  assumes "run_inv A B L" "\<forall>v \<in> set vs. active (ws L v) \<noteq> 0"
  shows "run_inv A B (feed_list vs r L)"
proof -
  have "\<forall>v \<in> set vs. pri_valid (ws L v) \<and> v \<noteq> PendingW"
    using assms(2) pri_invD[OF loop_invD(2)[OF run_invD(1)[OF assms(1)]]] run_invD(8)[OF assms(1)] by metis
  then show ?thesis using feed_list_internal[OF run_invD(1)[OF assms(1)]] run_invD(3)[OF assms(1)] by (intro run_inv_internal[OF assms(1)]) auto
qed

lemma feed_list_settled: "settled L \<Longrightarrow> settled (feed_list vs r L)"
  by (induction vs arbitrary: L) simp_all

lemma upd_sig_run:
  assumes "run_inv A B L"
  shows "run_inv A B (upd_sig i (\<lambda>g. g\<lparr>sg_pending := b\<rparr>) L)" "settled (upd_sig i (\<lambda>g. g\<lparr>sg_pending := b\<rparr>) L) = settled L"
proof -
  let ?M = "upd_sig i (\<lambda>g. g\<lparr>sg_pending := b\<rparr>) L"
  note I = run_invD(1)[OF assms]
  have e: "ws ?M = ws L" "others_same KEmbed L ?M" by (simp_all add: upd_sig_def frame_defs)
  have "loop_inv ?M"
  proof (rule loop_inv_frame[OF I, where K = KEmbed])
    show "pend_inv ?M" using pend_cong(1)[of ?M L] loop_invD(1)[OF I] by (simp add: upd_sig_def)
    show "pri_inv ?M" using loop_invD(2)[OF I] by (simp add: pri_inv_def e)
  qed (use e in \<open>simp_all add: own_inv_def\<close>)
  moreover have "signals_ok ?M" using run_invD(9)[OF assms] by (simp add: signals_ok_def upd_sig_def)
  moreover have "B ?M" by (rule backend_keep[OF assms]) (simp_all add: upd_sig_def backend_v_def)
  ultimately show "run_inv A B ?M" using assms by (simp add: run_inv_def timer_args_def periodic_args_def pipe_ok_def evpipe_pending_def) (simp add: upd_sig_def)
  show "settled ?M = settled L" by (simp add: settled_def upd_sig_def)
qed

lemma feed_signal_run:
  assumes "run_inv A B L" "settled L"
  shows "run_inv A B (ev_feed_signal_event signum L) \<and> settled (ev_feed_signal_event signum L)"
proof -
  define i where "i = sig_idx signum"
  define M where "M = upd_sig i (\<lambda>g. g\<lparr>sg_pending := False\<rparr>) L"
  have M: "run_inv A B M" "settled M" using upd_sig_run[OF assms(1)] assms(2) by (simp_all add: M_def)
  have l: "sg_loop (signals M i) = sg_loop (signals L i)" by (simp add: M_def upd_sig_def)
  show ?thesis
  proof (cases "signum \<le> 0 \<or> signum \<ge> int EV_NSIG \<or> sg_loop (signals L i) \<noteq> ThisLoop")
    case True
    then show ?thesis using assms by (auto simp: ev_feed_signal_event_def i_def)
  next
    case False
    then have e: "ev_feed_signal_event signum L = feed_list (sg_head (signals M i)) EV_SIGNAL M"
      by (simp add: ev_feed_signal_event_def i_def M_def Let_def)
    have "\<forall>v \<in> set (sg_head (signals M i)). active (ws M v) \<noteq> 0"
      using run_invD(9)[OF M(1)] False l by (simp add: signals_ok_def)
    then show ?thesis unfolding e using feed_list_run[OF M(1)] feed_list_settled[OF M(2)] by blast
  qed
qed

lemma sig_scan_run: "run_inv A B L \<Longrightarrow> settled L \<Longrightarrow> run_inv A B (sig_scan n L) \<and> settled (sig_scan n L)"
  by (induction n arbitrary: L) (simp_all add: feed_signal_run)

lemma sent_run:
  assumes R: "run_inv A B L" and w: "kind w = KAsync"
  defines "M \<equiv> upd_w w (\<lambda>x. x\<lparr>w_sent := False\<rparr>) L"
  shows "run_inv A B M" "settled M = settled L"
proof -
  note I = run_invD(1)[OF R]
  have e: "others_same KAsync L M" "pendings M = pendings L" "pendingcnt M = pendingcnt L" "pendingmax M = pendingmax L" by (simp_all add: M_def upd_w_def frame_defs)
  have s: "active (ws M v) = active (ws L v)" "priority (ws M v) = priority (ws L v)" "pending (ws M v) = pending (ws L v)" for v
    by (simp_all add: M_def upd_w_def)
  have s': "w_repeat (ws M v) = w_repeat (ws L v)" "w_interval (ws M v) = w_interval (ws L v)" "w_reschedule (ws M v) = w_reschedule (ws L v)"
    "w_cb (ws M v) = w_cb (ws L v)" for v
    by (simp_all add: M_def upd_w_def)
  have f: "flags_v M = flags_v L" "ok M = ok L" "rfeedcnt M = rfeedcnt L" by (simp_all add: M_def upd_w_def flags_v_def)
  have "loop_inv M"
  proof (rule loop_inv_frame[OF I _ _ e(1)])
    show "pend_inv M" using pend_cong(1)[OF e(2-4) s(3,2)] loop_invD(1)[OF I] by simp
    show "pri_inv M" using loop_invD(2)[OF I] s by (simp add: pri_inv_def pri_valid_def)
    have "fam_v KAsync M = fam_v KAsync L" by (simp add: M_def upd_w_def)
    moreover have "fam_inv KAsync L" by (rule loop_invD(7)[OF I]) simp
    ultimately show "own_inv KAsync M" using s(1) by (auto simp: own_inv_def fam_inv_def intro: warr_cong)
    show "\<forall>v. kind v \<noteq> KAsync \<longrightarrow> (ws M v)\<lparr>pending := 0\<rparr> = (ws L v)\<lparr>pending := 0\<rparr>" using w by (auto simp: M_def upd_w_def)
  qed
  moreover have "B M" by (rule backend_keep[OF R]) (simp_all add: M_def upd_w_def backend_v_def)
  ultimately show "run_inv A B M" using R f by (simp add: run_inv_def s s' timer_args_def periodic_args_def signals_ok_def pipe_ok_def evpipe_pending_def flags_v_def)
  show "settled M = settled L" by (simp add: M_def upd_w_def settled_def)
qed


lemma async_scan_run:
  assumes "run_inv A B L" "settled L" "n \<le> asynccnt L"
  shows "run_inv A B (async_scan n L) \<and> settled (async_scan n L)"
  using assms
proof (induction n arbitrary: L)
  case (Suc n)
  define w where "w = asyncs L n"
  have W: "warr (\<lambda>v. kind v = KAsync) (asyncs L) (asynccnt L) (asyncmax L) (ws L)"
    using loop_invD(7)[OF run_invD(1)[OF Suc.prems(1)], of KAsync] by (simp add: fam_inv_def)
  have n: "n < asynccnt L" "n < asyncmax L" using Suc.prems(3) warrD(1)[OF W] by auto
  have w: "kind w = KAsync" "active (ws L w) \<noteq> 0" using warrD(2,3)[OF W n(1)] by (simp_all add: w_def)
  define M where "M = (if w_sent (ws L w) then ev_feed_event w EV_ASYNC (upd_w w (\<lambda>x. x\<lparr>w_sent := False\<rparr>) L) else L)"
  have e: "async_scan (Suc n) L = async_scan n M" using n(2) by (simp add: M_def w_def chk_def Let_def)
  note u = sent_run[OF Suc.prems(1) w(1)]
  have "run_inv A B (feed_list [w] EV_ASYNC (upd_w w (\<lambda>x. x\<lparr>w_sent := False\<rparr>) L))"
    by (rule feed_list_run[OF u(1)]) (use w(2) in \<open>simp add: upd_w_def\<close>)
  then have "run_inv A B M" using Suc.prems(1) by (simp add: M_def)
  moreover have "settled M" using u(2) Suc.prems(2) feed_list_settled[of "upd_w w (\<lambda>x. x\<lparr>w_sent := False\<rparr>) L" "[w]"] by (simp add: M_def)
  moreover have "n \<le> asynccnt M" using n(1) by (simp add: M_def upd_w_def)
  ultimately show ?case unfolding e by (rule Suc.IH)
qed simp

lemma settled_upd [simp]:
  "settled (L\<lparr>os := s\<rparr>) = settled L" "settled (L\<lparr>pipe_write_skipped := b\<rparr>) = settled L" "settled (L\<lparr>sig_pending := b\<rparr>) = settled L"
  "settled (L\<lparr>async_pending := b\<rparr>) = settled L" "settled (L\<lparr>ev_rt_now := t\<rparr>) = settled L"
  by (simp_all add: settled_def)

lemma pipecb_run:
  assumes "run_inv A B L" "settled L"
  shows "run_inv A B (pipecb env r L) \<and> settled (pipecb env r L)"
proof -
  define D where "D = pipecb_drain env r L"
  have D: "run_inv A B D" "settled D" using assms by (simp_all add: D_def pipecb_drain_def)
  define S where "S = pipecb_signals D"
  have S: "run_inv A B S" "settled S" using sig_scan_run[of A B "D\<lparr>sig_pending := False\<rparr>"] D by (simp_all add: S_def pipecb_signals_def)
  have "run_inv A B (pipecb_asyncs S) \<and> settled (pipecb_asyncs S)"
    using async_scan_run[of A B "S\<lparr>async_pending := False\<rparr>"] S by (simp add: pipecb_asyncs_def Let_def)
  then show ?thesis by (simp add: pipecb_def S_def D_def)
qed

text \<open>The rescheduling of periodics does not touch the queues.\<close>

lemma recalc_all_queue: "periodics_recalc_all env n L = Some M \<Longrightarrow> pendingcnt M = pendingcnt L \<and> pendingpri M = pendingpri L"
proof (induction n arbitrary: M)
  case (Suc n)
  then show ?case
    by (auto simp: Let_def reschedule_def periodic_recalc_def periodic_cache_def upd_w_def chk_def split: Option.bind_splits option.splits if_splits prod.splits)
qed simp

lemma reschedule_settled: "periodics_reschedule env L = Some M \<Longrightarrow> settled M = settled L"
  using recalc_all_queue[of env "periodiccnt L" L] by (auto simp: periodics_reschedule_def put_periodics_def settled_def)

lemma timerfdcb_run:
  assumes "run_inv A B L"
  shows "\<exists>L'. timerfdcb env L = Some L' \<and> run_inv A B L' \<and> settled L' = settled L"
proof -
  define S where "S = L\<lparr>os := env_timerfd_settime env (timerfd L) (of_int \<lfloor>fadd (ev_rt_now L) (of_int MAX_BLOCKTIME2_int)\<rfloor>) (os L)\<rparr>"
  obtain t E where E: "ev_time env S = (t, E)" by (cases "ev_time env S")
  obtain c C where C: "get_clock env (E\<lparr>ev_rt_now := t\<rparr>) = (c, C)" by (cases "get_clock env (E\<lparr>ev_rt_now := t\<rparr>)")
  have S: "run_inv A B S" using assms by (simp add: S_def)
  have "clock_step S C" using clock_step_trans[of S "E\<lparr>ev_rt_now := t\<rparr>" C] ev_time_step(1)[OF E] ev_time_step(2)[OF C] by simp
  then have R: "run_inv A B C" by (rule run_inv_clock[OF S])
  have q: "settled C = settled L" using E C by (auto simp: ev_time_def get_clock_def settled_def S_def split: prod.splits if_splits)
  have e: "timerfdcb env L = (if time_jumped (fsub (rtmn_diff C) (fsub (ev_rt_now C) c)) then periodics_reschedule env C else Some C)"
    unfolding timerfdcb_def Let_def S_def[symmetric] E split C ..
  obtain D where D: "periodics_reschedule env C = Some D" "internal C D" "rfeedcnt D = rfeedcnt C"
    using periodics_reschedule_internal[OF run_invD(1,7)[OF R]] by blast
  then have "run_inv A B D" "settled D = settled L" using run_inv_internal[OF R D(2)] run_invD(3)[OF R] reschedule_settled[OF D(1)] q by simp_all
  then show ?thesis unfolding e using R q D(1) by simp
qed

subsection \<open>What callbacks and backend promise\<close>

text \<open>
  A backend's modify routine writes descriptors and its own members; it may give descriptors up, but not the wake pipe.
\<close>

definition io_frame :: "'w ev_loop \<Rightarrow> 'w ev_loop \<Rightarrow> bool" where
  "io_frame L L' \<longleftrightarrow> others_same KIo L L' \<and> flags_v L' = flags_v L \<and> rfeedcnt L' = rfeedcnt L \<and> same_static (ws L) (ws L') \<and>
     (\<forall>v. active (ws L' v) \<noteq> 0 \<longrightarrow> active (ws L v) \<noteq> 0) \<and> active (ws L' PipeW) = active (ws L PipeW) \<and>
     (\<forall>v. kind v \<noteq> KIo \<longrightarrow> (ws L' v)\<lparr>pending := 0\<rparr> = (ws L v)\<lparr>pending := 0\<rparr>)"

lemma io_frame_refl: "io_frame L L"
  by (simp add: io_frame_def others_same_def)

lemma io_frame_trans: "io_frame L M \<Longrightarrow> io_frame M N \<Longrightarrow> io_frame L N"
  unfolding io_frame_def others_same_def using same_static_trans by (metis (no_types, lifting))

lemma io_frame_upd: "ws M = ws L \<Longrightarrow> flags_v M = flags_v L \<Longrightarrow> rfeedcnt M = rfeedcnt L \<Longrightarrow> others_same KIo L M \<Longrightarrow> io_frame L M"
  by (simp add: io_frame_def)

lemma pending_eqD:
  assumes "(x :: ev_watcher)\<lparr>pending := 0\<rparr> = y\<lparr>pending := 0\<rparr>"
  shows "active x = active y" "w_repeat x = w_repeat y" "w_interval x = w_interval y" "w_reschedule x = w_reschedule y" "w_cb x = w_cb y"
  using arg_cong[OF assms, of active] arg_cong[OF assms, of w_repeat] arg_cong[OF assms, of w_interval] arg_cong[OF assms, of w_reschedule]
    arg_cong[OF assms, of w_cb] by simp_all

lemma run_inv_io:
  assumes R: "run_inv A B L" and F: "io_frame L L'" and I: "fd_inv L'" "pend_inv L'" "pri_inv L'" "ok L' = ok L" "B L'"
  shows "run_inv A B L'"
proof -
  note r = run_invD[OF R] and f = F[unfolded io_frame_def]
  have p: "(ws L' v)\<lparr>pending := 0\<rparr> = (ws L v)\<lparr>pending := 0\<rparr>" if "kind v \<noteq> KIo" for v using f that by blast
  have "loop_inv L'" by (rule loop_inv_frame[OF r(1) I(2,3), of KIo]) (use f I(1) in \<open>simp_all add: own_inv_def\<close>)
  moreover have "timer_args L'" "periodic_args L'" using r(6,7) pending_eqD[OF p] by (auto simp: timer_args_def periodic_args_def)
  moreover have "signals_ok L'" using r(9) f pending_eqD(1)[OF p] unfolding signals_ok_def flags_v_def by auto
  moreover have "pipe_ok L'" "postfork L' = postfork L" "curpid L' = curpid L" using r(10) f by (auto simp: pipe_ok_def evpipe_pending_def flags_v_def)
  moreover have "w_cb (ws L' v) = w_cb (ws L v)" for v by (rule same_staticD(5)) (use f in blast)
  ultimately show ?thesis using r f pending_eqD(1)[OF p, of PendingW] I(4,5) by (simp add: run_inv_def)
qed


lemma io_frame_fields [simp]:
  "io_frame L (chk b M) = io_frame L M" "io_frame L (upd_fd fd g M) = io_frame L M" "io_frame (chk b L) M = io_frame L M" "io_frame (upd_fd fd g L) M = io_frame L M"
  by (simp_all add: io_frame_def chk_def upd_fd_def flags_v_def frame_defs)

lemma reify_one_io:
  assumes "\<And>fd oev nev L M. env_modify env fd oev nev L = Some M \<Longrightarrow> io_frame L M" "fd_reify_one env i L = Some M"
  shows "io_frame L M"
  using assms(2) unfolding fd_reify_one_def Let_def by (auto split: if_splits dest!: assms(1) simp: io_frame_refl)

lemma reify_io:
  assumes "\<And>fd oev nev L M. env_modify env fd oev nev L = Some M \<Longrightarrow> io_frame L M" "fd_reify env L = Some M"
  shows "io_frame L M"
proof -
  have u: "io_frame L N" if "fd_reify_upto env n L = Some N" for n N
    using that
  proof (induction n arbitrary: N)
    case (Suc n)
    then obtain K where K: "fd_reify_upto env n L = Some K" "fd_reify_one env n K = Some N" by (auto split: Option.bind_splits)
    have "io_frame K N" by (rule reify_one_io[OF assms(1) K(2)])
    then show ?case using Suc.IH[OF K(1)] io_frame_trans by blast
  qed (simp add: io_frame_refl)
  obtain N where N: "fd_reify_upto env (fdchangecnt L) L = Some N" using assms(2) by (auto simp: fd_reify_def split: option.splits)
  have "M = reify_shift (fdchangecnt L) N" using assms(2) N by (simp add: fd_reify_def)
  then have "ws M = ws N \<and> flags_v M = flags_v N \<and> rfeedcnt M = rfeedcnt N \<and> others_same KIo N M"
    by (simp add: reify_shift_def flags_v_def frame_defs Let_def)
  then show ?thesis using io_frame_upd io_frame_trans[OF u[OF N]] by blast
qed


text \<open>
  The contract: the callbacks named in \<open>A\<close> are called between two steps of the loop and leave it in order, the backend's
  modify routine fulfils \<open>fd_backend\<close> and writes nothing else of the loop, a poll leaves the loop in order (it may
  run signal handlers and receive messages), and a reschedule callback names no time in the past.
\<close>

locale run_host = be: fd_backend env "\<lambda>_ _ _. True" B for env :: "'w env" and B :: "'w ev_loop \<Rightarrow> bool" +
  fixes A :: "ev_cb set"
  assumes modify_frame: "env_modify env fd oev nev L = Some L' \<Longrightarrow> io_frame L L'"
    and resched: "resched_ok env"
    and user_cb: "run_inv A B L \<Longrightarrow> settled L \<Longrightarrow> w_cb (ws L w) \<in> A - own_cbs \<Longrightarrow> ev_invoke env w r L = Some L' \<Longrightarrow> run_inv A B L' \<and> settled L'"
    and poll_keeps: "run_inv A B L \<Longrightarrow> env_poll env t L = Some L' \<Longrightarrow> run_inv A B L'"
begin

lemma invoke_keeps:
  assumes R: "run_inv A B L" "settled L" and i: "ev_invoke env w r L = Some L'"
  shows "run_inv A B L' \<and> settled L'"
proof (cases "w_cb (ws L w) \<in> own_cbs")
  case False
  then show ?thesis using run_invD(11)[OF R(1), of w] user_cb[OF R _ i] by blast
next
  case True
  then consider "w_cb (ws L w) = Pendingcb" | "w_cb (ws L w) = Pipecb" | "w_cb (ws L w) = Timerfdcb" by (auto simp: own_cbs_def)
  then show ?thesis
  proof cases
    case 1
    then show ?thesis using R i by (simp add: ev_invoke_def)
  next
    case 2
    then show ?thesis using pipecb_run[OF R, of env r] i by (simp add: ev_invoke_def)
  next
    case 3
    then show ?thesis using timerfdcb_run[OF R(1), of env] R(2) i by (auto simp: ev_invoke_def)
  qed
qed

lemma reify_keeps:
  assumes R: "run_inv A B L"
  shows "\<exists>L'. fd_reify env L = Some L' \<and> run_inv A B L'"
proof -
  note r = loop_invD(1-3)[OF run_invD(1)[OF R]]
  obtain L' where L': "fd_reify env L = Some L'" "fd_inv L'" "pend_inv L'" "pri_inv L'" "ok L' = ok L" "B L'"
    using be.reify_sync[OF r(3,1,2) run_invD(13)[OF R]] by auto
  have "io_frame L L'" by (rule reify_io[OF modify_frame L'(1)])
  then show ?thesis using run_inv_io[OF R _ L'(2-6)] L'(1) by blast
qed

end

sublocale run_host \<subseteq> cb: callbacks "ev_invoke env" "run_inv A B"
proof
  fix L :: "'w ev_loop" and n
  assume R: "run_inv A B L"
  show "pend_inv L" by (rule loop_invD(1)[OF run_invD(1)[OF R]])
  show "run_inv A B (L\<lparr>pendingpri := n\<rparr>)" using R by simp
next
  fix L :: "'w ev_loop"
  assume R: "run_inv A B L" "settled L" "pendingcnt L (pendingpri L) \<noteq> 0"
  let ?P = "snd (pop_pending L)"
  have k: "keeps L ?P" by (rule pop_loop[OF run_invD(1)[OF R(1)] R(2,3)])
  have "static L ?P" "rfeedcnt ?P = rfeedcnt L"
    by (simp_all add: static_def same_static_def aside_defs pop_pending_def base_defs set_pending_def Let_def)
  then show "run_inv A B ?P" using k run_invD(3)[OF R(1)] by (intro run_inv_internal[OF R(1)]) (auto simp: internal_def keeps_def)
qed (rule invoke_keeps)

text \<open>A round starts and ends with nothing pending.\<close>

definition calm :: "ev_cb set \<Rightarrow> ('w ev_loop \<Rightarrow> bool) \<Rightarrow> 'w ev_loop \<Rightarrow> bool" where
  "calm A B L \<longleftrightarrow> run_inv A B L \<and> no_pending L"

lemma calm_counters: "calm A B L \<Longrightarrow> calm A B (L\<lparr>loop_depth := d\<rparr>)" "calm A B L \<Longrightarrow> calm A B (L\<lparr>loop_done := n\<rparr>)"
  by (simp_all add: calm_def no_pending_def)

context run_host
begin

lemma pending_calm: "run_inv A B L \<Longrightarrow> invoke_pending env L = Some L' \<Longrightarrow> calm A B L'"
  using cb.invoke_empties by (simp add: invoke_pending_def calm_def)

lemma time_run:
  assumes R: "run_inv A B L"
  shows "\<exists>L'. time_update env mb L = Some L' \<and> run_inv A B L'"
proof -
  obtain L' where L': "time_update env mb L = Some L'" "internal L L'" "rfeedcnt L' = rfeedcnt L"
    using time_update_returns[OF run_invD(1,7)[OF R]] by blast
  have "run_inv A B L'" by (rule run_inv_internal[OF R L'(2)]) (use L'(3) run_invD(3)[OF R] in simp)
  then show ?thesis using L'(1) by blast
qed

text \<open>The head and the tail of a round do their work and then call the callbacks, if there is need to.\<close>

lemma head_invokes:
  assumes R: "run_inv A B L"
  shows "run_head env L = Some L \<or> (\<exists>M. run_inv A B M \<and> run_head env L = invoke_pending env M)"
proof -
  note r = run_invD[OF R]
  note q = family_queue[OF r(1,8), of KPrepare "prepares L" "preparecnt L" "preparemax L" EV_PREPARE]
  have "run_inv A B (queue_events (prepares L) (preparecnt L) EV_PREPARE L)" by (rule run_inv_internal[OF R q(1)]) (use q(2) r(3) in simp_all)
  then show ?thesis using r(4,5) by (auto simp: run_head_def)
qed

lemma tail_invokes:
  assumes R: "run_inv A B L"
  shows "\<exists>M. run_inv A B M \<and> run_tail env L = invoke_pending env M"
proof -
  note r = run_invD[OF R]
  obtain T where T: "timers_reify L = Some T" "internal L T" "rfeedcnt T = 0" using timers_reify_internal[OF r(1,6,3)] by blast
  have RT: "run_inv A B T" by (rule run_inv_internal[OF R T(2,3)])
  obtain P where P: "periodics_reify env T = Some P" "internal T P" "rfeedcnt P = 0"
    using periodics_reify_returns[OF run_invD(1,7)[OF RT] resched run_invD(3)[OF RT]] by blast
  have RP: "run_inv A B P" by (rule run_inv_internal[OF RT P(2,3)])
  define I where "I = idle_reify P"
  note i = idle_reify_internal[OF run_invD(1,8)[OF RP], folded I_def]
  have RI: "run_inv A B I" by (rule run_inv_internal[OF RP i(1)]) (use i(2) P(3) in simp)
  define C where "C = (if checkcnt I \<noteq> 0 then queue_events (checks I) (checkcnt I) EV_CHECK I else I)"
  note q = family_queue[OF run_invD(1,8)[OF RI], of KCheck "checks I" "checkcnt I" "checkmax I" EV_CHECK]
  have "run_inv A B (queue_events (checks I) (checkcnt I) EV_CHECK I)" by (rule run_inv_internal[OF RI q(1)]) (use q(2) run_invD(3)[OF RI] in simp_all)
  then have "run_inv A B C" using RI by (simp add: C_def)
  moreover have "run_tail env L = invoke_pending env C" by (simp add: run_tail_def T(1) P(1) I_def[symmetric] C_def Let_def)
  ultimately show ?thesis by blast
qed

lemma head_calm: "calm A B L \<Longrightarrow> run_head env L = Some L' \<Longrightarrow> calm A B L'"
  using head_invokes[of L] pending_calm by (auto simp: calm_def)

lemma tail_calm: "run_inv A B L \<Longrightarrow> run_tail env L = Some L' \<Longrightarrow> calm A B L'"
  using tail_invokes[of L] pending_calm by auto

end

text \<open>The parts of \<open>run_poll\<close> before and behind the call of the backend.\<close>

definition poll_enter :: "'w env \<Rightarrow> u32 \<Rightarrow> 'w ev_loop \<Rightarrow> 'w ev_loop option" where
  "poll_enter env flags L =
     (if flags AND EVRUN_NOWAIT = 0 then map_option (\<lambda>L. L\<lparr>pipe_write_wanted := True\<rparr>) (time_update env EV_TSTAMP_HUGE L) else Some L)"

definition poll_leave :: "'w env \<Rightarrow> u32 \<Rightarrow> ev_tstamp \<Rightarrow> 'w ev_loop \<Rightarrow> 'w ev_loop option" where
  "poll_leave env flags waited L =
     (let L = L\<lparr>loop_done := EVBREAK_CANCEL, pipe_write_wanted := False\<rparr>;
          L = (if pipe_write_skipped L \<or> evpipe_pending L then ev_feed_event PipeW EV_CUSTOM (chk (active (ws L PipeW) \<noteq> 0) L) else L)
      in map_option (\<lambda>L. L\<lparr>now_set := False\<rparr>)
           (if \<not> (now_set L \<and> flags AND EVRUN_NOWAIT \<noteq> 0)
            then time_update env (if flags AND EVRUN_NOWAIT \<noteq> 0 then EV_TSTAMP_HUGE else waited) L else Some L))"

lemma run_poll_parts:
  "run_poll env flags L = Option.bind (poll_enter env flags L) (\<lambda>M.
     let (wt, st, W) = run_wait env flags (mn_now L) M; W = W\<lparr>loop_count := loop_count W + 1, loop_done := EVBREAK_RECURSE\<rparr>
     in Option.bind (if polls_backend flags wt W then env_poll env wt W else Some W) (poll_leave env flags (fadd wt st)))"
  unfolding run_poll_def poll_enter_def poll_leave_def[abs_def] Let_def ..

lemma run_wait_inv:
  assumes "run_inv A B L" "run_wait env flags prev L = (wt, st, W)"
  shows "run_inv A B W"
proof -
  have "W = L \<or> (\<exists>s. W = L\<lparr>os := s\<rparr>)"
    using assms(2) by (auto simp: run_wait_def ev_sleep_def Let_def split: if_splits)
  then show ?thesis using assms(1) by auto
qed

context run_host
begin

lemma enter_run: "run_inv A B L \<Longrightarrow> \<exists>M. poll_enter env flags L = Some M \<and> run_inv A B M"
  using time_run[of L EV_TSTAMP_HUGE] by (auto simp: poll_enter_def)

lemma leave_run:
  assumes R: "run_inv A B L"
  shows "\<exists>M. poll_leave env flags waited L = Some M \<and> run_inv A B M"
proof -
  define K where "K = L\<lparr>loop_done := EVBREAK_CANCEL, pipe_write_wanted := False\<rparr>"
  have K: "run_inv A B K" using R by (simp add: K_def)
  define F where "F = (if pipe_write_skipped K \<or> evpipe_pending K then ev_feed_event PipeW EV_CUSTOM (chk (active (ws K PipeW) \<noteq> 0) K) else K)"
  have F: "run_inv A B F"
  proof (cases "pipe_write_skipped K \<or> evpipe_pending K")
    case True
    then have a: "active (ws K PipeW) \<noteq> 0" using run_invD(10)[OF K] by (simp add: pipe_ok_def)
    then have "run_inv A B (feed_list [PipeW] EV_CUSTOM K)" using feed_list_run[OF K, of "[PipeW]"] by simp
    then show ?thesis using True a by (simp add: F_def chk_def)
  qed (use K in \<open>simp add: F_def\<close>)
  have "poll_leave env flags waited L = map_option (\<lambda>L. L\<lparr>now_set := False\<rparr>) (if \<not> (now_set F \<and> flags AND EVRUN_NOWAIT \<noteq> 0)
            then time_update env (if flags AND EVRUN_NOWAIT \<noteq> 0 then EV_TSTAMP_HUGE else waited) F else Some F)"
    by (simp only: poll_leave_def Let_def K_def[symmetric] F_def[symmetric])
  then show ?thesis using time_run[OF F, of "if flags AND EVRUN_NOWAIT \<noteq> 0 then EV_TSTAMP_HUGE else waited"] F by auto
qed

lemma poll_run:
  assumes R: "run_inv A B L"
  shows "run_poll env flags L = Some L' \<Longrightarrow> run_inv A B L'"
    "\<forall>t M. run_inv A B M \<longrightarrow> env_poll env t M \<noteq> None \<Longrightarrow> run_poll env flags L \<noteq> None"
proof -
  obtain M where M: "poll_enter env flags L = Some M" "run_inv A B M" using enter_run[OF R] by blast
  obtain wt st W where w: "run_wait env flags (mn_now L) M = (wt, st, W)" by (cases "run_wait env flags (mn_now L) M") auto
  have W: "run_inv A B (W\<lparr>loop_count := loop_count W + 1, loop_done := EVBREAK_RECURSE\<rparr>)" using run_wait_inv[OF M(2) w] by simp
  define V where "V = W\<lparr>loop_count := loop_count W + 1, loop_done := EVBREAK_RECURSE\<rparr>"
  define X where "X = (if polls_backend flags wt V then env_poll env wt V else Some V)"
  have e: "run_poll env flags L = Option.bind X (poll_leave env flags (fadd wt st))"
    unfolding run_poll_parts M(1) by (simp add: w V_def X_def Let_def)
  have V: "run_inv A B V" using W by (simp add: V_def)
  have k: "\<exists>N. run_poll env flags L = Some N \<and> run_inv A B N" if "X = Some K" for K
  proof -
    have "run_inv A B K" using that V poll_keeps[OF V] by (auto simp: X_def split: if_splits)
    then show ?thesis using leave_run[of K flags "fadd wt st"] that by (simp add: e)
  qed
  show "run_inv A B L'" if "run_poll env flags L = Some L'" using that k by (cases X) (auto simp: e)
  show "run_poll env flags L \<noteq> None" if h: "\<forall>t M. run_inv A B M \<longrightarrow> env_poll env t M \<noteq> None"
  proof -
    have "X \<noteq> None" using h V by (auto simp: X_def)
    then show ?thesis using k by auto
  qed
qed

text \<open>A round, and the loop of rounds.\<close>

lemma round_calm:
  assumes C: "calm A B L" and r: "run_round env flags L = Some (b, L')"
  shows "calm A B L'"
proof -
  obtain H where H: "run_head env L = Some H" using r by (auto simp: run_round_def split: Option.bind_splits)
  have CH: "calm A B H" by (rule head_calm[OF C H])
  then have RH: "run_inv A B H" by (simp add: calm_def)
  obtain F where F: "fd_reify env H = Some F" "run_inv A B F" using reify_keeps[OF RH] by blast
  have p: "postfork H = 0" by (rule run_invD(4)[OF RH])
  have e: "run_round env flags L = (if loop_done H \<noteq> 0 then Some (False, H) else map_option (Pair True) (Option.bind (run_poll env flags F) (run_tail env)))"
    by (simp add: run_round_def H F(1) p)
  show ?thesis
  proof (cases "loop_done H \<noteq> 0")
    case True
    then show ?thesis using r CH by (simp add: e)
  next
    case False
    then obtain P where "run_poll env flags F = Some P" "run_tail env P = Some L'" using r by (auto simp: e split: Option.bind_splits)
    then show ?thesis using poll_run(1)[OF F(2)] tail_calm by blast
  qed
qed

lemma rounds_calm:
  assumes "run_rounds env flags L = Some L'" "calm A B L"
  shows "calm A B L'"
proof -
  have "env = env \<longrightarrow> calm A B L \<longrightarrow> calm A B L'"
  proof (rule run_rounds.raw_induct[where P = "\<lambda>e f L L'. e = env \<longrightarrow> calm A B L \<longrightarrow> calm A B L'", OF _ assms(1)], intro impI)
    fix rr e f L L'
    assume IH: "\<And>e f L L'. rr e f L = Some L' \<Longrightarrow> e = env \<longrightarrow> calm A B L \<longrightarrow> calm A B L'" and e: "e = env" and C: "calm A B L"
      and body: "Option.bind (run_round e f L) (\<lambda>(done, L). if done \<and> activecnt L \<noteq> 0 \<and> loop_done L = 0 \<and> f AND (EVRUN_ONCE OR EVRUN_NOWAIT) = 0 then rr e f L else Some L) = Some L'"
    obtain b M where M: "run_round e f L = Some (b, M)" using body by (cases "run_round e f L") auto
    have CM: "calm A B M" using round_calm[OF C, of f b M] M e by simp
    show "calm A B L'" using body M IH e CM by (auto split: if_splits)
  qed
  then show ?thesis using assms(2) by simp
qed

lemma run_calm:
  assumes R: "run_inv A B L" and d: "loop_done L \<noteq> EVBREAK_RECURSE" and r: "ev_run env flags L = Some (n, L')"
  shows "calm A B L'" "n = activecnt L'"
proof -
  define S where "S = (chk (loop_done L \<noteq> EVBREAK_RECURSE) (L\<lparr>loop_depth := loop_depth L + 1\<rparr>))\<lparr>loop_done := EVBREAK_CANCEL\<rparr>"
  have S: "run_inv A B S" using R d by (simp add: S_def chk_def)
  obtain P where P: "invoke_pending env S = Some P" using r by (auto simp: ev_run_def S_def Let_def split: Option.bind_splits)
  obtain N where N: "run_rounds env flags P = Some N"
    "(n, L') = (let L = (if loop_done N = EVBREAK_ONE then N\<lparr>loop_done := EVBREAK_CANCEL\<rparr> else N); L = L\<lparr>loop_depth := loop_depth L - 1\<rparr> in (activecnt L, L))"
    using r P by (auto simp: ev_run_def S_def Let_def split: Option.bind_splits)
  have "calm A B N" by (rule rounds_calm[OF N(1) pending_calm[OF S P]])
  then show "calm A B L'" "n = activecnt L'" using N(2) by (auto simp: Let_def calm_counters split: if_splits)
qed

end


subsection \<open>The call returns\<close>

text \<open>Callbacks and backend come back.\<close>

definition host_returns :: "'w env \<Rightarrow> ev_cb set \<Rightarrow> ('w ev_loop \<Rightarrow> bool) \<Rightarrow> bool" where
  "host_returns env A B \<longleftrightarrow> (\<forall>L. run_inv A B L \<longrightarrow> invoke_pending env L \<noteq> None) \<and> (\<forall>t L. run_inv A B L \<longrightarrow> env_poll env t L \<noteq> None)"

context run_host
begin

lemma round_returns:
  assumes H: "host_returns env A B" and C: "calm A B L"
  shows "run_round env flags L \<noteq> None"
proof -
  have R: "run_inv A B L" using C by (simp add: calm_def)
  have "run_head env L \<noteq> None" using head_invokes[OF R] H by (auto simp: host_returns_def)
  then obtain M where M: "run_head env L = Some M" by blast
  have RM: "run_inv A B M" using head_calm[OF C M] by (simp add: calm_def)
  obtain F where F: "fd_reify env M = Some F" "run_inv A B F" using reify_keeps[OF RM] by blast
  have "run_poll env flags F \<noteq> None" using poll_run(2)[OF F(2)] H by (simp add: host_returns_def)
  then obtain P where P: "run_poll env flags F = Some P" by blast
  have "run_tail env P \<noteq> None" using tail_invokes[OF poll_run(1)[OF F(2) P]] H by (auto simp: host_returns_def)
  then show ?thesis using run_invD(4)[OF RM] by (auto simp: run_round_def M F(1) P)
qed

lemma run_returns:
  assumes H: "host_returns env A B" and R: "run_inv A B L" and d: "loop_done L \<noteq> EVBREAK_RECURSE" and f: "flags AND (EVRUN_ONCE OR EVRUN_NOWAIT) \<noteq> 0"
  shows "ev_run env flags L \<noteq> None"
proof -
  define S where "S = (chk (loop_done L \<noteq> EVBREAK_RECURSE) (L\<lparr>loop_depth := loop_depth L + 1\<rparr>))\<lparr>loop_done := EVBREAK_CANCEL\<rparr>"
  have S: "run_inv A B S" using R d by (simp add: S_def chk_def)
  then obtain P where P: "invoke_pending env S = Some P" using H by (auto simp: host_returns_def)
  obtain b N where N: "run_round env flags P = Some (b, N)" using round_returns[OF H pending_calm[OF S P], of flags] by auto
  have "run_rounds env flags P = Some N" using f by (subst run_rounds.simps) (simp add: N)
  then show ?thesis using P by (simp add: ev_run_def S_def Let_def)
qed

end

end
