(* ===== verification/Run_Api.thy ===== *)
theory Run_Api
  imports Run_Spec
begin

section \<open>Callbacks over the interface\<close>

text \<open>
  A callback that runs a program of interface calls on the caller's own watchers, and may end with \<^verbatim>\<open>ev_break\<close>, keeps the
  invariant \<open>run_inv\<close>: what a call writes besides its watcher is stated as \<open>call_frame\<close>.
\<close>

subsection \<open>What a call leaves alone\<close>

text \<open>The settings of a watcher that the loop relies on.\<close>

definition set_v :: "ev_watcher \<Rightarrow> ev_tstamp \<times> ev_tstamp \<times> nat option \<times> ev_cb" where
  "set_v x = (w_repeat x, w_interval x, w_reschedule x, w_cb x)"

lemma set_v_upd [simp]:
  "set_v (x\<lparr>active := n\<rparr>) = set_v x" "set_v (x\<lparr>pending := n\<rparr>) = set_v x" "set_v (x\<lparr>priority := p\<rparr>) = set_v x" "set_v (x\<lparr>w_at := t\<rparr>) = set_v x"
  "set_v (x\<lparr>w_fd := fd\<rparr>) = set_v x" "set_v (x\<lparr>w_events := e\<rparr>) = set_v x"
  by (simp_all add: set_v_def)

lemma set_v_static: "same_static s s' \<Longrightarrow> set_v (s' v) = set_v (s v)"
  by (simp add: set_v_def same_staticD)

lemma set_v_clear [simp]: "set_v (ws (clear_pending w L) v) = set_v (ws L v)"
  by (rule set_v_static) simp

definition aside_le :: "'w ev_loop \<Rightarrow> 'w ev_loop \<Rightarrow> bool" where
  "aside_le L L' \<longleftrightarrow> flags_v L' = flags_v L \<and> backend_v L' = backend_v L \<and> rfeedcnt L' = rfeedcnt L \<and> anfdmax L \<le> anfdmax L'"

definition call_frame :: "W \<Rightarrow> 'w ev_loop \<Rightarrow> 'w ev_loop \<Rightarrow> bool" where
  "call_frame w L L' \<longleftrightarrow> aside_le L L' \<and>
     (\<forall>v. v \<noteq> w \<longrightarrow> set_v (ws L' v) = set_v (ws L v) \<and> (active (ws L' v) \<noteq> 0 \<longrightarrow> active (ws L v) \<noteq> 0) \<and>
       (kind v \<in> {KIo, KSignal} \<longrightarrow> active (ws L' v) = active (ws L v) \<and> pending (ws L' v) = pending (ws L v)))"

lemma call_frameI:
  assumes "aside_le L L'" "\<And>v. v \<noteq> w \<Longrightarrow> set_v (ws L' v) = set_v (ws L v)" "\<And>v. v \<noteq> w \<Longrightarrow> active (ws L' v) \<noteq> 0 \<Longrightarrow> active (ws L v) \<noteq> 0"
    "\<And>v. v \<noteq> w \<Longrightarrow> kind v = KIo \<or> kind v = KSignal \<Longrightarrow> active (ws L' v) = active (ws L v) \<and> pending (ws L' v) = pending (ws L v)"
  shows "call_frame w L L'"
  using assms by (auto simp: call_frame_def)

lemma aside_le_refl: "aside_le L L"
  by (simp add: aside_le_def)

lemma call_frame_refl: "call_frame w L L"
  by (rule call_frameI) (simp_all add: aside_le_refl)

lemma aside_le_eq: "aside_v L' = aside_v L \<Longrightarrow> rfeedcnt L' = rfeedcnt L \<Longrightarrow> aside_le L L'"
  by (simp add: aside_le_def aside_v_def)

subsection \<open>The calls\<close>

lemma io_start_call: "call_frame w L (ev_io_start w L)" "set_v (ws (ev_io_start w L) w) = set_v (ws L w)"
proof -
  have "aside_le L (ev_io_start w L) \<and> set_v (ws (ev_io_start w L) w) = set_v (ws L w)"
    by (rule io_start_pres[where P = "\<lambda>M. aside_le L M \<and> set_v (ws M w) = set_v (ws L w)"])
      (auto simp: aside_le_def aside_defs base_defs need_anfds_def upd_fd_def fd_change_def upd_w_def Let_def intro: le_trans[OF _ needsize_mono])
  moreover have "ws (ev_io_start w L) v = ws L v" if "v \<noteq> w" for v
    using io_start_frame(2)[OF _ that, of L] by (cases "active (ws L w) = 0") (simp_all add: ev_io_start_def)
  ultimately show "call_frame w L (ev_io_start w L)" "set_v (ws (ev_io_start w L) w) = set_v (ws L w)"
    by (auto intro!: call_frameI)
qed

lemma io_stop_call: "call_frame w L (ev_io_stop w L)" "set_v (ws (ev_io_stop w L) w) = set_v (ws L w)"
proof -
  have "aside_v (ev_io_stop w L) = aside_v L" "rfeedcnt (ev_io_stop w L) = rfeedcnt L"
    by (simp_all add: ev_io_stop_def Let_def) (simp_all add: aside_defs fd_change_def Let_def upd_fd_def base_defs)
  then show "call_frame w L (ev_io_stop w L)" using io_stop_frame(2)[of _ w L] by (intro call_frameI aside_le_eq) simp_all
  show "set_v (ws (ev_io_stop w L) w) = set_v (ws L w)"
    by (simp add: ev_io_stop_def Let_def) (simp add: upd_fd_def base_defs)
qed

lemma io_modify_call: "call_frame w L (ev_io_modify w e L)" "set_v (ws (ev_io_modify w e L) w) = set_v (ws L w)"
  by (simp_all add: call_frame_def aside_le_def aside_defs ev_io_modify_def Let_def fd_change_def upd_fd_def base_defs)

lemma timer_start_call:
  assumes I: "loop_inv L" and w: "kind w = KTimer"
  shows "call_frame w L (ev_timer_start w L)" "set_v (ws (ev_timer_start w L) w) = set_v (ws L w)"
proof -
  let ?M = "ev_timer_start w L"
  have "call_frame w L ?M \<and> set_v (ws ?M w) = set_v (ws L w)"
  proof (cases "active (ws L w) = 0")
    case True
    note k = timer_start_inv[OF loop_invD(1,4)[OF I] w True]
    let ?s1 = "(ws L)(w := (ws L w)\<lparr>w_at := fadd (w_at (ws L w)) (mn_now L), priority := pri_clamp (priority (ws L w)), active := timercnt L + HEAP0\<rparr>)"
    let ?mx = "needsize 16 (timermax L) (timercnt L + HEAP0 + 1)"
    have mx: "Suc (timercnt L) + HEAP0 \<le> ?mx" using needsize_ge[of 16 "timercnt L + HEAP0 + 1" "timermax L"] by simp
    have "same_but_active ?s1 (ws ?M)"
      unfolding ev_timer_start_eq[OF True] using theap_insert(2)[OF loop_invD(4)[OF I, unfolded timers_inv_def] w True, of ?s1 ?mx, OF _ _ mx] by simp
    then have s: "set_v (ws ?M v) = set_v (ws L v)" for v using set_v_static[OF same_static_active, of ?s1 "ws ?M" v] by (cases "v = w") simp_all
    have "aside_le L ?M" by (rule aside_le_eq) (simp_all add: ev_timer_start_eq[OF True] aside_defs)
    moreover have "active (ws ?M v) \<noteq> 0 \<Longrightarrow> active (ws L v) \<noteq> 0" if "v \<noteq> w" for v
      using k(4) k(6)[of v] that timer_active_iff[of v ?M] timer_active_iff[of v L] by (cases "kind v = KTimer") simp_all
    moreover have "kind v = KIo \<or> kind v = KSignal \<Longrightarrow> active (ws ?M v) = active (ws L v) \<and> pending (ws ?M v) = pending (ws L v)" for v using k(6)[of v] by auto
    ultimately show ?thesis using s by (intro conjI call_frameI) auto
  qed (simp add: ev_timer_start_def call_frame_refl)
  then show "call_frame w L ?M" "set_v (ws ?M w) = set_v (ws L w)" by blast+
qed

lemma timer_stop_call:
  assumes I: "loop_inv L" and w: "kind w = KTimer"
  shows "call_frame w L (ev_timer_stop w L)" "set_v (ws (ev_timer_stop w L) w) = set_v (ws L w)"
proof -
  let ?M = "ev_timer_stop w L"
  note k = timer_stop_inv[OF loop_invD(1,4)[OF I] w]
  have "same_static (ws L) (ws ?M)"
    using timer_stop_static[OF loop_invD(1,4)[OF I] w] by (cases "active (ws L w) = 0") (simp_all add: ev_timer_stop_def)
  note s = set_v_static[OF this]
  have "aside_le L ?M"
    by (rule aside_le_eq) (simp_all add: ev_timer_stop_def Let_def put_timers_def base_defs aside_defs)
  moreover have "active (ws ?M v) \<noteq> 0 \<Longrightarrow> active (ws L v) \<noteq> 0" if "v \<noteq> w" for v
    using k(4) k(6)[of v] that timer_active_iff[of v ?M] timer_active_iff[of v L] by (cases "kind v = KTimer") simp_all
  moreover have "kind v = KIo \<or> kind v = KSignal \<Longrightarrow> active (ws ?M v) = active (ws L v) \<and> pending (ws ?M v) = pending (ws L v)" for v using k(6)[of v] by auto
  ultimately show "call_frame w L ?M" "set_v (ws ?M w) = set_v (ws L w)" using s by (auto intro!: call_frameI)
qed


text \<open>Arrays of watchers.\<close>

context loop_array
begin

lemma start_call:
  assumes "aside_le L (start w L)"
  shows "call_frame w L (start w L)" "set_v (ws (start w L) w) = set_v (ws L w)"
proof -
  have "ws (start w L) v = ws L v" if "v \<noteq> w" for v using that start_data[of L w] start_nop[of L w] by (cases "active (ws L w) = 0") simp_all
  then show "call_frame w L (start w L)" using assms by (intro call_frameI) simp_all
  show "set_v (ws (start w L) w) = set_v (ws L w)" using start_data[of L w] start_nop[of L w] by (cases "active (ws L w) = 0") simp_all
qed

lemma stop_call:
  assumes I: "loop_inv L" and w: "kind w = K" and a: "aside_le L (stop w L)"
  shows "call_frame w L (stop w L)" "set_v (ws (stop w L) w) = set_v (ws L w)"
proof -
  have i: "inv L" using loop_invD(7)[OF I family(1)] fam_inv_iff by simp
  have "set_v (ws (stop w L) v) = set_v (ws L v) \<and> (v \<noteq> w \<longrightarrow> active (ws (stop w L) v) \<noteq> 0 \<longrightarrow> active (ws L v) \<noteq> 0) \<and>
     (v \<noteq> w \<longrightarrow> kind v = KIo \<or> kind v = KSignal \<longrightarrow> active (ws (stop w L) v) = active (ws L v) \<and> pending (ws (stop w L) v) = pending (ws L v))" for v
  proof (cases "active (ws L w) = 0")
    case False
    have n: "cnt L \<noteq> 0" using warrD(4)[OF i[unfolded inv_def] w False] False by auto
    define l where "l = arr L (cnt L - 1)"
    have l: "kind l = K" "active (ws L l) \<noteq> 0" using warrD(2,3)[OF i[unfolded inv_def], of "cnt L - 1"] n by (auto simp: l_def)
    have K: "K \<noteq> KIo" "K \<noteq> KSignal" using family(1) by auto
    define s where "s = (ws (clear_pending w L))(l := (ws (clear_pending w L) l)\<lparr>active := active (ws L w)\<rparr>)"
    have s: "ws (stop w L) = s(w := (s w)\<lparr>active := 0\<rparr>)" using stop_data[OF False n] unfolding Let_def l_def[symmetric] s_def[symmetric] by blast
    have "set_v (s u) = set_v (ws L u)" "active (s u) = (if u = l then active (ws L w) else active (ws L u))"
      "u \<noteq> w \<Longrightarrow> pending (s u) = pending (ws L u)" for u by (simp_all add: s_def)
    then show ?thesis using l K w False by (auto simp: s)
  qed (simp add: stop_nop)
  then show "call_frame w L (stop w L)" "set_v (ws (stop w L) w) = set_v (ws L w)" using a by (auto intro!: call_frameI)
qed

end

lemmas array_call_defs = ev_prepare_start_def ev_prepare_stop_def ev_check_start_def ev_check_stop_def
  ev_fork_start_def ev_fork_stop_def ev_cleanup_start_def ev_cleanup_stop_def

lemma array_aside:
  "aside_le L (ev_prepare_start w L)" "aside_le L (ev_prepare_stop w L)" "aside_le L (ev_check_start w L)" "aside_le L (ev_check_stop w L)"
  "aside_le L (ev_fork_start w L)" "aside_le L (ev_fork_stop w L)" "aside_le L (ev_cleanup_start w L)" "aside_le L (ev_cleanup_stop w L)"
  by (rule aside_le_eq; simp add: array_call_defs Let_def base_defs aside_defs)+

lemma idle_start_call: "call_frame w L (ev_idle_start w L)" "set_v (ws (ev_idle_start w L) w) = set_v (ws L w)"
proof -
  let ?M = "ev_idle_start w L"
  have "aside_le L ?M \<and> set_v (ws ?M w) = set_v (ws L w) \<and> (\<forall>v. v \<noteq> w \<longrightarrow> ws ?M v = ws L v)"
  proof (cases "active (ws L w) = 0")
    case True
    show ?thesis by (simp add: ev_idle_start_eq[OF True] aside_le_def aside_defs)
  qed (simp add: ev_idle_start_def aside_le_refl)
  then show "call_frame w L ?M" "set_v (ws ?M w) = set_v (ws L w)" by (auto intro!: call_frameI)
qed

lemma idle_stop_call:
  assumes I: "loop_inv L" and w: "kind w = KIdle"
  shows "call_frame w L (ev_idle_stop w L)" "set_v (ws (ev_idle_stop w L) w) = set_v (ws L w)"
proof -
  let ?M = "ev_idle_stop w L"
  have a: "aside_le L ?M" by (rule aside_le_eq) (simp_all add: ev_idle_stop_def Let_def base_defs aside_defs)
  have s: "set_v (ws ?M v) = set_v (ws L v)" for v by (simp add: ev_idle_stop_def Let_def base_defs)
  have "active (ws ?M v) \<noteq> 0 \<longrightarrow> active (ws L v) \<noteq> 0" "kind v = KIo \<or> kind v = KSignal \<longrightarrow> active (ws ?M v) = active (ws L v) \<and> pending (ws ?M v) = pending (ws L v)" if "v \<noteq> w" for v
    using idle_stop_active[OF loop_invD(6)[OF I] w that] by auto
  note a = a s this
  then show "call_frame w L ?M" "set_v (ws ?M w) = set_v (ws L w)" using a by (auto intro!: call_frameI)
qed


subsection \<open>A call keeps the invariant\<close>

text \<open>What is asked of the watcher of a call: it is the caller's own, and the call leaves it as the loop expects.\<close>

definition watcher_ok :: "ev_cb set \<Rightarrow> W \<Rightarrow> 'w ev_loop \<Rightarrow> 'w ev_loop \<Rightarrow> bool" where
  "watcher_ok A w L L' \<longleftrightarrow> w \<noteq> PipeW \<and> w \<noteq> PendingW \<and> w_cb (ws L' w) \<in> A \<union> own_cbs - {Pipecb} \<and>
     (kind w = KSignal \<longrightarrow> active (ws L' w) = active (ws L w)) \<and>
     (active (ws L' w) \<noteq> 0 \<longrightarrow> set_v (ws L' w) = set_v (ws L w) \<and>
       (active (ws L w) \<noteq> 0 \<or> kind w \<noteq> KPeriodic \<and> (kind w = KTimer \<longrightarrow> 0 \<le> w_repeat (ws L w))))"

lemma run_inv_call:
  assumes R: "run_inv A B L" and k: "keeps L L'" and f: "call_frame w L L'" and w: "watcher_ok A w L L'"
  shows "run_inv A B L' \<and> pending (ws L' PipeW) = pending (ws L PipeW)"
proof -
  note r = run_invD[OF R]
  note u = w[unfolded watcher_ok_def]
  have F: "flags_v L' = flags_v L" "backend_v L' = backend_v L" "rfeedcnt L' = rfeedcnt L" "anfdmax L \<le> anfdmax L'"
    using f by (simp_all add: call_frame_def aside_le_def)
  have o: "set_v (ws L' v) = set_v (ws L v)" "active (ws L' v) \<noteq> 0 \<Longrightarrow> active (ws L v) \<noteq> 0"
    "kind v \<in> {KIo, KSignal} \<Longrightarrow> active (ws L' v) = active (ws L v) \<and> pending (ws L' v) = pending (ws L v)" if "v \<noteq> w" for v
    using f that by (auto simp: call_frame_def)
  have sv: "set_v (ws L' v) = set_v (ws L v)" if "active (ws L' v) \<noteq> 0" for v using o(1)[of v] u that by (cases "v = w") auto
  have "0 \<le> w_repeat (ws L' v)" if v: "kind v = KTimer" "active (ws L' v) \<noteq> 0" for v
  proof -
    have "0 \<le> w_repeat (ws L v)" using r(6) o(2)[of v] u v by (cases "v = w") (auto simp: timer_args_def)
    then show ?thesis using sv[OF v(2)] by (simp add: set_v_def)
  qed
  then have T: "timer_args L'" by (simp add: timer_args_def)
  have P: "periodic_args L'" unfolding periodic_args_def
  proof (intro allI impI, elim conjE)
    fix v assume v: "kind v = KPeriodic" "active (ws L' v) \<noteq> 0" and n: "w_reschedule (ws L' v) = None"
    have "active (ws L v) \<noteq> 0" using o(2)[of v] u v by (cases "v = w") auto
    then show "0 \<le> w_interval (ws L' v)" using r(7) v(1) n sv[OF v(2)] by (auto simp: periodic_args_def set_v_def)
  qed
  have "active (ws L' v) = active (ws L v)" if "kind v = KSignal" for v using o(3)[of v] u that by (cases "v = w") auto
  then have S: "signals_ok L'" using r(9) F(1) unfolding signals_ok_def flags_v_def by auto
  have Pi: "pipe_ok L'" using r(10) F(1) o(3)[of PipeW] u by (auto simp: pipe_ok_def evpipe_pending_def flags_v_def)
  have cb: "w_cb (ws L' v) \<in> A \<union> own_cbs \<and> (w_cb (ws L' v) = Pipecb \<longrightarrow> v = PipeW)" for v using r(14)[of v] r(11)[of v] o(1)[of v] u by (cases "v = w") (auto simp: set_v_def)
  show ?thesis using r k F o(2)[of PendingW] o(3)[of PipeW] u cb T P S Pi backend_keep[OF R F(2,4)]
    by (auto simp: run_inv_def keeps_def flags_v_def)
qed

fun user_watcher :: "W \<Rightarrow> bool" where
  "user_watcher (IoW _) = True" | "user_watcher (TimerW _) = True" | "user_watcher (PeriodicW _) = True" | "user_watcher (SignalW _) = True"
| "user_watcher (ChildW _) = True" | "user_watcher (StatW _) = True" | "user_watcher (IdleW _) = True" | "user_watcher (PrepareW _) = True"
| "user_watcher (CheckW _) = True" | "user_watcher (ForkW _) = True" | "user_watcher (CleanupW _) = True" | "user_watcher (AsyncW _) = True"
| "user_watcher (EmbedW _) = True" | "user_watcher _ = False"

lemma user_watcherD: "user_watcher w \<Longrightarrow> w \<noteq> PipeW \<and> w \<noteq> PendingW"
  by auto

text \<open>A program uses the caller's watchers, and installs the caller's callbacks.\<close>

fun user_call :: "api_call \<Rightarrow> bool" where
  "user_call (Init w cb) = (user_watcher w \<and> cb \<in> range UserCb)"
| "user_call (Set_priority w _) = user_watcher w"
| "user_call (Io_set w _ _) = user_watcher w"
| "user_call (Timer_set w _ _) = user_watcher w"
| "user_call (Io_start w) = user_watcher w"
| "user_call (Io_stop w) = user_watcher w"
| "user_call (Io_modify w _) = user_watcher w"
| "user_call (Timer_start w) = user_watcher w"
| "user_call (Timer_stop w) = user_watcher w"
| "user_call (Idle_start w) = user_watcher w"
| "user_call (Idle_stop w) = user_watcher w"
| "user_call (Prepare_start w) = user_watcher w"
| "user_call (Prepare_stop w) = user_watcher w"
| "user_call (Check_start w) = user_watcher w"
| "user_call (Check_stop w) = user_watcher w"
| "user_call (Fork_start w) = user_watcher w"
| "user_call (Fork_stop w) = user_watcher w"
| "user_call (Cleanup_start w) = user_watcher w"
| "user_call (Cleanup_stop w) = user_watcher w"
| "user_call (Feed_event w _) = user_watcher w"
| "user_call (Clear_pending w) = user_watcher w"

text \<open>What the lemmas below conclude: the invariant, and the wake-up watcher is as pending as before.\<close>

definition run_call :: "ev_cb set \<Rightarrow> ('w ev_loop \<Rightarrow> bool) \<Rightarrow> 'w ev_loop \<Rightarrow> 'w ev_loop \<Rightarrow> bool" where
  "run_call A B L L' \<longleftrightarrow> run_inv A B L' \<and> pending (ws L' PipeW) = pending (ws L PipeW)"

text \<open>An operation that keeps its watcher's settings, on a watcher whose kind has no further conditions.\<close>

lemma run_inv_op:
  assumes R: "run_inv A B L" and "keeps L L'" "call_frame w L L'" "set_v (ws L' w) = set_v (ws L w)" "user_watcher w"
    "kind w \<notin> {KSignal, KPeriodic}" "kind w = KTimer \<longrightarrow> 0 \<le> w_repeat (ws L w) \<or> active (ws L' w) = 0"
  shows "run_call A B L L'"
  unfolding run_call_def
proof (rule run_inv_call[OF assms(1-3)])
  show "watcher_ok A w L L'" using assms(4-7) run_invD(11,14)[OF R, of w] user_watcherD[of w] by (auto simp: watcher_ok_def set_v_def)
qed

lemma same_active_op:
  assumes R: "run_inv A B L" and "keeps L L'" "aside_le L L'" "same_static (ws L) (ws L')" "\<And>v. active (ws L' v) = active (ws L v)"
    and w: "user_watcher w" "\<And>v. v \<noteq> w \<Longrightarrow> pending (ws L' v) = pending (ws L v)"
  shows "run_call A B L L'"
  unfolding run_call_def
proof (rule run_inv_call[OF assms(1-2), of w])
  note s = set_v_static[OF assms(4)]
  show "call_frame w L L'" using assms(3,5,7) s by (intro call_frameI) simp_all
  have "kind w = KPeriodic \<Longrightarrow> True" by simp
  show "watcher_ok A w L L'" using s[of w] assms(5)[of w] run_invD(11,14)[OF R, of w] user_watcherD[OF w(1)]
    by (auto simp: watcher_ok_def set_v_def)
qed

lemma idle_op:
  assumes R: "run_inv A B L" and w: "idle_w w L" "active (f (ws L w)) = 0" "pending (f (ws L w)) = 0"
    and c: "w_cb (f (ws L w)) \<in> A \<union> own_cbs - {Pipecb}" "user_watcher w"
  shows "run_call A B L (upd_w w f L)"
  unfolding run_call_def
proof (rule run_inv_call[OF R init_loop[where f = f, OF run_invD(1)[OF R] w], of w])
  show "call_frame w L (upd_w w f L)" by (rule call_frameI) (simp_all add: aside_le_def aside_defs upd_w_def)
  show "watcher_ok A w L (upd_w w f L)" using w c user_watcherD[OF c(2)] by (simp add: watcher_ok_def upd_w_def idle_w_def)
qed

lemma user_call_run:
  assumes R: "run_inv (range UserCb) B L" and c: "user_call c" "api_ok c L"
  shows "run_call (range UserCb) B L (do_call c L)"
proof -
  note I = run_invD(1)[OF R] and k = call_keeps[OF run_invD(1)[OF R] c(2)]
  note op = run_inv_op[OF R]
  have cb: "w_cb (ws L w) \<in> range UserCb \<union> own_cbs - {Pipecb}" if "user_watcher w" for w
    using run_invD(11,14)[OF R, of w] user_watcherD[OF that] by auto
  have init: "run_call (range UserCb) B L (upd_w w f L)" if "idle_w w L" "active (f (ws L w)) = 0 \<and> pending (f (ws L w)) = 0"
    "w_cb (f (ws L w)) \<in> range UserCb \<union> own_cbs - {Pipecb}" "user_watcher w" for w f
    by (rule idle_op[OF R that(1)]) (use that in auto)
  show ?thesis
  proof (cases c)
    case (Init w cb)
    then show ?thesis using c init[of w "\<lambda>x. x\<lparr>active := 0, pending := 0, priority := 0, w_cb := cb\<rparr>"] by (auto simp: ev_init_def)
  next
    case (Set_priority w p)
    then show ?thesis using c init[of w "\<lambda>x. x\<lparr>priority := p\<rparr>"] cb[of w] by (simp add: ev_set_priority_def idle_w_def)
  next
    case (Io_set w fd e)
    then show ?thesis using c init[of w "\<lambda>x. x\<lparr>w_fd := fd, w_events := e OR EV__IOFDSET\<rparr>"] cb[of w] by (simp add: ev_io_set_def idle_w_def)
  next
    case (Timer_set w a r)
    then show ?thesis using c init[of w "\<lambda>x. x\<lparr>w_at := a, w_repeat := r\<rparr>"] cb[of w] by (simp add: ev_timer_set_def idle_w_def)
  next
    case (Io_start w)
    then show ?thesis using op[OF _ io_start_call] k c by auto
  next
    case (Io_stop w)
    then show ?thesis using op[OF _ io_stop_call] k c by auto
  next
    case (Io_modify w e)
    then show ?thesis using op[OF _ io_modify_call] k c by auto
  next
    case (Timer_start w)
    then show ?thesis using op[OF _ timer_start_call[OF I]] k c by auto
  next
    case (Timer_stop w)
    then have "active (ws (ev_timer_stop w L) w) = 0" using timer_stop_inv(4)[OF loop_invD(1,4)[OF I], of w] timer_active_iff[of w "ev_timer_stop w L"] c by simp
    then show ?thesis using op[OF _ timer_stop_call[OF I]] k c Timer_stop by auto
  next
    case (Idle_start w)
    then show ?thesis using op[OF _ idle_start_call] k c by auto
  next
    case (Idle_stop w)
    then show ?thesis using op[OF _ idle_stop_call[OF I]] k c by auto
  next
    case (Prepare_start w)
    then show ?thesis using op[OF _ prepare.start_call[OF array_aside(1)]] k c by auto
  next
    case (Prepare_stop w)
    then show ?thesis using op[OF _ prepare.stop_call[OF I _ array_aside(2)]] k c by auto
  next
    case (Check_start w)
    then show ?thesis using op[OF _ check.start_call[OF array_aside(3)]] k c by auto
  next
    case (Check_stop w)
    then show ?thesis using op[OF _ check.stop_call[OF I _ array_aside(4)]] k c by auto
  next
    case (Fork_start w)
    then show ?thesis using op[OF _ fork.start_call[OF array_aside(5)]] k c by auto
  next
    case (Fork_stop w)
    then show ?thesis using op[OF _ fork.stop_call[OF I _ array_aside(6)]] k c by auto
  next
    case (Cleanup_start w)
    then show ?thesis using op[OF _ cleanup.start_call[OF array_aside(7)]] k c by auto
  next
    case (Cleanup_stop w)
    then show ?thesis using op[OF _ cleanup.stop_call[OF I _ array_aside(8)]] k c by auto
  next
    case (Feed_event w r)
    let ?M = "ev_feed_event w r L"
    have "aside_le L ?M" by (rule aside_le_eq) (simp_all add: aside_defs ev_feed_event_def Let_def base_defs set_pending_def)
    moreover have "active (ws ?M v) = active (ws L v)" "v \<noteq> w \<Longrightarrow> pending (ws ?M v) = pending (ws L v)" for v
      by (simp_all add: ev_feed_event_def Let_def base_defs set_pending_def)
    ultimately show ?thesis using Feed_event same_active_op[OF R, of ?M w] k c by simp
  next
    case (Clear_pending w)
    have "aside_le L (clear_pending w L)" by (rule aside_le_eq) (simp_all add: aside_defs)
    then show ?thesis using Clear_pending same_active_op[OF R, of "clear_pending w L" w] k c by (simp add: clear_eq)
  qed
qed

lemma run_calls_user:
  assumes "run_inv (range UserCb) B L" "\<forall>c \<in> set cs. user_call c"
  shows "run_call (range UserCb) B L (run_calls cs L)"
  using assms
proof (induction cs arbitrary: L)
  case (Cons c cs)
  have "run_call (range UserCb) B L (if api_ok c L then do_call c L else L)" using user_call_run[of B L c] Cons.prems by (auto simp: run_call_def)
  then show ?case using Cons.IH[of "if api_ok c L then do_call c L else L"] Cons.prems by (simp add: run_call_def)
qed (simp add: run_call_def)

subsection \<open>The callbacks of a program\<close>

text \<open>
  Each callback of the program runs the calls \<open>prog\<close> names, which may depend on the callback, the watcher, the events and
  the outside state, and ends with \<^verbatim>\<open>ev_break\<close> if the program asks for it.
\<close>

type_synonym 'w program = "nat \<Rightarrow> W \<Rightarrow> u32 \<Rightarrow> 'w \<Rightarrow> api_call list \<times> nat option"

definition program_cb :: "'w program \<Rightarrow> nat \<Rightarrow> W \<Rightarrow> u32 \<Rightarrow> 'w ev_loop \<Rightarrow> 'w ev_loop option" where
  "program_cb prog n w r L =
     (let (cs, how) = prog n w r (os L); L = run_calls (filter user_call cs) L
      in Some (case how of None \<Rightarrow> L | Some h \<Rightarrow> ev_break h L))"

lemma program_run:
  assumes R: "run_inv (range UserCb) B L" "settled L" and i: "program_cb prog n w r L = Some L'"
  shows "run_call (range UserCb) B L L' \<and> settled L'"
    "\<forall>n w r s. no_feed (fst (prog n w r s)) \<Longrightarrow> queue_same L L'"
proof -
  obtain cs how where p: "prog n w r (os L) = (cs, how)" by (cases "prog n w r (os L)")
  let ?M = "run_calls (filter user_call cs) L"
  have M: "run_call (range UserCb) B L ?M" by (rule run_calls_user[OF R(1)]) simp
  have s: "settled ?M" using run_calls_keeps[OF run_invD(1)[OF R(1)], of "filter user_call cs"] R(2) by (simp add: keeps_def)
  have e: "L' = (case how of None \<Rightarrow> ?M | Some h \<Rightarrow> ev_break h ?M)" using i p by (simp add: program_cb_def Let_def)
  show "run_call (range UserCb) B L L' \<and> settled L'"
    unfolding e using M s by (auto simp: run_call_def ev_break_def settled_def split: option.splits)
  assume "\<forall>n w r s. no_feed (fst (prog n w r s))"
  then have "no_feed cs" using p by (metis fst_conv)
  then have "queue_same L ?M" by (intro run_calls_queue) (auto simp: no_feed_def)
  then show "queue_same L L'" unfolding e by (auto simp: queue_same_def ev_break_def split: option.splits)
qed

end
