(* ===== verification/Run_Host.thy ===== *)
theory Run_Host
  imports Run_Api Backend_Select
begin

section \<open>The loop on the select backend\<close>

text \<open>
  A concrete host for \<open>ev_run\<close>: the select backend over any kernel that reports a subset of what it was asked for or is
  interrupted, and callbacks that run any program over the interface. It fulfils the contract \<open>run_host\<close>, so
  \<^verbatim>\<open>ev_run\<close> keeps the invariant of the whole loop there.
\<close>

subsection \<open>Reports of the backend\<close>

lemma feed_fold_internal:
  fixes r :: u32
  assumes "loop_inv L" "\<forall>v \<in> set vs. pri_valid (ws L v) \<and> v \<noteq> PendingW"
  defines "f \<equiv> \<lambda>w L. let ev = w_events (ws L w) AND r in if ev \<noteq> 0 then ev_feed_event w ev L else L"
  shows "internal L (fold f vs L) \<and> rfeedcnt (fold f vs L) = rfeedcnt L"
  using assms(1,2)
proof (induction vs arbitrary: L)
  case (Cons v vs)
  have "internal L (f v L)" "rfeedcnt (f v L) = rfeedcnt L"
    using feed_internal[OF Cons.prems(1), of v] internal_refl[OF Cons.prems(1)] Cons.prems(2) by (auto simp: f_def Let_def)
  moreover have "\<forall>u \<in> set vs. pri_valid (ws (f v L) u) \<and> u \<noteq> PendingW" using Cons.prems(2) by (auto simp: f_def Let_def)
  ultimately show ?case using Cons.IH[OF internalD[of L "f v L"]] internal_trans[of L "f v L"] by auto
qed (simp add: internal_refl)

lemma fd_event_internal:
  assumes I: "loop_inv L" and fd: "fd_in fd L"
  shows "internal L (fd_event fd r L) \<and> rfeedcnt (fd_event fd r L) = rfeedcnt L"
proof (cases "anfd_reify (anfds L fd) = 0")
  case True
  define M where "M = L\<lparr>iofed := iofed L + 1\<rparr>"
  have M: "internal L M" by (rule same_loop_internal[OF I]) (simp add: M_def same_loop_defs)
  have d: "kind w = KIo \<and> active (ws M w) = 1" if "w \<in> set (anfd_head (anfds M fd))" for w
    using that fd_listsD(2)[of "ws L" "anfds L" "anfdmax L" fd w] loop_invD(3)[OF I] fd by (simp add: M_def fd_inv_def fd_in_def)
  have "\<forall>v \<in> set (anfd_head (anfds M fd)). pri_valid (ws M v) \<and> v \<noteq> PendingW"
    using d pri_invD[OF loop_invD(2)[OF internalD[OF M]]] by fastforce
  from feed_fold_internal[OF internalD[OF M] this, of r] show ?thesis
    using True fd internal_trans[OF M] by (simp add: fd_event_def Let_def fd_event_nocheck_def M_def fd_in_def chk_True)
qed (use fd internal_refl[OF I] in \<open>simp add: fd_event_def Let_def chk_True\<close>)

subsection \<open>The select backend\<close>

text \<open>The bits handed to the kernel are those of descriptors in the table.\<close>

definition select_inv :: "'w ev_loop \<Rightarrow> bool" where
  "select_inv L \<longleftrightarrow> (\<forall>fd. vec_has (vec_ri L) (vec_max L) fd \<or> vec_has (vec_wi L) (vec_max L) fd \<longrightarrow> fd < int (anfdmax L))"

lemma select_backend_inv: "backend_inv select_inv"
  by (fastforce simp: backend_inv_def select_inv_def backend_v_def)

text \<open>The kernel: which of the descriptors asked for are ready, or an interruption.\<close>

type_synonym 'w kernel = "nat \<Rightarrow> (nat \<Rightarrow> u64) \<Rightarrow> (nat \<Rightarrow> u64) \<Rightarrow> ev_tstamp \<Rightarrow> 'w \<Rightarrow> ((nat \<Rightarrow> u64) \<times> (nat \<Rightarrow> u64)) option \<times> 'w"

definition kernel_sys :: "'w kernel \<Rightarrow> 'w select_os" where
  "kernel_sys k = \<lparr>sys_select = (\<lambda>n r w t s. case k n r w t s of
     (Some (ro, wo), s) \<Rightarrow> ((0, 0, \<lambda>i. ro i AND r i, \<lambda>i. wo i AND w i), s)
   | (None, s) \<Rightarrow> ((- 1, EINTR, r, w), s))\<rparr>"

definition run_same :: "'w ev_loop \<Rightarrow> 'w ev_loop \<Rightarrow> bool" where
  "run_same L M \<longleftrightarrow> backend_v M = backend_v L \<and> anfdmax M = anfdmax L"

lemma fd_event_run:
  assumes "run_inv A B L" "fd_in fd L"
  shows "run_inv A B (fd_event fd r L)" "run_same L (fd_event fd r L)"
proof -
  have i: "internal L (fd_event fd r L)" "rfeedcnt (fd_event fd r L) = rfeedcnt L"
    using fd_event_internal[OF run_invD(1)[OF assms(1)] assms(2), of r] by auto
  show "run_inv A B (fd_event fd r L)" by (rule run_inv_internal[OF assms(1) i(1)]) (use i(2) run_invD(3)[OF assms(1)] in simp)
  show "run_same L (fd_event fd r L)" using i(1) by (simp add: run_same_def internal_def static_def aside_v_def)
qed

lemma mask_bit: "(x :: u64) AND push_bit b 1 \<noteq> 0 \<Longrightarrow> bit x b"
proof (rule ccontr)
  assume n: "x AND push_bit b 1 \<noteq> 0" and b: "\<not> bit x b"
  have "x AND push_bit b 1 = 0" by (rule bit_eqI) (use b in \<open>auto simp: bit_and_iff bit_exp_iff\<close>)
  then show False using n by simp
qed

lemma select_bit_run:
  assumes R: "run_inv A select_inv L" and b: "b < NFDBITS" "word < vec_max L"
    and s: "\<And>i. bit wr i \<Longrightarrow> bit (vec_ri L word) i" "\<And>i. bit ww i \<Longrightarrow> bit (vec_wi L word) i"
  shows "run_inv A select_inv (select_bit word wr ww b L) \<and> run_same L (select_bit word wr ww b L)"
proof (cases "wr AND push_bit b 1 = 0 \<and> ww AND push_bit b 1 = 0")
  case True
  then show ?thesis using R by (simp add: select_bit_def run_same_def)
next
  case False
  let ?fd = "int (word * NFDBITS + b)"
  have w: "fd_word ?fd = word" "nat ?fd mod NFDBITS = b" using b(1) by (simp_all add: fd_word_def nat_int_add del: of_nat_add of_nat_mult)
  have "bit (vec_ri L word) b \<or> bit (vec_wi L word) b" using False s mask_bit by blast
  then have "vec_has (vec_ri L) (vec_max L) ?fd \<or> vec_has (vec_wi L) (vec_max L) ?fd" using b(2) w by (simp add: vec_has_def)
  then have "fd_in ?fd L" using run_invD(13)[OF R] unfolding select_inv_def fd_in_def by (meson of_nat_0_le_iff)
  from fd_event_run[OF R this] show ?thesis using R by (simp add: select_bit_def Let_def run_same_def)
qed


text \<open>A scan over words or bits, each of which keeps the invariant and the sets.\<close>

lemma scan_run:
  assumes "\<And>x M. x \<in> set xs \<Longrightarrow> run_inv A B M \<Longrightarrow> run_same L M \<Longrightarrow> run_inv A B (f x M) \<and> run_same M (f x M)"
    and "run_inv A B M" "run_same L M"
  shows "run_inv A B (fold f xs M) \<and> run_same L (fold f xs M)"
  using assms
proof (induction xs arbitrary: M)
  case (Cons x xs)
  have s: "run_inv A B (f x M)" "run_same M (f x M)" using Cons.prems(1)[OF _ Cons.prems(2,3), of x] by auto
  then have "run_same L (f x M)" using Cons.prems(3) by (simp add: run_same_def)
  then show ?case using Cons.IH[OF Cons.prems(1) s(1)] by simp
qed simp

definition reports_ok :: "(nat \<Rightarrow> u64) \<Rightarrow> (nat \<Rightarrow> u64) \<Rightarrow> 'w ev_loop \<Rightarrow> bool" where
  "reports_ok ro wo L \<longleftrightarrow> (\<forall>word i. (bit (ro word) i \<longrightarrow> bit (vec_ri L word) i) \<and> (bit (wo word) i \<longrightarrow> bit (vec_wi L word) i))"

lemma select_words_run:
  assumes R: "run_inv A select_inv L" and s: "reports_ok ro wo L"
  shows "run_inv A select_inv (fold (select_word ro wo) (rev [0..<vec_max L]) L)"
proof -
  have o: "run_inv A select_inv (select_word ro wo word M) \<and> run_same M (select_word ro wo word M)"
    if w: "word \<in> set (rev [0..<vec_max L])" and M: "run_inv A select_inv M" "run_same L M" for word M
  proof -
    have b: "run_inv A select_inv (select_bit word (ro word) (wo word) b K) \<and> run_same K (select_bit word (ro word) (wo word) b K)"
      if "b \<in> set (rev [0..<NFDBITS])" "run_inv A select_inv K" "run_same M K" for b K
      by (rule select_bit_run[OF that(2)])
        (use that s w M(2) in \<open>auto simp: run_same_def backend_v_def reports_ok_def\<close>)
    show ?thesis
    proof (cases "ro word \<noteq> 0 \<or> wo word \<noteq> 0")
      case True
      have e: "select_word ro wo word M = fold (select_bit word (ro word) (wo word)) (rev [0..<NFDBITS]) M" using True by (simp add: select_word_def)
      show ?thesis unfolding e by (rule scan_run[OF b M(1)]) (simp_all add: run_same_def)
    qed (use M in \<open>simp add: select_word_def run_same_def\<close>)
  qed
  show ?thesis by (rule scan_run[OF o R, THEN conjunct1]) (simp_all add: run_same_def)
qed

text \<open>\<^verbatim>\<open>select_poll\<close> returns after at most 256 interruptions.\<close>

lemma select_retry_run:
  assumes "run_inv A select_inv L"
  shows "\<exists>M. select_retry env (kernel_sys k) n t L = Some M \<and> run_inv A select_inv M"
  using assms
proof (induction n arbitrary: L)
  case (Suc n)
  obtain r s where k: "k (vec_max L * NFDBITS) (vec_ri L) (vec_wi L) t (env_release env (os L)) = (r, s)"
    by (cases "k (vec_max L * NFDBITS) (vec_ri L) (vec_wi L) t (env_release env (os L))")
  define M where "M = L\<lparr>os := env_acquire env s\<rparr>"
  have M: "run_inv A select_inv M" using Suc.prems by (simp add: M_def)
  show ?case
  proof (cases r)
    case None
    then have "select_retry env (kernel_sys k) (Suc n) t L = select_retry env (kernel_sys k) n t M"
      using k by (simp add: kernel_sys_def M_def)
    then show ?thesis using Suc.IH[OF M] by simp
  next
    case (Some p)
    define ro where "ro = (\<lambda>i. fst p i AND vec_ri L i)"
    define wo where "wo = (\<lambda>i. snd p i AND vec_wi L i)"
    have "select_retry env (kernel_sys k) (Suc n) t L = Some (fold (select_word ro wo) (rev [0..<vec_max M]) M)"
      using k Some by (cases p) (simp add: kernel_sys_def M_def ro_def wo_def)
    moreover have "reports_ok ro wo M" by (simp add: reports_ok_def ro_def wo_def M_def bit_and_iff)
    ultimately show ?thesis using select_words_run[OF M] by simp
  qed
qed simp

subsection \<open>The modify routine\<close>

lemma select_modify_frame: "io_frame L (select_modify fd oev nev L)"
  by (rule io_frame_upd) (simp_all add: select_modify_def vec_grow_def chk_def flags_v_def frame_defs Let_def)

lemma select_modify_inv:
  assumes "select_inv L" "fd_in fd L"
  shows "select_inv (select_modify fd oev nev L)"
proof (cases "oev = nev")
  case False
  let ?G = "vec_grow (fd_word fd + 1) L"
  have m: "fd_word fd < vec_max ?G" using vec_grow_max[of "fd_word fd + 1" L] by simp
  have fd: "0 \<le> fd" "fd < int (anfdmax L)" using assms(2) by (simp_all add: fd_in_def)
  have e: "select_modify fd oev nev L = ?G\<lparr>vec_ri := vec_put (nev AND EV_READ \<noteq> 0) fd (vec_ri ?G), vec_wi := vec_put (nev AND EV_WRITE \<noteq> 0) fd (vec_wi ?G)\<rparr>"
    using False m by (simp add: select_modify_def Let_def chk_def)
  have "anfdmax ?G = anfdmax L" by (simp add: vec_grow_def)
  then show ?thesis unfolding e using assms(1) fd vec_put_has[OF fd(1) m]
    by (auto simp: select_inv_def vec_grow_has)
qed (use assms(1) in \<open>simp add: select_modify_def\<close>)


subsection \<open>The host\<close>

definition program_env :: "'w kernel \<Rightarrow> 'w program \<Rightarrow> 'w env \<Rightarrow> 'w env" where
  "program_env k prog env = select_env (kernel_sys k) (env\<lparr>env_cb := program_cb prog,
     env_resched := \<lambda>cb w t s. let (u, s) = env_resched env cb w t s in (max t u, s)\<rparr>)"

lemma select_keeps_core:
  assumes "fd_in fd L"
  shows "core (select_modify fd oev nev L) = core L" "ok (select_modify fd oev nev L) = ok L"
  using select_modify_abs[of fd oev nev L] assms by (cases "oev = nev"; simp add: select_modify_def fd_in_def)+

lemma program_poll:
  assumes "run_inv A select_inv L"
  shows "\<exists>M. env_poll (program_env k prog env) t L = Some M \<and> run_inv A select_inv M"
proof -
  define e where "e = env\<lparr>env_cb := program_cb prog, env_resched := \<lambda>cb w t s. let (u, s) = env_resched env cb w t s in (max t u, s)\<rparr>"
  have "env_poll (program_env k prog env) t L = select_retry e (kernel_sys k) 256 t L"
    unfolding program_env_def e_def[symmetric] select_env_def by (simp add: select_poll_def)
  then show ?thesis using select_retry_run[OF assms, of e k 256 t] by simp
qed

interpretation host: run_host "program_env k prog env" select_inv "range UserCb" for k :: "'w kernel" and prog env
proof
  fix i :: nat and L :: "'w ev_loop" and fd oev nev
  assume I: "fd_inv_from i L" "pend_inv L" "pri_inv L" "fd_in fd L" "select_inv L"
  let ?M = "select_modify fd oev nev L"
  show "\<exists>L'. env_modify (program_env k prog env) fd oev nev L = Some L' \<and> fd_inv_from i L' \<and> pend_inv L' \<and> pri_inv L' \<and> select_inv L' \<and> ok L' = ok L \<and>
        (\<forall>j < fdchangecnt L. fdchanges L' j = fdchanges L j) \<and> fdchangecnt L \<le> fdchangecnt L' \<and> anfdmax L' = anfdmax L \<and>
        (\<forall>fd'. anfd_events (anfds L' fd') = anfd_events (anfds L fd')) \<and>
        (\<forall>fd' e. fd' \<noteq> fd \<longrightarrow> True = True) \<and> (True \<longrightarrow> True \<or> fd \<in> fdchanges L' ` {fdchangecnt L..<fdchangecnt L'})"
    using backend_contract[of i L ?M select_inv fd "\<lambda>_ _ _. True"] I(1-3) select_keeps_core[OF I(4)] select_modify_inv[OF I(5,4)]
    by (auto simp: program_env_def select_env_def)
next
  fix L L' :: "'w ev_loop" and fd oev nev
  show "env_modify (program_env k prog env) fd oev nev L = Some L' \<Longrightarrow> io_frame L L'"
    using select_modify_frame by (auto simp: program_env_def select_env_def)
next
  show "resched_ok (program_env k prog env)" by (auto simp: resched_ok_def program_env_def select_env_def split: prod.splits)
next
  fix L L' :: "'w ev_loop" and w r
  assume R: "run_inv (range UserCb) select_inv L" "settled L" and c: "w_cb (ws L w) \<in> range UserCb - own_cbs"
    and i: "ev_invoke (program_env k prog env) w r L = Some L'"
  obtain n where "w_cb (ws L w) = UserCb n" using c by auto
  then have "program_cb prog n w r L = Some L'" using i by (simp add: ev_invoke_def program_env_def select_env_def)
  from program_run(1)[OF R this] show "run_inv (range UserCb) select_inv L' \<and> settled L'" by (simp add: run_call_def)
next
  fix L L' :: "'w ev_loop" and t
  assume R: "run_inv (range UserCb) select_inv L" and p: "env_poll (program_env k prog env) t L = Some L'"
  obtain M where "env_poll (program_env k prog env) t L = Some M" "run_inv (range UserCb) select_inv M" using program_poll[OF R] by blast
  then show "run_inv (range UserCb) select_inv L'" using p by simp
qed (simp_all add: select_inv_def upd_fd_def)


subsection \<open>The callbacks come to an end\<close>

text \<open>
  A program that feeds no events makes only finitely many callbacks run: its own calls lengthen no queue, and the wake-up
  handler, which does, is queued by nobody else.
\<close>

lemma timerfd_queue:
  assumes R: "run_inv A B L" and t: "timerfdcb env L = Some L'"
  shows "pendingcnt L' = pendingcnt L" "pendingpri L' = pendingpri L" "pending (ws L' v) = pending (ws L v)"
proof -
  have r: "pendingcnt N = pendingcnt M \<and> pendingpri N = pendingpri M \<and> pending (ws N v) = pending (ws M v)"
    if M: "loop_inv M" "periodic_args M" "periodics_reschedule env M = Some N" for M N
  proof -
    obtain K where K: "periodics_recalc_all env (periodiccnt M) M = Some K" "recalc_state (periodiccnt M) M K"
      using periodics_recalc_all_returns[OF M(1,2) order_refl] by blast
    obtain s h u where k: "K = M\<lparr>ws := s, periodics := h, os := u\<rparr>" and sv: "\<And>v. (s v)\<lparr>w_at := 0\<rparr> = (ws M v)\<lparr>w_at := 0\<rparr>"
      using K(2) unfolding recalc_state_def by blast
    have p: "pending (s v) = pending (ws M v)" using arg_cong[OF sv[of v], of pending] by simp
    have "same_but_active (ws K) (snd (reheap (periodics K) (ws K) (periodiccnt K)))"
      using h4.re_perm[of "periodiccnt K" "periodics K" "ws K"] by (simp add: heap_perm_def)
    from same_but_activeD(1)[OF this, of v] show ?thesis using M(3) K(1) p by (auto simp: periodics_reschedule_def put_periodics_def k)
  qed
  define S where "S = L\<lparr>os := env_timerfd_settime env (timerfd L) (of_int \<lfloor>fadd (ev_rt_now L) (of_int MAX_BLOCKTIME2_int)\<rfloor>) (os L)\<rparr>"
  obtain t E where E: "ev_time env S = (t, E)" by (cases "ev_time env S")
  obtain c C where C: "get_clock env (E\<lparr>ev_rt_now := t\<rparr>) = (c, C)" by (cases "get_clock env (E\<lparr>ev_rt_now := t\<rparr>)")
  have e: "timerfdcb env L = (if time_jumped (fsub (rtmn_diff C) (fsub (ev_rt_now C) c)) then periodics_reschedule env C else Some C)"
    unfolding timerfdcb_def Let_def S_def[symmetric] E split C ..
  have S: "run_inv A B S" using R by (simp add: S_def)
  have "clock_step S C" using clock_step_trans[of S "E\<lparr>ev_rt_now := t\<rparr>" C] ev_time_step(1)[OF E] ev_time_step(2)[OF C] by simp
  note RC = run_inv_clock[OF S this]
  have l: "pendingcnt C = pendingcnt L" "pendingpri C = pendingpri L" "ws C = ws L"
    using E C by (auto simp: get_clock_def ev_time_def S_def split: prod.splits if_splits)
  have "L' = C \<or> periodics_reschedule env C = Some L'" using assms e by (auto split: if_splits)
  then show "pendingcnt L' = pendingcnt L" "pendingpri L' = pendingpri L" "pending (ws L' v) = pending (ws L v)"
    using r[OF run_invD(1,7)[OF RC], of L'] l by auto
qed

text \<open>The wake-up handler feeds signal and async watchers only, and leaves the pointer of the queue loop where it is or lets it rise.\<close>

lemma feed_list_pipe: "PipeW \<notin> set vs \<Longrightarrow> pending (ws (feed_list vs r L) PipeW) = pending (ws L PipeW)"
  by (induction vs arbitrary: L) (auto simp: ev_feed_event_def Let_def base_defs set_pending_def)

lemma feed_signal_pipe:
  assumes "signals_ok L"
  shows "pending (ws (ev_feed_signal_event signum L) PipeW) = pending (ws L PipeW)"
proof -
  have "PipeW \<notin> set (sg_head (signals L i))" if "sg_loop (signals L i) = ThisLoop" for i using assms that by (force simp: signals_ok_def)
  then show ?thesis by (simp add: ev_feed_signal_event_def Let_def upd_sig_def feed_list_pipe)
qed

lemma sig_scan_pipe:
  assumes "run_inv A B L" "settled L"
  shows "pending (ws (sig_scan n L) PipeW) = pending (ws L PipeW)"
  using assms
proof (induction n arbitrary: L)
  case (Suc n)
  have f: "run_inv A B (ev_feed_signal_event (int n + 1) L) \<and> settled (ev_feed_signal_event (int n + 1) L)" by (rule feed_signal_run[OF Suc.prems])
  show ?case using Suc.IH[OF Suc.prems] Suc.IH[OF conjunct1[OF f] conjunct2[OF f]] feed_signal_pipe[OF run_invD(9)[OF Suc.prems(1)]] by simp
qed simp


lemma async_scan_pipe:
  assumes "run_inv A B L" "settled L" "n \<le> asynccnt L"
  shows "pending (ws (async_scan n L) PipeW) = pending (ws L PipeW)"
  using assms
proof (induction n arbitrary: L)
  case (Suc n)
  define w where "w = asyncs L n"
  have W: "warr (\<lambda>v. kind v = KAsync) (asyncs L) (asynccnt L) (asyncmax L) (ws L)"
    using loop_invD(7)[OF run_invD(1)[OF Suc.prems(1)], of KAsync] by (simp add: fam_inv_def)
  have n: "n < asynccnt L" "n < asyncmax L" using Suc.prems(3) warrD(1)[OF W] by auto
  have w: "kind w = KAsync" "active (ws L w) \<noteq> 0" using warrD(2,3)[OF W n(1)] by (simp_all add: w_def)
  define M where "M = (if w_sent (ws L w) then feed_list [w] EV_ASYNC (upd_w w (\<lambda>x. x\<lparr>w_sent := False\<rparr>) L) else L)"
  have e: "async_scan (Suc n) L = async_scan n M" using n(2) by (simp add: M_def w_def chk_def Let_def)
  note u = sent_run[OF Suc.prems(1) w(1)]
  have "run_inv A B M" using Suc.prems(1) feed_list_run[OF u(1), of "[w]" EV_ASYNC] w(2) unfolding M_def by (simp add: upd_w_def)
  moreover have "settled M" using u(2) Suc.prems(2) feed_list_settled[of "upd_w w (\<lambda>x. x\<lparr>w_sent := False\<rparr>) L" "[w]"] by (simp add: M_def)
  moreover have "n \<le> asynccnt M" using n(1) by (simp add: M_def upd_w_def)
  ultimately have "pending (ws (async_scan n M) PipeW) = pending (ws M PipeW)" by (rule Suc.IH)
  moreover have "PipeW \<notin> set [w]" using w(1) by auto
  then have "pending (ws M PipeW) = pending (ws L PipeW)" unfolding M_def using feed_list_pipe[of "[w]" EV_ASYNC "upd_w w (\<lambda>x. x\<lparr>w_sent := False\<rparr>) L"] by (simp add: upd_w_def)
  ultimately show ?case by (simp only: e)
qed simp

lemma pipecb_pipe:
  assumes "run_inv A B L" "settled L"
  shows "pending (ws (pipecb env r L) PipeW) = pending (ws L PipeW)"
proof -
  define D where "D = pipecb_drain env r L"
  have D: "run_inv A B D" "settled D" "ws D = ws L" using assms by (simp_all add: D_def pipecb_drain_def)
  define S where "S = pipecb_signals D"
  have S: "run_inv A B S" "settled S" using sig_scan_run[of A B "D\<lparr>sig_pending := False\<rparr>"] D by (simp_all add: S_def pipecb_signals_def)
  have "pending (ws S PipeW) = pending (ws L PipeW)" using sig_scan_pipe[of A B "D\<lparr>sig_pending := False\<rparr>"] D by (simp add: S_def pipecb_signals_def)
  moreover have "pending (ws (pipecb_asyncs S) PipeW) = pending (ws S PipeW)"
    using async_scan_pipe[of A B "S\<lparr>async_pending := False\<rparr>"] S by (simp add: pipecb_asyncs_def Let_def)
  ultimately show ?thesis by (simp add: pipecb_def S_def D_def)
qed

text \<open>Either the wake-up handler is no longer queued, or the queues have become shorter.\<close>

definition queue_size :: "'w ev_loop \<Rightarrow> nat \<times> nat" where
  "queue_size L = (of_bool (pending (ws L PipeW) \<noteq> 0), (\<Sum>p < NUMPRI. pendingcnt L p) + pendingpri L)"

lemma pop_shorter:
  assumes "settled L" "pendingcnt L (pendingpri L) \<noteq> 0"
  shows "(\<Sum>p < NUMPRI. pendingcnt (snd (pop_pending L)) p) < (\<Sum>p < NUMPRI. pendingcnt L p)"
proof -
  have p: "pendingcnt (snd (pop_pending L)) = (pendingcnt L)(pendingpri L := pendingcnt L (pendingpri L) - 1)"
    by (simp add: pop_pending_def Let_def base_defs)
  show ?thesis by (rule sum_strict_mono_ex1) (use assms in \<open>auto simp: p settled_def intro: bexI[of _ "pendingpri L"]\<close>)
qed

lemma pop_pending_of:
  assumes "pend_inv L" "settled L" "pendingcnt L (pendingpri L) \<noteq> 0"
  shows "pending (ws (snd (pop_pending L)) v) = (if v = ap_w (fst (pop_pending L)) then 0 else pending (ws L v))"
    "ap_w (fst (pop_pending L)) = PendingW \<or> pending (ws L (ap_w (fst (pop_pending L)))) \<noteq> 0"
    "pendingpri (snd (pop_pending L)) = pendingpri L"
proof -
  have "pendingcnt L (pendingpri L) - 1 < pendingcnt L (pendingpri L)" "pendingpri L < NUMPRI" using assms by (auto simp: settled_def)
  from pend_invD(2)[OF assms(1) this(2,1)] show "ap_w (fst (pop_pending L)) = PendingW \<or> pending (ws L (ap_w (fst (pop_pending L)))) \<noteq> 0"
    by (auto simp: pend_entry_ok_def Let_def pop_pending_def)
  show "pending (ws (snd (pop_pending L)) v) = (if v = ap_w (fst (pop_pending L)) then 0 else pending (ws L v))"
    "pendingpri (snd (pop_pending L)) = pendingpri L"
    by (auto simp: pop_pending_def Let_def base_defs set_pending_def)
qed

lemma settled_down:
  assumes "settled L" "pendingcnt L (pendingpri L) = 0" "pendingpri L \<noteq> 0"
  shows "settled (L\<lparr>pendingpri := pendingpri L - 1\<rparr>)"
  using assms by (auto simp: settled_def) (metis One_nat_def Suc_pred gr0I less_antisym not_less_eq)

definition own_ends :: "'w env \<Rightarrow> ev_cb set \<Rightarrow> ('w ev_loop \<Rightarrow> bool) \<Rightarrow> bool" where
  "own_ends env A B \<longleftrightarrow> (\<forall>L w r. run_inv A B L \<and> settled L \<and> w_cb (ws L w) \<in> A - own_cbs \<longrightarrow>
     (\<exists>L'. ev_invoke env w r L = Some L' \<and> queue_same L L' \<and> pending (ws L' PipeW) = pending (ws L PipeW)))"

context run_host
begin

lemma invoke_smaller:
  assumes R: "run_inv A B L" "settled L" and E: "own_ends env A B"
  shows "\<exists>L'. ev_invoke env w r L = Some L' \<and> run_inv A B L' \<and> settled L' \<and> pending (ws L' PipeW) = pending (ws L PipeW) \<and>
    (queue_same L L' \<or> w = PipeW)"
proof -
  have k: "\<exists>L'. ev_invoke env w r L = Some L' \<and> pending (ws L' PipeW) = pending (ws L PipeW) \<and> (queue_same L L' \<or> w = PipeW)"
  proof (cases "w_cb (ws L w) \<in> own_cbs")
    case False
    then show ?thesis using run_invD(11)[OF R(1), of w] E[unfolded own_ends_def, rule_format, of L w r] R by blast
  next
    case True
    then consider "w_cb (ws L w) = Pendingcb" | "w_cb (ws L w) = Pipecb" | "w_cb (ws L w) = Timerfdcb" by (auto simp: own_cbs_def)
    then show ?thesis
    proof cases
      case 1
      then show ?thesis by (simp add: ev_invoke_def queue_same_def)
    next
      case 2
      then show ?thesis using pipecb_pipe[OF R, of env r] run_invD(14)[OF R(1) 2] by (simp add: ev_invoke_def)
    next
      case 3
      obtain L' where "timerfdcb env L = Some L'" using timerfdcb_run[OF R(1), of env] by blast
      then show ?thesis using timerfd_queue[OF R(1), of env L'] 3 by (simp add: ev_invoke_def queue_same_def)
    qed
  qed
  then show ?thesis using invoke_keeps[OF R, of w r] by blast
qed

lemma invoke_ends:
  assumes E: "own_ends env A B" and "run_inv A B L" "settled L"
  shows "\<exists>L'. invoke_loop (ev_invoke env) L = Some L'"
  using assms(2,3)
proof (induction "queue_size L" arbitrary: L rule: wf_induct_rule[OF wf_lex_prod[OF wf_less_than wf_less_than]])
  case (1 L)
  show ?case
  proof (cases "pendingcnt L (pendingpri L) = 0")
    case True
    show ?thesis
    proof (cases "pendingpri L = 0")
      case False
      have "\<exists>L'. invoke_loop (ev_invoke env) (L\<lparr>pendingpri := pendingpri L - 1\<rparr>) = Some L'"
        by (rule 1(1)) (use False 1(2,3) settled_down[OF 1(3) True False] in \<open>auto simp: queue_size_def\<close>)
      then show ?thesis using True False by (subst invoke_loop.simps) simp
    qed (use True in \<open>subst invoke_loop.simps, simp\<close>)
  next
    case False
    define P where "P = snd (pop_pending L)"
    define w where "w = ap_w (fst (pop_pending L))"
    note p = pop_pending_of[OF loop_invD(1)[OF run_invD(1)[OF 1(2)]] 1(3) False, folded P_def w_def]
    have P: "run_inv A B P" "settled P" unfolding P_def using cb.I_pop[OF 1(2,3) False] settled_pop[OF 1(3)] by blast+
    obtain M where M: "ev_invoke env w (ap_events (fst (pop_pending L))) P = Some M" "run_inv A B M" "settled M"
      "pending (ws M PipeW) = pending (ws P PipeW)" "queue_same P M \<or> w = PipeW"
      using invoke_smaller[OF P E] by blast
    have "(queue_size M, queue_size L) \<in> less_than <*lex*> less_than"
    proof (cases "w = PipeW")
      case True
      then show ?thesis using M(4) p(1,2) by (simp add: queue_size_def)
    next
      case False
      then show ?thesis using M(4,5) p(1)[of PipeW] p(3) pop_shorter[OF 1(3), folded P_def] \<open>pendingcnt L (pendingpri L) \<noteq> 0\<close>
        by (simp add: queue_size_def queue_same_def)
    qed
    then have "\<exists>L'. invoke_loop (ev_invoke env) M = Some L'" by (rule 1(1)[OF _ M(2,3)])
    then show ?thesis using False M(1) by (subst invoke_loop.simps) (simp add: P_def w_def)
  qed
qed

lemma returnsI:
  assumes "own_ends env A B" "\<And>t L. run_inv A B L \<Longrightarrow> env_poll env t L \<noteq> None"
  shows "host_returns env A B"
proof -
  have "invoke_pending env L \<noteq> None" if "run_inv A B L" for L
  proof -
    have "settled (L\<lparr>pendingpri := NUMPRI - 1\<rparr>)" by (auto simp: settled_def)
    then show ?thesis using invoke_ends[OF assms(1), of "L\<lparr>pendingpri := NUMPRI - 1\<rparr>"] that by (simp add: invoke_pending_def ev_invoke_pending_def)
  qed
  then show ?thesis using assms(2) by (simp add: host_returns_def)
qed

end


subsection \<open>How long the loop sleeps\<close>

lemma theap_earliest:
  assumes T: "theap K h mx n s" and v: "deadlines K s v = Some t"
  shows "n \<noteq> 0" "he_at (h HEAP0) \<le> t"
proof -
  have a: "kind v = K" "active (s v) \<noteq> 0" "t = w_at (s v)" using v by (auto simp: deadlines_def split: if_splits)
  note iv = theap_index[OF T a(1,2)]
  have r: "he_at (h HEAP0) \<le> he_at (h (active (s v)))"
    by (rule h4.root_min[OF _ iv(1,2)]) (use theapD(1)[OF T] in \<open>simp add: heap_ok_def\<close>)
  show "n \<noteq> 0" using iv(6) .
  show "he_at (h HEAP0) \<le> t" using r iv a(3) by simp
qed

lemma fsub_mono: "a \<le> b \<Longrightarrow> fsub a c \<le> fsub b c"
  by (simp add: fsub_def f64.mono)

text \<open>The three stages of the computation: the cap by the deadlines, then the lower bounds.\<close>

definition sleep_cap :: "'w ev_loop \<Rightarrow> ev_tstamp" where
  "sleep_cap L = (let b = (if have_monotonic L \<and> timerfd L \<noteq> - 1 then MAX_BLOCKTIME2 else MAX_BLOCKTIME);
       t = (if timercnt L \<noteq> 0 then min b (fsub (he_at (timers L HEAP0)) (mn_now L)) else b)
     in if periodiccnt L \<noteq> 0 then min t (fsub (he_at (periodics L HEAP0)) (ev_rt_now L)) else t)"

lemma sleep_cap_le:
  "timercnt L \<noteq> 0 \<Longrightarrow> sleep_cap L \<le> fsub (he_at (timers L HEAP0)) (mn_now L)"
  "periodiccnt L \<noteq> 0 \<Longrightarrow> sleep_cap L \<le> fsub (he_at (periodics L HEAP0)) (ev_rt_now L)"
  by (simp_all add: sleep_cap_def Let_def min.coboundedI1)

lemma wait_until_cap:
  "wait_until L = (let w = max (sleep_cap L) (timeout_blocktime L)
     in if w < backend_mintime L then (if w \<le> 0 then 0 else backend_mintime L) else w)"
proof -
  have m: "(if a > b then b else a) = min a b" "(if a < b then b else a) = max a b" for a b :: ev_tstamp by auto
  show ?thesis by (simp only: wait_until_def sleep_cap_def Let_def m)
qed

lemma wait_until_le:
  assumes "0 \<le> backend_mintime L" "sleep_cap L \<le> x"
  shows "wait_until L \<le> max x (max (timeout_blocktime L) (backend_mintime L))" "0 \<le> wait_until L"
  using assms by (auto simp: wait_until_cap Let_def max_def)

subsection \<open>Properties\<close>

definition quiet :: "'w program \<Rightarrow> bool" where
  "quiet prog \<longleftrightarrow> (\<forall>n w r s. no_feed (fst (prog n w r s)))"

lemma program_returns:
  assumes "quiet prog"
  shows "host_returns (program_env k prog env) (range UserCb) select_inv"
proof (rule host.returnsI)
  show "env_poll (program_env k prog env) t L \<noteq> None" if "run_inv (range UserCb) select_inv L" for t L using program_poll[OF that, of k prog env t] by auto
  show "own_ends (program_env k prog env) (range UserCb) select_inv"
    unfolding own_ends_def
  proof (intro allI impI, elim conjE)
    fix L :: "'a ev_loop" and w r
    assume R: "run_inv (range UserCb) select_inv L" "settled L" and c: "w_cb (ws L w) \<in> range UserCb - own_cbs"
    obtain n where n: "w_cb (ws L w) = UserCb n" using c by auto
    obtain L' where L': "program_cb prog n w r L = Some L'" by (cases "prog n w r (os L)") (simp add: program_cb_def Let_def)
    have "ev_invoke (program_env k prog env) w r L = Some L'" using n L' by (simp add: ev_invoke_def program_env_def select_env_def)
    moreover note program_run[OF R L'] assms
    ultimately show "\<exists>L'. ev_invoke (program_env k prog env) w r L = Some L' \<and> queue_same L L' \<and> pending (ws L' PipeW) = pending (ws L PipeW)"
      by (auto simp: run_call_def quiet_def)
  qed
qed

text \<open>
  C1: \<^verbatim>\<open>ev_run\<close> as a whole, on the select backend. Its surroundings: each call of \<^verbatim>\<open>select\<close> reports some subset of the descriptors it was
  asked for, or is interrupted (the kernel never answers \<^verbatim>\<open>EBADF\<close>, \<^verbatim>\<open>ENOMEM\<close> or another error, so \<^verbatim>\<open>fd_ebadf\<close>,
  \<^verbatim>\<open>fd_enomem\<close> and \<^verbatim>\<open>ev_syserr\<close> are not reached); any clocks, which may jump; callbacks that run a sequence of the calls of
  \<open>api_call\<close>, where a call whose condition \<open>api_ok\<close> does not hold is left out, and may end with \<^verbatim>\<open>ev_break\<close>; a loop without \<^verbatim>\<open>EVFLAG_FORKCHECK\<close>
  and without a fork to handle (part of \<open>run_inv\<close>). When \<^verbatim>\<open>ev_run\<close>
  returns, the invariant of the whole loop holds, no assertion has failed, no array was accessed outside its allocation, no
  event is pending, and the result is the number of references left. With \<^verbatim>\<open>EVRUN_ONCE\<close> or \<^verbatim>\<open>EVRUN_NOWAIT\<close> and a program
  that feeds no events by hand it does return.
\<close>

theorem ev_run_safe:
  assumes "run_inv (range UserCb) select_inv L" "loop_done L \<noteq> EVBREAK_RECURSE"
  shows "(\<forall>n L'. ev_run (program_env k prog env) flags L = Some (n, L') \<longrightarrow>
      run_inv (range UserCb) select_inv L' \<and> loop_inv L' \<and> ok L' \<and> no_pending L' \<and> n = activecnt L') \<and>
    (quiet prog \<and> flags AND (EVRUN_ONCE OR EVRUN_NOWAIT) \<noteq> 0 \<longrightarrow> (\<exists>n L'. ev_run (program_env k prog env) flags L = Some (n, L')))"
proof -
  have "run_inv (range UserCb) select_inv L' \<and> loop_inv L' \<and> ok L' \<and> no_pending L' \<and> n = activecnt L'"
    if "ev_run (program_env k prog env) flags L = Some (n, L')" for n L'
    using host.run_calm[OF assms that] run_invD(1,2) by (auto simp: calm_def)
  moreover have "\<exists>n L'. ev_run (program_env k prog env) flags L = Some (n, L')" if "quiet prog" "flags AND (EVRUN_ONCE OR EVRUN_NOWAIT) \<noteq> 0"
    using host.run_returns[OF program_returns[OF that(1)] assms that(2)] by fastforce
  ultimately show ?thesis by blast
qed

text \<open>A descriptor watcher, a timer and an idle watcher; the callbacks stop the watcher and start another one.\<close>

definition ex_run_loop :: "unit ev_loop" where
  "ex_run_loop = (run_calls (filter user_call ex_prog) (loop_zero ()))\<lparr>loop_done := 0\<rparr>"

definition ex_program :: "unit program" where
  "ex_program n w r s = ([Io_stop w, Idle_start (IdleW 2)], Some EVBREAK_ONE)"

lemma run_inv_zero: "run_inv (range UserCb) select_inv (loop_zero s)"
  using loop_inv_zero[of s] select_backend_inv
  by (auto simp: run_inv_def loop_zero_def w_zero_def timer_args_def periodic_args_def signals_ok_def pipe_ok_def evpipe_pending_def
      select_inv_def vec_has_def)

theorem ev_run_safe_witness:
  "\<exists>n L'. ev_run (program_env (\<lambda>_ r w _ s. (Some (r, w), s)) ex_program undefined) EVRUN_NOWAIT ex_run_loop = Some (n, L') \<and>
     loop_inv L' \<and> ok L' \<and> no_pending L'"
proof -
  have "run_call (range UserCb) select_inv (loop_zero ()) (run_calls (filter user_call ex_prog) (loop_zero ()))"
    by (rule run_calls_user[OF run_inv_zero]) simp
  then have R: "run_inv (range UserCb) select_inv ex_run_loop" by (simp add: run_call_def ex_run_loop_def)
  have q: "quiet ex_program" by (simp add: quiet_def ex_program_def no_feed_def)
  show ?thesis
    using ev_run_safe[of ex_run_loop "\<lambda>_ r w _ s. (Some (r, w), s)" ex_program undefined EVRUN_NOWAIT, OF R] q
    by (simp add: ex_run_loop_def) blast
qed

text \<open>
  C2: Before it polls, \<^verbatim>\<open>ev_run\<close> computes how long it may sleep. It does not sleep past the deadline of any active timer or
  periodic, except by what the user asked for with \<^verbatim>\<open>ev_set_timeout_collect_interval\<close> and by the backend's resolution; the
  extra sleep for \<^verbatim>\<open>ev_set_io_collect_interval\<close> leaves the backend its minimum time; and the loop does not sleep at all, and
  changes nothing, with \<^verbatim>\<open>EVRUN_NOWAIT\<close>, when idle watchers are active, when no references are left or when a message was noticed
  (\<^verbatim>\<open>pipe_write_skipped\<close>).
\<close>

theorem sleep_bounded:
  assumes "timers_inv L" "periodics_inv L" "backend_mintime L \<ge> 0"
  shows "(\<forall>v t. timer_map L v = Some t \<longrightarrow> wait_until L \<le> max (fsub t (mn_now L)) (max (timeout_blocktime L) (backend_mintime L))) \<and>
    (\<forall>v t. deadlines KPeriodic (ws L) v = Some t \<longrightarrow> wait_until L \<le> max (fsub t (ev_rt_now L)) (max (timeout_blocktime L) (backend_mintime L))) \<and>
    0 \<le> wait_until L \<and>
    (\<forall>wt st M. run_wait env flags prev L = (wt, st, M) \<longrightarrow>
       (if flags AND EVRUN_NOWAIT = 0 \<and> idleall L = 0 \<and> activecnt L \<noteq> 0 \<and> \<not> pipe_write_skipped L
        then st > 0 \<and> wt = fsub (wait_until L) st \<and> st \<le> fsub (wait_until L) (backend_mintime L) \<or> st \<le> 0 \<and> wt = wait_until L \<and> M = L
        else wt = 0 \<and> st = 0 \<and> M = L))"
proof (intro conjI allI impI)
  note t = theap_earliest[OF assms(1)[unfolded timers_inv_def]] and p = theap_earliest[OF assms(2)[unfolded periodics_inv_def]]
  show "wait_until L \<le> max (fsub u (mn_now L)) (max (timeout_blocktime L) (backend_mintime L))" if "timer_map L v = Some u" for v u
    by (rule wait_until_le(1)[OF assms(3) order_trans[OF sleep_cap_le(1)[OF t(1)[OF that]] fsub_mono[OF t(2)[OF that]]]])
  show "wait_until L \<le> max (fsub u (ev_rt_now L)) (max (timeout_blocktime L) (backend_mintime L))" if "deadlines KPeriodic (ws L) v = Some u" for v u
    by (rule wait_until_le(1)[OF assms(3) order_trans[OF sleep_cap_le(2)[OF p(1)[OF that]] fsub_mono[OF p(2)[OF that]]]])
  show "0 \<le> wait_until L" by (rule wait_until_le(2)[OF assms(3) order_refl])
  have b: "(flags AND EVRUN_NOWAIT = 0 \<and> idleall L = 0 \<and> activecnt L \<noteq> 0 \<and> \<not> pipe_write_skipped L) = may_block flags L"
    by (auto simp: may_block_def)
  show "if flags AND EVRUN_NOWAIT = 0 \<and> idleall L = 0 \<and> activecnt L \<noteq> 0 \<and> \<not> pipe_write_skipped L
        then st > 0 \<and> wt = fsub (wait_until L) st \<and> st \<le> fsub (wait_until L) (backend_mintime L) \<or> st \<le> 0 \<and> wt = wait_until L \<and> M = L
        else wt = 0 \<and> st = 0 \<and> M = L" if "run_wait env flags prev L = (wt, st, M)" for wt st M
    using that unfolding b by (auto simp: run_wait_def Let_def split: if_splits)
qed

text \<open>A timer started at time 0 with two seconds to run, and a backend that waits for a millisecond at least.\<close>

definition ex_sleep :: "unit ev_loop" where
  "ex_sleep = (loop_zero ())\<lparr>ws := (ws (loop_zero ()))(TimerW 1 := w_zero\<lparr>w_at := 2, active := HEAP0\<rparr>),
     timers := (\<lambda>_. \<lparr>he_at = 2, he_w = TimerW 1\<rparr>), timermax := 16, timercnt := 1, activecnt := 1, backend_mintime := rnd64 (1 / 1000)\<rparr>"

theorem sleep_bounded_witness:
  "wait_until ex_sleep \<le> max (fsub 2 0) (max 0 (rnd64 (1 / 1000))) \<and> 0 \<le> wait_until ex_sleep"
proof -
  have "timers_inv ex_sleep"
    by (auto simp: timers_inv_def theap_def ex_sleep_def loop_zero_def w_zero_def heap_ok_def heap_ordered_def heap_indexed_def heap_cached_def heap_watchers_def intro: rev_image_eqI[of 3])
  moreover have "periodics_inv ex_sleep"
    by (auto simp: periodics_inv_def theap_def ex_sleep_def loop_zero_def w_zero_def heap_ok_def heap_ordered_def heap_indexed_def heap_cached_def heap_watchers_def)
  moreover have "0 \<le> backend_mintime ex_sleep" using f64.mono[of 0 "1 / 1000"] by (simp add: ex_sleep_def)
  moreover have "timer_map ex_sleep (TimerW 1) = Some 2" by (simp add: deadlines_def ex_sleep_def w_zero_def)
  ultimately show ?thesis using sleep_bounded[of ex_sleep] by (force simp: ex_sleep_def loop_zero_def)
qed

end
