(* ===== verification/WList.thy ===== *)
theory WList
  imports Loop_State
begin

section \<open>Singly linked lists of watchers\<close>

text \<open>
  \<^verbatim>\<open>wlist_add\<close> and \<^verbatim>\<open>wlist_del\<close> at the level of pointers: a \<^verbatim>\<open>WL *\<close> points to a cell, which is the head of
  some list or the \<^verbatim>\<open>next\<close> member of an element, and a cell holds a pointer to an element or null. \<open>wlists\<close> relates
  the cells to the lists in link order that the other theories use for \<^verbatim>\<open>anfds[fd].head\<close>, \<^verbatim>\<open>signals[i].head\<close>,
  \<^verbatim>\<open>childs[h]\<close> and \<^verbatim>\<open>fs_hash[h].head\<close>; adding is \<open>#\<close> and deleting is \<open>remove1\<close> there. \<^verbatim>\<open>next\<close> is one member of a
  watcher, so all lists share the cells, and the relation demands that no element is on two lists.
\<close>

datatype ('h, 'a) cell = Head 'h | NextOf 'a

type_synonym ('h, 'a) links = "('h, 'a) cell \<Rightarrow> 'a option"

definition wlist_add :: "('h, 'a) cell \<Rightarrow> 'a \<Rightarrow> ('h, 'a) links \<Rightarrow> ('h, 'a) links" where
  "wlist_add head elem M = (let M = M(NextOf elem := M head) in M(head := Some elem))"

partial_function (option) wlist_del :: "('h, 'a) cell \<Rightarrow> 'a \<Rightarrow> ('h, 'a) links \<Rightarrow> ('h, 'a) links option" where
  [code]: "wlist_del head elem M =
     (case M head of
        None \<Rightarrow> Some M
      | Some a \<Rightarrow> if a = elem then Some (M(head := M (NextOf elem))) else wlist_del (NextOf a) elem M)"

text \<open>The elements reached from a cell.\<close>

fun linked :: "('h, 'a) links \<Rightarrow> ('h, 'a) cell \<Rightarrow> 'a list \<Rightarrow> bool" where
  "linked M c [] \<longleftrightarrow> M c = None"
| "linked M c (x # xs) \<longleftrightarrow> M c = Some x \<and> linked M (NextOf x) xs"

definition wlists :: "('h, 'a) links \<Rightarrow> ('h \<Rightarrow> 'a list) \<Rightarrow> bool" where
  "wlists M l \<longleftrightarrow> (\<forall>h. linked M (Head h) (l h) \<and> distinct (l h)) \<and> (\<forall>h k. h \<noteq> k \<longrightarrow> set (l h) \<inter> set (l k) = {})"

lemma wlistsD:
  assumes "wlists M l"
  shows "linked M (Head h) (l h)" "distinct (l h)" "x \<in> set (l h) \<Longrightarrow> x \<in> set (l k) \<Longrightarrow> h = k"
  using assms by (auto simp: wlists_def)

lemma linked_upd: "d \<noteq> c \<Longrightarrow> d \<notin> NextOf ` set xs \<Longrightarrow> linked (M(d := v)) c xs = linked M c xs"
  by (induction xs arbitrary: c) auto

lemma linked_cong: "(\<And>d. d = c \<or> d \<in> NextOf ` set xs \<Longrightarrow> M' d = M d) \<Longrightarrow> linked M' c xs = linked M c xs"
  by (induction xs arbitrary: c) auto

lemma linked_add:
  assumes "linked M c xs" "e \<notin> set xs" "c \<notin> NextOf ` set (e # xs)"
  shows "linked (wlist_add c e M) c (e # xs)"
proof -
  have "linked (M(NextOf e := M c)) (NextOf e) xs"
  proof (cases xs)
    case (Cons y ys)
    then have "linked M (NextOf y) ys" using assms(1) by simp
    moreover have "linked (M(NextOf e := M c)) (NextOf y) ys = linked M (NextOf y) ys"
      by (rule linked_upd) (use assms(2) Cons in auto)
    ultimately show ?thesis using assms(1) Cons by simp
  qed (use assms(1) in simp)
  then show ?thesis using assms(3) by (simp add: wlist_add_def Let_def linked_upd)
qed

text \<open>Deletion returns on every well-formed list and writes at most one of its cells.\<close>

lemma linked_del:
  assumes "linked M c xs" "distinct xs" "c \<notin> NextOf ` set xs"
  shows "\<exists>M'. wlist_del c e M = Some M' \<and> linked M' c (remove1 e xs) \<and> (\<forall>d. d \<noteq> c \<and> d \<notin> NextOf ` set xs \<longrightarrow> M' d = M d)"
  using assms
proof (induction xs arbitrary: c)
  case Nil
  then show ?case by (subst wlist_del.simps) simp
next
  case (Cons x xs)
  show ?case
  proof (cases "x = e")
    case True
    have "linked (M(c := M (NextOf x))) c xs"
    proof (cases xs)
      case Nil then show ?thesis using Cons.prems by simp
    next
      case (Cons y ys)
      then show ?thesis using Cons.prems by (simp add: linked_upd)
    qed
    then show ?thesis using Cons.prems True by (subst wlist_del.simps) (auto intro!: exI[of _ "M(c := M (NextOf x))"])
  next
    case False
    have "linked M (NextOf x) xs" "distinct xs" "NextOf x \<notin> NextOf ` set xs" using Cons.prems by auto
    from Cons.IH[OF this] obtain M' where M': "wlist_del (NextOf x) e M = Some M'" "linked M' (NextOf x) (remove1 e xs)"
      "\<And>d. d \<noteq> NextOf x \<and> d \<notin> NextOf ` set xs \<Longrightarrow> M' d = M d" by blast
    have "M' c = Some x" using M'(3)[of c] Cons.prems by auto
    then show ?thesis using Cons.prems False M' by (subst wlist_del.simps) auto
  qed
qed

lemma wlists_add:
  assumes "wlists M l" "\<And>k. e \<notin> set (l k)"
  shows "wlists (wlist_add (Head h) e M) (l(h := e # l h))"
proof -
  have "linked (wlist_add (Head h) e M) (Head k) (l k)" if "k \<noteq> h" for k
  proof -
    have "linked (wlist_add (Head h) e M) (Head k) (l k) = linked M (Head k) (l k)"
      by (rule linked_cong) (use that assms(2)[of k] in \<open>auto simp: wlist_add_def Let_def\<close>)
    then show ?thesis using wlistsD(1)[OF assms(1), of k] by simp
  qed
  moreover have "linked (wlist_add (Head h) e M) (Head h) (e # l h)"
    by (rule linked_add) (use wlistsD[OF assms(1)] assms(2) in auto)
  ultimately show ?thesis using assms by (simp add: wlists_def)
qed

lemma wlists_del:
  assumes "wlists M l"
  shows "\<exists>M'. wlist_del (Head h) e M = Some M' \<and> wlists M' (l(h := remove1 e (l h)))"
proof -
  obtain M' where M': "wlist_del (Head h) e M = Some M'" "linked M' (Head h) (remove1 e (l h))"
    "\<And>d. d \<noteq> Head h \<and> d \<notin> NextOf ` set (l h) \<Longrightarrow> M' d = M d"
    using linked_del[of M "Head h" "l h" e] wlistsD[OF assms] by blast
  have "linked M' (Head k) (l k)" if "k \<noteq> h" for k
  proof -
    have "linked M' (Head k) (l k) = linked M (Head k) (l k)"
      by (rule linked_cong, rule M'(3)) (use that wlistsD(3)[OF assms, of _ h k] in auto)
    then show ?thesis using wlistsD(1)[OF assms, of k] by simp
  qed
  moreover have "set (remove1 e (l h)) \<subseteq> set (l h)" by (rule set_remove1_subset)
  ultimately have "wlists M' (l(h := remove1 e (l h)))"
    using M'(2) assms unfolding wlists_def by simp blast
  then show ?thesis using M'(1) by blast
qed

end
