(* ===== verification/Win_Registry.thy ===== *)
theory Win_Registry
  imports WList
begin

section \<open>The Windows descriptor registry\<close>

text \<open>
  The table of \<^verbatim>\<open>ev.c\<close> that gives small integers to Windows sockets: \<^verbatim>\<open>ev_win32_fd_hash\<close>, \<^verbatim>\<open>_init\<close>, \<^verbatim>\<open>_reserve\<close>,
  \<^verbatim>\<open>_find_handle_unlocked\<close>, \<^verbatim>\<open>_find_fd_unlocked\<close>, \<^verbatim>\<open>_alloc_unlocked\<close>, \<^verbatim>\<open>_push_free_unlocked\<close>, \<^verbatim>\<open>_acquire\<close>,
  \<^verbatim>\<open>_to_handle\<close>, \<^verbatim>\<open>_release\<close>, \<^verbatim>\<open>_valid\<close>. The bucket lists are pointers (\<open>links\<close>: a bucket or the \<^verbatim>\<open>next\<close> of an entry),
  an entry is an address in the domain of \<open>ents\<close>, tables are functions with their announced size. The allocator may
  fail: the record \<open>mem\<close> holds what it does in one call. \<open>reg_ok\<close> is cleared by a failed assertion, an access outside a
  table, or the use of an entry that is not allocated. Every operation runs inside \<^verbatim>\<open>ev_win32_fd_lock\<close>, so operations
  of several threads are sequences of these functions.
\<close>

type_synonym SOCKET = u64

abbreviation (input) INVALID_SOCKET :: SOCKET where "INVALID_SOCKET \<equiv> - 1"
abbreviation (input) EV_WIN32_FD_BUCKETS :: u32 where "EV_WIN32_FD_BUCKETS \<equiv> 4096"
abbreviation (input) INT_MAX :: int where "INT_MAX \<equiv> 2147483647"

datatype errno = EBADF | ENFILE | ENOMEM | WSAENOTSOCK | EOTHER

record fd_entry =
  ent_fd :: int
  ent_handle :: SOCKET
  ent_refcount :: u32
  ent_owned :: bool

record registry =
  reg_ok :: bool
  reg_errno :: "errno option"
  reg_buckets :: bool                       \<comment> \<open>\<^verbatim>\<open>ev_win32_fd_buckets\<close> is not null\<close>
  reg_links :: "(nat, nat) links"
  reg_ents :: "nat \<rightharpoonup> fd_entry"
  reg_by_fd :: "int \<Rightarrow> nat option"
  reg_by_fdmax :: int
  reg_free :: "int \<Rightarrow> int"
  reg_freemax :: int
  reg_freecnt :: int
  reg_next :: int
  reg_closed :: "SOCKET list"               \<comment> \<open>what \<^verbatim>\<open>closesocket\<close> was called with, newest first\<close>

text \<open>What the allocator does during one call of an operation.\<close>

record mem =
  mem_buckets :: bool        \<comment> \<open>\<^verbatim>\<open>calloc (EV_WIN32_FD_BUCKETS, \<dots>)\<close> succeeds\<close>
  mem_free :: bool           \<comment> \<open>\<^verbatim>\<open>realloc (ev_win32_fd_free, \<dots>)\<close> succeeds\<close>
  mem_by_fd :: bool          \<comment> \<open>\<^verbatim>\<open>realloc (ev_win32_fd_by_fd, \<dots>)\<close> succeeds\<close>
  mem_entry :: "nat option"  \<comment> \<open>the address \<^verbatim>\<open>calloc (1, sizeof (*ent))\<close> returns\<close>

definition reg_zero :: registry where
  "reg_zero = \<lparr>reg_ok = True, reg_errno = None, reg_buckets = False, reg_links = (\<lambda>_. None), reg_ents = Map.empty,
     reg_by_fd = (\<lambda>_. None), reg_by_fdmax = 0, reg_free = (\<lambda>_. 0), reg_freemax = 0, reg_freecnt = 0, reg_next = 0,
     reg_closed = []\<rparr>"

definition reg_chk :: "bool \<Rightarrow> registry \<Rightarrow> registry" where
  "reg_chk b R = R\<lparr>reg_ok := reg_ok R \<and> b\<rparr>"

definition reg_err :: "errno \<Rightarrow> registry \<Rightarrow> registry" where
  "reg_err e R = R\<lparr>reg_errno := Some e\<rparr>"

subsection \<open>The operations\<close>

definition ev_win32_fd_hash :: "SOCKET \<Rightarrow> nat" where
  "ev_win32_fd_hash handle =
     (let v = handle in unat (ucast (v XOR drop_bit 11 v XOR drop_bit 23 v) AND (EV_WIN32_FD_BUCKETS - 1) :: u32))"

text \<open>\<^verbatim>\<open>InitOnceExecuteOnce\<close> runs the initialiser again as long as it fails. The result says whether it is \<open>0\<close>.\<close>

definition ev_win32_fd_init :: "mem \<Rightarrow> registry \<Rightarrow> bool \<times> registry" where
  "ev_win32_fd_init m R =
     (let R = (if reg_buckets R then R
               else if mem_buckets m then R\<lparr>reg_buckets := True, reg_links := \<lambda>c. case c of Head b \<Rightarrow> None | NextOf a \<Rightarrow> reg_links R c\<rparr>
               else R)
      in if reg_buckets R then (True, R) else (False, reg_err ENOMEM R))"

partial_function (option) grow_max :: "int \<Rightarrow> int \<Rightarrow> int option" where
  [code]: "grow_max fd newmax =
     (if newmax \<le> fd then grow_max fd (if newmax > INT_MAX div 2 then INT_MAX else newmax * 2) else Some newmax)"

text \<open>\<^verbatim>\<open>ev_win32_fd_reserve\<close>: \<open>None\<close> would be an endless doubling.\<close>

definition ev_win32_fd_reserve :: "mem \<Rightarrow> int \<Rightarrow> registry \<Rightarrow> (bool \<times> registry) option" where
  "ev_win32_fd_reserve m fd R =
     (if fd < reg_by_fdmax R then Some (True, R)
      else if fd = INT_MAX then Some (False, reg_err ENFILE R)
      else
        map_option (\<lambda>newmax.
          let grow = reg_freemax R < newmax in
          if grow \<and> \<not> mem_free m then (False, reg_err ENOMEM R)
          else
            let R = (if grow then R\<lparr>reg_freemax := newmax\<rparr> else R) in
            if \<not> mem_by_fd m then (False, reg_err ENOMEM R)
            else (True, R\<lparr>reg_by_fd := \<lambda>i. if reg_by_fdmax R \<le> i \<and> i < newmax then None else reg_by_fd R i,
                          reg_by_fdmax := newmax\<rparr>))
          (grow_max fd (if reg_by_fdmax R \<noteq> 0 then reg_by_fdmax R else 64)))"

text \<open>
  The search along a bucket. The outer \<open>option\<close> is the loop's return; an entry that is not allocated ends the search
  with the flag \<open>False\<close>.
\<close>

partial_function (option) find_from :: "registry \<Rightarrow> SOCKET \<Rightarrow> nat option \<Rightarrow> (bool \<times> nat option) option" where
  [code]: "find_from R handle ent =
     (case ent of
        None \<Rightarrow> Some (True, None)
      | Some a \<Rightarrow>
          (case reg_ents R a of
             None \<Rightarrow> Some (False, None)
           | Some e \<Rightarrow> if ent_handle e = handle then Some (True, Some a) else find_from R handle (reg_links R (NextOf a))))"

definition ev_win32_fd_find_handle_unlocked :: "SOCKET \<Rightarrow> registry \<Rightarrow> (nat option \<times> registry) option" where
  "ev_win32_fd_find_handle_unlocked handle R =
     map_option (\<lambda>(b, r). (r, reg_chk b R)) (find_from R handle (reg_links R (Head (ev_win32_fd_hash handle))))"

definition ev_win32_fd_find_fd_unlocked :: "int \<Rightarrow> registry \<Rightarrow> nat option" where
  "ev_win32_fd_find_fd_unlocked fd R = (if 0 \<le> fd \<and> fd < reg_by_fdmax R then reg_by_fd R fd else None)"

definition ev_win32_fd_alloc_unlocked :: "registry \<Rightarrow> int \<times> registry" where
  "ev_win32_fd_alloc_unlocked R =
     (if reg_freecnt R \<noteq> 0 then
        let R = R\<lparr>reg_freecnt := reg_freecnt R - 1\<rparr>
        in (reg_free R (reg_freecnt R), reg_chk (0 \<le> reg_freecnt R \<and> reg_freecnt R < reg_freemax R) R)
      else (reg_next R, reg_chk (reg_next R < INT_MAX) (R\<lparr>reg_next := reg_next R + 1\<rparr>)))"

definition ev_win32_fd_push_free_unlocked :: "int \<Rightarrow> registry \<Rightarrow> registry" where
  "ev_win32_fd_push_free_unlocked fd R =
     (let R = reg_chk (reg_freecnt R < reg_freemax R) R
      in R\<lparr>reg_free := (reg_free R)(reg_freecnt R := fd), reg_freecnt := reg_freecnt R + 1\<rparr>)"

definition upd_ent :: "nat \<Rightarrow> (fd_entry \<Rightarrow> fd_entry) \<Rightarrow> registry \<Rightarrow> registry" where
  "upd_ent a f R = (case reg_ents R a of Some e \<Rightarrow> R\<lparr>reg_ents := (reg_ents R)(a \<mapsto> f e)\<rparr> | None \<Rightarrow> reg_chk False R)"

text \<open>The tail of \<^verbatim>\<open>ev_win32_fd_acquire\<close>: a new entry at address \<open>a\<close>.\<close>

definition new_entry :: "int \<Rightarrow> SOCKET \<Rightarrow> bool \<Rightarrow> nat \<Rightarrow> registry \<Rightarrow> registry" where
  "new_entry fd handle owned a R =
     (let R = R\<lparr>reg_ents := (reg_ents R)(a \<mapsto> \<lparr>ent_fd = fd, ent_handle = handle, ent_refcount = 1, ent_owned = owned\<rparr>)\<rparr>;
          R = R\<lparr>reg_links := wlist_add (Head (ev_win32_fd_hash handle)) a (reg_links R)\<rparr>;
          R = reg_chk (0 \<le> fd \<and> fd < reg_by_fdmax R) R
      in R\<lparr>reg_by_fd := (reg_by_fd R)(fd := Some a)\<rparr>)"

definition acquire_new :: "mem \<Rightarrow> SOCKET \<Rightarrow> bool \<Rightarrow> registry \<Rightarrow> int \<times> registry" where
  "acquire_new m handle owned R =
     (let (fd, R) = ev_win32_fd_alloc_unlocked R in
      case mem_entry m of
        None \<Rightarrow> (- 1, reg_err ENOMEM (ev_win32_fd_push_free_unlocked fd R))
      | Some a \<Rightarrow> (fd, new_entry fd handle owned a R))"

definition ev_win32_fd_acquire :: "mem \<Rightarrow> SOCKET \<Rightarrow> bool \<Rightarrow> registry \<Rightarrow> (int \<times> registry) option" where
  "ev_win32_fd_acquire m handle owned R =
     (if handle = 0 \<or> handle = INVALID_SOCKET then Some (- 1, reg_err EBADF R)
      else
        let (b, R) = ev_win32_fd_init m R in
        if \<not> b then Some (- 1, R)
        else
          Option.bind (ev_win32_fd_find_handle_unlocked handle R) (\<lambda>(ent, R).
            case ent of
              Some a \<Rightarrow>
                let R = upd_ent a (\<lambda>e. e\<lparr>ent_refcount := ent_refcount e + 1\<rparr>) R
                in Some (case reg_ents R a of Some e \<Rightarrow> ent_fd e | None \<Rightarrow> 0, R)
            | None \<Rightarrow>
                if reg_freecnt R = 0 then
                  map_option (\<lambda>(b, R). if b then acquire_new m handle owned R else (- 1, R)) (ev_win32_fd_reserve m (reg_next R) R)
                else Some (acquire_new m handle owned R)))"

definition ev_win32_fd_to_handle :: "mem \<Rightarrow> int \<Rightarrow> registry \<Rightarrow> SOCKET \<times> registry" where
  "ev_win32_fd_to_handle m fd R =
     (let (b, R) = ev_win32_fd_init m R in
      if \<not> b then (INVALID_SOCKET, R)
      else
        let (handle, R) =
              (case ev_win32_fd_find_fd_unlocked fd R of
                 Some a \<Rightarrow> (case reg_ents R a of Some e \<Rightarrow> (ent_handle e, R) | None \<Rightarrow> (INVALID_SOCKET, reg_chk False R))
               | None \<Rightarrow> (INVALID_SOCKET, R))
        in (handle, if handle = INVALID_SOCKET then reg_err EBADF R else R))"

text \<open>
  The end of \<^verbatim>\<open>ev_win32_fd_release\<close>, when the last reference is gone: the unlinking loop is \<^verbatim>\<open>wlist_del\<close>'s. The new
  \<^verbatim>\<open>reg_ents\<close> lacks the freed entry.
\<close>

definition release_last :: "int \<Rightarrow> bool \<Rightarrow> nat \<Rightarrow> fd_entry \<Rightarrow> registry \<Rightarrow> registry option" where
  "release_last fd close_handle a e R =
     map_option (\<lambda>M.
       let R = R\<lparr>reg_links := M\<rparr>;
           R = R\<lparr>reg_by_fd := (reg_by_fd R)(fd := None)\<rparr>;
           R = R\<lparr>reg_ents := (reg_ents R)(a := None)\<rparr>;
           R = ev_win32_fd_push_free_unlocked fd R
       in if close_handle \<and> ent_owned e then R\<lparr>reg_closed := ent_handle e # reg_closed R\<rparr> else R)
     (wlist_del (Head (ev_win32_fd_hash (ent_handle e))) a (reg_links R))"

definition ev_win32_fd_release :: "mem \<Rightarrow> int \<Rightarrow> bool \<Rightarrow> registry \<Rightarrow> (int \<times> registry) option" where
  "ev_win32_fd_release m fd close_handle R =
     (let (b, R) = ev_win32_fd_init m R in
      if \<not> b then Some (- 1, R)
      else
        case ev_win32_fd_find_fd_unlocked fd R of
          None \<Rightarrow> Some (- 1, reg_err EBADF R)
        | Some a \<Rightarrow>
            let R = upd_ent a (\<lambda>e. e\<lparr>ent_refcount := ent_refcount e - 1\<rparr>) R in
            (case reg_ents R a of
               None \<Rightarrow> Some (0, R)
             | Some e \<Rightarrow>
                 if ent_refcount e \<noteq> 0 then Some (0, R)
                 else map_option (\<lambda>R. (0, R)) (release_last fd close_handle a e R)))"

text \<open>\<^verbatim>\<open>getsockopt\<close> is a parameter: its result, and the error when it fails.\<close>

definition ev_win32_fd_valid :: "mem \<Rightarrow> (SOCKET \<Rightarrow> errno option) \<Rightarrow> int \<Rightarrow> registry \<Rightarrow> bool \<times> registry" where
  "ev_win32_fd_valid m getsockopt fd R =
     (let (handle, R) = ev_win32_fd_to_handle m fd R in
      if handle = INVALID_SOCKET then (False, R)
      else
        case getsockopt handle of
          None \<Rightarrow> (True, R)
        | Some WSAENOTSOCK \<Rightarrow> (False, reg_err EBADF R)
        | Some _ \<Rightarrow> (True, R))"

definition ev_win32_socket_fd :: "mem \<Rightarrow> SOCKET \<Rightarrow> registry \<Rightarrow> (int \<times> registry) option" where
  "ev_win32_socket_fd m handle R = ev_win32_fd_acquire m handle False R"

end
