(* ===== verification/Registry_Spec.thy ===== *)
theory Registry_Spec
  imports Win_Registry
begin

section \<open>The registry is a finite map from descriptors to sockets\<close>

text \<open>
  \<open>reg_of\<close> is what a registry means: a finite map from descriptors to entries. \<open>reg_inv\<close> is the well-formedness of the
  tables: the free list holds exactly the issued descriptors without entry and fits, \<^verbatim>\<open>by_fd\<close> and the buckets hold the
  same entries, a socket has one entry. \<^verbatim>\<open>ev_win32_fd_acquire\<close> and \<^verbatim>\<open>ev_win32_fd_release\<close> keep it, whatever allocation
  fails, and implement \<open>acquire_spec\<close> and \<open>release_spec\<close>.
\<close>

definition reg_of :: "registry \<Rightarrow> int \<Rightarrow> fd_entry option" where
  "reg_of R fd = (case ev_win32_fd_find_fd_unlocked fd R of None \<Rightarrow> None | Some a \<Rightarrow> reg_ents R a)"

definition free_ok :: "registry \<Rightarrow> bool" where
  "free_ok R \<longleftrightarrow> 0 \<le> reg_freecnt R \<and> inj_on (reg_free R) {0..<reg_freecnt R} \<and>
     reg_free R ` {0..<reg_freecnt R} = {fd. 0 \<le> fd \<and> fd < reg_next R \<and> reg_by_fd R fd = None}"

definition sizes_ok :: "registry \<Rightarrow> bool" where
  "sizes_ok R \<longleftrightarrow> 0 \<le> reg_next R \<and> reg_next R \<le> reg_by_fdmax R \<and> reg_by_fdmax R \<le> reg_freemax R \<and> reg_freemax R \<le> INT_MAX"

definition table_ok :: "registry \<Rightarrow> bool" where
  "table_ok R \<longleftrightarrow>
     (\<forall>fd. reg_next R \<le> fd \<and> fd < reg_by_fdmax R \<longrightarrow> reg_by_fd R fd = None) \<and>
     (\<forall>fd a. 0 \<le> fd \<and> fd < reg_next R \<and> reg_by_fd R fd = Some a \<longrightarrow> (\<exists>e. reg_ents R a = Some e \<and> ent_fd e = fd)) \<and>
     (\<forall>a e. reg_ents R a = Some e \<longrightarrow>
        0 \<le> ent_fd e \<and> ent_fd e < reg_next R \<and> reg_by_fd R (ent_fd e) = Some a \<and>
        ent_refcount e \<noteq> 0 \<and> ent_handle e \<noteq> 0 \<and> ent_handle e \<noteq> INVALID_SOCKET) \<and>
     (\<forall>a b e f. reg_ents R a = Some e \<and> reg_ents R b = Some f \<and> ent_handle e = ent_handle f \<longrightarrow> a = b)"

definition buckets_ok :: "registry \<Rightarrow> bool" where
  "buckets_ok R \<longleftrightarrow>
     (if reg_buckets R then
        \<exists>l. wlists (reg_links R) l \<and>
          (\<forall>a b. a \<in> set (l b) \<longleftrightarrow> (\<exists>e. reg_ents R a = Some e \<and> ev_win32_fd_hash (ent_handle e) = b))
      else reg_ents R = Map.empty)"

definition reg_inv :: "registry \<Rightarrow> bool" where
  "reg_inv R \<longleftrightarrow> sizes_ok R \<and> free_ok R \<and> table_ok R \<and> buckets_ok R"

definition mem_fine :: "mem \<Rightarrow> bool" where
  "mem_fine m \<longleftrightarrow> mem_buckets m \<and> mem_free m \<and> mem_by_fd m \<and> mem_entry m \<noteq> None"

definition acquire_spec :: "SOCKET \<Rightarrow> bool \<Rightarrow> (int \<rightharpoonup> fd_entry) \<Rightarrow> int \<Rightarrow> (int \<rightharpoonup> fd_entry) \<Rightarrow> bool" where
  "acquire_spec handle owned F fd F' \<longleftrightarrow>
     (if fd < 0 then fd = - 1 \<and> F' = F
      else case F fd of
        Some e \<Rightarrow> ent_handle e = handle \<and> F' = F(fd \<mapsto> e\<lparr>ent_refcount := ent_refcount e + 1\<rparr>)
      | None \<Rightarrow> (\<forall>k e. F k = Some e \<longrightarrow> ent_handle e \<noteq> handle) \<and>
          F' = F(fd \<mapsto> \<lparr>ent_fd = fd, ent_handle = handle, ent_refcount = 1, ent_owned = owned\<rparr>))"

definition release_spec :: "int \<Rightarrow> bool \<Rightarrow> (int \<rightharpoonup> fd_entry) \<Rightarrow> int \<Rightarrow> (int \<rightharpoonup> fd_entry) \<Rightarrow> SOCKET list \<Rightarrow> bool" where
  "release_spec fd close_handle F r F' cl \<longleftrightarrow>
     (case F fd of
        None \<Rightarrow> r = - 1 \<and> F' = F \<and> cl = []
      | Some e \<Rightarrow> r = 0 \<and>
          (if ent_refcount e = 1
           then F' = F(fd := None) \<and> cl = (if close_handle \<and> ent_owned e then [ent_handle e] else [])
           else F' = F(fd \<mapsto> e\<lparr>ent_refcount := ent_refcount e - 1\<rparr>) \<and> cl = []))"

subsection \<open>The meaning of the tables\<close>

lemma table_okD:
  assumes "table_ok R"
  shows "reg_next R \<le> fd \<Longrightarrow> fd < reg_by_fdmax R \<Longrightarrow> reg_by_fd R fd = None"
    "0 \<le> fd \<Longrightarrow> fd < reg_next R \<Longrightarrow> reg_by_fd R fd = Some a \<Longrightarrow> \<exists>e. reg_ents R a = Some e \<and> ent_fd e = fd"
    "reg_ents R a = Some e \<Longrightarrow> 0 \<le> ent_fd e \<and> ent_fd e < reg_next R \<and> reg_by_fd R (ent_fd e) = Some a"
    "reg_ents R a = Some e \<Longrightarrow> ent_refcount e \<noteq> 0 \<and> ent_handle e \<noteq> 0 \<and> ent_handle e \<noteq> INVALID_SOCKET"
    "reg_ents R a = Some e \<Longrightarrow> reg_ents R b = Some f \<Longrightarrow> ent_handle e = ent_handle f \<Longrightarrow> a = b"
  using assms unfolding table_ok_def by blast+

lemma table_okI:
  assumes "\<And>fd. reg_next R \<le> fd \<Longrightarrow> fd < reg_by_fdmax R \<Longrightarrow> reg_by_fd R fd = None"
    "\<And>fd a. 0 \<le> fd \<Longrightarrow> fd < reg_next R \<Longrightarrow> reg_by_fd R fd = Some a \<Longrightarrow> \<exists>e. reg_ents R a = Some e \<and> ent_fd e = fd"
    "\<And>a e. reg_ents R a = Some e \<Longrightarrow> 0 \<le> ent_fd e \<and> ent_fd e < reg_next R \<and> reg_by_fd R (ent_fd e) = Some a"
    "\<And>a e. reg_ents R a = Some e \<Longrightarrow> ent_refcount e \<noteq> 0 \<and> ent_handle e \<noteq> 0 \<and> ent_handle e \<noteq> INVALID_SOCKET"
    "\<And>a b e f. reg_ents R a = Some e \<Longrightarrow> reg_ents R b = Some f \<Longrightarrow> ent_handle e = ent_handle f \<Longrightarrow> a = b"
  shows "table_ok R"
  unfolding table_ok_def using assms by simp

lemma table_used:
  assumes "table_ok R" "reg_by_fd R i = Some b" "0 \<le> i" "i < reg_by_fdmax R"
  shows "i < reg_next R" "\<exists>e. reg_ents R b = Some e \<and> ent_fd e = i"
proof -
  show n: "i < reg_next R" using table_okD(1)[OF assms(1), of i] assms(2,4) by fastforce
  show "\<exists>e. reg_ents R b = Some e \<and> ent_fd e = i" using table_okD(2)[OF assms(1,3) n assms(2)] .
qed

lemma reg_invD: "reg_inv R \<Longrightarrow> sizes_ok R" "reg_inv R \<Longrightarrow> free_ok R" "reg_inv R \<Longrightarrow> table_ok R" "reg_inv R \<Longrightarrow> buckets_ok R"
  by (simp_all add: reg_inv_def)

lemma reg_ofD:
  assumes "reg_inv R" "ev_win32_fd_find_fd_unlocked fd R = Some a"
  shows "\<exists>e. reg_ents R a = Some e \<and> ent_fd e = fd \<and> reg_of R fd = Some e \<and> 0 \<le> fd \<and> fd < reg_next R \<and> reg_by_fd R fd = Some a"
proof -
  have f: "0 \<le> fd" "fd < reg_by_fdmax R" "reg_by_fd R fd = Some a" using assms(2) by (auto simp: ev_win32_fd_find_fd_unlocked_def split: if_splits)
  then have "fd < reg_next R" using table_okD(1)[OF reg_invD(3)[OF assms(1)], of fd] by fastforce
  then show ?thesis using table_okD(2)[OF reg_invD(3)[OF assms(1)] f(1) _ f(3)] f assms(2) by (auto simp: reg_of_def)
qed

lemma reg_of_ent:
  assumes "reg_inv R" "reg_ents R a = Some e"
  shows "reg_of R (ent_fd e) = Some e"
  using table_okD(3)[OF reg_invD(3)[OF assms(1)] assms(2)] reg_invD(1)[OF assms(1)] assms(2)
  by (simp add: reg_of_def ev_win32_fd_find_fd_unlocked_def sizes_ok_def)

lemma reg_of_Some:
  assumes "reg_inv R" "reg_of R fd = Some e"
  shows "\<exists>a. ev_win32_fd_find_fd_unlocked fd R = Some a \<and> reg_ents R a = Some e \<and> ent_fd e = fd"
  using assms(2) reg_ofD[OF assms(1), of fd] by (auto simp: reg_of_def split: option.splits)

lemma reg_of_cong:
  "reg_by_fd R' = reg_by_fd R \<Longrightarrow> reg_by_fdmax R' = reg_by_fdmax R \<Longrightarrow> reg_ents R' = reg_ents R \<Longrightarrow> reg_of R' = reg_of R"
  by (rule ext) (simp add: reg_of_def ev_win32_fd_find_fd_unlocked_def cong: option.case_cong)

lemma reg_err_inv [simp]:
  "reg_inv (reg_err e R) = reg_inv R" "reg_of (reg_err e R) = reg_of R" "reg_ok (reg_err e R) = reg_ok R"
  "reg_ents (reg_err e R) = reg_ents R" "reg_next (reg_err e R) = reg_next R" "reg_freecnt (reg_err e R) = reg_freecnt R"
  "reg_buckets (reg_err e R) = reg_buckets R" "reg_closed (reg_err e R) = reg_closed R"
  by (simp_all add: reg_inv_def sizes_ok_def free_ok_def table_ok_def buckets_ok_def reg_err_def reg_of_cong[of "R\<lparr>reg_errno := Some e\<rparr>" R])

lemma init_ok:
  assumes "reg_inv R"
  shows "\<exists>b R'. ev_win32_fd_init m R = (b, R') \<and> reg_inv R' \<and> reg_of R' = reg_of R \<and> reg_ok R' = reg_ok R \<and>
    reg_ents R' = reg_ents R \<and> reg_next R' = reg_next R \<and> reg_closed R' = reg_closed R \<and> b = reg_buckets R' \<and>
    reg_buckets R' = (reg_buckets R \<or> mem_buckets m)"
proof (cases "reg_buckets R \<or> \<not> mem_buckets m")
  case True then show ?thesis using assms by (auto simp: ev_win32_fd_init_def)
next
  case False
  let ?R = "R\<lparr>reg_buckets := True, reg_links := \<lambda>c. case c of Head b \<Rightarrow> None | NextOf a \<Rightarrow> reg_links R c\<rparr>"
  have "reg_ents R = Map.empty" using reg_invD(4)[OF assms] False by (simp add: buckets_ok_def)
  moreover have "wlists (reg_links ?R) (\<lambda>_. [])" by (simp add: wlists_def)
  ultimately have "buckets_ok ?R" unfolding buckets_ok_def by (intro iffD2[OF if_P]) (auto intro!: exI[of _ "\<lambda>_. []"])
  then have "reg_inv ?R" "reg_of ?R = reg_of R"
    using assms reg_of_cong[of ?R R] by (simp_all add: reg_inv_def sizes_ok_def free_ok_def table_ok_def)
  then show ?thesis using False by (auto simp: ev_win32_fd_init_def intro!: exI[of _ True])
qed

subsection \<open>Searching, growing, initialising\<close>

lemma find_from_linked:
  assumes "linked (reg_links R) c xs" "\<And>a. a \<in> set xs \<Longrightarrow> reg_ents R a \<noteq> None"
  shows "find_from R handle (reg_links R c) = Some (True, find (\<lambda>a. ent_handle (the (reg_ents R a)) = handle) xs)"
  using assms
proof (induction xs arbitrary: c)
  case Nil then show ?case by (subst find_from.simps) simp
next
  case (Cons x xs)
  then obtain e where "reg_ents R x = Some e" by fastforce
  then show ?case using Cons by (subst find_from.simps) auto
qed

lemma find_handle:
  assumes "reg_inv R" "reg_buckets R"
  shows "\<exists>r. ev_win32_fd_find_handle_unlocked handle R = Some (r, R) \<and>
    (case r of None \<Rightarrow> \<forall>a e. reg_ents R a = Some e \<longrightarrow> ent_handle e \<noteq> handle
     | Some a \<Rightarrow> \<exists>e. reg_ents R a = Some e \<and> ent_handle e = handle)"
proof -
  let ?h = "ev_win32_fd_hash handle"
  obtain l where l: "wlists (reg_links R) l" "\<And>a b. a \<in> set (l b) \<longleftrightarrow> (\<exists>e. reg_ents R a = Some e \<and> ev_win32_fd_hash (ent_handle e) = b)"
    using reg_invD(4)[OF assms(1)] assms(2) by (auto simp: buckets_ok_def)
  let ?r = "find (\<lambda>a. ent_handle (the (reg_ents R a)) = handle) (l ?h)"
  have "find_from R handle (reg_links R (Head ?h)) = Some (True, ?r)"
    by (rule find_from_linked[OF wlistsD(1)[OF l(1)]]) (use l(2)[of _ "?h", THEN iffD1] in fastforce)
  then have "ev_win32_fd_find_handle_unlocked handle R = Some (?r, R)"
    by (simp add: ev_win32_fd_find_handle_unlocked_def reg_chk_def)
  moreover have "case ?r of None \<Rightarrow> \<forall>a e. reg_ents R a = Some e \<longrightarrow> ent_handle e \<noteq> handle
     | Some a \<Rightarrow> \<exists>e. reg_ents R a = Some e \<and> ent_handle e = handle"
  proof (cases ?r)
    case None
    have "ent_handle e \<noteq> handle" if "reg_ents R a = Some e" for a e
    proof
      assume "ent_handle e = handle"
      then have "a \<in> set (l ?h)" using l(2)[of a ?h, THEN iffD2] that by blast
      then show False using None that \<open>ent_handle e = handle\<close> by (auto simp: find_None_iff)
    qed
    then show ?thesis using None by simp
  next
    case (Some a)
    then have a: "a \<in> set (l ?h)" "ent_handle (the (reg_ents R a)) = handle" by (auto simp: find_Some_iff)
    obtain e where "reg_ents R a = Some e" using l(2)[of a ?h, THEN iffD1, OF a(1)] by blast
    then show ?thesis using Some a(2) by simp
  qed
  ultimately show ?thesis by blast
qed

lemma grow_max_returns:
  assumes "0 < n" "n \<le> INT_MAX" "fd < INT_MAX"
  shows "\<exists>k. grow_max fd n = Some k \<and> fd < k \<and> n \<le> k \<and> k \<le> INT_MAX"
  using assms
proof (induction "nat (fd + 1 - n)" arbitrary: n rule: less_induct)
  case less
  let ?m = "if n > INT_MAX div 2 then INT_MAX else n * 2"
  show ?case
  proof (cases "n \<le> fd")
    case True
    have "nat (fd + 1 - ?m) < nat (fd + 1 - n)" "0 < ?m" "?m \<le> INT_MAX" "n \<le> ?m" using True less.prems by auto
    then show ?thesis using less.hyps[of ?m] less.prems True by (subst grow_max.simps) fastforce
  next
    case False then show ?thesis using less.prems by (subst grow_max.simps) simp
  qed
qed

lemma table_grow:
  assumes "reg_inv R" "reg_by_fdmax R \<le> k" "k \<le> reg_freemax R"
  defines "B \<equiv> R\<lparr>reg_by_fd := \<lambda>i. if reg_by_fdmax R \<le> i \<and> i < k then None else reg_by_fd R i, reg_by_fdmax := k\<rparr>"
  shows "reg_inv B" "reg_of B = reg_of R"
proof -
  have f: "reg_next B = reg_next R" "reg_ents B = reg_ents R" "reg_free B = reg_free R" "reg_freecnt B = reg_freecnt R"
    "reg_by_fdmax B = k" "reg_freemax B = reg_freemax R" "reg_buckets B = reg_buckets R" "reg_links B = reg_links R" by (simp_all add: B_def)
  note s = reg_invD(1)[OF assms(1), unfolded sizes_ok_def]
  have lo: "reg_by_fd B i = reg_by_fd R i" if "i < reg_next R" for i using that s by (simp add: B_def)
  have hi: "reg_by_fd B i = None" if "reg_next R \<le> i" "i < k" for i
    using that table_okD(1)[OF reg_invD(3)[OF assms(1)], of i] by (simp add: B_def)
  have "{fd. 0 \<le> fd \<and> fd < reg_next R \<and> reg_by_fd B fd = None} = {fd. 0 \<le> fd \<and> fd < reg_next R \<and> reg_by_fd R fd = None}"
    by (rule Collect_cong) (use lo in auto)
  then have "free_ok B" using reg_invD(2)[OF assms(1)] unfolding free_ok_def f by metis
  moreover have "table_ok B"
    by (rule table_okI) (use hi lo table_okD(2-5)[OF reg_invD(3)[OF assms(1)]] in \<open>simp_all add: f\<close>)
  moreover have "sizes_ok B" "buckets_ok B" using reg_invD(1,4)[OF assms(1)] assms(2,3) unfolding sizes_ok_def buckets_ok_def f by auto
  ultimately show "reg_inv B" by (simp add: reg_inv_def)
  have b: "reg_by_fd B i = (if reg_by_fdmax R \<le> i \<and> i < k then None else reg_by_fd R i)" for i by (simp add: B_def)
  show "reg_of B = reg_of R"
    by (rule ext) (use assms(2) in \<open>simp add: reg_of_def ev_win32_fd_find_fd_unlocked_def f b cong: option.case_cong\<close>)
qed

lemma reserve_returns:
  assumes "reg_inv R" "fd = reg_next R"
  shows "\<exists>b R'. ev_win32_fd_reserve m fd R = Some (b, R') \<and> reg_inv R' \<and> reg_of R' = reg_of R \<and> reg_ok R' = reg_ok R \<and>
    reg_ents R' = reg_ents R \<and> reg_next R' = fd \<and> reg_freecnt R' = reg_freecnt R \<and> reg_buckets R' = reg_buckets R \<and>
    (b \<longrightarrow> fd < reg_by_fdmax R') \<and> (mem_fine m \<and> reg_next R < INT_MAX \<longrightarrow> b)"
proof -
  note s = reg_invD(1)[OF assms(1), unfolded sizes_ok_def] and inv = assms(1)
  consider (fits) "fd < reg_by_fdmax R" | (full) "\<not> fd < reg_by_fdmax R" "fd = INT_MAX" | (grow) "\<not> fd < reg_by_fdmax R" "fd < INT_MAX"
    using s assms(2) by linarith
  then show ?thesis
  proof cases
    case fits then show ?thesis using assms by (auto simp: ev_win32_fd_reserve_def intro!: exI[of _ True])
  next
    case full
    then show ?thesis using assms by (auto simp: ev_win32_fd_reserve_def intro!: exI[of _ False])
  next
    case grow
    let ?n = "if reg_by_fdmax R \<noteq> 0 then reg_by_fdmax R else 64"
    have "0 < ?n" "?n \<le> INT_MAX" using s assms(2) by auto
    from grow_max_returns[OF this grow(2)] obtain k where k: "grow_max fd ?n = Some k" "fd < k" "?n \<le> k" "k \<le> INT_MAX" by blast
    have kk: "reg_by_fdmax R \<le> k" using k(3) s by (auto split: if_splits)
    let ?F = "if reg_freemax R < k then R\<lparr>reg_freemax := k\<rparr> else R"
    let ?B = "?F\<lparr>reg_by_fd := \<lambda>i. if reg_by_fdmax ?F \<le> i \<and> i < k then None else reg_by_fd ?F i, reg_by_fdmax := k\<rparr>"
    have N: "reg_by_fdmax R = reg_next R" using grow(1) s assms(2) by linarith
    have F: "reg_inv ?F" "reg_of ?F = reg_of R" "reg_ok ?F = reg_ok R" "reg_ents ?F = reg_ents R" "reg_next ?F = reg_next R"
        "reg_freecnt ?F = reg_freecnt R" "reg_buckets ?F = reg_buckets R"
      using inv k reg_of_cong[of ?F R] by (auto simp: reg_inv_def sizes_ok_def free_ok_def table_ok_def buckets_ok_def)
    have B: "reg_inv ?B" "reg_of ?B = reg_of R"
      using table_grow[of ?F k] F(1,2) kk by simp_all
    have "ev_win32_fd_reserve m fd R = Some (if reg_freemax R < k \<and> \<not> mem_free m then (False, reg_err ENOMEM R)
        else if \<not> mem_by_fd m then (False, reg_err ENOMEM ?F) else (True, ?B))"
      using grow k(1) by (simp add: ev_win32_fd_reserve_def Let_def)
    then show ?thesis using F B k(2) assms reg_err_inv[of ENOMEM R] reg_err_inv[of ENOMEM ?F] by (auto simp: mem_fine_def)
  qed
qed

subsection \<open>The free list\<close>

definition free_set :: "registry \<Rightarrow> int set \<Rightarrow> bool" where
  "free_set R S \<longleftrightarrow> 0 \<le> reg_freecnt R \<and> inj_on (reg_free R) {0..<reg_freecnt R} \<and> reg_free R ` {0..<reg_freecnt R} = S"

lemma free_ok_set: "free_ok R \<longleftrightarrow> free_set R {fd. 0 \<le> fd \<and> fd < reg_next R \<and> reg_by_fd R fd = None}"
  by (simp add: free_ok_def free_set_def)

lemma range_Suc: "0 \<le> n \<Longrightarrow> {0..<n + 1} = insert n {0..<n :: int}"
  by auto

lemma free_set_room:
  assumes "free_set R S" "S \<subseteq> {0..<n}" "x \<in> {0..<n}" "x \<notin> S"
  shows "reg_freecnt R < n"
proof -
  have "card S = nat (reg_freecnt R)" using assms(1) card_image[of "reg_free R" "{0..<reg_freecnt R}"] by (auto simp: free_set_def)
  moreover have "card S < card {0..<n}" by (rule psubset_card_mono) (use assms(2-4) in auto)
  ultimately show ?thesis by simp
qed

lemma free_set_push:
  assumes "free_set R S" "x \<notin> S"
  shows "free_set (ev_win32_fd_push_free_unlocked x R) (insert x S)"
proof -
  let ?c = "reg_freecnt R"
  have c: "0 \<le> ?c" "inj_on (reg_free R) {0..<?c}" "reg_free R ` {0..<?c} = S" using assms(1) by (auto simp: free_set_def)
  have e: "((reg_free R)(?c := x)) ` {0..<?c} = S" using c(3) by auto
  have "inj_on ((reg_free R)(?c := x)) {0..<?c}" using c(2) by (auto simp: inj_on_def)
  then have "inj_on ((reg_free R)(?c := x)) {0..<?c + 1}" using assms(2) e by (simp add: range_Suc[OF c(1)])
  moreover have "((reg_free R)(?c := x)) ` {0..<?c + 1} = insert x S" unfolding range_Suc[OF c(1)] image_insert e by simp
  ultimately show ?thesis using c(1) by (simp add: free_set_def ev_win32_fd_push_free_unlocked_def reg_chk_def Let_def)
qed

lemma push_fields [simp]:
  "reg_next (ev_win32_fd_push_free_unlocked x R) = reg_next R" "reg_by_fd (ev_win32_fd_push_free_unlocked x R) = reg_by_fd R"
  "reg_by_fdmax (ev_win32_fd_push_free_unlocked x R) = reg_by_fdmax R" "reg_freemax (ev_win32_fd_push_free_unlocked x R) = reg_freemax R"
  "reg_ents (ev_win32_fd_push_free_unlocked x R) = reg_ents R" "reg_links (ev_win32_fd_push_free_unlocked x R) = reg_links R"
  "reg_buckets (ev_win32_fd_push_free_unlocked x R) = reg_buckets R" "reg_closed (ev_win32_fd_push_free_unlocked x R) = reg_closed R"
  "reg_ok (ev_win32_fd_push_free_unlocked x R) = (reg_ok R \<and> reg_freecnt R < reg_freemax R)"
  by (simp_all add: ev_win32_fd_push_free_unlocked_def reg_chk_def Let_def)

lemma alloc_ok:
  assumes "reg_inv R" "reg_freecnt R \<noteq> 0 \<or> reg_next R < reg_by_fdmax R"
  shows "\<exists>fd R'. ev_win32_fd_alloc_unlocked R = (fd, R') \<and> 0 \<le> fd \<and> fd < reg_next R' \<and> reg_by_fd R fd = None \<and> sizes_ok R' \<and>
    table_ok R' \<and> free_set R' ({i. 0 \<le> i \<and> i < reg_next R' \<and> reg_by_fd R' i = None} - {fd}) \<and> reg_ok R' = reg_ok R \<and>
    reg_ents R' = reg_ents R \<and> reg_by_fd R' = reg_by_fd R \<and> reg_by_fdmax R' = reg_by_fdmax R \<and> reg_links R' = reg_links R \<and>
    reg_buckets R' = reg_buckets R \<and> reg_closed R' = reg_closed R"
proof -
  note s = reg_invD(1)[OF assms(1), unfolded sizes_ok_def] and t = reg_invD(3)[OF assms(1)]
  have f: "free_set R {fd. 0 \<le> fd \<and> fd < reg_next R \<and> reg_by_fd R fd = None}" using reg_invD(2)[OF assms(1)] by (simp add: free_ok_set)
  show ?thesis
  proof (cases "reg_freecnt R = 0")
    case False
    let ?c = "reg_freecnt R - 1" let ?x = "reg_free R (reg_freecnt R - 1)" let ?R = "R\<lparr>reg_freecnt := reg_freecnt R - 1\<rparr>"
    have c: "0 \<le> ?c" "{0..<reg_freecnt R} = insert ?c {0..<?c}" using False f range_Suc[of ?c] by (auto simp: free_set_def)
    then have x: "?x \<in> {fd. 0 \<le> fd \<and> fd < reg_next R \<and> reg_by_fd R fd = None}" using f by (auto simp: free_set_def)
    have i: "inj_on (reg_free R) (insert ?c {0..<?c})" and im: "reg_free R ` insert ?c {0..<?c} = {fd. 0 \<le> fd \<and> fd < reg_next R \<and> reg_by_fd R fd = None}"
      using f unfolding c(2)[symmetric] by (simp_all add: free_set_def)
    have "?x \<notin> reg_free R ` {0..<?c}" using i by (simp add: inj_on_insert)
    then have "reg_free R ` {0..<?c} = {fd. 0 \<le> fd \<and> fd < reg_next R \<and> reg_by_fd R fd = None} - {?x}"
      unfolding im[symmetric] image_insert by simp
    then have "free_set ?R ({i. 0 \<le> i \<and> i < reg_next ?R \<and> reg_by_fd ?R i = None} - {?x})"
      using i c(1) by (simp add: free_set_def inj_on_insert)
    moreover have "reg_freecnt R < reg_next R + 1" by (rule free_set_room[OF f, of _ "reg_next R"]) (use s in auto)
    moreover have "table_ok ?R" using t by (simp add: table_ok_def)
    ultimately show ?thesis using False x c(1) s by (simp add: ev_win32_fd_alloc_unlocked_def Let_def reg_chk_def sizes_ok_def free_set_def table_ok_def)
  next
    case True
    let ?R = "R\<lparr>reg_next := reg_next R + 1\<rparr>"
    have n: "reg_next R < reg_by_fdmax R" "reg_by_fd R (reg_next R) = None" using assms(2) True table_okD(1)[OF t, of "reg_next R"] by auto
    have "{i. 0 \<le> i \<and> i < reg_next ?R \<and> reg_by_fd ?R i = None} - {reg_next R} = {fd. 0 \<le> fd \<and> fd < reg_next R \<and> reg_by_fd R fd = None}"
      by auto
    moreover have "free_set ?R S = free_set R S" for S by (simp add: free_set_def)
    ultimately have "free_set ?R ({i. 0 \<le> i \<and> i < reg_next ?R \<and> reg_by_fd ?R i = None} - {reg_next R})" using f by simp
    moreover have "table_ok ?R"
    proof (rule table_okI)
      show "\<exists>e. reg_ents ?R a = Some e \<and> ent_fd e = fd" if "0 \<le> fd" "fd < reg_next ?R" "reg_by_fd ?R fd = Some a" for fd a
        using that table_okD(2)[OF t, of fd a] n(2) by (cases "fd = reg_next R") auto
      show "reg_by_fd ?R fd = None" if "reg_next ?R \<le> fd" "fd < reg_by_fdmax ?R" for fd using that table_okD(1)[OF t, of fd] by simp
      show "0 \<le> ent_fd e \<and> ent_fd e < reg_next ?R \<and> reg_by_fd ?R (ent_fd e) = Some a" if "reg_ents ?R a = Some e" for a e
        using that table_okD(3)[OF t, of a e] by simp
      show "ent_refcount e \<noteq> 0 \<and> ent_handle e \<noteq> 0 \<and> ent_handle e \<noteq> - 1" if "reg_ents ?R a = Some e" for a e
        using that table_okD(4)[OF t, of a e] by simp
      show "a = b" if "reg_ents ?R a = Some e" "reg_ents ?R b = Some f" "ent_handle e = ent_handle f" for a b e f
        using that table_okD(5)[OF t, of a e b f] by simp
    qed
    ultimately show ?thesis using True n s
      by (simp add: ev_win32_fd_alloc_unlocked_def reg_chk_def sizes_ok_def free_set_def table_ok_def)
  qed
qed

subsection \<open>Taking and giving back\<close>

lemma reg_of_upd:
  assumes "0 \<le> fd" "fd < reg_by_fdmax R'" "reg_by_fdmax R' = reg_by_fdmax R"
    and "\<And>i. i \<noteq> fd \<Longrightarrow> reg_by_fd R' i = reg_by_fd R i" "\<And>i a. i \<noteq> fd \<Longrightarrow> reg_by_fd R i = Some a \<Longrightarrow> 0 \<le> i \<Longrightarrow> i < reg_by_fdmax R \<Longrightarrow> reg_ents R' a = reg_ents R a"
    and "(case reg_by_fd R' fd of None \<Rightarrow> None | Some a \<Rightarrow> reg_ents R' a) = v"
  shows "reg_of R' = (reg_of R)(fd := v)"
proof (rule ext)
  fix i show "reg_of R' i = ((reg_of R)(fd := v)) i"
    using assms by (cases "i = fd") (auto simp: reg_of_def ev_win32_fd_find_fd_unlocked_def split: option.splits)
qed

lemma new_entry_ok:
  fixes owned :: bool
  assumes "sizes_ok R" "table_ok R" "buckets_ok R" "reg_buckets R" "0 \<le> fd" "fd < reg_next R" "reg_by_fd R fd = None"
    and "free_set R ({i. 0 \<le> i \<and> i < reg_next R \<and> reg_by_fd R i = None} - {fd})"
    and "reg_ents R a = None" "\<And>b e. reg_ents R b = Some e \<Longrightarrow> ent_handle e \<noteq> handle" "handle \<noteq> 0" "handle \<noteq> INVALID_SOCKET"
  defines "e \<equiv> \<lparr>ent_fd = fd, ent_handle = handle, ent_refcount = 1, ent_owned = owned\<rparr>"
  shows "reg_inv (new_entry fd handle owned a R)" "reg_ok (new_entry fd handle owned a R) = reg_ok R"
    "reg_of (new_entry fd handle owned a R) = (reg_of R)(fd \<mapsto> e)" "reg_closed (new_entry fd handle owned a R) = reg_closed R"
proof -
  let ?N = "new_entry fd handle owned a R" let ?h = "ev_win32_fd_hash handle"
  have f: "reg_next ?N = reg_next R" "reg_ents ?N = (reg_ents R)(a \<mapsto> e)" "reg_free ?N = reg_free R" "reg_freecnt ?N = reg_freecnt R"
    "reg_by_fdmax ?N = reg_by_fdmax R" "reg_freemax ?N = reg_freemax R" "reg_buckets ?N = True" "reg_by_fd ?N = (reg_by_fd R)(fd \<mapsto> a)"
    "reg_links ?N = wlist_add (Head ?h) a (reg_links R)" "reg_ok ?N = (reg_ok R \<and> 0 \<le> fd \<and> fd < reg_by_fdmax R)" "reg_closed ?N = reg_closed R"
    using assms(4) by (simp_all add: new_entry_def reg_chk_def Let_def e_def)
  note s = assms(1)[unfolded sizes_ok_def] and t = assms(2)
  show "reg_ok ?N = reg_ok R" "reg_closed ?N = reg_closed R" using s assms(5,6) unfolding f by auto
  have "{i. 0 \<le> i \<and> i < reg_next R \<and> ((reg_by_fd R)(fd \<mapsto> a)) i = None} = {i. 0 \<le> i \<and> i < reg_next R \<and> reg_by_fd R i = None} - {fd}" by auto
  then have "free_ok ?N" using assms(8) unfolding free_ok_set free_set_def f by simp
  moreover have "table_ok ?N"
  proof (rule table_okI, unfold f)
    show "((reg_by_fd R)(fd \<mapsto> a)) i = None" if "reg_next R \<le> i" "i < reg_by_fdmax R" for i
      using that table_okD(1)[OF t, of i] assms(6) by auto
    show "\<exists>e'. ((reg_ents R)(a \<mapsto> e)) b = Some e' \<and> ent_fd e' = i" if "0 \<le> i" "i < reg_next R" "((reg_by_fd R)(fd \<mapsto> a)) i = Some b" for i b
      using that table_okD(2)[OF t, of i b] assms(9) by (auto simp: e_def split: if_splits)
    show "0 \<le> ent_fd e' \<and> ent_fd e' < reg_next R \<and> ((reg_by_fd R)(fd \<mapsto> a)) (ent_fd e') = Some b" if "((reg_ents R)(a \<mapsto> e)) b = Some e'" for b e'
      using that table_okD(3)[OF t, of b e'] assms(5-7) by (auto simp: e_def split: if_splits)
    show "ent_refcount e' \<noteq> 0 \<and> ent_handle e' \<noteq> 0 \<and> ent_handle e' \<noteq> - 1" if "((reg_ents R)(a \<mapsto> e)) b = Some e'" for b e'
      using that table_okD(4)[OF t, of b e'] assms(11,12) by (auto simp: e_def split: if_splits)
    show "b = c" if "((reg_ents R)(a \<mapsto> e)) b = Some e1" "((reg_ents R)(a \<mapsto> e)) c = Some e2" "ent_handle e1 = ent_handle e2" for b c e1 e2
      using that table_okD(5)[OF t, of b e1 c e2] assms(10)[of b e1] assms(10)[of c e2] by (auto simp: e_def split: if_splits)
  qed
  moreover have "sizes_ok ?N" using assms(1) unfolding sizes_ok_def f .
  moreover have "buckets_ok ?N"
  proof -
    obtain l where l: "wlists (reg_links R) l" "\<And>a b. a \<in> set (l b) \<longleftrightarrow> (\<exists>e. reg_ents R a = Some e \<and> ev_win32_fd_hash (ent_handle e) = b)"
      using assms(3,4) by (auto simp: buckets_ok_def)
    have n: "a \<notin> set (l b)" for b using l(2)[of a b] assms(9) by simp
    have "wlists (reg_links ?N) (l(?h := a # l ?h))" unfolding f by (rule wlists_add[OF l(1)]) (rule n)
    moreover have "x \<in> set ((l(?h := a # l ?h)) b) \<longleftrightarrow> (\<exists>e'. reg_ents ?N x = Some e' \<and> ev_win32_fd_hash (ent_handle e') = b)" for x b
      using n[of b] l(2)[of x b] by (cases "x = a") (auto simp: f e_def)
    ultimately show ?thesis unfolding buckets_ok_def f by auto
  qed
  ultimately show "reg_inv ?N" by (simp add: reg_inv_def)
  have "reg_ents ?N b = reg_ents R b" if "reg_by_fd R i = Some b" "0 \<le> i" "i < reg_by_fdmax R" for i b
    using table_used(2)[OF t that] assms(9) by (auto simp: f)
  then show "reg_of ?N = (reg_of R)(fd \<mapsto> e)"
    by (intro reg_of_upd) (use s assms(5,6) in \<open>auto simp: f\<close>)
qed

lemma upd_ent_ok:
  assumes "reg_inv R" "reg_ents R a = Some e" "ent_fd (f e) = ent_fd e" "ent_handle (f e) = ent_handle e" "ent_refcount (f e) \<noteq> 0"
  shows "reg_inv (upd_ent a f R)" "reg_of (upd_ent a f R) = (reg_of R)(ent_fd e \<mapsto> f e)"
proof -
  let ?N = "upd_ent a f R"
  have f: "?N = R\<lparr>reg_ents := (reg_ents R)(a \<mapsto> f e)\<rparr>" using assms(2) by (simp add: upd_ent_def)
  note t = reg_invD(3)[OF assms(1)]
  have k: "\<exists>e0. reg_ents R b = Some e0 \<and> ent_fd e0 = ent_fd e' \<and> ent_handle e0 = ent_handle e'"
    if "((reg_ents R)(a \<mapsto> f e)) b = Some e'" for b e' using that assms(2-4) by (cases "b = a") auto
  have n: "reg_next ?N = reg_next R" "reg_by_fdmax ?N = reg_by_fdmax R" "reg_by_fd ?N = reg_by_fd R" "reg_ents ?N = (reg_ents R)(a \<mapsto> f e)"
    by (simp_all add: f)
  have "table_ok ?N"
  proof (rule table_okI, unfold n)
    show "reg_by_fd R i = None" if "reg_next R \<le> i" "i < reg_by_fdmax R" for i using that table_okD(1)[OF t] by simp
    show "\<exists>e'. ((reg_ents R)(a \<mapsto> f e)) b = Some e' \<and> ent_fd e' = i" if "0 \<le> i" "i < reg_next R" "reg_by_fd R i = Some b" for i b
      using that table_okD(2)[OF t, of i b] assms(2,3) by auto
    show "0 \<le> ent_fd e' \<and> ent_fd e' < reg_next R \<and> reg_by_fd R (ent_fd e') = Some b" if "((reg_ents R)(a \<mapsto> f e)) b = Some e'" for b e'
      using k[OF that] table_okD(3)[OF t, of b] by fastforce
    show "ent_refcount e' \<noteq> 0 \<and> ent_handle e' \<noteq> 0 \<and> ent_handle e' \<noteq> - 1" if "((reg_ents R)(a \<mapsto> f e)) b = Some e'" for b e'
      using that table_okD(4)[OF t, of b e'] table_okD(4)[OF t assms(2)] assms(4,5) by (cases "b = a") auto
    show "b = c" if "((reg_ents R)(a \<mapsto> f e)) b = Some e1" "((reg_ents R)(a \<mapsto> f e)) c = Some e2" "ent_handle e1 = ent_handle e2" for b c e1 e2
      using k[OF that(1)] k[OF that(2)] that(3) table_okD(5)[OF t, of b _ c] by fastforce
  qed
  moreover have "sizes_ok ?N" "free_ok ?N" using reg_invD(1,2)[OF assms(1)] by (simp_all add: f sizes_ok_def free_ok_def)
  moreover have "buckets_ok ?N"
  proof (cases "reg_buckets R")
    case True
    have "(\<exists>e'. ((reg_ents R)(a \<mapsto> f e)) b = Some e' \<and> ev_win32_fd_hash (ent_handle e') = h) \<longleftrightarrow>
        (\<exists>e'. reg_ents R b = Some e' \<and> ev_win32_fd_hash (ent_handle e') = h)" for b h
      using assms(2,4) by (cases "b = a") auto
    then show ?thesis using reg_invD(4)[OF assms(1)] True by (simp add: buckets_ok_def f)
  qed (use reg_invD(4)[OF assms(1)] assms(2) in \<open>simp add: buckets_ok_def f\<close>)
  ultimately show "reg_inv ?N" by (simp add: reg_inv_def)
  have i: "0 \<le> ent_fd e" "ent_fd e < reg_by_fdmax R" "reg_by_fd R (ent_fd e) = Some a"
    using table_okD(3)[OF t assms(2)] reg_invD(1)[OF assms(1)] by (auto simp: sizes_ok_def)
  have "reg_ents ?N b = reg_ents R b" if "i \<noteq> ent_fd e" "reg_by_fd R i = Some b" "0 \<le> i" "i < reg_by_fdmax R" for i b
    using table_used(2)[OF t that(2-4)] that(1) assms(2) by (auto simp: f)
  then show "reg_of ?N = (reg_of R)(ent_fd e \<mapsto> f e)" by (intro reg_of_upd) (use i in \<open>auto simp: f\<close>)
qed

lemma release_last_ok:
  assumes "reg_inv R" "reg_ents R a = Some e" "ent_fd e = fd" "ent_handle e' = ent_handle e" "reg_buckets R" "reg_ok R"
  shows "\<exists>R'. release_last fd close_handle a e' (R\<lparr>reg_ents := (reg_ents R)(a \<mapsto> e')\<rparr>) = Some R' \<and> reg_inv R' \<and> reg_ok R' \<and>
    reg_of R' = (reg_of R)(fd := None) \<and> reg_closed R' = (if close_handle \<and> ent_owned e' then [ent_handle e] else []) @ reg_closed R"
proof -
  let ?h = "ev_win32_fd_hash (ent_handle e)" let ?S = "{i. 0 \<le> i \<and> i < reg_next R \<and> reg_by_fd R i = None}"
  note s = reg_invD(1)[OF assms(1), unfolded sizes_ok_def] and t = reg_invD(3)[OF assms(1)]
  have i: "0 \<le> fd" "fd < reg_next R" "reg_by_fd R fd = Some a" using table_okD(3)[OF t assms(2)] assms(3) by auto
  obtain l where l: "wlists (reg_links R) l" "\<And>a b. a \<in> set (l b) \<longleftrightarrow> (\<exists>e. reg_ents R a = Some e \<and> ev_win32_fd_hash (ent_handle e) = b)"
    using reg_invD(4)[OF assms(1)] assms(5) by (auto simp: buckets_ok_def)
  obtain M where M: "wlist_del (Head ?h) a (reg_links R) = Some M" "wlists M (l(?h := remove1 a (l ?h)))" using wlists_del[OF l(1)] by blast
  define Q where "Q = R\<lparr>reg_links := M, reg_by_fd := (reg_by_fd R)(fd := None), reg_ents := (reg_ents R)(a := None)\<rparr>"
  define P where "P = ev_win32_fd_push_free_unlocked fd Q"
  have q: "reg_next Q = reg_next R" "reg_by_fdmax Q = reg_by_fdmax R" "reg_freemax Q = reg_freemax R" "reg_buckets Q = True" "reg_links Q = M"
    "reg_by_fd Q = (reg_by_fd R)(fd := None)" "reg_ents Q = (reg_ents R)(a := None)" "reg_freecnt Q = reg_freecnt R" "reg_free Q = reg_free R"
    "reg_closed Q = reg_closed R" "reg_ok Q = reg_ok R"
    using assms(5) by (simp_all add: Q_def)
  have fs: "free_set R ?S" using reg_invD(2)[OF assms(1)] by (simp add: free_ok_set)
  then have "free_set Q ?S" by (simp add: free_set_def q)
  then have "free_set P (insert fd ?S)" unfolding P_def by (rule free_set_push) (use i in simp)
  moreover have "insert fd ?S = {j. 0 \<le> j \<and> j < reg_next R \<and> ((reg_by_fd R)(fd := None)) j = None}" using i by auto
  ultimately have "free_ok P" by (simp add: free_ok_set P_def q)
  moreover have "reg_freecnt R < reg_next R" by (rule free_set_room[OF fs, of _ fd]) (use i in auto)
  then have ok: "reg_ok P" using s assms(6) by (simp add: P_def q)
  have o: "a = b" if "reg_ents R b = Some e2" "ent_fd e2 = fd" for b e2 using table_okD(3)[OF t that(1)] that(2) i by simp
  have "table_ok P"
  proof (rule table_okI, unfold P_def push_fields q)
    show "((reg_by_fd R)(fd := None)) j = None" if "reg_next R \<le> j" "j < reg_by_fdmax R" for j using that table_okD(1)[OF t] by simp
    show "\<exists>e. ((reg_ents R)(a := None)) b = Some e \<and> ent_fd e = j" if "0 \<le> j" "j < reg_next R" "((reg_by_fd R)(fd := None)) j = Some b" for j b
      using that table_okD(2)[OF t, of j b] assms(2,3) by (auto split: if_splits)
    show "0 \<le> ent_fd e2 \<and> ent_fd e2 < reg_next R \<and> ((reg_by_fd R)(fd := None)) (ent_fd e2) = Some b" if "((reg_ents R)(a := None)) b = Some e2" for b e2
      using that table_okD(3)[OF t, of b e2] o[of b e2] by (auto split: if_splits)
    show "ent_refcount e2 \<noteq> 0 \<and> ent_handle e2 \<noteq> 0 \<and> ent_handle e2 \<noteq> - 1" if "((reg_ents R)(a := None)) b = Some e2" for b e2
      using that table_okD(4)[OF t, of b e2] by (simp split: if_splits)
    show "b = c" if "((reg_ents R)(a := None)) b = Some e1" "((reg_ents R)(a := None)) c = Some e2" "ent_handle e1 = ent_handle e2" for b c e1 e2
      using that table_okD(5)[OF t, of b e1 c e2] by (simp split: if_splits)
  qed
  moreover have "sizes_ok P" using s by (simp add: sizes_ok_def P_def q)
  moreover have "buckets_ok P"
  proof -
    have "x \<in> set ((l(?h := remove1 a (l ?h))) b) \<longleftrightarrow> (\<exists>e'. reg_ents P x = Some e' \<and> ev_win32_fd_hash (ent_handle e') = b)" for x b
      using l(2)[of x b] wlistsD(2)[OF l(1), of ?h] assms(2) by (cases "x = a") (auto simp: P_def q)
    then show ?thesis using M(2) unfolding buckets_ok_def P_def push_fields q by auto
  qed
  ultimately have I: "reg_inv P" by (simp add: reg_inv_def)
  have "reg_ents P b = reg_ents R b" if "j \<noteq> fd" "reg_by_fd R j = Some b" "0 \<le> j" "j < reg_by_fdmax R" for j b
    using table_used(2)[OF t that(2-4)] that(1) assms(2,3) by (auto simp: P_def q)
  then have O: "reg_of P = (reg_of R)(fd := None)" by (intro reg_of_upd) (use i s in \<open>auto simp: P_def q\<close>)
  have c: "reg_inv (P\<lparr>reg_closed := cl\<rparr>) = reg_inv P" "reg_of (P\<lparr>reg_closed := cl\<rparr>) = reg_of P" for cl
    by (simp_all add: reg_inv_def sizes_ok_def free_ok_def table_ok_def buckets_ok_def reg_of_cong[of "P\<lparr>reg_closed := cl\<rparr>" P])
  have "release_last fd close_handle a e' (R\<lparr>reg_ents := (reg_ents R)(a \<mapsto> e')\<rparr>) =
      Some (if close_handle \<and> ent_owned e' then P\<lparr>reg_closed := ent_handle e # reg_closed P\<rparr> else P)"
    using M(1) assms(4) by (simp add: release_last_def P_def Q_def Let_def)
  then show ?thesis using I O c ok by (auto simp: P_def q)
qed

lemma acquire_new_ok:
  assumes "reg_inv R" "reg_buckets R" "reg_freecnt R \<noteq> 0 \<or> reg_next R < reg_by_fdmax R"
    and "\<And>a. mem_entry m = Some a \<Longrightarrow> reg_ents R a = None" "\<And>b e. reg_ents R b = Some e \<Longrightarrow> ent_handle e \<noteq> handle"
    and "handle \<noteq> 0" "handle \<noteq> INVALID_SOCKET"
  shows "\<exists>fd R'. acquire_new m handle owned R = (fd, R') \<and> reg_inv R' \<and> reg_ok R' = reg_ok R \<and>
    acquire_spec handle owned (reg_of R) fd (reg_of R') \<and> (mem_entry m \<noteq> None \<longrightarrow> 0 \<le> fd)"
proof -
  obtain fd Q where A: "ev_win32_fd_alloc_unlocked R = (fd, Q)" and fd: "0 \<le> fd" "fd < reg_next Q" "reg_by_fd R fd = None" and
    inv: "sizes_ok Q" "table_ok Q" and fs: "free_set Q ({i. 0 \<le> i \<and> i < reg_next Q \<and> reg_by_fd Q i = None} - {fd})" and
    fr: "reg_ok Q = reg_ok R" "reg_ents Q = reg_ents R" "reg_by_fd Q = reg_by_fd R" "reg_by_fdmax Q = reg_by_fdmax R" "reg_links Q = reg_links R"
    "reg_buckets Q = reg_buckets R"
    using alloc_ok[OF assms(1,3)] by blast
  have b: "buckets_ok Q" using reg_invD(4)[OF assms(1)] by (simp add: buckets_ok_def fr)
  have O: "reg_of Q = reg_of R" by (rule reg_of_cong) (simp_all add: fr)
  have n: "reg_of R fd = None" using fd(3) by (simp add: reg_of_def ev_win32_fd_find_fd_unlocked_def)
  have h: "ent_handle e \<noteq> handle" if "reg_of R k = Some e" for k e using reg_of_Some[OF assms(1) that] assms(5) by blast
  show ?thesis
  proof (cases "mem_entry m")
    case None
    let ?P = "ev_win32_fd_push_free_unlocked fd Q" let ?S = "{i. 0 \<le> i \<and> i < reg_next Q \<and> reg_by_fd Q i = None}"
    have "free_set ?P (insert fd (?S - {fd}))" by (rule free_set_push[OF fs]) simp
    moreover have "insert fd (?S - {fd}) = ?S" using fd by (auto simp: fr)
    ultimately have "free_ok ?P" by (simp add: free_ok_set)
    moreover have "reg_freecnt Q < reg_next Q" by (rule free_set_room[OF fs, of _ fd]) (use fd in auto)
    then have "reg_ok ?P = reg_ok R" using inv(1) by (auto simp: sizes_ok_def fr)
    moreover have "sizes_ok ?P" "table_ok ?P" "buckets_ok ?P" using inv b by (simp_all add: sizes_ok_def table_ok_def buckets_ok_def)
    moreover have "reg_of ?P = reg_of Q" by (rule reg_of_cong) simp_all
    ultimately have "reg_inv ?P" "reg_of ?P = reg_of R" "reg_ok ?P = reg_ok R" using O by (simp_all add: reg_inv_def)
    then show ?thesis using A None by (simp add: acquire_new_def acquire_spec_def)
  next
    case (Some a)
    note N = new_entry_ok[OF inv b _ fd(1,2) _ fs, of a handle owned, unfolded fr O, OF assms(2) fd(3) assms(4)[OF Some] assms(5-7)]
    show ?thesis using A Some N n h fd(1) by (auto simp: acquire_new_def acquire_spec_def)
  qed
qed

lemma acquire_ok:
  assumes "reg_inv R" "reg_ok R" "\<forall>a. mem_entry m = Some a \<longrightarrow> reg_ents R a = None"
    and "\<forall>fd e. reg_of R fd = Some e \<longrightarrow> ent_refcount e \<noteq> - 1"
  shows "\<exists>fd R'. ev_win32_fd_acquire m handle owned R = Some (fd, R') \<and> reg_inv R' \<and> reg_ok R' \<and>
    acquire_spec handle owned (reg_of R) fd (reg_of R') \<and>
    (handle \<noteq> 0 \<and> handle \<noteq> INVALID_SOCKET \<and> mem_fine m \<and> reg_next R < INT_MAX \<longrightarrow> 0 \<le> fd)"
proof (cases "handle = 0 \<or> handle = INVALID_SOCKET")
  case True
  then show ?thesis using assms(1,2) by (auto simp: ev_win32_fd_acquire_def acquire_spec_def)
next
  case hd: False
  obtain b Q where I: "ev_win32_fd_init m R = (b, Q)" "reg_inv Q" "reg_of Q = reg_of R" "reg_ok Q" "reg_ents Q = reg_ents R"
    "reg_next Q = reg_next R" "b = reg_buckets Q" "mem_buckets m \<Longrightarrow> b"
    using init_ok[OF assms(1), of m] assms(2) by blast
  show ?thesis
  proof (cases b)
    case False
    then show ?thesis using I hd by (auto simp: ev_win32_fd_acquire_def acquire_spec_def mem_fine_def)
  next
    case True
    obtain r where r: "ev_win32_fd_find_handle_unlocked handle Q = Some (r, Q)"
      "case r of None \<Rightarrow> \<forall>a e. reg_ents Q a = Some e \<longrightarrow> ent_handle e \<noteq> handle | Some a \<Rightarrow> \<exists>e. reg_ents Q a = Some e \<and> ent_handle e = handle"
      using find_handle[OF I(2)] True I(7) by blast
    show ?thesis
    proof (cases r)
      case (Some a)
      then obtain e where e: "reg_ents Q a = Some e" "ent_handle e = handle" using r(2) by auto
      let ?f = "\<lambda>e. e\<lparr>ent_refcount := ent_refcount e + 1\<rparr>"
      have F: "reg_of R (ent_fd e) = Some e" using reg_of_ent[OF I(2) e(1)] I(3) by simp
      have "ent_refcount e + 1 \<noteq> 0" using assms(4)[rule_format, OF F] by (metis add_eq_0_iff2)
      note U = upd_ent_ok[OF I(2) e(1), of ?f, simplified, OF this]
      have "0 \<le> ent_fd e" using table_okD(3)[OF reg_invD(3)[OF I(2)] e(1)] by simp
      then show ?thesis using U I hd True r(1) Some e F
        by (simp add: ev_win32_fd_acquire_def acquire_spec_def upd_ent_def)
    next
      case None
      then have no: "\<And>a e. reg_ents Q a = Some e \<Longrightarrow> ent_handle e \<noteq> handle" using r(2) by simp
      show ?thesis
      proof (cases "reg_freecnt Q = 0")
        case z: False
        then show ?thesis using acquire_new_ok[OF I(2), of m handle owned] no hd I True r(1) None assms(3)
          by (fastforce simp: ev_win32_fd_acquire_def mem_fine_def)
      next
        case z: True
        obtain c P where P: "ev_win32_fd_reserve m (reg_next Q) Q = Some (c, P)" "reg_inv P" "reg_of P = reg_of Q" "reg_ok P" "reg_ents P = reg_ents Q"
          "reg_next P = reg_next Q" "reg_buckets P" "c \<Longrightarrow> reg_next P < reg_by_fdmax P" "mem_fine m \<Longrightarrow> reg_next Q < INT_MAX \<Longrightarrow> c"
          using reserve_returns[OF I(2) refl, of m] I(4,7) True by auto
        have e: "ev_win32_fd_acquire m handle owned R = Some (if c then acquire_new m handle owned P else (- 1, P))"
          using I(1) hd True r(1) None z P(1) by (simp add: ev_win32_fd_acquire_def)
        show ?thesis
        proof (cases c)
          case False
          then show ?thesis using e P I by (auto simp: acquire_spec_def)
        next
          case c: True
          have "\<exists>fd R'. acquire_new m handle owned P = (fd, R') \<and> reg_inv R' \<and> reg_ok R' = reg_ok P \<and>
            acquire_spec handle owned (reg_of P) fd (reg_of R') \<and> (mem_entry m \<noteq> None \<longrightarrow> 0 \<le> fd)"
            by (rule acquire_new_ok) (use P c no hd assms(3) I(5) in auto)
          then show ?thesis using e c P I by (auto simp: mem_fine_def)
        qed
      qed
    qed
  qed
qed

lemma release_ok:
  assumes "reg_inv R" "reg_ok R"
  shows "\<exists>r R' cl. ev_win32_fd_release m fd close_handle R = Some (r, R') \<and> reg_inv R' \<and> reg_ok R' \<and>
    reg_closed R' = cl @ reg_closed R \<and> release_spec fd close_handle (reg_of R) r (reg_of R') cl"
proof -
  obtain b Q where I: "ev_win32_fd_init m R = (b, Q)" "reg_inv Q" "reg_of Q = reg_of R" "reg_ok Q" "reg_ents Q = reg_ents R"
    "reg_closed Q = reg_closed R" "b = reg_buckets Q"
    using init_ok[OF assms(1), of m] assms(2) by blast
  consider (none) "\<not> b \<or> ev_win32_fd_find_fd_unlocked fd Q = None" | (ent) a where "b" "ev_win32_fd_find_fd_unlocked fd Q = Some a" by fastforce
  then show ?thesis
  proof cases
    case none
    have "reg_of Q fd = None"
    proof (cases b)
      case False
      then have "reg_ents Q = Map.empty" using reg_invD(4)[OF I(2)] I(7) by (simp add: buckets_ok_def)
      then show ?thesis by (simp add: reg_of_def split: option.split)
    qed (use none in \<open>simp add: reg_of_def\<close>)
    then have "release_spec fd close_handle (reg_of R) (- 1) (reg_of Q) []" by (simp add: release_spec_def I(3))
    then show ?thesis using none I by (auto simp: ev_win32_fd_release_def)
  next
    case ent
    obtain e where e: "reg_ents Q a = Some e" "ent_fd e = fd" "reg_of Q fd = Some e" using reg_ofD[OF I(2) ent(2)] by blast
    let ?f = "\<lambda>e. e\<lparr>ent_refcount := ent_refcount e - 1\<rparr>"
    have U: "upd_ent a ?f Q = Q\<lparr>reg_ents := (reg_ents Q)(a \<mapsto> ?f e)\<rparr>" using e(1) by (simp add: upd_ent_def)
    show ?thesis
    proof (cases "ent_refcount e = 1")
      case False
      then have n: "ent_refcount (?f e) \<noteq> 0" by simp
      note K = upd_ent_ok[OF I(2) e(1), of ?f, OF _ _ n]
      have "ev_win32_fd_release m fd close_handle R = Some (0, upd_ent a ?f Q)"
        using I(1) ent n e(1) by (simp add: ev_win32_fd_release_def upd_ent_def)
      then show ?thesis using K e I False by (auto simp: release_spec_def U)
    next
      case True
      obtain P where P: "release_last fd close_handle a (?f e) (upd_ent a ?f Q) = Some P" "reg_inv P" "reg_ok P" "reg_of P = (reg_of Q)(fd := None)"
        "reg_closed P = (if close_handle \<and> ent_owned e then [ent_handle e] else []) @ reg_closed Q"
        using release_last_ok[OF I(2) e(1,2), of "?f e" close_handle] I(4,7) ent(1) unfolding U by auto
      have "ev_win32_fd_release m fd close_handle R = Some (0, P)"
        using I(1) ent True e(1) P(1) by (simp add: ev_win32_fd_release_def upd_ent_def)
      then show ?thesis using P I e True by (auto simp: release_spec_def)
    qed
  qed
qed

lemma to_handle_ok:
  assumes "reg_inv R" "reg_of R fd = Some e"
  shows "ev_win32_fd_to_handle m fd R = (ent_handle e, R)"
proof -
  obtain a where a: "ev_win32_fd_find_fd_unlocked fd R = Some a" "reg_ents R a = Some e" using reg_of_Some[OF assms] by blast
  have b: "reg_buckets R" using reg_invD(4)[OF assms(1)] a(2) by (auto simp: buckets_ok_def split: if_splits)
  have "ent_handle e \<noteq> INVALID_SOCKET" using table_okD(4)[OF reg_invD(3)[OF assms(1)] a(2)] by simp
  then show ?thesis using a b by (simp add: ev_win32_fd_to_handle_def ev_win32_fd_init_def)
qed

subsection \<open>Properties\<close>

lemma reg_inv_zero: "reg_inv reg_zero"
  by (simp add: reg_inv_def reg_zero_def sizes_ok_def free_ok_def table_ok_def buckets_ok_def)

text \<open>
  C35: \<^verbatim>\<open>ev_win32_fd_acquire\<close> keeps the registry well-formed whatever allocation fails: the free list never overflows, no
  assertion fails, every access is inside a table, every loop ends. It changes the map from descriptors to entries as
  specified: one more reference for a socket already known, a fresh descriptor for a new one, nothing on a failure; it
  fails only for an invalid socket, a failed allocation or when all descriptors are in use; and the descriptor it returns
  translates back to the socket. (The reference count is assumed not to be at its maximum.)
\<close>

theorem registry_acquire:
  assumes "reg_inv R" "reg_ok R" "\<forall>a. mem_entry m = Some a \<longrightarrow> reg_ents R a = None"
    and "\<forall>fd e. reg_of R fd = Some e \<longrightarrow> ent_refcount e \<noteq> - 1"
  shows "\<exists>fd R'. ev_win32_fd_acquire m handle owned R = Some (fd, R') \<and> reg_inv R' \<and> reg_ok R' \<and>
    acquire_spec handle owned (reg_of R) fd (reg_of R') \<and>
    (handle \<noteq> 0 \<and> handle \<noteq> INVALID_SOCKET \<and> mem_fine m \<and> reg_next R < INT_MAX \<longrightarrow> 0 \<le> fd) \<and>
    (0 \<le> fd \<longrightarrow> ev_win32_fd_to_handle m fd R' = (handle, R'))"
proof -
  obtain fd R' where A: "ev_win32_fd_acquire m handle owned R = Some (fd, R')" "reg_inv R'" "reg_ok R'"
    "acquire_spec handle owned (reg_of R) fd (reg_of R')"
    "handle \<noteq> 0 \<and> handle \<noteq> INVALID_SOCKET \<and> mem_fine m \<and> reg_next R < INT_MAX \<longrightarrow> 0 \<le> fd"
    using acquire_ok[where handle = handle and owned = owned, OF assms] by blast
  have "\<exists>e. reg_of R' fd = Some e \<and> ent_handle e = handle" if "0 \<le> fd"
    using A(4) that by (auto simp: acquire_spec_def split: option.splits)
  then have "ev_win32_fd_to_handle m fd R' = (handle, R')" if "0 \<le> fd" using to_handle_ok[OF A(2)] that by blast
  then show ?thesis using A by blast
qed

definition ex_mem :: mem where
  "ex_mem = \<lparr>mem_buckets = True, mem_free = True, mem_by_fd = True, mem_entry = Some 7\<rparr>"

lemma ex_acquire: "reg_of reg_zero = (\<lambda>_. None)" "reg_ok reg_zero" "reg_ents reg_zero a = None" "mem_fine ex_mem" "reg_next reg_zero = 0" "reg_closed reg_zero = []"
  by (simp_all add: reg_of_def reg_zero_def ev_win32_fd_find_fd_unlocked_def fun_eq_iff ex_mem_def mem_fine_def)

theorem registry_acquire_witness:
  "\<exists>fd R'. ev_win32_fd_acquire ex_mem 42 True reg_zero = Some (fd, R') \<and> 0 \<le> fd \<and> reg_inv R' \<and>
    ev_win32_fd_to_handle ex_mem fd R' = (42, R')"
  using registry_acquire[where m = ex_mem and handle = 42 and owned = True, OF reg_inv_zero ex_acquire(2)] by (auto simp: ex_acquire)

text \<open>
  C36: \<^verbatim>\<open>ev_win32_fd_release\<close> keeps the registry well-formed, takes back one reference, and with the last one removes the
  descriptor and closes the socket exactly if the registry owns it and the caller asks for it; an unknown descriptor is
  refused without change. No assertion fails, no access leaves its table, the unlinking loop ends.
\<close>

theorem registry_release:
  assumes "reg_inv R" "reg_ok R"
  shows "\<exists>r R' cl. ev_win32_fd_release m fd close_handle R = Some (r, R') \<and> reg_inv R' \<and> reg_ok R' \<and>
    reg_closed R' = cl @ reg_closed R \<and> release_spec fd close_handle (reg_of R) r (reg_of R') cl"
  by (rule release_ok[OF assms])

theorem registry_release_witness:
  "\<exists>fd R R'. ev_win32_fd_acquire ex_mem 42 True reg_zero = Some (fd, R) \<and> reg_of R fd \<noteq> None \<and>
    ev_win32_fd_release ex_mem fd True R = Some (0, R') \<and> reg_of R' fd = None \<and> reg_closed R' = 42 # reg_closed R \<and> reg_inv R'"
proof -
  obtain fd R where A: "ev_win32_fd_acquire ex_mem 42 True reg_zero = Some (fd, R)" "reg_inv R" "reg_ok R" "0 \<le> fd"
    "acquire_spec 42 True (\<lambda>_. None) fd (reg_of R)"
    using acquire_ok[where m = ex_mem and handle = 42 and owned = True, OF reg_inv_zero ex_acquire(2)] by (auto simp: ex_acquire)
  then have F: "reg_of R fd = Some \<lparr>ent_fd = fd, ent_handle = 42, ent_refcount = 1, ent_owned = True\<rparr>" by (simp add: acquire_spec_def)
  show ?thesis using registry_release[OF A(2,3), of ex_mem fd True] A F by (auto simp: release_spec_def)
qed

end
