(* ===== verification/Event.thy ===== *)
theory Event
  imports Loop_Api
begin

section \<open>The libevent emulation\<close>

text \<open>
  \<^verbatim>\<open>event.c\<close>: libevent's interface on top of the loop. A \<^verbatim>\<open>struct event\<close> is a number \<open>n\<close>; its two watchers are in the
  watcher store, at \<open>EventTo n\<close> and, for the union \<^verbatim>\<open>iosig\<close>, at \<open>iosig\<close>: one object, an \<^verbatim>\<open>ev_signal\<close> or an \<^verbatim>\<open>ev_io\<close> as
  \<^verbatim>\<open>ev_events\<close> says. The other members are the record \<open>event\<close>, in the outside state \<open>libevent\<close> of the loop, together with
  \<^verbatim>\<open>ev_x_cur\<close> and the allocated \<^verbatim>\<open>struct ev_x_once\<close>. The build has \<^verbatim>\<open>EV_MULTIPLICITY\<close>; a base is the loop at hand or null
  (\<open>ev_base\<close>, \<open>lv_cur\<close>). \<open>xcb\<close> is the user's callbacks: function, descriptor, events, argument.
\<close>

abbreviation (input) EV_TIMEOUT :: u32 where "EV_TIMEOUT \<equiv> EV_TIMER"
abbreviation (input) EV_PERSIST :: u32 where "EV_PERSIST \<equiv> 0x10"
abbreviation (input) EVLIST_TIMEOUT :: u32 where "EVLIST_TIMEOUT \<equiv> 0x01"
abbreviation (input) EVLIST_INSERTED :: u32 where "EVLIST_INSERTED \<equiv> 0x02"
abbreviation (input) EVLIST_SIGNAL :: u32 where "EVLIST_SIGNAL \<equiv> 0x04"
abbreviation (input) EVLIST_ACTIVE :: u32 where "EVLIST_ACTIVE \<equiv> 0x08"
abbreviation (input) EVLIST_INIT :: u32 where "EVLIST_INIT \<equiv> 0x80"

record timeval =
  tv_sec :: int
  tv_usec :: int

record event =
  ev_base :: bool
  ev_callback :: "nat option"
  ev_arg :: nat
  ev_fd :: int
  ev_pri :: int
  ev_res :: u32
  ev_flags :: u32
  ev_events :: u16

record ev_x_once =
  xo_fd :: int
  xo_cb :: "nat option"
  xo_arg :: nat

record 'o libevent =
  lv_cur :: bool
  lv_events :: "nat \<Rightarrow> event"
  lv_onces :: "nat \<rightharpoonup> ev_x_once"
  lv_next :: nat
  lv_rest :: 'o

type_synonym 'o xloop = "'o libevent ev_loop"
type_synonym 'o xcb = "nat \<Rightarrow> int \<Rightarrow> u16 \<Rightarrow> nat \<Rightarrow> 'o libevent ev_loop \<Rightarrow> 'o libevent ev_loop option"

definition ev_of :: "nat \<Rightarrow> 'o xloop \<Rightarrow> event" where
  "ev_of n L = lv_events (os L) n"

definition upd_ev :: "nat \<Rightarrow> (event \<Rightarrow> event) \<Rightarrow> 'o xloop \<Rightarrow> 'o xloop" where
  "upd_ev n f L = L\<lparr>os := (os L)\<lparr>lv_events := (lv_events (os L))(n := f (ev_of n L))\<rparr>\<rparr>"

text \<open>A \<^verbatim>\<open>short\<close> as the \<^verbatim>\<open>int\<close> it is promoted to.\<close>

definition events_of :: "nat \<Rightarrow> 'o xloop \<Rightarrow> u32" where
  "events_of n L = scast (ev_events (ev_of n L))"

definition iosig :: "nat \<Rightarrow> 'o xloop \<Rightarrow> W" where
  "iosig n L = (if events_of n L AND EV_SIGNAL \<noteq> 0 then EventSig n else EventIo n)"

definition ev_is_pending :: "W \<Rightarrow> 'w ev_loop \<Rightarrow> bool" where
  "ev_is_pending w L \<longleftrightarrow> pending (ws L w) \<noteq> 0"

subsection \<open>Times\<close>

text \<open>The conversion \<^verbatim>\<open>(long)\<close> of a double cuts towards zero.\<close>

definition trunc_long :: "ev_tstamp \<Rightarrow> int" where
  "trunc_long x = (if x < 0 then - \<lfloor>- x\<rfloor> else \<lfloor>x\<rfloor>)"

abbreviation (input) usec_1 :: ev_tstamp where "usec_1 \<equiv> rnd64 (1 / 1000000)"

definition ev_tv_get :: "timeval option \<Rightarrow> ev_tstamp" where
  "ev_tv_get tv =
     (case tv of
        Some t \<Rightarrow> let after = fadd (rnd64 (of_int (tv_sec t))) (fmul (rnd64 (of_int (tv_usec t))) usec_1)
                  in if after \<noteq> 0 then after else usec_1
      | None \<Rightarrow> - 1)"

definition ev_tv_set :: "ev_tstamp \<Rightarrow> timeval" where
  "ev_tv_set t =
     (let sec = trunc_long t;
          usec = trunc_long (fmul (fsub t (rnd64 (of_int sec))) 1000000);
          (sec, usec) = (if usec \<ge> 1000000 then (sec + 1, usec - 1000000)
                         else if usec < 0 then (sec - 1, usec + 1000000) else (sec, usec))
      in \<lparr>tv_sec = sec, tv_usec = usec\<rparr>)"

subsection \<open>Events\<close>

definition event_get_callback :: "nat option \<Rightarrow> 'o xloop \<Rightarrow> nat option" where
  "event_get_callback ev L = (case ev of None \<Rightarrow> None | Some n \<Rightarrow> ev_callback (ev_of n L))"

definition event_set :: "nat option \<Rightarrow> int \<Rightarrow> u16 \<Rightarrow> nat option \<Rightarrow> nat \<Rightarrow> 'o xloop \<Rightarrow> 'o xloop" where
  "event_set ev fd events cb arg L =
     (case ev of
        None \<Rightarrow> L
      | Some n \<Rightarrow>
          let L = chk (lv_cur (os L)) L;
              L = (if (scast events :: u32) AND EV_SIGNAL \<noteq> 0 then ev_init (EventSig n) EventCbSig L else ev_init (EventIo n) EventCbIo L);
              L = ev_init (EventTo n) EventCbTo L
          in upd_ev n (\<lambda>e. \<lparr>ev_base = lv_cur (os L), ev_callback = cb, ev_arg = arg, ev_fd = fd, ev_pri = 0, ev_res = 0,
               ev_flags = EVLIST_INIT, ev_events = events\<rparr>) L)"

definition add_iosig :: "'o libevent env \<Rightarrow> nat \<Rightarrow> 'o xloop \<Rightarrow> 'o xloop option" where
  "add_iosig env n L =
     (if events_of n L AND EV_SIGNAL \<noteq> 0 then
        if \<not> ev_is_active (iosig n L) L then
          map_option (upd_ev n (\<lambda>e. e\<lparr>ev_flags := ev_flags e OR EVLIST_SIGNAL\<rparr>))
            (ev_signal_start env (iosig n L) (ev_signal_set (iosig n L) (ev_fd (ev_of n L)) L))
        else Some L
      else if events_of n L AND (EV_READ OR EV_WRITE) \<noteq> 0 then
        if \<not> ev_is_active (iosig n L) L then
          Some (upd_ev n (\<lambda>e. e\<lparr>ev_flags := ev_flags e OR EVLIST_INSERTED\<rparr>)
            (ev_io_start (iosig n L) (ev_io_set (iosig n L) (ev_fd (ev_of n L)) (events_of n L AND (EV_READ OR EV_WRITE)) L)))
        else Some L
      else Some L)"

definition add_timeout :: "nat \<Rightarrow> timeval option \<Rightarrow> 'o xloop \<Rightarrow> 'o xloop" where
  "add_timeout n tv L =
     (if tv \<noteq> None then
        let L = upd_w (EventTo n) (\<lambda>x. x\<lparr>w_repeat := ev_tv_get tv\<rparr>) L;
            L = ev_timer_again (EventTo n) L
        in upd_ev n (\<lambda>e. e\<lparr>ev_flags := ev_flags e OR EVLIST_TIMEOUT\<rparr>) L
      else
        let L = ev_timer_stop (EventTo n) L
        in upd_ev n (\<lambda>e. e\<lparr>ev_flags := ev_flags e AND NOT EVLIST_TIMEOUT\<rparr>) L)"

text \<open>\<open>None\<close>: starting the signal watcher did not return (\<^verbatim>\<open>evpipe_init\<close>).\<close>

definition event_add :: "'o libevent env \<Rightarrow> nat option \<Rightarrow> timeval option \<Rightarrow> 'o xloop \<Rightarrow> (int \<times> 'o xloop) option" where
  "event_add env ev tv L =
     (case ev of
        None \<Rightarrow> Some (- 1, L)
      | Some n \<Rightarrow>
          if \<not> ev_base (ev_of n L) then Some (- 1, L)
          else
            map_option (\<lambda>L. (0, upd_ev n (\<lambda>e. e\<lparr>ev_flags := ev_flags e OR EVLIST_ACTIVE\<rparr>) (add_timeout n tv L)))
              (add_iosig env n L))"

definition event_del :: "'o libevent env \<Rightarrow> nat option \<Rightarrow> 'o xloop \<Rightarrow> int \<times> 'o xloop" where
  "event_del env ev L =
     (case ev of
        None \<Rightarrow> (0, L)
      | Some n \<Rightarrow>
          if \<not> ev_base (ev_of n L) then (0, L)
          else
            let L = (if events_of n L AND EV_SIGNAL \<noteq> 0 then ev_signal_stop env (iosig n L) L else ev_io_stop (iosig n L) L);
                L = ev_timer_stop (EventTo n) L
            in (0, upd_ev n (\<lambda>e. e\<lparr>ev_flags := EVLIST_INIT\<rparr>) L))"

definition event_active :: "nat option \<Rightarrow> u32 \<Rightarrow> 'o xloop \<Rightarrow> 'o xloop" where
  "event_active ev res L =
     (case ev of
        None \<Rightarrow> L
      | Some n \<Rightarrow>
          if \<not> ev_base (ev_of n L) then L
          else
            let L = (if res AND EV_TIMEOUT \<noteq> 0 then ev_feed_event (EventTo n) (res AND EV_TIMEOUT) L else L);
                L = (if res AND EV_SIGNAL \<noteq> 0 then ev_feed_event (iosig n L) (res AND EV_SIGNAL) L else L)
            in if res AND (EV_READ OR EV_WRITE) \<noteq> 0 then ev_feed_event (iosig n L) (res AND (EV_READ OR EV_WRITE)) L else L)"

text \<open>The result, and what is stored through \<^verbatim>\<open>tv\<close> when it is not null (\<open>want_tv\<close>).\<close>

definition event_pending :: "nat option \<Rightarrow> u16 \<Rightarrow> bool \<Rightarrow> 'o xloop \<Rightarrow> u16 \<times> timeval option" where
  "event_pending ev events want_tv L =
     (let requested = events AND ucast (EV_TIMEOUT OR EV_READ OR EV_WRITE OR EV_SIGNAL) in
      case ev of
        None \<Rightarrow> (0, None)
      | Some n \<Rightarrow>
          if \<not> ev_base (ev_of n L) then (0, None)
          else
            let used = (\<lambda>w. ev_is_active w L \<or> ev_is_pending w L);
                revents =
                  (if events_of n L AND EV_SIGNAL \<noteq> 0 then if used (iosig n L) then ucast EV_SIGNAL else 0
                   else if events_of n L AND (EV_READ OR EV_WRITE) \<noteq> 0
                   then if used (iosig n L) then ev_events (ev_of n L) AND ucast (EV_READ OR EV_WRITE) else 0
                   else 0)
            in if used (EventTo n) then
                 (requested AND (revents OR ucast EV_TIMEOUT),
                  if want_tv \<and> requested AND ucast EV_TIMEOUT \<noteq> 0 then
                    let t = ev_now L;
                        t = (if ev_is_active (EventTo n) L then fadd t (ev_timer_remaining (EventTo n) L) else t)
                    in Some (ev_tv_set t)
                  else None)
               else (requested AND revents, None))"

definition event_priority_set :: "nat option \<Rightarrow> int \<Rightarrow> 'o xloop \<Rightarrow> int \<times> 'o xloop" where
  "event_priority_set ev pri L = (case ev of None \<Rightarrow> (- 1, L) | Some n \<Rightarrow> (0, upd_ev n (\<lambda>e. e\<lparr>ev_pri := pri\<rparr>) L))"

definition event_base_set :: "bool \<Rightarrow> nat option \<Rightarrow> 'o xloop \<Rightarrow> int \<times> 'o xloop" where
  "event_base_set base ev L = (case ev of None \<Rightarrow> (- 1, L) | Some n \<Rightarrow> (0, upd_ev n (\<lambda>e. e\<lparr>ev_base := base\<rparr>) L))"

definition event_base_priority_init :: "bool \<Rightarrow> int \<Rightarrow> int" where
  "event_base_priority_init base npri = 0"

definition event_priority_init :: "int \<Rightarrow> 'o xloop \<Rightarrow> int" where
  "event_priority_init npri L = (if lv_cur (os L) then event_base_priority_init True npri else - 1)"

subsection \<open>Callbacks\<close>

definition ev_x_cb :: "'o xcb \<Rightarrow> nat \<Rightarrow> u32 \<Rightarrow> 'o xloop \<Rightarrow> 'o xloop option" where
  "ev_x_cb xcb n revents L =
     (let revents = revents AND (EV_READ OR EV_WRITE OR EV_TIMER OR EV_SIGNAL);
          L = upd_ev n (\<lambda>e. e\<lparr>ev_res := revents\<rparr>) L
      in case ev_callback (ev_of n L) of
           None \<Rightarrow> Some (chk False L)
         | Some cb \<Rightarrow> xcb cb (ev_fd (ev_of n L)) (ucast revents) (ev_arg (ev_of n L)) L)"

definition ev_x_cb_sig :: "'o xcb \<Rightarrow> 'o libevent env \<Rightarrow> nat \<Rightarrow> u32 \<Rightarrow> 'o xloop \<Rightarrow> 'o xloop option" where
  "ev_x_cb_sig xcb env n revents L =
     ev_x_cb xcb n revents (if revents AND EV_ERROR \<noteq> 0 then snd (event_del env (Some n) L) else L)"

definition ev_x_cb_io :: "'o xcb \<Rightarrow> 'o libevent env \<Rightarrow> nat \<Rightarrow> u32 \<Rightarrow> 'o xloop \<Rightarrow> 'o xloop option" where
  "ev_x_cb_io xcb env n revents L =
     ev_x_cb xcb n revents
       (if revents AND EV_ERROR \<noteq> 0 \<or> events_of n L AND EV_PERSIST = 0 then snd (event_del env (Some n) L) else L)"

definition ev_x_cb_to :: "'o xcb \<Rightarrow> 'o libevent env \<Rightarrow> nat \<Rightarrow> u32 \<Rightarrow> 'o xloop \<Rightarrow> 'o xloop option" where
  "ev_x_cb_to xcb env n revents L = ev_x_cb xcb n revents (snd (event_del env (Some n) L))"

text \<open>\<^verbatim>\<open>EV_CONTAINER_OF\<close> on the members of \<^verbatim>\<open>struct event\<close>.\<close>

fun event_of :: "W \<Rightarrow> nat option" where
  "event_of (EventIo n) = Some n"
| "event_of (EventSig n) = Some n"
| "event_of (EventTo n) = Some n"
| "event_of _ = None"

definition ev_x_loopexit_cb :: "'o xloop \<Rightarrow> 'o xloop" where
  "ev_x_loopexit_cb L = ev_break EVBREAK_ONE L"

text \<open>\<^verbatim>\<open>free (once)\<close>: freeing what is not allocated clears \<open>ok\<close>.\<close>

definition x_once_free :: "nat \<Rightarrow> 'o xloop \<Rightarrow> 'o xloop" where
  "x_once_free k L =
     (let L = chk (lv_onces (os L) k \<noteq> None) L in L\<lparr>os := (os L)\<lparr>lv_onces := (lv_onces (os L))(k := None)\<rparr>\<rparr>)"

definition ev_x_once_cb :: "'o xcb \<Rightarrow> nat \<Rightarrow> u32 \<Rightarrow> 'o xloop \<Rightarrow> 'o xloop option" where
  "ev_x_once_cb xcb k revents L =
     (case lv_onces (os L) k of
        None \<Rightarrow> Some (chk False L)
      | Some x \<Rightarrow>
          (case xo_cb x of
             None \<Rightarrow> Some (x_once_free k L)
           | Some cb \<Rightarrow> map_option (x_once_free k) (xcb cb (xo_fd x) (ucast revents) (xo_arg x) L)))"

text \<open>
  The environment of a loop that runs this emulation: its callbacks join those the loop dispatches. The callbacks
  handed to \<^verbatim>\<open>ev_once\<close> are numbered: \<open>0\<close> is \<^verbatim>\<open>ev_x_loopexit_cb\<close>, \<open>2 * k + 1\<close> is \<^verbatim>\<open>ev_x_once_cb\<close> with argument \<open>k\<close>,
  \<open>2 * k + 2\<close> the user's own \<open>k\<close>.
\<close>

definition event_env :: "'o xcb \<Rightarrow> 'o libevent env \<Rightarrow> 'o libevent env" where
  "event_env xcb env = env\<lparr>
     env_backend_cb := \<lambda>cb w revents L.
       (case event_of w of
          None \<Rightarrow> env_backend_cb env cb w revents L
        | Some n \<Rightarrow>
            (case cb of
               EventCbSig \<Rightarrow> ev_x_cb_sig xcb env n revents L
             | EventCbIo \<Rightarrow> ev_x_cb_io xcb env n revents L
             | EventCbTo \<Rightarrow> ev_x_cb_to xcb env n revents L
             | _ \<Rightarrow> env_backend_cb env cb w revents L)),
     env_once_cb := \<lambda>c revents L.
       if c = 0 then Some (ev_x_loopexit_cb L)
       else if odd c then ev_x_once_cb xcb (c div 2) revents L
       else env_once_cb env (c div 2 - 1) revents L\<rparr>"

subsection \<open>Bases\<close>

definition event_init :: "config \<Rightarrow> 'o libevent env \<Rightarrow> bool \<times> 'o xloop \<Rightarrow> (bool \<times> 'o xloop) option" where
  "event_init c env D =
     (if lv_cur (os (snd D)) then Some D
      else map_option (\<lambda>(ptr, L). (ptr, L\<lparr>os := (os L)\<lparr>lv_cur := ptr\<rparr>\<rparr>)) (ev_default_loop c env 0 D))"

definition event_base_new :: "config \<Rightarrow> 'o libevent env \<Rightarrow> 'o libevent \<Rightarrow> 'o xloop option" where
  "event_base_new c env s = ev_loop_new c env 0 s"

definition event_base_free :: "'o libevent env \<Rightarrow> bool \<Rightarrow> 'o xloop \<Rightarrow> 'o xloop option" where
  "event_base_free env base L = (if \<not> base \<or> env_default_loop env then Some L else ev_loop_destroy env L)"

definition event_base_loop :: "'o xcb \<Rightarrow> 'o libevent env \<Rightarrow> bool \<Rightarrow> u32 \<Rightarrow> 'o xloop \<Rightarrow> (int \<times> 'o xloop) option" where
  "event_base_loop xcb env base flags L =
     (if \<not> base then Some (- 1, L)
      else map_option (\<lambda>(n, L). (if n = 0 then 1 else 0, L)) (ev_run (event_env xcb env) flags L))"

definition event_base_dispatch :: "'o xcb \<Rightarrow> 'o libevent env \<Rightarrow> bool \<Rightarrow> 'o xloop \<Rightarrow> (int \<times> 'o xloop) option" where
  "event_base_dispatch xcb env base L = event_base_loop xcb env base 0 L"

definition event_dispatch :: "'o xcb \<Rightarrow> 'o libevent env \<Rightarrow> 'o xloop \<Rightarrow> (int \<times> 'o xloop) option" where
  "event_dispatch xcb env L = (if \<not> lv_cur (os L) then Some (- 1, L) else event_base_dispatch xcb env True L)"

definition event_loop :: "'o xcb \<Rightarrow> 'o libevent env \<Rightarrow> u32 \<Rightarrow> 'o xloop \<Rightarrow> (int \<times> 'o xloop) option" where
  "event_loop xcb env flags L = (if \<not> lv_cur (os L) then Some (- 1, L) else event_base_loop xcb env True flags L)"

definition event_base_loopexit :: "bool \<Rightarrow> timeval option \<Rightarrow> 'o xloop \<Rightarrow> int \<times> 'o xloop" where
  "event_base_loopexit base tv L =
     (let after = ev_tv_get tv in
      if \<not> base then (- 1, L) else (0, ev_once (- 1) 0 (if after \<ge> 0 then after else 0) (Some 0) L))"

definition event_loopexit :: "timeval option \<Rightarrow> 'o xloop \<Rightarrow> int \<times> 'o xloop" where
  "event_loopexit tv L = (if \<not> lv_cur (os L) then (- 1, L) else event_base_loopexit True tv L)"

text \<open>\<^verbatim>\<open>malloc\<close> may fail.\<close>

definition event_base_once :: "bool \<Rightarrow> bool \<Rightarrow> int \<Rightarrow> u16 \<Rightarrow> nat option \<Rightarrow> nat \<Rightarrow> timeval option \<Rightarrow> 'o xloop \<Rightarrow> int \<times> 'o xloop" where
  "event_base_once malloc_ok base fd events cb arg tv L =
     (let io_events = events AND ucast (EV_READ OR EV_WRITE);
          timeout = (if tv \<noteq> None then ev_tv_get tv
                     else if events AND ucast EV_TIMEOUT \<noteq> 0 \<and> io_events = 0 then 0 else - 1)
      in if \<not> base \<or> cb = None then (- 1, L)
         else if (fd < 0 \<or> io_events = 0) \<and> timeout < 0 then (- 1, L)
         else if \<not> malloc_ok then (- 1, L)
         else
           let k = lv_next (os L);
               L = L\<lparr>os := (os L)\<lparr>lv_next := k + 1, lv_onces := (lv_onces (os L))(k \<mapsto> \<lparr>xo_fd = fd, xo_cb = cb, xo_arg = arg\<rparr>)\<rparr>\<rparr>
           in (0, ev_once fd (scast io_events) timeout (Some (2 * k + 1)) L))"

definition event_once :: "bool \<Rightarrow> int \<Rightarrow> u16 \<Rightarrow> nat option \<Rightarrow> nat \<Rightarrow> timeval option \<Rightarrow> 'o xloop \<Rightarrow> int \<times> 'o xloop" where
  "event_once malloc_ok fd events cb arg tv L =
     (if \<not> lv_cur (os L) \<or> cb = None then (- 1, L) else event_base_once malloc_ok True fd events cb arg tv L)"

end
