(* ===== verification/Event_Spec.thy ===== *)
theory Event_Spec
  imports Event
begin

section \<open>Removing a libevent event\<close>

text \<open>
  \<^verbatim>\<open>event_del\<close> takes an event out of the loop completely: both of its watchers, and what was pending on them. The signal
  half rests on \<open>signal_stop_loop\<close>, which says that \<^verbatim>\<open>ev_signal_stop\<close> keeps the invariant of the whole loop.
\<close>

subsection \<open>Stopping a signal watcher\<close>

definition sig_args :: "W \<Rightarrow> 'w ev_loop \<Rightarrow> bool" where
  "sig_args w L \<longleftrightarrow> 0 < w_signum (ws L w) \<and> w_signum (ws L w) < int EV_NSIG"

text \<open>All that \<^verbatim>\<open>ev_signal_stop\<close> leaves behind, apart from the signal table and the outside.\<close>

lemma signal_stop_fields:
  fixes env :: "'w env"
  assumes "pend_inv L" "active (ws L w) \<noteq> 0 \<longrightarrow> sig_args w L"
  defines "L' \<equiv> ev_signal_stop env w L"
  shows "ws L' = (ws L)(w := (ws L w)\<lparr>pending := 0, active := 0\<rparr>)" "ok L' = ok L" "settled L' = settled L"
    "others_same KSignal L L'" "pend_inv L'" "pend_of L' = (pend_of L)(w := None)"
proof -
  let ?M = "clear_pending w L"
  have i: "active (ws L w) \<noteq> 0 \<Longrightarrow> sig_idx (w_signum (ws L w)) < EV_NSIG - 1" using assms(2) by (auto simp: sig_args_def sig_idx_def)
  have p: "(ws L w)\<lparr>pending := 0\<rparr> = (ws L w)\<lparr>pending := 0, active := 0\<rparr>" if "active (ws L w) = 0" using that by simp
  show W: "ws L' = (ws L)(w := (ws L w)\<lparr>pending := 0, active := 0\<rparr>)"
  proof (cases "active (ws L w) = 0")
    case True
    then have "ws L' = ws ?M" by (simp add: L'_def ev_signal_stop_def)
    then show ?thesis unfolding clear_w by (rule trans) (rule arg_cong[OF p[OF True]])
  qed (simp add: L'_def ev_signal_stop_def Let_def base_defs upd_sig_def clear_w)
  show "ok L' = ok L" using i clear_ok[OF assms(1), of w] by (simp add: L'_def ev_signal_stop_def Let_def base_defs upd_sig_def)
  show "settled L' = settled L" "others_same KSignal L L'"
    by (simp_all add: L'_def ev_signal_stop_def Let_def base_defs upd_sig_def frame_defs settled_def)
  have f: "pendings L' = pendings ?M" "pendingcnt L' = pendingcnt ?M" "pendingmax L' = pendingmax ?M"
    by (simp_all add: L'_def ev_signal_stop_def Let_def base_defs upd_sig_def)
  have "pending (ws L' v) = pending (ws ?M v)" "priority (ws L' v) = priority (ws ?M v)" for v by (simp_all add: W)
  then show "pend_inv L'" "pend_of L' = (pend_of L)(w := None)"
    using pend_cong[of L' ?M, OF f] clear_inv[OF assms(1), of w] clear_pend_of[OF assms(1), of w] by simp_all
qed

lemma signal_stop_loop:
  assumes "loop_inv L" "kind w = KSignal" "active (ws L w) \<noteq> 0 \<longrightarrow> sig_args w L"
  shows "keeps L (ev_signal_stop env w L)"
proof -
  note k = signal_stop_fields[OF loop_invD(1)[OF assms(1)] assms(3), of env]
  show ?thesis by (intro keepsI[OF assms(1) k(5,2) _ k(4), where w = w]) (use k(3) assms(2) in \<open>auto simp: k(1) own_inv_def\<close>)
qed

subsection \<open>The table of signal watchers\<close>

text \<open>
  The lists of the signals this loop listens to hold its active signal watchers, each once and under its own number.
  (Entries that belong to another loop are not this loop's to read.)
\<close>

definition sig_table :: "'w ev_loop \<Rightarrow> bool" where
  "sig_table L \<longleftrightarrow>
     (\<forall>i. sg_loop (signals L i) = ThisLoop \<longrightarrow> distinct (sg_head (signals L i)) \<and>
        (\<forall>v \<in> set (sg_head (signals L i)). kind v = KSignal \<and> active (ws L v) \<noteq> 0 \<and> sig_idx (w_signum (ws L v)) = i)) \<and>
     (\<forall>v. kind v = KSignal \<and> active (ws L v) \<noteq> 0 \<longrightarrow> sig_args v L \<and>
        sg_loop (signals L (sig_idx (w_signum (ws L v)))) = ThisLoop \<and> v \<in> set (sg_head (signals L (sig_idx (w_signum (ws L v))))))"

lemma sig_tableD:
  assumes "sig_table L"
  shows "sg_loop (signals L i) = ThisLoop \<Longrightarrow> distinct (sg_head (signals L i))"
    "sg_loop (signals L i) = ThisLoop \<Longrightarrow> v \<in> set (sg_head (signals L i)) \<Longrightarrow> kind v = KSignal \<and> active (ws L v) \<noteq> 0 \<and> sig_idx (w_signum (ws L v)) = i"
    "kind v = KSignal \<Longrightarrow> active (ws L v) \<noteq> 0 \<Longrightarrow> sig_args v L \<and> sg_loop (signals L (sig_idx (w_signum (ws L v)))) = ThisLoop \<and>
      v \<in> set (sg_head (signals L (sig_idx (w_signum (ws L v)))))"
  using assms unfolding sig_table_def by blast+

lemma sig_table_cong:
  assumes "sig_table L" "signals L' = signals L"
    "\<And>v. kind v = KSignal \<Longrightarrow> active (ws L' v) = active (ws L v) \<and> w_signum (ws L' v) = w_signum (ws L v)"
  shows "sig_table L'"
  unfolding sig_table_def assms(2)
proof (intro conjI allI impI ballI)
  fix v i assume a: "sg_loop (signals L i) = ThisLoop" "v \<in> set (sg_head (signals L i))"
  note d = sig_tableD(2)[OF assms(1) a]
  show "kind v = KSignal" "active (ws L' v) \<noteq> 0" "sig_idx (w_signum (ws L' v)) = i" using d assms(3)[of v] by auto
next
  fix v assume v: "kind v = KSignal \<and> active (ws L' v) \<noteq> 0"
  then have w: "active (ws L v) \<noteq> 0" "w_signum (ws L' v) = w_signum (ws L v)" using assms(3)[of v] by auto
  note d = sig_tableD(3)[OF assms(1) conjunct1[OF v] w(1)]
  show "sig_args v L'" "sg_loop (signals L (sig_idx (w_signum (ws L' v)))) = ThisLoop"
    "v \<in> set (sg_head (signals L (sig_idx (w_signum (ws L' v)))))" using d w(2) by (auto simp: sig_args_def)
qed (use sig_tableD(1)[OF assms(1)] in blast)

text \<open>\<^verbatim>\<open>ev_signal_stop\<close> deletes its watcher from the table and nothing else.\<close>

lemma signal_stop_table:
  fixes env :: "'w env"
  assumes T: "sig_table L" and P: "pend_inv L" and w: "kind w = KSignal"
  defines "L' \<equiv> ev_signal_stop env w L"
  shows "sig_table L'"
    "sg_loop (signals L i) = ThisLoop \<Longrightarrow> sg_head (signals L' i) = filter (\<lambda>v. v \<noteq> w) (sg_head (signals L i))"
    "sg_loop (signals L i) \<noteq> ThisLoop \<Longrightarrow> signals L' i = signals L i"
proof -
  have a: "active (ws L w) \<noteq> 0 \<longrightarrow> sig_args w L" using sig_tableD(3)[OF T w] by blast
  have W: "ws L' = (ws L)(w := (ws L w)\<lparr>pending := 0, active := 0\<rparr>)" unfolding L'_def by (rule signal_stop_fields(1)[OF P a])
  have "sig_table L' \<and> (sg_loop (signals L i) = ThisLoop \<longrightarrow> sg_head (signals L' i) = filter (\<lambda>v. v \<noteq> w) (sg_head (signals L i))) \<and>
    (sg_loop (signals L i) \<noteq> ThisLoop \<longrightarrow> signals L' i = signals L i)" for i
  proof (cases "active (ws L w) = 0")
    case True
    then have s: "signals L' = signals L" by (simp add: L'_def ev_signal_stop_def)
    have "sig_table L'" by (rule sig_table_cong[OF T s]) (use True in \<open>simp add: W\<close>)
    moreover have "filter (\<lambda>v. v \<noteq> w) (sg_head (signals L i)) = sg_head (signals L i)" if "sg_loop (signals L i) = ThisLoop"
      using sig_tableD(2)[OF T that, of w] True by (auto simp: filter_id_conv)
    ultimately show ?thesis by (simp add: s)
  next
    case False
    define k where "k = sig_idx (w_signum (ws L w))"
    note m = sig_tableD(3)[OF T w False, folded k_def]
    define g where "g = (signals L k)\<lparr>sg_head := remove1 w (sg_head (signals L k))\<rparr>"
    have s: "signals L' = (signals L)(k := if sg_head g = [] then g\<lparr>sg_loop := NoLoop\<rparr> else g)"
      using False by (simp add: L'_def ev_signal_stop_def Let_def base_defs upd_sig_def k_def[symmetric] g_def fun_upd_idem_iff)
    have n: "(\<noteq>) w = (\<lambda>v. v \<noteq> w)" by auto
    have h: "sg_head g = filter (\<lambda>v. v \<noteq> w) (sg_head (signals L k))" "sg_loop g = ThisLoop"
      using sig_tableD(1)[OF T, of k] m by (simp_all add: g_def distinct_remove1_removeAll removeAll_filter_not_eq n)
    have f: "filter (\<lambda>v. v \<noteq> w) (sg_head (signals L j)) = sg_head (signals L j)" if "sg_loop (signals L j) = ThisLoop" "j \<noteq> k" for j
      using sig_tableD(2)[OF T that(1), of w] that(2) by (auto simp: filter_id_conv k_def)
    have hd: "sg_head (signals L' j) = filter (\<lambda>v. v \<noteq> w) (sg_head (signals L j))" if "sg_loop (signals L j) = ThisLoop" for j
      using f[OF that] h by (simp add: s)
    have lp: "sg_loop (signals L' j) = ThisLoop \<Longrightarrow> sg_loop (signals L j) = ThisLoop" for j
      using m by (auto simp: s split: if_splits)
    have "sig_table L'"
      unfolding sig_table_def
    proof (intro conjI allI impI ballI)
      fix j assume j: "sg_loop (signals L' j) = ThisLoop"
      show "distinct (sg_head (signals L' j))" unfolding hd[OF lp[OF j]] by (rule distinct_filter[OF sig_tableD(1)[OF T lp[OF j]]])
      fix v assume "v \<in> set (sg_head (signals L' j))"
      then have v: "v \<noteq> w" "v \<in> set (sg_head (signals L j))" unfolding hd[OF lp[OF j]] by auto
      show "kind v = KSignal" "active (ws L' v) \<noteq> 0" "sig_idx (w_signum (ws L' v)) = j"
        using sig_tableD(2)[OF T lp[OF j] v(2)] v(1) by (simp_all add: W)
    next
      fix v assume v: "kind v = KSignal \<and> active (ws L' v) \<noteq> 0"
      then have ne: "v \<noteq> w" by (auto simp: W)
      then have d: "sig_args v L" "sg_loop (signals L (sig_idx (w_signum (ws L v)))) = ThisLoop"
        "v \<in> set (sg_head (signals L (sig_idx (w_signum (ws L v)))))"
        using sig_tableD(3)[OF T conjunct1[OF v]] v by (auto simp: W)
      have wv: "w_signum (ws L' v) = w_signum (ws L v)" using ne by (simp add: W)
      have mem: "v \<in> set (sg_head (signals L' (sig_idx (w_signum (ws L v)))))" unfolding hd[OF d(2)] using d(3) ne by simp
      show "sig_args v L'" using d(1) wv by (simp add: sig_args_def)
      show "v \<in> set (sg_head (signals L' (sig_idx (w_signum (ws L' v)))))" using mem wv by simp
      show "sg_loop (signals L' (sig_idx (w_signum (ws L' v)))) = ThisLoop"
        unfolding wv using mem d(2) h(2) by (auto simp: s split: if_splits)
    qed
    then show ?thesis using hd[of i] m by (auto simp: s)
  qed
  then show "sig_table L'"
    "sg_loop (signals L i) = ThisLoop \<Longrightarrow> sg_head (signals L' i) = filter (\<lambda>v. v \<noteq> w) (sg_head (signals L i))"
    "sg_loop (signals L i) \<noteq> ThisLoop \<Longrightarrow> signals L' i = signals L i" by blast+
qed

subsection \<open>Events\<close>

text \<open>The system calls of \<^verbatim>\<open>ev_signal_stop\<close> do not touch the program's events.\<close>

definition sig_calls_local :: "'o libevent env \<Rightarrow> bool" where
  "sig_calls_local env \<longleftrightarrow>
     (\<forall>b fd S s. lv_events (snd (env_signalfd env b fd S s)) = lv_events s) \<and>
     (\<forall>b S s. lv_events (env_sigmask env b S s) = lv_events s) \<and>
     (\<forall>i b s. lv_events (env_sigaction env i b s) = lv_events s)"

lemma loop_inv_os [simp]: "loop_inv (L\<lparr>os := s\<rparr>) = loop_inv L"
  by (simp add: loop_inv_def periodics_inv_def idle_inv_def family_ok_def)

lemma upd_ev_other [simp]:
  "loop_inv (upd_ev n f L) = loop_inv L" "ok (upd_ev n f L) = ok L" "ws (upd_ev n f L) = ws L" "pend_of (upd_ev n f L) = pend_of L"
  "ev_of m (upd_ev n f L) = (if m = n then f (ev_of n L) else ev_of m L)"
  by (simp_all add: upd_ev_def ev_of_def)

lemma stops_keep_events:
  "ev_of n (ev_timer_stop w L) = ev_of n L" "ev_of n (ev_io_stop w L) = ev_of n L"
  "sig_calls_local env \<Longrightarrow> ev_of n (ev_signal_stop env w L) = ev_of n L"
  by (simp_all add: ev_of_def ev_timer_stop_def ev_io_stop_def ev_signal_stop_def Let_def base_defs put_timers_def upd_fd_def fd_change_def
      upd_sig_def sig_calls_local_def)

lemma feed_keeps_events [simp]: "ev_of n (ev_feed_event w r L) = ev_of n L"
  by (simp add: ev_of_def)

lemma iosig_kind: "kind (iosig n L) = (if events_of n L AND EV_SIGNAL \<noteq> 0 then KSignal else KIo)"
  by (simp add: iosig_def)

text \<open>The half of \<^verbatim>\<open>event_del\<close> that stops \<^verbatim>\<open>iosig\<close>.\<close>

lemma iosig_stop:
  fixes env :: "'o libevent env" and n :: nat
  assumes I: "loop_inv L" and T: "sig_table L" and loc: "sig_calls_local env"
  defines "L' \<equiv> if events_of n L AND EV_SIGNAL \<noteq> 0 then ev_signal_stop env (iosig n L) L else ev_io_stop (iosig n L) L"
  shows "keeps L L'" "active (ws L' (iosig n L)) = 0" "pend_of L' = (pend_of L)(iosig n L := None)" "ev_of m L' = ev_of m L"
    "sig_table L'" "sg_loop (signals L i) = ThisLoop \<Longrightarrow> sg_head (signals L' i) = filter (\<lambda>v. v \<noteq> iosig n L) (sg_head (signals L i))"
    "v \<noteq> iosig n L \<Longrightarrow> ws L' v = ws L v"
proof -
  show "ev_of m L' = ev_of m L" by (simp add: L'_def stops_keep_events loc)
  have a: "active (ws L (EventSig n)) \<noteq> 0 \<longrightarrow> sig_args (EventSig n) L" using sig_tableD(3)[OF T, of "EventSig n"] by simp
  show "ws L' v = ws L v" if "v \<noteq> iosig n L"
    using that signal_stop_fields(1)[OF loop_invD(1)[OF I] a, of env] io_stop_inv(5)[OF loop_invD(3,1)[OF I], of "EventIo n" v]
    by (cases "events_of n L AND EV_SIGNAL \<noteq> 0") (auto simp: L'_def iosig_def)
  show "keeps L L'" "active (ws L' (iosig n L)) = 0" "pend_of L' = (pend_of L)(iosig n L := None)"
    using signal_stop_loop[OF I _ a, of env] signal_stop_fields[OF loop_invD(1)[OF I] a, of env]
      io_stop_loop[OF I, of "EventIo n"] io_stop_inv[OF loop_invD(3,1)[OF I], of "EventIo n"]
    by (simp_all add: L'_def iosig_def)
  have "sig_table L' \<and> (sg_loop (signals L i) = ThisLoop \<longrightarrow> sg_head (signals L' i) = filter (\<lambda>v. v \<noteq> iosig n L) (sg_head (signals L i)))"
  proof (cases "events_of n L AND EV_SIGNAL \<noteq> 0")
    case True
    then have e: "L' = ev_signal_stop env (EventSig n) L" "iosig n L = EventSig n" by (simp_all add: L'_def iosig_def)
    show ?thesis unfolding e using signal_stop_table(1,2)[OF T loop_invD(1)[OF I], where w = "EventSig n" and env = env] by simp
  next
    case False
    then have e: "L' = ev_io_stop (EventIo n) L" "iosig n L = EventIo n" by (simp_all add: L'_def iosig_def)
    have g: "signals L' = signals L" by (simp add: e ev_io_stop_def Let_def base_defs upd_fd_def fd_change_def)
    have o: "ws L' v = ws L v" if "kind v = KSignal" for v
      unfolding e using io_stop_inv(5)[OF loop_invD(3,1)[OF I], of "EventIo n" v] that by (cases v) auto
    have "sig_table L'" by (rule sig_table_cong[OF T g]) (simp add: o)
    moreover have "filter (\<lambda>v. v \<noteq> EventIo n) (sg_head (signals L i)) = sg_head (signals L i)" if "sg_loop (signals L i) = ThisLoop"
      using sig_tableD(2)[OF T that, of "EventIo n"] by (auto simp: filter_id_conv)
    ultimately show ?thesis unfolding e(2) g by simp
  qed
  then show "sig_table L'" "sg_loop (signals L i) = ThisLoop \<Longrightarrow> sg_head (signals L' i) = filter (\<lambda>v. v \<noteq> iosig n L) (sg_head (signals L i))"
    by blast+
qed

text \<open>What is left of an event in the loop's tables, and of everything else.\<close>

definition event_gone :: "nat \<Rightarrow> 'o xloop \<Rightarrow> 'o xloop \<Rightarrow> bool" where
  "event_gone n L L' \<longleftrightarrow>
     active (ws L' (iosig n L)) = 0 \<and> active (ws L' (EventTo n)) = 0 \<and>
     (\<forall>i. sg_loop (signals L i) = ThisLoop \<longrightarrow> sg_head (signals L' i) = filter (\<lambda>v. v \<noteq> iosig n L) (sg_head (signals L i))) \<and>
     (\<forall>fd. fd_in fd L' \<longrightarrow> iosig n L \<notin> set (anfd_head (anfds L' fd))) \<and>
     timer_map L' = (timer_map L)(EventTo n := None) \<and>
     pend_of L' = (pend_of L)(iosig n L := None, EventTo n := None) \<and>
     (\<forall>v. kind v \<noteq> KTimer \<and> v \<noteq> iosig n L \<longrightarrow> ws L' v = ws L v)"

lemma upd_ev_tables [simp]:
  "sig_table (upd_ev n f L) = sig_table L" "signals (upd_ev n f L) = signals L" "anfds (upd_ev n f L) = anfds L"
  "fd_in fd (upd_ev n f L) = fd_in fd L"
  by (simp_all add: upd_ev_def sig_table_def sig_args_def fd_in_def)

lemma del_removes:
  fixes env :: "'o libevent env"
  assumes "loop_inv L" "sig_table L" "ev_base (ev_of n L)" "sig_calls_local env"
  shows "\<exists>L'. event_del env (Some n) L = (0, L') \<and> loop_inv L' \<and> sig_table L' \<and> ok L' = ok L \<and> event_gone n L L' \<and>
    ev_of n L' = (ev_of n L)\<lparr>ev_flags := EVLIST_INIT\<rparr>"
proof -
  define M where "M = (if events_of n L AND EV_SIGNAL \<noteq> 0 then ev_signal_stop env (iosig n L) L else ev_io_stop (iosig n L) L)"
  note m = iosig_stop[OF assms(1,2,4), where n = n, folded M_def]
  have I: "loop_inv M" "ok M = ok L" using m(1) by (simp_all add: keeps_def)
  note t = timer_stop_loop[OF I(1), of "EventTo n"] timer_stop_inv[OF loop_invD(1,4)[OF I(1)], of "EventTo n"]
  define T where "T = ev_timer_stop (EventTo n) M"
  have a: "active (ws T (EventTo n)) = 0" using timer_active_iff[of "EventTo n" T] t(5) by (simp add: T_def)
  have k: "kind (iosig n L) \<noteq> KTimer" by (simp add: iosig_kind)
  then have b: "active (ws T (iosig n L)) = 0" using t(7) m(2) by (simp add: T_def)
  have J: "loop_inv T" using t(1) by (simp add: keeps_def T_def)
  have s: "signals T = signals M" by (simp add: T_def ev_timer_stop_def Let_def base_defs put_timers_def)
  have tab: "sig_table T" by (rule sig_table_cong[OF m(5) s]) (simp add: T_def t(7))
  have "deadlines KTimer (ws M) v = deadlines KTimer (ws L) v" for v
    using m(7)[of v] k by (cases "v = iosig n L") (simp_all add: deadlines_def)
  then have "timer_map M = timer_map L" by blast
  then have map: "timer_map T = (timer_map L)(EventTo n := None)" using t(5) by (simp add: T_def)
  have fd: "iosig n L \<notin> set (anfd_head (anfds T i))" if "fd_in i T" for i
    using fd_listsD(2)[OF loop_invD(3)[OF J, unfolded fd_inv_def, THEN conjunct1], of i "iosig n L"] b that by (auto simp: fd_in_def)
  have "event_gone n L T"
    using a b map fd m(3,6,7) t(4,7) by (auto simp: event_gone_def T_def s[unfolded T_def])
  then have "event_gone n L (upd_ev n f T)" for f by (simp add: event_gone_def)
  moreover have "event_del env (Some n) L = (0, upd_ev n (\<lambda>e. e\<lparr>ev_flags := EVLIST_INIT\<rparr>) T)"
    using assms(3) by (simp add: event_del_def M_def[symmetric] T_def[symmetric] Let_def)
  moreover have "ok T = ok L" "ev_of n T = ev_of n L" using t I(2) m(4) by (simp_all add: T_def stops_keep_events)
  ultimately show ?thesis using J tab by simp
qed

lemma not_pending: "pend_of L w = None \<Longrightarrow> pending (ws L w) = 0"
  by (auto simp: pend_of_def split: if_splits)

subsection \<open>Times\<close>

text \<open>
  \<^verbatim>\<open>ev_tv_set\<close> yields a proper \<^verbatim>\<open>struct timeval\<close> for every double whose seconds fit a double's integers: the two
  corrections cover a fraction that rounds up to a full second and negative times.
\<close>

lemma trunc_long_frac: "of_int (trunc_long x) - x \<le> 0 \<and> x - of_int (trunc_long x) < 1" if "0 \<le> x"
  using that by (simp add: trunc_long_def) linarith

lemma trunc_long_neg: "0 \<le> of_int (trunc_long x) - x \<and> of_int (trunc_long x) - x < 1" if "x \<le> 0"
  using that by (cases "x = 0") (auto simp: trunc_long_def, linarith+)

lemma trunc_long_bounds: "- 1000000 \<le> trunc_long y \<and> trunc_long y \<le> 1000000" if "- 1000000 \<le> y" "y \<le> 1000000"
  using that unfolding trunc_long_def by (split if_split) linarith

lemma ev_tv_set_usec:
  assumes "\<bar>trunc_long t\<bar> \<le> 2 ^ 53"
  shows "0 \<le> tv_usec (ev_tv_set t) \<and> tv_usec (ev_tv_set t) < 1000000"
proof -
  let ?s = "trunc_long t" let ?d = "fsub t (rnd64 (of_int ?s))"
  have r: "rnd64 (of_int ?s) = of_int ?s" using assms by (intro rnd64_id is_f64_of_int)
  have "- 1 \<le> t - of_int ?s \<and> t - of_int ?s \<le> 1" using trunc_long_frac[of t] trunc_long_neg[of t] by (cases "0 \<le> t") auto
  then have "- 1 \<le> ?d \<and> ?d \<le> 1"
    using rnd64_mono[of "- 1" "t - of_int ?s"] rnd64_mono[of "t - of_int ?s" 1] rnd64_id[OF is_f64_of_int[of "- 1"]] by (simp add: fsub_def r)
  then have "- 1000000 \<le> fmul ?d 1000000 \<and> fmul ?d 1000000 \<le> 1000000"
    using rnd64_mono[of "- 1000000" "?d * 1000000"] rnd64_mono[of "?d * 1000000" 1000000] by (simp add: fmul_def)
  then show ?thesis using trunc_long_bounds[of "fmul ?d 1000000"] by (simp add: ev_tv_set_def Let_def)
qed

subsection \<open>Properties\<close>

text \<open>
  C37: After \<^verbatim>\<open>event_del\<close> the event is out of the loop, whatever it was doing: neither its descriptor or signal watcher nor
  its timer is active; the watcher is in no list of a signal and in no list of a descriptor, and the signal lists
  keep all their other watchers in order; the timer heap lost exactly its timer; exactly what was pending on the
  two is no longer pending (also when \<^verbatim>\<open>event_active\<close> had made it
  pending without starting it); no other watcher that is not a timer changes; \<^verbatim>\<open>event_pending\<close> answers nothing, and the
  whole loop and the signal table keep their invariants with no assertion failing.
\<close>

theorem event_del_removes:
  fixes env :: "'o libevent env"
  assumes "loop_inv L" "sig_table L" "ev_base (ev_of n L)" "sig_calls_local env"
  shows "\<exists>L'. event_del env (Some n) L = (0, L') \<and> loop_inv L' \<and> sig_table L' \<and> ok L' = ok L \<and>
    active (ws L' (iosig n L)) = 0 \<and> active (ws L' (EventTo n)) = 0 \<and>
    (\<forall>i. sg_loop (signals L i) = ThisLoop \<longrightarrow> sg_head (signals L' i) = filter (\<lambda>v. v \<noteq> iosig n L) (sg_head (signals L i))) \<and>
    (\<forall>fd. fd_in fd L' \<longrightarrow> iosig n L \<notin> set (anfd_head (anfds L' fd))) \<and>
    timer_map L' = (timer_map L)(EventTo n := None) \<and>
    pend_of L' = (pend_of L)(iosig n L := None, EventTo n := None) \<and>
    (\<forall>v. kind v \<noteq> KTimer \<and> v \<noteq> iosig n L \<longrightarrow> ws L' v = ws L v) \<and>
    ev_of n L' = (ev_of n L)\<lparr>ev_flags := EVLIST_INIT\<rparr> \<and> event_pending (Some n) events want_tv L' = (0, None)"
proof -
  obtain L' where D: "event_del env (Some n) L = (0, L')" "loop_inv L'" "sig_table L'" "ok L' = ok L" "event_gone n L L'"
    "ev_of n L' = (ev_of n L)\<lparr>ev_flags := EVLIST_INIT\<rparr>"
    using del_removes[OF assms] by blast
  note G = D(5)[unfolded event_gone_def]
  have e: "events_of n L' = events_of n L" by (simp add: events_of_def D(6))
  have i: "iosig n L' = iosig n L" by (simp add: iosig_def e)
  have p: "pending (ws L' (iosig n L)) = 0" "pending (ws L' (EventTo n)) = 0" using G by (simp_all add: not_pending)
  have "event_pending (Some n) events want_tv L' = (0, None)"
    using G p by (simp add: event_pending_def Let_def ev_is_active_def ev_is_pending_def i e D(6))
  then show ?thesis using D(1-4,6) G by blast
qed

definition ex_event_env :: "unit libevent env" where
  "ex_event_env = undefined\<lparr>env_signalfd := (\<lambda>b fd S s. ((3, 0), s)), env_sigmask := (\<lambda>b S s. s), env_sigaction := (\<lambda>i b s. s)\<rparr>"

text \<open>An event for signal 2 that is started, and whose timer was made pending by hand.\<close>

definition ex_event_base :: "unit xloop" where
  "ex_event_base = upd_ev 1 (\<lambda>_. \<lparr>ev_base = True, ev_callback = Some 7, ev_arg = 0, ev_fd = 2, ev_pri = 0, ev_res = 0, ev_flags = EVLIST_INIT, ev_events = 0x400\<rparr>)
     (loop_zero \<lparr>lv_cur = True, lv_events = undefined, lv_onces = Map.empty, lv_next = 0, lv_rest = ()\<rparr>)"

definition ex_event_sig :: "unit xloop" where
  "ex_event_sig = ex_event_base\<lparr>ws := (ws ex_event_base)(EventSig 1 := w_zero\<lparr>w_signum := 2, active := 1\<rparr>),
     signals := (signals ex_event_base)(1 := \<lparr>sg_pending = False, sg_loop = ThisLoop, sg_head = [EventSig 1]\<rparr>), activecnt := 1\<rparr>"

definition ex_event_loop :: "unit xloop" where
  "ex_event_loop = event_active (Some 1) EV_TIMEOUT ex_event_sig"

lemma ex_event: "loop_inv ex_event_loop" "sig_table ex_event_loop" "ev_base (ev_of 1 ex_event_loop)"
    "pend_of ex_event_loop (EventTo 1) = Some EV_TIMEOUT" "sig_calls_local ex_event_env" "iosig 1 ex_event_loop = EventSig 1"
    "signals ex_event_loop 1 = \<lparr>sg_pending = False, sg_loop = ThisLoop, sg_head = [EventSig 1]\<rparr>"
proof -
  let ?S = ex_event_sig
  have z: "ws ex_event_base v = w_zero" for v by (simp add: ex_event_base_def loop_zero_def)
  have i0: "loop_inv ex_event_base" by (simp add: ex_event_base_def loop_inv_zero)
  have w: "ws ?S v = (if v = EventSig 1 then w_zero\<lparr>w_signum := 2, active := 1\<rparr> else w_zero)" for v by (simp add: ex_event_sig_def z)
  have p: "pend_inv ?S"
    by (rule pend_cong(1)[OF _ _ _ _ _ loop_invD(1)[OF i0]]) (simp_all add: ex_event_sig_def z w_zero_def)
  have "keeps ex_event_base ?S"
    by (rule keepsI[OF i0 p, where K = KSignal and w = "EventSig 1"])
      (auto simp: w z ex_event_sig_def frame_defs own_inv_def settled_def w_zero_def pri_valid_def)
  then have i: "loop_inv ?S" by (simp add: keeps_def)
  have e: "ev_of 1 ?S = \<lparr>ev_base = True, ev_callback = Some 7, ev_arg = 0, ev_fd = 2, ev_pri = 0, ev_res = 0, ev_flags = EVLIST_INIT, ev_events = 0x400\<rparr>"
    by (simp add: ex_event_sig_def ex_event_base_def ev_of_def upd_ev_def)
  have g: "signals ?S j = (if j = 1 then \<lparr>sg_pending = False, sg_loop = ThisLoop, sg_head = [EventSig 1]\<rparr> else \<lparr>sg_pending = False, sg_loop = NoLoop, sg_head = []\<rparr>)" for j
    by (simp add: ex_event_sig_def ex_event_base_def loop_zero_def)
  have t: "sig_table ?S"
    unfolding sig_table_def by (auto simp: g w w_zero_def sig_args_def sig_idx_def split: if_splits)
  have f: "ex_event_loop = ev_feed_event (EventTo 1) EV_TIMEOUT ?S"
    by (simp add: ex_event_loop_def event_active_def e Let_def del: One_nat_def)
  have v: "pri_valid (ws ?S (EventTo 1))" by (simp add: w pri_valid_def w_zero_def)
  show "loop_inv ex_event_loop" using feed_loop[OF i v, of EV_TIMEOUT] by (simp add: f keeps_def)
  have wf: "active (ws ex_event_loop v) = active (ws ?S v)" "w_signum (ws ex_event_loop v) = w_signum (ws ?S v)" for v by (simp_all add: f)
  have s: "signals ex_event_loop = signals ?S" by (simp add: f)
  show "sig_table ex_event_loop" by (rule sig_table_cong[OF t s]) (simp add: wf)
  show "ev_base (ev_of 1 ex_event_loop)" "iosig 1 ex_event_loop = EventSig 1" by (simp_all add: f e iosig_def events_of_def del: One_nat_def)
  show "pend_of ex_event_loop (EventTo 1) = Some EV_TIMEOUT" using feed_pend_of[OF p] by (simp add: f pend_of_def w w_zero_def)
  show "sig_calls_local ex_event_env" by (simp add: sig_calls_local_def ex_event_env_def)
  show "signals ex_event_loop 1 = \<lparr>sg_pending = False, sg_loop = ThisLoop, sg_head = [EventSig 1]\<rparr>" by (simp add: s g)
qed

theorem event_del_removes_witness:
  "pend_of ex_event_loop (EventTo 1) = Some EV_TIMEOUT \<and> sg_head (signals ex_event_loop 1) = [EventSig 1] \<and>
    (\<exists>L'. event_del ex_event_env (Some 1) ex_event_loop = (0, L') \<and> pend_of L' (EventTo 1) = None \<and> loop_inv L' \<and>
      sg_head (signals L' 1) = [] \<and> event_pending (Some 1) 0x103 True L' = (0, None))"
proof -
  obtain L' where "event_del ex_event_env (Some 1) ex_event_loop = (0, L')" "loop_inv L'"
    "\<forall>i. sg_loop (signals ex_event_loop i) = ThisLoop \<longrightarrow> sg_head (signals L' i) = filter (\<lambda>v. v \<noteq> EventSig 1) (sg_head (signals ex_event_loop i))"
    "pend_of L' = (pend_of ex_event_loop)(EventSig 1 := None, EventTo 1 := None)" "event_pending (Some 1) 0x103 True L' = (0, None)"
    using event_del_removes[OF ex_event(1-3,5), of "0x103" True] unfolding ex_event(6) by blast
  then show ?thesis using ex_event(4,7) by (intro conjI exI[of _ L']) auto
qed

end
