(* ===== verification/Embed.thy ===== *)
theory Embed
  imports Loop_Api
begin

section \<open>Embedded loops\<close>

text \<open>
  \<^verbatim>\<open>ev_embed\<close>: a watcher of one loop that runs another one, \<^verbatim>\<open>w->other\<close>. The other loops are part of the outside state of
  the first, \<open>em_loops\<close>; what is outside both (the kernel) is \<open>em_rest\<close>, and a function that runs on the other loop takes
  it along (\<open>on_other\<close>). An embed watcher \<open>EmbedW n\<close> has the loop \<open>em_other n\<close>, the three watchers \<open>EmbedIo n\<close>,
  \<open>EmbedPrepare n\<close>, \<open>EmbedFork n\<close> as members, and a callback or none (\<open>em_has_cb\<close>). The callbacks of the other loop act on
  that loop and on what is outside both; \<open>oenv\<close> is its environment.
\<close>

record 'o embeds =
  em_loops :: "nat \<Rightarrow> 'o ev_loop"
  em_other :: "nat \<Rightarrow> nat"
  em_has_cb :: "nat \<Rightarrow> bool"
  em_rest :: 'o

type_synonym 'o eloop = "'o embeds ev_loop"

definition other :: "nat \<Rightarrow> 'o eloop \<Rightarrow> 'o ev_loop" where
  "other n L = (em_loops (os L) (em_other (os L) n))\<lparr>os := em_rest (os L)\<rparr>"

definition put_other :: "nat \<Rightarrow> 'o ev_loop \<Rightarrow> 'o eloop \<Rightarrow> 'o eloop" where
  "put_other n M L =
     L\<lparr>os := (os L)\<lparr>em_loops := (em_loops (os L))(em_other (os L) n := M), em_rest := os M\<rparr>\<rparr>"

definition on_other :: "nat \<Rightarrow> ('o ev_loop \<Rightarrow> 'o ev_loop option) \<Rightarrow> 'o eloop \<Rightarrow> 'o eloop option" where
  "on_other n f L = map_option (\<lambda>M. put_other n M L) (f (other n L))"

definition ev_run_nowait :: "'o env \<Rightarrow> 'o ev_loop \<Rightarrow> 'o ev_loop option" where
  "ev_run_nowait oenv M = map_option snd (ev_run oenv EVRUN_NOWAIT M)"

definition ev_embed_sweep :: "'o env \<Rightarrow> nat \<Rightarrow> 'o eloop \<Rightarrow> 'o eloop option" where
  "ev_embed_sweep oenv n L = on_other n (ev_run_nowait oenv) L"

definition embed_io_cb :: "'o env \<Rightarrow> nat \<Rightarrow> 'o eloop \<Rightarrow> 'o eloop option" where
  "embed_io_cb oenv n L =
     (if em_has_cb (os L) n then Some (ev_feed_event (EmbedW n) EV_EMBED L) else on_other n (ev_run_nowait oenv) L)"

partial_function (option) embed_sync :: "'o env \<Rightarrow> 'o ev_loop \<Rightarrow> 'o ev_loop option" where
  "embed_sync oenv M =
     (if fdchangecnt M \<noteq> 0 then
        Option.bind (fd_reify oenv M) (\<lambda>M. Option.bind (ev_run_nowait oenv M) (\<lambda>M. embed_sync oenv M))
      else Some M)"

definition embed_prepare_cb :: "'o env \<Rightarrow> nat \<Rightarrow> 'o eloop \<Rightarrow> 'o eloop option" where
  "embed_prepare_cb oenv n L = on_other n (embed_sync oenv) L"

definition ev_embed_start :: "config \<Rightarrow> 'o env \<Rightarrow> nat \<Rightarrow> 'o eloop \<Rightarrow> 'o eloop" where
  "ev_embed_start c oenv n L =
     (if active (ws L (EmbedW n)) \<noteq> 0 then L
      else
        let L = chk (backend (other n L) AND ev_embeddable_backends c oenv \<noteq> 0) L;
            L = ev_io_init (EmbedIo n) EmbedIoCb (backend_fd (other n L)) EV_READ L;
            L = ev_set_priority (EmbedIo n) (priority (ws L (EmbedW n))) L;
            L = ev_io_start (EmbedIo n) L;
            L = ev_init (EmbedPrepare n) EmbedPrepareCb L;
            L = ev_set_priority (EmbedPrepare n) EV_MINPRI L;
            L = ev_prepare_start (EmbedPrepare n) L;
            L = ev_init (EmbedFork n) EmbedForkCb L;
            L = ev_fork_start (EmbedFork n) L
        in ev_start (EmbedW n) 1 L)"

definition ev_embed_stop :: "nat \<Rightarrow> 'o eloop \<Rightarrow> 'o eloop" where
  "ev_embed_stop n L =
     (let L = clear_pending (EmbedW n) L in
      if active (ws L (EmbedW n)) = 0 then L
      else
        let L = ev_io_stop (EmbedIo n) L;
            L = ev_prepare_stop (EmbedPrepare n) L;
            L = ev_fork_stop (EmbedFork n) L
        in ev_stop (EmbedW n) L)"

definition embed_fork_cb :: "config \<Rightarrow> 'o env \<Rightarrow> nat \<Rightarrow> 'o eloop \<Rightarrow> 'o eloop option" where
  "embed_fork_cb c oenv n L =
     map_option (ev_embed_start c oenv n)
       (on_other n (\<lambda>M. ev_run_nowait oenv (ev_loop_fork M)) (ev_embed_stop n L))"

text \<open>The environment of a loop with embed watchers: their callbacks join those the loop dispatches.\<close>

definition embed_env :: "config \<Rightarrow> 'o env \<Rightarrow> 'o embeds env \<Rightarrow> 'o embeds env" where
  "embed_env c oenv env = env\<lparr>env_backend_cb := \<lambda>cb w revents L.
     (case (cb, w) of
        (EmbedIoCb, EmbedIo n) \<Rightarrow> embed_io_cb oenv n L
      | (EmbedPrepareCb, EmbedPrepare n) \<Rightarrow> embed_prepare_cb oenv n L
      | (EmbedForkCb, EmbedFork n) \<Rightarrow> embed_fork_cb c oenv n L
      | _ \<Rightarrow> env_backend_cb env cb w revents L)\<rparr>"

subsection \<open>Starting and stopping\<close>

text \<open>A watcher of kind \<open>KEmbed\<close> is on no list and in no array; starting or stopping it is a change of its own members.\<close>

lemma embed_start_loop:
  assumes "loop_inv L" "kind w = KEmbed"
  shows "keeps L (ev_start w a L)"
proof (rule keepsI[OF assms(1), where K = KEmbed and w = w])
  let ?L = "ev_start w a L"
  have p: "pending (ws L v) \<noteq> 0 \<Longrightarrow> priority (ws ?L v) = priority (ws L v)" for v
    using pend_pending(1)[OF loop_invD(1)[OF assms(1)], of v] by (auto simp: base_defs pri_valid_def Let_def)
  show "pend_inv ?L" by (rule pend_cong(1)[OF _ _ _ _ p loop_invD(1)[OF assms(1)]]) (simp_all add: base_defs Let_def)
qed (use assms in \<open>auto simp: base_defs Let_def settled_def frame_defs own_inv_def pri_valid_def\<close>)

lemma embed_stop_loop:
  assumes "loop_inv L" "kind w = KEmbed"
  shows "keeps L (ev_stop w L)"
proof (rule keepsI[OF assms(1), where K = KEmbed and w = w])
  let ?L = "ev_stop w L"
  show "pend_inv ?L" by (rule pend_cong(1)[OF _ _ _ _ _ loop_invD(1)[OF assms(1)]]) (simp_all add: base_defs)
qed (use assms in \<open>auto simp: base_defs settled_def frame_defs own_inv_def\<close>)

lemma embed_stop_keeps: "loop_inv L \<Longrightarrow> keeps L (ev_embed_stop n L)"
proof -
  assume I: "loop_inv L"
  have c: "keeps L (clear_pending (EmbedW n) L)" by (rule clear_loop[OF I])
  define A where "A = clear_pending (EmbedW n) L"
  define B where "B = ev_io_stop (EmbedIo n) A"
  define C where "C = ev_prepare_stop (EmbedPrepare n) B"
  define D where "D = ev_fork_stop (EmbedFork n) C"
  have a: "keeps L A" using c by (simp add: A_def)
  have b: "keeps L B" using keeps_trans[OF a io_stop_loop[of A "EmbedIo n"]] a by (simp add: B_def keeps_def)
  have c: "keeps L C" using keeps_trans[OF b prepare.stop_loop[of B "EmbedPrepare n"]] b by (simp add: C_def keeps_def)
  have d: "keeps L D" using keeps_trans[OF c fork.stop_loop[of C "EmbedFork n"]] c by (simp add: D_def keeps_def)
  have e: "keeps L (ev_stop (EmbedW n) D)" using keeps_trans[OF d embed_stop_loop[of D "EmbedW n"]] d by (simp add: keeps_def)
  show ?thesis using a e by (simp add: ev_embed_stop_def Let_def A_def[symmetric] B_def[symmetric] C_def[symmetric] D_def[symmetric])
qed

end
