(* ===== verification/Wepoll_Tree.thy ===== *)
theory Wepoll_Tree
  imports Prelude
begin

section \<open>The search tree of \<^verbatim>\<open>wepoll.c\<close>\<close>

text \<open>
  The red-black tree that maps sockets to their state and handles to ports. The C code follows parent pointers; here a
  node is addressed by the path to it, a list of frames from the node's parent up to the root. Following a null pointer
  is \<open>None\<close>, so that the results below include that it never happens.
\<close>

type_synonym key = u64   \<comment> \<open>\<^verbatim>\<open>uintptr_t\<close>\<close>

datatype 'v tree = Leaf | Node bool "'v tree" key 'v "'v tree"

text \<open>A frame holds the parent's colour, key, value and other child.\<close>

datatype 'v frame = LeftOf bool key 'v "'v tree" | RightOf bool "'v tree" key 'v

fun plug :: "'v frame list \<Rightarrow> 'v tree \<Rightarrow> 'v tree" where
  "plug [] t = t"
| "plug (LeftOf c k v r # p) t = plug p (Node c t k v r)"
| "plug (RightOf c l k v # p) t = plug p (Node c l k v t)"

fun red :: "'v tree \<Rightarrow> bool" where
  "red Leaf = False"
| "red (Node c _ _ _ _) = c"

fun paint :: "bool \<Rightarrow> 'v tree \<Rightarrow> 'v tree" where
  "paint c Leaf = Leaf"
| "paint c (Node _ l k v r) = Node c l k v r"

fun frame_red :: "'v frame \<Rightarrow> bool" where
  "frame_red (LeftOf c _ _ _) = c"
| "frame_red (RightOf c _ _ _) = c"

subsection \<open>Search\<close>

fun tree_find :: "'v tree \<Rightarrow> key \<Rightarrow> 'v option" where
  "tree_find Leaf key = None"
| "tree_find (Node c l k v r) key = (if key < k then tree_find l key else if key > k then tree_find r key else Some v)"

fun tree_root :: "'v tree \<Rightarrow> 'v option" where
  "tree_root Leaf = None"
| "tree_root (Node _ _ _ v _) = Some v"

subsection \<open>Rotations\<close>

fun rotate_left :: "'v tree \<Rightarrow> 'v tree option" where
  "rotate_left (Node pc a pk pv (Node qc b qk qv c)) = Some (Node qc (Node pc a pk pv b) qk qv c)"
| "rotate_left _ = None"

fun rotate_right :: "'v tree \<Rightarrow> 'v tree option" where
  "rotate_right (Node pc (Node qc a qk qv b) pk pv c) = Some (Node qc a qk qv (Node pc b pk pv c))"
| "rotate_right _ = None"

subsection \<open>Insertion\<close>

text \<open>The descent to the place of a new node; \<open>None\<close> if the key is there.\<close>

fun descend :: "key \<Rightarrow> 'v tree \<Rightarrow> 'v frame list \<Rightarrow> 'v frame list option" where
  "descend key Leaf p = Some p"
| "descend key (Node c l k v r) p =
     (if key < k then descend key l (LeftOf c k v r # p) else if key > k then descend key r (RightOf c l k v # p) else None)"

text \<open>
  \<^verbatim>\<open>TREE__REBALANCE_AFTER_INSERT\<close> without a red uncle: the parent is turned to the outer side if need be, takes the
  grandparent's place and becomes black.
\<close>

definition turn_left :: "'v tree \<Rightarrow> 'v frame \<Rightarrow> 'v tree option" where
  "turn_left node parent =
     (case parent of LeftOf c k v r \<Rightarrow> Some (Node c node k v r) | RightOf c l k v \<Rightarrow> rotate_left (Node c l k v node))"

definition turn_right :: "'v tree \<Rightarrow> 'v frame \<Rightarrow> 'v tree option" where
  "turn_right node parent =
     (case parent of RightOf c l k v \<Rightarrow> Some (Node c l k v node) | LeftOf c k v r \<Rightarrow> rotate_right (Node c node k v r))"

fun close_frame :: "'v frame \<Rightarrow> 'v tree \<Rightarrow> 'v tree" where
  "close_frame (LeftOf c k v r) t = Node c t k v r"
| "close_frame (RightOf c l k v) t = Node c l k v t"

text \<open>The loop of \<^verbatim>\<open>tree_add\<close>, from the red node up.\<close>

fun add_loop :: "'v tree \<Rightarrow> 'v frame list \<Rightarrow> 'v tree option" where
  "add_loop node [] = Some node"
| "add_loop node [parent] = (if frame_red parent then None else Some (close_frame parent node))"
| "add_loop node (parent # grandparent # path) =
     (if \<not> frame_red parent then Some (plug (parent # grandparent # path) node)
      else case grandparent of
        LeftOf c k v uncle \<Rightarrow>
          (if red uncle then add_loop (Node True (paint False (close_frame parent node)) k v (paint False uncle)) path
           else Option.bind (turn_left node parent) (\<lambda>parent.
                  map_option (plug path) (rotate_right (Node True (paint False parent) k v uncle))))
      | RightOf c uncle k v \<Rightarrow>
          (if red uncle then add_loop (Node True (paint False uncle) k v (paint False (close_frame parent node))) path
           else Option.bind (turn_right node parent) (\<lambda>parent.
                  map_option (plug path) (rotate_left (Node True uncle k v (paint False parent))))))"

definition tree_add :: "'v tree \<Rightarrow> key \<Rightarrow> 'v \<Rightarrow> (int \<times> 'v tree) option" where
  "tree_add t key v =
     (case descend key t [] of
        None \<Rightarrow> Some (- 1, t)
      | Some p \<Rightarrow> map_option (\<lambda>t. (0, paint False t)) (add_loop (Node True Leaf key v Leaf) p))"

subsection \<open>Removal\<close>

text \<open>The path to the node with a key; the C code starts from a pointer to the node.\<close>

fun locate :: "key \<Rightarrow> 'v tree \<Rightarrow> 'v frame list \<Rightarrow> ('v frame list \<times> bool \<times> 'v tree \<times> 'v tree) option" where
  "locate key Leaf p = None"
| "locate key (Node c l k v r) p =
     (if key < k then locate key l (LeftOf c k v r # p) else if key > k then locate key r (RightOf c l k v # p) else Some (p, c, l, r))"

text \<open>\<^verbatim>\<open>while (next->left)\<close>: the path to the leftmost node, its colour, key, value and right child.\<close>

fun leftmost :: "bool \<Rightarrow> 'v tree \<Rightarrow> key \<Rightarrow> 'v \<Rightarrow> 'v tree \<Rightarrow> 'v frame list \<Rightarrow> 'v frame list \<times> bool \<times> key \<times> 'v \<times> 'v tree" where
  "leftmost c Leaf k v r p = (p, c, k, v, r)"
| "leftmost c (Node c' l' k' v' r') k v r p = leftmost c' l' k' v' r' (LeftOf c k v r # p)"

text \<open>The node is taken out: the colour that is lost, the node that takes the place, and the path to it.\<close>

fun unlink :: "'v frame list \<Rightarrow> bool \<Rightarrow> 'v tree \<Rightarrow> 'v tree \<Rightarrow> bool \<times> 'v tree \<times> 'v frame list" where
  "unlink p c Leaf r = (c, r, p)"
| "unlink p c l Leaf = (c, l, p)"
| "unlink p c l (Node rc rl rk rv rr) =
     (let (q, nc, nk, nv, nr) = leftmost rc rl rk rv rr [] in (nc, nr, q @ RightOf c l nk nv # p))"

text \<open>
  The end of \<^verbatim>\<open>TREE__REBALANCE_AFTER_REMOVE\<close> when the sibling has a red child: after at most two rotations the place of
  the parent is filled. The arguments are the node and the parent's colour, key, value and other child.
\<close>

fun fill_left :: "'v tree \<Rightarrow> bool \<Rightarrow> key \<Rightarrow> 'v \<Rightarrow> 'v tree \<Rightarrow> 'v tree option" where
  "fill_left node pc pk pv (Node sc sl sk sv sr) =
     Option.bind (if red sr then Some (Node sc sl sk sv sr) else rotate_right (Node True (paint False sl) sk sv sr)) (\<lambda>s.
       case s of Leaf \<Rightarrow> None
       | Node _ a k v b \<Rightarrow> if b = Leaf then None else rotate_left (Node False node pk pv (Node pc a k v (paint False b))))"
| "fill_left _ _ _ _ Leaf = None"

fun fill_right :: "'v tree \<Rightarrow> bool \<Rightarrow> key \<Rightarrow> 'v \<Rightarrow> 'v tree \<Rightarrow> 'v tree option" where
  "fill_right node pc pk pv (Node sc sl sk sv sr) =
     Option.bind (if red sl then Some (Node sc sl sk sv sr) else rotate_left (Node True sl sk sv (paint False sr))) (\<lambda>s.
       case s of Leaf \<Rightarrow> None
       | Node _ a k v b \<Rightarrow> if a = Leaf then None else rotate_right (Node False (Node pc (paint False a) k v b) pk pv node))"
| "fill_right _ _ _ _ Leaf = None"

fun kids_red :: "'v tree \<Rightarrow> bool" where
  "kids_red Leaf = False"
| "kids_red (Node _ l _ _ r) = (red l \<or> red r)"

text \<open>
  One turn of the loop of \<^verbatim>\<open>tree_del\<close> below a parent, after its sibling has been made black. \<open>Inl\<close>: the loop is left
  with the root painted black; \<open>Inr\<close>: it goes on with the parent.
\<close>

definition remove_left :: "'v tree \<Rightarrow> bool \<Rightarrow> key \<Rightarrow> 'v \<Rightarrow> 'v tree \<Rightarrow> 'v frame list \<Rightarrow> ('v tree + 'v tree) option" where
  "remove_left node pc pk pv sibling path =
     (if sibling = Leaf then None
      else if kids_red sibling then map_option (\<lambda>t. Inl (paint False (plug path t))) (fill_left node pc pk pv sibling)
      else Some (Inr (Node pc node pk pv (paint True sibling))))"

definition remove_right :: "'v tree \<Rightarrow> bool \<Rightarrow> key \<Rightarrow> 'v \<Rightarrow> 'v tree \<Rightarrow> 'v frame list \<Rightarrow> ('v tree + 'v tree) option" where
  "remove_right node pc pk pv sibling path =
     (if sibling = Leaf then None
      else if kids_red sibling then map_option (\<lambda>t. Inl (paint False (plug path t))) (fill_right node pc pk pv sibling)
      else Some (Inr (Node pc (paint True sibling) pk pv node)))"

text \<open>
  The loop. With a red sibling the parent is turned below it and is red afterwards, so that the loop ends with this turn.
\<close>

fun del_loop :: "'v tree \<Rightarrow> 'v frame list \<Rightarrow> 'v tree option" where
  "del_loop node [] = Some (paint False node)"
| "del_loop node (LeftOf pc pk pv (Node True sl sk sv sr) # path) =
     map_option (\<lambda>x. case x of Inl t \<Rightarrow> t | Inr n \<Rightarrow> plug (LeftOf False sk sv sr # path) (paint False n))
       (remove_left node True pk pv sl (LeftOf False sk sv sr # path))"
| "del_loop node (LeftOf pc pk pv sibling # path) =
     Option.bind (remove_left node pc pk pv sibling path)
       (\<lambda>x. case x of Inl t \<Rightarrow> Some t | Inr n \<Rightarrow> if red n then Some (plug path (paint False n)) else del_loop n path)"
| "del_loop node (RightOf pc (Node True sl sk sv sr) pk pv # path) =
     map_option (\<lambda>x. case x of Inl t \<Rightarrow> t | Inr n \<Rightarrow> plug (RightOf False sl sk sv # path) (paint False n))
       (remove_right node True pk pv sr (RightOf False sl sk sv # path))"
| "del_loop node (RightOf pc sibling pk pv # path) =
     Option.bind (remove_right node pc pk pv sibling path)
       (\<lambda>x. case x of Inl t \<Rightarrow> Some t | Inr n \<Rightarrow> if red n then Some (plug path (paint False n)) else del_loop n path)"

definition tree_del :: "'v tree \<Rightarrow> key \<Rightarrow> 'v tree option" where
  "tree_del t key =
     Option.bind (locate key t []) (\<lambda>(p, c, l, r).
       let (lost, node, path) = unlink p c l r in
       if lost then Some (plug path node)
       else if red node then Some (plug path (paint False node))
       else del_loop node path)"


subsection \<open>The entries, in order\<close>

fun entries :: "'v tree \<Rightarrow> (key \<times> 'v) list" where
  "entries Leaf = []"
| "entries (Node c l k v r) = entries l @ (k, v) # entries r"

fun pre :: "'v frame \<Rightarrow> (key \<times> 'v) list" where
  "pre (LeftOf c k v r) = []"
| "pre (RightOf c l k v) = entries l @ [(k, v)]"

fun post :: "'v frame \<Rightarrow> (key \<times> 'v) list" where
  "post (LeftOf c k v r) = (k, v) # entries r"
| "post (RightOf c l k v) = []"

fun before :: "'v frame list \<Rightarrow> (key \<times> 'v) list" where
  "before [] = []"
| "before (f # p) = before p @ pre f"

fun behind :: "'v frame list \<Rightarrow> (key \<times> 'v) list" where
  "behind [] = []"
| "behind (f # p) = post f @ behind p"

lemma entries_plug [simp]: "entries (plug p t) = before p @ entries t @ behind p"
  by (induction p t rule: plug.induct) simp_all

lemma entries_paint [simp]: "entries (paint c t) = entries t"
  by (cases t) simp_all

lemma entries_rotate: "rotate_left t = Some t' \<Longrightarrow> entries t' = entries t" "rotate_right t = Some t' \<Longrightarrow> entries t' = entries t"
proof -
  show "rotate_left t = Some t' \<Longrightarrow> entries t' = entries t" by (induction t rule: rotate_left.induct) auto
  show "rotate_right t = Some t' \<Longrightarrow> entries t' = entries t" by (induction t rule: rotate_right.induct) auto
qed

lemma entries_close [simp]: "entries (close_frame f t) = pre f @ entries t @ post f"
  by (cases f) simp_all

lemma frames_app [simp]: "before (p @ q) = before q @ before p" "behind (p @ q) = behind p @ behind q"
  by (induction p) simp_all

lemma entries_turn:
  "turn_left t f = Some t' \<Longrightarrow> entries t' = pre f @ entries t @ post f"
  "turn_right t f = Some t' \<Longrightarrow> entries t' = pre f @ entries t @ post f"
  by (cases f; auto simp: turn_left_def turn_right_def dest!: entries_rotate)+

lemma add_loop_entries: "add_loop t p = Some t' \<Longrightarrow> entries t' = before p @ entries t @ behind p"
proof (induction t p arbitrary: t' rule: add_loop.induct)
  case (3 node parent grandparent path)
  show ?case
  proof (cases "frame_red parent")
    case False
    then show ?thesis using 3(3) by auto
  next
    case True
    show ?thesis
    proof (cases grandparent)
      case (LeftOf c k v uncle)
      show ?thesis
      proof (cases "red uncle")
        case u: True
        then show ?thesis using 3(1)[of c k v uncle t'] 3(3) True LeftOf by simp
      next
        case False
        then obtain q g where q: "turn_left node parent = Some q" "rotate_right (Node True (paint False q) k v uncle) = Some g" "t' = plug path g"
          using 3(3) True LeftOf by (auto split: Option.bind_splits)
        show ?thesis using entries_turn(1)[OF q(1)] entries_rotate(2)[OF q(2)] q(3) LeftOf by simp
      qed
    next
      case (RightOf c uncle k v)
      show ?thesis
      proof (cases "red uncle")
        case u: True
        then show ?thesis using 3(2)[of c uncle k v t'] 3(3) True RightOf by simp
      next
        case False
        then obtain q g where q: "turn_right node parent = Some q" "rotate_left (Node True uncle k v (paint False q)) = Some g" "t' = plug path g"
          using 3(3) True RightOf by (auto split: Option.bind_splits)
        show ?thesis using entries_turn(2)[OF q(1)] entries_rotate(1)[OF q(2)] q(3) RightOf by simp
      qed
    qed
  qed
qed (auto split: if_splits)

text \<open>Removal takes the entry of the node out of the list and leaves the others in order.\<close>

lemma entries_fill:
  "fill_left n pc pk pv s = Some t \<Longrightarrow> entries t = entries n @ (pk, pv) # entries s"
  "fill_right n pc pk pv s = Some t \<Longrightarrow> entries t = entries s @ (pk, pv) # entries n"
proof -
  show "entries t = entries n @ (pk, pv) # entries s" if f: "fill_left n pc pk pv s = Some t"
  proof (cases s)
    case (Node sc sl sk sv sr)
    obtain u where u: "(if red sr then Some (Node sc sl sk sv sr) else rotate_right (Node True (paint False sl) sk sv sr)) = Some u"
      "(case u of Leaf \<Rightarrow> None | Node _ a k v b \<Rightarrow> if b = Leaf then None else rotate_left (Node False n pk pv (Node pc a k v (paint False b)))) = Some t"
      using f Node by (auto split: Option.bind_splits)
    have "entries u = entries s" using u(1) Node by (auto split: if_splits dest!: entries_rotate)
    then show ?thesis using u(2) by (auto split: tree.splits if_splits dest!: entries_rotate)
  qed (use f in simp)
  show "entries t = entries s @ (pk, pv) # entries n" if f: "fill_right n pc pk pv s = Some t"
  proof (cases s)
    case (Node sc sl sk sv sr)
    obtain u where u: "(if red sl then Some (Node sc sl sk sv sr) else rotate_left (Node True sl sk sv (paint False sr))) = Some u"
      "(case u of Leaf \<Rightarrow> None | Node _ a k v b \<Rightarrow> if a = Leaf then None else rotate_right (Node False (Node pc (paint False a) k v b) pk pv n)) = Some t"
      using f Node by (auto split: Option.bind_splits)
    have "entries u = entries s" using u(1) Node by (auto split: if_splits dest!: entries_rotate)
    then show ?thesis using u(2) by (auto split: tree.splits if_splits dest!: entries_rotate)
  qed (use f in simp)
qed

text \<open>The list a turn of the loop stands for.\<close>

definition turn_entries :: "'v frame list \<Rightarrow> 'v tree + 'v tree \<Rightarrow> (key \<times> 'v) list" where
  "turn_entries p x = (case x of Inl t \<Rightarrow> entries t | Inr n \<Rightarrow> before p @ entries n @ behind p)"

lemma entries_remove:
  "remove_left n pc pk pv s p = Some x \<Longrightarrow> turn_entries p x = before p @ (entries n @ (pk, pv) # entries s) @ behind p"
  "remove_right n pc pk pv s p = Some x \<Longrightarrow> turn_entries p x = before p @ (entries s @ (pk, pv) # entries n) @ behind p"
  by (auto simp: remove_left_def remove_right_def turn_entries_def split: if_splits dest!: entries_fill)

lemmas del_loop_induct = del_loop.induct [case_names root left_red left_null left_black right_red right_null right_black]

lemma del_loop_entries: "del_loop t p = Some t' \<Longrightarrow> entries t' = before p @ entries t @ behind p"
proof (induction t p arbitrary: t' rule: del_loop_induct)
  case (left_red node pc pk pv sl sk sv sr path)
  then obtain x where "remove_left node True pk pv sl (LeftOf False sk sv sr # path) = Some x"
    "t' = (case x of Inl t \<Rightarrow> t | Inr n \<Rightarrow> plug path (Node False (paint False n) sk sv sr))" by auto
  then show ?case using entries_remove(1)[of node True pk pv sl "LeftOf False sk sv sr # path" x] by (auto simp: turn_entries_def split: sum.splits)
next
  case (left_null node pc pk pv path)
  then show ?case by (simp add: remove_left_def)
next
  case (left_black node pc pk pv a b c d path)
  then obtain x where x: "remove_left node pc pk pv (Node False a b c d) path = Some x"
    "(case x of Inl t \<Rightarrow> Some t | Inr n \<Rightarrow> if red n then Some (plug path (paint False n)) else del_loop n path) = Some t'" by (auto split: Option.bind_splits)
  then show ?case using entries_remove(1)[OF x(1)] left_black(1)[OF x(1)] by (auto simp: turn_entries_def split: sum.splits if_splits)
next
  case (right_red node pc sl sk sv sr pk pv path)
  then obtain x where "remove_right node True pk pv sr (RightOf False sl sk sv # path) = Some x"
    "t' = (case x of Inl t \<Rightarrow> t | Inr n \<Rightarrow> plug path (Node False sl sk sv (paint False n)))" by auto
  then show ?case using entries_remove(2)[of node True pk pv sr "RightOf False sl sk sv # path" x] by (auto simp: turn_entries_def split: sum.splits)
next
  case (right_null node pc pk pv path)
  then show ?case by (simp add: remove_right_def)
next
  case (right_black node pc a b c d pk pv path)
  then obtain x where x: "remove_right node pc pk pv (Node False a b c d) path = Some x"
    "(case x of Inl t \<Rightarrow> Some t | Inr n \<Rightarrow> if red n then Some (plug path (paint False n)) else del_loop n path) = Some t'" by (auto split: Option.bind_splits)
  then show ?case using entries_remove(2)[OF x(1)] right_black(1)[OF x(1)] by (auto simp: turn_entries_def split: sum.splits if_splits)
qed simp


subsection \<open>Balance\<close>

fun bh :: "'v tree \<Rightarrow> nat" where
  "bh Leaf = 0"
| "bh (Node c l k v r) = bh l + (if c then 0 else 1)"

fun rb :: "'v tree \<Rightarrow> bool" where
  "rb Leaf = True"
| "rb (Node c l k v r) \<longleftrightarrow> rb l \<and> rb r \<and> bh l = bh r \<and> (c \<longrightarrow> \<not> red l \<and> \<not> red r)"

fun sibling_of :: "'v frame \<Rightarrow> 'v tree" where
  "sibling_of (LeftOf c k v r) = r"
| "sibling_of (RightOf c l k v) = l"

definition top_black :: "'v frame list \<Rightarrow> bool" where
  "top_black p \<longleftrightarrow> p = [] \<or> \<not> frame_red (hd p)"

text \<open>What is above a subtree of black height \<open>h\<close>.\<close>

fun rbp :: "'v frame list \<Rightarrow> nat \<Rightarrow> bool" where
  "rbp [] h = True"
| "rbp (f # p) h \<longleftrightarrow> rb (sibling_of f) \<and> bh (sibling_of f) = h \<and> (frame_red f \<longrightarrow> \<not> red (sibling_of f) \<and> p \<noteq> [] \<and> top_black p) \<and>
     rbp p (h + (if frame_red f then 0 else 1))"

lemma top_black_simps [simp]: "top_black []" "top_black (f # p) = (\<not> frame_red f)"
  by (simp_all add: top_black_def)

lemma paint_simps [simp]: "\<not> red (paint False t)" "rb t \<Longrightarrow> rb (paint False t)" "bh t \<le> bh (paint False t)"
  "\<not> red t \<Longrightarrow> paint False t = t"
  by (cases t; simp)+

lemma paint_red: "red t \<Longrightarrow> bh (paint False t) = Suc (bh t)"
  by (cases t) simp_all

lemma red_Node: "red t \<Longrightarrow> \<exists>l k v r. t = Node True l k v r"
  by (cases t) simp_all

lemma rb_plug: "rb t \<Longrightarrow> rbp p (bh t) \<Longrightarrow> (red t \<longrightarrow> top_black p) \<Longrightarrow> rb (plug p t) \<and> (p \<noteq> [] \<longrightarrow> \<not> red (plug p t))"
proof (induction p t rule: plug.induct)
  case (2 c k v r p t)
  then show ?case by (cases p) auto
next
  case (3 c l k v p t)
  then show ?case by (cases p) auto
qed simp

text \<open>Two red nodes in a row below a black one: the turn makes one black node with two red children of it.\<close>

definition reds_at :: "'v tree \<Rightarrow> nat \<Rightarrow> bool" where
  "reds_at t h \<longleftrightarrow> (\<exists>l k v r. t = Node True l k v r \<and> rb l \<and> rb r \<and> \<not> red l \<and> \<not> red r \<and> bh l = h \<and> bh r = h)"

lemma reds_rb: "reds_at t h \<Longrightarrow> rb t \<and> bh t = h \<and> red t"
  by (auto simp: reds_at_def)

lemma turn_rb:
  assumes "reds_at n h" "frame_red f" "rb (sibling_of f)" "\<not> red (sibling_of f)" "bh (sibling_of f) = h" "rb u" "\<not> red u" "bh u = h"
  shows "\<exists>q t. turn_left n f = Some q \<and> rotate_right (Node True (paint False q) k v u) = Some t \<and> rb t \<and> \<not> red t \<and> bh t = Suc h"
    "\<exists>q t. turn_right n f = Some q \<and> rotate_left (Node True u k v (paint False q)) = Some t \<and> rb t \<and> \<not> red t \<and> bh t = Suc h"
  using assms by (cases f; auto simp: reds_at_def turn_left_def turn_right_def)+

lemma recolour_rb:
  assumes "reds_at n h" "frame_red f" "rb (sibling_of f)" "\<not> red (sibling_of f)" "bh (sibling_of f) = h" "rb u" "red u" "bh u = h"
  shows "reds_at (Node True (paint False (close_frame f n)) k v (paint False u)) (Suc h)"
    "reds_at (Node True (paint False u) k v (paint False (close_frame f n))) (Suc h)"
  using assms paint_red[of u] by (cases f; auto simp: reds_at_def)+

lemma add_loop_rb: "reds_at n h \<Longrightarrow> rbp p h \<Longrightarrow> \<exists>t. add_loop n p = Some t \<and> rb t"
proof (induction "length p" arbitrary: n h p rule: less_induct)
  case less
  note n = reds_rb[OF less(2)]
  consider "p = []" | f where "p = [f]" | f g path where "p = f # g # path" by (metis list.exhaust)
  then show ?case
  proof cases
    case 1
    then show ?thesis using n by simp
  next
    case 2
    then show ?thesis using n less(3) by (cases f) auto
  next
    case 3
    have f: "rb (sibling_of f)" "bh (sibling_of f) = h" using less(3) 3 by simp_all
    show ?thesis
    proof (cases "frame_red f")
      case False
      then show ?thesis using rb_plug[of n p] n less(3) 3 by simp
    next
      case True
      have g: "\<not> frame_red g" "\<not> red (sibling_of f)" "rb (sibling_of g)" "bh (sibling_of g) = h" "rbp path (Suc h)" using less(3) 3 True by (simp_all split: if_splits)
      note i = less(2) True f(1) g(2) f(2)
      have up: "\<exists>t. map_option (plug path) (Some x) = Some t \<and> rb t" if "rb x" "\<not> red x" "bh x = Suc h" for x
        using rb_plug[of x path] that g(5) by simp
      show ?thesis
      proof (cases g)
        case (LeftOf c gk gv u)
        show ?thesis
        proof (cases "red u")
          case r: True
          have "reds_at (Node True (paint False (close_frame f n)) gk gv (paint False u)) (Suc h)"
            by (rule recolour_rb(1)[OF i]) (use g LeftOf r in simp_all)
          from less(1)[OF _ this g(5)] show ?thesis using 3 True LeftOf r by simp
        next
          case False
          obtain q t where "turn_left n f = Some q" "rotate_right (Node True (paint False q) gk gv u) = Some t" "rb t" "\<not> red t" "bh t = Suc h"
            using turn_rb(1)[OF i, of u gk gv] g LeftOf False by auto
          then show ?thesis using up[of t] 3 True LeftOf False by simp
        qed
      next
        case (RightOf c u gk gv)
        show ?thesis
        proof (cases "red u")
          case r: True
          have "reds_at (Node True (paint False u) gk gv (paint False (close_frame f n))) (Suc h)"
            by (rule recolour_rb(2)[OF i]) (use g RightOf r in simp_all)
          from less(1)[OF _ this g(5)] show ?thesis using 3 True RightOf r by simp
        next
          case False
          obtain q t where "turn_right n f = Some q" "rotate_left (Node True u gk gv (paint False q)) = Some t" "rb t" "\<not> red t" "bh t = Suc h"
            using turn_rb(2)[OF i, of u gk gv] g RightOf False by auto
          then show ?thesis using up[of t] 3 True RightOf False by simp
        qed
      qed
    qed
  qed
qed

lemma fill_rb:
  assumes "rb n" "rb s" "\<not> red s" "kids_red s" "bh s = Suc (bh n)"
  shows "\<exists>t. fill_left n pc pk pv s = Some t \<and> rb t \<and> red t = pc \<and> bh t = Suc (bh n) + (if pc then 0 else 1)"
    "\<exists>t. fill_right n pc pk pv s = Some t \<and> rb t \<and> red t = pc \<and> bh t = Suc (bh n) + (if pc then 0 else 1)"
proof -
  obtain sl sk sv sr where s: "s = Node False sl sk sv sr" using assms(3,4) by (cases s) auto
  show "\<exists>t. fill_left n pc pk pv s = Some t \<and> rb t \<and> red t = pc \<and> bh t = Suc (bh n) + (if pc then 0 else 1)"
  proof (cases "red sr")
    case True
    then show ?thesis using assms s by (auto dest!: red_Node)
  next
    case False
    then obtain a k v b where "sl = Node True a k v b" using assms(4) s red_Node[of sl] by auto
    then show ?thesis using assms s False by auto
  qed
  show "\<exists>t. fill_right n pc pk pv s = Some t \<and> rb t \<and> red t = pc \<and> bh t = Suc (bh n) + (if pc then 0 else 1)"
  proof (cases "red sl")
    case True
    then show ?thesis using assms s by (auto dest!: red_Node)
  next
    case False
    then obtain a k v b where "sr = Node True a k v b" using assms(4) s red_Node[of sr] by auto
    then show ?thesis using assms s False by auto
  qed
qed


lemma del_loop_rb:
  "rb n \<Longrightarrow> \<not> red n \<Longrightarrow> rbp p (Suc (bh n)) \<Longrightarrow> \<exists>t. del_loop n p = Some t \<and> rb t \<and> \<not> red t"
proof (induction p arbitrary: n)
  case (Cons f path)
  let ?h = "Suc (bh n)"
  have p: "rb (sibling_of f)" "bh (sibling_of f) = ?h" "frame_red f \<longrightarrow> \<not> red (sibling_of f) \<and> top_black path"
    "rbp path (?h + (if frame_red f then 0 else 1))" using Cons.prems(3) by auto
  have up: "rb (paint False (plug q x))" if "rb x" "rbp q (bh x)" "red x \<longrightarrow> top_black q" for x and q :: "'a frame list"
    using rb_plug[OF that] by simp
  have black: "rb (plug q x) \<and> (q \<noteq> [] \<longrightarrow> \<not> red (plug q x))" if "rb x" "\<not> red x" "rbp q (bh x)" for x and q :: "'a frame list"
    using rb_plug[OF that(1,3)] that(2) by simp
  have plugb: "\<not> red (plug q x)" if "\<not> red x" "rb x" "rbp q (bh x)" for x and q :: "'a frame list"
    using black[OF that(2,1,3)] that(1) by (cases q) auto
  obtain sc a k v b where s: "sibling_of f = Node sc a k v b" using p(2) by (cases "sibling_of f") auto
  show ?case
  proof (cases sc)
    case True
    then have fb: "\<not> frame_red f" and kids: "rb a" "rb b" "\<not> red a" "\<not> red b" "bh a = ?h" "bh b = ?h" using p s by auto
    have rest: "rbp path (Suc ?h)" using p(4) fb by simp
    show ?thesis
    proof (cases f)
      case (LeftOf fc fk fv fs)
      have sl: "a \<noteq> Leaf" using kids by auto
      have q: "rbp (LeftOf False k v b # path) ?h" using kids rest by simp
      show ?thesis
      proof (cases "kids_red a")
        case kr: True
        obtain t where t: "fill_left n True fk fv a = Some t" "rb t" "red t" "bh t = ?h"
          using fill_rb(1)[OF Cons.prems(1) kids(1,3) kr kids(5), of True fk fv] by auto
        then show ?thesis using up[OF t(2), of "LeftOf False k v b # path"] q LeftOf s True sl kr by (auto simp: remove_left_def)
      next
        case False
        let ?n = "Node False n fk fv (paint True a)"
        have "rb ?n" "bh ?n = ?h" using Cons.prems(1,2) kids False by (cases a; simp)+
        then have "rb (plug (LeftOf False k v b # path) ?n)" "\<not> red (plug (LeftOf False k v b # path) ?n)"
          using black[of ?n "LeftOf False k v b # path"] q by simp_all
        then show ?thesis using LeftOf s True sl False by (auto simp: remove_left_def)
      qed
    next
      case (RightOf fc fs fk fv)
      have sl: "b \<noteq> Leaf" using kids by auto
      have q: "rbp (RightOf False a k v # path) ?h" using kids rest by simp
      show ?thesis
      proof (cases "kids_red b")
        case kr: True
        obtain t where t: "fill_right n True fk fv b = Some t" "rb t" "red t" "bh t = ?h"
          using fill_rb(2)[OF Cons.prems(1) kids(2,4) kr kids(6), of True fk fv] by auto
        then show ?thesis using up[OF t(2), of "RightOf False a k v # path"] q RightOf s True sl kr by (auto simp: remove_right_def)
      next
        case False
        let ?n = "Node False (paint True b) fk fv n"
        have "rb ?n" "bh ?n = ?h" using Cons.prems(1,2) kids False by (cases b; simp)+
        then have "rb (plug (RightOf False a k v # path) ?n)" "\<not> red (plug (RightOf False a k v # path) ?n)"
          using black[of ?n "RightOf False a k v # path"] q by simp_all
        then show ?thesis using RightOf s True sl False by (auto simp: remove_right_def)
      qed
    qed
  next
    case False
    let ?s = "Node False a k v b"
    have S: "rb ?s" "\<not> red ?s" "bh ?s = ?h" using p s False by simp_all
    show ?thesis
    proof (cases f)
      case (LeftOf fc fk fv fs)
      show ?thesis
      proof (cases "kids_red ?s")
        case kr: True
        obtain t where t: "fill_left n fc fk fv ?s = Some t" "rb t" "red t = fc" "bh t = ?h + (if fc then 0 else 1)"
          using fill_rb(1)[OF Cons.prems(1) S(1,2) kr S(3)] by blast
        then have "rb (paint False (plug path t))" using up[OF t(2)] p LeftOf by simp
        then show ?thesis using t LeftOf s False kr by (auto simp: remove_left_def)
      next
        case kr: False
        let ?n = "Node fc n fk fv (paint True ?s)"
        have N: "rb (Node False n fk fv (paint True ?s))" "bh (Node True n fk fv (paint True ?s)) = bh n" using Cons.prems(1,2) S kr by auto
        have e: "del_loop n (f # path) = (if fc then Some (plug path (paint False ?n)) else del_loop ?n path)"
          using LeftOf s False kr by (simp add: remove_left_def)
        show ?thesis
        proof (cases fc)
          case True
          then have "rb (plug path (Node False n fk fv (paint True ?s)))" "\<not> red (plug path (Node False n fk fv (paint True ?s)))"
            using black[of "Node False n fk fv (paint True ?s)" path] plugb[of "Node False n fk fv (paint True ?s)" path] N p LeftOf by simp_all
          then show ?thesis using e True by simp
        next
          case f: False
          then show ?thesis using Cons.IH[of ?n] N p LeftOf e by simp
        qed
      qed
    next
      case (RightOf fc fs fk fv)
      show ?thesis
      proof (cases "kids_red ?s")
        case kr: True
        obtain t where t: "fill_right n fc fk fv ?s = Some t" "rb t" "red t = fc" "bh t = ?h + (if fc then 0 else 1)"
          using fill_rb(2)[OF Cons.prems(1) S(1,2) kr S(3)] by blast
        then have "rb (paint False (plug path t))" using up[OF t(2)] p RightOf by simp
        then show ?thesis using t RightOf s False kr by (auto simp: remove_right_def)
      next
        case kr: False
        let ?n = "Node fc (paint True ?s) fk fv n"
        have N: "rb (Node False (paint True ?s) fk fv n)" "bh (paint True ?s) = bh n" "bh b = bh n" using Cons.prems(1,2) S kr by auto
        have e: "del_loop n (f # path) = (if fc then Some (plug path (paint False ?n)) else del_loop ?n path)"
          using RightOf s False kr by (simp add: remove_right_def)
        show ?thesis
        proof (cases fc)
          case True
          then have "rb (plug path (Node False (paint True ?s) fk fv n))" "\<not> red (plug path (Node False (paint True ?s) fk fv n))"
            using black[of "Node False (paint True ?s) fk fv n" path] plugb[of "Node False (paint True ?s) fk fv n" path] N p RightOf by simp_all
          then show ?thesis using e True by simp
        next
          case f: False
          then show ?thesis using Cons.IH[of ?n] N p RightOf e by simp
        qed
      qed
    qed
  qed
qed simp


subsection \<open>The tree as a map\<close>

definition sorted_tree :: "'v tree \<Rightarrow> bool" where
  "sorted_tree t \<longleftrightarrow> sorted_wrt (<) (map fst (entries t))"

definition tree_ok :: "'v tree \<Rightarrow> bool" where
  "tree_ok t \<longleftrightarrow> sorted_tree t \<and> rb t \<and> \<not> red t"

abbreviation tree_map :: "'v tree \<Rightarrow> key \<Rightarrow> 'v option" where
  "tree_map t \<equiv> map_of (entries t)"

lemma sorted_Node [simp]:
  "sorted_tree Leaf"
  "sorted_tree (Node c l k v r) \<longleftrightarrow> sorted_tree l \<and> sorted_tree r \<and> (\<forall>x \<in> fst ` set (entries l). x < k) \<and> (\<forall>x \<in> fst ` set (entries r). k < x)"
  by (force simp: sorted_tree_def sorted_wrt_append)+

lemma find_map: "sorted_tree t \<Longrightarrow> tree_find t key = tree_map t key"
proof (induction t)
  case (Node c l k v r)
  have l: "tree_map l key = None" if "k \<le> key" using Node.prems that by (auto simp: map_of_eq_None_iff)
  have r: "tree_map r key = None" if "key \<le> k" using Node.prems that by (auto simp: map_of_eq_None_iff)
  show ?case
  proof (cases key k rule: linorder_cases)
    case less
    then show ?thesis using Node r by (auto simp: map_add_def split: option.splits)
  next
    case greater
    then show ?thesis using Node l order_less_not_sym[OF greater] by (auto simp: map_add_def split: option.splits)
  qed (use l r in \<open>auto simp: map_add_def\<close>)
qed simp

text \<open>The descent ends between the smaller and the greater keys.\<close>

lemma descend_None: "sorted_tree t \<Longrightarrow> descend key t p = None \<longleftrightarrow> key \<in> fst ` set (entries t)"
proof (induction key t p rule: descend.induct)
  case (2 key c l k v r p)
  have l: "key \<notin> fst ` set (entries l)" if "k < key" using 2(3) that by auto
  have r: "key \<notin> fst ` set (entries r)" if "key < k" using 2(3) that by auto
  show ?case
  proof (cases key k rule: linorder_cases)
    case less
    then show ?thesis using 2(1)[OF less] 2(3) r by (auto simp: image_Un)
  next
    case greater
    then show ?thesis using 2(2)[OF order_less_not_sym[OF greater] greater] 2(3) l order_less_not_sym[OF greater] by (auto simp: image_Un)
  qed simp
qed simp

definition parts :: "key \<Rightarrow> 'v frame list \<Rightarrow> bool" where
  "parts key p \<longleftrightarrow> (\<forall>x \<in> fst ` set (before p). x < key) \<and> (\<forall>x \<in> fst ` set (behind p). key < x)"

lemma parts_simps [simp]:
  "parts key []"
  "parts key (f # p) \<longleftrightarrow> parts key p \<and> (\<forall>x \<in> fst ` set (pre f). x < key) \<and> (\<forall>x \<in> fst ` set (post f). key < x)"
  by (auto simp: parts_def)

lemma descend_Some:
  "sorted_tree t \<Longrightarrow> parts key p \<Longrightarrow> descend key t p = Some q \<Longrightarrow> before q @ behind q = before p @ entries t @ behind p \<and> parts key q"
proof (induction key t p rule: descend.induct)
  case (2 key c l k v r p)
  show ?case
  proof (cases key k rule: linorder_cases)
    case less
    then have "parts key (LeftOf c k v r # p)" using 2(3,4) by auto
    then show ?thesis using 2(1)[OF less] 2(3,5) less by simp
  next
    case greater
    then have "parts key (RightOf c l k v # p)" using 2(3,4) by auto
    then show ?thesis using 2(2)[OF order_less_not_sym[OF greater] greater] 2(3,5) greater order_less_not_sym[OF greater] by simp
  qed (use 2(5) in simp)
qed simp


lemma descend_rb: "rb t \<Longrightarrow> rbp p (bh t) \<Longrightarrow> (red t \<longrightarrow> p \<noteq> [] \<and> top_black p) \<Longrightarrow> descend key t p = Some q \<Longrightarrow> rbp q 0"
  by (induction key t p rule: descend.induct) (auto split: if_splits)

lemma locate_Some: "locate key t p = Some (q, c, l, r) \<Longrightarrow> rb t \<Longrightarrow> rbp p (bh t) \<Longrightarrow> (red t \<longrightarrow> p \<noteq> [] \<and> top_black p) \<Longrightarrow>
   (\<exists>v. before q @ entries l @ (key, v) # entries r @ behind q = before p @ entries t @ behind p) \<and>
   rb l \<and> rb r \<and> bh l = bh r \<and> (c \<longrightarrow> \<not> red l \<and> \<not> red r \<and> q \<noteq> [] \<and> top_black q) \<and> rbp q (bh l + (if c then 0 else 1))"
proof (induction key t p rule: locate.induct)
  case (2 key c l' k v r' p)
  show ?case
  proof (cases key k rule: linorder_cases)
    case less
    then show ?thesis using 2(1)[OF less] 2(3-) by (auto split: if_splits)
  next
    case greater
    then show ?thesis using 2(2)[OF order_less_not_sym[OF greater] greater] 2(3-) order_less_not_sym[OF greater] by (auto split: if_splits)
  qed (use 2(3-) in auto)
qed simp

lemma locate_None: "sorted_tree t \<Longrightarrow> locate key t p = None \<longleftrightarrow> tree_map t key = None"
proof (induction key t p rule: locate.induct)
  case (2 key c l k v r p)
  have l: "tree_map l key = None" if "k \<le> key" using 2(3) that by (auto simp: map_of_eq_None_iff)
  have r: "tree_map r key = None" if "key \<le> k" using 2(3) that by (auto simp: map_of_eq_None_iff)
  show ?case
  proof (cases key k rule: linorder_cases)
    case less
    then show ?thesis using 2 r by (auto simp: map_add_def split: option.splits)
  next
    case greater
    then show ?thesis using 2 l order_less_not_sym[OF greater] by (auto simp: map_add_def split: option.splits)
  qed (auto simp: map_add_def split: option.splits)
qed simp

lemma leftmost_spec: "leftmost c l k v r p = (q, nc, nk, nv, nr) \<Longrightarrow>
    before q = before p \<and> (nk, nv) # entries nr @ behind q = entries (Node c l k v r) @ behind p"
  by (induction c l k v r p rule: leftmost.induct) auto

lemma leftmost_rb:
  "leftmost c l k v r p = (q, nc, nk, nv, nr) \<Longrightarrow> rb (Node c l k v r) \<Longrightarrow> rbp (p @ s) (bh (Node c l k v r)) \<Longrightarrow> (c \<longrightarrow> p @ s \<noteq> [] \<and> top_black (p @ s)) \<Longrightarrow>
   rb nr \<and> rbp (q @ s) (bh nr + (if nc then 0 else 1)) \<and> (nc \<longrightarrow> \<not> red nr \<and> q @ s \<noteq> [] \<and> top_black (q @ s))"
proof (induction c l k v r p rule: leftmost.induct)
  case (2 c c' l' k' v' r' k v r p)
  have "leftmost c' l' k' v' r' (LeftOf c k v r # p) = (q, nc, nk, nv, nr)" using 2(2) by simp
  from 2(1)[OF this] show ?case using 2(3-5) by (auto split: if_splits)
qed auto

lemma unlink_entries: "unlink p c l r = (lost, n, q) \<Longrightarrow> before q @ entries n @ behind q = before p @ entries l @ entries r @ behind p"
proof (induction p c l r rule: unlink.induct)
  case (3 p c a b d e f rc rl rk rv rr)
  obtain q' nc nk nv nr where m: "leftmost rc rl rk rv rr [] = (q', nc, nk, nv, nr)" by (cases "leftmost rc rl rk rv rr []") auto
  have x: "before q' = []" "(nk, nv) # entries nr @ behind q' = entries (Node rc rl rk rv rr)" using leftmost_spec[OF m] by auto
  have "entries (Node rc rl rk rv rr) @ ys = (nk, nv) # entries nr @ behind q' @ ys" for ys using x(2)[symmetric] by simp
  then show ?case using 3 m x(1) by auto
qed auto

lemma unlink_rb:
  assumes "unlink p c l r = (lost, n, q)" "rb l" "rb r" "bh l = bh r" "c \<longrightarrow> \<not> red l \<and> \<not> red r \<and> p \<noteq> [] \<and> top_black p"
    "rbp p (bh l + (if c then 0 else 1))"
  shows "rb n \<and> rbp q (bh n + (if lost then 0 else 1)) \<and> (lost \<longrightarrow> \<not> red n \<and> q \<noteq> [])"
proof (cases "l = Leaf \<or> r = Leaf")
  case True
  then show ?thesis using assms by (cases l; cases r; auto split: if_splits)
next
  case False
  then obtain lc ll lk lv lr rc rl rk rv rr where lr: "l = Node lc ll lk lv lr" "r = Node rc rl rk rv rr" by (meson tree.exhaust)
  obtain q' nc nk nv nr where m: "leftmost rc rl rk rv rr [] = (q', nc, nk, nv, nr)" by (cases "leftmost rc rl rk rv rr []") auto
  have e: "lost = nc" "n = nr" "q = q' @ RightOf c l nk nv # p" using assms(1) lr m by auto
  show ?thesis unfolding e
    by (rule leftmost_rb[OF m, of "RightOf c l nk nv # p", THEN conjE]) (use assms lr in \<open>auto split: if_splits\<close>)
qed

lemma map_of_insert: "map_of xs key = None \<Longrightarrow> map_of (xs @ (key, v) # ys) = (map_of (xs @ ys))(key \<mapsto> v)"
  by (rule ext) (simp add: map_add_def split: option.split)

lemma add_ok:
  assumes "tree_ok t"
  shows "\<exists>t'. tree_add t key v = Some (if tree_map t key = None then 0 else - 1, t') \<and> tree_ok t' \<and>
    tree_map t' = (if tree_map t key = None then (tree_map t)(key \<mapsto> v) else tree_map t)"
proof (cases "descend key t []")
  case None
  then have "key \<in> fst ` set (entries t)" using descend_None[of t key "[]"] assms by (simp add: tree_ok_def)
  then have "tree_map t key \<noteq> None" by (simp add: map_of_eq_None_iff)
  then show ?thesis using None assms by (simp add: tree_add_def)
next
  case (Some p)
  note t = assms[unfolded tree_ok_def]
  have d: "before p @ behind p = entries t" "parts key p" using descend_Some[OF _ _ Some] t by auto
  have n: "tree_map t key = None" using descend_None[of t key "[]"] Some t by (auto simp: map_of_eq_None_iff)
  have "rbp p 0" by (rule descend_rb[OF _ _ _ Some]) (use t in auto)
  then obtain u where u: "add_loop (Node True Leaf key v Leaf) p = Some u" "rb u"
    using add_loop_rb[of "Node True Leaf key v Leaf" 0 p] by (auto simp: reds_at_def)
  have e: "entries u = before p @ (key, v) # behind p" using add_loop_entries[OF u(1)] by simp
  have "sorted_wrt (<) (map fst (before p @ behind p))" using t d(1) by (simp add: sorted_tree_def)
  then have "sorted_tree u" using d(2) by (simp add: sorted_tree_def e sorted_wrt_append parts_def)
  then have "tree_ok (paint False u)" using u(2) by (simp add: tree_ok_def sorted_tree_def)
  moreover have "map_of (before p) key = None" using d(2) by (auto simp: parts_def map_of_eq_None_iff)
  then have "tree_map u = (tree_map t)(key \<mapsto> v)" unfolding e d(1)[symmetric] by (rule map_of_insert)
  ultimately show ?thesis using Some u(1) n by (simp add: tree_add_def)
qed


lemma del_ok:
  assumes "tree_ok t" "tree_map t key \<noteq> None"
  shows "\<exists>t'. tree_del t key = Some t' \<and> tree_ok t' \<and> tree_map t' = (tree_map t)(key := None)"
proof -
  note t = assms(1)[unfolded tree_ok_def]
  obtain p c l r where l: "locate key t [] = Some (p, c, l, r)" using locate_None[of t key "[]"] t assms(2) by auto
  obtain lost n q where u: "unlink p c l r = (lost, n, q)" by (cases "unlink p c l r") auto
  have L: "\<exists>v. before p @ entries l @ (key, v) # entries r @ behind p = entries t" "rb l \<and> rb r \<and> bh l = bh r"
    "c \<longrightarrow> \<not> red l \<and> \<not> red r \<and> p \<noteq> [] \<and> top_black p" "rbp p (bh l + (if c then 0 else 1))"
    using locate_Some[OF l] t by auto
  obtain v where v: "before p @ entries l @ (key, v) # entries r @ behind p = entries t" using L(1) by blast
  let ?xs = "before p @ entries l" and ?ys = "entries r @ behind p"
  have U: "rb n" "rbp q (bh n + (if lost then 0 else 1))" "lost \<longrightarrow> \<not> red n \<and> q \<noteq> []"
    using unlink_rb[OF u] L(2-4) by auto
  have "\<exists>t'. tree_del t key = Some t' \<and> rb t' \<and> \<not> red t' \<and> entries t' = before q @ entries n @ behind q"
  proof (cases lost)
    case True
    then show ?thesis using rb_plug[of n q] U l u by (simp add: tree_del_def)
  next
    case False
    show ?thesis
    proof (cases "red n")
      case True
      then have "rb (plug q (paint False n)) \<and> (q \<noteq> [] \<longrightarrow> \<not> red (plug q (paint False n)))"
        using rb_plug[of "paint False n" q] paint_red[of n] U False by simp
      then have "rb (plug q (paint False n))" "\<not> red (plug q (paint False n))" by (cases q; simp)+
      then show ?thesis using l u True False by (simp add: tree_del_def)
    next
      case n: False
      obtain t' where t': "del_loop n q = Some t'" "rb t'" "\<not> red t'" using del_loop_rb[of n q] U False n by auto
      then show ?thesis using del_loop_entries[OF t'(1)] l u False n by (simp add: tree_del_def)
    qed
  qed
  then obtain t' where t': "tree_del t key = Some t'" "rb t'" "\<not> red t'" "entries t' = before q @ entries n @ behind q" by blast
  have e: "entries t' = ?xs @ ?ys" using t'(4) unlink_entries[OF u] by simp
  have s: "sorted_wrt (<) (map fst (?xs @ (key, v) # ?ys))" using t v by (simp add: sorted_tree_def)
  then have "sorted_tree t'" by (auto simp: sorted_tree_def e sorted_wrt_append)
  moreover have "tree_map t' = (tree_map t)(key := None)"
  proof -
    have a: "map_of ?xs key = None" "map_of ?ys key = None" using s by (auto simp: map_of_eq_None_iff sorted_wrt_append)
    have "tree_map t = map_of (?xs @ (key, v) # ?ys)" using v by simp
    also have "\<dots> = (map_of (?xs @ ?ys))(key \<mapsto> v)" by (rule map_of_insert[OF a(1)])
    finally show ?thesis using a by (auto simp: e map_add_def fun_eq_iff split: option.splits)
  qed
  ultimately show ?thesis using t' by (simp add: tree_ok_def)
qed

text \<open>The number of steps of a descent.\<close>

fun height :: "'v tree \<Rightarrow> nat" where
  "height Leaf = 0"
| "height (Node c l k v r) = Suc (max (height l) (height r))"

lemma height_bh: "rb t \<Longrightarrow> height t \<le> 2 * bh t + (if red t then 1 else 0)"
  by (induction t) (auto split: if_splits)

lemma bh_entries: "rb t \<Longrightarrow> 2 ^ bh t \<le> Suc (length (entries t))"
proof (induction t)
  case (Node c l k v r)
  then have "2 ^ bh l \<le> Suc (length (entries l))" "2 ^ bh l \<le> Suc (length (entries r))" by auto
  then show ?case by auto
qed simp

lemma height_log:
  assumes "tree_ok t"
  shows "2 ^ height t \<le> (Suc (length (entries t)))\<^sup>2"
proof -
  have "height t \<le> 2 * bh t" using height_bh[of t] assms by (simp add: tree_ok_def)
  then have "(2 :: nat) ^ height t \<le> 2 ^ (2 * bh t)" by (rule power_increasing) simp
  also have "\<dots> = (2 ^ bh t)\<^sup>2" by (simp add: power_mult power2_eq_square flip: power_mult_distrib)
  also have "\<dots> \<le> (Suc (length (entries t)))\<^sup>2" using bh_entries[of t] assms by (intro power_mono) (simp_all add: tree_ok_def)
  finally show ?thesis .
qed

lemma root_map: "tree_root t = None \<longleftrightarrow> t = Leaf" "tree_ok t \<Longrightarrow> tree_root t = Some v \<Longrightarrow> \<exists>key. tree_map t key = Some v"
proof -
  show "tree_root t = None \<longleftrightarrow> t = Leaf" by (cases t) simp_all
  assume t: "tree_ok t" "tree_root t = Some v"
  then obtain c l k r where e: "t = Node c l k v r" by (cases t) simp_all
  have "map_of (entries l) k = None" using t(1) e by (auto simp: tree_ok_def map_of_eq_None_iff)
  then show "\<exists>key. tree_map t key = Some v" using e by (intro exI[of _ k]) (simp add: map_add_def)
qed

subsection \<open>Properties\<close>

text \<open>
  C40: The red-black tree implements a finite map. Adding a new key and removing a present one return without following a
  null pointer, keep the tree sorted and balanced, and change exactly that key; adding a present key is refused and
  changes nothing; looking up finds what is there. A descent takes at most twice the logarithm of the number of entries.
\<close>

theorem tree_refines_map:
  assumes "tree_ok t"
  shows "(\<exists>t'. tree_add t key v = Some (if tree_map t key = None then 0 else - 1, t') \<and> tree_ok t' \<and>
      tree_map t' = (if tree_map t key = None then (tree_map t)(key \<mapsto> v) else tree_map t)) \<and>
    (tree_map t key \<noteq> None \<longrightarrow> (\<exists>t'. tree_del t key = Some t' \<and> tree_ok t' \<and> tree_map t' = (tree_map t)(key := None))) \<and>
    tree_find t key = tree_map t key \<and> 2 ^ height t \<le> (Suc (length (entries t)))\<^sup>2"
  using add_ok[OF assms] del_ok[OF assms] find_map[of t key] height_log[OF assms] assms by (auto simp: tree_ok_def)

definition ex_tree :: "nat tree" where
  "ex_tree = Node False (Node True Leaf 1 10 Leaf) 3 30 (Node True Leaf 5 50 Leaf)"

theorem tree_refines_map_witness:
  "tree_find ex_tree 5 = Some 50 \<and> (\<exists>t'. tree_del ex_tree 3 = Some t' \<and> tree_ok t' \<and> tree_map t' = (tree_map ex_tree)(3 := None))"
proof -
  have "tree_ok ex_tree" by (simp add: tree_ok_def ex_tree_def)
  from tree_refines_map[OF this, of 5 0] tree_refines_map[OF this, of 3 0] show ?thesis by (simp add: ex_tree_def)
qed

end
