(* ===== verification/Wepoll_Queue.thy ===== *)
theory Wepoll_Queue
  imports Prelude
begin

section \<open>The queues of \<^verbatim>\<open>wepoll.c\<close>\<close>

text \<open>
  Circular doubly linked lists with the nodes inside the queued structures; a node that is in no queue points to itself.
  A store gives the two pointers of every node; the head of a queue is a node too. The predicate \<open>ring\<close> says that a
  head carries a list, and the lemmas below turn every pointer operation into an operation on lists.
\<close>

type_synonym qnode = nat

record qstore =
  q_prev :: "qnode \<Rightarrow> qnode"
  q_next :: "qnode \<Rightarrow> qnode"

definition set_prev :: "qnode \<Rightarrow> qnode \<Rightarrow> qstore \<Rightarrow> qstore" where
  "set_prev n p S = S\<lparr>q_prev := (q_prev S)(n := p)\<rparr>"

definition set_next :: "qnode \<Rightarrow> qnode \<Rightarrow> qstore \<Rightarrow> qstore" where
  "set_next n p S = S\<lparr>q_next := (q_next S)(n := p)\<rparr>"

definition queue_node_init :: "qnode \<Rightarrow> qstore \<Rightarrow> qstore" where
  "queue_node_init n S = set_next n n (set_prev n n S)"

definition queue_init :: "qnode \<Rightarrow> qstore \<Rightarrow> qstore" where
  "queue_init h S = queue_node_init h S"

definition queue__detach_node :: "qnode \<Rightarrow> qstore \<Rightarrow> qstore" where
  "queue__detach_node n S =
     (let S = set_next (q_prev S n) (q_next S n) S
      in set_prev (q_next S n) (q_prev S n) S)"

definition queue_is_enqueued :: "qnode \<Rightarrow> qstore \<Rightarrow> bool" where
  "queue_is_enqueued n S \<longleftrightarrow> q_prev S n \<noteq> n"

definition queue_is_empty :: "qnode \<Rightarrow> qstore \<Rightarrow> bool" where
  "queue_is_empty h S \<longleftrightarrow> \<not> queue_is_enqueued h S"

definition queue_first :: "qnode \<Rightarrow> qstore \<Rightarrow> qnode option" where
  "queue_first h S = (if \<not> queue_is_empty h S then Some (q_next S h) else None)"

definition queue_last :: "qnode \<Rightarrow> qstore \<Rightarrow> qnode option" where
  "queue_last h S = (if \<not> queue_is_empty h S then Some (q_prev S h) else None)"

definition queue_prepend :: "qnode \<Rightarrow> qnode \<Rightarrow> qstore \<Rightarrow> qstore" where
  "queue_prepend h n S =
     (let S = set_next n (q_next S h) S;
          S = set_prev n h S;
          S = set_prev (q_next S n) n S
      in set_next h n S)"

definition queue_append :: "qnode \<Rightarrow> qnode \<Rightarrow> qstore \<Rightarrow> qstore" where
  "queue_append h n S =
     (let S = set_next n h S;
          S = set_prev n (q_prev S h) S;
          S = set_next (q_prev S n) n S
      in set_prev h n S)"

definition queue_move_to_start :: "qnode \<Rightarrow> qnode \<Rightarrow> qstore \<Rightarrow> qstore" where
  "queue_move_to_start h n S = queue_prepend h n (queue__detach_node n S)"

definition queue_move_to_end :: "qnode \<Rightarrow> qnode \<Rightarrow> qstore \<Rightarrow> qstore" where
  "queue_move_to_end h n S = queue_append h n (queue__detach_node n S)"

definition queue_remove :: "qnode \<Rightarrow> qstore \<Rightarrow> qstore" where
  "queue_remove n S = queue_node_init n (queue__detach_node n S)"

lemmas queue_defs = set_prev_def set_next_def queue_node_init_def queue_init_def queue__detach_node_def queue_is_enqueued_def queue_is_empty_def
  queue_first_def queue_last_def queue_prepend_def queue_append_def queue_move_to_start_def queue_move_to_end_def queue_remove_def

subsection \<open>Rings\<close>

fun chain :: "qstore \<Rightarrow> qnode \<Rightarrow> qnode list \<Rightarrow> qnode \<Rightarrow> bool" where
  "chain S a [] b \<longleftrightarrow> q_next S a = b \<and> q_prev S b = a"
| "chain S a (x # xs) b \<longleftrightarrow> q_next S a = x \<and> q_prev S x = a \<and> chain S x xs b"

definition ring :: "qstore \<Rightarrow> qnode \<Rightarrow> qnode list \<Rightarrow> bool" where
  "ring S h xs \<longleftrightarrow> distinct (h # xs) \<and> chain S h xs h"

definition alone :: "qstore \<Rightarrow> qnode \<Rightarrow> bool" where
  "alone S n \<longleftrightarrow> q_prev S n = n \<and> q_next S n = n"

lemma chain_app [simp]: "chain S a (xs @ x # ys) b \<longleftrightarrow> chain S a xs x \<and> chain S x ys b"
  by (induction xs arbitrary: a) auto

lemma chain_cong:
  "chain S a xs b \<Longrightarrow> (\<And>n. n = a \<or> n \<in> set xs \<Longrightarrow> q_next S' n = q_next S n) \<Longrightarrow> (\<And>n. n = b \<or> n \<in> set xs \<Longrightarrow> q_prev S' n = q_prev S n) \<Longrightarrow> chain S' a xs b"
  by (induction xs arbitrary: a) auto

lemma chain_ends: "chain S a xs b \<Longrightarrow> q_next S a = (case xs of [] \<Rightarrow> b | x # _ \<Rightarrow> x)" "chain S a xs b \<Longrightarrow> q_prev S b = (if xs = [] then a else last xs)"
proof -
  show "chain S a xs b \<Longrightarrow> q_next S a = (case xs of [] \<Rightarrow> b | x # _ \<Rightarrow> x)" by (cases xs) simp_all
  show "chain S a xs b \<Longrightarrow> q_prev S b = (if xs = [] then a else last xs)" by (cases xs rule: rev_cases) simp_all
qed

text \<open>What an operation on a ring and a node may write.\<close>

definition only :: "qnode set \<Rightarrow> qstore \<Rightarrow> qstore \<Rightarrow> bool" where
  "only X S S' \<longleftrightarrow> (\<forall>n. n \<notin> X \<longrightarrow> q_prev S' n = q_prev S n \<and> q_next S' n = q_next S n)"

lemma ring_other:
  assumes "only X S S'" "set (h # xs) \<inter> X = {}" "ring S h xs"
  shows "ring S' h xs"
proof -
  have e: "q_next S' n = q_next S n \<and> q_prev S' n = q_prev S n" if "n \<in> set (h # xs)" for n using assms(1,2) that unfolding only_def by blast
  have "chain S h xs h" using assms(3) by (simp add: ring_def)
  then have "chain S' h xs h" by (rule chain_cong) (use e in auto)
  then show ?thesis using assms(3) by (simp add: ring_def)
qed

lemma alone_other: "only X S S' \<Longrightarrow> n \<notin> X \<Longrightarrow> alone S n \<Longrightarrow> alone S' n"
  by (simp add: only_def alone_def)

lemma ring_init: "ring (queue_init h S) h []" "only {h} S (queue_init h S)" "alone (queue_node_init n S) n" "only {n} S (queue_node_init n S)"
  by (simp_all add: ring_def alone_def only_def queue_defs)

lemma ring_first:
  assumes "ring S h xs"
  shows "queue_is_empty h S \<longleftrightarrow> xs = []" "queue_first h S = (case xs of [] \<Rightarrow> None | x # _ \<Rightarrow> Some x)"
    "queue_last h S = (if xs = [] then None else Some (last xs))" "n \<in> set xs \<Longrightarrow> queue_is_enqueued n S"
proof -
  have d: "h \<notin> set xs" "chain S h xs h" "distinct xs" using assms by (auto simp: ring_def)
  note e = chain_ends[OF d(2)]
  have "last xs \<noteq> h" if "xs \<noteq> []" using d(1) that last_in_set by metis
  then show "queue_is_empty h S \<longleftrightarrow> xs = []" using e(2) by (auto simp: queue_defs)
  then show "queue_first h S = (case xs of [] \<Rightarrow> None | x # _ \<Rightarrow> Some x)" "queue_last h S = (if xs = [] then None else Some (last xs))"
    using e by (auto simp: queue_first_def queue_last_def split: list.splits)
  show "queue_is_enqueued n S" if n: "n \<in> set xs"
  proof -
    obtain ys zs where xs: "xs = ys @ n # zs" using n by (auto simp: in_set_conv_decomp)
    then have "q_prev S n = (if ys = [] then h else last ys)" using d(2) chain_ends(2)[of S h ys n] by simp
    moreover have "h \<noteq> n" using d(1) n by auto
    moreover have "last ys \<noteq> n" if "ys \<noteq> []" using d(3) xs last_in_set[OF that] by auto
    ultimately show ?thesis by (simp add: queue_defs split: if_splits)
  qed
qed

lemma ring_prepend:
  assumes "ring S h xs" "n \<notin> set (h # xs)"
  shows "ring (queue_prepend h n S) h (n # xs)" "only (set (h # n # xs)) S (queue_prepend h n S)"
proof -
  have d: "h \<notin> set xs" "chain S h xs h" "distinct xs" "n \<noteq> h" "n \<notin> set xs" using assms by (auto simp: ring_def)
  have nx: "q_next S h \<in> set (h # xs)" using chain_ends(1)[OF d(2)] by (auto split: list.splits)
  then have nn: "n \<noteq> q_next S h" using d by auto
  have "chain (queue_prepend h n S) n xs h"
  proof (cases xs)
    case Nil
    then show ?thesis using d by (simp add: queue_defs Let_def)
  next
    case (Cons x ys)
    then have x: "q_next S h = x" "chain S x ys h" "x \<noteq> h" "x \<noteq> n" "x \<notin> set ys" using d by auto
    have "chain (queue_prepend h n S) x ys h"
      by (rule chain_cong[OF x(2)]) (use x d Cons in \<open>auto simp: queue_defs Let_def\<close>)
    then show ?thesis using x d Cons by (simp add: queue_defs Let_def)
  qed
  then show "ring (queue_prepend h n S) h (n # xs)" using d nn by (simp add: ring_def queue_defs Let_def)
  show "only (set (h # n # xs)) S (queue_prepend h n S)" using nx d(4) by (auto simp: only_def queue_defs Let_def)
qed

lemma ring_append:
  assumes "ring S h xs" "n \<notin> set (h # xs)"
  shows "ring (queue_append h n S) h (xs @ [n])" "only (set (h # n # xs)) S (queue_append h n S)"
proof -
  have d: "h \<notin> set xs" "chain S h xs h" "distinct xs" "n \<noteq> h" "n \<notin> set xs" using assms by (auto simp: ring_def)
  have pv: "q_prev S h = (if xs = [] then h else last xs)" by (rule chain_ends(2)[OF d(2)])
  have "chain (queue_append h n S) h xs n"
  proof (cases xs rule: rev_cases)
    case Nil
    then show ?thesis using d by (simp add: queue_defs Let_def)
  next
    case (snoc ys x)
    then have x: "q_prev S h = x" "chain S h ys x" "x \<noteq> h" "x \<noteq> n" "x \<notin> set ys" using d by auto
    have "chain (queue_append h n S) h ys x"
      by (rule chain_cong[OF x(2)]) (use x d snoc in \<open>auto simp: queue_defs Let_def\<close>)
    then show ?thesis using x d snoc by (simp add: queue_defs Let_def)
  qed
  then show "ring (queue_append h n S) h (xs @ [n])" using d pv last_in_set[of xs] by (auto simp: ring_def queue_defs Let_def)
  have "q_prev S h \<in> set (h # xs)" using pv by auto
  then show "only (set (h # n # xs)) S (queue_append h n S)" using d(4) by (auto simp: only_def queue_defs Let_def)
qed

lemma ring_detach:
  assumes "ring S h (xs @ n # ys)"
  shows "ring (queue__detach_node n S) h (xs @ ys)" "only (set (h # xs @ ys)) S (queue__detach_node n S)"
proof -
  have d: "h \<notin> set (xs @ n # ys)" "chain S h xs n" "chain S n ys h" "distinct (xs @ n # ys)" using assms by (auto simp: ring_def)
  let ?S = "queue__detach_node n S"
  have p: "q_prev S n = (if xs = [] then h else last xs)" by (rule chain_ends(2)[OF d(2)])
  have q: "q_next S n = (case ys of [] \<Rightarrow> h | y # _ \<Rightarrow> y)" by (rule chain_ends(1)[OF d(3)])
  have pn: "q_prev S n \<noteq> n" "q_next S n \<noteq> n" using p q d(1,4) last_in_set[of xs] by (auto split: list.splits if_splits)
  have s: "q_next ?S m = (if m = q_prev S n then q_next S n else q_next S m)" "q_prev ?S m = (if m = q_next S n then q_prev S n else q_prev S m)" for m
    using pn by (auto simp: queue_defs Let_def)
  have "chain ?S h (xs @ ys) h"
  proof (cases ys)
    case Nil
    show ?thesis
    proof (cases xs rule: rev_cases)
      case Nil
      then show ?thesis using p q \<open>ys = []\<close> by (simp add: s)
    next
      case (snoc zs x)
      have "chain ?S h zs x" by (rule chain_cong[of S]) (use d snoc p q Nil in \<open>auto simp: s\<close>)
      then show ?thesis using snoc p q Nil d by (simp add: s)
    qed
  next
    case (Cons y zs)
    have z: "chain ?S y zs h" by (rule chain_cong[of S]) (use d Cons p q in \<open>auto simp: s split: if_splits dest: last_in_set\<close>)
    have "chain ?S h xs y"
    proof (cases xs rule: rev_cases)
      case Nil
      then show ?thesis using p q Cons by (simp add: s)
    next
      case (snoc us x)
      have "chain ?S h us x" by (rule chain_cong[of S]) (use d snoc p q Cons in \<open>auto simp: s\<close>)
      then show ?thesis using snoc p q Cons d by (simp add: s)
    qed
    then show ?thesis using z Cons by simp
  qed
  then show "ring ?S h (xs @ ys)" using d by (auto simp: ring_def)
  have "q_prev S n \<in> set (h # xs @ ys)" "q_next S n \<in> set (h # xs @ ys)" using p q by (auto split: list.splits)
  then show "only (set (h # xs @ ys)) S ?S" by (auto simp: only_def s)
qed

lemma only_trans: "only X S S' \<Longrightarrow> only Y S' S'' \<Longrightarrow> X \<subseteq> Z \<Longrightarrow> Y \<subseteq> Z \<Longrightarrow> only Z S S''"
  unfolding only_def by (metis subsetD)

lemma ring_remove:
  assumes "ring S h (xs @ n # ys)"
  shows "ring (queue_remove n S) h (xs @ ys)" "alone (queue_remove n S) n" "only (set (h # xs @ n # ys)) S (queue_remove n S)"
proof -
  note D = ring_detach[OF assms]
  have n: "set (h # xs @ ys) \<inter> {n} = {}" using assms by (auto simp: ring_def)
  show "ring (queue_remove n S) h (xs @ ys)" unfolding queue_remove_def by (rule ring_other[OF ring_init(4) n D(1)])
  show "alone (queue_remove n S) n" unfolding queue_remove_def by (rule ring_init(3))
  show "only (set (h # xs @ n # ys)) S (queue_remove n S)" unfolding queue_remove_def by (rule only_trans[OF D(2) ring_init(4)]) auto
qed

lemma ring_move:
  assumes "ring S h (xs @ n # ys)"
  shows "ring (queue_move_to_start h n S) h (n # xs @ ys)" "ring (queue_move_to_end h n S) h (xs @ ys @ [n])"
    "only (set (h # xs @ n # ys)) S (queue_move_to_start h n S)" "only (set (h # xs @ n # ys)) S (queue_move_to_end h n S)"
proof -
  note D = ring_detach[OF assms]
  have n: "n \<notin> set (h # xs @ ys)" using assms by (auto simp: ring_def)
  note P = ring_prepend[OF D(1) n] and A = ring_append[OF D(1) n]
  show "ring (queue_move_to_start h n S) h (n # xs @ ys)" "ring (queue_move_to_end h n S) h (xs @ ys @ [n])"
    using P(1) A(1) by (simp_all add: queue_move_to_start_def queue_move_to_end_def)
  show "only (set (h # xs @ n # ys)) S (queue_move_to_start h n S)" unfolding queue_move_to_start_def by (rule only_trans[OF D(2) P(2)]) auto
  show "only (set (h # xs @ n # ys)) S (queue_move_to_end h n S)" unfolding queue_move_to_end_def by (rule only_trans[OF D(2) A(2)]) auto
qed

text \<open>
  The queues are lists. On a ring that carries a list, testing for emptiness and reading the first and the last element
  answer as on the list; prepending and appending a node that is in no queue, removing a node, and moving it to the start or
  to the end leave a ring that carries the list changed in that way; a removed node points to itself, so it counts as not
  enqueued, and every other queue, whose head and nodes are not those of this one, is untouched.
\<close>

theorem queue_refines_list:
  assumes R: "ring S h (xs @ n # ys)" and m: "m \<notin> set (h # xs @ n # ys)" and O: "ring S k zs" "set (k # zs) \<inter> set (h # xs @ n # ys) = {}" "m \<notin> set (k # zs)"
  shows "\<not> queue_is_empty h S \<and> queue_is_enqueued n S \<and> queue_first h S = Some (hd (xs @ n # ys)) \<and> queue_last h S = Some (last (xs @ n # ys)) \<and>
    ring (queue_prepend h m S) h (m # xs @ n # ys) \<and> ring (queue_append h m S) h (xs @ n # ys @ [m]) \<and>
    ring (queue_remove n S) h (xs @ ys) \<and> \<not> queue_is_enqueued n (queue_remove n S) \<and>
    ring (queue_move_to_start h n S) h (n # xs @ ys) \<and> ring (queue_move_to_end h n S) h (xs @ ys @ [n]) \<and>
    ring (queue_prepend h m S) k zs \<and> ring (queue_append h m S) k zs \<and> ring (queue_remove n S) k zs \<and>
    ring (queue_move_to_start h n S) k zs \<and> ring (queue_move_to_end h n S) k zs"
proof -
  note P = ring_prepend[OF R m] and A = ring_append[OF R m] and D = ring_remove[OF R] and M = ring_move[OF R] and F = ring_first[OF R]
  have far: "ring S' k zs" if "only X S S'" "X \<subseteq> set (h # m # xs @ n # ys)" for S' X
    by (rule ring_other[OF that(1) _ O(1)]) (use that(2) O(2,3) in auto)
  have "ring (queue_prepend h m S) k zs" "ring (queue_append h m S) k zs" "ring (queue_remove n S) k zs"
    "ring (queue_move_to_start h n S) k zs" "ring (queue_move_to_end h n S) k zs"
    using far[OF P(2)] far[OF A(2)] far[OF D(3)] far[OF M(3)] far[OF M(4)] by auto
  moreover have "\<not> queue_is_enqueued n (queue_remove n S)" using D(2) by (simp add: alone_def queue_is_enqueued_def)
  ultimately show ?thesis using F(1,2,3) F(4)[of n] P(1) A(1) D(1) M(1,2) by (simp split: list.splits)
qed

definition ex_queue :: qstore where
  "ex_queue = queue_append 0 2 (queue_append 0 1 (queue_init 9 (queue_init 0 \<lparr>q_prev = id, q_next = id\<rparr>)))"

theorem queue_refines_list_witness:
  "queue_first 0 ex_queue = Some 1 \<and> ring (queue_remove 1 ex_queue) 0 [2] \<and> ring (queue_move_to_start 0 1 ex_queue) 9 []"
proof -
  have a: "ring ex_queue 0 ([] @ 1 # [2])" by (simp add: ex_queue_def ring_def queue_defs Let_def)
  have b: "ring ex_queue 9 []" by (simp add: ex_queue_def ring_def queue_defs Let_def)
  from queue_refines_list[OF a _ b, of 5] show ?thesis by simp
qed

end
