(* ===== verification/Wepoll_Port.thy ===== *)
theory Wepoll_Port
  imports Wepoll_Tree Wepoll_Queue
begin

section \<open>Ports and sockets of \<^verbatim>\<open>wepoll.c\<close>\<close>

text \<open>
  The emulation of epoll on Windows: a port owns the registered sockets, their state machine and the queues. One thread
  holds the port's lock at a time; each definition is what runs under the lock. The queues are lists, as \<open>Wepoll_Queue\<close>
  shows; the search tree is the one of \<open>Wepoll_Tree\<close>. Addresses of allocated structures are numbers; \<open>sock_live\<close> and
  \<open>group_live\<close> record what is allocated, and \<open>pok\<close> is cleared by a failed assertion and by an access to something freed.
  \<open>flight\<close> is the set of sockets whose poll request the library still has to hear of: submitted, and its completion
  not yet processed.
\<close>

subsection \<open>Errors\<close>

text \<open>Error codes come from the Windows and C headers; here they are their names.\<close>

type_synonym win_error = string

definition errno_mappings :: "(win_error \<times> string) list" where
  "errno_mappings = [
    (''ERROR_ACCESS_DENIED'', ''EACCES''), (''ERROR_ALREADY_EXISTS'', ''EEXIST''), (''ERROR_BAD_COMMAND'', ''EACCES''), 
    (''ERROR_BAD_EXE_FORMAT'', ''ENOEXEC''), (''ERROR_BAD_LENGTH'', ''EACCES''), (''ERROR_BAD_NETPATH'', ''ENOENT''), 
    (''ERROR_BAD_NET_NAME'', ''ENOENT''), (''ERROR_BAD_NET_RESP'', ''ENETDOWN''), (''ERROR_BAD_PATHNAME'', ''ENOENT''), 
    (''ERROR_BROKEN_PIPE'', ''EPIPE''), (''ERROR_CANNOT_MAKE'', ''EACCES''), (''ERROR_COMMITMENT_LIMIT'', ''ENOMEM''), 
    (''ERROR_CONNECTION_ABORTED'', ''ECONNABORTED''), (''ERROR_CONNECTION_ACTIVE'', ''EISCONN''), (''ERROR_CONNECTION_REFUSED'', ''ECONNREFUSED''), 
    (''ERROR_CRC'', ''EACCES''), (''ERROR_DIR_NOT_EMPTY'', ''ENOTEMPTY''), (''ERROR_DISK_FULL'', ''ENOSPC''), (''ERROR_DUP_NAME'', ''EADDRINUSE''), 
    (''ERROR_FILENAME_EXCED_RANGE'', ''ENOENT''), (''ERROR_FILE_NOT_FOUND'', ''ENOENT''), (''ERROR_GEN_FAILURE'', ''EACCES''), 
    (''ERROR_GRACEFUL_DISCONNECT'', ''EPIPE''), (''ERROR_HOST_DOWN'', ''EHOSTUNREACH''), (''ERROR_HOST_UNREACHABLE'', ''EHOSTUNREACH''), 
    (''ERROR_INSUFFICIENT_BUFFER'', ''EFAULT''), (''ERROR_INVALID_ADDRESS'', ''EADDRNOTAVAIL''), (''ERROR_INVALID_FUNCTION'', ''EINVAL''), 
    (''ERROR_INVALID_HANDLE'', ''EBADF''), (''ERROR_INVALID_NETNAME'', ''EADDRNOTAVAIL''), (''ERROR_INVALID_PARAMETER'', ''EINVAL''), 
    (''ERROR_INVALID_USER_BUFFER'', ''EMSGSIZE''), (''ERROR_IO_PENDING'', ''EINPROGRESS''), (''ERROR_LOCK_VIOLATION'', ''EACCES''), 
    (''ERROR_MORE_DATA'', ''EMSGSIZE''), (''ERROR_NETNAME_DELETED'', ''ECONNABORTED''), (''ERROR_NETWORK_ACCESS_DENIED'', ''EACCES''), 
    (''ERROR_NETWORK_BUSY'', ''ENETDOWN''), (''ERROR_NETWORK_UNREACHABLE'', ''ENETUNREACH''), (''ERROR_NOACCESS'', ''EFAULT''), 
    (''ERROR_NONPAGED_SYSTEM_RESOURCES'', ''ENOMEM''), (''ERROR_NOT_ENOUGH_MEMORY'', ''ENOMEM''), (''ERROR_NOT_ENOUGH_QUOTA'', ''ENOMEM''), 
    (''ERROR_NOT_FOUND'', ''ENOENT''), (''ERROR_NOT_LOCKED'', ''EACCES''), (''ERROR_NOT_READY'', ''EACCES''), (''ERROR_NOT_SAME_DEVICE'', ''EXDEV''), 
    (''ERROR_NOT_SUPPORTED'', ''ENOTSUP''), (''ERROR_NO_MORE_FILES'', ''ENOENT''), (''ERROR_NO_SYSTEM_RESOURCES'', ''ENOMEM''), 
    (''ERROR_OPERATION_ABORTED'', ''EINTR''), (''ERROR_OUT_OF_PAPER'', ''EACCES''), (''ERROR_PAGED_SYSTEM_RESOURCES'', ''ENOMEM''), 
    (''ERROR_PAGEFILE_QUOTA'', ''ENOMEM''), (''ERROR_PATH_NOT_FOUND'', ''ENOENT''), (''ERROR_PIPE_NOT_CONNECTED'', ''EPIPE''), 
    (''ERROR_PORT_UNREACHABLE'', ''ECONNRESET''), (''ERROR_PROTOCOL_UNREACHABLE'', ''ENETUNREACH''), (''ERROR_REM_NOT_LIST'', ''ECONNREFUSED''), 
    (''ERROR_REQUEST_ABORTED'', ''EINTR''), (''ERROR_REQ_NOT_ACCEP'', ''EWOULDBLOCK''), (''ERROR_SECTOR_NOT_FOUND'', ''EACCES''), 
    (''ERROR_SEM_TIMEOUT'', ''ETIMEDOUT''), (''ERROR_SHARING_VIOLATION'', ''EACCES''), (''ERROR_TOO_MANY_NAMES'', ''ENOMEM''), 
    (''ERROR_TOO_MANY_OPEN_FILES'', ''EMFILE''), (''ERROR_UNEXP_NET_ERR'', ''ECONNABORTED''), (''ERROR_WAIT_NO_CHILDREN'', ''ECHILD''), 
    (''ERROR_WORKING_SET_QUOTA'', ''ENOMEM''), (''ERROR_WRITE_PROTECT'', ''EACCES''), (''ERROR_WRONG_DISK'', ''EACCES''), (''WSAEACCES'', ''EACCES''), 
    (''WSAEADDRINUSE'', ''EADDRINUSE''), (''WSAEADDRNOTAVAIL'', ''EADDRNOTAVAIL''), (''WSAEAFNOSUPPORT'', ''EAFNOSUPPORT''), 
    (''WSAECONNABORTED'', ''ECONNABORTED''), (''WSAECONNREFUSED'', ''ECONNREFUSED''), (''WSAECONNRESET'', ''ECONNRESET''), (''WSAEDISCON'', ''EPIPE''), 
    (''WSAEFAULT'', ''EFAULT''), (''WSAEHOSTDOWN'', ''EHOSTUNREACH''), (''WSAEHOSTUNREACH'', ''EHOSTUNREACH''), (''WSAEINPROGRESS'', ''EBUSY''), 
    (''WSAEINTR'', ''EINTR''), (''WSAEINVAL'', ''EINVAL''), (''WSAEISCONN'', ''EISCONN''), (''WSAEMSGSIZE'', ''EMSGSIZE''), 
    (''WSAENETDOWN'', ''ENETDOWN''), (''WSAENETRESET'', ''EHOSTUNREACH''), (''WSAENETUNREACH'', ''ENETUNREACH''), (''WSAENOBUFS'', ''ENOMEM''), 
    (''WSAENOTCONN'', ''ENOTCONN''), (''WSAENOTSOCK'', ''ENOTSOCK''), (''WSAEOPNOTSUPP'', ''EOPNOTSUPP''), (''WSAEPROCLIM'', ''ENOMEM''), 
    (''WSAESHUTDOWN'', ''EPIPE''), (''WSAETIMEDOUT'', ''ETIMEDOUT''), (''WSAEWOULDBLOCK'', ''EWOULDBLOCK''), (''WSANOTINITIALISED'', ''ENETDOWN''), 
    (''WSASYSNOTREADY'', ''ENETDOWN''), (''WSAVERNOTSUPPORTED'', ''ENOSYS'')]"

definition err__map_win_error_to_errno :: "win_error \<Rightarrow> string" where
  "err__map_win_error_to_errno e = (case map_of errno_mappings e of Some n \<Rightarrow> n | None \<Rightarrow> ''EINVAL'')"

subsection \<open>Constants\<close>

abbreviation (input) EPOLLIN :: u32 where "EPOLLIN \<equiv> 0x1"
abbreviation (input) EPOLLPRI :: u32 where "EPOLLPRI \<equiv> 0x2"
abbreviation (input) EPOLLOUT :: u32 where "EPOLLOUT \<equiv> 0x4"
abbreviation (input) EPOLLERR :: u32 where "EPOLLERR \<equiv> 0x8"
abbreviation (input) EPOLLHUP :: u32 where "EPOLLHUP \<equiv> 0x10"
abbreviation (input) EPOLLRDNORM :: u32 where "EPOLLRDNORM \<equiv> 0x40"
abbreviation (input) EPOLLRDBAND :: u32 where "EPOLLRDBAND \<equiv> 0x80"
abbreviation (input) EPOLLWRNORM :: u32 where "EPOLLWRNORM \<equiv> 0x100"
abbreviation (input) EPOLLWRBAND :: u32 where "EPOLLWRBAND \<equiv> 0x200"
abbreviation (input) EPOLLMSG :: u32 where "EPOLLMSG \<equiv> 0x400"
abbreviation (input) EPOLLRDHUP :: u32 where "EPOLLRDHUP \<equiv> 0x2000"
abbreviation (input) EPOLLONESHOT :: u32 where "EPOLLONESHOT \<equiv> 0x80000000"

abbreviation (input) AFD_POLL_RECEIVE :: u32 where "AFD_POLL_RECEIVE \<equiv> 0x1"
abbreviation (input) AFD_POLL_RECEIVE_EXPEDITED :: u32 where "AFD_POLL_RECEIVE_EXPEDITED \<equiv> 0x2"
abbreviation (input) AFD_POLL_SEND :: u32 where "AFD_POLL_SEND \<equiv> 0x4"
abbreviation (input) AFD_POLL_DISCONNECT :: u32 where "AFD_POLL_DISCONNECT \<equiv> 0x8"
abbreviation (input) AFD_POLL_ABORT :: u32 where "AFD_POLL_ABORT \<equiv> 0x10"
abbreviation (input) AFD_POLL_LOCAL_CLOSE :: u32 where "AFD_POLL_LOCAL_CLOSE \<equiv> 0x20"
abbreviation (input) AFD_POLL_ACCEPT :: u32 where "AFD_POLL_ACCEPT \<equiv> 0x80"
abbreviation (input) AFD_POLL_CONNECT_FAIL :: u32 where "AFD_POLL_CONNECT_FAIL \<equiv> 0x100"

abbreviation (input) STATUS_SUCCESS :: u32 where "STATUS_SUCCESS \<equiv> 0"
abbreviation (input) STATUS_PENDING :: u32 where "STATUS_PENDING \<equiv> 0x103"
abbreviation (input) STATUS_CANCELLED :: u32 where "STATUS_CANCELLED \<equiv> 0xC0000120"
abbreviation (input) STATUS_NOT_FOUND :: u32 where "STATUS_NOT_FOUND \<equiv> 0xC0000225"

abbreviation (input) EPOLL_CTL_ADD :: int where "EPOLL_CTL_ADD \<equiv> 1"
abbreviation (input) EPOLL_CTL_MOD :: int where "EPOLL_CTL_MOD \<equiv> 2"
abbreviation (input) EPOLL_CTL_DEL :: int where "EPOLL_CTL_DEL \<equiv> 3"
abbreviation (input) POLL_GROUP_MAX :: nat where "POLL_GROUP_MAX \<equiv> 32"
abbreviation (input) INVALID_SOCKET :: u64 where "INVALID_SOCKET \<equiv> - 1"

text \<open>\<^verbatim>\<open>NT_SUCCESS\<close>: the status as a signed 32-bit number.\<close>

definition NT_SUCCESS :: "u32 \<Rightarrow> bool" where
  "NT_SUCCESS status \<longleftrightarrow> 0 \<le> sint status"

subsection \<open>State\<close>

datatype sock_poll_status = SOCK_POLL_IDLE | SOCK_POLL_PENDING | SOCK_POLL_CANCELLED

record sock_state =
  io_status :: u32            \<comment> \<open>\<^verbatim>\<open>io_status_block.Status\<close>\<close>
  poll_handles :: u32         \<comment> \<open>\<^verbatim>\<open>poll_info.NumberOfHandles\<close>\<close>
  poll_events :: u32          \<comment> \<open>\<^verbatim>\<open>poll_info.Handles[0].Events\<close>\<close>
  sk_key :: u64               \<comment> \<open>\<^verbatim>\<open>tree_node.key\<close>\<close>
  sk_group :: nat             \<comment> \<open>\<^verbatim>\<open>poll_group\<close>\<close>
  base_socket :: u64
  user_data :: u64
  user_events :: u32
  pending_events :: u32
  poll_status :: sock_poll_status
  delete_pending :: bool

record poll_group =
  afd_handle :: nat
  group_size :: nat

record 'w port =
  iocp_handle :: "nat option"
  sock_tree :: "nat tree"
  sock_update_queue :: "nat list"
  sock_deleted_queue :: "nat list"
  poll_group_queue :: "nat list"
  active_poll_count :: nat
  socks :: "nat \<Rightarrow> sock_state"
  sock_live :: "nat set"
  groups :: "nat \<Rightarrow> poll_group"
  group_live :: "nat set"
  flight :: "nat set"
  last_error :: win_error
  errno :: string
  pok :: bool
  pos :: 'w

text \<open>The system calls; each maps the outside state to its result and the new outside state.\<close>

record 'w wenv =
  w_malloc :: "'w \<Rightarrow> bool \<times> 'w"
  w_create_file :: "'w \<Rightarrow> (u32 \<times> nat) \<times> 'w"                        \<comment> \<open>\<^verbatim>\<open>NtCreateFile\<close>: status and handle\<close>
  w_create_iocp :: "(nat \<times> nat) option \<Rightarrow> 'w \<Rightarrow> (nat + win_error) \<times> 'w"   \<comment> \<open>\<^verbatim>\<open>CreateIoCompletionPort\<close>: file and port, or a new port\<close>
  w_set_modes :: "nat \<Rightarrow> 'w \<Rightarrow> win_error option \<times> 'w"                \<comment> \<open>\<^verbatim>\<open>SetFileCompletionNotificationModes\<close>\<close>
  w_close_handle :: "nat \<Rightarrow> 'w \<Rightarrow> win_error option \<times> 'w"
  w_ioctl_poll :: "nat \<Rightarrow> u64 \<Rightarrow> u32 \<Rightarrow> nat \<Rightarrow> 'w \<Rightarrow> u32 \<times> 'w"            \<comment> \<open>\<^verbatim>\<open>NtDeviceIoControlFile\<close>: device, socket, events, request\<close>
  w_cancel_io :: "nat \<Rightarrow> nat \<Rightarrow> 'w \<Rightarrow> u32 \<times> 'w"                       \<comment> \<open>\<^verbatim>\<open>NtCancelIoFileEx\<close>\<close>
  w_dos_error :: "u32 \<Rightarrow> win_error"                               \<comment> \<open>\<^verbatim>\<open>RtlNtStatusToDosError\<close>\<close>
  w_base_handle :: "u64 \<Rightarrow> 'w \<Rightarrow> (u64 + win_error) \<times> 'w"             \<comment> \<open>\<^verbatim>\<open>WSAIoctl (SIO_BASE_HANDLE)\<close>\<close>
  w_bsp_handle :: "u64 \<Rightarrow> 'w \<Rightarrow> (u64 + win_error) \<times> 'w"              \<comment> \<open>\<^verbatim>\<open>WSAIoctl (SIO_BSP_HANDLE_POLL)\<close>\<close>
  w_tick :: "'w \<Rightarrow> u64 \<times> 'w"                                       \<comment> \<open>\<^verbatim>\<open>GetTickCount64\<close>\<close>
  w_wait :: "u32 \<Rightarrow> u32 \<Rightarrow> 'w port \<Rightarrow> (nat list + win_error) \<times> 'w port"   \<comment> \<open>the lock is given up, \<^verbatim>\<open>GetQueuedCompletionStatusEx\<close>, the lock is taken again\<close>
  w_handle_flags :: "nat \<Rightarrow> 'w \<Rightarrow> win_error option \<times> 'w"             \<comment> \<open>\<^verbatim>\<open>GetHandleInformation\<close>\<close>
  w_so_error :: "u64 \<Rightarrow> 'w \<Rightarrow> win_error option \<times> 'w"                  \<comment> \<open>\<^verbatim>\<open>getsockopt (SO_ERROR)\<close>\<close>

definition pchk :: "bool \<Rightarrow> 'w port \<Rightarrow> 'w port" where
  "pchk b P = P\<lparr>pok := pok P \<and> b\<rparr>"

definition upd_sock :: "nat \<Rightarrow> (sock_state \<Rightarrow> sock_state) \<Rightarrow> 'w port \<Rightarrow> 'w port" where
  "upd_sock s f P = P\<lparr>socks := (socks P)(s := f (socks P s))\<rparr>"

definition upd_group :: "nat \<Rightarrow> (poll_group \<Rightarrow> poll_group) \<Rightarrow> 'w port \<Rightarrow> 'w port" where
  "upd_group g f P = P\<lparr>groups := (groups P)(g := f (groups P g))\<rparr>"

definition err_map_win_error :: "'w port \<Rightarrow> 'w port" where
  "err_map_win_error P = P\<lparr>errno := err__map_win_error_to_errno (last_error P)\<rparr>"

definition err_set_win_error :: "win_error \<Rightarrow> 'w port \<Rightarrow> 'w port" where
  "err_set_win_error e P = P\<lparr>last_error := e, errno := err__map_win_error_to_errno e\<rparr>"

text \<open>An address that \<^verbatim>\<open>malloc\<close> may return: one that is not in use.\<close>

definition fresh :: "nat set \<Rightarrow> nat" where
  "fresh A = (if A = {} then 0 else Suc (Max A))"


subsection \<open>The AFD driver\<close>

definition afd_create_device_handle :: "'w wenv \<Rightarrow> nat \<Rightarrow> 'w port \<Rightarrow> nat option \<times> 'w port" where
  "afd_create_device_handle env iocp P =
     (let ((status, h), w) = w_create_file env (pos P); P = P\<lparr>pos := w\<rparr> in
      if status \<noteq> STATUS_SUCCESS then (None, err_set_win_error (w_dos_error env status) P)
      else
        let (r, w) = w_create_iocp env (Some (h, iocp)) (pos P); P = P\<lparr>pos := w\<rparr>;
            (e, P) = (case r of Inr e \<Rightarrow> (Some e, P)
                      | Inl _ \<Rightarrow> let (e, w) = w_set_modes env h (pos P) in (e, P\<lparr>pos := w\<rparr>))
        in case e of
             None \<Rightarrow> (Some h, P)
           | Some e \<Rightarrow>
               let P = P\<lparr>last_error := e\<rparr>;
                   (c, w) = w_close_handle env h (pos P);
                   P = P\<lparr>pos := w\<rparr>;
                   P = (case c of Some e \<Rightarrow> P\<lparr>last_error := e\<rparr> | None \<Rightarrow> P)
               in (None, err_map_win_error P))"

text \<open>The request is handed over with the socket and the events of \<^verbatim>\<open>poll_info\<close>; it is in flight unless it was refused.\<close>

definition afd_poll :: "'w wenv \<Rightarrow> nat \<Rightarrow> nat \<Rightarrow> 'w port \<Rightarrow> int \<times> 'w port" where
  "afd_poll env dev s P =
     (let P = upd_sock s (\<lambda>x. x\<lparr>io_status := STATUS_PENDING\<rparr>) P;
          (status, w) = w_ioctl_poll env dev (base_socket (socks P s)) (poll_events (socks P s)) s (pos P);
          P = P\<lparr>pos := w\<rparr>
      in if status = STATUS_SUCCESS then (0, P\<lparr>flight := insert s (flight P)\<rparr>)
         else if status = STATUS_PENDING then (- 1, err_set_win_error ''ERROR_IO_PENDING'' (P\<lparr>flight := insert s (flight P)\<rparr>))
         else (- 1, err_set_win_error (w_dos_error env status) P))"

definition afd_cancel_poll :: "'w wenv \<Rightarrow> nat \<Rightarrow> nat \<Rightarrow> 'w port \<Rightarrow> int \<times> 'w port" where
  "afd_cancel_poll env dev s P =
     (if io_status (socks P s) \<noteq> STATUS_PENDING then (0, P)
      else
        let (status, w) = w_cancel_io env dev s (pos P); P = P\<lparr>pos := w\<rparr> in
        if status = STATUS_SUCCESS \<or> status = STATUS_NOT_FOUND then (0, P)
        else (- 1, err_set_win_error (w_dos_error env status) P))"

subsection \<open>Poll groups\<close>

definition group_zero :: poll_group where
  "group_zero = \<lparr>afd_handle = 0, group_size = 0\<rparr>"

definition poll_group__new :: "'w wenv \<Rightarrow> 'w port \<Rightarrow> nat option \<times> 'w port" where
  "poll_group__new env P =
     (let P = pchk (iocp_handle P \<noteq> None) P;
          iocp = (case iocp_handle P of Some h \<Rightarrow> h | None \<Rightarrow> 0);
          (m, w) = w_malloc env (pos P); P = P\<lparr>pos := w\<rparr>
      in if \<not> m then (None, err_set_win_error ''ERROR_NOT_ENOUGH_MEMORY'' P)
         else
           let g = fresh (group_live P);
               P = P\<lparr>group_live := insert g (group_live P)\<rparr>;
               P = upd_group g (\<lambda>_. group_zero) P;
               (h, P) = afd_create_device_handle env iocp P
           in case h of
                None \<Rightarrow> (None, P\<lparr>group_live := group_live P - {g}\<rparr>)
              | Some h \<Rightarrow> (Some g, (upd_group g (\<lambda>x. x\<lparr>afd_handle := h\<rparr>) P)\<lparr>poll_group_queue := poll_group_queue P @ [g]\<rparr>))"

definition poll_group_delete :: "'w wenv \<Rightarrow> nat \<Rightarrow> 'w port \<Rightarrow> 'w port" where
  "poll_group_delete env g P =
     (let P = pchk (g \<in> group_live P \<and> group_size (groups P g) = 0) P;
          (e, w) = w_close_handle env (afd_handle (groups P g)) (pos P);
          P = P\<lparr>pos := w\<rparr>;
          P = P\<lparr>poll_group_queue := remove1 g (poll_group_queue P)\<rparr>
      in P\<lparr>group_live := group_live P - {g}\<rparr>)"

definition poll_group_acquire :: "'w wenv \<Rightarrow> 'w port \<Rightarrow> nat option \<times> 'w port" where
  "poll_group_acquire env P =
     (let g = (if poll_group_queue P \<noteq> [] then Some (last (poll_group_queue P)) else None);
          (g, P) = (case g of
             None \<Rightarrow> poll_group__new env P
           | Some g \<Rightarrow> if group_size (groups P g) \<ge> POLL_GROUP_MAX then poll_group__new env P else (Some g, P))
      in case g of
           None \<Rightarrow> (None, P)
         | Some g \<Rightarrow>
             let P = pchk (g \<in> group_live P) P;
                 P = upd_group g (\<lambda>x. x\<lparr>group_size := group_size x + 1\<rparr>) P;
                 P = (if group_size (groups P g) = POLL_GROUP_MAX
                      then P\<lparr>poll_group_queue := g # remove1 g (poll_group_queue P)\<rparr> else P)
             in (Some g, P))"

text \<open>\<^verbatim>\<open>group_size--\<close> of 0 wraps around, and the assertion behind it fails.\<close>

definition poll_group_release :: "nat \<Rightarrow> 'w port \<Rightarrow> 'w port" where
  "poll_group_release g P =
     (let P = pchk (g \<in> group_live P \<and> group_size (groups P g) \<noteq> 0) P;
          P = upd_group g (\<lambda>x. x\<lparr>group_size := group_size x - 1\<rparr>) P;
          P = pchk (group_size (groups P g) < POLL_GROUP_MAX) P
      in P\<lparr>poll_group_queue := remove1 g (poll_group_queue P) @ [g]\<rparr>)"

subsection \<open>Bookkeeping of the port\<close>

text \<open>A socket's queue node is shared by the two queues of sockets.\<close>

definition sock_enqueued :: "nat \<Rightarrow> 'w port \<Rightarrow> bool" where
  "sock_enqueued s P \<longleftrightarrow> s \<in> set (sock_update_queue P) \<or> s \<in> set (sock_deleted_queue P)"

definition dequeue_sock :: "nat \<Rightarrow> 'w port \<Rightarrow> 'w port" where
  "dequeue_sock s P = P\<lparr>sock_update_queue := remove1 s (sock_update_queue P), sock_deleted_queue := remove1 s (sock_deleted_queue P)\<rparr>"

definition port_request_socket_update :: "nat \<Rightarrow> 'w port \<Rightarrow> 'w port" where
  "port_request_socket_update s P = (if sock_enqueued s P then P else P\<lparr>sock_update_queue := sock_update_queue P @ [s]\<rparr>)"

definition port_cancel_socket_update :: "nat \<Rightarrow> 'w port \<Rightarrow> 'w port" where
  "port_cancel_socket_update s P = (if \<not> sock_enqueued s P then P else dequeue_sock s P)"

definition port_add_deleted_socket :: "nat \<Rightarrow> 'w port \<Rightarrow> 'w port" where
  "port_add_deleted_socket s P = (if sock_enqueued s P then P else P\<lparr>sock_deleted_queue := sock_deleted_queue P @ [s]\<rparr>)"

definition port_remove_deleted_socket :: "nat \<Rightarrow> 'w port \<Rightarrow> 'w port" where
  "port_remove_deleted_socket s P = (if \<not> sock_enqueued s P then P else dequeue_sock s P)"

definition port_register_socket :: "nat \<Rightarrow> u64 \<Rightarrow> 'w port \<Rightarrow> int \<times> 'w port" where
  "port_register_socket s socket P =
     (case tree_add (sock_tree P) socket s of
        None \<Rightarrow> (0, pchk False P)
      | Some (r, t) \<Rightarrow>
          if r < 0 then (- 1, err_set_win_error ''ERROR_ALREADY_EXISTS'' P)
          else (0, (upd_sock s (\<lambda>x. x\<lparr>sk_key := socket\<rparr>) P)\<lparr>sock_tree := t\<rparr>))"

definition port_unregister_socket :: "nat \<Rightarrow> 'w port \<Rightarrow> 'w port" where
  "port_unregister_socket s P =
     (let P = pchk (tree_find (sock_tree P) (sk_key (socks P s)) = Some s) P in
      case tree_del (sock_tree P) (sk_key (socks P s)) of None \<Rightarrow> pchk False P | Some t \<Rightarrow> P\<lparr>sock_tree := t\<rparr>)"

definition port_find_socket :: "u64 \<Rightarrow> 'w port \<Rightarrow> nat option \<times> 'w port" where
  "port_find_socket socket P =
     (case tree_find (sock_tree P) socket of
        None \<Rightarrow> (None, err_set_win_error ''ERROR_NOT_FOUND'' P)
      | Some s \<Rightarrow> (Some s, P))"

subsection \<open>Sockets\<close>

definition sock__cancel_poll :: "'w wenv \<Rightarrow> nat \<Rightarrow> 'w port \<Rightarrow> int \<times> 'w port" where
  "sock__cancel_poll env s P =
     (let P = pchk (s \<in> sock_live P \<and> poll_status (socks P s) = SOCK_POLL_PENDING) P;
          (r, P) = afd_cancel_poll env (afd_handle (groups P (sk_group (socks P s)))) s P
      in if r < 0 then (- 1, P)
         else (0, upd_sock s (\<lambda>x. x\<lparr>poll_status := SOCK_POLL_CANCELLED, pending_events := 0\<rparr>) P))"

definition sock__free :: "nat \<Rightarrow> 'w port \<Rightarrow> 'w port" where
  "sock__free s P = (pchk (s \<in> sock_live P) P)\<lparr>sock_live := sock_live P - {s}\<rparr>"

definition sock__delete :: "'w wenv \<Rightarrow> nat \<Rightarrow> bool \<Rightarrow> 'w port \<Rightarrow> 'w port" where
  "sock__delete env s force P =
     (let P = pchk (s \<in> sock_live P) P;
          P = (if \<not> delete_pending (socks P s) then
                 let P = (if poll_status (socks P s) = SOCK_POLL_PENDING then snd (sock__cancel_poll env s P) else P);
                     P = port_cancel_socket_update s P;
                     P = port_unregister_socket s P
                 in upd_sock s (\<lambda>x. x\<lparr>delete_pending := True\<rparr>) P
               else P)
      in if force \<or> poll_status (socks P s) = SOCK_POLL_IDLE then
           let P = port_remove_deleted_socket s P;
               P = poll_group_release (sk_group (socks P s)) P
           in sock__free s P
         else port_add_deleted_socket s P)"

text \<open>\<^verbatim>\<open>ws_get_base_socket\<close> unwraps layered service providers; a chain of them without end would be followed for ever.\<close>

definition ws__ioctl_get_bsp_socket :: "(u64 + win_error) \<times> 'w \<Rightarrow> 'w port \<Rightarrow> u64 \<times> 'w port" where
  "ws__ioctl_get_bsp_socket r P =
     (case r of (Inl b, w) \<Rightarrow> (b, P\<lparr>pos := w\<rparr>) | (Inr e, w) \<Rightarrow> (INVALID_SOCKET, P\<lparr>pos := w, last_error := e\<rparr>))"

partial_function (option) ws_get_base_socket :: "'w wenv \<Rightarrow> u64 \<Rightarrow> 'w port \<Rightarrow> (u64 \<times> 'w port) option" where
  "ws_get_base_socket env socket P =
     (let (base, P) = ws__ioctl_get_bsp_socket (w_base_handle env socket (pos P)) P in
      if base \<noteq> INVALID_SOCKET then Some (base, P)
      else
        let error = last_error P in
        if error = ''WSAENOTSOCK'' then Some (INVALID_SOCKET, err_set_win_error error P)
        else
          let (base, P) = ws__ioctl_get_bsp_socket (w_bsp_handle env socket (pos P)) P in
          if base \<noteq> INVALID_SOCKET \<and> base \<noteq> socket then ws_get_base_socket env base P
          else Some (INVALID_SOCKET, err_set_win_error error P))"

definition sock_zero :: "nat \<Rightarrow> u64 \<Rightarrow> sock_state" where
  "sock_zero g base = \<lparr>io_status = 0, poll_handles = 0, poll_events = 0, sk_key = 0, sk_group = g, base_socket = base, user_data = 0,
     user_events = 0, pending_events = 0, poll_status = SOCK_POLL_IDLE, delete_pending = False\<rparr>"

definition sock_new :: "'w wenv \<Rightarrow> u64 \<Rightarrow> 'w port \<Rightarrow> (nat option \<times> 'w port) option" where
  "sock_new env socket P =
     (if socket = 0 \<or> socket = INVALID_SOCKET then Some (None, err_set_win_error ''ERROR_INVALID_HANDLE'' P)
      else map_option (\<lambda>(base, P).
        if base = INVALID_SOCKET then (None, P)
        else
          case poll_group_acquire env P of
            (None, P) \<Rightarrow> (None, P)
          | (Some g, P) \<Rightarrow>
              let (m, w) = w_malloc env (pos P); P = P\<lparr>pos := w\<rparr> in
              if \<not> m then (None, poll_group_release g (err_set_win_error ''ERROR_NOT_ENOUGH_MEMORY'' P))
              else
                let s = fresh (sock_live P);
                    P = P\<lparr>sock_live := insert s (sock_live P)\<rparr>;
                    P = upd_sock s (\<lambda>_. sock_zero g base) P;
                    (r, P) = port_register_socket s socket P
                in if r < 0 then (None, poll_group_release g (sock__free s P)) else (Some s, P))
       (ws_get_base_socket env socket P))"

definition SOCK_KNOWN_EVENTS :: u32 where
  "SOCK_KNOWN_EVENTS = EPOLLIN OR EPOLLPRI OR EPOLLOUT OR EPOLLERR OR EPOLLHUP OR EPOLLRDNORM OR EPOLLRDBAND OR EPOLLWRNORM OR EPOLLWRBAND OR EPOLLMSG OR EPOLLRDHUP"

definition sock_set_event :: "nat \<Rightarrow> u32 \<Rightarrow> u64 \<Rightarrow> 'w port \<Rightarrow> 'w port" where
  "sock_set_event s ev_events ev_data P =
     (let events = ev_events OR EPOLLERR OR EPOLLHUP;
          P = pchk (s \<in> sock_live P) P;
          P = upd_sock s (\<lambda>x. x\<lparr>user_events := events, user_data := ev_data\<rparr>) P
      in if events AND SOCK_KNOWN_EVENTS AND NOT (pending_events (socks P s)) \<noteq> 0 then port_request_socket_update s P else P)"

definition sock__events_to_afd_events :: "u32 \<Rightarrow> u32" where
  "sock__events_to_afd_events events =
     (let a = AFD_POLL_LOCAL_CLOSE;
          a = (if events AND (EPOLLIN OR EPOLLRDNORM) \<noteq> 0 then a OR (AFD_POLL_RECEIVE OR AFD_POLL_ACCEPT) else a);
          a = (if events AND (EPOLLPRI OR EPOLLRDBAND) \<noteq> 0 then a OR AFD_POLL_RECEIVE_EXPEDITED else a);
          a = (if events AND (EPOLLOUT OR EPOLLWRNORM OR EPOLLWRBAND) \<noteq> 0 then a OR AFD_POLL_SEND else a);
          a = (if events AND (EPOLLIN OR EPOLLRDNORM OR EPOLLRDHUP) \<noteq> 0 then a OR AFD_POLL_DISCONNECT else a);
          a = (if events AND EPOLLHUP \<noteq> 0 then a OR AFD_POLL_ABORT else a)
      in if events AND EPOLLERR \<noteq> 0 then a OR AFD_POLL_CONNECT_FAIL else a)"

definition sock__afd_events_to_events :: "u32 \<Rightarrow> u32" where
  "sock__afd_events_to_events a =
     (let e = 0;
          e = (if a AND (AFD_POLL_RECEIVE OR AFD_POLL_ACCEPT) \<noteq> 0 then e OR (EPOLLIN OR EPOLLRDNORM) else e);
          e = (if a AND AFD_POLL_RECEIVE_EXPEDITED \<noteq> 0 then e OR (EPOLLPRI OR EPOLLRDBAND) else e);
          e = (if a AND AFD_POLL_SEND \<noteq> 0 then e OR (EPOLLOUT OR EPOLLWRNORM OR EPOLLWRBAND) else e);
          e = (if a AND AFD_POLL_DISCONNECT \<noteq> 0 then e OR (EPOLLIN OR EPOLLRDNORM OR EPOLLRDHUP) else e);
          e = (if a AND AFD_POLL_ABORT \<noteq> 0 then e OR EPOLLHUP else e)
      in if a AND AFD_POLL_CONNECT_FAIL \<noteq> 0 then e OR (EPOLLIN OR EPOLLOUT OR EPOLLERR OR EPOLLRDNORM OR EPOLLWRNORM OR EPOLLRDHUP) else e)"

text \<open>\<^verbatim>\<open>sock_update\<close> on a socket with no request under way: submit one.\<close>

definition sock_submit :: "'w wenv \<Rightarrow> nat \<Rightarrow> 'w port \<Rightarrow> int \<times> 'w port" where
  "sock_submit env s P =
     (let P = upd_sock s (\<lambda>x. x\<lparr>poll_handles := 1, poll_events := sock__events_to_afd_events (user_events x)\<rparr>) P;
          (r, P) = afd_poll env (afd_handle (groups P (sk_group (socks P s)))) s P
      in if r < 0 \<and> last_error P \<noteq> ''ERROR_IO_PENDING'' then
           if last_error P = ''ERROR_INVALID_HANDLE'' then (0, sock__delete env s False P)
           else (- 1, err_map_win_error P)
         else
           let P = upd_sock s (\<lambda>x. x\<lparr>poll_status := SOCK_POLL_PENDING, pending_events := user_events x\<rparr>) P
           in (0, port_cancel_socket_update s P))"

definition sock_update :: "'w wenv \<Rightarrow> nat \<Rightarrow> 'w port \<Rightarrow> int \<times> 'w port" where
  "sock_update env s P =
     (let P = pchk (s \<in> sock_live P \<and> \<not> delete_pending (socks P s)) P; x = socks P s in
      case poll_status x of
        SOCK_POLL_PENDING \<Rightarrow>
          if user_events x AND SOCK_KNOWN_EVENTS AND NOT (pending_events x) = 0 then (0, port_cancel_socket_update s P)
          else
            let (r, P) = sock__cancel_poll env s P in
            if r < 0 then (- 1, P) else (0, port_cancel_socket_update s P)
      | SOCK_POLL_CANCELLED \<Rightarrow> (0, port_cancel_socket_update s P)
      | SOCK_POLL_IDLE \<Rightarrow> sock_submit env s P)"

text \<open>
  A completion is processed; the result is the event for the caller, if there is one. The request is no longer in flight.
\<close>

definition sock_report :: "nat \<Rightarrow> u32 \<Rightarrow> 'w port \<Rightarrow> (u32 \<times> u64) option \<times> 'w port" where
  "sock_report s events P =
     (let P = port_request_socket_update s P;
          events = events AND user_events (socks P s)
      in if events = 0 then (None, P)
         else
           let P = (if user_events (socks P s) AND EPOLLONESHOT \<noteq> 0 then upd_sock s (\<lambda>x. x\<lparr>user_events := 0\<rparr>) P else P)
           in (Some (events, user_data (socks P s)), P))"

definition sock_feed_event :: "'w wenv \<Rightarrow> nat \<Rightarrow> 'w port \<Rightarrow> (u32 \<times> u64) option \<times> 'w port" where
  "sock_feed_event env s P =
     (let P = pchk (s \<in> sock_live P) P;
          P = (upd_sock s (\<lambda>x. x\<lparr>poll_status := SOCK_POLL_IDLE, pending_events := 0\<rparr>) P)\<lparr>flight := flight P - {s}\<rparr>;
          x = socks P s
      in if delete_pending x then (None, sock__delete env s False P)
         else if io_status x = STATUS_CANCELLED then sock_report s 0 P
         else if \<not> NT_SUCCESS (io_status x) then sock_report s EPOLLERR P
         else if poll_handles x < 1 then sock_report s 0 P
         else if poll_events x AND AFD_POLL_LOCAL_CLOSE \<noteq> 0 then (None, sock__delete env s False P)
         else sock_report s (sock__afd_events_to_events (poll_events x)) P)"


subsection \<open>Ports\<close>

definition port_zero :: "nat option \<Rightarrow> 'w \<Rightarrow> 'w port" where
  "port_zero h w = \<lparr>iocp_handle = h, sock_tree = Leaf, sock_update_queue = [], sock_deleted_queue = [], poll_group_queue = [], active_poll_count = 0,
     socks = (\<lambda>_. sock_zero 0 0), sock_live = {}, groups = (\<lambda>_. group_zero), group_live = {}, flight = {}, last_error = [], errno = [], pok = True, pos = w\<rparr>"

text \<open>\<^verbatim>\<open>port_new\<close>: the new port, or the error that was set.\<close>

definition port_new :: "'w wenv \<Rightarrow> 'w \<Rightarrow> ('w port + win_error) \<times> 'w" where
  "port_new env w =
     (let (m, w) = w_malloc env w in
      if \<not> m then (Inr ''ERROR_NOT_ENOUGH_MEMORY'', w)
      else
        let (h, w) = w_create_iocp env None w in
        case h of Inr e \<Rightarrow> (Inr e, w) | Inl h \<Rightarrow> (Inl (port_zero (Some h) w), w))"

definition port__close_iocp :: "'w wenv \<Rightarrow> 'w port \<Rightarrow> int \<times> 'w port" where
  "port__close_iocp env P =
     (let h = (case iocp_handle P of Some h \<Rightarrow> h | None \<Rightarrow> 0);
          P = P\<lparr>iocp_handle := None\<rparr>;
          (e, w) = w_close_handle env h (pos P); P = P\<lparr>pos := w\<rparr>
      in case e of Some e \<Rightarrow> (- 1, err_map_win_error (P\<lparr>last_error := e\<rparr>)) | None \<Rightarrow> (0, P))"

definition port_close :: "'w wenv \<Rightarrow> 'w port \<Rightarrow> int \<times> 'w port" where
  "port_close env P = port__close_iocp env P"

text \<open>The three loops of \<^verbatim>\<open>port_delete\<close>.\<close>

partial_function (option) delete_socks :: "'w wenv \<Rightarrow> 'w port \<Rightarrow> 'w port option" where
  "delete_socks env P = (case tree_root (sock_tree P) of None \<Rightarrow> Some P | Some s \<Rightarrow> delete_socks env (sock__delete env s True P))"

partial_function (option) delete_deleted :: "'w wenv \<Rightarrow> 'w port \<Rightarrow> 'w port option" where
  "delete_deleted env P = (case sock_deleted_queue P of [] \<Rightarrow> Some P | s # _ \<Rightarrow> delete_deleted env (sock__delete env s True P))"

partial_function (option) delete_groups :: "'w wenv \<Rightarrow> 'w port \<Rightarrow> 'w port option" where
  "delete_groups env P = (case poll_group_queue P of [] \<Rightarrow> Some P | g # _ \<Rightarrow> delete_groups env (poll_group_delete env g P))"

definition port_delete :: "'w wenv \<Rightarrow> 'w port \<Rightarrow> 'w port option" where
  "port_delete env P =
     (let P = pchk (iocp_handle P = None) P in
      map_option (\<lambda>P. pchk (sock_update_queue P = []) P)
        (Option.bind (delete_socks env P) (\<lambda>P. Option.bind (delete_deleted env P) (delete_groups env))))"

partial_function (option) port__update_events :: "'w wenv \<Rightarrow> 'w port \<Rightarrow> (int \<times> 'w port) option" where
  "port__update_events env P =
     (case sock_update_queue P of
        [] \<Rightarrow> Some (0, P)
      | s # _ \<Rightarrow> let (r, P) = sock_update env s P in if r < 0 then Some (- 1, P) else port__update_events env P)"

definition port__update_events_if_polling :: "'w wenv \<Rightarrow> 'w port \<Rightarrow> 'w port option" where
  "port__update_events_if_polling env P = (if active_poll_count P > 0 then map_option snd (port__update_events env P) else Some P)"

fun port__feed_events :: "'w wenv \<Rightarrow> nat list \<Rightarrow> 'w port \<Rightarrow> (u32 \<times> u64) list \<times> 'w port" where
  "port__feed_events env [] P = ([], P)"
| "port__feed_events env (s # ss) P =
     (let (e, P) = sock_feed_event env s P; (es, P) = port__feed_events env ss P
      in ((case e of None \<Rightarrow> es | Some e \<Rightarrow> e # es), P))"

text \<open>The events, or \<open>None\<close> for an error.\<close>

definition port__poll :: "'w wenv \<Rightarrow> u32 \<Rightarrow> u32 \<Rightarrow> 'w port \<Rightarrow> ((u32 \<times> u64) list option \<times> 'w port) option" where
  "port__poll env maxevents timeout P =
     map_option (\<lambda>(r, P).
       if r < 0 then (None, P)
       else
         let P = P\<lparr>active_poll_count := active_poll_count P + 1\<rparr>;
             (c, P) = w_wait env maxevents timeout P;
             P = P\<lparr>active_poll_count := active_poll_count P - 1\<rparr>
         in case c of
              Inr e \<Rightarrow> (None, err_map_win_error (P\<lparr>last_error := e\<rparr>))
            | Inl ss \<Rightarrow> (let (es, P) = port__feed_events env ss P in (Some es, P)))
      (port__update_events env P)"

abbreviation (input) INFINITE :: u32 where "INFINITE \<equiv> 0xFFFFFFFF"
abbreviation (input) MAX_ON_STACK :: int where "MAX_ON_STACK \<equiv> 256"

text \<open>The loop of \<^verbatim>\<open>port_wait\<close>; the result is that of the last \<^verbatim>\<open>port__poll\<close>.\<close>

partial_function (option) wait_loop :: "'w wenv \<Rightarrow> u32 \<Rightarrow> int \<Rightarrow> u64 \<Rightarrow> u32 \<Rightarrow> 'w port \<Rightarrow> ((u32 \<times> u64) list option \<times> 'w port) option" where
  "wait_loop env maxevents timeout due gqcs P =
     Option.bind (port__poll env maxevents gqcs P) (\<lambda>(r, P).
       if r \<noteq> Some [] then Some (r, P)
       else if timeout < 0 then wait_loop env maxevents timeout due gqcs P
       else
         let (now_ticks, w) = w_tick env (pos P); P = P\<lparr>pos := w\<rparr> in
         if now_ticks \<ge> due then Some (r, P\<lparr>last_error := ''WAIT_TIMEOUT''\<rparr>)
         else wait_loop env maxevents timeout due (ucast (due - now_ticks)) P)"

text \<open>\<^verbatim>\<open>sizeof (OVERLAPPED_ENTRY)\<close> is 32; \<open>None\<close> in the first component is the return value -1.\<close>

definition port_wait :: "'w wenv \<Rightarrow> int \<Rightarrow> int \<Rightarrow> 'w port \<Rightarrow> ((u32 \<times> u64) list option \<times> 'w port) option" where
  "port_wait env maxevents timeout P =
     (if maxevents \<le> 0 then Some (None, err_set_win_error ''ERROR_INVALID_PARAMETER'' P)
      else if maxevents > MAX_ON_STACK \<and> maxevents > (2 ^ 64 - 1) div 32 then Some (None, err_set_win_error ''ERROR_INVALID_PARAMETER'' P)
      else
        let (m, P) = (if maxevents \<le> MAX_ON_STACK then (True, P) else let (m, w) = w_malloc env (pos P) in (m, P\<lparr>pos := w\<rparr>)) in
        if \<not> m then Some (None, err_set_win_error ''ERROR_NOT_ENOUGH_MEMORY'' P)
        else
          let (due, P) = (if timeout > 0 then let (t, w) = w_tick env (pos P) in (t + of_int timeout, P\<lparr>pos := w\<rparr>) else (0, P));
              gqcs = (if timeout > 0 then of_int timeout else if timeout = 0 then 0 else INFINITE)
          in Option.bind (wait_loop env (of_int maxevents) timeout due gqcs P) (\<lambda>(r, P).
               map_option (\<lambda>P.
                 (case r of
                    Some es \<Rightarrow> (Some es, P)
                  | None \<Rightarrow> if last_error P = ''WAIT_TIMEOUT'' then (Some [], P) else (None, P)))
                (port__update_events_if_polling env P)))"

definition port__ctl_add :: "'w wenv \<Rightarrow> u64 \<Rightarrow> u32 \<times> u64 \<Rightarrow> 'w port \<Rightarrow> (int \<times> 'w port) option" where
  "port__ctl_add env sock ev P =
     Option.bind (sock_new env sock P) (\<lambda>(s, P).
       case s of
         None \<Rightarrow> Some (- 1, P)
       | Some s \<Rightarrow> map_option (Pair 0) (port__update_events_if_polling env (sock_set_event s (fst ev) (snd ev) P)))"

definition port__ctl_mod :: "'w wenv \<Rightarrow> u64 \<Rightarrow> u32 \<times> u64 \<Rightarrow> 'w port \<Rightarrow> (int \<times> 'w port) option" where
  "port__ctl_mod env sock ev P =
     (case port_find_socket sock P of
        (None, P) \<Rightarrow> Some (- 1, P)
      | (Some s, P) \<Rightarrow> map_option (Pair 0) (port__update_events_if_polling env (sock_set_event s (fst ev) (snd ev) P)))"

definition port__ctl_del :: "'w wenv \<Rightarrow> u64 \<Rightarrow> 'w port \<Rightarrow> (int \<times> 'w port) option" where
  "port__ctl_del env sock P =
     (case port_find_socket sock P of
        (None, P) \<Rightarrow> Some (- 1, P)
      | (Some s, P) \<Rightarrow> Some (0, sock__delete env s False P))"

definition port_ctl :: "'w wenv \<Rightarrow> int \<Rightarrow> u64 \<Rightarrow> u32 \<times> u64 \<Rightarrow> 'w port \<Rightarrow> (int \<times> 'w port) option" where
  "port_ctl env op sock ev P =
     (if op = EPOLL_CTL_ADD then port__ctl_add env sock ev P
      else if op = EPOLL_CTL_MOD then port__ctl_mod env sock ev P
      else if op = EPOLL_CTL_DEL then port__ctl_del env sock P
      else Some (- 1, err_set_win_error ''ERROR_INVALID_PARAMETER'' P))"

end
