(* ===== verification/Wepoll_Inv.thy ===== *)
theory Wepoll_Inv
  imports Wepoll_Port
begin

section \<open>The invariant of a port\<close>

text \<open>
  Between two calls under the lock: tree and queues hold allocated sockets only; a deleted socket is allocated as long as
  its poll request is under way; and every registered socket is taken care of (\<open>watched\<close>): it waits in the update queue,
  or its request covers all the events wanted, or the request has been cancelled, so that its completion will queue it.
\<close>

subsection \<open>Definition\<close>

definition struct_inv :: "'w port \<Rightarrow> bool" where
  "struct_inv P \<longleftrightarrow> tree_ok (sock_tree P) \<and>
     (\<forall>k s. tree_map (sock_tree P) k = Some s \<longrightarrow> s \<in> sock_live P \<and> \<not> delete_pending (socks P s) \<and> sk_key (socks P s) = k) \<and>
     (\<forall>s \<in> sock_live P. \<not> delete_pending (socks P s) \<longrightarrow> tree_map (sock_tree P) (sk_key (socks P s)) = Some s) \<and>
     distinct (sock_update_queue P) \<and> distinct (sock_deleted_queue P) \<and>
     (\<forall>s \<in> set (sock_update_queue P). s \<in> sock_live P \<and> \<not> delete_pending (socks P s)) \<and>
     (\<forall>s \<in> set (sock_deleted_queue P). s \<in> sock_live P \<and> delete_pending (socks P s)) \<and>
     finite (sock_live P)"

definition group_ok :: "(nat \<Rightarrow> nat) \<Rightarrow> 'w port \<Rightarrow> bool" where
  "group_ok n P \<longleftrightarrow> distinct (poll_group_queue P) \<and> set (poll_group_queue P) = group_live P \<and>
     (\<forall>g \<in> group_live P. group_size (groups P g) = n g \<and> n g \<le> POLL_GROUP_MAX) \<and> (\<forall>g. g \<notin> group_live P \<longrightarrow> n g = 0) \<and>
     sorted_wrt (\<lambda>g h. n h = POLL_GROUP_MAX \<longrightarrow> n g = POLL_GROUP_MAX) (poll_group_queue P)"

definition members :: "'w port \<Rightarrow> nat \<Rightarrow> nat" where
  "members P g = card {s \<in> sock_live P. sk_group (socks P s) = g}"

definition sock_flags :: "'w port \<Rightarrow> nat \<Rightarrow> bool" where
  "sock_flags P s \<longleftrightarrow> (poll_status (socks P s) \<noteq> SOCK_POLL_IDLE \<longleftrightarrow> s \<in> flight P) \<and>
     (poll_status (socks P s) \<noteq> SOCK_POLL_PENDING \<longrightarrow> pending_events (socks P s) = 0)"

definition unmet :: "'w port \<Rightarrow> nat \<Rightarrow> u32" where
  "unmet P s = user_events (socks P s) AND SOCK_KNOWN_EVENTS AND NOT (pending_events (socks P s))"

definition watched :: "'w port \<Rightarrow> nat \<Rightarrow> bool" where
  "watched P s \<longleftrightarrow>
     (if delete_pending (socks P s) then s \<in> set (sock_deleted_queue P) \<and> poll_status (socks P s) \<noteq> SOCK_POLL_IDLE
      else s \<in> set (sock_update_queue P) \<or> poll_status (socks P s) = SOCK_POLL_PENDING \<and> unmet P s = 0 \<or> poll_status (socks P s) = SOCK_POLL_CANCELLED)"

text \<open>The part that a socket freed by force leaves alone; then all of the invariant, except that a socket that is being worked on need not be taken care of.\<close>

definition base_inv :: "'w port \<Rightarrow> bool" where
  "base_inv P \<longleftrightarrow> pok P \<and> struct_inv P \<and> group_ok (members P) P"

definition core_inv :: "'w port \<Rightarrow> bool" where
  "core_inv P \<longleftrightarrow> base_inv P \<and> flight P \<subseteq> sock_live P \<and> (\<forall>s \<in> sock_live P. sock_flags P s)"

definition inv_but :: "nat set \<Rightarrow> 'w port \<Rightarrow> bool" where
  "inv_but X P \<longleftrightarrow> core_inv P \<and> (\<forall>s \<in> sock_live P - X. watched P s)"

definition port_inv :: "'w port \<Rightarrow> bool" where
  "port_inv P \<longleftrightarrow> inv_but {} P"

lemma inv_butD:
  assumes "inv_but X P"
  shows "pok P" "struct_inv P" "group_ok (members P) P" "s \<in> sock_live P \<Longrightarrow> sock_flags P s" "s \<in> sock_live P \<Longrightarrow> s \<notin> X \<Longrightarrow> watched P s"
    "base_inv P" "flight P \<subseteq> sock_live P"
  using assms by (auto simp: inv_but_def core_inv_def base_inv_def)

lemma structD:
  assumes "struct_inv P"
  shows "tree_ok (sock_tree P)" "tree_map (sock_tree P) k = Some s \<Longrightarrow> s \<in> sock_live P \<and> \<not> delete_pending (socks P s) \<and> sk_key (socks P s) = k"
    "s \<in> sock_live P \<Longrightarrow> \<not> delete_pending (socks P s) \<Longrightarrow> tree_map (sock_tree P) (sk_key (socks P s)) = Some s"
    "distinct (sock_update_queue P)" "distinct (sock_deleted_queue P)"
    "s \<in> set (sock_update_queue P) \<Longrightarrow> s \<in> sock_live P \<and> \<not> delete_pending (socks P s)"
    "s \<in> set (sock_deleted_queue P) \<Longrightarrow> s \<in> sock_live P \<and> delete_pending (socks P s)"
    "finite (sock_live P)"
  using assms unfolding struct_inv_def by (blast, blast, blast, blast, blast, blast, blast, blast)

lemma struct_invI:
  assumes "tree_ok (sock_tree P)" "\<And>k s. tree_map (sock_tree P) k = Some s \<Longrightarrow> s \<in> sock_live P \<and> \<not> delete_pending (socks P s) \<and> sk_key (socks P s) = k"
    "\<And>s. s \<in> sock_live P \<Longrightarrow> \<not> delete_pending (socks P s) \<Longrightarrow> tree_map (sock_tree P) (sk_key (socks P s)) = Some s"
    "distinct (sock_update_queue P)" "distinct (sock_deleted_queue P)"
    "\<And>s. s \<in> set (sock_update_queue P) \<Longrightarrow> s \<in> sock_live P \<and> \<not> delete_pending (socks P s)"
    "\<And>s. s \<in> set (sock_deleted_queue P) \<Longrightarrow> s \<in> sock_live P \<and> delete_pending (socks P s)" "finite (sock_live P)"
  shows "struct_inv P"
  using assms unfolding struct_inv_def by blast

text \<open>The members the invariant speaks about, in two parts.\<close>

definition sock_v :: "'w port \<Rightarrow> _" where
  "sock_v P = (sock_tree P, sock_update_queue P, sock_deleted_queue P, socks P, sock_live P, flight P)"

definition group_v :: "'w port \<Rightarrow> _" where
  "group_v P = (poll_group_queue P, groups P, group_live P)"

lemma struct_cong: "sock_v P' = sock_v P \<Longrightarrow> struct_inv P' = struct_inv P"
  by (simp add: struct_inv_def sock_v_def)

lemma members_cong: "sock_v P' = sock_v P \<Longrightarrow> members P' = members P"
  by (simp add: members_def sock_v_def fun_eq_iff)

lemma group_cong: "group_v P' = group_v P \<Longrightarrow> group_ok n P' = group_ok n P"
  by (simp add: group_ok_def group_v_def)

lemma flags_cong: "sock_v P' = sock_v P \<Longrightarrow> sock_flags P' = sock_flags P \<and> watched P' = watched P \<and> unmet P' = unmet P"
  by (simp add: sock_flags_def watched_def unmet_def sock_v_def fun_eq_iff)

lemma inv_but_cong: "sock_v P' = sock_v P \<Longrightarrow> group_v P' = group_v P \<Longrightarrow> pok P' = pok P \<Longrightarrow> inv_but X P' = inv_but X P"
  using struct_cong[of P' P] members_cong[of P' P] group_cong[of P' P] flags_cong[of P' P]
  by (simp add: inv_but_def core_inv_def base_inv_def) (simp add: sock_v_def)

lemma v_upd [simp]:
  "sock_v (P\<lparr>pos := w\<rparr>) = sock_v P" "sock_v (P\<lparr>last_error := e\<rparr>) = sock_v P" "sock_v (P\<lparr>errno := e\<rparr>) = sock_v P" "sock_v (pchk b P) = sock_v P"
  "sock_v (P\<lparr>active_poll_count := n\<rparr>) = sock_v P" "sock_v (P\<lparr>iocp_handle := h\<rparr>) = sock_v P"
  "sock_v (err_set_win_error e P) = sock_v P" "sock_v (err_map_win_error P) = sock_v P"
  "group_v (P\<lparr>pos := w\<rparr>) = group_v P" "group_v (P\<lparr>last_error := e\<rparr>) = group_v P" "group_v (P\<lparr>errno := e\<rparr>) = group_v P" "group_v (pchk b P) = group_v P"
  "group_v (P\<lparr>active_poll_count := n\<rparr>) = group_v P" "group_v (P\<lparr>iocp_handle := h\<rparr>) = group_v P"
  "group_v (err_set_win_error e P) = group_v P" "group_v (err_map_win_error P) = group_v P"
  "pok (err_set_win_error e P) = pok P" "pok (err_map_win_error P) = pok P" "pok (pchk b P) = (pok P \<and> b)"
  by (simp_all add: sock_v_def group_v_def err_set_win_error_def err_map_win_error_def pchk_def)

lemma inv_but_upd [simp]:
  "inv_but X (P\<lparr>pos := w\<rparr>) = inv_but X P" "inv_but X (P\<lparr>last_error := e\<rparr>) = inv_but X P" "inv_but X (P\<lparr>errno := e\<rparr>) = inv_but X P"
  "inv_but X (P\<lparr>active_poll_count := n\<rparr>) = inv_but X P" "inv_but X (P\<lparr>iocp_handle := h\<rparr>) = inv_but X P"
  "inv_but X (err_set_win_error e P) = inv_but X P" "inv_but X (err_map_win_error P) = inv_but X P"
  by (rule inv_but_cong; simp)+

lemma inv_but_chk: "inv_but X P \<Longrightarrow> b \<Longrightarrow> pchk b P = P"
  using inv_butD(1)[of X P] by (simp add: pchk_def)

lemma inv_but_mono: "inv_but X P \<Longrightarrow> X \<subseteq> Y \<Longrightarrow> inv_but Y P"
  by (auto simp: inv_but_def)

lemma inv_but_watched: "inv_but {s} P \<Longrightarrow> (s \<in> sock_live P \<Longrightarrow> watched P s) \<Longrightarrow> port_inv P"
  by (auto simp: inv_but_def port_inv_def)

subsection \<open>Writing to one socket\<close>

text \<open>A write that leaves key, group and the deletion flag alone.\<close>

lemma upd_sock_inv:
  assumes I: "inv_but X P" and f: "sk_key (f (socks P s)) = sk_key (socks P s)" "sk_group (f (socks P s)) = sk_group (socks P s)"
    "delete_pending (f (socks P s)) = delete_pending (socks P s)"
    and s: "s \<in> X" "s \<in> sock_live P \<Longrightarrow> sock_flags (upd_sock s f P) s"
  shows "inv_but X (upd_sock s f P)"
proof -
  let ?P = "upd_sock s f P"
  have e: "sock_tree ?P = sock_tree P" "sock_update_queue ?P = sock_update_queue P" "sock_deleted_queue ?P = sock_deleted_queue P"
    "sock_live ?P = sock_live P" "flight ?P = flight P" "pok ?P = pok P" "socks ?P = (socks P)(s := f (socks P s))" by (simp_all add: upd_sock_def)
  have same: "sk_key (socks ?P t) = sk_key (socks P t)" "sk_group (socks ?P t) = sk_group (socks P t)" "delete_pending (socks ?P t) = delete_pending (socks P t)" for t
    using f by (simp_all add: e)
  have "struct_inv ?P" using inv_butD(2)[OF I] by (simp add: struct_inv_def same) (simp add: e)
  moreover have "members ?P = members P" by (simp add: members_def fun_eq_iff same) (simp add: e)
  moreover have "group_v ?P = group_v P" by (simp add: group_v_def upd_sock_def)
  moreover have "sock_flags ?P t" if "t \<in> sock_live P" for t
    using s(2) inv_butD(4)[OF I that] that by (cases "t = s") (simp_all add: sock_flags_def e)
  moreover have "watched ?P t" if "t \<in> sock_live P - X" for t
  proof -
    have t: "t \<noteq> s" using that s(1) by auto
    then have u: "unmet ?P t = unmet P t" by (simp add: unmet_def e)
    show ?thesis using t inv_butD(5)[OF I, of t] that by (simp add: watched_def u) (simp add: e)
  qed
  ultimately show ?thesis using inv_butD(1,3,7)[OF I] group_cong[of ?P P] by (simp add: inv_but_def core_inv_def base_inv_def e)
qed

subsection \<open>Queues\<close>

lemma request_update_inv:
  assumes I: "inv_but {s} P" and s: "s \<in> sock_live P" "\<not> delete_pending (socks P s)"
  shows "port_inv (port_request_socket_update s P)"
proof -
  let ?P = "port_request_socket_update s P"
  note S = inv_butD(2)[OF I]
  have nd: "s \<notin> set (sock_deleted_queue P)" using structD(7)[OF S, of s] s by auto
  have e: "sock_update_queue ?P = (if s \<in> set (sock_update_queue P) then sock_update_queue P else sock_update_queue P @ [s])"
    "sock_tree ?P = sock_tree P" "sock_deleted_queue ?P = sock_deleted_queue P" "socks ?P = socks P" "sock_live ?P = sock_live P" "flight ?P = flight P"
    "pok ?P = pok P" "group_v ?P = group_v P"
    using nd by (auto simp: port_request_socket_update_def sock_enqueued_def group_v_def)
  have "struct_inv ?P" using S s by (auto simp: struct_inv_def e)
  moreover have "members ?P = members P" by (simp add: members_def fun_eq_iff e)
  moreover have "sock_flags ?P t" if "t \<in> sock_live P" for t using inv_butD(4)[OF I that] by (simp add: sock_flags_def e)
  moreover have "watched ?P t" if "t \<in> sock_live P" for t
    using inv_butD(5)[OF I that] s by (cases "t = s") (auto simp: watched_def unmet_def e)
  ultimately show ?thesis using inv_butD(1,3,7)[OF I] group_cong[OF e(8)] by (simp add: port_inv_def inv_but_def core_inv_def base_inv_def e)
qed

text \<open>Taking a socket out of its queue.\<close>

lemma dequeue_inv:
  assumes I: "inv_but {s} P"
  shows "inv_but {s} (dequeue_sock s P)" "s \<notin> set (sock_update_queue (dequeue_sock s P))" "s \<notin> set (sock_deleted_queue (dequeue_sock s P))"
proof -
  let ?P = "dequeue_sock s P"
  note S = inv_butD(2)[OF I]
  have e: "sock_update_queue ?P = remove1 s (sock_update_queue P)" "sock_deleted_queue ?P = remove1 s (sock_deleted_queue P)"
    "sock_tree ?P = sock_tree P" "socks ?P = socks P" "sock_live ?P = sock_live P" "flight ?P = flight P" "pok ?P = pok P" "group_v ?P = group_v P"
    by (simp_all add: dequeue_sock_def group_v_def)
  have "struct_inv ?P" using S by (auto simp: struct_inv_def e)
  moreover have "members ?P = members P" by (simp add: members_def fun_eq_iff e)
  moreover have "sock_flags ?P t" if "t \<in> sock_live P" for t using inv_butD(4)[OF I that] by (simp add: sock_flags_def e)
  moreover have "watched ?P t" if "t \<in> sock_live P" "t \<noteq> s" for t
    using inv_butD(5)[OF I that(1)] that(2) by (auto simp: watched_def unmet_def e)
  ultimately show "inv_but {s} ?P" using inv_butD(1,3,7)[OF I] group_cong[OF e(8)] by (simp add: inv_but_def core_inv_def base_inv_def e)
  show "s \<notin> set (sock_update_queue ?P)" "s \<notin> set (sock_deleted_queue ?P)" using structD(4,5)[OF S] by (simp_all add: e)
qed

lemma queue_frame:
  "sock_tree (dequeue_sock s P) = sock_tree P" "socks (dequeue_sock s P) = socks P" "sock_live (dequeue_sock s P) = sock_live P"
  "flight (dequeue_sock s P) = flight P" "iocp_handle (dequeue_sock s P) = iocp_handle P" "active_poll_count (dequeue_sock s P) = active_poll_count P"
  by (simp_all add: dequeue_sock_def)

lemma cancel_update_inv:
  assumes I: "inv_but {s} P"
  shows "inv_but {s} (port_cancel_socket_update s P)" "s \<notin> set (sock_update_queue (port_cancel_socket_update s P))"
    "s \<notin> set (sock_deleted_queue (port_cancel_socket_update s P))"
  using dequeue_inv[OF I] I by (auto simp: port_cancel_socket_update_def sock_enqueued_def)

lemma remove_deleted_eq: "port_remove_deleted_socket s P = port_cancel_socket_update s P"
  by (simp add: port_remove_deleted_socket_def port_cancel_socket_update_def)

lemma cancel_update_frame [simp]:
  "sock_tree (port_cancel_socket_update s P) = sock_tree P" "socks (port_cancel_socket_update s P) = socks P"
  "sock_live (port_cancel_socket_update s P) = sock_live P" "flight (port_cancel_socket_update s P) = flight P"
  "iocp_handle (port_cancel_socket_update s P) = iocp_handle P" "active_poll_count (port_cancel_socket_update s P) = active_poll_count P"
  by (simp_all add: port_cancel_socket_update_def queue_frame)

lemma cancel_update_queue: "t \<noteq> s \<Longrightarrow> t \<in> set (sock_update_queue (port_cancel_socket_update s P)) \<longleftrightarrow> t \<in> set (sock_update_queue P)"
  by (simp add: port_cancel_socket_update_def dequeue_sock_def)

end
