(* ===== verification/Wepoll_Spec.thy ===== *)
theory Wepoll_Spec
  imports Wepoll_Inv
begin

section \<open>Operations on a port keep its invariant\<close>

subsection \<open>System calls\<close>

definition port_v :: "'w port \<Rightarrow> _" where
  "port_v P = (sock_v P, group_v P, pok P, iocp_handle P, active_poll_count P)"

lemma port_v_upd [simp]:
  "port_v (P\<lparr>pos := w\<rparr>) = port_v P" "port_v (P\<lparr>last_error := e\<rparr>) = port_v P" "port_v (P\<lparr>errno := n\<rparr>) = port_v P"
  "port_v (err_set_win_error e P) = port_v P" "port_v (err_map_win_error P) = port_v P"
  by (simp_all add: port_v_def sock_v_def group_v_def err_set_win_error_def err_map_win_error_def)

lemma port_v_D:
  assumes "port_v P' = port_v P"
  shows "sock_v P' = sock_v P" "group_v P' = group_v P" "pok P' = pok P" "iocp_handle P' = iocp_handle P" "active_poll_count P' = active_poll_count P"
    "sock_tree P' = sock_tree P" "sock_update_queue P' = sock_update_queue P" "sock_deleted_queue P' = sock_deleted_queue P" "socks P' = socks P"
    "sock_live P' = sock_live P" "flight P' = flight P" "poll_group_queue P' = poll_group_queue P" "groups P' = groups P" "group_live P' = group_live P"
  using assms by (simp_all add: port_v_def sock_v_def group_v_def)

lemma create_device_v [simp]: "port_v (snd (afd_create_device_handle env h P)) = port_v P"
  by (simp add: afd_create_device_handle_def Let_def split: prod.split sum.split option.split)

subsection \<open>Poll groups\<close>

lemma fresh_notin: "finite A \<Longrightarrow> fresh A \<notin> A"
  using Max_ge[of A "Suc (Max A)"] Suc_n_not_le_n[of "Max A"] unfolding fresh_def by (metis empty_iff)

lemma remove1_last: "distinct xs \<Longrightarrow> xs \<noteq> [] \<Longrightarrow> remove1 (last xs) xs = butlast xs"
  by (cases xs rule: rev_cases) (auto simp: remove1_append)

lemma sorted_wrt_remove1: "sorted_wrt R xs \<Longrightarrow> sorted_wrt R (remove1 x xs)"
  by (induction xs) (auto dest: set_mp[OF set_remove1_subset])

definition fronted :: "(nat \<Rightarrow> nat) \<Rightarrow> nat list \<Rightarrow> bool" where
  "fronted n q \<longleftrightarrow> sorted_wrt (\<lambda>g h. n h = POLL_GROUP_MAX \<longrightarrow> n g = POLL_GROUP_MAX) q"

lemma fronted_cong: "fronted n q \<Longrightarrow> (\<And>g. g \<in> set q \<Longrightarrow> m g = n g) \<Longrightarrow> fronted m q"
  unfolding fronted_def by (rule sorted_wrt_mono_rel[of q, rotated]) auto

lemma fronted_snoc: "fronted n q \<Longrightarrow> n g \<noteq> POLL_GROUP_MAX \<Longrightarrow> fronted n (q @ [g])"
  by (simp add: fronted_def sorted_wrt_append)

lemma fronted_Cons: "fronted n q \<Longrightarrow> n g = POLL_GROUP_MAX \<Longrightarrow> fronted n (g # q)"
  by (simp add: fronted_def)

lemma fronted_remove1: "fronted n q \<Longrightarrow> fronted n (remove1 g q)"
  by (simp add: fronted_def sorted_wrt_remove1)

lemma group_okD:
  assumes "group_ok n P"
  shows "distinct (poll_group_queue P)" "set (poll_group_queue P) = group_live P" "g \<in> group_live P \<Longrightarrow> group_size (groups P g) = n g"
    "n g \<le> POLL_GROUP_MAX" "g \<notin> group_live P \<Longrightarrow> n g = 0" "fronted n (poll_group_queue P)" "finite (group_live P)"
  using assms unfolding group_ok_def fronted_def by (blast, blast, blast, force, blast, blast, metis List.finite_set)

lemma group_okI:
  assumes "distinct (poll_group_queue P)" "set (poll_group_queue P) = group_live P" "\<And>g. g \<in> group_live P \<Longrightarrow> group_size (groups P g) = n g"
    "\<And>g. g \<in> group_live P \<Longrightarrow> n g \<le> POLL_GROUP_MAX" "\<And>g. g \<notin> group_live P \<Longrightarrow> n g = 0" "fronted n (poll_group_queue P)"
  shows "group_ok n P"
  using assms by (simp add: group_ok_def fronted_def)

lemma group_release_ok:
  assumes G: "group_ok n P" and g: "n g > 0" and p: "pok P"
  shows "group_ok (n(g := n g - 1)) (poll_group_release g P)" "pok (poll_group_release g P)" "sock_v (poll_group_release g P) = sock_v P"
    "iocp_handle (poll_group_release g P) = iocp_handle P" "active_poll_count (poll_group_release g P) = active_poll_count P"
proof -
  note D = group_okD[OF G]
  have gl: "g \<in> group_live P" using D(5) g by force
  let ?P = "poll_group_release g P"
  have e: "poll_group_queue ?P = remove1 g (poll_group_queue P) @ [g]" "group_live ?P = group_live P"
    "groups ?P = (groups P)(g := (groups P g)\<lparr>group_size := n g - 1\<rparr>)" "pok ?P = pok P"
    using gl g D(3)[OF gl] D(4)[of g] by (auto simp: poll_group_release_def pchk_def upd_group_def Let_def)
  show "pok ?P" using p e by simp
  show "sock_v ?P = sock_v P" "iocp_handle ?P = iocp_handle P" "active_poll_count ?P = active_poll_count P"
    by (simp_all add: poll_group_release_def pchk_def upd_group_def Let_def sock_v_def)
  show "group_ok (n(g := n g - 1)) ?P"
  proof (rule group_okI)
    show "distinct (poll_group_queue ?P)" using D(1) by (simp add: e)
    show "set (poll_group_queue ?P) = group_live ?P" using D(1,2) gl by (auto simp: e)
    show "group_size (groups ?P h) = (n(g := n g - 1)) h" if "h \<in> group_live ?P" for h using that D(3)[of h] by (simp add: e)
    show "(n(g := n g - 1)) h \<le> POLL_GROUP_MAX" for h using D(4)[of h] D(4)[of g] by auto
    show "(n(g := n g - 1)) h = 0" if "h \<notin> group_live ?P" for h using that D(5)[of h] gl by (auto simp: e)
    have "fronted (n(g := n g - 1)) (remove1 g (poll_group_queue P))"
      by (rule fronted_cong[OF fronted_remove1[OF D(6)]]) (use D(1) in auto)
    then show "fronted (n(g := n g - 1)) (poll_group_queue ?P)" using D(4)[of g] g by (simp add: e fronted_snoc)
  qed
qed

definition same_socks :: "'w port \<Rightarrow> 'w port \<Rightarrow> bool" where
  "same_socks P P' \<longleftrightarrow> sock_v P' = sock_v P \<and> iocp_handle P' = iocp_handle P \<and> active_poll_count P' = active_poll_count P \<and> pok P' = pok P"

lemma group_new_ok:
  assumes G: "group_ok n P" and p: "pok P" and h: "iocp_handle P \<noteq> None" and r: "poll_group__new env P = (r, P')"
  shows "same_socks P P' \<and> group_ok n P' \<and> (\<forall>g. r = Some g \<longrightarrow> n g = 0 \<and> poll_group_queue P' = poll_group_queue P @ [g])"
proof -
  note D = group_okD[OF G]
  obtain m w where m: "w_malloc env (pos P) = (m, w)" by (cases "w_malloc env (pos P)")
  have c: "pchk (\<exists>y. iocp_handle P = Some y) P = P" using p h by (simp add: pchk_def)
  define i where "i = (case iocp_handle P of Some h \<Rightarrow> h | None \<Rightarrow> 0)"
  define g where "g = fresh (group_live P)"
  define P1 where "P1 = upd_group g (\<lambda>_. group_zero) (P\<lparr>pos := w, group_live := insert g (group_live P)\<rparr>)"
  obtain k Q where Q: "afd_create_device_handle env i P1 = (k, Q)" by (cases "afd_create_device_handle env i P1")
  have g: "g \<notin> group_live P" using fresh_notin[OF D(7)] by (simp add: g_def)
  have "port_v Q = port_v P1" using create_device_v[of env i P1] Q by simp
  note v = port_v_D[OF this]
  have e: "sock_v Q = sock_v P" "iocp_handle Q = iocp_handle P" "active_poll_count Q = active_poll_count P" "pok Q = pok P"
    "poll_group_queue Q = poll_group_queue P" "group_live Q = insert g (group_live P)" "groups Q = (groups P)(g := group_zero)"
    using v(1,3,4,5,12-14) by (simp_all add: P1_def upd_group_def sock_v_def)
  show ?thesis
  proof (cases m)
    case False
    then have "r = None" "P' = err_set_win_error ''ERROR_NOT_ENOUGH_MEMORY'' (P\<lparr>pos := w\<rparr>)"
      using r by (simp_all add: poll_group__new_def c m Let_def)
    moreover have "group_v (P\<lparr>pos := w\<rparr>) = group_v P" by simp
    ultimately show ?thesis using G group_cong[of P' P n]
      by (simp add: same_socks_def) (simp add: err_set_win_error_def)
  next
    case True
    show ?thesis
    proof (cases k)
      case None
      then have P': "r = None" "P' = Q\<lparr>group_live := group_live Q - {g}\<rparr>"
        using r True Q by (simp_all add: poll_group__new_def c m Let_def i_def[symmetric] g_def[symmetric] P1_def[symmetric])
      have "group_ok n P'" using G g by (auto simp: group_ok_def P' e)
      then show ?thesis using P' e by (simp add: same_socks_def sock_v_def)
    next
      case (Some h)
      then have P': "r = Some g" "P' = (upd_group g (\<lambda>x. x\<lparr>afd_handle := h\<rparr>) Q)\<lparr>poll_group_queue := poll_group_queue P @ [g]\<rparr>"
        using r True Q e(5) by (simp_all add: poll_group__new_def c m Let_def i_def[symmetric] g_def[symmetric] P1_def[symmetric])
      have n: "n g = 0" by (rule D(5)[OF g])
      have q: "poll_group_queue P' = poll_group_queue P @ [g]" "group_live P' = insert g (group_live P)"
        "groups P' = (groups P)(g := group_zero\<lparr>afd_handle := h\<rparr>)" by (simp_all add: P' upd_group_def e)
      have "group_ok n P'"
      proof (rule group_okI)
        show "fronted n (poll_group_queue P')" using D(6) n by (simp add: q fronted_snoc)
        show "group_size (groups P' x) = n x" if "x \<in> group_live P'" for x using that D(3)[of x] n by (auto simp: q group_zero_def)
      qed (use D g in \<open>auto simp: q\<close>)
      then show ?thesis using P' e n q by (simp add: same_socks_def upd_group_def sock_v_def)
    qed
  qed
qed

lemma acquire_some_ok:
  assumes G: "group_ok n P" and p: "pok P" and g: "g \<in> group_live P" "n g < POLL_GROUP_MAX" "poll_group_queue P = q @ [g]"
    and P': "P' = (let P = pchk (g \<in> group_live P) P;
                 P = upd_group g (\<lambda>x. x\<lparr>group_size := group_size x + 1\<rparr>) P
             in if group_size (groups P g) = POLL_GROUP_MAX then P\<lparr>poll_group_queue := g # remove1 g (poll_group_queue P)\<rparr> else P)"
  shows "same_socks P P' \<and> group_ok (n(g := n g + 1)) P'"
proof -
  note D = group_okD[OF G]
  have q: "g \<notin> set q" "distinct q" using D(1) g(3) by auto
  have e: "group_live P' = group_live P" "groups P' = (groups P)(g := (groups P g)\<lparr>group_size := n g + 1\<rparr>)"
    "poll_group_queue P' = (if n g + 1 = POLL_GROUP_MAX then g # q else q @ [g])"
    using p g D(3)[OF g(1)] q by (simp_all add: P' pchk_def upd_group_def Let_def remove1_append)
  have "fronted n q" using D(6) g(3) by (simp add: fronted_def sorted_wrt_append)
  then have f: "fronted (n(g := n g + 1)) q" by (rule fronted_cong) (use q in auto)
  have "group_ok (n(g := n g + 1)) P'"
  proof (rule group_okI)
    show "fronted (n(g := n g + 1)) (poll_group_queue P')" using f fronted_Cons[OF f, of g] fronted_snoc[OF f, of g] by (auto simp: e)
    show "group_size (groups P' x) = (n(g := n g + 1)) x" if "x \<in> group_live P'" for x using that D(3)[of x] by (simp add: e)
    show "(n(g := n g + 1)) x \<le> POLL_GROUP_MAX" for x using D(4)[of x] g(2) by simp
    show "(n(g := n g + 1)) x = 0" if "x \<notin> group_live P'" for x using that D(5)[of x] g(1) by (auto simp: e)
  qed (use D(1,2) g q in \<open>auto simp: e\<close>)
  then show ?thesis using p g(1) by (simp add: same_socks_def P' pchk_def upd_group_def Let_def sock_v_def)
qed

lemma group_acquire_ok:
  assumes G: "group_ok n P" and p: "pok P" and h: "iocp_handle P \<noteq> None" and r: "poll_group_acquire env P = (r, P')"
  shows "same_socks P P' \<and> (case r of None \<Rightarrow> group_ok n P' | Some g \<Rightarrow> g \<in> group_live P' \<and> group_ok (n(g := n g + 1)) P')"
proof -
  note D = group_okD[OF G]
  define q where "q = poll_group_queue P"
  define take where "take = (\<lambda>g P. (let P = pchk (g \<in> group_live P) P;
                 P = upd_group g (\<lambda>x. x\<lparr>group_size := group_size x + 1\<rparr>) P
             in if group_size (groups P g) = POLL_GROUP_MAX then P\<lparr>poll_group_queue := g # remove1 g (poll_group_queue P)\<rparr> else P :: 'a port))"
  have tl: "group_live (take g Q) = group_live Q" for g Q by (simp add: take_def pchk_def upd_group_def Let_def)
  show ?thesis
  proof (cases "q \<noteq> [] \<and> n (last q) < POLL_GROUP_MAX")
    case True
    then have l: "last q \<in> group_live P" using D(2) last_in_set[of q] by (auto simp: q_def)
    then have "r = Some (last q)" "P' = take (last q) P"
      using r True D(3)[OF l] by (simp_all add: poll_group_acquire_def q_def[symmetric] take_def Let_def split: prod.splits)
    moreover have "poll_group_queue P = butlast q @ [last q]" using True by (simp add: q_def)
    ultimately show ?thesis using acquire_some_ok[OF G p l _ _ \<open>P' = take (last q) P\<close>[unfolded take_def], of "butlast q"] True l by (simp add: tl)
  next
    case False
    obtain k Q where Q: "poll_group__new env P = (k, Q)" by (cases "poll_group__new env P")
    have full: "POLL_GROUP_MAX \<le> group_size (groups P (last q))" if "q \<noteq> []"
    proof -
      have l: "last q \<in> group_live P" using D(2) last_in_set[OF that] by (auto simp: q_def)
      show ?thesis using D(3)[OF l] False that by simp
    qed
    have r': "(r, P') = (case k of None \<Rightarrow> (None, Q) | Some g \<Rightarrow> (Some g, take g Q))"
      using full Q unfolding r[symmetric] by (cases k) (simp_all add: poll_group_acquire_def q_def[symmetric] take_def Let_def)
    note N = group_new_ok[OF G p h Q]
    show ?thesis
    proof (cases k)
      case None
      then show ?thesis using r' N by simp
    next
      case (Some g)
      then have g: "n g = 0" "poll_group_queue Q = q @ [g]" "group_ok n Q" "same_socks P Q" using N by (simp_all add: q_def)
      have gl: "g \<in> group_live Q" using group_okD(2)[OF g(3)] g(2) by auto
      have "pok Q" using g(4) p by (simp add: same_socks_def)
      then have "same_socks Q (take g Q) \<and> group_ok (n(g := n g + 1)) (take g Q)"
        by (rule acquire_some_ok[OF g(3) _ gl _ g(2)]) (simp_all add: g(1) take_def)
      then show ?thesis using r' Some g(4) gl by (simp add: same_socks_def tl)
    qed
  qed
qed

subsection \<open>Cancelling a request\<close>

text \<open>What the operations leave alone.\<close>

definition kept :: "'w port \<Rightarrow> 'w port \<Rightarrow> bool" where
  "kept P P' \<longleftrightarrow> iocp_handle P' = iocp_handle P \<and> active_poll_count P' = active_poll_count P"

lemma afd_cancel_v: "afd_cancel_poll env d s P = (r, P') \<Longrightarrow> port_v P' = port_v P"
  by (auto simp: afd_cancel_poll_def Let_def split: prod.splits if_splits)

lemma cancel_poll_effect:
  assumes "sock__cancel_poll env s P = (r, P')" "pok P" "s \<in> sock_live P" "poll_status (socks P s) = SOCK_POLL_PENDING"
  obtains "r = - 1" "port_v P' = port_v P"
  | "r = 0" "port_v P' = port_v (upd_sock s (\<lambda>x. x\<lparr>poll_status := SOCK_POLL_CANCELLED, pending_events := 0\<rparr>) P)"
proof -
  have c: "pchk True P = P" using assms(2) by (simp add: pchk_def)
  obtain q Q where Q: "afd_cancel_poll env (afd_handle (groups P (sk_group (socks P s)))) s P = (q, Q)"
    by (cases "afd_cancel_poll env (afd_handle (groups P (sk_group (socks P s)))) s P")
  note v = afd_cancel_v[OF Q]
  have P': "(r, P') = (if q < 0 then (- 1, Q) else (0, upd_sock s (\<lambda>x. x\<lparr>poll_status := SOCK_POLL_CANCELLED, pending_events := 0\<rparr>) Q))"
    using assms Q by (simp add: sock__cancel_poll_def c Let_def)
  show thesis
  proof (cases "q < 0")
    case True then show ?thesis using P' v that(1) by simp
  next
    case False
    have "port_v (upd_sock s f Q) = port_v (upd_sock s f P)" for f using port_v_D[OF v] by (simp add: port_v_def sock_v_def group_v_def upd_sock_def)
    then show ?thesis using False P' that(2) by simp
  qed
qed

lemma inv_but_v: "port_v P' = port_v P \<Longrightarrow> inv_but X P' = inv_but X P"
  by (rule inv_but_cong) (auto dest: port_v_D)

lemma base_inv_v: "port_v P' = port_v P \<Longrightarrow> base_inv P' = base_inv P"
  using struct_cong[of P' P] members_cong[of P' P] group_cong[of P' P] port_v_D[of P' P] by (simp add: base_inv_def)

lemma cancel_poll_inv:
  assumes I: "inv_but X P" and s: "s \<in> X" "s \<in> sock_live P" "poll_status (socks P s) = SOCK_POLL_PENDING" and r: "sock__cancel_poll env s P = (r, P')"
  shows "inv_but X P' \<and> kept P P' \<and> sock_live P' = sock_live P \<and> flight P' = flight P \<and> sock_update_queue P' = sock_update_queue P \<and>
    (\<forall>t. t \<noteq> s \<longrightarrow> socks P' t = socks P t) \<and> delete_pending (socks P' s) = delete_pending (socks P s) \<and>
    poll_status (socks P' s) = (if r < 0 then SOCK_POLL_PENDING else SOCK_POLL_CANCELLED)"
  using r inv_butD(1)[OF I] s(2,3)
proof (cases rule: cancel_poll_effect)
  case 1
  then show ?thesis using I inv_but_v[of P' P X] port_v_D[of P' P] s by (simp add: kept_def)
next
  case 2
  let ?Q = "upd_sock s (\<lambda>x. x\<lparr>poll_status := SOCK_POLL_CANCELLED, pending_events := 0\<rparr>) P"
  have "inv_but X ?Q" by (rule upd_sock_inv[OF I]) (use s inv_butD(4)[OF I s(2)] in \<open>simp_all add: sock_flags_def upd_sock_def\<close>)
  then show ?thesis using 2 inv_but_v[OF 2(2), of X] port_v_D[OF 2(2)] by (simp add: kept_def upd_sock_def)
qed

subsection \<open>Deleting a socket\<close>

text \<open>What working on one socket leaves alone.\<close>

definition others :: "nat \<Rightarrow> 'w port \<Rightarrow> 'w port \<Rightarrow> bool" where
  "others s P P' \<longleftrightarrow> (\<forall>t. t \<noteq> s \<longrightarrow> socks P' t = socks P t \<and> (t \<in> set (sock_update_queue P') \<longleftrightarrow> t \<in> set (sock_update_queue P)) \<and>
      (t \<in> set (sock_deleted_queue P') \<longleftrightarrow> t \<in> set (sock_deleted_queue P))) \<and>
    sock_live P' - {s} = sock_live P - {s} \<and> flight P' = flight P \<and> kept P P'"

lemma others_refl: "others s P P"
  by (simp add: others_def kept_def)

lemma others_trans: "others s P Q \<Longrightarrow> others s Q R \<Longrightarrow> others s P R"
  unfolding others_def kept_def by metis

lemma others_v: "port_v P' = port_v P \<Longrightarrow> others s P P'"
  using port_v_D[of P' P] by (simp add: others_def kept_def)

lemma others_upd: "others s P (upd_sock s f P)"
  by (simp add: others_def kept_def upd_sock_def)

lemma others_inv:
  assumes I: "inv_but {s} P" and o: "others s P P'" and b: "base_inv P'" and s: "s \<in> sock_live P' \<Longrightarrow> sock_flags P' s" "s \<in> flight P \<Longrightarrow> s \<in> sock_live P'"
  shows "inv_but {s} P'"
proof -
  have l: "t \<in> sock_live P' \<longleftrightarrow> t \<in> sock_live P" if "t \<noteq> s" for t using o that unfolding others_def by blast
  have "sock_flags P' t" if "t \<in> sock_live P'" for t
    using s(1) that l inv_butD(4)[OF I, of t] o by (cases "t = s") (auto simp: sock_flags_def others_def)
  moreover have "watched P' t" if "t \<in> sock_live P'" "t \<noteq> s" for t
  proof -
    have "watched P t" using inv_butD(5)[OF I] that l by blast
    moreover have "unmet P' t = unmet P t" using o that(2) by (simp add: unmet_def others_def)
    ultimately show ?thesis using o that(2) by (auto simp: watched_def others_def)
  qed
  moreover have "flight P' \<subseteq> sock_live P'" using inv_butD(7)[OF I] s(2) o l by (auto simp: others_def)
  ultimately show ?thesis using b by (simp add: inv_but_def core_inv_def)
qed

lemma base_invD:
  assumes "base_inv P"
  shows "pok P" "struct_inv P" "group_ok (members P) P"
  using assms by (simp_all add: base_inv_def)

lemma upd_sock_base:
  assumes B: "base_inv P" and f: "sk_key (f (socks P s)) = sk_key (socks P s)" "sk_group (f (socks P s)) = sk_group (socks P s)"
    "delete_pending (f (socks P s)) = delete_pending (socks P s)"
  shows "base_inv (upd_sock s f P)"
proof -
  let ?P = "upd_sock s f P"
  have same: "sk_key (socks ?P t) = sk_key (socks P t)" "sk_group (socks ?P t) = sk_group (socks P t)" "delete_pending (socks ?P t) = delete_pending (socks P t)" for t
    using f by (simp_all add: upd_sock_def)
  have "struct_inv ?P" using base_invD(2)[OF B] by (simp add: struct_inv_def same) (simp add: upd_sock_def)
  moreover have "members ?P = members P" by (simp add: members_def fun_eq_iff same) (simp add: upd_sock_def)
  moreover have "group_v ?P = group_v P" "pok ?P = pok P" by (simp_all add: group_v_def upd_sock_def)
  ultimately show ?thesis using base_invD[OF B] group_cong[of ?P P] by (simp add: base_inv_def)
qed

definition retire :: "'w wenv \<Rightarrow> nat \<Rightarrow> 'w port \<Rightarrow> 'w port" where
  "retire env s P =
     (let P = (if poll_status (socks P s) = SOCK_POLL_PENDING then snd (sock__cancel_poll env s P) else P);
          P = port_cancel_socket_update s P;
          P = port_unregister_socket s P
      in upd_sock s (\<lambda>x. x\<lparr>delete_pending := True\<rparr>) P)"

definition dispose :: "nat \<Rightarrow> bool \<Rightarrow> 'w port \<Rightarrow> 'w port" where
  "dispose s force P =
     (if force \<or> poll_status (socks P s) = SOCK_POLL_IDLE then
        sock__free s (poll_group_release (sk_group (socks (port_remove_deleted_socket s P) s)) (port_remove_deleted_socket s P))
      else port_add_deleted_socket s P)"

lemma sock__delete_alt:
  "pok P \<Longrightarrow> s \<in> sock_live P \<Longrightarrow> sock__delete env s force P = dispose s force (if delete_pending (socks P s) then P else retire env s P)"
proof -
  assume "pok P" "s \<in> sock_live P"
  then have c: "pchk (s \<in> sock_live P) P = P" by (simp add: pchk_def)
  show ?thesis by (simp add: sock__delete_def c dispose_def retire_def Let_def)
qed

lemma cancel_update_eqs:
  assumes "base_inv P"
  shows "sock_update_queue (port_cancel_socket_update s P) = remove1 s (sock_update_queue P)"
    "sock_deleted_queue (port_cancel_socket_update s P) = remove1 s (sock_deleted_queue P)"
    "group_v (port_cancel_socket_update s P) = group_v P" "pok (port_cancel_socket_update s P) = pok P"
    "others s P (port_cancel_socket_update s P)"
  by (auto simp: port_cancel_socket_update_def dequeue_sock_def sock_enqueued_def remove1_idem group_v_def others_def kept_def)

lemma retire_base:
  fixes env :: "'w wenv"
  assumes B: "base_inv P" and s: "s \<in> sock_live P" "\<not> delete_pending (socks P s)"
  defines "P' \<equiv> retire env s P"
  shows "base_inv P'" "others s P P'" "sock_live P' = sock_live P" "delete_pending (socks P' s)"
    "poll_status (socks P' s) = SOCK_POLL_IDLE \<longleftrightarrow> poll_status (socks P s) = SOCK_POLL_IDLE"
    "(poll_status (socks P s) \<noteq> SOCK_POLL_PENDING \<longrightarrow> pending_events (socks P s) = 0) \<Longrightarrow>
      (poll_status (socks P' s) \<noteq> SOCK_POLL_PENDING \<longrightarrow> pending_events (socks P' s) = 0)"
    "tree_map (sock_tree P') = (tree_map (sock_tree P))(sk_key (socks P s) := None)"
proof -
  define Q where "Q = (if poll_status (socks P s) = SOCK_POLL_PENDING then snd (sock__cancel_poll env s P) else P)"
  define z where "z = (\<lambda>x :: sock_state. x\<lparr>poll_status := SOCK_POLL_CANCELLED, pending_events := 0\<rparr>)"
  have "port_v Q = port_v P \<or> poll_status (socks P s) = SOCK_POLL_PENDING \<and> port_v Q = port_v (upd_sock s z P)"
  proof (cases "poll_status (socks P s) = SOCK_POLL_PENDING")
    case True
    obtain r R where R: "sock__cancel_poll env s P = (r, R)" by (cases "sock__cancel_poll env s P")
    from R base_invD(1)[OF B] s(1) True show ?thesis by (cases rule: cancel_poll_effect) (simp_all add: Q_def R True z_def)
  qed (simp add: Q_def)
  then have "base_inv Q \<and> (sock_tree Q = sock_tree P \<and> sk_key (socks Q s) = sk_key (socks P s)) \<and> others s P Q \<and> sock_live Q = sock_live P \<and> delete_pending (socks Q s) = delete_pending (socks P s) \<and>
    (poll_status (socks Q s) = SOCK_POLL_IDLE \<longleftrightarrow> poll_status (socks P s) = SOCK_POLL_IDLE) \<and>
    ((poll_status (socks P s) \<noteq> SOCK_POLL_PENDING \<longrightarrow> pending_events (socks P s) = 0) \<longrightarrow>
      (poll_status (socks Q s) \<noteq> SOCK_POLL_PENDING \<longrightarrow> pending_events (socks Q s) = 0))"
  proof (elim disjE conjE)
    assume v: "port_v Q = port_v P"
    then show ?thesis using B base_inv_v[OF v] others_v[OF v] port_v_D[OF v] by simp
  next
    assume a: "poll_status (socks P s) = SOCK_POLL_PENDING" and v: "port_v Q = port_v (upd_sock s z P)"
    have "base_inv (upd_sock s z P)" by (rule upd_sock_base[OF B]) (simp_all add: z_def)
    then have "base_inv Q" using base_inv_v[OF v] by simp
    moreover have "others s P Q" by (rule others_trans[OF others_upd[of s P z] others_v[OF v]])
    moreover have "socks Q s = z (socks P s)" "sock_live Q = sock_live P" "sock_tree Q = sock_tree P" using port_v_D(6,9,10)[OF v] by (simp_all add: upd_sock_def)
    ultimately show ?thesis using a by (simp add: z_def)
  qed
  then have Q: "base_inv Q" "others s P Q" "sock_live Q = sock_live P" "delete_pending (socks Q s) = delete_pending (socks P s)"
    "poll_status (socks Q s) = SOCK_POLL_IDLE \<longleftrightarrow> poll_status (socks P s) = SOCK_POLL_IDLE"
    "(poll_status (socks P s) \<noteq> SOCK_POLL_PENDING \<longrightarrow> pending_events (socks P s) = 0) \<Longrightarrow>
      (poll_status (socks Q s) \<noteq> SOCK_POLL_PENDING \<longrightarrow> pending_events (socks Q s) = 0)"
    "sock_tree Q = sock_tree P" "sk_key (socks Q s) = sk_key (socks P s)" by blast+
  define R where "R = port_cancel_socket_update s Q"
  note S = base_invD(2)[OF Q(1)]
  define k where "k = sk_key (socks Q s)"
  have m: "tree_map (sock_tree Q) k = Some s" using structD(3)[OF S, of s] s Q(3,4) by (simp add: k_def)
  obtain t where t: "tree_del (sock_tree Q) k = Some t" "tree_ok t" "tree_map t = (tree_map (sock_tree Q))(k := None)"
    using del_ok[OF structD(1)[OF S], of k] m by auto
  have f: "tree_find (sock_tree Q) k = Some s" using m find_map[of "sock_tree Q" k] structD(1)[OF S] by (simp add: tree_ok_def)
  note E = cancel_update_eqs[OF Q(1), of s]
  have "port_unregister_socket s R = R\<lparr>sock_tree := t\<rparr>"
    using f t(1) base_invD(1)[OF Q(1)] E(4) by (simp add: port_unregister_socket_def R_def k_def[symmetric] pchk_def Let_def)
  then have P': "P' = upd_sock s (\<lambda>x. x\<lparr>delete_pending := True\<rparr>) (R\<lparr>sock_tree := t\<rparr>)"
    by (simp add: P'_def retire_def Q_def[symmetric] R_def Let_def)
  have e: "sock_tree P' = t" "socks P' = (socks Q)(s := (socks Q s)\<lparr>delete_pending := True\<rparr>)" "sock_live P' = sock_live Q" "flight P' = flight Q"
    "sock_update_queue P' = remove1 s (sock_update_queue Q)" "sock_deleted_queue P' = remove1 s (sock_deleted_queue Q)" "pok P' = pok Q" "kept Q P'"
    using E by (simp_all add: P' R_def upd_sock_def kept_def)
  have "others s Q P'" using e by (simp add: others_def)
  then show "others s P P'" by (rule others_trans[OF Q(2)])
  have "struct_inv P'"
  proof (rule struct_invI)
    show "u \<in> sock_live P' \<and> \<not> delete_pending (socks P' u) \<and> sk_key (socks P' u) = j" if "tree_map (sock_tree P') j = Some u" for j u
    proof -
      have "j \<noteq> k" "tree_map (sock_tree Q) j = Some u" using that by (auto simp: e t(3) split: if_splits)
      moreover from this have "u \<noteq> s" using structD(2)[OF S, of j u] by (auto simp: k_def)
      ultimately show ?thesis using structD(2)[OF S, of j u] by (simp add: e)
    qed
    show "tree_map (sock_tree P') (sk_key (socks P' u)) = Some u" if "u \<in> sock_live P'" "\<not> delete_pending (socks P' u)" for u
    proof -
      have u: "u \<noteq> s" "u \<in> sock_live Q" "\<not> delete_pending (socks Q u)" using that by (auto simp: e split: if_splits)
      have "tree_map (sock_tree Q) (sk_key (socks Q u)) = Some u" by (rule structD(3)[OF S u(2,3)])
      moreover from this have "sk_key (socks Q u) \<noteq> k" using m u(1) by auto
      ultimately show ?thesis using u(1) by (simp add: e t(3))
    qed
    show "u \<in> sock_live P' \<and> \<not> delete_pending (socks P' u)" if "u \<in> set (sock_update_queue P')" for u
      using that structD(4)[OF S] structD(6)[OF S, of u] by (auto simp: e)
    show "u \<in> sock_live P' \<and> delete_pending (socks P' u)" if "u \<in> set (sock_deleted_queue P')" for u
      using that structD(5)[OF S] structD(7)[OF S, of u] by (auto simp: e)
  qed (use t(2) structD(4,5,8)[OF S] in \<open>simp_all add: e\<close>)
  moreover have "members P' = members Q"
  proof -
    have "sk_group (socks P' t) = sk_group (socks Q t)" for t by (simp add: e)
    then show ?thesis by (simp add: members_def fun_eq_iff) (simp add: e)
  qed
  moreover have "group_v P' = group_v Q" using E(3) by (simp add: P' group_v_def R_def upd_sock_def)
  ultimately show "base_inv P'" using base_invD[OF Q(1)] group_cong[of P' Q] e by (simp add: base_inv_def)
  show "sock_live P' = sock_live P" "delete_pending (socks P' s)"
    "poll_status (socks P' s) = SOCK_POLL_IDLE \<longleftrightarrow> poll_status (socks P s) = SOCK_POLL_IDLE" using e Q by simp_all
  show "(poll_status (socks P s) \<noteq> SOCK_POLL_PENDING \<longrightarrow> pending_events (socks P s) = 0) \<Longrightarrow>
      (poll_status (socks P' s) \<noteq> SOCK_POLL_PENDING \<longrightarrow> pending_events (socks P' s) = 0)" using e(2) Q(6) by simp
  show "tree_map (sock_tree P') = (tree_map (sock_tree P))(sk_key (socks P s) := None)" using e(1) t(3) Q(7,8) by (simp add: k_def)
qed

text \<open>The group counts its members, so a socket may leave its group.\<close>

lemma members_pos: "finite (sock_live P) \<Longrightarrow> s \<in> sock_live P \<Longrightarrow> members P (sk_group (socks P s)) > 0"
  by (auto simp: members_def card_gt_0_iff)

lemma members_remove:
  assumes "finite (sock_live P)" "s \<in> sock_live P" "sock_live P' = sock_live P - {s}" "socks P' = socks P"
  shows "members P' = (members P)(sk_group (socks P s) := members P (sk_group (socks P s)) - 1)"
proof (rule ext)
  fix g
  have "{t \<in> sock_live P'. sk_group (socks P' t) = g} = {t \<in> sock_live P. sk_group (socks P t) = g} - {s}" using assms(3,4) by auto
  then show "members P' g = ((members P)(sk_group (socks P s) := members P (sk_group (socks P s)) - 1)) g"
    using assms(1,2) by (auto simp: members_def card_Diff_singleton_if)
qed

lemma dispose_base:
  fixes force :: bool
  assumes B: "base_inv P" and s: "s \<in> sock_live P" "delete_pending (socks P s)"
  defines "P' \<equiv> dispose s force P"
  shows "base_inv P'" "others s P P'" "socks P' = socks P" "sock_tree P' = sock_tree P"
    "force \<or> poll_status (socks P s) = SOCK_POLL_IDLE \<Longrightarrow> sock_live P' = sock_live P - {s}"
    "\<not> (force \<or> poll_status (socks P s) = SOCK_POLL_IDLE) \<Longrightarrow> sock_live P' = sock_live P \<and> s \<in> set (sock_deleted_queue P')"
proof -
  note S = base_invD(2)[OF B]
  have "base_inv P' \<and> others s P P' \<and> socks P' = socks P \<and> sock_tree P' = sock_tree P \<and>
    (if force \<or> poll_status (socks P s) = SOCK_POLL_IDLE then sock_live P' = sock_live P - {s} else sock_live P' = sock_live P \<and> s \<in> set (sock_deleted_queue P'))"
  proof (cases "force \<or> poll_status (socks P s) = SOCK_POLL_IDLE")
    case True
    define R where "R = port_remove_deleted_socket s P"
    note E = cancel_update_eqs[OF B, of s, folded remove_deleted_eq R_def]
    define g where "g = sk_group (socks P s)"
    define G where "G = poll_group_release g R"
    have so: "socks R = socks P" "sock_live R = sock_live P" "sock_tree R = sock_tree P" "flight R = flight P" "kept P R"
      by (simp_all add: R_def remove_deleted_eq kept_def)
    have P': "P' = sock__free s G" using True so by (simp add: P'_def dispose_def R_def[symmetric] G_def g_def)
    have GR: "group_ok (members P) R" using base_invD(3)[OF B] group_cong[OF E(3)] by simp
    have "pok R" using E(4) base_invD(1)[OF B] by simp
    note L = group_release_ok[OF GR _ this, of g, folded G_def]
    have pos: "members P g > 0" using members_pos[OF structD(8)[OF S] s(1)] by (simp add: g_def)
    note L = L[OF pos]
    have G: "sock_tree G = sock_tree P" "sock_update_queue G = remove1 s (sock_update_queue P)" "sock_deleted_queue G = remove1 s (sock_deleted_queue P)"
      "socks G = socks P" "sock_live G = sock_live P" "flight G = flight P" using L(3) E so by (simp_all add: sock_v_def)
    have e: "sock_tree P' = sock_tree P" "sock_update_queue P' = remove1 s (sock_update_queue P)" "sock_deleted_queue P' = remove1 s (sock_deleted_queue P)"
      "socks P' = socks P" "sock_live P' = sock_live P - {s}" "flight P' = flight P" "kept P P'" "pok P'" "group_v P' = group_v G"
      using G L(2,4,5) so(5) s(1) by (simp_all add: P' sock__free_def pchk_def kept_def group_v_def)
    have "struct_inv P'"
    proof (rule struct_invI)
      show "u \<in> sock_live P' \<and> \<not> delete_pending (socks P' u) \<and> sk_key (socks P' u) = j" if "tree_map (sock_tree P') j = Some u" for j u
        using that structD(2)[OF S, of j u] s(2) by (auto simp: e)
      show "u \<in> sock_live P' \<and> \<not> delete_pending (socks P' u)" if "u \<in> set (sock_update_queue P')" for u
        using that structD(4)[OF S] structD(6)[OF S, of u] by (auto simp: e)
      show "u \<in> sock_live P' \<and> delete_pending (socks P' u)" if "u \<in> set (sock_deleted_queue P')" for u
        using that structD(5)[OF S] structD(7)[OF S, of u] by (auto simp: e)
    qed (use structD[OF S] in \<open>simp_all add: e\<close>)
    moreover have "members P' = (members P)(g := members P g - 1)"
      unfolding g_def by (rule members_remove[OF structD(8)[OF S] s(1)]) (simp_all add: e)
    ultimately have "base_inv P'" using L(1) group_cong[OF e(9)] e(8) by (simp add: base_inv_def)
    then show ?thesis using True e by (simp add: others_def)
  next
    case False
    have P': "P' = port_add_deleted_socket s P" using False by (simp add: P'_def dispose_def)
    have u: "s \<notin> set (sock_update_queue P)" using structD(6)[OF S, of s] s(2) by auto
    have e: "sock_deleted_queue P' = (if s \<in> set (sock_deleted_queue P) then sock_deleted_queue P else sock_deleted_queue P @ [s])"
      "sock_update_queue P' = sock_update_queue P" "sock_tree P' = sock_tree P" "socks P' = socks P" "sock_live P' = sock_live P" "flight P' = flight P"
      "kept P P'" "pok P' = pok P" "group_v P' = group_v P"
      using u by (auto simp: P' port_add_deleted_socket_def sock_enqueued_def kept_def group_v_def)
    have "struct_inv P'"
    proof (rule struct_invI)
      show "u \<in> sock_live P' \<and> delete_pending (socks P' u)" if "u \<in> set (sock_deleted_queue P')" for u
        using that s structD(7)[OF S, of u] by (auto simp: e split: if_splits)
      show "distinct (sock_deleted_queue P')" using structD(5)[OF S] by (simp add: e)
    qed (use structD[OF S] in \<open>simp_all add: e\<close>)
    moreover have "members P' = members P" by (simp add: members_def fun_eq_iff e)
    ultimately have "base_inv P'" using base_invD[OF B] group_cong[OF e(9)] e(8) by (simp add: base_inv_def)
    then show ?thesis using False e by (simp add: others_def)
  qed
  then show "base_inv P'" "others s P P'" "socks P' = socks P" "sock_tree P' = sock_tree P"
    "force \<or> poll_status (socks P s) = SOCK_POLL_IDLE \<Longrightarrow> sock_live P' = sock_live P - {s}"
    "\<not> (force \<or> poll_status (socks P s) = SOCK_POLL_IDLE) \<Longrightarrow> sock_live P' = sock_live P \<and> s \<in> set (sock_deleted_queue P')"
    by (auto split: if_splits)
qed

text \<open>The two uses: a socket whose poll request is not under way is freed, and every socket is with force.\<close>

lemma delete_base:
  fixes env :: "'w wenv" and force :: bool
  assumes B: "base_inv P" and s: "s \<in> sock_live P"
  defines "P' \<equiv> sock__delete env s force P"
  shows "base_inv P' \<and> others s P P' \<and> (\<not> delete_pending (socks P s) \<longrightarrow> tree_map (sock_tree P') = (tree_map (sock_tree P))(sk_key (socks P s) := None)) \<and>
    (if force \<or> poll_status (socks P s) = SOCK_POLL_IDLE then sock_live P' = sock_live P - {s}
     else sock_live P' = sock_live P \<and> s \<in> set (sock_deleted_queue P') \<and> delete_pending (socks P' s) \<and> poll_status (socks P' s) \<noteq> SOCK_POLL_IDLE \<and>
       (sock_flags P s \<longrightarrow> sock_flags P' s))"
proof (cases "delete_pending (socks P s)")
  case True
  then have P': "P' = dispose s force P" using sock__delete_alt[OF base_invD(1)[OF B] s, of env force] by (simp add: P'_def)
  note D = dispose_base[OF B s True, of force, folded P']
  show ?thesis using D True by (auto simp: sock_flags_def others_def)
next
  case False
  define Q where "Q = retire env s P"
  have P': "P' = dispose s force Q" using sock__delete_alt[OF base_invD(1)[OF B] s, of env force] False by (simp add: P'_def Q_def)
  note R = retire_base[OF B s False, of env, folded Q_def]
  have "s \<in> sock_live Q" using R(3) s by simp
  note D = dispose_base[OF R(1) this R(4), of force, folded P']
  have "sock_flags P s \<Longrightarrow> sock_flags Q s" using R(2,5,6) by (simp add: sock_flags_def others_def)
  moreover have "flight P' = flight Q" using D(2) by (simp add: others_def)
  ultimately have "sock_flags P s \<Longrightarrow> sock_flags P' s" using D(3) by (simp add: sock_flags_def)
  then show ?thesis using D R others_trans[OF R(2) D(2)] by auto
qed

lemma delete_inv:
  fixes env :: "'w wenv"
  assumes I: "inv_but {s} P" and s: "s \<in> sock_live P"
  shows "port_inv (sock__delete env s False P) \<and> others s P (sock__delete env s False P)"
proof -
  define P' where "P' = sock__delete env s False P"
  note D = delete_base[OF inv_butD(6)[OF I] s, of env False, folded P'_def]
  have F: "sock_flags P s" by (rule inv_butD(4)[OF I s])
  have "inv_but {s} P'"
    by (rule others_inv[OF I]) (use D F s in \<open>auto simp: sock_flags_def split: if_splits\<close>)
  moreover have "watched P' s" if "s \<in> sock_live P'" using that D by (auto simp: watched_def split: if_splits)
  ultimately show ?thesis using inv_but_watched D by (auto simp: P'_def)
qed

subsection \<open>Submitting and updating\<close>

text \<open>
  What is assumed of the system: the status that says that a request is under way is the only one with that error code.
\<close>

definition pending_only :: "'w wenv \<Rightarrow> bool" where
  "pending_only env \<longleftrightarrow> (\<forall>st. w_dos_error env st = ''ERROR_IO_PENDING'' \<longrightarrow> st = STATUS_PENDING)"

lemma afd_poll_cases:
  assumes "afd_poll env d s P = (r, P')" "pending_only env"
  defines "Q \<equiv> upd_sock s (\<lambda>x. x\<lparr>io_status := STATUS_PENDING\<rparr>) P"
  obtains "r < 0 \<longrightarrow> last_error P' = ''ERROR_IO_PENDING''" "port_v P' = port_v (Q\<lparr>flight := insert s (flight P)\<rparr>)"
  | "r < 0" "last_error P' \<noteq> ''ERROR_IO_PENDING''" "port_v P' = port_v Q"
proof -
  obtain st w where w: "w_ioctl_poll env d (base_socket (socks Q s)) (poll_events (socks Q s)) s (pos Q) = (st, w)"
    by (cases "w_ioctl_poll env d (base_socket (socks Q s)) (poll_events (socks Q s)) s (pos Q)")
  have fl: "flight Q = flight P" by (simp add: Q_def upd_sock_def)
  have a: "(r, P') = (if st = STATUS_SUCCESS then (0, Q\<lparr>pos := w, flight := insert s (flight P)\<rparr>)
         else if st = STATUS_PENDING then (- 1, err_set_win_error ''ERROR_IO_PENDING'' (Q\<lparr>pos := w, flight := insert s (flight P)\<rparr>))
         else (- 1, err_set_win_error (w_dos_error env st) (Q\<lparr>pos := w\<rparr>)))"
    using assms(1) w by (simp add: afd_poll_def Q_def[symmetric] Let_def fl split: if_splits)
  have v: "port_v (R\<lparr>pos := w, flight := F\<rparr>) = port_v (R\<lparr>flight := F\<rparr>)" for R :: "'a port" and F
    by (simp add: port_v_def sock_v_def group_v_def)
  consider "st = STATUS_SUCCESS" | "st = STATUS_PENDING" | "st \<noteq> STATUS_SUCCESS" "st \<noteq> STATUS_PENDING" by blast
  then show thesis
  proof cases
    case 1 then show ?thesis using a that(1) by (simp add: v)
  next
    case 2 then show ?thesis using a that(1) by (simp add: v) (simp add: err_set_win_error_def)
  next
    case 3
    then have "w_dos_error env st \<noteq> ''ERROR_IO_PENDING''" using assms(2) by (auto simp: pending_only_def)
    then show ?thesis using 3 a that(2) by simp (simp add: err_set_win_error_def)
  qed
qed

text \<open>A request is submitted for a socket that has none; on success the socket has left the update queue.\<close>

lemma queue_left:
  assumes "inv_but {s} P"
  shows "set (sock_update_queue (port_cancel_socket_update s P)) = set (sock_update_queue P) - {s}"
  using cancel_update_eqs(1)[OF inv_butD(6)[OF assms], of s] structD(4)[OF inv_butD(2)[OF assms]] by simp

lemma cancelled_inv:
  assumes I: "inv_but {s} P" and s: "s \<in> sock_live P" "\<not> delete_pending (socks P s)"
    and w: "poll_status (socks P s) = SOCK_POLL_PENDING \<and> unmet P s = 0 \<or> poll_status (socks P s) = SOCK_POLL_CANCELLED"
  shows "port_inv (port_cancel_socket_update s P)"
proof (rule inv_but_watched[OF cancel_update_inv(1)[OF I]])
  show "watched (port_cancel_socket_update s P) s" using s w by (simp add: watched_def unmet_def)
qed

lemma flight_inv:
  assumes I: "inv_but {s} P" and s: "s \<in> sock_live P"
    and f: "sk_key (f (socks P s)) = sk_key (socks P s)" "sk_group (f (socks P s)) = sk_group (socks P s)" "delete_pending (f (socks P s)) = delete_pending (socks P s)"
    and F: "\<And>t. t \<noteq> s \<Longrightarrow> t \<in> F \<longleftrightarrow> t \<in> flight P"
    and fl: "poll_status (f (socks P s)) \<noteq> SOCK_POLL_IDLE \<longleftrightarrow> s \<in> F" "poll_status (f (socks P s)) \<noteq> SOCK_POLL_PENDING \<longrightarrow> pending_events (f (socks P s)) = 0"
  shows "inv_but {s} ((upd_sock s f P)\<lparr>flight := F\<rparr>)"
proof -
  let ?P = "(upd_sock s f P)\<lparr>flight := F\<rparr>"
  have "base_inv (upd_sock s f P)" by (rule upd_sock_base[OF inv_butD(6)[OF I]]) (rule f)+
  then have b: "base_inv ?P" by (simp add: base_inv_def struct_inv_def group_ok_def members_def)
  have e: "sock_live ?P = sock_live P" "socks ?P = (socks P)(s := f (socks P s))" "sock_update_queue ?P = sock_update_queue P"
    "sock_deleted_queue ?P = sock_deleted_queue P" "flight ?P = F" by (simp_all add: upd_sock_def)
  have "sock_flags ?P t" if "t \<in> sock_live P" for t
    using fl F[of t] inv_butD(4)[OF I that] by (cases "t = s") (simp_all add: sock_flags_def e)
  moreover have "watched ?P t" if "t \<in> sock_live P" "t \<noteq> s" for t
  proof -
    have u: "unmet ?P t = unmet P t" using that(2) by (simp add: unmet_def e)
    show ?thesis using inv_butD(5)[OF I that(1)] that(2) unfolding watched_def u e by simp
  qed
  moreover have "F \<subseteq> sock_live P"
  proof
    fix t assume "t \<in> F" then show "t \<in> sock_live P" using F[of t] s inv_butD(7)[OF I] by (cases "t = s") auto
  qed
  ultimately show ?thesis using b unfolding inv_but_def core_inv_def e by blast
qed

lemma and_and_not: "a AND k AND NOT a = (0 :: u32)"
  by (rule bit_word_eqI) (auto simp: bit_simps)

text \<open>One step of the update loop: the socket leaves the queue, no other enters it.\<close>

definition stepped :: "nat \<Rightarrow> 'w port \<Rightarrow> 'w port \<Rightarrow> bool" where
  "stepped s P P' \<longleftrightarrow> kept P P' \<and> set (sock_update_queue P') = set (sock_update_queue P) - {s} \<and> sock_live P' \<subseteq> sock_live P"

lemma submit_inv:
  assumes I: "inv_but {s} P" and s: "s \<in> sock_live P" "\<not> delete_pending (socks P s)" "poll_status (socks P s) = SOCK_POLL_IDLE"
    and q: "s \<in> set (sock_update_queue P)" and e: "pending_only env" and r: "sock_submit env s P = (r, P')"
  shows "port_inv P' \<and> kept P P' \<and> sock_live P' \<subseteq> sock_live P \<and> (0 \<le> r \<longrightarrow> stepped s P P')"
proof -
  define u where "u = (\<lambda>x :: sock_state. x\<lparr>poll_handles := 1, poll_events := sock__events_to_afd_events (user_events x)\<rparr>)"
  define i where "i = (\<lambda>x :: sock_state. x\<lparr>io_status := STATUS_PENDING\<rparr>)"
  define j where "j = (\<lambda>x :: sock_state. x\<lparr>poll_status := SOCK_POLL_PENDING, pending_events := user_events x\<rparr>)"
  define Q where "Q = upd_sock s u P"
  define d where "d = afd_handle (groups Q (sk_group (socks Q s)))"
  obtain k R where R: "afd_poll env d s Q = (k, R)" by (cases "afd_poll env d s Q")
  define R' where "R' = upd_sock s j R"
  have r': "(r, P') = (if k < 0 \<and> last_error R \<noteq> ''ERROR_IO_PENDING'' then
        if last_error R = ''ERROR_INVALID_HANDLE'' then (0, sock__delete env s False R) else (- 1, err_map_win_error R)
      else (0, port_cancel_socket_update s R'))"
    using R unfolding r[symmetric] sock_submit_def u_def[symmetric] j_def[symmetric] Let_def Q_def[symmetric] d_def[symmetric] by (simp add: R'_def)
  show ?thesis
    using R e
  proof (cases rule: afd_poll_cases)
    case 1
    let ?S = "(upd_sock s (j \<circ> i \<circ> u) P)\<lparr>flight := insert s (flight P)\<rparr>"
    have "port_v R' = port_v ?S"
      using port_v_D[OF 1(2)] by (simp add: R'_def port_v_def sock_v_def group_v_def upd_sock_def Q_def i_def)
    note v = this
    have "inv_but {s} ?S" by (rule flight_inv[OF I s(1)]) (simp_all add: j_def i_def u_def)
    then have S: "inv_but {s} R'" using inv_but_v[OF v] by simp
    have e: "sock_live R' = sock_live P" "socks R' s = j (i (u (socks P s)))" "sock_update_queue R' = sock_update_queue P" "kept P R'"
      using port_v_D[OF v] by (simp_all add: upd_sock_def kept_def)
    have P': "r = 0" "P' = port_cancel_socket_update s R'" using 1(1) r' by (auto split: if_splits)
    have "port_inv P'" unfolding P' by (rule cancelled_inv[OF S]) (use s in \<open>simp_all add: e j_def i_def u_def unmet_def and_and_not\<close>)
    then show ?thesis using queue_left[OF S] e by (simp add: P' stepped_def kept_def)
  next
    case 2
    let ?S = "upd_sock s (i \<circ> u) P"
    have v: "port_v R = port_v ?S" using port_v_D[OF 2(3)] by (simp add: port_v_def sock_v_def group_v_def upd_sock_def Q_def i_def)
    have "inv_but {s} ?S"
      by (rule upd_sock_inv[OF I]) (use inv_butD(4)[OF I s(1)] in \<open>simp_all add: i_def u_def sock_flags_def upd_sock_def\<close>)
    then have S: "inv_but {s} R" using inv_but_v[OF v] by simp
    have e: "sock_live R = sock_live P" "socks R s = i (u (socks P s))" "sock_update_queue R = sock_update_queue P" "kept P R"
      using port_v_D[OF v] by (simp_all add: upd_sock_def kept_def)
    show ?thesis
    proof (cases "last_error R = ''ERROR_INVALID_HANDLE''")
      case True
      then have P': "r = 0" "P' = sock__delete env s False R" using 2 r' by auto
      have D: "port_inv P'" "others s R P'" using delete_inv[OF S, of env] s(1) by (simp_all add: P' e)
      have "sock_live P' = sock_live R - {s}"
        using delete_base[OF inv_butD(6)[OF S], of s env False] s by (simp add: P'(2) e i_def u_def)
      then have "s \<notin> set (sock_update_queue P')" using structD(6)[OF inv_butD(2)[OF D(1)[unfolded port_inv_def]], of s] by auto
      then have "set (sock_update_queue P') = set (sock_update_queue P) - {s}" using D(2) e(3) by (auto simp: others_def)
      then show ?thesis using D \<open>sock_live P' = _\<close> e by (auto simp: stepped_def others_def kept_def)
    next
      case False
      then have P': "r = - 1" "P' = err_map_win_error R" using 2 r' by auto
      have "watched R s" using q s by (simp add: watched_def e i_def u_def)
      then have "port_inv R" by (rule inv_but_watched[OF S])
      then show ?thesis using e by (simp add: P' port_inv_def) (simp add: kept_def err_map_win_error_def)
    qed
  qed
qed

lemma update_inv:
  assumes I: "port_inv P" and q: "s \<in> set (sock_update_queue P)" and e: "pending_only env" and r: "sock_update env s P = (r, P')"
  shows "port_inv P' \<and> kept P P' \<and> sock_live P' \<subseteq> sock_live P \<and> (0 \<le> r \<longrightarrow> stepped s P P')"
proof -
  have I': "inv_but {s} P" using I inv_but_mono[of "{}" P "{s}"] by (simp add: port_inv_def)
  have s: "s \<in> sock_live P" "\<not> delete_pending (socks P s)" using structD(6)[OF inv_butD(2)[OF I'] q] by auto
  have c: "pchk (s \<in> sock_live P \<and> \<not> delete_pending (socks P s)) P = P" by (rule inv_but_chk[OF I']) (use s in simp)
  show ?thesis
  proof (cases "poll_status (socks P s)")
    case SOCK_POLL_IDLE
    then show ?thesis using submit_inv[OF I' s _ q e, of r P'] r by (simp add: sock_update_def c)
  next
    case SOCK_POLL_CANCELLED
    then have P': "r = 0" "P' = port_cancel_socket_update s P" using r by (simp_all add: sock_update_def c)
    show ?thesis using cancelled_inv[OF I' s] SOCK_POLL_CANCELLED queue_left[OF I'] by (simp add: P' stepped_def kept_def)
  next
    case SOCK_POLL_PENDING
    show ?thesis
    proof (cases "unmet P s = 0")
      case True
      then have P': "r = 0" "P' = port_cancel_socket_update s P" using r SOCK_POLL_PENDING by (simp_all add: sock_update_def c unmet_def)
      show ?thesis using cancelled_inv[OF I' s] SOCK_POLL_PENDING True queue_left[OF I'] by (simp add: P' stepped_def kept_def)
    next
      case False
      obtain k Q where Q: "sock__cancel_poll env s P = (k, Q)" by (cases "sock__cancel_poll env s P")
      have P': "(r, P') = (if k < 0 then (- 1, Q) else (0, port_cancel_socket_update s Q))"
        using r SOCK_POLL_PENDING Q False by (simp add: sock_update_def c unmet_def)
      note C = cancel_poll_inv[OF I' _ s(1) SOCK_POLL_PENDING Q, simplified]
      have sQ: "s \<in> sock_live Q" "\<not> delete_pending (socks Q s)" using C s by auto
      show ?thesis
      proof (cases "k < 0")
        case True
        then have "watched Q s" using C q s by (simp add: watched_def)
        then have "port_inv Q" using inv_but_watched C by blast
        then show ?thesis using P' True C by simp
      next
        case False
        then show ?thesis using P' C cancelled_inv[of s Q, OF _ sQ] queue_left[of s Q] by (simp add: stepped_def kept_def)
      qed
    qed
  qed
qed

end
