(* ===== verification/Wepoll_Steps.thy ===== *)
theory Wepoll_Steps
  imports Wepoll_Spec
begin

section \<open>What threads and driver do to a port\<close>

subsection \<open>The update queue\<close>

lemma inv_but_any: "port_inv P \<Longrightarrow> inv_but X P"
  using inv_but_mono[of "{}" P X] by (simp add: port_inv_def)

lemma queue_card: "port_inv P \<Longrightarrow> card (set (sock_update_queue P)) = length (sock_update_queue P)"
  unfolding port_inv_def by (rule distinct_card[OF structD(4)[OF inv_butD(2)]])

lemma update_events_ok:
  assumes "port_inv P" and e: "pending_only env"
  shows "\<exists>r P'. port__update_events env P = Some (r, P') \<and> port_inv P' \<and> kept P P' \<and> sock_live P' \<subseteq> sock_live P \<and> (r = 0 \<and> sock_update_queue P' = [] \<or> r = - 1)"
  using assms(1)
proof (induction "length (sock_update_queue P)" arbitrary: P rule: less_induct)
  case less
  show ?case
  proof (cases "sock_update_queue P")
    case Nil
    then show ?thesis using less.prems by (simp add: port__update_events.simps[of env P] kept_def)
  next
    case (Cons s q)
    obtain r Q where Q: "sock_update env s P = (r, Q)" by (cases "sock_update env s P")
    note U = update_inv[OF less.prems _ e Q]
    show ?thesis
    proof (cases "r < 0")
      case True
      then show ?thesis using U Q Cons by (simp add: port__update_events.simps[of env P])
    next
      case False
      then have U: "port_inv Q" "kept P Q" "stepped s P Q" using U Cons by simp_all
      have "card (set (sock_update_queue Q)) < card (set (sock_update_queue P))"
        using U(3) Cons by (intro psubset_card_mono) (auto simp: stepped_def)
      then have l: "length (sock_update_queue Q) < length (sock_update_queue P)" using queue_card[OF U(1)] queue_card[OF less.prems] by simp
      from less.hyps[OF l U(1)] show ?thesis
        using Q Cons False U(2,3) by (auto simp: port__update_events.simps[of env P] kept_def stepped_def)
    qed
  qed
qed

subsection \<open>Completions\<close>

lemma report_inv:
  assumes I: "inv_but {s} P" and s: "s \<in> sock_live P" "\<not> delete_pending (socks P s)" and r: "sock_report s ev P = (e, P')"
  shows "port_inv P' \<and> kept P P' \<and> flight P' = flight P"
proof -
  define Q where "Q = port_request_socket_update s P"
  have Q: "port_inv Q" unfolding Q_def by (rule request_update_inv[OF I s])
  have q: "kept P Q" "flight Q = flight P" "socks Q = socks P" by (simp_all add: Q_def port_request_socket_update_def kept_def)
  have enq: "s \<in> set (sock_update_queue Q)"
    using structD(7)[OF inv_butD(2)[OF I], of s] s by (auto simp: Q_def port_request_socket_update_def sock_enqueued_def)
  define R where "R = upd_sock s (\<lambda>x. x\<lparr>user_events := 0\<rparr>) Q"
  have "inv_but {s} R" unfolding R_def
    by (rule upd_sock_inv[OF inv_but_any[OF Q]]) (use inv_butD(4)[OF inv_but_any[OF Q, of "{}"], of s] in \<open>simp_all add: sock_flags_def upd_sock_def\<close>)
  moreover have "watched R s" using enq s by (simp add: watched_def R_def upd_sock_def q)
  ultimately have R: "port_inv R" by (rule inv_but_watched)
  have rr: "kept Q R" "flight R = flight Q" by (simp_all add: R_def upd_sock_def kept_def)
  have "P' = Q \<or> P' = R" using r unfolding sock_report_def Q_def[symmetric] Let_def R_def by (auto split: if_splits)
  then show ?thesis using Q R q rr by (auto simp: kept_def)
qed

lemma feed_event_inv:
  assumes I: "port_inv P" and s: "s \<in> flight P" and r: "sock_feed_event env s P = (e, P')"
  shows "port_inv P' \<and> kept P P' \<and> flight P' = flight P - {s}"
proof -
  note I' = inv_but_any[OF I, of "{s}"]
  have l: "s \<in> sock_live P" using inv_butD(7)[OF I'] s by blast
  have c: "pchk (s \<in> sock_live P) P = P" by (rule inv_but_chk[OF I' l])
  define i where "i = (\<lambda>x :: sock_state. x\<lparr>poll_status := SOCK_POLL_IDLE, pending_events := 0\<rparr>)"
  define Q where "Q = (upd_sock s i P)\<lparr>flight := flight P - {s}\<rparr>"
  have Q: "inv_but {s} Q" unfolding Q_def by (rule flight_inv[OF I' l]) (auto simp: i_def)
  have q: "sock_live Q = sock_live P" "flight Q = flight P - {s}" "kept P Q" "poll_status (socks Q s) = SOCK_POLL_IDLE"
    by (simp_all add: Q_def upd_sock_def i_def kept_def)
  have lq: "s \<in> sock_live Q" using q l by simp
  have fl: "flight (upd_sock s i P) = flight P" by (simp add: upd_sock_def)
  have cases: "(e, P') = (None, sock__delete env s False Q) \<or> (\<not> delete_pending (socks Q s) \<and> (\<exists>ev. sock_report s ev Q = (e, P')))"
    using r unfolding sock_feed_event_def c i_def[symmetric] Let_def fl Q_def[symmetric] by (auto split: if_splits)
  then show ?thesis
  proof (elim disjE conjE exE)
    assume "(e, P') = (None, sock__delete env s False Q)"
    then show ?thesis using delete_inv[OF Q lq, of env] q by (auto simp: others_def kept_def)
  next
    fix ev assume d: "\<not> delete_pending (socks Q s)" and "sock_report s ev Q = (e, P')"
    then show ?thesis using report_inv[OF Q lq d, of ev e P'] q by (simp add: kept_def)
  qed
qed

lemma feed_events_inv:
  assumes "port_inv P" "distinct ss" "set ss \<subseteq> flight P" "port__feed_events env ss P = (es, P')"
  shows "port_inv P' \<and> kept P P' \<and> flight P' = flight P - set ss"
  using assms
proof (induction ss arbitrary: P es P')
  case Nil
  then show ?case by (simp add: kept_def)
next
  case (Cons s ss)
  obtain e Q where Q: "sock_feed_event env s P = (e, Q)" by (cases "sock_feed_event env s P")
  obtain es' R where R: "port__feed_events env ss Q = (es', R)" by (cases "port__feed_events env ss Q")
  have sf: "s \<in> flight P" using Cons.prems(3) by simp
  note F = feed_event_inv[OF Cons.prems(1) sf Q]
  have "port_inv R \<and> kept Q R \<and> flight R = flight Q - set ss"
    by (rule Cons.IH[OF _ _ _ R]) (use F Cons.prems in auto)
  then show ?case using F Q R Cons.prems(4) by (auto simp: kept_def)
qed

subsection \<open>New sockets\<close>

lemma bsp_v: "port_v (snd (ws__ioctl_get_bsp_socket r P)) = port_v P"
  by (auto simp: ws__ioctl_get_bsp_socket_def port_v_def sock_v_def group_v_def split: prod.splits sum.splits)

lemma base_socket_v:
  fixes Q :: "'w port"
  assumes "ws_get_base_socket env socket Q = Some y"
  shows "port_v (snd y) = port_v Q"
proof -
  have "(\<lambda>a y. port_v (snd y) = port_v (snd a :: 'w port)) ((env, socket), Q) y"
  proof (rule ws_get_base_socket.raw_induct[OF _ assms], goal_cases)
    case (1 rec env socket P y)
    obtain base Q where Q: "ws__ioctl_get_bsp_socket (w_base_handle env socket (pos P)) P = (base, Q)"
      by (cases "ws__ioctl_get_bsp_socket (w_base_handle env socket (pos P)) P")
    obtain base' R where R: "ws__ioctl_get_bsp_socket (w_bsp_handle env socket (pos Q)) Q = (base', R)"
      by (cases "ws__ioctl_get_bsp_socket (w_bsp_handle env socket (pos Q)) Q")
    have v: "port_v Q = port_v P" "port_v R = port_v P"
      using bsp_v[of "w_base_handle env socket (pos P)" P] bsp_v[of "w_bsp_handle env socket (pos Q)" Q] Q R by simp_all
    have IH: "rec env base' R = Some y \<Longrightarrow> port_v (snd y) = port_v R" using 1(1)[of env base' R y] by simp
    show ?case using 1(2) IH v by (auto simp: Q R Let_def split: if_splits)
  qed
  then show ?thesis by simp
qed

subsection \<open>Operations of \<^verbatim>\<open>port_ctl\<close>\<close>

text \<open>The invariant does not speak about what is not allocated.\<close>

lemma inv_live_cong:
  assumes I: "inv_but X P" and e: "sock_tree P' = sock_tree P" "sock_update_queue P' = sock_update_queue P" "sock_deleted_queue P' = sock_deleted_queue P"
    "sock_live P' = sock_live P" "flight P' = flight P" "\<And>t. t \<in> sock_live P \<Longrightarrow> socks P' t = socks P t"
    and G: "group_ok (members P) P'" "pok P'"
  shows "inv_but X P'"
proof -
  note S = inv_butD(2)[OF I]
  have "struct_inv P'"
  proof (rule struct_invI)
    show "s \<in> sock_live P' \<and> \<not> delete_pending (socks P' s) \<and> sk_key (socks P' s) = k" if "tree_map (sock_tree P') k = Some s" for k s
      using structD(2)[OF S, of k s] that by (simp add: e)
    show "s \<in> sock_live P' \<and> \<not> delete_pending (socks P' s)" if "s \<in> set (sock_update_queue P')" for s
      using structD(6)[OF S, of s] that by (simp add: e)
    show "s \<in> sock_live P' \<and> delete_pending (socks P' s)" if "s \<in> set (sock_deleted_queue P')" for s
      using structD(7)[OF S, of s] that by (simp add: e)
  qed (use structD[OF S] in \<open>simp_all add: e\<close>)
  moreover have "members P' = members P"
  proof (rule ext)
    fix g
    have "{s \<in> sock_live P'. sk_group (socks P' s) = g} = {s \<in> sock_live P. sk_group (socks P s) = g}" using e(4,6) by auto
    then show "members P' g = members P g" by (simp add: members_def)
  qed
  moreover have "sock_flags P' t" "t \<notin> X \<Longrightarrow> watched P' t" if "t \<in> sock_live P" for t
  proof -
    have u: "unmet P' t = unmet P t" using e(6)[OF that] by (simp add: unmet_def)
    show "sock_flags P' t" using inv_butD(4)[OF I that] e(6)[OF that] by (simp add: sock_flags_def e)
    show "t \<notin> X \<Longrightarrow> watched P' t" using inv_butD(5)[OF I that] unfolding watched_def u e(2,3) e(6)[OF that] .
  qed
  ultimately show ?thesis using inv_butD(7)[OF I] G by (simp add: inv_but_def core_inv_def base_inv_def e)
qed

lemma members_insert:
  assumes "finite (sock_live P)" "s \<notin> sock_live P" "sock_live P' = insert s (sock_live P)" "\<And>t. t \<noteq> s \<Longrightarrow> socks P' t = socks P t" "sk_group (socks P' s) = g"
  shows "members P' = (members P)(g := members P g + 1)"
proof (rule ext)
  fix h
  have "{t \<in> sock_live P'. sk_group (socks P' t) = h} = (if h = g then insert s else id) {t \<in> sock_live P. sk_group (socks P t) = h}"
  proof -
    have ne: "socks P' t = socks P t" if "t \<in> sock_live P" for t by (rule assms(4)) (use assms(2) that in blast)
    then show ?thesis using assms(3,5) by auto
  qed
  then show "members P' h = ((members P)(g := members P g + 1)) h" using assms(1,2) by (simp add: members_def card_insert_if)
qed

lemma insert_inv:
  assumes I: "port_inv P" and s: "s \<notin> sock_live P"
    and e: "sock_tree P' = t" "sock_update_queue P' = sock_update_queue P" "sock_deleted_queue P' = sock_deleted_queue P"
      "socks P' = (socks P)(s := x)" "sock_live P' = insert s (sock_live P)" "flight P' = flight P" "pok P'"
    and t: "tree_ok t" "tree_map t = (tree_map (sock_tree P))(sk_key x \<mapsto> s)" "tree_map (sock_tree P) (sk_key x) = None"
    and x: "\<not> delete_pending x" "poll_status x = SOCK_POLL_IDLE" "pending_events x = 0"
    and G: "group_ok ((members P)(sk_group x := members P (sk_group x) + 1)) P'"
  shows "inv_but {s} P'"
proof -
  note D = inv_butD[OF I[unfolded port_inv_def]]
  note S = D(2)
  have ne: "u \<noteq> s" if "u \<in> sock_live P" for u using s that by blast
  have "struct_inv P'"
  proof (rule struct_invI)
    show "u \<in> sock_live P' \<and> \<not> delete_pending (socks P' u) \<and> sk_key (socks P' u) = k" if "tree_map (sock_tree P') k = Some u" for k u
      using that structD(2)[OF S, of k u] ne[of u] x(1) by (auto simp: e t(2) split: if_splits)
    show "tree_map (sock_tree P') (sk_key (socks P' u)) = Some u" if "u \<in> sock_live P'" "\<not> delete_pending (socks P' u)" for u
    proof (cases "u = s")
      case False
      then have u: "tree_map (sock_tree P) (sk_key (socks P u)) = Some u" using that structD(3)[OF S, of u] by (simp add: e)
      then have "sk_key (socks P u) \<noteq> sk_key x" using t(3) by auto
      then show ?thesis using u False by (simp add: e t(2))
    qed (simp add: e t(2))
    show "u \<in> sock_live P' \<and> \<not> delete_pending (socks P' u)" if "u \<in> set (sock_update_queue P')" for u
      using that structD(6)[OF S, of u] ne[of u] by (simp add: e)
    show "u \<in> sock_live P' \<and> delete_pending (socks P' u)" if "u \<in> set (sock_deleted_queue P')" for u
      using that structD(7)[OF S, of u] ne[of u] by (simp add: e)
  qed (use t(1) structD(4,5,8)[OF S] in \<open>simp_all add: e\<close>)
  moreover have "members P' = (members P)(sk_group x := members P (sk_group x) + 1)"
    by (rule members_insert[OF structD(8)[OF S] s e(5)]) (simp_all add: e(4))
  moreover have "s \<notin> flight P" using D(7) s by blast
  then have "sock_flags P' u" if "u \<in> sock_live P'" for u
    using D(4)[of u] that x by (cases "u = s") (simp_all add: sock_flags_def e)
  moreover have "watched P' u" if "u \<in> sock_live P" for u
  proof -
    have su: "socks P' u = socks P u" using ne[OF that] by (simp add: e)
    have un: "unmet P' u = unmet P u" by (simp add: unmet_def su)
    show ?thesis using D(5)[OF that] unfolding watched_def un e(2,3) su by blast
  qed
  ultimately show ?thesis using D(7) G e(5-7) by (auto simp: inv_but_def core_inv_def base_inv_def)
qed

lemma sock_new_inv:
  assumes I: "port_inv P" and h: "iocp_handle P \<noteq> None" and r: "sock_new env socket P = Some (r, P')"
  shows "kept P P' \<and> flight P' = flight P \<and> (case r of None \<Rightarrow> port_inv P' \<and> sock_tree P' = sock_tree P
     | Some s \<Rightarrow> tree_map (sock_tree P) socket = None \<and> inv_but {s} P' \<and> s \<in> sock_live P' \<and> s \<notin> sock_live P \<and> \<not> delete_pending (socks P' s) \<and> pending_events (socks P' s) = 0 \<and> tree_map (sock_tree P') = (tree_map (sock_tree P))(socket \<mapsto> s))"
proof (cases "socket = 0 \<or> socket = INVALID_SOCKET")
  case True
  then have "r = None" "P' = err_set_win_error ''ERROR_INVALID_HANDLE'' P" using r by (auto simp: sock_new_def)
  then show ?thesis using I by (simp add: port_inv_def) (simp add: kept_def err_set_win_error_def)
next
  case False
  then obtain base Q where Q: "ws_get_base_socket env socket P = Some (base, Q)" using r by (auto simp: sock_new_def)
  have v: "port_v Q = port_v P" using base_socket_v[OF Q] by simp
  note vD = port_v_D[OF v]
  have IQ: "port_inv Q" using I inv_but_v[OF v] by (simp add: port_inv_def)
  show ?thesis
  proof (cases "base = INVALID_SOCKET")
    case True
    then show ?thesis using False r Q IQ vD by (simp add: sock_new_def kept_def)
  next
    case base: False
    obtain k R where R: "poll_group_acquire env Q = (k, R)" by (cases "poll_group_acquire env Q")
    note IQD = inv_butD[OF IQ[unfolded port_inv_def]]
    have A: "same_socks Q R" "case k of None \<Rightarrow> group_ok (members Q) R | Some g \<Rightarrow> g \<in> group_live R \<and> group_ok ((members Q)(g := members Q g + 1)) R"
      using group_acquire_ok[OF IQD(3,1) _ R] h vD(4) by auto
    have RQ: "sock_tree R = sock_tree Q" "sock_update_queue R = sock_update_queue Q" "sock_deleted_queue R = sock_deleted_queue Q" "socks R = socks Q"
      "sock_live R = sock_live Q" "flight R = flight Q" "pok R" "kept Q R" using A(1) IQD(1) by (simp_all add: same_socks_def sock_v_def kept_def)
    show ?thesis
    proof (cases k)
      case None
      then have P': "r = None" "P' = R" using False base r Q R by (simp_all add: sock_new_def)
      have "port_inv R" unfolding port_inv_def by (rule inv_live_cong[OF IQ[unfolded port_inv_def]]) (use A(2) None RQ in simp_all)
      then show ?thesis using P' RQ vD by (simp add: kept_def)
    next
      case (Some g)
      have G: "group_ok ((members Q)(g := members Q g + 1)) R" using A(2) Some by simp
      obtain m w where m: "w_malloc env (pos R) = (m, w)" by (cases "w_malloc env (pos R)")
      define s where "s = fresh (sock_live R)"
      define T where "T = upd_sock s (\<lambda>_. sock_zero g base) (R\<lparr>pos := w, sock_live := insert s (sock_live R)\<rparr>)"
      have P': "(r, P') = (if \<not> m then (None, poll_group_release g (err_set_win_error ''ERROR_NOT_ENOUGH_MEMORY'' (R\<lparr>pos := w\<rparr>)))
          else let (r, P) = port_register_socket s socket T in if r < 0 then (None, poll_group_release g (sock__free s P)) else (Some s, P))"
        using False base r Q R Some m unfolding sock_new_def s_def T_def by (simp add: Let_def split: prod.splits if_splits)
      have s: "s \<notin> sock_live P" using fresh_notin[OF structD(8)[OF IQD(2)]] by (simp add: s_def RQ vD)
      have bk: "(((members Q)(g := members Q g + 1))(g := ((members Q)(g := members Q g + 1)) g - 1)) = members Q" by auto
      have undo: "port_inv U' \<and> kept Q U' \<and> flight U' = flight Q \<and> sock_tree U' = sock_tree Q" if u: "sock_v U = sock_v Q \<or> (\<exists>x. sock_v (U\<lparr>socks := x\<rparr>) = sock_v (Q\<lparr>socks := x\<rparr>) \<and> (\<forall>t \<in> sock_live Q. socks U t = socks Q t))" "group_v U = group_v R" "pok U" "kept R U" and U': "U' = poll_group_release g U" for U U'
      proof -
        have gU: "group_ok ((members Q)(g := members Q g + 1)) U" using G group_cong[OF u(2)] by simp
        note L = group_release_ok[OF gU _ u(3), of g, unfolded bk, folded U']
        have L: "group_ok (members Q) U'" "pok U'" "sock_v U' = sock_v U" "kept U U'" using L by (simp_all add: kept_def)
        have x: "sock_tree U = sock_tree Q" "sock_update_queue U = sock_update_queue Q" "sock_deleted_queue U = sock_deleted_queue Q"
          "sock_live U = sock_live Q" "flight U = flight Q" "\<And>t. t \<in> sock_live Q \<Longrightarrow> socks U t = socks Q t"
          using u(1) by (auto simp: sock_v_def)
        have "port_inv U'" unfolding port_inv_def
          by (rule inv_live_cong[OF IQ[unfolded port_inv_def]]) (use L(1-3) x in \<open>simp_all add: sock_v_def\<close>)
        then show ?thesis using L(3,4) x(1,5) u(4) RQ by (simp add: sock_v_def kept_def)
      qed
      show ?thesis
      proof (cases m)
        case False
        then have P': "r = None" "P' = poll_group_release g (err_set_win_error ''ERROR_NOT_ENOUGH_MEMORY'' (R\<lparr>pos := w\<rparr>))" using P' by simp_all
        have "port_inv P' \<and> kept Q P' \<and> flight P' = flight Q \<and> sock_tree P' = sock_tree Q"
          by (rule undo[OF _ _ _ _ P'(2)]) (use A(1) RQ(7) in \<open>simp_all add: same_socks_def\<close>, simp add: kept_def err_set_win_error_def)
        then show ?thesis using P'(1) vD by (simp add: kept_def)
      next
        case True
        have T: "sock_tree T = sock_tree Q" "sock_update_queue T = sock_update_queue Q" "sock_deleted_queue T = sock_deleted_queue Q"
          "socks T = (socks Q)(s := sock_zero g base)" "sock_live T = insert s (sock_live Q)" "flight T = flight Q" "pok T" "kept R T" "group_v T = group_v R"
          using RQ by (simp_all add: T_def upd_sock_def kept_def group_v_def)
        have sQ: "s \<notin> sock_live Q" using s vD by simp
        obtain t where t: "tree_add (sock_tree Q) socket s = Some (if tree_map (sock_tree Q) socket = None then 0 else - 1, t)" "tree_ok t"
          "tree_map t = (if tree_map (sock_tree Q) socket = None then (tree_map (sock_tree Q))(socket \<mapsto> s) else tree_map (sock_tree Q))"
          using add_ok[OF structD(1)[OF IQD(2)], of socket s] by blast
        show ?thesis
        proof (cases "tree_map (sock_tree Q) socket = None")
          case False
          define U where "U = sock__free s (err_set_win_error ''ERROR_ALREADY_EXISTS'' T)"
          have P': "r = None" "P' = poll_group_release g U" using P' True t False by (simp_all add: port_register_socket_def T U_def)
          have U: "sock_v (U\<lparr>socks := x\<rparr>) = sock_v (Q\<lparr>socks := x\<rparr>)" "socks U = socks T" "group_v U = group_v R" "pok U" "kept R U" for x
            using sQ T by (simp_all add: U_def sock__free_def pchk_def err_set_win_error_def sock_v_def group_v_def kept_def)
          have "port_inv P' \<and> kept Q P' \<and> flight P' = flight Q \<and> sock_tree P' = sock_tree Q"
            by (rule undo[OF _ U(3) U(4) U(5) P'(2)]) (use U(1,2) T(4) sQ in auto)
          then show ?thesis using P'(1) vD by (simp add: kept_def)
        next
          case none: True
          have P': "r = Some s" "P' = (upd_sock s (\<lambda>x. x\<lparr>sk_key := socket\<rparr>) T)\<lparr>sock_tree := t\<rparr>"
            using P' True t none by (simp_all add: port_register_socket_def T)
          have e: "sock_tree P' = t" "sock_update_queue P' = sock_update_queue Q" "sock_deleted_queue P' = sock_deleted_queue Q"
            "socks P' = (socks Q)(s := (sock_zero g base)\<lparr>sk_key := socket\<rparr>)" "sock_live P' = insert s (sock_live Q)" "flight P' = flight Q" "pok P'" "kept Q P'" "group_v P' = group_v R"
            using T RQ by (simp_all add: P' upd_sock_def kept_def group_v_def)
          have "inv_but {s} P'" by (rule insert_inv[OF IQ sQ e(1-7)]) (use t none G group_cong[OF e(9)] in \<open>simp_all add: sock_zero_def\<close>)
          then show ?thesis using e P'(1) s vD t(3) none none[unfolded vD(6)] by (simp add: kept_def sock_zero_def)
        qed
      qed
    qed
  qed
qed

lemma set_event_inv:
  assumes I: "inv_but {s} P" and s: "s \<in> sock_live P" "\<not> delete_pending (socks P s)" and w: "watched P s \<or> pending_events (socks P s) = 0"
  shows "port_inv (sock_set_event s ev d P) \<and> kept P (sock_set_event s ev d P) \<and> flight (sock_set_event s ev d P) = flight P"
proof -
  define f where "f = (\<lambda>x :: sock_state. x\<lparr>user_events := ev OR EPOLLERR OR EPOLLHUP, user_data := d\<rparr>)"
  define Q where "Q = upd_sock s f P"
  have c: "pchk (s \<in> sock_live P) P = P" by (rule inv_but_chk[OF I s(1)])
  have Q: "inv_but {s} Q" unfolding Q_def
    by (rule upd_sock_inv[OF I]) (use inv_butD(4)[OF I s(1)] in \<open>simp_all add: f_def sock_flags_def upd_sock_def\<close>)
  have q: "socks Q s = f (socks P s)" "sock_live Q = sock_live P" "sock_update_queue Q = sock_update_queue P" "flight Q = flight P" "kept P Q"
    by (simp_all add: Q_def upd_sock_def kept_def)
  have P': "sock_set_event s ev d P = (if unmet Q s \<noteq> 0 then port_request_socket_update s Q else Q)"
    by (simp add: sock_set_event_def c Let_def unmet_def Q_def f_def) (simp add: upd_sock_def)
  show ?thesis
  proof (cases "unmet Q s = 0")
    case True
    have "pending_events (socks P s) \<noteq> 0"
    proof
      assume "pending_events (socks P s) = 0"
      then have "unmet Q s = (ev OR EPOLLERR OR EPOLLHUP) AND SOCK_KNOWN_EVENTS" by (simp add: unmet_def q f_def)
      moreover have "bit ((ev OR EPOLLERR OR EPOLLHUP) AND SOCK_KNOWN_EVENTS) 3" by (simp add: SOCK_KNOWN_EVENTS_def bit_simps)
      ultimately show False using True by simp
    qed
    then have "watched Q s" using w True s by (auto simp: watched_def q f_def)
    then have "port_inv Q" by (rule inv_but_watched[OF Q])
    then show ?thesis using q True by (simp add: P')
  next
    case False
    have "port_inv (port_request_socket_update s Q)" by (rule request_update_inv[OF Q]) (use s q in \<open>simp_all add: f_def\<close>)
    then show ?thesis using False q by (simp add: P') (simp add: port_request_socket_update_def kept_def)
  qed
qed

lemma update_if_polling_ok:
  assumes "port_inv P" "pending_only env"
  shows "\<exists>P'. port__update_events_if_polling env P = Some P' \<and> port_inv P' \<and> kept P P'"
  using update_events_ok[OF assms] assms(1) by (auto simp: port__update_events_if_polling_def kept_def)

lemma find_socket_inv:
  assumes I: "port_inv P" and r: "port_find_socket socket P = (r, Q)"
  shows "port_v Q = port_v P \<and> (case r of None \<Rightarrow> tree_map (sock_tree P) socket = None
    | Some s \<Rightarrow> tree_map (sock_tree P) socket = Some s \<and> s \<in> sock_live P \<and> \<not> delete_pending (socks P s))"
proof -
  note S = inv_butD(2)[OF I[unfolded port_inv_def]]
  have "tree_find (sock_tree P) socket = tree_map (sock_tree P) socket" using structD(1)[OF S] by (simp add: tree_ok_def find_map)
  then show ?thesis using r structD(2)[OF S, of socket] by (auto simp: port_find_socket_def split: option.splits)
qed

lemma port_ctl_inv:
  assumes I: "port_inv P" and e: "pending_only env" and h: "iocp_handle P \<noteq> None" and r: "port_ctl env op sock ev P = Some (r, P')"
  shows "port_inv P' \<and> kept P P'"
proof -
  have finish: "port_inv Q' \<and> kept P Q'" if "port_inv Q" "kept P Q" "port__update_events_if_polling env Q = Some Q'" for Q Q'
    using update_if_polling_ok[OF that(1) e] that by (auto simp: kept_def)
  consider "op = EPOLL_CTL_ADD" | "op = EPOLL_CTL_MOD" | "op = EPOLL_CTL_DEL" | "P' = err_set_win_error ''ERROR_INVALID_PARAMETER'' P"
    using r by (auto simp: port_ctl_def split: if_splits)
  then show ?thesis
  proof cases
    case 1
    then obtain k Q where Q: "sock_new env sock P = Some (k, Q)" using r by (auto simp: port_ctl_def port__ctl_add_def split: Option.bind_splits)
    note N = sock_new_inv[OF I h Q]
    show ?thesis
    proof (cases k)
      case None
      then show ?thesis using N r 1 Q by (simp add: port_ctl_def port__ctl_add_def)
    next
      case (Some s)
      then have n: "inv_but {s} Q" "s \<in> sock_live Q" "\<not> delete_pending (socks Q s)" "pending_events (socks Q s) = 0" "kept P Q" using N by simp_all
      have E: "port_inv (sock_set_event s (fst ev) (snd ev) Q)" "kept Q (sock_set_event s (fst ev) (snd ev) Q)"
        using set_event_inv[OF n(1-3), of "fst ev" "snd ev"] n(4) by blast+
      have up: "port__update_events_if_polling env (sock_set_event s (fst ev) (snd ev) Q) = Some P'"
        using r 1 Q Some by (auto simp: port_ctl_def port__ctl_add_def)
      have "kept P (sock_set_event s (fst ev) (snd ev) Q)" using E(2) n(5) by (simp add: kept_def)
      then show ?thesis by (rule finish[OF E(1) _ up])
    qed
  next
    case 2
    obtain k Q where Q: "port_find_socket sock P = (k, Q)" by (cases "port_find_socket sock P")
    note F = find_socket_inv[OF I Q]
    then have v: "port_v Q = port_v P" by simp
    note vD = port_v_D[OF v]
    have IQ: "port_inv Q" using I inv_but_v[OF v] by (simp add: port_inv_def)
    show ?thesis
    proof (cases k)
      case None
      then show ?thesis using r 2 Q IQ vD by (simp add: port_ctl_def port__ctl_mod_def kept_def)
    next
      case (Some s)
      have s: "s \<in> sock_live Q" "\<not> delete_pending (socks Q s)" using F Some vD by simp_all
      have E: "port_inv (sock_set_event s (fst ev) (snd ev) Q)" "kept Q (sock_set_event s (fst ev) (snd ev) Q)"
        using set_event_inv[OF inv_but_any[OF IQ] s, of "fst ev" "snd ev"] inv_butD(5)[OF IQ[unfolded port_inv_def] s(1)] by blast+
      have up: "port__update_events_if_polling env (sock_set_event s (fst ev) (snd ev) Q) = Some P'"
        using r 2 Q Some by (auto simp: port_ctl_def port__ctl_mod_def)
      have "kept P (sock_set_event s (fst ev) (snd ev) Q)" using E(2) vD by (simp add: kept_def)
      then show ?thesis by (rule finish[OF E(1) _ up])
    qed
  next
    case 3
    obtain k Q where Q: "port_find_socket sock P = (k, Q)" by (cases "port_find_socket sock P")
    note F = find_socket_inv[OF I Q]
    then have v: "port_v Q = port_v P" by simp
    note vD = port_v_D[OF v]
    have IQ: "port_inv Q" using I inv_but_v[OF v] by (simp add: port_inv_def)
    show ?thesis
    proof (cases k)
      case None
      then show ?thesis using r 3 Q IQ vD by (simp add: port_ctl_def port__ctl_del_def kept_def)
    next
      case (Some s)
      then have s: "s \<in> sock_live Q" using F vD by simp
      show ?thesis using delete_inv[OF inv_but_any[OF IQ] s, of env] r 3 Q Some vD by (auto simp: port_ctl_def port__ctl_del_def others_def kept_def)
    qed
  next
    case 4
    then show ?thesis using I by (simp add: port_inv_def) (simp add: kept_def err_set_win_error_def)
  qed
qed

subsection \<open>Interleavings\<close>

text \<open>
  What can happen to a port between \<^verbatim>\<open>epoll_create\<close> and \<^verbatim>\<open>epoll_close\<close>, in any order and by any number of threads: a call of
  \<^verbatim>\<open>epoll_ctl\<close>; the start of a wait, up to the point where the lock is given up; the driver writing the outcome of a request;
  a waiting thread, holding the lock again, that hands over the completions it was given, or sees the error; the update of the
  requests with which \<^verbatim>\<open>port_wait\<close> ends; and anything outside the port, where the outside state changes and another thread
  brings its own error codes. The driver reports a request once, so the completions that are handed over are of different
  requests in flight.
\<close>

definition driver_writes :: "nat \<Rightarrow> u32 \<Rightarrow> u32 \<Rightarrow> u32 \<Rightarrow> 'w port \<Rightarrow> 'w port" where
  "driver_writes s st n ev P = upd_sock s (\<lambda>x. x\<lparr>io_status := st, poll_handles := n, poll_events := ev\<rparr>) P"

inductive port_step :: "'w wenv \<Rightarrow> 'w port \<Rightarrow> 'w port \<Rightarrow> bool" for env where
  ctl: "port_ctl env op sock ev P = Some (r, P') \<Longrightarrow> port_step env P P'"
| wait_start: "port__update_events env P = Some (r, P') \<Longrightarrow>
    port_step env P (if r < 0 then P' else P'\<lparr>active_poll_count := active_poll_count P' + 1\<rparr>)"
| driver: "s \<in> flight P \<Longrightarrow> port_step env P (driver_writes s st n ev P)"
| wait_end: "distinct ss \<Longrightarrow> set ss \<subseteq> flight P \<Longrightarrow> port__feed_events env ss P = (es, P') \<Longrightarrow>
    port_step env P (P'\<lparr>active_poll_count := active_poll_count P - 1\<rparr>)"
| wait_error: "port_step env P (err_map_win_error (P\<lparr>active_poll_count := active_poll_count P - 1, last_error := e\<rparr>))"
| update: "port__update_events_if_polling env P = Some P' \<Longrightarrow> port_step env P P'"
| outside: "port_step env P (P\<lparr>pos := w, last_error := e, errno := n\<rparr>)"

inductive port_reach :: "'w wenv \<Rightarrow> 'w port \<Rightarrow> bool" for env where
  start: "port_reach env (port_zero (Some h) w)"
| step: "port_reach env P \<Longrightarrow> port_step env P P' \<Longrightarrow> port_reach env P'"

lemma port_zero_inv: "port_inv (port_zero h w)"
  by (simp add: port_inv_def inv_but_def core_inv_def base_inv_def port_zero_def struct_inv_def group_ok_def members_def tree_ok_def)

lemma driver_inv:
  assumes I: "port_inv P" and s: "s \<in> flight P"
  shows "port_inv (driver_writes s st n ev P)"
proof -
  define f where "f = (\<lambda>x :: sock_state. x\<lparr>io_status := st, poll_handles := n, poll_events := ev\<rparr>)"
  note D = inv_butD[OF I[unfolded port_inv_def]]
  have l: "s \<in> sock_live P" using D(7) s by blast
  have F: "inv_but {s} (upd_sock s f P)"
    by (rule upd_sock_inv[OF inv_but_any[OF I]]) (use D(4)[OF l] in \<open>simp_all add: f_def sock_flags_def upd_sock_def\<close>)
  have "watched (upd_sock s f P) s" 
  proof -
    have u: "unmet (upd_sock s f P) s = unmet P s" by (simp add: unmet_def upd_sock_def f_def)
    show ?thesis using D(5)[OF l] by (simp add: watched_def u) (simp add: upd_sock_def f_def)
  qed
  then show ?thesis unfolding driver_writes_def f_def[symmetric] by (rule inv_but_watched[OF F])
qed

lemma port_step_inv:
  assumes "port_step env P P'" "pending_only env" "port_inv P" "iocp_handle P \<noteq> None"
  shows "port_inv P' \<and> iocp_handle P' \<noteq> None"
  using assms
proof (induction rule: port_step.induct)
  case (ctl op sock ev P r P')
  then show ?case using port_ctl_inv[of P env op sock ev r P'] by (simp add: kept_def)
next
  case (wait_start P r P')
  then show ?case using update_events_ok[of P env] by (auto simp: kept_def port_inv_def)
next
  case (driver s P st n ev)
  then show ?case using driver_inv[of P s st n ev] by (simp add: driver_writes_def upd_sock_def)
next
  case (wait_end ss P es P')
  then show ?case using feed_events_inv[of P ss env es P'] by (simp add: kept_def port_inv_def)
next
  case (wait_error P e)
  then show ?case by (simp add: port_inv_def) (simp add: err_map_win_error_def)
next
  case (update P P')
  then show ?case using update_if_polling_ok[of P env] by (auto simp: kept_def)
next
  case (outside P w e n)
  then show ?case by (simp add: port_inv_def)
qed

lemma port_reach_inv:
  assumes "port_reach env P" "pending_only env"
  shows "port_inv P \<and> iocp_handle P \<noteq> None"
  using assms(1)
proof (induction rule: port_reach.induct)
  case (start h w)
  then show ?case using port_zero_inv by (simp add: port_zero_def)
next
  case (step P P')
  then show ?case using port_step_inv assms(2) by blast
qed

end
