(* ===== verification/Wepoll_Api.thy ===== *)
theory Wepoll_Api
  imports Wepoll_Steps
begin

section \<open>What \<^verbatim>\<open>wepoll.c\<close> promises\<close>

subsection \<open>Closing\<close>

text \<open>What is left to free: every allocated socket is registered or waits to be freed.\<close>

definition held :: "'w port \<Rightarrow> bool" where
  "held P \<longleftrightarrow> base_inv P \<and> (\<forall>s \<in> sock_live P. delete_pending (socks P s) \<longrightarrow> s \<in> set (sock_deleted_queue P))"

lemma force_delete_held:
  assumes H: "held P" and s: "s \<in> sock_live P"
  shows "held (sock__delete env s True P) \<and> sock_live (sock__delete env s True P) = sock_live P - {s}"
proof -
  have B: "base_inv P" using H by (simp add: held_def)
  note D = delete_base[OF B s, of env True]
  have "delete_pending (socks (sock__delete env s True P) t) \<Longrightarrow> t \<in> set (sock_deleted_queue (sock__delete env s True P))"
    if "t \<in> sock_live P" "t \<noteq> s" for t
    using H D that by (simp add: held_def others_def)
  then show ?thesis using D by (auto simp: held_def)
qed

lemma live_card: "held P \<Longrightarrow> s \<in> sock_live P \<Longrightarrow> card (sock_live P - {s}) < card (sock_live P)"
  by (rule card_Diff1_less) (auto simp: held_def base_inv_def structD(8))

lemma delete_socks_ok:
  "held P \<Longrightarrow> \<exists>P'. delete_socks env P = Some P' \<and> held P' \<and> sock_tree P' = Leaf"
proof (induction "card (sock_live P)" arbitrary: P rule: less_induct)
  case less
  note S = base_invD(2)[of P]
  show ?case
  proof (cases "tree_root (sock_tree P)")
    case None
    then show ?thesis using less.prems root_map(1)[of "sock_tree P"] by (simp add: delete_socks.simps[of env P])
  next
    case (Some s)
    have S: "struct_inv P" using less.prems by (simp add: held_def base_inv_def)
    have s: "s \<in> sock_live P" using root_map(2)[OF structD(1)[OF S] Some] structD(2)[OF S] by blast
    note F = force_delete_held[OF less.prems s, of env]
    show ?thesis using less.hyps[of "sock__delete env s True P"] F live_card[OF less.prems s] Some
      by (simp add: delete_socks.simps[of env P])
  qed
qed

lemma delete_deleted_ok:
  "held P \<Longrightarrow> (\<And>s. s \<in> sock_live P \<Longrightarrow> delete_pending (socks P s)) \<Longrightarrow>
    \<exists>P'. delete_deleted env P = Some P' \<and> base_inv P' \<and> sock_live P' = {}"
proof (induction "card (sock_live P)" arbitrary: P rule: less_induct)
  case less
  show ?case
  proof (cases "sock_deleted_queue P")
    case Nil
    then have "sock_live P = {}" using less.prems by (auto simp: held_def)
    then show ?thesis using Nil less.prems(1) by (simp add: delete_deleted.simps[of env P] held_def)
  next
    case (Cons s q)
    have S: "struct_inv P" and B: "base_inv P" using less.prems(1) by (simp_all add: held_def base_inv_def)
    have s: "s \<in> sock_live P" using structD(7)[OF S, of s] Cons by simp
    note F = force_delete_held[OF less.prems(1) s, of env]
    have d: "delete_pending (socks (sock__delete env s True P) t)" if "t \<in> sock_live (sock__delete env s True P)" for t
      using that F less.prems(2)[of t] delete_base[OF B s, of env True] by (simp add: others_def)
    show ?thesis using less.hyps[of "sock__delete env s True P"] F d live_card[OF less.prems(1) s] Cons
      by (simp add: delete_deleted.simps[of env P])
  qed
qed

lemma group_delete_ok:
  assumes B: "base_inv P" and l: "sock_live P = {}" and q: "poll_group_queue P = g # q"
  shows "base_inv (poll_group_delete env g P) \<and> sock_live (poll_group_delete env g P) = {} \<and> poll_group_queue (poll_group_delete env g P) = q"
proof -
  note G = group_okD[OF base_invD(3)[OF B]]
  have m: "members P = (\<lambda>_. 0)" using l by (simp add: members_def fun_eq_iff)
  have g: "g \<in> group_live P" "g \<notin> set q" using G(1,2) q by auto
  have "pchk (g \<in> group_live P \<and> group_size (groups P g) = 0) P = P" using g G(3)[OF g(1)] base_invD(1)[OF B] m by (simp add: pchk_def)
  then have P': "poll_group_delete env g P = P\<lparr>pos := snd (w_close_handle env (afd_handle (groups P g)) (pos P)), poll_group_queue := q, group_live := group_live P - {g}\<rparr>"
    using q by (simp add: poll_group_delete_def Let_def split: prod.splits)
  define R where "R = poll_group_delete env g P"
  have e: "sock_v R = sock_v P" "poll_group_queue R = q" "group_live R = group_live P - {g}" "groups R = groups P" "pok R = pok P" "sock_live R = {}"
    using l by (simp_all add: R_def P' sock_v_def)
  have "group_ok (members P) R"
    by (rule group_okI) (use G q g(2) m in \<open>auto simp: e fronted_def\<close>)
  then have "base_inv R" using base_invD[OF B] struct_cong[OF e(1)] members_cong[OF e(1)] e(5) by (simp add: base_inv_def)
  then show ?thesis using e unfolding R_def by blast
qed

lemma delete_groups_ok:
  "base_inv P \<Longrightarrow> sock_live P = {} \<Longrightarrow> \<exists>P'. delete_groups env P = Some P' \<and> base_inv P' \<and> sock_live P' = {} \<and> group_live P' = {}"
proof (induction "poll_group_queue P" arbitrary: P)
  case Nil
  then show ?case using group_okD(2)[OF base_invD(3)[OF Nil(2)]] by (simp add: delete_groups.simps[of env P])
next
  case (Cons g q)
  note G = group_delete_ok[OF Cons.prems Cons.hyps(2)[symmetric], of env]
  from Cons.hyps(1)[of "poll_group_delete env g P"] G Cons.hyps(2)[symmetric] show ?case by (simp add: delete_groups.simps[of env P])
qed

lemma port_delete_ok:
  assumes I: "port_inv P" and h: "iocp_handle P = None"
  shows "\<exists>P'. port_delete env P = Some P' \<and> pok P' \<and> sock_live P' = {} \<and> group_live P' = {}"
proof -
  note D = inv_butD[OF I[unfolded port_inv_def]]
  have H: "held P" using D by (auto simp: held_def watched_def split: if_splits)
  have c: "pchk (iocp_handle P = None) P = P" using h D(1) by (simp add: pchk_def)
  obtain Q where Q: "delete_socks env P = Some Q" "held Q" "sock_tree Q = Leaf" using delete_socks_ok[OF H] by blast
  have S: "struct_inv Q" using Q(2) by (simp add: held_def base_inv_def)
  have "delete_pending (socks Q s)" if "s \<in> sock_live Q" for s using structD(3)[OF S that] Q(3) by auto
  then obtain R where R: "delete_deleted env Q = Some R" "base_inv R" "sock_live R = {}" using delete_deleted_ok[OF Q(2)] by blast
  obtain T where T: "delete_groups env R = Some T" "base_inv T" "sock_live T = {}" "group_live T = {}" using delete_groups_ok[OF R(2,3)] by blast
  have "sock_update_queue T = []" using structD(6)[OF base_invD(2)[OF T(2)]] T(3) by (metis empty_iff list.set_intros(1) neq_Nil_conv)
  then have "pchk (sock_update_queue T = []) T = T" using base_invD(1)[OF T(2)] by (simp add: pchk_def)
  then have "port_delete env P = Some T" using Q R T by (simp add: port_delete_def c Let_def)
  then show ?thesis using T base_invD(1)[OF T(2)] by blast
qed

subsection \<open>Waiting\<close>

text \<open>After a successful start of a wait every registered socket has a request under way.\<close>

lemma updated_in_flight:
  assumes I: "port_inv P" and q: "sock_update_queue P = []" and s: "tree_map (sock_tree P) socket = Some s"
  shows "s \<in> flight P \<and> (poll_status (socks P s) = SOCK_POLL_CANCELLED \<or> unmet P s = 0)"
proof -
  note D = inv_butD[OF I[unfolded port_inv_def]]
  have l: "s \<in> sock_live P" "\<not> delete_pending (socks P s)" using structD(2)[OF D(2) s] by auto
  show ?thesis using D(4)[OF l(1)] D(5)[OF l(1)] l q by (auto simp: watched_def sock_flags_def)
qed

text \<open>
  What is assumed of \<^verbatim>\<open>GetQueuedCompletionStatusEx\<close> and of what the other threads and the driver do while it blocks: they make
  steps of the port, and the completions it returns are at most as many as asked for, of different requests in flight.
\<close>

definition wait_sound :: "'w wenv \<Rightarrow> bool" where
  "wait_sound env \<longleftrightarrow> (\<forall>m t P. (port_step env)\<^sup>*\<^sup>* P (snd (w_wait env m t P)) \<and>
     (case fst (w_wait env m t P) of
        Inl ss \<Rightarrow> distinct ss \<and> set ss \<subseteq> flight (snd (w_wait env m t P)) \<and> length ss \<le> unat m
      | Inr _ \<Rightarrow> True))"

lemma port_steps_inv:
  assumes "(port_step env)\<^sup>*\<^sup>* P P'" "pending_only env" "port_inv P" "iocp_handle P \<noteq> None"
  shows "port_inv P' \<and> iocp_handle P' \<noteq> None"
  using assms(1)
proof (induction rule: rtranclp_induct)
  case base
  then show ?case using assms(3,4) by simp
next
  case (step Q R)
  then show ?case using port_step_inv[of env Q R] assms(2) by simp
qed

lemma feed_length: "length (fst (port__feed_events env ss P)) \<le> length ss"
proof (induction ss arbitrary: P)
  case (Cons s ss)
  obtain e Q where Q: "sock_feed_event env s P = (e, Q)" by (cases "sock_feed_event env s P")
  then show ?case using Cons[of Q] by (auto split: option.splits prod.splits)
qed simp

definition usable :: "'w port \<Rightarrow> bool" where
  "usable P \<longleftrightarrow> port_inv P \<and> iocp_handle P \<noteq> None"

lemma usable_upd [simp]: "usable (P\<lparr>pos := w\<rparr>) = usable P" "usable (P\<lparr>last_error := e\<rparr>) = usable P" "usable (err_set_win_error e P) = usable P"
  "usable (err_map_win_error P) = usable P" "usable (P\<lparr>active_poll_count := n\<rparr>) = usable P"
  by (simp_all add: usable_def port_inv_def) (simp_all add: err_set_win_error_def err_map_win_error_def)

lemma poll_ok:
  assumes U: "usable P" and e: "pending_only env" "wait_sound env"
  shows "\<exists>r P'. port__poll env m t P = Some (r, P') \<and> usable P' \<and> (\<forall>es. r = Some es \<longrightarrow> length es \<le> unat m)"
proof -
  obtain k Q where Q: "port__update_events env P = Some (k, Q)" "port_inv Q" "kept P Q" using update_events_ok[of P, OF _ e(1)] U unfolding usable_def by blast
  have UQ: "usable Q" using Q U by (simp add: usable_def kept_def)
  define A where "A = Q\<lparr>active_poll_count := active_poll_count Q + 1\<rparr>"
  obtain c R where R: "w_wait env m t A = (c, R)" by (cases "w_wait env m t A")
  have "usable A" using UQ by (simp add: A_def)
  moreover have W: "(port_step env)\<^sup>*\<^sup>* A R" "\<And>ss. c = Inl ss \<Longrightarrow> distinct ss \<and> set ss \<subseteq> flight R \<and> length ss \<le> unat m"
    using e(2)[unfolded wait_sound_def, rule_format, of A m t] R by simp_all
  ultimately have UR: "usable R" using port_steps_inv[OF W(1) e(1)] by (simp add: usable_def)
  define B where "B = R\<lparr>active_poll_count := active_poll_count R - 1\<rparr>"
  have UB: "usable B" using UR by (simp add: B_def)
  have P': "port__poll env m t P = Some (if k < 0 then (None, Q) else case c of
      Inr e \<Rightarrow> (None, err_map_win_error (B\<lparr>last_error := e\<rparr>)) | Inl ss \<Rightarrow> (let (es, P) = port__feed_events env ss B in (Some es, P)))"
    using R[unfolded A_def] by (cases c) (simp_all add: port__poll_def Q B_def Let_def)
  show ?thesis
  proof (cases c)
    case (Inr e)
    then show ?thesis using P' UQ UB by simp
  next
    case (Inl ss)
    obtain es S where S: "port__feed_events env ss B = (es, S)" by (cases "port__feed_events env ss B")
    have "flight B = flight R" by (simp add: B_def)
    then have "port_inv S \<and> kept B S" using feed_events_inv[OF _ _ _ S] W(2)[OF Inl] UB by (simp add: usable_def)
    then have "usable S" using UB by (simp add: usable_def kept_def)
    moreover have "length es \<le> unat m" using feed_length[of env ss B] W(2)[OF Inl] S by simp
    ultimately show ?thesis using P' UQ Inl S by simp
  qed
qed

lemma wait_loop_ok:
  fixes Q :: "'w port"
  assumes e: "pending_only env" "wait_sound env" and U: "usable Q" and r: "wait_loop env m t due g Q = Some y"
  shows "usable (snd y) \<and> (\<forall>es. fst y = Some es \<longrightarrow> length es \<le> unat m)"
proof -
  have "(\<lambda>a y. pending_only (fst (fst (fst (fst (fst a))))) \<longrightarrow> wait_sound (fst (fst (fst (fst (fst a))))) \<longrightarrow> usable (snd a :: 'w port) \<longrightarrow>
      usable (snd y) \<and> (\<forall>es. fst y = Some es \<longrightarrow> length es \<le> unat (snd (fst (fst (fst (fst a))))))) (((((env, m), t), due), g), Q) y"
  proof (rule wait_loop.raw_induct[OF _ r], intro impI, unfold fst_conv snd_conv, goal_cases)
    case step: (1 rec env m t due g P y)
    obtain k R where R: "port__poll env m g P = Some (k, R)" "usable R" "\<And>es. k = Some es \<Longrightarrow> length es \<le> unat m"
      using poll_ok[OF step(5,3,4), of m g] by blast
    obtain now w where now: "w_tick env (pos R) = (now, w)" by (cases "w_tick env (pos R)")
    have Uw: "usable (R\<lparr>pos := w\<rparr>)" "usable (R\<lparr>pos := w, last_error := l\<rparr>)" for l using R(2) by simp_all
    consider "k \<noteq> Some []" "y = (k, R)" | "k = Some []" "rec env m t due g R = Some y"
      | "k = Some []" "y = (k, R\<lparr>pos := w, last_error := ''WAIT_TIMEOUT''\<rparr>)" | "k = Some []" "rec env m t due (ucast (due - now)) (R\<lparr>pos := w\<rparr>) = Some y"
      using step(2) by (auto simp: R(1) now Let_def split: if_splits)
    then show ?case
    proof cases
      case 1 then show ?thesis using R by simp
    next
      case 2 then show ?thesis using step(1)[of env m t due g R y] step(3,4) R(2) by simp
    next
      case 3 then show ?thesis using Uw(2) by simp
    next
      case 4 then show ?thesis using step(1)[of env m t due "ucast (due - now)" "R\<lparr>pos := w\<rparr>" y] step(3,4) Uw(1) by simp
    qed
  qed
  then show ?thesis using e U by simp
qed

lemma wait_loop_0: "usable P \<Longrightarrow> pending_only env \<Longrightarrow> wait_sound env \<Longrightarrow> wait_loop env m 0 0 g P \<noteq> None"
  using poll_ok[of P env m g] by (force simp: wait_loop.simps[of env m 0 0 g P] Let_def split: prod.splits)

lemma port_wait_ok:
  assumes U: "usable P" and e: "pending_only env" "wait_sound env" and n: "0 < n" "n < 2 ^ 31"
  shows "(t = 0 \<longrightarrow> port_wait env n t P \<noteq> None) \<and>
    (\<forall>r P'. port_wait env n t P = Some (r, P') \<longrightarrow> usable P' \<and> (\<forall>es. r = Some es \<longrightarrow> int (length es) \<le> n))"
proof -
  have big: "\<not> ((2 ^ 64 - 1) div 32 < n)" using n(2) by simp
  have un: "unat (of_int n :: u32) = nat n" using n by (simp add: unat_eq_nat_uint unsigned_of_int take_bit_eq_mod)
  define start where "start = (if n \<le> MAX_ON_STACK then (True, P) else let (m, w) = w_malloc env (pos P) in (m, P\<lparr>pos := w\<rparr>))"
  obtain m Q where Q: "start = (m, Q)" by (cases start)
  have UQ: "usable Q" using U Q by (auto simp: start_def split: prod.splits if_splits)
  define st where "st = (if t > 0 then let (k, w) = w_tick env (pos Q) in (k + of_int t, Q\<lparr>pos := w\<rparr>) else (0, Q))"
  obtain due R where R: "st = (due, R)" by (cases st)
  have UR: "usable R" using UQ R by (auto simp: st_def split: prod.splits if_splits)
  define g where "g = (if t > 0 then of_int t else if t = 0 then 0 else INFINITE)"
  define fin where "fin = (\<lambda>(r :: (u32 \<times> u64) list option, P). map_option (\<lambda>P. (case r of Some es \<Rightarrow> (Some es, P)
      | None \<Rightarrow> if last_error P = ''WAIT_TIMEOUT'' then (Some [], P) else (None, P))) (port__update_events_if_polling env (P :: 'a port)))"
  have P': "port_wait env n t P = (if \<not> m then Some (None, err_set_win_error ''ERROR_NOT_ENOUGH_MEMORY'' Q)
      else Option.bind (wait_loop env (of_int n) t due g R) fin)"
    using n(1) big Q R unfolding port_wait_def start_def[symmetric] by (simp add: st_def[symmetric] g_def[symmetric] fin_def[symmetric] Let_def)
  have L: "\<exists>P'. fin (r, S) = Some P' \<and> usable (snd P') \<and> (\<forall>es. fst P' = Some es \<longrightarrow> r = Some es \<or> es = [])" if US: "usable S" for r S
  proof -
    obtain T where T: "port__update_events_if_polling env S = Some T" "usable T"
      using update_if_polling_ok[OF _ e(1), of S] US by (auto simp: usable_def kept_def)
    then show ?thesis by (auto simp: fin_def split: option.splits)
  qed
  show ?thesis
  proof (cases m)
    case False
    then show ?thesis using P' UQ by auto
  next
    case True
    note W = wait_loop_ok[OF e UR, of "of_int n" t due g]
    have "usable P' \<and> (\<forall>es. r = Some es \<longrightarrow> int (length es) \<le> n)" if r: "port_wait env n t P = Some (r, P')" for r P'
    proof -
      obtain k S where S: "wait_loop env (of_int n) t due g R = Some (k, S)" "fin (k, S) = Some (r, P')"
        using r P' True by (auto split: Option.bind_splits)
      have US: "usable S" "\<And>es. k = Some es \<Longrightarrow> length es \<le> nat n" using W[OF S(1)] un by auto
      show ?thesis using L[OF US(1), of k] US(2) S(2) n(1) by force
    qed
    moreover have "port_wait env n t P \<noteq> None" if t0: "t = 0"
    proof -
      have "due = 0" "g = 0" using t0 R by (simp_all add: st_def g_def)
      then have "wait_loop env (of_int n) t due g R \<noteq> None" using wait_loop_0[OF UR e, of "of_int n" g] t0 by simp
      then obtain k S where S: "wait_loop env (of_int n) t due g R = Some (k, S)" by auto
      show ?thesis using L[of S k] W[OF S] P' True S by auto
    qed
    ultimately show ?thesis by blast
  qed
qed

subsection \<open>Events\<close>

text \<open>What is handed over was asked for; a one-shot registration is switched off by it.\<close>

lemma and_not_known: "(x AND k) AND NOT k = (0 :: u32)"
  by (rule bit_word_eqI) (auto simp: bit_simps)

lemma feed_event_asked:
  assumes "sock_feed_event env s P = (Some (ev, d), P')"
  shows "ev AND NOT (user_events (socks P s)) = 0 \<and> ev \<noteq> 0 \<and> d = user_data (socks P s) \<and> \<not> delete_pending (socks P s) \<and>
    user_events (socks P' s) = (if user_events (socks P s) AND EPOLLONESHOT \<noteq> 0 then 0 else user_events (socks P s))"
proof -
  define Q where "Q = (upd_sock s (\<lambda>x. x\<lparr>poll_status := SOCK_POLL_IDLE, pending_events := 0\<rparr>) (pchk (s \<in> sock_live P) P))\<lparr>flight := flight (pchk (s \<in> sock_live P) P) - {s}\<rparr>"
  have q: "user_events (socks Q s) = user_events (socks P s)" "user_data (socks Q s) = user_data (socks P s)"
    "delete_pending (socks Q s) = delete_pending (socks P s)" by (simp_all add: Q_def upd_sock_def pchk_def)
  obtain a where a: "sock_report s a Q = (Some (ev, d), P')" "\<not> delete_pending (socks P s)"
    using assms q(3) unfolding sock_feed_event_def Let_def Q_def[symmetric] by (auto split: if_splits)
  have "socks (port_request_socket_update s Q) = socks Q" by (simp add: port_request_socket_update_def)
  then show ?thesis using a q by (auto simp: sock_report_def Let_def upd_sock_def and_not_known split: if_splits)
qed

text \<open>The conversions of event sets, bit by bit.\<close>

lemma upt_32: "[0..<32] = [0, 1, 2, 3, 4, 5, 6, 7, 8, 9, 10, 11, 12, 13, 14, 15, 16, 17, 18, 19, 20, 21, 22, 23, 24, 25, 26, 27, 28, 29, 30, 31]"
  by (simp add: upt_rec)

lemma and_zero_bits: "(x :: u32) AND m = 0 \<longleftrightarrow> list_all (\<lambda>n. bit m n \<longrightarrow> \<not> bit x n) [0, 1, 2, 3, 4, 5, 6, 7, 8, 9, 10, 11, 12, 13, 14, 15, 16, 17, 18, 19, 20, 21, 22, 23, 24, 25, 26, 27, 28, 29, 30, 31]"
  unfolding upt_32[symmetric] by (auto simp: list_all_iff bit_eq_iff bit_simps)

lemma if_or: "(if c then a OR m else a) = a OR (if c then m else (0 :: u32))"
  by simp

lemma bit_if: "bit (if c then m else (0 :: u32)) n \<longleftrightarrow> c \<and> bit m n"
  by simp

lemma to_afd_alt:
  "sock__events_to_afd_events e = AFD_POLL_LOCAL_CLOSE OR (if e AND 0x41 \<noteq> 0 then 0x81 else 0) OR (if e AND 0x82 \<noteq> 0 then 0x2 else 0) OR
     (if e AND 0x304 \<noteq> 0 then 0x4 else 0) OR (if e AND 0x2041 \<noteq> 0 then 0x8 else 0) OR (if e AND 0x10 \<noteq> 0 then 0x10 else 0) OR (if e AND 0x8 \<noteq> 0 then 0x100 else 0)"
  by (simp add: sock__events_to_afd_events_def Let_def if_or or.assoc)

lemma to_events_alt:
  "sock__afd_events_to_events a = (if a AND 0x81 \<noteq> 0 then 0x41 else 0) OR (if a AND 0x2 \<noteq> 0 then 0x82 else 0) OR
     (if a AND 0x4 \<noteq> 0 then 0x304 else 0) OR (if a AND 0x8 \<noteq> 0 then 0x2041 else 0) OR (if a AND 0x10 \<noteq> 0 then 0x10 else 0) OR (if a AND 0x100 \<noteq> 0 then 0x214D else 0)"
  by (simp add: sock__afd_events_to_events_def Let_def if_or or.assoc)

text \<open>Everything that was asked for can be reported, and a condition that the driver was asked for is never reported in vain.\<close>

lemma interest_reportable:
  "e AND (SOCK_KNOWN_EVENTS AND NOT EPOLLMSG) AND NOT (sock__afd_events_to_events (sock__events_to_afd_events e)) = 0"
  unfolding to_afd_alt to_events_alt and_zero_bits SOCK_KNOWN_EVENTS_def by (simp add: bit_simps bit_if split del: if_split)

lemma afd_bits:
  "bit (sock__events_to_afd_events e) 0 \<longleftrightarrow> bit e 0 \<or> bit e 6" "bit (sock__events_to_afd_events e) 7 \<longleftrightarrow> bit e 0 \<or> bit e 6"
  "bit (sock__events_to_afd_events e) 1 \<longleftrightarrow> bit e 1 \<or> bit e 7" "bit (sock__events_to_afd_events e) 2 \<longleftrightarrow> bit e 2 \<or> bit e 8 \<or> bit e 9"
  "bit (sock__events_to_afd_events e) 3 \<longleftrightarrow> bit e 0 \<or> bit e 6 \<or> bit e 13" "bit (sock__events_to_afd_events e) 4 \<longleftrightarrow> bit e 4"
  "bit (sock__events_to_afd_events e) 8 \<longleftrightarrow> bit e 3"
  "sock__events_to_afd_events e AND NOT 0x1BF = 0"
  unfolding to_afd_alt and_zero_bits by (simp_all add: bit_simps bit_if split del: if_split)

lemma event_bits:
  "bit (sock__afd_events_to_events a) 0 \<longleftrightarrow> bit a 0 \<or> bit a 7 \<or> bit a 3 \<or> bit a 8" "bit (sock__afd_events_to_events a) 6 \<longleftrightarrow> bit a 0 \<or> bit a 7 \<or> bit a 3 \<or> bit a 8"
  "bit (sock__afd_events_to_events a) 1 \<longleftrightarrow> bit a 1" "bit (sock__afd_events_to_events a) 7 \<longleftrightarrow> bit a 1"
  "bit (sock__afd_events_to_events a) 2 \<longleftrightarrow> bit a 2 \<or> bit a 8" "bit (sock__afd_events_to_events a) 8 \<longleftrightarrow> bit a 2 \<or> bit a 8" "bit (sock__afd_events_to_events a) 9 \<longleftrightarrow> bit a 2"
  "bit (sock__afd_events_to_events a) 13 \<longleftrightarrow> bit a 3 \<or> bit a 8" "bit (sock__afd_events_to_events a) 4 \<longleftrightarrow> bit a 4" "bit (sock__afd_events_to_events a) 3 \<longleftrightarrow> bit a 8"
  unfolding to_events_alt and_zero_bits by (simp_all add: bit_simps bit_if disj_commute disj_left_commute split del: if_split)

lemma no_spurious:
  assumes "a \<noteq> 0" "a AND NOT (sock__events_to_afd_events e) = 0" "a AND AFD_POLL_LOCAL_CLOSE = 0"
  shows "sock__afd_events_to_events a AND e \<noteq> 0"
proof
  assume "sock__afd_events_to_events a AND e = 0"
  then have z: "\<not> (bit (sock__afd_events_to_events a) n \<and> bit e n)" for n by (metis bit_and_iff bit_0_eq bot_apply bot_bool_def)
  obtain b where b: "bit a b" using assms(1) by (auto simp: bit_eq_iff)
  have "\<not> (bit a b \<and> bit (NOT (sock__events_to_afd_events e)) b)" using assms(2) by (metis bit_and_iff bit_0_eq bot_apply bot_bool_def)
  then have f: "bit (sock__events_to_afd_events e) b" using b by (auto simp: bit_simps dest: bit_imp_le_length)
  have l: "b < 32" using b bit_imp_le_length by fastforce
  have "\<not> bit (NOT (0x1BF :: u32)) b"
    using afd_bits(8)[of e] f by (metis bit_and_iff bit_0_eq bot_apply bot_bool_def)
  moreover have "b \<noteq> 5" using assms(3) b by (auto simp: and_zero_bits)
  ultimately have "b \<in> {0, 1, 2, 3, 4, 7, 8}" using l by (auto simp: less_Suc_eq numeral_eq_Suc bit_simps)
  moreover note zs = z[of 0, unfolded event_bits] z[of 6, unfolded event_bits] z[of 1, unfolded event_bits] z[of 7, unfolded event_bits]
    z[of 2, unfolded event_bits] z[of 8, unfolded event_bits] z[of 9, unfolded event_bits] z[of 13, unfolded event_bits]
    z[of 4, unfolded event_bits] z[of 3, unfolded event_bits]
  ultimately show False
    by (elim insertE emptyE; use b f zs in \<open>simp add: afd_bits del: One_nat_def\<close>)
qed

subsection \<open>Registering, changing and removing\<close>

definition wanted :: "u32 \<times> u64 \<Rightarrow> nat \<Rightarrow> 'w port \<Rightarrow> bool" where
  "wanted ev s P \<longleftrightarrow> user_events (socks P s) = fst ev OR EPOLLERR OR EPOLLHUP \<and> user_data (socks P s) = snd ev"

lemma set_event_wanted:
  "wanted ev s (sock_set_event s (fst ev) (snd ev) P)" "sock_tree (sock_set_event s e d P) = sock_tree P"
  "active_poll_count (sock_set_event s e d P) = active_poll_count P"
  by (simp_all add: sock_set_event_def wanted_def Let_def upd_sock_def pchk_def port_request_socket_update_def)

lemma ctl_map:
  assumes I: "port_inv P" and h: "iocp_handle P \<noteq> None" and a: "active_poll_count P = 0" and r: "port_ctl env op sock ev P = Some (r, P')"
  defines "M \<equiv> tree_map (sock_tree P)" and "M' \<equiv> tree_map (sock_tree P')"
  shows "(op = EPOLL_CTL_ADD \<longrightarrow> (r = 0 \<and> M sock = None \<and> (\<exists>s. s \<notin> sock_live P \<and> M' = M(sock \<mapsto> s) \<and> wanted ev s P')) \<or> (r = - 1 \<and> M' = M)) \<and>
    (op = EPOLL_CTL_MOD \<longrightarrow> M' = M \<and> (case M sock of Some s \<Rightarrow> r = 0 \<and> wanted ev s P' | None \<Rightarrow> r = - 1 \<and> last_error P' = ''ERROR_NOT_FOUND'')) \<and>
    (op = EPOLL_CTL_DEL \<longrightarrow> M' = M(sock := None) \<and> (case M sock of Some s \<Rightarrow> r = 0 | None \<Rightarrow> r = - 1 \<and> last_error P' = ''ERROR_NOT_FOUND'')) \<and>
    (op \<notin> {EPOLL_CTL_ADD, EPOLL_CTL_MOD, EPOLL_CTL_DEL} \<longrightarrow> M' = M \<and> r = - 1 \<and> last_error P' = ''ERROR_INVALID_PARAMETER'')"
proof -
  have quiet: "port__update_events_if_polling env Q = Some Q" if "active_poll_count Q = 0" for Q
    using that by (simp add: port__update_events_if_polling_def)
  obtain k Q where Q: "port_find_socket sock P = (k, Q)" by (cases "port_find_socket sock P")
  note F = find_socket_inv[OF I Q]
  then have v: "port_v Q = port_v P" by simp
  note vD = port_v_D[OF v]
  have IQ: "port_inv Q" using I inv_but_v[OF v] by (simp add: port_inv_def)
  have miss: "k = None \<Longrightarrow> last_error Q = ''ERROR_NOT_FOUND''" using Q by (auto simp: port_find_socket_def err_set_win_error_def split: option.splits)
  have k: "k = M sock" using F by (auto simp: M_def split: option.splits)
  consider (add) "op = EPOLL_CTL_ADD" | (mod) "op = EPOLL_CTL_MOD" | (del) "op = EPOLL_CTL_DEL" | (bad) "op \<notin> {EPOLL_CTL_ADD, EPOLL_CTL_MOD, EPOLL_CTL_DEL}" by blast
  then show ?thesis
  proof cases
    case add
    then obtain j R where R: "sock_new env sock P = Some (j, R)" using r by (auto simp: port_ctl_def port__ctl_add_def split: Option.bind_splits)
    note N = sock_new_inv[OF I h R]
    show ?thesis
    proof (cases j)
      case None
      then show ?thesis using N r R add by (simp add: port_ctl_def port__ctl_add_def M_def M'_def)
    next
      case (Some s)
      then have "r = 0" "P' = sock_set_event s (fst ev) (snd ev) R"
        using r R add N a by (simp_all add: port_ctl_def port__ctl_add_def quiet set_event_wanted kept_def)
      moreover from this have "wanted ev s P'" by (simp add: set_event_wanted)
      ultimately show ?thesis using N Some add by (auto simp: M_def M'_def set_event_wanted)
    qed
  next
    case mod
    show ?thesis
    proof (cases k)
      case None
      then show ?thesis using r mod Q k miss vD by (simp add: port_ctl_def port__ctl_mod_def M_def M'_def)
    next
      case (Some s)
      then have "r = 0" "P' = sock_set_event s (fst ev) (snd ev) Q"
        using r mod Q a vD by (simp_all add: port_ctl_def port__ctl_mod_def quiet set_event_wanted)
      then show ?thesis using mod k[symmetric] Some vD by (simp add: M_def M'_def set_event_wanted)
    qed
  next
    case del
    show ?thesis
    proof (cases k)
      case None
      then show ?thesis using r del Q k miss vD by (simp add: port_ctl_def port__ctl_del_def M_def M'_def) (metis fun_upd_idem)
    next
      case (Some s)
      then have P': "r = 0" "P' = sock__delete env s False Q" using r del Q by (simp_all add: port_ctl_def port__ctl_del_def)
      have s: "s \<in> sock_live Q" "\<not> delete_pending (socks Q s)" "M sock = Some s" using F Some vD by (simp_all add: M_def)
      have "sk_key (socks Q s) = sock" using structD(2)[OF inv_butD(2)[OF IQ[unfolded port_inv_def]], of sock s] s(3) vD by (simp add: M_def)
      then have "M' = M(sock := None)" using delete_base[OF inv_butD(6)[OF IQ[unfolded port_inv_def]] s(1), of env False] s(2) vD by (simp add: M_def M'_def P'(2))
      then show ?thesis using del P'(1) s(3) by simp
    qed
  next
    case bad
    then show ?thesis using r by (auto simp: port_ctl_def M_def M'_def err_set_win_error_def)
  qed
qed

text \<open>A call of \<^verbatim>\<open>epoll_ctl\<close> that found the port before another thread closed it, and needs a new group: the assertion fails.\<close>

lemma acquire_after_close:
  assumes "iocp_handle P = None" "poll_group_queue P = []"
  shows "\<not> pok (snd (poll_group_acquire env P))"
proof -
  have p: "afd_create_device_handle env h Q = (k, R) \<Longrightarrow> pok R = pok Q" for h k and Q R :: "'a port"
    using port_v_D(3)[OF create_device_v[of env h Q]] by simp
  have "\<not> pok (snd (poll_group__new env P))"
    using assms(1) by (auto simp: poll_group__new_def Let_def pchk_def upd_group_def err_set_win_error_def dest: p split: prod.splits option.splits)
  then show ?thesis using assms(2)
    by (auto simp: poll_group_acquire_def Let_def pchk_def upd_group_def split: prod.splits option.splits)
qed

section \<open>Properties\<close>

text \<open>A system on which the properties are tried out: polls stay pending, and a wait reports socket 0 as readable.\<close>

definition ex_wenv :: "unit wenv" where
  "ex_wenv = \<lparr>w_malloc = Pair True, w_create_file = Pair (STATUS_SUCCESS, 11), w_create_iocp = (\<lambda>_. Pair (Inl 1)), w_set_modes = (\<lambda>_. Pair None),
     w_close_handle = (\<lambda>_. Pair None), w_ioctl_poll = (\<lambda>_ _ _ _. Pair STATUS_PENDING), w_cancel_io = (\<lambda>_ _. Pair STATUS_SUCCESS),
     w_dos_error = (\<lambda>st. if st = STATUS_PENDING then ''ERROR_IO_PENDING'' else ''ERROR_INVALID_HANDLE''),
     w_base_handle = (\<lambda>s. Pair (Inl s)), w_bsp_handle = (\<lambda>s. Pair (Inl s)), w_tick = Pair 0,
     w_wait = (\<lambda>m _ P. if 0 \<in> flight P \<and> m \<noteq> 0 then (Inl [0], driver_writes 0 STATUS_SUCCESS 1 AFD_POLL_RECEIVE P) else (Inr ''WAIT_TIMEOUT'', P)),
     w_handle_flags = (\<lambda>_. Pair None), w_so_error = (\<lambda>_. Pair None)\<rparr>"

definition ex_start :: "unit port" where
  "ex_start = port_zero (Some 1) ()"

lemma ex_pending_only: "pending_only ex_wenv"
  by (simp add: pending_only_def ex_wenv_def)

lemma ex_wait_sound: "wait_sound ex_wenv"
proof -
  have "(port_step ex_wenv)\<^sup>*\<^sup>* P (driver_writes 0 STATUS_SUCCESS 1 AFD_POLL_RECEIVE P)" if "0 \<in> flight P" for P
    using port_step.driver[OF that] by blast
  moreover have "flight (driver_writes s st n ev P) = flight P" for s st n ev and P :: "unit port" by (simp add: driver_writes_def upd_sock_def)
  ultimately show ?thesis by (auto simp: wait_sound_def ex_wenv_def Suc_le_eq unat_gt_0)
qed

lemma close_inv: "port_inv (snd (port_close env P)) = port_inv P" "iocp_handle (snd (port_close env P)) = None"
  by (simp_all add: port_close_def port__close_iocp_def Let_def port_inv_def err_map_win_error_def[THEN arg_cong, of iocp_handle] split: prod.split option.split)

lemma ex_base: "ws_get_base_socket ex_wenv 5 ex_start = Some (5, ex_start)"
  by (subst ws_get_base_socket.simps) (simp add: ex_wenv_def ws__ioctl_get_bsp_socket_def ex_start_def port_zero_def)

lemma ex_usable: "port_inv ex_start" "iocp_handle ex_start \<noteq> None" "active_poll_count ex_start = 0" "port_reach ex_wenv ex_start"
  using port_zero_inv port_reach.start by (auto simp: ex_start_def port_zero_def)

text \<open>The port after socket 5 has been added; nobody waits yet.\<close>

definition ex_added :: "unit port" where
  "ex_added = (case sock_new ex_wenv 5 ex_start of Some (Some s, P) \<Rightarrow> sock_set_event s EPOLLIN 7 P | _ \<Rightarrow> ex_start)"

lemma ex_new: "(case sock_new ex_wenv 5 ex_start of Some (Some s, P) \<Rightarrow> s = 0 \<and> active_poll_count P = 0 \<and> tree_find (sock_tree P) 5 = Some 0 | _ \<Rightarrow> False)"
  unfolding sock_new_def ex_base by code_simp

lemma ex_add: "port_ctl ex_wenv EPOLL_CTL_ADD 5 (EPOLLIN, 7) ex_start = Some (0, ex_added)" "tree_find (sock_tree ex_added) 5 = Some 0"
  using ex_new by (auto simp: port_ctl_def port__ctl_add_def ex_added_def port__update_events_if_polling_def set_event_wanted split: option.splits prod.splits)



text \<open>
  \<^verbatim>\<open>epoll_close\<close> frees everything. Whatever state the port is in when it is closed (\<^verbatim>\<open>port_close\<close>) and deleted, with requests
  under way or not, the three loops of \<^verbatim>\<open>port_delete\<close> end, none of its assertions fails, and no socket and no poll group stays
  allocated.
\<close>

theorem port_delete_frees_all:
  assumes "port_reach env P" "pending_only env"
  shows "\<exists>P'. port_delete env (snd (port_close env P)) = Some P' \<and> pok P' \<and> sock_live P' = {} \<and> group_live P' = {}"
proof -
  have "port_inv (snd (port_close env P))" "iocp_handle (snd (port_close env P)) = None"
    using port_reach_inv[OF assms] close_inv by blast+
  then show ?thesis by (rule port_delete_ok)
qed

theorem port_delete_frees_all_witness:
  "\<exists>P'. port_delete ex_wenv (snd (port_close ex_wenv ex_added)) = Some P' \<and> pok P' \<and> sock_live P' = {} \<and> group_live P' = {}"
  by (rule port_delete_frees_all[OF port_reach.step[OF ex_usable(4) port_step.ctl[OF ex_add(1)]] ex_pending_only])

text \<open>
  What \<^verbatim>\<open>epoll_ctl\<close> does (\<^verbatim>\<open>port_ctl\<close>), while nobody waits. Adding either enters a new socket structure for a socket that was
  not registered, with the events asked for, errors and hang-ups always among them, and the user's datum, or fails and registers
  nothing; changing works exactly on registered sockets, removing too and takes the registration away, and both fail with
  \<open>ERROR_NOT_FOUND\<close> otherwise; another operation is an invalid parameter. All other registrations stay.
\<close>

theorem port_ctl_registers:
  assumes "port_inv P" "iocp_handle P \<noteq> None" "active_poll_count P = 0" "port_ctl env op sock ev P = Some (r, P')"
  shows "(op = EPOLL_CTL_ADD \<longrightarrow>
      (r = 0 \<and> tree_map (sock_tree P) sock = None \<and> (\<exists>s. s \<notin> sock_live P \<and> tree_map (sock_tree P') = (tree_map (sock_tree P))(sock \<mapsto> s) \<and> wanted ev s P')) \<or>
      (r = - 1 \<and> tree_map (sock_tree P') = tree_map (sock_tree P))) \<and>
    (op = EPOLL_CTL_MOD \<longrightarrow> tree_map (sock_tree P') = tree_map (sock_tree P) \<and>
      (case tree_map (sock_tree P) sock of Some s \<Rightarrow> r = 0 \<and> wanted ev s P' | None \<Rightarrow> r = - 1 \<and> last_error P' = ''ERROR_NOT_FOUND'')) \<and>
    (op = EPOLL_CTL_DEL \<longrightarrow> tree_map (sock_tree P') = (tree_map (sock_tree P))(sock := None) \<and>
      (case tree_map (sock_tree P) sock of Some s \<Rightarrow> r = 0 | None \<Rightarrow> r = - 1 \<and> last_error P' = ''ERROR_NOT_FOUND'')) \<and>
    (op \<notin> {EPOLL_CTL_ADD, EPOLL_CTL_MOD, EPOLL_CTL_DEL} \<longrightarrow>
      tree_map (sock_tree P') = tree_map (sock_tree P) \<and> r = - 1 \<and> last_error P' = ''ERROR_INVALID_PARAMETER'')"
  by (rule ctl_map[OF assms])

theorem port_ctl_registers_witness:
  "\<exists>s. tree_map (sock_tree ex_added) = (tree_map (sock_tree ex_start))(5 \<mapsto> s) \<and> wanted (EPOLLIN, 7) s ex_added"
  using port_ctl_registers[OF ex_usable(1-3) ex_add(1)] by auto

text \<open>
  A wait (\<^verbatim>\<open>port_wait\<close>) is safe and bounded. Whatever the other threads and the driver do while it blocks, when it returns the
  port can still be used, so the invariant of all interleavings holds, and it hands over at most \<open>maxevents\<close> events, so it stays
  within the caller's array. With timeout 0 it returns.
\<close>

theorem port_wait_bounded:
  assumes "port_inv P" "iocp_handle P \<noteq> None" "pending_only env" "wait_sound env" "0 < maxevents" "maxevents < 2 ^ 31"
  shows "(timeout = 0 \<longrightarrow> port_wait env maxevents timeout P \<noteq> None) \<and>
    (\<forall>r P'. port_wait env maxevents timeout P = Some (r, P') \<longrightarrow>
       port_inv P' \<and> iocp_handle P' \<noteq> None \<and> (\<forall>es. r = Some es \<longrightarrow> int (length es) \<le> maxevents))"
  using port_wait_ok[OF _ assms(3-6), of P timeout] assms(1,2) unfolding usable_def by blast

theorem port_wait_bounded_witness:
  "\<exists>r P'. port_wait ex_wenv 4 0 ex_start = Some (r, P') \<and> port_inv P' \<and> iocp_handle P' \<noteq> None"
  using port_wait_bounded[OF ex_usable(1,2) ex_pending_only ex_wait_sound, of 4 0] by fastforce

text \<open>
  The start of a wait leaves no socket out. \<^verbatim>\<open>port__update_events\<close> ends; when it succeeds its queue is empty, and every
  registered socket has a poll request under way, which covers all the events wanted or has been cancelled in order to be
  replaced; when it fails, the sockets it did not get to are still queued.
\<close>

theorem wait_start_covers_all:
  assumes "port_inv P" "pending_only env"
  shows "\<exists>r P'. port__update_events env P = Some (r, P') \<and> port_inv P' \<and> (r = 0 \<or> r = - 1) \<and>
    (r = 0 \<longrightarrow> sock_update_queue P' = [] \<and> (\<forall>socket s. tree_map (sock_tree P') socket = Some s \<longrightarrow>
      s \<in> flight P' \<and> (user_events (socks P' s) AND SOCK_KNOWN_EVENTS AND NOT (pending_events (socks P' s)) = 0 \<or> poll_status (socks P' s) = SOCK_POLL_CANCELLED))) \<and>
    (r = - 1 \<longrightarrow> (\<forall>socket s. tree_map (sock_tree P') socket = Some s \<longrightarrow> s \<in> set (sock_update_queue P') \<or> s \<in> flight P'))"
proof -
  obtain r P' where P': "port__update_events env P = Some (r, P')" "port_inv P'" "r = 0 \<and> sock_update_queue P' = [] \<or> r = - 1"
    using update_events_ok[OF assms] by blast
  note D = inv_butD[OF P'(2)[unfolded port_inv_def]]
  have "s \<in> set (sock_update_queue P') \<or> s \<in> flight P'" if "tree_map (sock_tree P') socket = Some s" for socket s
    using structD(2)[OF D(2) that] D(4)[of s] D(5)[of s] by (auto simp: watched_def sock_flags_def)
  then show ?thesis using P' updated_in_flight[OF P'(2)] unfolding unmet_def by auto
qed

theorem wait_start_covers_all_witness:
  "\<exists>r P'. port__update_events ex_wenv ex_added = Some (r, P') \<and> port_inv P' \<and> (r = 0 \<or> r = - 1)"
proof -
  have "port_inv ex_added" using port_ctl_inv[OF ex_usable(1) ex_pending_only ex_usable(2) ex_add(1)] by blast
  from wait_start_covers_all[OF this ex_pending_only] show ?thesis by blast
qed

text \<open>
  Events are neither lost nor invented. Each condition asked for translates into the driver's conditions and back to
  itself; a condition the driver was asked for, other than the closing of the socket, gives at least one event that was
  wanted; and what \<^verbatim>\<open>sock_feed_event\<close> hands over is not empty, was asked for, carries the user's datum, belongs to a socket that
  was not removed, and switches off exactly the one-shot registrations.
\<close>

theorem events_exact:
  "wants AND (SOCK_KNOWN_EVENTS AND NOT EPOLLMSG) AND NOT (sock__afd_events_to_events (sock__events_to_afd_events wants)) = 0 \<and>
   \<not> (a \<noteq> 0 \<and> a AND NOT (sock__events_to_afd_events wants) = 0 \<and> a AND AFD_POLL_LOCAL_CLOSE = 0 \<and> sock__afd_events_to_events a AND wants = 0) \<and>
   (case sock_feed_event env s P of
      (None, _) \<Rightarrow> True
    | (Some (ev, d), P') \<Rightarrow> ev AND NOT (user_events (socks P s)) = 0 \<and> ev \<noteq> 0 \<and> d = user_data (socks P s) \<and> \<not> delete_pending (socks P s) \<and>
        user_events (socks P' s) = (if user_events (socks P s) AND EPOLLONESHOT \<noteq> 0 then 0 else user_events (socks P s)))"
  using interest_reportable[of wants] no_spurious[of a wants] feed_event_asked[of env s P] by (auto split: prod.split option.split)

end
