(* ===== verification/Wepoll_Reflock.thy ===== *)
theory Wepoll_Reflock
  imports Prelude
begin

unbundle bit_operations_syntax

section \<open>The reference counted lock of \<^verbatim>\<open>wepoll.c\<close>\<close>

text \<open>
  A port is found in the table of handles and referenced under the lock of the table (\<^verbatim>\<open>ts_tree_find_and_ref\<close>); the thread that
  closes it takes it out of the table and, before it frees the port, waits until all other references are gone
  (\<^verbatim>\<open>reflock_unref_and_destroy\<close>). Here any number of threads do so, interleaved at the interlocked operations.
\<close>

subsection \<open>The operations\<close>

abbreviation (input) REFLOCK__REF :: u32 where "REFLOCK__REF \<equiv> 0x00000001"
abbreviation (input) REFLOCK__REF_MASK :: u32 where "REFLOCK__REF_MASK \<equiv> 0x0fffffff"
abbreviation (input) REFLOCK__DESTROY :: u32 where "REFLOCK__DESTROY \<equiv> 0x10000000"
abbreviation (input) REFLOCK__DESTROY_MASK :: u32 where "REFLOCK__DESTROY_MASK \<equiv> 0xf0000000"
abbreviation (input) REFLOCK__POISON :: u32 where "REFLOCK__POISON \<equiv> 0x300dead0"

text \<open>The word, and whether all assertions have held so far.\<close>

record reflock =
  rl_state :: u32
  rl_ok :: bool

definition reflock_init :: reflock where
  "reflock_init = \<lparr>rl_state = 0, rl_ok = True\<rparr>"

definition reflock_ref :: "reflock \<Rightarrow> reflock" where
  "reflock_ref l =
     (let state = rl_state l + REFLOCK__REF
      in \<lparr>rl_state = state, rl_ok = rl_ok l \<and> state AND REFLOCK__DESTROY_MASK = 0\<rparr>)"

text \<open>The result says whether the event is to be signalled.\<close>

definition reflock_unref :: "reflock \<Rightarrow> bool \<times> reflock" where
  "reflock_unref l =
     (let state = rl_state l + - REFLOCK__REF
      in (state = REFLOCK__DESTROY, \<lparr>rl_state = state, rl_ok = rl_ok l \<and> state AND REFLOCK__DESTROY_MASK AND NOT REFLOCK__DESTROY = 0\<rparr>))"

text \<open>\<^verbatim>\<open>reflock_unref_and_destroy\<close> up to the event, with the result whether it is to be awaited, and after it.\<close>

definition reflock_destroy_begin :: "reflock \<Rightarrow> bool \<times> reflock" where
  "reflock_destroy_begin l =
     (let state = rl_state l + (REFLOCK__DESTROY - REFLOCK__REF);
          ref_count = state AND REFLOCK__REF_MASK
      in (ref_count \<noteq> 0, \<lparr>rl_state = state, rl_ok = rl_ok l \<and> state AND REFLOCK__DESTROY_MASK = REFLOCK__DESTROY\<rparr>))"

definition reflock_destroy_end :: "reflock \<Rightarrow> reflock" where
  "reflock_destroy_end l = \<lparr>rl_state = REFLOCK__POISON, rl_ok = rl_ok l \<and> rl_state l = REFLOCK__DESTROY\<rparr>"

subsection \<open>The threads\<close>

text \<open>
  Where a thread is: outside; inside \<^verbatim>\<open>epoll_ctl\<close> or \<^verbatim>\<open>epoll_wait\<close> with a reference; about to signal; inside \<^verbatim>\<open>epoll_close\<close> with
  a reference, awaiting the event, about to overwrite the word, deleting the port.
\<close>

datatype tpc = T_out | T_ref | T_signal | T_del | T_await | T_poison | T_delete

record rstate =
  rlock :: reflock
  in_tree :: bool
  tpcs :: "nat \<Rightarrow> tpc"

definition set_pc :: "nat \<Rightarrow> tpc \<Rightarrow> rstate \<Rightarrow> rstate" where
  "set_pc t x S = S\<lparr>tpcs := (tpcs S)(t := x)\<rparr>"

inductive rstep :: "nat \<Rightarrow> rstate \<Rightarrow> rstate \<Rightarrow> bool" for N where
  find_and_ref: "t < N \<Longrightarrow> tpcs S t = T_out \<Longrightarrow> in_tree S \<Longrightarrow>
    rstep N S (set_pc t T_ref (S\<lparr>rlock := reflock_ref (rlock S)\<rparr>))"
| del_and_ref: "t < N \<Longrightarrow> tpcs S t = T_out \<Longrightarrow> in_tree S \<Longrightarrow>
    rstep N S (set_pc t T_del (S\<lparr>rlock := reflock_ref (rlock S), in_tree := False\<rparr>))"
| unref: "t < N \<Longrightarrow> tpcs S t = T_ref \<Longrightarrow> reflock_unref (rlock S) = (sig, l) \<Longrightarrow>
    rstep N S (set_pc t (if sig then T_signal else T_out) (S\<lparr>rlock := l\<rparr>))"
| destroy: "t < N \<Longrightarrow> tpcs S t = T_del \<Longrightarrow> reflock_destroy_begin (rlock S) = (wait, l) \<Longrightarrow>
    rstep N S (set_pc t (if wait then T_await else T_poison) (S\<lparr>rlock := l\<rparr>))"
| rendezvous: "t < N \<Longrightarrow> u < N \<Longrightarrow> tpcs S t = T_signal \<Longrightarrow> tpcs S u = T_await \<Longrightarrow>
    rstep N S (set_pc t T_out (set_pc u T_poison S))"
| poison: "t < N \<Longrightarrow> tpcs S t = T_poison \<Longrightarrow> rstep N S (set_pc t T_delete (S\<lparr>rlock := reflock_destroy_end (rlock S)\<rparr>))"
| deleted: "t < N \<Longrightarrow> tpcs S t = T_delete \<Longrightarrow> rstep N S (set_pc t T_out S)"

inductive rreach :: "nat \<Rightarrow> rstate \<Rightarrow> bool" for N where
  start: "rreach N \<lparr>rlock = reflock_init, in_tree = True, tpcs = (\<lambda>_. T_out)\<rparr>"
| step: "rreach N S \<Longrightarrow> rstep N S S' \<Longrightarrow> rreach N S'"

subsection \<open>Words\<close>

lemma ref_bits:
  assumes "n < 2 ^ 28"
  shows "(of_nat n :: u32) AND REFLOCK__DESTROY_MASK = 0" "(of_nat n :: u32) AND REFLOCK__REF_MASK = of_nat n"
    "(REFLOCK__DESTROY + of_nat n) AND REFLOCK__DESTROY_MASK = REFLOCK__DESTROY" "(REFLOCK__DESTROY + of_nat n) AND REFLOCK__REF_MASK = of_nat n"
    "(REFLOCK__DESTROY + of_nat n) AND REFLOCK__DESTROY_MASK AND NOT REFLOCK__DESTROY = 0"
    "(of_nat n :: u32) AND REFLOCK__DESTROY_MASK AND NOT REFLOCK__DESTROY = 0"
proof -
  define x where "x = (of_nat n :: u32)"
  have m: "(mask 28 :: u32) = REFLOCK__REF_MASK" by (simp add: mask_eq_exp_minus_1)
  have "take_bit 28 x = x" using assms by (simp add: x_def take_bit_of_nat take_bit_nat_eq_self)
  then have x: "x AND REFLOCK__REF_MASK = x" by (simp only: take_bit_eq_mask m)
  have nm: "NOT REFLOCK__REF_MASK = REFLOCK__DESTROY_MASK" by simp
  have "(x AND REFLOCK__REF_MASK) AND NOT REFLOCK__REF_MASK = 0" by (simp only: and.assoc bit.conj_cancel_right and_zero_eq)
  then have a: "x AND REFLOCK__DESTROY_MASK = 0" by (simp only: x nm)
  have "REFLOCK__DESTROY AND x = REFLOCK__DESTROY AND (x AND REFLOCK__REF_MASK)" by (simp only: x)
  also have "\<dots> = (REFLOCK__DESTROY AND REFLOCK__REF_MASK) AND x" by (simp only: and.assoc and.commute and.left_commute)
  finally have d: "REFLOCK__DESTROY AND x = 0" by simp
  have o: "REFLOCK__DESTROY + x = REFLOCK__DESTROY OR x" using word_plus_and_or[of REFLOCK__DESTROY x] d by simp
  have c: "(REFLOCK__DESTROY OR x) AND REFLOCK__DESTROY_MASK = REFLOCK__DESTROY" using a by (simp add: bit.conj_disj_distrib2)
  have e: "(REFLOCK__DESTROY OR x) AND REFLOCK__REF_MASK = x" using x by (simp add: bit.conj_disj_distrib2)
  show "(of_nat n :: u32) AND REFLOCK__DESTROY_MASK = 0" "(of_nat n :: u32) AND REFLOCK__REF_MASK = of_nat n" using a x by (simp_all add: x_def)
  show "(REFLOCK__DESTROY + of_nat n) AND REFLOCK__DESTROY_MASK = REFLOCK__DESTROY" "(REFLOCK__DESTROY + of_nat n) AND REFLOCK__REF_MASK = of_nat n"
    using c e o by (simp_all add: x_def)
  show "(REFLOCK__DESTROY + of_nat n) AND REFLOCK__DESTROY_MASK AND NOT REFLOCK__DESTROY = 0"
    unfolding x_def[symmetric] o and.assoc[symmetric] c by (rule bit.conj_cancel_right)
  show "(of_nat n :: u32) AND REFLOCK__DESTROY_MASK AND NOT REFLOCK__DESTROY = 0"
    unfolding x_def[symmetric] and.assoc[symmetric] a by (rule zero_and_eq)
qed

lemma ref_inj: "m < 2 ^ 28 \<Longrightarrow> n < 2 ^ 28 \<Longrightarrow> (of_nat m :: u32) = of_nat n \<Longrightarrow> m = n"
  by (simp add: word_of_nat_eq_iff take_bit_nat_eq_self)

subsection \<open>The invariant\<close>

definition at_pc :: "tpc \<Rightarrow> rstate \<Rightarrow> nat set" where
  "at_pc x S = {t. tpcs S t = x}"

definition refs :: "rstate \<Rightarrow> nat" where
  "refs S = card (at_pc T_ref S)"

definition settled :: "rstate \<Rightarrow> nat set \<Rightarrow> tpc set \<Rightarrow> bool" where
  "settled S X A \<longleftrightarrow> (\<forall>t. t \<notin> X \<longrightarrow> tpcs S t \<in> A)"

definition open_phase :: "rstate \<Rightarrow> bool" where
  "open_phase S \<longleftrightarrow> in_tree S \<and> rl_state (rlock S) = of_nat (refs S) \<and> settled S {} {T_out, T_ref}"

definition del_phase :: "rstate \<Rightarrow> bool" where
  "del_phase S \<longleftrightarrow> \<not> in_tree S \<and> rl_state (rlock S) = of_nat (refs S + 1) \<and> (\<exists>d. tpcs S d = T_del \<and> settled S {d} {T_out, T_ref})"

definition await_phase :: "rstate \<Rightarrow> bool" where
  "await_phase S \<longleftrightarrow> \<not> in_tree S \<and> rl_state (rlock S) = REFLOCK__DESTROY + of_nat (refs S) \<and>
     (\<exists>d. tpcs S d = T_await \<and>
       (0 < refs S \<and> settled S {d} {T_out, T_ref} \<or> refs S = 0 \<and> (\<exists>g. g \<noteq> d \<and> tpcs S g = T_signal \<and> settled S {d, g} {T_out})))"

definition last_phase :: "rstate \<Rightarrow> bool" where
  "last_phase S \<longleftrightarrow> \<not> in_tree S \<and>
     (\<exists>d. (tpcs S d = T_poison \<and> rl_state (rlock S) = REFLOCK__DESTROY \<or> tpcs S d = T_delete \<or> tpcs S d = T_out) \<and> settled S {d} {T_out})"

definition lock_inv :: "nat \<Rightarrow> rstate \<Rightarrow> bool" where
  "lock_inv N S \<longleftrightarrow> rl_ok (rlock S) \<and> (\<forall>t. N \<le> t \<longrightarrow> tpcs S t = T_out) \<and> (open_phase S \<or> del_phase S \<or> await_phase S \<or> last_phase S)"

lemma refs_bound:
  assumes "\<And>t. N \<le> t \<Longrightarrow> tpcs S t = T_out"
  shows "finite (at_pc T_ref S)" "refs S \<le> N"
proof -
  have "at_pc T_ref S \<subseteq> {..<N}" using assms by (force simp: at_pc_def not_le[symmetric])
  then show "finite (at_pc T_ref S)" "refs S \<le> N" using card_mono[of "{..<N}" "at_pc T_ref S"] by (auto simp: refs_def intro: finite_subset)
qed

lemma refs_set:
  assumes "finite (at_pc T_ref S)"
  shows "refs (set_pc t x S) = (if tpcs S t = T_ref then if x = T_ref then refs S else refs S - 1 else if x = T_ref then refs S + 1 else refs S)"
proof -
  have e: "at_pc T_ref (set_pc t x S) = (if x = T_ref then insert t (at_pc T_ref S) else at_pc T_ref S - {t})"
    by (auto simp: at_pc_def set_pc_def)
  have m: "t \<in> at_pc T_ref S \<longleftrightarrow> tpcs S t = T_ref" by (simp add: at_pc_def)
  show ?thesis using assms m by (simp add: refs_def e card_insert_if card_Diff_singleton_if)
qed

lemma refs_pos: "finite (at_pc T_ref S) \<Longrightarrow> tpcs S t = T_ref \<Longrightarrow> 0 < refs S"
  by (auto simp: refs_def card_gt_0_iff at_pc_def)

lemma set_pc_simps [simp]: "rlock (set_pc t x S) = rlock S" "in_tree (set_pc t x S) = in_tree S" "tpcs (set_pc t x S) = (tpcs S)(t := x)"
  "refs (S\<lparr>rlock := l\<rparr>) = refs S" "refs (S\<lparr>in_tree := b\<rparr>) = refs S" "at_pc y (S\<lparr>rlock := l\<rparr>) = at_pc y S" "at_pc y (S\<lparr>in_tree := b\<rparr>) = at_pc y S"
  by (simp_all add: set_pc_def refs_def at_pc_def)

lemma refs_out: "settled S X A \<Longrightarrow> T_ref \<notin> A \<Longrightarrow> \<forall>t \<in> X. tpcs S t \<noteq> T_ref \<Longrightarrow> refs S = 0"
  unfolding refs_def at_pc_def settled_def by (metis (mono_tags, lifting) card.empty empty_Collect_eq)

subsection \<open>The steps keep it\<close>

lemma set_pc_rlock: "set_pc t x (S\<lparr>rlock := l\<rparr>) = (set_pc t x S)\<lparr>rlock := l\<rparr>"
  by (simp add: set_pc_def)

lemma lock_invD:
  assumes "lock_inv N S"
  shows "rl_ok (rlock S)" "N \<le> t \<Longrightarrow> tpcs S t = T_out" "finite (at_pc T_ref S)" "refs S \<le> N"
    "in_tree S \<Longrightarrow> open_phase S"
    "tpcs S t = T_ref \<Longrightarrow> open_phase S \<or> del_phase S \<or> await_phase S" "tpcs S t = T_del \<Longrightarrow> del_phase S"
    "tpcs S t = T_signal \<Longrightarrow> await_phase S" "tpcs S t = T_await \<Longrightarrow> await_phase S" "tpcs S t \<in> {T_poison, T_delete} \<Longrightarrow> last_phase S"
proof -
  show "rl_ok (rlock S)" "N \<le> t \<Longrightarrow> tpcs S t = T_out" using assms by (simp_all add: lock_inv_def)
  show "finite (at_pc T_ref S)" "refs S \<le> N" using refs_bound[of N S] assms by (simp_all add: lock_inv_def)
  have P: "open_phase S \<or> del_phase S \<or> await_phase S \<or> last_phase S" using assms by (simp add: lock_inv_def)
  have o: "open_phase S \<Longrightarrow> tpcs S t \<in> {T_out, T_ref}" by (auto simp: open_phase_def settled_def)
  have c: "tpcs S t \<in> A \<or> t \<in> X" if "settled S X A" for X A using that by (auto simp: settled_def)
  have d: "del_phase S \<Longrightarrow> tpcs S t \<in> {T_out, T_ref, T_del}" using c by (fastforce simp: del_phase_def)
  have a: "await_phase S \<Longrightarrow> tpcs S t \<in> {T_out, T_ref, T_await, T_signal}" using c by (fastforce simp: await_phase_def)
  have l: "last_phase S \<Longrightarrow> tpcs S t \<in> {T_out, T_poison, T_delete}" using c by (fastforce simp: last_phase_def)
  show "in_tree S \<Longrightarrow> open_phase S" using P by (auto simp: del_phase_def await_phase_def last_phase_def)
  show "tpcs S t = T_ref \<Longrightarrow> open_phase S \<or> del_phase S \<or> await_phase S" "tpcs S t = T_del \<Longrightarrow> del_phase S"
    "tpcs S t = T_signal \<Longrightarrow> await_phase S" "tpcs S t = T_await \<Longrightarrow> await_phase S" "tpcs S t \<in> {T_poison, T_delete} \<Longrightarrow> last_phase S"
    using P o d a l by auto
qed

lemma destroy_neq: "n < 2 ^ 28 \<Longrightarrow> (of_nat n :: u32) \<noteq> REFLOCK__DESTROY"
  using ref_bits(1)[of n] by auto

lemma ref_step:
  assumes N: "Suc N < 2 ^ 28" and I: "lock_inv N S" and t: "t < N" "tpcs S t = T_out" "in_tree S"
  shows "lock_inv N (set_pc t T_ref (S\<lparr>rlock := reflock_ref (rlock S)\<rparr>))" "lock_inv N (set_pc t T_del (S\<lparr>rlock := reflock_ref (rlock S), in_tree := False\<rparr>))"
proof -
  note D = lock_invD[OF I]
  have O: "rl_state (rlock S) = of_nat (refs S)" "settled S {} {T_out, T_ref}" using D(5) t(3) by (auto simp: open_phase_def)
  have l: "rl_state (reflock_ref (rlock S)) = of_nat (refs S + 1)" "rl_ok (reflock_ref (rlock S))"
    using D(1) O(1) ref_bits(1)[of "refs S + 1"] D(4) N by (simp_all add: reflock_ref_def Let_def add.commute)
  show "lock_inv N (set_pc t T_ref (S\<lparr>rlock := reflock_ref (rlock S)\<rparr>))"
    using l O(2) D(2) t refs_set[of "S\<lparr>rlock := reflock_ref (rlock S)\<rparr>" t T_ref] D(3)
    by (auto simp: lock_inv_def open_phase_def settled_def)
  have "del_phase (set_pc t T_del (S\<lparr>rlock := reflock_ref (rlock S), in_tree := False\<rparr>))"
    using l O(2) t refs_set[of "S\<lparr>rlock := reflock_ref (rlock S), in_tree := False\<rparr>" t T_del] D(3)
    by (auto simp: del_phase_def settled_def)
  then show "lock_inv N (set_pc t T_del (S\<lparr>rlock := reflock_ref (rlock S), in_tree := False\<rparr>))"
    using l(2) D(2) t(1) by (auto simp: lock_inv_def)
qed

lemma unref_step:
  assumes N: "Suc N < 2 ^ 28" and I: "lock_inv N S" and t: "t < N" "tpcs S t = T_ref" and u: "reflock_unref (rlock S) = (sig, l)"
  shows "lock_inv N (set_pc t (if sig then T_signal else T_out) (S\<lparr>rlock := l\<rparr>))"
proof -
  note D = lock_invD[OF I]
  have pos: "0 < refs S" by (rule refs_pos[OF D(3) t(2)])
  then obtain k where k: "refs S = Suc k" "k < 2 ^ 28" using D(4) N by (cases "refs S") auto
  define S' where "S' = set_pc t (if sig then T_signal else T_out) (S\<lparr>rlock := l\<rparr>)"
  have r: "refs S' = k" using refs_set[of "S\<lparr>rlock := l\<rparr>" t "if sig then T_signal else T_out"] D(3) t(2) k(1) by (simp add: S'_def)
  have l: "l = \<lparr>rl_state = rl_state (rlock S) - 1, rl_ok = rl_ok (rlock S) \<and> (rl_state (rlock S) - 1) AND REFLOCK__DESTROY_MASK AND NOT REFLOCK__DESTROY = 0\<rparr>"
    "sig \<longleftrightarrow> rl_state (rlock S) - 1 = REFLOCK__DESTROY" using u by (auto simp: reflock_unref_def Let_def)
  consider "open_phase S" | "del_phase S" | "await_phase S" using D(6)[OF t(2)] by blast
  then have "rl_ok l \<and> (open_phase S' \<or> del_phase S' \<or> await_phase S' \<or> last_phase S')"
  proof cases
    case 1
    then have w: "rl_state (rlock S) - 1 = of_nat k" using k by (simp add: open_phase_def)
    then have "\<not> sig" using l(2) destroy_neq[OF k(2)] by simp
    then have "open_phase S'" using 1 r w l(1) by (auto simp: open_phase_def S'_def settled_def)
    moreover have "rl_ok l" using ref_bits(6)[OF k(2)] D(1) unfolding l(1) w by simp
    ultimately show ?thesis by blast
  next
    case 2
    then obtain d where d: "tpcs S d = T_del" "settled S {d} {T_out, T_ref}" by (auto simp: del_phase_def)
    have k': "k + 1 < 2 ^ 28" using k D(4) N by simp
    have w: "rl_state (rlock S) - 1 = of_nat (k + 1)" using 2 k by (simp add: del_phase_def)
    then have "\<not> sig" using l(2) destroy_neq[OF k'] by simp
    then have "del_phase S'" using 2 d r w l(1) t(2) by (auto simp: del_phase_def S'_def settled_def intro!: exI[of _ d])
    moreover have "rl_ok l" using ref_bits(6)[OF k'] D(1) unfolding l(1) w by simp
    ultimately show ?thesis by blast
  next
    case 3
    then obtain d where d: "tpcs S d = T_await" "settled S {d} {T_out, T_ref}" using pos by (auto simp: await_phase_def)
    have w: "rl_state (rlock S) - 1 = REFLOCK__DESTROY + of_nat k" using 3 k by (simp add: await_phase_def)
    then have sig: "sig \<longleftrightarrow> k = 0" using l(2) ref_inj[of k 0] k(2) by auto
    have dt: "d \<noteq> t" using d(1) t(2) by auto
    have "await_phase S'"
    proof (cases "k = 0")
      case True
      have "finite (at_pc T_ref S')" by (rule finite_subset[OF _ D(3)]) (auto simp: at_pc_def S'_def split: if_splits)
      then have "at_pc T_ref S' = {}" using r True by (simp add: refs_def)
      then have ne: "tpcs S u \<noteq> T_ref" if "u \<noteq> t" for u using that by (auto simp: at_pc_def S'_def split: if_splits)
      have "settled S' {d, t} {T_out}" using d(2) ne by (fastforce simp: settled_def S'_def)
      then show ?thesis using 3 True r w l(1) d(1) dt sig unfolding await_phase_def
        by (intro conjI exI[of _ d] disjI2 exI[of _ t]) (auto simp: S'_def)
    next
      case False
      then show ?thesis using 3 r w l(1) d dt sig by (auto simp: await_phase_def S'_def settled_def intro!: exI[of _ d])
    qed
    moreover have "rl_ok l" using ref_bits(5)[OF k(2)] D(1) unfolding l(1) w by simp
    ultimately show ?thesis by blast
  qed
  then show ?thesis using D(2) t(1) unfolding S'_def[symmetric] by (auto simp: lock_inv_def S'_def)
qed

lemma destroy_step:
  assumes N: "Suc N < 2 ^ 28" and I: "lock_inv N S" and t: "t < N" "tpcs S t = T_del" and u: "reflock_destroy_begin (rlock S) = (wait, l)"
  shows "lock_inv N (set_pc t (if wait then T_await else T_poison) (S\<lparr>rlock := l\<rparr>))"
proof -
  note D = lock_invD[OF I]
  have P: "del_phase S" by (rule D(7)[OF t(2)])
  then obtain d where d: "tpcs S d = T_del" "settled S {d} {T_out, T_ref}" by (auto simp: del_phase_def)
  have dt: "d = t"
  proof (rule ccontr)
    assume "d \<noteq> t" then show False using d(2) t(2) by (auto simp: settled_def)
  qed
  have k: "refs S < 2 ^ 28" using D(4) N by simp
  define S' where "S' = set_pc t (if wait then T_await else T_poison) (S\<lparr>rlock := l\<rparr>)"
  have r: "refs S' = refs S" using refs_set[of "S\<lparr>rlock := l\<rparr>" t "if wait then T_await else T_poison"] D(3) t(2) by (simp add: S'_def)
  have w: "rl_state (rlock S) + (REFLOCK__DESTROY - REFLOCK__REF) = REFLOCK__DESTROY + of_nat (refs S)" using P by (simp add: del_phase_def)
  have l: "l = \<lparr>rl_state = REFLOCK__DESTROY + of_nat (refs S), rl_ok = True\<rparr>" "wait \<longleftrightarrow> (of_nat (refs S) :: u32) \<noteq> 0"
    using u D(1) ref_bits(3,4)[OF k] unfolding reflock_destroy_begin_def Let_def w by auto
  have "(of_nat (refs S) :: u32) = 0 \<longleftrightarrow> refs S = 0" using ref_inj[of "refs S" 0] k by auto
  then have wait: "wait \<longleftrightarrow> 0 < refs S" using l(2) by simp
  have "await_phase S' \<or> last_phase S'"
  proof (cases wait)
    case True
    then have "await_phase S'" using P d dt r l wait by (auto simp: await_phase_def del_phase_def S'_def settled_def intro!: exI[of _ t])
    then show ?thesis by blast
  next
    case False
    then have "refs S = 0" using wait by simp
    then have "at_pc T_ref S = {}" using D(3) by (simp add: refs_def)
    then have "settled S' {t} {T_out}" using d(2) dt by (auto simp: settled_def S'_def at_pc_def)
    then have "last_phase S'" using P False l wait \<open>refs S = 0\<close> by (auto simp: last_phase_def del_phase_def S'_def intro!: exI[of _ t])
    then show ?thesis by blast
  qed
  then show ?thesis using D(2) t(1) l(1) unfolding S'_def[symmetric] by (auto simp: lock_inv_def S'_def)
qed

lemma rendezvous_step:
  assumes I: "lock_inv N S" and t: "t < N" "tpcs S t = T_signal" and u: "u < N" "tpcs S u = T_await"
  shows "lock_inv N (set_pc t T_out (set_pc u T_poison S))"
proof -
  note D = lock_invD[OF I]
  have P: "await_phase S" by (rule D(8)[OF t(2)])
  then obtain d where d: "tpcs S d = T_await" "0 < refs S \<and> settled S {d} {T_out, T_ref} \<or> refs S = 0 \<and> (\<exists>g. g \<noteq> d \<and> tpcs S g = T_signal \<and> settled S {d, g} {T_out})"
    by (auto simp: await_phase_def)
  have td: "t \<noteq> d" using d(1) t(2) by auto
  then have "\<not> settled S {d} {T_out, T_ref}" using t(2) by (auto simp: settled_def)
  then obtain g where g: "refs S = 0" "tpcs S g = T_signal" "settled S {d, g} {T_out}" using d(2) by blast
  have "g = t" "u = d" using g(2,3) td t(2) u(2) d(1) by (auto simp: settled_def)
  then have "last_phase (set_pc t T_out (set_pc u T_poison S))"
    using P g d(1) td by (auto simp: last_phase_def await_phase_def settled_def intro!: exI[of _ u])
  then show ?thesis using D(1,2) t(1) u(1) by (auto simp: lock_inv_def)
qed

lemma end_step:
  assumes I: "lock_inv N S" and t: "t < N"
  shows "tpcs S t = T_poison \<Longrightarrow> lock_inv N (set_pc t T_delete (S\<lparr>rlock := reflock_destroy_end (rlock S)\<rparr>))"
    "tpcs S t = T_delete \<Longrightarrow> lock_inv N (set_pc t T_out S)"
proof -
  note D = lock_invD[OF I]
  { assume p: "tpcs S t \<in> {T_poison, T_delete}"
    then have P: "last_phase S" by (rule D(10))
    then obtain d where d: "tpcs S d = T_poison \<and> rl_state (rlock S) = REFLOCK__DESTROY \<or> tpcs S d = T_delete \<or> tpcs S d = T_out" "settled S {d} {T_out}"
      unfolding last_phase_def by blast
    have dt: "d = t"
    proof (rule ccontr)
      assume "d \<noteq> t" then show False using d(2) p by (auto simp: settled_def)
    qed
    have "last_phase (set_pc t x (S\<lparr>rlock := l\<rparr>))" if "x = T_delete \<or> x = T_out" for x l
      using that P d(2) dt by (auto simp: last_phase_def settled_def intro!: exI[of _ t])
    then have "last_phase (set_pc t x (S\<lparr>rlock := l\<rparr>))" "tpcs S t = T_poison \<longrightarrow> rl_state (rlock S) = REFLOCK__DESTROY" if "x = T_delete \<or> x = T_out" for x l
      using that d(1) dt by auto }
  note L = this
  show "lock_inv N (set_pc t T_delete (S\<lparr>rlock := reflock_destroy_end (rlock S)\<rparr>))" if "tpcs S t = T_poison"
    using L(1)[of T_delete "reflock_destroy_end (rlock S)"] L(2)[of T_delete] that D(1,2) t by (auto simp: lock_inv_def reflock_destroy_end_def)
  show "lock_inv N (set_pc t T_out S)" if "tpcs S t = T_delete"
    using L(1)[of T_out "rlock S"] that D(1,2) t by (auto simp: lock_inv_def)
qed

lemma rstep_inv: "rstep N S S' \<Longrightarrow> Suc N < 2 ^ 28 \<Longrightarrow> lock_inv N S \<Longrightarrow> lock_inv N S'"
proof (induction rule: rstep.induct)
  case (unref t S sig l)
  show ?case by (rule unref_step) (rule unref)+
next
  case (destroy t S wait l)
  show ?case by (rule destroy_step) (rule destroy)+
qed (blast intro: ref_step rendezvous_step end_step)+

lemma rreach_inv: "rreach N S \<Longrightarrow> Suc N < 2 ^ 28 \<Longrightarrow> lock_inv N S"
proof (induction rule: rreach.induct)
  case start
  have "refs \<lparr>rlock = reflock_init, in_tree = True, tpcs = (\<lambda>_. T_out)\<rparr> = 0" by (simp add: refs_def at_pc_def)
  then show ?case by (simp add: lock_inv_def open_phase_def settled_def reflock_init_def)
next
  case (step S S')
  then show ?case using rstep_inv by blast
qed

text \<open>
  C39: A port is deleted only when nobody uses it, and nobody waits in vain. For fewer than $2^{28} - 1$ threads and every
  interleaving of \<^verbatim>\<open>epoll_ctl\<close>, \<^verbatim>\<open>epoll_wait\<close> and \<^verbatim>\<open>epoll_close\<close> on one handle: no assertion of the lock fails; at most one thread
  closes, and while it deletes the port all others are outside; a thread that signals the event finds the closing thread
  awaiting it; and as long as the closing thread awaits, some thread holds a reference or is about to signal.
\<close>

theorem reflock_excludes:
  assumes "rreach N S" "Suc N < 2 ^ 28"
  shows "rl_ok (rlock S) \<and>
    (\<forall>t u. tpcs S t \<in> {T_poison, T_delete} \<and> u \<noteq> t \<longrightarrow> tpcs S u = T_out) \<and>
    (\<forall>t u. tpcs S t \<in> {T_del, T_await} \<and> tpcs S u \<in> {T_del, T_await, T_poison, T_delete} \<longrightarrow> u = t) \<and>
    (\<forall>t. tpcs S t = T_signal \<longrightarrow> (\<exists>d. tpcs S d = T_await)) \<and>
    (\<forall>t. tpcs S t = T_await \<longrightarrow> (\<exists>u. tpcs S u \<in> {T_ref, T_signal}))"
proof -
  have I: "lock_inv N S" by (rule rreach_inv[OF assms])
  note D = lock_invD[OF I]
  have "tpcs S u = T_out" if p: "tpcs S t \<in> {T_poison, T_delete}" "u \<noteq> t" for t u
  proof -
    obtain d where d: "settled S {d} {T_out}" using D(10)[OF p(1)] by (auto simp: last_phase_def)
    then have "t = d" using p(1) by (fastforce simp: settled_def)
    then show ?thesis using d p(2) by (simp add: settled_def)
  qed
  moreover have "u = t" if p: "tpcs S t \<in> {T_del, T_await}" "tpcs S u \<in> {T_del, T_await, T_poison, T_delete}" for t u
  proof -
    have "del_phase S \<or> await_phase S" using p(1) D(7)[of t] D(9)[of t] by blast
    then obtain d where "settled S {d} {T_out, T_ref, T_signal}"
    proof
      assume "del_phase S"
      then obtain e where "settled S {e} {T_out, T_ref}" by (auto simp: del_phase_def)
      then have "settled S {e} {T_out, T_ref, T_signal}" by (auto simp: settled_def)
      then show ?thesis by (rule that)
    next
      assume "await_phase S"
      then obtain e where e: "settled S {e} {T_out, T_ref} \<or> (\<exists>g. tpcs S g = T_signal \<and> settled S {e, g} {T_out})" by (auto simp: await_phase_def)
      then have "settled S {e} {T_out, T_ref, T_signal}" by (fastforce simp: settled_def)
      then show ?thesis by (rule that)
    qed
    then have "x = d" if "tpcs S x \<in> {T_del, T_await, T_poison, T_delete}" for x using that by (fastforce simp: settled_def)
    then show ?thesis using p by blast
  qed
  moreover have "\<exists>d. tpcs S d = T_await" if "tpcs S t = T_signal" for t using D(8)[OF that] by (auto simp: await_phase_def)
  moreover have "\<exists>u. tpcs S u \<in> {T_ref, T_signal}" if "tpcs S t = T_await" for t
    using D(9)[OF that] refs_out[of S _ "{T_out}"] by (fastforce simp: await_phase_def refs_def at_pc_def card_gt_0_iff)
  ultimately show ?thesis using D(1) by blast
qed

text \<open>Thread 0 waits for events while thread 1 closes the port.\<close>

definition ex_closing :: rstate where
  "ex_closing = \<lparr>rlock = \<lparr>rl_state = REFLOCK__DESTROY + 1, rl_ok = True\<rparr>, in_tree = False, tpcs = (\<lambda>_. T_out)(0 := T_ref, 1 := T_await)\<rparr>"

theorem reflock_excludes_witness:
  "tpcs ex_closing 1 = T_await \<and> (\<exists>u. tpcs ex_closing u \<in> {T_ref, T_signal}) \<and> rl_ok (rlock ex_closing)"
proof -
  define a where "a = \<lparr>rlock = reflock_init, in_tree = True, tpcs = (\<lambda>_. T_out)\<rparr>"
  define b where "b = set_pc 0 T_ref (a\<lparr>rlock := reflock_ref (rlock a)\<rparr>)"
  define c where "c = set_pc 1 T_del (b\<lparr>rlock := reflock_ref (rlock b), in_tree := False\<rparr>)"
  have ab: "rstep 2 a b" unfolding b_def by (rule rstep.find_and_ref) (simp_all add: a_def)
  have bc: "rstep 2 b c" unfolding c_def by (rule rstep.del_and_ref) (simp_all add: b_def a_def set_pc_def)
  have "rstep 2 c (set_pc 1 (if True then T_await else T_poison) (c\<lparr>rlock := \<lparr>rl_state = REFLOCK__DESTROY + 1, rl_ok = True\<rparr>\<rparr>))"
    by (rule rstep.destroy) (simp_all add: c_def b_def a_def set_pc_def reflock_destroy_begin_def reflock_ref_def reflock_init_def Let_def)
  moreover have "set_pc 1 (if True then T_await else T_poison) (c\<lparr>rlock := \<lparr>rl_state = REFLOCK__DESTROY + 1, rl_ok = True\<rparr>\<rparr>) = ex_closing"
    by (simp add: c_def b_def a_def set_pc_def ex_closing_def fun_upd_twist)
  ultimately have "rstep 2 c ex_closing" by simp
  then have "rreach 2 ex_closing" by (rule rreach.step[OF rreach.step[OF rreach.step[OF rreach.start ab[unfolded a_def]] bc]])
  moreover have "Suc 2 < 2 ^ 28" "tpcs ex_closing 1 = T_await" by (simp_all add: ex_closing_def)
  ultimately show ?thesis using reflock_excludes[of 2 ex_closing] by blast
qed

end
