(* ===== verification/Spec2Isabelle.thy ===== *)
theory Spec2Isabelle
  imports Ecb Wakeup Backend_Poll Backend_Select Iouring_Spec Linuxaio_Spec Backend_Kqueue Run_Host Registry_Spec Event_Spec Embed
    Wepoll_Api Wepoll_Reflock
begin

text \<open>
  A verification of qev, a fork of the event loop library libev.

  \<^bold>\<open>The program.\<close> A loop (\<^verbatim>\<open>struct ev_loop\<close>, \<^verbatim>\<open>src/ev_vars.h\<close>) holds watchers (\<^verbatim>\<open>src/ev.h\<close>): descriptors, relative and
  absolute timers, signals, children, file status, idle, prepare, check, fork, cleanup and async watchers.
  \<^verbatim>\<open>ev_run\<close> (\<^verbatim>\<open>src/ev.c\<close>) goes round: it brings the kernel's descriptor set up to date (\<^verbatim>\<open>fd_reify\<close>, through one of the
  backends \<^verbatim>\<open>ev_select.c\<close>, \<^verbatim>\<open>ev_poll.c\<close>, \<^verbatim>\<open>ev_epoll.c\<close>, \<^verbatim>\<open>ev_iouring.c\<close>, \<^verbatim>\<open>ev_linuxaio.c\<close>, \<^verbatim>\<open>ev_kqueue.c\<close>, \<^verbatim>\<open>ev_port.c\<close>), sleeps in the backend until the
  next deadline, collects what is due into per-priority queues of pending events, and calls the callbacks. Signal
  handlers and other threads wake the loop through flags and a pipe. \<^verbatim>\<open>event.c\<close> offers libevent's interface on top; on
  Windows a registry in \<^verbatim>\<open>ev.c\<close> gives small integers to sockets, and \<^verbatim>\<open>wepoll.c\<close> emulates epoll for \<^verbatim>\<open>ev_epoll.c\<close>.

  \<^bold>\<open>How the model corresponds to the code.\<close> The loop structure is the record \<open>ev_loop\<close> with the members' names; an
  array is a function with a count and an allocated size; the watcher objects are a store \<open>ws\<close> from pointers
  (\<open>W\<close>) to records. Every C function is one definition of the same name that takes and returns the loop. Code outside
  the repository (system calls, clocks, user callbacks) is a field of the record \<open>env\<close>, or of a backend's own record
  (\<open>poll_os\<close>, \<open>epoll_os\<close>, \dots), and acts on an abstract outside state \<open>os\<close>. State that a component shares with the outside
  (the rings of io_uring and Linux AIO, records \<open>uring\<close> and \<open>laio\<close>; the events of the libevent emulation, record
  \<open>libevent\<close>) is part of \<open>os\<close>, so that the kernel and callbacks can act on it between the library's accesses. The ghost flag \<open>ok\<close> is cleared by a failed
  assertion or an array access outside its allocation; theorems that \<open>ok\<close> is kept say that neither happens. A function
  that may not return (a callback, a retry loop, \<^verbatim>\<open>abort\<close>) has an \<open>option\<close> result, and \<open>None\<close> is not returning;
  loops are \<open>partial_function\<close>s and theorems about them claim that they return. No fuel is used, except for the
  retry counts the source itself has (\<open>select_retry\<close>, \<open>kevent_retry\<close>, \<open>linuxaio_cancel\<close>: 256 calls; \<open>iouring_get_sqe_spin\<close>:
  64; \<open>cq_drain_from\<close>: the budget of 4096 completions per call). Doubles are reals with every
  operation rounded (\<open>rnd64\<close>, theory \<open>Tstamp\<close>); masks and the array size computation are machine words.

  \<^bold>\<open>The theories.\<close>
  \<^item> \<open>Prelude\<close>: word types, constants of \<^verbatim>\<open>ev.h\<close>, multisets of array slices. \<open>Tstamp\<close>: double arithmetic.
  \<^item> \<open>Ecb\<close>: the bit operations of the embedded libecb: bit search, reversal, rotation, floored division, half floats.
  \<^item> \<open>Watchers\<close>, \<open>Loop_State\<close>: data, and the helpers of every start and stop routine.
  \<^item> \<open>DHeap\<close>: the 4-heap and the 2-heap of deadlines; every operation keeps what \<^verbatim>\<open>verify_heap\<close> asserts.
    \<open>Arrays\<close>: \<^verbatim>\<open>array_nextsize\<close> and \<^verbatim>\<open>array_realloc\<close>: the growth never wraps and fits.
  \<^item> \<open>Pending\<close>: the pending queues; \<^verbatim>\<open>ev_invoke_pending\<close> calls each pending callback once, in order. The locale
    \<open>callbacks\<close> states what callbacks must keep; \<open>Loop_Api\<close> interprets it.
  \<^item> \<open>Timed\<close>, \<open>Timers\<close>: heaps of active timers and relative timers; exactly the due timers fire.
  \<^item> \<open>Fd_Watch\<close>: descriptor watchers and \<^verbatim>\<open>fd_reify\<close>. The locale \<open>fd_backend\<close> is the contract of a backend; inside it
    \<open>reify_sync\<close> shows that the kernel serves what the watchers want.
  \<^item> \<open>Basics\<close>: initialisers and clocks. \<open>Array_Watchers\<close>: prepare, check, fork, cleanup (one locale \<open>warray\<close>,
    interpreted four times) and idle watchers.
  \<^item> \<open>Periodics\<close>: absolute timers, \<^verbatim>\<open>ev_floor\<close>, the timerfd.
  \<^item> \<open>Signals\<close>: the wake pipe, signals, children, async watchers. \<open>Wakeup\<close>: the same handshake with senders and loop
    interleaved access by access; no wake-up is lost, and a round of the loop ends and delivers every message once.
  \<^item> \<open>Stat\<close>: file status watchers and inotify. \<open>Once\<close>: \<^verbatim>\<open>ev_once\<close>. \<open>Walk\<close>: \<^verbatim>\<open>ev_verify\<close>, \<^verbatim>\<open>ev_walk\<close>.
  \<^item> \<open>Setup\<close>: creating, forking and destroying a loop, dispatch of callbacks. \<open>Run\<close>: \<^verbatim>\<open>time_update\<close> and \<^verbatim>\<open>ev_run\<close>.
  \<^item> \<open>Loop_Inv\<close>: the invariant of the whole loop, which implies every check of \<^verbatim>\<open>ev_verify\<close>. \<open>Loop_Api\<close>: each operation of
    the interface keeps it, so arbitrary programs do, also as callbacks that run inside \<^verbatim>\<open>ev_invoke_pending\<close>. \<open>Io_Inv\<close>: the
    part of it the backends work with.
  \<^item> \<open>Run_Inv\<close>, \<open>Run_Spec\<close>: \<^verbatim>\<open>ev_run\<close> as a whole. What the loop does between two callbacks is \<open>internal\<close>; the locale \<open>run_host\<close>
    states what callbacks, backend and clocks promise, and inside it a whole run keeps \<open>run_inv\<close>, leaves nothing pending and
    returns. \<open>Run_Api\<close>, \<open>Run_Host\<close>: its interpretation, the select backend with callbacks that are arbitrary programs.
    These theories leave out \<^verbatim>\<open>EVFLAG_FORKCHECK\<close> and a pending \<^verbatim>\<open>ev_loop_fork\<close>, and take only the callbacks for wake-ups,
    dropped events and timerfd as the library's own; the others are treated in their own theories.
  \<^item> \<open>Backend\<close> and \<open>Backend_Poll\<close>, \<open>Backend_Select\<close>, \<open>Backend_Epoll\<close>, \<open>Backend_Kqueue\<close>: the backends. Poll and select
    interpret \<open>fd_backend\<close>.
  \<^item> \<open>Backend_Iouring\<close>, \<open>Iouring_Spec\<close>: the io_uring backend; layout checks, no request is lost (what the kernel
    took and what still waits make up what was submitted), draining is bounded and safe.
    \<open>Backend_Linuxaio\<close>, \<open>Linuxaio_Spec\<close>: the Linux AIO backend; its completion ring is read exactly once.
  \<^item> \<open>WList\<close>: \<^verbatim>\<open>wlist_add\<close> and \<^verbatim>\<open>wlist_del\<close> on pointers, and the lists they implement. \<open>Win_Registry\<close>, \<open>Registry_Spec\<close>:
    the Windows descriptor registry, a finite map that survives failing allocations.
  \<^item> \<open>Embed\<close>: \<^verbatim>\<open>ev_embed\<close>, a watcher that runs another loop, which is part of \<open>os\<close>.
  \<^item> \<open>Event\<close>, \<open>Event_Spec\<close>: the libevent emulation; \<^verbatim>\<open>event_del\<close> removes an event completely, also from the signal table.
  \<^item> \<open>Wepoll_Tree\<close>, \<open>Wepoll_Queue\<close>: the red-black tree and the intrusive queues of \<^verbatim>\<open>wepoll.c\<close> and the maps and lists they
    implement. \<open>Wepoll_Port\<close>: its ports, sockets and poll groups, in a record \<open>port\<close> of their own, with the NT calls in the
    record \<open>wenv\<close>; \<open>Wepoll_Inv\<close>, \<open>Wepoll_Spec\<close>, \<open>Wepoll_Steps\<close>, \<open>Wepoll_Api\<close>: the invariant, that every operation keeps it, what
    threads and driver can do in any order, and what \<^verbatim>\<open>epoll_ctl\<close>, \<^verbatim>\<open>epoll_wait\<close> and \<^verbatim>\<open>epoll_close\<close> then promise. \<open>Wepoll_Reflock\<close>:
    the reference counted lock, with threads interleaved at the interlocked operations.

  \<^bold>\<open>Choices.\<close> The build is the default one on Linux (all watcher types, \<^verbatim>\<open>EV_MULTIPLICITY\<close>, five priorities, 4-heap with
  cached deadlines), with assertions enabled; the compile-time choice of backends is the record \<open>config\<close>. Memory fences
  are the sequential consistency of the interleaving in \<open>Wakeup\<close>. Allocation succeeds, as \<^verbatim>\<open>ev_realloc\<close> aborts otherwise.

  \<^bold>\<open>Not modelled.\<close> Of the Windows layer: in \<^verbatim>\<open>wepoll.c\<close> the one-time initialisation, the global table from handles to ports
  and the entry points around it (\<^verbatim>\<open>epoll_create\<close>, \<^verbatim>\<open>epoll_close\<close>; its lock and its tree are modelled); \<^verbatim>\<open>ev_win32.c\<close>; IOCP. The C++ wrapper (\<^verbatim>\<open>ev++.h\<close>,
  templates over the public interface), the macros that rename members (\<^verbatim>\<open>ev_wrap.h\<close>), tests, benchmarks and build files.
\<close>

end
